(* ===== verification/KPrelude.thy ===== *)
theory KPrelude
  imports Main "HOL-Library.Word"
begin

text \<open>
  Prelude of the development: error numbers, the outcome of a kernel routine, the small
  calculus in which the routines are verified, 32-bit arithmetic, and list lemmas shared by the
  components.

  A C routine that works on some state and returns an error number is a function from the state
  to an \<open>outcome\<close>: \<open>Done x s\<close> for "returned 0 (and handed back \<open>x\<close>)", \<open>Fail e s\<close> for
  "returned the error \<open>e\<close>" (the state still shows what was changed before the error), \<open>Panic\<close>
  for a failed \<open>assert\<close> or a call of \<open>panic\<close>, which stop the machine.
\<close>

section \<open>Error numbers (kern/include/kern/errno.h)\<close>

datatype errno =
    EINVAL | EFAULT | ENAMETOOLONG | ENOMEM | EIO | ENOENT | ENOTDIR | EISDIR | EEXIST | EXDEV
  | EAGAIN | ESPIPE | EUNIMP | ENXIO | ENODEV | EBUSY | EIOCTL | ENOTEMPTY | ERANGE | ENOSPC
  | EMFILE | ENFILE | ENOSYS | ENOEXEC | E2BIG | EBADF

section \<open>Bytes\<close>

type_synonym byte = "8 word"

section \<open>Outcomes and the operations on them\<close>

datatype ('a, 's) outcome = Done 'a 's | Fail errno 's | Panic

type_synonym ('s, 'a) op = "'s \<Rightarrow> ('a, 's) outcome"

definition kret :: "'a \<Rightarrow> ('s, 'a) op" where
  "kret x = (\<lambda>s. Done x s)"

definition kfail :: "errno \<Rightarrow> ('s, 'a) op" where
  "kfail e = (\<lambda>s. Fail e s)"

definition kpanic :: "('s, 'a) op" where
  "kpanic = (\<lambda>s. Panic)"

text \<open>\<open>kbind m k\<close> is \<open>result = m(); if (result) return result; k\<close>.\<close>

definition kbind :: "('s, 'a) op \<Rightarrow> ('a \<Rightarrow> ('s, 'b) op) \<Rightarrow> ('s, 'b) op" where
  "kbind m k = (\<lambda>s. case m s of Done x t \<Rightarrow> k x t | Fail e t \<Rightarrow> Fail e t | Panic \<Rightarrow> Panic)"

text \<open>\<open>kassert b\<close> is the kernel's \<open>assert\<close>: it panics when the condition is false.\<close>

definition kassert :: "bool \<Rightarrow> ('s, unit) op" where
  "kassert b = (\<lambda>s. if b then Done () s else Panic)"

definition kget :: "('s \<Rightarrow> 'a) \<Rightarrow> ('s, 'a) op" where
  "kget f = (\<lambda>s. Done (f s) s)"

definition kmodify :: "('s \<Rightarrow> 's) \<Rightarrow> ('s, unit) op" where
  "kmodify f = (\<lambda>s. Done () (f s))"

text \<open>
  \<open>kattempt m\<close> is \<open>result = m();\<close> with the result kept for inspection instead of being
  returned at once.
\<close>

definition kattempt :: "('s, 'a) op \<Rightarrow> ('s, errno + 'a) op" where
  "kattempt m = (\<lambda>s. case m s of Done x t \<Rightarrow> Done (Inr x) t | Fail e t \<Rightarrow> Done (Inl e) t
                              | Panic \<Rightarrow> Panic)"

text \<open>\<open>kresult r\<close> is \<open>return result;\<close> of a result kept by \<open>kattempt\<close>.\<close>

definition kresult :: "errno + 'a \<Rightarrow> ('s, 'a) op" where
  "kresult r = (case r of Inl e \<Rightarrow> kfail e | Inr x \<Rightarrow> kret x)"

text \<open>
  \<open>kzoom get put m\<close> runs an operation of a component on the part of a larger state that holds
  the component.
\<close>

definition kzoom :: "('s \<Rightarrow> 't) \<Rightarrow> ('t \<Rightarrow> 's \<Rightarrow> 's) \<Rightarrow> ('t, 'a) op \<Rightarrow> ('s, 'a) op" where
  "kzoom gt pt m = (\<lambda>s. case m (gt s) of Done x t \<Rightarrow> Done x (pt t s) | Fail e t \<Rightarrow> Fail e (pt t s)
                                   | Panic \<Rightarrow> Panic)"

definition kwhen :: "bool \<Rightarrow> ('s, unit) op \<Rightarrow> ('s, unit) op" where
  "kwhen b m = (if b then m else kret ())"

text \<open>\<open>kfor is f\<close>: a \<open>for\<close> loop over the listed indices whose body may return an error.\<close>

primrec kfor :: "'i list \<Rightarrow> ('i \<Rightarrow> ('s, unit) op) \<Rightarrow> ('s, unit) op" where
  "kfor [] f = kret ()"
| "kfor (i # is) f = kbind (f i) (\<lambda>_. kfor is f)"

section \<open>Weakest preconditions\<close>

text \<open>
  \<open>wp m Q R s\<close>: run from \<open>s\<close>, the operation does not panic; if it succeeds, \<open>Q\<close> holds of the
  result and the new state; if it fails, \<open>R\<close> holds of the error and the new state.
\<close>

definition wp :: "('s, 'a) op \<Rightarrow> ('a \<Rightarrow> 's \<Rightarrow> bool) \<Rightarrow> (errno \<Rightarrow> 's \<Rightarrow> bool) \<Rightarrow> 's \<Rightarrow> bool" where
  "wp m Q R s = (case m s of Done x t \<Rightarrow> Q x t | Fail e t \<Rightarrow> R e t | Panic \<Rightarrow> False)"

named_theorems wps \<open>evaluation of wp on the combinators\<close>

lemma wp_kret [wps]: "wp (kret x) Q R = Q x"
  by (simp add: wp_def kret_def fun_eq_iff)

lemma wp_kfail [wps]: "wp (kfail e) Q R = R e"
  by (simp add: wp_def kfail_def fun_eq_iff)

lemma wp_kpanic [wps]: "wp kpanic Q R = (\<lambda>s. False)"
  by (simp add: wp_def kpanic_def fun_eq_iff)

lemma wp_kbind [wps]: "wp (kbind m k) Q R = wp m (\<lambda>x. wp (k x) Q R) R"
  by (simp add: wp_def kbind_def fun_eq_iff split: outcome.splits)

lemma wp_kassert [wps]: "wp (kassert b) Q R = (\<lambda>s. b \<and> Q () s)"
  by (simp add: wp_def kassert_def fun_eq_iff)

lemma wp_kget [wps]: "wp (kget f) Q R = (\<lambda>s. Q (f s) s)"
  by (simp add: wp_def kget_def fun_eq_iff)

lemma wp_kmodify [wps]: "wp (kmodify f) Q R = (\<lambda>s. Q () (f s))"
  by (simp add: wp_def kmodify_def fun_eq_iff)

lemma wp_kattempt [wps]: "wp (kattempt m) Q R = wp m (\<lambda>x. Q (Inr x)) (\<lambda>e. Q (Inl e))"
  by (simp add: wp_def kattempt_def fun_eq_iff split: outcome.splits)

lemma wp_kresult [wps]: "wp (kresult r) Q R = (case r of Inl e \<Rightarrow> R e | Inr x \<Rightarrow> Q x)"
  by (simp add: kresult_def wps split: sum.splits)

lemma wp_kzoom [wps]:
  "wp (kzoom gt pt m) Q R = (\<lambda>s. wp m (\<lambda>x t. Q x (pt t s)) (\<lambda>e t. R e (pt t s)) (gt s))"
  by (simp add: wp_def kzoom_def fun_eq_iff split: outcome.splits)

lemma wp_kwhen [wps]: "wp (kwhen b m) Q R = (if b then wp m Q R else Q ())"
  by (simp add: kwhen_def wps)

lemma wp_if [wps]: "wp (if b then m else m') Q R = (if b then wp m Q R else wp m' Q R)"
  by simp

lemma wp_kfor_Nil [wps]: "wp (kfor [] f) Q R = Q ()"
  by (simp add: wps)

lemma wp_kfor_Cons [wps]: "wp (kfor (i # is) f) Q R = wp (f i) (\<lambda>_. wp (kfor is f) Q R) R"
  by (simp add: wps)

text \<open>Consequence, and what a \<open>wp\<close> fact says of a run that returned.\<close>

lemma wp_mono:
  assumes "wp m Q R s"
    and "\<And>x t. Q x t \<Longrightarrow> Q' x t" and "\<And>e t. R e t \<Longrightarrow> R' e t"
  shows "wp m Q' R' s"
  using assms by (auto simp: wp_def split: outcome.splits)

lemma wp_conj:
  assumes "wp m Q R s" and "wp m Q' R' s"
  shows "wp m (\<lambda>x t. Q x t \<and> Q' x t) (\<lambda>e t. R e t \<and> R' e t) s"
  using assms by (auto simp: wp_def split: outcome.splits)

lemma wp_DoneD: "wp m Q R s \<Longrightarrow> m s = Done x t \<Longrightarrow> Q x t"
  by (simp add: wp_def)

lemma wp_FailD: "wp m Q R s \<Longrightarrow> m s = Fail e t \<Longrightarrow> R e t"
  by (simp add: wp_def)

lemma wp_not_Panic: "wp m Q R s \<Longrightarrow> m s \<noteq> Panic"
  by (auto simp: wp_def)

lemma wp_cases:
  assumes "wp m Q R s"
  obtains (Done) x t where "m s = Done x t" "Q x t" | (Fail) e t where "m s = Fail e t" "R e t"
  using assms by (cases "m s") (auto simp: wp_def)

lemma wp_kfor_append [wps]: "wp (kfor (is @ js) f) Q R = wp (kfor is f) (\<lambda>_. wp (kfor js f) Q R) R"
  by (induction "is") (simp_all add: wps)

text \<open>A loop keeps an invariant that its body keeps.\<close>

lemma wp_kfor_inv:
  assumes "I s"
    and "\<And>i t. i \<in> set is \<Longrightarrow> I t \<Longrightarrow> wp (f i) (\<lambda>_. I) R t"
  shows "wp (kfor is f) (\<lambda>_. I) R s"
  using assms
proof (induction "is" arbitrary: s)
  case Nil
  then show ?case by (simp add: wps)
next
  case (Cons i "is")
  have "wp (f i) (\<lambda>_. I) R s" using Cons.prems by simp
  then show ?case
    unfolding wp_kfor_Cons by (rule wp_mono) (use Cons in auto)
qed

section \<open>32-bit arithmetic\<close>

text \<open>
  \<open>u_int32_t\<close> and \<open>size_t\<close> values are naturals below \<open>2\<^sup>3\<^sup>2\<close>, \<open>off_t\<close> values (a signed
  32-bit type in this kernel) integers between \<open>- 2\<^sup>3\<^sup>1\<close> and \<open>2\<^sup>3\<^sup>1 - 1\<close>; where an operation can
  leave its range the wrap-around is written with these functions.
\<close>

definition u32 :: "nat \<Rightarrow> nat" where
  "u32 n = n mod 4294967296"

definition sub32 :: "nat \<Rightarrow> nat \<Rightarrow> nat" where
  "sub32 a b = (a + 4294967296 - b mod 4294967296) mod 4294967296"

definition off32 :: "int \<Rightarrow> int" where
  "off32 x = (x + 2147483648) mod 4294967296 - 2147483648"

text \<open>Conversion of a signed value to 32 bits unsigned, and C's truncating division of signed values.\<close>

definition to_u32 :: "int \<Rightarrow> nat" where
  "to_u32 x = nat (x mod 4294967296)"

definition cdiv :: "int \<Rightarrow> int \<Rightarrow> int" where
  "cdiv x y = (if x < 0 then - ((- x) div y) else x div y)"

definition cmod :: "int \<Rightarrow> int \<Rightarrow> int" where
  "cmod x y = (if x < 0 then - ((- x) mod y) else x mod y)"

lemma to_u32_nat [simp]: "0 \<le> x \<Longrightarrow> x < 4294967296 \<Longrightarrow> to_u32 x = nat x"
  by (simp add: to_u32_def)

lemma cdiv_nonneg [simp]: "0 \<le> x \<Longrightarrow> cdiv x y = x div y"
  by (simp add: cdiv_def)

lemma cmod_nonneg [simp]: "0 \<le> x \<Longrightarrow> cmod x y = x mod y"
  by (simp add: cmod_def)

lemma u32_id [simp]: "n < 4294967296 \<Longrightarrow> u32 n = n"
  by (simp add: u32_def)

lemma u32_lt [simp]: "u32 n < 4294967296"
  by (simp add: u32_def)

lemma sub32_id:
  assumes "b \<le> a" and "a < 4294967296"
  shows "sub32 a b = a - b"
proof -
  have "a + 4294967296 - b mod 4294967296 = (a - b) + 4294967296" using assms by simp
  then have "sub32 a b = (a - b + 4294967296) mod 4294967296" by (simp only: sub32_def)
  also have "(a - b + 4294967296) mod 4294967296 = (a - b) mod 4294967296"
    by (rule mod_add_self2)
  finally show ?thesis using assms by simp
qed

lemma sub32_lt [simp]: "sub32 a b < 4294967296"
  by (simp add: sub32_def)

lemma off32_id: "- 2147483648 \<le> x \<Longrightarrow> x < 2147483648 \<Longrightarrow> off32 x = x"
  by (simp add: off32_def)

section \<open>Lists as memory\<close>

text \<open>\<open>put_at i ys xs\<close>: the list \<open>xs\<close> with the elements from position \<open>i\<close> replaced by \<open>ys\<close>.\<close>

definition put_at :: "nat \<Rightarrow> 'a list \<Rightarrow> 'a list \<Rightarrow> 'a list" where
  "put_at i ys xs = take i xs @ ys @ drop (i + length ys) xs"

lemma length_put_at [simp]:
  "i + length ys \<le> length xs \<Longrightarrow> length (put_at i ys xs) = length xs"
  by (simp add: put_at_def)

lemma nth_put_at:
  assumes "i + length ys \<le> length xs" and "j < length xs"
  shows "put_at i ys xs ! j = (if i \<le> j \<and> j < i + length ys then ys ! (j - i) else xs ! j)"
proof -
  have "length (take i xs) = i" using assms by simp
  then show ?thesis
    using assms unfolding put_at_def
    by (auto simp: nth_append not_less min_def)
qed

lemma put_at_Nil [simp]: "put_at i [] xs = xs"
  by (simp add: put_at_def)

lemma put_at_snoc:
  assumes "i + length ys < length xs"
  shows "put_at i (ys @ [y]) xs = (put_at i ys xs)[i + length ys := y]"
proof -
  have "drop (i + length ys) xs = xs ! (i + length ys) # drop (Suc (i + length ys)) xs"
    using assms by (simp add: Cons_nth_drop_Suc)
  then show ?thesis using assms by (simp add: put_at_def list_update_append)
qed

lemma put_at_0_all: "length ys = length xs \<Longrightarrow> put_at 0 ys xs = ys"
  by (simp add: put_at_def)

lemma take_put_at_remove:
  assumes "i < n" and "n \<le> length xs"
  shows "take (n - 1) (put_at i (take (n - (i + 1)) (drop (i + 1) xs)) xs)
           = take i (take n xs) @ drop (i + 1) (take n xs)"
proof -
  let ?ys = "take (n - (i + 1)) (drop (i + 1) xs)"
  have ys: "?ys = drop (i + 1) (take n xs)" by (simp add: drop_take)
  have "length (take i xs @ ?ys) = n - 1" using assms by simp
  then have "take (n - 1) ((take i xs @ ?ys) @ drop (i + length ?ys) xs) = take i xs @ ?ys"
    by (metis append_eq_conv_conj)
  then show ?thesis using assms ys by (simp add: put_at_def)
qed

lemma nth_take_drop: "i + k < length xs \<Longrightarrow> k < n \<Longrightarrow> take n (drop i xs) ! k = xs ! (i + k)"
  by simp

lemma take_update_less: "i < n \<Longrightarrow> take n (xs[i := y]) = (take n xs)[i := y]"
  by (simp add: take_update_swap)

lemma set_list_update_subset: "set (xs[i := y]) \<subseteq> insert y (set xs)"
  by (rule set_update_subset_insert)

lemma in_set_update_iff_distinct:
  assumes "distinct xs" and "i < length xs" and "y \<notin> set xs"
  shows "set (xs[i := y]) = insert y (set xs - {xs ! i})"
  using assms by (simp add: set_update_distinct)

end
