(* ===== verification/KArray.thy ===== *)
theory KArray
  imports KPrelude
begin

text \<open>
  The growable array of pointers of kern/lib/array.c, its invariant, its refinement to lists and
  the interface its clients (the vnode table of sfs, the sleepers and zombies tables, the table
  of known devices) rely on.

  A buffer is a list of cells; a cell is \<open>None\<close> as long as nothing was stored in it since
  \<open>kmalloc\<close> handed it out. The argument \<open>ok\<close> of an operation that calls \<open>kmalloc\<close> says
  whether that call succeeds.
\<close>

section \<open>The structure and its operations\<close>

record 'a karray =
  a_num :: int
  a_max :: int
  a_v :: "'a option list option"   \<comment> \<open>\<open>None\<close> is the null pointer\<close>

definition array_create :: "bool \<Rightarrow> 'a karray option" where
  "array_create ok =
     (if \<not> ok then None else Some \<lparr>a_num = 0, a_max = 0, a_v = None\<rparr>)"

definition array_getnum :: "'a karray \<Rightarrow> int" where
  "array_getnum a = a_num a"

text \<open>The cells behind the pointer \<open>v\<close>.\<close>

definition a_cells :: "'a karray \<Rightarrow> 'a option list" where
  "a_cells a = (case a_v a of None \<Rightarrow> [] | Some cs \<Rightarrow> cs)"

definition array_getguy :: "int \<Rightarrow> ('a karray, 'a option) op" where
  "array_getguy index =
     kbind (kget id) (\<lambda>a.
     kbind (kassert (a_num a \<le> a_max a)) (\<lambda>_.
     kbind (kassert (index \<ge> 0 \<and> index < a_num a)) (\<lambda>_.
     kret (a_cells a ! nat index))))"

text \<open>The loop \<open>while (nguys > newmax) newmax = (newmax+1)*2\<close>.\<close>

function grow_max :: "nat \<Rightarrow> nat \<Rightarrow> nat" where
  "grow_max nguys newmax = (if nguys > newmax then grow_max nguys ((newmax + 1) * 2) else newmax)"
  by pat_completeness auto
termination
  by (relation "measure (\<lambda>(nguys, newmax). nguys - newmax)") auto

declare grow_max.simps [simp del]

definition array_preallocate :: "bool \<Rightarrow> int \<Rightarrow> ('a karray, unit) op" where
  "array_preallocate ok nguys =
     kbind (kget id) (\<lambda>a.
     kbind (kassert (a_num a \<ge> 0 \<and> a_num a \<le> a_max a)) (\<lambda>_.
     let newmax = grow_max (nat nguys) (nat (a_max a)) in
     if \<not> ok then kfail ENOMEM
     else
       let copied = take (nat (a_num a)) (a_cells a) in
       kmodify (\<lambda>a. a\<lparr>a_max := int newmax,
                      a_v := Some (copied @ replicate (newmax - length copied) None)\<rparr>)))"

definition array_setsize :: "bool \<Rightarrow> int \<Rightarrow> ('a karray, unit) op" where
  "array_setsize ok nguys =
     kbind (kget id) (\<lambda>a.
     kbind (kassert (a_num a \<ge> 0 \<and> a_num a \<le> a_max a)) (\<lambda>_.
     kbind (if nguys > a_max a then array_preallocate ok nguys
            else if nguys = 0 \<and> a_max a > 16 then
              kbind (kassert (a_v a \<noteq> None)) (\<lambda>_.
              kmodify (\<lambda>a. a\<lparr>a_v := None, a_max := 0\<rparr>))
            else kret ()) (\<lambda>_.
     kmodify (\<lambda>a. a\<lparr>a_num := nguys\<rparr>))))"

definition array_setguy :: "int \<Rightarrow> 'a \<Rightarrow> ('a karray, unit) op" where
  "array_setguy index ptr =
     kbind (kget id) (\<lambda>a.
     kbind (kassert (a_num a \<le> a_max a)) (\<lambda>_.
     kbind (kassert (index \<ge> 0 \<and> index < a_num a)) (\<lambda>_.
     kmodify (\<lambda>a. a\<lparr>a_v := map_option (\<lambda>cs. cs[nat index := Some ptr]) (a_v a)\<rparr>))))"

definition array_add :: "bool \<Rightarrow> 'a \<Rightarrow> ('a karray, unit) op" where
  "array_add ok guy =
     kbind (kget a_num) (\<lambda>ix.
     kbind (array_setsize ok (ix + 1)) (\<lambda>_.
     kmodify (\<lambda>a. a\<lparr>a_v := map_option (\<lambda>cs. cs[nat ix := Some guy]) (a_v a)\<rparr>)))"

text \<open>\<open>memmove(v+index, v+index+1, nmove)\<close> on the cells.\<close>

definition array_remove :: "int \<Rightarrow> ('a karray, unit) op" where
  "array_remove index =
     kbind (kget id) (\<lambda>a.
     kbind (kassert (a_num a \<le> a_max a)) (\<lambda>_.
     kbind (kassert (index \<ge> 0 \<and> index < a_num a)) (\<lambda>_.
     let nmove = nat (a_num a - (index + 1)) in
     kmodify (\<lambda>a. a\<lparr>a_v := map_option (\<lambda>cs. put_at (nat index) (take nmove (drop (nat index + 1) cs)) cs)
                                      (a_v a),
                    a_num := a_num a - 1\<rparr>))))"

section \<open>Invariant and abstraction\<close>

text \<open>
  \<open>array_wf\<close>: \<open>0 \<le> num \<le> max\<close>, the buffer has \<open>max\<close> cells (and is absent only when
  \<open>max = 0\<close>), and every cell below \<open>num\<close> has been stored.
\<close>

definition array_wf :: "'a karray \<Rightarrow> bool" where
  "array_wf a \<longleftrightarrow> 0 \<le> a_num a \<and> a_num a \<le> a_max a
     \<and> length (a_cells a) = nat (a_max a)
     \<and> (a_v a = None \<longrightarrow> a_max a = 0)
     \<and> None \<notin> set (take (nat (a_num a)) (a_cells a))"

definition array_list :: "'a karray \<Rightarrow> 'a list" where
  "array_list a = map the (take (nat (a_num a)) (a_cells a))"

lemmas array_defs = array_wf_def array_list_def a_cells_def

lemma map_Some_the: "None \<notin> set xs \<Longrightarrow> map Some (map the xs) = xs"
  by (induction xs) auto

lemma array_cells_Some: "array_wf a \<Longrightarrow> take (nat (a_num a)) (a_cells a) = map Some (array_list a)"
  unfolding array_list_def array_wf_def by (rule map_Some_the [symmetric]) simp

lemma array_length: "array_wf a \<Longrightarrow> int (length (array_list a)) = a_num a"
  by (auto simp: array_wf_def array_list_def)

lemma array_create_list:
  "array_create ok = Some a \<Longrightarrow> array_wf a \<and> array_list a = []"
  by (auto simp: array_create_def array_defs split: if_splits)

lemma grow_max_ge: "nguys \<le> grow_max nguys m \<and> m \<le> grow_max nguys m"
proof (induction nguys m rule: grow_max.induct)
  case (1 nguys m)
  then show ?case by (cases "nguys > m") (auto simp: grow_max.simps [of nguys m])
qed

text \<open>
  The new capacity is less than twice the request plus two, so the 32-bit multiplication cannot
  overflow for a request below \<open>2\<^sup>3\<^sup>0 - 1\<close>.
\<close>

lemma grow_max_le: "grow_max nguys m \<le> max m (2 * nguys)"
proof (induction nguys m rule: grow_max.induct)
  case (1 nguys m)
  then show ?case
    by (cases "nguys > m") (auto simp: grow_max.simps [of nguys m])
qed

lemma array_getguy_eq:
  assumes "array_wf a" and "0 \<le> i" and "i < a_num a"
  shows "array_getguy i a = Done (Some (array_list a ! nat i)) a"
proof -
  have lt: "nat i < length (array_list a)" using assms array_length [of a] by linarith
  have "a_cells a ! nat i = take (nat (a_num a)) (a_cells a) ! nat i" using assms by simp
  also have "\<dots> = Some (array_list a ! nat i)"
    using array_cells_Some [OF assms(1)] lt by simp
  finally show ?thesis using assms
    by (simp add: array_getguy_def kbind_def kassert_def kget_def kret_def array_wf_def)
qed

lemma array_getguy_out: "\<not> (0 \<le> i \<and> i < a_num a) \<Longrightarrow> array_getguy i a = Panic"
  by (auto simp: array_getguy_def kbind_def kassert_def kget_def)

text \<open>Weakest preconditions of the operations on a well-formed array.\<close>

lemma array_wfI:
  assumes "a_v a = Some cs" and "0 \<le> a_num a" and "a_num a \<le> a_max a"
    and "length cs = nat (a_max a)" and "take (nat (a_num a)) cs = map Some xs"
  shows "array_wf a \<and> array_list a = xs"
proof -
  have "None \<notin> set (take (nat (a_num a)) cs)" using assms(5) by auto
  then show ?thesis using assms
    by (simp add: array_wf_def array_list_def a_cells_def o_def)
qed

lemma array_preallocate_wp:
  assumes wf: "array_wf a"
  shows "wp (array_preallocate ok n)
    (\<lambda>_ a'. ok \<and> array_wf a' \<and> array_list a' = array_list a \<and> a_num a' = a_num a
       \<and> a_max a \<le> a_max a' \<and> n \<le> a_max a')
    (\<lambda>e a'. \<not> ok \<and> e = ENOMEM \<and> a' = a) a"
proof -
  let ?m = "grow_max (nat n) (nat (a_max a))" and ?k = "nat (a_num a)"
  let ?cs = "take ?k (a_cells a)"
  let ?a' = "a\<lparr>a_max := int ?m, a_v := Some (?cs @ replicate (?m - length ?cs) None)\<rparr>"
  have num: "0 \<le> a_num a" "a_num a \<le> a_max a" using wf by (auto simp: array_wf_def)
  have len: "length ?cs = ?k" using wf by (auto simp: array_wf_def)
  have m: "nat n \<le> ?m" "nat (a_max a) \<le> ?m" using grow_max_ge by blast+
  have k: "?k \<le> ?m" using m(2) num by linarith
  have k': "a_num a \<le> int ?m" using k num by linarith
  have "take ?k (?cs @ replicate (?m - length ?cs) None) = ?cs"
    using len by (simp del: take_take)
  then have "array_wf ?a' \<and> array_list ?a' = array_list a"
    using num m k k' len array_cells_Some [OF wf]
    by (intro array_wfI [where cs = "?cs @ replicate (?m - length ?cs) None"]) (simp_all del: take_take)
  then show ?thesis
    using num m unfolding array_preallocate_def Let_def by (auto simp: wps)
qed

lemma array_getguy_wp:
  assumes "array_wf a" and "0 \<le> i" and "i < a_num a"
  shows "wp (array_getguy i) Q R a = Q (Some (array_list a ! nat i)) a"
  using array_getguy_eq [OF assms] by (simp add: wp_def)

lemma array_store_last:
  fixes b :: "'a karray" and x :: 'a
  assumes b: "array_wf b" and room: "a_num b + 1 \<le> a_max b"
  defines "b' \<equiv> b\<lparr>a_num := a_num b + 1, a_v := map_option (\<lambda>cs. cs[nat (a_num b) := Some x]) (a_v b)\<rparr>"
  shows "array_wf b' \<and> array_list b' = array_list b @ [x]"
proof -
  let ?k = "nat (a_num b)"
  have num: "0 \<le> a_num b" using b by (simp add: array_wf_def)
  obtain cs where cs: "a_v b = Some cs"
    using b room num by (cases "a_v b") (auto simp: array_wf_def)
  have k: "?k < length cs" and l: "length cs = nat (a_max b)"
    using b room cs num by (auto simp: array_wf_def a_cells_def)
  have "take ?k cs = map Some (array_list b)"
    using array_cells_Some [OF b] cs by (simp add: a_cells_def)
  then have "take (Suc ?k) (cs[?k := Some x]) = map Some (array_list b @ [x])"
    using k by (simp add: take_Suc_conv_app_nth)
  then show ?thesis unfolding b'_def using cs num room l
    by (intro array_wfI [where cs = "cs[?k := Some x]"]) (simp_all add: nat_add_distrib)
qed

lemma array_add_wp:
  assumes wf: "array_wf a"
  shows "wp (array_add ok x)
    (\<lambda>_ a'. array_wf a' \<and> array_list a' = array_list a @ [x] \<and> a_num a' = a_num a + 1)
    (\<lambda>e a'. \<not> ok \<and> e = ENOMEM \<and> a' = a \<and> a_num a = a_max a) a"
proof -
  have num: "0 \<le> a_num a" "a_num a \<le> a_max a" using wf by (auto simp: array_wf_def)
  show ?thesis
  proof (cases "a_num a + 1 > a_max a")
    case True
    have "wp (array_preallocate ok (a_num a + 1))
       (\<lambda>_ b. array_wf (b\<lparr>a_num := a_num a + 1, a_v := map_option (\<lambda>cs. cs[nat (a_num a) := Some x]) (a_v b)\<rparr>)
           \<and> array_list (b\<lparr>a_num := a_num a + 1, a_v := map_option (\<lambda>cs. cs[nat (a_num a) := Some x]) (a_v b)\<rparr>)
               = array_list a @ [x])
       (\<lambda>e a'. \<not> ok \<and> e = ENOMEM \<and> a' = a \<and> a_num a = a_max a) a"
    proof (rule wp_mono [OF array_preallocate_wp [OF wf]])
      fix u b
      assume *: "ok \<and> array_wf b \<and> array_list b = array_list a \<and> a_num b = a_num a
         \<and> a_max a \<le> a_max b \<and> a_num a + 1 \<le> a_max b"
      then show "array_wf (b\<lparr>a_num := a_num a + 1, a_v := map_option (\<lambda>cs. cs[nat (a_num a) := Some x]) (a_v b)\<rparr>)
           \<and> array_list (b\<lparr>a_num := a_num a + 1, a_v := map_option (\<lambda>cs. cs[nat (a_num a) := Some x]) (a_v b)\<rparr>)
               = array_list a @ [x]"
        using array_store_last [of b x] by simp
    qed (use True num in auto)
    then show ?thesis
      using True num unfolding array_add_def array_setsize_def by (simp add: wps)
  next
    case False
    then show ?thesis
      using num array_store_last [OF wf, of x] unfolding array_add_def array_setsize_def
      by (simp add: wps)
  qed
qed

lemma array_setsize_0_wp:
  assumes wf: "array_wf a"
  shows "wp (array_setsize ok 0) (\<lambda>_ a'. array_wf a' \<and> array_list a' = [] \<and> a_num a' = 0) (\<lambda>_ _. False) a"
proof -
  have num: "0 \<le> a_num a" "a_num a \<le> a_max a" using wf by (auto simp: array_wf_def)
  have "a_v a \<noteq> None" if "a_max a > 16" using wf that by (auto simp: array_wf_def)
  moreover have "length (a_cells a) = nat (a_max a)" "a_v a = None \<longrightarrow> a_max a = 0"
    using wf by (auto simp: array_wf_def)
  ultimately show ?thesis
    using num unfolding array_setsize_def by (auto simp: wps array_defs)
qed

lemma array_setsize_shrink_wp:
  assumes wf: "array_wf a" and n: "0 \<le> n" "n \<le> a_num a"
  shows "wp (array_setsize ok n) (\<lambda>_ a'. array_wf a' \<and> array_list a' = take (nat n) (array_list a)) (\<lambda>_ _. False) a"
proof (cases "n = 0")
  case True
  then show ?thesis using array_setsize_0_wp [OF wf, of ok] by (auto elim: wp_mono)
next
  case False
  have num: "0 \<le> a_num a" "a_num a \<le> a_max a" using wf by (auto simp: array_wf_def)
  have c: "take (nat n) (a_cells a) = take (nat n) (take (nat (a_num a)) (a_cells a))"
    using n by (simp add: min_def)
  have "array_wf (a\<lparr>a_num := n\<rparr>)"
    using wf n num c set_take_subset [of "nat n" "take (nat (a_num a)) (a_cells a)"]
    by (auto simp: array_wf_def a_cells_def)
  moreover have "array_list (a\<lparr>a_num := n\<rparr>) = take (nat n) (array_list a)"
    using c by (simp add: array_list_def a_cells_def take_map)
  ultimately show ?thesis using False num n by (simp add: array_setsize_def wps)
qed

lemma array_setguy_wp:
  assumes wf: "array_wf a" and i: "0 \<le> i" "i < a_num a"
  shows "wp (array_setguy i x)
    (\<lambda>_ a'. array_wf a' \<and> array_list a' = (array_list a)[nat i := x]) (\<lambda>_ _. False) a"
proof -
  have num: "0 \<le> a_num a" "a_num a \<le> a_max a" using wf by (auto simp: array_wf_def)
  obtain cs where cs: "a_v a = Some cs" using wf i by (cases "a_v a") (auto simp: array_wf_def)
  have "take (nat (a_num a)) (cs[nat i := Some x]) = map Some ((array_list a)[nat i := x])"
    using array_cells_Some [OF wf] cs i by (simp add: a_cells_def take_update_less map_update)
  moreover have "length cs = nat (a_max a)" using wf cs by (simp add: array_wf_def a_cells_def)
  ultimately have "array_wf (a\<lparr>a_v := Some (cs[nat i := Some x])\<rparr>)
      \<and> array_list (a\<lparr>a_v := Some (cs[nat i := Some x])\<rparr>) = (array_list a)[nat i := x]"
    using num by (intro array_wfI [where cs = "cs[nat i := Some x]"]) simp_all
  then show ?thesis using num i cs unfolding array_setguy_def by (simp add: wps)
qed

lemma array_remove_wp:
  assumes wf: "array_wf a" and i: "0 \<le> i" "i < a_num a"
  shows "wp (array_remove i)
    (\<lambda>_ a'. array_wf a' \<and> a_num a' = a_num a - 1
       \<and> array_list a' = take (nat i) (array_list a) @ drop (nat i + 1) (array_list a))
    (\<lambda>_ _. False) a"
proof -
  let ?n = "nat (a_num a)" and ?i = "nat i" and ?r = "nat (a_num a - (i + 1))"
  have num: "0 \<le> a_num a" "a_num a \<le> a_max a" using wf by (auto simp: array_wf_def)
  obtain cs where cs: "a_v a = Some cs" using wf i by (cases "a_v a") (auto simp: array_wf_def)
  have l: "length cs = nat (a_max a)" using wf cs by (simp add: array_wf_def a_cells_def)
  have n: "?n \<le> length cs" "?i < ?n" "?r = ?n - (?i + 1)" "nat (a_num a - 1) = ?n - 1"
    using l num i by auto
  let ?cs = "put_at ?i (take ?r (drop (?i + 1) cs)) cs"
  have t0: "take ?n cs = map Some (array_list a)"
    using array_cells_Some [OF wf] cs by (simp only: a_cells_def option.case)
  have "length (take ?r (drop (?i + 1) cs)) \<le> ?r" by simp
  then have len: "length ?cs = length cs" using n(1-3) by (intro length_put_at) linarith
  have "take (?n - 1) ?cs = take ?i (take ?n cs) @ drop (?i + 1) (take ?n cs)"
    unfolding n(3) by (rule take_put_at_remove [OF n(2,1)])
  also have "\<dots> = map Some (take ?i (array_list a) @ drop (?i + 1) (array_list a))"
    unfolding t0 by (simp only: take_map drop_map map_append)
  finally have t: "take (?n - 1) ?cs = map Some (take ?i (array_list a) @ drop (?i + 1) (array_list a))" .
  let ?a' = "a\<lparr>a_v := Some ?cs, a_num := a_num a - 1\<rparr>"
  have "array_wf ?a' \<and> array_list ?a' = take ?i (array_list a) @ drop (?i + 1) (array_list a)"
  proof (rule array_wfI [where cs = ?cs])
    show "length ?cs = nat (a_max ?a')" using len l by simp
    show "take (nat (a_num ?a')) ?cs
        = map Some (take ?i (array_list a) @ drop (?i + 1) (array_list a))"
    proof -
      have "a_num ?a' = a_num a - 1" by simp
      then show ?thesis using t n(4) by (simp only:)
    qed
  qed (use num i in simp_all)
  then show ?thesis using num i cs unfolding array_remove_def Let_def by (simp add: wps)
qed

section \<open>The interface clients use\<close>

text \<open>
  The search loop of the clients: look at the entries from index \<open>i\<close> on, \<open>n\<close> of them, and stop
  at the first that satisfies the test.
\<close>

primrec scan_from :: "(int \<Rightarrow> ('r, 'a option) op) \<Rightarrow> ('a option \<Rightarrow> bool) \<Rightarrow> nat \<Rightarrow> int \<Rightarrow> ('r, int option) op" where
  "scan_from get P 0 i = kret None"
| "scan_from get P (Suc n) i =
     kbind (get i) (\<lambda>g. if P g then kret (Some i) else scan_from get P n (i + 1))"

definition array_search :: "('a option \<Rightarrow> bool) \<Rightarrow> ('a karray, int option) op" where
  "array_search P = kbind (kget array_getnum) (\<lambda>num. scan_from array_getguy P (nat num) 0)"

text \<open>The index of the first element that satisfies \<open>P\<close> (the length when there is none).\<close>

definition first_index :: "('a \<Rightarrow> bool) \<Rightarrow> 'a list \<Rightarrow> nat" where
  "first_index P xs = length (takeWhile (\<lambda>x. \<not> P x) xs)"

lemma first_index_le: "first_index P xs \<le> length xs"
  by (simp add: first_index_def length_takeWhile_le)

lemma first_index_simps [simp]:
  "first_index P [] = 0"
  "first_index P (x # xs) = (if P x then 0 else Suc (first_index P xs))"
  by (simp_all add: first_index_def)

lemma first_index_hit: "first_index P xs < length xs \<Longrightarrow> P (xs ! first_index P xs)"
  by (induction xs) auto

lemma first_index_before: "j < first_index P xs \<Longrightarrow> \<not> P (xs ! j)"
proof (induction xs arbitrary: j)
  case (Cons x xs)
  then show ?case by (cases j) (auto split: if_splits)
qed simp

lemma first_index_none: "(first_index P xs < length xs) \<longleftrightarrow> (\<exists>x\<in>set xs. P x)"
  by (induction xs) auto

lemma first_index_remove1:
  "x \<in> set xs \<Longrightarrow> take (first_index (\<lambda>y. y = x) xs) xs @ drop (first_index (\<lambda>y. y = x) xs + 1) xs = remove1 x xs"
  by (induction xs) auto

locale pointer_table =
  fixes inv :: "'r \<Rightarrow> bool"
    and elems :: "'r \<Rightarrow> 'a list"
    and count :: "'r \<Rightarrow> int"
    and getguy :: "int \<Rightarrow> ('r, 'a option) op"
    and add :: "bool \<Rightarrow> 'a \<Rightarrow> ('r, unit) op"
    and remove :: "int \<Rightarrow> ('r, unit) op"
  assumes count_law: "inv r \<Longrightarrow> count r = int (length (elems r))"
    and get_law: "inv r \<Longrightarrow> 0 \<le> i \<Longrightarrow> i < count r \<Longrightarrow>
      getguy i r = Done (Some (elems r ! nat i)) r"
    and add_law: "inv r \<Longrightarrow> wp (add ok x) (\<lambda>_ r'. inv r' \<and> elems r' = elems r @ [x])
      (\<lambda>e r'. \<not> ok \<and> e = ENOMEM \<and> r' = r) r"
    and remove_law: "inv r \<Longrightarrow> 0 \<le> i \<Longrightarrow> i < count r \<Longrightarrow> wp (remove i)
      (\<lambda>_ r'. inv r' \<and> elems r' = take (nat i) (elems r) @ drop (nat i + 1) (elems r))
      (\<lambda>_ _. False) r"
begin

lemma scan_from_drop:
  assumes "inv r" and "k \<le> length (elems r)"
  shows "scan_from getguy P (length (elems r) - k) (int k) r =
    Done (let j = first_index (\<lambda>x. P (Some x)) (drop k (elems r)) in
          if j < length (drop k (elems r)) then Some (int (k + j)) else None) r"
  using assms
proof (induction "length (elems r) - k" arbitrary: k)
  case 0
  then show ?case by (simp add: kret_def)
next
  case (Suc n)
  then have k: "k < length (elems r)" and n: "length (elems r) - k = Suc n"
    and n': "n = length (elems r) - Suc k" by auto
  have g: "getguy (int k) r = Done (Some (elems r ! k)) r"
    using get_law [of r "int k"] count_law [of r] Suc.prems k by simp
  have d: "drop k (elems r) = elems r ! k # drop (Suc k) (elems r)"
    using k by (simp add: Cons_nth_drop_Suc)
  show ?case
  proof (cases "P (Some (elems r ! k))")
    case True
    then show ?thesis unfolding n using g d by (simp add: kbind_def kret_def)
  next
    case False
    have "scan_from getguy P n (int (Suc k)) r =
      Done (let j = first_index (\<lambda>x. P (Some x)) (drop (Suc k) (elems r)) in
          if j < length (drop (Suc k) (elems r)) then Some (int (Suc k + j)) else None) r"
      using Suc.hyps(1) [OF n'] Suc.prems k unfolding n' by simp
    then show ?thesis unfolding n using g d False
      by (simp add: kbind_def Let_def add.commute)
  qed
qed

text \<open>The search loop returns the first entry that passes the test, and changes nothing.\<close>

lemma scan_first:
  assumes "inv r"
  shows "scan_from getguy P (nat (count r)) 0 r =
    Done (if first_index (\<lambda>x. P (Some x)) (elems r) < length (elems r)
          then Some (int (first_index (\<lambda>x. P (Some x)) (elems r))) else None) r"
  using scan_from_drop [OF assms, of 0 P] count_law [OF assms] by (simp add: Let_def)

text \<open>Searching for a pointer and removing the entry found removes exactly one occurrence.\<close>

lemma search_remove:
  assumes "inv r" and "x \<in> set (elems r)"
  shows "wp (kbind (scan_from getguy (\<lambda>g. g = Some x) (nat (count r)) 0)
               (\<lambda>found. case found of None \<Rightarrow> kpanic | Some i \<Rightarrow> remove i))
    (\<lambda>_ r'. inv r' \<and> elems r' = remove1 x (elems r)) (\<lambda>_ _. False) r"
proof -
  let ?k = "first_index (\<lambda>y. y = x) (elems r)"
  have k: "?k < length (elems r)" using assms(2) by (simp add: first_index_none)
  have "wp (remove (int ?k)) (\<lambda>_ r'. inv r' \<and> elems r' = remove1 x (elems r)) (\<lambda>_ _. False) r"
    using remove_law [OF assms(1), of "int ?k"] k count_law [OF assms(1)]
      first_index_remove1 [OF assms(2)] by simp
  then show ?thesis
    using scan_first [OF assms(1), of "\<lambda>g. g = Some x"] k
    by (simp add: wp_kbind) (simp add: wp_def)
qed

text \<open>An entry just added is found at the end of the table, and removing it undoes the addition.\<close>

lemma add_remove_last:
  assumes "inv r"
  shows "wp (kbind (add ok x) (\<lambda>_. kbind (kget count) (\<lambda>n. remove (n - 1))))
    (\<lambda>_ r'. inv r' \<and> elems r' = elems r) (\<lambda>e r'. \<not> ok \<and> e = ENOMEM \<and> r' = r) r"
  unfolding wps
proof (rule wp_mono [OF add_law [OF assms]])
  fix u r'
  assume r': "inv r' \<and> elems r' = elems r @ [x]"
  then have c: "count r' = int (length (elems r)) + 1" using count_law [of r'] by simp
  have "wp (remove (count r' - 1))
     (\<lambda>_ q. inv q \<and> elems q = take (nat (count r' - 1)) (elems r') @ drop (nat (count r' - 1) + 1) (elems r'))
     (\<lambda>_ _. False) r'"
    using remove_law [of r' "count r' - 1"] r' c by simp
  then show "wp (remove (count r' - 1)) (\<lambda>_ r'. inv r' \<and> elems r' = elems r)
     (\<lambda>e r'. \<not> ok \<and> e = ENOMEM \<and> r' = r) r'"
    by (rule wp_mono) (use r' c in auto)
qed simp

end

interpretation ptab: pointer_table array_wf array_list array_getnum array_getguy array_add array_remove
proof unfold_locales
  fix r :: "'a karray" and i
  assume r: "array_wf r"
  then show "array_getnum r = int (length (array_list r))"
    by (simp add: array_getnum_def array_length)
  show "wp (array_add ok x) (\<lambda>_ r'. array_wf r' \<and> array_list r' = array_list r @ [x])
      (\<lambda>e r'. \<not> ok \<and> e = ENOMEM \<and> r' = r) r" for ok x
    by (rule wp_mono [OF array_add_wp [OF r]]) auto
  assume i: "0 \<le> i" "i < array_getnum r"
  then show "array_getguy i r = Done (Some (array_list r ! nat i)) r"
    using r by (simp add: array_getguy_eq array_getnum_def)
  show "wp (array_remove i) (\<lambda>_ r'. array_wf r'
      \<and> array_list r' = take (nat i) (array_list r) @ drop (nat i + 1) (array_list r)) (\<lambda>_ _. False) r"
    by (rule wp_mono [OF array_remove_wp [OF r]]) (use i in \<open>auto simp: array_getnum_def\<close>)
qed

lemma array_search_eq:
  assumes "array_wf a"
  shows "array_search P a =
    Done (if first_index (\<lambda>x. P (Some x)) (array_list a) < length (array_list a)
          then Some (int (first_index (\<lambda>x. P (Some x)) (array_list a))) else None) a"
  using ptab.scan_first [OF assms, of P] by (simp add: array_search_def kbind_def kget_def)

section \<open>Simulation of lists by arrays\<close>

text \<open>A client's sequence of calls, on the array and on the list it stands for.\<close>

datatype 'a array_cmd = Add bool 'a | Remove int | Set int 'a | Setsize bool int | Preallocate bool int

primrec array_exec :: "'a array_cmd \<Rightarrow> ('a karray, unit) op" where
  "array_exec (Add ok x) = array_add ok x"
| "array_exec (Remove i) = array_remove i"
| "array_exec (Set i x) = array_setguy i x"
| "array_exec (Setsize ok n) = array_setsize ok n"
| "array_exec (Preallocate ok n) = array_preallocate ok n"

primrec list_exec :: "'a array_cmd \<Rightarrow> 'a list \<Rightarrow> 'a list" where
  "list_exec (Add ok x) xs = xs @ [x]"
| "list_exec (Remove i) xs = take (nat i) xs @ drop (nat i + 1) xs"
| "list_exec (Set i x) xs = xs[nat i := x]"
| "list_exec (Setsize ok n) xs = take (nat n) xs"
| "list_exec (Preallocate ok n) xs = xs"

text \<open>
  Indices are those of elements. A client of \<open>array_setsize\<close> only shrinks the array: what a larger size
  would add are cells nobody has stored to, and no code but \<open>array_add\<close> asks for that.
\<close>

primrec cmd_ok :: "'a array_cmd \<Rightarrow> 'a list \<Rightarrow> bool" where
  "cmd_ok (Add ok x) xs = True"
| "cmd_ok (Remove i) xs = (0 \<le> i \<and> i < int (length xs))"
| "cmd_ok (Set i x) xs = (0 \<le> i \<and> i < int (length xs))"
| "cmd_ok (Setsize ok n) xs = (0 \<le> n \<and> n \<le> int (length xs))"
| "cmd_ok (Preallocate ok n) xs = True"

primrec cmds_ok :: "'a array_cmd list \<Rightarrow> 'a list \<Rightarrow> bool" where
  "cmds_ok [] xs = True"
| "cmds_ok (c # cs) xs = (cmd_ok c xs \<and> cmds_ok cs (list_exec c xs))"

lemma array_exec_wp:
  assumes "array_wf a" and "cmd_ok c (array_list a)"
  shows "wp (array_exec c) (\<lambda>_ a'. array_wf a' \<and> array_list a' = list_exec c (array_list a))
    (\<lambda>e a'. e = ENOMEM \<and> a' = a) a"
proof (cases c)
  case (Add ok x)
  show ?thesis unfolding Add array_exec.simps
    by (rule wp_mono [OF array_add_wp [OF assms(1)]]) auto
next
  case (Remove i)
  then have "0 \<le> i" "i < a_num a" using assms array_length [OF assms(1)] by auto
  then show ?thesis unfolding Remove array_exec.simps
    by (intro wp_mono [OF array_remove_wp [OF assms(1)]]) auto
next
  case (Set i x)
  then have "0 \<le> i" "i < a_num a" using assms array_length [OF assms(1)] by auto
  then show ?thesis unfolding Set array_exec.simps
    by (intro wp_mono [OF array_setguy_wp [OF assms(1)]]) auto
next
  case (Setsize ok n)
  then have "0 \<le> n" "n \<le> a_num a" using assms array_length [OF assms(1)] by auto
  then show ?thesis unfolding Setsize array_exec.simps
    by (intro wp_mono [OF array_setsize_shrink_wp [OF assms(1)]]) auto
next
  case (Preallocate ok n)
  show ?thesis unfolding Preallocate array_exec.simps
    by (rule wp_mono [OF array_preallocate_wp [OF assms(1)]]) auto
qed



end
