(* ===== verification/KBitmap.thy ===== *)
theory KBitmap
  imports KPrelude
begin

unbundle bit_operations_syntax

text \<open>
  The bit array of kern/lib/bitmap.c (the free-block map of sfs), its invariant, its abstraction
  to the set of bits in use, and the allocator interface sfs relies on.
\<close>

section \<open>The structure and its operations\<close>


record bitmap =
  nbits :: nat         \<comment> \<open>\<open>u_int32_t\<close>\<close>
  b_v :: "byte list"

text \<open>\<open>DIVROUNDUP(nbits, BITS_PER_WORD)\<close>, in 32-bit arithmetic.\<close>

definition bitmap_words :: "nat \<Rightarrow> nat" where
  "bitmap_words n = u32 (n + 7) div 8"

text \<open>The \<open>for\<close> loop that marks the leftover bits of the last word.\<close>

primrec mark_over :: "nat list \<Rightarrow> byte \<Rightarrow> byte" where
  "mark_over [] w = w"
| "mark_over (j # js) w = mark_over js (w OR push_bit j 1)"

definition bitmap_create :: "bool \<Rightarrow> bool \<Rightarrow> nat \<Rightarrow> ('s, bitmap option) op" where
  "bitmap_create ok1 ok2 n =
     (let words = bitmap_words n in
      if \<not> ok1 then kret None
      else if \<not> ok2 then kret None
      else
        let v = replicate words 0 in
        if n div 8 < words then
          let ix = words - 1; overbits = n - ix * 8 in
          kbind (kassert (n div 8 = words - 1)) (\<lambda>_.
          kbind (kassert (overbits > 0 \<and> overbits < 8)) (\<lambda>_.
          kret (Some \<lparr>nbits = n, b_v = v[ix := mark_over [overbits..<8] (v ! ix)]\<rparr>)))
        else kret (Some \<lparr>nbits = n, b_v = v\<rparr>))"

definition bitmap_getdata :: "bitmap \<Rightarrow> byte list" where
  "bitmap_getdata b = b_v b"

text \<open>
  The two nested loops of \<open>bitmap_alloc\<close>: \<open>find\<close> returns the first index of the list that
  satisfies the test, as the loop's \<open>return\<close> does.
\<close>

definition bitmap_alloc :: "(bitmap, nat) op" where
  "bitmap_alloc =
     kbind (kget id) (\<lambda>b.
     let maxix = bitmap_words (nbits b) in
     case find (\<lambda>ix. b_v b ! ix \<noteq> 255) [0..<maxix] of
       None \<Rightarrow> kfail ENOSPC
     | Some ix \<Rightarrow>
        (case find (\<lambda>offset. b_v b ! ix AND push_bit offset 1 = 0) [0..<8] of
           None \<Rightarrow> kpanic
         | Some offset \<Rightarrow>
             kbind (kmodify (\<lambda>b. b\<lparr>b_v := (b_v b)[ix := b_v b ! ix OR push_bit offset 1]\<rparr>)) (\<lambda>_.
             let index = ix * 8 + offset in
             kbind (kassert (index < nbits b)) (\<lambda>_.
             kret index))))"

definition bitmap_translate :: "nat \<Rightarrow> nat \<times> byte" where
  "bitmap_translate bitno = (bitno div 8, push_bit (bitno mod 8) 1)"

definition bitmap_mark :: "nat \<Rightarrow> (bitmap, unit) op" where
  "bitmap_mark index =
     kbind (kget id) (\<lambda>b.
     kbind (kassert (index < nbits b)) (\<lambda>_.
     let (ix, mask) = bitmap_translate index in
     kbind (kassert (b_v b ! ix AND mask = 0)) (\<lambda>_.
     kmodify (\<lambda>b. b\<lparr>b_v := (b_v b)[ix := b_v b ! ix OR mask]\<rparr>))))"

definition bitmap_unmark :: "nat \<Rightarrow> (bitmap, unit) op" where
  "bitmap_unmark index =
     kbind (kget id) (\<lambda>b.
     kbind (kassert (index < nbits b)) (\<lambda>_.
     let (ix, mask) = bitmap_translate index in
     kbind (kassert (b_v b ! ix AND mask \<noteq> 0)) (\<lambda>_.
     kmodify (\<lambda>b. b\<lparr>b_v := (b_v b)[ix := b_v b ! ix AND NOT mask]\<rparr>))))"

text \<open>
  \<open>bitmap_isset\<close> checks no bound; a read past the end of the buffer, which C leaves undefined,
  stops the model.
\<close>

definition bitmap_isset :: "nat \<Rightarrow> (bitmap, bool) op" where
  "bitmap_isset index =
     kbind (kget id) (\<lambda>b.
     let (ix, mask) = bitmap_translate index in
     if ix < length (b_v b) then kret (b_v b ! ix AND mask \<noteq> 0) else kpanic)"

section \<open>Bits of a word\<close>

lemma bit_mask1: "bit (push_bit k (1::byte)) j \<longleftrightarrow> j = k \<and> k < 8"
proof -
  have "push_bit k (1::byte) = 2 ^ k" by simp
  then show ?thesis using bit_exp_iff [where ?'a = "8 word", of k j] by (auto simp: possible_bit_word)
qed

lemma and_mask_zero: "((w :: byte) AND push_bit k 1 = 0) \<longleftrightarrow> \<not> bit w k" if "k < 8"
proof
  assume "w AND push_bit k 1 = 0"
  then have "\<not> bit (w AND push_bit k 1) k" by (simp only: bit_0_eq bot_apply) simp
  then show "\<not> bit w k" using that by (simp only: bit_and_iff bit_mask1) blast
next
  assume "\<not> bit w k"
  then have "\<not> bit (w AND push_bit k 1) j" for j
    by (auto simp only: bit_and_iff bit_mask1)
  then show "w AND push_bit k 1 = 0"
    by (simp only: bit_eq_iff) simp
qed

lemma bit_or_mask: "k < 8 \<Longrightarrow> bit ((w :: byte) OR push_bit k 1) j \<longleftrightarrow> bit w j \<or> j = k"
  by (simp only: bit_or_iff bit_mask1) auto

lemma bit_andnot_mask: "k < 8 \<Longrightarrow> j < 8 \<Longrightarrow> bit ((w :: byte) AND NOT (push_bit k 1)) j \<longleftrightarrow> bit w j \<and> j \<noteq> k"
  by (simp only: bit_and_iff bit_not_iff bit_mask1) (auto simp: possible_bit_word)

lemma full_byte: "((w :: byte) = 255) \<longleftrightarrow> (\<forall>k < 8. bit w k)"
proof -
  have m: "(255 :: byte) = mask 8" by (simp add: mask_eq_exp_minus_1)
  have "(w = mask 8) \<longleftrightarrow> (\<forall>k < 8. bit w k)"
    by (auto simp: bit_eq_iff bit_mask_iff possible_bit_word)
  then show ?thesis by (simp only: m)
qed

section \<open>Invariant and abstraction\<close>

definition bit_at :: "bitmap \<Rightarrow> nat \<Rightarrow> bool" where
  "bit_at b i = bit (b_v b ! (i div 8)) (i mod 8)"

text \<open>
  The buffer has one byte for every eight bits, and the bits of the last byte past \<open>nbits\<close> are
  set (so that \<open>bitmap_alloc\<close> never hands one out).
\<close>

definition bitmap_wf :: "bitmap \<Rightarrow> bool" where
  "bitmap_wf b \<longleftrightarrow> nbits b + 7 < 4294967296 \<and> length (b_v b) = (nbits b + 7) div 8
     \<and> (\<forall>i. nbits b \<le> i \<and> i < 8 * length (b_v b) \<longrightarrow> bit_at b i)"

definition bitmap_used :: "bitmap \<Rightarrow> nat set" where
  "bitmap_used b = {i. i < nbits b \<and> bit_at b i}"

lemma bitmap_used_finite [simp]: "finite (bitmap_used b)"
  by (simp add: bitmap_used_def)

lemma bitmap_wf_index: "bitmap_wf b \<Longrightarrow> i < nbits b \<Longrightarrow> i div 8 < length (b_v b)"
  by (auto simp: bitmap_wf_def)

lemma bitmap_words_wf: "bitmap_wf b \<Longrightarrow> bitmap_words (nbits b) = length (b_v b)"
  by (simp add: bitmap_wf_def bitmap_words_def)

lemma bit_at_update:
  assumes "ix < length (b_v b)" and "k < 8"
    and "\<And>j. j < 8 \<Longrightarrow> bit w j \<longleftrightarrow> (if j = k then c else bit (b_v b ! ix) j)"
  shows "bit_at (b\<lparr>b_v := (b_v b)[ix := w]\<rparr>) i \<longleftrightarrow> (if i = ix * 8 + k then c else bit_at b i)"
proof (cases "i div 8 = ix")
  case True
  then have "i = ix * 8 + i mod 8" using div_mult_mod_eq [of i 8] by simp
  then have "i = ix * 8 + k \<longleftrightarrow> i mod 8 = k" using assms(2) by linarith
  then show ?thesis using True assms(1) assms(3) [of "i mod 8"] by (auto simp: bit_at_def)
next
  case False
  then have "i \<noteq> ix * 8 + k" using assms(2) by auto
  then show ?thesis using False by (simp add: bit_at_def)
qed

lemma bitmap_set_bit:
  assumes wf: "bitmap_wf b" and i: "i < nbits b"
  defines "b' \<equiv> b\<lparr>b_v := (b_v b)[i div 8 := b_v b ! (i div 8) OR push_bit (i mod 8) 1]\<rparr>"
  shows "bitmap_wf b'" "bitmap_used b' = insert i (bitmap_used b)" "nbits b' = nbits b"
proof -
  have at: "bit_at b' j \<longleftrightarrow> j = i \<or> bit_at b j" for j
    unfolding b'_def
    by (subst bit_at_update [where k = "i mod 8" and c = True])
      (auto simp: bitmap_wf_index [OF wf i] bit_or_mask simp del: push_bit_of_1)
  then show "bitmap_wf b'" "bitmap_used b' = insert i (bitmap_used b)"
    using wf i by (auto simp: bitmap_wf_def bitmap_used_def b'_def)
qed (simp add: b'_def)

lemma bitmap_clear_bit:
  assumes wf: "bitmap_wf b" and i: "i < nbits b"
  defines "b' \<equiv> b\<lparr>b_v := (b_v b)[i div 8 := b_v b ! (i div 8) AND NOT (push_bit (i mod 8) 1)]\<rparr>"
  shows "bitmap_wf b'" "bitmap_used b' = bitmap_used b - {i}" "nbits b' = nbits b"
proof -
  have at: "bit_at b' j \<longleftrightarrow> j \<noteq> i \<and> bit_at b j" for j
    unfolding b'_def
    by (subst bit_at_update [where k = "i mod 8" and c = False])
      (auto simp: bitmap_wf_index [OF wf i] bit_andnot_mask simp del: push_bit_of_1)
  then show "bitmap_wf b'" "bitmap_used b' = bitmap_used b - {i}"
    using wf i by (auto simp: bitmap_wf_def bitmap_used_def b'_def)
qed (simp add: b'_def)

lemma find_upt_Some:
  "find P [0..<n] = Some i \<longleftrightarrow> i < n \<and> P i \<and> (\<forall>j < i. \<not> P j)"
  by (auto simp: find_Some_iff)

lemma find_upt_None: "find P [0..<n] = None \<longleftrightarrow> (\<forall>i < n. \<not> P i)"
  by (auto simp: find_None_iff)

lemma full_byte_bit: "b_v b ! (i div 8) = 255 \<Longrightarrow> bit_at b i"
  by (simp add: bit_at_def full_byte)

lemma clear_bit_bound:
  assumes "bitmap_wf b" and "ix < length (b_v b)" and "k < 8" and "\<not> bit_at b (ix * 8 + k)"
  shows "ix * 8 + k < nbits b"
proof (rule ccontr)
  assume "\<not> ix * 8 + k < nbits b"
  moreover have "ix * 8 + k < 8 * length (b_v b)" using assms(2,3) by linarith
  ultimately show False using assms(1,4) by (simp add: bitmap_wf_def)
qed

lemma first_clear_bit:
  assumes "w \<noteq> (255 :: byte)"
  shows "\<exists>k < 8. find (\<lambda>k. w AND push_bit k 1 = 0) [0..<8] = Some k
    \<and> \<not> bit w k \<and> (\<forall>j < k. bit w j)"
proof (cases "find (\<lambda>k. w AND push_bit k 1 = 0) [0..<8]")
  case None
  then have "bit w k" if "k < 8" for k
    unfolding find_upt_None using and_mask_zero [OF that, of w] that by blast
  then show ?thesis using assms full_byte [of w] by blast
next
  case (Some k)
  then have "k < 8" "w AND push_bit k 1 = 0" "\<forall>j < k. w AND push_bit j 1 \<noteq> 0"
    unfolding find_upt_Some by blast+
  then have "\<not> bit w k" "\<forall>j < k. bit w j"
    using and_mask_zero [of _ w] by (blast, meson less_trans)
  then show ?thesis using Some \<open>k < 8\<close> by blast
qed

text \<open>
  \<open>bitmap_alloc\<close> hands out the lowest clear bit and marks it; it reports ENOSPC only when
  every bit is in use.
\<close>

lemma bitmap_alloc_wp:
  assumes wf: "bitmap_wf b"
  shows "wp bitmap_alloc
    (\<lambda>i b'. bitmap_wf b' \<and> nbits b' = nbits b \<and> i < nbits b \<and> i \<notin> bitmap_used b
       \<and> {..<i} \<subseteq> bitmap_used b \<and> bitmap_used b' = insert i (bitmap_used b))
    (\<lambda>e b'. e = ENOSPC \<and> b' = b \<and> bitmap_used b = {..<nbits b}) b"
proof (cases "find (\<lambda>ix. b_v b ! ix \<noteq> 255) [0..<bitmap_words (nbits b)]")
  case None
  then have "bit_at b i" if "i < nbits b" for i
    using bitmap_wf_index [OF wf that]
    unfolding find_upt_None bitmap_words_wf [OF wf] by (intro full_byte_bit) blast
  then have "bitmap_used b = {..<nbits b}" by (auto simp: bitmap_used_def)
  then show ?thesis using None by (simp add: bitmap_alloc_def wps Let_def)
next
  case (Some ix)
  then have ix: "ix < length (b_v b)" "b_v b ! ix \<noteq> 255" "\<And>j. j < ix \<Longrightarrow> b_v b ! j = 255"
    unfolding find_upt_Some bitmap_words_wf [OF wf] by blast+
  obtain k where k: "k < 8" "find (\<lambda>k. b_v b ! ix AND push_bit k 1 = 0) [0..<8] = Some k"
      "\<not> bit (b_v b ! ix) k" "\<forall>j < k. bit (b_v b ! ix) j"
    using first_clear_bit [OF ix(2)] by blast
  let ?i = "ix * 8 + k"
  have dm: "?i div 8 = ix" "?i mod 8 = k" using k(1) by simp_all
  have free: "\<not> bit_at b ?i" using k(3) by (simp only: bit_at_def dm not_False_eq_True)
  have i: "?i < nbits b" by (rule clear_bit_bound [OF wf ix(1) k(1) free])
  have "bit_at b j" if "j < ?i" for j
  proof (cases "j div 8 = ix")
    case True
    then have "j mod 8 < k" using that div_mult_mod_eq [of j 8] by linarith
    then show ?thesis using k(4) True by (simp only: bit_at_def)
  next
    case False
    then have "j div 8 < ix" using that k(1) by linarith
    then show ?thesis by (intro full_byte_bit ix(3))
  qed
  then have below: "{..<?i} \<subseteq> bitmap_used b" using i by (auto simp: bitmap_used_def)
  have free': "?i \<notin> bitmap_used b" using free by (simp add: bitmap_used_def)
  note upd = bitmap_set_bit [OF wf i, unfolded dm]
  show ?thesis
    unfolding bitmap_alloc_def Let_def using k(2) Some i free' below upd
    by (simp add: wps del: push_bit_of_1)
qed

lemma bitmap_mark_wp:
  assumes "bitmap_wf b" and "i < nbits b" and "i \<notin> bitmap_used b"
  shows "wp (bitmap_mark i) (\<lambda>_ b'. bitmap_wf b' \<and> nbits b' = nbits b
      \<and> bitmap_used b' = insert i (bitmap_used b)) (\<lambda>_ _. False) b"
  using assms bitmap_set_bit [OF assms(1,2)] and_mask_zero [of "i mod 8" "b_v b ! (i div 8)"]
  by (auto simp: bitmap_mark_def bitmap_translate_def wps bitmap_used_def bit_at_def
      simp del: push_bit_of_1)

lemma bitmap_unmark_wp:
  assumes "bitmap_wf b" and "i \<in> bitmap_used b"
  shows "wp (bitmap_unmark i) (\<lambda>_ b'. bitmap_wf b' \<and> nbits b' = nbits b
      \<and> bitmap_used b' = bitmap_used b - {i}) (\<lambda>_ _. False) b"
proof -
  have i: "i < nbits b" "bit (b_v b ! (i div 8)) (i mod 8)"
    using assms(2) by (auto simp: bitmap_used_def bit_at_def)
  then show ?thesis
    using bitmap_clear_bit [OF assms(1) i(1)] and_mask_zero [of "i mod 8" "b_v b ! (i div 8)"]
    by (simp add: bitmap_unmark_def bitmap_translate_def wps del: push_bit_of_1)
qed

lemma bitmap_isset_eq:
  assumes "bitmap_wf b" and "i < nbits b"
  shows "bitmap_isset i b = Done (i \<in> bitmap_used b) b"
  using assms and_mask_zero [of "i mod 8" "b_v b ! (i div 8)"] bitmap_wf_index [OF assms]
  by (simp add: bitmap_isset_def bitmap_translate_def kbind_def kget_def kret_def
      bitmap_used_def bit_at_def del: push_bit_of_1)

lemma mark_over_bit:
  "\<forall>j \<in> set js. j < 8 \<Longrightarrow> bit (mark_over js w) k \<longleftrightarrow> bit w k \<or> k \<in> set js"
  by (induction js arbitrary: w) (auto simp: bit_or_mask simp del: push_bit_of_1)

lemma fresh_tail:
  assumes n: "n = w * 8 + r" "0 < r" "r < 8" "n + 7 < 4294967296"
  defines "b \<equiv> \<lparr>nbits = n, b_v = (replicate (Suc w) 0)[w := mark_over [r..<8] 0]\<rparr>"
  shows "bitmap_wf b" "bitmap_used b = {}"
proof -
  have at: "bit_at b i \<longleftrightarrow> i div 8 = w \<and> r \<le> i mod 8" if "i div 8 < Suc w" for i
    using that unfolding b_def bit_at_def by (auto simp: nth_list_update mark_over_bit simp del: replicate_Suc)
  have ge: "n \<le> i \<longleftrightarrow> r \<le> i mod 8" if "i div 8 = w" for i
    using div_mult_mod_eq [of i 8] that n(1) by linarith
  have lt: "i < n \<Longrightarrow> i div 8 < Suc w" for i using n by linarith
  have w: "(n + 7) div 8 = Suc w" using n by linarith
  show "bitmap_used b = {}" using at ge lt
    unfolding bitmap_used_def by (auto simp: b_def) (metis not_le)
  have "bit_at b i" if "n \<le> i" "i < 8 * Suc w" for i
  proof -
    have i: "i div 8 = w" by (rule div_nat_eqI) (use that n(1) in linarith)+
    then show ?thesis using at [of i] ge [of i] that by simp
  qed
  then show "bitmap_wf b" unfolding bitmap_wf_def using n(4) w
    by (simp add: b_def del: replicate_Suc)
qed

text \<open>A fresh bitmap has no bit in use below \<open>nbits\<close>, and only the tail of its last byte set.\<close>

lemma bitmap_create_wp:
  assumes n: "n + 7 < 4294967296"
  shows "wp (bitmap_create ok1 ok2 n)
    (\<lambda>r t. t = s \<and> (r = None \<longleftrightarrow> \<not> (ok1 \<and> ok2))
       \<and> (\<forall>b. r = Some b \<longrightarrow> bitmap_wf b \<and> nbits b = n \<and> bitmap_used b = {})) (\<lambda>_ _. False) s"
proof -
  have w: "bitmap_words n = (n + 7) div 8" using n by (simp add: bitmap_words_def)
  define q where "q = n div 8"
  define r where "r = n mod 8"
  have nqr: "n = q * 8 + r" "r < 8" unfolding q_def r_def by simp_all
  show ?thesis
  proof (cases "r = 0")
    case False
    then have m: "(n + 7) div 8 = Suc q" "n div 8 = q" "n - q * 8 = r" using nqr by linarith+
    then show ?thesis unfolding bitmap_create_def Let_def w m
      using fresh_tail [OF nqr(1) _ nqr(2) n] False nqr(2) m by (simp add: wps del: replicate_Suc)
  next
    case True
    then have m: "(n + 7) div 8 = q" "n div 8 = q" using nqr by linarith+
    let ?b = "\<lparr>nbits = n, b_v = replicate q (0 :: byte)\<rparr>"
    have "\<not> bit_at ?b i" if "i < n" for i
      using that nqr True by (simp add: bit_at_def)
    then have "bitmap_wf ?b" "bitmap_used ?b = {}"
      using n m nqr True by (auto simp: bitmap_wf_def bitmap_used_def)
    then show ?thesis unfolding bitmap_create_def Let_def w m by (simp add: wps)
  qed
qed

section \<open>The allocator interface\<close>

text \<open>
  What sfs asks of its free-block map: numbers below a fixed capacity, each either in use or
  free.
\<close>

primrec alloc_many :: "('b, nat) op \<Rightarrow> nat \<Rightarrow> ('b, nat list) op" where
  "alloc_many alloc 0 = kret []"
| "alloc_many alloc (Suc n) =
     kbind alloc (\<lambda>i. kbind (alloc_many alloc n) (\<lambda>is. kret (i # is)))"

locale block_allocator =
  fixes inv :: "'b \<Rightarrow> bool"
    and cap :: "'b \<Rightarrow> nat"
    and used :: "'b \<Rightarrow> nat set"
    and alloc :: "('b, nat) op"
    and mark :: "nat \<Rightarrow> ('b, unit) op"
    and unmark :: "nat \<Rightarrow> ('b, unit) op"
    and isset :: "nat \<Rightarrow> ('b, bool) op"
  assumes used_bound: "inv b \<Longrightarrow> used b \<subseteq> {..<cap b}"
    and alloc_law: "inv b \<Longrightarrow> wp alloc
      (\<lambda>i b'. inv b' \<and> cap b' = cap b \<and> i < cap b \<and> i \<notin> used b \<and> {..<i} \<subseteq> used b
         \<and> used b' = insert i (used b))
      (\<lambda>e b'. e = ENOSPC \<and> b' = b \<and> used b = {..<cap b}) b"
    and mark_law: "inv b \<Longrightarrow> i < cap b \<Longrightarrow> i \<notin> used b \<Longrightarrow> wp (mark i)
      (\<lambda>_ b'. inv b' \<and> cap b' = cap b \<and> used b' = insert i (used b)) (\<lambda>_ _. False) b"
    and unmark_law: "inv b \<Longrightarrow> i \<in> used b \<Longrightarrow> wp (unmark i)
      (\<lambda>_ b'. inv b' \<and> cap b' = cap b \<and> used b' = used b - {i}) (\<lambda>_ _. False) b"
    and isset_law: "inv b \<Longrightarrow> i < cap b \<Longrightarrow> isset i b = Done (i \<in> used b) b"
begin

text \<open>Blocks allocated one after another are new and pairwise distinct.\<close>

lemma alloc_many_wp:
  assumes "inv b"
  shows "wp (alloc_many alloc n)
    (\<lambda>is b'. inv b' \<and> cap b' = cap b \<and> length is = n \<and> distinct is \<and> set is \<inter> used b = {}
       \<and> used b' = used b \<union> set is \<and> sorted is)
    (\<lambda>e b'. e = ENOSPC \<and> inv b' \<and> cap b' = cap b \<and> used b' = {..<cap b} \<and> cap b < card (used b) + n) b"
  using assms
proof (induction n arbitrary: b)
  case 0
  then show ?case by (simp add: wps)
next
  case (Suc n)
  show ?case unfolding alloc_many.simps wps
  proof (rule wp_mono [OF alloc_law [OF Suc.prems]])
    fix i b'
    assume b': "inv b' \<and> cap b' = cap b \<and> i < cap b \<and> i \<notin> used b \<and> {..<i} \<subseteq> used b
      \<and> used b' = insert i (used b)"
    then have "finite (used b)"
      using used_bound [OF Suc.prems] finite_subset by blast
    then have c: "card (used b') = Suc (card (used b))" using b' by simp
    have le: "i \<le> j" if "j \<notin> used b'" for j
    proof (rule ccontr)
      assume "\<not> i \<le> j"
      then have "j \<in> used b" using b' by auto
      then show False using that b' by simp
    qed
    show "wp (alloc_many alloc n)
       (\<lambda>is b'a. inv b'a \<and> cap b'a = cap b \<and> length (i # is) = Suc n \<and> distinct (i # is)
          \<and> set (i # is) \<inter> used b = {} \<and> used b'a = used b \<union> set (i # is) \<and> sorted (i # is))
       (\<lambda>e b'. e = ENOSPC \<and> inv b' \<and> cap b' = cap b \<and> used b' = {..<cap b} \<and> cap b < card (used b) + Suc n) b'"
    proof (rule wp_mono [OF Suc.IH])
      show "inv b'" using b' by blast
    next
      fix "is" b2
      assume "inv b2 \<and> cap b2 = cap b' \<and> length is = n \<and> distinct is \<and> set is \<inter> used b' = {}
        \<and> used b2 = used b' \<union> set is \<and> sorted is"
      then show "inv b2 \<and> cap b2 = cap b \<and> length (i # is) = Suc n \<and> distinct (i # is)
          \<and> set (i # is) \<inter> used b = {} \<and> used b2 = used b \<union> set (i # is) \<and> sorted (i # is)"
        using b' le by (auto simp: disjoint_iff)
    qed (use b' c in auto)
  next
    fix e b'
    assume "e = ENOSPC \<and> b' = b \<and> used b = {..<cap b}"
    then show "e = ENOSPC \<and> inv b' \<and> cap b' = cap b \<and> used b' = {..<cap b} \<and> cap b < card (used b) + Suc n"
      using Suc.prems by simp
  qed
qed

text \<open>Freeing what was just allocated restores the set of blocks in use.\<close>

lemma alloc_unmark:
  assumes "inv b"
  shows "wp (kbind alloc unmark) (\<lambda>_ b'. inv b' \<and> cap b' = cap b \<and> used b' = used b)
    (\<lambda>e b'. e = ENOSPC \<and> b' = b \<and> used b = {..<cap b}) b"
  unfolding wps
proof (rule wp_mono [OF alloc_law [OF assms]])
  fix i b'
  assume b': "inv b' \<and> cap b' = cap b \<and> i < cap b \<and> i \<notin> used b \<and> {..<i} \<subseteq> used b
    \<and> used b' = insert i (used b)"
  show "wp (unmark i) (\<lambda>_ b'. inv b' \<and> cap b' = cap b \<and> used b' = used b)
    (\<lambda>e b'. e = ENOSPC \<and> b' = b \<and> used b = {..<cap b}) b'"
    by (rule wp_mono [OF unmark_law]) (use b' in auto)
qed

end

interpretation bmap: block_allocator bitmap_wf nbits bitmap_used bitmap_alloc bitmap_mark
  bitmap_unmark bitmap_isset
proof unfold_locales
  fix b i
  assume b: "bitmap_wf b"
  show "bitmap_used b \<subseteq> {..<nbits b}" by (auto simp: bitmap_used_def)
  show "wp bitmap_alloc (\<lambda>i b'. bitmap_wf b' \<and> nbits b' = nbits b \<and> i < nbits b
      \<and> i \<notin> bitmap_used b \<and> {..<i} \<subseteq> bitmap_used b \<and> bitmap_used b' = insert i (bitmap_used b))
    (\<lambda>e b'. e = ENOSPC \<and> b' = b \<and> bitmap_used b = {..<nbits b}) b"
    by (rule bitmap_alloc_wp [OF b])
  show "wp (bitmap_mark i) (\<lambda>_ b'. bitmap_wf b' \<and> nbits b' = nbits b
      \<and> bitmap_used b' = insert i (bitmap_used b)) (\<lambda>_ _. False) b"
    if "i < nbits b" "i \<notin> bitmap_used b"
    by (rule bitmap_mark_wp [OF b that])
  show "wp (bitmap_unmark i) (\<lambda>_ b'. bitmap_wf b' \<and> nbits b' = nbits b
      \<and> bitmap_used b' = bitmap_used b - {i}) (\<lambda>_ _. False) b"
    if "i \<in> bitmap_used b"
    by (rule bitmap_unmark_wp [OF b that])
  show "bitmap_isset i b = Done (i \<in> bitmap_used b) b" if "i < nbits b"
    by (rule bitmap_isset_eq [OF b that])
qed

section \<open>Properties\<close>

text \<open>
  \<open>bitmap_alloc\<close> on a well-formed bitmap never trips its \<open>assert\<close>s; it returns the
  lowest number whose bit is clear and sets exactly that bit, or, when every one of the \<open>nbits\<close>
  bits is set, returns ENOSPC and changes nothing.
\<close>

theorem bitmap_alloc_first_fit:
  assumes "bitmap_wf b"
  shows "wp bitmap_alloc
    (\<lambda>i b'. bitmap_used b \<noteq> {..<nbits b} \<and> i = (LEAST j. j \<notin> bitmap_used b) \<and> i < nbits b
       \<and> bitmap_wf b' \<and> nbits b' = nbits b \<and> bitmap_used b' = insert i (bitmap_used b))
    (\<lambda>e b'. e = ENOSPC \<and> b' = b \<and> bitmap_used b = {..<nbits b}) b"
proof (rule wp_mono [OF bitmap_alloc_wp [OF assms]])
  fix i b'
  assume *: "bitmap_wf b' \<and> nbits b' = nbits b \<and> i < nbits b \<and> i \<notin> bitmap_used b
    \<and> {..<i} \<subseteq> bitmap_used b \<and> bitmap_used b' = insert i (bitmap_used b)"
  then have "(LEAST j. j \<notin> bitmap_used b) = i"
    by (intro Least_equality) (auto simp: subset_eq not_less [symmetric])
  with * show "bitmap_used b \<noteq> {..<nbits b} \<and> i = (LEAST j. j \<notin> bitmap_used b) \<and> i < nbits b
       \<and> bitmap_wf b' \<and> nbits b' = nbits b \<and> bitmap_used b' = insert i (bitmap_used b)" by auto
qed

definition bitmap_10 :: bitmap where
  "bitmap_10 = \<lparr>nbits = 10, b_v = [0x07, 0xFD]\<rparr>"

lemma bitmap_10_wf: "bitmap_wf bitmap_10"
proof -
  have "i = 10 \<or> i = 11 \<or> i = 12 \<or> i = 13 \<or> i = 14 \<or> i = 15" if "10 \<le> i" "i < 16" for i :: nat
    using that by linarith
  moreover have "bit_at bitmap_10 10" "bit_at bitmap_10 11" "bit_at bitmap_10 12"
    "bit_at bitmap_10 13" "bit_at bitmap_10 14" "bit_at bitmap_10 15" by code_simp+
  moreover have "nbits bitmap_10 = 10" "length (b_v bitmap_10) = 2" by (simp_all add: bitmap_10_def)
  ultimately show ?thesis by (auto simp: bitmap_wf_def)
qed

theorem bitmap_alloc_first_fit_witness:
  "wp bitmap_alloc
    (\<lambda>i b'. bitmap_used bitmap_10 \<noteq> {..<nbits bitmap_10} \<and> i = (LEAST j. j \<notin> bitmap_used bitmap_10)
       \<and> i < nbits bitmap_10 \<and> bitmap_wf b' \<and> nbits b' = nbits bitmap_10
       \<and> bitmap_used b' = insert i (bitmap_used bitmap_10))
    (\<lambda>e b'. e = ENOSPC \<and> b' = bitmap_10 \<and> bitmap_used bitmap_10 = {..<nbits bitmap_10}) bitmap_10
   \<and> bitmap_alloc bitmap_10 = Done 3 \<lparr>nbits = 10, b_v = [0x0F, 0xFD]\<rparr>"
proof (rule conjI [OF bitmap_alloc_first_fit [OF bitmap_10_wf]])
  show "bitmap_alloc bitmap_10 = Done 3 \<lparr>nbits = 10, b_v = [0x0F, 0xFD]\<rparr>"
    by (simp add: bitmap_alloc_def bitmap_10_def bitmap_words_def kbind_def kget_def kmodify_def
        kassert_def kret_def upt_rec Let_def)
qed

text \<open>A client's sequence of calls, on the bitmap and on the set it stands for.\<close>

datatype bitmap_cmd = Mark nat | Unmark nat | Alloc

primrec bitmap_exec :: "bitmap_cmd \<Rightarrow> (bitmap, unit) op" where
  "bitmap_exec (Mark i) = bitmap_mark i"
| "bitmap_exec (Unmark i) = bitmap_unmark i"
| "bitmap_exec Alloc = kbind bitmap_alloc (\<lambda>_. kret ())"

primrec set_exec :: "bitmap_cmd \<Rightarrow> nat set \<Rightarrow> nat set" where
  "set_exec (Mark i) S = insert i S"
| "set_exec (Unmark i) S = S - {i}"
| "set_exec Alloc S = insert (LEAST j. j \<notin> S) S"

primrec bcmd_ok :: "nat \<Rightarrow> bitmap_cmd \<Rightarrow> nat set \<Rightarrow> bool" where
  "bcmd_ok n (Mark i) S \<longleftrightarrow> i < n \<and> i \<notin> S"
| "bcmd_ok n (Unmark i) S \<longleftrightarrow> i \<in> S"
| "bcmd_ok n Alloc S \<longleftrightarrow> True"

primrec bcmds_ok :: "nat \<Rightarrow> bitmap_cmd list \<Rightarrow> nat set \<Rightarrow> bool" where
  "bcmds_ok n [] S = True"
| "bcmds_ok n (c # cs) S = (bcmd_ok n c S \<and> bcmds_ok n cs (set_exec c S))"

lemma bitmap_exec_wp:
  assumes "bitmap_wf b" and "bcmd_ok (nbits b) c (bitmap_used b)"
  shows "wp (bitmap_exec c)
    (\<lambda>_ b'. bitmap_wf b' \<and> nbits b' = nbits b \<and> bitmap_used b' = set_exec c (bitmap_used b))
    (\<lambda>e b'. e = ENOSPC \<and> b' = b \<and> bitmap_used b = {..<nbits b}) b"
proof (cases c)
  case (Mark i)
  show ?thesis unfolding Mark bitmap_exec.simps
    by (rule wp_mono [OF bmap.mark_law]) (use assms Mark in auto)
next
  case (Unmark i)
  show ?thesis unfolding Unmark bitmap_exec.simps
    by (rule wp_mono [OF bmap.unmark_law]) (use assms Unmark in auto)
next
  case Alloc
  have "(LEAST j. j \<notin> S) = i" if "i \<notin> S" "{..<i} \<subseteq> S" for i :: nat and S
    using that by (intro Least_equality) (auto simp: subset_eq not_less [symmetric])
  then show ?thesis unfolding Alloc bitmap_exec.simps wps
    by (intro wp_mono [OF bmap.alloc_law [OF assms(1)]]) auto
qed

text \<open>
  Any sequence of \<open>bitmap_mark\<close> of clear bits, \<open>bitmap_unmark\<close> of set bits
  and \<open>bitmap_alloc\<close> passes every \<open>assert\<close> and does to the set of bits in use what the same
  calls do to a set of numbers; it stops early only with ENOSPC, when all bits are in use.
\<close>

theorem bitmap_simulation:
  assumes "bitmap_wf b" and "bcmds_ok (nbits b) cs (bitmap_used b)"
  shows "wp (kfor cs bitmap_exec)
    (\<lambda>_ b'. bitmap_wf b' \<and> nbits b' = nbits b \<and> bitmap_used b' = fold set_exec cs (bitmap_used b))
    (\<lambda>e b'. e = ENOSPC \<and> bitmap_wf b' \<and> nbits b' = nbits b \<and> bitmap_used b' = {..<nbits b}) b"
  using assms
proof (induction cs arbitrary: b)
  case Nil
  then show ?case by (simp add: wps)
next
  case (Cons c cs)
  show ?case unfolding wp_kfor_Cons
  proof (rule wp_mono [OF bitmap_exec_wp [OF Cons.prems(1)]])
    show "bcmd_ok (nbits b) c (bitmap_used b)" using Cons.prems by simp
  next
    fix u b'
    assume b': "bitmap_wf b' \<and> nbits b' = nbits b \<and> bitmap_used b' = set_exec c (bitmap_used b)"
    show "wp (kfor cs bitmap_exec)
     (\<lambda>_ b'. bitmap_wf b' \<and> nbits b' = nbits b \<and> bitmap_used b' = fold set_exec (c # cs) (bitmap_used b))
     (\<lambda>e b'. e = ENOSPC \<and> bitmap_wf b' \<and> nbits b' = nbits b \<and> bitmap_used b' = {..<nbits b}) b'"
      by (rule wp_mono [OF Cons.IH]) (use b' Cons.prems in auto)
  qed (use Cons.prems in auto)
qed

theorem bitmap_simulation_witness:
  "wp (kfor [Mark 3, Alloc, Unmark 3] bitmap_exec)
    (\<lambda>_ b'. bitmap_wf b' \<and> nbits b' = nbits bitmap_10
        \<and> bitmap_used b' = fold set_exec [Mark 3, Alloc, Unmark 3] (bitmap_used bitmap_10))
    (\<lambda>e b'. e = ENOSPC \<and> bitmap_wf b' \<and> nbits b' = nbits bitmap_10
        \<and> bitmap_used b' = {..<nbits bitmap_10}) bitmap_10"
proof (rule bitmap_simulation [OF bitmap_10_wf])
  have "3 \<notin> bitmap_used bitmap_10"
  proof -
    have "\<not> bit_at bitmap_10 3" by code_simp
    then show ?thesis by (simp add: bitmap_used_def)
  qed
  moreover have "(LEAST j. j \<notin> insert 3 (bitmap_used bitmap_10)) \<noteq> 3"
    by (metis (mono_tags, lifting) LeastI_ex Least_le calculation ex_new_if_finite finite_insert
        bitmap_used_finite infinite_UNIV_nat insertI1)
  ultimately show "bcmds_ok (nbits bitmap_10) [Mark 3, Alloc, Unmark 3] (bitmap_used bitmap_10)"
    by (simp add: bitmap_10_def)
qed

text \<open>
  Blocks allocated one after another from a well-formed bitmap are pairwise distinct,
  were all free before, and are exactly what the allocations add to the bits in use; running out
  (ENOSPC) happens only when fewer than \<open>n\<close> bits were free, and then every bit is in use.
\<close>

theorem bitmap_allocs_distinct:
  assumes "bitmap_wf b"
  shows "wp (alloc_many bitmap_alloc n)
    (\<lambda>is b'. bitmap_wf b' \<and> nbits b' = nbits b \<and> length is = n \<and> distinct is
       \<and> set is \<inter> bitmap_used b = {} \<and> bitmap_used b' = bitmap_used b \<union> set is \<and> sorted is)
    (\<lambda>e b'. e = ENOSPC \<and> bitmap_wf b' \<and> nbits b' = nbits b \<and> bitmap_used b' = {..<nbits b}
       \<and> nbits b < card (bitmap_used b) + n) b"
  by (rule bmap.alloc_many_wp [OF assms])

theorem bitmap_allocs_distinct_witness:
  "wp (alloc_many bitmap_alloc 4)
    (\<lambda>is b'. bitmap_wf b' \<and> nbits b' = nbits bitmap_10 \<and> length is = 4 \<and> distinct is
       \<and> set is \<inter> bitmap_used bitmap_10 = {} \<and> bitmap_used b' = bitmap_used bitmap_10 \<union> set is
       \<and> sorted is)
    (\<lambda>e b'. e = ENOSPC \<and> bitmap_wf b' \<and> nbits b' = nbits bitmap_10
       \<and> bitmap_used b' = {..<nbits bitmap_10}
       \<and> nbits bitmap_10 < card (bitmap_used bitmap_10) + 4) bitmap_10"
  by (rule bitmap_allocs_distinct [OF bitmap_10_wf])

end
