(* ===== verification/KQueue.thy ===== *)
theory KQueue
  imports KPrelude
begin

text \<open>
  The circular queue of kern/lib/queue.c (the run queue of the scheduler), its invariant, its
  refinement to lists and the FIFO interface the scheduler relies on.

  A cell of the buffer is \<open>None\<close> as long as nothing was stored in it. The fields are \<open>int\<close>s
  that never become negative; the one product that can leave the range of \<open>int\<close> (the doubling
  in \<open>q_grow\<close>) is checked where the code has its \<open>assert(nsize > 0)\<close>. The argument \<open>ok\<close>
  says whether \<open>kmalloc\<close> succeeds.
\<close>

section \<open>The structure and its operations\<close>

record 'a kqueue =
  q_size :: nat
  q_nextwrite :: nat
  q_nextread :: nat
  q_data :: "'a option list"

definition q_create :: "bool \<Rightarrow> bool \<Rightarrow> nat \<Rightarrow> 'a kqueue option" where
  "q_create ok1 ok2 sz =
     (if \<not> ok1 then None
      else if \<not> ok2 then None
      else Some \<lparr>q_size = sz, q_nextwrite = 0, q_nextread = 0, q_data = replicate sz None\<rparr>)"

definition q_empty :: "'a kqueue \<Rightarrow> bool" where
  "q_empty q \<longleftrightarrow> q_nextwrite q = q_nextread q"

text \<open>The loop \<open>while (nsize < targetsize) {nsize *= 2; assert(nsize > 0);}\<close>: \<open>None\<close> when the
  assertion fails (the product is 0 or does not fit an \<open>int\<close>).\<close>

function q_grow_size :: "nat \<Rightarrow> nat \<Rightarrow> nat option" where
  "q_grow_size nsize targetsize =
     (if nsize < targetsize then
        if nsize = 0 \<or> nsize * 2 > 2147483647 then None
        else q_grow_size (nsize * 2) targetsize
      else Some nsize)"
  by pat_completeness auto
termination
  by (relation "measure (\<lambda>(nsize, targetsize). targetsize - nsize)") auto

declare q_grow_size.simps [simp del]

text \<open>
  The indices visited by \<open>for (i=onr; i!=onw; i = (i+1)%osize)\<close>; the first argument bounds the
  steps (\<open>osize\<close> of them suffice when both ends lie below \<open>osize\<close>), \<open>None\<close> is a loop that
  does not end.
\<close>

primrec q_indices :: "nat \<Rightarrow> nat \<Rightarrow> nat \<Rightarrow> nat \<Rightarrow> nat list option" where
  "q_indices 0 osize onw i = (if i = onw then Some [] else None)"
| "q_indices (Suc n) osize onw i =
     (if i = onw then Some [] else map_option ((#) i) (q_indices n osize onw ((i + 1) mod osize)))"

text \<open>
  \<open>q_grow\<close> and \<open>q_addtail\<close> call each other. \<open>q_grow_with addtail\<close> is the body of \<open>q_grow\<close> over the
  \<open>q_addtail\<close> it calls; \<open>q_addtail_depth d\<close> is \<open>q_addtail\<close> with at most \<open>d\<close> nested calls of
  itself. The inner calls go to the new, larger buffer and never grow it again, so depth 2 is
  enough (lemma \<open>q_addtail_wp\<close> shows that the bound is not reached).
\<close>

definition q_grow_with :: "(bool \<Rightarrow> 'a option \<Rightarrow> ('a kqueue, unit) op) \<Rightarrow> bool \<Rightarrow> nat \<Rightarrow> ('a kqueue, unit) op" where
  "q_grow_with addtail ok targetsize =
     kbind (kget id) (\<lambda>q.
     let olddata = q_data q; onr = q_nextread q; onw = q_nextwrite q; osize = q_size q in
     case q_grow_size osize targetsize of
       None \<Rightarrow> kpanic
     | Some nsize \<Rightarrow>
         if \<not> ok then kfail ENOMEM
         else
           kbind (kmodify (\<lambda>q. q\<lparr>q_size := nsize, q_data := replicate nsize None,
                                 q_nextread := 0, q_nextwrite := 0\<rparr>)) (\<lambda>_.
           case q_indices osize osize onw onr of
             None \<Rightarrow> kpanic
           | Some is \<Rightarrow>
               kfor is (\<lambda>i. kbind (kattempt (addtail ok (olddata ! i))) (\<lambda>result.
                             kassert (case result of Inl e \<Rightarrow> False | Inr _ \<Rightarrow> True)))))"

primrec q_addtail_depth :: "nat \<Rightarrow> bool \<Rightarrow> 'a option \<Rightarrow> ('a kqueue, unit) op" where
  "q_addtail_depth 0 ok ptr = kpanic"
| "q_addtail_depth (Suc d) ok ptr =
     kbind (kget id) (\<lambda>q.
     kbind (kassert (q_size q > 0)) (\<lambda>_.
     kbind (kwhen ((q_nextwrite q + 1) mod q_size q = q_nextread q)
              (q_grow_with (q_addtail_depth d) ok (q_size q + 1))) (\<lambda>_.
     kmodify (\<lambda>q. q\<lparr>q_data := (q_data q)[q_nextwrite q := ptr],
                    q_nextwrite := (q_nextwrite q + 1) mod q_size q\<rparr>))))"

definition q_grow :: "bool \<Rightarrow> nat \<Rightarrow> ('a kqueue, unit) op" where
  "q_grow = q_grow_with (q_addtail_depth 1)"

definition q_addtail :: "bool \<Rightarrow> 'a \<Rightarrow> ('a kqueue, unit) op" where
  "q_addtail ok ptr = q_addtail_depth 2 ok (Some ptr)"

definition q_preallocate :: "bool \<Rightarrow> nat \<Rightarrow> ('a kqueue, unit) op" where
  "q_preallocate ok sz =
     kbind (kget id) (\<lambda>q.
     kbind (kassert (q_size q > 0)) (\<lambda>_.
     kwhen (sz > q_size q) (q_grow ok sz)))"

definition q_remhead :: "('a kqueue, 'a option) op" where
  "q_remhead =
     kbind (kget id) (\<lambda>q.
     kbind (kassert (q_size q > 0)) (\<lambda>_.
     kbind (kassert (\<not> q_empty q)) (\<lambda>_.
     let ret = q_data q ! q_nextread q in
     kbind (kmodify (\<lambda>q. q\<lparr>q_nextread := (q_nextread q + 1) mod q_size q\<rparr>)) (\<lambda>_.
     kret ret))))"

text \<open>\<open>q_destroy\<close> only checks that the queue is empty before freeing it.\<close>

definition q_destroy :: "('a kqueue, unit) op" where
  "q_destroy = kbind (kget q_empty) kassert"

definition q_getstart :: "'a kqueue \<Rightarrow> nat" where
  "q_getstart q = q_nextread q"

definition q_getend :: "'a kqueue \<Rightarrow> nat" where
  "q_getend q = q_nextwrite q"

definition q_getsize :: "'a kqueue \<Rightarrow> nat" where
  "q_getsize q = q_size q"

definition q_getguy :: "int \<Rightarrow> ('a kqueue, 'a option) op" where
  "q_getguy index =
     kbind (kget id) (\<lambda>q.
     kbind (kassert (index \<ge> 0 \<and> index < int (q_size q))) (\<lambda>_.
     kret (q_data q ! nat index)))"

section \<open>Invariant and abstraction\<close>

definition q_len :: "'a kqueue \<Rightarrow> nat" where
  "q_len q = (q_nextwrite q + q_size q - q_nextread q) mod q_size q"

definition q_list :: "'a kqueue \<Rightarrow> 'a list" where
  "q_list q = map (\<lambda>k. the (q_data q ! ((q_nextread q + k) mod q_size q))) [0..<q_len q]"

text \<open>
  \<open>q_rep q xs\<close>: the queue holds \<open>xs\<close>, from \<open>nextread\<close> on and around the end of the buffer. One
  cell always stays free.
\<close>

definition q_rep :: "'a kqueue \<Rightarrow> 'a list \<Rightarrow> bool" where
  "q_rep q xs \<longleftrightarrow> length (q_data q) = q_size q \<and> q_size q \<le> 1073741824 \<and> q_nextread q < q_size q
     \<and> length xs < q_size q \<and> q_nextwrite q = (q_nextread q + length xs) mod q_size q
     \<and> (\<forall>k < length xs. q_data q ! ((q_nextread q + k) mod q_size q) = Some (xs ! k))"

definition q_wf :: "'a kqueue \<Rightarrow> bool" where
  "q_wf q \<longleftrightarrow> q_rep q (q_list q)"

lemma mod_window_inj:
  assumes "(a + j) mod m = (a + k) mod m" and "j < m" and "k < (m :: nat)"
  shows "j = k"
proof -
  have "j mod m = k mod m"
    using assms(1) by (simp add: mod_eq_dvd_iff_nat mod_add_cong nat_mod_eq_iff)
  then show ?thesis using assms by simp
qed

lemma mod_window_len:
  assumes "r < m" and "l < (m :: nat)"
  shows "((r + l) mod m + m - r) mod m = l"
proof (cases "r + l < m")
  case True
  then show ?thesis using assms by simp
next
  case False
  then have "(r + l) mod m = r + l - m" using assms by (simp add: mod_if)
  then show ?thesis using False assms by simp
qed

lemma q_rep_len: "q_rep q xs \<Longrightarrow> q_len q = length xs"
  unfolding q_rep_def q_len_def by (metis mod_window_len)

lemma q_rep_list: "q_rep q xs \<Longrightarrow> q_list q = xs"
  by (intro nth_equalityI) (auto simp: q_list_def q_rep_len, simp add: q_rep_def)

lemma q_rep_wf: "q_rep q xs \<Longrightarrow> q_wf q \<and> q_list q = xs"
  using q_rep_list [of q xs] by (simp add: q_wf_def)

lemma q_rep_empty: "q_rep q xs \<Longrightarrow> q_empty q \<longleftrightarrow> xs = []"
  using mod_window_inj [of "q_nextread q" "length xs" "q_size q" 0]
  by (auto simp: q_rep_def q_empty_def)

lemma q_wf_empty: "q_wf q \<Longrightarrow> q_empty q \<longleftrightarrow> q_list q = []"
  unfolding q_wf_def by (rule q_rep_empty)

lemma q_create_list:
  "q_create ok1 ok2 n = Some q \<Longrightarrow> 0 < n \<Longrightarrow> n \<le> 1073741824 \<Longrightarrow> q_wf q \<and> q_list q = []"
  by (intro q_rep_wf) (auto simp: q_create_def q_rep_def split: if_splits)

section \<open>The operations on a well-formed queue\<close>

lemma q_rep_store:
  assumes q: "q_rep q xs" and room: "Suc (length xs) < q_size q"
  shows "q_rep (q\<lparr>q_data := (q_data q)[q_nextwrite q := Some x],
                  q_nextwrite := (q_nextwrite q + 1) mod q_size q\<rparr>) (xs @ [x])"
proof -
  let ?m = "q_size q" and ?r = "q_nextread q"
  have nw: "q_nextwrite q = (?r + length xs) mod ?m" "q_nextwrite q < length (q_data q)"
    using q room by (auto simp: q_rep_def)
  have other: "(?r + k) mod ?m \<noteq> (?r + length xs) mod ?m" if "k < length xs" for k
    using mod_window_inj [of ?r k ?m "length xs"] that room by linarith
  have "(q_data q)[q_nextwrite q := Some x] ! ((?r + k) mod ?m) = Some ((xs @ [x]) ! k)"
    if k: "k < Suc (length xs)" for k
  proof (cases "k = length xs")
    case True
    then show ?thesis using nw by simp
  next
    case False
    then have "k < length xs" using k by simp
    then show ?thesis using other [of k] q nw(1) by (simp add: q_rep_def nth_append)
  qed
  then show ?thesis using q room nw(1)
    by (simp add: q_rep_def mod_Suc_eq)
qed

lemma q_full_iff:
  assumes "q_rep q xs"
  shows "(q_nextwrite q + 1) mod q_size q = q_nextread q \<longleftrightarrow> q_size q = Suc (length xs)"
proof -
  let ?m = "q_size q" and ?r = "q_nextread q"
  have m: "?r < ?m" "length xs < ?m" "q_nextwrite q = (?r + length xs) mod ?m"
    using assms by (auto simp: q_rep_def)
  have e: "(q_nextwrite q + 1) mod ?m = (?r + Suc (length xs)) mod ?m"
    using m(3) by (simp add: mod_Suc_eq)
  show ?thesis
  proof (cases "Suc (length xs) < ?m")
    case True
    then show ?thesis using e m mod_window_inj [of ?r "Suc (length xs)" ?m 0] by auto
  next
    case False
    then have "Suc (length xs) = ?m" using m by linarith
    then show ?thesis using e m by simp
  qed
qed

text \<open>As long as a cell is free, \<open>q_addtail\<close> does not grow the buffer, at any depth.\<close>

lemma q_addtail_room:
  assumes q: "q_rep q xs" and room: "Suc (length xs) < q_size q"
  shows "wp (q_addtail_depth (Suc d) ok (Some x))
    (\<lambda>_ q'. q_rep q' (xs @ [x]) \<and> q_size q' = q_size q) (\<lambda>_ _. False) q"
  using q_rep_store [OF q room, of x] q_full_iff [OF q] room
  by (simp add: wps)

lemma q_grow_size_spec:
  assumes "0 < n" and "t \<le> 2 * n" and "n \<le> 536870912"
  shows "q_grow_size n t = Some (if n < t then 2 * n else n)"
  using assms by (simp add: q_grow_size.simps [of n] q_grow_size.simps [of "n * 2"])

lemma q_grow_size_ge: "q_grow_size n t = Some m \<Longrightarrow> t \<le> m \<and> n \<le> m"
proof (induction n t rule: q_grow_size.induct)
  case (1 n t)
  show ?case
  proof (cases "n < t")
    case True
    then show ?thesis using 1 q_grow_size.simps [of n t] by (force split: if_splits)
  qed (use 1 q_grow_size.simps [of n t] in simp)
qed

lemma q_indices_eq:
  assumes m: "0 < m" and r: "r < m" and l: "l < m"
  shows "k \<le> l \<Longrightarrow> l - k \<le> n \<Longrightarrow> q_indices n m ((r + l) mod m) ((r + k) mod m)
    = Some (map (\<lambda>j. (r + j) mod m) [k..<l])"
proof (induction n arbitrary: k)
  case 0
  then show ?case by simp
next
  case (Suc n)
  show ?case
  proof (cases "k = l")
    case True
    then show ?thesis by simp
  next
    case False
    then have ne: "(r + k) mod m \<noteq> (r + l) mod m"
      using mod_window_inj [of r k m l] Suc.prems l by linarith
    have "((r + k) mod m + 1) mod m = (r + Suc k) mod m" by (simp add: mod_Suc_eq)
    moreover have "[k..<l] = k # [Suc k..<l]" using False Suc.prems by (simp add: upt_conv_Cons)
    ultimately show ?thesis using ne Suc.IH [of "Suc k"] Suc.prems False by simp
  qed
qed

text \<open>Copying the elements one by one into a buffer that is large enough.\<close>

lemma q_copy_wp:
  assumes "q_rep q ys" and "length ys + length js < q_size q"
    and "\<And>k. k < length js \<Longrightarrow> old ! (js ! k) = Some (xs ! k)" and "length xs = length js"
  shows "wp (kfor js (\<lambda>i. kbind (kattempt (q_addtail_depth (Suc d) ok (old ! i))) (\<lambda>result.
              kassert (case result of Inl e \<Rightarrow> False | Inr _ \<Rightarrow> True))))
     (\<lambda>_ q'. q_rep q' (ys @ xs) \<and> q_size q' = q_size q) (\<lambda>_ _. False) q"
  using assms
proof (induction js arbitrary: q ys xs)
  case Nil
  then show ?case by (simp add: wps)
next
  case (Cons j js)
  then obtain x xs' where xs: "xs = x # xs'" by (cases xs) auto
  have x: "old ! j = Some x" using Cons.prems(3) [of 0] xs by simp
  have rest: "old ! (js ! k) = Some (xs' ! k)" if "k < length js" for k
    using Cons.prems(3) [of "Suc k"] that xs by simp
  have "wp (q_addtail_depth (Suc d) ok (Some x))
    (\<lambda>_ q'. q_rep q' (ys @ [x]) \<and> q_size q' = q_size q) (\<lambda>_ _. False) q"
    by (rule q_addtail_room [OF Cons.prems(1)]) (use Cons.prems(2) in simp)
  then show ?case unfolding wp_kfor_Cons wp_kbind wp_kattempt wp_kassert x
  proof (rule wp_mono)
    fix u q'
    assume q': "q_rep q' (ys @ [x]) \<and> q_size q' = q_size q"
    have "wp (kfor js (\<lambda>i. kbind (kattempt (q_addtail_depth (Suc d) ok (old ! i))) (\<lambda>result.
              kassert (case result of Inl e \<Rightarrow> False | Inr _ \<Rightarrow> True))))
      (\<lambda>_ q''. q_rep q'' ((ys @ [x]) @ xs') \<and> q_size q'' = q_size q') (\<lambda>_ _. False) q'"
      by (rule Cons.IH) (use q' Cons.prems(2,4) rest xs in auto)
    then show "(case (Inr u :: errno + unit) of Inl e \<Rightarrow> False | Inr _ \<Rightarrow> True) \<and>
      wp (kfor js (\<lambda>i. kbind (kattempt (q_addtail_depth (Suc d) ok (old ! i))) (\<lambda>result.
              kassert (case result of Inl e \<Rightarrow> False | Inr _ \<Rightarrow> True))))
       (\<lambda>_ q'. q_rep q' (ys @ xs) \<and> q_size q' = q_size q) (\<lambda>_ _. False) q'"
      using q' xs by simp
  qed simp
qed

text \<open>Growing keeps the contents; without memory it fails and changes nothing.\<close>

lemma q_grow_wp:
  assumes q: "q_rep q xs" and sz: "q_grow_size (q_size q) t = Some m" "m \<le> 1073741824"
  shows "wp (q_grow_with (q_addtail_depth (Suc d)) ok t)
    (\<lambda>_ q'. ok \<and> q_rep q' xs \<and> q_size q' = m) (\<lambda>e q'. \<not> ok \<and> e = ENOMEM \<and> q' = q) q"
proof -
  let ?m = "q_size q" and ?r = "q_nextread q"
  let ?q0 = "q\<lparr>q_size := m, q_data := replicate m None, q_nextread := 0, q_nextwrite := 0\<rparr>"
  let ?js = "map (\<lambda>j. (?r + j) mod ?m) [0..<length xs]"
  have m: "?r < ?m" "length xs < ?m" "q_nextwrite q = (?r + length xs) mod ?m"
    using q by (auto simp: q_rep_def)
  have le: "?m \<le> m" using q_grow_size_ge [OF sz(1)] by simp
  have ix: "q_indices ?m ?m (q_nextwrite q) ?r = Some ?js"
    using q_indices_eq [of ?m ?r "length xs" 0 ?m] m by simp
  have "q_rep ?q0 []" using le sz m by (simp add: q_rep_def)
  then have "wp (kfor ?js (\<lambda>i. kbind (kattempt (q_addtail_depth (Suc d) ok (q_data q ! i))) (\<lambda>result.
              kassert (case result of Inl e \<Rightarrow> False | Inr _ \<Rightarrow> True))))
     (\<lambda>_ q'. q_rep q' ([] @ xs) \<and> q_size q' = q_size ?q0) (\<lambda>_ _. False) ?q0"
    by (rule q_copy_wp) (use q m le in \<open>auto simp: q_rep_def\<close>)
  then have "wp (kfor ?js (\<lambda>i. kbind (kattempt (q_addtail_depth (Suc d) ok (q_data q ! i))) (\<lambda>result.
              kassert (case result of Inl e \<Rightarrow> False | Inr _ \<Rightarrow> True))))
     (\<lambda>_ q'. q_rep q' xs \<and> q_size q' = m) (\<lambda>e q'. \<not> ok \<and> e = ENOMEM \<and> q' = q) ?q0"
    by (rule wp_mono) auto
  then show ?thesis
    unfolding q_grow_with_def Let_def
    by (cases ok) (simp_all add: wps sz(1) ix del: q_addtail_depth.simps)
qed

text \<open>
  \<open>q_addtail\<close> appends, growing the buffer when needed: the nested call of \<open>q_grow\<close> always has
  room, so the depth bound of the model is never reached.
\<close>

lemma q_addtail_wp:
  assumes wf: "q_wf q" and few: "length (q_list q) < 536870911"
  shows "wp (q_addtail ok x)
    (\<lambda>_ q'. q_wf q' \<and> q_list q' = q_list q @ [x] \<and> q_size q \<le> q_size q')
    (\<lambda>e q'. \<not> ok \<and> e = ENOMEM \<and> q' = q \<and> q_size q = Suc (length (q_list q))) q"
proof -
  let ?xs = "q_list q"
  have q: "q_rep q ?xs" using wf by (simp add: q_wf_def)
  then have m: "0 < q_size q" "length ?xs < q_size q" by (auto simp: q_rep_def)
  show ?thesis
  proof (cases "q_size q = Suc (length ?xs)")
    case False
    then have "wp (q_addtail ok x) (\<lambda>_ q'. q_rep q' (?xs @ [x]) \<and> q_size q' = q_size q) (\<lambda>_ _. False) q"
      using q_addtail_room [OF q, of 1 ok x] m by (simp add: q_addtail_def numeral_2_eq_2)
    then show ?thesis by (rule wp_mono) (use q_rep_wf in \<open>fastforce+\<close>)
  next
    case True
    have g: "q_grow_size (q_size q) (q_size q + 1) = Some (2 * q_size q)"
      using q_grow_size_spec [of "q_size q" "q_size q + 1"] True few by simp
    have "wp (q_grow_with (q_addtail_depth (Suc 0)) ok (q_size q + 1))
      (\<lambda>_ q'. ok \<and> q_rep q' ?xs \<and> q_size q' = 2 * q_size q) (\<lambda>e q'. \<not> ok \<and> e = ENOMEM \<and> q' = q) q"
      by (rule q_grow_wp [OF q g]) (use True few in simp)
    then have "wp (q_grow_with (q_addtail_depth (Suc 0)) ok (Suc (q_size q)))
      (\<lambda>_ q'. q_rep (q'\<lparr>q_data := (q_data q')[q_nextwrite q' := Some x],
                       q_nextwrite := Suc (q_nextwrite q') mod q_size q'\<rparr>) (?xs @ [x])
         \<and> q_size q \<le> q_size q')
      (\<lambda>e q'. \<not> ok \<and> e = ENOMEM \<and> q' = q \<and> q_size q = Suc (length ?xs)) q"
      unfolding Suc_eq_plus1
    proof (rule wp_mono)
      fix u q'
      assume q': "ok \<and> q_rep q' ?xs \<and> q_size q' = 2 * q_size q"
      then show "q_rep (q'\<lparr>q_data := (q_data q')[q_nextwrite q' := Some x],
                   q_nextwrite := (q_nextwrite q' + 1) mod q_size q'\<rparr>) (?xs @ [x])
         \<and> q_size q \<le> q_size q'"
        using q_rep_store [of q' ?xs x] True by simp
    qed (use True in simp)
    then have "wp (q_addtail ok x) (\<lambda>_ q'. q_rep q' (?xs @ [x]) \<and> q_size q \<le> q_size q')
      (\<lambda>e q'. \<not> ok \<and> e = ENOMEM \<and> q' = q \<and> q_size q = Suc (length ?xs)) q"
      using m q_full_iff [OF q] True
      by (simp add: q_addtail_def numeral_2_eq_2 wps del: q_addtail_depth.simps(1))
    then show ?thesis by (rule wp_mono) (use q_rep_wf in \<open>fastforce+\<close>)
  qed
qed

lemma q_rep_remove:
  assumes q: "q_rep q (x # xs)"
  shows "q_rep (q\<lparr>q_nextread := (q_nextread q + 1) mod q_size q\<rparr>) xs"
    and "q_data q ! q_nextread q = Some x"
proof -
  let ?m = "q_size q" and ?r = "q_nextread q"
  have k: "q_data q ! ((?r + k) mod ?m) = Some ((x # xs) ! k)" if "k < Suc (length xs)" for k
    using q that by (simp add: q_rep_def)
  have r: "?r < ?m" using q by (simp add: q_rep_def)
  show "q_data q ! ?r = Some x" using k [of 0] r by simp
  have "q_data q ! (((?r + 1) mod ?m + k) mod ?m) = Some (xs ! k)" if "k < length xs" for k
    using k [of "Suc k"] that by (simp add: mod_add_left_eq)
  then show "q_rep (q\<lparr>q_nextread := (?r + 1) mod ?m\<rparr>) xs"
    using q r by (simp add: q_rep_def mod_add_left_eq)
qed

lemma q_remhead_wp:
  assumes wf: "q_wf q" and ne: "q_list q \<noteq> []"
  shows "wp q_remhead
    (\<lambda>r q'. q_wf q' \<and> r = Some (hd (q_list q)) \<and> q_list q' = tl (q_list q) \<and> q_size q' = q_size q)
    (\<lambda>_ _. False) q"
proof -
  obtain x xs where xs: "q_list q = x # xs" using ne by (cases "q_list q") auto
  then have q: "q_rep q (x # xs)" using wf by (simp add: q_wf_def)
  have "0 < q_size q" using q by (simp add: q_rep_def)
  then show ?thesis
    using q_rep_remove [OF q] q_rep_wf q_wf_empty [OF wf] xs
    by (simp add: q_remhead_def wps Let_def)
qed

lemma q_grow_size_defined:
  assumes "0 < n" and "t \<le> 536870912"
  shows "\<exists>m. q_grow_size n t = Some m \<and> (m = n \<or> m < 2 * t)"
  using assms
proof (induction n t rule: q_grow_size.induct)
  case (1 n t)
  show ?case
  proof (cases "n < t")
    case True
    then have "\<not> (n = 0 \<or> n * 2 > 2147483647)" using 1 by simp
    then show ?thesis using 1 True q_grow_size.simps [of n t] by fastforce
  qed (simp add: q_grow_size.simps [of n t])
qed

text \<open>After \<open>q_preallocate(q, n)\<close> the buffer has \<open>n\<close> cells, which hold \<open>n - 1\<close> elements.\<close>

lemma q_preallocate_wp:
  assumes wf: "q_wf q" and n: "n \<le> 536870912"
  shows "wp (q_preallocate ok n)
    (\<lambda>_ q'. q_wf q' \<and> q_list q' = q_list q \<and> n \<le> q_size q' \<and> q_size q \<le> q_size q')
    (\<lambda>e q'. \<not> ok \<and> e = ENOMEM \<and> q' = q \<and> q_size q < n) q"
proof (cases "n > q_size q")
  case False
  then show ?thesis using wf by (auto simp: q_preallocate_def wps q_wf_def q_rep_def)
next
  case True
  have q: "q_rep q (q_list q)" and m0: "0 < q_size q" using wf by (auto simp: q_wf_def q_rep_def)
  obtain m where m: "q_grow_size (q_size q) n = Some m" "m \<le> 1073741824"
    using q_grow_size_defined [OF m0 n] q n by (auto simp: q_rep_def)
  have "wp (q_grow ok n) (\<lambda>_ q'. q_wf q' \<and> q_list q' = q_list q \<and> n \<le> q_size q' \<and> q_size q \<le> q_size q')
    (\<lambda>e q'. \<not> ok \<and> e = ENOMEM \<and> q' = q \<and> q_size q < n) q"
    unfolding q_grow_def One_nat_def
    by (rule wp_mono [OF q_grow_wp [OF q m]])
      (use q_rep_wf q_grow_size_ge [OF m(1)] True in auto)
  then show ?thesis using True m0 by (simp add: q_preallocate_def wps)
qed

section \<open>The FIFO interface\<close>

primrec rotate_ops :: "('q, 'a option) op \<Rightarrow> (bool \<Rightarrow> 'a \<Rightarrow> ('q, unit) op) \<Rightarrow> bool list
    \<Rightarrow> ('q, unit) op" where
  "rotate_ops rem add [] = kret ()"
| "rotate_ops rem add (ok # oks) =
     kbind rem (\<lambda>r. case r of None \<Rightarrow> kpanic | Some x \<Rightarrow>
     kbind (add ok x) (\<lambda>_. rotate_ops rem add oks))"

locale fifo =
  fixes inv :: "'q \<Rightarrow> bool"
    and elems :: "'q \<Rightarrow> 'a list"
    and cap :: "'q \<Rightarrow> nat"
    and empty :: "'q \<Rightarrow> bool"
    and add :: "bool \<Rightarrow> 'a \<Rightarrow> ('q, unit) op"
    and rem :: "('q, 'a option) op"
    and prealloc :: "bool \<Rightarrow> nat \<Rightarrow> ('q, unit) op"
    and limit :: nat
  assumes cap_law: "inv q \<Longrightarrow> length (elems q) < cap q"
    and empty_law: "inv q \<Longrightarrow> empty q \<longleftrightarrow> elems q = []"
    and add_law: "inv q \<Longrightarrow> length (elems q) < limit \<Longrightarrow> wp (add ok x)
      (\<lambda>_ q'. inv q' \<and> elems q' = elems q @ [x] \<and> cap q \<le> cap q')
      (\<lambda>e q'. \<not> ok \<and> e = ENOMEM \<and> q' = q \<and> cap q = Suc (length (elems q))) q"
    and rem_law: "inv q \<Longrightarrow> elems q \<noteq> [] \<Longrightarrow> wp rem
      (\<lambda>r q'. inv q' \<and> r = Some (hd (elems q)) \<and> elems q' = tl (elems q) \<and> cap q' = cap q)
      (\<lambda>_ _. False) q"
    and prealloc_law: "inv q \<Longrightarrow> n \<le> limit \<Longrightarrow> wp (prealloc ok n)
      (\<lambda>_ q'. inv q' \<and> elems q' = elems q \<and> n \<le> cap q' \<and> cap q \<le> cap q')
      (\<lambda>e q'. \<not> ok \<and> e = ENOMEM \<and> q' = q \<and> cap q < n) q"
begin

text \<open>Taking the head off makes room, so putting it back at the end needs no memory.\<close>

lemma rotate_law:
  assumes "inv q" and "elems q \<noteq> []" and "length (elems q) \<le> limit"
  shows "wp (rotate_ops rem add oks)
    (\<lambda>_ q'. inv q' \<and> elems q' = rotate (length oks) (elems q)) (\<lambda>_ _. False) q"
  using assms
proof (induction oks arbitrary: q)
  case Nil
  then show ?case by (simp add: wps)
next
  case (Cons ok oks)
  show ?case unfolding rotate_ops.simps wps
  proof (rule wp_mono [OF rem_law [OF Cons.prems(1,2)]])
    fix r q1
    assume q1: "inv q1 \<and> r = Some (hd (elems q)) \<and> elems q1 = tl (elems q) \<and> cap q1 = cap q"
    have len: "Suc (length (elems q1)) < cap q1"
      using q1 cap_law [OF Cons.prems(1)] Cons.prems(2) by simp
    have "wp (add ok (hd (elems q))) (\<lambda>_. wp (rotate_ops rem add oks)
        (\<lambda>_ q'. inv q' \<and> elems q' = rotate (length (ok # oks)) (elems q)) (\<lambda>_ _. False)) (\<lambda>_ _. False) q1"
    proof (rule wp_mono [OF add_law])
      fix u q2
      assume q2: "inv q2 \<and> elems q2 = elems q1 @ [hd (elems q)] \<and> cap q1 \<le> cap q2"
      then have r1: "elems q2 = rotate1 (elems q)"
        using q1 Cons.prems(2) by (cases "elems q") auto
      then have "wp (rotate_ops rem add oks)
        (\<lambda>_ q'. inv q' \<and> elems q' = rotate (length oks) (elems q2)) (\<lambda>_ _. False) q2"
        using Cons.IH [of q2] q2 Cons.prems by simp
      then show "wp (rotate_ops rem add oks)
        (\<lambda>_ q'. inv q' \<and> elems q' = rotate (length (ok # oks)) (elems q)) (\<lambda>_ _. False) q2"
        using r1 by (simp add: rotate1_rotate_swap)
    next
      show "length (elems q1) < limit" using q1 Cons.prems(2,3) by (cases "elems q") auto
    qed (use q1 len in auto)
    then show "wp (case r of None \<Rightarrow> kpanic | Some x \<Rightarrow> kbind (add ok x) (\<lambda>_. rotate_ops rem add oks))
        (\<lambda>_ q'. inv q' \<and> elems q' = rotate (length (ok # oks)) (elems q)) (\<lambda>_ _. False) q1"
      using q1 by (simp add: wps)
  qed simp
qed

text \<open>Adding a list of elements, then taking as many off, gives them back in order.\<close>

lemma add_all_law:
  assumes "inv q" and "length (elems q) + length xs \<le> limit"
  shows "wp (kfor xs (add ok)) (\<lambda>_ q'. inv q' \<and> elems q' = elems q @ xs)
    (\<lambda>e q'. \<not> ok \<and> e = ENOMEM \<and> inv q' \<and> (\<exists>n < length xs. elems q' = elems q @ take n xs
        \<and> cap q \<le> Suc (length (elems q) + n))) q"
  using assms
proof (induction xs arbitrary: q)
  case Nil
  then show ?case by (simp add: wps)
next
  case (Cons x xs)
  show ?case unfolding wp_kfor_Cons
  proof (rule wp_mono [OF add_law])
    fix u q1
    assume q1: "inv q1 \<and> elems q1 = elems q @ [x] \<and> cap q \<le> cap q1"
    show "wp (kfor xs (add ok)) (\<lambda>_ q'. inv q' \<and> elems q' = elems q @ x # xs)
      (\<lambda>e q'. \<not> ok \<and> e = ENOMEM \<and> inv q' \<and> (\<exists>n < length (x # xs). elems q' = elems q @ take n (x # xs)
        \<and> cap q \<le> Suc (length (elems q) + n))) q1"
    proof (rule wp_mono [OF Cons.IH])
      fix e q'
      assume "\<not> ok \<and> e = ENOMEM \<and> inv q' \<and> (\<exists>n < length xs. elems q' = elems q1 @ take n xs
        \<and> cap q1 \<le> Suc (length (elems q1) + n))"
      then obtain n where "\<not> ok" "e = ENOMEM" "inv q'" "n < length xs" "elems q' = elems q1 @ take n xs"
        "cap q1 \<le> Suc (length (elems q1) + n)" by blast
      then show "\<not> ok \<and> e = ENOMEM \<and> inv q' \<and> (\<exists>n < length (x # xs).
          elems q' = elems q @ take n (x # xs) \<and> cap q \<le> Suc (length (elems q) + n))"
        using q1 by (intro conjI exI [of _ "Suc n"]) auto
    qed (use q1 Cons.prems in auto)
  next
    fix e q'
    assume "\<not> ok \<and> e = ENOMEM \<and> q' = q \<and> cap q = Suc (length (elems q))"
    then show "\<not> ok \<and> e = ENOMEM \<and> inv q' \<and> (\<exists>n < length (x # xs).
          elems q' = elems q @ take n (x # xs) \<and> cap q \<le> Suc (length (elems q) + n))"
      using Cons.prems by (intro conjI exI [of _ 0]) auto
  qed (use Cons.prems in auto)
qed

end

interpretation kq: fifo q_wf q_list q_size q_empty q_addtail q_remhead q_preallocate 536870911
proof unfold_locales
  fix q :: "'a kqueue" and n ok x
  assume q: "q_wf q"
  then show "length (q_list q) < q_size q" by (simp add: q_wf_def q_rep_def)
  show "q_empty q \<longleftrightarrow> q_list q = []" by (rule q_wf_empty [OF q])
  show "wp (q_addtail ok x) (\<lambda>_ q'. q_wf q' \<and> q_list q' = q_list q @ [x] \<and> q_size q \<le> q_size q')
    (\<lambda>e q'. \<not> ok \<and> e = ENOMEM \<and> q' = q \<and> q_size q = Suc (length (q_list q))) q"
    if "length (q_list q) < 536870911"
    by (rule q_addtail_wp [OF q that])
  show "wp q_remhead (\<lambda>r q'. q_wf q' \<and> r = Some (hd (q_list q)) \<and> q_list q' = tl (q_list q)
      \<and> q_size q' = q_size q) (\<lambda>_ _. False) q" if "q_list q \<noteq> []"
    by (rule q_remhead_wp [OF q that])
  show "wp (q_preallocate ok n) (\<lambda>_ q'. q_wf q' \<and> q_list q' = q_list q \<and> n \<le> q_size q'
      \<and> q_size q \<le> q_size q') (\<lambda>e q'. \<not> ok \<and> e = ENOMEM \<and> q' = q \<and> q_size q < n) q"
    if "n \<le> 536870911"
    by (rule q_preallocate_wp [OF q]) (use that in simp)
qed

section \<open>Properties\<close>

text \<open>
  \<open>q_addtail\<close> on a well-formed queue appends its argument to the sequence the queue
  holds, whether or not the circular buffer has to be grown and wherever its ends lie in it; it
  fails only when the buffer is full and \<open>kmalloc\<close> fails, and then changes nothing. No
  \<open>assert\<close> of \<open>q_addtail\<close> or \<open>q_grow\<close> can trip below \<open>2\<^sup>2\<^sup>9 - 1\<close> elements.
\<close>

theorem q_addtail_appends:
  assumes "q_wf q" and "length (q_list q) < 536870911"
  shows "wp (q_addtail ok x)
    (\<lambda>_ q'. q_wf q' \<and> q_list q' = q_list q @ [x] \<and> q_size q \<le> q_size q')
    (\<lambda>e q'. \<not> ok \<and> e = ENOMEM \<and> q' = q \<and> q_size q = Suc (length (q_list q))) q"
  by (rule kq.add_law [OF assms])

definition q_wrapped :: "nat kqueue" where
  "q_wrapped = \<lparr>q_size = 3, q_nextwrite = 1, q_nextread = 2, q_data = [Some 8, None, Some 7]\<rparr>"

lemma q_wrapped_wf: "q_wf q_wrapped \<and> q_list q_wrapped = [7, 8]"
proof -
  have "k = 0 \<or> k = 1" if "k < 2" for k :: nat using that by auto
  then show ?thesis
    by (intro q_rep_wf) (auto simp: q_rep_def q_wrapped_def numeral_2_eq_2 less_Suc_eq)
qed

theorem q_addtail_appends_witness:
  "wp (q_addtail True 9)
    (\<lambda>_ q'. q_wf q' \<and> q_list q' = [7, 8, 9] \<and> 3 \<le> q_size q')
    (\<lambda>e q'. \<not> True \<and> e = ENOMEM \<and> q' = q_wrapped \<and> q_size q_wrapped = 3) q_wrapped"
  using q_addtail_appends [of q_wrapped True 9] q_wrapped_wf by (simp add: q_wrapped_def)

text \<open>
  Taking the head off a well-formed queue and putting it back at the end, any number
  of times, rotates the sequence it holds, and never needs memory: the buffer always has the
  room, even when every \<open>kmalloc\<close> would fail.
\<close>

theorem q_rotation_needs_no_memory:
  assumes "q_wf q" and "q_list q \<noteq> []" and "length (q_list q) \<le> 536870911"
  shows "wp (rotate_ops q_remhead q_addtail oks)
    (\<lambda>_ q'. q_wf q' \<and> q_list q' = rotate (length oks) (q_list q)) (\<lambda>_ _. False) q"
  by (rule kq.rotate_law [OF assms])

theorem q_rotation_needs_no_memory_witness:
  "wp (rotate_ops q_remhead q_addtail [False, False, False])
    (\<lambda>_ q'. q_wf q' \<and> q_list q' = [8, 7]) (\<lambda>_ _. False) q_wrapped"
  using q_rotation_needs_no_memory [of q_wrapped "[False, False, False]"] q_wrapped_wf
  by (simp add: rotate_def numeral_3_eq_3 del: rotate_ops.simps)

end
