(* ===== verification/UserCopy.thy ===== *)
theory UserCopy
  imports KPrelude
begin

text \<open>
  Copying between user and kernel memory, kern/lib/copyinout.c.

  The kernel object a routine copies to or from is a list of bytes of its own; user memory is a
  function from addresses to bytes which is \<open>None\<close> where touching the address traps fatally.
  A fatal trap during a copy resumes in \<open>copyfail\<close> (\<open>pcb_badfaultfunc\<close>, \<open>setjmp\<close>/\<open>longjmp\<close>) and
  makes the routine return EFAULT; what was copied before the trap stays copied. Running off the
  end of the kernel object, which C leaves undefined, stops the model.
\<close>

type_synonym umem = "nat \<Rightarrow> byte option"

text \<open>The state of a copy: user memory and the kernel object.\<close>

type_synonym ucopy = "umem \<times> byte list"

definition USERTOP :: nat where
  "USERTOP = 2147483648"

section \<open>The routines\<close>

text \<open>Inl: the error; Inr: the value stored in \<open>stoplen\<close>.\<close>

definition copycheck :: "nat \<Rightarrow> nat \<Rightarrow> errno + nat" where
  "copycheck userptr len =
     (let bot = userptr; top = sub32 (bot + len) 1 in
      if top < bot then Inl EFAULT
      else if bot \<ge> USERTOP then Inl EFAULT
      else if top \<ge> USERTOP then Inr (USERTOP - bot)
      else Inr len)"

text \<open>Reading and writing one byte of either side.\<close>

definition rd_user :: "nat \<Rightarrow> (ucopy, byte) op" where
  "rd_user a = (\<lambda>(m, k). case m a of None \<Rightarrow> Fail EFAULT (m, k) | Some b \<Rightarrow> Done b (m, k))"

definition wr_user :: "nat \<Rightarrow> byte \<Rightarrow> (ucopy, unit) op" where
  "wr_user a b = (\<lambda>(m, k). case m a of None \<Rightarrow> Fail EFAULT (m, k) | Some _ \<Rightarrow> Done () (m(a \<mapsto> b), k))"

definition rd_kern :: "nat \<Rightarrow> (ucopy, byte) op" where
  "rd_kern i = (\<lambda>(m, k). if i < length k then Done (k ! i) (m, k) else Panic)"

definition wr_kern :: "nat \<Rightarrow> byte \<Rightarrow> (ucopy, unit) op" where
  "wr_kern i b = (\<lambda>(m, k). if i < length k then Done () (m, k[i := b]) else Panic)"

text \<open>
  \<open>memcpy\<close> between the two sides: ascending, byte by byte (the word-by-word variant traps at the
  same place, since a trap concerns whole pages).
\<close>

definition copy_loop :: "(nat \<Rightarrow> (ucopy, byte) op) \<Rightarrow> (nat \<Rightarrow> byte \<Rightarrow> (ucopy, unit) op) \<Rightarrow> nat
    \<Rightarrow> (ucopy, unit) op" where
  "copy_loop rd wr len = kfor [0..<len] (\<lambda>i. kbind (rd i) (wr i))"

definition copyin :: "nat \<Rightarrow> nat \<Rightarrow> nat \<Rightarrow> (ucopy, unit) op" where
  "copyin usersrc dest len =
     (case copycheck usersrc len of
        Inl e \<Rightarrow> kfail e
      | Inr stoplen \<Rightarrow>
          if stoplen \<noteq> len then kfail EFAULT
          else copy_loop (\<lambda>i. rd_user (usersrc + i)) (\<lambda>i. wr_kern (dest + i)) len)"

definition copyout :: "nat \<Rightarrow> nat \<Rightarrow> nat \<Rightarrow> (ucopy, unit) op" where
  "copyout src userdest len =
     (case copycheck userdest len of
        Inl e \<Rightarrow> kfail e
      | Inr stoplen \<Rightarrow>
          if stoplen \<noteq> len then kfail EFAULT
          else copy_loop (\<lambda>i. rd_kern (src + i)) (\<lambda>i. wr_user (userdest + i)) len)"

text \<open>
  The loop of \<open>copystr\<close> from index \<open>i\<close>, \<open>n\<close> steps from the end of the loop; the value is what
  \<open>*gotlen\<close> receives.
\<close>

primrec copystr_loop :: "(nat \<Rightarrow> (ucopy, byte) op) \<Rightarrow> (nat \<Rightarrow> byte \<Rightarrow> (ucopy, unit) op) \<Rightarrow> nat \<Rightarrow> nat
    \<Rightarrow> (ucopy, nat option) op" where
  "copystr_loop src dest 0 i = kret None"
| "copystr_loop src dest (Suc n) i =
     kbind (src i) (\<lambda>c.
     kbind (dest i c) (\<lambda>_.
     if c = 0 then kret (Some (i + 1)) else copystr_loop src dest n (i + 1)))"

definition copystr :: "(nat \<Rightarrow> byte \<Rightarrow> (ucopy, unit) op) \<Rightarrow> (nat \<Rightarrow> (ucopy, byte) op) \<Rightarrow> nat \<Rightarrow> nat
    \<Rightarrow> (ucopy, nat) op" where
  "copystr dest src maxlen stoplen =
     kbind (copystr_loop src dest (min maxlen stoplen) 0) (\<lambda>r.
     case r of
       Some gotlen \<Rightarrow> kret gotlen
     | None \<Rightarrow> if stoplen < maxlen then kfail EFAULT else kfail ENAMETOOLONG)"

definition copyinstr :: "nat \<Rightarrow> nat \<Rightarrow> nat \<Rightarrow> (ucopy, nat) op" where
  "copyinstr usersrc dest len =
     (case copycheck usersrc len of
        Inl e \<Rightarrow> kfail e
      | Inr stoplen \<Rightarrow> copystr (\<lambda>i. wr_kern (dest + i)) (\<lambda>i. rd_user (usersrc + i)) len stoplen)"

definition copyoutstr :: "nat \<Rightarrow> nat \<Rightarrow> nat \<Rightarrow> (ucopy, nat) op" where
  "copyoutstr src userdest len =
     (case copycheck userdest len of
        Inl e \<Rightarrow> kfail e
      | Inr stoplen \<Rightarrow> copystr (\<lambda>i. wr_user (userdest + i)) (\<lambda>i. rd_kern (src + i)) len stoplen)"

section \<open>The region check\<close>

text \<open>
  For a user pointer and a length that fit 32 bits, \<open>copycheck\<close> accepts the whole length exactly
  when the region is not empty and lies below \<open>USERTOP\<close>.
\<close>

lemma copycheck_eq:
  assumes "userptr < 4294967296" and "len < 4294967296"
  shows "copycheck userptr len =
    (if len = 0 then (if userptr = 0 then Inr USERTOP else Inl EFAULT)
     else if userptr + len > 4294967296 then Inl EFAULT
     else if userptr \<ge> USERTOP then Inl EFAULT
     else if userptr + len > USERTOP then Inr (USERTOP - userptr)
     else Inr len)"
proof (cases "userptr + len \<le> 4294967296 \<and> 0 < userptr + len")
  case True
  then have "userptr + len + 4294967296 - 1 mod 4294967296 = (userptr + len - 1) + 4294967296" by simp
  then have "sub32 (userptr + len) 1 = (userptr + len - 1) mod 4294967296"
    unfolding sub32_def by (simp only: mod_add_self2)
  moreover have "userptr + len - 1 < 4294967296" using True by linarith
  ultimately have "sub32 (userptr + len) 1 = userptr + len - 1" by (simp only: mod_less)
  then show ?thesis using True by (auto simp: copycheck_def USERTOP_def Let_def)
next
  case False
  then consider "userptr = 0" "len = 0" | "userptr + len > 4294967296" by linarith
  then show ?thesis
  proof cases
    case 1
    then show ?thesis by (simp add: copycheck_def USERTOP_def sub32_def)
  next
    case 2
    then have "sub32 (userptr + len) 1 = userptr + len - 1 - 4294967296"
      using assms by (simp add: sub32_def mod_if)
    moreover have "userptr + len - 1 - 4294967296 < userptr" using 2 assms by linarith
    ultimately show ?thesis using 2 by (simp add: copycheck_def Let_def)
  qed
qed

section \<open>The copy loops\<close>

text \<open>\<open>mem_upd a bs m\<close>: memory \<open>m\<close> with the bytes \<open>bs\<close> stored from address \<open>a\<close> on.\<close>

definition mem_upd :: "nat \<Rightarrow> byte list \<Rightarrow> umem \<Rightarrow> umem" where
  "mem_upd a bs m = (\<lambda>x. if a \<le> x \<and> x < a + length bs then Some (bs ! (x - a)) else m x)"

definition mapped :: "umem \<Rightarrow> nat \<Rightarrow> nat \<Rightarrow> bool" where
  "mapped m a n \<longleftrightarrow> (\<forall>i < n. m (a + i) \<noteq> None)"

definition mem_bytes :: "umem \<Rightarrow> nat \<Rightarrow> nat \<Rightarrow> byte list" where
  "mem_bytes m a n = map (\<lambda>i. the (m (a + i))) [0..<n]"

lemma mem_upd_Nil [simp]: "mem_upd a [] m = m"
  by (auto simp: mem_upd_def fun_eq_iff)

lemma mem_upd_snoc: "mem_upd a (bs @ [b]) m = (mem_upd a bs m)(a + length bs \<mapsto> b)"
  by (auto simp: mem_upd_def fun_eq_iff nth_append)

lemma mem_upd_outside: "x < a \<or> a + length bs \<le> x \<Longrightarrow> mem_upd a bs m x = m x"
  by (auto simp: mem_upd_def)

lemma mapped_mem_upd [simp]: "mapped m a n \<Longrightarrow> mapped (mem_upd b bs m) a n"
  by (simp add: mapped_def mem_upd_def)

lemma length_mem_bytes [simp]: "length (mem_bytes m a n) = n"
  by (simp add: mem_bytes_def)

lemma nth_mem_bytes [simp]: "i < n \<Longrightarrow> mem_bytes m a n ! i = the (m (a + i))"
  by (simp add: mem_bytes_def)

lemma mem_bytes_Suc: "mem_bytes m a (Suc n) = mem_bytes m a n @ [the (m (a + n))]"
  by (simp add: mem_bytes_def)

lemma mem_bytes_upd: "mem_bytes (mem_upd a bs m) a (length bs) = bs"
  by (rule nth_equalityI) (simp_all add: mem_upd_def)

lemma copy_loop_in:
  assumes "dest + len \<le> length k"
  shows "wp (copy_loop (\<lambda>i. rd_user (src + i)) (\<lambda>i. wr_kern (dest + i)) len)
    (\<lambda>_ t. mapped m src len \<and> t = (m, put_at dest (mem_bytes m src len) k))
    (\<lambda>e t. e = EFAULT \<and> \<not> mapped m src len \<and> fst t = m \<and> length (snd t) = length k) (m, k)"
  using assms
proof (induction len)
  case 0
  then show ?case by (simp add: copy_loop_def wps mapped_def mem_bytes_def)
next
  case (Suc n)
  let ?k = "put_at dest (mem_bytes m src n) k"
  have len: "length ?k = length k" using Suc.prems by simp
  have step: "put_at dest (mem_bytes m src (Suc n)) k = ?k[dest + n := the (m (src + n))]"
    using Suc.prems put_at_snoc [of dest "mem_bytes m src n" k] by (simp add: mem_bytes_Suc)
  have "wp (kbind (rd_user (src + n)) (wr_kern (dest + n)))
     (\<lambda>_ t. m (src + n) \<noteq> None \<and> t = (m, ?k[dest + n := the (m (src + n))]))
     (\<lambda>e t. e = EFAULT \<and> m (src + n) = None \<and> fst t = m \<and> length (snd t) = length k) (m, ?k)"
    using Suc.prems len by (auto simp: wps) (auto simp: wp_def rd_user_def wr_kern_def split: option.splits)
  then have one: "mapped m src n \<Longrightarrow> wp (kfor [n] (\<lambda>i. kbind (rd_user (src + i)) (wr_kern (dest + i))))
     (\<lambda>_ t. mapped m src (Suc n) \<and> t = (m, put_at dest (mem_bytes m src (Suc n)) k))
     (\<lambda>e t. e = EFAULT \<and> \<not> mapped m src (Suc n) \<and> fst t = m \<and> length (snd t) = length k) (m, ?k)"
    unfolding step by (simp add: wps) (erule wp_mono, auto simp: mapped_def less_Suc_eq)
  show ?case
    unfolding copy_loop_def upt_Suc_append [OF le0] wp_kfor_append
    by (rule wp_mono [OF Suc.IH [unfolded copy_loop_def]])
      (use Suc.prems one in \<open>auto simp: mapped_def less_Suc_eq simp del: kfor.simps\<close>)
qed

lemma copy_loop_out:
  assumes "src + len \<le> length k"
  shows "wp (copy_loop (\<lambda>i. rd_kern (src + i)) (\<lambda>i. wr_user (dest + i)) len)
    (\<lambda>_ t. mapped m dest len \<and> t = (mem_upd dest (take len (drop src k)) m, k))
    (\<lambda>e t. e = EFAULT \<and> \<not> mapped m dest len \<and> snd t = k
       \<and> (\<exists>n < len. fst t = mem_upd dest (take n (drop src k)) m)) (m, k)"
  using assms
proof (induction len)
  case 0
  then show ?case by (simp add: copy_loop_def wps mapped_def)
next
  case (Suc n)
  let ?m = "mem_upd dest (take n (drop src k)) m"
  have step: "take (Suc n) (drop src k) = take n (drop src k) @ [k ! (src + n)]"
    using Suc.prems by (simp add: take_Suc_conv_app_nth)
  have l: "length (take n (drop src k)) = n" using Suc.prems by simp
  have st: "mem_upd dest (take (Suc n) (drop src k)) m = ?m(dest + n \<mapsto> k ! (src + n))"
    using mem_upd_snoc [of dest "take n (drop src k)" "k ! (src + n)" m] l by (simp only: step)
  have at: "?m (dest + n) = m (dest + n)" by (rule mem_upd_outside) (simp add: l)
  have one: "wp (kfor [n] (\<lambda>i. kbind (rd_kern (src + i)) (wr_user (dest + i))))
    (\<lambda>_ t. m (dest + n) \<noteq> None \<and> t = (mem_upd dest (take (Suc n) (drop src k)) m, k))
    (\<lambda>e t. e = EFAULT \<and> m (dest + n) = None \<and> t = (?m, k)) (?m, k)"
    unfolding st using Suc.prems at
    by (simp add: wps) (auto simp: wp_def rd_kern_def wr_user_def split: option.splits)
  show ?case
    unfolding copy_loop_def upt_Suc_append [OF le0] wp_kfor_append
  proof (rule wp_mono [OF Suc.IH [unfolded copy_loop_def]])
    fix u t
    assume t: "mapped m dest n \<and> t = (?m, k)"
    then show "wp (kfor [n] (\<lambda>i. kbind (rd_kern (src + i)) (wr_user (dest + i))))
      (\<lambda>_ t. mapped m dest (Suc n) \<and> t = (mem_upd dest (take (Suc n) (drop src k)) m, k))
      (\<lambda>e t. e = EFAULT \<and> \<not> mapped m dest (Suc n) \<and> snd t = k
         \<and> (\<exists>n' < Suc n. fst t = mem_upd dest (take n' (drop src k)) m)) t"
      using one by (elim conjE) (hypsubst, erule wp_mono, auto simp: mapped_def less_Suc_eq)
  qed (use Suc.prems in \<open>auto simp: mapped_def less_Suc_eq\<close>)
qed

text \<open>The string loop: \<open>n\<close> more steps from index \<open>i\<close>, with \<open>i\<close> non-zero bytes copied so far.\<close>

definition no_nul :: "umem \<Rightarrow> nat \<Rightarrow> nat \<Rightarrow> bool" where
  "no_nul m a n \<longleftrightarrow> (\<forall>i < n. m (a + i) \<noteq> None \<and> m (a + i) \<noteq> Some 0)"

lemma copystr_loop_in:
  assumes "dest + i + n \<le> length k" and "no_nul m src i"
  shows "wp (copystr_loop (\<lambda>i. rd_user (src + i)) (\<lambda>i. wr_kern (dest + i)) n i)
    (\<lambda>r t. case r of
        Some g \<Rightarrow> i < g \<and> g \<le> i + n \<and> no_nul m src (g - 1) \<and> m (src + (g - 1)) = Some 0
          \<and> t = (m, put_at dest (mem_bytes m src g) k)
      | None \<Rightarrow> no_nul m src (i + n) \<and> fst t = m \<and> length (snd t) = length k)
    (\<lambda>e t. e = EFAULT \<and> fst t = m \<and> length (snd t) = length k
       \<and> (\<exists>j < i + n. no_nul m src j \<and> m (src + j) = None))
    (m, put_at dest (mem_bytes m src i) k)"
  using assms
proof (induction n arbitrary: i)
  case 0
  then show ?case by (simp add: wps)
next
  case (Suc n)
  let ?k = "put_at dest (mem_bytes m src i) k"
  have len: "length ?k = length k" "dest + i < length k" using Suc.prems by simp_all
  show ?case
  proof (cases "m (src + i)")
    case None
    then have "rd_user (src + i) (m, ?k) = Fail EFAULT (m, ?k)" by (simp add: rd_user_def)
    then show ?thesis using None Suc.prems(2) len
      by (simp add: wps) (auto simp: wp_def intro!: exI [of _ i])
  next
    case (Some c)
    have st: "put_at dest (mem_bytes m src (Suc i)) k = ?k[dest + i := c]"
      using len put_at_snoc [of dest "mem_bytes m src i" k] Some by (simp add: mem_bytes_Suc)
    have rw: "rd_user (src + i) (m, ?k) = Done c (m, ?k)"
      "wr_kern (dest + i) c (m, ?k) = Done () (m, put_at dest (mem_bytes m src (Suc i)) k)"
      using Some len by (simp_all add: rd_user_def wr_kern_def st)
    have body: "wp (copystr_loop (\<lambda>i. rd_user (src + i)) (\<lambda>i. wr_kern (dest + i)) (Suc n) i) Q R (m, ?k)
      = wp (if c = 0 then kret (Some (i + 1))
            else copystr_loop (\<lambda>i. rd_user (src + i)) (\<lambda>i. wr_kern (dest + i)) n (i + 1)) Q R
          (m, put_at dest (mem_bytes m src (Suc i)) k)" for Q R
      unfolding copystr_loop.simps wp_kbind by (simp add: wp_def rw)
    show ?thesis
    proof (cases "c = 0")
      case True
      then show ?thesis unfolding body using Suc.prems(2) Some by (simp add: wps)
    next
      case False
      then have "no_nul m src (Suc i)" using Suc.prems(2) Some by (auto simp: no_nul_def less_Suc_eq)
      then show ?thesis unfolding body using Suc.IH [of "Suc i"] Suc.prems False
        by simp (erule wp_mono, auto split: option.splits)
    qed
  qed
qed

lemma copyin_wp:
  assumes "usersrc < 4294967296" and "len < 4294967296" and "dest + len \<le> length k"
  shows "wp (copyin usersrc dest len)
    (\<lambda>_ t. 0 < len \<and> usersrc + len \<le> USERTOP \<and> mapped m usersrc len
       \<and> t = (m, put_at dest (mem_bytes m usersrc len) k))
    (\<lambda>e t. e = EFAULT \<and> (len = 0 \<or> usersrc + len > USERTOP \<or> \<not> mapped m usersrc len)
       \<and> fst t = m \<and> length (snd t) = length k) (m, k)"
proof (cases "0 < len \<and> usersrc + len \<le> USERTOP")
  case True
  then have "copycheck usersrc len = Inr len"
    using copycheck_eq [OF assms(1,2)] by (auto simp: USERTOP_def)
  then show ?thesis unfolding copyin_def using True
    by (simp add: wps) (rule wp_mono [OF copy_loop_in [OF assms(3)]], auto)
next
  case False
  then have "copycheck usersrc len \<noteq> Inr len" "copycheck usersrc len \<noteq> Inl e \<or> e = EFAULT" for e
    using copycheck_eq [OF assms(1,2)] by (auto simp: USERTOP_def split: if_splits)
  then show ?thesis unfolding copyin_def using False by (auto simp: wps split: sum.splits)
qed

lemma copyout_wp:
  assumes "userdest < 4294967296" and "len < 4294967296" and "src + len \<le> length k"
  shows "wp (copyout src userdest len)
    (\<lambda>_ t. 0 < len \<and> userdest + len \<le> USERTOP \<and> mapped m userdest len
       \<and> t = (mem_upd userdest (take len (drop src k)) m, k))
    (\<lambda>e t. e = EFAULT \<and> (len = 0 \<or> userdest + len > USERTOP \<or> \<not> mapped m userdest len) \<and> snd t = k
       \<and> (\<forall>x. USERTOP \<le> x \<or> x < userdest \<or> userdest + len \<le> x \<longrightarrow> fst t x = m x)) (m, k)"
proof (cases "0 < len \<and> userdest + len \<le> USERTOP")
  case True
  then have c: "copycheck userdest len = Inr len"
    using copycheck_eq [OF assms(1,2)] by (auto simp: USERTOP_def)
  show ?thesis unfolding copyout_def c sum.case
  proof (simp only: not_True_eq_False if_False refl, rule wp_mono [OF copy_loop_out [OF assms(3)]])
    fix e t
    assume t: "e = EFAULT \<and> \<not> mapped m userdest len \<and> snd t = k
      \<and> (\<exists>n < len. fst t = mem_upd userdest (take n (drop src k)) m)"
    then obtain n where n: "n < len" "fst t = mem_upd userdest (take n (drop src k)) m" by blast
    have "fst t x = m x" if "USERTOP \<le> x \<or> x < userdest \<or> userdest + len \<le> x" for x
      unfolding n(2) by (rule mem_upd_outside) (use that n(1) True in auto)
    then show "e = EFAULT \<and> (len = 0 \<or> userdest + len > USERTOP \<or> \<not> mapped m userdest len) \<and> snd t = k
       \<and> (\<forall>x. USERTOP \<le> x \<or> x < userdest \<or> userdest + len \<le> x \<longrightarrow> fst t x = m x)"
      using t by blast
  qed (use True in auto)
next
  case False
  then have "copycheck userdest len \<noteq> Inr len" "copycheck userdest len \<noteq> Inl e \<or> e = EFAULT" for e
    using copycheck_eq [OF assms(1,2)] by (auto simp: USERTOP_def split: if_splits)
  then show ?thesis unfolding copyout_def using False by (auto simp: wps split: sum.splits)
qed

section \<open>Properties\<close>

text \<open>
  Property C36: \<open>copyin\<close> succeeds only for a non-empty region that lies entirely below \<open>USERTOP\<close> and
  is mapped; then the kernel object receives exactly the user bytes and nothing else changes. In
  every other case it returns EFAULT (also for a length of zero), without touching user memory or
  any byte of kernel memory outside the object.
\<close>

theorem copyin_spec:
  assumes "usersrc < 4294967296" and "len < 4294967296" and "dest + len \<le> length k"
  shows "wp (copyin usersrc dest len)
    (\<lambda>_ t. 0 < len \<and> usersrc + len \<le> USERTOP \<and> mapped m usersrc len
       \<and> t = (m, put_at dest (mem_bytes m usersrc len) k))
    (\<lambda>e t. e = EFAULT \<and> (len = 0 \<or> usersrc + len > USERTOP \<or> \<not> mapped m usersrc len)
       \<and> fst t = m \<and> length (snd t) = length k) (m, k)"
  by (rule copyin_wp [OF assms])

definition umem_ex :: umem where
  "umem_ex = (\<lambda>a. if 4096 \<le> a \<and> a < 8192 then Some (if a mod 4 = 3 then 0 else word_of_nat (a mod 256)) else None)"

theorem copyin_spec_witness:
  "wp (copyin 4096 1 2)
    (\<lambda>_ t. 0 < (2 :: nat) \<and> 4096 + 2 \<le> USERTOP \<and> mapped umem_ex 4096 2
       \<and> t = (umem_ex, put_at 1 (mem_bytes umem_ex 4096 2) [9, 9, 9]))
    (\<lambda>e t. e = EFAULT \<and> ((2 :: nat) = 0 \<or> 4096 + 2 > USERTOP \<or> \<not> mapped umem_ex 4096 2)
       \<and> fst t = umem_ex \<and> length (snd t) = length [9, 9, 9 :: byte]) (umem_ex, [9, 9, 9])"
  by (rule copyin_spec) simp_all

text \<open>
  Whatever pointer and length it is given, \<open>copyout\<close> never changes a byte outside the
  region named, and in particular none at or above \<open>USERTOP\<close>, not even when it fails half-way;
  on success the region holds exactly the kernel bytes. It succeeds only for a non-empty region
  below \<open>USERTOP\<close> that is mapped, and fails only with EFAULT.
\<close>

theorem copyout_spec:
  assumes "userdest < 4294967296" and "len < 4294967296" and "src + len \<le> length k"
  shows "wp (copyout src userdest len)
    (\<lambda>_ t. 0 < len \<and> userdest + len \<le> USERTOP \<and> mapped m userdest len
       \<and> t = (mem_upd userdest (take len (drop src k)) m, k))
    (\<lambda>e t. e = EFAULT \<and> (len = 0 \<or> userdest + len > USERTOP \<or> \<not> mapped m userdest len) \<and> snd t = k
       \<and> (\<forall>x. USERTOP \<le> x \<or> x < userdest \<or> userdest + len \<le> x \<longrightarrow> fst t x = m x)) (m, k)"
  by (rule copyout_wp [OF assms])

theorem copyout_spec_witness:
  "wp (copyout 0 8190 3)
    (\<lambda>_ t. 0 < (3 :: nat) \<and> 8190 + 3 \<le> USERTOP \<and> mapped umem_ex 8190 3
       \<and> t = (mem_upd 8190 (take 3 (drop 0 [1, 2, 3])) umem_ex, [1, 2, 3]))
    (\<lambda>e t. e = EFAULT \<and> ((3 :: nat) = 0 \<or> 8190 + 3 > USERTOP \<or> \<not> mapped umem_ex 8190 3)
       \<and> snd t = [1, 2, 3]
       \<and> (\<forall>x. USERTOP \<le> x \<or> x < 8190 \<or> 8190 + 3 \<le> x \<longrightarrow> fst t x = umem_ex x)) (umem_ex, [1, 2, 3])"
  by (rule copyout_spec) simp_all

text \<open>
  \<open>copyinstr\<close> returns the length \<open>n\<close> (terminator included) of the string at the user
  pointer when it ends within \<open>len\<close> bytes, below \<open>USERTOP\<close>, with every byte mapped, and has then
  copied exactly these \<open>n\<close> bytes; ENAMETOOLONG means \<open>len\<close> mapped bytes below \<open>USERTOP\<close> without a
  terminator; anything else, and a maximum length that reaches past the end of the address space,
  is EFAULT. User memory never changes.
\<close>

theorem copyinstr_spec:
  assumes "usersrc < 4294967296" and "len < 4294967296" and "dest + len \<le> length k"
  shows "wp (copyinstr usersrc dest len)
    (\<lambda>n t. 0 < n \<and> n \<le> len \<and> usersrc + n \<le> USERTOP \<and> no_nul m usersrc (n - 1)
       \<and> m (usersrc + (n - 1)) = Some 0 \<and> t = (m, put_at dest (mem_bytes m usersrc n) k))
    (\<lambda>e t. fst t = m \<and> length (snd t) = length k \<and>
       (e = ENAMETOOLONG \<and> usersrc + len \<le> USERTOP \<and> no_nul m usersrc len
        \<or> e = EFAULT \<and> (usersrc + len > 4294967296 \<or> \<not> (\<exists>n \<le> len. 0 < n \<and> usersrc + n \<le> USERTOP \<and> no_nul m usersrc (n - 1)
                            \<and> m (usersrc + (n - 1)) = Some 0)))) (m, k)"
    (is "wp _ ?Q ?R _")
proof (cases "copycheck usersrc len")
  case (Inl e)
  then have "e = EFAULT \<and> (len = 0 \<or> usersrc \<ge> USERTOP \<or> usersrc + len > 4294967296)"
    using copycheck_eq [OF assms(1,2)] by (auto split: if_splits)
  then show ?thesis using Inl assms by (auto simp: copyinstr_def wps)
next
  case (Inr stoplen)
  have n0: "k = put_at dest (mem_bytes m usersrc 0) k" by (simp add: mem_bytes_def)
  have stop: "if usersrc + len \<le> USERTOP then min len stoplen = len \<and> \<not> stoplen < len
    else usersrc + min len stoplen = USERTOP \<and> stoplen < len"
    using Inr copycheck_eq [OF assms(1,2)] by (auto simp: USERTOP_def split: if_splits)
  have "wp (copystr_loop (\<lambda>i. rd_user (usersrc + i)) (\<lambda>i. wr_kern (dest + i)) (min len stoplen) 0)
    (\<lambda>r t. case r of
        Some g \<Rightarrow> 0 < g \<and> g \<le> 0 + min len stoplen \<and> no_nul m usersrc (g - 1) \<and> m (usersrc + (g - 1)) = Some 0
          \<and> t = (m, put_at dest (mem_bytes m usersrc g) k)
      | None \<Rightarrow> no_nul m usersrc (0 + min len stoplen) \<and> fst t = m \<and> length (snd t) = length k)
    (\<lambda>e t. e = EFAULT \<and> fst t = m \<and> length (snd t) = length k
       \<and> (\<exists>j < 0 + min len stoplen. no_nul m usersrc j \<and> m (usersrc + j) = None)) (m, k)"
    using copystr_loop_in [of dest 0 "min len stoplen" k m usersrc] assms(3)
    by (simp add: no_nul_def mem_bytes_def)
  then show ?thesis unfolding copyinstr_def Inr sum.case copystr_def wp_kbind
  proof (rule wp_mono)
    fix r t
    assume r: "case r of Some g \<Rightarrow> 0 < g \<and> g \<le> 0 + min len stoplen \<and> no_nul m usersrc (g - 1)
        \<and> m (usersrc + (g - 1)) = Some 0 \<and> t = (m, put_at dest (mem_bytes m usersrc g) k)
      | None \<Rightarrow> no_nul m usersrc (0 + min len stoplen) \<and> fst t = m \<and> length (snd t) = length k"
    show "wp (case r of None \<Rightarrow> if stoplen < len then kfail EFAULT else kfail ENAMETOOLONG
              | Some gotlen \<Rightarrow> kret gotlen) ?Q ?R t"
    proof (cases r)
      case None
      have "\<not> (\<exists>n \<le> len. 0 < n \<and> usersrc + n \<le> USERTOP \<and> no_nul m usersrc (n - 1)
                            \<and> m (usersrc + (n - 1)) = Some 0)" if "stoplen < len"
      proof clarify
        fix n
        assume n: "0 < n" "usersrc + n \<le> USERTOP" "m (usersrc + (n - 1)) = Some 0"
        then have "n - 1 < min len stoplen" using stop that by (auto split: if_splits)
        then show False using r None n(3) by (auto simp: no_nul_def)
      qed
      then show ?thesis using r None stop by (auto simp: wps split: if_splits)
    next
      case (Some g)
      then show ?thesis using r stop by (auto simp: wps split: if_splits)
    qed
  next
    fix e and t :: ucopy
    assume e: "e = EFAULT \<and> fst t = m \<and> length (snd t) = length k
       \<and> (\<exists>j < 0 + min len stoplen. no_nul m usersrc j \<and> m (usersrc + j) = None)"
    then obtain j where j: "j < min len stoplen" "no_nul m usersrc j" "m (usersrc + j) = None" by auto
    have "\<not> (\<exists>n \<le> len. 0 < n \<and> usersrc + n \<le> USERTOP \<and> no_nul m usersrc (n - 1)
                            \<and> m (usersrc + (n - 1)) = Some 0)"
    proof clarify
      fix n
      assume n: "0 < n" "no_nul m usersrc (n - 1)" "m (usersrc + (n - 1)) = Some 0"
      show False using j n unfolding no_nul_def
        by (metis linorder_neqE_nat option.distinct(1))
    qed
    then show "?R e t" using e by blast
  qed
qed

theorem copyinstr_spec_witness:
  "wp (copyinstr 4096 0 8)
    (\<lambda>n t. 0 < n \<and> n \<le> 8 \<and> 4096 + n \<le> USERTOP \<and> no_nul umem_ex 4096 (n - 1)
       \<and> umem_ex (4096 + (n - 1)) = Some 0
       \<and> t = (umem_ex, put_at 0 (mem_bytes umem_ex 4096 n) (replicate 8 0)))
    (\<lambda>e t. fst t = umem_ex \<and> length (snd t) = length (replicate 8 (0 :: byte)) \<and>
       (e = ENAMETOOLONG \<and> 4096 + 8 \<le> USERTOP \<and> no_nul umem_ex 4096 8
        \<or> e = EFAULT \<and> ((4096 :: nat) + 8 > 4294967296 \<or> \<not> (\<exists>n \<le> 8. 0 < n \<and> 4096 + n \<le> USERTOP \<and> no_nul umem_ex 4096 (n - 1)
                            \<and> umem_ex (4096 + (n - 1)) = Some 0)))) (umem_ex, replicate 8 0)"
  by (rule copyinstr_spec) simp_all

end
