(* ===== verification/Uio.thy ===== *)
theory Uio
  imports UserCopy
begin

text \<open>
  The descriptor of a pending transfer, \<open>struct uio\<close>, and the routines that move data through
  it, kern/userprog/uio.c. The kernel object named by the pointer argument of \<open>uiomove\<close> is a list
  of bytes; the memory the iovec points into, on the user's side or in another kernel object, is
  part of the model's record.
\<close>

section \<open>The structure and the routines\<close>

datatype uio_rw = UIO_READ | UIO_WRITE

datatype uio_seg = UIO_USERSPACE | UIO_SYSSPACE | UIO_USERISPACE

record uio =
  iov_base :: nat                \<comment> \<open>\<open>iov_kbase\<close> or \<open>iov_ubase\<close>\<close>
  iov_len :: nat
  uio_offset :: int
  uio_resid :: nat
  uio_segflg :: uio_seg
  uio_dir :: uio_rw              \<comment> \<open>the field \<open>uio_rw\<close>\<close>
  uio_space :: "nat option"      \<comment> \<open>\<open>None\<close> is NULL\<close>
  uio_mem :: umem                \<comment> \<open>the memory \<open>iov_base\<close> points into\<close>
  cur_space :: "nat option"      \<comment> \<open>\<open>curthread->t_vmspace\<close>\<close>

text \<open>The state of \<open>uiomove\<close>: the kernel object and the descriptor.\<close>

definition copy_get :: "byte list \<times> uio \<Rightarrow> ucopy" where
  "copy_get s = (uio_mem (snd s), fst s)"

definition copy_put :: "ucopy \<Rightarrow> byte list \<times> uio \<Rightarrow> byte list \<times> uio" where
  "copy_put c s = (snd c, (snd s)\<lparr>uio_mem := fst c\<rparr>)"

text \<open>A trap while the kernel moves its own memory is fatal.\<close>

definition kfatal :: "('s, 'a) op \<Rightarrow> ('s, 'a) op" where
  "kfatal m = kbind (kattempt m) (\<lambda>r. case r of Inl e \<Rightarrow> kpanic | Inr x \<Rightarrow> kret x)"

text \<open>The \<open>switch\<close> on \<open>uio_segflg\<close>.\<close>

definition uiomove_transfer :: "nat \<Rightarrow> nat \<Rightarrow> uio \<Rightarrow> (ucopy, unit) op" where
  "uiomove_transfer ptr sz u =
     (case uio_segflg u of
        UIO_SYSSPACE \<Rightarrow>
          (case uio_dir u of
             UIO_READ \<Rightarrow> kfatal (copy_loop (\<lambda>i. rd_kern (ptr + i)) (\<lambda>i. wr_user (iov_base u + i)) sz)
           | UIO_WRITE \<Rightarrow> kfatal (copy_loop (\<lambda>i. rd_user (iov_base u + i)) (\<lambda>i. wr_kern (ptr + i)) sz))
      | _ \<Rightarrow>
          (case uio_dir u of
             UIO_READ \<Rightarrow> copyout ptr (iov_base u) sz
           | UIO_WRITE \<Rightarrow> copyin (iov_base u) ptr sz))"

definition uio_advance :: "nat \<Rightarrow> uio \<Rightarrow> uio" where
  "uio_advance sz u = u\<lparr>iov_base := u32 (iov_base u + sz), iov_len := iov_len u - sz,
     uio_resid := sub32 (uio_resid u) sz, uio_offset := off32 (uio_offset u + int sz)\<rparr>"

text \<open>
  The loop of \<open>uiomove\<close>. Each turn moves at least one byte, so \<open>n\<close> turns are enough for \<open>n\<close>
  bytes (the first argument counts the turns left).
\<close>

primrec uiomove_loop :: "nat \<Rightarrow> nat \<Rightarrow> nat \<Rightarrow> (byte list \<times> uio, unit) op" where
  "uiomove_loop 0 ptr n = (if n = 0 then kret () else kpanic)"
| "uiomove_loop (Suc t) ptr n =
     kbind (kget snd) (\<lambda>u.
     if n > 0 \<and> uio_resid u > 0 then
       let sz = (if iov_len u > n then n else iov_len u) in
       kbind (kassert (sz \<noteq> 0)) (\<lambda>_.
       kbind (kzoom copy_get copy_put (uiomove_transfer ptr sz u)) (\<lambda>_.
       kbind (kmodify (\<lambda>s. (fst s, uio_advance sz (snd s)))) (\<lambda>_.
       uiomove_loop t (ptr + sz) (n - sz))))
     else kret ())"

definition uiomove :: "nat \<Rightarrow> nat \<Rightarrow> (byte list \<times> uio, unit) op" where
  "uiomove ptr n =
     kbind (kget snd) (\<lambda>u.
     kbind (case uio_segflg u of UIO_SYSSPACE \<Rightarrow> kassert (uio_space u = None)
            | _ \<Rightarrow> kassert (uio_space u = cur_space u)) (\<lambda>_.
     uiomove_loop n ptr n))"

text \<open>A call of \<open>uiomove\<close> on a kernel object of the caller; the value is the object afterwards.\<close>

definition uiomove_obj :: "byte list \<Rightarrow> nat \<Rightarrow> nat \<Rightarrow> (uio, byte list) op" where
  "uiomove_obj buf ptr n = (\<lambda>u. case uiomove ptr n (buf, u) of
      Done _ t \<Rightarrow> Done (fst t) (snd t) | Fail e t \<Rightarrow> Fail e (snd t) | Panic \<Rightarrow> Panic)"

text \<open>The amounts of the successive turns of \<open>uiomovezeros\<close>.\<close>

function zero_amounts :: "nat \<Rightarrow> nat list" where
  "zero_amounts n = (if n > 0 then (let amt = (if 16 > n then n else 16) in amt # zero_amounts (n - amt)) else [])"
  by pat_completeness auto
termination
  by (relation "measure id") auto

declare zero_amounts.simps [simp del]

text \<open>The static buffer \<open>zeros\<close>.\<close>

definition zeros16 :: "byte list" where
  "zeros16 = replicate 16 0"

definition uiomovezeros :: "nat \<Rightarrow> (uio, unit) op" where
  "uiomovezeros n =
     kbind (kget uio_dir) (\<lambda>d.
     kbind (kassert (d = UIO_READ)) (\<lambda>_.
     kfor (zero_amounts n) (\<lambda>amt. kbind (uiomove_obj zeros16 0 amt) (\<lambda>_. kret ()))))"

definition mk_kuio :: "byte list \<Rightarrow> nat \<Rightarrow> int \<Rightarrow> uio_rw \<Rightarrow> uio" where
  "mk_kuio kbuf len pos rw =
     \<lparr>iov_base = 0, iov_len = len, uio_offset = pos, uio_resid = len, uio_segflg = UIO_SYSSPACE,
      uio_dir = rw, uio_space = None,
      uio_mem = (\<lambda>a. if a < length kbuf then Some (kbuf ! a) else None), cur_space = None\<rparr>"

section \<open>What a transfer does\<close>

text \<open>
  A descriptor is set up correctly when the residue does not exceed the iovec, offsets stay in
  range, the address space is the current one, and a kernel iovec points to that much memory.
\<close>

definition uio_valid :: "uio \<Rightarrow> bool" where
  "uio_valid u \<longleftrightarrow> uio_resid u \<le> iov_len u \<and> iov_base u + iov_len u < 4294967296
     \<and> 0 \<le> uio_offset u \<and> uio_offset u + int (uio_resid u) < 2147483648
     \<and> (case uio_segflg u of UIO_SYSSPACE \<Rightarrow> uio_space u = None \<and> mapped (uio_mem u) (iov_base u) (iov_len u)
        | _ \<Rightarrow> uio_space u = cur_space u)"

text \<open>The descriptor after \<open>n\<close> bytes have moved, with \<open>m\<close> the memory afterwards.\<close>

definition uio_moved :: "nat \<Rightarrow> umem \<Rightarrow> uio \<Rightarrow> uio" where
  "uio_moved n m u = u\<lparr>iov_base := iov_base u + n, iov_len := iov_len u - n,
     uio_resid := uio_resid u - n, uio_offset := uio_offset u + int n, uio_mem := m\<rparr>"

lemma uio_moved_0: "uio_moved 0 (uio_mem u) u = u"
  by (simp add: uio_moved_def)

lemma uio_moved_moved: "uio_moved b m' (uio_moved a m u) = uio_moved (a + b) m' u"
  by (simp add: uio_moved_def)

lemma uio_moved_simps [simp]:
  "iov_base (uio_moved n m u) = iov_base u + n"
  "iov_len (uio_moved n m u) = iov_len u - n"
  "uio_resid (uio_moved n m u) = uio_resid u - n"
  "uio_offset (uio_moved n m u) = uio_offset u + int n"
  "uio_segflg (uio_moved n m u) = uio_segflg u"
  "uio_dir (uio_moved n m u) = uio_dir u"
  "uio_mem (uio_moved n m u) = m"
  "uio_space (uio_moved n m u) = uio_space u"
  "cur_space (uio_moved n m u) = cur_space u"
  by (simp_all add: uio_moved_def)

lemma mapped_offset: "mapped m a (n + k) \<Longrightarrow> mapped m (a + n) k"
  by (simp add: mapped_def add.assoc)

lemma mapped_le: "mapped m a n \<Longrightarrow> k \<le> n \<Longrightarrow> mapped m a k"
  by (simp add: mapped_def)

lemma mem_upd_append: "mem_upd (a + length xs) ys (mem_upd a xs m) = mem_upd a (xs @ ys) m"
  by (auto simp: mem_upd_def fun_eq_iff nth_append)

lemma uio_valid_moved:
  assumes "uio_valid u" and "n \<le> uio_resid u"
  shows "uio_valid (uio_moved n (mem_upd a bs (uio_mem u)) u)"
proof -
  have "iov_len u = n + (iov_len u - n)" using assms by (simp add: uio_valid_def)
  then have "mapped (uio_mem u) (iov_base u + n) (iov_len u - n)"
    if "mapped (uio_mem u) (iov_base u) (iov_len u)"
    using that mapped_offset by metis
  then show ?thesis using assms by (auto simp: uio_valid_def split: uio_seg.splits)
qed

lemma uio_valid_moved': "uio_valid u \<Longrightarrow> n \<le> uio_resid u \<Longrightarrow> uio_valid (uio_moved n (uio_mem u) u)"
  using uio_valid_moved [of u n 0 "[]"] by simp

lemma uio_advance_eq:
  assumes "uio_valid u" and "sz \<le> uio_resid u"
  shows "uio_advance sz (u\<lparr>uio_mem := m\<rparr>) = uio_moved sz m u"
proof -
  have "sub32 (uio_resid u) sz = uio_resid u - sz"
    using assms by (intro sub32_id) (auto simp: uio_valid_def)
  moreover have "off32 (uio_offset u + int sz) = uio_offset u + int sz"
    using assms by (intro off32_id) (auto simp: uio_valid_def)
  moreover have "u32 (iov_base u + sz) = iov_base u + sz"
    using assms by (intro u32_id) (auto simp: uio_valid_def)
  ultimately show ?thesis by (simp add: uio_advance_def uio_moved_def)
qed

text \<open>The outcome of moving \<open>n\<close> bytes, on the kernel object and the memory on the other side.\<close>

definition moved_ok :: "nat \<Rightarrow> nat \<Rightarrow> byte list \<Rightarrow> uio \<Rightarrow> byte list \<times> uio \<Rightarrow> bool" where
  "moved_ok ptr n k u t \<longleftrightarrow> mapped (uio_mem u) (iov_base u) n \<and>
     (case uio_dir u of
        UIO_READ \<Rightarrow> t = (k, uio_moved n (mem_upd (iov_base u) (take n (drop ptr k)) (uio_mem u)) u)
      | UIO_WRITE \<Rightarrow> t = (put_at ptr (mem_bytes (uio_mem u) (iov_base u) n) k,
                      uio_moved n (uio_mem u) u))"

definition moved_fault :: "nat \<Rightarrow> byte list \<Rightarrow> uio \<Rightarrow> errno \<Rightarrow> byte list \<times> uio \<Rightarrow> bool" where
  "moved_fault n k u e t \<longleftrightarrow> e = EFAULT \<and> uio_segflg u \<noteq> UIO_SYSSPACE
     \<and> \<not> (iov_base u + n \<le> USERTOP \<and> mapped (uio_mem u) (iov_base u) n)
     \<and> length (fst t) = length k
     \<and> (\<exists>m. snd t = u\<lparr>uio_mem := m\<rparr>
         \<and> (\<forall>x. x < iov_base u \<or> iov_base u + n \<le> x \<or> USERTOP \<le> x \<longrightarrow> m x = uio_mem u x))"

lemma wp_kfatal: "wp (kfatal m) Q R s \<longleftrightarrow> wp m Q (\<lambda>_ _. False) s"
  by (auto simp: kfatal_def kbind_def kattempt_def kpanic_def kret_def wp_def split: outcome.splits)

lemma uiomove_transfer_wp:
  assumes u: "uio_valid u" and n: "0 < n" "n \<le> uio_resid u" and k: "ptr + n \<le> length k"
  shows "wp (kzoom copy_get copy_put (uiomove_transfer ptr n u))
    (\<lambda>_ t. moved_ok ptr n k u (fst t, uio_advance n (snd t))) (moved_fault n k u) (k, u)"
proof -
  have b: "iov_base u < 4294967296" "n < 4294967296" "n \<le> iov_len u"
    using u n by (auto simp: uio_valid_def)
  have adv: "uio_advance n (u\<lparr>uio_mem := m\<rparr>) = uio_moved n m u" for m
    using uio_advance_eq [OF u n(2)] by simp
  have adv': "uio_advance n u = uio_moved n (uio_mem u) u" using adv [of "uio_mem u"] by simp
  show ?thesis
  proof (cases "uio_segflg u = UIO_SYSSPACE")
    case True
    then have m: "mapped (uio_mem u) (iov_base u) n"
      using u n by (auto simp: uio_valid_def intro: mapped_le)
    show ?thesis
    proof (cases "uio_dir u")
      case UIO_READ
      show ?thesis unfolding uiomove_transfer_def True UIO_READ uio_seg.case uio_rw.case wp_kzoom
          copy_get_def wp_kfatal fst_conv snd_conv
        by (rule wp_mono [OF copy_loop_out [OF k]])
          (use m in \<open>auto simp: moved_ok_def UIO_READ copy_put_def adv\<close>)
    next
      case UIO_WRITE
      show ?thesis unfolding uiomove_transfer_def True UIO_WRITE uio_seg.case uio_rw.case wp_kzoom
          copy_get_def wp_kfatal fst_conv snd_conv
        by (rule wp_mono [OF copy_loop_in [OF k]])
          (use m in \<open>auto simp: moved_ok_def UIO_WRITE copy_put_def adv'\<close>)
    qed
  next
    case False
    then have tr: "uiomove_transfer ptr n u = (case uio_dir u of
             UIO_READ \<Rightarrow> copyout ptr (iov_base u) n | UIO_WRITE \<Rightarrow> copyin (iov_base u) ptr n)"
      by (simp add: uiomove_transfer_def split: uio_seg.splits)
    show ?thesis
    proof (cases "uio_dir u")
      case UIO_READ
      show ?thesis unfolding tr UIO_READ uio_rw.case wp_kzoom copy_get_def fst_conv snd_conv
        by (rule wp_mono [OF copyout_wp [OF b(1,2) k]])
          (use False n in \<open>auto simp: moved_ok_def moved_fault_def UIO_READ copy_put_def adv\<close>)
    next
      case UIO_WRITE
      show ?thesis unfolding tr UIO_WRITE uio_rw.case wp_kzoom copy_get_def fst_conv snd_conv
        by (rule wp_mono [OF copyin_wp [OF b(1,2) k]])
          (use False n in \<open>auto simp: moved_ok_def moved_fault_def UIO_WRITE copy_put_def adv'
            intro!: exI [of _ "uio_mem u"]\<close>)
    qed
  qed
qed

text \<open>
  \<open>uiomove\<close> of at most the residue: a single turn of the loop moves everything, and the remaining
  turns have nothing left to do.
\<close>

lemma uiomove_loop_done: "uiomove_loop t ptr 0 = kret ()"
  by (cases t) (simp_all add: kbind_def kget_def kret_def fun_eq_iff)

lemma moved_ok_0: "moved_ok ptr 0 k u (k, u)"
  by (simp add: moved_ok_def mapped_def mem_bytes_def uio_moved_0 split: uio_rw.splits)

lemma uiomove_wp:
  assumes u: "uio_valid u" and n: "n \<le> uio_resid u" and k: "ptr + n \<le> length k"
  shows "wp (uiomove ptr n) (\<lambda>_ t. moved_ok ptr n k u t) (moved_fault n k u) (k, u)"
proof (cases "n = 0")
  case True
  then show ?thesis using u moved_ok_0
    by (auto simp: uiomove_def uiomove_loop_done wps uio_valid_def split: uio_seg.splits)
next
  case False
  then obtain t where t: "n = Suc t" by (cases n) auto
  have sz: "(if iov_len u > n then n else iov_len u) = n" using u n by (auto simp: uio_valid_def)
  have "wp (kzoom copy_get copy_put (uiomove_transfer ptr n u))
    (\<lambda>_ t. moved_ok ptr n k u (fst t, uio_advance n (snd t))) (moved_fault n k u) (k, u)"
    by (rule uiomove_transfer_wp [OF u _ n k]) (simp add: t)
  then have "wp (uiomove_loop (Suc t) ptr n) (\<lambda>_ t. moved_ok ptr n k u t) (moved_fault n k u) (k, u)"
    unfolding uiomove_loop.simps wp_kbind wp_kget snd_conv Let_def sz
    using False n by (simp add: wps uiomove_loop_done del: wp_kzoom)
  then show ?thesis using u
    by (auto simp: uiomove_def wps t uio_valid_def simp del: uiomove_loop.simps split: uio_seg.splits)
qed

text \<open>The same for a call on an object of the caller.\<close>

lemma uiomove_obj_wp:
  assumes "uio_valid u" and "n \<le> uio_resid u" and "ptr + n \<le> length k"
  shows "wp (uiomove_obj k ptr n) (\<lambda>k' u'. moved_ok ptr n k u (k', u') \<and> uio_valid u')
    (\<lambda>e u'. \<exists>k'. moved_fault n k u e (k', u')) u"
proof -
  have "uio_valid (snd t)" if "moved_ok ptr n k u t" for t
    using that uio_valid_moved [OF assms(1,2)] uio_valid_moved' [OF assms(1,2)]
    by (auto simp: moved_ok_def split: uio_rw.splits)
  with uiomove_wp [OF assms] show ?thesis
    by (auto simp: wp_def uiomove_obj_def split: outcome.splits)
qed

lemma zero_amounts_sum: "sum_list (zero_amounts n) = n \<and> (\<forall>a \<in> set (zero_amounts n). 0 < a \<and> a \<le> 16)"
proof (induction n rule: zero_amounts.induct)
  case (1 n)
  show ?case
  proof (cases "n > 0")
    case True
    then have "zero_amounts n = (if 16 > n then n else 16) # zero_amounts (n - (if 16 > n then n else 16))"
      using zero_amounts.simps [of n] by (simp add: Let_def)
    then show ?thesis using 1 True by (cases "16 > n") simp_all
  next
    case False
    then have "zero_amounts n = []" using zero_amounts.simps [of n] by simp
    then show ?thesis using False by simp
  qed
qed

lemma mapped_add: "mapped m a (i + j) \<longleftrightarrow> mapped m a i \<and> mapped m (a + i) j"
proof
  assume l: "mapped m a i \<and> mapped m (a + i) j"
  show "mapped m a (i + j)" unfolding mapped_def
  proof (intro allI impI)
    fix k
    assume k: "k < i + j"
    show "m (a + k) \<noteq> None"
    proof (cases "k < i")
      case False
      then have "k - i < j" "a + k = a + i + (k - i)" using k by simp_all
      then show ?thesis using l unfolding mapped_def by metis
    qed (use l in \<open>simp add: mapped_def\<close>)
  qed
qed (simp add: mapped_le mapped_offset)

lemma mapped_upd_above: "mapped (mem_upd a bs m) (a + length bs) j \<longleftrightarrow> mapped m (a + length bs) j"
  by (simp add: mapped_def mem_upd_def)

lemma mem_upd_zeros:
  "mem_upd (a + i) (replicate j 0) (mem_upd a (replicate i 0) m) = mem_upd a (replicate (i + j) 0) m"
  using mem_upd_append [of a "replicate i 0" "replicate j 0" m] by (simp add: replicate_add)

lemma zeros16: "length zeros16 = 16" "n \<le> 16 \<Longrightarrow> take n zeros16 = replicate n 0"
  by (simp_all add: zeros16_def min_def)

text \<open>\<open>uiomovezeros\<close> stores \<open>n\<close> zero bytes, or faults with no more than that changed.\<close>

definition zeros_fault :: "nat \<Rightarrow> uio \<Rightarrow> errno \<Rightarrow> uio \<Rightarrow> bool" where
  "zeros_fault n u e u' \<longleftrightarrow> e = EFAULT \<and> uio_segflg u \<noteq> UIO_SYSSPACE
     \<and> \<not> (iov_base u + n \<le> USERTOP \<and> mapped (uio_mem u) (iov_base u) n)
     \<and> (\<exists>k < n. mapped (uio_mem u) (iov_base u) k
         \<and> (\<exists>m. u' = (uio_moved k (mem_upd (iov_base u) (replicate k 0) (uio_mem u)) u)\<lparr>uio_mem := m\<rparr>))"

lemma zeros_loop_wp:
  assumes "uio_valid u" and "uio_dir u = UIO_READ" and "sum_list as \<le> uio_resid u"
    and "\<forall>a \<in> set as. 0 < a \<and> a \<le> 16"
  shows "wp (kfor as (\<lambda>amt. kbind (uiomove_obj zeros16 0 amt) (\<lambda>_. kret ())))
    (\<lambda>_ u'. mapped (uio_mem u) (iov_base u) (sum_list as)
       \<and> u' = uio_moved (sum_list as) (mem_upd (iov_base u) (replicate (sum_list as) 0) (uio_mem u)) u)
    (zeros_fault (sum_list as) u) u"
  using assms
proof (induction as arbitrary: u)
  case Nil
  then show ?case by (simp add: wps mapped_def uio_moved_0)
next
  case (Cons a as)
  have a: "a \<le> uio_resid u" "0 + a \<le> length zeros16" using Cons.prems zeros16(1) by auto
  show ?case unfolding wp_kfor_Cons wp_kbind
  proof (rule wp_mono [OF uiomove_obj_wp [OF Cons.prems(1) a]])
    fix k' u'
    let ?u = "uio_moved a (mem_upd (iov_base u) (replicate a 0) (uio_mem u)) u"
    assume "moved_ok 0 a zeros16 u (k', u') \<and> uio_valid u'"
    then have u': "mapped (uio_mem u) (iov_base u) a" "u' = ?u" "uio_valid ?u"
      using Cons.prems by (auto simp: moved_ok_def zeros16)
    have map: "mapped (uio_mem u) (iov_base u) (a + j) \<longleftrightarrow> mapped (uio_mem ?u) (iov_base ?u) j" for j
      using u'(1) mapped_upd_above [of "iov_base u" "replicate a 0" "uio_mem u" j]
      by (simp add: mapped_add)
    have ih: "wp (kfor as (\<lambda>amt. kbind (uiomove_obj zeros16 0 amt) (\<lambda>_. kret ())))
      (\<lambda>_ u'. mapped (uio_mem ?u) (iov_base ?u) (sum_list as)
         \<and> u' = uio_moved (sum_list as) (mem_upd (iov_base ?u) (replicate (sum_list as) 0) (uio_mem ?u)) ?u)
      (zeros_fault (sum_list as) ?u) ?u"
      by (rule Cons.IH) (use Cons.prems u' in auto)
    have fault: "zeros_fault (sum_list (a # as)) u e t" if "zeros_fault (sum_list as) ?u e t" for e t
    proof -
      note z = that
      obtain k m where km: "e = EFAULT" "k < sum_list as" "mapped (uio_mem ?u) (iov_base ?u) k"
        "t = (uio_moved k (mem_upd (iov_base ?u) (replicate k 0) (uio_mem ?u)) ?u)\<lparr>uio_mem := m\<rparr>"
        using z unfolding zeros_fault_def by blast
      have "t = (uio_moved (a + k) (mem_upd (iov_base u) (replicate (a + k) 0) (uio_mem u)) u)\<lparr>uio_mem := m\<rparr>"
        unfolding km(4) uio_moved_moved by (simp add: mem_upd_zeros)
      moreover have "a + k < a + sum_list as" "mapped (uio_mem u) (iov_base u) (a + k)"
        using km map by auto
      moreover have "\<not> (iov_base u + (a + sum_list as) \<le> USERTOP
          \<and> mapped (uio_mem u) (iov_base u) (a + sum_list as))" "uio_segflg u \<noteq> UIO_SYSSPACE"
        using z map [of "sum_list as"] unfolding zeros_fault_def by (auto simp: add.assoc)
      ultimately show ?thesis using km(1) unfolding zeros_fault_def sum_list.Cons by metis
    qed
    show "wp (kret ()) (\<lambda>_. wp (kfor as (\<lambda>amt. kbind (uiomove_obj zeros16 0 amt) (\<lambda>_. kret ())))
      (\<lambda>_ u'. mapped (uio_mem u) (iov_base u) (sum_list (a # as))
        \<and> u' = uio_moved (sum_list (a # as)) (mem_upd (iov_base u) (replicate (sum_list (a # as)) 0) (uio_mem u)) u)
      (zeros_fault (sum_list (a # as)) u)) (zeros_fault (sum_list (a # as)) u) u'"
      unfolding wp_kret u'(2)
      by (rule wp_mono [OF ih]) (use map fault in \<open>auto simp: uio_moved_moved mem_upd_zeros\<close>)
  next
    fix e u'
    assume "\<exists>k'. moved_fault a zeros16 u e (k', u')"
    then obtain m where "e = EFAULT" "uio_segflg u \<noteq> UIO_SYSSPACE" "u' = u\<lparr>uio_mem := m\<rparr>"
      "\<not> (iov_base u + a \<le> USERTOP \<and> mapped (uio_mem u) (iov_base u) a)"
      by (auto simp: moved_fault_def)
    moreover have "0 < sum_list (a # as)" using Cons.prems(4) by simp
    ultimately show "zeros_fault (sum_list (a # as)) u e u'"
      unfolding zeros_fault_def by (auto simp: mapped_add uio_moved_def mapped_def [of _ _ 0] intro!: exI [of _ 0])
  qed
qed

lemma uiomovezeros_wp:
  assumes "uio_valid u" and "uio_dir u = UIO_READ" and "n \<le> uio_resid u"
  shows "wp (uiomovezeros n)
    (\<lambda>_ u'. mapped (uio_mem u) (iov_base u) n
       \<and> u' = uio_moved n (mem_upd (iov_base u) (replicate n 0) (uio_mem u)) u)
    (zeros_fault n u) u"
  using zeros_loop_wp [OF assms(1,2), of "zero_amounts n"] zero_amounts_sum [of n] assms
  by (simp add: uiomovezeros_def wps)

text \<open>
  \<open>uiomove\<close> of more than the residue, when the residue is all of the iovec (as \<open>mk_kuio\<close> sets it up):
  the loop stops when the residue is used up.
\<close>

lemma uiomove_loop_resid0:
  "uio_resid (snd s) = 0 \<Longrightarrow> n \<le> t \<Longrightarrow> wp (uiomove_loop t ptr n) Q R s = Q () s"
  by (cases t) (simp_all add: wps)

lemma uiomove_all_wp:
  assumes u: "uio_valid u" and r: "uio_resid u = iov_len u" "uio_resid u \<le> n" and k: "ptr + uio_resid u \<le> length k"
  shows "wp (uiomove ptr n) (\<lambda>_ t. moved_ok ptr (uio_resid u) k u t) (moved_fault (uio_resid u) k u) (k, u)"
proof (cases "uio_resid u = 0")
  case True
  then show ?thesis using u moved_ok_0
    by (auto simp: uiomove_def uiomove_loop_resid0 wps uio_valid_def split: uio_seg.splits)
next
  case False
  let ?r = "uio_resid u"
  obtain t where t: "n = Suc t" using False r by (cases n) auto
  have sz: "(if iov_len u > n then n else iov_len u) = ?r" using r by simp
  have rest: "wp (uiomove_loop t (ptr + ?r) (n - ?r)) Q R v = Q () v" if "uio_resid (snd v) = 0" for Q R v
    by (rule uiomove_loop_resid0 [OF that]) (use False t in simp)
  have "uio_resid (snd v) = 0" if "moved_ok ptr ?r k u v" for v
    using that by (auto simp: moved_ok_def split: uio_rw.splits)
  then have "wp (kzoom copy_get copy_put (uiomove_transfer ptr ?r u))
    (\<lambda>_ v. wp (uiomove_loop t (ptr + ?r) (n - ?r)) (\<lambda>_. moved_ok ptr ?r k u) (moved_fault ?r k u) (fst v, uio_advance ?r (snd v)))
    (moved_fault ?r k u) (k, u)"
    by (intro wp_mono [OF uiomove_transfer_wp [OF u _ _ k]]) (use False in \<open>auto simp: rest\<close>)
  then have "wp (uiomove_loop (Suc t) ptr n) (\<lambda>_. moved_ok ptr ?r k u) (moved_fault ?r k u) (k, u)"
    unfolding uiomove_loop.simps wp_kbind wp_kget snd_conv Let_def sz using False t
    by (simp add: wps del: wp_kzoom)
  then show ?thesis using u
    by (auto simp: uiomove_def wps t uio_valid_def simp del: uiomove_loop.simps split: uio_seg.splits)
qed

section \<open>Properties\<close>

text \<open>
  Property C34: \<open>uiomove\<close> of \<open>n\<close> bytes on a descriptor that is set up as uio.h asks, for any \<open>n\<close> if the
  residue is all of the iovec (as \<open>mk_kuio\<close> makes it) and for \<open>n\<close> up to the residue if the iovec is longer,
  moves exactly the smaller of \<open>n\<close> and the residue, in bytes, in the direction of the descriptor
  (\<open>moved_ok\<close>: the bytes of the kernel object from \<open>ptr\<close> on appear at the iovec, or the bytes at the iovec appear in the kernel object, and
  nothing else changes), advances base, length, residue and offset by as much, and never panics. It fails only with
  \<open>EFAULT\<close>, only for a user's iovec that is not all mapped below the kernel, and then leaves the
  descriptor where it was (\<open>moved_fault\<close>).
\<close>

theorem uiomove_moves:
  assumes "uio_valid u" and "n \<le> uio_resid u \<or> uio_resid u = iov_len u"
    and "m = min n (uio_resid u)" and "ptr + m \<le> length k"
  shows "wp (uiomove ptr n) (\<lambda>_ t. moved_ok ptr m k u t \<and> uio_valid (snd t)) (moved_fault m k u) (k, u)"
proof -
  have "wp (uiomove ptr n) (\<lambda>_. moved_ok ptr m k u) (moved_fault m k u) (k, u)"
    using uiomove_wp [OF assms(1), of n ptr k] uiomove_all_wp [OF assms(1), of n ptr k] assms(2-4)
    by (cases "n \<le> uio_resid u") (simp_all add: min_def)
  moreover have "uio_valid (snd t)" if "moved_ok ptr m k u t" for t
    using that uio_valid_moved [OF assms(1), of m] uio_valid_moved' [OF assms(1), of m] assms(3)
    by (auto simp: moved_ok_def split: uio_rw.splits)
  ultimately show ?thesis by (auto elim: wp_mono)
qed

definition uio_ex :: uio where
  "uio_ex = mk_kuio [10, 20, 30, 40] 4 100 UIO_WRITE"

theorem uiomove_moves_witness:
  "wp (uiomove 1 7) (\<lambda>_ t. moved_ok 1 4 [1, 2, 3, 4, 5, 6, 7, 8] uio_ex t \<and> uio_valid (snd t))
    (moved_fault 4 [1, 2, 3, 4, 5, 6, 7, 8] uio_ex) ([1, 2, 3, 4, 5, 6, 7, 8], uio_ex)"
  by (rule uiomove_moves) (auto simp: uio_ex_def mk_kuio_def uio_valid_def mapped_def)

end
