(* ===== verification/Lhd.thy ===== *)
theory Lhd
  imports Uio
begin

unbundle bit_operations_syntax

text \<open>
  The disk driver, kern/dev/lamebus/lhd.c, and the block input and output of sfs on top of it,
  kern/fs/sfs/sfs_io.c.

  The disk itself is hardware: it is modelled by the contents of its sectors and by the values its
  status register will show at the coming interrupts. A value listed is what the driver's interrupt
  handler reads; once the list is used up, every operation completes with \<open>LHD_OK\<close>. An operation
  transfers its sector exactly when it completes with \<open>LHD_OK\<close>. The semaphores \<open>lh_clear\<close> and
  \<open>lh_done\<close> make a call wait for the completion of its own operation, which is what \<open>lhd_wait\<close>
  computes.
\<close>

section \<open>The driver\<close>

definition LHD_IDLE :: nat where "LHD_IDLE = 0"
definition LHD_WORKING :: nat where "LHD_WORKING = 1"
definition LHD_OK :: nat where "LHD_OK = 4"
definition LHD_INVSECT :: nat where "LHD_INVSECT = 12"
definition LHD_MEDIA :: nat where "LHD_MEDIA = 20"
definition LHD_STATEMASK :: nat where "LHD_STATEMASK = 29"

definition LHD_SECTSIZE :: nat where "LHD_SECTSIZE = 512"

lemmas lhd_constants = LHD_IDLE_def LHD_WORKING_def LHD_OK_def LHD_INVSECT_def LHD_MEDIA_def
  LHD_STATEMASK_def LHD_SECTSIZE_def

record lhd =
  lh_disk :: "byte list list"   \<comment> \<open>hardware: the sectors\<close>
  lh_codes :: "nat list"        \<comment> \<open>hardware: the coming values of \<open>LHD_REG_STAT\<close>\<close>
  lh_buf :: "byte list"         \<comment> \<open>the on-card buffer\<close>

text \<open>\<open>None\<close> is the result 0.\<close>

definition lhd_code_to_errno :: "nat \<Rightarrow> errno option" where
  "lhd_code_to_errno code =
     (let s = code AND LHD_STATEMASK in
      if s = LHD_OK then None
      else if s = LHD_INVSECT then Some EINVAL
      else if s = LHD_MEDIA then Some EIO
      else Some EAGAIN)"

text \<open>The interrupt handler: \<open>Some r\<close> when it calls \<open>lhd_iodone\<close> with \<open>r\<close>.\<close>

definition lhd_irq :: "nat \<Rightarrow> errno option option" where
  "lhd_irq val =
     (let s = val AND LHD_STATEMASK in
      if s = LHD_IDLE \<or> s = LHD_WORKING then None
      else if s = LHD_OK \<or> s = LHD_INVSECT \<or> s = LHD_MEDIA then Some (lhd_code_to_errno val)
      else None)"

text \<open>\<open>P(lh->lh_done)\<close>: the interrupts up to the next completion.\<close>

primrec lhd_wait :: "nat list \<Rightarrow> errno option \<times> nat list" where
  "lhd_wait [] = (None, [])"
| "lhd_wait (c # cs) = (case lhd_irq c of None \<Rightarrow> lhd_wait cs | Some r \<Rightarrow> (r, cs))"

text \<open>One operation of the hardware on a sector, from the writes of the registers to \<open>lh_result\<close>.\<close>

definition lhd_command :: "bool \<Rightarrow> nat \<Rightarrow> (lhd, errno option) op" where
  "lhd_command wr sect = (\<lambda>l.
     if sect \<ge> length (lh_disk l) then Done (Some EINVAL) l
     else case lhd_wait (lh_codes l) of
       (None, cs) \<Rightarrow>
         Done None (if wr then l\<lparr>lh_codes := cs, lh_disk := (lh_disk l)[sect := lh_buf l]\<rparr>
                    else l\<lparr>lh_codes := cs, lh_buf := lh_disk l ! sect\<rparr>)
     | (Some e, cs) \<Rightarrow> Done (Some e) (l\<lparr>lh_codes := cs\<rparr>))"

text \<open>A call of \<open>uiomove\<close> on the on-card buffer.\<close>

definition lhd_move :: "(lhd \<times> uio, unit) op" where
  "lhd_move = kbind (kget (lh_buf \<circ> fst)) (\<lambda>buf.
     kbind (kzoom snd (\<lambda>u s. (fst s, u)) (uiomove_obj buf 0 LHD_SECTSIZE)) (\<lambda>buf'.
     kmodify (\<lambda>s. ((fst s)\<lparr>lh_buf := buf'\<rparr>, snd s))))"

definition lhd_io :: "(lhd \<times> uio, unit) op" where
  "lhd_io =
     kbind (kget id) (\<lambda>(l, u).
     let sector = to_u32 (cdiv (uio_offset u) (int LHD_SECTSIZE));
         sectoff = to_u32 (cmod (uio_offset u) (int LHD_SECTSIZE));
         len = uio_resid u div LHD_SECTSIZE;
         lenoff = uio_resid u mod LHD_SECTSIZE;
         wr = (uio_dir u = UIO_WRITE) in
     if sectoff \<noteq> 0 \<or> lenoff \<noteq> 0 then kfail EINVAL
     else if u32 (sector + len) > length (lh_disk l) then kfail EINVAL
     else
       kfor [0..<len] (\<lambda>i.
         kbind (kwhen wr lhd_move) (\<lambda>_.
         kbind (kzoom fst (\<lambda>l s. (l, snd s)) (lhd_command wr (u32 (sector + i)))) (\<lambda>result.
         case result of
           Some e \<Rightarrow> kfail e
         | None \<Rightarrow> kwhen (\<not> wr) lhd_move))))"

section \<open>Block input and output of sfs\<close>

definition SFS_BLOCKSIZE :: nat where "SFS_BLOCKSIZE = 512"

text \<open>\<open>sfs_rwblock\<close> with \<open>n\<close> retries left; \<open>tries\<close> counts up to 10.\<close>

primrec sfs_rwblock_tries :: "nat \<Rightarrow> (lhd \<times> uio, unit) op" where
  "sfs_rwblock_tries 0 =
     kbind (kattempt lhd_io) (\<lambda>result. case result of
       Inr _ \<Rightarrow> kret ()
     | Inl e \<Rightarrow> if e = EINVAL then kpanic else kfail e)"
| "sfs_rwblock_tries (Suc n) =
     kbind (kattempt lhd_io) (\<lambda>result. case result of
       Inr _ \<Rightarrow> kret ()
     | Inl e \<Rightarrow> if e = EINVAL then kpanic else if e = EIO then sfs_rwblock_tries n else kfail e)"

definition sfs_rwblock :: "(lhd \<times> uio, unit) op" where
  "sfs_rwblock = sfs_rwblock_tries 10"

definition SFSUIO :: "byte list \<Rightarrow> nat \<Rightarrow> uio_rw \<Rightarrow> uio" where
  "SFSUIO ptr block rw = mk_kuio ptr SFS_BLOCKSIZE (off32 (int block * int SFS_BLOCKSIZE)) rw"

text \<open>Run a transfer on a descriptor of the caller; the value is the descriptor afterwards.\<close>

definition with_uio :: "uio \<Rightarrow> ('s \<times> uio, unit) op \<Rightarrow> ('s, uio) op" where
  "with_uio u m = (\<lambda>l. case m (l, u) of
      Done _ t \<Rightarrow> Done (snd t) (fst t) | Fail e t \<Rightarrow> Fail e (fst t) | Panic \<Rightarrow> Panic)"

text \<open>The value of \<open>sfs_rblock\<close> is the contents of the buffer \<open>data\<close> afterwards.\<close>

definition sfs_rblock :: "nat \<Rightarrow> (lhd, byte list) op" where
  "sfs_rblock block =
     kbind (with_uio (SFSUIO (replicate SFS_BLOCKSIZE 0) block UIO_READ) sfs_rwblock) (\<lambda>ku.
     kret (mem_bytes (uio_mem ku) 0 SFS_BLOCKSIZE))"

definition sfs_wblock :: "byte list \<Rightarrow> nat \<Rightarrow> (lhd, unit) op" where
  "sfs_wblock data block =
     kbind (with_uio (SFSUIO data block UIO_WRITE) sfs_rwblock) (\<lambda>_. kret ())"

section \<open>One sector through the driver\<close>

definition lhd_wf :: "lhd \<Rightarrow> bool" where
  "lhd_wf l \<longleftrightarrow> (\<forall>s \<in> set (lh_disk l). length s = 512) \<and> length (lh_buf l) = 512
     \<and> length (lh_disk l) < 4194304"

text \<open>The completions to come, and the state of the disk after the next one.\<close>

definition io_results :: "nat list \<Rightarrow> errno option list" where
  "io_results cs = List.map_filter lhd_irq cs"

definition lhd_next :: "lhd \<Rightarrow> errno option" where
  "lhd_next l = fst (lhd_wait (lh_codes l))"

definition lhd_popped :: "lhd \<Rightarrow> lhd" where
  "lhd_popped l = l\<lparr>lh_codes := snd (lhd_wait (lh_codes l))\<rparr>"

lemma io_results_simps [simp]:
  "io_results [] = []"
  "io_results (c # cs) = (case lhd_irq c of None \<Rightarrow> io_results cs | Some r \<Rightarrow> r # io_results cs)"
  by (simp_all add: io_results_def List.map_filter_def split: option.splits)

lemma lhd_wait_results:
  "case io_results cs of [] \<Rightarrow> lhd_wait cs = (None, [])
     | r # rs \<Rightarrow> fst (lhd_wait cs) = r \<and> io_results (snd (lhd_wait cs)) = rs"
  by (induction cs) (auto split: option.splits list.splits)

lemma lhd_popped_simps [simp]:
  "lh_disk (lhd_popped l) = lh_disk l" "lh_buf (lhd_popped l) = lh_buf l"
  by (simp_all add: lhd_popped_def)

lemma lhd_wf_sector: "lhd_wf l \<Longrightarrow> b < length (lh_disk l) \<Longrightarrow> length (lh_disk l ! b) = 512"
  by (simp add: lhd_wf_def)

lemma lhd_command_eq:
  assumes "b < length (lh_disk l)"
  shows "lhd_command wr b l = Done (lhd_next l)
    (if lhd_next l = None then
       (if wr then (lhd_popped l)\<lparr>lh_disk := (lh_disk l)[b := lh_buf l]\<rparr>
        else (lhd_popped l)\<lparr>lh_buf := lh_disk l ! b\<rparr>)
     else lhd_popped l)"
  using assms
  by (auto simp: lhd_command_def lhd_next_def lhd_popped_def split: prod.splits option.splits)

lemma lhd_sector:
  assumes "uio_offset u = int b * 512" and "b < 4194304" and "uio_resid u = 512"
  shows "to_u32 (cdiv (uio_offset u) (int LHD_SECTSIZE)) = b"
    "to_u32 (cmod (uio_offset u) (int LHD_SECTSIZE)) = 0"
    "uio_resid u div LHD_SECTSIZE = 1" "uio_resid u mod LHD_SECTSIZE = 0"
  using assms by (simp_all add: LHD_SECTSIZE_def)

text \<open>The body of \<open>lhd_io\<close> on one sector.\<close>

lemma lhd_io_one:
  assumes "lhd_wf l" and "uio_offset u = int b * 512" and "b < length (lh_disk l)" and "uio_resid u = 512"
  shows "wp lhd_io Q R (l, u) =
    wp (kbind (kwhen (uio_dir u = UIO_WRITE) lhd_move) (\<lambda>_.
        kbind (kzoom fst (\<lambda>l s. (l, snd s)) (lhd_command (uio_dir u = UIO_WRITE) b)) (\<lambda>result.
        case result of Some e \<Rightarrow> kfail e | None \<Rightarrow> kwhen (uio_dir u \<noteq> UIO_WRITE) lhd_move))) Q R (l, u)"
proof -
  have b: "b < 4194304" "u32 (b + 1) \<le> length (lh_disk l)" "u32 b = b"
    using assms(1,3) by (auto simp: lhd_wf_def)
  show ?thesis
    unfolding lhd_io_def Let_def wp_kbind wp_kget
    using lhd_sector [OF assms(2) b(1) assms(4)] b by (simp add: wps)
qed

lemma lhd_move_wp:
  assumes "uio_valid u" and "uio_resid u = 512" and "length (lh_buf l) = 512"
  shows "wp lhd_move
    (\<lambda>_ t. \<exists>k u'. moved_ok 0 512 (lh_buf l) u (k, u') \<and> uio_valid u' \<and> t = (l\<lparr>lh_buf := k\<rparr>, u'))
    (\<lambda>e t. fst t = l \<and> (\<exists>k. moved_fault 512 (lh_buf l) u e (k, snd t))) (l, u)"
  unfolding lhd_move_def wps fst_conv snd_conv comp_def LHD_SECTSIZE_def
  by (rule wp_mono [OF uiomove_obj_wp]) (use assms in auto)

definition uio_fault :: "uio \<Rightarrow> nat \<Rightarrow> errno \<Rightarrow> uio \<Rightarrow> bool" where
  "uio_fault u n e u' \<longleftrightarrow> (\<exists>m. u' = u\<lparr>uio_mem := m\<rparr>) \<and> e = EFAULT \<and> uio_segflg u \<noteq> UIO_SYSSPACE
     \<and> \<not> (iov_base u + n \<le> USERTOP \<and> mapped (uio_mem u) (iov_base u) n)"

lemma moved_fault_uio: "moved_fault n k u e t \<Longrightarrow> uio_fault u n e (snd t)"
  by (auto simp: moved_fault_def uio_fault_def)

lemma lhd_io_read:
  assumes l: "lhd_wf l" and u: "uio_valid u" "uio_offset u = int b * 512" "uio_resid u = 512"
    and b: "b < length (lh_disk l)" and dir: "uio_dir u = UIO_READ"
  shows "wp lhd_io
    (\<lambda>_ t. lhd_next l = None \<and> mapped (uio_mem u) (iov_base u) 512
       \<and> t = ((lhd_popped l)\<lparr>lh_buf := lh_disk l ! b\<rparr>,
             uio_moved 512 (mem_upd (iov_base u) (lh_disk l ! b) (uio_mem u)) u))
    (\<lambda>e t. lhd_next l = Some e \<and> t = (lhd_popped l, u)
       \<or> lhd_next l = None \<and> uio_fault u 512 e (snd t) \<and> fst t = (lhd_popped l)\<lparr>lh_buf := lh_disk l ! b\<rparr>) (l, u)"
proof -
  have s: "length (lh_disk l ! b) = 512" by (rule lhd_wf_sector [OF l b])
  let ?l = "(lhd_popped l)\<lparr>lh_buf := lh_disk l ! b\<rparr>"
  have mv: "wp lhd_move
    (\<lambda>_ t. mapped (uio_mem u) (iov_base u) 512
       \<and> t = (?l, uio_moved 512 (mem_upd (iov_base u) (lh_disk l ! b) (uio_mem u)) u))
    (\<lambda>e t. uio_fault u 512 e (snd t) \<and> fst t = ?l) (?l, u)"
    by (rule wp_mono [OF lhd_move_wp]) (use u s dir in \<open>auto simp: moved_ok_def dest: moved_fault_uio\<close>)
  show ?thesis
  proof (cases "lhd_next l")
    case None
    then show ?thesis unfolding lhd_io_one [OF l u(2) b u(3)]
      using dir by (simp add: wps) (simp add: wp_def [of "lhd_command False b"] lhd_command_eq [OF b] mv wps)
  next
    case (Some e)
    then show ?thesis unfolding lhd_io_one [OF l u(2) b u(3)]
      using dir by (simp add: wps) (simp add: wp_def [of "lhd_command False b"] lhd_command_eq [OF b] wps)
  qed
qed

text \<open>
  A write first moves the data to the card, which advances the descriptor, and then starts the
  operation: when the operation fails the descriptor stays advanced.
\<close>

lemma lhd_io_write:
  assumes l: "lhd_wf l" and u: "uio_valid u" "uio_offset u = int b * 512" "uio_resid u = 512"
    and b: "b < length (lh_disk l)" and dir: "uio_dir u = UIO_WRITE"
  defines "data \<equiv> mem_bytes (uio_mem u) (iov_base u) 512"
  shows "wp lhd_io
    (\<lambda>_ t. lhd_next l = None \<and> mapped (uio_mem u) (iov_base u) 512
       \<and> t = ((lhd_popped l)\<lparr>lh_buf := data, lh_disk := (lh_disk l)[b := data]\<rparr>,
             uio_moved 512 (uio_mem u) u))
    (\<lambda>e t. lhd_next l = Some e \<and> mapped (uio_mem u) (iov_base u) 512
         \<and> t = ((lhd_popped l)\<lparr>lh_buf := data\<rparr>, uio_moved 512 (uio_mem u) u)
       \<or> uio_fault u 512 e (snd t) \<and> fst t = l) (l, u)"
proof -
  let ?l = "l\<lparr>lh_buf := data\<rparr>"
  have bl: "length (lh_buf l) = 512" using l by (simp add: lhd_wf_def)
  have d: "put_at 0 data (lh_buf l) = data" by (rule put_at_0_all) (simp add: data_def bl)
  have mv: "wp lhd_move
    (\<lambda>_ t. mapped (uio_mem u) (iov_base u) 512 \<and> t = (?l, uio_moved 512 (uio_mem u) u))
    (\<lambda>e t. uio_fault u 512 e (snd t) \<and> fst t = l) (l, u)"
    by (rule wp_mono [OF lhd_move_wp [OF u(1,3) bl]])
      (use dir d in \<open>auto simp: moved_ok_def data_def dest: moved_fault_uio\<close>)
  have n: "lhd_next ?l = lhd_next l" "lhd_popped ?l = (lhd_popped l)\<lparr>lh_buf := data\<rparr>"
    by (simp_all add: lhd_next_def lhd_popped_def)
  have b': "b < length (lh_disk ?l)" using b by simp
  show ?thesis unfolding lhd_io_one [OF l u(2) b u(3)] wp_kbind
    using dir
    by (simp add: wp_kwhen) (rule wp_mono [OF mv], auto simp: wps wp_def [of "lhd_command True b"]
        lhd_command_eq [OF b'] n split: option.splits)
qed

section \<open>Blocks of sfs on a disk without errors\<close>

text \<open>No error is to come.\<close>

definition lhd_good :: "lhd \<Rightarrow> bool" where
  "lhd_good l \<longleftrightarrow> set (io_results (lh_codes l)) \<subseteq> {None}"

lemma lhd_good_next:
  assumes "lhd_good l"
  shows "lhd_next l = None" "lhd_good (lhd_popped l)"
  using assms lhd_wait_results [of "lh_codes l"]
  by (auto simp: lhd_good_def lhd_next_def lhd_popped_def split: list.splits)

lemma lhd_good_update [simp]: "lhd_good (l\<lparr>lh_disk := d\<rparr>) = lhd_good l" "lhd_good (l\<lparr>lh_buf := k\<rparr>) = lhd_good l"
  by (simp_all add: lhd_good_def)

lemma lhd_wf_update:
  assumes "lhd_wf l" and "length data = 512"
  shows "lhd_wf ((lhd_popped l)\<lparr>lh_buf := data\<rparr>)"
    "lhd_wf ((lhd_popped l)\<lparr>lh_buf := data, lh_disk := (lh_disk l)[b := data]\<rparr>)"
proof -
  have "\<forall>s \<in> set ((lh_disk l)[b := data]). length s = 512"
    using assms set_update_subset_insert [of "lh_disk l" b data] by (auto simp: lhd_wf_def)
  then show "lhd_wf ((lhd_popped l)\<lparr>lh_buf := data\<rparr>)"
    "lhd_wf ((lhd_popped l)\<lparr>lh_buf := data, lh_disk := (lh_disk l)[b := data]\<rparr>)"
    using assms by (simp_all add: lhd_wf_def)
qed

lemma tries_wp_first:
  assumes "wp lhd_io Q (\<lambda>e t. e \<noteq> EINVAL \<and> e \<noteq> EIO \<and> R e t) s"
  shows "wp sfs_rwblock Q R s"
  using assms unfolding sfs_rwblock_def
  by (simp only: eval_nat_numeral sfs_rwblock_tries.simps wps)
    (erule wp_mono, auto simp: wps)

lemma sfs_rwblock_read:
  assumes l: "lhd_wf l" "lhd_good l" and u: "uio_valid u" "uio_offset u = int b * 512" "uio_resid u = 512"
    and b: "b < length (lh_disk l)" and dir: "uio_dir u = UIO_READ"
  shows "wp sfs_rwblock
    (\<lambda>_ t. mapped (uio_mem u) (iov_base u) 512 \<and> lhd_wf (fst t) \<and> lhd_good (fst t)
       \<and> lh_disk (fst t) = lh_disk l
       \<and> snd t = uio_moved 512 (mem_upd (iov_base u) (lh_disk l ! b) (uio_mem u)) u)
    (\<lambda>e t. uio_fault u 512 e (snd t) \<and> lhd_wf (fst t) \<and> lhd_good (fst t) \<and> lh_disk (fst t) = lh_disk l) (l, u)"
proof (rule tries_wp_first, rule wp_mono [OF lhd_io_read [OF l(1) u b dir]])
  have n: "lhd_next l = None" "lhd_good (lhd_popped l)" using lhd_good_next [OF l(2)] by auto
  have w: "lhd_wf ((lhd_popped l)\<lparr>lh_buf := lh_disk l ! b\<rparr>)"
    by (rule lhd_wf_update [OF l(1) lhd_wf_sector [OF l(1) b]])
  show "mapped (uio_mem u) (iov_base u) 512 \<and> lhd_wf (fst t) \<and> lhd_good (fst t)
       \<and> lh_disk (fst t) = lh_disk l
       \<and> snd t = uio_moved 512 (mem_upd (iov_base u) (lh_disk l ! b) (uio_mem u)) u"
    if "lhd_next l = None \<and> mapped (uio_mem u) (iov_base u) 512
       \<and> t = ((lhd_popped l)\<lparr>lh_buf := lh_disk l ! b\<rparr>,
             uio_moved 512 (mem_upd (iov_base u) (lh_disk l ! b) (uio_mem u)) u)" for x :: unit and t
    using that w n by simp
  show "e \<noteq> EINVAL \<and> e \<noteq> EIO \<and> uio_fault u 512 e (snd t) \<and> lhd_wf (fst t) \<and> lhd_good (fst t)
       \<and> lh_disk (fst t) = lh_disk l"
    if "lhd_next l = Some e \<and> t = (lhd_popped l, u)
       \<or> lhd_next l = None \<and> uio_fault u 512 e (snd t) \<and> fst t = (lhd_popped l)\<lparr>lh_buf := lh_disk l ! b\<rparr>" for e t
    using that w n by (auto simp: uio_fault_def)
qed

lemma sfs_rwblock_write:
  assumes l: "lhd_wf l" "lhd_good l" and u: "uio_valid u" "uio_offset u = int b * 512" "uio_resid u = 512"
    and b: "b < length (lh_disk l)" and dir: "uio_dir u = UIO_WRITE"
  shows "wp sfs_rwblock
    (\<lambda>_ t. mapped (uio_mem u) (iov_base u) 512 \<and> lhd_wf (fst t) \<and> lhd_good (fst t)
       \<and> lh_disk (fst t) = (lh_disk l)[b := mem_bytes (uio_mem u) (iov_base u) 512]
       \<and> snd t = uio_moved 512 (uio_mem u) u)
    (\<lambda>e t. uio_fault u 512 e (snd t) \<and> fst t = l) (l, u)"
proof (rule tries_wp_first, rule wp_mono [OF lhd_io_write [OF l(1) u b dir]])
  have n: "lhd_next l = None" "lhd_good (lhd_popped l)" using lhd_good_next [OF l(2)] by auto
  let ?d = "mem_bytes (uio_mem u) (iov_base u) 512"
  have w: "lhd_wf ((lhd_popped l)\<lparr>lh_buf := ?d, lh_disk := (lh_disk l)[b := ?d]\<rparr>)"
    by (rule lhd_wf_update [OF l(1)]) simp
  show "mapped (uio_mem u) (iov_base u) 512 \<and> lhd_wf (fst t) \<and> lhd_good (fst t)
       \<and> lh_disk (fst t) = (lh_disk l)[b := ?d] \<and> snd t = uio_moved 512 (uio_mem u) u"
    if "lhd_next l = None \<and> mapped (uio_mem u) (iov_base u) 512
       \<and> t = ((lhd_popped l)\<lparr>lh_buf := ?d, lh_disk := (lh_disk l)[b := ?d]\<rparr>,
             uio_moved 512 (uio_mem u) u)" for x :: unit and t
    using that w n by simp
  show "e \<noteq> EINVAL \<and> e \<noteq> EIO \<and> uio_fault u 512 e (snd t) \<and> fst t = l"
    if "lhd_next l = Some e \<and> mapped (uio_mem u) (iov_base u) 512
         \<and> t = ((lhd_popped l)\<lparr>lh_buf := ?d\<rparr>, uio_moved 512 (uio_mem u) u)
       \<or> uio_fault u 512 e (snd t) \<and> fst t = l" for e t
    using that n by (auto simp: uio_fault_def)
qed

lemma SFSUIO_block:
  assumes "b < 4194303" and "length data = 512"
  shows "uio_offset (SFSUIO data b rw) = int b * 512" "uio_resid (SFSUIO data b rw) = 512"
    "uio_valid (SFSUIO data b rw)" "uio_dir (SFSUIO data b rw) = rw" "iov_base (SFSUIO data b rw) = 0"
    "uio_segflg (SFSUIO data b rw) = UIO_SYSSPACE"
    "mem_bytes (uio_mem (SFSUIO data b rw)) 0 512 = data"
proof -
  have o: "off32 (int b * 512) = int b * 512" using assms(1) by (intro off32_id) auto
  show "uio_offset (SFSUIO data b rw) = int b * 512" "uio_resid (SFSUIO data b rw) = 512"
    "uio_dir (SFSUIO data b rw) = rw" "iov_base (SFSUIO data b rw) = 0"
    "uio_segflg (SFSUIO data b rw) = UIO_SYSSPACE"
    by (simp_all add: SFSUIO_def mk_kuio_def SFS_BLOCKSIZE_def o)
  show "uio_valid (SFSUIO data b rw)"
    using assms o by (simp add: SFSUIO_def mk_kuio_def SFS_BLOCKSIZE_def uio_valid_def mapped_def)
  show "mem_bytes (uio_mem (SFSUIO data b rw)) 0 512 = data"
    using assms(2) by (intro nth_equalityI) (simp_all add: SFSUIO_def mk_kuio_def)
qed

text \<open>The two bounds together: the blocks sfs may use.\<close>

definition blk_ok :: "lhd \<Rightarrow> nat \<Rightarrow> bool" where
  "blk_ok l b \<longleftrightarrow> b < length (lh_disk l) \<and> b < 4194303"

lemma wp_with_uio: "wp (with_uio u m) Q R l = wp m (\<lambda>_ t. Q (snd t) (fst t)) (\<lambda>e t. R e (fst t)) (l, u)"
  by (simp add: wp_def with_uio_def split: outcome.splits)

lemma sfs_rblock_wp:
  assumes l: "lhd_wf l" "lhd_good l" and b: "blk_ok l b"
  shows "wp (sfs_rblock b) (\<lambda>d l'. d = lh_disk l ! b \<and> lhd_wf l' \<and> lhd_good l' \<and> lh_disk l' = lh_disk l)
    (\<lambda>_ _. False) l"
proof -
  have b': "b < 4194303" "b < length (lh_disk l)" using b by (auto simp: blk_ok_def)
  have z: "length (replicate SFS_BLOCKSIZE 0) = 512" by (simp add: SFS_BLOCKSIZE_def)
  note u = SFSUIO_block [OF b'(1) z, where rw = UIO_READ]
  have s: "length (lh_disk l ! b) = 512" by (rule lhd_wf_sector [OF l(1) b'(2)])
  have m: "mem_bytes (mem_upd 0 (lh_disk l ! b) m) 0 512 = lh_disk l ! b" for m
    using mem_bytes_upd [of 0 "lh_disk l ! b" m] s by simp
  show ?thesis unfolding sfs_rblock_def wp_kbind wp_with_uio wp_kret
    by (rule wp_mono [OF sfs_rwblock_read [OF l u(3,1,2) b'(2) u(4)]])
      (use u m in \<open>auto simp: uio_fault_def SFS_BLOCKSIZE_def\<close>)
qed

lemma sfs_wblock_wp:
  assumes l: "lhd_wf l" "lhd_good l" and b: "blk_ok l b" and d: "length data = 512"
  shows "wp (sfs_wblock data b)
    (\<lambda>_ l'. lhd_wf l' \<and> lhd_good l' \<and> lh_disk l' = (lh_disk l)[b := data]) (\<lambda>_ _. False) l"
proof -
  have b': "b < 4194303" "b < length (lh_disk l)" using b by (auto simp: blk_ok_def)
  note u = SFSUIO_block [OF b'(1) d, where rw = UIO_WRITE]
  show ?thesis unfolding sfs_wblock_def wp_kbind wp_with_uio wp_kret
    by (rule wp_mono [OF sfs_rwblock_write [OF l u(3,1,2) b'(2) u(4)]])
      (use u in \<open>auto simp: uio_fault_def\<close>)
qed

section \<open>Retries\<close>

lemma lhd_next_results:
  "lhd_next l = (case io_results (lh_codes l) of [] \<Rightarrow> None | r # rs \<Rightarrow> r)"
  "io_results (lh_codes (lhd_popped l)) = tl (io_results (lh_codes l))"
  using lhd_wait_results [of "lh_codes l"]
  by (auto simp: lhd_next_def lhd_popped_def split: list.splits)

lemma io_results_range: "Some e \<in> set (io_results cs) \<Longrightarrow> e = EINVAL \<or> e = EIO"
  by (induction cs)
    (auto simp: lhd_irq_def lhd_code_to_errno_def Let_def lhd_constants split: if_splits option.splits)

text \<open>
  A failed read leaves the descriptor as it was, so the retries of \<open>sfs_rwblock\<close> repeat it: with
  \<open>n\<close> retries left it fails only after \<open>n + 1\<close> media errors in a row.
\<close>

lemma sfs_rwblock_tries_read:
  assumes l: "lhd_wf l" and u: "uio_valid u" "uio_offset u = int b * 512" "uio_resid u = 512"
    and b: "b < length (lh_disk l)" and dir: "uio_dir u = UIO_READ" "uio_segflg u = UIO_SYSSPACE"
    and inv: "Some EINVAL \<notin> set (io_results (lh_codes l))"
  shows "wp (sfs_rwblock_tries n)
    (\<lambda>_ t. (\<exists>k \<le> n. take (Suc k) (io_results (lh_codes l) @ [None]) = replicate k (Some EIO) @ [None])
       \<and> lh_disk (fst t) = lh_disk l
       \<and> snd t = uio_moved 512 (mem_upd (iov_base u) (lh_disk l ! b) (uio_mem u)) u)
    (\<lambda>e t. e = EIO \<and> take (Suc n) (io_results (lh_codes l)) = replicate (Suc n) (Some EIO)
       \<and> lh_disk (fst t) = lh_disk l) (l, u)"
  using l b inv
proof (induction n arbitrary: l)
  case 0
  have r: "lhd_next l = Some e \<Longrightarrow> e = EIO \<and> take 1 (io_results (lh_codes l)) = [Some EIO]" for e
    using 0 lhd_next_results(1) [of l] io_results_range [of _ "lh_codes l"]
    by (auto split: list.splits)
  have r': "lhd_next l = None \<Longrightarrow> take 1 (io_results (lh_codes l) @ [None]) = [None]"
    using lhd_next_results(1) [of l] by (auto split: list.splits)
  show ?case unfolding sfs_rwblock_tries.simps wp_kbind wp_kattempt
    by (rule wp_mono [OF lhd_io_read [OF 0(1) u 0(2) dir(1)]])
      (use r r' dir(2) in \<open>auto simp: wps uio_fault_def\<close>)
next
  case (Suc n)
  show ?case unfolding sfs_rwblock_tries.simps wp_kbind wp_kattempt
  proof (rule wp_mono [OF lhd_io_read [OF Suc.prems(1) u Suc.prems(2) dir(1)]])
    fix x t
    assume t: "lhd_next l = None \<and> mapped (uio_mem u) (iov_base u) 512
       \<and> t = ((lhd_popped l)\<lparr>lh_buf := lh_disk l ! b\<rparr>,
             uio_moved 512 (mem_upd (iov_base u) (lh_disk l ! b) (uio_mem u)) u)"
    have r': "take 1 (io_results (lh_codes l) @ [None]) = [None]"
      using lhd_next_results(1) [of l] t by (auto split: list.splits)
    then show "wp (case Inr x of Inl e \<Rightarrow> if e = EINVAL then kpanic else if e = EIO then sfs_rwblock_tries n else kfail e
           | Inr _ \<Rightarrow> kret ())
      (\<lambda>_ t. (\<exists>k \<le> Suc n. take (Suc k) (io_results (lh_codes l) @ [None]) = replicate k (Some EIO) @ [None])
         \<and> lh_disk (fst t) = lh_disk l
         \<and> snd t = uio_moved 512 (mem_upd (iov_base u) (lh_disk l ! b) (uio_mem u)) u)
      (\<lambda>e t. e = EIO \<and> take (Suc (Suc n)) (io_results (lh_codes l)) = replicate (Suc (Suc n)) (Some EIO)
         \<and> lh_disk (fst t) = lh_disk l) t"
      using t by (simp add: wps) (rule exI [of _ 0], simp)
  next
    fix e t
    assume t: "lhd_next l = Some e \<and> t = (lhd_popped l, u)
      \<or> lhd_next l = None \<and> uio_fault u 512 e (snd t) \<and> fst t = (lhd_popped l)\<lparr>lh_buf := lh_disk l ! b\<rparr>"
    then have e: "lhd_next l = Some e" "t = (lhd_popped l, u)" using dir(2) by (auto simp: uio_fault_def)
    obtain rs where rs: "io_results (lh_codes l) = Some e # rs" "e = EIO"
      using e(1) Suc.prems(3) lhd_next_results(1) [of l] io_results_range [of e "lh_codes l"]
      by (auto split: list.splits)
    have rs': "io_results (lh_codes (lhd_popped l)) = rs" using rs lhd_next_results(2) [of l] by simp
    have ih: "wp (sfs_rwblock_tries n)
      (\<lambda>_ t. (\<exists>k \<le> n. take (Suc k) (rs @ [None]) = replicate k (Some EIO) @ [None])
         \<and> lh_disk (fst t) = lh_disk l
         \<and> snd t = uio_moved 512 (mem_upd (iov_base u) (lh_disk l ! b) (uio_mem u)) u)
      (\<lambda>e t. e = EIO \<and> take (Suc n) rs = replicate (Suc n) (Some EIO)
         \<and> lh_disk (fst t) = lh_disk l) (lhd_popped l, u)"
      using Suc.IH [of "lhd_popped l"] Suc.prems rs rs'
      by (simp add: lhd_wf_def)
    show "wp (case Inl e of Inl e \<Rightarrow> if e = EINVAL then kpanic else if e = EIO then sfs_rwblock_tries n else kfail e
           | Inr _ \<Rightarrow> kret ())
      (\<lambda>_ t. (\<exists>k \<le> Suc n. take (Suc k) (io_results (lh_codes l) @ [None]) = replicate k (Some EIO) @ [None])
         \<and> lh_disk (fst t) = lh_disk l
         \<and> snd t = uio_moved 512 (mem_upd (iov_base u) (lh_disk l ! b) (uio_mem u)) u)
      (\<lambda>e t. e = EIO \<and> take (Suc (Suc n)) (io_results (lh_codes l)) = replicate (Suc (Suc n)) (Some EIO)
         \<and> lh_disk (fst t) = lh_disk l) t"
      unfolding e(2) rs(2) sum.case using rs
      by simp (rule wp_mono [OF ih], auto intro: exI [of _ "Suc _"])
  qed
qed

text \<open>
  Property C38: reading a block survives media errors: \<open>sfs_rblock\<close> returns the contents of the
  sector, and leaves the disk as it is, unless the disk reports eleven media errors in a row (the
  first attempt and ten retries); only then does it return EIO.
\<close>

theorem sfs_rblock_retries:
  assumes "lhd_wf l" and "blk_ok l b" and "Some EINVAL \<notin> set (io_results (lh_codes l))"
  shows "wp (sfs_rblock b)
    (\<lambda>d l'. d = lh_disk l ! b \<and> lh_disk l' = lh_disk l
       \<and> (\<exists>k \<le> 10. take (Suc k) (io_results (lh_codes l) @ [None]) = replicate k (Some EIO) @ [None]))
    (\<lambda>e l'. e = EIO \<and> lh_disk l' = lh_disk l
       \<and> take 11 (io_results (lh_codes l)) = replicate 11 (Some EIO)) l"
proof -
  have b: "b < 4194303" "b < length (lh_disk l)" using assms(2) by (auto simp: blk_ok_def)
  have z: "length (replicate SFS_BLOCKSIZE 0) = 512" by (simp add: SFS_BLOCKSIZE_def)
  note u = SFSUIO_block [OF b(1) z, where rw = UIO_READ]
  have s: "length (lh_disk l ! b) = 512" by (rule lhd_wf_sector [OF assms(1) b(2)])
  have m: "mem_bytes (mem_upd 0 (lh_disk l ! b) m) 0 512 = lh_disk l ! b" for m
    using mem_bytes_upd [of 0 "lh_disk l ! b" m] s by simp
  have e: "Suc 10 = 11" by simp
  show ?thesis unfolding sfs_rblock_def wp_kbind wp_with_uio wp_kret sfs_rwblock_def
    by (rule wp_mono [OF sfs_rwblock_tries_read [OF assms(1) u(3,1,2) b(2) u(4,6) assms(3)]])
      (use u(5) m in \<open>simp_all only: e SFS_BLOCKSIZE_def fst_conv snd_conv uio_moved_simps\<close>)
qed

definition lhd_flaky :: lhd where
  "lhd_flaky = \<lparr>lh_disk = [replicate 512 7, replicate 512 8], lh_codes = [1, 20, 20], lh_buf = replicate 512 0\<rparr>"

lemma lhd_flaky_results: "io_results (lh_codes lhd_flaky) = [Some EIO, Some EIO]"
  by (simp add: lhd_flaky_def lhd_irq_def lhd_code_to_errno_def lhd_constants)

lemma lhd_flaky_wf: "lhd_wf lhd_flaky" "blk_ok lhd_flaky 1"
  by (simp_all add: lhd_flaky_def lhd_wf_def blk_ok_def)

theorem sfs_rblock_retries_witness:
  "wp (sfs_rblock 1)
    (\<lambda>d l'. d = lh_disk lhd_flaky ! 1 \<and> lh_disk l' = lh_disk lhd_flaky
       \<and> (\<exists>k \<le> 10. take (Suc k) (io_results (lh_codes lhd_flaky) @ [None]) = replicate k (Some EIO) @ [None]))
    (\<lambda>e l'. e = EIO \<and> lh_disk l' = lh_disk lhd_flaky
       \<and> take 11 (io_results (lh_codes lhd_flaky)) = replicate 11 (Some EIO)) lhd_flaky"
  by (rule sfs_rblock_retries [OF lhd_flaky_wf]) (simp add: lhd_flaky_results)

lemma lhd_io_empty:
  assumes "uio_offset u = int b * 512" and "uio_resid u = 0" and "b \<le> length (lh_disk l)"
    and "length (lh_disk l) < 4294967296"
  shows "lhd_io (l, u) = Done () (l, u)"
  using assms by (simp add: lhd_io_def LHD_SECTSIZE_def kbind_def kget_def kret_def)

text \<open>
  Property C39: writing a block does not survive a media error, and the error is not reported. When
  the disk answers the first attempt with a media error, \<open>sfs_wblock\<close> returns success although
  the sector was not written: \<open>lhd_io\<close> has already advanced the descriptor by a whole sector, so the
  retry in \<open>sfs_rwblock\<close> finds nothing left to transfer and succeeds at once.
\<close>

theorem sfs_wblock_media_error_lost:
  assumes "lhd_wf l" and "blk_ok l b" and "length data = 512"
    and "io_results (lh_codes l) = Some EIO # rs"
  shows "\<exists>l'. sfs_wblock data b l = Done () l' \<and> lh_disk l' = lh_disk l"
proof -
  have b: "b < 4194303" "b < length (lh_disk l)" using assms(2) by (auto simp: blk_ok_def)
  note u = SFSUIO_block [OF b(1) assms(3), where rw = UIO_WRITE]
  have nx: "lhd_next l = Some EIO" using lhd_next_results(1) [of l] assms(4) by simp
  let ?u = "SFSUIO data b UIO_WRITE"
  let ?u' = "uio_moved 512 (uio_mem ?u) ?u"
  let ?l = "(lhd_popped l)\<lparr>lh_buf := mem_bytes (uio_mem ?u) (iov_base ?u) 512\<rparr>"
  have "wp lhd_io (\<lambda>_ _. False) (\<lambda>e t. e = EIO \<and> t = (?l, ?u')) (l, ?u)"
    by (rule wp_mono [OF lhd_io_write [OF assms(1) u(3,1,2) b(2) u(4)]])
      (use nx u in \<open>auto simp: uio_fault_def\<close>)
  then have one: "lhd_io (l, ?u) = Fail EIO (?l, ?u')"
    by (auto simp: wp_def split: outcome.splits)
  have two: "lhd_io (?l, ?u') = Done () (?l, ?u')"
    using u b assms(1) by (intro lhd_io_empty [of _ "Suc b"]) (simp_all add: lhd_wf_def)
  have "sfs_rwblock (l, ?u) = Done () (?l, ?u')"
    unfolding sfs_rwblock_def using one two
    by (simp add: eval_nat_numeral kbind_def kattempt_def kret_def)
  then have "sfs_wblock data b l = Done () ?l" by (simp add: sfs_wblock_def with_uio_def kbind_def kret_def)
  then show ?thesis by (intro exI [of _ ?l]) simp
qed

theorem sfs_wblock_media_error_lost_witness:
  "\<exists>l'. sfs_wblock (replicate 512 1) 1 lhd_flaky = Done () l' \<and> lh_disk l' = lh_disk lhd_flaky"
  by (rule sfs_wblock_media_error_lost [OF lhd_flaky_wf _ lhd_flaky_results]) simp

end
