(* ===== verification/SfsDisk.thy ===== *)
theory SfsDisk
  imports Lhd
begin

text \<open>
  The on-disk structures of sfs, kern/include/kern/sfs.h. The kernel reads and writes them by
  transferring the memory of the C structs; the machine is big-endian, so \<open>enc_\<close> lays a struct out
  as the bytes of its memory and \<open>dec_\<close> reads a struct off 512 (or 64) bytes. The code has no such
  functions: they write down the layout the C compiler gives to the structs of sfs.h, and that they are
  inverse to each other is a fact of this model, not a property of the program.
\<close>

section \<open>The structures\<close>

definition SFS_MAGIC :: nat where "SFS_MAGIC = 0xabadf001"
definition SFS_NDIRECT :: nat where "SFS_NDIRECT = 15"
definition SFS_DBPERIDB :: nat where "SFS_DBPERIDB = 128"
definition SFS_NAMELEN :: nat where "SFS_NAMELEN = 60"
definition SFS_SB_LOCATION :: nat where "SFS_SB_LOCATION = 0"
definition SFS_ROOT_LOCATION :: nat where "SFS_ROOT_LOCATION = 1"
definition SFS_MAP_LOCATION :: nat where "SFS_MAP_LOCATION = 2"
definition SFS_NOINO :: nat where "SFS_NOINO = 0"
definition SFS_BLOCKBITS :: nat where "SFS_BLOCKBITS = SFS_BLOCKSIZE * 8"
definition SFS_TYPE_INVAL :: nat where "SFS_TYPE_INVAL = 0"
definition SFS_TYPE_FILE :: nat where "SFS_TYPE_FILE = 1"
definition SFS_TYPE_DIR :: nat where "SFS_TYPE_DIR = 2"

lemmas sfs_constants = SFS_BLOCKSIZE_def SFS_NDIRECT_def SFS_DBPERIDB_def SFS_NAMELEN_def
  SFS_SB_LOCATION_def SFS_ROOT_LOCATION_def SFS_MAP_LOCATION_def SFS_NOINO_def SFS_BLOCKBITS_def
  SFS_TYPE_INVAL_def SFS_TYPE_FILE_def SFS_TYPE_DIR_def

text \<open>The size macros, with the 32-bit sum written out.\<close>

definition SFS_BITMAPSIZE :: "nat \<Rightarrow> nat" where
  "SFS_BITMAPSIZE nblocks = u32 (u32 (nblocks + SFS_BLOCKBITS - 1) div SFS_BLOCKBITS * SFS_BLOCKBITS)"

definition SFS_BITBLOCKS :: "nat \<Rightarrow> nat" where
  "SFS_BITBLOCKS nblocks = SFS_BITMAPSIZE nblocks div SFS_BLOCKBITS"

record sfs_super =
  sp_magic :: nat
  sp_nblocks :: nat
  sp_volname :: "byte list"
  sp_reserved :: "nat list"

record sfs_inode =
  sfi_size :: nat
  sfi_type :: nat
  sfi_linkcount :: nat
  sfi_direct :: "nat list"
  sfi_indirect :: nat
  sfi_waste :: "nat list"

record sfs_dir =
  sfd_ino :: nat
  sfd_name :: "byte list"

section \<open>Bytes of integers\<close>

definition be16 :: "nat \<Rightarrow> byte list" where
  "be16 n = [word_of_nat (n div 256), word_of_nat n]"

definition be32 :: "nat \<Rightarrow> byte list" where
  "be32 n = [word_of_nat (n div 16777216), word_of_nat (n div 65536), word_of_nat (n div 256), word_of_nat n]"

definition of_be :: "byte list \<Rightarrow> nat" where
  "of_be bs = foldl (\<lambda>n b. n * 256 + unat b) 0 bs"

lemma unat_byte: "unat (word_of_nat n :: byte) = n mod 256"
  by (simp add: unat_of_nat)

lemma unat_byte_lt: "unat (b :: byte) < 256"
  using unsigned_less [where ?'a = nat, of b] by simp

lemma word_unat_byte: "word_of_nat (unat b + 256 * k) = (b :: byte)"
proof -
  have z: "(256 :: byte) = 0" by simp
  have "word_of_nat (unat b + 256 * k) = b + (256 :: byte) * word_of_nat k" by simp
  also have "\<dots> = b" by (simp only: z mult_zero_left add_0_right)
  finally show ?thesis .
qed

lemma byte_digits:
  "(n :: nat) div 65536 = n div 256 div 256" "n div 16777216 = n div 256 div 256 div 256"
  by (simp_all add: div_mult2_eq [symmetric])

lemma byte_cons_div: "d < 256 \<Longrightarrow> (d + 256 * x) div 256 = (x :: nat)"
  by simp

lemma of_be16: "n < 65536 \<Longrightarrow> of_be (be16 n) = n"
  by (simp add: of_be_def be16_def unat_byte)

lemma of_be32: "n < 4294967296 \<Longrightarrow> of_be (be32 n) = n"
proof -
  assume n: "n < 4294967296"
  define q1 q2 q3 where "q1 = n div 256" and "q2 = q1 div 256" and "q3 = q2 div 256"
  have "q3 < 256" using n unfolding q1_def q2_def q3_def by (simp add: div_mult2_eq [symmetric] less_mult_imp_div_less)
  moreover have "n = q1 * 256 + n mod 256" "q1 = q2 * 256 + q1 mod 256" "q2 = q3 * 256 + q2 mod 256"
    unfolding q1_def q2_def q3_def by simp_all
  moreover have "of_be (be32 n) = ((q3 mod 256 * 256 + q2 mod 256) * 256 + q1 mod 256) * 256 + n mod 256"
    unfolding of_be_def be32_def byte_digits by (simp add: unat_byte q1_def q2_def q3_def)
  ultimately show ?thesis by (simp add: mod_less)
qed

lemma be16_length [simp]: "length (be16 n) = 2" and be32_length [simp]: "length (be32 n) = 4"
  by (simp_all add: be16_def be32_def)

lemma of_be_bound: "of_be bs < 256 ^ length bs"
proof (induction bs rule: rev_induct)
  case (snoc b bs)
  have "of_be (bs @ [b]) = of_be bs * 256 + unat b" by (simp add: of_be_def)
  then show ?case using snoc unat_byte_lt [of b] by simp
qed (simp add: of_be_def)

lemma be16_of: "length bs = 2 \<Longrightarrow> be16 (of_be bs) = bs"
proof -
  assume "length bs = 2"
  then obtain a b where bs: "bs = [a, b]" by (auto simp: length_Suc_conv numeral_2_eq_2)
  have "of_be bs = unat b + 256 * unat a" by (simp add: bs of_be_def)
  then show ?thesis using word_unat_byte [of b "unat a"] unat_byte_lt [of b]
    by (simp add: be16_def bs)
qed

lemma be32_of: "length bs = 4 \<Longrightarrow> be32 (of_be bs) = bs"
proof -
  assume "length bs = 4"
  then obtain a b c d where bs: "bs = [a, b, c, d]"
    by (auto simp: length_Suc_conv eval_nat_numeral)
  let ?a = "unat a" and ?b = "unat b" and ?c = "unat c" and ?d = "unat d"
  have n: "of_be bs = ?d + 256 * (?c + 256 * (?b + 256 * ?a))" by (simp add: bs of_be_def)
  have q: "of_be bs div 256 = ?c + 256 * (?b + 256 * ?a)"
    "of_be bs div 65536 = ?b + 256 * ?a" "of_be bs div 16777216 = ?a"
    unfolding byte_digits n
    by (simp_all only: byte_cons_div [OF unat_byte_lt])
  show ?thesis unfolding be32_def q unfolding n unfolding bs by (simp only: word_unat_byte) simp
qed

text \<open>Arrays of \<open>u_int32_t\<close>.\<close>

definition enc_u32s :: "nat list \<Rightarrow> byte list" where
  "enc_u32s ns = concat (map be32 ns)"

primrec dec_u32s :: "nat \<Rightarrow> byte list \<Rightarrow> nat list" where
  "dec_u32s 0 bs = []"
| "dec_u32s (Suc n) bs = of_be (take 4 bs) # dec_u32s n (drop 4 bs)"

lemma enc_u32s_length [simp]: "length (enc_u32s ns) = 4 * length ns"
  by (induction ns) (simp_all add: enc_u32s_def)

lemma dec_u32s_length [simp]: "length (dec_u32s n bs) = n"
  by (induction n arbitrary: bs) simp_all

lemma dec_enc_u32s: "\<forall>x \<in> set ns. x < 4294967296 \<Longrightarrow> dec_u32s (length ns) (enc_u32s ns @ r) = ns"
  by (induction ns) (simp_all add: enc_u32s_def of_be32)

lemma dec_enc_u32s': "\<forall>x \<in> set ns. x < 4294967296 \<Longrightarrow> length ns = n \<Longrightarrow> dec_u32s n (enc_u32s ns) = ns"
  using dec_enc_u32s [of ns "[]"] by simp

lemma enc_dec_u32s: "length bs = 4 * n \<Longrightarrow> enc_u32s (dec_u32s n bs) = bs"
proof (induction n arbitrary: bs)
  case (Suc n)
  have "be32 (of_be (take 4 bs)) = take 4 bs" using Suc.prems by (intro be32_of) simp
  then show ?case using Suc by (simp add: enc_u32s_def)
qed (simp add: enc_u32s_def)

lemma dec_u32s_bound: "x \<in> set (dec_u32s n bs) \<Longrightarrow> x < 4294967296"
proof (induction n arbitrary: bs)
  case (Suc n)
  have "of_be (take 4 bs) < 256 ^ length (take 4 bs)" by (rule of_be_bound)
  also have "\<dots> \<le> 256 ^ 4" by (rule power_increasing) simp_all
  finally show ?case using Suc by auto
qed simp

section \<open>Memory layout of the structures\<close>

definition enc_inode :: "sfs_inode \<Rightarrow> byte list" where
  "enc_inode i = be32 (sfi_size i) @ be16 (sfi_type i) @ be16 (sfi_linkcount i)
     @ enc_u32s (sfi_direct i) @ be32 (sfi_indirect i) @ enc_u32s (sfi_waste i)"

definition dec_inode :: "byte list \<Rightarrow> sfs_inode" where
  "dec_inode bs = \<lparr>sfi_size = of_be (take 4 bs), sfi_type = of_be (take 2 (drop 4 bs)),
     sfi_linkcount = of_be (take 2 (drop 6 bs)), sfi_direct = dec_u32s 15 (take 60 (drop 8 bs)),
     sfi_indirect = of_be (take 4 (drop 68 bs)), sfi_waste = dec_u32s 110 (drop 72 bs)\<rparr>"

definition enc_super :: "sfs_super \<Rightarrow> byte list" where
  "enc_super s = be32 (sp_magic s) @ be32 (sp_nblocks s) @ sp_volname s @ enc_u32s (sp_reserved s)"

definition dec_super :: "byte list \<Rightarrow> sfs_super" where
  "dec_super bs = \<lparr>sp_magic = of_be (take 4 bs), sp_nblocks = of_be (take 4 (drop 4 bs)),
     sp_volname = take 32 (drop 8 bs), sp_reserved = dec_u32s 118 (drop 40 bs)\<rparr>"

definition enc_dir :: "sfs_dir \<Rightarrow> byte list" where
  "enc_dir d = be32 (sfd_ino d) @ sfd_name d"

definition dec_dir :: "byte list \<Rightarrow> sfs_dir" where
  "dec_dir bs = \<lparr>sfd_ino = of_be (take 4 bs), sfd_name = drop 4 bs\<rparr>"

text \<open>The fields have the sizes of their C types.\<close>

definition inode_fits :: "sfs_inode \<Rightarrow> bool" where
  "inode_fits i \<longleftrightarrow> sfi_size i < 4294967296 \<and> sfi_type i < 65536 \<and> sfi_linkcount i < 65536
     \<and> length (sfi_direct i) = 15 \<and> (\<forall>x \<in> set (sfi_direct i). x < 4294967296)
     \<and> sfi_indirect i < 4294967296
     \<and> length (sfi_waste i) = 110 \<and> (\<forall>x \<in> set (sfi_waste i). x < 4294967296)"

definition super_fits :: "sfs_super \<Rightarrow> bool" where
  "super_fits s \<longleftrightarrow> sp_magic s < 4294967296 \<and> sp_nblocks s < 4294967296 \<and> length (sp_volname s) = 32
     \<and> length (sp_reserved s) = 118 \<and> (\<forall>x \<in> set (sp_reserved s). x < 4294967296)"

definition dir_fits :: "sfs_dir \<Rightarrow> bool" where
  "dir_fits d \<longleftrightarrow> sfd_ino d < 4294967296 \<and> length (sfd_name d) = 60"

lemma enc_inode_length: "inode_fits i \<Longrightarrow> length (enc_inode i) = 512"
  by (simp add: enc_inode_def inode_fits_def)

lemma enc_dir_length: "dir_fits d \<Longrightarrow> length (enc_dir d) = 64"
  by (simp add: enc_dir_def dir_fits_def)

lemma enc_super_length: "super_fits s \<Longrightarrow> length (enc_super s) = 512"
  by (simp add: enc_super_def super_fits_def)

lemma dec_enc_inode: "inode_fits i \<Longrightarrow> dec_inode (enc_inode i) = i"
  by (simp add: dec_inode_def enc_inode_def inode_fits_def of_be32 of_be16 dec_enc_u32s')

lemma dec_enc_dir: "dir_fits d \<Longrightarrow> dec_dir (enc_dir d) = d"
  by (simp add: dec_dir_def enc_dir_def dir_fits_def of_be32)

lemma dec_enc_super: "super_fits s \<Longrightarrow> dec_super (enc_super s) = s"
  by (simp add: dec_super_def enc_super_def super_fits_def of_be32 dec_enc_u32s')

lemma of_be_take: "of_be (take k bs) < 256 ^ k"
proof -
  have "of_be (take k bs) < 256 ^ length (take k bs)" by (rule of_be_bound)
  also have "\<dots> \<le> 256 ^ k" by (rule power_increasing) simp_all
  finally show ?thesis .
qed

lemma dec_inode_fits: "inode_fits (dec_inode bs)"
  using of_be_take [of 4] of_be_take [of 2] dec_u32s_bound
  by (auto simp: inode_fits_def dec_inode_def)

lemma dec_dir_fits: "length bs = 64 \<Longrightarrow> dir_fits (dec_dir bs)"
  using of_be_take [of 4 bs] by (simp add: dir_fits_def dec_dir_def)

lemma enc_dec_dir: "length bs = 64 \<Longrightarrow> enc_dir (dec_dir bs) = bs"
  by (simp add: enc_dir_def dec_dir_def be32_of)

lemma split_at: "take (k - i) (drop i bs) @ drop k bs = drop i bs" if "i \<le> k"
proof -
  have "drop k bs = drop (k - i) (drop i bs)" using that by simp
  then show ?thesis by (metis append_take_drop_id)
qed

lemma enc_dec_inode:
  assumes "length bs = 512"
  shows "enc_inode (dec_inode bs) = bs"
proof -
  have d: "enc_u32s (dec_u32s 15 (take 60 (drop 8 bs))) = take 60 (drop 8 bs)"
    "enc_u32s (dec_u32s 110 (drop 72 bs)) = drop 72 bs"
    using assms by (simp_all add: enc_dec_u32s)
  have b: "be32 (of_be (take 4 bs)) = take 4 bs" "be16 (of_be (take 2 (drop 4 bs))) = take 2 (drop 4 bs)"
    "be16 (of_be (take 2 (drop 6 bs))) = take 2 (drop 6 bs)"
    "be32 (of_be (take 4 (drop 68 bs))) = take 4 (drop 68 bs)"
    using assms by (simp_all add: be32_of be16_of)
  show ?thesis
    using split_at [of 68 72 bs] split_at [of 8 68 bs] split_at [of 6 8 bs] split_at [of 4 6 bs]
    by (simp add: enc_inode_def dec_inode_def d b)
qed

text \<open>Both directions together.\<close>

lemma sfs_structures_roundtrip:
  "inode_fits i \<Longrightarrow> length (enc_inode i) = SFS_BLOCKSIZE \<and> dec_inode (enc_inode i) = i"
  "super_fits s \<Longrightarrow> length (enc_super s) = SFS_BLOCKSIZE \<and> dec_super (enc_super s) = s"
  "dir_fits d \<Longrightarrow> length (enc_dir d) = 64 \<and> dec_dir (enc_dir d) = d"
  "length bs = SFS_BLOCKSIZE \<Longrightarrow> inode_fits (dec_inode bs) \<and> enc_inode (dec_inode bs) = bs"
  using enc_inode_length dec_enc_inode enc_super_length dec_enc_super enc_dir_length dec_enc_dir
    dec_inode_fits enc_dec_inode by (simp_all add: SFS_BLOCKSIZE_def)

end
