(* ===== verification/SfsAlloc.thy ===== *)
theory SfsAlloc
  imports SfsDisk KArray KBitmap
begin

text \<open>
  The state of a mounted sfs, and the block allocation and block mapping of
  kern/fs/sfs/sfs_vnode.c.

  A vnode is named by the address of its \<open>struct sfs_vnode\<close>; \<open>sv_heap\<close> maps the addresses in use
  to the structures. Calls of \<open>kmalloc\<close> take their outcome from the list \<open>kmem\<close> (and succeed once
  it is used up).
\<close>

section \<open>The state\<close>

text \<open>The two tables of vnode operations.\<close>

datatype sfs_ops = sfs_fileops | sfs_dirops

record sfs_vnode =
  vn_refcount :: int
  vn_opencount :: int
  vn_ops :: "sfs_ops option"   \<comment> \<open>\<open>None\<close> is NULL\<close>
  sv_i :: sfs_inode
  sv_ino :: nat
  sv_dirty :: bool

record sfs_fs =
  sfs_super :: sfs_super
  sfs_superdirty :: bool
  sfs_device :: lhd
  sfs_vnodes :: "nat karray"
  sfs_freemap :: bitmap
  sfs_freemapdirty :: bool
  sv_heap :: "nat \<Rightarrow> sfs_vnode option"
  kmem :: "bool list"

definition on_device :: "(lhd, 'a) op \<Rightarrow> (sfs_fs, 'a) op" where
  "on_device m = kzoom sfs_device (\<lambda>d s. s\<lparr>sfs_device := d\<rparr>) m"

definition on_freemap :: "(bitmap, 'a) op \<Rightarrow> (sfs_fs, 'a) op" where
  "on_freemap m = kzoom sfs_freemap (\<lambda>b s. s\<lparr>sfs_freemap := b\<rparr>) m"

text \<open>Reading and writing the structure at an address; a dangling pointer stops the model.\<close>

definition sv_get :: "nat \<Rightarrow> (sfs_fs, sfs_vnode) op" where
  "sv_get sv = (\<lambda>s. case sv_heap s sv of None \<Rightarrow> Panic | Some v \<Rightarrow> Done v s)"

definition sv_upd :: "nat \<Rightarrow> (sfs_vnode \<Rightarrow> sfs_vnode) \<Rightarrow> (sfs_fs, unit) op" where
  "sv_upd sv f = (\<lambda>s. case sv_heap s sv of None \<Rightarrow> Panic
      | Some v \<Rightarrow> Done () (s\<lparr>sv_heap := (sv_heap s)(sv \<mapsto> f v)\<rparr>))"

section \<open>Space allocation\<close>

definition sfs_clearblock :: "nat \<Rightarrow> (sfs_fs, unit) op" where
  "sfs_clearblock block = on_device (sfs_wblock (replicate SFS_BLOCKSIZE 0) block)"

definition sfs_sync_inode :: "nat \<Rightarrow> (sfs_fs, unit) op" where
  "sfs_sync_inode sv =
     kbind (sv_get sv) (\<lambda>v.
     kwhen (sv_dirty v)
       (kbind (on_device (sfs_wblock (enc_inode (sv_i v)) (sv_ino v))) (\<lambda>_.
        sv_upd sv (\<lambda>v. v\<lparr>sv_dirty := False\<rparr>))))"

definition sfs_balloc :: "(sfs_fs, nat) op" where
  "sfs_balloc =
     kbind (on_freemap bitmap_alloc) (\<lambda>diskblock.
     kbind (kmodify (\<lambda>s. s\<lparr>sfs_freemapdirty := True\<rparr>)) (\<lambda>_.
     kbind (kget (sp_nblocks \<circ> sfs_super)) (\<lambda>nblocks.
     if diskblock \<ge> nblocks then kpanic
     else kbind (sfs_clearblock diskblock) (\<lambda>_. kret diskblock))))"

definition sfs_bfree :: "nat \<Rightarrow> (sfs_fs, unit) op" where
  "sfs_bfree diskblock =
     kbind (on_freemap (bitmap_unmark diskblock)) (\<lambda>_.
     kmodify (\<lambda>s. s\<lparr>sfs_freemapdirty := True\<rparr>))"

definition sfs_bused :: "nat \<Rightarrow> (sfs_fs, bool) op" where
  "sfs_bused diskblock =
     kbind (kget (sp_nblocks \<circ> sfs_super)) (\<lambda>nblocks.
     if diskblock \<ge> nblocks then kpanic
     else on_freemap (bitmap_isset diskblock))"

section \<open>Block mapping\<close>

text \<open>The check at both ends of \<open>sfs_bmap\<close>, and handing back the block.\<close>

definition bmap_done :: "nat \<Rightarrow> (sfs_fs, nat) op" where
  "bmap_done block =
     (if block \<noteq> 0 then kbind (sfs_bused block) (\<lambda>used. if \<not> used then kpanic else kret block)
      else kret block)"

text \<open>The last part of \<open>sfs_bmap\<close>, with the indirect block number and its contents at hand.\<close>

definition bmap_entry :: "nat \<Rightarrow> bool \<Rightarrow> nat \<times> nat list \<Rightarrow> (sfs_fs, nat) op" where
  "bmap_entry idoff doalloc ib =
     (let idblock = fst ib; idbuf = snd ib; block = idbuf ! idoff in
      kbind (if block = 0 \<and> doalloc then
               kbind sfs_balloc (\<lambda>block.
               kbind (on_device (sfs_wblock (enc_u32s (idbuf[idoff := block])) idblock)) (\<lambda>_.
               kret block))
             else kret block) bmap_done)"

definition sfs_bmap :: "nat \<Rightarrow> nat \<Rightarrow> bool \<Rightarrow> (sfs_fs, nat) op" where
  "sfs_bmap sv fileblock doalloc =
     kbind (sv_get sv) (\<lambda>v.
     if fileblock < SFS_NDIRECT then
       let block = sfi_direct (sv_i v) ! fileblock in
       kbind (if block = 0 \<and> doalloc then
                kbind sfs_balloc (\<lambda>block.
                kbind (sv_upd sv (\<lambda>v. v\<lparr>sv_i := (sv_i v)\<lparr>sfi_direct := (sfi_direct (sv_i v))[fileblock := block]\<rparr>,
                                        sv_dirty := True\<rparr>)) (\<lambda>_.
                kret block))
              else kret block) bmap_done
     else
       let fileblock = fileblock - SFS_NDIRECT;
           idnum = fileblock div SFS_DBPERIDB;
           idoff = fileblock mod SFS_DBPERIDB;
           idblock = sfi_indirect (sv_i v) in
       if idnum > 0 then kfail EINVAL
       else if idblock = 0 \<and> \<not> doalloc then kret 0
       else
         kbind (if idblock = 0 then
                  kbind sfs_balloc (\<lambda>idblock.
                  kbind (sv_upd sv (\<lambda>v. v\<lparr>sv_i := (sv_i v)\<lparr>sfi_indirect := idblock\<rparr>, sv_dirty := True\<rparr>)) (\<lambda>_.
                  kret (idblock, replicate SFS_DBPERIDB 0)))
                else
                  kbind (on_device (sfs_rblock idblock)) (\<lambda>data.
                  kret (idblock, dec_u32s SFS_DBPERIDB data))) (bmap_entry idoff doalloc))"

section \<open>The file system's invariant\<close>

definition disk :: "sfs_fs \<Rightarrow> byte list list" where
  "disk s = lh_disk (sfs_device s)"

definition used :: "sfs_fs \<Rightarrow> nat set" where
  "used s = bitmap_used (sfs_freemap s)"

definition nblocks :: "sfs_fs \<Rightarrow> nat" where
  "nblocks s = sp_nblocks (sfs_super s)"

definition zeros :: "byte list" where
  "zeros = replicate 512 0"

text \<open>
  \<open>fs_wf\<close>: the disk is sound and large enough for the file system, and reports no errors; the free
  map is well-formed, marks everything past the last block, and marks the superblock.
\<close>

definition fs_wf :: "sfs_fs \<Rightarrow> bool" where
  "fs_wf s \<longleftrightarrow> lhd_wf (sfs_device s) \<and> lhd_good (sfs_device s) \<and> bitmap_wf (sfs_freemap s)
     \<and> nblocks s \<le> length (disk s) \<and> nblocks s \<le> 4194303 \<and> nblocks s \<le> nbits (sfs_freemap s)
     \<and> {nblocks s..<nbits (sfs_freemap s)} \<subseteq> used s \<and> 0 \<in> used s"

text \<open>The part of the state that allocation and file input and output never touch.\<close>

definition fs_same :: "sfs_fs \<Rightarrow> sfs_fs \<Rightarrow> bool" where
  "fs_same s s' \<longleftrightarrow> sfs_super s' = sfs_super s \<and> sfs_superdirty s' = sfs_superdirty s
     \<and> sfs_vnodes s' = sfs_vnodes s \<and> kmem s' = kmem s \<and> length (disk s') = length (disk s)
     \<and> nbits (sfs_freemap s') = nbits (sfs_freemap s)"

lemma fs_same_refl [simp]: "fs_same s s"
  by (simp add: fs_same_def)

lemma fs_same_trans: "fs_same s t \<Longrightarrow> fs_same t u \<Longrightarrow> fs_same s u"
  by (simp add: fs_same_def)

lemma fs_same_nblocks: "fs_same s s' \<Longrightarrow> nblocks s' = nblocks s"
  by (simp add: fs_same_def nblocks_def)

lemma fs_wf_blk: "fs_wf s \<Longrightarrow> b < nblocks s \<Longrightarrow> blk_ok (sfs_device s) b"
  by (simp add: fs_wf_def blk_ok_def disk_def)

lemma fs_wf_block_length: "fs_wf s \<Longrightarrow> b < nblocks s \<Longrightarrow> length (disk s ! b) = 512"
  unfolding disk_def by (rule lhd_wf_sector) (simp_all add: fs_wf_def disk_def)

lemma disk_simps [simp]:
  "disk (s\<lparr>sv_heap := h\<rparr>) = disk s" "disk (s\<lparr>sfs_freemap := m\<rparr>) = disk s"
  "disk (s\<lparr>sfs_freemapdirty := x\<rparr>) = disk s" "disk (s\<lparr>sfs_vnodes := a\<rparr>) = disk s"
  "disk (s\<lparr>kmem := k\<rparr>) = disk s" "disk (s\<lparr>sfs_device := l\<rparr>) = lh_disk l"
  "used (s\<lparr>sv_heap := h\<rparr>) = used s" "used (s\<lparr>sfs_device := l\<rparr>) = used s"
  "used (s\<lparr>sfs_freemapdirty := x\<rparr>) = used s" "used (s\<lparr>sfs_vnodes := a\<rparr>) = used s"
  "used (s\<lparr>kmem := k\<rparr>) = used s" "used (s\<lparr>sfs_freemap := m\<rparr>) = bitmap_used m"
  "nblocks (s\<lparr>sv_heap := h\<rparr>) = nblocks s" "nblocks (s\<lparr>sfs_device := l\<rparr>) = nblocks s"
  "nblocks (s\<lparr>sfs_freemapdirty := x\<rparr>) = nblocks s" "nblocks (s\<lparr>sfs_freemap := m\<rparr>) = nblocks s"
  "nblocks (s\<lparr>sfs_vnodes := a\<rparr>) = nblocks s" "nblocks (s\<lparr>kmem := k\<rparr>) = nblocks s"
  by (simp_all add: disk_def used_def nblocks_def)

lemma fs_wf_heap [simp]: "fs_wf (s\<lparr>sv_heap := h\<rparr>) = fs_wf s"
  by (simp add: fs_wf_def)

lemma fs_same_heap [simp]: "fs_same s (s'\<lparr>sv_heap := h\<rparr>) = fs_same s s'"
  by (simp add: fs_same_def)

text \<open>Reading and writing a block of the file system.\<close>

lemma rblock_wp:
  assumes "fs_wf s" and "b < nblocks s"
  shows "wp (on_device (sfs_rblock b))
    (\<lambda>d s'. d = disk s ! b \<and> fs_wf s' \<and> fs_same s s' \<and> disk s' = disk s \<and> used s' = used s
       \<and> sv_heap s' = sv_heap s) (\<lambda>_ _. False) s"
  unfolding on_device_def wp_kzoom
  by (rule wp_mono [OF sfs_rblock_wp])
    (use assms fs_wf_blk [OF assms] in \<open>auto simp: fs_wf_def fs_same_def disk_def\<close>)

lemma wblock_wp:
  assumes "fs_wf s" and "b < nblocks s" and "length data = 512"
  shows "wp (on_device (sfs_wblock data b))
    (\<lambda>_ s'. fs_wf s' \<and> fs_same s s' \<and> disk s' = (disk s)[b := data] \<and> used s' = used s
       \<and> sv_heap s' = sv_heap s) (\<lambda>_ _. False) s"
  unfolding on_device_def wp_kzoom
  by (rule wp_mono [OF sfs_wblock_wp])
    (use assms fs_wf_blk [OF assms(1,2)] in \<open>auto simp: fs_wf_def fs_same_def disk_def\<close>)

lemma sfs_balloc_wp:
  assumes wf: "fs_wf s"
  shows "wp sfs_balloc
    (\<lambda>b s'. fs_wf s' \<and> fs_same s s' \<and> b \<notin> used s \<and> b < nblocks s \<and> b \<noteq> 0 \<and> used s' = insert b (used s)
       \<and> disk s' = (disk s)[b := zeros] \<and> sv_heap s' = sv_heap s)
    (\<lambda>e s'. e = ENOSPC \<and> s' = s \<and> {..<nblocks s} \<subseteq> used s) s"
  unfolding sfs_balloc_def on_freemap_def wps comp_def
proof (rule wp_mono [OF bmap.alloc_law [of "sfs_freemap s"]])
  fix b m
  let ?s = "s\<lparr>sfs_freemap := m, sfs_freemapdirty := True\<rparr>"
  assume m: "bitmap_wf m \<and> nbits m = nbits (sfs_freemap s) \<and> b < nbits (sfs_freemap s)
    \<and> b \<notin> bitmap_used (sfs_freemap s) \<and> {..<b} \<subseteq> bitmap_used (sfs_freemap s)
    \<and> bitmap_used m = insert b (bitmap_used (sfs_freemap s))"
  then have b: "b < nblocks s" "b \<noteq> 0" "b \<notin> used s"
    using wf by (auto simp: fs_wf_def used_def) (meson atLeastLessThan_iff not_le subsetD)
  have wf': "fs_wf ?s" using wf m by (auto simp: fs_wf_def used_def)
  have "b < nblocks ?s" using b by simp
  have "length (replicate SFS_BLOCKSIZE (0::byte)) = 512" by (simp add: SFS_BLOCKSIZE_def)
  note w = wblock_wp [OF wf' \<open>b < nblocks ?s\<close> this]
  have z: "replicate SFS_BLOCKSIZE 0 = zeros" by (simp add: SFS_BLOCKSIZE_def zeros_def)
  have "wp (sfs_clearblock b) (\<lambda>_. (\<lambda>s'. fs_wf s' \<and> fs_same s s' \<and> b \<notin> used s \<and> b < nblocks s \<and> b \<noteq> 0
       \<and> used s' = insert b (used s) \<and> disk s' = (disk s)[b := zeros] \<and> sv_heap s' = sv_heap s))
     (\<lambda>e s'. e = ENOSPC \<and> s' = s \<and> {..<nblocks s} \<subseteq> used s) ?s"
    unfolding sfs_clearblock_def
    by (rule wp_mono [OF w]) (use b m in \<open>auto simp: fs_same_def used_def z\<close>)
  then show "(if sp_nblocks (sfs_super (s\<lparr>sfs_freemap := m\<rparr>\<lparr>sfs_freemapdirty := True\<rparr>)) \<le> b
      then \<lambda>s. False else wp (sfs_clearblock b) (\<lambda>_ s'. fs_wf s' \<and> fs_same s s' \<and> b \<notin> used s
       \<and> b < nblocks s \<and> b \<noteq> 0 \<and> used s' = insert b (used s) \<and> disk s' = (disk s)[b := zeros]
       \<and> sv_heap s' = sv_heap s) (\<lambda>e s'. e = ENOSPC \<and> s' = s \<and> {..<nblocks s} \<subseteq> used s))
      (s\<lparr>sfs_freemap := m\<rparr>\<lparr>sfs_freemapdirty := True\<rparr>)"
    using b(1) by (simp add: nblocks_def)
next
  fix e m
  assume "e = ENOSPC \<and> m = sfs_freemap s \<and> bitmap_used (sfs_freemap s) = {..<nbits (sfs_freemap s)}"
  then show "e = ENOSPC \<and> s\<lparr>sfs_freemap := m\<rparr> = s \<and> {..<nblocks s} \<subseteq> used s"
    using wf by (auto simp: fs_wf_def used_def)
qed (use wf in \<open>simp add: fs_wf_def\<close>)

lemma sfs_bused_eq:
  assumes "fs_wf s" and "b < nblocks s"
  shows "sfs_bused b s = Done (b \<in> used s) s"
proof -
  have "bitmap_isset b (sfs_freemap s) = Done (b \<in> used s) (sfs_freemap s)"
    unfolding used_def by (rule bitmap_isset_eq) (use assms in \<open>auto simp: fs_wf_def\<close>)
  then show ?thesis using assms(2)
    by (simp add: sfs_bused_def on_freemap_def kzoom_def kbind_def kget_def nblocks_def)
qed

lemma bmap_done_eq:
  assumes "fs_wf s" and "b = 0 \<or> b < nblocks s \<and> b \<in> used s"
  shows "bmap_done b s = Done b s"
  using assms sfs_bused_eq [of s b] by (auto simp: bmap_done_def kbind_def kret_def)

lemma wp_sv_get: "sv_heap s p = Some v \<Longrightarrow> wp (sv_get p) Q R s = Q v s"
  by (simp add: wp_def sv_get_def)

lemma wp_sv_upd: "sv_heap s p = Some v \<Longrightarrow> wp (sv_upd p f) Q R s = Q () (s\<lparr>sv_heap := (sv_heap s)(p \<mapsto> f v)\<rparr>)"
  by (simp add: wp_def sv_upd_def)

section \<open>The blocks of a file\<close>

text \<open>
  \<open>fmap i d fb\<close>: the disk block of block \<open>fb\<close> of the file with inode \<open>i\<close> on disk \<open>d\<close> (0 for a
  hole); \<open>fblock\<close>: its contents.
\<close>

definition id_entries :: "sfs_inode \<Rightarrow> byte list list \<Rightarrow> nat list" where
  "id_entries i d = (if sfi_indirect i = 0 then replicate 128 0 else dec_u32s 128 (d ! sfi_indirect i))"

definition fmap :: "sfs_inode \<Rightarrow> byte list list \<Rightarrow> nat \<Rightarrow> nat" where
  "fmap i d fb = (if fb < 15 then sfi_direct i ! fb else if fb < 143 then id_entries i d ! (fb - 15) else 0)"

definition fblock :: "sfs_inode \<Rightarrow> byte list list \<Rightarrow> nat \<Rightarrow> byte list" where
  "fblock i d fb = (if fmap i d fb = 0 then zeros else d ! fmap i d fb)"

definition owned :: "sfs_inode \<Rightarrow> byte list list \<Rightarrow> nat set" where
  "owned i d = ({sfi_indirect i} \<union> fmap i d ` {..<143}) - {0}"

text \<open>
  \<open>file_wf\<close>: the blocks of a file are in use and in range, no two places of the file share a block,
  and none of them is its indirect block.
\<close>

definition file_wf :: "sfs_inode \<Rightarrow> sfs_fs \<Rightarrow> bool" where
  "file_wf i s \<longleftrightarrow> inode_fits i \<and> owned i (disk s) \<subseteq> used s \<inter> {..<nblocks s}
     \<and> (\<forall>fb < 143. fmap i (disk s) fb \<noteq> 0 \<longrightarrow> fmap i (disk s) fb \<noteq> sfi_indirect i)
     \<and> (\<forall>a < 143. \<forall>b < 143. fmap i (disk s) a \<noteq> 0 \<longrightarrow> fmap i (disk s) a = fmap i (disk s) b \<longrightarrow> a = b)"

lemma id_entries_length [simp]: "length (id_entries i d) = 128"
  by (simp add: id_entries_def)

lemma id_entries_bound: "x \<in> set (id_entries i d) \<Longrightarrow> x < 4294967296"
  by (cases "sfi_indirect i = 0") (simp_all add: id_entries_def dec_u32s_bound)

lemma file_wf_block:
  assumes "file_wf i s" and "fmap i (disk s) fb \<noteq> 0"
  shows "fmap i (disk s) fb \<in> used s" "fmap i (disk s) fb < nblocks s" "fmap i (disk s) fb \<in> owned i (disk s)"
proof -
  have "fb < 143" using assms(2) by (auto simp: fmap_def split: if_splits)
  then have "fmap i (disk s) fb \<in> owned i (disk s)" using assms(2) by (auto simp: owned_def)
  then show "fmap i (disk s) fb \<in> owned i (disk s)" "fmap i (disk s) fb \<in> used s" "fmap i (disk s) fb < nblocks s"
    using assms(1) by (auto simp: file_wf_def)
qed

lemma file_wf_indirect:
  assumes "file_wf i s" and "sfi_indirect i \<noteq> 0"
  shows "sfi_indirect i \<in> used s" "sfi_indirect i < nblocks s"
  using assms by (auto simp: file_wf_def owned_def)

lemma dec_zeros: "dec_u32s 128 zeros = replicate 128 0"
proof -
  have "enc_u32s (replicate n 0) = replicate (4 * n) 0" for n
    by (induction n) (simp_all add: enc_u32s_def be32_def, simp add: eval_nat_numeral)
  from this [of 128] have "zeros = enc_u32s (replicate 128 0)" by (simp add: zeros_def)
  then show ?thesis using dec_enc_u32s' [of "replicate 128 0" 128] by simp
qed

text \<open>
  The three ways \<open>sfs_bmap\<close> changes a file. Each leaves the contents of every block of the file as
  they were: a new block is all zeros, as a hole reads.
\<close>

lemma fmap_new_direct:
  assumes wf: "file_wf i s" and fb: "fb < 15" and n: "n \<notin> used s" "n < length (disk s)"
  defines "i' \<equiv> i\<lparr>sfi_direct := (sfi_direct i)[fb := n]\<rparr>" and "d' \<equiv> (disk s)[n := zeros]"
  shows "fmap i' d' = (fmap i (disk s))(fb := n)"
proof -
  have "length (sfi_direct i) = 15" using wf by (simp add: file_wf_def inode_fits_def)
  moreover have "sfi_indirect i \<noteq> 0 \<Longrightarrow> sfi_indirect i \<noteq> n" using file_wf_indirect [OF wf] n by auto
  ultimately show ?thesis using fb
    by (auto simp: fmap_def i'_def d'_def id_entries_def fun_eq_iff)
qed

lemma fmap_new_indirect:
  assumes wf: "file_wf i s" and z: "sfi_indirect i = 0" and n: "n < length (disk s)" "n \<noteq> 0"
  shows "fmap (i\<lparr>sfi_indirect := n\<rparr>) ((disk s)[n := zeros]) = fmap i (disk s)"
  using n z by (simp add: fmap_def id_entries_def dec_zeros fun_eq_iff)

lemma fmap_new_entry:
  assumes wf: "file_wf i s" and nz: "sfi_indirect i \<noteq> 0" and fb: "15 \<le> fb" "fb < 143"
    and n: "n \<notin> used s" "n < 4294967296" and len: "nblocks s \<le> length (disk s)"
  defines "d' \<equiv> (disk s)[n := zeros, sfi_indirect i := enc_u32s ((id_entries i (disk s))[fb - 15 := n])]"
  shows "fmap i d' = (fmap i (disk s))(fb := n)"
proof -
  let ?e = "(id_entries i (disk s))[fb - 15 := n]"
  have e: "\<forall>x \<in> set ?e. x < 4294967296"
    using n id_entries_bound set_update_subset_insert [of "id_entries i (disk s)" "fb - 15" n] by blast
  have ind: "sfi_indirect i < length (disk s)" using file_wf_indirect [OF wf nz] len by simp
  then have "id_entries i d' = ?e"
    using nz dec_enc_u32s' [OF e] unfolding id_entries_def [of i d'] unfolding d'_def by simp
  then show ?thesis using fb by (auto simp: fmap_def fun_eq_iff nth_list_update)
qed

text \<open>
  A file after its map changed at most at \<open>fb\<close>, to a new block, and its indirect block changed at
  most from 0 to a new block.
\<close>

lemma file_wf_extend:
  assumes wf: "file_wf i s" and fits: "inode_fits i'"
    and map: "fmap i' (disk s') = (fmap i (disk s))(fb := n)" and nb: "nblocks s' = nblocks s"
    and used: "used s \<subseteq> used s'" and n: "n = fmap i (disk s) fb \<or> n \<notin> used s \<and> n \<in> used s' \<and> n < nblocks s"
    and ind: "sfi_indirect i' = sfi_indirect i \<or> (sfi_indirect i = 0 \<and> sfi_indirect i' \<notin> used s
       \<and> sfi_indirect i' \<in> used s' \<and> sfi_indirect i' < nblocks s)"
    and ne: "n = 0 \<or> n \<noteq> sfi_indirect i'"
  shows "file_wf i' s'"
    and "owned i' (disk s') \<inter> used s \<subseteq> owned i (disk s)"
    and "owned i (disk s) \<subseteq> owned i' (disk s') \<union> {fmap i (disk s) fb}"
proof -
  let ?m = "fmap i (disk s)"
  have o: "?m a \<in> used s \<and> ?m a < nblocks s" if "?m a \<noteq> 0" for a
    using file_wf_block [OF wf that] by simp
  have oi: "sfi_indirect i \<noteq> 0 \<Longrightarrow> sfi_indirect i \<in> used s \<and> sfi_indirect i < nblocks s"
    using file_wf_indirect [OF wf] by simp
  have mi: "?m a \<noteq> 0 \<Longrightarrow> a < 143 \<Longrightarrow> ?m a \<noteq> sfi_indirect i" for a
    using wf by (simp add: file_wf_def)
  have inj: "a = b" if "a < 143" "b < 143" "?m a \<noteq> 0" "?m a = ?m b" for a b
    using wf that by (simp add: file_wf_def)
  have inj': "a = b" if "a < 143" "b < 143" "(?m(fb := n)) a \<noteq> 0" "(?m(fb := n)) a = (?m(fb := n)) b" for a b
    using that n inj [of a b] o [of a] o [of b] by (auto split: if_splits)
  show "file_wf i' s'"
    unfolding file_wf_def map
  proof (intro conjI allI impI)
    show "owned i' (disk s') \<subseteq> used s' \<inter> {..<nblocks s'}"
    proof
      fix x
      assume "x \<in> owned i' (disk s')"
      then consider "x = sfi_indirect i'" "x \<noteq> 0" | a where "x = (?m(fb := n)) a" "x \<noteq> 0"
        unfolding owned_def map by blast
      then show "x \<in> used s' \<inter> {..<nblocks s'}"
      proof cases
        case 1
        then show ?thesis using oi ind used nb by auto
      next
        case 2
        then show ?thesis using o [of a] o [of fb] n used nb by (auto split: if_splits)
      qed
    qed
    show "(?m(fb := n)) a \<noteq> sfi_indirect i'" if "a < 143" "(?m(fb := n)) a \<noteq> 0" for a
      using that mi [of a] o [of a] ind ne by (auto split: if_splits)
  qed (use fits inj' in auto)
  show "owned i' (disk s') \<inter> used s \<subseteq> owned i (disk s)"
    unfolding owned_def map using n ind by (auto split: if_splits)
  show "owned i (disk s) \<subseteq> owned i' (disk s') \<union> {?m fb}"
    unfolding owned_def map using ind by auto
qed

section \<open>Steps on one file\<close>

text \<open>What a step on a file keeps of its vnode.\<close>

definition vnode_same :: "sfs_vnode \<Rightarrow> sfs_vnode \<Rightarrow> bool" where
  "vnode_same v v' \<longleftrightarrow> vn_refcount v' = vn_refcount v \<and> vn_opencount v' = vn_opencount v
     \<and> vn_ops v' = vn_ops v \<and> sv_ino v' = sv_ino v \<and> sfi_type (sv_i v') = sfi_type (sv_i v)
     \<and> sfi_linkcount (sv_i v') = sfi_linkcount (sv_i v) \<and> sfi_waste (sv_i v') = sfi_waste (sv_i v)
     \<and> (sv_i v' \<noteq> sv_i v \<longrightarrow> sv_dirty v') \<and> (sv_dirty v \<longrightarrow> sv_dirty v')"

text \<open>
  \<open>file_step p v v' s s'\<close>: a step on the file with vnode \<open>p\<close> that may write to the file's blocks and
  give it new ones. It loses no block of the file, takes none that was in use, leaks none, and
  leaves every block in use that is not the file's, and every other vnode, untouched.
\<close>

definition file_step :: "nat \<Rightarrow> sfs_vnode \<Rightarrow> sfs_vnode \<Rightarrow> sfs_fs \<Rightarrow> sfs_fs \<Rightarrow> bool" where
  "file_step p v v' s s' \<longleftrightarrow> fs_wf s' \<and> fs_same s s' \<and> vnode_same v v'
     \<and> sv_heap s p = Some v \<and> sv_heap s' = (sv_heap s)(p \<mapsto> v') \<and> file_wf (sv_i v') s'
     \<and> used s \<subseteq> used s' \<and> used s' \<subseteq> used s \<union> owned (sv_i v') (disk s')
     \<and> owned (sv_i v') (disk s') \<inter> used s \<subseteq> owned (sv_i v) (disk s)
     \<and> owned (sv_i v) (disk s) \<subseteq> owned (sv_i v') (disk s')
     \<and> (\<forall>b \<in> used s - owned (sv_i v) (disk s). disk s' ! b = disk s ! b)"

lemma vnode_same_refl [simp]: "vnode_same v v"
  by (simp add: vnode_same_def)

lemma vnode_same_trans: "vnode_same u v \<Longrightarrow> vnode_same v w \<Longrightarrow> vnode_same u w"
  by (auto simp: vnode_same_def)

lemma file_step_refl:
  "fs_wf s \<Longrightarrow> sv_heap s p = Some v \<Longrightarrow> file_wf (sv_i v) s \<Longrightarrow> file_step p v v s s"
  by (auto simp: file_step_def)

lemma file_step_trans:
  assumes "file_step p u v s t" and "file_step p v w t r"
  shows "file_step p u w s r"
proof -
  have "disk r ! b = disk s ! b" if "b \<in> used s - owned (sv_i u) (disk s)" for b
  proof -
    have "b \<in> used t - owned (sv_i v) (disk t)" using assms(1) that by (auto simp: file_step_def)
    then show ?thesis using assms that by (auto simp: file_step_def)
  qed
  moreover have "sv_heap r = (sv_heap s)(p \<mapsto> w)" using assms by (auto simp: file_step_def)
  moreover have "used r \<subseteq> used s \<union> owned (sv_i w) (disk r)" using assms by (auto simp: file_step_def)
  moreover have "owned (sv_i w) (disk r) \<inter> used s \<subseteq> owned (sv_i u) (disk s)"
    using assms by (auto simp: file_step_def)
  ultimately show ?thesis
    using assms fs_same_trans vnode_same_trans unfolding file_step_def by blast
qed

lemma file_stepD:
  assumes "file_step p v v' s s'"
  shows "fs_wf s'" "fs_same s s'" "sv_heap s' p = Some v'" "file_wf (sv_i v') s'" "vnode_same v v'"
  using assms by (auto simp: file_step_def)

text \<open>The contents of a file, as a function from block numbers.\<close>

lemma fblock_extend:
  assumes wf: "file_wf i s" and map: "fmap i' (disk s') = (fmap i (disk s))(fb := n)"
    and n: "n = fmap i (disk s) fb \<or> fmap i (disk s) fb = 0 \<and> n \<notin> used s \<and> disk s' ! n = zeros"
    and same: "\<And>b. b \<in> used s \<Longrightarrow> b \<noteq> sfi_indirect i \<Longrightarrow> disk s' ! b = disk s ! b"
  shows "fblock i' (disk s') = fblock i (disk s)"
proof
  fix k
  have old: "disk s' ! fmap i (disk s) k = disk s ! fmap i (disk s) k" if "fmap i (disk s) k \<noteq> 0" for k
  proof (rule same)
    have "k < 143" using that by (auto simp: fmap_def split: if_splits)
    then show "fmap i (disk s) k \<noteq> sfi_indirect i" using wf that by (simp add: file_wf_def)
    show "fmap i (disk s) k \<in> used s" using file_wf_block [OF wf that] by simp
  qed
  show "fblock i' (disk s') k = fblock i (disk s) k"
    using n old unfolding fblock_def map by auto
qed

text \<open>Allocating a direct block.\<close>

lemma bmap_direct_wp:
  assumes wf: "fs_wf s" and v: "sv_heap s p = Some v" and f: "file_wf (sv_i v) s"
    and fb: "fb < 15" "fmap (sv_i v) (disk s) fb = 0"
  shows "wp (kbind sfs_balloc (\<lambda>block.
        kbind (sv_upd p (\<lambda>v. v\<lparr>sv_i := (sv_i v)\<lparr>sfi_direct := (sfi_direct (sv_i v))[fb := block]\<rparr>,
                               sv_dirty := True\<rparr>)) (\<lambda>_. kret block)))
    (\<lambda>b s'. \<exists>v'. file_step p v v' s s' \<and> sfi_size (sv_i v') = sfi_size (sv_i v)
       \<and> fblock (sv_i v') (disk s') = fblock (sv_i v) (disk s) \<and> b = fmap (sv_i v') (disk s') fb \<and> b \<noteq> 0)
    (\<lambda>e s'. e = ENOSPC \<and> s' = s \<and> {..<nblocks s} \<subseteq> used s) s"
  unfolding wps
proof (rule wp_mono [OF sfs_balloc_wp [OF wf]])
  fix n s1
  assume s1: "fs_wf s1 \<and> fs_same s s1 \<and> n \<notin> used s \<and> n < nblocks s \<and> n \<noteq> 0
    \<and> used s1 = insert n (used s) \<and> disk s1 = (disk s)[n := zeros] \<and> sv_heap s1 = sv_heap s"
  let ?i = "sv_i v" and ?i' = "(sv_i v)\<lparr>sfi_direct := (sfi_direct (sv_i v))[fb := n]\<rparr>"
  let ?v' = "v\<lparr>sv_i := ?i', sv_dirty := True\<rparr>"
  let ?s' = "s1\<lparr>sv_heap := (sv_heap s1)(p \<mapsto> ?v')\<rparr>"
  have n: "n < length (disk s)" "n < 4294967296" using s1 wf by (auto simp: fs_wf_def)
  have map: "fmap ?i' (disk ?s') = (fmap ?i (disk s))(fb := n)"
    using fmap_new_direct [OF f fb(1)] s1 n by simp
  have fits: "inode_fits ?i'"
    using f n(2) set_update_subset_insert [of "sfi_direct ?i" fb n]
    by (auto simp: file_wf_def inode_fits_def)
  have ni: "n = 0 \<or> n \<noteq> sfi_indirect ?i'"
    using s1 file_wf_indirect(1) [OF f] by (cases "sfi_indirect ?i = 0") auto
  note ext = file_wf_extend [OF f fits map]
  have e: "file_wf ?i' ?s'" "owned ?i' (disk ?s') \<inter> used s \<subseteq> owned ?i (disk s)"
    "owned ?i (disk s) \<subseteq> owned ?i' (disk ?s') \<union> {fmap ?i (disk s) fb}"
    by (rule ext; use s1 fs_same_nblocks [of s s1] ni in auto)+
  have "owned ?i (disk s) \<subseteq> owned ?i' (disk ?s')" using e(3) fb(2) by (auto simp: owned_def)
  moreover have "n \<in> owned ?i' (disk ?s')" unfolding owned_def map using s1 fb(1) by force
  moreover have "\<forall>b \<in> used s. disk s1 ! b = disk s ! b" using s1 by (metis nth_list_update_neq)
  ultimately have "file_step p v ?v' s ?s'"
    using s1 v e(1,2) by (auto simp: file_step_def vnode_same_def simp del: nth_list_update)
  moreover have "fblock ?i' (disk ?s') = fblock ?i (disk s)"
  proof (rule fblock_extend [OF f map])
    show "disk ?s' ! b = disk s ! b" if "b \<in> used s" for b
      using s1 that by simp (metis nth_list_update_neq)
  qed (use s1 n fb in auto)
  moreover have "n = fmap ?i' (disk ?s') fb" unfolding map by simp
  ultimately show "wp (sv_upd p (\<lambda>v. v\<lparr>sv_i := (sv_i v)\<lparr>sfi_direct := (sfi_direct (sv_i v))[fb := n]\<rparr>,
      sv_dirty := True\<rparr>)) (\<lambda>x s'. \<exists>v'. file_step p v v' s s' \<and> sfi_size (sv_i v') = sfi_size (sv_i v)
       \<and> fblock (sv_i v') (disk s') = fblock (sv_i v) (disk s) \<and> n = fmap (sv_i v') (disk s') fb \<and> n \<noteq> 0)
    (\<lambda>e s'. e = ENOSPC \<and> s' = s \<and> {..<nblocks s} \<subseteq> used s) s1"
    using s1 v by (subst wp_sv_upd [where v = v]) (auto intro!: exI [of _ ?v'])
qed simp

text \<open>Getting at the indirect block, allocating one when there is none.\<close>

lemma bmap_indirect_new_wp:
  assumes wf: "fs_wf s" and v: "sv_heap s p = Some v" and f: "file_wf (sv_i v) s"
    and z: "sfi_indirect (sv_i v) = 0"
  shows "wp (kbind sfs_balloc (\<lambda>idblock.
        kbind (sv_upd p (\<lambda>v. v\<lparr>sv_i := (sv_i v)\<lparr>sfi_indirect := idblock\<rparr>, sv_dirty := True\<rparr>)) (\<lambda>_.
        kret (idblock, replicate SFS_DBPERIDB 0))))
    (\<lambda>(idblock, idbuf) s'. \<exists>v'. file_step p v v' s s' \<and> sfi_size (sv_i v') = sfi_size (sv_i v)
       \<and> fblock (sv_i v') (disk s') = fblock (sv_i v) (disk s)
       \<and> idblock = sfi_indirect (sv_i v') \<and> idblock \<noteq> 0 \<and> idbuf = id_entries (sv_i v') (disk s'))
    (\<lambda>e s'. e = ENOSPC \<and> s' = s \<and> {..<nblocks s} \<subseteq> used s) s"
  unfolding wps
proof (rule wp_mono [OF sfs_balloc_wp [OF wf]])
  fix n s1
  assume s1: "fs_wf s1 \<and> fs_same s s1 \<and> n \<notin> used s \<and> n < nblocks s \<and> n \<noteq> 0
    \<and> used s1 = insert n (used s) \<and> disk s1 = (disk s)[n := zeros] \<and> sv_heap s1 = sv_heap s"
  let ?i = "sv_i v" and ?i' = "(sv_i v)\<lparr>sfi_indirect := n\<rparr>"
  let ?v' = "v\<lparr>sv_i := ?i', sv_dirty := True\<rparr>"
  let ?s' = "s1\<lparr>sv_heap := (sv_heap s1)(p \<mapsto> ?v')\<rparr>"
  have n: "n < length (disk s)" "n < 4294967296" using s1 wf by (auto simp: fs_wf_def)
  have map0: "fmap ?i' (disk ?s') = fmap ?i (disk s)"
    using fmap_new_indirect [OF f z n(1)] s1 by simp
  then have map: "fmap ?i' (disk ?s') = (fmap ?i (disk s))(0 := fmap ?i (disk s) 0)" by simp
  have fits: "inode_fits ?i'" using f n(2) by (auto simp: file_wf_def inode_fits_def)
  have ni: "fmap ?i (disk s) 0 = 0 \<or> fmap ?i (disk s) 0 \<noteq> sfi_indirect ?i'"
    using s1 file_wf_block(1) [OF f, of 0] by auto
  have same: "\<forall>b \<in> used s. disk s1 ! b = disk s ! b" using s1 by (metis nth_list_update_neq)
  note ext = file_wf_extend [OF f fits map]
  have e: "file_wf ?i' ?s'" "owned ?i' (disk ?s') \<inter> used s \<subseteq> owned ?i (disk s)"
    by (rule ext; use s1 z fs_same_nblocks [of s s1] ni in auto)+
  have "owned ?i (disk s) \<subseteq> owned ?i' (disk ?s')" "n \<in> owned ?i' (disk ?s')"
    using s1 z unfolding owned_def map0 by auto
  then have "file_step p v ?v' s ?s'"
    using s1 v e same by (auto simp: file_step_def vnode_same_def simp del: nth_list_update)
  moreover have "fblock ?i' (disk ?s') = fblock ?i (disk s)"
    by (rule fblock_extend [OF f map]) (use same in auto)
  moreover have "id_entries ?i' (disk ?s') = replicate SFS_DBPERIDB 0"
    using s1 n by (simp add: id_entries_def dec_zeros SFS_DBPERIDB_def)
  ultimately show "wp (sv_upd p (\<lambda>v. v\<lparr>sv_i := (sv_i v)\<lparr>sfi_indirect := n\<rparr>, sv_dirty := True\<rparr>))
    (\<lambda>x. (\<lambda>(idblock, idbuf) s'. \<exists>v'. file_step p v v' s s' \<and> sfi_size (sv_i v') = sfi_size (sv_i v)
       \<and> fblock (sv_i v') (disk s') = fblock (sv_i v) (disk s)
       \<and> idblock = sfi_indirect (sv_i v') \<and> idblock \<noteq> 0 \<and> idbuf = id_entries (sv_i v') (disk s'))
      (n, replicate SFS_DBPERIDB 0))
    (\<lambda>e s'. e = ENOSPC \<and> s' = s \<and> {..<nblocks s} \<subseteq> used s) s1"
    using s1 v by (subst wp_sv_upd [where v = v]) (auto intro!: exI [of _ ?v'])
qed simp

text \<open>Allocating a block whose number goes into the indirect block.\<close>

lemma bmap_entry_wp:
  assumes wf: "fs_wf s" and v: "sv_heap s p = Some v" and f: "file_wf (sv_i v) s"
    and nz: "sfi_indirect (sv_i v) \<noteq> 0" and fb: "15 \<le> fb" "fb < 143" "fmap (sv_i v) (disk s) fb = 0"
  shows "wp (kbind sfs_balloc (\<lambda>block.
        kbind (on_device (sfs_wblock (enc_u32s ((id_entries (sv_i v) (disk s))[fb - 15 := block]))
                 (sfi_indirect (sv_i v)))) (\<lambda>_. kret block)))
    (\<lambda>b s'. file_step p v v s s' \<and> fblock (sv_i v) (disk s') = fblock (sv_i v) (disk s)
       \<and> b = fmap (sv_i v) (disk s') fb \<and> b \<noteq> 0)
    (\<lambda>e s'. e = ENOSPC \<and> s' = s \<and> {..<nblocks s} \<subseteq> used s) s"
  unfolding wps
proof (rule wp_mono [OF sfs_balloc_wp [OF wf]])
  fix n s1
  assume s1: "fs_wf s1 \<and> fs_same s s1 \<and> n \<notin> used s \<and> n < nblocks s \<and> n \<noteq> 0
    \<and> used s1 = insert n (used s) \<and> disk s1 = (disk s)[n := zeros] \<and> sv_heap s1 = sv_heap s"
  let ?i = "sv_i v" and ?e = "(id_entries (sv_i v) (disk s))[fb - 15 := n]"
  let ?ind = "sfi_indirect ?i"
  have n: "n < length (disk s)" "n < 4294967296" using s1 wf by (auto simp: fs_wf_def)
  have ind: "?ind \<in> used s" "?ind < nblocks s1" "?ind \<noteq> n"
    using file_wf_indirect [OF f nz] s1 fs_same_nblocks [of s s1] by auto
  have "length (enc_u32s ?e) = 512" by simp
  note w = wblock_wp [OF _ ind(2) this]
  show "wp (on_device (sfs_wblock (enc_u32s ?e) ?ind))
    (\<lambda>_ s'. file_step p v v s s' \<and> fblock ?i (disk s') = fblock ?i (disk s) \<and> n = fmap ?i (disk s') fb \<and> n \<noteq> 0)
    (\<lambda>e s'. e = ENOSPC \<and> s' = s \<and> {..<nblocks s} \<subseteq> used s) s1"
  proof (rule wp_mono [OF w])
    show "fs_wf s1" using s1 by simp
  next
    fix u s2
    assume s2: "fs_wf s2 \<and> fs_same s1 s2 \<and> disk s2 = (disk s1)[?ind := enc_u32s ?e] \<and> used s2 = used s1
      \<and> sv_heap s2 = sv_heap s1"
    have d2: "disk s2 = (disk s)[n := zeros, ?ind := enc_u32s ?e]" using s1 s2 by simp
    have map: "fmap ?i (disk s2) = (fmap ?i (disk s))(fb := n)"
      unfolding d2 by (rule fmap_new_entry [OF f nz fb(1,2)]) (use s1 n wf in \<open>auto simp: fs_wf_def\<close>)
    have same: "\<forall>b \<in> used s. b \<noteq> ?ind \<longrightarrow> disk s2 ! b = disk s ! b"
      unfolding d2 using s1 by (metis nth_list_update_neq)
    have nz': "disk s2 ! n = zeros" unfolding d2 using ind(3) n by simp
    have nb: "nblocks s2 = nblocks s" using s1 s2 fs_same_nblocks by metis
    have fits: "inode_fits ?i" using f by (simp add: file_wf_def)
    note ext = file_wf_extend [OF f fits map nb]
    have e: "file_wf ?i s2" "owned ?i (disk s2) \<inter> used s \<subseteq> owned ?i (disk s)"
      "owned ?i (disk s) \<subseteq> owned ?i (disk s2) \<union> {fmap ?i (disk s) fb}"
      by (rule ext; use s1 s2 ind in auto)+
    have "owned ?i (disk s) \<subseteq> owned ?i (disk s2)" using e(3) fb(3) by (auto simp: owned_def)
    moreover have "n \<in> owned ?i (disk s2)" unfolding owned_def map using s1 fb(2) by force
    moreover have "?ind \<in> owned ?i (disk s)" using nz by (simp add: owned_def)
    moreover have "fs_same s s2" using s1 s2 fs_same_trans by blast
    moreover have "fs_wf s2" "used s2 = insert n (used s)" "sv_heap s2 = (sv_heap s)(p \<mapsto> v)"
      using s1 s2 v by (auto simp: fun_upd_idem)
    moreover have "\<forall>b \<in> used s - owned ?i (disk s). disk s2 ! b = disk s ! b"
      using same calculation(3) by (metis DiffD1 DiffD2)
    ultimately have "file_step p v v s s2"
      using v e(1,2) unfolding file_step_def by auto
    moreover have "fblock ?i (disk s2) = fblock ?i (disk s)"
      by (rule fblock_extend [OF f map]) (use same s1 fb(3) nz' in auto)
    ultimately show "file_step p v v s s2 \<and> fblock ?i (disk s2) = fblock ?i (disk s)
      \<and> n = fmap ?i (disk s2) fb \<and> n \<noteq> 0" using s1 unfolding map by simp
  qed simp
qed simp

text \<open>
  \<open>sfs_bmap\<close>: the block at \<open>fb\<close> of the file. Without \<open>doalloc\<close> nothing changes; with it the answer
  is never 0, and the contents of the file stay what they were.
\<close>

definition bmap_post :: "nat \<Rightarrow> sfs_vnode \<Rightarrow> sfs_fs \<Rightarrow> sfs_vnode \<Rightarrow> sfs_fs \<Rightarrow> bool" where
  "bmap_post p v s v' s' \<longleftrightarrow> file_step p v v' s s' \<and> sfi_size (sv_i v') = sfi_size (sv_i v)
     \<and> fblock (sv_i v') (disk s') = fblock (sv_i v) (disk s)"

lemma bmap_post_trans: "bmap_post p u s v t \<Longrightarrow> bmap_post p v t w r \<Longrightarrow> bmap_post p u s w r"
  unfolding bmap_post_def using file_step_trans by metis

lemma bmap_post_refl: "fs_wf s \<Longrightarrow> sv_heap s p = Some v \<Longrightarrow> file_wf (sv_i v) s \<Longrightarrow> bmap_post p v s v s"
  by (simp add: bmap_post_def file_step_refl)

lemma bmap_done_wp:
  assumes "bmap_post p v s v' s'" and "b = fmap (sv_i v') (disk s') fb"
  shows "wp (bmap_done b) Q R s' = Q b s'"
proof -
  have "bmap_done b s' = Done b s'"
    using assms file_wf_block [of "sv_i v'" s' fb] file_stepD [of p v v' s s']
    by (intro bmap_done_eq) (auto simp: bmap_post_def)
  then show ?thesis by (simp add: wp_def)
qed

lemma wp_bmap_done_bind:
  assumes "wp m (\<lambda>b s'. \<exists>v'. bmap_post p v s v' s' \<and> b = fmap (sv_i v') (disk s') fb \<and> P b v' s')
      R t"
  shows "wp (kbind m bmap_done) (\<lambda>b s'. \<exists>v'. bmap_post p v s v' s' \<and> b = fmap (sv_i v') (disk s') fb
      \<and> P b v' s') R t"
  unfolding wp_kbind
  by (rule wp_mono [OF assms]) (auto simp: bmap_done_wp)

lemma bmap_entry_tail_wp:
  assumes u: "bmap_post p v s u t" "sfi_indirect (sv_i u) \<noteq> 0" and fb: "15 \<le> fb" "fb < 143"
    and na: "\<not> doalloc \<longrightarrow> u = v \<and> disk t = disk s \<and> used t = used s"
  shows "wp (bmap_entry (fb - 15) doalloc (sfi_indirect (sv_i u), id_entries (sv_i u) (disk t)))
    (\<lambda>b s'. \<exists>v'. bmap_post p v s v' s' \<and> b = fmap (sv_i v') (disk s') fb \<and> fb < 143 \<and> (doalloc \<longrightarrow> b \<noteq> 0)
       \<and> (\<not> doalloc \<longrightarrow> v' = v \<and> disk s' = disk s \<and> used s' = used s))
    (\<lambda>e s'. \<exists>v'. bmap_post p v s v' s'
       \<and> (e = EINVAL \<and> 143 \<le> fb \<and> s' = s \<or> e = ENOSPC \<and> doalloc \<and> {..<nblocks s} \<subseteq> used s')) t"
    (is "wp _ ?Q ?R t")
proof -
  have st: "fs_wf t" "sv_heap t p = Some u" "file_wf (sv_i u) t" "nblocks t = nblocks s"
    using u(1) file_stepD [of p v u s t] fs_same_nblocks by (auto simp: bmap_post_def)
  have b: "id_entries (sv_i u) (disk t) ! (fb - 15) = fmap (sv_i u) (disk t) fb"
    using fb by (simp add: fmap_def)
  have al: "wp (kbind sfs_balloc (\<lambda>block. kbind (on_device (sfs_wblock
        (enc_u32s ((id_entries (sv_i u) (disk t))[fb - 15 := block])) (sfi_indirect (sv_i u)))) (\<lambda>_. kret block)))
      ?Q ?R t" if z: "fmap (sv_i u) (disk t) fb = 0" "doalloc"
    by (rule wp_mono [OF bmap_entry_wp [OF st(1-3) u(2) fb z(1)]])
      (use u(1) st z fb bmap_post_trans [OF u(1), of u] in \<open>auto simp: bmap_post_def\<close>)
  have "wp (if fmap (sv_i u) (disk t) fb = 0 \<and> doalloc then kbind sfs_balloc (\<lambda>block. kbind (on_device (sfs_wblock
        (enc_u32s ((id_entries (sv_i u) (disk t))[fb - 15 := block])) (sfi_indirect (sv_i u)))) (\<lambda>_. kret block))
      else kret (fmap (sv_i u) (disk t) fb)) ?Q ?R t"
    using al u fb na by (auto simp: wps)
  then show ?thesis unfolding bmap_entry_def fst_conv snd_conv Let_def b by (intro wp_bmap_done_bind)
qed

lemma bmap_load_wp:
  assumes wf: "fs_wf s" and v: "sv_heap s p = Some v" and f: "file_wf (sv_i v) s"
    and nz: "sfi_indirect (sv_i v) \<noteq> 0"
  shows "wp (kbind (on_device (sfs_rblock (sfi_indirect (sv_i v)))) (\<lambda>data.
            kret (sfi_indirect (sv_i v), dec_u32s SFS_DBPERIDB data)))
    (\<lambda>ib t. bmap_post p v s v t \<and> disk t = disk s \<and> used t = used s
       \<and> ib = (sfi_indirect (sv_i v), id_entries (sv_i v) (disk t))) (\<lambda>_ _. False) s"
  unfolding wp_kbind wp_kret
proof (rule wp_mono [OF rblock_wp [OF wf]])
  show "sfi_indirect (sv_i v) < nblocks s" using file_wf_indirect [OF f nz] by simp
next
  fix d t
  assume t: "d = disk s ! sfi_indirect (sv_i v) \<and> fs_wf t \<and> fs_same s t \<and> disk t = disk s
    \<and> used t = used s \<and> sv_heap t = sv_heap s"
  then have "bmap_post p v s v t"
    using v f fs_same_nblocks [of s t] by (auto simp: bmap_post_def file_step_def file_wf_def fun_upd_idem)
  then show "bmap_post p v s v t \<and> disk t = disk s \<and> used t = used s
      \<and> (sfi_indirect (sv_i v), dec_u32s SFS_DBPERIDB d) = (sfi_indirect (sv_i v), id_entries (sv_i v) (disk t))"
    using t nz by (simp add: id_entries_def SFS_DBPERIDB_def)
qed simp

lemma sfs_bmap_wp:
  assumes wf: "fs_wf s" and v: "sv_heap s p = Some v" and f: "file_wf (sv_i v) s"
  shows "wp (sfs_bmap p fb doalloc)
    (\<lambda>b s'. \<exists>v'. bmap_post p v s v' s' \<and> b = fmap (sv_i v') (disk s') fb \<and> fb < 143 \<and> (doalloc \<longrightarrow> b \<noteq> 0)
       \<and> (\<not> doalloc \<longrightarrow> v' = v \<and> disk s' = disk s \<and> used s' = used s))
    (\<lambda>e s'. \<exists>v'. bmap_post p v s v' s'
       \<and> (e = EINVAL \<and> 143 \<le> fb \<and> s' = s \<or> e = ENOSPC \<and> doalloc \<and> {..<nblocks s} \<subseteq> used s')) s"
    (is "wp _ ?Q ?R s")
proof -
  have rp: "bmap_post p v s v s" by (rule bmap_post_refl [OF assms])
  consider "fb < 15" | "143 \<le> fb" | "15 \<le> fb" "fb < 143" by linarith
  then show ?thesis
  proof cases
    case 1
    have b: "sfi_direct (sv_i v) ! fb = fmap (sv_i v) (disk s) fb" using 1 by (simp add: fmap_def)
    have "wp (if fmap (sv_i v) (disk s) fb = 0 \<and> doalloc then kbind sfs_balloc (\<lambda>block.
          kbind (sv_upd p (\<lambda>v. v\<lparr>sv_i := (sv_i v)\<lparr>sfi_direct := (sfi_direct (sv_i v))[fb := block]\<rparr>,
                                 sv_dirty := True\<rparr>)) (\<lambda>_. kret block))
         else kret (fmap (sv_i v) (disk s) fb)) ?Q ?R s"
    proof (cases "fmap (sv_i v) (disk s) fb = 0 \<and> doalloc")
      case True
      then show ?thesis unfolding if_P [OF True]
        by (intro wp_mono [OF bmap_direct_wp [OF wf v f 1]]) (use rp 1 in \<open>auto simp: bmap_post_def\<close>)
    next
      case False
      show ?thesis unfolding if_not_P [OF False] using False rp 1 by (auto simp: wps)
    qed
    then show ?thesis
      unfolding sfs_bmap_def wp_kbind [of "sv_get p"] wp_sv_get [OF v] Let_def SFS_NDIRECT_def if_P [OF 1] b
      by (intro wp_bmap_done_bind)
  next
    case 2
    then have "(fb - 15) div 128 > 0" by simp
    then show ?thesis using 2 rp
      by (auto simp: sfs_bmap_def wps wp_sv_get [OF v] SFS_NDIRECT_def SFS_DBPERIDB_def Let_def)
  next
    case 3
    then have ix: "(fb - 15) div 128 = 0" "(fb - 15) mod 128 = fb - 15" "\<not> fb < 15" by simp_all
    consider "sfi_indirect (sv_i v) = 0" "\<not> doalloc" | "sfi_indirect (sv_i v) = 0" "doalloc"
      | "sfi_indirect (sv_i v) \<noteq> 0" by blast
    then show ?thesis
    proof cases
      case hole: 1
      then have "fmap (sv_i v) (disk s) fb = 0" using 3 by (simp add: fmap_def id_entries_def)
      then show ?thesis using hole 3 rp ix
        by (auto simp: sfs_bmap_def wps wp_sv_get [OF v] SFS_NDIRECT_def Let_def SFS_DBPERIDB_def)
    next
      case new: 2
      have "wp (kbind (kbind sfs_balloc (\<lambda>idblock.
          kbind (sv_upd p (\<lambda>v. v\<lparr>sv_i := (sv_i v)\<lparr>sfi_indirect := idblock\<rparr>, sv_dirty := True\<rparr>)) (\<lambda>_.
          kret (idblock, replicate SFS_DBPERIDB 0)))) (bmap_entry (fb - 15) doalloc)) ?Q ?R s"
        unfolding wp_kbind [of _ "bmap_entry (fb - 15) doalloc"]
      proof (rule wp_mono [OF bmap_indirect_new_wp [OF wf v f new(1)]])
        fix ib t
        assume "(case ib of (idblock, idbuf) \<Rightarrow> \<lambda>s'. \<exists>v'. file_step p v v' s s'
          \<and> sfi_size (sv_i v') = sfi_size (sv_i v) \<and> fblock (sv_i v') (disk s') = fblock (sv_i v) (disk s)
          \<and> idblock = sfi_indirect (sv_i v') \<and> idblock \<noteq> 0 \<and> idbuf = id_entries (sv_i v') (disk s')) t"
        then obtain u where "bmap_post p v s u t" "sfi_indirect (sv_i u) \<noteq> 0"
          "ib = (sfi_indirect (sv_i u), id_entries (sv_i u) (disk t))"
          by (auto simp: bmap_post_def)
        then show "wp (bmap_entry (fb - 15) doalloc ib) ?Q ?R t"
          using bmap_entry_tail_wp [of p v s u t fb doalloc] 3 new(2) by simp
      qed (use new rp in auto)
      then show ?thesis using new ix
        by (simp add: sfs_bmap_def wp_kbind [of "sv_get p"] wp_sv_get [OF v] SFS_NDIRECT_def Let_def
            SFS_DBPERIDB_def)
    next
      case nz: 3
      have "wp (kbind (kbind (on_device (sfs_rblock (sfi_indirect (sv_i v)))) (\<lambda>data.
            kret (sfi_indirect (sv_i v), dec_u32s SFS_DBPERIDB data))) (bmap_entry (fb - 15) doalloc)) ?Q ?R s"
        unfolding wp_kbind [of _ "bmap_entry (fb - 15) doalloc"]
        by (rule wp_mono [OF bmap_load_wp [OF wf v f nz]]) (use bmap_entry_tail_wp nz 3 in blast)+
      then show ?thesis using nz ix
        by (simp add: sfs_bmap_def wp_kbind [of "sv_get p"] wp_sv_get [OF v] SFS_NDIRECT_def Let_def
            SFS_DBPERIDB_def)
    qed
  qed
qed

section \<open>Properties\<close>

text \<open>A file system of eight blocks with one empty file, on which the properties are run.\<close>

definition empty_inode :: sfs_inode where
  "empty_inode = \<lparr>sfi_size = 0, sfi_type = SFS_TYPE_FILE, sfi_linkcount = 1, sfi_direct = replicate 15 0,
     sfi_indirect = 0, sfi_waste = replicate 110 0\<rparr>"

definition small_vnode :: sfs_vnode where
  "small_vnode = \<lparr>vn_refcount = 1, vn_opencount = 1, vn_ops = Some sfs_fileops, sv_i = empty_inode, sv_ino = 3,
     sv_dirty = False\<rparr>"

definition small_fs :: sfs_fs where
  "small_fs = \<lparr>sfs_super = \<lparr>sp_magic = SFS_MAGIC, sp_nblocks = 8, sp_volname = replicate 32 0,
       sp_reserved = replicate 118 0\<rparr>, sfs_superdirty = False,
     sfs_device = \<lparr>lh_disk = replicate 8 zeros, lh_codes = [], lh_buf = zeros\<rparr>,
     sfs_vnodes = \<lparr>a_num = 1, a_max = 1, a_v = Some [Some 4096]\<rparr>,
     sfs_freemap = \<lparr>nbits = 8, b_v = [0x0F]\<rparr>, sfs_freemapdirty = False,
     sv_heap = [4096 \<mapsto> small_vnode], kmem = []\<rparr>"

lemma small_freemap:
  "bitmap_wf \<lparr>nbits = 8, b_v = [0x0F]\<rparr>" "bitmap_used \<lparr>nbits = 8, b_v = [0x0F]\<rparr> = {..<4}"
proof -
  show "bitmap_wf \<lparr>nbits = 8, b_v = [0x0F]\<rparr>" by (auto simp: bitmap_wf_def)
  have "list_all (\<lambda>i. bit_at \<lparr>nbits = 8, b_v = [0x0F]\<rparr> i = (i < 4)) [0..<8]" by code_simp
  then have "\<forall>i < 8. bit_at \<lparr>nbits = 8, b_v = [0x0F]\<rparr> i = (i < 4)" by (simp add: list_all_iff)
  then show "bitmap_used \<lparr>nbits = 8, b_v = [0x0F]\<rparr> = {..<4}"
    unfolding bitmap_used_def bitmap.simps lessThan_def by (intro Collect_cong) auto
qed

lemma zeros_length [simp]: "length zeros = 512"
  by (simp add: zeros_def)

lemma small_fs_wf: "fs_wf small_fs"
  using small_freemap
  by (auto simp: fs_wf_def small_fs_def lhd_wf_def lhd_good_def nblocks_def disk_def used_def simp del: replicate_Suc)

lemma small_fs_vnode [simp]: "sv_heap small_fs 4096 = Some small_vnode"
  by (simp add: small_fs_def)

lemma empty_inode_map: "fmap empty_inode d fb = 0" "owned empty_inode d = {}"
proof -
  show "fmap empty_inode d fb = 0" for fb
    by (simp add: fmap_def empty_inode_def id_entries_def del: replicate_Suc)
  then show "owned empty_inode d = {}" by (auto simp: owned_def empty_inode_def)
qed

lemma empty_inode_fits: "inode_fits empty_inode"
  by (simp add: inode_fits_def empty_inode_def sfs_constants del: replicate_Suc)

lemma empty_file_wf: "file_wf empty_inode s"
  using empty_inode_map empty_inode_fits by (simp add: file_wf_def)

text \<open>
  Property C25: \<open>sfs_balloc\<close> returns a block that was free, lies on the file system and is not the
  superblock; it marks exactly that block in the free map and fills it with zeros, leaving every
  other block alone. On a disk that reports no errors (\<open>fs_wf\<close>) it fails only when every block is in use,
  and then changes nothing.
\<close>

theorem sfs_balloc_fresh:
  assumes "fs_wf s"
  shows "wp sfs_balloc
    (\<lambda>b s'. fs_wf s' \<and> fs_same s s' \<and> b \<notin> used s \<and> b < nblocks s \<and> b \<noteq> 0 \<and> used s' = insert b (used s)
       \<and> disk s' = (disk s)[b := zeros] \<and> sv_heap s' = sv_heap s)
    (\<lambda>e s'. e = ENOSPC \<and> s' = s \<and> {..<nblocks s} \<subseteq> used s) s"
  by (rule sfs_balloc_wp [OF assms])

theorem sfs_balloc_fresh_witness:
  "wp sfs_balloc
    (\<lambda>b s'. fs_wf s' \<and> fs_same small_fs s' \<and> b \<notin> used small_fs \<and> b < nblocks small_fs \<and> b \<noteq> 0
       \<and> used s' = insert b (used small_fs)
       \<and> disk s' = (disk small_fs)[b := zeros] \<and> sv_heap s' = sv_heap small_fs)
    (\<lambda>e s'. e = ENOSPC \<and> s' = small_fs \<and> {..<nblocks small_fs} \<subseteq> used small_fs) small_fs"
  by (rule sfs_balloc_fresh [OF small_fs_wf])

text \<open>
  Property C19: \<open>sfs_bmap\<close> returns the disk block of block \<open>fb\<close> of the file (0 for a hole that is
  not to be filled). It never changes the contents of any block of the file, also when it
  allocates a direct block, an indirect block or an entry of it; the file keeps its blocks and
  its well-formedness, new blocks come from the free ones and none leaks, and the blocks of other
  files stay as they are (all this is \<open>file_step\<close>). Errors: \<open>EINVAL\<close> exactly past the reach of the
  single indirect block, and \<open>ENOSPC\<close> when an allocation finds every block in use. The disk reports no
  errors (\<open>fs_wf\<close>).
\<close>

theorem sfs_bmap_keeps_contents:
  assumes "fs_wf s" and "sv_heap s p = Some v" and "file_wf (sv_i v) s"
  shows "wp (sfs_bmap p fb doalloc)
    (\<lambda>b s'. \<exists>v'. file_step p v v' s s' \<and> sfi_size (sv_i v') = sfi_size (sv_i v)
       \<and> fblock (sv_i v') (disk s') = fblock (sv_i v) (disk s)
       \<and> b = fmap (sv_i v') (disk s') fb \<and> fb < 143 \<and> (doalloc \<longrightarrow> b \<noteq> 0)
       \<and> (\<not> doalloc \<longrightarrow> v' = v \<and> disk s' = disk s \<and> used s' = used s))
    (\<lambda>e s'. \<exists>v'. file_step p v v' s s' \<and> fblock (sv_i v') (disk s') = fblock (sv_i v) (disk s)
       \<and> (e = EINVAL \<and> 143 \<le> fb \<and> s' = s \<or> e = ENOSPC \<and> doalloc \<and> {..<nblocks s} \<subseteq> used s')) s"
  by (rule wp_mono [OF sfs_bmap_wp [OF assms, of fb doalloc]]) (auto simp: bmap_post_def)

theorem sfs_bmap_keeps_contents_witness:
  "wp (sfs_bmap 4096 20 True)
    (\<lambda>b s'. \<exists>v'. file_step 4096 small_vnode v' small_fs s' \<and> sfi_size (sv_i v') = sfi_size (sv_i small_vnode)
       \<and> fblock (sv_i v') (disk s') = fblock (sv_i small_vnode) (disk small_fs)
       \<and> b = fmap (sv_i v') (disk s') 20 \<and> (20::nat) < 143 \<and> (True \<longrightarrow> b \<noteq> 0)
       \<and> (\<not> True \<longrightarrow> v' = small_vnode \<and> disk s' = disk small_fs \<and> used s' = used small_fs))
    (\<lambda>e s'. \<exists>v'. file_step 4096 small_vnode v' small_fs s'
       \<and> fblock (sv_i v') (disk s') = fblock (sv_i small_vnode) (disk small_fs)
       \<and> (e = EINVAL \<and> 143 \<le> (20::nat) \<and> s' = small_fs
          \<or> e = ENOSPC \<and> True \<and> {..<nblocks small_fs} \<subseteq> used s')) small_fs"
  by (rule sfs_bmap_keeps_contents) (simp_all add: small_fs_wf small_vnode_def empty_file_wf)

end
