(* ===== verification/SfsFile.thy ===== *)
theory SfsFile
  imports SfsAlloc
begin

text \<open>
  File input and output of sfs: \<open>sfs_partialio\<close>, \<open>sfs_blockio\<close>, \<open>sfs_io\<close> and \<open>sfs_truncate\<close> of
  kern/fs/sfs/sfs_vnode.c, and their specification on the contents of files.
\<close>

section \<open>The routines\<close>

text \<open>The state: the file system and the descriptor of the transfer.\<close>

type_synonym fsio = "sfs_fs \<times> uio"

definition on_fs :: "(sfs_fs, 'a) op \<Rightarrow> (fsio, 'a) op" where
  "on_fs m = kzoom fst (\<lambda>t s. (t, snd s)) m"

definition on_uio :: "(uio, 'a) op \<Rightarrow> (fsio, 'a) op" where
  "on_uio m = kzoom snd (\<lambda>u s. (fst s, u)) m"

text \<open>\<open>sfs_rwblock(sfs, uio)\<close> on the descriptor of the state.\<close>

definition io_rwblock :: "(fsio, unit) op" where
  "io_rwblock = kzoom (\<lambda>s. (sfs_device (fst s), snd s))
     (\<lambda>t s. ((fst s)\<lparr>sfs_device := fst t\<rparr>, snd t)) sfs_rwblock"

definition sfs_partialio :: "nat \<Rightarrow> nat \<Rightarrow> nat \<Rightarrow> (fsio, unit) op" where
  "sfs_partialio sv skipstart len =
     kbind (kget snd) (\<lambda>u.
     let doalloc = (uio_dir u = UIO_WRITE) in
     kbind (kassert (u32 (skipstart + len) \<le> SFS_BLOCKSIZE)) (\<lambda>_.
     let fileblock = to_u32 (cdiv (uio_offset u) (int SFS_BLOCKSIZE)) in
     kbind (on_fs (sfs_bmap sv fileblock doalloc)) (\<lambda>diskblock.
     kbind (if diskblock = 0 then
              kbind (kassert (uio_dir u = UIO_READ)) (\<lambda>_. kret (replicate SFS_BLOCKSIZE 0))
            else on_fs (on_device (sfs_rblock diskblock))) (\<lambda>iobuf.
     kbind (on_uio (uiomove_obj iobuf skipstart len)) (\<lambda>iobuf.
     kwhen (uio_dir u = UIO_WRITE) (on_fs (on_device (sfs_wblock iobuf diskblock))))))))"

definition sfs_blockio :: "nat \<Rightarrow> (fsio, unit) op" where
  "sfs_blockio sv =
     kbind (kget snd) (\<lambda>u.
     let doalloc = (uio_dir u = UIO_WRITE);
         fileblock = to_u32 (cdiv (uio_offset u) (int SFS_BLOCKSIZE)) in
     kbind (on_fs (sfs_bmap sv fileblock doalloc)) (\<lambda>diskblock.
     if diskblock = 0 then
       kbind (kassert (uio_dir u = UIO_READ)) (\<lambda>_. on_uio (uiomovezeros SFS_BLOCKSIZE))
     else
       let saveoff = uio_offset u;
           diskoff = off32 (int (u32 (diskblock * SFS_BLOCKSIZE)));
           saveres = uio_resid u in
       kbind (kassert (uio_resid u \<ge> SFS_BLOCKSIZE)) (\<lambda>_.
       kbind (on_uio (kmodify (\<lambda>u. u\<lparr>uio_offset := diskoff, uio_resid := SFS_BLOCKSIZE\<rparr>))) (\<lambda>_.
       kbind (kattempt io_rwblock) (\<lambda>result.
       kbind (on_uio (kmodify (\<lambda>u. u\<lparr>uio_offset := off32 (off32 (uio_offset u - diskoff) + saveoff),
                                    uio_resid := u32 (sub32 (uio_resid u) SFS_BLOCKSIZE + saveres)\<rparr>))) (\<lambda>_.
       kresult result))))))"

text \<open>The part of \<open>sfs_io\<close> before the label \<open>out\<close>.\<close>

definition sfs_io_body :: "nat \<Rightarrow> (fsio, unit) op" where
  "sfs_io_body sv =
     kbind (kget snd) (\<lambda>u.
     let blkoff = to_u32 (cmod (uio_offset u) (int SFS_BLOCKSIZE)) in
     kbind (kwhen (blkoff \<noteq> 0)
              (let skip = blkoff; len = SFS_BLOCKSIZE - blkoff;
                   len = (if len > uio_resid u then uio_resid u else len) in
               sfs_partialio sv skip len)) (\<lambda>_.
     kbind (kget snd) (\<lambda>u.
     if uio_resid u = 0 then kret ()
     else
       kbind (kassert (cmod (uio_offset u) (int SFS_BLOCKSIZE) = 0)) (\<lambda>_.
       let nblocks = uio_resid u div SFS_BLOCKSIZE in
       kbind (kfor [0..<nblocks] (\<lambda>_. sfs_blockio sv)) (\<lambda>_.
       kbind (kget snd) (\<lambda>u.
       kbind (kassert (uio_resid u < SFS_BLOCKSIZE)) (\<lambda>_.
       kwhen (uio_resid u > 0) (sfs_partialio sv 0 (uio_resid u)))))))))"

text \<open>The part after the label: adjust the file length, and give back the excess residue.\<close>

definition sfs_io_out :: "nat \<Rightarrow> nat \<Rightarrow> errno + unit \<Rightarrow> (fsio, unit) op" where
  "sfs_io_out sv extraresid result =
     kbind (kget snd) (\<lambda>u.
     kbind (on_fs (sv_get sv)) (\<lambda>v.
     kbind (kwhen (uio_dir u = UIO_WRITE \<and> uio_offset u > off32 (int (sfi_size (sv_i v))))
              (on_fs (sv_upd sv (\<lambda>v. v\<lparr>sv_i := (sv_i v)\<lparr>sfi_size := to_u32 (uio_offset u)\<rparr>,
                                      sv_dirty := True\<rparr>)))) (\<lambda>_.
     kbind (on_uio (kmodify (\<lambda>u. u\<lparr>uio_resid := u32 (uio_resid u + extraresid)\<rparr>))) (\<lambda>_.
     kresult result))))"

definition sfs_io :: "nat \<Rightarrow> (fsio, unit) op" where
  "sfs_io sv =
     kbind (kget snd) (\<lambda>u.
     kbind (on_fs (sv_get sv)) (\<lambda>v.
     let sz = off32 (int (sfi_size (sv_i v)));
         endpos = off32 (uio_offset u + int (uio_resid u)) in
     if uio_dir u = UIO_READ \<and> uio_offset u \<ge> sz then kret ()
     else
       let extraresid = (if uio_dir u = UIO_READ \<and> endpos > sz then to_u32 (endpos - sz) else 0) in
       kbind (kwhen (uio_dir u = UIO_READ \<and> endpos > sz)
                (kbind (kassert (uio_resid u > extraresid)) (\<lambda>_.
                 on_uio (kmodify (\<lambda>u. u\<lparr>uio_resid := sub32 (uio_resid u) extraresid\<rparr>))))) (\<lambda>_.
       kbind (kattempt (sfs_io_body sv)) (sfs_io_out sv extraresid))))"

section \<open>Contents\<close>

text \<open>
  The contents of a file as a function from block numbers to blocks; the bytes from \<open>off\<close> on; and
  the contents with the bytes \<open>bs\<close> written from \<open>off\<close> on.
\<close>

definition file_range :: "(nat \<Rightarrow> byte list) \<Rightarrow> nat \<Rightarrow> nat \<Rightarrow> byte list" where
  "file_range f off n = map (\<lambda>o'. f (o' div 512) ! (o' mod 512)) [off..<off + n]"

definition overlay :: "(nat \<Rightarrow> byte list) \<Rightarrow> nat \<Rightarrow> byte list \<Rightarrow> nat \<Rightarrow> byte list" where
  "overlay f off bs = (\<lambda>k. map (\<lambda>j. let o' = k * 512 + j in
     if off \<le> o' \<and> o' < off + length bs then bs ! (o' - off) else f k ! j) [0..<512])"

lemma length_file_range [simp]: "length (file_range f off n) = n"
  by (simp add: file_range_def)

lemma file_range_append: "file_range f off a @ file_range f (off + a) b = file_range f off (a + b)"
  by (rule nth_equalityI) (auto simp: file_range_def nth_append add.assoc)

lemma file_range_block:
  assumes "length (f k) = 512" and "skip + n \<le> 512"
  shows "file_range f (k * 512 + skip) n = take n (drop skip (f k))"
proof (rule nth_equalityI)
  show "file_range f (k * 512 + skip) n ! j = take n (drop skip (f k)) ! j"
    if "j < length (file_range f (k * 512 + skip) n)" for j
  proof -
    have j: "j < n" using that by simp
    then have "skip + j < 512" using assms by simp
    then have "(k * 512 + (skip + j)) div 512 = k" "(k * 512 + (skip + j)) mod 512 = skip + j"
      by simp_all
    then show ?thesis using j assms by (simp add: file_range_def add.assoc)
  qed
qed (use assms in simp)

lemma overlay_nth:
  assumes "j < 512"
  shows "overlay f off bs k ! j =
    (if off \<le> k * 512 + j \<and> k * 512 + j < off + length bs then bs ! (k * 512 + j - off) else f k ! j)"
  using assms by (simp add: overlay_def Let_def)

lemma length_overlay [simp]: "length (overlay f off bs k) = 512"
  by (simp add: overlay_def)

lemma overlay_Nil: "\<forall>k. length (f k) = 512 \<Longrightarrow> overlay f off [] = f"
  by (intro ext nth_equalityI) (auto simp: overlay_nth)

lemma overlay_append: "overlay (overlay f off xs) (off + length xs) ys = overlay f off (xs @ ys)"
proof (intro ext nth_equalityI)
  fix k j
  assume "j < length (overlay (overlay f off xs) (off + length xs) ys k)"
  then have j: "j < 512" by simp
  let ?o = "k * 512 + j"
  consider "?o < off" | "off \<le> ?o" "?o < off + length xs" | "off + length xs \<le> ?o" by linarith
  then show "overlay (overlay f off xs) (off + length xs) ys k ! j = overlay f off (xs @ ys) k ! j"
  proof cases
    case 1
    then show ?thesis using j by (simp add: overlay_nth)
  next
    case 2
    then have "?o - off < length xs" by linarith
    then show ?thesis using j 2 by (simp add: overlay_nth nth_append)
  next
    case 3
    then have "?o - off - length xs = ?o - (off + length xs)" "\<not> ?o - off < length xs" by linarith+
    then show ?thesis using j 3 by (simp add: overlay_nth nth_append)
  qed
qed simp

text \<open>Replacing part of one block is an overlay.\<close>

lemma overlay_block:
  assumes "\<forall>k. length (f k) = 512" and "skip + length bs \<le> 512"
  shows "f(k := put_at skip bs (f k)) = overlay f (k * 512 + skip) bs"
proof (intro ext nth_equalityI)
  fix k' j
  show "length ((f(k := put_at skip bs (f k))) k') = length (overlay f (k * 512 + skip) bs k')"
    using assms by simp
  assume "j < length ((f(k := put_at skip bs (f k))) k')"
  then have j: "j < 512" using assms by (simp split: if_splits)
  show "(f(k := put_at skip bs (f k))) k' ! j = overlay f (k * 512 + skip) bs k' ! j"
  proof (cases "k' = k")
    case True
    have "nth (put_at skip bs (f k)) j = (if skip \<le> j \<and> j < skip + length bs then bs ! (j - skip) else f k ! j)"
      using assms j by (intro nth_put_at) simp_all
    moreover have "k * 512 + j - (k * 512 + skip) = j - skip" by simp
    ultimately show ?thesis using True j by (simp add: overlay_nth)
  next
    case False
    then have "\<not> (k * 512 + skip \<le> k' * 512 + j \<and> k' * 512 + j < k * 512 + skip + length bs)"
      using j assms(2) by linarith
    then show ?thesis using False j by (auto simp: overlay_nth)
  qed
qed

lemma fblock_length:
  assumes "fs_wf s" and "file_wf i s"
  shows "length (fblock i (disk s) k) = 512"
  using assms file_wf_block(2) [OF assms(2), of k]
  by (auto simp: fblock_def zeros_def intro: fs_wf_block_length)

section \<open>Progress of a transfer\<close>

text \<open>
  \<open>io_prog p v s u n v' s' u'\<close>: \<open>n\<close> bytes of the transfer \<open>u\<close> have been done on the file with vnode
  \<open>p\<close>. Reading has delivered the bytes of the file from the offset on and changed nothing else;
  writing has overlaid the contents of the file with the bytes of the caller. A transfer that has
  done anything has stayed within the reach of the block map (\<open>io_reach\<close>: 143 blocks).
\<close>

definition io_reach :: "uio \<Rightarrow> nat \<Rightarrow> bool" where
  "io_reach u n \<longleftrightarrow> n = 0 \<or> nat (uio_offset u) + n \<le> 73216"

lemma io_reach_0 [simp]: "io_reach u 0"
  by (simp add: io_reach_def)

definition io_prog :: "nat \<Rightarrow> sfs_vnode \<Rightarrow> sfs_fs \<Rightarrow> uio \<Rightarrow> nat \<Rightarrow> sfs_vnode \<Rightarrow> sfs_fs \<Rightarrow> uio \<Rightarrow> bool" where
  "io_prog p v s u n v' s' u' \<longleftrightarrow> file_step p v v' s s' \<and> sfi_size (sv_i v') = sfi_size (sv_i v)
     \<and> uio_valid u' \<and> n \<le> uio_resid u \<and> io_reach u n \<and> mapped (uio_mem u) (iov_base u) n
     \<and> (case uio_dir u of
          UIO_READ \<Rightarrow> v' = v \<and> disk s' = disk s \<and> used s' = used s
            \<and> u' = uio_moved n (mem_upd (iov_base u)
                (file_range (fblock (sv_i v) (disk s)) (nat (uio_offset u)) n) (uio_mem u)) u
        | UIO_WRITE \<Rightarrow> fblock (sv_i v') (disk s')
              = overlay (fblock (sv_i v) (disk s)) (nat (uio_offset u)) (mem_bytes (uio_mem u) (iov_base u) n)
            \<and> u' = uio_moved n (uio_mem u) u)"

text \<open>A failed transfer has done a part of it, and failed for one of three reasons.\<close>

definition io_why :: "uio \<Rightarrow> errno \<Rightarrow> sfs_fs \<Rightarrow> bool" where
  "io_why u e s' \<longleftrightarrow> e = EFAULT \<and> uio_segflg u \<noteq> UIO_SYSSPACE
     \<or> e = ENOSPC \<and> uio_dir u = UIO_WRITE \<and> {..<nblocks s'} \<subseteq> used s'
     \<or> e = EINVAL \<and> 73216 < uio_offset u + int (uio_resid u)"

text \<open>Where a failed write can stop: at its start, or at a block boundary inside it.\<close>

definition io_stop :: "uio \<Rightarrow> nat \<Rightarrow> bool" where
  "io_stop u n \<longleftrightarrow> (uio_dir u = UIO_WRITE \<longrightarrow> n < uio_resid u \<and> (n = 0 \<or> 512 dvd nat (uio_offset u) + n))"

lemma io_stop_0: "0 < uio_resid u \<Longrightarrow> io_stop u 0"
  by (simp add: io_stop_def)

definition io_err :: "nat \<Rightarrow> sfs_vnode \<Rightarrow> sfs_fs \<Rightarrow> uio \<Rightarrow> errno \<Rightarrow> fsio \<Rightarrow> bool" where
  "io_err p v s u e t \<longleftrightarrow> (\<exists>n v' u' m. io_prog p v s u n v' (fst t) u' \<and> snd t = u'\<lparr>uio_mem := m\<rparr>
     \<and> io_why u e (fst t) \<and> io_stop u n)"

text \<open>The conditions under which the routines run.\<close>

definition io_pre :: "nat \<Rightarrow> sfs_vnode \<Rightarrow> sfs_fs \<Rightarrow> uio \<Rightarrow> bool" where
  "io_pre p v s u \<longleftrightarrow> fs_wf s \<and> sv_heap s p = Some v \<and> file_wf (sv_i v) s \<and> uio_valid u"

lemma io_pre_length: "io_pre p v s u \<Longrightarrow> \<forall>k. length (fblock (sv_i v) (disk s) k) = 512"
  unfolding io_pre_def using fblock_length by blast

lemma io_prog_bmap:
  assumes "bmap_post p v s v' s'" and "io_pre p v s u"
    and "uio_dir u = UIO_READ \<longrightarrow> v' = v \<and> disk s' = disk s \<and> used s' = used s"
  shows "io_prog p v s u 0 v' s' u"
  using assms overlay_Nil [OF io_pre_length [OF assms(2)]] unfolding bmap_post_def io_prog_def io_pre_def
  by (auto simp: mem_bytes_def mapped_def file_range_def uio_moved_0 split: uio_rw.splits)

lemma io_prog_refl: "io_pre p v s u \<Longrightarrow> io_prog p v s u 0 v s u"
  by (rule io_prog_bmap) (auto simp: io_pre_def intro: bmap_post_refl)

lemma io_prog_pre: "io_prog p v s u n v' s' u' \<Longrightarrow> io_pre p v' s' u'"
  unfolding io_prog_def io_pre_def using file_stepD by blast

lemma io_prog_uio:
  assumes "io_prog p v s u n v' s' u'" and "uio_valid u"
  shows "uio_dir u' = uio_dir u" "uio_segflg u' = uio_segflg u" "uio_offset u' = uio_offset u + int n"
    "uio_resid u' = uio_resid u - n" "n \<le> uio_resid u" "iov_base u' = iov_base u + n"
    "uio_offset u' + int (uio_resid u') = uio_offset u + int (uio_resid u)"
  using assms by (auto simp: io_prog_def split: uio_rw.splits)

lemma mem_bytes_append: "mem_bytes m a i @ mem_bytes m (a + i) j = mem_bytes m a (i + j)"
  by (rule nth_equalityI) (auto simp: nth_append mem_bytes_def add.assoc)

lemma io_prog_trans:
  assumes pre: "uio_valid u" and 1: "io_prog p v s u a w t x" and 2: "io_prog p w t x b y r z"
  shows "io_prog p v s u (a + b) y r z"
proof -
  note ux = io_prog_uio [OF 1 pre]
  have st: "file_step p v y s r"
    using file_step_trans [of p v w s t y r] 1 2 by (simp add: io_prog_def)
  have off: "nat (uio_offset x) = nat (uio_offset u) + a"
    using ux(3) pre by (simp add: uio_valid_def nat_add_distrib)
  then have off': "nat (uio_offset u + int a) = nat (uio_offset u) + a" using ux(3) by simp
  have all: "sfi_size (sv_i y) = sfi_size (sv_i v)" "uio_valid z" "a + b \<le> uio_resid u"
    using 1 2 ux(4,5) unfolding io_prog_def by (simp, simp, linarith)
  have rc: "io_reach u (a + b)"
    using 1 2 off unfolding io_prog_def io_reach_def by auto
  show ?thesis
  proof (cases "uio_dir u")
    case UIO_READ
    have x: "w = v" "disk t = disk s" "used t = used s"
      "x = uio_moved a (mem_upd (iov_base u) (file_range (fblock (sv_i v) (disk s)) (nat (uio_offset u)) a) (uio_mem u)) u"
      and m: "mapped (uio_mem u) (iov_base u) a"
      using 1 UIO_READ by (auto simp: io_prog_def)
    have z: "y = w" "disk r = disk t" "used r = used t"
      "z = uio_moved b (mem_upd (iov_base x) (file_range (fblock (sv_i w) (disk t)) (nat (uio_offset x)) b) (uio_mem x)) x"
      and m': "mapped (uio_mem x) (iov_base x) b"
      using 2 UIO_READ ux(1) by (auto simp: io_prog_def)
    have "mem_upd (iov_base x) (file_range (fblock (sv_i w) (disk t)) (nat (uio_offset x)) b) (uio_mem x)
      = mem_upd (iov_base u) (file_range (fblock (sv_i v) (disk s)) (nat (uio_offset u)) (a + b)) (uio_mem u)"
      using mem_upd_append [of "iov_base u" "file_range (fblock (sv_i v) (disk s)) (nat (uio_offset u)) a"
          "file_range (fblock (sv_i v) (disk s)) (nat (uio_offset u) + a) b" "uio_mem u"]
      by (simp add: x off' file_range_append)
    then have "z = uio_moved (a + b) (mem_upd (iov_base u) (file_range (fblock (sv_i v) (disk s))
        (nat (uio_offset u)) (a + b)) (uio_mem u)) u"
      unfolding z(4) x(4) uio_moved_moved by (simp add: x(1,2))
    moreover have "mapped (uio_mem u) (iov_base u) (a + b)"
      using m m' mapped_upd_above [of "iov_base u" "file_range (fblock (sv_i v) (disk s)) (nat (uio_offset u)) a"]
      by (simp add: mapped_add x(4))
    moreover have "y = v" "disk r = disk s" "used r = used s" using x(1-3) z(1-3) by simp_all
    ultimately show ?thesis unfolding io_prog_def UIO_READ uio_rw.case using st all rc by blast
  next
    case UIO_WRITE
    have x: "x = uio_moved a (uio_mem u) u" "mapped (uio_mem u) (iov_base u) a"
      "fblock (sv_i w) (disk t) = overlay (fblock (sv_i v) (disk s)) (nat (uio_offset u)) (mem_bytes (uio_mem u) (iov_base u) a)"
      using 1 UIO_WRITE by (auto simp: io_prog_def)
    have z: "z = uio_moved b (uio_mem x) x" "mapped (uio_mem x) (iov_base x) b"
      "fblock (sv_i y) (disk r) = overlay (fblock (sv_i w) (disk t)) (nat (uio_offset x)) (mem_bytes (uio_mem x) (iov_base x) b)"
      using 2 UIO_WRITE ux(1) by (auto simp: io_prog_def)
    have "fblock (sv_i y) (disk r) = overlay (fblock (sv_i v) (disk s)) (nat (uio_offset u))
        (mem_bytes (uio_mem u) (iov_base u) (a + b))"
      using overlay_append [of "fblock (sv_i v) (disk s)" "nat (uio_offset u)" "mem_bytes (uio_mem u) (iov_base u) a"
          "mem_bytes (uio_mem u) (iov_base u + a) b"]
      by (simp add: z(3) x off' mem_bytes_append)
    moreover have "z = uio_moved (a + b) (uio_mem u) u" unfolding z(1) x(1) uio_moved_moved by simp
    moreover have "mapped (uio_mem u) (iov_base u) (a + b)" using x z by (simp add: mapped_add)
    ultimately show ?thesis unfolding io_prog_def UIO_WRITE uio_rw.case using st all rc by blast
  qed
qed

lemma io_err_trans:
  assumes "uio_valid u" and "io_prog p v s u a w t x" and "io_err p w t x e r"
    and at: "a = 0 \<or> 512 dvd nat (uio_offset u) + a"
  shows "io_err p v s u e r"
proof -
  obtain n v' u' m where n: "io_prog p w t x n v' (fst r) u'" "snd r = u'\<lparr>uio_mem := m\<rparr>" "io_why x e (fst r)"
      "io_stop x n" using assms(3) unfolding io_err_def by blast
  have "io_prog p v s u (a + n) v' (fst r) u'" by (rule io_prog_trans [OF assms(1,2) n(1)])
  moreover have "io_why u e (fst r)"
    using n(3) io_prog_uio [OF assms(2,1)] unfolding io_why_def by simp
  moreover have "io_stop u (a + n)"
  proof -
    note x = io_prog_uio [OF assms(2,1)]
    have "nat (uio_offset x) = nat (uio_offset u) + a" using x(3) assms(1) by (simp add: uio_valid_def nat_add_distrib)
    then show ?thesis using n(4) x(1,4,5) at unfolding io_stop_def by (auto simp: add.assoc)
  qed
  ultimately show ?thesis using n(2) unfolding io_err_def by blast
qed

section \<open>Part of a block\<close>

text \<open>Writing one of the blocks of a file.\<close>

lemma write_block:
  assumes pre: "fs_wf t" "sv_heap t p = Some v" "file_wf (sv_i v) t"
    and b: "fmap (sv_i v) (disk t) fb \<noteq> 0"
    and t': "fs_wf t'" "fs_same t t'" "disk t' = (disk t)[fmap (sv_i v) (disk t) fb := data]" "used t' = used t"
      "sv_heap t' = sv_heap t"
  shows "file_step p v v t t'" "fblock (sv_i v) (disk t') = (fblock (sv_i v) (disk t))(fb := data)"
proof -
  let ?i = "sv_i v" and ?b = "fmap (sv_i v) (disk t) fb"
  have fb: "fb < 143" using b by (auto simp: fmap_def split: if_splits)
  have bl: "?b < length (disk t)" "?b \<noteq> sfi_indirect ?i"
    using file_wf_block(2) [OF pre(3) b] pre(1,3) b fb by (auto simp: fs_wf_def file_wf_def)
  have "id_entries ?i (disk t') = id_entries ?i (disk t)" using bl t'(3) by (simp add: id_entries_def)
  then have map: "fmap ?i (disk t') = fmap ?i (disk t)" by (simp add: fmap_def fun_eq_iff)
  have own: "owned ?i (disk t') = owned ?i (disk t)" by (simp add: owned_def map)
  have wf: "file_wf ?i t'"
    using pre(3) fs_same_nblocks [OF t'(2)] by (simp add: file_wf_def map own t'(4))
  have other: "disk t' ! x = disk t ! x" if "x \<noteq> ?b" for x using that t'(3) by simp
  have new: "disk t' ! ?b = data" using bl(1) t'(3) by simp
  have "\<forall>x \<in> used t - owned ?i (disk t). disk t' ! x = disk t ! x"
    using file_wf_block(3) [OF pre(3) b] other by (metis DiffD2)
  then show "file_step p v v t t'"
    using pre t' wf own by (auto simp: file_step_def fun_upd_idem)
  have inj: "fmap ?i (disk t) k \<noteq> ?b" if "k \<noteq> fb" "fmap ?i (disk t) k \<noteq> 0" for k
  proof -
    have "k < 143" using that by (auto simp: fmap_def split: if_splits)
    then show ?thesis using pre(3) that fb unfolding file_wf_def by metis
  qed
  show "fblock ?i (disk t') = (fblock ?i (disk t))(fb := data)"
    using inj other new b by (auto simp: fblock_def map fun_eq_iff)
qed

lemma io_pos:
  assumes "uio_valid u" and "uio_offset u = int (fb * 512 + skip)" and "skip < 512"
  shows "to_u32 (cdiv (uio_offset u) (int SFS_BLOCKSIZE)) = fb"
    "to_u32 (cmod (uio_offset u) (int SFS_BLOCKSIZE)) = skip"
    "cmod (uio_offset u) (int SFS_BLOCKSIZE) = int skip"
    "fb < 4194304"
proof -
  define n where "n = fb * 512 + skip"
  have n: "n div 512 = fb" "n mod 512 = skip" "uio_offset u = int n"
    using assms(2,3) unfolding n_def by simp_all
  have "n < 2147483648" using assms(1) n(3) by (simp add: uio_valid_def)
  then show fb: "fb < 4194304" unfolding n(1) [symmetric] by linarith
  have "cdiv (int n) (int 512) = int fb" "cmod (int n) (int 512) = int skip"
    unfolding n(1,2) [symmetric] by (simp_all add: cdiv_def cmod_def zdiv_int zmod_int)
  then show "to_u32 (cdiv (uio_offset u) (int SFS_BLOCKSIZE)) = fb"
    "to_u32 (cmod (uio_offset u) (int SFS_BLOCKSIZE)) = skip"
    "cmod (uio_offset u) (int SFS_BLOCKSIZE) = int skip"
    using fb assms(3) by (simp_all add: n(3) SFS_BLOCKSIZE_def)
qed

lemma wp_on_fs: "wp (on_fs m) Q R = (\<lambda>s. wp m (\<lambda>x t. Q x (t, snd s)) (\<lambda>e t. R e (t, snd s)) (fst s))"
  by (simp add: on_fs_def wps)

lemma wp_on_uio: "wp (on_uio m) Q R = (\<lambda>s. wp m (\<lambda>x u. Q x (fst s, u)) (\<lambda>e u. R e (fst s, u)) (snd s))"
  by (simp add: on_uio_def wps)

text \<open>Looking up the block of the current offset.\<close>

lemma io_bmap_wp:
  assumes pre: "io_pre p v s u" and d: "doalloc = (uio_dir u = UIO_WRITE)"
    and pos: "uio_offset u = int (fb * 512 + skip)" and res: "0 < uio_resid u"
  shows "wp (on_fs (sfs_bmap p fb doalloc))
    (\<lambda>b t. snd t = u \<and> fb < 143 \<and> (\<exists>v'. io_prog p v s u 0 v' (fst t) u \<and> b = fmap (sv_i v') (disk (fst t)) fb
       \<and> (uio_dir u = UIO_WRITE \<longrightarrow> b \<noteq> 0)))
    (io_err p v s u) (s, u)"
proof -
  have pre': "fs_wf s" "sv_heap s p = Some v" "file_wf (sv_i v) s" using pre by (auto simp: io_pre_def)
  show ?thesis unfolding wp_on_fs fst_conv snd_conv
  proof (rule wp_mono [OF sfs_bmap_wp [OF pre', of fb doalloc]])
    fix b t
    assume "\<exists>v'. bmap_post p v s v' t \<and> b = fmap (sv_i v') (disk t) fb \<and> fb < 143 \<and> (doalloc \<longrightarrow> b \<noteq> 0)
       \<and> (\<not> doalloc \<longrightarrow> v' = v \<and> disk t = disk s \<and> used t = used s)"
    then show "u = u \<and> fb < 143 \<and> (\<exists>v'. io_prog p v s u 0 v' t u \<and> b = fmap (sv_i v') (disk t) fb
        \<and> (uio_dir u = UIO_WRITE \<longrightarrow> b \<noteq> 0))"
      using io_prog_bmap [OF _ pre] d by (cases "uio_dir u") auto
  next
    fix e t
    assume "\<exists>v'. bmap_post p v s v' t
       \<and> (e = EINVAL \<and> 143 \<le> fb \<and> t = s \<or> e = ENOSPC \<and> doalloc \<and> {..<nblocks s} \<subseteq> used t)"
    then obtain v' where v': "bmap_post p v s v' t"
      "e = EINVAL \<and> 143 \<le> fb \<and> t = s \<or> e = ENOSPC \<and> doalloc \<and> {..<nblocks s} \<subseteq> used t" by blast
    show "io_err p v s u e (t, u)"
    proof (cases "e = EINVAL \<and> 143 \<le> fb \<and> t = s")
      case True
      then have "io_why u e t" using pos res by (simp add: io_why_def)
      then show ?thesis using io_prog_refl [OF pre] True io_stop_0 [OF res] unfolding io_err_def
        by (intro exI [of _ 0] exI [of _ v] exI [of _ u] exI [of _ "uio_mem u"]) simp
    next
      case False
      then have e: "e = ENOSPC" "uio_dir u = UIO_WRITE" "{..<nblocks s} \<subseteq> used t" using v'(2) d by auto
      have "nblocks t = nblocks s" using v'(1) fs_same_nblocks by (auto simp: bmap_post_def file_step_def)
      then have "io_why u e t" using e by (simp add: io_why_def)
      then show ?thesis using io_prog_bmap [OF v'(1) pre] e io_stop_0 [OF res] unfolding io_err_def
        by (intro exI [of _ 0] exI [of _ v'] exI [of _ u] exI [of _ "uio_mem u"]) simp
    qed
  qed
qed

text \<open>Loading the block into the buffer; a hole reads as zeros.\<close>

lemma io_load_wp:
  assumes pre: "io_pre p v s u" and b: "b = fmap (sv_i v) (disk s) fb" "uio_dir u = UIO_WRITE \<longrightarrow> b \<noteq> 0"
  shows "wp (if b = 0 then kbind (kassert (uio_dir u = UIO_READ)) (\<lambda>_. kret (replicate SFS_BLOCKSIZE 0))
             else on_fs (on_device (sfs_rblock b)))
    (\<lambda>d t. d = fblock (sv_i v) (disk s) fb \<and> snd t = u \<and> io_prog p v s u 0 v (fst t) u
       \<and> disk (fst t) = disk s) (\<lambda>_ _. False) (s, u)"
proof (cases "b = 0")
  case True
  then have "uio_dir u = UIO_READ" using b(2) by (cases "uio_dir u") auto
  then show ?thesis using True b(1) io_prog_refl [OF pre]
    by (simp add: wps fblock_def zeros_def SFS_BLOCKSIZE_def)
next
  case False
  have pre': "fs_wf s" "sv_heap s p = Some v" "file_wf (sv_i v) s" using pre by (auto simp: io_pre_def)
  have lt: "b < nblocks s" using file_wf_block(2) [OF pre'(3), of fb] False b(1) by simp
  have st: "bmap_post p v s v t"
    if "fs_wf t" "fs_same s t" "disk t = disk s" "used t = used s" "sv_heap t = sv_heap s" for t
    using that pre' fs_same_nblocks [of s t] by (auto simp: bmap_post_def file_step_def file_wf_def fun_upd_idem)
  show ?thesis unfolding if_not_P [OF False] wp_on_fs fst_conv snd_conv
    by (rule wp_mono [OF rblock_wp [OF pre'(1) lt]])
      (use False b(1) st io_prog_bmap [OF _ pre] in \<open>auto simp: fblock_def\<close>)
qed

lemma uio_fault_io_err:
  assumes "io_prog p v s u n v' s' u'" and "uio_valid u" and "e = EFAULT" and "uio_segflg u \<noteq> UIO_SYSSPACE"
    and "t = u'\<lparr>uio_mem := m\<rparr>" and "io_stop u n"
  shows "io_err p v s u e (s', t)"
  using assms unfolding io_err_def io_why_def
  by (intro exI [of _ n] exI [of _ v'] exI [of _ u'] exI [of _ m]) simp

text \<open>Moving part of a loaded block to or from the caller, and writing it back.\<close>

lemma io_move_wp:
  assumes pre: "io_pre p v s u" and pos: "uio_offset u = int (fb * 512 + skip)" "skip + len \<le> 512" "len \<le> uio_resid u"
    and len: "0 < len" and fb: "fb < 143" and b: "b = fmap (sv_i v) (disk s) fb" "uio_dir u = UIO_WRITE \<longrightarrow> b \<noteq> 0"
  shows "wp (kbind (on_uio (uiomove_obj (fblock (sv_i v) (disk s) fb) skip len)) (\<lambda>iobuf.
      kwhen (uio_dir u = UIO_WRITE) (on_fs (on_device (sfs_wblock iobuf b)))))
    (\<lambda>_ t. \<exists>v'. io_prog p v s u len v' (fst t) (snd t)) (io_err p v s u) (s, u)"
proof -
  let ?f = "fblock (sv_i v) (disk s)"
  have pre': "fs_wf s" "sv_heap s p = Some v" "file_wf (sv_i v) s" "uio_valid u" using pre by (auto simp: io_pre_def)
  note fl = io_pre_length [OF pre]
  have off: "nat (uio_offset u) = fb * 512 + skip" using pos(1) by simp
  have refl: "file_step p v v s s" by (rule file_step_refl [OF pre'(1-3)])
  have rc: "io_reach u len" using fb pos(2) by (simp add: io_reach_def off)
  show ?thesis unfolding wp_kbind wp_on_uio fst_conv snd_conv
  proof (rule wp_mono [OF uiomove_obj_wp [OF pre'(4) pos(3)]])
    show "skip + len \<le> length (?f fb)" using fl pos(2) by simp
  next
    fix k' u'
    assume m: "moved_ok skip len (?f fb) u (k', u') \<and> uio_valid u'"
    show "wp (kwhen (uio_dir u = UIO_WRITE) (on_fs (on_device (sfs_wblock k' b))))
      (\<lambda>_ t. \<exists>v'. io_prog p v s u len v' (fst t) (snd t)) (io_err p v s u) (s, u')"
    proof (cases "uio_dir u")
      case UIO_READ
      have "take len (drop skip (?f fb)) = file_range ?f (fb * 512 + skip) len"
        using file_range_block [of ?f fb skip len] fl pos(2) by simp
      then have "io_prog p v s u len v s u'"
        using m refl pos(3) rc unfolding io_prog_def moved_ok_def UIO_READ uio_rw.case off by auto
      then show ?thesis using UIO_READ by (auto simp: wps)
    next
      case UIO_WRITE
      let ?d = "mem_bytes (uio_mem u) (iov_base u) len"
      have k': "k' = put_at skip ?d (?f fb)" "u' = uio_moved len (uio_mem u) u" "mapped (uio_mem u) (iov_base u) len"
        using m UIO_WRITE by (auto simp: moved_ok_def)
      have nz: "fmap (sv_i v) (disk s) fb \<noteq> 0" using b UIO_WRITE by simp
      have lt: "b < nblocks s" using file_wf_block(2) [OF pre'(3) nz] b(1) by simp
      have kl: "length k' = 512" using k'(1) fl pos(2) by simp
      have ov: "?f(fb := k') = overlay ?f (fb * 512 + skip) ?d"
        unfolding k'(1) using fl pos(2) by (intro overlay_block) simp_all
      have "wp (on_device (sfs_wblock k' b)) (\<lambda>_ t. io_prog p v s u len v t u') (\<lambda>_ _. False) s"
      proof (rule wp_mono [OF wblock_wp [OF pre'(1) lt kl]])
        fix x t
        assume t: "fs_wf t \<and> fs_same s t \<and> disk t = (disk s)[b := k'] \<and> used t = used s \<and> sv_heap t = sv_heap s"
        note wb = write_block [OF pre'(1-3) nz, of t k']
        have "file_step p v v s t" "fblock (sv_i v) (disk t) = ?f(fb := k')"
          using wb t b(1) by auto
        then show "io_prog p v s u len v t u'"
          unfolding io_prog_def UIO_WRITE uio_rw.case off using m k'(2,3) pos(3) ov rc by simp
      qed simp
      then have "wp (on_device (sfs_wblock k' b)) (\<lambda>_ t. \<exists>v'. io_prog p v s u len v' t u')
          (\<lambda>e t. io_err p v s u e (t, u')) s"
        by (rule wp_mono) auto
      then show ?thesis using UIO_WRITE by (simp add: wp_kwhen wp_on_fs)
    qed
  next
    fix e u'
    assume "\<exists>k'. moved_fault len (?f fb) u e (k', u')"
    then obtain m where "e = EFAULT" "uio_segflg u \<noteq> UIO_SYSSPACE" "u' = u\<lparr>uio_mem := m\<rparr>"
      by (auto simp: moved_fault_def)
    then show "io_err p v s u e (s, u')"
      by (rule uio_fault_io_err [OF io_prog_refl [OF pre] pre'(4)]) (use len pos(3) in \<open>simp add: io_stop_0\<close>)
  qed
qed

text \<open>\<open>sfs_partialio\<close> transfers \<open>len\<close> bytes within one block.\<close>

lemma sfs_partialio_wp:
  assumes pre: "io_pre p v s u" and pos: "uio_offset u = int (fb * 512 + skip)" "skip + len \<le> 512" "len \<le> uio_resid u"
    and len: "0 < len"
  shows "wp (sfs_partialio p skip len) (\<lambda>_ t. \<exists>v'. io_prog p v s u len v' (fst t) (snd t)) (io_err p v s u) (s, u)"
proof -
  have uv: "uio_valid u" using pre by (simp add: io_pre_def)
  have sk: "u32 (skip + len) \<le> SFS_BLOCKSIZE" using pos(2) by (simp add: SFS_BLOCKSIZE_def)
  have fb: "to_u32 (cdiv (uio_offset u) (int SFS_BLOCKSIZE)) = fb"
    by (rule io_pos [OF uv pos(1)]) (use len pos(2) in linarith)
  show ?thesis
    unfolding sfs_partialio_def wp_kbind wp_kget wp_kassert Let_def snd_conv fb
  proof (rule conjI [OF sk], rule wp_mono [OF io_bmap_wp [OF pre refl pos(1)]])
    show "0 < uio_resid u" using len pos(3) by simp
  next
    fix b t
    assume "snd t = u \<and> fb < 143 \<and> (\<exists>v'. io_prog p v s u 0 v' (fst t) u \<and> b = fmap (sv_i v') (disk (fst t)) fb
       \<and> (uio_dir u = UIO_WRITE \<longrightarrow> b \<noteq> 0))"
    then obtain v1 s1 where t: "t = (s1, u)" and 1: "io_prog p v s u 0 v1 s1 u"
      and b: "b = fmap (sv_i v1) (disk s1) fb" "uio_dir u = UIO_WRITE \<longrightarrow> b \<noteq> 0" and lt: "fb < 143"
      by (cases t) auto
    have pre1: "io_pre p v1 s1 u" by (rule io_prog_pre [OF 1])
    show "wp (if b = 0 then kbind (kassert (uio_dir u = UIO_READ)) (\<lambda>_. kret (replicate SFS_BLOCKSIZE 0))
              else on_fs (on_device (sfs_rblock b)))
       (\<lambda>iobuf. wp (on_uio (uiomove_obj iobuf skip len)) (\<lambda>iobuf. wp (kwhen (uio_dir u = UIO_WRITE)
           (on_fs (on_device (sfs_wblock iobuf b))))
             (\<lambda>_ t. \<exists>v'. io_prog p v s u len v' (fst t) (snd t)) (io_err p v s u)) (io_err p v s u))
       (io_err p v s u) t"
      unfolding t
    proof (rule wp_mono [OF io_load_wp [OF pre1 b]])
      fix d t2
      assume d: "d = fblock (sv_i v1) (disk s1) fb \<and> snd t2 = u \<and> io_prog p v1 s1 u 0 v1 (fst t2) u
        \<and> disk (fst t2) = disk s1"
      then obtain s2 where t2: "t2 = (s2, u)" and 2: "io_prog p v1 s1 u 0 v1 s2 u" "disk s2 = disk s1"
        by (cases t2) auto
      have 3: "io_prog p v s u 0 v1 s2 u" using io_prog_trans [OF uv 1 2(1)] by simp
      have pre2: "io_pre p v1 s2 u" by (rule io_prog_pre [OF 3])
      have "wp (kbind (on_uio (uiomove_obj (fblock (sv_i v1) (disk s2) fb) skip len)) (\<lambda>iobuf.
         kwhen (uio_dir u = UIO_WRITE) (on_fs (on_device (sfs_wblock iobuf b)))))
         (\<lambda>_ t. \<exists>v'. io_prog p v s u len v' (fst t) (snd t)) (io_err p v s u) (s2, u)"
      proof (rule wp_mono [OF io_move_wp [OF pre2 pos(1-3) len lt]])
        show "b = fmap (sv_i v1) (disk s2) fb" using b 2 by simp
        show "uio_dir u = UIO_WRITE \<longrightarrow> b \<noteq> 0" by (rule b(2))
        show "\<exists>v'. io_prog p v s u len v' (fst t) (snd t)" if "\<exists>v'. io_prog p v1 s2 u len v' (fst t) (snd t)" for t and x :: unit
          using that io_prog_trans [OF uv 3] by fastforce
        show "io_err p v s u e t" if "io_err p v1 s2 u e t" for e t
          by (rule io_err_trans [OF uv 3 that]) simp
      qed
      then show "wp (on_uio (uiomove_obj d skip len)) (\<lambda>iobuf. wp (kwhen (uio_dir u = UIO_WRITE)
           (on_fs (on_device (sfs_wblock iobuf b))))
             (\<lambda>_ t. \<exists>v'. io_prog p v s u len v' (fst t) (snd t)) (io_err p v s u)) (io_err p v s u) t2"
        using d t2 2(2) by (simp only: wp_kbind)
    qed simp
  qed
qed

section \<open>Whole blocks\<close>

text \<open>The descriptor \<open>sfs_blockio\<close> hands to the device: disk offset, and one block of residue.\<close>

definition disk_uio :: "nat \<Rightarrow> uio \<Rightarrow> uio" where
  "disk_uio b u = u\<lparr>uio_offset := int b * 512, uio_resid := 512\<rparr>"

lemma disk_uio_valid:
  assumes "uio_valid u" and "512 \<le> uio_resid u" and "b < 4194303"
  shows "uio_valid (disk_uio b u)"
  using assms by (auto simp: uio_valid_def disk_uio_def split: uio_seg.splits)

text \<open>Putting the file offset and the residue back after the device moved \<open>n\<close> bytes.\<close>

definition undisk_uio :: "nat \<Rightarrow> uio \<Rightarrow> uio \<Rightarrow> uio" where
  "undisk_uio b u w = w\<lparr>uio_offset := off32 (off32 (uio_offset w - int b * 512) + uio_offset u),
     uio_resid := u32 (sub32 (uio_resid w) SFS_BLOCKSIZE + uio_resid u)\<rparr>"

lemma undisk_moved:
  assumes "uio_valid u" and "512 \<le> uio_resid u" and "b < 4194303"
  shows "undisk_uio b u (uio_moved 512 m (disk_uio b u)) = uio_moved 512 m u"
proof -
  have "off32 512 = 512" by (simp add: off32_def)
  moreover have "off32 (512 + uio_offset u) = 512 + uio_offset u"
    using assms by (intro off32_id) (auto simp: uio_valid_def)
  moreover have "sub32 0 512 = 4294966784" by (simp add: sub32_def)
  moreover have "u32 (4294966784 + uio_resid u) = uio_resid u - 512"
  proof -
    have "4294966784 + uio_resid u = 4294967296 + (uio_resid u - 512)" using assms(2) by simp
    moreover have "uio_resid u - 512 < 4294967296" using assms(1) unfolding uio_valid_def by linarith
    ultimately show ?thesis by (simp only: u32_def mod_add_self1 mod_less)
  qed
  ultimately show ?thesis
    by (simp add: undisk_uio_def uio_moved_def disk_uio_def SFS_BLOCKSIZE_def)
qed

lemma undisk_fault:
  assumes "uio_valid u"
  shows "undisk_uio b u ((disk_uio b u)\<lparr>uio_mem := m\<rparr>) = u\<lparr>uio_mem := m\<rparr>"
proof -
  have "off32 0 = 0" "sub32 512 512 = 0" by (simp_all add: off32_def sub32_def)
  moreover have "off32 (uio_offset u) = uio_offset u"
    using assms by (intro off32_id) (auto simp: uio_valid_def)
  moreover have "uio_resid u < 4294967296" using assms unfolding uio_valid_def by linarith
  ultimately show ?thesis by (simp add: undisk_uio_def disk_uio_def SFS_BLOCKSIZE_def)
qed

text \<open>The transfer between the device and the caller.\<close>

lemma io_rwblock_wp:
  assumes pre: "io_pre p v s u" and pos: "uio_offset u = int (fb * 512)" "512 \<le> uio_resid u"
    and nz: "fmap (sv_i v) (disk s) fb \<noteq> 0"
  defines "b \<equiv> fmap (sv_i v) (disk s) fb"
  shows "wp io_rwblock
    (\<lambda>_ t. io_prog p v s u 512 v (fst t) (undisk_uio b u (snd t)))
    (\<lambda>e t. io_err p v s u e (fst t, undisk_uio b u (snd t))) (s, disk_uio b u)"
proof -
  have pre': "fs_wf s" "sv_heap s p = Some v" "file_wf (sv_i v) s" "uio_valid u" using pre by (auto simp: io_pre_def)
  let ?f = "fblock (sv_i v) (disk s)" and ?l = "sfs_device s" and ?w = "disk_uio b u"
  have lt: "b < nblocks s" using file_wf_block(2) [OF pre'(3) nz] by (simp add: b_def)
  then have b: "b < length (lh_disk ?l)" "b < 4194303" using fs_wf_blk [OF pre'(1)] by (auto simp: blk_ok_def)
  have l: "lhd_wf ?l" "lhd_good ?l" using pre'(1) by (auto simp: fs_wf_def)
  have w: "uio_valid ?w" "uio_offset ?w = int b * 512" "uio_resid ?w = 512"
    using disk_uio_valid [OF pre'(4) pos(2) b(2)] by (simp_all add: disk_uio_def)
  have wu: "uio_mem ?w = uio_mem u" "iov_base ?w = iov_base u" "uio_dir ?w = uio_dir u" "uio_segflg ?w = uio_segflg u"
    by (simp_all add: disk_uio_def)
  have off: "nat (uio_offset u) = fb * 512" using pos(1) by simp
  have fl: "length (?f fb) = 512" using io_pre_length [OF pre] by simp
  have "fb < 143" using nz by (auto simp: fmap_def split: if_splits)
  then have rc: "io_reach u 512" by (simp add: io_reach_def off)
  have dev: "fs_wf (s\<lparr>sfs_device := d\<rparr>) \<and> fs_same s (s\<lparr>sfs_device := d\<rparr>)"
    if "lhd_wf d" "lhd_good d" "length (lh_disk d) = length (lh_disk ?l)" for d
    using pre'(1) that by (auto simp: fs_wf_def fs_same_def disk_def)
  have fault: "io_err p v s u e (s\<lparr>sfs_device := d\<rparr>, undisk_uio b u t)"
    if "uio_fault ?w 512 e t" "lhd_wf d" "lhd_good d" "lh_disk d = lh_disk ?l" for e d t
  proof -
    note f = that(1)
    obtain m where m: "e = EFAULT" "uio_segflg u \<noteq> UIO_SYSSPACE" "t = ?w\<lparr>uio_mem := m\<rparr>"
      using f wu by (auto simp: uio_fault_def)
    have "bmap_post p v s v (s\<lparr>sfs_device := d\<rparr>)"
      using dev [OF that(2,3)] that(4) pre' by (auto simp: bmap_post_def file_step_def file_wf_def fun_upd_idem disk_def)
    then have "io_prog p v s u 0 v (s\<lparr>sfs_device := d\<rparr>) u"
      by (rule io_prog_bmap [OF _ pre]) (simp add: that(4) disk_def)
    then show ?thesis
      by (rule uio_fault_io_err [OF _ pre'(4) m(1,2)]) (use pos(2) in \<open>simp_all add: m(3) undisk_fault [OF pre'(4)] io_stop_0\<close>)
  qed
  show ?thesis
  proof (cases "uio_dir u")
    case UIO_READ
    have "file_range ?f (fb * 512) 512 = lh_disk ?l ! b"
      using file_range_block [of ?f fb 0 512] fl nz by (simp add: fblock_def b_def disk_def)
    then have ok: "io_prog p v s u 512 v (s\<lparr>sfs_device := d\<rparr>) (undisk_uio b u
        (uio_moved 512 (mem_upd (iov_base ?w) (lh_disk ?l ! b) (uio_mem ?w)) ?w))"
      if "lhd_wf d" "lhd_good d" "lh_disk d = lh_disk ?l" "mapped (uio_mem ?w) (iov_base ?w) 512" for d
      unfolding undisk_moved [OF pre'(4) pos(2) b(2)]
      using dev [OF that(1,2)] that(3,4) pre' pos(2) rc uio_valid_moved [OF pre'(4) pos(2)]
      by (auto simp: io_prog_def UIO_READ wu off file_step_def file_wf_def fun_upd_idem disk_def)
    show ?thesis unfolding io_rwblock_def wp_kzoom fst_conv snd_conv
      by (rule wp_mono [OF sfs_rwblock_read [OF l w b(1)]])
        (use UIO_READ wu ok fault in auto)
  next
    case UIO_WRITE
    let ?d = "mem_bytes (uio_mem u) (iov_base u) 512"
    have ov: "?f(fb := ?d) = overlay ?f (fb * 512) ?d"
      using overlay_block [of ?f 0 ?d fb] io_pre_length [OF pre] by (simp add: put_at_0_all)
    have ok: "io_prog p v s u 512 v (s\<lparr>sfs_device := d\<rparr>) (undisk_uio b u (uio_moved 512 (uio_mem ?w) ?w))"
      if d: "lhd_wf d" "lhd_good d" "lh_disk d = (lh_disk ?l)[b := ?d]" "mapped (uio_mem ?w) (iov_base ?w) 512" for d
    proof -
      let ?t = "s\<lparr>sfs_device := d\<rparr>"
      have wb: "file_step p v v s ?t" "fblock (sv_i v) (disk ?t) = ?f(fb := ?d)"
        using write_block [OF pre'(1-3) nz, of ?t ?d] dev [OF d(1,2)] d(3) by (auto simp: b_def disk_def)
      show ?thesis
        unfolding undisk_moved [OF pre'(4) pos(2) b(2)] io_prog_def UIO_WRITE uio_rw.case off
        using wb d(4) ov pos(2) rc uio_valid_moved' [OF pre'(4) pos(2)] by (simp add: wu)
    qed
    show ?thesis unfolding io_rwblock_def wp_kzoom fst_conv snd_conv
      by (rule wp_mono [OF sfs_rwblock_write [OF l w b(1)]])
        (use UIO_WRITE wu ok fault [of _ _ ?l] l in auto)
  qed
qed

text \<open>A hole: \<open>uiomovezeros\<close> gives the caller a block of zeros.\<close>

lemma file_range_hole:
  assumes "f fb = zeros" and "n \<le> 512"
  shows "file_range f (fb * 512) n = replicate n 0"
proof -
  have "file_range f (fb * 512 + 0) n = take n (drop 0 (f fb))"
    by (rule file_range_block) (use assms in \<open>simp_all add: zeros_def\<close>)
  then show ?thesis using assms by (simp add: zeros_def min_def)
qed

lemma io_hole_wp:
  assumes pre: "io_pre p v s u" and pos: "uio_offset u = int (fb * 512)" "512 \<le> uio_resid u"
    and z: "fmap (sv_i v) (disk s) fb = 0" and fb: "fb < 143" and dir: "uio_dir u = UIO_READ"
  shows "wp (on_uio (uiomovezeros SFS_BLOCKSIZE))
    (\<lambda>_ t. io_prog p v s u 512 v (fst t) (snd t)) (io_err p v s u) (s, u)"
proof -
  let ?f = "fblock (sv_i v) (disk s)"
  have uv: "uio_valid u" and st: "file_step p v v s s"
    using pre file_step_refl by (auto simp: io_pre_def)
  have off: "nat (uio_offset u) = fb * 512" using pos(1) by simp
  have prog: "io_prog p v s u k v s (uio_moved k (mem_upd (iov_base u) (replicate k 0) (uio_mem u)) u)"
    if "k \<le> 512" "mapped (uio_mem u) (iov_base u) k" for k
    using that st pos(2) fb uio_valid_moved [OF uv, of k "iov_base u" "replicate k 0"]
      file_range_hole [of ?f fb k] z
    unfolding io_prog_def dir uio_rw.case off io_reach_def by (simp add: fblock_def)
  have "wp (uiomovezeros SFS_BLOCKSIZE)
    (\<lambda>_ u'. mapped (uio_mem u) (iov_base u) 512
       \<and> u' = uio_moved 512 (mem_upd (iov_base u) (replicate 512 0) (uio_mem u)) u) (zeros_fault 512 u) u"
    unfolding SFS_BLOCKSIZE_def by (rule uiomovezeros_wp [OF uv dir pos(2)])
  then show ?thesis unfolding wp_on_uio fst_conv snd_conv
  proof (rule wp_mono)
    show "io_prog p v s u 512 v s t" if "mapped (uio_mem u) (iov_base u) 512
       \<and> t = uio_moved 512 (mem_upd (iov_base u) (replicate 512 0) (uio_mem u)) u" for t and x :: unit
      using that prog [of 512] by blast
  next
    fix e t
    assume "zeros_fault 512 u e t"
    then obtain k m where k: "e = EFAULT" "uio_segflg u \<noteq> UIO_SYSSPACE" "k < 512"
      "mapped (uio_mem u) (iov_base u) k"
      "t = (uio_moved k (mem_upd (iov_base u) (replicate k 0) (uio_mem u)) u)\<lparr>uio_mem := m\<rparr>"
      unfolding zeros_fault_def by blast
    show "io_err p v s u e (s, t)"
      by (rule uio_fault_io_err [OF prog uv k(1,2,5)]) (use k dir in \<open>simp_all add: io_stop_def\<close>)
  qed
qed

lemma sfs_blockio_wp:
  assumes pre: "io_pre p v s u" and pos: "uio_offset u = int (fb * 512)" "512 \<le> uio_resid u"
  shows "wp (sfs_blockio p) (\<lambda>_ t. \<exists>v'. io_prog p v s u 512 v' (fst t) (snd t)) (io_err p v s u) (s, u)"
proof -
  have uv: "uio_valid u" using pre by (simp add: io_pre_def)
  have pos': "uio_offset u = int (fb * 512 + 0)" using pos(1) by simp
  have fb: "to_u32 (cdiv (uio_offset u) (int SFS_BLOCKSIZE)) = fb"
    by (rule io_pos [OF uv pos']) simp
  show ?thesis
    unfolding sfs_blockio_def wp_kbind [of "kget snd"] wp_kget Let_def snd_conv fb
      wp_kbind [of "on_fs (sfs_bmap p fb (uio_dir u = UIO_WRITE))"]
  proof (rule wp_mono [OF io_bmap_wp [OF pre refl pos']])
    show "0 < uio_resid u" using pos(2) by simp
  next
    fix b t
    assume "snd t = u \<and> fb < 143 \<and> (\<exists>v'. io_prog p v s u 0 v' (fst t) u \<and> b = fmap (sv_i v') (disk (fst t)) fb
       \<and> (uio_dir u = UIO_WRITE \<longrightarrow> b \<noteq> 0))"
    then obtain v1 s1 where t: "t = (s1, u)" and 1: "io_prog p v s u 0 v1 s1 u"
      and b: "b = fmap (sv_i v1) (disk s1) fb" "uio_dir u = UIO_WRITE \<longrightarrow> b \<noteq> 0" and lt: "fb < 143"
      by (cases t) auto
    have pre1: "io_pre p v1 s1 u" by (rule io_prog_pre [OF 1])
    have ok: "\<exists>v'. io_prog p v s u 512 v' t u'" if "io_prog p v1 s1 u 512 v1 t u'" for t u'
      using io_prog_trans [OF uv 1 that] by auto
    have err: "io_err p v s u e r" if "io_err p v1 s1 u e r" for e r
      by (rule io_err_trans [OF uv 1 that]) simp
    show "wp (if b = 0 then kbind (kassert (uio_dir u = UIO_READ)) (\<lambda>_. on_uio (uiomovezeros SFS_BLOCKSIZE))
       else kbind (kassert (SFS_BLOCKSIZE \<le> uio_resid u)) (\<lambda>_.
         kbind (on_uio (kmodify (\<lambda>ua. ua\<lparr>uio_offset := off32 (int (u32 (b * SFS_BLOCKSIZE))),
             uio_resid := SFS_BLOCKSIZE\<rparr>))) (\<lambda>_.
         kbind (kattempt io_rwblock) (\<lambda>result.
         kbind (on_uio (kmodify (\<lambda>ua. ua\<lparr>uio_offset := off32 (off32 (uio_offset ua - off32 (int (u32 (b * SFS_BLOCKSIZE)))) + uio_offset u),
             uio_resid := u32 (sub32 (uio_resid ua) SFS_BLOCKSIZE + uio_resid u)\<rparr>))) (\<lambda>_.
         kresult result)))))
       (\<lambda>_ t. \<exists>v'. io_prog p v s u 512 v' (fst t) (snd t)) (io_err p v s u) t"
    proof (cases "b = 0")
      case True
      then have dir: "uio_dir u = UIO_READ" using b(2) by (cases "uio_dir u") auto
      show ?thesis unfolding if_P [OF True] t using dir ok err
        by (simp add: wp_kbind wp_kassert)
          (rule wp_mono [OF io_hole_wp [OF pre1 pos _ lt dir]], use True b(1) in auto)
    next
      case False
      have nz: "fmap (sv_i v1) (disk s1) fb \<noteq> 0" using False b(1) by simp
      have "b < 4194303"
        using file_wf_block(2) [OF _ nz] pre1 b(1) by (auto simp: io_pre_def fs_wf_def)
      then have doff: "off32 (int (u32 (b * SFS_BLOCKSIZE))) = int b * 512"
        by (simp add: SFS_BLOCKSIZE_def off32_id)
      have du: "u\<lparr>uio_offset := int b * 512, uio_resid := SFS_BLOCKSIZE\<rparr> = disk_uio b u"
        by (simp add: disk_uio_def SFS_BLOCKSIZE_def)
      have rw: "wp io_rwblock (\<lambda>_ t. \<exists>v'. io_prog p v s u 512 v' (fst t) (undisk_uio b u (snd t)))
        (\<lambda>e t. io_err p v s u e (fst t, undisk_uio b u (snd t))) (s1, disk_uio b u)"
        by (rule wp_mono [OF io_rwblock_wp [OF pre1 pos nz, folded b(1)]]) (use ok err in auto)
      show ?thesis
        unfolding if_not_P [OF False] doff t wps wp_on_uio fst_conv snd_conv du undisk_uio_def [symmetric]
        using rw pos(2) by (simp add: SFS_BLOCKSIZE_def)
    qed
  qed
qed

text \<open>The loop over the whole blocks.\<close>

lemma sfs_blocks_wp:
  assumes "io_pre p v s u" and "uio_offset u = int (fb * 512)" and "n * 512 \<le> uio_resid u"
  shows "wp (kfor [i..<i + n] (\<lambda>_. sfs_blockio p))
    (\<lambda>_ t. \<exists>v'. io_prog p v s u (n * 512) v' (fst t) (snd t)) (io_err p v s u) (s, u)"
  using assms
proof (induction n arbitrary: i v s u fb)
  case 0
  then show ?case using io_prog_refl [OF 0(1)] by (auto simp: wps)
next
  case (Suc n)
  have uv: "uio_valid u" using Suc.prems(1) by (simp add: io_pre_def)
  have up: "[i..<i + Suc n] = i # [Suc i..<Suc i + n]" by (simp add: upt_conv_Cons)
  show ?case unfolding up wp_kfor_Cons
  proof (rule wp_mono [OF sfs_blockio_wp [OF Suc.prems(1,2)]])
    show "512 \<le> uio_resid u" using Suc.prems(3) by simp
  next
    fix x t
    assume "\<exists>v'. io_prog p v s u 512 v' (fst t) (snd t)"
    then obtain v1 s1 u1 where t: "t = (s1, u1)" and 1: "io_prog p v s u 512 v1 s1 u1" by (cases t) auto
    note u1 = io_prog_uio [OF 1 uv]
    show "wp (kfor [Suc i..<Suc i + n] (\<lambda>_. sfs_blockio p))
      (\<lambda>_ t. \<exists>v'. io_prog p v s u (Suc n * 512) v' (fst t) (snd t)) (io_err p v s u) t"
      unfolding t
    proof (rule wp_mono [OF Suc.IH [OF io_prog_pre [OF 1]]])
      show "uio_offset u1 = int (Suc fb * 512)" using u1(3) Suc.prems(2) by simp
      show "n * 512 \<le> uio_resid u1" using u1(4) Suc.prems(3) by simp
      show "\<exists>v'. io_prog p v s u (Suc n * 512) v' (fst t) (snd t)"
        if "\<exists>v'. io_prog p v1 s1 u1 (n * 512) v' (fst t) (snd t)" for t and x :: unit
        using that io_prog_trans [OF uv 1] by fastforce
      show "io_err p v s u e t" if "io_err p v1 s1 u1 e t" for e t
        by (rule io_err_trans [OF uv 1 that]) (simp add: Suc.prems(2) nat_mult_distrib)
    qed
  qed simp
qed

section \<open>Whole transfers\<close>

text \<open>The last partial block.\<close>

lemma io_tail_wp:
  assumes pre: "io_pre p v s u" and pos: "uio_offset u = int (fb * 512)" and res: "uio_resid u < 512"
  shows "wp (kwhen (uio_resid u > 0) (sfs_partialio p 0 (uio_resid u)))
    (\<lambda>_ t. \<exists>v'. io_prog p v s u (uio_resid u) v' (fst t) (snd t)) (io_err p v s u) (s, u)"
proof (cases "uio_resid u = 0")
  case True
  then show ?thesis using io_prog_refl [OF pre] by (auto simp: wp_kwhen)
next
  case False
  then show ?thesis using sfs_partialio_wp [OF pre, of fb 0 "uio_resid u"] pos res by (simp add: wp_kwhen)
qed

text \<open>From a block boundary on: the whole blocks and the last partial one.\<close>

lemma io_aligned_wp:
  assumes pre: "io_pre p v s u" and pos: "uio_offset u = int (fb * 512)"
  shows "wp (kbind (kassert (cmod (uio_offset u) (int SFS_BLOCKSIZE) = 0)) (\<lambda>_.
       kbind (kfor [0..<uio_resid u div SFS_BLOCKSIZE] (\<lambda>_. sfs_blockio p)) (\<lambda>_.
       kbind (kget snd) (\<lambda>u.
       kbind (kassert (uio_resid u < SFS_BLOCKSIZE)) (\<lambda>_.
       kwhen (uio_resid u > 0) (sfs_partialio p 0 (uio_resid u)))))))
    (\<lambda>_ t. \<exists>v'. io_prog p v s u (uio_resid u) v' (fst t) (snd t)) (io_err p v s u) (s, u)"
proof -
  let ?n = "uio_resid u div 512"
  have uv: "uio_valid u" using pre by (simp add: io_pre_def)
  have "uio_offset u = int (fb * 512 + 0)" using pos by simp
  from io_pos(3) [OF uv this] have al: "cmod (uio_offset u) (int 512) = 0"
    by (simp add: SFS_BLOCKSIZE_def)
  have n: "?n * 512 \<le> uio_resid u" by simp
  show ?thesis unfolding wp_kbind wp_kassert wp_kget SFS_BLOCKSIZE_def
  proof (rule conjI [OF al], rule wp_mono [OF sfs_blocks_wp [OF pre pos n, of 0, unfolded add_0]])
    fix x t
    assume "\<exists>v'. io_prog p v s u (?n * 512) v' (fst t) (snd t)"
    then obtain v1 s1 u1 where t: "t = (s1, u1)" and 1: "io_prog p v s u (?n * 512) v1 s1 u1" by (cases t) auto
    note u1 = io_prog_uio [OF 1 uv]
    have pos1: "uio_offset u1 = int ((fb + ?n) * 512)" using u1(3) pos by (simp add: add_mult_distrib)
    have r1: "uio_resid u1 = uio_resid u mod 512" using u1(4) by (simp add: minus_div_mult_eq_mod)
    then have res: "uio_resid u1 < 512" by simp
    have tot: "?n * 512 + uio_resid u1 = uio_resid u" using r1 by simp
    show "uio_resid (snd t) < 512 \<and> wp (kwhen (0 < uio_resid (snd t)) (sfs_partialio p 0 (uio_resid (snd t))))
        (\<lambda>_ t. \<exists>v'. io_prog p v s u (uio_resid u) v' (fst t) (snd t)) (io_err p v s u) t"
      unfolding t snd_conv
    proof (intro conjI res, rule wp_mono [OF io_tail_wp [OF io_prog_pre [OF 1] pos1 res]])
      show "\<exists>v'. io_prog p v s u (uio_resid u) v' (fst t) (snd t)"
        if "\<exists>v'. io_prog p v1 s1 u1 (uio_resid u1) v' (fst t) (snd t)" for t and x :: unit
        using that io_prog_trans [OF uv 1] tot by metis
      show "io_err p v s u e t" if "io_err p v1 s1 u1 e t" for e t
        by (rule io_err_trans [OF uv 1 that]) (simp add: pos nat_mult_distrib)
    qed
  qed simp
qed

text \<open>The first partial block, up to the next boundary or the end of the transfer.\<close>

lemma io_head_wp:
  assumes pre: "io_pre p v s u" and pos: "uio_offset u = int (fb * 512 + skip)" "skip < 512" and res: "0 < uio_resid u"
  shows "wp (kwhen (skip \<noteq> 0) (let len = SFS_BLOCKSIZE - skip;
         len = (if len > uio_resid u then uio_resid u else len) in sfs_partialio p skip len))
    (\<lambda>_ t. \<exists>n v'. io_prog p v s u n v' (fst t) (snd t)
        \<and> (n = uio_resid u \<or> n < uio_resid u \<and> (\<exists>fb'. uio_offset (snd t) = int (fb' * 512))))
    (io_err p v s u) (s, u)"
proof (cases "skip = 0")
  case True
  then show ?thesis using io_prog_refl [OF pre] pos(1) res by (fastforce simp: wp_kwhen)
next
  case False
  let ?n = "if 512 - skip > uio_resid u then uio_resid u else 512 - skip"
  have uv: "uio_valid u" using pre by (simp add: io_pre_def)
  have "wp (sfs_partialio p skip ?n) (\<lambda>_ t. \<exists>v'. io_prog p v s u ?n v' (fst t) (snd t)) (io_err p v s u) (s, u)"
    by (rule sfs_partialio_wp [OF pre pos(1)]) (use pos(2) res in auto)
  then have "wp (sfs_partialio p skip ?n) (\<lambda>_ t. \<exists>n v'. io_prog p v s u n v' (fst t) (snd t)
        \<and> (n = uio_resid u \<or> n < uio_resid u \<and> (\<exists>fb'. uio_offset (snd t) = int (fb' * 512))))
    (io_err p v s u) (s, u)"
  proof (rule wp_mono)
    fix x :: unit and t
    assume "\<exists>v'. io_prog p v s u ?n v' (fst t) (snd t)"
    then obtain v' where 1: "io_prog p v s u ?n v' (fst t) (snd t)" by blast
    show "\<exists>n v'. io_prog p v s u n v' (fst t) (snd t)
        \<and> (n = uio_resid u \<or> n < uio_resid u \<and> (\<exists>fb'. uio_offset (snd t) = int (fb' * 512)))"
    proof (cases "?n = uio_resid u")
      case True
      then show ?thesis using 1 by auto
    next
      case no: False
      then have "?n = 512 - skip" "?n < uio_resid u" by (auto split: if_splits)
      moreover have "uio_offset (snd t) = int ((fb + 1) * 512)"
        using io_prog_uio(3) [OF 1 uv] calculation(1) pos by simp
      ultimately show ?thesis using 1 by metis
    qed
  qed
  then show ?thesis using False by (simp add: wp_kwhen Let_def SFS_BLOCKSIZE_def)
qed

lemma sfs_io_body_wp:
  assumes pre: "io_pre p v s u" and res: "0 < uio_resid u"
  shows "wp (sfs_io_body p) (\<lambda>_ t. \<exists>v'. io_prog p v s u (uio_resid u) v' (fst t) (snd t)) (io_err p v s u) (s, u)"
proof -
  have uv: "uio_valid u" using pre by (simp add: io_pre_def)
  define off where "off = nat (uio_offset u)"
  have pos: "uio_offset u = int (off div 512 * 512 + off mod 512)" "off mod 512 < 512"
    using uv by (simp_all add: off_def uio_valid_def)
  note sk = io_pos(2) [OF uv pos]
  show ?thesis unfolding sfs_io_body_def wp_kbind [of "kget snd"] wp_kget snd_conv Let_def [of "to_u32 _"] sk
      wp_kbind [of "kwhen _ _"]
  proof (rule wp_mono [OF io_head_wp [OF pre pos res]])
    fix x t
    assume "\<exists>n v'. io_prog p v s u n v' (fst t) (snd t)
        \<and> (n = uio_resid u \<or> n < uio_resid u \<and> (\<exists>fb'. uio_offset (snd t) = int (fb' * 512)))"
    then obtain n v1 s1 u1 where t: "t = (s1, u1)" and 1: "io_prog p v s u n v1 s1 u1"
      and n: "n = uio_resid u \<or> n < uio_resid u \<and> (\<exists>fb'. uio_offset u1 = int (fb' * 512))" by (cases t) auto
    note u1 = io_prog_uio [OF 1 uv]
    show "wp (if uio_resid (snd t) = 0 then kret () else
        kbind (kassert (cmod (uio_offset (snd t)) (int SFS_BLOCKSIZE) = 0)) (\<lambda>_.
        let nblocks = uio_resid (snd t) div SFS_BLOCKSIZE in
        kbind (kfor [0..<nblocks] (\<lambda>_. sfs_blockio p)) (\<lambda>_.
        kbind (kget snd) (\<lambda>u.
        kbind (kassert (uio_resid u < SFS_BLOCKSIZE)) (\<lambda>_.
        kwhen (uio_resid u > 0) (sfs_partialio p 0 (uio_resid u)))))))
      (\<lambda>_ t. \<exists>v'. io_prog p v s u (uio_resid u) v' (fst t) (snd t)) (io_err p v s u) t"
    proof (cases "n = uio_resid u")
      case True
      then show ?thesis using 1 u1(4) by (auto simp: t wps)
    next
      case False
      then obtain fb' where fb': "uio_offset u1 = int (fb' * 512)" and lt: "n < uio_resid u" using n by blast
      have nz: "uio_resid u1 \<noteq> 0" using lt u1(4) by simp
      have "int (nat (uio_offset u) + n) = int (fb' * 512)" using fb' u1(3) uv by (simp add: uio_valid_def)
      then have al: "n = 0 \<or> 512 dvd nat (uio_offset u) + n" by (simp only: of_nat_eq_iff dvd_triv_right simp_thms)
      have tot: "n + uio_resid u1 = uio_resid u" using lt u1(4) by simp
      show ?thesis unfolding t snd_conv if_not_P [OF nz] Let_def
      proof (rule wp_mono [OF io_aligned_wp [OF io_prog_pre [OF 1] fb']])
        show "\<exists>v'. io_prog p v s u (uio_resid u) v' (fst t) (snd t)"
          if "\<exists>v'. io_prog p v1 s1 u1 (uio_resid u1) v' (fst t) (snd t)" for t and x :: unit
          using that io_prog_trans [OF uv 1] tot by metis
        show "io_err p v s u e t" if "io_err p v1 s1 u1 e t" for e t
          by (rule io_err_trans [OF uv 1 that al])
      qed
    qed
  qed simp
qed

text \<open>Setting the length of a file.\<close>

lemma file_step_size:
  assumes "file_step p v v1 s s1" and "n < 4294967296"
  defines "v2 \<equiv> v1\<lparr>sv_i := (sv_i v1)\<lparr>sfi_size := n\<rparr>, sv_dirty := True\<rparr>"
  shows "file_step p v v2 s (s1\<lparr>sv_heap := (sv_heap s1)(p \<mapsto> v2)\<rparr>)"
    "fblock (sv_i v2) d = fblock (sv_i v1) d"
proof -
  have map: "fmap (sv_i v2) d = fmap (sv_i v1) d" for d
    by (simp add: v2_def fmap_def id_entries_def fun_eq_iff)
  have own: "owned (sv_i v2) d = owned (sv_i v1) d" for d
    unfolding owned_def map by (simp add: v2_def)
  have "file_wf (sv_i v2) s1"
    using assms(1,2) unfolding file_step_def file_wf_def map own
    by (auto simp: v2_def inode_fits_def)
  then have wf: "file_wf (sv_i v2) (s1\<lparr>sv_heap := (sv_heap s1)(p \<mapsto> v2)\<rparr>)"
    by (simp add: file_wf_def)
  have "vnode_same v v2" using assms(1) by (auto simp: file_step_def vnode_same_def v2_def)
  then show "file_step p v v2 s (s1\<lparr>sv_heap := (sv_heap s1)(p \<mapsto> v2)\<rparr>)"
    using assms(1) wf by (auto simp: file_step_def own)
  show "fblock (sv_i v2) d = fblock (sv_i v1) d" by (simp add: fblock_def map fun_eq_iff)
qed

text \<open>What a write of \<open>k\<close> bytes has done.\<close>

definition wrote :: "nat \<Rightarrow> sfs_vnode \<Rightarrow> sfs_fs \<Rightarrow> uio \<Rightarrow> nat \<Rightarrow> sfs_fs \<Rightarrow> bool" where
  "wrote p v s u k s' \<longleftrightarrow> k \<le> uio_resid u \<and> io_reach u k \<and> (\<exists>v'. file_step p v v' s s'
     \<and> sfi_size (sv_i v') = max (sfi_size (sv_i v)) (nat (uio_offset u) + k)
     \<and> fblock (sv_i v') (disk s') = overlay (fblock (sv_i v) (disk s)) (nat (uio_offset u))
           (mem_bytes (uio_mem u) (iov_base u) k))"

lemma sfs_io_out_write:
  assumes "io_prog p v s u k v' s' u'" and "uio_valid u" and "uio_dir u = UIO_WRITE"
    and "sfi_size (sv_i v) < 2147483648"
  shows "wp (sfs_io_out p 0 result) (\<lambda>_ t. (\<exists>x. result = Inr x) \<and> wrote p v s u k (fst t) \<and> snd t = u'\<lparr>uio_mem := m\<rparr>)
    (\<lambda>e t. result = Inl e \<and> wrote p v s u k (fst t) \<and> used (fst t) = used s' \<and> nblocks (fst t) = nblocks s')
    (s', u'\<lparr>uio_mem := m\<rparr>)"
proof -
  note u' = io_prog_uio [OF assms(1,2)]
  have st: "file_step p v v' s s'" "sfi_size (sv_i v') = sfi_size (sv_i v)" and rc: "io_reach u k"
    and fb: "fblock (sv_i v') (disk s') = overlay (fblock (sv_i v) (disk s)) (nat (uio_offset u))
           (mem_bytes (uio_mem u) (iov_base u) k)"
    using assms(1,3) by (auto simp: io_prog_def)
  have hp: "sv_heap s' p = Some v'" by (rule file_stepD [OF st(1)])
  have uv: "0 \<le> uio_offset u" "uio_offset u + int (uio_resid u) < 2147483648" "uio_resid u < 4294967296"
    using assms(2) unfolding uio_valid_def by linarith+
  have sz: "off32 (int (sfi_size (sv_i v'))) = int (sfi_size (sv_i v))"
    using st(2) assms(4) by (simp add: off32_id)
  have off: "to_u32 (uio_offset u') = nat (uio_offset u) + k"
    using u'(3,5) uv by (subst to_u32_nat) (auto simp: nat_add_distrib)
  have "u32 (uio_resid u') = uio_resid u'" using u'(4) uv by simp
  then have res: "u'\<lparr>uio_mem := m, uio_resid := u32 (uio_resid u')\<rparr> = u'\<lparr>uio_mem := m\<rparr>"
    by (cases u') simp
  let ?v2 = "v'\<lparr>sv_i := (sv_i v')\<lparr>sfi_size := nat (uio_offset u) + k\<rparr>, sv_dirty := True\<rparr>"
  let ?s2 = "s'\<lparr>sv_heap := (sv_heap s')(p \<mapsto> ?v2)\<rparr>"
  have wr: "wrote p v s u k (if uio_offset u' > int (sfi_size (sv_i v)) then ?s2 else s')"
  proof (cases "uio_offset u' > int (sfi_size (sv_i v))")
    case True
    have lt: "nat (uio_offset u) + k < 4294967296" using u'(5) uv by linarith
    note sz2 = file_step_size [OF st(1) lt]
    have "max (sfi_size (sv_i v)) (nat (uio_offset u) + k) = nat (uio_offset u) + k" using True u'(3) by simp
    then have "wrote p v s u k ?s2" unfolding wrote_def using sz2 fb rc u'(5)
      by (intro conjI exI [of _ ?v2]) simp_all
    then show ?thesis using True by simp
  next
    case False
    then have "max (sfi_size (sv_i v)) (nat (uio_offset u) + k) = sfi_size (sv_i v)" using u'(3) uv(1) by simp
    then have "wrote p v s u k s'" unfolding wrote_def using st fb rc u'(5) by (intro conjI exI [of _ v']) simp_all
    then show ?thesis using False by simp
  qed
  show ?thesis unfolding sfs_io_out_def
    using wr assms(3) u'(1)
    by (cases "uio_offset u' > int (sfi_size (sv_i v))")
      (auto simp: wps wp_on_fs wp_on_uio wp_sv_get [OF hp] wp_sv_upd [OF hp] sz off res split: sum.splits)
qed

lemma sfs_io_write_wp:
  assumes pre: "io_pre p v s u" and dir: "uio_dir u = UIO_WRITE" and res: "0 < uio_resid u"
    and sz: "sfi_size (sv_i v) < 2147483648"
  shows "wp (sfs_io p)
    (\<lambda>_ t. wrote p v s u (uio_resid u) (fst t) \<and> mapped (uio_mem u) (iov_base u) (uio_resid u)
       \<and> snd t = uio_moved (uio_resid u) (uio_mem u) u)
    (\<lambda>e t. io_why u e (fst t) \<and> (\<exists>k. io_stop u k \<and> wrote p v s u k (fst t))) (s, u)"
proof -
  have uv: "uio_valid u" and hp: "sv_heap s p = Some v" using pre by (auto simp: io_pre_def)
  let ?Q = "\<lambda>_ t. wrote p v s u (uio_resid u) (fst t)
      \<and> mapped (uio_mem u) (iov_base u) (uio_resid u) \<and> snd t = uio_moved (uio_resid u) (uio_mem u) u"
  let ?R = "\<lambda>e t. io_why u e (fst t) \<and> (\<exists>k. io_stop u k \<and> wrote p v s u k (fst t))"
  have "wp (kattempt (sfs_io_body p)) (\<lambda>x. wp (sfs_io_out p 0 x) ?Q ?R) ?R (s, u)"
    unfolding wp_kattempt
    proof (rule wp_mono [OF sfs_io_body_wp [OF pre res]])
      fix x t
      assume "\<exists>v'. io_prog p v s u (uio_resid u) v' (fst t) (snd t)"
      then obtain v1 s1 u1 where t: "t = (s1, u1)" and 1: "io_prog p v s u (uio_resid u) v1 s1 u1" by (cases t) auto
      have u1: "u1 = uio_moved (uio_resid u) (uio_mem u) u" "mapped (uio_mem u) (iov_base u) (uio_resid u)"
        using 1 dir by (auto simp: io_prog_def)
      have "u1\<lparr>uio_mem := uio_mem u1\<rparr> = u1" by simp
      with sfs_io_out_write [OF 1 uv dir sz, of "Inr x" "uio_mem u1"]
      show "wp (sfs_io_out p 0 (Inr x)) ?Q ?R t"
        unfolding t by (simp, elim wp_mono) (use u1 in auto)
    next
      fix e t
      assume "io_err p v s u e t"
      then obtain k v1 s1 u1 m where t: "t = (s1, u1\<lparr>uio_mem := m\<rparr>)" and 1: "io_prog p v s u k v1 s1 u1"
        and e: "io_why u e s1" "io_stop u k" unfolding io_err_def by (cases t) auto
      show "wp (sfs_io_out p 0 (Inl e)) ?Q ?R t"
        unfolding t
        by (rule wp_mono [OF sfs_io_out_write [OF 1 uv dir sz]]) (use e in \<open>auto simp: io_why_def\<close>)
    qed
  then show ?thesis
    unfolding sfs_io_def wp_kbind [of "kget snd"] wp_kbind [of "on_fs _"] wp_kget wp_on_fs fst_conv snd_conv
      wp_sv_get [OF hp] Let_def
    using dir by (simp add: wp_kbind wp_kwhen)
qed

text \<open>What a read has done: delivered \<open>n\<close> bytes of the file, and changed nothing on the disk.\<close>

definition read_from :: "nat \<Rightarrow> sfs_vnode \<Rightarrow> sfs_fs \<Rightarrow> sfs_fs \<Rightarrow> bool" where
  "read_from p v s s' \<longleftrightarrow> file_step p v v s s' \<and> disk s' = disk s \<and> used s' = used s"

text \<open>The number of bytes a read delivers.\<close>

definition read_len :: "sfs_vnode \<Rightarrow> uio \<Rightarrow> nat" where
  "read_len v u = min (uio_resid u) (sfi_size (sv_i v) - nat (uio_offset u))"

lemma sfs_io_read_clip:
  assumes pre: "io_pre p v s u" and dir: "uio_dir u = UIO_READ" and res: "0 < n" "n \<le> uio_resid u"
    and x: "x = uio_resid u - n"
  shows "wp (kbind (kattempt (sfs_io_body p)) (sfs_io_out p x))
    (\<lambda>_ t. read_from p v s (fst t) \<and> mapped (uio_mem u) (iov_base u) n
       \<and> snd t = uio_moved n (mem_upd (iov_base u)
            (file_range (fblock (sv_i v) (disk s)) (nat (uio_offset u)) n) (uio_mem u)) u)
    (\<lambda>e t. io_why (u\<lparr>uio_resid := n\<rparr>) e (fst t) \<and> read_from p v s (fst t)) (s, u\<lparr>uio_resid := n\<rparr>)"
    (is "wp _ ?Q ?R _")
proof -
  let ?u = "u\<lparr>uio_resid := n\<rparr>"
  have uv: "uio_valid ?u" using pre res unfolding io_pre_def uio_valid_def by (auto split: uio_seg.splits)
  have pre': "io_pre p v s ?u" using pre uv by (simp add: io_pre_def)
  have n: "0 < uio_resid ?u" using res by simp
  have lim: "uio_resid u < 4294967296" using pre unfolding io_pre_def uio_valid_def by linarith
  have rf: "read_from p v s s'" if "io_prog p v s ?u k v' s' u'" for k v' s' u'
    using that dir by (auto simp: io_prog_def read_from_def)
  have out: "wp (sfs_io_out p x r) (\<lambda>_ t. (\<exists>y. r = Inr y) \<and> t = (s', u'\<lparr>uio_resid := u32 (uio_resid u' + x)\<rparr>))
      (\<lambda>e t. r = Inl e \<and> fst t = s') (s', u')"
    if "uio_dir u' = UIO_READ" and hp: "sv_heap s' p = Some v'" for r s' u' v'
    unfolding sfs_io_out_def using that
    by (auto simp: wps wp_on_fs wp_on_uio wp_sv_get [OF hp] split: sum.splits)
  show ?thesis unfolding wp_kbind wp_kattempt
  proof (rule wp_mono [OF sfs_io_body_wp [OF pre' n]])
    fix y t
    assume "\<exists>v'. io_prog p v s ?u (uio_resid ?u) v' (fst t) (snd t)"
    then obtain v' s' u' where t: "t = (s', u')" and 1: "io_prog p v s ?u n v' s' u'" by (cases t) auto
    have u': "u' = uio_moved n (mem_upd (iov_base u) (file_range (fblock (sv_i v) (disk s)) (nat (uio_offset u)) n)
        (uio_mem u)) ?u" and m: "mapped (uio_mem u) (iov_base u) n"
      using 1 dir by (auto simp: io_prog_def)
    have hp: "sv_heap s' p = Some v'" using 1 by (auto simp: io_prog_def file_step_def)
    have d: "uio_dir u' = UIO_READ" using u' dir by simp
    have e: "u'\<lparr>uio_resid := u32 (uio_resid u' + x)\<rparr> = uio_moved n (mem_upd (iov_base u)
        (file_range (fblock (sv_i v) (disk s)) (nat (uio_offset u)) n) (uio_mem u)) u"
      using lim unfolding u' x by (simp add: uio_moved_def)
    show "wp (sfs_io_out p x (Inr y)) ?Q ?R t" unfolding t
      by (rule wp_mono [OF out [OF d hp]]) (use e m rf [OF 1] in auto)
  next
    fix e t
    assume "io_err p v s ?u e t"
    then obtain k v1 s1 u1 m where t: "t = (s1, u1\<lparr>uio_mem := m\<rparr>)" and 1: "io_prog p v s ?u k v1 s1 u1"
      and e: "io_why ?u e s1" unfolding io_err_def by (cases t) auto
    have hp: "sv_heap s1 p = Some v1" using 1 by (auto simp: io_prog_def file_step_def)
    have d: "uio_dir (u1\<lparr>uio_mem := m\<rparr>) = UIO_READ" using io_prog_uio(1) [OF 1 uv] dir by simp
    show "wp (sfs_io_out p x (Inl e)) ?Q ?R t" unfolding t
      by (rule wp_mono [OF out [OF d hp]]) (use e rf [OF 1] in auto)
  qed
qed

lemma sfs_io_read_wp:
  assumes pre: "io_pre p v s u" and dir: "uio_dir u = UIO_READ" and res: "0 < uio_resid u"
    and sz: "sfi_size (sv_i v) < 2147483648"
  defines "n \<equiv> read_len v u"
  shows "wp (sfs_io p)
    (\<lambda>_ t. read_from p v s (fst t) \<and> mapped (uio_mem u) (iov_base u) n
       \<and> snd t = uio_moved n (mem_upd (iov_base u)
            (file_range (fblock (sv_i v) (disk s)) (nat (uio_offset u)) n) (uio_mem u)) u)
    (\<lambda>e t. io_why (u\<lparr>uio_resid := n\<rparr>) e (fst t) \<and> read_from p v s (fst t)) (s, u)"
    (is "wp _ ?Q ?R _")
proof -
  have uv: "uio_valid u" and hp: "sv_heap s p = Some v" using pre by (auto simp: io_pre_def)
  have b: "0 \<le> uio_offset u" "uio_offset u + int (uio_resid u) < 2147483648"
    using uv by (auto simp: uio_valid_def)
  have szo: "off32 (int (sfi_size (sv_i v))) = int (sfi_size (sv_i v))" using sz by (simp add: off32_id)
  have eo: "off32 (uio_offset u + int (uio_resid u)) = uio_offset u + int (uio_resid u)" using b by (simp add: off32_id)
  note start = sfs_io_def wp_kbind [of "kget snd"] wp_kbind [of "on_fs _"] wp_kget wp_on_fs fst_conv snd_conv
      wp_sv_get [OF hp] Let_def szo eo
  show ?thesis
  proof (cases "uio_offset u \<ge> int (sfi_size (sv_i v))")
    case True
    then have "n = 0" by (simp add: n_def read_len_def)
    moreover have "read_from p v s s" using pre file_step_refl by (simp add: read_from_def io_pre_def)
    ultimately show ?thesis unfolding start using True dir
      by (simp add: wps mapped_def file_range_def uio_moved_0)
  next
    case lt: False
    show ?thesis
    proof (cases "uio_offset u + int (uio_resid u) > int (sfi_size (sv_i v))")
      case True
      have n: "n = nat (int (sfi_size (sv_i v)) - uio_offset u)" "0 < n" "n \<le> uio_resid u"
        using True lt b unfolding n_def read_len_def by auto
      have x: "to_u32 (uio_offset u + int (uio_resid u) - int (sfi_size (sv_i v))) = uio_resid u - n"
        using True lt b n sz by (subst to_u32_nat) auto
      have s: "sub32 (uio_resid u) (uio_resid u - n) = n"
        using n(3) b sub32_id [of "uio_resid u - n" "uio_resid u"] by simp
      show ?thesis unfolding start
        using sfs_io_read_clip [OF pre dir n(2,3) refl] True lt dir n(2,3)
        by (simp add: wp_kbind [of "kwhen _ _"] wp_kwhen wp_kbind [of "kassert _"] wp_kassert wp_on_uio wp_kmodify x s)
    next
      case False
      then have n: "n = uio_resid u" using lt b unfolding n_def read_len_def by auto
      have "u\<lparr>uio_resid := n\<rparr> = u" by (simp add: n)
      then show ?thesis unfolding start
        using sfs_io_read_clip [OF pre dir _ _ refl, of n] False lt dir n res
        by (simp add: wp_kbind [of "kwhen _ _"] wp_kwhen)
    qed
  qed
qed

section \<open>Properties\<close>

text \<open>
  Property C1: writing to a file through \<open>sfs_io\<close> overlays the contents of the file with the bytes of
  the caller from the offset on, grows the size to the end of the transfer, consumes the whole
  descriptor, and touches nothing else of the file system (\<open>wrote\<close>, \<open>file_step\<close>). When it fails
  part-way (a bad user pointer, no free block, an offset past the reach of the indirect block) what
  has been done is the same write, cut short after \<open>k\<close> bytes, at the start of a block or at once. The
  disk reports no errors (\<open>fs_wf\<close> in \<open>io_pre\<close>).
\<close>

theorem sfs_io_write_overlays:
  assumes "io_pre p v s u" and "uio_dir u = UIO_WRITE" and "0 < uio_resid u"
    and "sfi_size (sv_i v) < 2147483648"
  shows "wp (sfs_io p)
    (\<lambda>_ t. wrote p v s u (uio_resid u) (fst t) \<and> mapped (uio_mem u) (iov_base u) (uio_resid u)
       \<and> snd t = uio_moved (uio_resid u) (uio_mem u) u)
    (\<lambda>e t. io_why u e (fst t) \<and> (\<exists>k. io_stop u k \<and> wrote p v s u k (fst t))) (s, u)"
  by (rule sfs_io_write_wp [OF assms])

lemma small_io_pre: "uio_valid u \<Longrightarrow> io_pre 4096 small_vnode small_fs u"
  by (simp add: io_pre_def small_fs_wf small_vnode_def empty_file_wf)

lemma small_size: "sfi_size (sv_i small_vnode) = 0"
  by (simp add: small_vnode_def empty_inode_def)

lemma uio_ex_valid: "uio_valid uio_ex"
  by (auto simp: uio_ex_def mk_kuio_def uio_valid_def mapped_def)

theorem sfs_io_write_overlays_witness:
  "wp (sfs_io 4096)
    (\<lambda>_ t. wrote 4096 small_vnode small_fs uio_ex (uio_resid uio_ex) (fst t)
       \<and> mapped (uio_mem uio_ex) (iov_base uio_ex) (uio_resid uio_ex)
       \<and> snd t = uio_moved (uio_resid uio_ex) (uio_mem uio_ex) uio_ex)
    (\<lambda>e t. io_why uio_ex e (fst t) \<and> (\<exists>k. io_stop uio_ex k \<and> wrote 4096 small_vnode small_fs uio_ex k (fst t))) (small_fs, uio_ex)"
  by (rule sfs_io_write_overlays [OF small_io_pre [OF uio_ex_valid]])
    (simp_all add: small_size uio_ex_def mk_kuio_def)

text \<open>
  Property C3: reading a file through \<open>sfs_io\<close> delivers exactly the bytes of the file from the offset
  on, up to the end of the file (\<open>read_len\<close>; holes read as zeros, nothing at or past the end), and
  leaves the excess in the residue; no block, size or allocation changes, also when it fails. The disk
  reports no errors (\<open>fs_wf\<close> in \<open>io_pre\<close>).
\<close>

theorem sfs_io_reads_contents:
  assumes "io_pre p v s u" and "uio_dir u = UIO_READ" and "0 < uio_resid u"
    and "sfi_size (sv_i v) < 2147483648"
  shows "wp (sfs_io p)
    (\<lambda>_ t. read_from p v s (fst t) \<and> mapped (uio_mem u) (iov_base u) (read_len v u)
       \<and> snd t = uio_moved (read_len v u) (mem_upd (iov_base u)
            (file_range (fblock (sv_i v) (disk s)) (nat (uio_offset u)) (read_len v u)) (uio_mem u)) u)
    (\<lambda>e t. io_why (u\<lparr>uio_resid := read_len v u\<rparr>) e (fst t) \<and> read_from p v s (fst t)) (s, u)"
  by (rule sfs_io_read_wp [OF assms])

definition uio_rd :: uio where
  "uio_rd = mk_kuio [10, 20, 30, 40] 4 0 UIO_READ"

text \<open>The file of eight blocks' file system with three bytes in a hole.\<close>

definition hole_vnode :: sfs_vnode where
  "hole_vnode = small_vnode\<lparr>sv_i := empty_inode\<lparr>sfi_size := 3\<rparr>\<rparr>"

definition hole_fs :: sfs_fs where
  "hole_fs = small_fs\<lparr>sv_heap := [4096 \<mapsto> hole_vnode]\<rparr>"

lemma hole_file: "file_wf (sv_i hole_vnode) hole_fs"
proof -
  have m: "fmap (sv_i hole_vnode) d fb = 0" for d fb
    by (simp add: hole_vnode_def fmap_def empty_inode_def id_entries_def del: replicate_Suc)
  then have "owned (sv_i hole_vnode) d = {}" for d by (auto simp: owned_def hole_vnode_def empty_inode_def)
  then show ?thesis using m empty_inode_fits by (simp add: file_wf_def hole_vnode_def inode_fits_def)
qed

theorem sfs_io_reads_contents_witness:
  "wp (sfs_io 4096)
    (\<lambda>_ t. read_from 4096 hole_vnode hole_fs (fst t) \<and> mapped (uio_mem uio_rd) (iov_base uio_rd) (read_len hole_vnode uio_rd)
       \<and> snd t = uio_moved (read_len hole_vnode uio_rd) (mem_upd (iov_base uio_rd)
            (file_range (fblock (sv_i hole_vnode) (disk hole_fs)) (nat (uio_offset uio_rd)) (read_len hole_vnode uio_rd))
            (uio_mem uio_rd)) uio_rd)
    (\<lambda>e t. io_why (uio_rd\<lparr>uio_resid := read_len hole_vnode uio_rd\<rparr>) e (fst t)
       \<and> read_from 4096 hole_vnode hole_fs (fst t)) (hole_fs, uio_rd)
   \<and> read_len hole_vnode uio_rd = 3"
proof (intro conjI sfs_io_reads_contents)
  show "io_pre 4096 hole_vnode hole_fs uio_rd"
    using small_fs_wf hole_file
    by (auto simp: io_pre_def hole_fs_def uio_rd_def mk_kuio_def uio_valid_def mapped_def)
qed (simp_all add: uio_rd_def mk_kuio_def hole_vnode_def read_len_def)

text \<open>The bytes read back from an overlay.\<close>

lemma file_range_overlay: "file_range (overlay f off bs) off (length bs) = bs"
proof (rule nth_equalityI)
  show "file_range (overlay f off bs) off (length bs) ! j = bs ! j"
    if "j < length (file_range (overlay f off bs) off (length bs))" for j
  proof -
    have j: "j < length bs" using that by simp
    have "(off + j) div 512 * 512 + (off + j) mod 512 = off + j" by simp
    then show ?thesis using j by (simp add: file_range_def overlay_nth)
  qed
qed simp

text \<open>
  Property C6: what was written to a file is what a later read at the same place returns. After a
  write of \<open>n\<close> bytes within the reach of the block map has succeeded, reading \<open>n\<close> bytes from the
  same offset delivers the bytes of the writer to the reader; the only way for the read to fail is
  a bad pointer of the reader. The disk reports no errors (\<open>fs_wf\<close> in \<open>io_pre\<close>); what a media error does to a
  write is a property of \<open>Lhd\<close>.
\<close>

theorem sfs_write_then_read:
  assumes "io_pre p v s u" and "uio_dir u = UIO_WRITE" and "0 < uio_resid u"
    and "sfi_size (sv_i v) < 2147483648" and "uio_offset u + int (uio_resid u) \<le> 73216"
    and "uio_valid r" and "uio_dir r = UIO_READ" and "uio_offset r = uio_offset u" and "uio_resid r = uio_resid u"
  shows "wp (sfs_io p)
    (\<lambda>_ t. wp (sfs_io p)
       (\<lambda>_ t'. snd t' = uio_moved (uio_resid r) (mem_upd (iov_base r)
            (mem_bytes (uio_mem u) (iov_base u) (uio_resid u)) (uio_mem r)) r)
       (\<lambda>e _. e = EFAULT \<and> uio_segflg r \<noteq> UIO_SYSSPACE) (fst t, r))
    (\<lambda>e _. e = EFAULT \<and> uio_segflg u \<noteq> UIO_SYSSPACE \<or> e = ENOSPC) (s, u)"
proof (rule wp_mono [OF sfs_io_write_wp [OF assms(1-4)]])
  fix x :: unit and t
  let ?n = "uio_resid u" and ?off = "nat (uio_offset u)"
  let ?bs = "mem_bytes (uio_mem u) (iov_base u) ?n"
  assume "wrote p v s u ?n (fst t) \<and> mapped (uio_mem u) (iov_base u) ?n \<and> snd t = uio_moved ?n (uio_mem u) u"
  then obtain v' where st: "file_step p v v' s (fst t)" and sz: "sfi_size (sv_i v') = max (sfi_size (sv_i v)) (?off + ?n)"
    and fb: "fblock (sv_i v') (disk (fst t)) = overlay (fblock (sv_i v) (disk s)) ?off ?bs"
    by (auto simp: wrote_def)
  have pre: "io_pre p v' (fst t) r" using file_stepD [OF st] assms(6) by (simp add: io_pre_def)
  have res: "0 < uio_resid r" "sfi_size (sv_i v') < 2147483648"
    using assms sz by (auto simp: uio_valid_def)
  have len: "read_len v' r = ?n" using assms(8,9) sz by (simp add: read_len_def)
  have off: "nat (uio_offset r) = ?off" using assms(8) by simp
  have bs: "file_range (fblock (sv_i v') (disk (fst t))) ?off ?n = ?bs"
    using file_range_overlay [of "fblock (sv_i v) (disk s)" ?off ?bs] by (simp add: fb)
  show "wp (sfs_io p) (\<lambda>_ t'. snd t' = uio_moved (uio_resid r) (mem_upd (iov_base r) ?bs (uio_mem r)) r)
     (\<lambda>e _. e = EFAULT \<and> uio_segflg r \<noteq> UIO_SYSSPACE) (fst t, r)"
    by (rule wp_mono [OF sfs_io_read_wp [OF pre assms(7) res]])
      (use assms(5,7-9) in \<open>auto simp: len off bs io_why_def\<close>)
qed (use assms(5) in \<open>auto simp: io_why_def\<close>)

theorem sfs_write_then_read_witness:
  "wp (sfs_io 4096)
    (\<lambda>_ t. wp (sfs_io 4096)
       (\<lambda>_ t'. snd t' = uio_moved (uio_resid (mk_kuio [0, 0, 0, 0] 4 100 UIO_READ))
            (mem_upd (iov_base (mk_kuio [0, 0, 0, 0] 4 100 UIO_READ))
            (mem_bytes (uio_mem uio_ex) (iov_base uio_ex) (uio_resid uio_ex))
            (uio_mem (mk_kuio [0, 0, 0, 0] 4 100 UIO_READ))) (mk_kuio [0, 0, 0, 0] 4 100 UIO_READ))
       (\<lambda>e _. e = EFAULT \<and> uio_segflg (mk_kuio [0, 0, 0, 0] 4 100 UIO_READ) \<noteq> UIO_SYSSPACE)
         (fst t, mk_kuio [0, 0, 0, 0] 4 100 UIO_READ))
    (\<lambda>e _. e = EFAULT \<and> uio_segflg uio_ex \<noteq> UIO_SYSSPACE \<or> e = ENOSPC) (small_fs, uio_ex)"
  by (rule sfs_write_then_read [OF small_io_pre [OF uio_ex_valid]])
    (auto simp: small_size uio_ex_def mk_kuio_def uio_valid_def mapped_def)

end
