(* ===== verification/SfsTrunc.thy ===== *)
theory SfsTrunc
  imports SfsAlloc
begin

text \<open>
  \<open>sfs_truncate\<close> of kern/fs/sfs/sfs_vnode.c: which blocks it gives back, and which block past the new
  end of file it keeps.
\<close>

section \<open>The routine\<close>

text \<open>\<open>DIVROUNDUP(len, SFS_BLOCKSIZE)\<close> on an \<open>off_t\<close>, stored in a \<open>u_int32_t\<close>.\<close>

definition trunc_blocklen :: "int \<Rightarrow> nat" where
  "trunc_blocklen len = to_u32 (cdiv (off32 (len + int SFS_BLOCKSIZE - 1)) (int SFS_BLOCKSIZE))"

text \<open>The body of the loop over the direct blocks.\<close>

definition trunc_direct :: "nat \<Rightarrow> nat \<Rightarrow> nat \<Rightarrow> (sfs_fs, unit) op" where
  "trunc_direct sv blocklen i =
     kbind (sv_get sv) (\<lambda>v.
     let block = sfi_direct (sv_i v) ! i in
     kwhen (i \<ge> blocklen \<and> block \<noteq> 0)
       (kbind (sfs_bfree block) (\<lambda>_.
        sv_upd sv (\<lambda>v. v\<lparr>sv_i := (sv_i v)\<lparr>sfi_direct := (sfi_direct (sv_i v))[i := 0]\<rparr>, sv_dirty := True\<rparr>))))"

text \<open>The loop over the entries of the indirect block, with \<open>idbuf\<close>, \<open>hasnonzero\<close> and \<open>iddirty\<close>.\<close>

primrec trunc_entries :: "nat \<Rightarrow> nat list \<Rightarrow> nat list \<Rightarrow> bool \<Rightarrow> bool \<Rightarrow> (sfs_fs, nat list \<times> bool \<times> bool) op" where
  "trunc_entries blocklen [] idbuf hasnonzero iddirty = kret (idbuf, hasnonzero, iddirty)"
| "trunc_entries blocklen (j # js) idbuf hasnonzero iddirty =
     kbind (if blocklen < SFS_NDIRECT + j \<and> idbuf ! j \<noteq> 0 then
              kbind (sfs_bfree (idbuf ! j)) (\<lambda>_. kret (idbuf[j := 0], True))
            else kret (idbuf, iddirty)) (\<lambda>r.
     trunc_entries blocklen js (fst r) (hasnonzero \<or> fst r ! j \<noteq> 0) (snd r))"

definition trunc_indirect :: "nat \<Rightarrow> nat \<Rightarrow> (sfs_fs, unit) op" where
  "trunc_indirect sv blocklen =
     kbind (sv_get sv) (\<lambda>v.
     let idblock = sfi_indirect (sv_i v);
         baseblock = SFS_NDIRECT;
         highblock = baseblock + SFS_DBPERIDB - 1 in
     kwhen (blocklen < highblock \<and> idblock \<noteq> 0)
       (kbind (on_device (sfs_rblock idblock)) (\<lambda>data.
        kbind (trunc_entries blocklen [0..<SFS_DBPERIDB] (dec_u32s SFS_DBPERIDB data) False False) (\<lambda>r.
        let idbuf = fst r; hasnonzero = fst (snd r); iddirty = snd (snd r) in
        if \<not> hasnonzero then
          kbind (sfs_bfree idblock) (\<lambda>_.
          sv_upd sv (\<lambda>v. v\<lparr>sv_i := (sv_i v)\<lparr>sfi_indirect := 0\<rparr>, sv_dirty := True\<rparr>))
        else
          kwhen iddirty (on_device (sfs_wblock (enc_u32s idbuf) idblock))))))"

definition sfs_truncate :: "nat \<Rightarrow> int \<Rightarrow> (sfs_fs, unit) op" where
  "sfs_truncate sv len =
     (let blocklen = trunc_blocklen len in
      kbind (kfor [0..<SFS_NDIRECT] (trunc_direct sv blocklen)) (\<lambda>_.
      kbind (trunc_indirect sv blocklen) (\<lambda>_.
      sv_upd sv (\<lambda>v. v\<lparr>sv_i := (sv_i v)\<lparr>sfi_size := to_u32 len\<rparr>, sv_dirty := True\<rparr>))))"

section \<open>Giving back blocks\<close>

lemma sfs_bfree_wp:
  assumes wf: "fs_wf s" and b: "b \<in> used s" "b < nblocks s" "b \<noteq> 0"
  shows "wp (sfs_bfree b) (\<lambda>_ s'. fs_wf s' \<and> fs_same s s' \<and> used s' = used s - {b} \<and> disk s' = disk s
     \<and> sv_heap s' = sv_heap s) (\<lambda>_ _. False) s"
proof -
  have m: "bitmap_wf (sfs_freemap s)" "b \<in> bitmap_used (sfs_freemap s)"
    using wf b by (simp_all add: fs_wf_def used_def)
  show ?thesis unfolding sfs_bfree_def on_freemap_def wps
    by (rule wp_mono [OF bmap.unmark_law [OF m]])
      (use wf b in \<open>auto simp: fs_wf_def fs_same_def used_def\<close>)
qed

text \<open>
  \<open>file_shrink p v v' s s'\<close>: a step on the file with vnode \<open>p\<close> that takes blocks from it. Exactly the
  blocks taken become free, and no block on the disk changes except perhaps the indirect block.
\<close>

definition file_shrink :: "nat \<Rightarrow> sfs_vnode \<Rightarrow> sfs_vnode \<Rightarrow> sfs_fs \<Rightarrow> sfs_fs \<Rightarrow> bool" where
  "file_shrink p v v' s s' \<longleftrightarrow> fs_wf s' \<and> fs_same s s' \<and> vnode_same v v' \<and> sv_heap s p = Some v
     \<and> sv_heap s' = (sv_heap s)(p \<mapsto> v') \<and> file_wf (sv_i v') s'
     \<and> owned (sv_i v') (disk s') \<subseteq> owned (sv_i v) (disk s)
     \<and> used s' = used s - (owned (sv_i v) (disk s) - owned (sv_i v') (disk s'))
     \<and> sfi_indirect (sv_i v') \<in> {sfi_indirect (sv_i v), 0}
     \<and> (\<forall>b. b \<noteq> sfi_indirect (sv_i v) \<or> sfi_indirect (sv_i v) = 0 \<longrightarrow> disk s' ! b = disk s ! b)"

lemma file_shrink_refl:
  "fs_wf s \<Longrightarrow> sv_heap s p = Some v \<Longrightarrow> file_wf (sv_i v) s \<Longrightarrow> file_shrink p v v s s"
  by (auto simp: file_shrink_def)

lemma file_shrink_trans:
  assumes 1: "file_shrink p u v s t" and 2: "file_shrink p v w t r"
  shows "file_shrink p u w s r"
proof -
  note d1 = 1 [unfolded file_shrink_def] and d2 = 2 [unfolded file_shrink_def]
  have "sv_heap r = (sv_heap s)(p \<mapsto> w)" using d1 d2 by simp
  moreover have "owned (sv_i w) (disk r) \<subseteq> owned (sv_i u) (disk s)"
    using d1 d2 order_trans by meson
  moreover have "used r = used s - (owned (sv_i u) (disk s) - owned (sv_i w) (disk r))"
  proof -
    have "used r = used t - (owned (sv_i v) (disk t) - owned (sv_i w) (disk r))"
      "used t = used s - (owned (sv_i u) (disk s) - owned (sv_i v) (disk t))"
      "owned (sv_i v) (disk t) \<subseteq> owned (sv_i u) (disk s)" "owned (sv_i w) (disk r) \<subseteq> owned (sv_i v) (disk t)"
      using d1 d2 by simp_all
    then show ?thesis by blast
  qed
  moreover have "sfi_indirect (sv_i w) \<in> {sfi_indirect (sv_i u), 0}" using d1 d2 by auto
  moreover have "disk r ! b = disk s ! b" if b: "b \<noteq> sfi_indirect (sv_i u) \<or> sfi_indirect (sv_i u) = 0" for b
  proof -
    have "b \<noteq> sfi_indirect (sv_i v) \<or> sfi_indirect (sv_i v) = 0" using d1 b by auto
    then have "disk r ! b = disk t ! b" using d2 by blast
    also have "disk t ! b = disk s ! b" using d1 b by blast
    finally show ?thesis .
  qed
  moreover have "fs_same s r" "vnode_same u w"
    using d1 d2 fs_same_trans vnode_same_trans by blast+
  ultimately show ?thesis unfolding file_shrink_def using d1 d2 by blast
qed

lemma file_shrinkD:
  assumes "file_shrink p v v' s s'"
  shows "fs_wf s'" "fs_same s s'" "sv_heap s' p = Some v'" "file_wf (sv_i v') s'" "vnode_same v v'"
  using assms by (auto simp: file_shrink_def)

lemma file_shrink_intro:
  assumes wf: "file_wf (sv_i v) s" and v: "sv_heap s p = Some v"
    and s': "fs_wf s'" "fs_same s s'" "vnode_same v v'" "sv_heap s' = (sv_heap s)(p \<mapsto> v')"
    and fits: "inode_fits (sv_i v')"
    and map: "\<And>fb. fmap (sv_i v') (disk s') fb = fmap (sv_i v) (disk s) fb \<or> fmap (sv_i v') (disk s') fb = 0"
    and ind: "sfi_indirect (sv_i v') = sfi_indirect (sv_i v) \<or> sfi_indirect (sv_i v') = 0"
    and used: "used s' = used s - (owned (sv_i v) (disk s) - owned (sv_i v') (disk s'))"
    and same: "\<And>b. b \<noteq> sfi_indirect (sv_i v) \<or> sfi_indirect (sv_i v) = 0 \<Longrightarrow> disk s' ! b = disk s ! b"
  shows "file_shrink p v v' s s'"
proof -
  let ?m = "fmap (sv_i v) (disk s)" and ?m' = "fmap (sv_i v') (disk s')"
  have own: "owned (sv_i v') (disk s') \<subseteq> owned (sv_i v) (disk s)"
  proof
    fix x
    assume x: "x \<in> owned (sv_i v') (disk s')"
    then consider "x = sfi_indirect (sv_i v')" "x \<noteq> 0" | fb where "fb < 143" "x = ?m' fb" "x \<noteq> 0"
      by (auto simp: owned_def)
    then show "x \<in> owned (sv_i v) (disk s)"
    proof cases
      case 1
      then show ?thesis using ind by (auto simp: owned_def)
    next
      case 2
      then have "x = ?m fb" using map [of fb] by auto
      then show ?thesis using 2(1,3) by (auto simp: owned_def)
    qed
  qed
  moreover have "owned (sv_i v) (disk s) \<subseteq> used s \<inter> {..<nblocks s}" using wf by (simp add: file_wf_def)
  ultimately have o: "owned (sv_i v') (disk s') \<subseteq> used s' \<inter> {..<nblocks s'}"
    using used fs_same_nblocks [OF s'(2)] by auto
  have i: "?m' fb \<noteq> sfi_indirect (sv_i v')" if "fb < 143" "?m' fb \<noteq> 0" for fb
  proof
    assume e: "?m' fb = sfi_indirect (sv_i v')"
    have "?m' fb = ?m fb" using map [of fb] that(2) by auto
    moreover have "sfi_indirect (sv_i v') = sfi_indirect (sv_i v)" using ind e that(2) by auto
    ultimately show False using wf that e unfolding file_wf_def by metis
  qed
  have inj: "a = b" if "a < 143" "b < 143" "?m' a \<noteq> 0" "?m' a = ?m' b" for a b
  proof -
    have "?m a \<noteq> 0" "?m a = ?m b" using map [of a] map [of b] that(3,4) by auto
    then show ?thesis using wf that(1,2) unfolding file_wf_def by blast
  qed
  have "file_wf (sv_i v') s'"
    unfolding file_wf_def
  proof (intro conjI allI impI)
    show "a = b" if "a < 143" "b < 143" "?m' a \<noteq> 0" "?m' a = ?m' b" for a b using inj [OF that] .
  qed (use fits o i in simp_all)
  moreover have "sfi_indirect (sv_i v') \<in> {sfi_indirect (sv_i v), 0}" using ind by simp
  moreover have "\<forall>b. b \<noteq> sfi_indirect (sv_i v) \<or> sfi_indirect (sv_i v) = 0 \<longrightarrow> disk s' ! b = disk s ! b"
    using same by simp
  ultimately show ?thesis unfolding file_shrink_def using s' v own used by simp
qed

lemma upt_0: "[0..<0] = []"
  by simp

section \<open>The direct blocks\<close>

text \<open>Removing one block from the map of a file.\<close>

lemma owned_remove:
  assumes wf: "file_wf i s" and fb: "fmap i (disk s) fb \<noteq> 0"
    and map: "fmap i' d' = (fmap i (disk s))(fb := 0)" and ind: "sfi_indirect i' = sfi_indirect i"
  shows "owned i (disk s) - owned i' d' = {fmap i (disk s) fb}"
proof -
  have lt: "fb < 143" using fb by (auto simp: fmap_def split: if_splits)
  have inj: "a = fb" if "fmap i (disk s) a = fmap i (disk s) fb" "a < 143" for a
    using wf that fb lt unfolding file_wf_def by metis
  have ni: "fmap i (disk s) fb \<noteq> sfi_indirect i" using wf fb lt by (simp add: file_wf_def)
  have "fmap i (disk s) fb \<notin> owned i' d'"
    unfolding owned_def map ind using fb ni inj by auto
  moreover have "fmap i (disk s) fb \<in> owned i (disk s)" using lt fb by (auto simp: owned_def)
  moreover have "x \<in> owned i' d'" if "x \<in> owned i (disk s)" "x \<noteq> fmap i (disk s) fb" for x
    using that unfolding owned_def map ind by auto
  ultimately show ?thesis by blast
qed

lemma trunc_direct_wp:
  assumes wf: "fs_wf s" and v: "sv_heap s p = Some v" and f: "file_wf (sv_i v) s" and i: "i < 15"
  shows "wp (trunc_direct p bl i)
    (\<lambda>_ t. \<exists>v'. file_shrink p v v' s t \<and> sfi_indirect (sv_i v') = sfi_indirect (sv_i v)
       \<and> fmap (sv_i v') (disk t) = (fmap (sv_i v) (disk s))(i := if bl \<le> i then 0 else fmap (sv_i v) (disk s) i))
    (\<lambda>_ _. False) s"
proof -
  let ?b = "sfi_direct (sv_i v) ! i"
  have b: "?b = fmap (sv_i v) (disk s) i" using i by (simp add: fmap_def)
  show ?thesis
  proof (cases "bl \<le> i \<and> ?b \<noteq> 0")
    case False
    have eq: "(fmap (sv_i v) (disk s))(i := if bl \<le> i then 0 else fmap (sv_i v) (disk s) i) = fmap (sv_i v) (disk s)"
      using False b by (auto simp: fun_eq_iff)
    show ?thesis unfolding trunc_direct_def wp_kbind wp_sv_get [OF v] Let_def wp_kwhen if_not_P [OF False] eq
      using file_shrink_refl [OF wf v f] by blast
  next
    case True
    then have nz: "fmap (sv_i v) (disk s) i \<noteq> 0" using b by simp
    note blk = file_wf_block [OF f nz]
    let ?v' = "v\<lparr>sv_i := (sv_i v)\<lparr>sfi_direct := (sfi_direct (sv_i v))[i := 0]\<rparr>, sv_dirty := True\<rparr>"
    have len: "length (sfi_direct (sv_i v)) = 15" using f by (simp add: file_wf_def inode_fits_def)
    have map: "fmap (sv_i ?v') d = (fmap (sv_i v) d)(i := 0)" for d
      using i len by (auto simp: fmap_def id_entries_def fun_eq_iff)
    have fits: "inode_fits (sv_i ?v')"
      using f set_update_subset_insert [of "sfi_direct (sv_i v)" i 0]
      by (auto simp: file_wf_def inode_fits_def)
    have vs: "vnode_same v ?v'" by (simp add: vnode_same_def)
    show ?thesis unfolding trunc_direct_def wp_kbind wp_sv_get [OF v] Let_def wp_kwhen if_P [OF True]
    proof (rule wp_mono [OF sfs_bfree_wp [OF wf]])
      fix x :: unit and t
      assume t: "fs_wf t \<and> fs_same s t \<and> used t = used s - {?b} \<and> disk t = disk s \<and> sv_heap t = sv_heap s"
      let ?t = "t\<lparr>sv_heap := (sv_heap t)(p \<mapsto> ?v')\<rparr>"
      have hp: "sv_heap t p = Some v" using t v by simp
      have o: "owned (sv_i v) (disk s) - owned (sv_i ?v') (disk ?t) = {?b}"
        unfolding b by (rule owned_remove [OF f nz]) (use map t in auto)
      have "file_shrink p v ?v' s ?t"
      proof (rule file_shrink_intro [OF f v _ _ vs _ fits])
        show "used ?t = used s - (owned (sv_i v) (disk s) - owned (sv_i ?v') (disk ?t))" unfolding o using t by simp
        show "fmap (sv_i ?v') (disk ?t) fb = fmap (sv_i v) (disk s) fb \<or> fmap (sv_i ?v') (disk ?t) fb = 0" for fb
          unfolding map using t by simp
      qed (use t in simp_all)
      then show "wp (sv_upd p (\<lambda>v. v\<lparr>sv_i := (sv_i v)\<lparr>sfi_direct := (sfi_direct (sv_i v))[i := 0]\<rparr>, sv_dirty := True\<rparr>))
        (\<lambda>_ t. \<exists>v'. file_shrink p v v' s t \<and> sfi_indirect (sv_i v') = sfi_indirect (sv_i v)
          \<and> fmap (sv_i v') (disk t) = (fmap (sv_i v) (disk s))(i := if bl \<le> i then 0 else fmap (sv_i v) (disk s) i))
        (\<lambda>_ _. False) t"
        unfolding wp_sv_upd [OF hp] using map t True by (intro exI [of _ ?v']) simp
    qed (use blk b nz in auto)
  qed
qed

lemma trunc_directs_wp:
  assumes wf: "fs_wf s" and v: "sv_heap s p = Some v" and f: "file_wf (sv_i v) s" and n: "n \<le> 15"
  shows "wp (kfor [0..<n] (trunc_direct p bl))
    (\<lambda>_ t. \<exists>v'. file_shrink p v v' s t \<and> sfi_indirect (sv_i v') = sfi_indirect (sv_i v)
       \<and> fmap (sv_i v') (disk t) = (\<lambda>fb. if fb < n \<and> bl \<le> fb then 0 else fmap (sv_i v) (disk s) fb))
    (\<lambda>_ _. False) s"
  using n
proof (induction n)
  case 0
  have e: "(\<lambda>fb. if fb < 0 \<and> bl \<le> fb then 0 else fmap (sv_i v) (disk s) fb) = fmap (sv_i v) (disk s)" by simp
  show ?case unfolding upt_0 wp_kfor_Nil e using file_shrink_refl [OF wf v f] by blast
next
  case (Suc n)
  have ih: "wp (kfor [0..<n] (trunc_direct p bl))
    (\<lambda>_ t. \<exists>v'. file_shrink p v v' s t \<and> sfi_indirect (sv_i v') = sfi_indirect (sv_i v)
       \<and> fmap (sv_i v') (disk t) = (\<lambda>fb. if fb < n \<and> bl \<le> fb then 0 else fmap (sv_i v) (disk s) fb))
    (\<lambda>_ _. False) s" by (rule Suc.IH) (use Suc.prems in simp)
  have up: "[0..<Suc n] = [0..<n] @ [n]" by simp
  show ?case unfolding up wp_kfor_append wp_kfor_Cons wp_kfor_Nil
  proof (rule wp_mono [OF ih])
    fix x :: unit and t
    assume "\<exists>v'. file_shrink p v v' s t \<and> sfi_indirect (sv_i v') = sfi_indirect (sv_i v)
       \<and> fmap (sv_i v') (disk t) = (\<lambda>fb. if fb < n \<and> bl \<le> fb then 0 else fmap (sv_i v) (disk s) fb)"
    then obtain u where u: "file_shrink p v u s t" "sfi_indirect (sv_i u) = sfi_indirect (sv_i v)"
      "fmap (sv_i u) (disk t) = (\<lambda>fb. if fb < n \<and> bl \<le> fb then 0 else fmap (sv_i v) (disk s) fb)" by blast
    show "wp (trunc_direct p bl n)
      (\<lambda>_ t. \<exists>v'. file_shrink p v v' s t \<and> sfi_indirect (sv_i v') = sfi_indirect (sv_i v)
         \<and> fmap (sv_i v') (disk t) = (\<lambda>fb. if fb < Suc n \<and> bl \<le> fb then 0 else fmap (sv_i v) (disk s) fb))
      (\<lambda>_ _. False) t"
    proof (rule wp_mono [OF trunc_direct_wp [OF file_shrinkD(1,3,4) [OF u(1)]]])
      fix x :: unit and r
      assume "\<exists>v'. file_shrink p u v' t r \<and> sfi_indirect (sv_i v') = sfi_indirect (sv_i u)
        \<and> fmap (sv_i v') (disk r) = (fmap (sv_i u) (disk t))(n := if bl \<le> n then 0 else fmap (sv_i u) (disk t) n)"
      then obtain w where w: "file_shrink p u w t r" "sfi_indirect (sv_i w) = sfi_indirect (sv_i u)"
        "fmap (sv_i w) (disk r) = (fmap (sv_i u) (disk t))(n := if bl \<le> n then 0 else fmap (sv_i u) (disk t) n)"
        by blast
      have "fmap (sv_i w) (disk r) = (\<lambda>fb. if fb < Suc n \<and> bl \<le> fb then 0 else fmap (sv_i v) (disk s) fb)"
        unfolding w(3) u(3) by (auto simp: fun_eq_iff less_Suc_eq)
      then show "\<exists>v'. file_shrink p v v' s r \<and> sfi_indirect (sv_i v') = sfi_indirect (sv_i v)
         \<and> fmap (sv_i v') (disk r) = (\<lambda>fb. if fb < Suc n \<and> bl \<le> fb then 0 else fmap (sv_i v) (disk s) fb)"
        using file_shrink_trans [OF u(1) w(1)] u(2) w(2) by (intro exI [of _ w] conjI) simp_all
    next
      show "n < 15" using Suc.prems by simp
    qed
  qed simp
qed

section \<open>The indirect block\<close>

text \<open>The entries that the loop frees.\<close>

definition freed :: "nat \<Rightarrow> nat list \<Rightarrow> nat set \<Rightarrow> nat set" where
  "freed bl buf J = (\<lambda>k. buf ! k) ` {k \<in> J. bl < 15 + k \<and> buf ! k \<noteq> 0}"

lemma freed_insert:
  assumes "j \<notin> J" and "length buf = 128" and "\<forall>k \<in> J. k < 128" and "j < 128"
  shows "freed bl buf (insert j J) = (if bl < 15 + j \<and> buf ! j \<noteq> 0 then insert (buf ! j) (freed bl (buf[j := 0]) J)
    else freed bl buf J)"
proof -
  have "buf[j := 0] ! k = buf ! k" if "k \<in> J" for k using assms(1) that by (metis nth_list_update_neq)
  then show ?thesis unfolding freed_def by force
qed

lemma trunc_entries_wp:
  assumes "distinct js" and "\<forall>k \<in> set js. k < 128" and "length buf = 128" and "fs_wf s"
    and "\<forall>k \<in> set js. bl < 15 + k \<longrightarrow> buf ! k \<noteq> 0 \<longrightarrow> buf ! k \<in> used s \<and> buf ! k < nblocks s"
    and "\<forall>a \<in> set js. \<forall>b \<in> set js. buf ! a \<noteq> 0 \<longrightarrow> buf ! a = buf ! b \<longrightarrow> a = b"
  shows "wp (trunc_entries bl js buf hz di)
    (\<lambda>r t. fs_wf t \<and> fs_same s t \<and> disk t = disk s \<and> sv_heap t = sv_heap s
       \<and> used t = used s - freed bl buf (set js)
       \<and> length (fst r) = 128 \<and> (\<forall>k < 128. fst r ! k = (if k \<in> set js \<and> bl < 15 + k then 0 else buf ! k))
       \<and> fst (snd r) = (hz \<or> (\<exists>k \<in> set js. \<not> bl < 15 + k \<and> buf ! k \<noteq> 0))
       \<and> snd (snd r) = (di \<or> (\<exists>k \<in> set js. bl < 15 + k \<and> buf ! k \<noteq> 0)))
    (\<lambda>_ _. False) s"
  using assms
proof (induction js arbitrary: buf hz di s)
  case Nil
  then show ?case by (simp add: wps freed_def)
next
  case (Cons j js)
  have j: "j < 128" "j \<notin> set js" using Cons.prems by auto
  have nj: "k \<noteq> j" if "k \<in> set js" for k using j(2) that by auto
  show ?case
  proof (cases "bl < 15 + j \<and> buf ! j \<noteq> 0")
    case True
    let ?buf = "buf[j := 0]"
    have same: "?buf ! k = buf ! k" if "k \<in> set js" for k using nj [OF that] by simp
    have fr: "freed bl buf (set (j # js)) = insert (buf ! j) (freed bl ?buf (set js))"
      using freed_insert [of j "set js" buf bl] True j Cons.prems(2,3) by simp
    have b: "buf ! j \<in> used s" "buf ! j < nblocks s" "buf ! j \<noteq> 0" using True Cons.prems(5) by auto
    have free: "wp (sfs_bfree (buf ! j)) (\<lambda>_ s'. fs_wf s' \<and> fs_same s s' \<and> used s' = used s - {buf ! j} \<and> disk s' = disk s
     \<and> sv_heap s' = sv_heap s) (\<lambda>_ _. False) s" by (rule sfs_bfree_wp [OF Cons.prems(4) b])
    have ndj: "?buf ! j = 0" using j(1) Cons.prems(3) by simp
    show ?thesis unfolding trunc_entries.simps SFS_NDIRECT_def if_P [OF True] wp_kbind wp_kret fst_conv snd_conv
    proof (rule wp_mono [OF free])
      fix x :: unit and t
      assume t: "fs_wf t \<and> fs_same s t \<and> used t = used s - {buf ! j} \<and> disk t = disk s \<and> sv_heap t = sv_heap s"
      have u: "\<forall>k \<in> set js. bl < 15 + k \<longrightarrow> ?buf ! k \<noteq> 0 \<longrightarrow> ?buf ! k \<in> used t \<and> ?buf ! k < nblocks t"
      proof (intro ballI impI)
        fix k assume k: "k \<in> set js" "bl < 15 + k" "?buf ! k \<noteq> 0"
        have ne: "buf ! k \<noteq> 0" using k(3) same [OF k(1)] by simp
        have "buf ! k \<noteq> buf ! j" using Cons.prems(6) k(1) nj [OF k(1)] ne by (metis list.set_intros)
        moreover have "buf ! k \<in> used s \<and> buf ! k < nblocks s" using Cons.prems(5) k(1,2) ne by simp
        ultimately show "?buf ! k \<in> used t \<and> ?buf ! k < nblocks t"
          using t same [OF k(1)] fs_same_nblocks [of s t] by simp
      qed
      have d: "\<forall>a \<in> set js. \<forall>b \<in> set js. ?buf ! a \<noteq> 0 \<longrightarrow> ?buf ! a = ?buf ! b \<longrightarrow> a = b"
        using Cons.prems(6) same by simp
      have ih: "wp (trunc_entries bl js ?buf (hz \<or> ?buf ! j \<noteq> 0) True)
        (\<lambda>r t'. fs_wf t' \<and> fs_same t t' \<and> disk t' = disk t \<and> sv_heap t' = sv_heap t
          \<and> used t' = used t - freed bl ?buf (set js)
          \<and> length (fst r) = 128 \<and> (\<forall>k < 128. fst r ! k = (if k \<in> set js \<and> bl < 15 + k then 0 else ?buf ! k))
          \<and> fst (snd r) = ((hz \<or> ?buf ! j \<noteq> 0) \<or> (\<exists>k \<in> set js. \<not> bl < 15 + k \<and> ?buf ! k \<noteq> 0))
          \<and> snd (snd r) = (True \<or> (\<exists>k \<in> set js. bl < 15 + k \<and> ?buf ! k \<noteq> 0)))
        (\<lambda>_ _. False) t"
        by (rule Cons.IH) (use Cons.prems(1-3) t u d in simp_all)
      show "wp (trunc_entries bl js ?buf (hz \<or> ?buf ! j \<noteq> 0) True)
        (\<lambda>r t. fs_wf t \<and> fs_same s t \<and> disk t = disk s \<and> sv_heap t = sv_heap s
       \<and> used t = used s - freed bl buf (set (j # js))
       \<and> length (fst r) = 128 \<and> (\<forall>k < 128. fst r ! k = (if k \<in> set (j # js) \<and> bl < 15 + k then 0 else buf ! k))
       \<and> fst (snd r) = (hz \<or> (\<exists>k \<in> set (j # js). \<not> bl < 15 + k \<and> buf ! k \<noteq> 0))
       \<and> snd (snd r) = (di \<or> (\<exists>k \<in> set (j # js). bl < 15 + k \<and> buf ! k \<noteq> 0)))
        (\<lambda>_ _. False) t"
      proof (rule wp_mono [OF ih])
        fix r t'
        assume r: "fs_wf t' \<and> fs_same t t' \<and> disk t' = disk t \<and> sv_heap t' = sv_heap t
          \<and> used t' = used t - freed bl ?buf (set js)
          \<and> length (fst r) = 128 \<and> (\<forall>k < 128. fst r ! k = (if k \<in> set js \<and> bl < 15 + k then 0 else ?buf ! k))
          \<and> fst (snd r) = ((hz \<or> ?buf ! j \<noteq> 0) \<or> (\<exists>k \<in> set js. \<not> bl < 15 + k \<and> ?buf ! k \<noteq> 0))
          \<and> snd (snd r) = (True \<or> (\<exists>k \<in> set js. bl < 15 + k \<and> ?buf ! k \<noteq> 0))"
        have "\<forall>k < 128. fst r ! k = (if k \<in> set (j # js) \<and> bl < 15 + k then 0 else buf ! k)"
        proof (intro allI impI)
          fix k :: nat assume "k < 128"
          then show "fst r ! k = (if k \<in> set (j # js) \<and> bl < 15 + k then 0 else buf ! k)"
            using r ndj True by (cases "k = j") simp_all
        qed
        moreover have "fs_same s t'" using r t fs_same_trans by blast
        moreover have "used t' = used s - freed bl buf (set (j # js))"
        proof -
          have "used t' = (used s - {buf ! j}) - freed bl ?buf (set js)" using r t by simp
          then show ?thesis unfolding fr by blast
        qed
        moreover have "fst (snd r) = (hz \<or> (\<exists>k \<in> set (j # js). \<not> bl < 15 + k \<and> buf ! k \<noteq> 0))"
          using r ndj True same by simp
        ultimately show "fs_wf t' \<and> fs_same s t' \<and> disk t' = disk s \<and> sv_heap t' = sv_heap s
       \<and> used t' = used s - freed bl buf (set (j # js))
       \<and> length (fst r) = 128 \<and> (\<forall>k < 128. fst r ! k = (if k \<in> set (j # js) \<and> bl < 15 + k then 0 else buf ! k))
       \<and> fst (snd r) = (hz \<or> (\<exists>k \<in> set (j # js). \<not> bl < 15 + k \<and> buf ! k \<noteq> 0))
       \<and> snd (snd r) = (di \<or> (\<exists>k \<in> set (j # js). bl < 15 + k \<and> buf ! k \<noteq> 0))"
          using r t True by simp
      qed simp
    qed simp
  next
    case False
    have fr: "freed bl buf (set (j # js)) = freed bl buf (set js)"
      using freed_insert [of j "set js" buf bl, unfolded if_not_P [OF False]] j Cons.prems(2,3) by simp
    have ih: "wp (trunc_entries bl js buf (hz \<or> buf ! j \<noteq> 0) di)
        (\<lambda>r t. fs_wf t \<and> fs_same s t \<and> disk t = disk s \<and> sv_heap t = sv_heap s
          \<and> used t = used s - freed bl buf (set js)
          \<and> length (fst r) = 128 \<and> (\<forall>k < 128. fst r ! k = (if k \<in> set js \<and> bl < 15 + k then 0 else buf ! k))
          \<and> fst (snd r) = ((hz \<or> buf ! j \<noteq> 0) \<or> (\<exists>k \<in> set js. \<not> bl < 15 + k \<and> buf ! k \<noteq> 0))
          \<and> snd (snd r) = (di \<or> (\<exists>k \<in> set js. bl < 15 + k \<and> buf ! k \<noteq> 0)))
        (\<lambda>_ _. False) s"
      by (rule Cons.IH) (use Cons.prems in simp_all)
    show ?thesis unfolding trunc_entries.simps SFS_NDIRECT_def if_not_P [OF False] wp_kbind wp_kret fst_conv snd_conv fr
      proof (rule wp_mono [OF ih])
      fix r t
      assume "fs_wf t \<and> fs_same s t \<and> disk t = disk s \<and> sv_heap t = sv_heap s
          \<and> used t = used s - freed bl buf (set js)
          \<and> length (fst r) = 128 \<and> (\<forall>k < 128. fst r ! k = (if k \<in> set js \<and> bl < 15 + k then 0 else buf ! k))
          \<and> fst (snd r) = ((hz \<or> buf ! j \<noteq> 0) \<or> (\<exists>k \<in> set js. \<not> bl < 15 + k \<and> buf ! k \<noteq> 0))
          \<and> snd (snd r) = (di \<or> (\<exists>k \<in> set js. bl < 15 + k \<and> buf ! k \<noteq> 0))"
      moreover have "(if k \<in> set js \<and> bl < 15 + k then 0 else buf ! k)
        = (if k \<in> set (j # js) \<and> bl < 15 + k then 0 else buf ! k)" for k
        using False by (cases "k = j") simp_all
      moreover have "((hz \<or> buf ! j \<noteq> 0) \<or> (\<exists>k \<in> set js. \<not> bl < 15 + k \<and> buf ! k \<noteq> 0))
        = (hz \<or> (\<exists>k \<in> set (j # js). \<not> bl < 15 + k \<and> buf ! k \<noteq> 0))" using False by auto
      moreover have "(\<exists>k \<in> set js. bl < 15 + k \<and> buf ! k \<noteq> 0) = (\<exists>k \<in> set (j # js). bl < 15 + k \<and> buf ! k \<noteq> 0)"
        using False by auto
      ultimately show "fs_wf t \<and> fs_same s t \<and> disk t = disk s \<and> sv_heap t = sv_heap s
          \<and> used t = used s - freed bl buf (set js)
          \<and> length (fst r) = 128 \<and> (\<forall>k < 128. fst r ! k = (if k \<in> set (j # js) \<and> bl < 15 + k then 0 else buf ! k))
          \<and> fst (snd r) = (hz \<or> (\<exists>k \<in> set (j # js). \<not> bl < 15 + k \<and> buf ! k \<noteq> 0))
          \<and> snd (snd r) = (di \<or> (\<exists>k \<in> set (j # js). bl < 15 + k \<and> buf ! k \<noteq> 0))" by simp
    qed simp
  qed
qed

lemma owned_blocks:
  "owned i d = ({sfi_indirect i} \<union> {x. \<exists>fb < 143. x = fmap i d fb}) - {0}"
  by (auto simp: owned_def)

text \<open>The blocks of a file whose positions satisfy \<open>C\<close>, and what is left when they are cut off.\<close>

definition cut_blocks :: "(nat \<Rightarrow> bool) \<Rightarrow> (nat \<Rightarrow> nat) \<Rightarrow> nat set" where
  "cut_blocks C m = {x. x \<noteq> 0 \<and> (\<exists>fb < 143. C fb \<and> x = m fb)}"

lemma cut_off:
  assumes "K \<inter> F = {}" and "x \<notin> K \<union> F"
  shows "(({x} - {0}) \<union> (K \<union> F)) - (({x} - {0}) \<union> K) = F"
    and "x \<noteq> 0 \<Longrightarrow> (({x} - {0}) \<union> (K \<union> F)) - (({0} - {0}) \<union> K) = insert (x :: nat) F"
  using assms by auto

lemma cut_parts:
  assumes inj: "\<And>a b. a < 143 \<Longrightarrow> b < 143 \<Longrightarrow> m a \<noteq> 0 \<Longrightarrow> m a = m b \<Longrightarrow> a = b"
  shows "cut_blocks (\<lambda>fb. \<not> C fb) m \<inter> cut_blocks C m = {}"
proof (intro equals0I)
  fix x assume "x \<in> cut_blocks (\<lambda>fb. \<not> C fb) m \<inter> cut_blocks C m"
  then obtain a b where ab: "a < 143" "\<not> C a" "x = m a" "b < 143" "C b" "x = m b" "x \<noteq> 0"
    unfolding cut_blocks_def by blast
  have "m a \<noteq> 0" "m a = m b" using ab by simp_all
  then have "a = b" by (rule inj [OF ab(1,4)])
  then show False using ab by simp
qed

lemma cut_all: "cut_blocks (\<lambda>fb. \<not> C fb) m \<union> cut_blocks C m = {x. x \<noteq> 0 \<and> (\<exists>fb < 143. x = m fb)}"
  unfolding cut_blocks_def by blast

lemma cut_fun: "cut_blocks (\<lambda>fb. True) (\<lambda>fb. if C fb then 0 else m fb) = cut_blocks (\<lambda>fb. \<not> C fb) m"
  unfolding cut_blocks_def by (intro Collect_cong conj_cong refl) auto

lemma owned_cut_blocks: "owned i d = ({sfi_indirect i} - {0}) \<union> cut_blocks (\<lambda>fb. True) (fmap i d)"
  unfolding owned_blocks cut_blocks_def by blast

lemma owned_cut:
  assumes wf: "file_wf i s" and map: "fmap i' d' = (\<lambda>fb. if C fb then 0 else fmap i (disk s) fb)"
  shows "sfi_indirect i' = sfi_indirect i \<Longrightarrow>
      owned i (disk s) - owned i' d' = cut_blocks C (fmap i (disk s))"
    and "sfi_indirect i \<noteq> 0 \<Longrightarrow> sfi_indirect i' = 0 \<Longrightarrow>
      owned i (disk s) - owned i' d' = insert (sfi_indirect i) (cut_blocks C (fmap i (disk s)))"
proof -
  define m where "m = fmap i (disk s)"
  have inj: "a = b" if "a < 143" "b < 143" "m a \<noteq> 0" "m a = m b" for a b
    using wf that unfolding file_wf_def m_def by blast
  have ni: "m a \<noteq> sfi_indirect i" if "a < 143" "m a \<noteq> 0" for a
    using wf that unfolding file_wf_def m_def by blast
  let ?K = "cut_blocks (\<lambda>fb. \<not> C fb) m" and ?F = "cut_blocks C m"
  have KF: "?K \<inter> ?F = {}" by (rule cut_parts) (rule inj)
  have ib: "sfi_indirect i \<notin> ?K \<union> ?F" unfolding cut_all
  proof
    assume "sfi_indirect i \<in> {x. x \<noteq> 0 \<and> (\<exists>fb < 143. x = m fb)}"
    then obtain fb where fb: "sfi_indirect i \<noteq> 0" "fb < 143" "sfi_indirect i = m fb" by blast
    have "m fb \<noteq> 0" using fb by simp
    then show False using ni [OF fb(2)] fb(3) by simp
  qed
  have o: "owned i (disk s) = ({sfi_indirect i} - {0}) \<union> (?K \<union> ?F)"
    unfolding owned_cut_blocks cut_all m_def [symmetric] by (simp add: cut_blocks_def)
  have o': "owned i' d' = ({sfi_indirect i'} - {0}) \<union> ?K"
    unfolding owned_cut_blocks map cut_fun m_def ..
  show "owned i (disk s) - owned i' d' = cut_blocks C (fmap i (disk s))" if "sfi_indirect i' = sfi_indirect i"
    unfolding o o' that m_def [symmetric] by (rule cut_off(1) [OF KF ib])
  show "owned i (disk s) - owned i' d' = insert (sfi_indirect i) (cut_blocks C (fmap i (disk s)))"
    if nz: "sfi_indirect i \<noteq> 0" and z: "sfi_indirect i' = 0"
    unfolding o o' z m_def [symmetric] by (rule cut_off(2) [OF KF ib nz])
qed

lemma fmap_entry: "k < 128 \<Longrightarrow> fmap i d (15 + k) = id_entries i d ! k"
  by (simp add: fmap_def)

lemma freed_cut:
  "freed bl (id_entries i d) {..<128} = cut_blocks (\<lambda>fb. 15 \<le> fb \<and> bl < fb) (fmap i d)"
proof (rule set_eqI)
  fix x
  show "x \<in> freed bl (id_entries i d) {..<128} \<longleftrightarrow> x \<in> cut_blocks (\<lambda>fb. 15 \<le> fb \<and> bl < fb) (fmap i d)"
  proof
    assume "x \<in> freed bl (id_entries i d) {..<128}"
    then obtain k where "k < 128" "bl < 15 + k" "id_entries i d ! k \<noteq> 0" "x = id_entries i d ! k"
      by (auto simp: freed_def)
    then show "x \<in> cut_blocks (\<lambda>fb. 15 \<le> fb \<and> bl < fb) (fmap i d)"
      unfolding cut_blocks_def using fmap_entry [of k i d] by (intro CollectI conjI exI [of _ "15 + k"]) simp_all
  next
    assume "x \<in> cut_blocks (\<lambda>fb. 15 \<le> fb \<and> bl < fb) (fmap i d)"
    then obtain fb where fb: "x \<noteq> 0" "fb < 143" "15 \<le> fb" "bl < fb" "x = fmap i d fb"
      by (auto simp: cut_blocks_def)
    have "fmap i d fb = id_entries i d ! (fb - 15)" using fb(2,3) by (simp add: fmap_def)
    then show "x \<in> freed bl (id_entries i d) {..<128}"
      unfolding freed_def using fb by (intro image_eqI [of _ _ "fb - 15"]) auto
  qed
qed

text \<open>The state after the loop over the entries, and the buffer it leaves.\<close>

definition cut_map :: "nat \<Rightarrow> (nat \<Rightarrow> nat) \<Rightarrow> nat \<Rightarrow> nat" where
  "cut_map bl m = (\<lambda>fb. if 15 \<le> fb \<and> bl < fb then 0 else m fb)"

lemma cut_map_or: "cut_map bl m fb = m fb \<or> cut_map bl m fb = 0"
  by (simp add: cut_map_def)

definition entries_cut :: "nat \<Rightarrow> sfs_inode \<Rightarrow> sfs_fs \<Rightarrow> sfs_fs \<Rightarrow> nat list \<Rightarrow> bool" where
  "entries_cut bl i s t buf \<longleftrightarrow> fs_wf t \<and> fs_same s t \<and> disk t = disk s \<and> sv_heap t = sv_heap s
     \<and> used t = used s - cut_blocks (\<lambda>fb. 15 \<le> fb \<and> bl < fb) (fmap i (disk s))
     \<and> length buf = 128 \<and> (\<forall>k < 128. buf ! k = (if bl < 15 + k then 0 else id_entries i (disk s) ! k))"

lemma entries_cut_indirect:
  assumes ec: "entries_cut bl i s t buf" and f: "file_wf i s" and nz: "sfi_indirect i \<noteq> 0"
  shows "sfi_indirect i \<in> used t" "sfi_indirect i < nblocks t"
proof -
  note ec = ec [unfolded entries_cut_def]
  have "sfi_indirect i \<notin> cut_blocks (\<lambda>fb. 15 \<le> fb \<and> bl < fb) (fmap i (disk s))"
    using f unfolding cut_blocks_def file_wf_def by auto
  then show "sfi_indirect i \<in> used t" using ec file_wf_indirect [OF f nz] by simp
  have "fs_same s t" using ec by blast
  then show "sfi_indirect i < nblocks t" using file_wf_indirect [OF f nz] fs_same_nblocks by metis
qed

text \<open>No entry is left: the indirect block is freed as well.\<close>

lemma trunc_free_indirect:
  assumes v: "sv_heap s p = Some v" and f: "file_wf (sv_i v) s" and nz: "sfi_indirect (sv_i v) \<noteq> 0"
    and ec: "entries_cut bl (sv_i v) s t buf" and ez: "\<forall>k < 128. buf ! k = 0"
  shows "wp (kbind (sfs_bfree (sfi_indirect (sv_i v))) (\<lambda>_.
      sv_upd p (\<lambda>v. v\<lparr>sv_i := (sv_i v)\<lparr>sfi_indirect := 0\<rparr>, sv_dirty := True\<rparr>)))
    (\<lambda>_ t. \<exists>v'. file_shrink p v v' s t \<and> fmap (sv_i v') (disk t) = cut_map bl (fmap (sv_i v) (disk s)) \<and> sfi_indirect (sv_i v') = 0)
    (\<lambda>_ _. False) t"
proof -
  let ?v' = "v\<lparr>sv_i := (sv_i v)\<lparr>sfi_indirect := 0\<rparr>, sv_dirty := True\<rparr>"
  let ?C = "\<lambda>fb. 15 \<le> fb \<and> bl < fb"
  note e = ec [unfolded entries_cut_def]
  have map: "fmap (sv_i ?v') d = cut_map bl (fmap (sv_i v) (disk s))" for d
  proof
    fix fb
    have "id_entries (sv_i v) (disk s) ! (fb - 15) = 0" if "15 \<le> fb" "fb < 143" "\<not> bl < fb"
    proof -
      have k: "fb - 15 < 128" "\<not> bl < 15 + (fb - 15)" using that by auto
      then have "buf ! (fb - 15) = id_entries (sv_i v) (disk s) ! (fb - 15)" using e by simp
      then show ?thesis using ez k(1) by simp
    qed
    moreover have "id_entries ((sv_i v)\<lparr>sfi_indirect := 0\<rparr>) d ! (fb - 15) = 0" if "fb < 143" "15 \<le> fb"
      using that by (simp add: id_entries_def)
    ultimately show "fmap (sv_i ?v') d fb = cut_map bl (fmap (sv_i v) (disk s)) fb"
      by (simp add: cut_map_def fmap_def)
  qed
  have own: "owned (sv_i v) (disk s) - owned (sv_i ?v') d
      = insert (sfi_indirect (sv_i v)) (cut_blocks ?C (fmap (sv_i v) (disk s)))" for d
    by (rule owned_cut(2) [OF f _ nz]) (simp_all add: map [simplified] cut_map_def)
  have fits: "inode_fits (sv_i ?v')" using f by (simp add: file_wf_def inode_fits_def)
  have vs: "vnode_same v ?v'" by (simp add: vnode_same_def)
  have tw: "fs_wf t" using e by simp
  show ?thesis unfolding wp_kbind
  proof (rule wp_mono [OF sfs_bfree_wp [OF tw entries_cut_indirect [OF ec f nz] nz]])
    fix x :: unit and r
    assume r: "fs_wf r \<and> fs_same t r \<and> used r = used t - {sfi_indirect (sv_i v)} \<and> disk r = disk t \<and> sv_heap r = sv_heap t"
    have hp: "sv_heap r p = Some v" using r e v by simp
    let ?r = "r\<lparr>sv_heap := (sv_heap r)(p \<mapsto> ?v')\<rparr>"
    have "file_shrink p v ?v' s ?r"
    proof (rule file_shrink_intro [OF f v _ _ vs _ fits])
      show "used ?r = used s - (owned (sv_i v) (disk s) - owned (sv_i ?v') (disk ?r))"
        unfolding own using r e by auto
      show "fmap (sv_i ?v') (disk ?r) fb = fmap (sv_i v) (disk s) fb \<or> fmap (sv_i ?v') (disk ?r) fb = 0" for fb
        unfolding map by (rule cut_map_or)
      show "fs_same s ?r" using r e fs_same_trans [of s t r] by simp
    qed (use r e in simp_all)
    then show "wp (sv_upd p (\<lambda>v. v\<lparr>sv_i := (sv_i v)\<lparr>sfi_indirect := 0\<rparr>, sv_dirty := True\<rparr>))
      (\<lambda>_ t. \<exists>v'. file_shrink p v v' s t \<and> fmap (sv_i v') (disk t) = cut_map bl (fmap (sv_i v) (disk s)) \<and> sfi_indirect (sv_i v') = 0)
      (\<lambda>_ _. False) r"
      unfolding wp_sv_upd [OF hp] by (intro exI [of _ ?v'] conjI) (simp_all add: map [simplified])
  qed simp
qed

text \<open>Some entries are left and some are gone: the indirect block is written back.\<close>

lemma trunc_write_indirect:
  assumes v: "sv_heap s p = Some v" and wf: "fs_wf s" and f: "file_wf (sv_i v) s"
    and nz: "sfi_indirect (sv_i v) \<noteq> 0" and ec: "entries_cut bl (sv_i v) s t buf"
  shows "wp (on_device (sfs_wblock (enc_u32s buf) (sfi_indirect (sv_i v))))
    (\<lambda>_ t. \<exists>v'. file_shrink p v v' s t \<and> fmap (sv_i v') (disk t) = cut_map bl (fmap (sv_i v) (disk s)))
    (\<lambda>_ _. False) t"
proof -
  let ?ib = "sfi_indirect (sv_i v)"
  note e = ec [unfolded entries_cut_def]
  have ibd: "?ib < length (disk s)" using file_wf_indirect [OF f nz] wf by (simp add: fs_wf_def)
  have "\<forall>x \<in> set buf. x < 4294967296"
  proof
    fix x assume "x \<in> set buf"
    then obtain k where k: "k < 128" "x = buf ! k" using e by (metis in_set_conv_nth)
    have "id_entries (sv_i v) (disk s) ! k \<in> set (id_entries (sv_i v) (disk s))" using k(1) by simp
    then have "id_entries (sv_i v) (disk s) ! k < 4294967296" using id_entries_bound by blast
    then show "x < 4294967296" using e k by simp
  qed
  then have dec: "dec_u32s 128 (enc_u32s buf) = buf" by (rule dec_enc_u32s') (use e in simp)
  have map: "fmap (sv_i v) ((disk s)[?ib := enc_u32s buf]) = cut_map bl (fmap (sv_i v) (disk s))"
  proof
    fix fb
    have "id_entries (sv_i v) ((disk s)[?ib := enc_u32s buf]) = buf"
      using nz ibd dec by (simp add: id_entries_def)
    then show "fmap (sv_i v) ((disk s)[?ib := enc_u32s buf]) fb = cut_map bl (fmap (sv_i v) (disk s)) fb"
      using e by (simp add: fmap_def cut_map_def)
  qed
  have tw: "fs_wf t" and bl: "length (enc_u32s buf) = 512" using e by simp_all
  show ?thesis
  proof (rule wp_mono [OF wblock_wp [OF tw entries_cut_indirect(2) [OF ec f nz] bl]])
    fix x :: unit and r
    assume r: "fs_wf r \<and> fs_same t r \<and> disk r = (disk t)[?ib := enc_u32s buf] \<and> used r = used t \<and> sv_heap r = sv_heap t"
    have m: "fmap (sv_i v) (disk r) = cut_map bl (fmap (sv_i v) (disk s))" using r e map by simp
    have own: "owned (sv_i v) (disk s) - owned (sv_i v) (disk r)
        = cut_blocks (\<lambda>fb. 15 \<le> fb \<and> bl < fb) (fmap (sv_i v) (disk s))"
      by (rule owned_cut(1) [OF f _ refl]) (simp add: m cut_map_def)
    have "file_shrink p v v s r"
    proof (rule file_shrink_intro [OF f v _ _ vnode_same_refl])
      show "used r = used s - (owned (sv_i v) (disk s) - owned (sv_i v) (disk r))" unfolding own using r e by simp
      show "fmap (sv_i v) (disk r) fb = fmap (sv_i v) (disk s) fb \<or> fmap (sv_i v) (disk r) fb = 0" for fb
        unfolding m by (rule cut_map_or)
      show "fs_same s r" using r e fs_same_trans [of s t r] by simp
      show "inode_fits (sv_i v)" using f by (simp add: file_wf_def)
      show "sv_heap r = (sv_heap s)(p \<mapsto> v)" using r e v by (simp add: fun_upd_idem)
      show "disk r ! b = disk s ! b" if "b \<noteq> ?ib \<or> ?ib = 0" for b using that r e nz by auto
    qed (use r in simp_all)
    then show "\<exists>v'. file_shrink p v v' s r \<and> fmap (sv_i v') (disk r) = cut_map bl (fmap (sv_i v) (disk s))"
      using m by blast
  qed simp
qed

text \<open>Nothing was freed: the indirect block is left as it was.\<close>

lemma trunc_keep_indirect:
  assumes v: "sv_heap s p = Some v" and f: "file_wf (sv_i v) s" and ec: "entries_cut bl (sv_i v) s t buf"
    and no: "\<forall>k < 128. bl < 15 + k \<longrightarrow> id_entries (sv_i v) (disk s) ! k = 0"
  shows "\<exists>v'. file_shrink p v v' s t \<and> fmap (sv_i v') (disk t) = cut_map bl (fmap (sv_i v) (disk s))"
proof -
  note e = ec [unfolded entries_cut_def]
  have m: "cut_map bl (fmap (sv_i v) (disk s)) = fmap (sv_i v) (disk s)"
  proof
    fix fb
    show "cut_map bl (fmap (sv_i v) (disk s)) fb = fmap (sv_i v) (disk s) fb"
      using no [rule_format, of "fb - 15"] by (auto simp: cut_map_def fmap_def)
  qed
  have "cut_blocks (\<lambda>fb. 15 \<le> fb \<and> bl < fb) (fmap (sv_i v) (disk s)) = {}"
  proof (intro equals0I)
    fix x assume "x \<in> cut_blocks (\<lambda>fb. 15 \<le> fb \<and> bl < fb) (fmap (sv_i v) (disk s))"
    then obtain fb where "x \<noteq> 0" "15 \<le> fb" "bl < fb" "x = fmap (sv_i v) (disk s) fb" by (auto simp: cut_blocks_def)
    then show False using fun_cong [OF m, of fb] by (simp add: cut_map_def)
  qed
  then have u: "used t = used s" using e by simp
  have "file_shrink p v v s t"
  proof (rule file_shrink_intro [OF f v _ _ vnode_same_refl])
    show "inode_fits (sv_i v)" using f by (simp add: file_wf_def)
    show "sv_heap t = (sv_heap s)(p \<mapsto> v)" using e v by (simp add: fun_upd_idem)
  qed (use u e in simp_all)
  then show ?thesis using m e by (intro exI [of _ v]) simp
qed

lemma trunc_scan_wp:
  assumes f: "file_wf i s" and tw: "fs_wf t"
    and t: "fs_same s t" "disk t = disk s" "used t = used s" "sv_heap t = sv_heap s"
  shows "wp (trunc_entries bl [0..<SFS_DBPERIDB] (id_entries i (disk s)) False False)
    (\<lambda>r t'. entries_cut bl i s t' (fst r)
       \<and> (fst (snd r) \<longleftrightarrow> (\<exists>k < 128. fst r ! k \<noteq> 0))
       \<and> (snd (snd r) \<longleftrightarrow> (\<exists>k < 128. bl < 15 + k \<and> id_entries i (disk s) ! k \<noteq> 0)))
    (\<lambda>_ _. False) t"
proof -
  let ?e = "id_entries i (disk s)"
  have nb: "nblocks t = nblocks s" by (rule fs_same_nblocks [OF t(1)])
  have ents: "\<forall>k \<in> set [0..<128]. bl < 15 + k \<longrightarrow> ?e ! k \<noteq> 0 \<longrightarrow> ?e ! k \<in> used t \<and> ?e ! k < nblocks t"
  proof (intro ballI impI)
    fix k assume k: "k \<in> set [0..<128]" "?e ! k \<noteq> 0"
    then have m: "fmap i (disk s) (15 + k) = ?e ! k" by (intro fmap_entry) simp
    then have "fmap i (disk s) (15 + k) \<noteq> 0" using k(2) by simp
    from file_wf_block [OF f this] show "?e ! k \<in> used t \<and> ?e ! k < nblocks t" using m t(3) nb by simp
  qed
  have dist: "\<forall>a \<in> set [0..<128]. \<forall>b \<in> set [0..<128]. ?e ! a \<noteq> 0 \<longrightarrow> ?e ! a = ?e ! b \<longrightarrow> a = b"
  proof (intro ballI impI)
    fix a b :: nat
    assume ab: "a \<in> set [0..<128]" "b \<in> set [0..<128]" "?e ! a \<noteq> 0" "?e ! a = ?e ! b"
    have l: "15 + a < 143" "15 + b < 143" using ab(1,2) by simp_all
    have ma: "fmap i (disk s) (15 + a) = ?e ! a" and mb: "fmap i (disk s) (15 + b) = ?e ! b"
      using ab(1,2) by (simp_all add: fmap_entry)
    have "fmap i (disk s) (15 + a) \<noteq> 0" "fmap i (disk s) (15 + a) = fmap i (disk s) (15 + b)"
      unfolding ma mb using ab(3,4) by simp_all
    then have "15 + a = 15 + b" using f l unfolding file_wf_def by blast
    then show "a = b" by simp
  qed
  have up: "{0..<128} = {..<128::nat}" by auto
  have b: "\<forall>k \<in> set [0..<128]. k < 128" by simp
  show ?thesis unfolding SFS_DBPERIDB_def
  proof (rule wp_mono [OF trunc_entries_wp [OF distinct_upt b id_entries_length tw ents dist]])
    fix r t'
    assume r: "fs_wf t' \<and> fs_same t t' \<and> disk t' = disk t \<and> sv_heap t' = sv_heap t
       \<and> used t' = used t - freed bl ?e (set [0..<128])
       \<and> length (fst r) = 128 \<and> (\<forall>k < 128. fst r ! k = (if k \<in> set [0..<128] \<and> bl < 15 + k then 0 else ?e ! k))
       \<and> fst (snd r) = (False \<or> (\<exists>k \<in> set [0..<128]. \<not> bl < 15 + k \<and> ?e ! k \<noteq> 0))
       \<and> snd (snd r) = (False \<or> (\<exists>k \<in> set [0..<128]. bl < 15 + k \<and> ?e ! k \<noteq> 0))"
    have "fs_same s t'" using r t(1) fs_same_trans by blast
    then have "entries_cut bl i s t' (fst r)"
      unfolding entries_cut_def using r t by (simp add: up freed_cut)
    moreover have "fst (snd r) \<longleftrightarrow> (\<exists>k < 128. fst r ! k \<noteq> 0)"
    proof -
      have "(fst r ! k \<noteq> 0) = (\<not> bl < 15 + k \<and> ?e ! k \<noteq> 0)" if "k < 128" for k using r that by simp
      then have "(\<exists>k < 128. fst r ! k \<noteq> 0) = (\<exists>k < 128. \<not> bl < 15 + k \<and> ?e ! k \<noteq> 0)" by blast
      moreover have "fst (snd r) = (\<exists>k < 128. \<not> bl < 15 + k \<and> ?e ! k \<noteq> 0)" using r by (simp add: Bex_def)
      ultimately show ?thesis by simp
    qed
    moreover have "snd (snd r) = (\<exists>k < 128. bl < 15 + k \<and> ?e ! k \<noteq> 0)" using r by (simp add: Bex_def)
    ultimately show "entries_cut bl i s t' (fst r)
       \<and> (fst (snd r) \<longleftrightarrow> (\<exists>k < 128. fst r ! k \<noteq> 0))
       \<and> (snd (snd r) \<longleftrightarrow> (\<exists>k < 128. bl < 15 + k \<and> ?e ! k \<noteq> 0))" by simp
  qed simp
qed

text \<open>What the part on the indirect block does; when no entry can be left, it frees the block.\<close>

definition ind_cut :: "nat \<Rightarrow> nat \<Rightarrow> sfs_vnode \<Rightarrow> sfs_fs \<Rightarrow> sfs_fs \<Rightarrow> bool" where
  "ind_cut bl p v s t \<longleftrightarrow> (\<exists>v'. file_shrink p v v' s t \<and> fmap (sv_i v') (disk t) = cut_map bl (fmap (sv_i v) (disk s)) \<and> (bl < 15 \<longrightarrow> sfi_indirect (sv_i v') = 0))"

lemma trunc_indirect_wp:
  assumes wf: "fs_wf s" and v: "sv_heap s p = Some v" and f: "file_wf (sv_i v) s"
  shows "wp (trunc_indirect p bl)
    (\<lambda>_. ind_cut bl p v s)
    (\<lambda>_ _. False) s"
proof (cases "bl < SFS_NDIRECT + SFS_DBPERIDB - 1 \<and> sfi_indirect (sv_i v) \<noteq> 0")
  case no: False
  have map: "cut_map bl (fmap (sv_i v) (disk s)) = fmap (sv_i v) (disk s)"
  proof
    fix fb
    show "cut_map bl (fmap (sv_i v) (disk s)) fb = fmap (sv_i v) (disk s) fb"
      using no by (auto simp: cut_map_def fmap_def id_entries_def SFS_NDIRECT_def SFS_DBPERIDB_def)
  qed
  show ?thesis
    unfolding trunc_indirect_def wp_kbind [of "sv_get p"] wp_sv_get [OF v] Let_def wp_kwhen if_not_P [OF no]
    unfolding ind_cut_def map using file_shrink_refl [OF wf v f] no
    by (intro exI [of _ v]) (auto simp: SFS_NDIRECT_def SFS_DBPERIDB_def)
next
  case yes: True
  then have nz: "sfi_indirect (sv_i v) \<noteq> 0" by simp
  note ibu = file_wf_indirect [OF f nz]
  have de: "dec_u32s SFS_DBPERIDB (disk s ! sfi_indirect (sv_i v)) = id_entries (sv_i v) (disk s)"
    using nz by (simp add: id_entries_def SFS_DBPERIDB_def)
  show ?thesis
    unfolding trunc_indirect_def wp_kbind wp_sv_get [OF v] Let_def wp_kwhen if_P [OF yes]
  proof (rule wp_mono [OF rblock_wp [OF wf ibu(2)]])
    fix d t
    assume t: "d = disk s ! sfi_indirect (sv_i v) \<and> fs_wf t \<and> fs_same s t \<and> disk t = disk s \<and> used t = used s \<and> sv_heap t = sv_heap s"
    have d: "dec_u32s SFS_DBPERIDB d = id_entries (sv_i v) (disk s)" using t de by simp
    have tw: "fs_wf t" "fs_same s t" "disk t = disk s" "used t = used s" "sv_heap t = sv_heap s" using t by simp_all
    show "wp (trunc_entries bl [0..<SFS_DBPERIDB] (dec_u32s SFS_DBPERIDB d) False False) (\<lambda>r.
        wp (if \<not> fst (snd r) then kbind (sfs_bfree (sfi_indirect (sv_i v))) (\<lambda>_.
          sv_upd p (\<lambda>v. v\<lparr>sv_i := (sv_i v)\<lparr>sfi_indirect := 0\<rparr>, sv_dirty := True\<rparr>))
        else kwhen (snd (snd r)) (on_device (sfs_wblock (enc_u32s (fst r)) (sfi_indirect (sv_i v)))))
      (\<lambda>_. ind_cut bl p v s)
      (\<lambda>_ _. False)) (\<lambda>_ _. False) t"
      unfolding d
    proof (rule wp_mono [OF trunc_scan_wp [OF f tw]])
      fix r t'
      assume r: "entries_cut bl (sv_i v) s t' (fst r) \<and> (fst (snd r) \<longleftrightarrow> (\<exists>k < 128. fst r ! k \<noteq> 0))
       \<and> (snd (snd r) \<longleftrightarrow> (\<exists>k < 128. bl < 15 + k \<and> id_entries (sv_i v) (disk s) ! k \<noteq> 0))"
      then have ec: "entries_cut bl (sv_i v) s t' (fst r)" by blast
      have some: "\<not> bl < 15" if "fst (snd r)"
      proof
        assume "bl < 15"
        then have z: "\<forall>k < 128. fst r ! k = 0" using ec by (simp add: entries_cut_def)
        have "\<exists>k < 128. fst r ! k \<noteq> 0" using conjunct1 [OF conjunct2 [OF r]] that by (rule iffD1)
        then obtain k where "k < 128" "fst r ! k \<noteq> 0" by (elim exE conjE)
        then show False using z by simp
      qed
      consider "\<not> fst (snd r)" | "fst (snd r)" "snd (snd r)" | "fst (snd r)" "\<not> snd (snd r)" by blast
      then show "wp (if \<not> fst (snd r) then kbind (sfs_bfree (sfi_indirect (sv_i v))) (\<lambda>_.
          sv_upd p (\<lambda>v. v\<lparr>sv_i := (sv_i v)\<lparr>sfi_indirect := 0\<rparr>, sv_dirty := True\<rparr>))
        else kwhen (snd (snd r)) (on_device (sfs_wblock (enc_u32s (fst r)) (sfi_indirect (sv_i v)))))
        (\<lambda>_. ind_cut bl p v s)
        (\<lambda>_ _. False) t'"
      proof cases
        case 1
        have "\<forall>k < 128. fst r ! k = 0" using r 1 by blast
        from trunc_free_indirect [OF v f nz ec this] show ?thesis
          unfolding if_P [OF 1] by (rule wp_mono) (auto simp: ind_cut_def)
      next
        case 2
        have nb: "\<not> bl < 15" by (rule some [OF 2(1)])
        have "wp (on_device (sfs_wblock (enc_u32s (fst r)) (sfi_indirect (sv_i v)))) (\<lambda>_. ind_cut bl p v s) (\<lambda>_ _. False) t'"
          by (rule wp_mono [OF trunc_write_indirect [OF v wf f nz ec]]) (simp_all add: ind_cut_def nb)
        then show ?thesis using 2 by (simp add: wp_kwhen)
      next
        case 3
        have nb: "\<not> bl < 15" by (rule some [OF 3(1)])
        have "\<forall>k < 128. bl < 15 + k \<longrightarrow> id_entries (sv_i v) (disk s) ! k = 0" using r 3 by blast
        from trunc_keep_indirect [OF v f ec this] have "ind_cut bl p v s t'" by (simp add: ind_cut_def nb)
        then show ?thesis using 3 by (simp add: wp_kwhen)
      qed
    qed simp
  qed simp
qed

section \<open>The whole routine\<close>

lemma trunc_blocklen_eq:
  assumes "0 \<le> len" and "len < 2147483136"
  shows "trunc_blocklen len = (nat len + 511) div 512"
proof -
  have "off32 (len + int SFS_BLOCKSIZE - 1) = len + 511"
    using assms by (simp add: SFS_BLOCKSIZE_def off32_id)
  then have "trunc_blocklen len = to_u32 ((len + 511) div 512)"
    using assms by (simp add: trunc_blocklen_def SFS_BLOCKSIZE_def)
  also have "\<dots> = nat ((len + 511) div 512)" using assms by (intro to_u32_nat) auto
  also have "\<dots> = (nat len + 511) div 512" using assms by (simp add: nat_div_distrib nat_add_distrib)
  finally show ?thesis .
qed

text \<open>
  What survives: the blocks before the new end and, in the range of the indirect block, also the
  first block past the new end.
\<close>

definition trunc_keeps :: "nat \<Rightarrow> nat \<Rightarrow> bool" where
  "trunc_keeps bl fb \<longleftrightarrow> fb < bl \<or> fb = bl \<and> 15 \<le> fb"

lemma file_shrink_size:
  assumes st: "file_shrink p v v1 s s1" and n: "n < 4294967296"
  defines "v2 \<equiv> v1\<lparr>sv_i := (sv_i v1)\<lparr>sfi_size := n\<rparr>, sv_dirty := True\<rparr>"
  shows "file_shrink p v v2 s (s1\<lparr>sv_heap := (sv_heap s1)(p \<mapsto> v2)\<rparr>)" "fmap (sv_i v2) d = fmap (sv_i v1) d"
proof -
  have map: "fmap (sv_i v2) d = fmap (sv_i v1) d" for d
    by (simp add: v2_def fmap_def id_entries_def fun_eq_iff)
  then show "fmap (sv_i v2) d = fmap (sv_i v1) d" .
  have own: "owned (sv_i v2) d = owned (sv_i v1) d" for d unfolding owned_def map by (simp add: v2_def)
  have "file_wf (sv_i v2) s1"
    using file_shrinkD(4) [OF st] n unfolding file_wf_def map own by (simp add: v2_def inode_fits_def)
  then have wf: "file_wf (sv_i v2) (s1\<lparr>sv_heap := (sv_heap s1)(p \<mapsto> v2)\<rparr>)" by (simp add: file_wf_def)
  have vs: "vnode_same v v2" using file_shrinkD(5) [OF st] by (simp add: vnode_same_def v2_def)
  show "file_shrink p v v2 s (s1\<lparr>sv_heap := (sv_heap s1)(p \<mapsto> v2)\<rparr>)"
    using st wf vs unfolding file_shrink_def own by (simp add: v2_def)
qed

lemma sfs_truncate_wp:
  assumes wf: "fs_wf s" and v: "sv_heap s p = Some v" and f: "file_wf (sv_i v) s"
    and len: "0 \<le> len" "len < 2147483136"
  shows "wp (sfs_truncate p len)
    (\<lambda>_ t. \<exists>v'. file_shrink p v v' s t \<and> sfi_size (sv_i v') = nat len
       \<and> fmap (sv_i v') (disk t) = (\<lambda>fb. if trunc_keeps ((nat len + 511) div 512) fb then fmap (sv_i v) (disk s) fb else 0)
       \<and> ((nat len + 511) div 512 < 15 \<longrightarrow> sfi_indirect (sv_i v') = 0))
    (\<lambda>_ _. False) s"
proof -
  let ?bl = "(nat len + 511) div 512"
  have n: "to_u32 len = nat len" "nat len < 4294967296" using len by simp_all
  show ?thesis unfolding sfs_truncate_def Let_def trunc_blocklen_eq [OF len] SFS_NDIRECT_def wp_kbind n(1)
  proof (rule wp_mono [OF trunc_directs_wp [OF wf v f order_refl]])
    fix x :: unit and t
    assume "\<exists>v'. file_shrink p v v' s t \<and> sfi_indirect (sv_i v') = sfi_indirect (sv_i v)
       \<and> fmap (sv_i v') (disk t) = (\<lambda>fb. if fb < 15 \<and> ?bl \<le> fb then 0 else fmap (sv_i v) (disk s) fb)"
    then obtain u where u: "file_shrink p v u s t"
      "fmap (sv_i u) (disk t) = (\<lambda>fb. if fb < 15 \<and> ?bl \<le> fb then 0 else fmap (sv_i v) (disk s) fb)" by blast
    show "wp (trunc_indirect p ?bl) (\<lambda>_. wp (sv_upd p (\<lambda>v. v\<lparr>sv_i := (sv_i v)\<lparr>sfi_size := nat len\<rparr>, sv_dirty := True\<rparr>))
       (\<lambda>_ t. \<exists>v'. file_shrink p v v' s t \<and> sfi_size (sv_i v') = nat len
       \<and> fmap (sv_i v') (disk t) = (\<lambda>fb. if trunc_keeps ?bl fb then fmap (sv_i v) (disk s) fb else 0)
       \<and> (?bl < 15 \<longrightarrow> sfi_indirect (sv_i v') = 0))
       (\<lambda>_ _. False)) (\<lambda>_ _. False) t"
    proof (rule wp_mono [OF trunc_indirect_wp [OF file_shrinkD(1,3,4) [OF u(1)]]])
      fix x :: unit and r
      assume "ind_cut ?bl p u t r"
      then obtain w where w: "file_shrink p u w t r"
        "fmap (sv_i w) (disk r) = cut_map ?bl (fmap (sv_i u) (disk t))" "?bl < 15 \<longrightarrow> sfi_indirect (sv_i w) = 0"
        unfolding ind_cut_def by blast
      have st: "file_shrink p v w s r" by (rule file_shrink_trans [OF u(1) w(1)])
      have "(if trunc_keeps ?bl fb then fmap (sv_i v) (disk s) fb else 0) = fmap (sv_i w) (disk r) fb" for fb
        unfolding w(2) u(2) trunc_keeps_def cut_map_def by auto
      then have map: "fmap (sv_i w) (disk r) = (\<lambda>fb. if trunc_keeps ?bl fb then fmap (sv_i v) (disk s) fb else 0)"
        by (simp add: fun_eq_iff)
      let ?w = "w\<lparr>sv_i := (sv_i w)\<lparr>sfi_size := nat len\<rparr>, sv_dirty := True\<rparr>"
      have mw: "fmap (sv_i ?w) d = fmap (sv_i w) d" for d by (rule file_shrink_size(2) [OF st n(2)])
      show "wp (sv_upd p (\<lambda>v. v\<lparr>sv_i := (sv_i v)\<lparr>sfi_size := nat len\<rparr>, sv_dirty := True\<rparr>))
       (\<lambda>_ t. \<exists>v'. file_shrink p v v' s t \<and> sfi_size (sv_i v') = nat len
       \<and> fmap (sv_i v') (disk t) = (\<lambda>fb. if trunc_keeps ?bl fb then fmap (sv_i v) (disk s) fb else 0)
       \<and> (?bl < 15 \<longrightarrow> sfi_indirect (sv_i v') = 0)) (\<lambda>_ _. False) r"
        unfolding wp_sv_upd [OF file_shrinkD(3) [OF st]]
        by (intro exI [of _ ?w] conjI file_shrink_size(1) [OF st n(2)]) (simp_all only: mw, simp_all add: map w(3))
    qed simp
  qed simp
qed

section \<open>Properties\<close>

text \<open>
  Property C21: truncating a file to \<open>len\<close> bytes sets its size, frees exactly the blocks it removes
  from the file's map, leaves other files alone, and keeps of the file the blocks before the new
  end; but when the new end falls in the range of the indirect block it also keeps the first block
  past it (\<open>trunc_keeps\<close>): the comparison \<open>blocklen < baseblock+j\<close> of the code misses that block,
  whose old contents come back when the file grows again. A file cut down to its direct blocks
  gives its indirect block back too. The disk reports no errors (\<open>fs_wf\<close>).
\<close>

theorem sfs_truncate_frees:
  assumes "fs_wf s" and "sv_heap s p = Some v" and "file_wf (sv_i v) s"
    and "0 \<le> len" and "len < 2147483136"
  shows "wp (sfs_truncate p len)
    (\<lambda>_ t. \<exists>v'. file_shrink p v v' s t \<and> sfi_size (sv_i v') = nat len
       \<and> fmap (sv_i v') (disk t) = (\<lambda>fb. if trunc_keeps ((nat len + 511) div 512) fb then fmap (sv_i v) (disk s) fb else 0)
       \<and> ((nat len + 511) div 512 < 15 \<longrightarrow> sfi_indirect (sv_i v') = 0))
    (\<lambda>_ _. False) s"
  by (rule sfs_truncate_wp [OF assms])

theorem sfs_truncate_frees_witness:
  "wp (sfs_truncate 4096 0)
    (\<lambda>_ t. \<exists>v'. file_shrink 4096 small_vnode v' small_fs t \<and> sfi_size (sv_i v') = nat 0
       \<and> fmap (sv_i v') (disk t) = (\<lambda>fb. if trunc_keeps ((nat 0 + 511) div 512) fb
            then fmap (sv_i small_vnode) (disk small_fs) fb else 0)
       \<and> ((nat 0 + 511) div 512 < 15 \<longrightarrow> sfi_indirect (sv_i v') = 0))
    (\<lambda>_ _. False) small_fs"
  by (rule sfs_truncate_frees) (simp_all add: small_fs_wf small_vnode_def empty_file_wf)

end
