(* ===== verification/SfsDir.thy ===== *)
theory SfsDir
  imports SfsFile
begin

text \<open>
  Directories of sfs (the directory section of kern/fs/sfs/sfs_vnode.c): reading and writing a
  slot, searching for a name, adding and erasing an entry.

  A C string is the list of its bytes without the terminator. The results that
  \<open>sfs_dir_findname\<close> stores through its pointers are its value here: the inode number and slot
  when the name was found (\<open>None\<close> is the return value \<open>ENOENT\<close>), and the empty slot when it saw one.
\<close>

section \<open>The routines\<close>

text \<open>\<open>sizeof(struct sfs_dir)\<close>.\<close>

definition DIRSIZE :: nat where "DIRSIZE = 64"

text \<open>The C string in a buffer.\<close>

definition cstr :: "byte list \<Rightarrow> byte list" where
  "cstr bs = takeWhile (\<lambda>b. b \<noteq> 0) bs"

text \<open>The value of \<open>sfs_readdir\<close> is the entry read into \<open>*sd\<close>.\<close>

definition sfs_readdir :: "nat \<Rightarrow> nat \<Rightarrow> (sfs_fs, sfs_dir) op" where
  "sfs_readdir sv slot =
     (let actualpos = off32 (int (u32 (slot * DIRSIZE))) in
      kbind (with_uio (mk_kuio (replicate DIRSIZE 0) DIRSIZE actualpos UIO_READ) (sfs_io sv)) (\<lambda>ku.
      if uio_resid ku > 0 then kpanic else kret (dec_dir (mem_bytes (uio_mem ku) 0 DIRSIZE))))"

definition sfs_writedir :: "nat \<Rightarrow> sfs_dir \<Rightarrow> nat \<Rightarrow> (sfs_fs, unit) op" where
  "sfs_writedir sv sd slot =
     (let actualpos = off32 (int (u32 (slot * DIRSIZE))) in
      kbind (with_uio (mk_kuio (enc_dir sd) DIRSIZE actualpos UIO_WRITE) (sfs_io sv)) (\<lambda>ku.
      if uio_resid ku > 0 then kpanic else kret ()))"

definition sfs_dir_nentries :: "nat \<Rightarrow> (sfs_fs, nat) op" where
  "sfs_dir_nentries sv =
     kbind (sv_get sv) (\<lambda>v.
     kbind (kassert (sfi_type (sv_i v) = SFS_TYPE_DIR)) (\<lambda>_.
     let sz = to_u32 (off32 (int (sfi_size (sv_i v)))) in
     if sz mod DIRSIZE \<noteq> 0 then kpanic else kret (sz div DIRSIZE)))"

text \<open>The loop of \<open>sfs_dir_findname\<close>, over the slots still to look at.\<close>

primrec findname_loop :: "nat \<Rightarrow> byte list \<Rightarrow> nat list \<Rightarrow> (nat \<times> nat) option \<Rightarrow> nat option
    \<Rightarrow> (sfs_fs, (nat \<times> nat) option \<times> nat option) op" where
  "findname_loop sv name [] found emptyslot = kret (found, emptyslot)"
| "findname_loop sv name (i # is) found emptyslot =
     kbind (sfs_readdir sv i) (\<lambda>tsd.
     if sfd_ino tsd = SFS_NOINO then findname_loop sv name is found (Some i)
     else if cstr ((sfd_name tsd)[SFS_NAMELEN - 1 := 0]) = name then
       kbind (kassert (found = None)) (\<lambda>_. findname_loop sv name is (Some (sfd_ino tsd, i)) emptyslot)
     else findname_loop sv name is found emptyslot)"

definition sfs_dir_findname :: "nat \<Rightarrow> byte list \<Rightarrow> (sfs_fs, (nat \<times> nat) option \<times> nat option) op" where
  "sfs_dir_findname sv name =
     kbind (sfs_dir_nentries sv) (\<lambda>nentries. findname_loop sv name [0..<nentries] None None)"

text \<open>The value of \<open>sfs_dir_link\<close> is the slot handed back.\<close>

definition sfs_dir_link :: "nat \<Rightarrow> byte list \<Rightarrow> nat \<Rightarrow> (sfs_fs, nat) op" where
  "sfs_dir_link sv name ino =
     kbind (sfs_dir_findname sv name) (\<lambda>r.
     case fst r of
       Some _ \<Rightarrow> kfail EEXIST
     | None \<Rightarrow>
        if length name + 1 > SFS_NAMELEN then kfail ENAMETOOLONG
        else
          kbind (case snd r of None \<Rightarrow> sfs_dir_nentries sv | Some i \<Rightarrow> kret i) (\<lambda>emptyslot.
          let sd = \<lparr>sfd_ino = ino, sfd_name = put_at 0 (name @ [0]) (replicate SFS_NAMELEN 0)\<rparr> in
          kbind (sfs_writedir sv sd emptyslot) (\<lambda>_. kret emptyslot)))"

definition sfs_dir_unlink :: "nat \<Rightarrow> nat \<Rightarrow> (sfs_fs, unit) op" where
  "sfs_dir_unlink sv slot =
     sfs_writedir sv \<lparr>sfd_ino = SFS_NOINO, sfd_name = replicate SFS_NAMELEN 0\<rparr> slot"

section \<open>Directories as lists of entries\<close>

definition dir_slot :: "(nat \<Rightarrow> byte list) \<Rightarrow> nat \<Rightarrow> sfs_dir" where
  "dir_slot f i = dec_dir (file_range f (i * 64) 64)"

definition dir_ents :: "sfs_inode \<Rightarrow> byte list list \<Rightarrow> sfs_dir list" where
  "dir_ents i d = map (dir_slot (fblock i d)) [0..<sfi_size i div 64]"

definition live :: "sfs_dir \<Rightarrow> bool" where
  "live e \<longleftrightarrow> sfd_ino e \<noteq> 0"

definition dname :: "sfs_dir \<Rightarrow> byte list" where
  "dname e = cstr ((sfd_name e)[59 := 0])"

text \<open>Each name appears only once, as the comment in \<open>sfs_dir_findname\<close> demands.\<close>

definition dir_wf :: "sfs_dir list \<Rightarrow> bool" where
  "dir_wf es \<longleftrightarrow> (\<forall>i < length es. \<forall>j < length es. live (es ! i) \<longrightarrow> live (es ! j) \<longrightarrow>
     dname (es ! i) = dname (es ! j) \<longrightarrow> i = j)"

text \<open>What a directory means: a map from names to inode numbers.\<close>

definition dir_map :: "sfs_dir list \<Rightarrow> byte list \<rightharpoonup> nat" where
  "dir_map es name = map_option sfd_ino (List.find (\<lambda>e. live e \<and> dname e = name) es)"

definition put_ent :: "nat \<Rightarrow> sfs_dir \<Rightarrow> sfs_dir list \<Rightarrow> sfs_dir list" where
  "put_ent i e es = (if i < length es then es[i := e] else es @ [e])"

lemma length_dir_ents [simp]: "length (dir_ents i d) = sfi_size i div 64"
  by (simp add: dir_ents_def)

lemma nth_dir_ents: "k < sfi_size i div 64 \<Longrightarrow> dir_ents i d ! k = dir_slot (fblock i d) k"
  by (simp add: dir_ents_def)

lemma option_eqI: "(\<And>x. a = Some x \<longleftrightarrow> b = Some x) \<Longrightarrow> a = b"
  by (cases a; cases b) auto

lemma dir_map_Some:
  assumes "dir_wf es"
  shows "dir_map es name = Some x \<longleftrightarrow> (\<exists>i < length es. live (es ! i) \<and> dname (es ! i) = name \<and> x = sfd_ino (es ! i))"
proof
  assume "dir_map es name = Some x"
  then show "\<exists>i < length es. live (es ! i) \<and> dname (es ! i) = name \<and> x = sfd_ino (es ! i)"
    by (auto simp: dir_map_def find_Some_iff)
next
  assume "\<exists>i < length es. live (es ! i) \<and> dname (es ! i) = name \<and> x = sfd_ino (es ! i)"
  then obtain i where i: "i < length es" "live (es ! i)" "dname (es ! i) = name" "x = sfd_ino (es ! i)" by blast
  have "List.find (\<lambda>e. live e \<and> dname e = name) es = Some (es ! i)"
    unfolding find_Some_iff
  proof (intro exI [of _ i] conjI allI impI)
    show "\<not> (live (es ! j) \<and> dname (es ! j) = name)" if "j < i" for j
    proof
      assume "live (es ! j) \<and> dname (es ! j) = name"
      moreover have "j < length es" using that i(1) by simp
      ultimately have "j = i" using assms i unfolding dir_wf_def by simp
      then show False using that by simp
    qed
  qed (use i in simp_all)
  then show "dir_map es name = Some x" using i(4) by (simp add: dir_map_def)
qed

lemma dir_map_None: "dir_map es name = None \<longleftrightarrow> (\<forall>i < length es. live (es ! i) \<longrightarrow> dname (es ! i) \<noteq> name)"
  unfolding dir_map_def option.map_disc_iff find_None_iff all_set_conv_all_nth Ball_def [symmetric]
  by (metis (no_types, lifting) in_set_conv_nth)

text \<open>Adding an entry in a free slot or at the end, and erasing one.\<close>

lemma put_ent_add:
  assumes wf: "dir_wf es" and i: "i \<le> length es" "i < length es \<longrightarrow> \<not> live (es ! i)"
    and e: "live e" "dir_map es (dname e) = None"
  shows "dir_wf (put_ent i e es)" "dir_map (put_ent i e es) = (dir_map es)(dname e \<mapsto> sfd_ino e)"
proof -
  let ?es = "put_ent i e es"
  have len: "length ?es = max (length es) (i + 1)" "i < length ?es" using i(1) by (auto simp: put_ent_def)
  have at: "?es ! i = e" using i(1) by (auto simp: put_ent_def nth_append)
  have other: "?es ! k = es ! k \<and> k < length es" if "k < length ?es" "k \<noteq> i" for k
    using that i(1) by (auto simp: put_ent_def nth_append split: if_splits)
  have old: "live (es ! k) \<longrightarrow> dname (es ! k) \<noteq> dname e" if "k < length es" for k
    using e(2) that by (simp add: dir_map_None)
  show wf': "dir_wf ?es"
    unfolding dir_wf_def
  proof (intro allI impI)
    fix a b
    assume ab: "a < length ?es" "b < length ?es" "live (?es ! a)" "live (?es ! b)" "dname (?es ! a) = dname (?es ! b)"
    show "a = b"
    proof (rule ccontr)
      assume ne: "a \<noteq> b"
      consider "a = i" "b \<noteq> i" | "a \<noteq> i" "b = i" | "a \<noteq> i" "b \<noteq> i" using ne by blast
      then show False
      proof cases
        case 1
        then show False using ab at other [OF ab(2)] old [of b] by auto
      next
        case 2
        then show False using ab at other [OF ab(1)] old [of a] by auto
      next
        case 3
        then show False using ab other [OF ab(1)] other [OF ab(2)] wf ne unfolding dir_wf_def by auto
      qed
    qed
  qed
  show "dir_map ?es = (dir_map es)(dname e \<mapsto> sfd_ino e)"
  proof
    fix name
    show "dir_map ?es name = ((dir_map es)(dname e \<mapsto> sfd_ino e)) name"
    proof (cases "name = dname e")
      case True
      have "dir_map ?es name = Some (sfd_ino e)"
        unfolding dir_map_Some [OF wf'] using True at e(1) len(2) by auto
      then show ?thesis using True by simp
    next
      case False
      have "dir_map ?es name = Some x \<longleftrightarrow> dir_map es name = Some x" for x
        unfolding dir_map_Some [OF wf'] dir_map_Some [OF wf]
      proof
        assume "\<exists>k < length ?es. live (?es ! k) \<and> dname (?es ! k) = name \<and> x = sfd_ino (?es ! k)"
        then obtain k where k: "k < length ?es" "live (?es ! k)" "dname (?es ! k) = name" "x = sfd_ino (?es ! k)" by blast
        then have "k \<noteq> i" using at False by auto
        then show "\<exists>k < length es. live (es ! k) \<and> dname (es ! k) = name \<and> x = sfd_ino (es ! k)"
          using other [OF k(1)] k by auto
      next
        assume "\<exists>k < length es. live (es ! k) \<and> dname (es ! k) = name \<and> x = sfd_ino (es ! k)"
        then obtain k where k: "k < length es" "live (es ! k)" "dname (es ! k) = name" "x = sfd_ino (es ! k)" by blast
        have "k \<noteq> i" using k i by auto
        moreover have "k < length ?es" using k(1) len(1) by simp
        ultimately show "\<exists>k < length ?es. live (?es ! k) \<and> dname (?es ! k) = name \<and> x = sfd_ino (?es ! k)"
          using other [of k] k by auto
      qed
      then have "dir_map ?es name = dir_map es name" by (rule option_eqI)
      then show ?thesis using False by simp
    qed
  qed
qed

lemma put_ent_erase:
  assumes wf: "dir_wf es" and i: "i < length es" "live (es ! i)" and e: "\<not> live e"
  shows "dir_wf (put_ent i e es)" "dir_map (put_ent i e es) = (dir_map es)(dname (es ! i) := None)"
proof -
  let ?es = "es[i := e]"
  have es: "put_ent i e es = ?es" using i(1) by (simp add: put_ent_def)
  have other: "live (?es ! k) \<longleftrightarrow> k \<noteq> i \<and> live (es ! k)" "k \<noteq> i \<longrightarrow> ?es ! k = es ! k" if "k < length es" for k
    using that e by (cases "k = i"; simp)+
  have wf': "dir_wf ?es"
    unfolding dir_wf_def length_list_update using wf other unfolding dir_wf_def by metis
  show "dir_wf (put_ent i e es)" unfolding es by (rule wf')
  show "dir_map (put_ent i e es) = (dir_map es)(dname (es ! i) := None)"
    unfolding es
  proof
    fix name
    have "dir_map ?es name = Some x \<longleftrightarrow> name \<noteq> dname (es ! i) \<and> dir_map es name = Some x" for x
      unfolding dir_map_Some [OF wf'] dir_map_Some [OF wf] length_list_update
      using other i wf unfolding dir_wf_def by metis
    then show "dir_map ?es name = ((dir_map es)(dname (es ! i) := None)) name"
      by (intro option_eqI) auto
  qed
qed

section \<open>Slots\<close>

lemma file_range_nth: "j < n \<Longrightarrow> file_range f off n ! j = f ((off + j) div 512) ! ((off + j) mod 512)"
  by (simp add: file_range_def)

lemma slot_overlay:
  assumes "length bs = 64"
  shows "file_range (overlay f (i * 64) bs) (k * 64) 64 = (if k = i then bs else file_range f (k * 64) 64)"
proof (rule nth_equalityI)
  fix j
  assume "j < length (file_range (overlay f (i * 64) bs) (k * 64) 64)"
  then have j: "j < 64" by simp
  let ?o = "k * 64 + j"
  have o: "?o div 512 * 512 + ?o mod 512 = ?o" "?o mod 512 < 512" by simp_all
  have l: "file_range (overlay f (i * 64) bs) (k * 64) 64 ! j
    = (if i * 64 \<le> ?o \<and> ?o < i * 64 + 64 then bs ! (?o - i * 64) else f (?o div 512) ! (?o mod 512))"
    using j o assms by (simp add: file_range_nth overlay_nth)
  show "file_range (overlay f (i * 64) bs) (k * 64) 64 ! j = (if k = i then bs else file_range f (k * 64) 64) ! j"
  proof (cases "k = i")
    case True
    then show ?thesis using l j by simp
  next
    case False
    then have "k < i \<or> i < k" by linarith
    then have n: "\<not> (i * 64 \<le> ?o \<and> ?o < i * 64 + 64)" using j by linarith
    show ?thesis unfolding l if_not_P [OF n] using j False by (simp add: file_range_nth)
  qed
qed (use assms in auto)

text \<open>A directory between two operations on it.\<close>

definition dir_ok :: "sfs_inode \<Rightarrow> bool" where
  "dir_ok i \<longleftrightarrow> sfi_type i = SFS_TYPE_DIR \<and> sfi_size i mod 64 = 0 \<and> sfi_size i \<le> 73216"

definition dir_pre :: "nat \<Rightarrow> sfs_vnode \<Rightarrow> sfs_fs \<Rightarrow> bool" where
  "dir_pre p v s \<longleftrightarrow> fs_wf s \<and> sv_heap s p = Some v \<and> file_wf (sv_i v) s \<and> dir_ok (sv_i v)"

lemma read_from_trans: "read_from p v s t \<Longrightarrow> read_from p v t r \<Longrightarrow> read_from p v s r"
  unfolding read_from_def using file_step_trans by metis

lemma read_from_refl: "dir_pre p v s \<Longrightarrow> read_from p v s s"
  by (simp add: read_from_def dir_pre_def file_step_refl)

lemma read_from_pre:
  assumes "dir_pre p v s" and "read_from p v s t"
  shows "dir_pre p v t"
proof -
  have st: "file_step p v v s t" using assms(2) by (simp add: read_from_def)
  show ?thesis using assms(1) file_stepD [OF st] by (simp add: dir_pre_def)
qed

lemma slot_uio:
  fixes rw :: uio_rw
  assumes "length bs = 64" and "i < 1145"
  defines "u \<equiv> mk_kuio bs DIRSIZE (off32 (int (u32 (i * DIRSIZE)))) rw"
  shows "uio_valid u" "uio_dir u = rw" "uio_resid u = 64" "uio_offset u = int (i * 64)" "iov_base u = 0"
    "uio_segflg u = UIO_SYSSPACE" "mem_bytes (uio_mem u) 0 64 = bs"
proof -
  have "off32 (int (u32 (i * 64))) = int (i * 64)" using assms(2) by (simp add: off32_id)
  then show "uio_valid u" "uio_dir u = rw" "uio_resid u = 64" "uio_offset u = int (i * 64)" "iov_base u = 0"
    "uio_segflg u = UIO_SYSSPACE"
    using assms by (simp_all add: u_def mk_kuio_def uio_valid_def mapped_def DIRSIZE_def)
  show "mem_bytes (uio_mem u) 0 64 = bs"
    by (rule nth_equalityI) (use assms(1) in \<open>simp_all add: u_def mk_kuio_def\<close>)
qed

lemma sfs_readdir_wp:
  assumes pre: "dir_pre p v s" and i: "i < length (dir_ents (sv_i v) (disk s))"
  shows "wp (sfs_readdir p i) (\<lambda>e t. e = dir_ents (sv_i v) (disk s) ! i \<and> read_from p v s t) (\<lambda>_ _. False) s"
proof -
  have d: "sfi_size (sv_i v) \<le> 73216" "sfi_size (sv_i v) mod 64 = 0" using pre by (simp_all add: dir_pre_def dir_ok_def)
  have i64: "i * 64 + 64 \<le> sfi_size (sv_i v)" "i < 1145" using i d by auto
  let ?u = "mk_kuio (replicate DIRSIZE 0) DIRSIZE (off32 (int (u32 (i * DIRSIZE)))) UIO_READ"
  have z: "length (replicate DIRSIZE (0 :: byte)) = 64" by (simp add: DIRSIZE_def)
  note u = slot_uio [OF z i64(2), of UIO_READ]
  have io: "io_pre p v s ?u" using pre u(1) by (simp add: dir_pre_def io_pre_def)
  have n: "read_len v ?u = 64" using u i64 by (simp add: read_len_def)
  have off: "nat (uio_offset ?u) = i * 64" by (simp only: u(4) nat_int)
  have e: "dir_ents (sv_i v) (disk s) ! i = dec_dir (file_range (fblock (sv_i v) (disk s)) (i * 64) 64)"
    using i by (simp add: nth_dir_ents dir_slot_def)
  have m: "mem_bytes (mem_upd 0 (file_range f k 64) m) 0 64 = file_range f k 64" for f k m
    using mem_bytes_upd [of 0 "file_range f k 64" m] by simp
  show ?thesis unfolding sfs_readdir_def Let_def wp_kbind wp_with_uio
  proof (rule wp_mono [OF sfs_io_read_wp [OF io u(2)]])
    show "0 < uio_resid ?u" using u(3) by simp
    show "sfi_size (sv_i v) < 2147483648" using d by simp
  next
    fix x :: unit and t
    assume "read_from p v s (fst t) \<and> mapped (uio_mem ?u) (iov_base ?u) (read_len v ?u)
       \<and> snd t = uio_moved (read_len v ?u) (mem_upd (iov_base ?u)
            (file_range (fblock (sv_i v) (disk s)) (nat (uio_offset ?u)) (read_len v ?u)) (uio_mem ?u)) ?u"
    then show "wp (if 0 < uio_resid (snd t) then kpanic else kret (dec_dir (mem_bytes (uio_mem (snd t)) 0 DIRSIZE)))
       (\<lambda>e t. e = dir_ents (sv_i v) (disk s) ! i \<and> read_from p v s t) (\<lambda>_ _. False) (fst t)"
      unfolding n off u(5) e by (simp add: wps u(3) [unfolded DIRSIZE_def] DIRSIZE_def m)
  next
    fix e t
    assume "io_why (?u\<lparr>uio_resid := read_len v ?u\<rparr>) e (fst t) \<and> read_from p v s (fst t)"
    then show False unfolding n io_why_def using u i64(1) d(1) by simp
  qed
qed

lemma sfs_dir_nentries_wp:
  assumes "dir_pre p v s"
  shows "wp (sfs_dir_nentries p) Q R s \<longleftrightarrow> Q (length (dir_ents (sv_i v) (disk s))) s"
proof -
  have d: "sv_heap s p = Some v" "sfi_type (sv_i v) = SFS_TYPE_DIR" "sfi_size (sv_i v) mod 64 = 0" "sfi_size (sv_i v) \<le> 73216"
    using assms by (simp_all add: dir_pre_def dir_ok_def)
  have "to_u32 (off32 (int (sfi_size (sv_i v)))) = sfi_size (sv_i v)" using d(4) by (simp add: off32_id)
  then show ?thesis using d by (simp add: sfs_dir_nentries_def wp_kbind wp_sv_get wp_kassert wps DIRSIZE_def)
qed

text \<open>What the search has found among the first \<open>k\<close> slots: the name, and a free slot.\<close>

definition found_in :: "sfs_dir list \<Rightarrow> byte list \<Rightarrow> nat \<Rightarrow> (nat \<times> nat) option \<Rightarrow> bool" where
  "found_in es name k r \<longleftrightarrow> (\<forall>ino i. r = Some (ino, i) \<longleftrightarrow>
     i < k \<and> live (es ! i) \<and> dname (es ! i) = name \<and> ino = sfd_ino (es ! i))"

definition free_in :: "sfs_dir list \<Rightarrow> nat \<Rightarrow> nat option \<Rightarrow> bool" where
  "free_in es k r \<longleftrightarrow> (case r of None \<Rightarrow> \<forall>i < k. live (es ! i) | Some i \<Rightarrow> i < k \<and> \<not> live (es ! i))"

lemma findname_loop_wp:
  assumes "dir_pre p v s" and "dir_wf (dir_ents (sv_i v) (disk s))" and "k + n \<le> length (dir_ents (sv_i v) (disk s))"
    and "found_in (dir_ents (sv_i v) (disk s)) name k f" and "free_in (dir_ents (sv_i v) (disk s)) k e"
  shows "wp (findname_loop p name [k..<k + n] f e)
    (\<lambda>r t. read_from p v s t \<and> found_in (dir_ents (sv_i v) (disk s)) name (k + n) (fst r)
        \<and> free_in (dir_ents (sv_i v) (disk s)) (k + n) (snd r)) (\<lambda>_ _. False) s"
  using assms
proof (induction n arbitrary: k f e s)
  case 0
  then show ?case using read_from_refl by (simp add: wps)
next
  case (Suc n)
  let ?es = "dir_ents (sv_i v) (disk s)"
  have up: "[k..<k + Suc n] = k # [Suc k..<Suc k + n]" by (simp add: upt_conv_Cons)
  have k: "k < length ?es" using Suc.prems(3) by simp
  have sn: "Suc k + n = k + Suc n" by simp
  have len: "Suc k + n \<le> length ?es" using Suc.prems(3) by simp
  show ?case unfolding up findname_loop.simps wp_kbind
  proof (rule wp_mono [OF sfs_readdir_wp [OF Suc.prems(1) k]])
    fix d t
    assume d: "d = ?es ! k \<and> read_from p v s t"
    have dt: "disk t = disk s" using d by (simp add: read_from_def)
    have pt: "dir_pre p v t" using d Suc.prems(1) read_from_pre by blast
    have next_ok: "wp (findname_loop p name [Suc k..<Suc k + n] f' e')
      (\<lambda>r t. read_from p v s t \<and> found_in ?es name (k + Suc n) (fst r) \<and> free_in ?es (k + Suc n) (snd r)) (\<lambda>_ _. False) t"
      if "found_in ?es name (Suc k) f'" "free_in ?es (Suc k) e'" for f' e'
    proof (rule wp_mono [OF Suc.IH [OF pt, unfolded dt, OF Suc.prems(2) len that]])
      show "read_from p v s r \<and> found_in ?es name (k + Suc n) (fst x) \<and> free_in ?es (k + Suc n) (snd x)"
        if "read_from p v t r \<and> found_in ?es name (Suc k + n) (fst x) \<and> free_in ?es (Suc k + n) (snd x)" for x r
        using that d read_from_trans unfolding sn by blast
    qed simp
    have fnl: "found_in ?es name (Suc k) f" if "\<not> (live (?es ! k) \<and> dname (?es ! k) = name)"
      using that Suc.prems(4) unfolding found_in_def less_Suc_eq by blast
    have frl: "free_in ?es (Suc k) e" if "live (?es ! k)"
      using that Suc.prems(5) by (auto simp: free_in_def less_Suc_eq split: option.splits)
    consider (free) "\<not> live d" | (hit) "live d" "dname d = name" | (miss) "live d" "dname d \<noteq> name" by blast
    then show "wp (if sfd_ino d = SFS_NOINO then findname_loop p name [Suc k..<Suc k + n] f (Some k)
       else if cstr ((sfd_name d)[SFS_NAMELEN - 1 := 0]) = name then
         kbind (kassert (f = None)) (\<lambda>_. findname_loop p name [Suc k..<Suc k + n] (Some (sfd_ino d, k)) e)
       else findname_loop p name [Suc k..<Suc k + n] f e)
      (\<lambda>r t. read_from p v s t \<and> found_in ?es name (k + Suc n) (fst r) \<and> free_in ?es (k + Suc n) (snd r)) (\<lambda>_ _. False) t"
    proof cases
      case free
      have "free_in ?es (Suc k) (Some k)" using free d by (simp add: free_in_def)
      then have "wp (findname_loop p name [Suc k..<Suc k + n] f (Some k))
        (\<lambda>r t. read_from p v s t \<and> found_in ?es name (k + Suc n) (fst r) \<and> free_in ?es (k + Suc n) (snd r)) (\<lambda>_ _. False) t"
        by (intro next_ok fnl) (use free d in simp_all)
      then show ?thesis using free by (simp add: live_def SFS_NOINO_def)
    next
      case hit
      have uniq: "i = k" if "i \<le> k" "live (?es ! i)" "dname (?es ! i) = name" for i
      proof -
        have "i < length ?es" using that(1) k by simp
        then show ?thesis using Suc.prems(2) k that hit d unfolding dir_wf_def by metis
      qed
      have "f = None"
      proof (rule ccontr)
        assume "f \<noteq> None"
        then obtain ino i where "f = Some (ino, i)" by auto
        then have "i < k" "live (?es ! i)" "dname (?es ! i) = name" using Suc.prems(4) by (auto simp: found_in_def)
        then show False using uniq [of i] by simp
      qed
      moreover have "found_in ?es name (Suc k) (Some (sfd_ino d, k))"
        unfolding found_in_def using hit d uniq by (auto simp: less_Suc_eq_le)
      ultimately have "f = None \<and> wp (findname_loop p name [Suc k..<Suc k + n] (Some (sfd_ino d, k)) e)
        (\<lambda>r t. read_from p v s t \<and> found_in ?es name (k + Suc n) (fst r) \<and> free_in ?es (k + Suc n) (snd r)) (\<lambda>_ _. False) t"
        by (intro conjI next_ok frl) (use hit d in simp_all)
      then show ?thesis using hit by (simp add: wp_kbind wp_kassert live_def SFS_NOINO_def dname_def SFS_NAMELEN_def)
    next
      case miss
      have "wp (findname_loop p name [Suc k..<Suc k + n] f e)
        (\<lambda>r t. read_from p v s t \<and> found_in ?es name (k + Suc n) (fst r) \<and> free_in ?es (k + Suc n) (snd r)) (\<lambda>_ _. False) t"
        by (intro next_ok fnl frl) (use miss d in simp_all)
      then show ?thesis using miss by (simp add: live_def SFS_NOINO_def dname_def SFS_NAMELEN_def)
    qed
  qed simp
qed

lemma sfs_dir_findname_wp:
  assumes pre: "dir_pre p v s" and wf: "dir_wf (dir_ents (sv_i v) (disk s))"
  defines "es \<equiv> dir_ents (sv_i v) (disk s)"
  shows "wp (sfs_dir_findname p name)
    (\<lambda>r t. read_from p v s t \<and> found_in es name (length es) (fst r) \<and> free_in es (length es) (snd r)
       \<and> map_option fst (fst r) = dir_map es name) (\<lambda>_ _. False) s"
proof -
  have 0: "found_in es name 0 None" "free_in es 0 None" by (simp_all add: found_in_def free_in_def)
  have m: "map_option fst r = dir_map es name" if "found_in es name (length es) r" for r
  proof (rule option_eqI)
    show "map_option fst r = Some x \<longleftrightarrow> dir_map es name = Some x" for x
      unfolding dir_map_Some [OF wf, folded es_def] using that by (auto simp: found_in_def)
  qed
  show ?thesis unfolding sfs_dir_findname_def wp_kbind sfs_dir_nentries_wp [OF pre]
    unfolding es_def [symmetric]
    by (rule wp_mono [OF findname_loop_wp [OF pre wf, of 0 "length es", folded es_def, OF _ 0, unfolded add_0]])
      (use m in simp_all)
qed

section \<open>Writing a slot\<close>

text \<open>A step on a directory that leaves the entries \<open>es\<close>.\<close>

definition dir_step :: "nat \<Rightarrow> sfs_vnode \<Rightarrow> sfs_fs \<Rightarrow> sfs_dir list \<Rightarrow> sfs_fs \<Rightarrow> bool" where
  "dir_step p v s es t \<longleftrightarrow> (\<exists>v'. file_step p v v' s t \<and> dir_pre p v' t \<and> dir_ents (sv_i v') (disk t) = es)"

lemma dir_step_read: "dir_pre p v s \<Longrightarrow> read_from p v s t \<Longrightarrow> dir_step p v s (dir_ents (sv_i v) (disk s)) t"
  unfolding dir_step_def using read_from_pre by (metis read_from_def)

lemma dir_step_after_read:
  assumes "read_from p v s t" and "dir_step p v t es r"
  shows "dir_step p v s es r"
  using assms file_step_trans unfolding dir_step_def read_from_def by blast

lemma dir_step_unchanged:
  assumes pre: "dir_pre p v s" and st: "file_step p v v' s t" and sz: "sfi_size (sv_i v') = sfi_size (sv_i v)"
    and f: "fblock (sv_i v') (disk t) = fblock (sv_i v) (disk s)"
  shows "dir_step p v s (dir_ents (sv_i v) (disk s)) t"
proof -
  have "dir_pre p v' t" using pre sz file_stepD [OF st] by (simp add: dir_pre_def dir_ok_def vnode_same_def)
  then show ?thesis unfolding dir_step_def
    using st by (intro exI [of _ v']) (simp add: dir_ents_def sz f)
qed

lemma dir_step_put:
  assumes pre: "dir_pre p v s" and st: "file_step p v v' s t" and i: "i \<le> sfi_size (sv_i v) div 64" "i < 1144"
    and sz: "sfi_size (sv_i v') = max (sfi_size (sv_i v)) (i * 64 + 64)" and e: "dir_fits e"
    and f: "fblock (sv_i v') (disk t) = overlay (fblock (sv_i v) (disk s)) (i * 64) (enc_dir e)"
  shows "dir_step p v s (put_ent i e (dir_ents (sv_i v) (disk s))) t"
proof -
  let ?n = "sfi_size (sv_i v) div 64" and ?f = "fblock (sv_i v) (disk s)"
  have d: "sfi_size (sv_i v) mod 64 = 0" "sfi_size (sv_i v) \<le> 73216" using pre by (simp_all add: dir_pre_def dir_ok_def)
  have n: "sfi_size (sv_i v) = ?n * 64" using d(1) by (simp add: mult.commute mod_0_imp_dvd)
  have szn: "sfi_size (sv_i v') = (if i < ?n then ?n else Suc ?n) * 64" using sz n i(1) by auto
  have slot: "dir_slot (overlay ?f (i * 64) (enc_dir e)) k = (if k = i then e else dir_slot ?f k)" for k
    using slot_overlay [OF enc_dir_length [OF e], of ?f i k] dec_enc_dir [OF e] by (simp add: dir_slot_def)
  have ents: "dir_ents (sv_i v') (disk t) = put_ent i e (dir_ents (sv_i v) (disk s))"
  proof (rule nth_equalityI)
    show "length (dir_ents (sv_i v') (disk t)) = length (put_ent i e (dir_ents (sv_i v) (disk s)))"
      using i(1) by (simp add: put_ent_def szn)
    fix k assume "k < length (dir_ents (sv_i v') (disk t))"
    then have k: "k < (if i < ?n then ?n else Suc ?n)" by (simp add: szn)
    show "dir_ents (sv_i v') (disk t) ! k = put_ent i e (dir_ents (sv_i v) (disk s)) ! k"
    proof (cases "i < ?n")
      case True
      then show ?thesis using k by (simp add: nth_dir_ents szn f slot put_ent_def nth_list_update)
    next
      case False
      then have "i = ?n" using i(1) by simp
      show ?thesis
        by (cases "k = i") (use k False \<open>i = ?n\<close> slot [of k] in
          \<open>auto simp: nth_dir_ents szn f put_ent_def nth_append less_Suc_eq\<close>)
    qed
  qed
  have "dir_pre p v' t"
    using pre szn i(2) d(2) file_stepD [OF st] by (auto simp: dir_pre_def dir_ok_def vnode_same_def sz)
  then show ?thesis unfolding dir_step_def using st ents by blast
qed

lemma sfs_writedir_wp:
  assumes pre: "dir_pre p v s" and i: "i \<le> length (dir_ents (sv_i v) (disk s))" and e: "dir_fits e"
  shows "wp (sfs_writedir p e i)
    (\<lambda>_ t. i < 1144 \<and> dir_step p v s (put_ent i e (dir_ents (sv_i v) (disk s))) t)
    (\<lambda>er t. dir_step p v s (dir_ents (sv_i v) (disk s)) t
       \<and> (er = ENOSPC \<and> {..<nblocks t} \<subseteq> used t \<or> er = EINVAL \<and> i = 1144)) s"
proof -
  have d: "sfi_size (sv_i v) mod 64 = 0" "sfi_size (sv_i v) \<le> 73216" using pre by (simp_all add: dir_pre_def dir_ok_def)
  have i2: "i < 1145" "i * 64 \<le> sfi_size (sv_i v)" using i d by auto
  let ?u = "mk_kuio (enc_dir e) DIRSIZE (off32 (int (u32 (i * DIRSIZE)))) UIO_WRITE"
  note u = slot_uio [OF enc_dir_length [OF e] i2(1), of UIO_WRITE]
  have io: "io_pre p v s ?u" using pre u(1) by (simp add: dir_pre_def io_pre_def)
  have off: "nat (uio_offset ?u) = i * 64" by (simp only: u(4) nat_int)
  have fl: "\<forall>k. length (fblock (sv_i v) (disk s) k) = 512" by (rule io_pre_length [OF io])
  show ?thesis unfolding sfs_writedir_def Let_def wp_kbind wp_with_uio
  proof (rule wp_mono [OF sfs_io_write_wp [OF io u(2)]])
    show "0 < uio_resid ?u" using u(3) by simp
    show "sfi_size (sv_i v) < 2147483648" using d by simp
  next
    fix x :: unit and t
    assume "wrote p v s ?u (uio_resid ?u) (fst t) \<and> mapped (uio_mem ?u) (iov_base ?u) (uio_resid ?u)
       \<and> snd t = uio_moved (uio_resid ?u) (uio_mem ?u) ?u"
    then have w: "wrote p v s ?u 64 (fst t)" and r: "uio_resid (snd t) = 0" unfolding u(3) by (simp_all add: u(3))
    obtain v' where v': "file_step p v v' s (fst t)" "sfi_size (sv_i v') = max (sfi_size (sv_i v)) (i * 64 + 64)"
      "fblock (sv_i v') (disk (fst t)) = overlay (fblock (sv_i v) (disk s)) (i * 64) (enc_dir e)"
      using w unfolding wrote_def off u(5,7) by blast
    have "i < 1144"
    proof (rule ccontr)
      assume "\<not> i < 1144"
      then have "i = 1144" using i2(1) by simp
      then show False using w unfolding wrote_def io_reach_def off by simp
    qed
    then show "wp (if 0 < uio_resid (snd t) then kpanic else kret ())
       (\<lambda>_ t. i < 1144 \<and> dir_step p v s (put_ent i e (dir_ents (sv_i v) (disk s))) t)
       (\<lambda>er t. dir_step p v s (dir_ents (sv_i v) (disk s)) t
         \<and> (er = ENOSPC \<and> {..<nblocks t} \<subseteq> used t \<or> er = EINVAL \<and> i = 1144)) (fst t)"
      using r dir_step_put [OF pre v'(1) _ _ v'(2) e v'(3)] i by (simp add: wps)
  next
    fix er t
    assume w: "io_why ?u er (fst t) \<and> (\<exists>k. io_stop ?u k \<and> wrote p v s ?u k (fst t))"
    then obtain k where k: "io_stop ?u k" "wrote p v s ?u k (fst t)" by blast
    have "k = 0"
    proof (rule ccontr)
      assume "k \<noteq> 0"
      then have k64: "k < 64" "512 dvd i * 64 + k" "0 < k" using k(1) unfolding io_stop_def off u(2,3) by simp_all
      obtain q where "i * 64 + k = 512 * q" using k64(2) by (rule dvdE)
      moreover have "(512 * q) mod 64 = 0" "(i * 64 + k) mod 64 = k mod 64" by simp_all
      ultimately show False using k64(1,3) by simp
    qed
    obtain v' where v': "file_step p v v' s (fst t)" "sfi_size (sv_i v') = max (sfi_size (sv_i v)) (i * 64)"
      "fblock (sv_i v') (disk (fst t)) = overlay (fblock (sv_i v) (disk s)) (i * 64) []"
      using k(2) unfolding wrote_def off mem_bytes_def by (simp add: \<open>k = 0\<close>) blast
    have "dir_step p v s (dir_ents (sv_i v) (disk s)) (fst t)"
      by (rule dir_step_unchanged [OF pre v'(1)]) (use v'(2,3) i2(2) overlay_Nil [OF fl] in simp_all)
    then show "dir_step p v s (dir_ents (sv_i v) (disk s)) (fst t)
       \<and> (er = ENOSPC \<and> {..<nblocks (fst t)} \<subseteq> used (fst t) \<or> er = EINVAL \<and> i = 1144)"
    proof (rule conjI)
      have "73216 < int (i * 64) + int 64 \<Longrightarrow> i = 1144" using i2(1) by linarith
      then show "er = ENOSPC \<and> {..<nblocks (fst t)} \<subseteq> used (fst t) \<or> er = EINVAL \<and> i = 1144"
        using conjunct1 [OF w] unfolding io_why_def u(2,3,4,6) by blast
    qed
  qed
qed

section \<open>Adding and erasing names\<close>

lemma new_entry:
  assumes "length name < 60" and "0 \<notin> set name" and "ino < 4294967296"
  defines "e \<equiv> \<lparr>sfd_ino = ino, sfd_name = put_at 0 (name @ [0]) (replicate SFS_NAMELEN 0)\<rparr>"
  shows "dir_fits e" "dname e = name"
proof -
  have n: "sfd_name e = name @ 0 # replicate (59 - length name) 0"
    using assms(1) by (simp add: e_def put_at_def SFS_NAMELEN_def replicate_Suc [symmetric] Suc_diff_Suc numeral_eq_Suc del: replicate_Suc)
  then have l: "length (sfd_name e) = 60" using assms(1) by simp
  show "dir_fits e" using l assms(3) by (simp add: dir_fits_def e_def)
  have 59: "sfd_name e ! 59 = 0" unfolding n using assms(1) by (auto simp: nth_append nth_Cons')
  have "(sfd_name e)[59 := 0] = sfd_name e" using 59 by (metis list_update_id)
  then have "dname e = takeWhile (\<lambda>b. b \<noteq> 0) (name @ 0 # replicate (59 - length name) 0)"
    unfolding dname_def cstr_def n by simp
  also have "\<dots> = name" using assms(2) by (subst takeWhile_append2) auto
  finally show "dname e = name" .
qed

lemma sfs_dir_link_wp:
  assumes pre: "dir_pre p v s" and wf: "dir_wf (dir_ents (sv_i v) (disk s))"
    and ino: "0 < ino" "ino < 4294967296" and name: "0 \<notin> set name"
  defines "es \<equiv> dir_ents (sv_i v) (disk s)"
  shows "wp (sfs_dir_link p name ino)
    (\<lambda>i t. dir_map es name = None \<and> length name < 60 \<and> i \<le> length es \<and> i < 1144
       \<and> (i < length es \<longrightarrow> \<not> live (es ! i))
       \<and> (\<exists>e. sfd_ino e = ino \<and> dname e = name \<and> dir_fits e \<and> dir_step p v s (put_ent i e es) t
            \<and> dir_wf (put_ent i e es) \<and> dir_map (put_ent i e es) = (dir_map es)(name \<mapsto> ino)))
    (\<lambda>er t. dir_step p v s es t
       \<and> (er = EEXIST \<and> dir_map es name \<noteq> None
          \<or> er = ENAMETOOLONG \<and> dir_map es name = None \<and> 60 \<le> length name
          \<or> er = ENOSPC \<and> {..<nblocks t} \<subseteq> used t
          \<or> er = EINVAL \<and> length es = 1144)) s"
    (is "wp _ ?Q ?R s")
  unfolding sfs_dir_link_def wp_kbind
proof (rule wp_mono [OF sfs_dir_findname_wp [OF pre wf, folded es_def]])
  fix r t
  assume r: "read_from p v s t \<and> found_in es name (length es) (fst r) \<and> free_in es (length es) (snd r)
       \<and> map_option fst (fst r) = dir_map es name"
  have pt: "dir_pre p v t" using r pre read_from_pre by blast
  have et: "dir_ents (sv_i v) (disk t) = es" using r by (simp add: read_from_def es_def)
  have rd: "dir_step p v s es t" unfolding es_def by (rule dir_step_read [OF pre]) (use r in simp)
  have l1144: "length es \<le> 1144" using pre unfolding es_def dir_pre_def dir_ok_def by auto
  let ?e = "\<lparr>sfd_ino = ino, sfd_name = put_at 0 (name @ [0]) (replicate SFS_NAMELEN 0)\<rparr>"
  have put: "wp (kbind (sfs_writedir p ?e i) (\<lambda>_. kret i)) ?Q ?R t"
    if i: "i \<le> length es" "i < length es \<longrightarrow> \<not> live (es ! i)" and none: "dir_map es name = None" and len: "length name < 60" for i
  proof -
    note e = new_entry [OF len name ino(2)]
    have lv: "live ?e" using ino(1) by (simp add: live_def)
    have nn: "dir_map es (dname ?e) = None" using none e(2) by simp
    note add = put_ent_add [OF wf [folded es_def] i lv nn, unfolded e(2), simplified]
    show ?thesis unfolding wp_kbind wp_kret
    proof (rule wp_mono [OF sfs_writedir_wp [OF pt _ e(1), of i, unfolded et]])
      fix x :: unit and t'
      assume "i < 1144 \<and> dir_step p v t (put_ent i ?e es) t'"
      then show "?Q i t'" using none len i add e dir_step_after_read r
        by (intro conjI exI [of _ ?e]) auto
    next
      fix er t'
      assume "dir_step p v t es t' \<and> (er = ENOSPC \<and> {..<nblocks t'} \<subseteq> used t' \<or> er = EINVAL \<and> i = 1144)"
      then show "?R er t'" using dir_step_after_read r i(1) l1144 by auto
    qed (rule i(1))
  qed
  show "wp (case fst r of None \<Rightarrow>
        if SFS_NAMELEN < length name + 1 then kfail ENAMETOOLONG
        else kbind (case snd r of None \<Rightarrow> sfs_dir_nentries p | Some i \<Rightarrow> kret i)
               (\<lambda>emptyslot. let sd = ?e in kbind (sfs_writedir p sd emptyslot) (\<lambda>_. kret emptyslot))
      | Some _ \<Rightarrow> kfail EEXIST) ?Q ?R t"
  proof (cases "fst r")
    case (Some a)
    then have "dir_map es name \<noteq> None" using r by (metis option.simps(9) option.discI)
    then show ?thesis using Some rd by (simp add: wps)
  next
    case None
    then have none: "dir_map es name = None" using r by (metis option.simps(8))
    show ?thesis
    proof (cases "60 \<le> length name")
      case True
      then show ?thesis using None none rd by (simp add: wps SFS_NAMELEN_def)
    next
      case False
      then have len: "\<not> SFS_NAMELEN < length name + 1" "length name < 60" by (simp_all add: SFS_NAMELEN_def)
      show ?thesis
      proof (cases "snd r")
        case None
        then have "wp (kbind (sfs_writedir p ?e (length es)) (\<lambda>_. kret (length es))) ?Q ?R t"
          using none len(2) by (intro put) simp_all
        then show ?thesis unfolding \<open>fst r = None\<close> None option.case if_not_P [OF len(1)] wp_kbind [of "sfs_dir_nentries p"] Let_def
            sfs_dir_nentries_wp [OF pt] et .
      next
        case (Some i)
        then have "i < length es" "\<not> live (es ! i)" using r by (simp_all add: free_in_def)
        then have "wp (kbind (sfs_writedir p ?e i) (\<lambda>_. kret i)) ?Q ?R t"
          using none len(2) by (intro put) simp_all
        then show ?thesis unfolding \<open>fst r = None\<close> Some option.case if_not_P [OF len(1)] wp_kbind [of "kret _"] wp_kret Let_def .
      qed
    qed
  qed
qed simp

lemma sfs_dir_unlink_wp:
  assumes pre: "dir_pre p v s" and wf: "dir_wf (dir_ents (sv_i v) (disk s))"
    and i: "i < length (dir_ents (sv_i v) (disk s))" "live (dir_ents (sv_i v) (disk s) ! i)"
  defines "es \<equiv> dir_ents (sv_i v) (disk s)"
  shows "wp (sfs_dir_unlink p i)
    (\<lambda>_ t. \<exists>e. \<not> live e \<and> dir_step p v s (put_ent i e es) t \<and> dir_wf (put_ent i e es)
       \<and> dir_map (put_ent i e es) = (dir_map es)(dname (es ! i) := None))
    (\<lambda>er t. dir_step p v s es t \<and> er = ENOSPC \<and> {..<nblocks t} \<subseteq> used t) s"
proof -
  let ?e = "\<lparr>sfd_ino = SFS_NOINO, sfd_name = replicate SFS_NAMELEN (0 :: byte)\<rparr>"
  have e: "dir_fits ?e" "\<not> live ?e" by (simp_all add: dir_fits_def live_def SFS_NOINO_def SFS_NAMELEN_def)
  have l: "length (dir_ents (sv_i v) (disk s)) \<le> 1144" using pre unfolding dir_pre_def dir_ok_def by auto
  note er = put_ent_erase [OF wf i e(2)]
  show ?thesis unfolding sfs_dir_unlink_def es_def
  proof (rule wp_mono [OF sfs_writedir_wp [OF pre _ e(1), of i]])
    fix x :: unit and t
    assume "i < 1144 \<and> dir_step p v s (put_ent i ?e (dir_ents (sv_i v) (disk s))) t"
    then show "\<exists>e. \<not> live e \<and> dir_step p v s (put_ent i e (dir_ents (sv_i v) (disk s))) t
       \<and> dir_wf (put_ent i e (dir_ents (sv_i v) (disk s)))
       \<and> dir_map (put_ent i e (dir_ents (sv_i v) (disk s)))
            = (dir_map (dir_ents (sv_i v) (disk s)))(dname (dir_ents (sv_i v) (disk s) ! i) := None)"
      using er e(2) by (intro exI [of _ ?e]) simp
  qed (use i(1) l in auto)
qed

section \<open>Properties\<close>

text \<open>
  Property C12: looking up a name in a directory returns the inode number that the directory's map gives
  it (\<open>ENOENT\<close> when it has none) and a slot that holds it, reports a free slot if there is one, and
  changes nothing; it cannot fail otherwise, on a disk that reports no errors (\<open>fs_wf\<close>).
\<close>

theorem sfs_dir_findname_looks_up:
  assumes "dir_pre p v s" and "dir_wf (dir_ents (sv_i v) (disk s))"
  shows "wp (sfs_dir_findname p name)
    (\<lambda>r t. read_from p v s t
       \<and> found_in (dir_ents (sv_i v) (disk s)) name (length (dir_ents (sv_i v) (disk s))) (fst r)
       \<and> free_in (dir_ents (sv_i v) (disk s)) (length (dir_ents (sv_i v) (disk s))) (snd r)
       \<and> map_option fst (fst r) = dir_map (dir_ents (sv_i v) (disk s)) name) (\<lambda>_ _. False) s"
  by (rule sfs_dir_findname_wp [OF assms])

text \<open>The eight-block file system with an empty directory.\<close>

definition dir_vnode :: sfs_vnode where
  "dir_vnode = small_vnode\<lparr>sv_i := empty_inode\<lparr>sfi_type := SFS_TYPE_DIR\<rparr>\<rparr>"

definition dir_fs :: sfs_fs where
  "dir_fs = small_fs\<lparr>sv_heap := [4096 \<mapsto> dir_vnode]\<rparr>"

lemma dir_fs_pre: "dir_pre 4096 dir_vnode dir_fs"
proof -
  have m: "fmap (sv_i dir_vnode) d fb = 0" for d fb
    by (simp add: dir_vnode_def fmap_def empty_inode_def id_entries_def del: replicate_Suc)
  then have "owned (sv_i dir_vnode) d = {}" for d by (auto simp: owned_def dir_vnode_def empty_inode_def)
  then have "file_wf (sv_i dir_vnode) dir_fs"
    using m empty_inode_fits by (simp add: file_wf_def dir_vnode_def inode_fits_def SFS_TYPE_DIR_def)
  then show ?thesis
    using small_fs_wf by (simp add: dir_pre_def dir_fs_def dir_ok_def dir_vnode_def empty_inode_def)
qed

lemma dir_fs_empty: "dir_ents (sv_i dir_vnode) d = []"
  by (simp add: dir_ents_def dir_vnode_def empty_inode_def)

lemma empty_dir_wf: "dir_wf []"
  by (simp add: dir_wf_def)

theorem sfs_dir_findname_looks_up_witness:
  "wp (sfs_dir_findname 4096 [97])
    (\<lambda>r t. read_from 4096 dir_vnode dir_fs t
       \<and> found_in (dir_ents (sv_i dir_vnode) (disk dir_fs)) [97] (length (dir_ents (sv_i dir_vnode) (disk dir_fs))) (fst r)
       \<and> free_in (dir_ents (sv_i dir_vnode) (disk dir_fs)) (length (dir_ents (sv_i dir_vnode) (disk dir_fs))) (snd r)
       \<and> map_option fst (fst r) = dir_map (dir_ents (sv_i dir_vnode) (disk dir_fs)) [97]) (\<lambda>_ _. False) dir_fs"
  by (rule sfs_dir_findname_looks_up [OF dir_fs_pre]) (simp only: dir_fs_empty empty_dir_wf)

text \<open>
  Property C9: \<open>sfs_dir_link\<close> adds the name to the directory's map, keeps every other name and the
  uniqueness of names, and fails, leaving the entries as they were, exactly when the name is there
  already (\<open>EEXIST\<close>), is too long (\<open>ENAMETOOLONG\<close>), no block is free (\<open>ENOSPC\<close>) or the
  directory has reached the size the block map can hold (\<open>EINVAL\<close>). The disk reports no errors (\<open>fs_wf\<close>).
\<close>

theorem sfs_dir_link_adds:
  assumes "dir_pre p v s" and "dir_wf (dir_ents (sv_i v) (disk s))"
    and "0 < ino" and "ino < 4294967296" and "0 \<notin> set name"
  shows "wp (sfs_dir_link p name ino)
    (\<lambda>i t. dir_map (dir_ents (sv_i v) (disk s)) name = None \<and> length name < 60
       \<and> (\<exists>es'. dir_step p v s es' t \<and> dir_wf es'
            \<and> dir_map es' = (dir_map (dir_ents (sv_i v) (disk s)))(name \<mapsto> ino)))
    (\<lambda>er t. dir_step p v s (dir_ents (sv_i v) (disk s)) t
       \<and> (er = EEXIST \<and> dir_map (dir_ents (sv_i v) (disk s)) name \<noteq> None
          \<or> er = ENAMETOOLONG \<and> dir_map (dir_ents (sv_i v) (disk s)) name = None \<and> 60 \<le> length name
          \<or> er = ENOSPC \<and> {..<nblocks t} \<subseteq> used t
          \<or> er = EINVAL \<and> length (dir_ents (sv_i v) (disk s)) = 1144)) s"
  by (rule wp_mono [OF sfs_dir_link_wp [OF assms]]) blast+

theorem sfs_dir_link_adds_witness:
  "wp (sfs_dir_link 4096 [97] 3)
    (\<lambda>i t. dir_map (dir_ents (sv_i dir_vnode) (disk dir_fs)) [97] = None \<and> length [97 :: byte] < 60
       \<and> (\<exists>es'. dir_step 4096 dir_vnode dir_fs es' t \<and> dir_wf es'
            \<and> dir_map es' = (dir_map (dir_ents (sv_i dir_vnode) (disk dir_fs)))([97] \<mapsto> 3)))
    (\<lambda>er t. dir_step 4096 dir_vnode dir_fs (dir_ents (sv_i dir_vnode) (disk dir_fs)) t
       \<and> (er = EEXIST \<and> dir_map (dir_ents (sv_i dir_vnode) (disk dir_fs)) [97] \<noteq> None
          \<or> er = ENAMETOOLONG \<and> dir_map (dir_ents (sv_i dir_vnode) (disk dir_fs)) [97] = None \<and> 60 \<le> length [97 :: byte]
          \<or> er = ENOSPC \<and> {..<nblocks t} \<subseteq> used t
          \<or> er = EINVAL \<and> length (dir_ents (sv_i dir_vnode) (disk dir_fs)) = 1144)) dir_fs"
  by (rule sfs_dir_link_adds [OF dir_fs_pre]) (simp_all only: dir_fs_empty empty_dir_wf, simp_all)

end
