(* ===== verification/SfsVnode.thy ===== *)
theory SfsVnode
  imports SfsDir SfsTrunc
begin

unbundle bit_operations_syntax

text \<open>
  The vnodes of sfs: the common vnode routines of kern/fs/vfs/vnode.c, loading, reclaiming and
  creating inodes, and the vnode operations of kern/fs/sfs/sfs_vnode.c with their two dispatch
  tables.

  The locks of this kernel are stubs that never block; \<open>vn_countlock\<close> is left out. A call of
  \<open>kmalloc\<close> that succeeds returns the least address above those of the vnodes in the table.
\<close>

section \<open>Common vnode routines (kern/fs/vfs/vnode.c)\<close>

text \<open>The checks of \<open>vnode_check\<close>; the flag says that the operation is \<open>reclaim\<close>.\<close>

definition vnode_check :: "nat \<Rightarrow> bool \<Rightarrow> (sfs_fs, unit) op" where
  "vnode_check v reclaim =
     kbind (sv_get v) (\<lambda>vn.
     if vn_ops vn = None then kpanic
     else if vn_refcount vn < 0 then kpanic
     else if vn_refcount vn = 0 \<and> \<not> reclaim then kpanic
     else if vn_opencount vn < 0 then kpanic
     else kret ())"

text \<open>\<open>VOP_X(vn, args)\<close>: check the vnode, then call through its table; the two operations are the entries.\<close>

definition vop :: "nat \<Rightarrow> bool \<Rightarrow> (sfs_fs, 'a) op \<Rightarrow> (sfs_fs, 'a) op \<Rightarrow> (sfs_fs, 'a) op" where
  "vop v reclaim file_op dir_op =
     kbind (vnode_check v reclaim) (\<lambda>_.
     kbind (sv_get v) (\<lambda>vn.
     case vn_ops vn of None \<Rightarrow> kpanic | Some sfs_fileops \<Rightarrow> file_op | Some sfs_dirops \<Rightarrow> dir_op))"

definition vnode_incref :: "nat \<Rightarrow> (sfs_fs, unit) op" where
  "vnode_incref vn = sv_upd vn (\<lambda>v. v\<lparr>vn_refcount := vn_refcount v + 1\<rparr>)"

definition vnode_kill :: "nat \<Rightarrow> (sfs_fs, unit) op" where
  "vnode_kill vn =
     kbind (sv_get vn) (\<lambda>v.
     kbind (kassert (vn_refcount v = 1)) (\<lambda>_.
     kbind (kassert (vn_opencount v = 0)) (\<lambda>_.
     sv_upd vn (\<lambda>v. v\<lparr>vn_ops := None, vn_refcount := 0, vn_opencount := 0\<rparr>))))"

text \<open>\<open>kmalloc\<close>: whether the call succeeds; the address it returns; and \<open>kfree\<close> of a vnode.\<close>

definition kmalloc_ok :: "(sfs_fs, bool) op" where
  "kmalloc_ok = (\<lambda>s. case kmem s of [] \<Rightarrow> Done True s | b # bs \<Rightarrow> Done b (s\<lparr>kmem := bs\<rparr>))"

definition fresh_addr :: "sfs_fs \<Rightarrow> nat" where
  "fresh_addr s = Suc (fold max (array_list (sfs_vnodes s)) 0)"

definition kfree_vnode :: "nat \<Rightarrow> (sfs_fs, unit) op" where
  "kfree_vnode sv = kmodify (\<lambda>s. s\<lparr>sv_heap := (sv_heap s)(sv := None)\<rparr>)"

definition on_vnodes :: "(nat karray, 'a) op \<Rightarrow> (sfs_fs, 'a) op" where
  "on_vnodes m = kzoom sfs_vnodes (\<lambda>a s. s\<lparr>sfs_vnodes := a\<rparr>) m"

text \<open>\<open>vnode_init\<close>, which allocates the lock.\<close>

definition vnode_init :: "nat \<Rightarrow> sfs_ops \<Rightarrow> (sfs_fs, unit) op" where
  "vnode_init vn ops =
     kbind (sv_upd vn (\<lambda>v. v\<lparr>vn_ops := Some ops, vn_refcount := 1, vn_opencount := 0\<rparr>)) (\<lambda>_.
     kbind kmalloc_ok (\<lambda>ok. if \<not> ok then kfail ENOMEM else kret ()))"

section \<open>Loading an inode\<close>

text \<open>The search of the vnode table, over the indices still to look at.\<close>

primrec load_search :: "nat \<Rightarrow> nat list \<Rightarrow> (sfs_fs, nat option) op" where
  "load_search ino [] = kret None"
| "load_search ino (i # is) =
     kbind (on_vnodes (array_getguy (int i))) (\<lambda>g.
     case g of None \<Rightarrow> kpanic | Some sv \<Rightarrow>
     kbind (sv_get sv) (\<lambda>v.
     kbind (sfs_bused (sv_ino v)) (\<lambda>u.
     if \<not> u then kpanic
     else if sv_ino v = ino then kret (Some sv)
     else load_search ino is)))"

text \<open>A failure after the structure was allocated frees it.\<close>

definition free_on_error :: "nat \<Rightarrow> (sfs_fs, 'a) op \<Rightarrow> (sfs_fs, 'a) op" where
  "free_on_error sv m =
     kbind (kattempt m) (\<lambda>result. case result of
       Inl e \<Rightarrow> kbind (kfree_vnode sv) (\<lambda>_. kfail e)
     | Inr x \<Rightarrow> kret x)"

text \<open>The table for the type of the inode.\<close>

definition sfs_ops_of :: "nat \<Rightarrow> sfs_ops option" where
  "sfs_ops_of t = (if t = SFS_TYPE_FILE then Some sfs_fileops
     else if t = SFS_TYPE_DIR then Some sfs_dirops else None)"

text \<open>The structure after reading the block, with the type forced for a new object.\<close>

definition raw_vnode :: "nat \<Rightarrow> sfs_inode \<Rightarrow> sfs_vnode" where
  "raw_vnode forcetype i =
     (if forcetype \<noteq> SFS_TYPE_INVAL
      then \<lparr>vn_refcount = 0, vn_opencount = 0, vn_ops = None, sv_i = i\<lparr>sfi_type := forcetype\<rparr>, sv_ino = 0, sv_dirty = True\<rparr>
      else \<lparr>vn_refcount = 0, vn_opencount = 0, vn_ops = None, sv_i = i, sv_ino = 0, sv_dirty = False\<rparr>)"

text \<open>The last part: initialise the vnode and put it into the table.\<close>

definition load_table :: "nat \<Rightarrow> nat \<Rightarrow> sfs_ops \<Rightarrow> (sfs_fs, nat) op" where
  "load_table ino sv ops =
     kbind (free_on_error sv (vnode_init sv ops)) (\<lambda>_.
     kbind (sv_upd sv (\<lambda>v. v\<lparr>sv_ino := ino\<rparr>)) (\<lambda>_.
     kbind kmalloc_ok (\<lambda>ok2.
     kbind (kattempt (on_vnodes (array_add ok2 sv))) (\<lambda>result.
     case result of
       Inl e \<Rightarrow>
         kbind (vnode_kill sv) (\<lambda>_.
         kbind (kfree_vnode sv) (\<lambda>_. kfail e))
     | Inr _ \<Rightarrow> kret sv))))"

text \<open>The part after the search.\<close>

definition load_new :: "nat \<Rightarrow> nat \<Rightarrow> (sfs_fs, nat) op" where
  "load_new ino forcetype =
     kbind kmalloc_ok (\<lambda>ok.
     if \<not> ok then kfail ENOMEM
     else
       kbind (kget fresh_addr) (\<lambda>sv.
       kbind (sfs_bused ino) (\<lambda>u.
       if \<not> u then kpanic
       else
         kbind (free_on_error sv (on_device (sfs_rblock ino))) (\<lambda>data.
         let i = dec_inode data in
         kbind (kassert (forcetype = SFS_TYPE_INVAL \<or> sfi_type i = SFS_TYPE_INVAL)) (\<lambda>_.
         let v = raw_vnode forcetype i in
         case sfs_ops_of (sfi_type (sv_i v)) of
           None \<Rightarrow> kpanic
         | Some ops \<Rightarrow>
             kbind (kmodify (\<lambda>s. s\<lparr>sv_heap := (sv_heap s)(sv \<mapsto> v)\<rparr>)) (\<lambda>_.
             load_table ino sv ops))))))"

definition sfs_loadvnode :: "nat \<Rightarrow> nat \<Rightarrow> (sfs_fs, nat) op" where
  "sfs_loadvnode ino forcetype =
     kbind (kget (\<lambda>s. array_getnum (sfs_vnodes s))) (\<lambda>num.
     kbind (load_search ino [0..<nat num]) (\<lambda>found.
     case found of
       Some sv \<Rightarrow>
         kbind (kassert (forcetype = SFS_TYPE_INVAL)) (\<lambda>_.
         kbind (vnode_incref sv) (\<lambda>_. kret sv))
     | None \<Rightarrow> load_new ino forcetype))"

definition sfs_getroot :: "(sfs_fs, nat) op" where
  "sfs_getroot =
     kbind (kattempt (sfs_loadvnode SFS_ROOT_LOCATION SFS_TYPE_INVAL)) (\<lambda>result.
     case result of Inl e \<Rightarrow> kpanic | Inr sv \<Rightarrow> kret sv)"

section \<open>Letting go of a vnode\<close>

definition VOP_TRUNCATE :: "nat \<Rightarrow> int \<Rightarrow> (sfs_fs, unit) op" where
  "VOP_TRUNCATE v len = vop v False (sfs_truncate v len) (kfail EISDIR)"

text \<open>The last part of \<open>sfs_reclaim\<close>: take the vnode out of the table and free it.\<close>

definition forget_vnode :: "nat \<Rightarrow> (sfs_fs, unit) op" where
  "forget_vnode sv =
     kbind (on_vnodes (array_search (\<lambda>g. g = Some sv))) (\<lambda>ix.
     case ix of
       None \<Rightarrow> kpanic
     | Some ix \<Rightarrow>
         kbind (on_vnodes (array_remove ix)) (\<lambda>_.
         kbind (vnode_kill sv) (\<lambda>_.
         kfree_vnode sv)))"

definition sfs_reclaim :: "nat \<Rightarrow> (sfs_fs, unit) op" where
  "sfs_reclaim sv =
     kbind (sv_get sv) (\<lambda>v.
     if vn_refcount v \<noteq> 1 then
       kbind (kassert (vn_refcount v > 1)) (\<lambda>_.
       kbind (sv_upd sv (\<lambda>v. v\<lparr>vn_refcount := vn_refcount v - 1\<rparr>)) (\<lambda>_.
       kfail EBUSY))
     else
       kbind (kwhen (sfi_linkcount (sv_i v) = 0) (VOP_TRUNCATE sv 0)) (\<lambda>_.
       kbind (sfs_sync_inode sv) (\<lambda>_.
       kbind (sv_get sv) (\<lambda>v.
       kbind (kwhen (sfi_linkcount (sv_i v) = 0) (sfs_bfree (sv_ino v))) (\<lambda>_.
       forget_vnode sv)))))"

definition VOP_RECLAIM :: "nat \<Rightarrow> (sfs_fs, unit) op" where
  "VOP_RECLAIM v = vop v True (sfs_reclaim v) (sfs_reclaim v)"

text \<open>\<open>vnode_decref\<close> only prints a warning when reclaiming fails.\<close>

definition vnode_decref :: "nat \<Rightarrow> (sfs_fs, unit) op" where
  "vnode_decref vn =
     kbind (sv_get vn) (\<lambda>v.
     kbind (kassert (vn_refcount v > 0)) (\<lambda>_.
     if vn_refcount v > 1 then sv_upd vn (\<lambda>v. v\<lparr>vn_refcount := vn_refcount v - 1\<rparr>)
     else kbind (kattempt (VOP_RECLAIM vn)) (\<lambda>_. kret ())))"

section \<open>Operations on a file\<close>

definition O_RDONLY :: nat where "O_RDONLY = 0"
definition O_APPEND :: nat where "O_APPEND = 32"
definition O_ACCMODE :: nat where "O_ACCMODE = 3"
definition S_IFREG :: nat where "S_IFREG = 4096"
definition S_IFDIR :: nat where "S_IFDIR = 8192"

record stat =
  st_mode :: nat
  st_nlink :: nat
  st_size :: int
  st_blocks :: nat

definition sfs_open :: "nat \<Rightarrow> nat \<Rightarrow> (sfs_fs, unit) op" where
  "sfs_open v openflags = (if openflags AND O_APPEND \<noteq> 0 then kfail EUNIMP else kret ())"

definition sfs_opendir :: "nat \<Rightarrow> nat \<Rightarrow> (sfs_fs, unit) op" where
  "sfs_opendir v openflags =
     (if openflags AND O_ACCMODE \<noteq> O_RDONLY then kfail EISDIR
      else if openflags AND O_APPEND \<noteq> 0 then kfail EISDIR
      else kret ())"

definition sfs_fsync :: "nat \<Rightarrow> (sfs_fs, unit) op" where
  "sfs_fsync sv = sfs_sync_inode sv"

definition VOP_FSYNC :: "nat \<Rightarrow> (sfs_fs, unit) op" where
  "VOP_FSYNC v = vop v False (sfs_fsync v) (sfs_fsync v)"

definition sfs_close :: "nat \<Rightarrow> (sfs_fs, unit) op" where
  "sfs_close v = VOP_FSYNC v"

definition VOP_CLOSE :: "nat \<Rightarrow> (sfs_fs, unit) op" where
  "VOP_CLOSE v = vop v False (sfs_close v) (sfs_close v)"

definition vnode_incopen :: "nat \<Rightarrow> (sfs_fs, unit) op" where
  "vnode_incopen vn = sv_upd vn (\<lambda>v. v\<lparr>vn_opencount := vn_opencount v + 1\<rparr>)"

definition vnode_decopen :: "nat \<Rightarrow> (sfs_fs, unit) op" where
  "vnode_decopen vn =
     kbind (sv_get vn) (\<lambda>v.
     kbind (kassert (vn_opencount v > 0)) (\<lambda>_.
     kbind (sv_upd vn (\<lambda>v. v\<lparr>vn_opencount := vn_opencount v - 1\<rparr>)) (\<lambda>_.
     if vn_opencount v - 1 > 0 then kret ()
     else kbind (kattempt (VOP_CLOSE vn)) (\<lambda>_. kret ()))))"

definition sfs_read :: "nat \<Rightarrow> (fsio, unit) op" where
  "sfs_read sv = kbind (kget snd) (\<lambda>u. kbind (kassert (uio_dir u = UIO_READ)) (\<lambda>_. sfs_io sv))"

definition sfs_write :: "nat \<Rightarrow> (fsio, unit) op" where
  "sfs_write sv = kbind (kget snd) (\<lambda>u. kbind (kassert (uio_dir u = UIO_WRITE)) (\<lambda>_. sfs_io sv))"

definition sfs_ioctl :: "nat \<Rightarrow> int \<Rightarrow> nat \<Rightarrow> (sfs_fs, unit) op" where
  "sfs_ioctl v code data = kfail EINVAL"

definition sfs_gettype :: "nat \<Rightarrow> (sfs_fs, nat) op" where
  "sfs_gettype sv =
     kbind (sv_get sv) (\<lambda>v.
     if sfi_type (sv_i v) = SFS_TYPE_FILE then kret S_IFREG
     else if sfi_type (sv_i v) = SFS_TYPE_DIR then kret S_IFDIR
     else kpanic)"

definition VOP_GETTYPE :: "nat \<Rightarrow> (sfs_fs, nat) op" where
  "VOP_GETTYPE v = vop v False (sfs_gettype v) (sfs_gettype v)"

definition sfs_stat :: "nat \<Rightarrow> (sfs_fs, stat) op" where
  "sfs_stat sv =
     kbind (VOP_GETTYPE sv) (\<lambda>mode.
     kbind (sv_get sv) (\<lambda>v.
     kret \<lparr>st_mode = mode, st_nlink = 0, st_size = off32 (int (sfi_size (sv_i v))), st_blocks = 0\<rparr>))"

definition sfs_tryseek :: "nat \<Rightarrow> int \<Rightarrow> (sfs_fs, unit) op" where
  "sfs_tryseek v pos = (if pos < 0 then kfail EINVAL else kret ())"

definition sfs_mmap :: "nat \<Rightarrow> (sfs_fs, unit) op" where
  "sfs_mmap v = kfail EUNIMP"

definition sfs_namefile :: "nat \<Rightarrow> (sfs_fs, unit) op" where
  "sfs_namefile sv = kbind (sv_get sv) (\<lambda>v. kassert (sv_ino v = SFS_ROOT_LOCATION))"

section \<open>Operations on a directory\<close>

definition sfs_makeobj :: "nat \<Rightarrow> (sfs_fs, nat) op" where
  "sfs_makeobj t = kbind sfs_balloc (\<lambda>ino. sfs_loadvnode ino t)"

text \<open>The value of \<open>sfs_lookonce\<close> is the vnode and the slot.\<close>

definition sfs_lookonce :: "nat \<Rightarrow> byte list \<Rightarrow> (sfs_fs, nat \<times> nat) op" where
  "sfs_lookonce sv name =
     kbind (sfs_dir_findname sv name) (\<lambda>r.
     case fst r of
       None \<Rightarrow> kfail ENOENT
     | Some (ino, slot) \<Rightarrow>
         kbind (sfs_loadvnode ino SFS_TYPE_INVAL) (\<lambda>ret.
         kbind (sv_get ret) (\<lambda>v.
         if sfi_linkcount (sv_i v) = 0 then kpanic else kret (ret, slot))))"

text \<open>\<open>sfi_linkcount\<close> is 16 bits wide.\<close>

definition inc_link :: "nat \<Rightarrow> (sfs_fs, unit) op" where
  "inc_link sv = sv_upd sv (\<lambda>v. v\<lparr>sv_i := (sv_i v)\<lparr>sfi_linkcount := (sfi_linkcount (sv_i v) + 1) mod 65536\<rparr>,
                                  sv_dirty := True\<rparr>)"

definition dec_link :: "nat \<Rightarrow> (sfs_fs, unit) op" where
  "dec_link sv =
     kbind (sv_get sv) (\<lambda>v.
     kbind (kassert (sfi_linkcount (sv_i v) > 0)) (\<lambda>_.
     sv_upd sv (\<lambda>v. v\<lparr>sv_i := (sv_i v)\<lparr>sfi_linkcount := sfi_linkcount (sv_i v) - 1\<rparr>, sv_dirty := True\<rparr>)))"

definition sfs_creat :: "nat \<Rightarrow> byte list \<Rightarrow> bool \<Rightarrow> (sfs_fs, nat) op" where
  "sfs_creat sv name excl =
     kbind (sfs_dir_findname sv name) (\<lambda>r.
     case fst r of
       Some (ino, slot) \<Rightarrow>
         if excl then kfail EEXIST else sfs_loadvnode ino SFS_TYPE_INVAL
     | None \<Rightarrow>
         kbind (sfs_makeobj SFS_TYPE_FILE) (\<lambda>newguy.
         kbind (sv_get newguy) (\<lambda>nv.
         kbind (kattempt (sfs_dir_link sv name (sv_ino nv))) (\<lambda>result.
         case result of
           Inl e \<Rightarrow> kbind (vnode_decref newguy) (\<lambda>_. kfail e)
         | Inr _ \<Rightarrow> kbind (inc_link newguy) (\<lambda>_. kret newguy)))))"

definition sfs_link :: "nat \<Rightarrow> byte list \<Rightarrow> nat \<Rightarrow> (sfs_fs, unit) op" where
  "sfs_link dir name file =
     kbind (sv_get file) (\<lambda>f.
     kbind (sfs_dir_link dir name (sv_ino f)) (\<lambda>_.
     inc_link file))"

definition sfs_remove :: "nat \<Rightarrow> byte list \<Rightarrow> (sfs_fs, unit) op" where
  "sfs_remove dir name =
     kbind (sfs_lookonce dir name) (\<lambda>r.
     let victim = fst r; slot = snd r in
     kbind (kattempt (kbind (sfs_dir_unlink dir slot) (\<lambda>_. dec_link victim))) (\<lambda>result.
     kbind (vnode_decref victim) (\<lambda>_.
     kresult result)))"

text \<open>The code after the label \<open>puke_harder\<close>; the decrement there has no check.\<close>

definition rename_undo :: "nat \<Rightarrow> nat \<Rightarrow> nat \<Rightarrow> (sfs_fs, unit) op" where
  "rename_undo sv g1 slot2 =
     kbind (kattempt (sfs_dir_unlink sv slot2)) (\<lambda>result2.
     case result2 of
       Inl e \<Rightarrow> kpanic
     | Inr _ \<Rightarrow> sv_upd g1 (\<lambda>v. v\<lparr>sv_i := (sv_i v)\<lparr>sfi_linkcount := (sfi_linkcount (sv_i v) + 65535) mod 65536\<rparr>\<rparr>))"

definition sfs_rename :: "nat \<Rightarrow> byte list \<Rightarrow> nat \<Rightarrow> byte list \<Rightarrow> (sfs_fs, unit) op" where
  "sfs_rename d1 n1 d2 n2 =
     kbind (kassert (d1 = d2)) (\<lambda>_.
     kbind (sv_get d1) (\<lambda>v.
     kbind (kassert (sv_ino v = SFS_ROOT_LOCATION)) (\<lambda>_.
     kbind (sfs_lookonce d1 n1) (\<lambda>r.
     let g1 = fst r; slot1 = snd r in
     kbind (sv_get g1) (\<lambda>g.
     kbind (kassert (sfi_type (sv_i g) = SFS_TYPE_FILE)) (\<lambda>_.
     kbind (kattempt (sfs_dir_link d1 n2 (sv_ino g))) (\<lambda>result.
     case result of
       Inl e \<Rightarrow> kbind (vnode_decref g1) (\<lambda>_. kfail e)
     | Inr slot2 \<Rightarrow>
         kbind (inc_link g1) (\<lambda>_.
         kbind (kattempt (sfs_dir_unlink d1 slot1)) (\<lambda>result.
         case result of
           Inl e \<Rightarrow>
             kbind (rename_undo d1 g1 slot2) (\<lambda>_.
             kbind (vnode_decref g1) (\<lambda>_. kfail e))
         | Inr _ \<Rightarrow>
             kbind (dec_link g1) (\<lambda>_.
             vnode_decref g1))))))))))"

text \<open>The value of \<open>sfs_lookparent\<close> is the directory and the string copied to \<open>buf\<close>.\<close>

definition sfs_lookparent :: "nat \<Rightarrow> byte list \<Rightarrow> nat \<Rightarrow> (sfs_fs, nat \<times> byte list) op" where
  "sfs_lookparent sv path buflen =
     kbind (sv_get sv) (\<lambda>v.
     if sfi_type (sv_i v) \<noteq> SFS_TYPE_DIR then kfail ENOTDIR
     else if length path + 1 > buflen then kfail ENAMETOOLONG
     else kbind (vnode_incref sv) (\<lambda>_. kret (sv, path)))"

definition sfs_lookup :: "nat \<Rightarrow> byte list \<Rightarrow> (sfs_fs, nat) op" where
  "sfs_lookup sv path =
     kbind (sv_get sv) (\<lambda>v.
     if sfi_type (sv_i v) \<noteq> SFS_TYPE_DIR then kfail ENOTDIR
     else kbind (sfs_lookonce sv path) (\<lambda>r. kret (fst r)))"

section \<open>The dispatch tables\<close>

definition sfs_notdir :: "(sfs_fs, 'a) op" where "sfs_notdir = kfail ENOTDIR"
definition sfs_isdir :: "(sfs_fs, 'a) op" where "sfs_isdir = kfail EISDIR"
definition sfs_unimp :: "(sfs_fs, 'a) op" where "sfs_unimp = kfail EUNIMP"

definition VOP_OPEN :: "nat \<Rightarrow> nat \<Rightarrow> (sfs_fs, unit) op" where
  "VOP_OPEN v flags = vop v False (sfs_open v flags) (sfs_opendir v flags)"

definition VOP_READ :: "nat \<Rightarrow> (fsio, unit) op" where
  "VOP_READ v = (\<lambda>s. case vop v False (kret True) (kret False) (fst s) of
      Done f t \<Rightarrow> (if f then sfs_read v (t, snd s) else on_fs sfs_isdir (t, snd s))
    | Fail e t \<Rightarrow> Fail e (t, snd s) | Panic \<Rightarrow> Panic)"

definition VOP_WRITE :: "nat \<Rightarrow> (fsio, unit) op" where
  "VOP_WRITE v = (\<lambda>s. case vop v False (kret True) (kret False) (fst s) of
      Done f t \<Rightarrow> (if f then sfs_write v (t, snd s) else on_fs sfs_isdir (t, snd s))
    | Fail e t \<Rightarrow> Fail e (t, snd s) | Panic \<Rightarrow> Panic)"

definition VOP_READLINK :: "nat \<Rightarrow> (sfs_fs, unit) op" where
  "VOP_READLINK v = vop v False sfs_notdir sfs_isdir"

definition VOP_GETDIRENTRY :: "nat \<Rightarrow> (sfs_fs, unit) op" where
  "VOP_GETDIRENTRY v = vop v False sfs_notdir sfs_unimp"

definition VOP_IOCTL :: "nat \<Rightarrow> int \<Rightarrow> nat \<Rightarrow> (sfs_fs, unit) op" where
  "VOP_IOCTL v code data = vop v False (sfs_ioctl v code data) (sfs_ioctl v code data)"

definition VOP_STAT :: "nat \<Rightarrow> (sfs_fs, stat) op" where
  "VOP_STAT v = vop v False (sfs_stat v) (sfs_stat v)"

definition VOP_TRYSEEK :: "nat \<Rightarrow> int \<Rightarrow> (sfs_fs, unit) op" where
  "VOP_TRYSEEK v pos = vop v False (sfs_tryseek v pos) sfs_unimp"

definition VOP_MMAP :: "nat \<Rightarrow> (sfs_fs, unit) op" where
  "VOP_MMAP v = vop v False (sfs_mmap v) sfs_isdir"

definition VOP_NAMEFILE :: "nat \<Rightarrow> (sfs_fs, unit) op" where
  "VOP_NAMEFILE v = vop v False sfs_notdir (sfs_namefile v)"

definition VOP_CREAT :: "nat \<Rightarrow> byte list \<Rightarrow> bool \<Rightarrow> (sfs_fs, nat) op" where
  "VOP_CREAT v name excl = vop v False sfs_notdir (sfs_creat v name excl)"

definition VOP_SYMLINK :: "nat \<Rightarrow> (sfs_fs, unit) op" where
  "VOP_SYMLINK v = vop v False sfs_notdir sfs_unimp"

definition VOP_MKDIR :: "nat \<Rightarrow> (sfs_fs, unit) op" where
  "VOP_MKDIR v = vop v False sfs_notdir sfs_unimp"

definition VOP_LINK :: "nat \<Rightarrow> byte list \<Rightarrow> nat \<Rightarrow> (sfs_fs, unit) op" where
  "VOP_LINK v name f = vop v False sfs_notdir (sfs_link v name f)"

definition VOP_REMOVE :: "nat \<Rightarrow> byte list \<Rightarrow> (sfs_fs, unit) op" where
  "VOP_REMOVE v name = vop v False sfs_notdir (sfs_remove v name)"

definition VOP_RMDIR :: "nat \<Rightarrow> (sfs_fs, unit) op" where
  "VOP_RMDIR v = vop v False sfs_notdir sfs_unimp"

definition VOP_RENAME :: "nat \<Rightarrow> byte list \<Rightarrow> nat \<Rightarrow> byte list \<Rightarrow> (sfs_fs, unit) op" where
  "VOP_RENAME v n1 v2 n2 = vop v False sfs_notdir (sfs_rename v n1 v2 n2)"

definition VOP_LOOKUP :: "nat \<Rightarrow> byte list \<Rightarrow> (sfs_fs, nat) op" where
  "VOP_LOOKUP v name = vop v False sfs_notdir (sfs_lookup v name)"

definition VOP_LOOKPARENT :: "nat \<Rightarrow> byte list \<Rightarrow> nat \<Rightarrow> (sfs_fs, nat \<times> byte list) op" where
  "VOP_LOOKPARENT v name len = vop v False sfs_notdir (sfs_lookparent v name len)"

end
