(* ===== verification/SfsVol.thy ===== *)
theory SfsVol
  imports SfsVnode
begin

text \<open>
  The volume invariant of sfs: what a consistent file system is, on the disk and in memory together,
  and that loading, writing, truncating and reclaiming inodes keep it.

  The invariant speaks about a map \<open>N\<close> from inode numbers to inodes, the current value of every
  inode in use: that of its vnode when it is loaded, that of its block otherwise.
\<close>

section \<open>The invariant\<close>

text \<open>The blocks that belong to no file: the superblock and the free map.\<close>

definition reserved :: "sfs_fs \<Rightarrow> nat set" where
  "reserved s = insert 0 {SFS_MAP_LOCATION..<SFS_MAP_LOCATION + SFS_BITBLOCKS (nblocks s)}"

text \<open>The vnode table lists exactly the vnodes in memory; no inode has two of them.\<close>

definition vtab_wf :: "sfs_fs \<Rightarrow> bool" where
  "vtab_wf s \<longleftrightarrow> array_wf (sfs_vnodes s) \<and> distinct (array_list (sfs_vnodes s))
     \<and> set (array_list (sfs_vnodes s)) = dom (sv_heap s)
     \<and> (\<forall>p v. sv_heap s p = Some v \<longrightarrow> 0 < vn_refcount v \<and> 0 \<le> vn_opencount v
          \<and> vn_ops v = sfs_ops_of (sfi_type (sv_i v)))
     \<and> (\<forall>p v q w. sv_heap s p = Some v \<longrightarrow> sv_heap s q = Some w \<longrightarrow> sv_ino v = sv_ino w \<longrightarrow> p = q)"

definition inode_block :: "(nat \<rightharpoonup> sfs_inode) \<Rightarrow> sfs_fs \<Rightarrow> bool" where
  "inode_block N s \<longleftrightarrow> (\<forall>ino i. N ino = Some i \<longrightarrow> dec_inode (disk s ! ino) = i
     \<or> (\<exists>p v. sv_heap s p = Some v \<and> sv_ino v = ino \<and> sv_dirty v))"

definition blocks_of :: "(nat \<rightharpoonup> sfs_inode) \<Rightarrow> byte list list \<Rightarrow> nat set" where
  "blocks_of N d = {b. \<exists>ino i. N ino = Some i \<and> b \<in> owned i d}"

text \<open>
  \<open>vol_wf L\<close>: every block in use is an inode, a block of exactly one inode, reserved, or one of the
  leaked blocks \<open>L\<close> that nothing refers to (none on a consistent volume); inodes are well-formed and of a known type; the vnodes hold the current values of their inodes, and an inode
  whose block is out of date has a dirty vnode.
\<close>

definition vol_wf :: "nat set \<Rightarrow> (nat \<rightharpoonup> sfs_inode) \<Rightarrow> sfs_fs \<Rightarrow> bool" where
  "vol_wf L N s \<longleftrightarrow> fs_wf s \<and> vtab_wf s
     \<and> dom N \<inter> reserved s = {}
     \<and> used s \<inter> {..<nblocks s} = dom N \<union> blocks_of N (disk s) \<union> reserved s \<union> L
     \<and> L \<inter> (dom N \<union> blocks_of N (disk s) \<union> reserved s) = {}
     \<and> (\<forall>ino i. N ino = Some i \<longrightarrow> file_wf i s \<and> owned i (disk s) \<inter> (dom N \<union> reserved s) = {}
          \<and> sfs_ops_of (sfi_type i) \<noteq> None)
     \<and> (\<forall>a i b j. N a = Some i \<longrightarrow> N b = Some j \<longrightarrow> a \<noteq> b \<longrightarrow> owned i (disk s) \<inter> owned j (disk s) = {})
     \<and> (\<forall>p v. sv_heap s p = Some v \<longrightarrow> N (sv_ino v) = Some (sv_i v))
     \<and> inode_block N s"

lemma vol_wfD:
  assumes "vol_wf L N s"
  shows "fs_wf s" "vtab_wf s"
    "N ino = Some i \<Longrightarrow> file_wf i s"
    "N ino = Some i \<Longrightarrow> owned i (disk s) \<inter> (dom N \<union> reserved s) = {}"
    "N ino = Some i \<Longrightarrow> sfs_ops_of (sfi_type i) \<noteq> None"
    "N ino = Some i \<Longrightarrow> ino \<in> used s \<and> ino < nblocks s \<and> ino \<noteq> 0"
    "sv_heap s p = Some v \<Longrightarrow> N (sv_ino v) = Some (sv_i v)"
    "reserved s \<subseteq> used s"
proof -
  note w = assms [unfolded vol_wf_def]
  show "fs_wf s" "vtab_wf s" using w by simp_all
  show "N ino = Some i \<Longrightarrow> file_wf i s" "N ino = Some i \<Longrightarrow> owned i (disk s) \<inter> (dom N \<union> reserved s) = {}"
    "N ino = Some i \<Longrightarrow> sfs_ops_of (sfi_type i) \<noteq> None" using w by simp_all
  show "sv_heap s p = Some v \<Longrightarrow> N (sv_ino v) = Some (sv_i v)" using w by simp
  have u: "used s \<inter> {..<nblocks s} = dom N \<union> blocks_of N (disk s) \<union> reserved s \<union> L" using w by simp
  then show "reserved s \<subseteq> used s" by blast
  assume "N ino = Some i"
  then have d: "ino \<in> dom N" by blast
  then have "ino \<in> used s \<inter> {..<nblocks s}" unfolding u by blast
  moreover have "dom N \<inter> reserved s = {}" using w by simp
  then have "ino \<notin> reserved s" using d by blast
  ultimately show "ino \<in> used s \<and> ino < nblocks s \<and> ino \<noteq> 0" by (auto simp: reserved_def)
qed

lemma vol_disjoint:
  "vol_wf L N s \<Longrightarrow> N a = Some i \<Longrightarrow> N b = Some j \<Longrightarrow> a \<noteq> b \<Longrightarrow> owned i (disk s) \<inter> owned j (disk s) = {}"
  unfolding vol_wf_def by blast

lemma vol_used: "vol_wf L N s \<Longrightarrow> used s \<inter> {..<nblocks s} = dom N \<union> blocks_of N (disk s) \<union> reserved s \<union> L"
  by (simp add: vol_wf_def)

lemma reserved_same: "fs_same s s' \<Longrightarrow> reserved s' = reserved s"
  by (simp add: reserved_def fs_same_nblocks)

section \<open>Files that a step does not touch\<close>

lemma fmap_untouched:
  assumes "sfi_indirect i = 0 \<or> d' ! sfi_indirect i = d ! sfi_indirect i"
  shows "fmap i d' = fmap i d"
  using assms by (auto simp: fmap_def id_entries_def fun_eq_iff)

lemma owned_untouched:
  assumes "\<forall>b \<in> owned i d. d' ! b = d ! b"
  shows "fmap i d' = fmap i d" "owned i d' = owned i d" "fblock i d' = fblock i d"
proof -
  have "sfi_indirect i = 0 \<or> d' ! sfi_indirect i = d ! sfi_indirect i" using assms by (auto simp: owned_def)
  then show m: "fmap i d' = fmap i d" by (rule fmap_untouched)
  show "owned i d' = owned i d" by (simp add: owned_def m)
  have "d' ! fmap i d fb = d ! fmap i d fb" if "fmap i d fb \<noteq> 0" for fb
  proof -
    have "fb < 143" using that by (auto simp: fmap_def split: if_splits)
    then show ?thesis using assms that by (auto simp: owned_def)
  qed
  then show "fblock i d' = fblock i d" by (simp add: fblock_def m fun_eq_iff)
qed

lemma file_wf_untouched:
  assumes "file_wf i s" and "\<forall>b \<in> owned i (disk s). disk s' ! b = disk s ! b"
    and "owned i (disk s) \<subseteq> used s'" and "nblocks s' = nblocks s"
  shows "file_wf i s'"
  using assms(1,3,4) unfolding file_wf_def owned_untouched [OF assms(2)] by auto

lemma blocks_of_upd:
  assumes "\<And>a i. N a = Some i \<Longrightarrow> a \<noteq> ino \<Longrightarrow> owned i d' = owned i d"
  shows "blocks_of (N(ino \<mapsto> x)) d' = owned x d' \<union> {b. \<exists>a i. a \<noteq> ino \<and> N a = Some i \<and> b \<in> owned i d}"
  using assms by (auto simp: blocks_of_def)

lemma blocks_of_split:
  assumes "N ino = Some x"
  shows "blocks_of N d = owned x d \<union> {b. \<exists>a i. a \<noteq> ino \<and> N a = Some i \<and> b \<in> owned i d}"
  using assms blocks_of_upd [of N ino d d x] by (simp add: fun_upd_idem)

text \<open>
  A step on the file with inode number \<open>a\<close>: its inode changes from \<open>i\<close> to \<open>i'\<close>, it takes only free
  blocks, gives back only its own, and writes only to its own blocks and its inode's block.
\<close>

lemma vol_step:
  assumes wf: "vol_wf L N s" and a: "N a = Some i"
    and s': "fs_wf s'" "fs_same s s'" "vtab_wf s'" "file_wf i' s'" "sfs_ops_of (sfi_type i') \<noteq> None"
    and same: "\<And>b. b \<in> used s \<Longrightarrow> b \<notin> owned i (disk s) \<Longrightarrow> b \<noteq> a \<Longrightarrow> disk s' ! b = disk s ! b"
    and used: "used s' \<inter> {..<nblocks s'} = (used s \<inter> {..<nblocks s} - owned i (disk s)) \<union> owned i' (disk s')"
    and fresh: "owned i' (disk s') \<inter> used s \<subseteq> owned i (disk s)"
    and heap: "\<And>p v. sv_heap s' p = Some v \<Longrightarrow> (N(a \<mapsto> i')) (sv_ino v) = Some (sv_i v)"
    and blk: "inode_block (N(a \<mapsto> i')) s'"
  shows "vol_wf L (N(a \<mapsto> i')) s'"
proof -
  have nb: "nblocks s' = nblocks s" and res: "reserved s' = reserved s"
    using s'(2) by (simp_all add: fs_same_nblocks reserved_same)
  note w = vol_wfD [OF wf]
  have ai: "owned i (disk s) \<inter> (dom N \<union> reserved s) = {}" by (rule w(4) [OF a])
  have unt: "\<forall>b \<in> owned j (disk s). disk s' ! b = disk s ! b" if j: "N c = Some j" "c \<noteq> a" for c j
  proof
    fix b assume b: "b \<in> owned j (disk s)"
    have "b \<in> used s" using w(3) [OF j(1)] b by (auto simp: file_wf_def)
    moreover have "b \<notin> owned i (disk s)" using vol_disjoint [OF wf j(1) a j(2)] b by blast
    moreover have "b \<noteq> a" using w(4) [OF j(1)] b a by auto
    ultimately show "disk s' ! b = disk s ! b" by (rule same)
  qed
  have own: "owned j (disk s') = owned j (disk s)" if "N c = Some j" "c \<noteq> a" for c j
    by (rule owned_untouched(2) [OF unt [OF that]])
  have dj: "owned j (disk s) \<inter> owned i' (disk s') = {}" if j: "N c = Some j" "c \<noteq> a" for c j
  proof -
    have "owned j (disk s) \<subseteq> used s" using w(3) [OF j(1)] by (auto simp: file_wf_def)
    then show ?thesis using fresh vol_disjoint [OF wf j(1) a j(2)] by blast
  qed
  have dom: "dom (N(a \<mapsto> i')) = dom N" using a by auto
  have domused: "dom N \<union> reserved s \<subseteq> used s" using vol_used [OF wf] by blast
  have d': "owned i' (disk s') \<inter> (dom N \<union> reserved s) = {}" using fresh ai domused by blast
  let ?O = "{b. \<exists>c j. c \<noteq> a \<and> N c = Some j \<and> b \<in> owned j (disk s)}"
  have bN: "blocks_of N (disk s) = owned i (disk s) \<union> ?O" by (rule blocks_of_split) (rule a)
  have bN': "blocks_of (N(a \<mapsto> i')) (disk s') = owned i' (disk s') \<union> ?O"
    by (rule blocks_of_upd) (rule own)
  have Li: "L \<inter> (dom N \<union> blocks_of N (disk s) \<union> reserved s) = {}" using wf by (simp add: vol_wf_def)
  have Lu: "L \<subseteq> used s" using vol_used [OF wf] by blast
  have Oi: "?O \<inter> owned i (disk s) = {}" using vol_disjoint [OF wf _ a] by blast
  have u: "used s' \<inter> {..<nblocks s'} = dom (N(a \<mapsto> i')) \<union> blocks_of (N(a \<mapsto> i')) (disk s') \<union> reserved s' \<union> L"
    unfolding used vol_used [OF wf] bN bN' dom res using ai Oi Li [unfolded bN] by blast
  have Ld: "L \<inter> (dom (N(a \<mapsto> i')) \<union> blocks_of (N(a \<mapsto> i')) (disk s') \<union> reserved s') = {}"
    unfolding bN' dom res using Li [unfolded bN] fresh Lu by blast
  have fw: "file_wf j s'" if j: "N c = Some j" "c \<noteq> a" for c j
  proof (rule file_wf_untouched [OF w(3) [OF j(1)] unt [OF j] _ nb])
    have "owned j (disk s) \<subseteq> used s \<inter> {..<nblocks s}" using w(3) [OF j(1)] by (simp add: file_wf_def)
    then have "owned j (disk s) \<subseteq> used s' \<inter> {..<nblocks s'}"
      unfolding used using vol_disjoint [OF wf j(1) a j(2)] by blast
    then show "owned j (disk s) \<subseteq> used s'" by blast
  qed
  show ?thesis unfolding vol_wf_def
  proof (intro conjI allI impI)
    show "dom (N(a \<mapsto> i')) \<inter> reserved s' = {}" using wf unfolding dom res by (simp add: vol_wf_def)
    fix c j
    assume j: "(N(a \<mapsto> i')) c = Some j"
    show "file_wf j s'" "owned j (disk s') \<inter> (dom (N(a \<mapsto> i')) \<union> reserved s') = {}" "sfs_ops_of (sfi_type j) \<noteq> None"
      unfolding dom res using j s'(4,5) d' fw own w(4,5) by (cases "c = a"; simp)+
    fix e k
    assume k: "(N(a \<mapsto> i')) e = Some k" "c \<noteq> e"
    show "owned j (disk s') \<inter> owned k (disk s') = {}"
    proof (cases "c = a")
      case True
      then have e: "N e = Some k" "e \<noteq> a" "j = i'" using j k by auto
      show ?thesis using dj [OF e(1,2)] own [OF e(1,2)] e(3) by (simp add: Int_commute)
    next
      case c: False
      then have cj: "N c = Some j" using j by simp
      show ?thesis
      proof (cases "e = a")
        case True
        then have "k = i'" using k by simp
        then show ?thesis using dj [OF cj c] own [OF cj c] by simp
      next
        case False
        then have "N e = Some k" using k by simp
        then show ?thesis using own [OF cj c] own [OF _ False] vol_disjoint [OF wf cj _ k(2)] by simp
      qed
    qed
  qed (use s' u Ld heap blk in simp_all)
qed

lemma vtab_wf_upd:
  assumes "vtab_wf s" and "sv_heap s p = Some v" and "sfs_vnodes s' = sfs_vnodes s"
    and "sv_heap s' = (sv_heap s)(p \<mapsto> v')" and "0 < vn_refcount v'" and "0 \<le> vn_opencount v'"
    and "vn_ops v' = sfs_ops_of (sfi_type (sv_i v'))" and "sv_ino v' = sv_ino v"
  shows "vtab_wf s'"
proof -
  have "dom (sv_heap s') = dom (sv_heap s)" using assms(2,4) by auto
  then show ?thesis using assms unfolding vtab_wf_def by (auto split: if_splits)
qed

lemma vtab_vnode: "vtab_wf s \<Longrightarrow> sv_heap s p = Some v \<Longrightarrow> 0 < vn_refcount v \<and> 0 \<le> vn_opencount v
    \<and> vn_ops v = sfs_ops_of (sfi_type (sv_i v))"
  unfolding vtab_wf_def by blast

lemma vtab_inj: "vtab_wf s \<Longrightarrow> sv_heap s p = Some v \<Longrightarrow> sv_heap s q = Some w \<Longrightarrow> sv_ino v = sv_ino w \<Longrightarrow> p = q"
  unfolding vtab_wf_def by blast

text \<open>The values of the inodes after the vnode \<open>p\<close> has changed.\<close>

lemma heap_upd_inodes:
  assumes "vol_wf L N s" and "sv_heap s p = Some v" and "sv_heap s' = (sv_heap s)(p \<mapsto> v')" and "sv_ino v' = sv_ino v"
    and "sv_heap s' q = Some w"
  shows "(N(sv_ino v \<mapsto> sv_i v')) (sv_ino w) = Some (sv_i w)"
proof (cases "q = p")
  case True
  then show ?thesis using assms(3-5) by auto
next
  case False
  then have q: "sv_heap s q = Some w" using assms(3,5) by simp
  have "sv_ino w \<noteq> sv_ino v" using vtab_inj [OF vol_wfD(2) [OF assms(1)] q assms(2)] False by blast
  then show ?thesis using vol_wfD(7) [OF assms(1) q] by simp
qed

lemma inode_block_upd:
  assumes wf: "vol_wf L N s" and v: "sv_heap s p = Some v" and h: "sv_heap s' = (sv_heap s)(p \<mapsto> v')"
    and ino: "sv_ino v' = sv_ino v"
    and cur: "sv_dirty v' \<or> dec_inode (disk s' ! sv_ino v) = sv_i v'"
    and other: "\<And>c j. N c = Some j \<Longrightarrow> c \<noteq> sv_ino v \<Longrightarrow> disk s' ! c = disk s ! c"
  shows "inode_block (N(sv_ino v \<mapsto> sv_i v')) s'"
  unfolding inode_block_def
proof (intro allI impI)
  fix c j
  assume j: "(N(sv_ino v \<mapsto> sv_i v')) c = Some j"
  show "dec_inode (disk s' ! c) = j \<or> (\<exists>p v. sv_heap s' p = Some v \<and> sv_ino v = c \<and> sv_dirty v)"
  proof (cases "c = sv_ino v")
    case True
    have "sv_heap s' p = Some v'" using h by simp
    then show ?thesis using j True cur ino by auto
  next
    case False
    then have n: "N c = Some j" using j by simp
    have "dec_inode (disk s ! c) = j \<or> (\<exists>p v. sv_heap s p = Some v \<and> sv_ino v = c \<and> sv_dirty v)"
      using wf n unfolding vol_wf_def inode_block_def by blast
    then show ?thesis
    proof
      assume "\<exists>q w. sv_heap s q = Some w \<and> sv_ino w = c \<and> sv_dirty w"
      then obtain q w where q: "sv_heap s q = Some w" "sv_ino w = c" "sv_dirty w" by blast
      have "q \<noteq> p" using q False v by auto
      then have "sv_heap s' q = Some w" using q h by simp
      then show ?thesis using q by blast
    qed (use other [OF n False] in simp)
  qed
qed

text \<open>Input and output on a file, and truncation.\<close>

lemma vol_clean:
  assumes wf: "vol_wf L N s" and v: "sv_heap s p = Some v"
  shows "sv_dirty v \<or> dec_inode (disk s ! sv_ino v) = sv_i v"
proof -
  have "dec_inode (disk s ! sv_ino v) = sv_i v \<or> (\<exists>q w. sv_heap s q = Some w \<and> sv_ino w = sv_ino v \<and> sv_dirty w)"
    using wf vol_wfD(7) [OF wf v] unfolding vol_wf_def inode_block_def by blast
  then show ?thesis using vtab_inj [OF vol_wfD(2) [OF wf] v] v by fastforce
qed

lemma vol_file_step:
  assumes wf: "vol_wf L N s" and st: "file_step p v v' s s'"
  shows "vol_wf L (N(sv_ino v \<mapsto> sv_i v')) s'"
proof -
  note d = st [unfolded file_step_def]
  have v: "sv_heap s p = Some v" and h: "sv_heap s' = (sv_heap s)(p \<mapsto> v')" and vs: "vnode_same v v'"
    and fs: "fs_same s s'" "fs_wf s'" and fw: "file_wf (sv_i v') s'" using d by simp_all
  have ino: "sv_ino v' = sv_ino v" and ty: "sfi_type (sv_i v') = sfi_type (sv_i v)"
    using vs by (simp_all add: vnode_same_def)
  have N: "N (sv_ino v) = Some (sv_i v)" by (rule vol_wfD(7) [OF wf v])
  note nino = vol_wfD(6) [OF wf N] and nown = vol_wfD(4) [OF wf N]
  have same: "disk s' ! b = disk s ! b" if "b \<in> used s" "b \<notin> owned (sv_i v) (disk s)" for b
    using d that by blast
  have inos: "disk s' ! c = disk s ! c" if "N c = Some j" for c j
  proof (rule same)
    show "c \<in> used s" using vol_wfD(6) [OF wf that] by simp
    show "c \<notin> owned (sv_i v) (disk s)" using nown that by blast
  qed
  have "owned (sv_i v') (disk s') \<subseteq> {..<nblocks s'}" using fw by (simp add: file_wf_def)
  moreover have "nblocks s' = nblocks s" by (rule fs_same_nblocks [OF fs(1)])
  ultimately have u: "used s' \<inter> {..<nblocks s'} = (used s \<inter> {..<nblocks s} - owned (sv_i v) (disk s)) \<union> owned (sv_i v') (disk s')"
    using d fw unfolding file_wf_def by auto
  have rc: "0 < vn_refcount v" "0 \<le> vn_opencount v" "vn_ops v = sfs_ops_of (sfi_type (sv_i v))"
    using vtab_vnode [OF vol_wfD(2) [OF wf] v] by simp_all
  show ?thesis
  proof (rule vol_step [OF wf N fs(2,1) _ fw])
    show "vtab_wf s'"
      by (rule vtab_wf_upd [OF vol_wfD(2) [OF wf] v _ h])
        (use rc fs(1) vs in \<open>simp_all add: fs_same_def vnode_same_def\<close>)
    show "sfs_ops_of (sfi_type (sv_i v')) \<noteq> None" using vol_wfD(5) [OF wf N] by (simp add: ty)
    show "(N(sv_ino v \<mapsto> sv_i v')) (sv_ino w) = Some (sv_i w)" if "sv_heap s' q = Some w" for q w
      by (rule heap_upd_inodes [OF wf v h ino that])
    show "inode_block (N(sv_ino v \<mapsto> sv_i v')) s'"
    proof (rule inode_block_upd [OF wf v h ino])
      show "sv_dirty v' \<or> dec_inode (disk s' ! sv_ino v) = sv_i v'"
        using vs inos [OF N] vol_clean [OF wf v] by (auto simp: vnode_same_def)
      show "disk s' ! c = disk s ! c" if "N c = Some j" "c \<noteq> sv_ino v" for c j by (rule inos [OF that(1)])
    qed
  qed (use same u d in auto)
qed

lemma vol_file_shrink:
  assumes wf: "vol_wf L N s" and st: "file_shrink p v v' s s'"
  shows "vol_wf L (N(sv_ino v \<mapsto> sv_i v')) s'"
proof -
  note d = st [unfolded file_shrink_def]
  have v: "sv_heap s p = Some v" and h: "sv_heap s' = (sv_heap s)(p \<mapsto> v')" and vs: "vnode_same v v'"
    and fs: "fs_same s s'" "fs_wf s'" and fw: "file_wf (sv_i v') s'" using d by simp_all
  have ino: "sv_ino v' = sv_ino v" and ty: "sfi_type (sv_i v') = sfi_type (sv_i v)"
    using vs by (simp_all add: vnode_same_def)
  have N: "N (sv_ino v) = Some (sv_i v)" by (rule vol_wfD(7) [OF wf v])
  note nown = vol_wfD(4) [OF wf N]
  have same: "disk s' ! b = disk s ! b" if "b \<notin> owned (sv_i v) (disk s)" for b
  proof -
    have "b \<noteq> sfi_indirect (sv_i v) \<or> sfi_indirect (sv_i v) = 0" using that by (auto simp: owned_def)
    then show ?thesis using d by blast
  qed
  have inos: "disk s' ! c = disk s ! c" if "N c = Some j" for c j
    by (rule same) (use nown that in blast)
  have o: "owned (sv_i v') (disk s') \<subseteq> {..<nblocks s}" "owned (sv_i v) (disk s) \<subseteq> used s"
    "owned (sv_i v') (disk s') \<subseteq> owned (sv_i v) (disk s)" "nblocks s' = nblocks s"
    using fw vol_wfD(3) [OF wf N] d fs_same_nblocks [OF fs(1)] by (auto simp: file_wf_def)
  have us: "used s' = used s - (owned (sv_i v) (disk s) - owned (sv_i v') (disk s'))" using d by simp
  have u: "used s' \<inter> {..<nblocks s'} = (used s \<inter> {..<nblocks s} - owned (sv_i v) (disk s)) \<union> owned (sv_i v') (disk s')"
    unfolding us o(4) using o(1-3) by blast
  have rc: "0 < vn_refcount v" "0 \<le> vn_opencount v" "vn_ops v = sfs_ops_of (sfi_type (sv_i v))"
    using vtab_vnode [OF vol_wfD(2) [OF wf] v] by simp_all
  show ?thesis
  proof (rule vol_step [OF wf N fs(2,1) _ fw])
    show "vtab_wf s'"
      by (rule vtab_wf_upd [OF vol_wfD(2) [OF wf] v _ h])
        (use rc fs(1) vs in \<open>simp_all add: fs_same_def vnode_same_def\<close>)
    show "sfs_ops_of (sfi_type (sv_i v')) \<noteq> None" using vol_wfD(5) [OF wf N] by (simp add: ty)
    show "(N(sv_ino v \<mapsto> sv_i v')) (sv_ino w) = Some (sv_i w)" if "sv_heap s' q = Some w" for q w
      by (rule heap_upd_inodes [OF wf v h ino that])
    show "inode_block (N(sv_ino v \<mapsto> sv_i v')) s'"
    proof (rule inode_block_upd [OF wf v h ino])
      show "sv_dirty v' \<or> dec_inode (disk s' ! sv_ino v) = sv_i v'"
        using vs inos [OF N] vol_clean [OF wf v] by (auto simp: vnode_same_def)
      show "disk s' ! c = disk s ! c" if "N c = Some j" "c \<noteq> sv_ino v" for c j by (rule inos [OF that(1)])
    qed
  qed (use same u o in auto)
qed

section \<open>Loading an inode\<close>

lemma fold_max_ge: "(a :: nat) \<le> fold max xs a \<and> (\<forall>x \<in> set xs. x \<le> fold max xs a)"
proof (induction xs arbitrary: a)
  case (Cons y xs)
  have "max y a \<le> fold max xs (max y a)" "\<forall>x \<in> set xs. x \<le> fold max xs (max y a)" using Cons by blast+
  then show ?case by auto
qed simp

lemma fresh_addr_None: "vtab_wf s \<Longrightarrow> sv_heap s (fresh_addr s) = None"
proof (rule ccontr)
  assume wf: "vtab_wf s" and "sv_heap s (fresh_addr s) \<noteq> None"
  then have "fresh_addr s \<in> set (array_list (sfs_vnodes s))" by (auto simp: vtab_wf_def)
  then have "fresh_addr s \<le> fold max (array_list (sfs_vnodes s)) 0" using fold_max_ge by blast
  then show False by (simp add: fresh_addr_def)
qed

lemma fs_wf_simps [simp]:
  "fs_wf (s\<lparr>kmem := k\<rparr>) = fs_wf s" "fs_wf (s\<lparr>sfs_vnodes := a\<rparr>) = fs_wf s"
  by (simp_all add: fs_wf_def)

text \<open>A step that changes only what is in memory.\<close>

definition mem_step :: "sfs_fs \<Rightarrow> sfs_fs \<Rightarrow> bool" where
  "mem_step s t \<longleftrightarrow> fs_wf t \<and> disk t = disk s \<and> used t = used s \<and> sfs_super t = sfs_super s
     \<and> sfs_superdirty t = sfs_superdirty s \<and> nbits (sfs_freemap t) = nbits (sfs_freemap s)"

lemma mem_step_refl: "fs_wf s \<Longrightarrow> mem_step s s"
  by (simp add: mem_step_def)

lemma mem_step_trans: "mem_step s t \<Longrightarrow> mem_step t r \<Longrightarrow> mem_step s r"
  by (simp add: mem_step_def)

lemma mem_step_simps [simp]:
  "mem_step s (t\<lparr>kmem := k\<rparr>) = mem_step s t" "mem_step s (t\<lparr>sfs_vnodes := a\<rparr>) = mem_step s t"
  "mem_step s (t\<lparr>sv_heap := h\<rparr>) = mem_step s t"
  by (simp_all add: mem_step_def)

lemma mem_stepD:
  assumes "mem_step s t"
  shows "fs_wf t" "disk t = disk s" "used t = used s" "nblocks t = nblocks s" "reserved t = reserved s"
  using assms by (simp_all add: mem_step_def nblocks_def reserved_def)

lemma vol_wf_mem:
  assumes "vol_wf L N s" and "mem_step s t" and "sv_heap t = sv_heap s" and "sfs_vnodes t = sfs_vnodes s"
  shows "vol_wf L N t"
proof -
  note m = mem_stepD [OF assms(2)]
  have e: "file_wf i t = file_wf i s" "vtab_wf t = vtab_wf s" "inode_block N t = inode_block N s" for i
    by (simp_all add: file_wf_def vtab_wf_def inode_block_def m assms(3,4))
  show ?thesis using assms(1) unfolding vol_wf_def e m(2-5) assms(3)
    by (elim conjE, intro conjI) (assumption | rule m(1))+
qed

lemma wp_kmalloc_ok:
  assumes q: "\<And>ok k. ok \<or> False \<in> set (kmem s) \<Longrightarrow> set k \<subseteq> set (kmem s) \<Longrightarrow> Q ok (s\<lparr>kmem := k\<rparr>)"
  shows "wp kmalloc_ok Q R s"
proof (cases "kmem s")
  case Nil
  then have e: "s\<lparr>kmem := []\<rparr> = s" by simp
  show ?thesis using q [of True "[]", unfolded e] by (simp add: wp_def kmalloc_ok_def Nil)
next
  case (Cons x xs)
  then show ?thesis using q [of x xs] by (auto simp: wp_def kmalloc_ok_def)
qed

lemma load_search_wp:
  assumes wf: "vol_wf L N s" and "k + n = length (array_list (sfs_vnodes s))"
  shows "wp (load_search ino [k..<k + n])
    (\<lambda>r t. t = s \<and> (case r of
        None \<Rightarrow> \<forall>j. k \<le> j \<and> j < k + n \<longrightarrow> (\<forall>w. sv_heap s (array_list (sfs_vnodes s) ! j) = Some w \<longrightarrow> sv_ino w \<noteq> ino)
      | Some p \<Rightarrow> \<exists>v. sv_heap s p = Some v \<and> sv_ino v = ino))
    (\<lambda>_ _. False) s"
  using assms(2)
proof (induction n arbitrary: k)
  case 0
  then show ?case by (auto simp: wps)
next
  case (Suc n)
  let ?xs = "array_list (sfs_vnodes s)"
  have up: "[k..<k + Suc n] = k # [Suc k..<Suc k + n]" by (simp add: upt_conv_Cons)
  have vt: "vtab_wf s" by (rule vol_wfD(2) [OF wf])
  have aw: "array_wf (sfs_vnodes s)" using vt by (simp add: vtab_wf_def)
  have k: "int k < a_num (sfs_vnodes s)" using array_length [OF aw] Suc.prems by simp
  have "?xs ! k \<in> dom (sv_heap s)"
  proof -
    have "?xs ! k \<in> set ?xs" using Suc.prems by simp
    then show ?thesis using vt unfolding vtab_wf_def by blast
  qed
  then obtain v where v: "sv_heap s (?xs ! k) = Some v" by blast
  have u: "sv_ino v \<in> used s" "sv_ino v < nblocks s" using vol_wfD(6,7) [OF wf] v by blast+
  have bu: "wp (sfs_bused (sv_ino v)) Q R s = Q True s" for Q R
    using sfs_bused_eq [of s "sv_ino v"] u vol_wfD(1) [OF wf] by (simp add: wp_def fs_wf_def)
  have g: "wp (on_vnodes (array_getguy (int k))) Q R s = Q (Some (?xs ! k)) s" for Q R
    unfolding on_vnodes_def wp_kzoom using array_getguy_wp [OF aw, of "int k"] k by simp
  show ?case
  proof (cases "sv_ino v = ino")
    case True
    then show ?thesis unfolding up load_search.simps wp_kbind g option.case wp_sv_get [OF v] bu
      using v by (auto simp: wps)
  next
    case False
    have "wp (load_search ino [Suc k..<Suc k + n])
      (\<lambda>r t. t = s \<and> (case r of
        None \<Rightarrow> \<forall>j. k \<le> j \<and> j < k + Suc n \<longrightarrow> (\<forall>w. sv_heap s (?xs ! j) = Some w \<longrightarrow> sv_ino w \<noteq> ino)
      | Some p \<Rightarrow> \<exists>v. sv_heap s p = Some v \<and> sv_ino v = ino)) (\<lambda>_ _. False) s"
    proof (rule wp_mono [OF Suc.IH])
      show "Suc k + n = length ?xs" using Suc.prems by simp
      fix r t
      assume r: "t = s \<and> (case r of
        None \<Rightarrow> \<forall>j. Suc k \<le> j \<and> j < Suc k + n \<longrightarrow> (\<forall>w. sv_heap s (?xs ! j) = Some w \<longrightarrow> sv_ino w \<noteq> ino)
      | Some p \<Rightarrow> \<exists>v. sv_heap s p = Some v \<and> sv_ino v = ino)"
      have "\<forall>w. sv_heap s (?xs ! j) = Some w \<longrightarrow> sv_ino w \<noteq> ino" if "r = None" "k \<le> j" "j < k + Suc n" for j
      proof (cases "j = k")
        case True
        then show ?thesis using v False by simp
      next
        case ne: False
        then have "Suc k \<le> j \<and> j < Suc k + n" using that(2,3) by simp
        then show ?thesis using r that(1) by simp
      qed
      then show "t = s \<and> (case r of
        None \<Rightarrow> \<forall>j. k \<le> j \<and> j < k + Suc n \<longrightarrow> (\<forall>w. sv_heap s (?xs ! j) = Some w \<longrightarrow> sv_ino w \<noteq> ino)
      | Some p \<Rightarrow> \<exists>v. sv_heap s p = Some v \<and> sv_ino v = ino)"
        using r by (cases r) auto
    qed simp
    then show ?thesis unfolding up load_search.simps wp_kbind g option.case wp_sv_get [OF v] bu using False by simp
  qed
qed

text \<open>A new vnode: what \<open>load_new\<close> does to the memory, whatever the inode.\<close>

definition new_vnode :: "sfs_ops \<Rightarrow> sfs_inode \<Rightarrow> nat \<Rightarrow> bool \<Rightarrow> sfs_vnode" where
  "new_vnode ops i ino dirty = \<lparr>vn_refcount = 1, vn_opencount = 0, vn_ops = Some ops, sv_i = i, sv_ino = ino, sv_dirty = dirty\<rparr>"

definition load_inode :: "nat \<Rightarrow> sfs_inode \<Rightarrow> sfs_inode" where
  "load_inode forcetype i = (if forcetype \<noteq> SFS_TYPE_INVAL then i\<lparr>sfi_type := forcetype\<rparr> else i)"

lemma wp_free_on_error:
  "wp (free_on_error p m) Q R s = wp m Q (\<lambda>e t. R e (t\<lparr>sv_heap := (sv_heap t)(p := None)\<rparr>)) s"
  unfolding free_on_error_def kfree_vnode_def by (simp add: wp_def kbind_def kattempt_def kret_def kfail_def kmodify_def split: outcome.splits)

text \<open>The outcome of \<open>load_new\<close> when the vnode is to be \<open>v\<close>.\<close>

definition load_done :: "sfs_fs \<Rightarrow> sfs_vnode \<Rightarrow> nat \<Rightarrow> sfs_fs \<Rightarrow> bool" where
  "load_done s v p t \<longleftrightarrow> mem_step s t \<and> sv_heap s p = None \<and> array_wf (sfs_vnodes t)
     \<and> array_list (sfs_vnodes t) = array_list (sfs_vnodes s) @ [p] \<and> sv_heap t = (sv_heap s)(p \<mapsto> v)"

definition load_fail :: "sfs_fs \<Rightarrow> errno \<Rightarrow> sfs_fs \<Rightarrow> bool" where
  "load_fail s e t \<longleftrightarrow> e = ENOMEM \<and> False \<in> set (kmem s)
     \<and> mem_step s t \<and> sv_heap t = sv_heap s \<and> sfs_vnodes t = sfs_vnodes s"

lemma load_table_wp:
  assumes aw: "array_wf (sfs_vnodes s)" and fresh: "sv_heap s p = None"
    and t: "mem_step s t" "sfs_vnodes t = sfs_vnodes s" "sv_heap t = (sv_heap s)(p \<mapsto> u)" "set (kmem t) \<subseteq> set (kmem s)"
    and v: "u\<lparr>vn_ops := Some ops, vn_refcount := 1, vn_opencount := 0, sv_ino := ino\<rparr> = v"
  shows "wp (load_table ino p ops) (load_done s v) (load_fail s) t"
proof -
  have erase: "(sv_heap s)(p := None) = sv_heap s" using fresh by (rule fun_upd_idem)
  have v1: "vn_refcount v = 1" "vn_opencount v = 0" using v by auto
  have add: "wp (kattempt (on_vnodes (array_add ok p))) (\<lambda>result. wp (case result of
       Inl e \<Rightarrow> kbind (vnode_kill p) (\<lambda>_. kbind (kfree_vnode p) (\<lambda>_. kfail e))
     | Inr _ \<Rightarrow> kret p) (load_done s v) (load_fail s)) (load_fail s) r"
    if r: "mem_step s r" "sfs_vnodes r = sfs_vnodes s" "sv_heap r = (sv_heap s)(p \<mapsto> v)" "ok \<or> False \<in> set (kmem s)" for ok r
    unfolding wp_kattempt on_vnodes_def wp_kzoom r(2)
  proof (rule wp_mono [OF array_add_wp [OF aw]])
    fix e a
    assume "\<not> ok \<and> e = ENOMEM \<and> a = sfs_vnodes s \<and> a_num (sfs_vnodes s) = a_max (sfs_vnodes s)"
    then have ae: "a = sfs_vnodes s" "e = ENOMEM" and mem: "False \<in> set (kmem s)" using r(4) by simp_all
    have hp: "sv_heap (r\<lparr>sfs_vnodes := sfs_vnodes s\<rparr>) p = Some v" using r(3) by simp
    show "wp (case Inl e of Inl e \<Rightarrow> kbind (vnode_kill p) (\<lambda>_. kbind (kfree_vnode p) (\<lambda>_. kfail e)) | Inr _ \<Rightarrow> kret p)
       (load_done s v) (load_fail s) (r\<lparr>sfs_vnodes := a\<rparr>)"
      unfolding ae sum.case wp_kbind vnode_kill_def wp_sv_get [OF hp] wp_sv_upd [OF hp] wp_kassert
          kfree_vnode_def wp_kmodify wp_kfail load_fail_def
      using r erase v1 mem by simp
  qed (use r fresh in \<open>simp add: wps load_done_def\<close>)
  have hp: "sv_heap t p = Some u" using t(3) by simp
  show ?thesis unfolding load_table_def wp_free_on_error vnode_init_def wp_kbind wp_sv_upd [OF hp]
  proof (rule wp_kmalloc_ok)
    fix ok1 k
    assume k: "ok1 \<or> False \<in> set (kmem (t\<lparr>sv_heap := (sv_heap t)(p \<mapsto> u\<lparr>vn_ops := Some ops, vn_refcount := 1, vn_opencount := 0\<rparr>)\<rparr>))"
      "set k \<subseteq> set (kmem (t\<lparr>sv_heap := (sv_heap t)(p \<mapsto> u\<lparr>vn_ops := Some ops, vn_refcount := 1, vn_opencount := 0\<rparr>)\<rparr>))"
    then have mem: "ok1 \<or> False \<in> set (kmem s)" "set k \<subseteq> set (kmem s)" using t(4) by auto
    let ?u = "u\<lparr>vn_ops := Some ops, vn_refcount := 1, vn_opencount := 0\<rparr>"
    let ?t = "t\<lparr>sv_heap := (sv_heap t)(p \<mapsto> ?u)\<rparr>"
    have hp': "sv_heap (?t\<lparr>kmem := k\<rparr>) p = Some ?u" by simp
    have ok: "wp (sv_upd p (\<lambda>v. v\<lparr>sv_ino := ino\<rparr>)) (\<lambda>_. wp kmalloc_ok (\<lambda>ok2.
         wp (kattempt (on_vnodes (array_add ok2 p))) (\<lambda>result. wp (case result of
           Inl e \<Rightarrow> kbind (vnode_kill p) (\<lambda>_. kbind (kfree_vnode p) (\<lambda>_. kfail e)) | Inr _ \<Rightarrow> kret p)
         (load_done s v) (load_fail s)) (load_fail s)) (load_fail s)) (load_fail s) (?t\<lparr>kmem := k\<rparr>)"
      unfolding wp_sv_upd [OF hp'] by (rule wp_kmalloc_ok, rule add) (use t v mem in auto)
    show "wp (if \<not> ok1 then kfail ENOMEM else kret ())
        (\<lambda>_. wp (sv_upd p (\<lambda>v. v\<lparr>sv_ino := ino\<rparr>)) (\<lambda>_. wp kmalloc_ok (\<lambda>ok2.
         wp (kattempt (on_vnodes (array_add ok2 p))) (\<lambda>result. wp (case result of
           Inl e \<Rightarrow> kbind (vnode_kill p) (\<lambda>_. kbind (kfree_vnode p) (\<lambda>_. kfail e)) | Inr _ \<Rightarrow> kret p)
         (load_done s v) (load_fail s)) (load_fail s)) (load_fail s)) (load_fail s))
        (\<lambda>e t. load_fail s e (t\<lparr>sv_heap := (sv_heap t)(p := None)\<rparr>)) (?t\<lparr>kmem := k\<rparr>)"
      using ok t mem(1) erase by (cases ok1) (simp_all add: wp_kfail wp_kret load_fail_def)
  qed
qed

lemma load_new_wp:
  assumes fw: "fs_wf s" and vt: "vtab_wf s" and ino: "ino \<in> used s" "ino < nblocks s"
    and ft: "ft = SFS_TYPE_INVAL \<or> sfi_type (dec_inode (disk s ! ino)) = SFS_TYPE_INVAL"
    and ops: "sfs_ops_of (sfi_type (load_inode ft (dec_inode (disk s ! ino)))) = Some ops"
  shows "wp (load_new ino ft)
    (load_done s (new_vnode ops (load_inode ft (dec_inode (disk s ! ino))) ino (ft \<noteq> SFS_TYPE_INVAL)))
    (load_fail s) s"
proof -
  let ?p = "fresh_addr s" and ?i = "load_inode ft (dec_inode (disk s ! ino))"
  have fresh: "sv_heap s ?p = None" by (rule fresh_addr_None [OF vt])
  have aw: "array_wf (sfs_vnodes s)" using vt by (simp add: vtab_wf_def)
  have ui: "sv_i (raw_vnode ft (dec_inode (disk s ! ino))) = ?i" by (simp add: raw_vnode_def load_inode_def)
  have uu: "(raw_vnode ft (dec_inode (disk s ! ino)))
      \<lparr>vn_ops := Some ops, vn_refcount := 1, vn_opencount := 0, sv_ino := ino\<rparr> = new_vnode ops ?i ino (ft \<noteq> SFS_TYPE_INVAL)"
    by (cases "ft = SFS_TYPE_INVAL") (simp_all add: raw_vnode_def load_inode_def new_vnode_def)
  show ?thesis unfolding load_new_def wp_kbind
  proof (rule wp_kmalloc_ok)
    fix ok k
    assume mem: "ok \<or> False \<in> set (kmem s)" "set k \<subseteq> set (kmem s)"
    let ?s = "s\<lparr>kmem := k\<rparr>"
    have fw': "fs_wf ?s" using fw by simp
    have bu: "wp (sfs_bused ino) Q R ?s = Q True ?s" for Q R
      using sfs_bused_eq [OF fw', of ino] ino by (simp add: wp_def)
    have fa: "fresh_addr ?s = ?p" by (simp add: fresh_addr_def)
    have nb: "ino < nblocks ?s" using ino(2) by simp
    have rd: "wp (free_on_error ?p (on_device (sfs_rblock ino)))
      (\<lambda>d. wp (let i = dec_inode d in
         kbind (kassert (ft = SFS_TYPE_INVAL \<or> sfi_type i = SFS_TYPE_INVAL)) (\<lambda>_.
         let v = raw_vnode ft i in
         case sfs_ops_of (sfi_type (sv_i v)) of
           None \<Rightarrow> kpanic
         | Some ops \<Rightarrow> kbind (kmodify (\<lambda>s. s\<lparr>sv_heap := (sv_heap s)(?p \<mapsto> v)\<rparr>)) (\<lambda>_. load_table ino ?p ops)))
         (load_done s (new_vnode ops ?i ino (ft \<noteq> SFS_TYPE_INVAL))) (load_fail s)) (load_fail s) ?s"
      unfolding wp_free_on_error
    proof (rule wp_mono [OF rblock_wp [OF fw' nb]])
      fix d t
      assume t: "d = disk ?s ! ino \<and> fs_wf t \<and> fs_same ?s t \<and> disk t = disk ?s \<and> used t = used ?s \<and> sv_heap t = sv_heap ?s"
      have d: "d = disk s ! ino" using t by simp
      have mt: "mem_step s t" "sfs_vnodes t = sfs_vnodes s" "set (kmem t) \<subseteq> set (kmem s)"
        using t mem(2) by (simp_all add: mem_step_def fs_same_def)
      show "wp (let i = dec_inode d in
         kbind (kassert (ft = SFS_TYPE_INVAL \<or> sfi_type i = SFS_TYPE_INVAL)) (\<lambda>_.
         let v = raw_vnode ft i in
         case sfs_ops_of (sfi_type (sv_i v)) of
           None \<Rightarrow> kpanic
         | Some ops \<Rightarrow> kbind (kmodify (\<lambda>s. s\<lparr>sv_heap := (sv_heap s)(?p \<mapsto> v)\<rparr>)) (\<lambda>_. load_table ino ?p ops)))
         (load_done s (new_vnode ops ?i ino (ft \<noteq> SFS_TYPE_INVAL))) (load_fail s) t"
        unfolding Let_def d wp_kbind wp_kassert ui ops option.case wp_kmodify
        by (intro conjI ft load_table_wp [OF aw fresh _ _ _ _ uu]) (use t mt in simp_all)
    qed simp
    show "wp (if \<not> ok then kfail ENOMEM
       else kbind (kget fresh_addr) (\<lambda>sv. kbind (sfs_bused ino) (\<lambda>u. if \<not> u then kpanic else
         kbind (free_on_error sv (on_device (sfs_rblock ino))) (\<lambda>data. let i = dec_inode data in
         kbind (kassert (ft = SFS_TYPE_INVAL \<or> sfi_type i = SFS_TYPE_INVAL)) (\<lambda>_.
         let v = raw_vnode ft i in
         case sfs_ops_of (sfi_type (sv_i v)) of
           None \<Rightarrow> kpanic
         | Some ops \<Rightarrow> kbind (kmodify (\<lambda>s. s\<lparr>sv_heap := (sv_heap s)(sv \<mapsto> v)\<rparr>)) (\<lambda>_. load_table ino sv ops))))))
      (load_done s (new_vnode ops ?i ino (ft \<noteq> SFS_TYPE_INVAL))) (load_fail s) ?s"
    proof (cases ok)
      case False
      then show ?thesis using mem_step_refl [OF fw] mem(1) by (simp add: wp_kfail load_fail_def)
    next
      case True
      then have nk: "\<not> \<not> ok" and nt: "\<not> \<not> True" by simp_all
      show ?thesis unfolding if_not_P [OF nk] wp_kbind [of "kget _"] wp_kbind [of "sfs_bused _"] wp_kget fa bu if_not_P [OF nt]
          wp_kbind [of "free_on_error _ _"] by (rule rd)
    qed
  qed
qed

text \<open>Adding a vnode for an inode that has none.\<close>

lemma vtab_add:
  assumes vt: "vtab_wf s" and p: "sv_heap s p = None" and aw: "array_wf (sfs_vnodes t)"
    and tab: "array_list (sfs_vnodes t) = array_list (sfs_vnodes s) @ [p]" and h: "sv_heap t = (sv_heap s)(p \<mapsto> v)"
    and v: "0 < vn_refcount v" "0 \<le> vn_opencount v" "vn_ops v = sfs_ops_of (sfi_type (sv_i v))"
    and new: "\<And>q w. sv_heap s q = Some w \<Longrightarrow> sv_ino w \<noteq> sv_ino v"
  shows "vtab_wf t"
proof -
  note w = vt [unfolded vtab_wf_def]
  have "p \<notin> set (array_list (sfs_vnodes s))" using w p by blast
  then have "distinct (array_list (sfs_vnodes t))" unfolding tab using w by simp
  moreover have "set (array_list (sfs_vnodes t)) = dom (sv_heap t)" unfolding tab h using w by auto
  moreover have "0 < vn_refcount u \<and> 0 \<le> vn_opencount u \<and> vn_ops u = sfs_ops_of (sfi_type (sv_i u))"
    if "sv_heap t q = Some u" for q u using that v w unfolding h by (cases "q = p") auto
  moreover have "q = r" if "sv_heap t q = Some u" "sv_heap t r = Some x" "sv_ino u = sv_ino x" for q u r x
  proof (cases "q = p"; cases "r = p")
    assume "q \<noteq> p" "r \<noteq> p"
    then show ?thesis using that vtab_inj [OF vt] unfolding h by simp
  next
    assume "q = p" "r \<noteq> p"
    then show ?thesis using that new [of r x] unfolding h by simp
  next
    assume "q \<noteq> p" "r = p"
    then show ?thesis using that new [of q u] unfolding h by simp
  qed simp
  ultimately show ?thesis unfolding vtab_wf_def using aw by blast
qed

lemma vol_add_vnode:
  assumes wf: "vol_wf L N s" and ms: "mem_step s t" and vt: "vtab_wf t" and p: "sv_heap s p = None"
    and h: "sv_heap t = (sv_heap s)(p \<mapsto> v)" and N: "N (sv_ino v) = Some (sv_i v)"
  shows "vol_wf L N t"
proof -
  note m = mem_stepD [OF ms]
  have e: "file_wf i t = file_wf i s" for i by (simp add: file_wf_def m)
  have hp: "\<forall>q w. sv_heap t q = Some w \<longrightarrow> N (sv_ino w) = Some (sv_i w)"
    unfolding h using vol_wfD(7) [OF wf] N by simp
  have ib: "inode_block N t"
    unfolding inode_block_def m
  proof (intro allI impI)
    fix c j assume "N c = Some j"
    then have "dec_inode (disk s ! c) = j \<or> (\<exists>q w. sv_heap s q = Some w \<and> sv_ino w = c \<and> sv_dirty w)"
      using wf unfolding vol_wf_def inode_block_def by blast
    then show "dec_inode (disk s ! c) = j \<or> (\<exists>q w. sv_heap t q = Some w \<and> sv_ino w = c \<and> sv_dirty w)"
    proof
      assume "\<exists>q w. sv_heap s q = Some w \<and> sv_ino w = c \<and> sv_dirty w"
      then obtain q w where q: "sv_heap s q = Some w" "sv_ino w = c" "sv_dirty w" by blast
      moreover have "q \<noteq> p" using q(1) p by auto
      ultimately show ?thesis unfolding h by auto
    qed simp
  qed
  show ?thesis using wf unfolding vol_wf_def e m(2-5)
    by (elim conjE, intro conjI) (assumption | rule m(1) vt hp ib)+
qed

text \<open>A new inode in a leaked block, with its dirty vnode.\<close>

lemma vol_new_inode:
  assumes wf: "vol_wf (insert b L) N s" and b: "b \<notin> L"
    and ms: "mem_step s t" and vt: "vtab_wf t" and p: "sv_heap s p = None" and h: "sv_heap t = (sv_heap s)(p \<mapsto> v)"
    and v: "sv_ino v = b" "sv_dirty v" "sfs_ops_of (sfi_type (sv_i v)) \<noteq> None"
    and i: "file_wf (sv_i v) s" "owned (sv_i v) (disk s) = {}"
  shows "vol_wf L (N(b \<mapsto> sv_i v)) t"
proof -
  note m = mem_stepD [OF ms]
  let ?N = "N(b \<mapsto> sv_i v)"
  have Ld: "insert b L \<inter> (dom N \<union> blocks_of N (disk s) \<union> reserved s) = {}" using wf by (simp add: vol_wf_def)
  then have nb: "N b = None" "b \<notin> blocks_of N (disk s)" "b \<notin> reserved s" by blast+
  have bl: "blocks_of ?N (disk s) = blocks_of N (disk s)"
  proof (rule set_eqI)
    fix x
    show "x \<in> blocks_of ?N (disk s) \<longleftrightarrow> x \<in> blocks_of N (disk s)"
    proof
      assume "x \<in> blocks_of ?N (disk s)"
      then obtain c j where c: "?N c = Some j" "x \<in> owned j (disk s)" unfolding blocks_of_def by blast
      then have "c \<noteq> b" using i(2) by auto
      then show "x \<in> blocks_of N (disk s)" using c by (auto simp: blocks_of_def)
    next
      assume "x \<in> blocks_of N (disk s)"
      then obtain c j where c: "N c = Some j" "x \<in> owned j (disk s)" unfolding blocks_of_def by blast
      then have "?N c = Some j" using nb(1) by auto
      then show "x \<in> blocks_of ?N (disk s)" using c(2) unfolding blocks_of_def by blast
    qed
  qed
  have dm: "dom ?N = insert b (dom N)" by simp
  show ?thesis unfolding vol_wf_def m(2-5)
  proof (intro conjI allI impI)
    show "dom ?N \<inter> reserved s = {}" unfolding dm using nb(3) wf by (simp add: vol_wf_def)
    show "used s \<inter> {..<nblocks s} = dom ?N \<union> blocks_of ?N (disk s) \<union> reserved s \<union> L"
      unfolding dm bl vol_used [OF wf] by blast
    show "L \<inter> (dom ?N \<union> blocks_of ?N (disk s) \<union> reserved s) = {}" unfolding dm bl using Ld b by blast
    show "inode_block ?N t" unfolding inode_block_def m
    proof (intro allI impI)
      fix c j assume j: "?N c = Some j"
      show "dec_inode (disk s ! c) = j \<or> (\<exists>q w. sv_heap t q = Some w \<and> sv_ino w = c \<and> sv_dirty w)"
      proof (cases "c = b")
        case True
        have "sv_heap t p = Some v" unfolding h by simp
        then show ?thesis using True v by blast
      next
        case False
        then have "N c = Some j" using j by simp
        then have "dec_inode (disk s ! c) = j \<or> (\<exists>q w. sv_heap s q = Some w \<and> sv_ino w = c \<and> sv_dirty w)"
          using wf unfolding vol_wf_def inode_block_def by blast
        then show ?thesis
        proof
          assume "\<exists>q w. sv_heap s q = Some w \<and> sv_ino w = c \<and> sv_dirty w"
          then obtain q w where q: "sv_heap s q = Some w" "sv_ino w = c" "sv_dirty w" by blast
          moreover have "q \<noteq> p" using q(1) p by auto
          ultimately show ?thesis unfolding h by auto
        qed simp
      qed
    qed
    fix c j
    assume j: "?N c = Some j"
    have fe: "file_wf k t = file_wf k s" for k by (simp add: file_wf_def m)
    show "file_wf j t" unfolding fe using j i(1) vol_wfD(3) [OF wf] by (cases "c = b") simp_all
    show "sfs_ops_of (sfi_type j) \<noteq> None" using j v(3) vol_wfD(5) [OF wf] by (cases "c = b") auto
    show "owned j (disk s) \<inter> (dom ?N \<union> reserved s) = {}"
    proof (cases "c = b")
      case True
      then show ?thesis using j i(2) by simp
    next
      case False
      then have n: "N c = Some j" using j by simp
      then have "b \<notin> owned j (disk s)" using nb(2) by (auto simp: blocks_of_def)
      then show ?thesis unfolding dm using vol_wfD(4) [OF wf n] by blast
    qed
    fix d k
    assume k: "?N d = Some k" "c \<noteq> d"
    show "owned j (disk s) \<inter> owned k (disk s) = {}"
    proof (cases "c = b \<or> d = b")
      case True
      then show ?thesis using j k i(2) by auto
    next
      case False
      then show ?thesis using j k vol_disjoint [OF wf] by simp
    qed
  next
    fix q w
    assume q: "sv_heap t q = Some w"
    show "?N (sv_ino w) = Some (sv_i w)"
    proof (cases "q = p")
      case True
      then show ?thesis using q v(1) unfolding h by simp
    next
      case False
      then have "N (sv_ino w) = Some (sv_i w)" using q vol_wfD(7) [OF wf] unfolding h by simp
      then show ?thesis using nb(1) by auto
    qed
  qed (rule m(1) vt)+
qed

section \<open>The routines on a volume\<close>

text \<open>\<open>vnode_got\<close>: the vnode \<open>p\<close> of the inode was found and referenced once more, or loaded.\<close>

definition vnode_got :: "(nat \<rightharpoonup> sfs_inode) \<Rightarrow> nat \<Rightarrow> sfs_fs \<Rightarrow> nat \<Rightarrow> sfs_fs \<Rightarrow> bool" where
  "vnode_got N ino s p t \<longleftrightarrow> mem_step s t \<and> (\<exists>v. sv_heap t = (sv_heap s)(p \<mapsto> v) \<and> sv_ino v = ino \<and> N ino = Some (sv_i v)
     \<and> (case sv_heap s p of
          Some u \<Rightarrow> v = u\<lparr>vn_refcount := vn_refcount u + 1\<rparr>
        | None \<Rightarrow> vn_refcount v = 1 \<and> vn_opencount v = 0 \<and> \<not> sv_dirty v
            \<and> (\<forall>q w. sv_heap s q = Some w \<longrightarrow> sv_ino w \<noteq> ino)))"

lemma vol_count:
  assumes wf: "vol_wf L N s" and v: "sv_heap s p = Some v"
    and t: "t = s\<lparr>sv_heap := (sv_heap s)(p \<mapsto> v\<lparr>vn_refcount := r, vn_opencount := c\<rparr>)\<rparr>" and r: "0 < r" "0 \<le> c"
  shows "vol_wf L N t"
proof -
  have ms: "mem_step s t" using mem_step_refl [OF vol_wfD(1) [OF wf]] t by simp
  note m = mem_stepD [OF ms]
  have h: "sv_heap t = (sv_heap s)(p \<mapsto> v\<lparr>vn_refcount := r, vn_opencount := c\<rparr>)" by (simp add: t)
  have vt: "vtab_wf t"
    by (rule vtab_wf_upd [OF vol_wfD(2) [OF wf] v _ h]) (use r vtab_vnode [OF vol_wfD(2) [OF wf] v] t in simp_all)
  have e: "file_wf i t = file_wf i s" for i by (simp add: file_wf_def m)
  have N: "N (sv_ino v) = Some (sv_i v)" by (rule vol_wfD(7) [OF wf v])
  have hp: "\<forall>q w. sv_heap t q = Some w \<longrightarrow> N (sv_ino w) = Some (sv_i w)"
    unfolding h using vol_wfD(7) [OF wf] N by simp
  have "inode_block (N(sv_ino v \<mapsto> sv_i (v\<lparr>vn_refcount := r, vn_opencount := c\<rparr>))) t"
    by (rule inode_block_upd [OF wf v h]) (use vol_clean [OF wf v] m in simp_all)
  then have ib: "inode_block N t" using N by (simp add: fun_upd_idem)
  show ?thesis using wf unfolding vol_wf_def e m(2-5)
    by (elim conjE, intro conjI) (assumption | rule m(1) vt hp ib)+
qed

lemma vol_incref:
  assumes wf: "vol_wf L N s" and v: "sv_heap s p = Some v"
    and t: "t = s\<lparr>sv_heap := (sv_heap s)(p \<mapsto> v\<lparr>vn_refcount := r\<rparr>)\<rparr>" and r: "0 < r"
  shows "vol_wf L N t"
proof -
  have e: "v\<lparr>vn_refcount := r\<rparr> = v\<lparr>vn_refcount := r, vn_opencount := vn_opencount v\<rparr>"
    by (rule sfs_vnode.equality) simp_all
  have c: "0 \<le> vn_opencount v" using vtab_vnode [OF vol_wfD(2) [OF wf] v] by simp
  show ?thesis
    by (rule vol_count [OF wf v _ r c], unfold e [symmetric], rule t)
qed

lemma sfs_loadvnode_wp:
  assumes wf: "vol_wf L N s" and i: "N ino = Some i"
  shows "wp (sfs_loadvnode ino SFS_TYPE_INVAL)
    (\<lambda>p t. vol_wf L N t \<and> vnode_got N ino s p t)
    (\<lambda>e t. vol_wf L N t \<and> load_fail s e t \<and> (\<forall>q w. sv_heap s q = Some w \<longrightarrow> sv_ino w \<noteq> ino)) s"
proof -
  have vt: "vtab_wf s" by (rule vol_wfD(2) [OF wf])
  have aw: "array_wf (sfs_vnodes s)" using vt by (simp add: vtab_wf_def)
  let ?n = "length (array_list (sfs_vnodes s))"
  have num: "nat (array_getnum (sfs_vnodes s)) = ?n" using array_length [OF aw] by (simp add: array_getnum_def)
  show ?thesis unfolding sfs_loadvnode_def wp_kbind wp_kget num
  proof (rule wp_mono [OF load_search_wp [OF wf, of 0 ?n ino, unfolded add_0, OF refl]])
    fix r t
    assume r: "t = s \<and> (case r of
        None \<Rightarrow> \<forall>j. 0 \<le> j \<and> j < ?n \<longrightarrow> (\<forall>w. sv_heap s (array_list (sfs_vnodes s) ! j) = Some w \<longrightarrow> sv_ino w \<noteq> ino)
      | Some p \<Rightarrow> \<exists>v. sv_heap s p = Some v \<and> sv_ino v = ino)"
    show "wp (case r of None \<Rightarrow> load_new ino SFS_TYPE_INVAL
      | Some sv \<Rightarrow> kbind (kassert (SFS_TYPE_INVAL = SFS_TYPE_INVAL)) (\<lambda>_. kbind (vnode_incref sv) (\<lambda>_. kret sv)))
      (\<lambda>p t. vol_wf L N t \<and> vnode_got N ino s p t)
      (\<lambda>e t. vol_wf L N t \<and> load_fail s e t \<and> (\<forall>q w. sv_heap s q = Some w \<longrightarrow> sv_ino w \<noteq> ino)) t"
    proof (cases r)
      case (Some p)
      then obtain v where v: "sv_heap s p = Some v" "sv_ino v = ino" and t: "t = s" using r by auto
      have rc: "0 < vn_refcount v" using vtab_vnode [OF vt v(1)] by simp
      have "vol_wf L N (s\<lparr>sv_heap := (sv_heap s)(p \<mapsto> v\<lparr>vn_refcount := vn_refcount v + 1\<rparr>)\<rparr>)"
        by (rule vol_incref [OF wf v(1) refl]) (use rc in simp)
      then show ?thesis using v vol_wfD(7) [OF wf v(1)] mem_step_refl [OF vol_wfD(1) [OF wf]]
        by (simp add: Some t wp_kbind wp_kassert vnode_incref_def wp_sv_upd [OF v(1)] wp_kret vnode_got_def)
    next
      case None
      have no: "sv_ino w \<noteq> ino" if w: "sv_heap s q = Some w" for q w
      proof -
        have "q \<in> set (array_list (sfs_vnodes s))" using w vt unfolding vtab_wf_def by blast
        then obtain j where "j < ?n" "array_list (sfs_vnodes s) ! j = q" by (metis in_set_conv_nth)
        then show ?thesis using r None w by auto
      qed
      have di: "dec_inode (disk s ! ino) = i"
        using wf i no unfolding vol_wf_def inode_block_def by blast
      obtain ops where ops: "sfs_ops_of (sfi_type i) = Some ops" using vol_wfD(5) [OF wf i] by blast
      have li: "load_inode SFS_TYPE_INVAL i = i" by (simp add: load_inode_def)
      note iu = vol_wfD(6) [OF wf i]
      have t: "t = s" using r by simp
      let ?v = "new_vnode ops i ino False"
      have "wp (load_new ino SFS_TYPE_INVAL) (load_done s ?v) (load_fail s) s"
        using load_new_wp [OF vol_wfD(1) [OF wf] vt, of ino SFS_TYPE_INVAL ops] iu ops by (simp add: di li)
      then show ?thesis unfolding None option.case t
      proof (rule wp_mono)
        fix p t
        assume "load_done s ?v p t"
        note d = this [unfolded load_done_def]
        have "vtab_wf t"
          by (rule vtab_add [OF vt, of p t ?v]) (use d ops no in \<open>simp_all add: new_vnode_def\<close>)
        then have "vol_wf L N t"
          using vol_add_vnode [OF wf, of t p ?v] d i by (simp add: new_vnode_def)
        then show "vol_wf L N t \<and> vnode_got N ino s p t"
          unfolding vnode_got_def using d i no
          by (intro conjI exI [of _ ?v]) (simp_all add: new_vnode_def)
      next
        fix e t
        assume f: "load_fail s e t"
        then have "vol_wf L N t" using vol_wf_mem [OF wf] by (simp add: load_fail_def)
        then show "vol_wf L N t \<and> load_fail s e t \<and> (\<forall>q w. sv_heap s q = Some w \<longrightarrow> sv_ino w \<noteq> ino)"
          using f no by blast
      qed
    qed
  qed simp
qed

section \<open>Letting go of a vnode\<close>

text \<open>The blocks of the listed inodes are as they were.\<close>

definition keeps :: "(nat \<rightharpoonup> sfs_inode) \<Rightarrow> sfs_fs \<Rightarrow> sfs_fs \<Rightarrow> bool" where
  "keeps N s t \<longleftrightarrow> nblocks t = nblocks s \<and> (\<forall>a i. N a = Some i \<longrightarrow> (\<forall>b \<in> owned i (disk s). disk t ! b = disk s ! b))"

lemma keeps_refl: "keeps N s s"
  by (simp add: keeps_def)

lemma keeps_mem: "mem_step s t \<Longrightarrow> keeps N s t"
  by (simp add: keeps_def mem_step_def nblocks_def)

lemma keeps_owned: "keeps N s t \<Longrightarrow> N a = Some i \<Longrightarrow> owned i (disk t) = owned i (disk s)"
  using owned_untouched(2) unfolding keeps_def by blast

lemma keeps_trans:
  assumes "keeps N s t" and "keeps M t r" and "\<And>a i. M a = Some i \<Longrightarrow> N a = Some i"
  shows "keeps M s r"
  unfolding keeps_def
proof (intro conjI allI impI ballI)
  show "nblocks r = nblocks s" using assms by (simp add: keeps_def)
  fix a i b
  assume m: "M a = Some i" and b: "b \<in> owned i (disk s)"
  have n: "N a = Some i" by (rule assms(3) [OF m])
  have "b \<in> owned i (disk t)" using b keeps_owned [OF assms(1) n] by simp
  then have "disk r ! b = disk t ! b" using assms(2) m by (auto simp: keeps_def)
  also have "disk t ! b = disk s ! b" using assms(1) n b by (auto simp: keeps_def)
  finally show "disk r ! b = disk s ! b" .
qed

lemma keeps_sub: "keeps N s t \<Longrightarrow> (\<And>a i. M a = Some i \<Longrightarrow> N a = Some i) \<Longrightarrow> keeps M s t"
  unfolding keeps_def by meson

lemma sfs_sync_inode_wp:
  assumes wf: "vol_wf L N s" and v: "sv_heap s p = Some v"
  shows "wp (sfs_sync_inode p)
    (\<lambda>_ t. vol_wf L N t \<and> keeps N s t \<and> fs_same s t \<and> used t = used s
       \<and> sv_heap t = (sv_heap s)(p \<mapsto> v\<lparr>sv_dirty := False\<rparr>)
       \<and> dec_inode (disk t ! sv_ino v) = sv_i v)
    (\<lambda>_ _. False) s"
proof (cases "sv_dirty v")
  case False
  then have "v\<lparr>sv_dirty := False\<rparr> = v" by simp
  then have "(sv_heap s)(p \<mapsto> v\<lparr>sv_dirty := False\<rparr>) = sv_heap s" using v by (simp add: fun_upd_idem)
  then show ?thesis using vol_clean [OF wf v] wf keeps_refl False
    by (simp add: sfs_sync_inode_def wp_kbind wp_sv_get [OF v] wp_kwhen)
next
  case True
  let ?a = "sv_ino v" and ?v' = "v\<lparr>sv_dirty := False\<rparr>"
  have fw: "fs_wf s" and vt: "vtab_wf s" and N: "N ?a = Some (sv_i v)"
    using vol_wfD(1,2) [OF wf] vol_wfD(7) [OF wf v] by simp_all
  have a: "?a < nblocks s" "?a \<in> used s" using vol_wfD(6) [OF wf N] by simp_all
  have fits: "inode_fits (sv_i v)" using vol_wfD(3) [OF wf N] by (simp add: file_wf_def)
  show ?thesis unfolding sfs_sync_inode_def wp_kbind wp_sv_get [OF v] wp_kwhen if_P [OF True]
  proof (rule wp_mono [OF wblock_wp [OF fw a(1) enc_inode_length [OF fits]]])
    fix x :: unit and t
    assume t: "fs_wf t \<and> fs_same s t \<and> disk t = (disk s)[?a := enc_inode (sv_i v)] \<and> used t = used s \<and> sv_heap t = sv_heap s"
    have hp: "sv_heap t p = Some v" using t v by simp
    let ?t = "t\<lparr>sv_heap := (sv_heap t)(p \<mapsto> ?v')\<rparr>"
    have h: "sv_heap ?t = (sv_heap s)(p \<mapsto> ?v')" using t by simp
    have fs: "fs_same s ?t" "fs_wf ?t" using t by simp_all
    have da: "disk ?t ! ?a = enc_inode (sv_i v)" using t a(1) fw by (simp add: fs_wf_def)
    have other: "disk ?t ! b = disk s ! b" if "b \<noteq> ?a" for b using t that by simp
    have kp: "keeps N s ?t" unfolding keeps_def
    proof (intro conjI allI impI ballI)
      show "nblocks ?t = nblocks s" by (rule fs_same_nblocks [OF fs(1)])
      fix c i b assume "N c = Some i" "b \<in> owned i (disk s)"
      then have "b \<noteq> ?a" using vol_wfD(4) [OF wf] N by blast
      then show "disk ?t ! b = disk s ! b" by (rule other)
    qed
    have own: "owned (sv_i v) (disk ?t) = owned (sv_i v) (disk s)" by (rule keeps_owned [OF kp N])
    have fwi: "file_wf (sv_i v) ?t"
      by (rule file_wf_untouched [OF vol_wfD(3) [OF wf N]])
        (use kp N t vol_wfD(3) [OF wf N] in \<open>auto simp: keeps_def file_wf_def\<close>)
    have ub: "owned (sv_i v) (disk s) \<subseteq> used s \<inter> {..<nblocks s}" using vol_wfD(3) [OF wf N] by (simp add: file_wf_def)
    have "vol_wf L (N(?a \<mapsto> sv_i v)) ?t"
    proof (rule vol_step [OF wf N fs(2,1) _ fwi])
      show "vtab_wf ?t"
        by (rule vtab_wf_upd [OF vt v _ h]) (use vtab_vnode [OF vt v] t in \<open>simp_all add: fs_same_def\<close>)
      show "sfs_ops_of (sfi_type (sv_i v)) \<noteq> None" by (rule vol_wfD(5) [OF wf N])
      show "used ?t \<inter> {..<nblocks ?t} = (used s \<inter> {..<nblocks s} - owned (sv_i v) (disk s)) \<union> owned (sv_i v) (disk ?t)"
        unfolding own using t fs_same_nblocks [OF fs(1)] ub by auto
      show "(N(?a \<mapsto> sv_i v)) (sv_ino w) = Some (sv_i w)" if "sv_heap ?t q = Some w" for q w
        using heap_upd_inodes [OF wf v h _ that] by simp
      have "inode_block (N(sv_ino v \<mapsto> sv_i ?v')) ?t"
        by (rule inode_block_upd [OF wf v h]) (use da dec_enc_inode [OF fits] other in auto)
      then show "inode_block (N(?a \<mapsto> sv_i v)) ?t" by simp
      show "owned (sv_i v) (disk ?t) \<inter> used s \<subseteq> owned (sv_i v) (disk s)" unfolding own by blast
    qed (use other in auto)
    then have "vol_wf L N ?t" using N by (simp add: fun_upd_idem)
    then show "wp (sv_upd p (\<lambda>v. v\<lparr>sv_dirty := False\<rparr>))
      (\<lambda>_ t. vol_wf L N t \<and> keeps N s t \<and> fs_same s t \<and> used t = used s
       \<and> sv_heap t = (sv_heap s)(p \<mapsto> v\<lparr>sv_dirty := False\<rparr>) \<and> dec_inode (disk t ! sv_ino v) = sv_i v) (\<lambda>_ _. False) t"
      unfolding wp_sv_upd [OF hp] using kp fs h t da dec_enc_inode [OF fits] by simp
  qed simp
qed

text \<open>Taking a vnode out of the table.\<close>

lemma vtab_remove:
  assumes vt: "vtab_wf s" and aw: "array_wf (sfs_vnodes t)"
    and tab: "array_list (sfs_vnodes t) = remove1 p (array_list (sfs_vnodes s))" and h: "sv_heap t = (sv_heap s)(p := None)"
  shows "vtab_wf t"
proof -
  note w = vt [unfolded vtab_wf_def]
  have "distinct (array_list (sfs_vnodes t))" unfolding tab using w by simp
  moreover have "set (array_list (sfs_vnodes t)) = dom (sv_heap t)" unfolding tab h using w by (simp add: set_remove1_eq)
  moreover have "sv_heap s q = Some u" if "sv_heap t q = Some u" for q u using that unfolding h by (simp split: if_splits)
  ultimately show ?thesis using w aw unfolding vtab_wf_def by meson
qed

lemma vol_drop_vnode:
  assumes wf: "vol_wf L N s" and v: "sv_heap s p = Some v" "\<not> sv_dirty v" and ms: "mem_step s t" and vt: "vtab_wf t"
    and h: "sv_heap t = (sv_heap s)(p := None)"
  shows "vol_wf L N t"
proof -
  note m = mem_stepD [OF ms]
  have e: "file_wf i t = file_wf i s" for i by (simp add: file_wf_def m)
  have hp: "\<forall>q w. sv_heap t q = Some w \<longrightarrow> N (sv_ino w) = Some (sv_i w)"
    unfolding h using vol_wfD(7) [OF wf] by (simp split: if_splits)
  have ib: "inode_block N t"
    unfolding inode_block_def m
  proof (intro allI impI)
    fix c j assume "N c = Some j"
    then have "dec_inode (disk s ! c) = j \<or> (\<exists>q w. sv_heap s q = Some w \<and> sv_ino w = c \<and> sv_dirty w)"
      using wf unfolding vol_wf_def inode_block_def by blast
    then show "dec_inode (disk s ! c) = j \<or> (\<exists>q w. sv_heap t q = Some w \<and> sv_ino w = c \<and> sv_dirty w)"
    proof
      assume "\<exists>q w. sv_heap s q = Some w \<and> sv_ino w = c \<and> sv_dirty w"
      then obtain q w where q: "sv_heap s q = Some w" "sv_ino w = c" "sv_dirty w" by blast
      moreover have "q \<noteq> p" using q v by auto
      ultimately show ?thesis unfolding h by auto
    qed simp
  qed
  show ?thesis using wf unfolding vol_wf_def e m(2-5)
    by (elim conjE, intro conjI) (assumption | rule m(1) vt hp ib)+
qed

text \<open>Giving back an inode without blocks.\<close>

lemma vol_drop_inode:
  assumes wf: "vol_wf L N s" and a: "N a = Some i" "owned i (disk s) = {}"
    and t: "fs_wf t" "disk t = disk s" "nblocks t = nblocks s" "used t = used s - {a}" "vtab_wf t"
    and h: "\<And>q w. sv_heap t q = Some w \<Longrightarrow> sv_heap s q = Some w \<and> sv_ino w \<noteq> a"
    and h': "\<And>q w. sv_heap s q = Some w \<Longrightarrow> sv_ino w \<noteq> a \<Longrightarrow> sv_heap t q = Some w"
  shows "vol_wf L (N(a := None)) t"
proof -
  let ?N = "N(a := None)"
  have res: "reserved t = reserved s" using t(3) by (simp add: reserved_def)
  have ad: "a \<in> dom N" using a by blast
  have Ld: "L \<inter> (dom N \<union> blocks_of N (disk s) \<union> reserved s) = {}" and dr: "dom N \<inter> reserved s = {}"
    using wf by (simp_all add: vol_wf_def)
  have bl: "blocks_of ?N (disk s) = blocks_of N (disk s)"
  proof (rule set_eqI)
    fix x
    show "x \<in> blocks_of ?N (disk s) \<longleftrightarrow> x \<in> blocks_of N (disk s)"
    proof
      assume "x \<in> blocks_of ?N (disk s)"
      then show "x \<in> blocks_of N (disk s)" unfolding blocks_of_def by (auto split: if_splits)
    next
      assume "x \<in> blocks_of N (disk s)"
      then obtain c j where c: "N c = Some j" "x \<in> owned j (disk s)" unfolding blocks_of_def by blast
      then have "c \<noteq> a" using a by auto
      then have "?N c = Some j" using c(1) by simp
      then show "x \<in> blocks_of ?N (disk s)" using c(2) unfolding blocks_of_def by blast
    qed
  qed
  have dm: "dom ?N = dom N - {a}" by simp
  have ab: "a \<notin> blocks_of N (disk s)"
  proof
    assume "a \<in> blocks_of N (disk s)"
    then obtain c j where "N c = Some j" "a \<in> owned j (disk s)" unfolding blocks_of_def by blast
    then show False using vol_wfD(4) [OF wf] ad by blast
  qed
  have sub: "N c = Some j \<and> c \<noteq> a" if "?N c = Some j" for c j using that by (simp split: if_splits)
  show ?thesis unfolding vol_wf_def t(2,3) res
  proof (intro conjI allI impI)
    show "dom ?N \<inter> reserved s = {}" unfolding dm using dr by blast
    have "used t \<inter> {..<nblocks s} = (used s \<inter> {..<nblocks s}) - {a}" unfolding t(4) by blast
    then show "used t \<inter> {..<nblocks s} = dom ?N \<union> blocks_of ?N (disk s) \<union> reserved s \<union> L"
      unfolding dm bl vol_used [OF wf] using ad ab dr Ld by blast
    show "L \<inter> (dom ?N \<union> blocks_of ?N (disk s) \<union> reserved s) = {}" unfolding dm bl using Ld by blast
    show "inode_block ?N t" unfolding inode_block_def t(2)
    proof (intro allI impI)
      fix c j assume "?N c = Some j"
      then have c: "N c = Some j" "c \<noteq> a" using sub by blast+
      then have "dec_inode (disk s ! c) = j \<or> (\<exists>q w. sv_heap s q = Some w \<and> sv_ino w = c \<and> sv_dirty w)"
        using wf unfolding vol_wf_def inode_block_def by blast
      then show "dec_inode (disk s ! c) = j \<or> (\<exists>q w. sv_heap t q = Some w \<and> sv_ino w = c \<and> sv_dirty w)"
        using h' c(2) by metis
    qed
    fix c j
    assume "?N c = Some j"
    then have c: "N c = Some j" "c \<noteq> a" using sub by blast+
    show "sfs_ops_of (sfi_type j) \<noteq> None" by (rule vol_wfD(5) [OF wf c(1)])
    show "owned j (disk s) \<inter> (dom ?N \<union> reserved s) = {}" unfolding dm using vol_wfD(4) [OF wf c(1)] by blast
    have "a \<notin> owned j (disk s)" using vol_wfD(4) [OF wf c(1)] ad by blast
    then show "file_wf j t"
      using vol_wfD(3) [OF wf c(1)] unfolding file_wf_def t(2,3,4) by auto
    fix d k
    assume "?N d = Some k" "c \<noteq> d"
    then show "owned j (disk s) \<inter> owned k (disk s) = {}" using vol_disjoint [OF wf c(1)] sub by blast
  next
    fix q w
    assume "sv_heap t q = Some w"
    then have "sv_heap s q = Some w" "sv_ino w \<noteq> a" using h by blast+
    then show "?N (sv_ino w) = Some (sv_i w)" using vol_wfD(7) [OF wf] by simp
  qed (rule t)+
qed

lemma forget_vnode_wp:
  assumes fw: "fs_wf s" and vt: "vtab_wf s" and v: "sv_heap s p = Some v" "vn_refcount v = 1" "vn_opencount v = 0"
  shows "wp (forget_vnode p) (\<lambda>_ t. mem_step s t \<and> vtab_wf t \<and> sv_heap t = (sv_heap s)(p := None)) (\<lambda>_ _. False) s"
proof -
  have aw: "array_wf (sfs_vnodes s)" and pin: "p \<in> set (array_list (sfs_vnodes s))"
    using vt v(1) unfolding vtab_wf_def by blast+
  let ?xs = "array_list (sfs_vnodes s)"
  let ?k = "first_index (\<lambda>y. y = p) ?xs"
  have k: "?k < length ?xs" using pin by (simp add: first_index_none)
  have se: "array_search (\<lambda>g. g = Some p) (sfs_vnodes s) = Done (Some (int ?k)) (sfs_vnodes s)"
    using array_search_eq [OF aw, of "\<lambda>g. g = Some p"] k by simp
  have id: "s\<lparr>sfs_vnodes := sfs_vnodes s\<rparr> = s" by simp
  have sw: "wp (on_vnodes (array_search (\<lambda>g. g = Some p))) Q R s = Q (Some (int ?k)) s" for Q R
    unfolding on_vnodes_def wp_kzoom by (simp add: wp_def se)
  have ki: "int ?k < a_num (sfs_vnodes s)" using k array_length [OF aw] by linarith
  show ?thesis unfolding forget_vnode_def wp_kbind sw option.case
    unfolding on_vnodes_def wp_kzoom
  proof (rule wp_mono [OF array_remove_wp [OF aw _ ki]])
    fix x :: unit and a
    assume a: "array_wf a \<and> a_num a = a_num (sfs_vnodes s) - 1
       \<and> array_list a = take (nat (int ?k)) ?xs @ drop (nat (int ?k) + 1) ?xs"
    let ?s = "s\<lparr>sfs_vnodes := a\<rparr>"
    let ?t = "?s\<lparr>sv_heap := (sv_heap s)(p := None)\<rparr>"
    have hp: "sv_heap ?s p = Some v" using v(1) by simp
    have "array_list a = remove1 p ?xs" using a first_index_remove1 [OF pin] by simp
    then have "vtab_wf ?t" using a by (intro vtab_remove [OF vt, of ?t p]) simp_all
    then show "wp (vnode_kill p) (\<lambda>_. wp (kfree_vnode p) (\<lambda>_ t. mem_step s t \<and> vtab_wf t \<and> sv_heap t = (sv_heap s)(p := None))
       (\<lambda>_ _. False)) (\<lambda>_ _. False) ?s"
      unfolding vnode_kill_def wp_kbind wp_sv_get [OF hp] wp_kassert wp_sv_upd [OF hp] kfree_vnode_def wp_kmodify
      using v(2,3) mem_step_refl [OF fw] by simp
  qed simp_all
qed

text \<open>
  \<open>released\<close>: a reference to vnode \<open>p\<close> has been given up. The last reference takes the vnode out of
  memory, and the inode off the volume when it has no links; no other inode's blocks change.
\<close>

definition gone :: "sfs_vnode \<Rightarrow> bool" where
  "gone v \<longleftrightarrow> vn_refcount v = 1 \<and> sfi_linkcount (sv_i v) = 0"

definition released :: "nat set \<Rightarrow> (nat \<rightharpoonup> sfs_inode) \<Rightarrow> nat \<Rightarrow> sfs_vnode \<Rightarrow> sfs_fs \<Rightarrow> sfs_fs \<Rightarrow> bool" where
  "released L N p v s t \<longleftrightarrow>
     (let N' = (if gone v then N(sv_ino v := None) else N) in
      vol_wf L N' t \<and> keeps N' s t
      \<and> sv_heap t = (sv_heap s)(p := if vn_refcount v = 1 then None else Some (v\<lparr>vn_refcount := vn_refcount v - 1\<rparr>)))"

lemma vop_file:
  assumes v: "sv_heap s p = Some v" and ops: "vn_ops v = Some sfs_fileops"
    and rc: "0 < vn_refcount v" "0 \<le> vn_opencount v"
  shows "wp (vop p r m m') Q R s = wp m Q R s"
  unfolding vop_def vnode_check_def using rc ops by (simp add: wp_kbind wp_sv_get [OF v] wp_kret)

lemma vop_dir:
  assumes v: "sv_heap s p = Some v" and ops: "vn_ops v = Some sfs_dirops"
    and rc: "0 < vn_refcount v" "0 \<le> vn_opencount v"
  shows "wp (vop p r m m') Q R s = wp m' Q R s"
  unfolding vop_def vnode_check_def using rc ops by (simp add: wp_kbind wp_sv_get [OF v] wp_kret)

lemma ops_cases: "sfs_ops_of t = Some o' \<Longrightarrow> (t = SFS_TYPE_FILE \<and> o' = sfs_fileops) \<or> (t = SFS_TYPE_DIR \<and> o' = sfs_dirops)"
  by (auto simp: sfs_ops_of_def split: if_splits)

lemma vop_any:
  assumes wf: "vol_wf L N s" and v: "sv_heap s p = Some v"
  shows "wp (vop p r m m) Q R s = wp m Q R s"
proof -
  have rc: "0 < vn_refcount v" "0 \<le> vn_opencount v" and ops: "vn_ops v = sfs_ops_of (sfi_type (sv_i v))"
    using vtab_vnode [OF vol_wfD(2) [OF wf] v] by simp_all
  have "sfs_ops_of (sfi_type (sv_i v)) \<noteq> None" by (rule vol_wfD(5) [OF wf vol_wfD(7) [OF wf v]])
  then obtain o' where o': "vn_ops v = Some o'" using ops by auto
  then show ?thesis using vop_file [OF v _ rc] vop_dir [OF v _ rc] by (cases o') simp_all
qed

text \<open>Syncing the inode of a vnode and forgetting the vnode.\<close>

lemma sync_forget_wp:
  assumes wf: "vol_wf L N s" and v: "sv_heap s p = Some v" "vn_refcount v = 1" "vn_opencount v = 0"
    and ln: "sfi_linkcount (sv_i v) = 0 \<longrightarrow> owned (sv_i v) (disk s) = {}"
  shows "wp (kbind (sfs_sync_inode p) (\<lambda>_. kbind (sv_get p) (\<lambda>v.
       kbind (kwhen (sfi_linkcount (sv_i v) = 0) (sfs_bfree (sv_ino v))) (\<lambda>_. forget_vnode p))))
    (\<lambda>_. released L N p v s) (\<lambda>_ _. False) s"
  unfolding wp_kbind
proof (rule wp_mono [OF sfs_sync_inode_wp [OF wf v(1)]])
  fix x :: unit and t
  let ?v = "v\<lparr>sv_dirty := False\<rparr>"
  assume t: "vol_wf L N t \<and> keeps N s t \<and> fs_same s t \<and> used t = used s
       \<and> sv_heap t = (sv_heap s)(p \<mapsto> ?v) \<and> dec_inode (disk t ! sv_ino v) = sv_i v"
  have wt: "vol_wf L N t" and hp: "sv_heap t p = Some ?v" using t by simp_all
  have N: "N (sv_ino v) = Some (sv_i v)" by (rule vol_wfD(7) [OF wf v(1)])
  have rest: "wp (forget_vnode p) (\<lambda>_. released L N p v s) (\<lambda>_ _. False) r"
    if r: "fs_wf r" "vtab_wf r" "sv_heap r = sv_heap t"
      and post: "\<And>q. mem_step r q \<Longrightarrow> vtab_wf q \<Longrightarrow> sv_heap q = (sv_heap t)(p := None) \<Longrightarrow>
         vol_wf L (if gone v then N(sv_ino v := None) else N) q \<and> keeps (if gone v then N(sv_ino v := None) else N) s q" for r
  proof (rule wp_mono [OF forget_vnode_wp [OF r(1,2)]])
    show "sv_heap r p = Some ?v" using hp r(3) by simp
    show "released L N p v s q" if "mem_step r q \<and> vtab_wf q \<and> sv_heap q = (sv_heap r)(p := None)" for q and x :: unit
      using that post [of q] r(3) t v(2) by (simp add: released_def Let_def)
  qed (use v in simp_all)
  show "wp (sv_get p) (\<lambda>v'. wp (kwhen (sfi_linkcount (sv_i v') = 0) (sfs_bfree (sv_ino v')))
      (\<lambda>_. wp (forget_vnode p) (\<lambda>_. released L N p v s) (\<lambda>_ _. False)) (\<lambda>_ _. False)) (\<lambda>_ _. False) t"
  proof (cases "sfi_linkcount (sv_i v) = 0")
    case False
    have "wp (forget_vnode p) (\<lambda>_. released L N p v s) (\<lambda>_ _. False) t"
    proof (rule rest)
      fix q assume q: "mem_step t q" "vtab_wf q" "sv_heap q = (sv_heap t)(p := None)"
      have "vol_wf L N q" by (rule vol_drop_vnode [OF wt hp _ q]) simp
      moreover have "keeps N s q" by (rule keeps_trans [of N s t]) (use t keeps_mem [OF q(1)] in auto)
      ultimately show "vol_wf L (if gone v then N(sv_ino v := None) else N) q
          \<and> keeps (if gone v then N(sv_ino v := None) else N) s q" using False by (simp add: gone_def)
    qed (use vol_wfD(1,2) [OF wt] in simp_all)
    then show ?thesis using False by (simp add: wp_sv_get [OF hp] wp_kwhen)
  next
    case True
    then have g: "gone v" using v(2) by (simp add: gone_def)
    have "owned (sv_i v) (disk s) = {}" using ln True by simp
    then have own: "owned (sv_i v) (disk t) = {}" using keeps_owned [of N s t] t N by simp
    have fw: "fs_wf t" and a: "sv_ino v \<in> used t" "sv_ino v < nblocks t" "sv_ino v \<noteq> 0"
      using vol_wfD(1) [OF wt] vol_wfD(6) [OF wt N] by simp_all
    have "wp (sfs_bfree (sv_ino v)) (\<lambda>_. wp (forget_vnode p) (\<lambda>_. released L N p v s) (\<lambda>_ _. False)) (\<lambda>_ _. False) t"
    proof (rule wp_mono [OF sfs_bfree_wp [OF fw a]])
      fix x :: unit and r
      assume r: "fs_wf r \<and> fs_same t r \<and> used r = used t - {sv_ino v} \<and> disk r = disk t \<and> sv_heap r = sv_heap t"
      have vr: "vtab_wf r" using vol_wfD(2) [OF wt] r by (simp add: vtab_wf_def fs_same_def)
      show "wp (forget_vnode p) (\<lambda>_. released L N p v s) (\<lambda>_ _. False) r"
      proof (rule rest)
        fix q assume q: "mem_step r q" "vtab_wf q" "sv_heap q = (sv_heap t)(p := None)"
        note m = mem_stepD [OF q(1)]
        have nb: "nblocks q = nblocks t" using m(4) r fs_same_nblocks by metis
        have ne: "sv_ino w \<noteq> sv_ino v" if "sv_heap t c = Some w" "c \<noteq> p" for c w
          using vtab_inj [OF vol_wfD(2) [OF wt] that(1) hp] that(2) by auto
        have "vol_wf L (N(sv_ino v := None)) q"
        proof (rule vol_drop_inode [OF wt N own m(1) _ nb _ q(2)])
          show "sv_heap t c = Some w \<and> sv_ino w \<noteq> sv_ino v" if "sv_heap q c = Some w" for c w
            using that ne [of c w] unfolding q(3) by (simp split: if_splits)
          show "sv_heap q c = Some w" if "sv_heap t c = Some w" "sv_ino w \<noteq> sv_ino v" for c w
            using that hp unfolding q(3) by auto
        qed (use m r in simp_all)
        moreover have "keeps (N(sv_ino v := None)) s q"
        proof (rule keeps_trans [of N s t])
          show "keeps N s t" using t by simp
          show "keeps (N(sv_ino v := None)) t q" using m r nb by (simp add: keeps_def)
        qed (simp split: if_splits)
        ultimately show "vol_wf L (if gone v then N(sv_ino v := None) else N) q
          \<and> keeps (if gone v then N(sv_ino v := None) else N) s q" using g by simp
      qed (use r vr in simp_all)
    qed simp
    then show ?thesis using True by (simp add: wp_sv_get [OF hp] wp_kwhen)
  qed
qed simp

lemma owned_none: "fmap i d = (\<lambda>_. 0) \<Longrightarrow> sfi_indirect i = 0 \<Longrightarrow> owned i d = {}"
  by (auto simp: owned_def)

lemma keeps_shrink:
  assumes wf: "vol_wf L N s" and st: "file_shrink p v v' s t" and M: "\<And>a i. M a = Some i \<Longrightarrow> N a = Some i \<and> a \<noteq> sv_ino v"
  shows "keeps M s t"
  unfolding keeps_def
proof (intro conjI allI impI ballI)
  note d = st [unfolded file_shrink_def]
  have v: "sv_heap s p = Some v" and fs: "fs_same s t" using d by simp_all
  show "nblocks t = nblocks s" by (rule fs_same_nblocks [OF fs])
  fix a i b assume m: "M a = Some i" and b: "b \<in> owned i (disk s)"
  have "b \<notin> owned (sv_i v) (disk s)" using vol_disjoint [OF wf _ vol_wfD(7) [OF wf v], of a i] M [OF m] b by blast
  then have "b \<noteq> sfi_indirect (sv_i v) \<or> sfi_indirect (sv_i v) = 0" by (auto simp: owned_def)
  then show "disk t ! b = disk s ! b" using d by blast
qed

lemma sfs_reclaim_last_wp:
  assumes wf: "vol_wf L N s" and v: "sv_heap s p = Some v" "vn_refcount v = 1" "vn_opencount v = 0"
    and ty: "sfi_linkcount (sv_i v) = 0 \<longrightarrow> sfi_type (sv_i v) = SFS_TYPE_FILE"
  shows "wp (sfs_reclaim p) (\<lambda>_. released L N p v s) (\<lambda>_ _. False) s"
proof (cases "sfi_linkcount (sv_i v) = 0")
  case False
  then show ?thesis
    using sync_forget_wp [OF wf v] by (simp add: sfs_reclaim_def wp_kbind wp_sv_get [OF v(1)] v(2) wp_kwhen)
next
  case True
  have N: "N (sv_ino v) = Some (sv_i v)" by (rule vol_wfD(7) [OF wf v(1)])
  have rc: "0 < vn_refcount v" "0 \<le> vn_opencount v" and ops: "vn_ops v = Some sfs_fileops"
    using vtab_vnode [OF vol_wfD(2) [OF wf] v(1)] ty True by (simp_all add: sfs_ops_of_def)
  have g: "gone v" using True v(2) by (simp add: gone_def)
  have cut: "(\<lambda>fb. if trunc_keeps ((nat 0 + 511) div 512) fb then fmap (sv_i v) (disk s) fb else 0) = (\<lambda>_. 0)"
    by (auto simp: trunc_keeps_def fun_eq_iff)
  have "wp (VOP_TRUNCATE p 0) (\<lambda>_. wp (kbind (sfs_sync_inode p) (\<lambda>_. kbind (sv_get p) (\<lambda>v.
       kbind (kwhen (sfi_linkcount (sv_i v) = 0) (sfs_bfree (sv_ino v))) (\<lambda>_. forget_vnode p))))
      (\<lambda>_. released L N p v s) (\<lambda>_ _. False)) (\<lambda>_ _. False) s"
    unfolding VOP_TRUNCATE_def vop_file [OF v(1) ops rc]
  proof (rule wp_mono [OF sfs_truncate_wp [OF vol_wfD(1) [OF wf] v(1) vol_wfD(3) [OF wf N], of 0]])
    fix x :: unit and t
    assume "\<exists>v'. file_shrink p v v' s t \<and> sfi_size (sv_i v') = nat 0
       \<and> fmap (sv_i v') (disk t) = (\<lambda>fb. if trunc_keeps ((nat 0 + 511) div 512) fb then fmap (sv_i v) (disk s) fb else 0)
       \<and> ((nat 0 + 511) div 512 < 15 \<longrightarrow> sfi_indirect (sv_i v') = 0)"
    then obtain w where st: "file_shrink p v w s t" and w: "fmap (sv_i w) (disk t) = (\<lambda>_. 0)" "sfi_indirect (sv_i w) = 0"
      unfolding cut by auto
    have vs: "vnode_same v w" and h: "sv_heap t = (sv_heap s)(p \<mapsto> w)" using st by (simp_all add: file_shrink_def)
    have wt: "vol_wf L (N(sv_ino v \<mapsto> sv_i w)) t" by (rule vol_file_shrink [OF wf st])
    have same: "sv_ino w = sv_ino v" "vn_refcount w = 1" "vn_opencount w = 0" "sfi_linkcount (sv_i w) = 0"
      using vs v True by (simp_all add: vnode_same_def)
    have kp: "keeps (N(sv_ino v := None)) s t" by (rule keeps_shrink [OF wf st]) (simp split: if_splits)
    show "wp (kbind (sfs_sync_inode p) (\<lambda>_. kbind (sv_get p) (\<lambda>v.
       kbind (kwhen (sfi_linkcount (sv_i v) = 0) (sfs_bfree (sv_ino v))) (\<lambda>_. forget_vnode p))))
      (\<lambda>_. released L N p v s) (\<lambda>_ _. False) t"
    proof (rule wp_mono [OF sync_forget_wp [OF wt _ same(2,3)]])
      show "sv_heap t p = Some w" by (simp add: h)
      show "sfi_linkcount (sv_i w) = 0 \<longrightarrow> owned (sv_i w) (disk t) = {}" using owned_none [OF w] by simp
      fix x :: unit and r
      assume "released L (N(sv_ino v \<mapsto> sv_i w)) p w t r"
      then have r: "vol_wf L (N(sv_ino v := None)) r" "keeps (N(sv_ino v := None)) t r" "sv_heap r = (sv_heap t)(p := None)"
        using same by (simp_all add: released_def Let_def gone_def)
      have "keeps (N(sv_ino v := None)) s r" by (rule keeps_trans [OF kp r(2)])
      then show "released L N p v s r" using r g v(2) h by (simp add: released_def Let_def)
    qed simp
  qed simp_all
  then show ?thesis unfolding sfs_reclaim_def wp_kbind [of "sv_get p"] wp_sv_get [OF v(1)]
    using v(2) True by (simp add: wp_kbind [of "VOP_TRUNCATE _ _"] wp_kwhen kwhen_def)
qed

lemma vnode_decref_wp:
  assumes wf: "vol_wf L N s" and v: "sv_heap s p = Some v" and oc: "vn_refcount v = 1 \<longrightarrow> vn_opencount v = 0"
    and ty: "sfi_linkcount (sv_i v) = 0 \<longrightarrow> sfi_type (sv_i v) = SFS_TYPE_FILE"
  shows "wp (vnode_decref p) (\<lambda>_. released L N p v s) (\<lambda>_ _. False) s"
proof (cases "vn_refcount v = 1")
  case True
  have oc0: "vn_opencount v = 0" using oc True by simp
  have "wp (kattempt (VOP_RECLAIM p)) (\<lambda>_. released L N p v s) (\<lambda>_ _. False) s"
    unfolding wp_kattempt VOP_RECLAIM_def vop_any [OF wf v]
    using sfs_reclaim_last_wp [OF wf v True oc0 ty] by (rule wp_mono) simp_all
  then show ?thesis unfolding vnode_decref_def wp_kbind [of "sv_get p"] wp_sv_get [OF v]
    using True by (simp add: wp_kbind wp_kassert wp_kret)
next
  case False
  then have rc: "1 < vn_refcount v" using vtab_vnode [OF vol_wfD(2) [OF wf] v] by simp
  let ?t = "s\<lparr>sv_heap := (sv_heap s)(p \<mapsto> v\<lparr>vn_refcount := vn_refcount v - 1\<rparr>)\<rparr>"
  have "vol_wf L N ?t" by (rule vol_incref [OF wf v refl]) (use rc in simp)
  moreover have "keeps N s ?t" by (simp add: keeps_def)
  ultimately have "released L N p v s ?t" using False by (simp add: released_def Let_def gone_def)
  then show ?thesis unfolding vnode_decref_def wp_kbind wp_sv_get [OF v]
    using rc by (simp add: wp_kassert wp_sv_upd [OF v])
qed

section \<open>New objects\<close>

text \<open>The inode in a block of zeros.\<close>

definition zero_inode :: sfs_inode where
  "zero_inode = \<lparr>sfi_size = 0, sfi_type = SFS_TYPE_INVAL, sfi_linkcount = 0, sfi_direct = replicate 15 0,
     sfi_indirect = 0, sfi_waste = replicate 110 0\<rparr>"

lemma be_zero: "be32 0 = replicate 4 0" "be16 0 = replicate 2 0"
proof -
  have "be32 0 = [0, 0, 0, 0]" "be16 0 = [0, 0]" by (simp_all add: be32_def be16_def)
  moreover have "replicate 4 0 = [0 :: byte, 0, 0, 0]" "replicate 2 0 = [0 :: byte, 0]"
    by (simp_all add: numeral_eq_Suc)
  ultimately show "be32 0 = replicate 4 0" "be16 0 = replicate 2 0" by simp_all
qed

lemma enc_u32s_zeros: "enc_u32s (replicate n 0) = replicate (4 * n) 0"
proof (induction n)
  case (Suc n)
  have "enc_u32s (replicate (Suc n) 0) = be32 0 @ enc_u32s (replicate n 0)" by (simp add: enc_u32s_def)
  also have "\<dots> = replicate (4 + 4 * n) 0" unfolding Suc.IH be_zero by (simp only: replicate_add)
  finally show ?case by (simp only: mult_Suc_right)
qed (simp add: enc_u32s_def)

lemma zero_inode_fits: "inode_fits zero_inode"
  by (simp add: inode_fits_def zero_inode_def SFS_TYPE_INVAL_def del: replicate_Suc)

lemma dec_inode_zeros: "dec_inode zeros = zero_inode"
proof -
  have "enc_inode zero_inode = zeros"
    unfolding enc_inode_def zero_inode_def zeros_def sfs_inode.simps SFS_TYPE_INVAL_def be_zero enc_u32s_zeros
    by (simp only: replicate_add [symmetric]) (simp del: replicate_Suc)
  then show ?thesis using dec_enc_inode [OF zero_inode_fits] by simp
qed

lemma fresh_inode:
  "owned (load_inode ty zero_inode) d = {}" "ty < 65536 \<Longrightarrow> file_wf (load_inode ty zero_inode) s"
  "sfi_linkcount (load_inode ty zero_inode) = 0" "sfi_size (load_inode ty zero_inode) = 0"
proof -
  have m: "fmap (load_inode ty zero_inode) d fb = 0" for d fb
    by (simp add: load_inode_def fmap_def zero_inode_def id_entries_def del: replicate_Suc)
  then show o: "owned (load_inode ty zero_inode) d = {}" for d
    by (auto simp: owned_def load_inode_def zero_inode_def)
  show "ty < 65536 \<Longrightarrow> file_wf (load_inode ty zero_inode) s"
    using o m zero_inode_fits by (simp add: file_wf_def inode_fits_def load_inode_def)
qed (simp_all add: load_inode_def zero_inode_def)

lemma vol_leak:
  assumes wf: "vol_wf L N s" and t: "fs_wf t" "fs_same s t" "b \<notin> used s" "b < nblocks s"
    "used t = insert b (used s)" "disk t = (disk s)[b := zeros]" "sv_heap t = sv_heap s"
  shows "vol_wf (insert b L) N t" "keeps N s t"
proof -
  have nb: "nblocks t = nblocks s" and res: "reserved t = reserved s"
    using t(2) by (simp_all add: fs_same_nblocks reserved_same)
  have u: "dom N \<union> blocks_of N (disk s) \<union> reserved s \<union> L \<subseteq> used s" using vol_used [OF wf] by blast
  have other: "disk t ! c = disk s ! c" if "c \<in> used s" for c
  proof -
    have "c \<noteq> b" using that t(3) by blast
    then show ?thesis by (simp add: t(6))
  qed
  have unt: "\<forall>c \<in> owned i (disk s). disk t ! c = disk s ! c" if "N a = Some i" for a i
    using vol_wfD(3) [OF wf that] other by (auto simp: file_wf_def)
  show k: "keeps N s t" unfolding keeps_def using nb unt by blast
  have own: "owned i (disk t) = owned i (disk s)" if "N a = Some i" for a i by (rule keeps_owned [OF k that])
  have bl: "blocks_of N (disk t) = blocks_of N (disk s)"
    unfolding blocks_of_def using own by blast
  have vt: "vtab_wf t" using vol_wfD(2) [OF wf] t by (simp add: vtab_wf_def fs_same_def)
  show "vol_wf (insert b L) N t" unfolding vol_wf_def bl res nb
  proof (intro conjI allI impI)
    show "used t \<inter> {..<nblocks s} = dom N \<union> blocks_of N (disk s) \<union> reserved s \<union> insert b L"
      unfolding t(5) using vol_used [OF wf] t(4) by blast
    show "insert b L \<inter> (dom N \<union> blocks_of N (disk s) \<union> reserved s) = {}"
      using wf u t(3) unfolding vol_wf_def by blast
    show "inode_block N t" unfolding inode_block_def
    proof (intro allI impI)
      fix c j assume c: "N c = Some j"
      then have "disk t ! c = disk s ! c" using other vol_wfD(6) [OF wf c] by simp
      then show "dec_inode (disk t ! c) = j \<or> (\<exists>p v. sv_heap t p = Some v \<and> sv_ino v = c \<and> sv_dirty v)"
        using wf c t(7) unfolding vol_wf_def inode_block_def by simp
    qed
    fix a i assume a: "N a = Some i"
    show "file_wf i t"
      by (rule file_wf_untouched [OF vol_wfD(3) [OF wf a] unt [OF a] _ nb])
        (use vol_wfD(3) [OF wf a] t(5) in \<open>auto simp: file_wf_def\<close>)
    show "owned i (disk t) \<inter> (dom N \<union> reserved s) = {}" "sfs_ops_of (sfi_type i) \<noteq> None"
      unfolding own [OF a] using vol_wfD(4,5) [OF wf a] by simp_all
    fix c j assume c: "N c = Some j" "a \<noteq> c"
    show "owned i (disk t) \<inter> owned j (disk t) = {}" unfolding own [OF a] own [OF c(1)] by (rule vol_disjoint [OF wf a c])
  next
    show "dom N \<inter> reserved s = {}" using wf by (simp add: vol_wf_def)
    show "N (sv_ino v) = Some (sv_i v)" if "sv_heap t p = Some v" for p v using vol_wfD(7) [OF wf] that t(7) by simp
  qed (rule t(1) vt)+
qed

lemma sfs_makeobj_wp:
  assumes wf: "vol_wf L N s" and ty: "sfs_ops_of ty = Some ops"
  defines "i \<equiv> load_inode ty zero_inode"
  shows "wp (sfs_makeobj ty)
    (\<lambda>p t. \<exists>b. b \<notin> used s \<and> b < nblocks s \<and> vol_wf L (N(b \<mapsto> i)) t \<and> keeps N s t
       \<and> sv_heap s p = None \<and> sv_heap t = (sv_heap s)(p \<mapsto> new_vnode ops i b True))
    (\<lambda>e t. e = ENOSPC \<and> t = s \<and> {..<nblocks s} \<subseteq> used s
       \<or> e = ENOMEM \<and> (\<exists>b. b \<notin> used s \<and> vol_wf (insert b L) N t \<and> keeps N s t \<and> used t = insert b (used s)
            \<and> sv_heap t = sv_heap s)) s"
    (is "wp _ ?Q ?R s")
proof -
  have tyc: "ty \<noteq> SFS_TYPE_INVAL" "ty < 65536"
    using ops_cases [OF ty] by (auto simp: SFS_TYPE_INVAL_def SFS_TYPE_FILE_def SFS_TYPE_DIR_def)
  have it: "sfi_type i = ty" using tyc by (simp add: i_def load_inode_def)
  show ?thesis unfolding sfs_makeobj_def wp_kbind
  proof (rule wp_mono [OF sfs_balloc_wp [OF vol_wfD(1) [OF wf]]])
    fix b t
    assume t: "fs_wf t \<and> fs_same s t \<and> b \<notin> used s \<and> b < nblocks s \<and> b \<noteq> 0 \<and> used t = insert b (used s)
       \<and> disk t = (disk s)[b := zeros] \<and> sv_heap t = sv_heap s"
    have lk: "vol_wf (insert b L) N t" "keeps N s t" using vol_leak [OF wf, of t b] t by blast+
    have fs: "fs_same s t" using t by simp
    have bt: "b \<in> used t" "b < nblocks t" using t fs_same_nblocks [OF fs] by simp_all
    have bL: "b \<notin> L" and bN: "N b = None"
      using vol_used [OF wf] vol_wfD(6) [OF wf, of b] t by (blast, cases "N b") auto
    have zb: "dec_inode (disk t ! b) = zero_inode"
      using t vol_wfD(1) [OF wf] by (simp add: fs_wf_def dec_inode_zeros)
    have aw: "array_wf (sfs_vnodes t)" using vol_wfD(2) [OF lk(1)] by (simp add: vtab_wf_def)
    have no: "sv_ino w \<noteq> b" if "sv_heap t q = Some w" for q w using vol_wfD(7) [OF lk(1) that] bN by auto
    let ?n = "length (array_list (sfs_vnodes t))"
    have num: "nat (array_getnum (sfs_vnodes t)) = ?n" using array_length [OF aw] by (simp add: array_getnum_def)
    have new: "wp (load_new b ty) ?Q ?R t"
    proof (rule wp_mono [OF load_new_wp [OF vol_wfD(1,2) [OF lk(1)] bt, of ty ops]])
      show "ty = SFS_TYPE_INVAL \<or> sfi_type (dec_inode (disk t ! b)) = SFS_TYPE_INVAL"
        by (simp add: zb zero_inode_def)
      show "sfs_ops_of (sfi_type (load_inode ty (dec_inode (disk t ! b)))) = Some ops"
        unfolding zb i_def [symmetric] it by (rule ty)
    next
      fix p r
      assume "load_done t (new_vnode ops (load_inode ty (dec_inode (disk t ! b))) b (ty \<noteq> SFS_TYPE_INVAL)) p r"
      then have d: "mem_step t r" "sv_heap t p = None" "array_wf (sfs_vnodes r)"
        "array_list (sfs_vnodes r) = array_list (sfs_vnodes t) @ [p]" "sv_heap r = (sv_heap t)(p \<mapsto> new_vnode ops i b True)"
        using tyc by (simp_all add: load_done_def zb i_def)
      have vr: "vtab_wf r"
        by (rule vtab_add [OF vol_wfD(2) [OF lk(1)] d(2-5)]) (use ty it no in \<open>simp_all add: new_vnode_def\<close>)
      have "vol_wf L (N(b \<mapsto> sv_i (new_vnode ops i b True))) r"
        by (rule vol_new_inode [OF lk(1) bL d(1) vr d(2,5)])
          (use ty it fresh_inode(1,2) tyc in \<open>simp_all add: new_vnode_def i_def\<close>)
      then have "vol_wf L (N(b \<mapsto> i)) r" by (simp add: new_vnode_def)
      moreover have "keeps N s r" using keeps_trans [OF lk(2) keeps_mem [OF d(1)]] by simp
      ultimately show "?Q p r" using t d by auto
    next
      fix e r
      assume "load_fail t e r"
      then have f: "e = ENOMEM" "mem_step t r" "sv_heap r = sv_heap t" "sfs_vnodes r = sfs_vnodes t"
        by (simp_all add: load_fail_def)
      have "vol_wf (insert b L) N r" by (rule vol_wf_mem [OF lk(1) f(2-4)])
      moreover have "keeps N s r" using keeps_trans [OF lk(2) keeps_mem [OF f(2)]] by simp
      ultimately show "?R e r" using f t mem_stepD(3) [OF f(2)] by auto
    qed
    show "wp (sfs_loadvnode b ty) ?Q ?R t" unfolding sfs_loadvnode_def wp_kbind wp_kget num
    proof (rule wp_mono [OF load_search_wp [OF lk(1), of 0 ?n b, unfolded add_0, OF refl]])
      fix r q
      assume r: "q = t \<and> (case r of
        None \<Rightarrow> \<forall>j. 0 \<le> j \<and> j < ?n \<longrightarrow> (\<forall>w. sv_heap t (array_list (sfs_vnodes t) ! j) = Some w \<longrightarrow> sv_ino w \<noteq> b)
      | Some p \<Rightarrow> \<exists>v. sv_heap t p = Some v \<and> sv_ino v = b)"
      then have "r = None" using no by (cases r) auto
      then show "wp (case r of None \<Rightarrow> load_new b ty
        | Some sv \<Rightarrow> kbind (kassert (ty = SFS_TYPE_INVAL)) (\<lambda>_. kbind (vnode_incref sv) (\<lambda>_. kret sv))) ?Q ?R q"
        using r new by simp
    qed simp
  qed simp
qed

end
