(* ===== verification/SfsName.thy ===== *)
theory SfsName
  imports SfsVol
begin

text \<open>
  The name operations of sfs on a consistent volume: looking up, creating, linking and removing a file
  in the root directory (the only directory an sfs volume has), with the link counts and the
  volume invariant they keep.
\<close>

section \<open>A volume with its root directory\<close>

definition links :: "sfs_dir list \<Rightarrow> nat \<Rightarrow> nat" where
  "links es a = length (filter (\<lambda>e. sfd_ino e = a) es)"

text \<open>
  Names are unique, name existing files other than the root, and every file's link count is the
  number of its names.
\<close>

definition dir_good :: "(nat \<rightharpoonup> sfs_inode) \<Rightarrow> sfs_dir list \<Rightarrow> bool" where
  "dir_good N es \<longleftrightarrow> dir_wf es \<and> (\<forall>e \<in> set es. live e \<longrightarrow> sfd_ino e \<noteq> 1 \<and> N (sfd_ino e) \<noteq> None)
     \<and> (\<forall>a i. N a = Some i \<longrightarrow> a \<noteq> 1 \<longrightarrow> sfi_type i = SFS_TYPE_FILE \<and> sfi_linkcount i = links es a)"

text \<open>A consistent volume whose root directory has the entries \<open>es\<close>.\<close>

definition vol_ok :: "nat set \<Rightarrow> (nat \<rightharpoonup> sfs_inode) \<Rightarrow> sfs_dir list \<Rightarrow> sfs_fs \<Rightarrow> bool" where
  "vol_ok L N es s \<longleftrightarrow> vol_wf L N s \<and> dir_good N es
     \<and> (\<exists>r. N 1 = Some r \<and> dir_ok r \<and> 0 < sfi_linkcount r \<and> dir_ents r (disk s) = es)"

lemma vol_okD:
  assumes "vol_ok L N es s"
  shows "vol_wf L N s" "dir_good N es" "dir_wf es"
  using assms by (simp_all add: vol_ok_def dir_good_def)

text \<open>The vnode of the root directory.\<close>

definition root_vnode :: "nat \<Rightarrow> sfs_vnode \<Rightarrow> sfs_fs \<Rightarrow> bool" where
  "root_vnode d v s \<longleftrightarrow> sv_heap s d = Some v \<and> sv_ino v = 1"

lemma root_pre:
  assumes "vol_ok L N es s" and "root_vnode d v s"
  shows "dir_pre d v s" "dir_ents (sv_i v) (disk s) = es" "N 1 = Some (sv_i v)" "0 < sfi_linkcount (sv_i v)" "dir_ok (sv_i v)"
proof -
  have v: "sv_heap s d = Some v" "sv_ino v = 1" using assms(2) by (simp_all add: root_vnode_def)
  have wf: "vol_wf L N s" by (rule vol_okD(1) [OF assms(1)])
  show N: "N 1 = Some (sv_i v)" using vol_wfD(7) [OF wf v(1)] v(2) by simp
  obtain r where r: "N 1 = Some r" "dir_ok r" "0 < sfi_linkcount r" "dir_ents r (disk s) = es"
    using assms(1) unfolding vol_ok_def by blast
  have e: "sv_i v = r" using N r(1) by simp
  show "dir_ents (sv_i v) (disk s) = es" "0 < sfi_linkcount (sv_i v)" "dir_ok (sv_i v)" using r e by simp_all
  show "dir_pre d v s" unfolding dir_pre_def e
    using vol_wfD(1) [OF wf] v(1) vol_wfD(3) [OF wf r(1)] r(2) by simp
qed

lemma vol_ok_mem:
  assumes "vol_ok L N es s" and "mem_step s t" and "vol_wf L N t"
  shows "vol_ok L N es t"
  using assms(1,3) mem_stepD(2) [OF assms(2)] by (simp add: vol_ok_def)

lemma read_from_mem:
  assumes "read_from p v s t"
  shows "mem_step s t" "sv_heap t = sv_heap s" "sfs_vnodes t = sfs_vnodes s"
  using assms by (auto simp: read_from_def file_step_def mem_step_def fs_same_def fun_upd_idem)

lemma links_put:
  assumes "i \<le> length es" and "i < length es \<longrightarrow> \<not> live (es ! i)" and "a \<noteq> 0"
  shows "links (put_ent i e es) a = links es a + (if sfd_ino e = a then 1 else 0)"
proof (cases "i < length es")
  case False
  then show ?thesis by (simp add: links_def put_ent_def)
next
  case True
  then have d: "sfd_ino (es ! i) = 0" using assms(2) by (simp add: live_def)
  have es: "es = take i es @ es ! i # drop (Suc i) es" using True by (simp add: id_take_nth_drop)
  have "links es a = links (take i es) a + links (drop (Suc i) es) a"
    by (subst es) (use d assms(3) in \<open>simp add: links_def\<close>)
  moreover have "put_ent i e es = take i es @ e # drop (Suc i) es" using True by (simp add: put_ent_def upd_conv_take_nth_drop)
  ultimately show ?thesis by (simp add: links_def)
qed

lemma links_erase:
  assumes "i < length es" and "\<not> live e" and "a \<noteq> 0"
  shows "links es a = links (put_ent i e es) a + (if sfd_ino (es ! i) = a then 1 else 0)"
proof -
  have d: "sfd_ino e = 0" using assms(2) by (simp add: live_def)
  have es: "es = take i es @ es ! i # drop (Suc i) es" using assms(1) by (simp add: id_take_nth_drop)
  have "put_ent i e es = take i es @ e # drop (Suc i) es" using assms(1) by (simp add: put_ent_def upd_conv_take_nth_drop)
  then have "links (put_ent i e es) a = links (take i es) a + links (drop (Suc i) es) a"
    using d assms(3) by (simp add: links_def)
  moreover have "links es a = links (take i es) a + (if sfd_ino (es ! i) = a then 1 else 0) + links (drop (Suc i) es) a"
    by (subst es) (simp add: links_def)
  ultimately show ?thesis by simp
qed

lemma links_0: "links es a = 0 \<longleftrightarrow> (\<forall>e \<in> set es. sfd_ino e \<noteq> a)"
  by (auto simp: links_def filter_empty_conv)

lemma links_le: "links es a \<le> length es"
  by (simp add: links_def)

section \<open>Changing the link count of a loaded inode\<close>

definition with_links :: "nat \<Rightarrow> sfs_vnode \<Rightarrow> sfs_vnode" where
  "with_links n v = v\<lparr>sv_i := (sv_i v)\<lparr>sfi_linkcount := n\<rparr>, sv_dirty := True\<rparr>"

lemma links_map: "fmap (i\<lparr>sfi_linkcount := n\<rparr>) d = fmap i d" "owned (i\<lparr>sfi_linkcount := n\<rparr>) d = owned i d"
  "fblock (i\<lparr>sfi_linkcount := n\<rparr>) d = fblock i d"
proof -
  show m: "fmap (i\<lparr>sfi_linkcount := n\<rparr>) d = fmap i d" by (simp add: fmap_def id_entries_def fun_eq_iff)
  show "owned (i\<lparr>sfi_linkcount := n\<rparr>) d = owned i d" by (simp add: owned_def m)
  show "fblock (i\<lparr>sfi_linkcount := n\<rparr>) d = fblock i d" by (simp add: fblock_def m fun_eq_iff)
qed

lemma vol_links:
  assumes wf: "vol_wf L N s" and v: "sv_heap s p = Some v" and n: "n < 65536"
  shows "vol_wf L (N(sv_ino v \<mapsto> (sv_i v)\<lparr>sfi_linkcount := n\<rparr>)) (s\<lparr>sv_heap := (sv_heap s)(p \<mapsto> with_links n v)\<rparr>)"
proof -
  let ?v = "with_links n v" and ?i = "(sv_i v)\<lparr>sfi_linkcount := n\<rparr>"
  let ?t = "s\<lparr>sv_heap := (sv_heap s)(p \<mapsto> ?v)\<rparr>"
  have N: "N (sv_ino v) = Some (sv_i v)" by (rule vol_wfD(7) [OF wf v])
  have i: "sv_i ?v = ?i" "sv_ino ?v = sv_ino v" "sv_dirty ?v" by (simp_all add: with_links_def)
  have h: "sv_heap ?t = (sv_heap s)(p \<mapsto> ?v)" by simp
  have fw: "file_wf ?i ?t" using vol_wfD(3) [OF wf N] n by (simp add: file_wf_def links_map inode_fits_def)
  have ub: "owned (sv_i v) (disk s) \<subseteq> used s \<inter> {..<nblocks s}" using vol_wfD(3) [OF wf N] by (simp add: file_wf_def)
  show ?thesis
  proof (rule vol_step [OF wf N _ _ _ fw])
    show "vtab_wf ?t"
      by (rule vtab_wf_upd [OF vol_wfD(2) [OF wf] v _ h])
        (use vtab_vnode [OF vol_wfD(2) [OF wf] v] in \<open>simp_all add: with_links_def\<close>)
    show "(N(sv_ino v \<mapsto> ?i)) (sv_ino w) = Some (sv_i w)" if "sv_heap ?t q = Some w" for q w
      using heap_upd_inodes [OF wf v h i(2) that] unfolding i(1) .
    have "inode_block (N(sv_ino v \<mapsto> sv_i ?v)) ?t" by (rule inode_block_upd [OF wf v h i(2)]) (use i(3) in simp_all)
    then show "inode_block (N(sv_ino v \<mapsto> ?i)) ?t" unfolding i(1) .
    show "used ?t \<inter> {..<nblocks ?t} = (used s \<inter> {..<nblocks s} - owned (sv_i v) (disk s)) \<union> owned ?i (disk ?t)"
      unfolding links_map using ub by auto
  qed (use vol_wfD(1) [OF wf] vol_wfD(5) [OF wf N] in \<open>simp_all add: links_map\<close>)
qed

lemma inc_link_wp:
  assumes "sv_heap s p = Some v" and "sfi_linkcount (sv_i v) < 65535"
  shows "wp (inc_link p) Q R s = Q () (s\<lparr>sv_heap := (sv_heap s)(p \<mapsto> with_links (sfi_linkcount (sv_i v) + 1) v)\<rparr>)"
  using assms(2) by (simp add: inc_link_def wp_sv_upd [OF assms(1)] with_links_def)

lemma dec_link_wp:
  assumes "sv_heap s p = Some v" and "0 < sfi_linkcount (sv_i v)"
  shows "wp (dec_link p) Q R s = Q () (s\<lparr>sv_heap := (sv_heap s)(p \<mapsto> with_links (sfi_linkcount (sv_i v) - 1) v)\<rparr>)"
  using assms(2) by (simp add: dec_link_def wp_kbind wp_kassert wp_sv_get [OF assms(1)] wp_sv_upd [OF assms(1)] with_links_def)

section \<open>Looking up\<close>

text \<open>A lookup that failed for want of memory.\<close>

definition no_memory :: "sfs_fs \<Rightarrow> errno \<Rightarrow> sfs_fs \<Rightarrow> bool" where
  "no_memory s e t \<longleftrightarrow> e = ENOMEM \<and> mem_step s t \<and> sv_heap t = sv_heap s"

lemma vnode_got_mem:
  assumes "vnode_got N ino t p q" and "mem_step s t" and h: "sv_heap t = sv_heap s"
  shows "vnode_got N ino s p q"
  using assms(1) mem_step_trans [OF assms(2)] unfolding vnode_got_def h by blast

lemma sfs_lookonce_wp:
  assumes ok: "vol_ok L N es s" and d: "root_vnode d dv s"
  shows "wp (sfs_lookonce d name)
    (\<lambda>r t. vol_ok L N es t \<and> snd r < length es \<and> live (es ! snd r) \<and> dname (es ! snd r) = name
       \<and> dir_map es name = Some (sfd_ino (es ! snd r)) \<and> vnode_got N (sfd_ino (es ! snd r)) s (fst r) t)
    (\<lambda>e t. vol_ok L N es t \<and> mem_step s t \<and> sv_heap t = sv_heap s
       \<and> (e = ENOENT \<and> dir_map es name = None \<or> e = ENOMEM \<and> dir_map es name \<noteq> None)) s"
    (is "wp _ ?Q ?R s")
proof -
  have wf: "vol_wf L N s" and good: "dir_good N es" and dwf: "dir_wf es" using vol_okD [OF ok] by simp_all
  note rt = root_pre [OF ok d]
  have dwf': "dir_wf (dir_ents (sv_i dv) (disk s))" unfolding rt(2) by (rule dwf)
  show ?thesis unfolding sfs_lookonce_def wp_kbind
  proof (rule wp_mono [OF sfs_dir_findname_wp [OF rt(1) dwf', unfolded rt(2)]])
    fix r t
    assume r: "read_from d dv s t \<and> found_in es name (length es) (fst r) \<and> free_in es (length es) (snd r)
       \<and> map_option fst (fst r) = dir_map es name"
    have m: "mem_step s t" "sv_heap t = sv_heap s" "sfs_vnodes t = sfs_vnodes s"
      using r read_from_mem by blast+
    have wt: "vol_wf L N t" by (rule vol_wf_mem [OF wf m])
    show "wp (case fst r of None \<Rightarrow> kfail ENOENT
       | Some (ino, slot) \<Rightarrow> kbind (sfs_loadvnode ino SFS_TYPE_INVAL) (\<lambda>ret. kbind (sv_get ret) (\<lambda>v.
           if sfi_linkcount (sv_i v) = 0 then kpanic else kret (ret, slot)))) ?Q ?R t"
    proof (cases "fst r")
      case None
      then have "dir_map es name = None" using r by (metis option.simps(8))
      then show ?thesis using None m vol_ok_mem [OF ok m(1) wt] by (simp add: wp_kfail)
    next
      case (Some c)
      obtain ino slot where c: "c = (ino, slot)" by (cases c)
      have f: "slot < length es" "live (es ! slot)" "dname (es ! slot) = name" "ino = sfd_ino (es ! slot)"
        using r Some c by (auto simp: found_in_def)
      have dm: "dir_map es name = Some ino" using r Some c by (metis fst_conv option.simps(9))
      have es: "es ! slot \<in> set es" using f(1) by simp
      then have "sfd_ino (es ! slot) \<noteq> 1 \<and> N (sfd_ino (es ! slot)) \<noteq> None"
        using good f(2) unfolding dir_good_def by simp
      then have n1: "ino \<noteq> 1" "N ino \<noteq> None" by (simp_all add: f(4))
      then obtain i where i: "N ino = Some i" by blast
      have "links es ino \<noteq> 0" using es f(4) by (auto simp: links_0)
      then have lc: "sfi_linkcount i \<noteq> 0" using good i n1(1) unfolding dir_good_def by metis
      have "wp (sfs_loadvnode ino SFS_TYPE_INVAL) (\<lambda>ret. wp (kbind (sv_get ret) (\<lambda>v.
           if sfi_linkcount (sv_i v) = 0 then kpanic else kret (ret, slot))) ?Q ?R) ?R t"
      proof (rule wp_mono [OF sfs_loadvnode_wp [OF wt i]])
        fix p q
        assume g: "vol_wf L N q \<and> vnode_got N ino t p q"
        then obtain v where v: "sv_heap q = (sv_heap t)(p \<mapsto> v)" "sv_ino v = ino" "N ino = Some (sv_i v)"
          unfolding vnode_got_def by blast
        have hp: "sv_heap q p = Some v" by (simp add: v(1))
        have mq: "mem_step t q" using g by (simp add: vnode_got_def)
        have "vnode_got N ino s p q" by (rule vnode_got_mem [OF _ m(1,2)]) (use g in simp)
        then show "wp (kbind (sv_get p) (\<lambda>v. if sfi_linkcount (sv_i v) = 0 then kpanic else kret (p, slot))) ?Q ?R q"
          using v(3) i lc f dm vol_ok_mem [OF ok mem_step_trans [OF m(1) mq]] g
          by (simp add: wp_kbind wp_sv_get [OF hp] wp_kret)
      next
        fix e q
        assume g: "vol_wf L N q \<and> load_fail t e q \<and> (\<forall>p w. sv_heap t p = Some w \<longrightarrow> sv_ino w \<noteq> ino)"
        then have "mem_step s q" "e = ENOMEM" "sv_heap q = sv_heap s"
          using m mem_step_trans by (auto simp: load_fail_def)
        then show "?R e q" using vol_ok_mem [OF ok] g dm by simp
      qed
      then show ?thesis by (simp add: Some c wp_kbind)
    qed
  qed simp
qed

section \<open>Writing an entry of the root directory\<close>

lemma dir_good_root [simp]: "dir_good (N(1 := x)) es \<longleftrightarrow> dir_good N es"
  by (auto simp: dir_good_def)

lemmas dir_good_root0 [simp] = dir_good_root [unfolded One_nat_def]

lemma dir_ents_keeps:
  assumes "keeps N s t" and "N a = Some i"
  shows "dir_ents i (disk t) = dir_ents i (disk s)"
  using owned_untouched(3) [of i "disk s" "disk t"] assms by (simp add: keeps_def dir_ents_def)

lemma vol_ok_keeps:
  assumes ok: "vol_ok L N es s" and wf: "vol_wf L' M t" and k: "keeps K s t" "K 1 = N 1"
    and m: "M 1 = N 1" and good: "dir_good M es"
  shows "vol_ok L' M es t"
proof -
  obtain r where r: "N 1 = Some r" "dir_ok r" "0 < sfi_linkcount r" "dir_ents r (disk s) = es"
    using ok unfolding vol_ok_def by blast
  have "dir_ents r (disk t) = es" using dir_ents_keeps [OF k(1)] k(2) r by simp
  then show ?thesis using wf good r m by (simp add: vol_ok_def)
qed

lemma keeps_file_step:
  assumes wf: "vol_wf L N s" and st: "file_step p v v' s t"
    and M: "\<And>a i. M a = Some i \<Longrightarrow> N a = Some i \<and> a \<noteq> sv_ino v"
  shows "keeps M s t"
  unfolding keeps_def
proof (intro conjI allI impI ballI)
  note d = st [unfolded file_step_def]
  have v: "sv_heap s p = Some v" and fs: "fs_same s t" using d by simp_all
  have N: "N (sv_ino v) = Some (sv_i v)" by (rule vol_wfD(7) [OF wf v])
  show "nblocks t = nblocks s" by (rule fs_same_nblocks [OF fs])
  fix a i b
  assume m: "M a = Some i" and b: "b \<in> owned i (disk s)"
  have a: "N a = Some i" "a \<noteq> sv_ino v" using M [OF m] by simp_all
  have "b \<in> used s" using vol_wfD(3) [OF wf a(1)] b unfolding file_wf_def by blast
  moreover have "b \<notin> owned (sv_i v) (disk s)" using vol_disjoint [OF wf a(1) N a(2)] b by blast
  ultimately show "disk t ! b = disk s ! b" using d by blast
qed

text \<open>The root directory's entries become \<open>es\<close>; its vnode's value \<open>dv\<close> becomes \<open>dv'\<close>.\<close>

definition root_step :: "nat set \<Rightarrow> (nat \<rightharpoonup> sfs_inode) \<Rightarrow> nat \<Rightarrow> sfs_vnode \<Rightarrow> sfs_vnode \<Rightarrow> sfs_dir list \<Rightarrow> sfs_fs \<Rightarrow> sfs_fs \<Rightarrow> bool" where
  "root_step L N d dv dv' es s t \<longleftrightarrow> sv_heap t = (sv_heap s)(d \<mapsto> dv') \<and> vnode_same dv dv'
     \<and> dir_ok (sv_i dv') \<and> dir_ents (sv_i dv') (disk t) = es
     \<and> vol_wf L (N(1 \<mapsto> sv_i dv')) t \<and> keeps (N(1 := None)) s t"

lemma root_stepI:
  assumes ok: "vol_ok L N es0 s" and d: "root_vnode d dv s" and st: "dir_step d dv s es t"
  shows "\<exists>dv'. root_step L N d dv dv' es s t"
proof -
  obtain dv' where f: "file_step d dv dv' s t" "dir_pre d dv' t" "dir_ents (sv_i dv') (disk t) = es"
    using st unfolding dir_step_def by blast
  have wf: "vol_wf L N s" by (rule vol_okD(1) [OF ok])
  have i: "sv_ino dv = 1" using d by (simp add: root_vnode_def)
  have "vol_wf L (N(1 \<mapsto> sv_i dv')) t" using vol_file_step [OF wf f(1)] unfolding i .
  moreover have "keeps (N(1 := None)) s t"
    by (rule keeps_file_step [OF wf f(1)]) (simp add: i split: if_splits)
  moreover have "sv_heap t = (sv_heap s)(d \<mapsto> dv')" "vnode_same dv dv'" using f(1) by (simp_all add: file_step_def)
  moreover have "dir_ok (sv_i dv')" using f(2) by (simp add: dir_pre_def)
  ultimately show ?thesis unfolding root_step_def using f(3) by blast
qed

lemma root_step_ok:
  assumes st: "root_step L N d dv dv' es s t" and ok: "vol_ok L N es0 s" and d: "root_vnode d dv s" and good: "dir_good N es"
  shows "vol_ok L (N(1 \<mapsto> sv_i dv')) es t" "root_vnode d dv' t"
proof -
  note r = st [unfolded root_step_def]
  have vs: "sfi_linkcount (sv_i dv') = sfi_linkcount (sv_i dv)" "sv_ino dv' = sv_ino dv"
    using r by (simp_all add: vnode_same_def)
  show "vol_ok L (N(1 \<mapsto> sv_i dv')) es t"
    using r good root_pre(4) [OF ok d] vs unfolding vol_ok_def dir_good_root by simp
  show "root_vnode d dv' t" using r vs d by (simp add: root_vnode_def)
qed

text \<open>A name for \<open>a\<close> was written into \<open>slot\<close>.\<close>

definition entry_added :: "sfs_dir list \<Rightarrow> byte list \<Rightarrow> nat \<Rightarrow> nat \<Rightarrow> sfs_dir list \<Rightarrow> bool" where
  "entry_added es name a slot es' \<longleftrightarrow> (\<exists>e. es' = put_ent slot e es \<and> sfd_ino e = a \<and> dname e = name)
     \<and> slot \<le> length es \<and> (slot < length es \<longrightarrow> \<not> live (es ! slot)) \<and> slot < 1144
     \<and> dir_wf es' \<and> dir_map es' = (dir_map es)(name \<mapsto> a)"

definition link_error :: "sfs_dir list \<Rightarrow> byte list \<Rightarrow> errno \<Rightarrow> sfs_fs \<Rightarrow> bool" where
  "link_error es name er t \<longleftrightarrow> er = EEXIST \<and> dir_map es name \<noteq> None
          \<or> er = ENAMETOOLONG \<and> dir_map es name = None \<and> 60 \<le> length name
          \<or> er = ENOSPC \<and> {..<nblocks t} \<subseteq> used t
          \<or> er = EINVAL \<and> length es = 1144"

lemma vol_link_wp:
  assumes ok: "vol_ok L N es s" and d: "root_vnode d dv s" and a: "N a = Some i" and name: "0 \<notin> set name"
  shows "wp (sfs_dir_link d name a)
    (\<lambda>slot t. dir_map es name = None \<and> length name < 60
       \<and> (\<exists>dv' es'. root_step L N d dv dv' es' s t \<and> entry_added es name a slot es'))
    (\<lambda>er t. (\<exists>dv'. root_step L N d dv dv' es s t) \<and> link_error es name er t) s"
proof -
  note rt = root_pre [OF ok d]
  have wf: "vol_wf L N s" by (rule vol_okD(1) [OF ok])
  have "a \<noteq> 0" "a < nblocks s" "nblocks s \<le> 4194303"
    using vol_wfD(6) [OF wf a] vol_wfD(1) [OF wf] by (simp_all add: fs_wf_def)
  then have a: "0 < a" "a < 4294967296" by simp_all
  have dwf: "dir_wf (dir_ents (sv_i dv) (disk s))" unfolding rt(2) by (rule vol_okD(3) [OF ok])
  show ?thesis
  proof (rule wp_mono [OF sfs_dir_link_wp [OF rt(1) dwf a name, unfolded rt(2)]], elim conjE exE)
    fix slot t e
    assume h: "dir_map es name = None" "length name < 60" "slot \<le> length es" "slot < 1144"
      "slot < length es \<longrightarrow> \<not> live (es ! slot)" "sfd_ino e = a" "dname e = name"
      "dir_step d dv s (put_ent slot e es) t" "dir_wf (put_ent slot e es)"
      "dir_map (put_ent slot e es) = (dir_map es)(name \<mapsto> a)"
    have "entry_added es name a slot (put_ent slot e es)" unfolding entry_added_def using h by blast
    then show "dir_map es name = None \<and> length name < 60
       \<and> (\<exists>dv' es'. root_step L N d dv dv' es' s t \<and> entry_added es name a slot es')"
      using h(1,2) root_stepI [OF ok d h(8)] by blast
  next
    fix er t
    assume "dir_step d dv s es t \<and> (er = EEXIST \<and> dir_map es name \<noteq> None
          \<or> er = ENAMETOOLONG \<and> dir_map es name = None \<and> 60 \<le> length name
          \<or> er = ENOSPC \<and> {..<nblocks t} \<subseteq> used t \<or> er = EINVAL \<and> length es = 1144)"
    then show "(\<exists>dv'. root_step L N d dv dv' es s t) \<and> link_error es name er t"
      unfolding link_error_def using root_stepI [OF ok d] by simp
  qed
qed

lemma put_ent_set: "x \<in> set (put_ent i e es) \<Longrightarrow> x = e \<or> x \<in> set es"
  using set_update_subset_insert [of es i e] by (auto simp: put_ent_def split: if_splits)

lemma dir_good_upd:
  assumes good: "dir_good N es" and a: "N a = Some i" "a \<noteq> 1" and wf: "dir_wf es'"
    and new: "\<And>x. x \<in> set es' \<Longrightarrow> x \<in> set es \<or> \<not> live x \<or> sfd_ino x = a"
    and l: "links es' a = n" and other: "\<And>c. c \<noteq> 0 \<Longrightarrow> c \<noteq> a \<Longrightarrow> links es' c = links es c" and z: "N 0 = None"
  shows "dir_good (N(a \<mapsto> i\<lparr>sfi_linkcount := n\<rparr>)) es'"
proof -
  have ty: "sfi_type i = SFS_TYPE_FILE" using good a unfolding dir_good_def by blast
  have "sfd_ino x \<noteq> 1 \<and> (N(a \<mapsto> i\<lparr>sfi_linkcount := n\<rparr>)) (sfd_ino x) \<noteq> None" if "x \<in> set es'" "live x" for x
    using new [OF that(1)] that(2) good a(2) unfolding dir_good_def by auto
  moreover have "sfi_type j = SFS_TYPE_FILE \<and> sfi_linkcount j = links es' c"
    if c: "(N(a \<mapsto> i\<lparr>sfi_linkcount := n\<rparr>)) c = Some j" "c \<noteq> 1" for c j
  proof (cases "c = a")
    case True
    then show ?thesis using c l ty by auto
  next
    case False
    then have "N c = Some j" using c by simp
    moreover have "c \<noteq> 0" using z calculation by (cases c) auto
    ultimately show ?thesis using other [of c] False c(2) good unfolding dir_good_def by simp
  qed
  ultimately show ?thesis using wf unfolding dir_good_def by blast
qed

lemma vol_zero: "vol_wf L N s \<Longrightarrow> N 0 = None"
  using vol_wfD(6) [of L N s 0] by (cases "N 0") auto

lemma dir_good_link:
  assumes good: "dir_good N es" and a: "N a = Some i" "a \<noteq> 1" and z: "N 0 = None" and add: "entry_added es name a slot es'"
  shows "dir_good (N(a \<mapsto> i\<lparr>sfi_linkcount := sfi_linkcount i + 1\<rparr>)) es'"
proof -
  obtain e where e: "es' = put_ent slot e es" "sfd_ino e = a" "slot \<le> length es"
    "slot < length es \<longrightarrow> \<not> live (es ! slot)" "dir_wf es'"
    using add unfolding entry_added_def by blast
  note lk = links_put [OF e(3,4), of _ e, folded e(1), unfolded e(2)]
  have "a \<noteq> 0" using a(1) z by (cases a) auto
  moreover have "sfi_linkcount i = links es a" using good a unfolding dir_good_def by blast
  ultimately have l: "links es' a = sfi_linkcount i + 1" using lk [of a] by simp
  show ?thesis
    by (rule dir_good_upd [OF good a e(5) _ l _ z])
      (use put_ent_set e(1,2) in blast, use lk in simp)
qed

text \<open>The vnode value with one more link, and the state that holds it.\<close>

lemma link_counted:
  assumes ok: "vol_ok L N es s" and d: "root_vnode d dv s" and st: "root_step L N d dv dv' es' s t"
    and v: "sv_heap s p = Some v" "sv_ino v = a" "a \<noteq> 1" and add: "entry_added es name a slot es'"
  shows "sv_heap t p = Some v" "sfi_linkcount (sv_i v) < 65535" "p \<noteq> d"
    "vol_ok L (N(1 \<mapsto> sv_i dv', a \<mapsto> (sv_i v)\<lparr>sfi_linkcount := sfi_linkcount (sv_i v) + 1\<rparr>)) es'
       (t\<lparr>sv_heap := (sv_heap t)(p \<mapsto> with_links (sfi_linkcount (sv_i v) + 1) v)\<rparr>)"
    "root_vnode d dv' (t\<lparr>sv_heap := (sv_heap t)(p \<mapsto> with_links (sfi_linkcount (sv_i v) + 1) v)\<rparr>)"
proof -
  note r = st [unfolded root_step_def]
  have wf: "vol_wf L N s" and good: "dir_good N es" using vol_okD [OF ok] by simp_all
  show pd: "p \<noteq> d" using v d by (auto simp: root_vnode_def)
  then show vt: "sv_heap t p = Some v" using r v by simp
  have N: "N a = Some (sv_i v)" using vol_wfD(7) [OF wf v(1)] v(2) by simp
  have "sfi_linkcount (sv_i v) = links es a" using good N v(3) unfolding dir_good_def by blast
  moreover have "length es \<le> 1144" using root_pre(1,2) [OF ok d] unfolding dir_pre_def dir_ok_def by auto
  ultimately show lc: "sfi_linkcount (sv_i v) < 65535" using links_le [of es a] by simp
  have good': "dir_good (N(a \<mapsto> (sv_i v)\<lparr>sfi_linkcount := sfi_linkcount (sv_i v) + 1\<rparr>)) es'"
    by (rule dir_good_link [OF good N v(3) vol_zero [OF wf] add])
  have "vol_wf L (N(1 \<mapsto> sv_i dv')) t" using r by simp
  from vol_links [OF this vt, of "sfi_linkcount (sv_i v) + 1"] lc
  have w: "vol_wf L (N(1 \<mapsto> sv_i dv', a \<mapsto> (sv_i v)\<lparr>sfi_linkcount := sfi_linkcount (sv_i v) + 1\<rparr>))
       (t\<lparr>sv_heap := (sv_heap t)(p \<mapsto> with_links (sfi_linkcount (sv_i v) + 1) v)\<rparr>)" by (simp add: v(2))
  have "dir_good (N(1 \<mapsto> sv_i dv', a \<mapsto> (sv_i v)\<lparr>sfi_linkcount := sfi_linkcount (sv_i v) + 1\<rparr>)) es'"
    using good' dir_good_root fun_upd_twist [of a 1 N] v(3) by metis
  then show "vol_ok L (N(1 \<mapsto> sv_i dv', a \<mapsto> (sv_i v)\<lparr>sfi_linkcount := sfi_linkcount (sv_i v) + 1\<rparr>)) es'
       (t\<lparr>sv_heap := (sv_heap t)(p \<mapsto> with_links (sfi_linkcount (sv_i v) + 1) v)\<rparr>)"
    using w r root_pre(4) [OF ok d] v(3) by (simp add: vol_ok_def vnode_same_def)
  show "root_vnode d dv' (t\<lparr>sv_heap := (sv_heap t)(p \<mapsto> with_links (sfi_linkcount (sv_i v) + 1) v)\<rparr>)"
    using r d pd by (simp add: root_vnode_def vnode_same_def)
qed

section \<open>Hard links\<close>

text \<open>The outcome of a successful link of vnode \<open>p\<close> of inode \<open>a\<close> under a new name.\<close>

definition linked :: "nat set \<Rightarrow> (nat \<rightharpoonup> sfs_inode) \<Rightarrow> sfs_dir list \<Rightarrow> nat \<Rightarrow> sfs_vnode \<Rightarrow> nat \<Rightarrow> sfs_vnode \<Rightarrow> byte list \<Rightarrow> sfs_fs \<Rightarrow> sfs_fs \<Rightarrow> bool" where
  "linked L N es d dv p v name s t \<longleftrightarrow> dir_map es name = None \<and> length name < 60 \<and> (\<exists>dv' es'.
       vol_ok L (N(1 \<mapsto> sv_i dv', sv_ino v \<mapsto> (sv_i v)\<lparr>sfi_linkcount := sfi_linkcount (sv_i v) + 1\<rparr>)) es' t
     \<and> dir_map es' = (dir_map es)(name \<mapsto> sv_ino v) \<and> vnode_same dv dv' \<and> root_vnode d dv' t
     \<and> sv_heap t = (sv_heap s)(d \<mapsto> dv', p \<mapsto> with_links (sfi_linkcount (sv_i v) + 1) v)
     \<and> keeps (N(1 := None)) s t)"

lemma vol_link_inc_wp:
  assumes ok: "vol_ok L N es s" and d: "root_vnode d dv s" and v: "sv_heap s p = Some v" "sv_ino v \<noteq> 1" and name: "0 \<notin> set name"
  shows "wp (sfs_dir_link d name (sv_ino v))
    (\<lambda>_ t. wp (inc_link p) (\<lambda>_ t. linked L N es d dv p v name s t) R t)
    (\<lambda>er t. (\<exists>dv'. root_step L N d dv dv' es s t) \<and> link_error es name er t) s"
proof -
  have N: "N (sv_ino v) = Some (sv_i v)" by (rule vol_wfD(7) [OF vol_okD(1) [OF ok] v(1)])
  show ?thesis
  proof (rule wp_mono [OF vol_link_wp [OF ok d N name]], elim conjE exE)
    fix slot t dv' es'
    assume h: "dir_map es name = None" "length name < 60" "root_step L N d dv dv' es' s t"
      "entry_added es name (sv_ino v) slot es'"
    note c = link_counted [OF ok d h(3) v(1) refl v(2) h(4)]
    have "linked L N es d dv p v name s (t\<lparr>sv_heap := (sv_heap t)(p \<mapsto> with_links (sfi_linkcount (sv_i v) + 1) v)\<rparr>)"
      unfolding linked_def
      by (intro conjI h(1,2) exI [of _ dv'] exI [of _ es'] c(4,5))
        (use h(3,4) in \<open>simp_all add: root_step_def entry_added_def keeps_def nblocks_def\<close>)
    then show "wp (inc_link p) (\<lambda>_ t. linked L N es d dv p v name s t) R t"
      unfolding inc_link_wp [OF c(1,2)] .
  qed
qed

lemma sfs_link_wp:
  assumes ok: "vol_ok L N es s" and d: "root_vnode d dv s" and v: "sv_heap s p = Some v" "sv_ino v \<noteq> 1" and name: "0 \<notin> set name"
  shows "wp (sfs_link d name p) (\<lambda>_ t. linked L N es d dv p v name s t)
    (\<lambda>er t. (\<exists>dv'. root_step L N d dv dv' es s t) \<and> link_error es name er t) s"
  unfolding sfs_link_def wp_kbind wp_sv_get [OF v(1)]
  by (rule vol_link_inc_wp [OF assms])

section \<open>Creating a file\<close>

definition fresh_file :: sfs_inode where
  "fresh_file = load_inode SFS_TYPE_FILE zero_inode"

lemma fresh_file [simp]: "sfi_type fresh_file = SFS_TYPE_FILE" "sfi_linkcount fresh_file = 0" "owned fresh_file d = {}"
  by (simp_all add: fresh_file_def fresh_inode) (simp add: load_inode_def SFS_TYPE_FILE_def SFS_TYPE_INVAL_def)

lemma file_ops: "sfs_ops_of SFS_TYPE_FILE = Some sfs_fileops"
  by (simp add: sfs_ops_of_def)

text \<open>An unlinked file was made; the directory is as before.\<close>

lemma vol_made:
  assumes ok: "vol_ok L N es s" and b: "b \<notin> used s" and wf: "vol_wf L (N(b \<mapsto> fresh_file)) t" and k: "keeps N s t"
  shows "vol_ok L (N(b \<mapsto> fresh_file)) es t" "N b = None" "b \<noteq> 1" "b \<noteq> 0"
proof -
  have w: "vol_wf L N s" and good: "dir_good N es" using vol_okD [OF ok] by simp_all
  show nb: "N b = None" using vol_wfD(6) [OF w, of b] b by (cases "N b") auto
  show b1: "b \<noteq> 1" using nb ok by (auto simp: vol_ok_def)
  have "0 \<in> used s" using vol_wfD(8) [OF w] by (simp add: reserved_def)
  then show b0: "b \<noteq> 0" using b by (cases "b = 0") simp_all
  have "sfd_ino e \<noteq> b" if "e \<in> set es" for e
    using good that nb b0 unfolding dir_good_def live_def by metis
  then have l: "links es b = 0" by (simp add: links_0)
  have g: "dir_good (N(b \<mapsto> fresh_file)) es"
    using good l b1 unfolding dir_good_def by (auto split: if_splits)
  show "vol_ok L (N(b \<mapsto> fresh_file)) es t" by (rule vol_ok_keeps [OF ok wf k]) (use b1 g in simp_all)
qed

definition created :: "nat set \<Rightarrow> (nat \<rightharpoonup> sfs_inode) \<Rightarrow> sfs_dir list \<Rightarrow> nat \<Rightarrow> sfs_vnode \<Rightarrow> byte list \<Rightarrow> nat \<Rightarrow> sfs_fs \<Rightarrow> sfs_fs \<Rightarrow> bool" where
  "created L N es d dv name p s t \<longleftrightarrow> dir_map es name = None \<and> length name < 60 \<and> (\<exists>b dv' es'.
       b \<notin> used s \<and> vol_ok L (N(1 \<mapsto> sv_i dv', b \<mapsto> fresh_file\<lparr>sfi_linkcount := 1\<rparr>)) es' t
     \<and> dir_map es' = (dir_map es)(name \<mapsto> b) \<and> vnode_same dv dv' \<and> root_vnode d dv' t
     \<and> sv_heap s p = None
     \<and> sv_heap t = (sv_heap s)(d \<mapsto> dv', p \<mapsto> with_links 1 (new_vnode sfs_fileops fresh_file b True))
     \<and> keeps (N(1 := None)) s t)"

text \<open>
  A failed creation leaves the entries and the other files as they were; when memory ran out after the
  inode's block was allocated, that block is lost.
\<close>

definition create_error :: "nat set \<Rightarrow> (nat \<rightharpoonup> sfs_inode) \<Rightarrow> sfs_dir list \<Rightarrow> nat \<Rightarrow> sfs_vnode \<Rightarrow> byte list \<Rightarrow> bool \<Rightarrow> errno \<Rightarrow> sfs_fs \<Rightarrow> sfs_fs \<Rightarrow> bool" where
  "create_error L N es d dv name excl e s t \<longleftrightarrow>
     (\<exists>L' dv'. vol_ok L' (N(1 \<mapsto> sv_i dv')) es t \<and> vnode_same dv dv' \<and> sv_heap t = (sv_heap s)(d \<mapsto> dv')
        \<and> keeps (N(1 := None)) s t
        \<and> (L' = L \<and> (e = EEXIST \<and> excl \<and> dir_map es name \<noteq> None
              \<or> e = ENOMEM \<and> \<not> excl \<and> dir_map es name \<noteq> None
              \<or> dir_map es name = None \<and> (e = ENAMETOOLONG \<and> 60 \<le> length name \<or> e = ENOSPC
                   \<or> e = EINVAL \<and> length es = 1144))
           \<or> e = ENOMEM \<and> dir_map es name = None \<and> (\<exists>b. b \<notin> used s \<and> L' = insert b L)))"

lemma create_make_wp:
  assumes ok: "vol_ok L N es s" and d: "root_vnode d dv s" and name: "0 \<notin> set name" and none: "dir_map es name = None"
    and b: "b \<notin> used s" and wf: "vol_wf L (N(b \<mapsto> fresh_file)) t" and k: "keeps N s t" and p: "sv_heap s p = None"
    and h: "sv_heap t = (sv_heap s)(p \<mapsto> new_vnode sfs_fileops fresh_file b True)"
  shows "wp (kbind (sv_get p) (\<lambda>nv.
         kbind (kattempt (sfs_dir_link d name (sv_ino nv))) (\<lambda>result.
         case result of
           Inl e \<Rightarrow> kbind (vnode_decref p) (\<lambda>_. kfail e)
         | Inr _ \<Rightarrow> kbind (inc_link p) (\<lambda>_. kret p))))
     (\<lambda>p' t. p' = p \<and> created L N es d dv name p s t)
     (\<lambda>e t. create_error L N es d dv name excl e s t) t"
    (is "wp _ ?Q ?R t")
proof -
  let ?v = "new_vnode sfs_fileops fresh_file b True" and ?M = "N(b \<mapsto> fresh_file)"
  note made = vol_made [OF ok b wf k]
  have hp: "sv_heap t p = Some ?v" by (simp add: h)
  have pd: "p \<noteq> d" using p d by (auto simp: root_vnode_def)
  have dt: "root_vnode d dv t" using d pd by (simp add: root_vnode_def h)
  have vi: "sv_ino ?v = b" "sv_i ?v = fresh_file" "vn_refcount ?v = 1" "vn_opencount ?v = 0" by (simp_all add: new_vnode_def)
  have sub: "N x = Some y" if "(N(1 := None)) x = Some y" for x y using that by (simp split: if_splits)
  have sub': "(?M(1 := None)) x = Some y" if "(N(1 := None)) x = Some y" for x y
    using that made(2) by (auto split: if_splits)
  have k1: "keeps (N(1 := None)) s r" if "keeps (?M(1 := None)) t r" for r
    using keeps_trans [OF k keeps_sub [OF that sub'] sub] .
  show ?thesis unfolding wp_kbind wp_sv_get [OF hp] wp_kattempt vi(1)
  proof (rule wp_mono [OF vol_link_inc_wp [OF made(1) dt hp _ name, unfolded vi(1,2)]])
    show "b \<noteq> 1" by (rule made(3))
  next
    fix slot r
    assume r: "wp (inc_link p) (\<lambda>_ t'. linked L ?M es d dv p ?v name t t') ?R r"
    have "created L N es d dv name p s u" if lk: "linked L ?M es d dv p ?v name t u" for u
    proof -
      obtain dv' es' where l: "vol_ok L (?M(1 \<mapsto> sv_i dv', b \<mapsto> fresh_file\<lparr>sfi_linkcount := sfi_linkcount fresh_file + 1\<rparr>)) es' u"
        "dir_map es' = (dir_map es)(name \<mapsto> b)" "vnode_same dv dv'" "root_vnode d dv' u"
        "sv_heap u = (sv_heap t)(d \<mapsto> dv', p \<mapsto> with_links (sfi_linkcount fresh_file + 1) ?v)"
        "keeps (?M(1 := None)) t u" "length name < 60"
        using lk unfolding linked_def vi by (elim conjE exE) (rule that; assumption)
      have "?M(1 \<mapsto> sv_i dv', b \<mapsto> i) = N(1 \<mapsto> sv_i dv', b \<mapsto> i)" for i by (simp add: fun_eq_iff)
      then have vo: "vol_ok L (N(1 \<mapsto> sv_i dv', b \<mapsto> fresh_file\<lparr>sfi_linkcount := 1\<rparr>)) es' u" using l(1) by simp
      have "sv_heap u = (sv_heap s)(d \<mapsto> dv', p \<mapsto> with_links 1 ?v)" using l(5) pd by (simp add: h fun_eq_iff)
      then show ?thesis unfolding created_def using none l b p vo k1 [OF l(6)] by blast
    qed
    then show "wp (case Inr slot of Inl e \<Rightarrow> kbind (vnode_decref p) (\<lambda>_. kfail e)
       | Inr _ \<Rightarrow> kbind (inc_link p) (\<lambda>_. kret p)) ?Q ?R r"
      unfolding sum.case wp_kbind wp_kret by (intro wp_mono [OF r]) simp_all
  next
    fix e r
    assume "(\<exists>dv'. root_step L ?M d dv dv' es t r) \<and> link_error es name e r"
    then obtain dv' where st: "root_step L ?M d dv dv' es t r" and le: "link_error es name e r" by blast
    note q = st [unfolded root_step_def]
    have good: "dir_good ?M es" by (rule vol_okD(2) [OF made(1)])
    note ro = root_step_ok [OF st made(1) dt good]
    have hr: "sv_heap r p = Some ?v" using q pd hp by simp
    have "wp (vnode_decref p) (\<lambda>_. released L (?M(1 \<mapsto> sv_i dv')) p ?v r) (\<lambda>_ _. False) r"
      by (rule vnode_decref_wp [OF vol_okD(1) [OF ro(1)] hr]) (simp_all add: vi)
    then show "wp (case Inl e of Inl e \<Rightarrow> kbind (vnode_decref p) (\<lambda>_. kfail e)
       | Inr _ \<Rightarrow> kbind (inc_link p) (\<lambda>_. kret p)) ?Q ?R r"
      unfolding sum.case wp_kbind wp_kfail
    proof (rule wp_mono)
      fix x :: unit and u
      let ?N = "?M(1 \<mapsto> sv_i dv', b := None)"
      assume "released L (?M(1 \<mapsto> sv_i dv')) p ?v r u"
      then have u: "vol_wf L ?N u" "keeps ?N r u" "sv_heap u = (sv_heap r)(p := None)"
        by (simp_all add: released_def Let_def gone_def vi)
      have N: "?N = N(1 \<mapsto> sv_i dv')" using made(2,3) by (simp add: fun_eq_iff)
      have "vol_ok L (N(1 \<mapsto> sv_i dv')) es u"
        by (rule vol_ok_keeps [OF ro(1) u(1,2) _ _ , unfolded N])
          (use vol_okD(2) [OF ok] made(3) in simp_all)
      moreover have "sv_heap u = (sv_heap s)(d \<mapsto> dv')" using u(3) q pd p by (simp add: h fun_eq_iff)
      moreover have "keeps (N(1 := None)) s u"
        by (rule keeps_trans [OF k1 [of r] keeps_sub [OF u(2) [unfolded N]]]) (use q sub in \<open>auto split: if_splits\<close>)
      moreover have "vnode_same dv dv'" using q by simp
      moreover have "dir_map es name = None \<and> (e = ENAMETOOLONG \<and> 60 \<le> length name \<or> e = ENOSPC \<or> e = EINVAL \<and> length es = 1144)"
        using le none unfolding link_error_def by blast
      ultimately show "?R e u" unfolding create_error_def by blast
    qed simp
  qed
qed

lemma root_read:
  assumes ok: "vol_ok L N es s" and d: "root_vnode d dv s"
  shows "N(1 \<mapsto> sv_i dv) = N" "(sv_heap s)(d \<mapsto> dv) = sv_heap s"
  using root_pre(3) [OF ok d] d by (simp_all add: root_vnode_def fun_upd_idem)

text \<open>An existing file was opened instead.\<close>

definition opened :: "nat set \<Rightarrow> (nat \<rightharpoonup> sfs_inode) \<Rightarrow> sfs_dir list \<Rightarrow> byte list \<Rightarrow> nat \<Rightarrow> sfs_fs \<Rightarrow> sfs_fs \<Rightarrow> bool" where
  "opened L N es name p s t \<longleftrightarrow> vol_ok L N es t \<and> (\<exists>a. dir_map es name = Some a \<and> vnode_got N a s p t)"

lemma sfs_creat_wp:
  assumes ok: "vol_ok L N es s" and d: "root_vnode d dv s" and name: "0 \<notin> set name"
  shows "wp (sfs_creat d name excl)
    (\<lambda>p t. \<not> excl \<and> opened L N es name p s t \<or> created L N es d dv name p s t)
    (\<lambda>e t. create_error L N es d dv name excl e s t) s"
    (is "wp _ ?Q ?R s")
proof -
  have wf: "vol_wf L N s" and good: "dir_good N es" and dwf: "dir_wf es" using vol_okD [OF ok] by simp_all
  note rt = root_pre [OF ok d] and rr = root_read [OF ok d]
  have dwf': "dir_wf (dir_ents (sv_i dv) (disk s))" unfolding rt(2) by (rule dwf)
  have err: "?R e q" if q: "vol_ok L' N es q" "sv_heap q = sv_heap s" "keeps N s q"
    and e: "L' = L \<and> (e = EEXIST \<and> excl \<and> dir_map es name \<noteq> None
              \<or> e = ENOMEM \<and> \<not> excl \<and> dir_map es name \<noteq> None
              \<or> dir_map es name = None \<and> (e = ENAMETOOLONG \<and> 60 \<le> length name \<or> e = ENOSPC
                   \<or> e = EINVAL \<and> length es = 1144))
           \<or> e = ENOMEM \<and> dir_map es name = None \<and> (\<exists>b. b \<notin> used s \<and> L' = insert b L)" for e q L'
    unfolding create_error_def
    by (rule exI [of _ L'], rule exI [of _ dv], intro conjI e)
      (use q rr in \<open>auto elim!: keeps_sub split: if_splits\<close>)
  show ?thesis unfolding sfs_creat_def wp_kbind
  proof (rule wp_mono [OF sfs_dir_findname_wp [OF rt(1) dwf', unfolded rt(2)]])
    fix r t
    assume r: "read_from d dv s t \<and> found_in es name (length es) (fst r) \<and> free_in es (length es) (snd r)
       \<and> map_option fst (fst r) = dir_map es name"
    have m: "mem_step s t" "sv_heap t = sv_heap s" "sfs_vnodes t = sfs_vnodes s" "used t = used s"
      using r read_from_mem mem_stepD(3) by blast+
    have wt: "vol_wf L N t" by (rule vol_wf_mem [OF wf m(1-3)])
    have ot: "vol_ok L N es t" by (rule vol_ok_mem [OF ok m(1) wt])
    have kt: "keeps N s t" by (rule keeps_mem [OF m(1)])
    show "wp (case fst r of
       Some (ino, slot) \<Rightarrow> if excl then kfail EEXIST else sfs_loadvnode ino SFS_TYPE_INVAL
     | None \<Rightarrow> kbind (sfs_makeobj SFS_TYPE_FILE) (\<lambda>newguy. kbind (sv_get newguy) (\<lambda>nv.
         kbind (kattempt (sfs_dir_link d name (sv_ino nv))) (\<lambda>result.
         case result of Inl e \<Rightarrow> kbind (vnode_decref newguy) (\<lambda>_. kfail e)
         | Inr _ \<Rightarrow> kbind (inc_link newguy) (\<lambda>_. kret newguy))))) ?Q ?R t"
    proof (cases "fst r")
      case None
      then have none: "dir_map es name = None" using r by (metis option.simps(8))
      show ?thesis unfolding None option.case wp_kbind [of "sfs_makeobj _"]
      proof (rule wp_mono [OF sfs_makeobj_wp [OF wt file_ops, folded fresh_file_def]])
        fix p q
        assume "\<exists>b. b \<notin> used t \<and> b < nblocks t \<and> vol_wf L (N(b \<mapsto> fresh_file)) q \<and> keeps N t q
           \<and> sv_heap t p = None \<and> sv_heap q = (sv_heap t)(p \<mapsto> new_vnode sfs_fileops fresh_file b True)"
        then obtain b where b: "b \<notin> used s" "vol_wf L (N(b \<mapsto> fresh_file)) q" "keeps N t q" "sv_heap s p = None"
          "sv_heap q = (sv_heap s)(p \<mapsto> new_vnode sfs_fileops fresh_file b True)" unfolding m(2,4) by blast
        show "wp (kbind (sv_get p) (\<lambda>nv.
         kbind (kattempt (sfs_dir_link d name (sv_ino nv))) (\<lambda>result.
         case result of Inl e \<Rightarrow> kbind (vnode_decref p) (\<lambda>_. kfail e)
         | Inr _ \<Rightarrow> kbind (inc_link p) (\<lambda>_. kret p)))) ?Q ?R q"
          by (rule wp_mono [OF create_make_wp [OF ok d name none b(1,2) keeps_trans [OF kt b(3)] b(4,5)]]) simp_all
      next
        fix e q
        assume q: "e = ENOSPC \<and> q = t \<and> {..<nblocks t} \<subseteq> used t
          \<or> e = ENOMEM \<and> (\<exists>b. b \<notin> used t \<and> vol_wf (insert b L) N q \<and> keeps N t q \<and> used q = insert b (used t)
            \<and> sv_heap q = sv_heap t)"
        then show "?R e q"
        proof (elim disjE conjE exE)
          assume e: "e = ENOSPC" "q = t"
          show ?thesis unfolding e(2) by (rule err [OF ot m(2) kt]) (use none e(1) in simp)
        next
          fix b
          assume b: "e = ENOMEM" "b \<notin> used t" "vol_wf (insert b L) N q" "keeps N t q" "sv_heap q = sv_heap t"
          have "vol_ok (insert b L) N es q" by (rule vol_ok_keeps [OF ot b(3,4) refl refl good])
          then show ?thesis using none b m(2,4) keeps_trans [OF kt b(4)] by (intro err [of "insert b L"]) auto
        qed
      qed
    next
      case (Some c)
      obtain ino slot where c: "c = (ino, slot)" by (cases c)
      have dm: "dir_map es name = Some ino" using r Some c by (metis fst_conv option.simps(9))
      have f: "slot < length es" "live (es ! slot)" "ino = sfd_ino (es ! slot)"
        using r Some c by (auto simp: found_in_def)
      then have "N ino \<noteq> None" using good unfolding dir_good_def by simp
      then obtain i where i: "N ino = Some i" by blast
      show ?thesis
      proof (cases excl)
        case True
        then show ?thesis using Some c dm err [OF ot m(2) kt, of EEXIST] by (simp add: wp_kfail)
      next
        case False
        have "wp (sfs_loadvnode ino SFS_TYPE_INVAL) ?Q ?R t"
        proof (rule wp_mono [OF sfs_loadvnode_wp [OF wt i]])
          fix p q
          assume g: "vol_wf L N q \<and> vnode_got N ino t p q"
          then have "mem_step t q" by (simp add: vnode_got_def)
          then have "vol_ok L N es q" using vol_ok_mem [OF ot] g by simp
          moreover have "vnode_got N ino s p q" by (rule vnode_got_mem [OF _ m(1,2)]) (use g in simp)
          ultimately show "?Q p q" using False dm by (simp add: opened_def)
        next
          fix e q
          assume g: "vol_wf L N q \<and> load_fail t e q \<and> (\<forall>p w. sv_heap t p = Some w \<longrightarrow> sv_ino w \<noteq> ino)"
          then have q: "mem_step t q" "e = ENOMEM" "sv_heap q = sv_heap s" using m by (auto simp: load_fail_def)
          have oq: "vol_ok L N es q" by (rule vol_ok_mem [OF ot q(1)]) (use g in simp)
          show "?R e q" using err [OF oq q(3) keeps_mem [OF mem_step_trans [OF m(1) q(1)]], of e] q(2) False dm by simp
        qed
        then show ?thesis using Some c False by simp
      qed
    qed
  qed simp
qed

section \<open>Removing a name\<close>

lemma vnode_file:
  assumes ok: "vol_ok L N es s" and v: "sv_heap s p = Some v" "sv_ino v \<noteq> 1"
  shows "N (sv_ino v) = Some (sv_i v)" "sfi_type (sv_i v) = SFS_TYPE_FILE" "sfi_linkcount (sv_i v) = links es (sv_ino v)"
proof -
  show N: "N (sv_ino v) = Some (sv_i v)" by (rule vol_wfD(7) [OF vol_okD(1) [OF ok] v(1)])
  show "sfi_type (sv_i v) = SFS_TYPE_FILE" "sfi_linkcount (sv_i v) = links es (sv_ino v)"
    using vol_okD(2) [OF ok] N v(2) unfolding dir_good_def by blast+
qed

text \<open>Letting go of the vnode of a file keeps the volume consistent: an inode without names goes with it.\<close>

lemma vol_decref_wp:
  assumes ok: "vol_ok L N es s" and v: "sv_heap s p = Some v" "sv_ino v \<noteq> 1" and oc: "vn_refcount v = 1 \<longrightarrow> vn_opencount v = 0"
  shows "wp (vnode_decref p) (\<lambda>_ t. let N' = (if gone v then N(sv_ino v := None) else N) in
      vol_ok L N' es t \<and> keeps N' s t
      \<and> sv_heap t = (sv_heap s)(p := if vn_refcount v = 1 then None else Some (v\<lparr>vn_refcount := vn_refcount v - 1\<rparr>)))
    (\<lambda>_ _. False) s"
proof -
  note vf = vnode_file [OF ok v]
  let ?N = "if gone v then N(sv_ino v := None) else N"
  have good: "dir_good ?N es"
  proof (cases "gone v")
    case True
    then have "links es (sv_ino v) = 0" using vf(3) by (simp add: gone_def)
    then have "\<forall>e \<in> set es. sfd_ino e \<noteq> sv_ino v" by (simp add: links_0)
    then show ?thesis using True vol_okD(2) [OF ok] unfolding dir_good_def by (auto split: if_splits)
  next
    case False
    then show ?thesis using vol_okD(2) [OF ok] by simp
  qed
  show ?thesis
  proof (rule wp_mono [OF vnode_decref_wp [OF vol_okD(1) [OF ok] v(1) oc]])
    show "sfi_linkcount (sv_i v) = 0 \<longrightarrow> sfi_type (sv_i v) = SFS_TYPE_FILE" by (simp add: vf(2))
  next
    fix x :: unit and t
    assume "released L N p v s t"
    then have r: "vol_wf L ?N t" "keeps ?N s t"
      "sv_heap t = (sv_heap s)(p := if vn_refcount v = 1 then None else Some (v\<lparr>vn_refcount := vn_refcount v - 1\<rparr>))"
      by (simp_all add: released_def Let_def)
    have "?N 1 = N 1" using v(2) by simp
    then have "vol_ok L ?N es t" by (intro vol_ok_keeps [OF ok r(1,2) _ _ good]) simp_all
    then show "let N' = ?N in vol_ok L N' es t \<and> keeps N' s t
      \<and> sv_heap t = (sv_heap s)(p := if vn_refcount v = 1 then None else Some (v\<lparr>vn_refcount := vn_refcount v - 1\<rparr>))"
      using r by (simp add: Let_def)
  qed simp
qed

lemma dir_good_unlink:
  assumes good: "dir_good N es" and a: "N a = Some i" "a \<noteq> 1" and z: "N 0 = None"
    and e: "slot < length es" "sfd_ino (es ! slot) = a" "\<not> live e" "dir_wf (put_ent slot e es)"
  shows "dir_good (N(a \<mapsto> i\<lparr>sfi_linkcount := sfi_linkcount i - 1\<rparr>)) (put_ent slot e es)"
proof -
  have "a \<noteq> 0" using a(1) z by (cases a) auto
  moreover have "sfi_linkcount i = links es a" using good a unfolding dir_good_def by blast
  ultimately have l: "links (put_ent slot e es) a = sfi_linkcount i - 1" using links_erase [OF e(1,3), of a] e(2) by simp
  show ?thesis
    by (rule dir_good_upd [OF good a e(4) _ l _ z])
      (use put_ent_set e(3) in blast, use links_erase [OF e(1,3)] e(2) in simp)
qed

text \<open>The entry \<open>slot\<close> of the vnode \<open>p\<close> is erased and the link counted off.\<close>

lemma unlink_dec_wp:
  assumes ok: "vol_ok L N es s" and d: "root_vnode d dv s" and v: "sv_heap s p = Some v" "sv_ino v \<noteq> 1"
    and e: "slot < length es" "live (es ! slot)" "sfd_ino (es ! slot) = sv_ino v"
  defines "v' \<equiv> with_links (sfi_linkcount (sv_i v) - 1) v"
  shows "wp (kbind (sfs_dir_unlink d slot) (\<lambda>_. dec_link p))
    (\<lambda>_ t. \<exists>dv' es'. vol_ok L (N(1 \<mapsto> sv_i dv', sv_ino v \<mapsto> sv_i v')) es' t \<and> root_vnode d dv' t \<and> vnode_same dv dv'
       \<and> dir_map es' = (dir_map es)(dname (es ! slot) := None)
       \<and> sv_heap t = (sv_heap s)(d \<mapsto> dv', p \<mapsto> v') \<and> keeps (N(1 := None)) s t)
    (\<lambda>er t. er = ENOSPC \<and> (\<exists>dv'. root_step L N d dv dv' es s t)) s"
proof -
  note rt = root_pre [OF ok d] and vf = vnode_file [OF ok v]
  have wf: "vol_wf L N s" and good: "dir_good N es" and dwf: "dir_wf es" using vol_okD [OF ok] by simp_all
  have dwf': "dir_wf (dir_ents (sv_i dv) (disk s))" unfolding rt(2) by (rule dwf)
  have e': "slot < length (dir_ents (sv_i dv) (disk s))" "live (dir_ents (sv_i dv) (disk s) ! slot)"
    unfolding rt(2) by (rule e)+
  have pd: "p \<noteq> d" using v d by (auto simp: root_vnode_def)
  show ?thesis unfolding wp_kbind
  proof (rule wp_mono [OF sfs_dir_unlink_wp [OF rt(1) dwf' e', unfolded rt(2)]], elim exE conjE)
    fix t x
    assume x: "\<not> live x" "dir_step d dv s (put_ent slot x es) t" "dir_wf (put_ent slot x es)"
      "dir_map (put_ent slot x es) = (dir_map es)(dname (es ! slot) := None)"
    obtain dv' where st: "root_step L N d dv dv' (put_ent slot x es) s t" using root_stepI [OF ok d x(2)] by blast
    note r = st [unfolded root_step_def]
    have vt: "sv_heap t p = Some v" using r pd v(1) by simp
    let ?q = "t\<lparr>sv_heap := (sv_heap t)(p \<mapsto> v')\<rparr>" and ?M = "N(1 \<mapsto> sv_i dv', sv_ino v \<mapsto> sv_i v')"
    have "links es (sv_ino v) \<noteq> 0" unfolding links_0 using e(1,3) nth_mem by blast
    then have lc: "0 < sfi_linkcount (sv_i v)" by (simp add: vf(3))
    have vi: "sv_i v' = (sv_i v)\<lparr>sfi_linkcount := sfi_linkcount (sv_i v) - 1\<rparr>" by (simp add: v'_def with_links_def)
    have "sfi_linkcount (sv_i v) < 65536"
      using vol_wfD(3) [OF wf vf(1)] by (simp add: file_wf_def inode_fits_def)
    then have w: "vol_wf L ?M ?q"
      using vol_links [of L "N(1 \<mapsto> sv_i dv')" t p v "sfi_linkcount (sv_i v) - 1"] r vt unfolding vi by (simp add: v'_def)
    have "dir_good (N(sv_ino v \<mapsto> sv_i v')) (put_ent slot x es)"
      unfolding vi by (rule dir_good_unlink [OF good vf(1) v(2) vol_zero [OF wf] e(1,3) x(1,3)])
    then have g: "dir_good ?M (put_ent slot x es)" using dir_good_root fun_upd_twist [of "sv_ino v" 1 N] v(2) by metis
    have "vol_ok L ?M (put_ent slot x es) ?q"
      using w g r rt(4) v(2) by (simp add: vol_ok_def vnode_same_def)
    moreover have "root_vnode d dv' ?q" using r d pd by (simp add: root_vnode_def vnode_same_def)
    moreover have "keeps (N(1 := None)) s ?q" using r by (simp add: keeps_def nblocks_def)
    moreover have "sv_heap ?q = (sv_heap s)(d \<mapsto> dv', p \<mapsto> v')" using r by simp
    moreover have "vnode_same dv dv'" using r by simp
    ultimately show "wp (dec_link p)
      (\<lambda>_ t. \<exists>dv' es'. vol_ok L (N(1 \<mapsto> sv_i dv', sv_ino v \<mapsto> sv_i v')) es' t \<and> root_vnode d dv' t \<and> vnode_same dv dv'
       \<and> dir_map es' = (dir_map es)(dname (es ! slot) := None)
       \<and> sv_heap t = (sv_heap s)(d \<mapsto> dv', p \<mapsto> v') \<and> keeps (N(1 := None)) s t)
      (\<lambda>er t. er = ENOSPC \<and> (\<exists>dv'. root_step L N d dv dv' es s t)) t"
      unfolding dec_link_wp [OF vt lc] v'_def [symmetric] using x(4) by blast
  next
    fix er t
    assume "dir_step d dv s es t \<and> er = ENOSPC \<and> {..<nblocks t} \<subseteq> used t"
    then show "er = ENOSPC \<and> (\<exists>dv'. root_step L N d dv dv' es s t)" using root_stepI [OF ok d] by simp
  qed
qed

text \<open>
  The outcome of removing a name of inode \<open>a\<close>: the name is gone, one link is counted off, the inode
  goes when it was the last and no one has the file open, and other files keep their contents.
\<close>

definition removed :: "nat set \<Rightarrow> (nat \<rightharpoonup> sfs_inode) \<Rightarrow> sfs_dir list \<Rightarrow> nat \<Rightarrow> sfs_vnode \<Rightarrow> byte list \<Rightarrow> sfs_fs \<Rightarrow> sfs_fs \<Rightarrow> bool" where
  "removed L N es d dv name s t \<longleftrightarrow> (\<exists>a i dv' es'.
       dir_map es name = Some a \<and> N a = Some i \<and> dir_map es' = (dir_map es)(name := None)
     \<and> vol_ok L (N(1 \<mapsto> sv_i dv', a :=
          if sfi_linkcount i = 1 \<and> (\<forall>q w. sv_heap s q = Some w \<longrightarrow> sv_ino w \<noteq> a) then None
          else Some (i\<lparr>sfi_linkcount := sfi_linkcount i - 1\<rparr>))) es' t
     \<and> root_vnode d dv' t \<and> vnode_same dv dv' \<and> keeps (N(1 := None, a := None)) s t
     \<and> (\<forall>q w. sv_heap s q = Some w \<longrightarrow> sv_heap t q =
          (if q = d then Some dv' else if sv_ino w = a then Some (with_links (sfi_linkcount i - 1) w) else Some w))
     \<and> dom (sv_heap t) = dom (sv_heap s))"

lemma with_links_ref: "with_links n (v\<lparr>vn_refcount := r\<rparr>) = (with_links n v)\<lparr>vn_refcount := r\<rparr>"
  by (simp add: with_links_def)

lemma with_links_simps [simp]: "vn_refcount (with_links n v) = vn_refcount v" "vn_opencount (with_links n v) = vn_opencount v"
  "sv_ino (with_links n v) = sv_ino v" "sfi_linkcount (sv_i (with_links n v)) = n"
  by (simp_all add: with_links_def)

lemma vnode_gotD:
  assumes g: "vnode_got N a s p t" and vt: "vtab_wf s"
  shows "\<exists>v. sv_heap t = (sv_heap s)(p \<mapsto> v) \<and> sv_ino v = a \<and> N a = Some (sv_i v)
    \<and> (vn_refcount v = 1 \<longrightarrow> vn_opencount v = 0 \<and> sv_heap s p = None)
    \<and> (vn_refcount v = 1 \<longleftrightarrow> (\<forall>q w. sv_heap s q = Some w \<longrightarrow> sv_ino w \<noteq> a))
    \<and> (vn_refcount v \<noteq> 1 \<longrightarrow> sv_heap s p = Some (v\<lparr>vn_refcount := vn_refcount v - 1\<rparr>))"
proof -
  obtain v where v: "sv_heap t = (sv_heap s)(p \<mapsto> v)" "sv_ino v = a" "N a = Some (sv_i v)"
    "case sv_heap s p of Some u \<Rightarrow> v = u\<lparr>vn_refcount := vn_refcount u + 1\<rparr>
        | None \<Rightarrow> vn_refcount v = 1 \<and> vn_opencount v = 0 \<and> \<not> sv_dirty v \<and> (\<forall>q w. sv_heap s q = Some w \<longrightarrow> sv_ino w \<noteq> a)"
    using g unfolding vnode_got_def by blast
  show ?thesis
  proof (cases "sv_heap s p")
    case None
    then show ?thesis using v by (intro exI [of _ v]) simp
  next
    case (Some u)
    then have u: "v = u\<lparr>vn_refcount := vn_refcount u + 1\<rparr>" "0 < vn_refcount u"
      using v(4) vtab_vnode [OF vt Some] by simp_all
    then have "sv_ino u = a" using v(2) by simp
    then have "\<not> (\<forall>q w. sv_heap s q = Some w \<longrightarrow> sv_ino w \<noteq> a)" using Some by blast
    then show ?thesis using v(1-3) u Some by (intro exI [of _ v]) simp
  qed
qed

lemma root_same:
  assumes ok: "vol_ok L N es s" and d: "root_vnode d dv s" and m: "mem_step s t" "sv_heap t = sv_heap s" and t: "vol_ok L N es t"
  shows "root_step L N d dv dv es s t" "vol_ok L (N(1 \<mapsto> sv_i dv)) es t"
proof -
  note rt = root_pre [OF ok d] and rr = root_read [OF ok d]
  have "keeps (N(1 := None)) s t" by (rule keeps_sub [OF keeps_mem [OF m(1)]]) (simp split: if_splits)
  then show "root_step L N d dv dv es s t"
    unfolding root_step_def rr m(2) using rt(2,5) mem_stepD(2) [OF m(1)] vol_okD(1) [OF t] by simp
  show "vol_ok L (N(1 \<mapsto> sv_i dv)) es t" unfolding rr by (rule t)
qed

lemma upd_or_drop: "(if c then (M(a \<mapsto> x))(a := None) else M(a \<mapsto> x)) = M(a := if c then None else Some x)"
  by simp

text \<open>After the entry of the vnode \<open>p\<close> that was looked up is erased, the reference to it is dropped.\<close>

lemma remove_done_wp:
  assumes ok: "vol_ok L N es s" and d: "root_vnode d dv s" and dm: "dir_map es name = Some a" and a1: "a \<noteq> 1"
    and g: "vnode_got N a s p t" and h: "sv_heap t = (sv_heap s)(p \<mapsto> v)" and v: "sv_ino v = a" "N a = Some (sv_i v)"
      "vn_refcount v = 1 \<longrightarrow> vn_opencount v = 0 \<and> sv_heap s p = None"
      "vn_refcount v = 1 \<longleftrightarrow> (\<forall>q w. sv_heap s q = Some w \<longrightarrow> sv_ino w \<noteq> a)"
      "vn_refcount v \<noteq> 1 \<longrightarrow> sv_heap s p = Some (v\<lparr>vn_refcount := vn_refcount v - 1\<rparr>)"
    and lc: "sfi_linkcount (sv_i v) \<noteq> 0"
    and v': "v' = with_links (sfi_linkcount (sv_i v) - 1) v"
    and u: "vol_ok L (N(1 \<mapsto> sv_i dv', a \<mapsto> sv_i v')) es' u" "root_vnode d dv' u" "vnode_same dv dv'"
      "dir_map es' = (dir_map es)(name := None)" "sv_heap u = (sv_heap t)(d \<mapsto> dv', p \<mapsto> v')" "keeps (N(1 := None)) t u"
  shows "wp (vnode_decref p) (\<lambda>_ t. removed L N es d dv name s t) (\<lambda>_ _. False) u"
proof -
  have dh: "sv_heap s d = Some dv" "sv_ino dv = 1" using d by (simp_all add: root_vnode_def)
  have pd: "p \<noteq> d" using dh v(1,3,5) a1 by (cases "vn_refcount v = 1") auto
  have ms: "mem_step s t" using g by (simp add: vnode_got_def)
  have vt: "vtab_wf s" by (rule vol_wfD(2) [OF vol_okD(1) [OF ok]])
  have hu: "sv_heap u p = Some v'" by (simp add: u(5))
  have vs: "sv_ino v' = a" "vn_refcount v' = vn_refcount v" "vn_opencount v' = vn_opencount v"
    "sfi_linkcount (sv_i v') = sfi_linkcount (sv_i v) - 1"
    "sv_i v' = (sv_i v)\<lparr>sfi_linkcount := sfi_linkcount (sv_i v) - 1\<rparr>"
    using v(1) by (simp_all add: v') (simp add: with_links_def)
  have a1': "sv_ino v' \<noteq> 1" and oc: "vn_refcount v' = 1 \<longrightarrow> vn_opencount v' = 0"
    using a1 v(3) vs by simp_all
  show ?thesis
  proof (rule wp_mono [OF vol_decref_wp [OF u(1) hu a1' oc]])
    fix x :: unit and f
    let ?M = "N(1 \<mapsto> sv_i dv', a \<mapsto> sv_i v')"
    let ?N = "N(1 \<mapsto> sv_i dv', a :=
          if sfi_linkcount (sv_i v) = 1 \<and> (\<forall>q w. sv_heap s q = Some w \<longrightarrow> sv_ino w \<noteq> a) then None
          else Some ((sv_i v)\<lparr>sfi_linkcount := sfi_linkcount (sv_i v) - 1\<rparr>))"
    assume f: "let N' = (if gone v' then ?M(sv_ino v' := None) else ?M) in
      vol_ok L N' es' f \<and> keeps N' u f
      \<and> sv_heap f = (sv_heap u)(p := if vn_refcount v' = 1 then None else Some (v'\<lparr>vn_refcount := vn_refcount v' - 1\<rparr>))"
    have gv: "gone v' \<longleftrightarrow> sfi_linkcount (sv_i v) = 1 \<and> (\<forall>q w. sv_heap s q = Some w \<longrightarrow> sv_ino w \<noteq> a)"
      unfolding gone_def vs(2,4) v(4) using lc by auto
    have "(if gone v' then ?M(sv_ino v' := None) else ?M) = ?N" unfolding gv vs(1,5) by (rule upd_or_drop)
    then have w: "vol_ok L ?N es' f" "keeps ?N u f"
      "sv_heap f = (sv_heap u)(p := if vn_refcount v = 1 then None else Some (v'\<lparr>vn_refcount := vn_refcount v - 1\<rparr>))"
      using f vs(2) by (simp_all add: Let_def)
    have "keeps (N(1 := None, a := None)) s u"
      by (rule keeps_trans [OF keeps_mem [OF ms, of N] keeps_sub [OF u(6)]]) (simp_all split: if_splits)
    then have k: "keeps (N(1 := None, a := None)) s f"
      by (rule keeps_trans [OF _ keeps_sub [OF w(2)]]) (simp_all split: if_splits)
    have hf: "sv_heap f = (sv_heap s)(d \<mapsto> dv', p := if vn_refcount v = 1 then None else Some (v'\<lparr>vn_refcount := vn_refcount v - 1\<rparr>))"
      using w(3) pd by (simp add: u(5) h fun_eq_iff)
    have "sv_heap f q = (if q = d then Some dv' else if sv_ino w = a then Some (with_links (sfi_linkcount (sv_i v) - 1) w) else Some w)"
      if q: "sv_heap s q = Some w" for q w
    proof (cases "q = d")
      case True
      then show ?thesis using hf pd by simp
    next
      case False
      show ?thesis
      proof (cases "sv_ino w = a")
        case True
        then have rc: "vn_refcount v \<noteq> 1" using v(4) q by blast
        then have sp: "sv_heap s p = Some (v\<lparr>vn_refcount := vn_refcount v - 1\<rparr>)" using v(5) by simp
        have qp: "q = p" by (rule vtab_inj [OF vt q sp]) (simp add: True v(1))
        then have w: "w = v\<lparr>vn_refcount := vn_refcount v - 1\<rparr>" using sp q by simp
        show ?thesis using qp rc False v(1) hf unfolding w by (simp add: v' with_links_ref)
      next
        case no: False
        then have "q \<noteq> p" using q v(1,3,5) by (cases "vn_refcount v = 1") auto
        then show ?thesis using False no hf q by simp
      qed
    qed
    moreover have "dom (sv_heap f) = dom (sv_heap s)"
      unfolding hf using dh(1) v(3,5) by (cases "vn_refcount v = 1") auto
    moreover have "root_vnode d dv' f" using u(2) w(3) pd by (simp add: root_vnode_def)
    ultimately show "removed L N es d dv name s f"
      unfolding removed_def using dm v(2) u(4) w(1) u(3) k
      by (intro exI [of _ a] exI [of _ "sv_i v"] exI [of _ dv'] exI [of _ es']) simp
  qed simp
qed

lemma sfs_remove_wp:
  assumes ok: "vol_ok L N es s" and d: "root_vnode d dv s"
  shows "wp (sfs_remove d name) (\<lambda>_ t. removed L N es d dv name s t)
    (\<lambda>e t. (\<exists>dv'. root_step L N d dv dv' es s t \<and> vol_ok L (N(1 \<mapsto> sv_i dv')) es t)
       \<and> (e = ENOENT \<and> dir_map es name = None \<or> (e = ENOMEM \<or> e = ENOSPC) \<and> dir_map es name \<noteq> None)) s"
    (is "wp _ ?Q ?R s")
proof -
  have wf: "vol_wf L N s" and good: "dir_good N es" using vol_okD [OF ok] by simp_all
  show ?thesis unfolding sfs_remove_def wp_kbind
  proof (rule wp_mono [OF sfs_lookonce_wp [OF ok d]], elim conjE)
    fix r t
    assume t: "vol_ok L N es t" "snd r < length es" "live (es ! snd r)" "dname (es ! snd r) = name"
      "dir_map es name = Some (sfd_ino (es ! snd r))" "vnode_got N (sfd_ino (es ! snd r)) s (fst r) t"
    obtain p slot a where ps: "r = (p, slot)" "a = sfd_ino (es ! slot)" by (cases r) simp
    note t = t [unfolded ps(1) fst_conv snd_conv, folded ps(2)]
    show "wp (let victim = fst r; slot = snd r in
     kbind (kattempt (kbind (sfs_dir_unlink d slot) (\<lambda>_. dec_link victim))) (\<lambda>result.
     kbind (vnode_decref victim) (\<lambda>_. kresult result))) ?Q ?R t"
      unfolding ps(1) fst_conv snd_conv Let_def wp_kbind [of "kattempt _"] wp_kattempt
    proof -
      obtain v where v: "sv_heap t = (sv_heap s)(p \<mapsto> v)" "sv_ino v = a" "N a = Some (sv_i v)"
        "vn_refcount v = 1 \<longrightarrow> vn_opencount v = 0 \<and> sv_heap s p = None"
        "vn_refcount v = 1 \<longleftrightarrow> (\<forall>q w. sv_heap s q = Some w \<longrightarrow> sv_ino w \<noteq> a)"
        "vn_refcount v \<noteq> 1 \<longrightarrow> sv_heap s p = Some (v\<lparr>vn_refcount := vn_refcount v - 1\<rparr>)"
        using vnode_gotD [OF t(6) vol_wfD(2) [OF wf]] by (elim exE conjE) (rule that; assumption)
      have "sfd_ino (es ! slot) \<noteq> 1" using good t(2,3) unfolding dir_good_def by simp
      then have a1: "a \<noteq> 1" "sv_ino v \<noteq> 1" by (simp_all add: ps(2) v(2))
      have dh: "sv_heap s d = Some dv" "sv_ino dv = 1" using d by (simp_all add: root_vnode_def)
      have pd: "p \<noteq> d" using dh v(2,4,6) a1 by (cases "vn_refcount v = 1") auto
      have hp: "sv_heap t p = Some v" by (simp add: v(1))
      have dt: "root_vnode d dv t" using d pd by (simp add: root_vnode_def v(1))
      have ms: "mem_step s t" using t(6) by (simp add: vnode_got_def)
      have ei: "sfd_ino (es ! slot) = sv_ino v" by (simp add: ps(2) v(2))
      have "links es a \<noteq> 0" unfolding links_0 ps(2) using t(2) nth_mem by blast
      then have lc: "sfi_linkcount (sv_i v) \<noteq> 0" using vnode_file(3) [OF t(1) hp a1(2)] v(2) by simp
      show "wp (kbind (sfs_dir_unlink d slot) (\<lambda>_. dec_link p))
        (\<lambda>x. wp (kbind (vnode_decref p) (\<lambda>_. kresult (Inr x))) ?Q ?R)
        (\<lambda>e. wp (kbind (vnode_decref p) (\<lambda>_. kresult (Inl e))) ?Q ?R) t"
      proof (rule wp_mono [OF unlink_dec_wp [OF t(1) dt hp a1(2) t(2,3) ei]], elim exE conjE)
        fix x u dv' es'
        let ?v = "with_links (sfi_linkcount (sv_i v) - 1) v"
        assume u: "vol_ok L (N(1 \<mapsto> sv_i dv', sv_ino v \<mapsto> sv_i ?v)) es' u" "root_vnode d dv' u" "vnode_same dv dv'"
          "dir_map es' = (dir_map es)(dname (es ! slot) := None)"
          "sv_heap u = (sv_heap t)(d \<mapsto> dv', p \<mapsto> ?v)" "keeps (N(1 := None)) t u"
        note u = u [unfolded v(2) t(4)]
        show "wp (kbind (vnode_decref p) (\<lambda>_. kresult (Inr x))) ?Q ?R u"
          unfolding wp_kbind wp_kresult sum.case
          by (rule wp_mono [OF remove_done_wp [OF ok d t(5) a1(1) t(6) v(1-6) lc refl u(1-6)]]) simp_all
      next
        fix e u
        assume "e = ENOSPC \<and> (\<exists>dv'. root_step L N d dv dv' es t u)"
        then obtain dv' where e: "e = ENOSPC" and st: "root_step L N d dv dv' es t u" by blast
        note q = st [unfolded root_step_def]
        note ro = root_step_ok [OF st t(1) dt good]
        have hu: "sv_heap u p = Some v" using q hp pd by simp
        have ng: "\<not> gone v" using lc by (simp add: gone_def)
        have oc: "vn_refcount v = 1 \<longrightarrow> vn_opencount v = 0" using v(4) by simp
        show "wp (kbind (vnode_decref p) (\<lambda>_. kresult (Inl e))) ?Q ?R u"
          unfolding wp_kbind wp_kresult sum.case
        proof (rule wp_mono [OF vol_decref_wp [OF ro(1) hu a1(2) oc]])
          fix x :: unit and f
          assume "let N' = (if gone v then (N(1 \<mapsto> sv_i dv'))(sv_ino v := None) else N(1 \<mapsto> sv_i dv')) in
             vol_ok L N' es f \<and> keeps N' u f
             \<and> sv_heap f = (sv_heap u)(p := if vn_refcount v = 1 then None else Some (v\<lparr>vn_refcount := vn_refcount v - 1\<rparr>))"
          then have f: "vol_ok L (N(1 \<mapsto> sv_i dv')) es f" "keeps (N(1 \<mapsto> sv_i dv')) u f"
            "sv_heap f = (sv_heap u)(p := if vn_refcount v = 1 then None else Some (v\<lparr>vn_refcount := vn_refcount v - 1\<rparr>))"
            using ng by (simp_all add: Let_def)
          have hf: "sv_heap f = (sv_heap s)(d \<mapsto> dv')"
            using f(3) q v(1,4,6) pd by (cases "vn_refcount v = 1") (simp_all add: fun_eq_iff)
          have "dir_ents (sv_i dv') (disk f) = es" using dir_ents_keeps [OF f(2), of 1] q by simp
          moreover have "keeps (N(1 := None)) s u"
            by (rule keeps_trans [OF keeps_mem [OF ms, of N]]) (use q in \<open>simp_all split: if_splits\<close>)
          then have "keeps (N(1 := None)) s f"
            by (rule keeps_trans [OF _ keeps_sub [OF f(2)]]) (simp_all split: if_splits)
          ultimately have "root_step L N d dv dv' es s f"
            unfolding root_step_def using hf q vol_okD(1) [OF f(1)] by simp
          then show "?R e f" using f(1) e t(5) by blast
        qed simp
      qed
    qed
  next
    fix e t
    assume t: "vol_ok L N es t \<and> mem_step s t \<and> sv_heap t = sv_heap s
       \<and> (e = ENOENT \<and> dir_map es name = None \<or> e = ENOMEM \<and> dir_map es name \<noteq> None)"
    then show "?R e t" using root_same [OF ok d, of t] by blast
  qed
qed

section \<open>Properties\<close>

text \<open>
  The eight-block volume: the root directory, empty, and an open file (inode 3) that has no name.
\<close>

definition vol_root :: sfs_inode where
  "vol_root = empty_inode\<lparr>sfi_type := SFS_TYPE_DIR\<rparr>"

definition vol_root_vnode :: sfs_vnode where
  "vol_root_vnode = new_vnode sfs_dirops vol_root 1 True"

definition vol_file_vnode :: sfs_vnode where
  "vol_file_vnode = new_vnode sfs_fileops (empty_inode\<lparr>sfi_linkcount := 0\<rparr>) 3 True"

definition vol_inodes :: "nat \<rightharpoonup> sfs_inode" where
  "vol_inodes = [1 \<mapsto> vol_root, 3 \<mapsto> empty_inode\<lparr>sfi_linkcount := 0\<rparr>]"

definition vol_fs :: sfs_fs where
  "vol_fs = small_fs\<lparr>sfs_vnodes := \<lparr>a_num = 2, a_max = 2, a_v = Some [Some 4096, Some 8192]\<rparr>,
     sv_heap := [4096 \<mapsto> vol_root_vnode, 8192 \<mapsto> vol_file_vnode]\<rparr>"

lemma empty_maps:
  assumes "sfi_direct i = replicate 15 0" "sfi_indirect i = 0"
  shows "owned i d = {}" "fmap i d fb = 0"
proof -
  show m: "fmap i d fb = 0" for fb using assms by (simp add: fmap_def id_entries_def del: replicate_Suc)
  show "owned i d = {}" using assms m by (auto simp: owned_def)
qed

lemma vol_fs_simps: "disk vol_fs = disk small_fs" "used vol_fs = {..<4}" "nblocks vol_fs = 8" "kmem vol_fs = []"
  "array_wf (sfs_vnodes vol_fs)" "array_list (sfs_vnodes vol_fs) = [4096, 8192]"
  by (simp_all add: vol_fs_def small_fs_def disk_def used_def nblocks_def small_freemap array_wf_def array_list_def a_cells_def)

lemma bitblocks_8: "SFS_BITBLOCKS 8 = 1"
  by (simp add: SFS_BITBLOCKS_def SFS_BITMAPSIZE_def SFS_BLOCKBITS_def SFS_BLOCKSIZE_def u32_def)

lemma vol_fs_wf: "vol_wf {} vol_inodes vol_fs"
proof -
  let ?f = "empty_inode\<lparr>sfi_linkcount := 0\<rparr>"
  have ow: "owned vol_root d = {}" "owned ?f d = {}" for d
    by (simp_all add: empty_maps vol_root_def empty_inode_def del: replicate_Suc)
  have fit: "inode_fits vol_root" "inode_fits ?f"
    using empty_inode_fits by (simp_all add: vol_root_def inode_fits_def SFS_TYPE_DIR_def)
  have fw: "file_wf vol_root vol_fs" "file_wf ?f vol_fs"
    using fit ow by (simp_all add: file_wf_def empty_maps vol_root_def empty_inode_def del: replicate_Suc)
  have rs: "reserved vol_fs = {0, 2}"
    unfolding reserved_def vol_fs_simps bitblocks_8 by (auto simp: SFS_MAP_LOCATION_def)
  have ty: "sfs_ops_of (sfi_type vol_root) = Some sfs_dirops" "sfs_ops_of (sfi_type ?f) = Some sfs_fileops"
    by (simp_all add: vol_root_def empty_inode_def sfs_ops_of_def SFS_TYPE_FILE_def SFS_TYPE_DIR_def)
  have vt: "vtab_wf vol_fs"
    unfolding vtab_wf_def using vol_fs_simps(5,6) ty
    by (auto simp: vol_fs_def vol_root_vnode_def vol_file_vnode_def new_vnode_def split: if_splits)
  have N: "dom vol_inodes = {1, 3}" by (auto simp: vol_inodes_def)
  have Nc: "a = 1 \<and> i = vol_root \<or> a = 3 \<and> i = ?f" if "vol_inodes a = Some i" for a i
    using that by (auto simp: vol_inodes_def split: if_splits)
  have bo: "blocks_of vol_inodes d = {}" for d unfolding blocks_of_def using Nc ow by blast
  have fsw: "fs_wf vol_fs" using small_fs_wf by (simp add: vol_fs_def)
  have u: "used vol_fs \<inter> {..<nblocks vol_fs} = dom vol_inodes \<union> blocks_of vol_inodes (disk vol_fs) \<union> reserved vol_fs \<union> {}"
    unfolding bo N rs vol_fs_simps by auto
  have heap: "vol_inodes (sv_ino v) = Some (sv_i v)" if "sv_heap vol_fs p = Some v" for p v
    using that by (auto simp: vol_fs_def vol_inodes_def vol_root_vnode_def vol_file_vnode_def new_vnode_def split: if_splits)
  have ib: "inode_block vol_inodes vol_fs"
    unfolding inode_block_def
  proof (intro allI impI disjI2)
    fix a i
    assume "vol_inodes a = Some i"
    then have "a = 1 \<or> a = 3" using Nc by blast
    then show "\<exists>p v. sv_heap vol_fs p = Some v \<and> sv_ino v = a \<and> sv_dirty v"
    proof
      show "a = 1 \<Longrightarrow> ?thesis"
        by (intro exI [of _ 4096] exI [of _ vol_root_vnode]) (simp add: vol_fs_def vol_root_vnode_def new_vnode_def)
      show "a = 3 \<Longrightarrow> ?thesis"
        by (intro exI [of _ 8192] exI [of _ vol_file_vnode]) (simp add: vol_fs_def vol_file_vnode_def new_vnode_def)
    qed
  qed
  show ?thesis
    unfolding vol_wf_def
  proof (intro conjI allI impI fsw vt u ib heap)
    show "dom vol_inodes \<inter> reserved vol_fs = {}" by (simp add: N rs)
    show "{} \<inter> (dom vol_inodes \<union> blocks_of vol_inodes (disk vol_fs) \<union> reserved vol_fs) = {}" by simp
    fix a i
    assume a: "vol_inodes a = Some i"
    show "file_wf i vol_fs" "owned i (disk vol_fs) \<inter> (dom vol_inodes \<union> reserved vol_fs) = {}"
      "sfs_ops_of (sfi_type i) \<noteq> None"
      using Nc [OF a] fw ow ty by auto
    fix b j
    show "owned i (disk vol_fs) \<inter> owned j (disk vol_fs) = {}" using Nc [OF a] ow by auto
  qed
qed

lemma vol_fs_ok: "vol_ok {} vol_inodes [] vol_fs" "root_vnode 4096 vol_root_vnode vol_fs"
proof -
  have "dir_good vol_inodes []"
    using empty_dir_wf by (auto simp: dir_good_def vol_inodes_def links_def empty_inode_def split: if_splits)
  moreover have "vol_inodes 1 = Some vol_root" "dir_ok vol_root" "0 < sfi_linkcount vol_root" "dir_ents vol_root (disk vol_fs) = []"
    by (simp_all add: vol_inodes_def vol_root_def dir_ok_def empty_inode_def dir_ents_def)
  ultimately show "vol_ok {} vol_inodes [] vol_fs" unfolding vol_ok_def using vol_fs_wf by blast
  show "root_vnode 4096 vol_root_vnode vol_fs"
    by (simp add: root_vnode_def vol_fs_def) (simp add: vol_root_vnode_def new_vnode_def)
qed

text \<open>
  Property C14: creating a file in the root directory of a consistent volume leaves a consistent volume.
  If the name is there, its file is opened (or the call is refused, with \<open>excl\<close>); otherwise the
  directory's map gains the name, of a new empty inode with one link whose vnode is returned, and every
  other file keeps its blocks. A failure leaves names and files as they were and says why; but when memory
  runs out for the vnode of the new file (ENOMEM for a name that is not there), the block allocated for
  its inode is not given back: exactly one block more is marked in use that belongs to no file (\<open>insert b L\<close>
  in \<open>create_error\<close>, where \<open>L\<close> are the lost blocks). The disk reports no errors (\<open>fs_wf\<close>).
\<close>

theorem sfs_creat_keeps_volume:
  assumes "vol_ok L N es s" and "root_vnode d dv s" and "0 \<notin> set name"
  shows "wp (sfs_creat d name excl)
    (\<lambda>p t. \<not> excl \<and> opened L N es name p s t \<or> created L N es d dv name p s t)
    (\<lambda>e t. create_error L N es d dv name excl e s t) s"
  by (rule sfs_creat_wp [OF assms])

theorem sfs_creat_keeps_volume_witness:
  "wp (sfs_creat 4096 [97] True)
    (\<lambda>p t. \<not> True \<and> opened {} vol_inodes [] [97] p vol_fs t \<or> created {} vol_inodes [] 4096 vol_root_vnode [97] p vol_fs t)
    (\<lambda>e t. create_error {} vol_inodes [] 4096 vol_root_vnode [97] True e vol_fs t) vol_fs"
  by (rule sfs_creat_keeps_volume [OF vol_fs_ok]) simp

text \<open>
  Property C15: removing a name from the root directory of a consistent volume leaves a consistent volume
  in which the name is gone and one link is counted off its inode; the inode and its blocks are freed
  exactly when that was the last link and no vnode of it was in memory, and every other file keeps its
  blocks. On a failure (no such name, no memory, no space) the names are as they were. The disk reports no
  errors (\<open>fs_wf\<close>).
\<close>

theorem sfs_remove_keeps_volume:
  assumes "vol_ok L N es s" and "root_vnode d dv s"
  shows "wp (sfs_remove d name) (\<lambda>_ t. removed L N es d dv name s t)
    (\<lambda>e t. (\<exists>dv'. root_step L N d dv dv' es s t \<and> vol_ok L (N(1 \<mapsto> sv_i dv')) es t)
       \<and> (e = ENOENT \<and> dir_map es name = None \<or> (e = ENOMEM \<or> e = ENOSPC) \<and> dir_map es name \<noteq> None)) s"
  by (rule sfs_remove_wp [OF assms])

theorem sfs_remove_keeps_volume_witness:
  "wp (sfs_remove 4096 [97]) (\<lambda>_ t. removed {} vol_inodes [] 4096 vol_root_vnode [97] vol_fs t)
    (\<lambda>e t. (\<exists>dv'. root_step {} vol_inodes 4096 vol_root_vnode dv' [] vol_fs t \<and> vol_ok {} (vol_inodes(1 \<mapsto> sv_i dv')) [] t)
       \<and> (e = ENOENT \<and> dir_map [] [97] = None \<or> (e = ENOMEM \<or> e = ENOSPC) \<and> dir_map [] [97] \<noteq> None)) vol_fs"
  by (rule sfs_remove_keeps_volume [OF vol_fs_ok])

text \<open>
  Property C24: a hard link to the file of a vnode adds the name to the directory's map and counts one
  more link, on the volume and in the vnode; a failure (the name exists, is too long, or there is no
  room) leaves the names and the count as they were. The vnode is not the root's, and the disk reports no
  errors (\<open>fs_wf\<close>).
\<close>

theorem sfs_link_counts:
  assumes "vol_ok L N es s" and "root_vnode d dv s" and "sv_heap s p = Some v" and "sv_ino v \<noteq> 1" and "0 \<notin> set name"
  shows "wp (sfs_link d name p) (\<lambda>_ t. linked L N es d dv p v name s t)
    (\<lambda>er t. (\<exists>dv'. root_step L N d dv dv' es s t) \<and> link_error es name er t) s"
  by (rule sfs_link_wp [OF assms])

theorem sfs_link_counts_witness:
  "wp (sfs_link 4096 [98] 8192) (\<lambda>_ t. linked {} vol_inodes [] 4096 vol_root_vnode 8192 vol_file_vnode [98] vol_fs t)
    (\<lambda>er t. (\<exists>dv'. root_step {} vol_inodes 4096 vol_root_vnode dv' [] vol_fs t) \<and> link_error [] [98] er t) vol_fs"
  by (rule sfs_link_counts [OF vol_fs_ok]) (simp_all add: vol_fs_def vol_file_vnode_def new_vnode_def)

lemma load_decref_wp:
  assumes wf: "vol_wf L N s" and i: "N ino = Some i" and lc: "sfi_linkcount i \<noteq> 0"
  shows "wp (kbind (sfs_loadvnode ino SFS_TYPE_INVAL) vnode_decref)
    (\<lambda>_ t. vol_wf L N t \<and> sv_heap t = sv_heap s \<and> keeps N s t)
    (\<lambda>e t. e = ENOMEM \<and> vol_wf L N t \<and> sv_heap t = sv_heap s \<and> keeps N s t) s"
  unfolding wp_kbind
proof (rule wp_mono [OF sfs_loadvnode_wp [OF wf i]], elim conjE)
  fix p t
  assume t: "vol_wf L N t" "vnode_got N ino s p t"
  obtain v where v: "sv_heap t = (sv_heap s)(p \<mapsto> v)" "sv_ino v = ino" "N ino = Some (sv_i v)"
    "vn_refcount v = 1 \<longrightarrow> vn_opencount v = 0 \<and> sv_heap s p = None"
    "vn_refcount v \<noteq> 1 \<longrightarrow> sv_heap s p = Some (v\<lparr>vn_refcount := vn_refcount v - 1\<rparr>)"
    using vnode_gotD [OF t(2) vol_wfD(2) [OF wf]] by (elim exE conjE) (rule that; assumption)
  have lv: "sfi_linkcount (sv_i v) \<noteq> 0" using v(3) i lc by simp
  have m: "mem_step s t" using t(2) by (simp add: vnode_got_def)
  show "wp (vnode_decref p) (\<lambda>_ t. vol_wf L N t \<and> sv_heap t = sv_heap s \<and> keeps N s t)
    (\<lambda>e t. e = ENOMEM \<and> vol_wf L N t \<and> sv_heap t = sv_heap s \<and> keeps N s t) t"
  proof (rule wp_mono [OF vnode_decref_wp [OF t(1), of p v]])
    fix x :: unit and r
    assume "released L N p v t r"
    then have r: "vol_wf L N r" "keeps N t r"
      "sv_heap r = (sv_heap t)(p := if vn_refcount v = 1 then None else Some (v\<lparr>vn_refcount := vn_refcount v - 1\<rparr>))"
      using lv by (simp_all add: released_def gone_def Let_def)
    have "sv_heap r = sv_heap s" using r(3) v(1,4,5) by (cases "vn_refcount v = 1") (simp_all add: fun_upd_idem)
    then show "vol_wf L N r \<and> sv_heap r = sv_heap s \<and> keeps N s r"
      using r keeps_trans [OF keeps_mem [OF m] r(2)] by simp
  qed (use v lv in simp_all)
next
  fix e t
  assume g: "vol_wf L N t \<and> load_fail s e t \<and> (\<forall>p w. sv_heap s p = Some w \<longrightarrow> sv_ino w \<noteq> ino)"
  then show "e = ENOMEM \<and> vol_wf L N t \<and> sv_heap t = sv_heap s \<and> keeps N s t"
    using keeps_mem [of s t N] by (simp add: load_fail_def)
qed

text \<open>
  Loading the vnode of a linked inode and letting go of it is a round trip: the vnodes in
  memory, their reference counts included, and the blocks of all files are what they were, whether the
  vnode was found in the table or made and reclaimed again; only running out of memory can stop it, and
  then nothing has changed either.
\<close>

theorem loadvnode_decref_roundtrip:
  assumes "vol_wf L N s" and "N ino = Some i" and "sfi_linkcount i \<noteq> 0"
  shows "wp (kbind (sfs_loadvnode ino SFS_TYPE_INVAL) vnode_decref)
    (\<lambda>_ t. vol_wf L N t \<and> sv_heap t = sv_heap s \<and> keeps N s t)
    (\<lambda>e t. e = ENOMEM \<and> vol_wf L N t \<and> sv_heap t = sv_heap s \<and> keeps N s t) s"
  by (rule load_decref_wp [OF assms])

theorem loadvnode_decref_roundtrip_witness:
  "wp (kbind (sfs_loadvnode 1 SFS_TYPE_INVAL) vnode_decref)
    (\<lambda>_ t. vol_wf {} vol_inodes t \<and> sv_heap t = sv_heap vol_fs \<and> keeps vol_inodes vol_fs t)
    (\<lambda>e t. e = ENOMEM \<and> vol_wf {} vol_inodes t \<and> sv_heap t = sv_heap vol_fs \<and> keeps vol_inodes vol_fs t) vol_fs"
  by (rule loadvnode_decref_roundtrip [OF vol_fs_wf, of 1 vol_root])
    (simp_all add: vol_inodes_def vol_root_def empty_inode_def)

lemma makeobj_nomem_wp:
  assumes wf: "vol_wf L N s" and mem: "kmem s = False # k" and free: "\<not> {..<nblocks s} \<subseteq> used s"
  shows "wp (sfs_makeobj ty) (\<lambda>_ _. False)
    (\<lambda>e t. e = ENOMEM \<and> (\<exists>b. b \<notin> used s \<and> b < nblocks s \<and> used t = insert b (used s) \<and> vol_wf (insert b L) N t)) s"
    (is "wp _ ?Q ?R s")
  unfolding sfs_makeobj_def wp_kbind
proof (rule wp_mono [OF sfs_balloc_wp [OF vol_wfD(1) [OF wf]]])
  fix b t
  assume t: "fs_wf t \<and> fs_same s t \<and> b \<notin> used s \<and> b < nblocks s \<and> b \<noteq> 0 \<and> used t = insert b (used s)
     \<and> disk t = (disk s)[b := zeros] \<and> sv_heap t = sv_heap s"
  have lk: "vol_wf (insert b L) N t" using vol_leak(1) [OF wf, of t b] t by blast
  have kt: "kmem t = False # k" using t mem by (simp add: fs_same_def)
  have bN: "N b = None" using vol_wfD(6) [OF wf, of b] t by (cases "N b") auto
  have aw: "array_wf (sfs_vnodes t)" using vol_wfD(2) [OF lk] by (simp add: vtab_wf_def)
  let ?n = "length (array_list (sfs_vnodes t))"
  have num: "nat (array_getnum (sfs_vnodes t)) = ?n" using array_length [OF aw] by (simp add: array_getnum_def)
  show "wp (sfs_loadvnode b ty) ?Q ?R t" unfolding sfs_loadvnode_def wp_kbind wp_kget num
  proof (rule wp_mono [OF load_search_wp [OF lk, of 0 ?n b, unfolded add_0, OF refl]])
    fix r q
    assume r: "q = t \<and> (case r of
        None \<Rightarrow> \<forall>j. 0 \<le> j \<and> j < ?n \<longrightarrow> (\<forall>w. sv_heap t (array_list (sfs_vnodes t) ! j) = Some w \<longrightarrow> sv_ino w \<noteq> b)
      | Some p \<Rightarrow> \<exists>v. sv_heap t p = Some v \<and> sv_ino v = b)"
    then have "r = None" using vol_wfD(7) [OF lk] bN by (cases r) auto
    moreover have "vol_wf (insert b L) N (t\<lparr>kmem := k\<rparr>)"
      by (rule vol_wf_mem [OF lk]) (use mem_step_refl [OF vol_wfD(1) [OF lk]] in \<open>simp_all\<close>)
    then have "wp (load_new b ty) ?Q ?R t"
      using t by (auto simp: load_new_def wp_def kbind_def kmalloc_ok_def kt kfail_def used_def)
    ultimately show "wp (case r of None \<Rightarrow> load_new b ty
      | Some sv \<Rightarrow> kbind (kassert (ty = SFS_TYPE_INVAL)) (\<lambda>_. kbind (vnode_incref sv) (\<lambda>_. kret sv))) ?Q ?R q"
      using r by simp
  qed simp
qed (use free in simp)

text \<open>
  when there is no memory for the vnode of a new file, \<open>sfs_makeobj\<close> fails with
  \<open>ENOMEM\<close> and the block it allocated for the inode stays marked in use, though nothing refers to it.
\<close>

theorem sfs_makeobj_nomem_leaks:
  assumes "vol_wf L N s" and "kmem s = False # k" and "\<not> {..<nblocks s} \<subseteq> used s"
  shows "wp (sfs_makeobj ty) (\<lambda>_ _. False)
    (\<lambda>e t. e = ENOMEM \<and> (\<exists>b. b \<notin> used s \<and> b < nblocks s \<and> used t = insert b (used s) \<and> vol_wf (insert b L) N t)) s"
  by (rule makeobj_nomem_wp [OF assms])

theorem sfs_makeobj_nomem_leaks_witness:
  "wp (sfs_makeobj SFS_TYPE_FILE) (\<lambda>_ _. False)
    (\<lambda>e t. e = ENOMEM \<and> (\<exists>b. b \<notin> used (vol_fs\<lparr>kmem := [False]\<rparr>) \<and> b < nblocks (vol_fs\<lparr>kmem := [False]\<rparr>)
      \<and> used t = insert b (used (vol_fs\<lparr>kmem := [False]\<rparr>)) \<and> vol_wf (insert b {}) vol_inodes t)) (vol_fs\<lparr>kmem := [False]\<rparr>)"
proof (rule sfs_makeobj_nomem_leaks)
  show "vol_wf {} vol_inodes (vol_fs\<lparr>kmem := [False]\<rparr>)"
    by (rule vol_wf_mem [OF vol_fs_wf]) (use mem_step_refl [OF vol_wfD(1) [OF vol_fs_wf]] in \<open>simp_all\<close>)
  show "\<not> {..<nblocks (vol_fs\<lparr>kmem := [False]\<rparr>)} \<subseteq> used (vol_fs\<lparr>kmem := [False]\<rparr>)"
  proof
    assume "{..<nblocks (vol_fs\<lparr>kmem := [False]\<rparr>)} \<subseteq> used (vol_fs\<lparr>kmem := [False]\<rparr>)"
    then have "{..<8} \<subseteq> {..<4 :: nat}" using vol_fs_simps(2,3) by (simp add: nblocks_def used_def)
    then show False by simp
  qed
qed simp

end
