(* ===== verification/SfsRename.thy ===== *)
theory SfsRename
  imports SfsName
begin

text \<open>
  Renaming in sfs (\<open>sfs_rename\<close> of kern/fs/sfs/sfs_vnode.c) on a consistent volume. The undo code behind
  the label \<open>puke_harder\<close> is never reached: erasing an entry in use writes into a block the directory
  already has, which cannot fail.
\<close>

section \<open>Erasing an entry in use\<close>

text \<open>A block the file has is found without allocating.\<close>

lemma bmap_mapped:
  assumes v: "sv_heap s p = Some v" and nz: "fmap (sv_i v) (disk s) fb \<noteq> 0" and fb: "fb < 143"
    and wf: "fs_wf s" "file_wf (sv_i v) s"
  shows "wp (sfs_bmap p fb True)
    (\<lambda>b t. bmap_post p v s v t \<and> disk t = disk s \<and> b = fmap (sv_i v) (disk s) fb) (\<lambda>_ _. False) s"
proof -
  let ?Q = "\<lambda>b t. bmap_post p v s v t \<and> disk t = disk s \<and> b = fmap (sv_i v) (disk s) fb"
  have rp: "bmap_post p v s v s" by (rule bmap_post_refl [OF wf(1) v wf(2)])
  show ?thesis
  proof (cases "fb < 15")
    case True
    then have "sfi_direct (sv_i v) ! fb = fmap (sv_i v) (disk s) fb" by (simp add: fmap_def)
    then show ?thesis using nz rp True bmap_done_wp [OF rp refl]
      by (simp add: sfs_bmap_def wps wp_sv_get [OF v] SFS_NDIRECT_def Let_def)
  next
    case False
    then have ix: "(fb - 15) div 128 = 0" "(fb - 15) mod 128 = fb - 15" using fb by simp_all
    have ind: "sfi_indirect (sv_i v) \<noteq> 0"
    proof
      assume "sfi_indirect (sv_i v) = 0"
      then show False using nz False fb by (simp add: fmap_def id_entries_def)
    qed
    have e: "id_entries (sv_i v) (disk s) ! (fb - 15) = fmap (sv_i v) (disk s) fb"
      using False fb by (simp add: fmap_def)
    have "wp (kbind (kbind (on_device (sfs_rblock (sfi_indirect (sv_i v)))) (\<lambda>data.
            kret (sfi_indirect (sv_i v), dec_u32s SFS_DBPERIDB data))) (bmap_entry (fb - 15) True)) ?Q (\<lambda>_ _. False) s"
      unfolding wp_kbind [of _ "bmap_entry (fb - 15) True"]
    proof (rule wp_mono [OF bmap_load_wp [OF wf(1) v wf(2) ind]])
      fix ib t
      assume t: "bmap_post p v s v t \<and> disk t = disk s \<and> used t = used s
        \<and> ib = (sfi_indirect (sv_i v), id_entries (sv_i v) (disk t))"
      then have "wp (bmap_done (fmap (sv_i v) (disk t) fb)) ?Q (\<lambda>_ _. False) t"
        using bmap_done_wp [of p v s v t _ fb] by simp
      then show "wp (bmap_entry (fb - 15) True ib) ?Q (\<lambda>_ _. False) t"
        using t e nz by (simp add: bmap_entry_def wps Let_def)
    qed simp
    then show ?thesis using False ind ix
      by (simp add: sfs_bmap_def wp_kbind [of "sv_get p"] wp_sv_get [OF v] SFS_NDIRECT_def Let_def SFS_DBPERIDB_def)
  qed
qed

text \<open>Writing from a kernel buffer within a block the file has cannot fail.\<close>

lemma partialio_mapped:
  assumes pre: "io_pre p v s u" and u: "uio_dir u = UIO_WRITE" "uio_segflg u = UIO_SYSSPACE"
    and pos: "uio_offset u = int (fb * 512 + skip)" "skip + len \<le> 512" "len \<le> uio_resid u" "0 < len"
    and nz: "fmap (sv_i v) (disk s) fb \<noteq> 0" "fb < 143"
  shows "wp (sfs_partialio p skip len) (\<lambda>_ _. True) (\<lambda>_ _. False) (s, u)"
proof -
  have pre': "fs_wf s" "sv_heap s p = Some v" "file_wf (sv_i v) s" and uv: "uio_valid u"
    using pre by (auto simp: io_pre_def)
  have sk: "u32 (skip + len) \<le> SFS_BLOCKSIZE" using pos(2) by (simp add: SFS_BLOCKSIZE_def)
  have fb: "to_u32 (cdiv (uio_offset u) (int SFS_BLOCKSIZE)) = fb"
    by (rule io_pos [OF uv pos(1)]) (use pos in linarith)
  let ?b = "fmap (sv_i v) (disk s) fb"
  have lt: "?b < nblocks s" by (rule file_wf_block(2) [OF pre'(3) nz(1)])
  have "wp (sfs_bmap p fb True) (\<lambda>b s1. wp (kbind (if b = 0 then kbind (kassert (UIO_WRITE = UIO_READ)) (\<lambda>_. kret (replicate SFS_BLOCKSIZE 0))
            else on_fs (on_device (sfs_rblock b))) (\<lambda>iobuf. kbind (on_uio (uiomove_obj iobuf skip len)) (\<lambda>iobuf.
            on_fs (on_device (sfs_wblock iobuf b))))) (\<lambda>_ _. True) (\<lambda>_ _. False) (s1, u)) (\<lambda>_ _. False) s"
  proof (rule wp_mono [OF bmap_mapped [OF pre'(2) nz pre'(1,3)]], elim conjE)
    fix b t
    assume t: "bmap_post p v s v t" "disk t = disk s" "b = ?b"
    have st: "fs_wf t" "file_wf (sv_i v) t" "nblocks t = nblocks s"
      using t(1) file_stepD [of p v v s t] fs_same_nblocks by (auto simp: bmap_post_def)
    have b: "b \<noteq> 0" "b < nblocks t" using t(3) nz lt st(3) by simp_all
    show "wp (kbind (if b = 0 then kbind (kassert (UIO_WRITE = UIO_READ)) (\<lambda>_. kret (replicate SFS_BLOCKSIZE 0))
            else on_fs (on_device (sfs_rblock b))) (\<lambda>iobuf. kbind (on_uio (uiomove_obj iobuf skip len)) (\<lambda>iobuf.
            on_fs (on_device (sfs_wblock iobuf b))))) (\<lambda>_ _. True) (\<lambda>_ _. False) (t, u)"
      unfolding if_not_P [OF b(1)] wp_kbind wp_on_fs wp_on_uio fst_conv snd_conv
    proof (rule wp_mono [OF rblock_wp [OF st(1) b(2)]], elim conjE)
      fix d r
      assume r: "d = disk t ! b" "fs_wf r" "fs_same t r" "disk r = disk t"
      have dl: "length d = 512" using r(1) fs_wf_block_length [OF st(1) b(2)] by simp
      have br: "b < nblocks r" using b(2) fs_same_nblocks [OF r(3)] by simp
      show "wp (uiomove_obj d skip len) (\<lambda>x u. wp (on_device (sfs_wblock x b)) (\<lambda>x t. True) (\<lambda>e t. False) r)
        (\<lambda>e u. False) u"
      proof (rule wp_mono [OF uiomove_obj_wp [OF uv pos(3)]])
        show "skip + len \<le> length d" using dl pos(2) by simp
      next
        fix k' u'
        assume "moved_ok skip len d u (k', u') \<and> uio_valid u'"
        then have "length k' = 512" using u(1) dl pos(2) by (simp add: moved_ok_def)
        then show "wp (on_device (sfs_wblock k' b)) (\<lambda>x t. True) (\<lambda>e t. False) r"
          by (intro wp_mono [OF wblock_wp [OF r(2) br]]) simp_all
      next
        fix e u'
        assume "\<exists>k'. moved_fault len d u e (k', u')"
        then show False using u(2) by (auto simp: moved_fault_def)
      qed
    qed simp
  qed simp
  then show ?thesis
    unfolding sfs_partialio_def wp_kbind [of "kget snd"] wp_kget Let_def snd_conv fb u(1)
    using sk by (simp add: wp_kbind wp_kassert wp_on_fs wp_kwhen)
qed

lemma slot_arith:
  fixes i :: nat
  shows "i * 64 mod 512 + 64 \<le> 512" "j < 64 \<Longrightarrow> (i * 64 + j) div 512 = i * 64 div 512"
    "i * 64 div 512 * 512 + i * 64 mod 512 = i * 64"
proof -
  define q r where "q = i div 8" and "r = i mod 8"
  have "i = q * 8 + r" and r: "r < 8" by (simp_all add: q_def r_def)
  then have e: "i * 64 = r * 64 + 512 * q" by simp
  have m: "i * 64 mod 512 = r * 64" "i * 64 div 512 = q" unfolding e using r by simp_all
  show "i * 64 mod 512 + 64 \<le> 512" unfolding m using r by simp
  show "(i * 64 + j) div 512 = i * 64 div 512" if "j < 64"
  proof -
    have "(r * 64 + j) div 512 = 0" using r that by simp
    moreover have "(i * 64 + j) div 512 = q + (r * 64 + j) div 512"
      unfolding e using div_mult_self2 [of 512 "r * 64 + j" q] by (simp add: algebra_simps)
    ultimately show ?thesis using m(2) by simp
  qed
qed (rule div_mult_mod_eq)

text \<open>A slot lies in one block, so writing it is one \<open>sfs_partialio\<close>.\<close>

lemma slot_partialio:
  assumes pre: "io_pre p v s u" and u: "uio_dir u = UIO_WRITE" "uio_segflg u = UIO_SYSSPACE" "uio_resid u = 64"
    "uio_offset u = int (i * 64)"
    and i: "i < 1144" and nz: "fmap (sv_i v) (disk s) (i * 64 div 512) \<noteq> 0"
  shows "wp (sfs_partialio p (i * 64 mod 512) 64) (\<lambda>_ t. \<exists>v'. io_prog p v s u 64 v' (fst t) (snd t)) (\<lambda>_ _. False) (s, u)"
proof -
  have pos: "uio_offset u = int (i * 64 div 512 * 512 + i * 64 mod 512)" unfolding slot_arith(3) by (rule u(4))
  note sk = slot_arith(1)
  have fb: "i * 64 div 512 < 143" using i by simp
  have "wp (sfs_partialio p (i * 64 mod 512) 64) (\<lambda>_ _. True) (\<lambda>_ _. False) (s, u)"
    by (rule partialio_mapped [OF pre u(1,2) pos sk _ _ nz fb]) (simp_all add: u(3))
  from wp_conj [OF sfs_partialio_wp [OF pre pos sk] this] show ?thesis using u(3) by simp
qed

lemma slot_body:
  assumes pre: "io_pre p v s u" and u: "uio_dir u = UIO_WRITE" "uio_segflg u = UIO_SYSSPACE" "uio_resid u = 64"
    "uio_offset u = int (i * 64)"
    and i: "i < 1144" and nz: "fmap (sv_i v) (disk s) (i * 64 div 512) \<noteq> 0"
  shows "wp (sfs_io_body p) (\<lambda>_ t. \<exists>v'. io_prog p v s u 64 v' (fst t) (snd t)) (\<lambda>_ _. False) (s, u)"
proof -
  have uv: "uio_valid u" using pre by (simp add: io_pre_def)
  note part = slot_partialio [OF assms]
  have pos: "uio_offset u = int (i * 64 div 512 * 512 + i * 64 mod 512)" unfolding slot_arith(3) by (rule u(4))
  have lt: "i * 64 mod 512 < 512" by simp
  note off = io_pos(2,3) [OF uv pos lt]
  show ?thesis
  proof (cases "i * 64 mod 512 = 0")
    case False
    have len: "(if SFS_BLOCKSIZE - i * 64 mod 512 > uio_resid u then uio_resid u else SFS_BLOCKSIZE - i * 64 mod 512) = 64"
      using slot_arith(1) [of i] unfolding u(3) SFS_BLOCKSIZE_def by (split if_split) linarith
    show ?thesis
      unfolding sfs_io_body_def wp_kbind [of "kget snd"] wp_kget snd_conv Let_def off(1) wp_kbind [of "kwhen _ _"]
        wp_kwhen if_P [OF False] len
    proof (rule wp_mono [OF part])
      fix x :: unit and t
      assume "\<exists>v'. io_prog p v s u 64 v' (fst t) (snd t)"
      moreover from this have "uio_resid (snd t) = 0" using io_prog_uio(4) [OF _ uv] u(3) by fastforce
      ultimately show "wp (if uio_resid (snd t) = 0 then kret () else
        kbind (kassert (cmod (uio_offset (snd t)) (int SFS_BLOCKSIZE) = 0)) (\<lambda>_.
        kbind (kfor [0..<uio_resid (snd t) div SFS_BLOCKSIZE] (\<lambda>_. sfs_blockio p)) (\<lambda>_.
        kbind (kget snd) (\<lambda>u. kbind (kassert (uio_resid u < SFS_BLOCKSIZE)) (\<lambda>_.
        kwhen (0 < uio_resid u) (sfs_partialio p 0 (uio_resid u)))))))
        (\<lambda>_ t. \<exists>v'. io_prog p v s u 64 v' (fst t) (snd t)) (\<lambda>_ _. False) t" by (simp add: wps)
    qed simp
  next
    case True
    have c: "cmod (uio_offset u) (int SFS_BLOCKSIZE) = 0" unfolding off(2) True by simp
    show ?thesis using part u(3) c off(1) True
      by (simp add: sfs_io_body_def wps Let_def SFS_BLOCKSIZE_def)
  qed
qed

lemma unlink_live:
  assumes pre: "dir_pre p v s" and i: "i < length (dir_ents (sv_i v) (disk s))" "live (dir_ents (sv_i v) (disk s) ! i)"
  shows "wp (sfs_dir_unlink p i) (\<lambda>_ _. True) (\<lambda>_ _. False) s"
proof -
  let ?e = "\<lparr>sfd_ino = SFS_NOINO, sfd_name = replicate SFS_NAMELEN (0 :: byte)\<rparr>"
  let ?u = "mk_kuio (enc_dir ?e) DIRSIZE (off32 (int (u32 (i * DIRSIZE)))) UIO_WRITE"
  have d: "sfi_size (sv_i v) mod 64 = 0" "sfi_size (sv_i v) \<le> 73216" using pre by (simp_all add: dir_pre_def dir_ok_def)
  have i2: "i < 1144" "i < 1145" "i * 64 < sfi_size (sv_i v)" using i(1) d by auto
  have e: "dir_fits ?e" by (simp add: dir_fits_def SFS_NOINO_def SFS_NAMELEN_def)
  note u = slot_uio [OF enc_dir_length [OF e] i2(2), of UIO_WRITE]
  have io: "io_pre p v s ?u" using pre u(1) by (simp add: dir_pre_def io_pre_def)
  have nz: "fmap (sv_i v) (disk s) (i * 64 div 512) \<noteq> 0"
  proof
    assume z: "fmap (sv_i v) (disk s) (i * 64 div 512) = 0"
    have "file_range (fblock (sv_i v) (disk s)) (i * 64) 64 = replicate 64 0"
    proof (rule nth_equalityI)
      fix j assume "j < length (file_range (fblock (sv_i v) (disk s)) (i * 64) 64)"
      then have j: "j < 64" by simp
      note d = slot_arith(2) [OF this, of i]
      then show "file_range (fblock (sv_i v) (disk s)) (i * 64) 64 ! j = replicate 64 0 ! j"
        using j z d by (simp add: file_range_nth fblock_def zeros_def)
    qed simp
    then have "dir_ents (sv_i v) (disk s) ! i = dec_dir (replicate 64 0)"
      using i(1) by (simp add: nth_dir_ents dir_slot_def)
    moreover have "sfd_ino (dec_dir (replicate 64 0)) = 0" by (simp add: dec_dir_def of_be_def numeral_eq_Suc)
    ultimately show False using i(2) by (simp add: live_def)
  qed
  have hp: "sv_heap s p = Some v" using pre by (simp add: dir_pre_def)
  have sz: "sfi_size (sv_i v) < 2147483648" using d by simp
  have "wp (sfs_io p) (\<lambda>_ t. uio_resid (snd t) = 0) (\<lambda>_ _. False) (s, ?u)"
  proof -
    have "wp (kattempt (sfs_io_body p)) (\<lambda>x. wp (sfs_io_out p 0 x) (\<lambda>_ t. uio_resid (snd t) = 0) (\<lambda>_ _. False)) (\<lambda>_ _. False) (s, ?u)"
      unfolding wp_kattempt
    proof (rule wp_mono [OF slot_body [OF io u(2,6,3,4) i2(1) nz]])
      fix x t
      assume "\<exists>v'. io_prog p v s ?u 64 v' (fst t) (snd t)"
      then obtain v1 s1 u1 where t: "t = (s1, u1)" and 1: "io_prog p v s ?u 64 v1 s1 u1" by (cases t) auto
      have "u1\<lparr>uio_mem := uio_mem u1\<rparr> = u1" by simp
      moreover have "uio_resid u1 = 0" using io_prog_uio(4) [OF 1 u(1)] u(3) by simp
      ultimately show "wp (sfs_io_out p 0 (Inr x)) (\<lambda>_ t. uio_resid (snd t) = 0) (\<lambda>_ _. False) t"
        using sfs_io_out_write [OF 1 u(1,2) sz, of "Inr x" "uio_mem u1"] unfolding t
        by (simp, elim wp_mono) auto
    qed simp
    then show ?thesis
      unfolding sfs_io_def wp_kbind [of "kget snd"] wp_kbind [of "on_fs _"] wp_kget wp_on_fs fst_conv snd_conv
        wp_sv_get [OF hp] Let_def
      using u(2) by (simp add: wp_kbind wp_kwhen)
  qed
  then show ?thesis unfolding sfs_dir_unlink_def sfs_writedir_def Let_def wp_kbind wp_with_uio
    by (rule wp_mono) (simp_all add: wps)
qed

section \<open>Letting go of the file that was looked up\<close>

text \<open>
  The vnodes in memory before and after: the directory's is now \<open>dv'\<close>, that of inode \<open>a\<close>, if it is in
  memory, changed by \<open>F\<close>, the others are the same.
\<close>

definition vnodes_moved :: "nat \<Rightarrow> sfs_vnode \<Rightarrow> nat \<Rightarrow> (sfs_vnode \<Rightarrow> sfs_vnode) \<Rightarrow> sfs_fs \<Rightarrow> sfs_fs \<Rightarrow> bool" where
  "vnodes_moved d dv' a F s t \<longleftrightarrow> dom (sv_heap t) = dom (sv_heap s)
     \<and> (\<forall>q w. sv_heap s q = Some w \<longrightarrow>
          sv_heap t q = Some (if q = d then dv' else if sv_ino w = a then F w else w))"

lemma got_drop_wp:
  assumes ok: "vol_ok L N es s" and d: "root_vnode d dv s" and a1: "a \<noteq> 1"
    and g: "vnode_got N a s p t" and h: "sv_heap t = (sv_heap s)(p \<mapsto> v)" and v: "sv_ino v = a"
      "vn_refcount v = 1 \<longrightarrow> vn_opencount v = 0 \<and> sv_heap s p = None"
      "vn_refcount v = 1 \<longleftrightarrow> (\<forall>q w. sv_heap s q = Some w \<longrightarrow> sv_ino w \<noteq> a)"
      "vn_refcount v \<noteq> 1 \<longrightarrow> sv_heap s p = Some (v\<lparr>vn_refcount := vn_refcount v - 1\<rparr>)"
    and lc: "sfi_linkcount (sv_i v) \<noteq> 0"
    and F: "\<And>r. F (v\<lparr>vn_refcount := r\<rparr>) = (F v)\<lparr>vn_refcount := r\<rparr>" "sv_ino (F v) = a" "sv_i (F v) = sv_i v"
      "vn_refcount (F v) = vn_refcount v" "vn_opencount (F v) = vn_opencount v"
    and u: "vol_ok L (N(1 \<mapsto> sv_i dv')) es' u" "root_vnode d dv' u"
      "sv_heap u = (sv_heap t)(d \<mapsto> dv', p \<mapsto> F v)" "keeps (N(1 := None)) t u"
  shows "wp (vnode_decref p)
    (\<lambda>_ f. vol_ok L (N(1 \<mapsto> sv_i dv')) es' f \<and> root_vnode d dv' f \<and> keeps (N(1 := None)) s f \<and> vnodes_moved d dv' a F s f)
    (\<lambda>_ _. False) u"
proof -
  have dh: "sv_heap s d = Some dv" "sv_ino dv = 1" using d by (simp_all add: root_vnode_def)
  have pd: "p \<noteq> d" using dh v(1,2,4) a1 by (cases "vn_refcount v = 1") auto
  have ms: "mem_step s t" using g by (simp add: vnode_got_def)
  have vt: "vtab_wf s" by (rule vol_wfD(2) [OF vol_okD(1) [OF ok]])
  have hu: "sv_heap u p = Some (F v)" by (simp add: u(3))
  have a1': "sv_ino (F v) \<noteq> 1" and oc: "vn_refcount (F v) = 1 \<longrightarrow> vn_opencount (F v) = 0" and ng: "\<not> gone (F v)"
    using a1 v(2) lc F by (simp_all add: gone_def)
  show ?thesis
  proof (rule wp_mono [OF vol_decref_wp [OF u(1) hu a1' oc]])
    fix x :: unit and f
    let ?N = "N(1 \<mapsto> sv_i dv')"
    assume f: "let N' = (if gone (F v) then ?N(sv_ino (F v) := None) else ?N) in
      vol_ok L N' es' f \<and> keeps N' u f
      \<and> sv_heap f = (sv_heap u)(p := if vn_refcount (F v) = 1 then None else Some ((F v)\<lparr>vn_refcount := vn_refcount (F v) - 1\<rparr>))"
    then have w: "vol_ok L ?N es' f" "keeps ?N u f"
      "sv_heap f = (sv_heap u)(p := if vn_refcount v = 1 then None else Some ((F v)\<lparr>vn_refcount := vn_refcount v - 1\<rparr>))"
      using ng F(4) by (simp_all add: Let_def)
    have "keeps (N(1 := None)) s u"
      by (rule keeps_trans [OF keeps_mem [OF ms, of N] u(4)]) (simp_all split: if_splits)
    then have k: "keeps (N(1 := None)) s f"
      by (rule keeps_trans [OF _ keeps_sub [OF w(2)]]) (simp_all split: if_splits)
    have hf: "sv_heap f = (sv_heap s)(d \<mapsto> dv', p := if vn_refcount v = 1 then None else Some ((F v)\<lparr>vn_refcount := vn_refcount v - 1\<rparr>))"
      using w(3) pd by (simp add: u(3) h fun_eq_iff)
    have "sv_heap f q = Some (if q = d then dv' else if sv_ino w = a then F w else w)"
      if q: "sv_heap s q = Some w" for q w
    proof (cases "q = d")
      case True
      then show ?thesis using hf pd by simp
    next
      case False
      show ?thesis
      proof (cases "sv_ino w = a")
        case True
        then have rc: "vn_refcount v \<noteq> 1" using v(3) q by blast
        then have sp: "sv_heap s p = Some (v\<lparr>vn_refcount := vn_refcount v - 1\<rparr>)" using v(4) by simp
        have qp: "q = p" by (rule vtab_inj [OF vt q sp]) (simp add: True v(1))
        then have w: "w = v\<lparr>vn_refcount := vn_refcount v - 1\<rparr>" using sp q by simp
        show ?thesis using qp rc False v(1) hf unfolding w by (simp add: F(1))
      next
        case no: False
        then have "q \<noteq> p" using q v(1,2,4) by (cases "vn_refcount v = 1") auto
        then show ?thesis using False no hf q by simp
      qed
    qed
    moreover have "dom (sv_heap f) = dom (sv_heap s)"
      unfolding hf using dh(1) v(2,4) by (cases "vn_refcount v = 1") auto
    moreover have "root_vnode d dv' f" using u(2) w(3) pd by (simp add: root_vnode_def)
    ultimately show "vol_ok L ?N es' f \<and> root_vnode d dv' f \<and> keeps (N(1 := None)) s f \<and> vnodes_moved d dv' a F s f"
      unfolding vnodes_moved_def using w(1) k by blast
  qed simp
qed

section \<open>Renaming\<close>

definition dirtied :: "sfs_vnode \<Rightarrow> sfs_vnode" where
  "dirtied v = v\<lparr>sv_dirty := True\<rparr>"

text \<open>The name \<open>n1\<close> has become \<open>n2\<close>; nothing else has.\<close>

definition renamed :: "nat set \<Rightarrow> (nat \<rightharpoonup> sfs_inode) \<Rightarrow> sfs_dir list \<Rightarrow> nat \<Rightarrow> sfs_vnode \<Rightarrow> byte list \<Rightarrow> byte list \<Rightarrow> sfs_fs \<Rightarrow> sfs_fs \<Rightarrow> bool" where
  "renamed L N es d dv n1 n2 s t \<longleftrightarrow> dir_map es n2 = None \<and> length n2 < 60 \<and> (\<exists>a dv' es'. dir_map es n1 = Some a
     \<and> dir_map es' = (dir_map es)(n1 := None, n2 \<mapsto> a) \<and> vol_ok L (N(1 \<mapsto> sv_i dv')) es' t
     \<and> root_vnode d dv' t \<and> vnode_same dv dv' \<and> keeps (N(1 := None)) s t \<and> vnodes_moved d dv' a dirtied s t)"

text \<open>A failed renaming: the names and the files are what they were.\<close>

definition rename_error :: "nat set \<Rightarrow> (nat \<rightharpoonup> sfs_inode) \<Rightarrow> sfs_dir list \<Rightarrow> nat \<Rightarrow> sfs_vnode \<Rightarrow> byte list \<Rightarrow> byte list \<Rightarrow> errno \<Rightarrow> sfs_fs \<Rightarrow> sfs_fs \<Rightarrow> bool" where
  "rename_error L N es d dv n1 n2 e s t \<longleftrightarrow>
     (\<exists>dv'. vol_ok L (N(1 \<mapsto> sv_i dv')) es t \<and> root_vnode d dv' t \<and> vnode_same dv dv' \<and> keeps (N(1 := None)) s t
        \<and> vnodes_moved d dv' 1 id s t)
     \<and> (if dir_map es n1 = None then e = ENOENT else e = ENOMEM \<or> e = EEXIST \<and> dir_map es n2 \<noteq> None
          \<or> dir_map es n2 = None \<and> e = ENAMETOOLONG \<and> 60 \<le> length n2 \<or> e = ENOSPC \<or> e = EINVAL \<and> length es = 1144)"

lemma moved_id: "vnodes_moved d dv' a (\<lambda>v. v) s t \<Longrightarrow> vnodes_moved d dv' b id s t"
  unfolding vnodes_moved_def by (metis id_apply)

lemma dec_link_total: "wp (dec_link p) Q R s = wp (dec_link p) Q R' s"
  by (simp add: dec_link_def wp_def kbind_def sv_get_def sv_upd_def kassert_def split: outcome.splits option.splits)

text \<open>Erasing the old entry and counting the link off again: neither can fail.\<close>

lemma rename_unlink_wp:
  assumes ok: "vol_ok L N es s" and d: "root_vnode d dv s" and v: "sv_heap s p = Some v" "sv_ino v \<noteq> 1"
    and e: "slot < length es" "live (es ! slot)" "sfd_ino (es ! slot) = sv_ino v"
  defines "v' \<equiv> with_links (sfi_linkcount (sv_i v) - 1) v"
  shows "wp (sfs_dir_unlink d slot)
    (\<lambda>_. wp (dec_link p) (\<lambda>_ t. \<exists>dv' es'. vol_ok L (N(1 \<mapsto> sv_i dv', sv_ino v \<mapsto> sv_i v')) es' t \<and> root_vnode d dv' t \<and> vnode_same dv dv'
       \<and> dir_map es' = (dir_map es)(dname (es ! slot) := None)
       \<and> sv_heap t = (sv_heap s)(d \<mapsto> dv', p \<mapsto> v') \<and> keeps (N(1 := None)) s t) (\<lambda>_ _. False))
    (\<lambda>_ _. False) s"
proof -
  note rt = root_pre [OF ok d]
  have e': "slot < length (dir_ents (sv_i dv) (disk s))" "live (dir_ents (sv_i dv) (disk s) ! slot)"
    unfolding rt(2) by (rule e)+
  from wp_conj [OF unlink_dec_wp [OF ok d v e, unfolded wp_kbind] unlink_live [OF rt(1) e']]
  show ?thesis unfolding v'_def by (rule wp_mono) (use dec_link_total in blast)+
qed

lemma keeps_cong:
  assumes "keeps M s t" and "\<And>a i. N a = Some i \<Longrightarrow> \<exists>j. M a = Some j \<and> (\<forall>d. owned j d = owned i d)"
  shows "keeps N s t"
  unfolding keeps_def
proof (intro conjI allI impI ballI)
  show "nblocks t = nblocks s" using assms(1) by (simp add: keeps_def)
  fix a i b
  assume i: "N a = Some i" and b: "b \<in> owned i (disk s)"
  then obtain j where "M a = Some j" "b \<in> owned j (disk s)" using assms(2) by blast
  then show "disk t ! b = disk s ! b" using assms(1) unfolding keeps_def by blast
qed

lemma sfs_rename_wp:
  assumes ok: "vol_ok L N es s" and d: "root_vnode d dv s" and name: "0 \<notin> set n2"
  shows "wp (sfs_rename d n1 d n2) (\<lambda>_ t. renamed L N es d dv n1 n2 s t)
    (\<lambda>e t. rename_error L N es d dv n1 n2 e s t) s"
    (is "wp _ ?Q ?R s")
proof -
  have good: "dir_good N es" and dwf: "dir_wf es" and wf: "vol_wf L N s" using vol_okD [OF ok] by simp_all
  have dh: "sv_heap s d = Some dv" "sv_ino dv = SFS_ROOT_LOCATION" "sv_ino dv = 1"
    using d by (simp_all add: root_vnode_def SFS_ROOT_LOCATION_def)
  show ?thesis unfolding sfs_rename_def wp_kbind [of "kassert _"] wp_kassert wp_kbind [of "sv_get _"] wp_sv_get [OF dh(1)]
    wp_kbind [of "sfs_lookonce _ _"]
  proof (intro conjI refl dh(2), rule wp_mono [OF sfs_lookonce_wp [OF ok d]], elim conjE)
    fix r t
    assume t: "vol_ok L N es t" "snd r < length es" "live (es ! snd r)" "dname (es ! snd r) = n1"
      "dir_map es n1 = Some (sfd_ino (es ! snd r))" "vnode_got N (sfd_ino (es ! snd r)) s (fst r) t"
    obtain p slot a where ps: "r = (p, slot)" "a = sfd_ino (es ! slot)" by (cases r) simp
    note t = t [unfolded ps(1) fst_conv snd_conv, folded ps(2)]
    obtain v where v: "sv_heap t = (sv_heap s)(p \<mapsto> v)" "sv_ino v = a" "N a = Some (sv_i v)"
      "vn_refcount v = 1 \<longrightarrow> vn_opencount v = 0 \<and> sv_heap s p = None"
      "vn_refcount v = 1 \<longleftrightarrow> (\<forall>q w. sv_heap s q = Some w \<longrightarrow> sv_ino w \<noteq> a)"
      "vn_refcount v \<noteq> 1 \<longrightarrow> sv_heap s p = Some (v\<lparr>vn_refcount := vn_refcount v - 1\<rparr>)"
      using vnode_gotD [OF t(6) vol_wfD(2) [OF wf]] by (elim exE conjE) (rule that; assumption)
    have "sfd_ino (es ! slot) \<noteq> 1" using good t(2,3) unfolding dir_good_def by simp
    then have a1: "a \<noteq> 1" "sv_ino v \<noteq> 1" by (simp_all add: ps(2) v(2))
    have pd: "p \<noteq> d" using dh v(2,4,6) a1 by (cases "vn_refcount v = 1") auto
    have hp: "sv_heap t p = Some v" by (simp add: v(1))
    have dt: "root_vnode d dv t" using d pd by (simp add: root_vnode_def v(1))
    have N: "N (sv_ino v) = Some (sv_i v)" unfolding v(2) by (rule v(3))
    have ei: "sfd_ino (es ! slot) = a" by (simp add: ps(2))
    have "links es a \<noteq> 0" unfolding links_0 ps(2) using t(2) nth_mem by blast
    then have lc: "sfi_linkcount (sv_i v) \<noteq> 0" using vnode_file(3) [OF t(1) hp a1(2)] v(2) by simp
    note drop = got_drop_wp [OF ok d a1(1) t(6) v(1,2,4-6) lc]
    show "wp (let g1 = fst r; slot1 = snd r in
     kbind (sv_get g1) (\<lambda>g.
     kbind (kassert (sfi_type (sv_i g) = SFS_TYPE_FILE)) (\<lambda>_.
     kbind (kattempt (sfs_dir_link d n2 (sv_ino g))) (\<lambda>result.
     case result of
       Inl e \<Rightarrow> kbind (vnode_decref g1) (\<lambda>_. kfail e)
     | Inr slot2 \<Rightarrow>
         kbind (inc_link g1) (\<lambda>_.
         kbind (kattempt (sfs_dir_unlink d slot1)) (\<lambda>result.
         case result of
           Inl e \<Rightarrow>
             kbind (rename_undo d g1 slot2) (\<lambda>_.
             kbind (vnode_decref g1) (\<lambda>_. kfail e))
         | Inr _ \<Rightarrow>
             kbind (dec_link g1) (\<lambda>_.
             vnode_decref g1))))))) ?Q ?R t"
      unfolding ps(1) fst_conv snd_conv Let_def wp_kbind [of "sv_get _"] wp_sv_get [OF hp] wp_kbind [of "kassert _"] wp_kassert
        wp_kbind [of "kattempt _"] wp_kattempt
    proof (intro conjI vnode_file(2) [OF t(1) hp a1(2)], rule wp_mono [OF vol_link_wp [OF t(1) dt N name]], elim conjE exE)
      fix slot2 u dv1 es1
      assume u: "dir_map es n2 = None" "length n2 < 60" "root_step L N d dv dv1 es1 t u"
        "entry_added es n2 (sv_ino v) slot2 es1"
      note c = link_counted [OF t(1) dt u(3) hp refl a1(2) u(4)]
      let ?n = "sfi_linkcount (sv_i v)"
      let ?v1 = "with_links (?n + 1) v" and ?u = "u\<lparr>sv_heap := (sv_heap u)(p \<mapsto> with_links (?n + 1) v)\<rparr>"
      obtain e where en: "es1 = put_ent slot2 e es" "slot2 \<le> length es" "slot2 < length es \<longrightarrow> \<not> live (es ! slot2)"
        "dir_map es1 = (dir_map es)(n2 \<mapsto> sv_ino v)" using u(4) unfolding entry_added_def by blast
      have ne: "slot2 \<noteq> slot" using en(3) t(2,3) by blast
      have s1: "slot < length es1" "es1 ! slot = es ! slot"
        using ne t(2) en(1,2) by (auto simp: put_ent_def nth_append)
      have v1: "sv_heap ?u p = Some ?v1" "sv_ino ?v1 \<noteq> 1" "sfd_ino (es1 ! slot) = sv_ino ?v1" "live (es1 ! slot)"
        using a1(2) s1(2) ei v(2) t(3) by simp_all
      have n12: "n1 \<noteq> n2" using u(1) t(5) by auto
      have "wp (sfs_dir_unlink d slot) (\<lambda>_. wp (dec_link p) (\<lambda>_. wp (vnode_decref p) ?Q ?R) ?R)
         (\<lambda>e. wp (kbind (rename_undo d p slot2) (\<lambda>_. kbind (vnode_decref p) (\<lambda>_. kfail e))) ?Q ?R) ?u"
      proof (rule wp_mono [OF rename_unlink_wp [OF c(4,5) v1(1,2) s1(1) v1(4,3)]])
        fix x :: unit and w
        let ?v2 = "with_links (sfi_linkcount (sv_i ?v1) - 1) ?v1"
        have v2: "?v2 = dirtied v" by (simp add: with_links_def dirtied_def)
        let ?M = "N(1 \<mapsto> sv_i dv1, sv_ino v \<mapsto> (sv_i v)\<lparr>sfi_linkcount := ?n + 1\<rparr>)"
        assume "wp (dec_link p) (\<lambda>_ t. \<exists>dv' es'. vol_ok L (?M(1 \<mapsto> sv_i dv', sv_ino ?v1 \<mapsto> sv_i ?v2)) es' t
            \<and> root_vnode d dv' t \<and> vnode_same dv1 dv'
            \<and> dir_map es' = (dir_map es1)(dname (es1 ! slot) := None)
            \<and> sv_heap t = (sv_heap ?u)(d \<mapsto> dv', p \<mapsto> ?v2) \<and> keeps (?M(1 := None)) ?u t) (\<lambda>_ _. False) w"
        then show "wp (dec_link p) (\<lambda>_. wp (vnode_decref p) ?Q ?R) ?R w"
          unfolding v2
        proof (rule wp_mono, elim exE conjE)
          fix y :: unit and z dv2 es2
          assume z: "vol_ok L (?M(1 \<mapsto> sv_i dv2, sv_ino ?v1 \<mapsto> sv_i (dirtied v))) es2 z" "root_vnode d dv2 z"
            "vnode_same dv1 dv2" "dir_map es2 = (dir_map es1)(dname (es1 ! slot) := None)"
            "sv_heap z = (sv_heap ?u)(d \<mapsto> dv2, p \<mapsto> dirtied v)" "keeps (?M(1 := None)) ?u z"
          have "?M(1 \<mapsto> sv_i dv2, sv_ino ?v1 \<mapsto> sv_i (dirtied v)) = N(1 \<mapsto> sv_i dv2)"
            using N a1(2) by (simp add: fun_eq_iff dirtied_def)
          then have ok2: "vol_ok L (N(1 \<mapsto> sv_i dv2)) es2 z" using z(1) by simp
          have dm2: "dir_map es2 = (dir_map es)(n1 := None, n2 \<mapsto> a)"
            using z(4) en(4) s1(2) t(4) v(2) n12 by (simp add: fun_upd_twist)
          have h2: "sv_heap z = (sv_heap t)(d \<mapsto> dv2, p \<mapsto> dirtied v)"
            using z(5) u(3) pd by (simp add: root_step_def fun_eq_iff)
          have k1: "keeps (N(1 := None)) t ?u" using u(3) by (simp add: root_step_def keeps_def nblocks_def)
          have "keeps (N(1 := None)) ?u z"
          proof (rule keeps_cong [OF z(6)])
            fix b i
            assume "(N(1 := None)) b = Some i"
            then show "\<exists>j. (?M(1 := None)) b = Some j \<and> (\<forall>d. owned j d = owned i d)"
              using N by (cases "b = sv_ino v") (auto simp: links_map split: if_splits)
          qed
          then have "keeps (N(1 := None)) t z" using keeps_trans [OF k1] by blast
          then have "wp (vnode_decref p) (\<lambda>_ f. vol_ok L (N(1 \<mapsto> sv_i dv2)) es2 f \<and> root_vnode d dv2 f
              \<and> keeps (N(1 := None)) s f \<and> vnodes_moved d dv2 a dirtied s f) (\<lambda>_ _. False) z"
            by (intro drop [where F = dirtied, OF _ _ _ _ _ ok2 z(2) h2]) (simp_all add: dirtied_def v(2))
          moreover have "vnode_same dv dv2" using u(3) z(3) vnode_same_trans by (auto simp: root_step_def)
          ultimately show "wp (vnode_decref p) ?Q ?R z"
            by (elim wp_mono) (use u(1,2) t(5) dm2 in \<open>auto simp: renamed_def\<close>)
        qed simp
      qed simp
      then show "wp (case Inr slot2 of Inl e \<Rightarrow> kbind (vnode_decref p) (\<lambda>_. kfail e)
         | Inr slot2 \<Rightarrow> kbind (inc_link p) (\<lambda>_. kbind (kattempt (sfs_dir_unlink d slot)) (\<lambda>result.
           case result of Inl e \<Rightarrow> kbind (rename_undo d p slot2) (\<lambda>_. kbind (vnode_decref p) (\<lambda>_. kfail e))
           | Inr _ \<Rightarrow> kbind (dec_link p) (\<lambda>_. vnode_decref p)))) ?Q ?R u"
        by (simp add: wp_kbind inc_link_wp [OF c(1,2)] wp_kattempt)
    next
      fix er u
      assume "(\<exists>dv'. root_step L N d dv dv' es t u) \<and> link_error es n2 er u"
      then obtain dv1 where st: "root_step L N d dv dv1 es t u" and er: "link_error es n2 er u" by blast
      note q = st [unfolded root_step_def]
      note ro = root_step_ok [OF st t(1) dt good]
      have h2: "sv_heap u = (sv_heap t)(d \<mapsto> dv1, p \<mapsto> v)" using q hp pd by (simp add: fun_eq_iff)
      have "wp (vnode_decref p) (\<lambda>_ f. vol_ok L (N(1 \<mapsto> sv_i dv1)) es f \<and> root_vnode d dv1 f
              \<and> keeps (N(1 := None)) s f \<and> vnodes_moved d dv1 a (\<lambda>v. v) s f) (\<lambda>_ _. False) u"
        by (rule drop [where F = "\<lambda>v. v", OF _ _ _ _ _ ro h2]) (use q v(2) in simp_all)
      then show "wp (case Inl er of Inl e \<Rightarrow> kbind (vnode_decref p) (\<lambda>_. kfail e)
         | Inr slot2 \<Rightarrow> kbind (inc_link p) (\<lambda>_. kbind (kattempt (sfs_dir_unlink d slot)) (\<lambda>result.
           case result of Inl e \<Rightarrow> kbind (rename_undo d p slot2) (\<lambda>_. kbind (vnode_decref p) (\<lambda>_. kfail e))
           | Inr _ \<Rightarrow> kbind (dec_link p) (\<lambda>_. vnode_decref p)))) ?Q ?R u"
        unfolding sum.case wp_kbind wp_kfail
        by (rule wp_mono) (use moved_id q er t(5) in \<open>auto simp: rename_error_def link_error_def\<close>)
    qed
  next
    fix e t
    assume t: "vol_ok L N es t \<and> mem_step s t \<and> sv_heap t = sv_heap s
       \<and> (e = ENOENT \<and> dir_map es n1 = None \<or> e = ENOMEM \<and> dir_map es n1 \<noteq> None)"
    then have "root_step L N d dv dv es s t" "vol_ok L (N(1 \<mapsto> sv_i dv)) es t" using root_same [OF ok d, of t] by blast+
    moreover have "root_vnode d dv t" using d t by (simp add: root_vnode_def)
    moreover have "vnodes_moved d dv 1 id s t" using t dh by (auto simp: vnodes_moved_def)
    ultimately show "?R e t" using t unfolding rename_error_def root_step_def by auto
  qed
qed

section \<open>Property\<close>

text \<open>
  Property C17: on a consistent volume \<open>sfs_rename\<close> moves a name: the directory's map loses the old name
  and gives the new one the old one's inode, link counts and contents of all files stay, and the
  volume stays consistent. It fails without effect on names and files when the old name does not
  exist, the new one does or is too long, the directory cannot grow, or memory runs out; the panic of
  its error recovery (and every other one) is out of reach. The disk reports no errors (\<open>fs_wf\<close>).
\<close>

theorem sfs_rename_moves_name:
  assumes "vol_ok L N es s" and "root_vnode d dv s" and "0 \<notin> set n2"
  shows "wp (sfs_rename d n1 d n2) (\<lambda>_ t. renamed L N es d dv n1 n2 s t)
    (\<lambda>e t. rename_error L N es d dv n1 n2 e s t) s"
  by (rule sfs_rename_wp [OF assms])

text \<open>Creating a file in the empty volume and renaming it.\<close>

theorem sfs_rename_moves_name_witness:
  "wp (sfs_creat 4096 [97] True)
     (\<lambda>p t. \<exists>L N es dv. dir_map es [97] \<noteq> None \<and> dir_map es [98] = None
        \<and> wp (sfs_rename 4096 [97] 4096 [98]) (\<lambda>_ u. renamed L N es 4096 dv [97] [98] t u)
             (\<lambda>e u. rename_error L N es 4096 dv [97] [98] e t u) t)
     (\<lambda>_ _. True) vol_fs"
proof (rule wp_mono [OF sfs_creat_wp [OF vol_fs_ok]])
  fix p t
  assume "\<not> True \<and> opened {} vol_inodes [] [97] p vol_fs t \<or> created {} vol_inodes [] 4096 vol_root_vnode [97] p vol_fs t"
  then obtain b dv' es' where t: "vol_ok {} (vol_inodes(1 \<mapsto> sv_i dv', b \<mapsto> fresh_file\<lparr>sfi_linkcount := 1\<rparr>)) es' t"
    "dir_map es' = (dir_map [])([97] \<mapsto> b)" "root_vnode 4096 dv' t" by (auto simp: created_def)
  have "dir_map es' [97] \<noteq> None \<and> dir_map es' [98] = None" using t(2) by (simp add: dir_map_def)
  moreover have "0 \<notin> set [98 :: byte]" by simp
  ultimately show "\<exists>L N es dv. dir_map es [97] \<noteq> None \<and> dir_map es [98] = None
        \<and> wp (sfs_rename 4096 [97] 4096 [98]) (\<lambda>_ u. renamed L N es 4096 dv [97] [98] t u)
             (\<lambda>e u. rename_error L N es 4096 dv [97] [98] e t u) t"
    using sfs_rename_moves_name [OF t(1,3)] by blast
qed simp_all

end
