(* ===== verification/SfsMount.thy ===== *)
theory SfsMount
  imports SfsVnode
begin

text \<open>
  The routines of the mounted file system as a whole, kern/fs/sfs/sfs_fs.c: reading and writing the
  free map, sync, unmount and mount. The compile-time checks of structure sizes at the head of
  \<open>sfs_domount\<close> hold by the definitions of the structures.
\<close>

section \<open>The routines\<close>

definition sfs_mapio :: "uio_rw \<Rightarrow> (sfs_fs, unit) op" where
  "sfs_mapio rw =
     kbind (kget (SFS_BITBLOCKS \<circ> sp_nblocks \<circ> sfs_super)) (\<lambda>mapsize.
     kfor [0..<mapsize] (\<lambda>j.
       kbind (kget (bitmap_getdata \<circ> sfs_freemap)) (\<lambda>bitdata.
       kbind (kassert (j * SFS_BLOCKSIZE + SFS_BLOCKSIZE \<le> length bitdata)) (\<lambda>_.
       if rw = UIO_READ then
         kbind (on_device (sfs_rblock (SFS_MAP_LOCATION + j))) (\<lambda>data.
         on_freemap (kmodify (\<lambda>b. b\<lparr>b_v := put_at (j * SFS_BLOCKSIZE) data (b_v b)\<rparr>)))
       else
         on_device (sfs_wblock (take SFS_BLOCKSIZE (drop (j * SFS_BLOCKSIZE) bitdata)) (SFS_MAP_LOCATION + j))))))"

text \<open>The loop over the loaded vnodes ignores the result of \<open>VOP_FSYNC\<close>.\<close>

definition sync_vnodes :: "(sfs_fs, unit) op" where
  "sync_vnodes =
     kbind (kget (\<lambda>s. array_getnum (sfs_vnodes s))) (\<lambda>num.
     kfor [0..<nat num] (\<lambda>i.
       kbind (on_vnodes (array_getguy (int i))) (\<lambda>g.
       case g of None \<Rightarrow> kpanic
       | Some sv \<Rightarrow> kbind (kattempt (VOP_FSYNC sv)) (\<lambda>_. kret ()))))"

definition sfs_sync :: "(sfs_fs, unit) op" where
  "sfs_sync =
     kbind sync_vnodes (\<lambda>_.
     kbind (kget sfs_freemapdirty) (\<lambda>fd.
     kbind (kwhen fd
              (kbind (sfs_mapio UIO_WRITE) (\<lambda>_.
               kmodify (\<lambda>s. s\<lparr>sfs_freemapdirty := False\<rparr>)))) (\<lambda>_.
     kbind (kget sfs_superdirty) (\<lambda>sd.
     kwhen sd
       (kbind (kget sfs_super) (\<lambda>sp.
        kbind (on_device (sfs_wblock (enc_super sp) SFS_SB_LOCATION)) (\<lambda>_.
        kmodify (\<lambda>s. s\<lparr>sfs_superdirty := False\<rparr>))))))))"

definition sfs_getvolname :: "(sfs_fs, byte list) op" where
  "sfs_getvolname = kget (sp_volname \<circ> sfs_super)"

text \<open>
  After a successful \<open>sfs_unmount\<close> the structures have been freed; the state the model hands back
  then stands for what is left, the device.
\<close>

definition sfs_unmount :: "(sfs_fs, unit) op" where
  "sfs_unmount =
     kbind (kget (\<lambda>s. array_getnum (sfs_vnodes s))) (\<lambda>num.
     if num > 0 then kfail EBUSY
     else
       kbind (kget id) (\<lambda>s.
       kbind (kassert (\<not> sfs_superdirty s)) (\<lambda>_.
       kassert (\<not> sfs_freemapdirty s))))"

text \<open>
  \<open>sfs_domount\<close> on a device with sectors of size \<open>d_blocksize\<close>. The four flags say whether the
  allocations of the \<open>sfs_fs\<close>, the vnode array and the two parts of the bitmap succeed; \<open>km\<close> are
  the outcomes of the allocations to come on the mounted file system.
\<close>

definition sfs_domount :: "nat \<Rightarrow> bool \<Rightarrow> bool \<Rightarrow> bool \<Rightarrow> bool \<Rightarrow> bool list \<Rightarrow> (lhd, sfs_fs) op" where
  "sfs_domount d_blocksize ok_fs ok_array ok_bitmap ok_bits km =
     (if d_blocksize \<noteq> SFS_BLOCKSIZE then kfail ENXIO
      else if \<not> ok_fs then kfail ENOMEM
      else case array_create ok_array of None \<Rightarrow> kfail ENOMEM | Some vnodes \<Rightarrow>
        kbind (sfs_rblock SFS_SB_LOCATION) (\<lambda>data.
        let sp = dec_super data in
        if sp_magic sp \<noteq> SFS_MAGIC then kfail EINVAL
        else
          let sp = sp\<lparr>sp_volname := (sp_volname sp)[31 := 0]\<rparr> in
          kbind (bitmap_create ok_bitmap ok_bits (SFS_BITMAPSIZE (sp_nblocks sp))) (\<lambda>b.
          case b of None \<Rightarrow> kfail ENOMEM | Some freemap \<Rightarrow>
            (\<lambda>l. case sfs_mapio UIO_READ
                    \<lparr>sfs_super = sp, sfs_superdirty = False, sfs_device = l, sfs_vnodes = vnodes,
                     sfs_freemap = freemap, sfs_freemapdirty = False, sv_heap = (\<lambda>_. None), kmem = km\<rparr> of
                 Done _ s \<Rightarrow> Done s (sfs_device s)
               | Fail e s \<Rightarrow> Fail e (sfs_device s)
               | Panic \<Rightarrow> Panic))))"

end
