(* ===== verification/SfsMem.thy ===== *)
theory SfsMem
  imports SfsRename SfsMount
begin

text \<open>
  The allocations still to come on a volume: every routine of sfs only uses them up. So when none of
  them fails at the start, none fails later.
\<close>

definition kmem_step :: "sfs_fs \<Rightarrow> sfs_fs \<Rightarrow> bool" where
  "kmem_step s t \<longleftrightarrow> set (kmem t) \<subseteq> set (kmem s)"

text \<open>\<open>g\<close> picks the volume out of the state.\<close>

definition kmono :: "('s \<Rightarrow> sfs_fs) \<Rightarrow> ('s, 'a) op \<Rightarrow> bool" where
  "kmono g m \<longleftrightarrow> (\<forall>s. case m s of Done x t \<Rightarrow> kmem_step (g s) (g t) | Fail e t \<Rightarrow> kmem_step (g s) (g t) | Panic \<Rightarrow> True)"

lemma kmem_step_refl [simp]: "kmem_step s s" by (simp add: kmem_step_def)

lemma kmem_step_same [simp]: "kmem t = kmem s \<Longrightarrow> kmem_step s t" by (simp add: kmem_step_def)

lemma kmem_step_trans: "kmem_step s t \<Longrightarrow> kmem_step t u \<Longrightarrow> kmem_step s u" unfolding kmem_step_def by blast

named_theorems kmonos \<open>rules for kmono\<close>

lemma kmono_kret [kmonos]: "kmono g (kret x)" by (simp add: kmono_def kret_def)
lemma kmono_kfail [kmonos]: "kmono g (kfail e)" by (simp add: kmono_def kfail_def)
lemma kmono_kpanic [kmonos]: "kmono g kpanic" by (simp add: kmono_def kpanic_def)
lemma kmono_kassert [kmonos]: "kmono g (kassert P)" by (simp add: kmono_def kassert_def)
lemma kmono_kget [kmonos]: "kmono g (kget f)" by (simp add: kmono_def kget_def)

lemma kmono_kbind [kmonos]:
  assumes "kmono g m" and "\<And>x. kmono g (k x)"
  shows "kmono g (kbind m k)"
  unfolding kmono_def
proof
  fix s
  show "case kbind m k s of Done x t \<Rightarrow> kmem_step (g s) (g t) | Fail e t \<Rightarrow> kmem_step (g s) (g t) | Panic \<Rightarrow> True"
  proof (cases "m s")
    case (Done x t)
    then have "kmem_step (g s) (g t)" using assms(1) [unfolded kmono_def, THEN spec, of s] by simp
    then show ?thesis using assms(2) [of x, unfolded kmono_def, THEN spec, of t]
      by (auto simp: kbind_def Done split: outcome.splits intro: kmem_step_trans)
  next
    case (Fail e t)
    then show ?thesis using assms(1) [unfolded kmono_def, THEN spec, of s] by (simp add: kbind_def)
  qed (simp add: kbind_def)
qed

lemma kmono_kattempt [kmonos]: "kmono g m \<Longrightarrow> kmono g (kattempt m)"
  unfolding kmono_def kattempt_def by (force split: outcome.splits)

lemma kmono_kresult [kmonos]: "kmono g (kresult r)"
  by (cases r) (simp_all add: kresult_def kmono_kret kmono_kfail)

lemma kmono_kwhen [kmonos]: "kmono g m \<Longrightarrow> kmono g (kwhen P m)"
  by (simp add: kwhen_def kmono_kret)

lemma kmono_if [kmonos]: "(P \<Longrightarrow> kmono g m) \<Longrightarrow> (\<not> P \<Longrightarrow> kmono g n) \<Longrightarrow> kmono g (if P then m else n)"
  by simp

lemma kmono_option [kmonos]: "kmono g m \<Longrightarrow> (\<And>x. kmono g (k x)) \<Longrightarrow> kmono g (case r of None \<Rightarrow> m | Some x \<Rightarrow> k x)"
  by (cases r) simp_all

lemma kmono_sum [kmonos]: "(\<And>x. kmono g (h x)) \<Longrightarrow> (\<And>x. kmono g (k x)) \<Longrightarrow> kmono g (case r of Inl x \<Rightarrow> h x | Inr x \<Rightarrow> k x)"
  by (cases r) simp_all

lemma kmono_pair [kmonos]: "(\<And>x y. kmono g (k x y)) \<Longrightarrow> kmono g (case r of (x, y) \<Rightarrow> k x y)"
  by (cases r) simp

lemma kmono_kfor [kmonos]: "(\<And>i. kmono g (f i)) \<Longrightarrow> kmono g (kfor is f)"
  by (induction "is") (simp_all add: kmonos)

lemma kmono_zoom_other:
  assumes "\<And>t s. kmem (g (pt t s)) = kmem (g s)"
  shows "kmono g (kzoom gt pt m)"
  unfolding kmono_def kzoom_def using assms by (auto split: outcome.splits)

lemma kmono_zoom:
  assumes "kmono h m" and "\<And>t s. g (pt t s) = h t" and "\<And>s. h (gt s) = g s"
  shows "kmono g (kzoom gt pt m)"
  unfolding kmono_def kzoom_def
proof
  fix s
  show "case case m (gt s) of Done x t \<Rightarrow> Done x (pt t s) | Fail e t \<Rightarrow> Fail e (pt t s) | Panic \<Rightarrow> Panic of
      Done x t \<Rightarrow> kmem_step (g s) (g t) | Fail e t \<Rightarrow> kmem_step (g s) (g t) | Panic \<Rightarrow> True"
    using assms(1) [unfolded kmono_def, THEN spec, of "gt s"] assms(2,3) by (auto split: outcome.splits)
qed

lemma kmono_kmodify [kmonos]: "(\<And>s. kmem (g (f s)) = kmem (g s)) \<Longrightarrow> kmono g (kmodify f)"
  by (simp add: kmono_def kmodify_def)

section \<open>The routines\<close>

lemma kmono_on [kmonos]: "kmono id (on_device d)" "kmono id (on_freemap b)" "kmono id (on_vnodes a)"
  unfolding on_device_def on_freemap_def on_vnodes_def by (rule kmono_zoom_other; simp)+

lemma kmono_sv [kmonos]: "kmono id (sv_get p)" "kmono id (sv_upd p f)"
  by (simp_all add: kmono_def sv_get_def sv_upd_def split: option.splits)

lemma kmono_kmalloc_ok [kmonos]: "kmono id kmalloc_ok"
  by (auto simp: kmono_def kmalloc_ok_def kmem_step_def split: list.splits)

lemma kmono_on_fs [kmonos]: "kmono id m \<Longrightarrow> kmono fst (on_fs m)"
  unfolding on_fs_def by (rule kmono_zoom [where h = id]) simp_all

lemma kmono_on_uio [kmonos]: "kmono fst (on_uio u)" "kmono fst io_rwblock"
  unfolding on_uio_def io_rwblock_def by (rule kmono_zoom_other; simp)+

lemma kmono_with_uio [kmonos]:
  assumes "kmono fst m"
  shows "kmono id (with_uio u m)"
  unfolding kmono_def with_uio_def
proof
  fix s
  show "case case m (s, u) of Done x t \<Rightarrow> Done (snd t) (fst t) | Fail e t \<Rightarrow> Fail e (fst t) | Panic \<Rightarrow> Panic of
      Done x t \<Rightarrow> kmem_step (id s) (id t) | Fail e t \<Rightarrow> kmem_step (id s) (id t) | Panic \<Rightarrow> True"
    using assms [unfolded kmono_def, THEN spec, of "(s, u)"] by (auto split: outcome.splits)
qed

lemma kmono_blocks [kmonos]: "kmono id sfs_balloc" "kmono id (sfs_bfree a)" "kmono id (sfs_bused a)"
    "kmono id (sfs_clearblock a)" "kmono id (bmap_done a)" "kmono id (sfs_sync_inode p)"
  unfolding sfs_balloc_def sfs_bfree_def sfs_bused_def sfs_clearblock_def bmap_done_def sfs_sync_inode_def
  by (rule kmonos | simp)+

lemma kmono_bmap [kmonos]: "kmono id (bmap_entry a b c)" "kmono id (sfs_bmap p fb alloc)"
  unfolding sfs_bmap_def bmap_entry_def Let_def by (rule kmonos)+

lemma kmono_io [kmonos]: "kmono fst (sfs_io p)"
  unfolding sfs_io_def sfs_io_out_def sfs_io_body_def sfs_blockio_def sfs_partialio_def Let_def by (rule kmonos)+

lemma kmono_dir [kmonos]: "kmono id (sfs_readdir p i)" "kmono id (sfs_writedir p e i)" "kmono id (sfs_dir_nentries p)"
  unfolding sfs_readdir_def sfs_writedir_def sfs_dir_nentries_def Let_def by (rule kmonos)+

lemma kmono_findname [kmonos]: "kmono id (sfs_dir_findname p name)"
proof -
  have "kmono id (findname_loop p name is a b)" for "is" a b
    by (induction "is" arbitrary: a b) (simp_all add: kmonos)
  then show ?thesis unfolding sfs_dir_findname_def by (intro kmonos)
qed

lemma kmono_dir_link [kmonos]: "kmono id (sfs_dir_link p name a)" "kmono id (sfs_dir_unlink p i)"
  unfolding sfs_dir_link_def sfs_dir_unlink_def Let_def by (rule kmonos)+

lemma kmono_trunc [kmonos]: "kmono id (sfs_truncate p n)"
proof -
  have "kmono id (trunc_entries bl js buf nz di)" for bl js buf nz di
    by (induction js arbitrary: buf nz di) (simp_all add: kmonos)
  then show ?thesis unfolding sfs_truncate_def trunc_indirect_def trunc_direct_def Let_def by (intro kmonos)
qed

lemma kmono_vop [kmonos]: "kmono id m \<Longrightarrow> kmono id n \<Longrightarrow> kmono id (vop p c m n)"
  unfolding vop_def vnode_check_def
  by (intro kmonos) (auto split: option.split sfs_ops.split intro: kmono_kpanic)

lemma kmono_load [kmonos]: "kmono id (sfs_loadvnode a t)"
proof -
  have search: "kmono id (load_search a is)" for "is"
  proof (induction "is")
    case (Cons i "is")
    show ?case unfolding load_search.simps by (rule kmonos Cons.IH)+
  qed (unfold load_search.simps, rule kmonos)
  show ?thesis unfolding sfs_loadvnode_def load_new_def load_table_def vnode_init_def vnode_kill_def kfree_vnode_def
      free_on_error_def vnode_incref_def Let_def
    by (rule kmonos search | simp)+
qed

lemma kmono_vnode [kmonos]: "kmono id (vnode_incref p)" "kmono id (vnode_decref p)" "kmono id (vnode_incopen p)"
    "kmono id (vnode_decopen p)" "kmono id sfs_getroot"
  unfolding vnode_incref_def vnode_decref_def VOP_RECLAIM_def sfs_reclaim_def VOP_TRUNCATE_def forget_vnode_def vnode_kill_def
    kfree_vnode_def vnode_incopen_def vnode_decopen_def VOP_CLOSE_def sfs_close_def VOP_FSYNC_def sfs_fsync_def sfs_getroot_def
  by (rule kmonos | simp)+

lemma kmono_names [kmonos]: "kmono id (sfs_lookonce p name)" "kmono id (sfs_creat p name excl)" "kmono id (sfs_remove p name)"
    "kmono id (sfs_rename p name q name2)" "kmono id (sfs_lookup p name)" "kmono id (sfs_lookparent p name len)"
    "kmono id (sfs_gettype p)" "kmono id (VOP_TRUNCATE p n)"
  unfolding sfs_lookonce_def sfs_creat_def sfs_makeobj_def sfs_remove_def sfs_rename_def rename_undo_def inc_link_def dec_link_def
    sfs_lookup_def sfs_lookparent_def sfs_gettype_def VOP_TRUNCATE_def Let_def
  by (rule kmonos | simp)+

end
