(* ===== verification/Vfs.thy ===== *)
theory Vfs
  imports KArray SfsVnode
begin

unbundle bit_operations_syntax

text \<open>
  The VFS layer: the table of named devices (kern/fs/vfs/vfslist.c), the translation of path names
  (vfslookup.c), the current directory (vfscwd.c) and the calls on path names (vfspath.c).

  The layer calls file systems and devices through function pointers: \<open>VOP_X\<close> and \<open>FSOP_X\<close>. The
  tables are a record of operations on the state of the file systems; the theories built on this one
  say what the layer needs of them and fill them with the operations of sfs and of devices. A file
  system is named by a number, a vnode by a value of a type \<open>'v\<close>.

  A path is a C string, the list of its bytes without the terminator. \<open>getdevice\<close> cuts it apart in the
  caller's buffer; what becomes of the buffer afterwards is not modelled. The array of known devices
  holds pointers to structures no one else points to; the model keeps the structures in it. The locks
  of this kernel are stubs that never block.
\<close>

section \<open>Interfaces\<close>

record ('f, 'v) fs_ops =
  vop_incref :: "'v \<Rightarrow> ('f, unit) op"
  vop_decref :: "'v \<Rightarrow> ('f, unit) op"
  vop_incopen :: "'v \<Rightarrow> ('f, unit) op"
  vop_decopen :: "'v \<Rightarrow> ('f, unit) op"
  vop_open :: "'v \<Rightarrow> nat \<Rightarrow> ('f, unit) op"
  vop_readlink :: "'v \<Rightarrow> ('f \<times> uio, unit) op"
  vop_gettype :: "'v \<Rightarrow> ('f, nat) op"
  vop_truncate :: "'v \<Rightarrow> int \<Rightarrow> ('f, unit) op"
  vop_namefile :: "'v \<Rightarrow> ('f \<times> uio, unit) op"
  vop_creat :: "'v \<Rightarrow> byte list \<Rightarrow> bool \<Rightarrow> ('f, 'v) op"
  vop_symlink :: "'v \<Rightarrow> byte list \<Rightarrow> byte list \<Rightarrow> ('f, unit) op"
  vop_mkdir :: "'v \<Rightarrow> byte list \<Rightarrow> ('f, unit) op"
  vop_link :: "'v \<Rightarrow> byte list \<Rightarrow> 'v \<Rightarrow> ('f, unit) op"
  vop_remove :: "'v \<Rightarrow> byte list \<Rightarrow> ('f, unit) op"
  vop_rmdir :: "'v \<Rightarrow> byte list \<Rightarrow> ('f, unit) op"
  vop_rename :: "'v \<Rightarrow> byte list \<Rightarrow> 'v \<Rightarrow> byte list \<Rightarrow> ('f, unit) op"
  vop_lookup :: "'v \<Rightarrow> byte list \<Rightarrow> ('f, 'v) op"
  vop_lookparent :: "'v \<Rightarrow> byte list \<Rightarrow> nat \<Rightarrow> ('f, 'v \<times> byte list) op"
  vn_fs :: "'v \<Rightarrow> nat option"
  fsop_sync :: "nat \<Rightarrow> ('f, unit) op"
  fsop_getvolname :: "nat \<Rightarrow> ('f, byte list option) op"
  fsop_getroot :: "nat \<Rightarrow> ('f, 'v) op"
  fsop_unmount :: "nat \<Rightarrow> ('f, unit) op"
  dev_create_vnode :: "nat option \<Rightarrow> ('f, 'v) op"
  kfree_dev_vnode :: "'v \<Rightarrow> ('f, unit) op"

record 'v knowndev =
  kd_name :: "byte list"
  kd_rawname :: "byte list option"
  kd_device :: "nat option"
  kd_vnode :: 'v
  kd_fs :: "nat option"

text \<open>\<open>t_cwd\<close> is that of the current thread; \<open>v_mem\<close> are the outcomes of the calls of \<open>kmalloc\<close> to come.\<close>

record ('f, 'v) vfs =
  knowndevs :: "'v knowndev karray"
  bootfs_vnode :: "'v option"
  t_cwd :: "'v option"
  v_mem :: "bool list"
  v_fs :: 'f

definition on_low :: "('f, 'a) op \<Rightarrow> (('f, 'v) vfs, 'a) op" where
  "on_low m = kzoom v_fs (\<lambda>f s. s\<lparr>v_fs := f\<rparr>) m"

definition on_devs :: "('v knowndev karray, 'a) op \<Rightarrow> (('f, 'v) vfs, 'a) op" where
  "on_devs m = kzoom knowndevs (\<lambda>a s. s\<lparr>knowndevs := a\<rparr>) m"

definition vfs_kmalloc :: "(('f, 'v) vfs, bool) op" where
  "vfs_kmalloc = (\<lambda>s. case v_mem s of [] \<Rightarrow> Done True s | b # bs \<Rightarrow> Done b (s\<lparr>v_mem := bs\<rparr>))"

text \<open>\<open>array_getguy(knowndevs, i)\<close>, and storing into the structure it points to.\<close>

definition get_dev :: "nat \<Rightarrow> (('f, 'v) vfs, 'v knowndev) op" where
  "get_dev i = kbind (on_devs (array_getguy (int i))) (\<lambda>g. case g of None \<Rightarrow> kpanic | Some kd \<Rightarrow> kret kd)"

definition set_kd_fs :: "nat \<Rightarrow> nat option \<Rightarrow> (('f, 'v) vfs, unit) op" where
  "set_kd_fs i fs = kbind (get_dev i) (\<lambda>kd. on_devs (array_setguy (int i) (kd\<lparr>kd_fs := fs\<rparr>)))"

definition num_devs :: "(('f, 'v) vfs, nat) op" where
  "num_devs = kget (\<lambda>s. nat (array_getnum (knowndevs s)))"

section \<open>The table of known devices (vfslist.c)\<close>

definition vfs_sync :: "('f, 'v) fs_ops \<Rightarrow> (('f, 'v) vfs, unit) op" where
  "vfs_sync ops =
     kbind num_devs (\<lambda>num.
     kfor [0..<num] (\<lambda>i.
       kbind (get_dev i) (\<lambda>dev.
       case kd_fs dev of
         None \<Rightarrow> kret ()
       | Some fs \<Rightarrow> kbind (kattempt (on_low (fsop_sync ops fs))) (\<lambda>_. kret ()))))"

text \<open>One turn of the loop of \<open>vfs_getroot\<close>: a result, or on to the next device.\<close>

definition getroot_dev :: "('f, 'v) fs_ops \<Rightarrow> byte list \<Rightarrow> 'v knowndev \<Rightarrow> (('f, 'v) vfs, 'v option) op" where
  "getroot_dev ops devname kd =
     (let rest =
        (if kd_name kd = devname then
           kbind (kassert (kd_fs kd = None)) (\<lambda>_.
           kbind (kassert (kd_rawname kd = None)) (\<lambda>_.
           kbind (kassert (kd_device kd \<noteq> None)) (\<lambda>_.
           kbind (on_low (vop_incref ops (kd_vnode kd))) (\<lambda>_. kret (Some (kd_vnode kd))))))
         else if kd_rawname kd = Some devname then
           kbind (kassert (kd_device kd \<noteq> None)) (\<lambda>_.
           kbind (on_low (vop_incref ops (kd_vnode kd))) (\<lambda>_. kret (Some (kd_vnode kd))))
         else kret None)
      in case kd_fs kd of
           Some fs \<Rightarrow>
             kbind (on_low (fsop_getvolname ops fs)) (\<lambda>volname.
             if kd_name kd = devname \<or> volname = Some devname
             then kbind (on_low (fsop_getroot ops fs)) (\<lambda>vn. kret (Some vn))
             else rest)
         | None \<Rightarrow> if kd_rawname kd \<noteq> None \<and> kd_name kd = devname then kfail ENXIO else rest)"

primrec getroot_loop :: "('f, 'v) fs_ops \<Rightarrow> byte list \<Rightarrow> nat list \<Rightarrow> (('f, 'v) vfs, 'v) op" where
  "getroot_loop ops devname [] = kfail ENODEV"
| "getroot_loop ops devname (i # is) =
     kbind (get_dev i) (\<lambda>kd.
     kbind (getroot_dev ops devname kd) (\<lambda>r.
     case r of Some vn \<Rightarrow> kret vn | None \<Rightarrow> getroot_loop ops devname is))"

definition vfs_getroot :: "('f, 'v) fs_ops \<Rightarrow> byte list \<Rightarrow> (('f, 'v) vfs, 'v) op" where
  "vfs_getroot ops devname = kbind num_devs (\<lambda>num. getroot_loop ops devname [0..<num])"

primrec getdevname_loop :: "nat \<Rightarrow> nat list \<Rightarrow> (('f, 'v) vfs, byte list option) op" where
  "getdevname_loop fs [] = kret None"
| "getdevname_loop fs (i # is) =
     kbind (get_dev i) (\<lambda>kd. if kd_fs kd = Some fs then kret (Some (kd_name kd)) else getdevname_loop fs is)"

definition vfs_getdevname :: "nat \<Rightarrow> (('f, 'v) vfs, byte list option) op" where
  "vfs_getdevname fs = kbind num_devs (\<lambda>num. getdevname_loop fs [0..<num])"

text \<open>The string \<open>"raw"\<close>.\<close>

definition mkrawname :: "byte list \<Rightarrow> byte list" where
  "mkrawname name = name @ [114, 97, 119]"

definition samestring :: "byte list option \<Rightarrow> byte list option \<Rightarrow> bool" where
  "samestring a b = (if a = None \<or> b = None then False else a = b)"

definition samestring3 :: "byte list option \<Rightarrow> byte list option \<Rightarrow> byte list option \<Rightarrow> byte list option \<Rightarrow> bool" where
  "samestring3 a b c d \<longleftrightarrow> samestring a b \<or> samestring a c \<or> samestring a d"

primrec badnames_loop :: "('f, 'v) fs_ops \<Rightarrow> byte list option \<Rightarrow> byte list option \<Rightarrow> byte list option \<Rightarrow> nat list
    \<Rightarrow> (('f, 'v) vfs, bool) op" where
  "badnames_loop ops n1 n2 n3 [] = kret False"
| "badnames_loop ops n1 n2 n3 (i # is) =
     kbind (get_dev i) (\<lambda>kd.
     kbind (case kd_fs kd of
              None \<Rightarrow> kret False
            | Some fs \<Rightarrow> kbind (on_low (fsop_getvolname ops fs)) (\<lambda>volname. kret (samestring3 volname n1 n2 n3))) (\<lambda>b.
     if b then kret True
     else if samestring3 (kd_rawname kd) n1 n2 n3 \<or> samestring3 (Some (kd_name kd)) n1 n2 n3 then kret True
     else badnames_loop ops n1 n2 n3 is))"

definition badnames :: "('f, 'v) fs_ops \<Rightarrow> byte list option \<Rightarrow> byte list option \<Rightarrow> byte list option \<Rightarrow> (('f, 'v) vfs, bool) op" where
  "badnames ops n1 n2 n3 = kbind num_devs (\<lambda>num. badnames_loop ops n1 n2 n3 [0..<num])"

text \<open>
  \<open>vfs_doadd\<close> allocates the name, the raw name, the vnode and the structure. When the vnode could not be
  made the names are freed again; when the structure could not, the vnode's memory is, too.
\<close>

definition vfs_doadd :: "('f, 'v) fs_ops \<Rightarrow> byte list \<Rightarrow> bool \<Rightarrow> nat option \<Rightarrow> nat option \<Rightarrow> (('f, 'v) vfs, unit) op" where
  "vfs_doadd ops devname mountable dev fs =
     kbind vfs_kmalloc (\<lambda>ok1.
     if \<not> ok1 then kfail ENOMEM
     else
       kbind (if mountable then vfs_kmalloc else kret True) (\<lambda>ok2.
       if \<not> ok2 then kfail ENOMEM
       else
         let name = devname; rawname = (if mountable then Some (mkrawname name) else None) in
         kbind (kattempt (on_low (dev_create_vnode ops dev))) (\<lambda>r.
         case r of
           Inl e \<Rightarrow> kfail ENOMEM
         | Inr vnode \<Rightarrow>
             kbind vfs_kmalloc (\<lambda>ok3.
             if \<not> ok3 then kbind (on_low (kfree_dev_vnode ops vnode)) (\<lambda>_. kfail ENOMEM)
             else
               let kd = \<lparr>kd_name = name, kd_rawname = rawname, kd_device = dev, kd_vnode = vnode, kd_fs = fs\<rparr> in
               kbind (case fs of None \<Rightarrow> kret None | Some f \<Rightarrow> on_low (fsop_getvolname ops f)) (\<lambda>volname.
               kbind (badnames ops (Some name) rawname volname) (\<lambda>bad.
               if \<not> bad then kbind vfs_kmalloc (\<lambda>ok4. on_devs (array_add ok4 kd))
               else kfail EEXIST))))))"

definition vfs_adddev :: "('f, 'v) fs_ops \<Rightarrow> byte list \<Rightarrow> nat \<Rightarrow> bool \<Rightarrow> (('f, 'v) vfs, unit) op" where
  "vfs_adddev ops devname dev mountable = vfs_doadd ops devname mountable (Some dev) None"

definition vfs_addfs :: "('f, 'v) fs_ops \<Rightarrow> byte list \<Rightarrow> nat \<Rightarrow> (('f, 'v) vfs, unit) op" where
  "vfs_addfs ops devname fs = vfs_doadd ops devname False None (Some fs)"

text \<open>\<open>findmount\<close>: the place of the mountable device of that name.\<close>

primrec findmount_loop :: "byte list \<Rightarrow> nat list \<Rightarrow> (('f, 'v) vfs, nat) op" where
  "findmount_loop devname [] = kfail ENODEV"
| "findmount_loop devname (i # is) =
     kbind (get_dev i) (\<lambda>dev.
     if kd_rawname dev = None then findmount_loop devname is
     else if devname = kd_name dev then kret i
     else findmount_loop devname is)"

definition findmount :: "byte list \<Rightarrow> (('f, 'v) vfs, nat) op" where
  "findmount devname = kbind num_devs (\<lambda>num. findmount_loop devname [0..<num])"

text \<open>After a mount the volume name is printed, no more; the raw name and the device are checked before.\<close>

definition vfs_mount :: "byte list \<Rightarrow> (nat \<Rightarrow> ('f, nat) op) \<Rightarrow> (('f, 'v) vfs, unit) op" where
  "vfs_mount devname mountfunc =
     kbind (findmount devname) (\<lambda>i.
     kbind (get_dev i) (\<lambda>kd.
     if kd_fs kd \<noteq> None then kfail EBUSY
     else
       kbind (kassert (kd_rawname kd \<noteq> None)) (\<lambda>_.
       case kd_device kd of
         None \<Rightarrow> kpanic
       | Some dev \<Rightarrow> kbind (on_low (mountfunc dev)) (\<lambda>fs. set_kd_fs i (Some fs)))))"

definition vfs_unmount :: "('f, 'v) fs_ops \<Rightarrow> byte list \<Rightarrow> (('f, 'v) vfs, unit) op" where
  "vfs_unmount ops devname =
     kbind (findmount devname) (\<lambda>i.
     kbind (get_dev i) (\<lambda>kd.
     case kd_fs kd of
       None \<Rightarrow> kfail EINVAL
     | Some fs \<Rightarrow>
         kbind (kassert (kd_rawname kd \<noteq> None)) (\<lambda>_.
         kbind (kassert (kd_device kd \<noteq> None)) (\<lambda>_.
         kbind (on_low (fsop_sync ops fs)) (\<lambda>_.
         kbind (on_low (fsop_unmount ops fs)) (\<lambda>_.
         set_kd_fs i None))))))"

text \<open>\<open>vfs_unmountall\<close> tries a failed sync once more and goes on after every error.\<close>

definition unmount_dev :: "('f, 'v) fs_ops \<Rightarrow> nat \<Rightarrow> nat \<Rightarrow> (('f, 'v) vfs, unit) op" where
  "unmount_dev ops i fs =
     kbind (kattempt (on_low (fsop_unmount ops fs))) (\<lambda>result.
     case result of Inl e \<Rightarrow> kret () | Inr _ \<Rightarrow> set_kd_fs i None)"

definition vfs_unmountall :: "('f, 'v) fs_ops \<Rightarrow> (('f, 'v) vfs, unit) op" where
  "vfs_unmountall ops =
     kbind num_devs (\<lambda>num.
     kfor [0..<num] (\<lambda>i.
       kbind (get_dev i) (\<lambda>dev.
       if kd_rawname dev = None then kret ()
       else case kd_fs dev of
         None \<Rightarrow> kret ()
       | Some fs \<Rightarrow>
           kbind (kattempt (on_low (fsop_sync ops fs))) (\<lambda>result.
           case result of
             Inr _ \<Rightarrow> unmount_dev ops i fs
           | Inl _ \<Rightarrow>
               kbind (kattempt (on_low (fsop_sync ops fs))) (\<lambda>result.
               case result of Inl _ \<Rightarrow> kret () | Inr _ \<Rightarrow> unmount_dev ops i fs)))))"

section \<open>The current directory (vfscwd.c), without \<open>vfs_chdir\<close>\<close>

definition vfs_getcurdir :: "('f, 'v) fs_ops \<Rightarrow> (('f, 'v) vfs, 'v) op" where
  "vfs_getcurdir ops =
     kbind (kget t_cwd) (\<lambda>cwd.
     case cwd of
       Some v \<Rightarrow> kbind (on_low (vop_incref ops v)) (\<lambda>_. kret v)
     | None \<Rightarrow> kfail ENOENT)"

text \<open>\<open>VOP_DECREF\<close> of the old value, unless it was \<open>NULL\<close>.\<close>

definition drop_old :: "('f, 'v) fs_ops \<Rightarrow> 'v option \<Rightarrow> (('f, 'v) vfs, unit) op" where
  "drop_old ops old = (case old of None \<Rightarrow> kret () | Some v \<Rightarrow> on_low (vop_decref ops v))"

definition vfs_setcurdir :: "('f, 'v) fs_ops \<Rightarrow> 'v \<Rightarrow> (('f, 'v) vfs, unit) op" where
  "vfs_setcurdir ops dir =
     kbind (on_low (vop_gettype ops dir)) (\<lambda>vtype.
     if vtype \<noteq> S_IFDIR then kfail ENOTDIR
     else
       kbind (on_low (vop_incref ops dir)) (\<lambda>_.
       kbind (kget t_cwd) (\<lambda>old.
       kbind (kmodify (\<lambda>s. s\<lparr>t_cwd := Some dir\<rparr>)) (\<lambda>_.
       drop_old ops old))))"

definition vfs_clearcurdir :: "('f, 'v) fs_ops \<Rightarrow> (('f, 'v) vfs, unit) op" where
  "vfs_clearcurdir ops =
     kbind (kget t_cwd) (\<lambda>old.
     kbind (kmodify (\<lambda>s. s\<lparr>t_cwd := None\<rparr>)) (\<lambda>_.
     drop_old ops old))"

section \<open>Names (vfslookup.c)\<close>

definition COLON :: byte where "COLON = 58"
definition SLASH :: byte where "SLASH = 47"

text \<open>The loop of \<open>getdevice\<close>: the places of the first slash and the first colon, whichever comes first.\<close>

primrec locate_sep :: "byte list \<Rightarrow> int \<Rightarrow> int \<times> int" where
  "locate_sep [] i = (-1, -1)"
| "locate_sep (c # cs) i = (if c = COLON then (-1, i) else if c = SLASH then (i, -1) else locate_sep cs (i + 1))"

text \<open>The value of \<open>getdevice\<close> is the vnode to start from and the rest of the path.\<close>

definition getdevice :: "('f, 'v) fs_ops \<Rightarrow> byte list \<Rightarrow> (('f, 'v) vfs, 'v \<times> byte list) op" where
  "getdevice ops path =
     (let slash = fst (locate_sep path 0); colon = snd (locate_sep path 0) in
      if colon < 0 \<and> slash \<noteq> 0 then kbind (vfs_getcurdir ops) (\<lambda>vn. kret (vn, path))
      else if colon > 0 then
        let subpath = dropWhile (\<lambda>c. c = SLASH) (drop (nat colon + 1) path) in
        kbind (vfs_getroot ops (take (nat colon) path)) (\<lambda>vn. kret (vn, subpath))
      else
        kbind (kassert (colon = 0 \<or> slash = 0)) (\<lambda>_.
        kbind (if path ! 0 = SLASH then
                 kbind (kget bootfs_vnode) (\<lambda>b.
                 case b of
                   None \<Rightarrow> kfail ENOENT
                 | Some v \<Rightarrow> kbind (on_low (vop_incref ops v)) (\<lambda>_. kret v))
               else
                 kbind (kassert (path ! 0 = COLON)) (\<lambda>_.
                 kbind (vfs_getcurdir ops) (\<lambda>vn.
                 case vn_fs ops vn of
                   None \<Rightarrow> kpanic
                 | Some fs \<Rightarrow>
                     kbind (on_low (fsop_getroot ops fs)) (\<lambda>startvn.
                     kbind (on_low (vop_decref ops vn)) (\<lambda>_. kret startvn))))) (\<lambda>startvn.
        kret (startvn, dropWhile (\<lambda>c. c = SLASH) (drop 1 path)))))"

text \<open>The value of \<open>vfs_lookparent\<close> is the directory and the name put into the buffer.\<close>

definition vfs_lookparent :: "('f, 'v) fs_ops \<Rightarrow> byte list \<Rightarrow> nat \<Rightarrow> (('f, 'v) vfs, 'v \<times> byte list) op" where
  "vfs_lookparent ops path buflen =
     kbind (getdevice ops path) (\<lambda>r.
     let startvn = fst r; path = snd r in
     kbind (kattempt (if length path = 0 then kfail EINVAL
                      else on_low (vop_lookparent ops startvn path buflen))) (\<lambda>result.
     kbind (on_low (vop_decref ops startvn)) (\<lambda>_.
     kresult result)))"

definition vfs_lookup :: "('f, 'v) fs_ops \<Rightarrow> byte list \<Rightarrow> (('f, 'v) vfs, 'v) op" where
  "vfs_lookup ops path =
     kbind (getdevice ops path) (\<lambda>r.
     let startvn = fst r; path = snd r in
     if length path = 0 then kret startvn
     else
       kbind (kattempt (on_low (vop_lookup ops startvn path))) (\<lambda>result.
       kbind (on_low (vop_decref ops startvn)) (\<lambda>_.
       kresult result)))"

definition change_bootfs :: "('f, 'v) fs_ops \<Rightarrow> 'v option \<Rightarrow> (('f, 'v) vfs, unit) op" where
  "change_bootfs ops newguy =
     kbind (kget bootfs_vnode) (\<lambda>oldguy.
     kbind (kmodify (\<lambda>s. s\<lparr>bootfs_vnode := newguy\<rparr>)) (\<lambda>_.
     drop_old ops oldguy))"

definition vfs_clearbootfs :: "('f, 'v) fs_ops \<Rightarrow> (('f, 'v) vfs, unit) op" where
  "vfs_clearbootfs ops = change_bootfs ops None"

definition vfs_chdir :: "('f, 'v) fs_ops \<Rightarrow> byte list \<Rightarrow> (('f, 'v) vfs, unit) op" where
  "vfs_chdir ops path =
     kbind (vfs_lookup ops path) (\<lambda>vn.
     kbind (kattempt (vfs_setcurdir ops vn)) (\<lambda>result.
     kbind (on_low (vop_decref ops vn)) (\<lambda>_.
     kresult result)))"

definition NAME_MAX :: nat where "NAME_MAX = 255"

text \<open>\<open>strchr\<close>: the rest of the string from the first occurrence; the terminator is found at the end.\<close>

definition strchr :: "byte list \<Rightarrow> byte \<Rightarrow> byte list option" where
  "strchr s c = (if c \<in> set s then Some (dropWhile (\<lambda>b. b \<noteq> c) s) else if c = 0 then Some [] else None)"

text \<open>\<open>snprintf\<close> into \<open>sizeof(tmp)-1\<close> bytes keeps one less of the name.\<close>

definition vfs_setbootfs :: "('f, 'v) fs_ops \<Rightarrow> byte list \<Rightarrow> (('f, 'v) vfs, unit) op" where
  "vfs_setbootfs ops fsname =
     (let tmp = take (NAME_MAX - 1) fsname in
      kbind (case strchr tmp COLON of
               Some s \<Rightarrow> if length s > 0 then kfail EINVAL else kret tmp
             | None \<Rightarrow> kret (tmp @ [COLON])) (\<lambda>tmp.
      kbind (vfs_chdir ops tmp) (\<lambda>_.
      kbind (vfs_getcurdir ops) (\<lambda>newguy.
      change_bootfs ops (Some newguy)))))"

section \<open>The calls on path names (vfspath.c)\<close>

definition O_WRONLY :: nat where "O_WRONLY = 1"
definition O_RDWR :: nat where "O_RDWR = 2"
definition O_CREAT :: nat where "O_CREAT = 4"
definition O_EXCL :: nat where "O_EXCL = 8"
definition O_TRUNC :: nat where "O_TRUNC = 16"

text \<open>The first half of \<open>vfs_open\<close>: find or create the file.\<close>

definition open_vnode :: "('f, 'v) fs_ops \<Rightarrow> byte list \<Rightarrow> nat \<Rightarrow> (('f, 'v) vfs, 'v) op" where
  "open_vnode ops path openflags =
     (if openflags AND O_CREAT \<noteq> 0 then
        kbind (vfs_lookparent ops path (NAME_MAX + 1)) (\<lambda>r.
        let dir = fst r; name = snd r; excl = (openflags AND O_EXCL \<noteq> 0) in
        kbind (kattempt (on_low (vop_creat ops dir name excl))) (\<lambda>result.
        kbind (on_low (vop_decref ops dir)) (\<lambda>_.
        kresult result)))
      else vfs_lookup ops path)"

definition vfs_open :: "('f, 'v) fs_ops \<Rightarrow> byte list \<Rightarrow> nat \<Rightarrow> (('f, 'v) vfs, 'v) op" where
  "vfs_open ops path openflags =
     (let how = openflags AND O_ACCMODE in
      if how \<noteq> O_RDONLY \<and> how \<noteq> O_WRONLY \<and> how \<noteq> O_RDWR then kfail EINVAL
      else
        let canwrite = (how \<noteq> O_RDONLY) in
        kbind (open_vnode ops path openflags) (\<lambda>vn.
        kbind (kattempt (on_low (vop_open ops vn openflags))) (\<lambda>result.
        case result of
          Inl e \<Rightarrow> kbind (on_low (vop_decref ops vn)) (\<lambda>_. kfail e)
        | Inr _ \<Rightarrow>
            kbind (on_low (vop_incopen ops vn)) (\<lambda>_.
            if openflags AND O_TRUNC \<noteq> 0 then
              kbind (kattempt (if \<not> canwrite then kfail EINVAL else on_low (vop_truncate ops vn 0))) (\<lambda>result.
              case result of
                Inl e \<Rightarrow>
                  kbind (on_low (vop_decopen ops vn)) (\<lambda>_.
                  kbind (on_low (vop_decref ops vn)) (\<lambda>_. kfail e))
              | Inr _ \<Rightarrow> kret vn)
            else kret vn))))"

definition vfs_close :: "('f, 'v) fs_ops \<Rightarrow> 'v \<Rightarrow> (('f, 'v) vfs, unit) op" where
  "vfs_close ops vn = kbind (on_low (vop_decopen ops vn)) (\<lambda>_. on_low (vop_decref ops vn))"

text \<open>The calls that look up the parent of one path and apply an operation to the name in it.\<close>

definition on_parent :: "('f, 'v) fs_ops \<Rightarrow> byte list \<Rightarrow> ('v \<Rightarrow> byte list \<Rightarrow> ('f, unit) op) \<Rightarrow> (('f, 'v) vfs, unit) op" where
  "on_parent ops path f =
     kbind (vfs_lookparent ops path (NAME_MAX + 1)) (\<lambda>r.
     let dir = fst r; name = snd r in
     kbind (kattempt (on_low (f dir name))) (\<lambda>result.
     kbind (on_low (vop_decref ops dir)) (\<lambda>_.
     kresult result)))"

definition vfs_remove :: "('f, 'v) fs_ops \<Rightarrow> byte list \<Rightarrow> (('f, 'v) vfs, unit) op" where
  "vfs_remove ops path = on_parent ops path (vop_remove ops)"

definition vfs_symlink :: "('f, 'v) fs_ops \<Rightarrow> byte list \<Rightarrow> byte list \<Rightarrow> (('f, 'v) vfs, unit) op" where
  "vfs_symlink ops contents path = on_parent ops path (\<lambda>newdir newname. vop_symlink ops newdir newname contents)"

definition vfs_mkdir :: "('f, 'v) fs_ops \<Rightarrow> byte list \<Rightarrow> (('f, 'v) vfs, unit) op" where
  "vfs_mkdir ops path = on_parent ops path (vop_mkdir ops)"

definition vfs_rmdir :: "('f, 'v) fs_ops \<Rightarrow> byte list \<Rightarrow> (('f, 'v) vfs, unit) op" where
  "vfs_rmdir ops path = on_parent ops path (vop_rmdir ops)"

text \<open>The second halves of \<open>vfs_rename\<close> and \<open>vfs_link\<close>: the operation on two vnodes of one file system.\<close>

definition same_fs_op :: "('f, 'v) fs_ops \<Rightarrow> 'v \<Rightarrow> 'v \<Rightarrow> ('f, unit) op \<Rightarrow> (('f, 'v) vfs, unit) op" where
  "same_fs_op ops old newdir f =
     kbind (kattempt (if vn_fs ops old = None \<or> vn_fs ops newdir = None \<or> vn_fs ops old \<noteq> vn_fs ops newdir
                      then kfail EXDEV else on_low f)) (\<lambda>result.
     kbind (on_low (vop_decref ops newdir)) (\<lambda>_.
     kbind (on_low (vop_decref ops old)) (\<lambda>_.
     kresult result)))"

definition vfs_rename :: "('f, 'v) fs_ops \<Rightarrow> byte list \<Rightarrow> byte list \<Rightarrow> (('f, 'v) vfs, unit) op" where
  "vfs_rename ops oldpath newpath =
     kbind (vfs_lookparent ops oldpath (NAME_MAX + 1)) (\<lambda>o1.
     let olddir = fst o1; oldname = snd o1 in
     kbind (kattempt (vfs_lookparent ops newpath (NAME_MAX + 1))) (\<lambda>r.
     case r of
       Inl e \<Rightarrow> kbind (on_low (vop_decref ops olddir)) (\<lambda>_. kfail e)
     | Inr n1 \<Rightarrow>
         let newdir = fst n1; newname = snd n1 in
         same_fs_op ops olddir newdir (vop_rename ops olddir oldname newdir newname)))"

definition vfs_link :: "('f, 'v) fs_ops \<Rightarrow> byte list \<Rightarrow> byte list \<Rightarrow> (('f, 'v) vfs, unit) op" where
  "vfs_link ops oldpath newpath =
     kbind (vfs_lookup ops oldpath) (\<lambda>oldfile.
     kbind (kattempt (vfs_lookparent ops newpath (NAME_MAX + 1))) (\<lambda>r.
     case r of
       Inl e \<Rightarrow> kbind (on_low (vop_decref ops oldfile)) (\<lambda>_. kfail e)
     | Inr n1 \<Rightarrow>
         let newdir = fst n1; newname = snd n1 in
         same_fs_op ops oldfile newdir (vop_link ops newdir newname oldfile)))"

section \<open>Calls with a transfer\<close>

text \<open>The state of a call with a \<open>uio\<close>; \<open>uiomove\<close> out of a string of the kernel.\<close>

definition on_vfs :: "(('f, 'v) vfs, 'a) op \<Rightarrow> (('f, 'v) vfs \<times> uio, 'a) op" where
  "on_vfs m = kzoom fst (\<lambda>t s. (t, snd s)) m"

definition on_low_uio :: "('f \<times> uio, 'a) op \<Rightarrow> (('f, 'v) vfs \<times> uio, 'a) op" where
  "on_low_uio m = kzoom (\<lambda>s. (v_fs (fst s), snd s)) (\<lambda>t s. ((fst s)\<lparr>v_fs := fst t\<rparr>, snd t)) m"

definition uiomove_out :: "byte list \<Rightarrow> (('f, 'v) vfs \<times> uio, unit) op" where
  "uiomove_out bs = kbind (kzoom snd (\<lambda>u s. (fst s, u)) (uiomove_obj bs 0 (length bs))) (\<lambda>_. kret ())"

definition vfs_readlink :: "('f, 'v) fs_ops \<Rightarrow> byte list \<Rightarrow> (('f, 'v) vfs \<times> uio, unit) op" where
  "vfs_readlink ops path =
     kbind (on_vfs (vfs_lookup ops path)) (\<lambda>vn.
     kbind (kattempt (on_low_uio (vop_readlink ops vn))) (\<lambda>result.
     kbind (on_vfs (on_low (vop_decref ops vn))) (\<lambda>_.
     kresult result)))"

definition vfs_getcwd :: "('f, 'v) fs_ops \<Rightarrow> (('f, 'v) vfs \<times> uio, unit) op" where
  "vfs_getcwd ops =
     kbind (kget snd) (\<lambda>u.
     kbind (kassert (uio_dir u = UIO_READ)) (\<lambda>_.
     kbind (on_vfs (vfs_getcurdir ops)) (\<lambda>cwd.
     case vn_fs ops cwd of
       None \<Rightarrow> kpanic
     | Some fs \<Rightarrow>
         kbind (on_vfs (on_low (fsop_getvolname ops fs))) (\<lambda>volname.
         kbind (case volname of None \<Rightarrow> on_vfs (vfs_getdevname fs) | Some n \<Rightarrow> kret (Some n)) (\<lambda>name.
         case name of
           None \<Rightarrow> kpanic
         | Some name \<Rightarrow>
             kbind (kattempt (kbind (uiomove_out name) (\<lambda>_. kbind (uiomove_out [COLON]) (\<lambda>_.
                      on_low_uio (vop_namefile ops cwd))))) (\<lambda>result.
             kbind (on_vfs (on_low (vop_decref ops cwd))) (\<lambda>_.
             kresult result)))))))"

end
