(* ===== verification/VfsRefs.thy ===== *)
theory VfsRefs
  imports Vfs
begin

text \<open>
  What the VFS layer does with references to vnodes, for any file systems that keep the contract the
  header vnode.h states: an operation that hands back a vnode has counted a reference to it, a failing
  one has not. Proved here once, for the function tables as parameters: every call of the layer
  releases exactly the references it took, on every path.
\<close>

section \<open>Runs that may panic for a reason\<close>

text \<open>\<open>wpb b m Q R s\<close> is \<open>wp m Q R s\<close>, except that \<open>m\<close> may panic if \<open>b\<close>.\<close>

definition wpb :: "bool \<Rightarrow> ('s, 'a) op \<Rightarrow> ('a \<Rightarrow> 's \<Rightarrow> bool) \<Rightarrow> (errno \<Rightarrow> 's \<Rightarrow> bool) \<Rightarrow> 's \<Rightarrow> bool" where
  "wpb b m Q R s = (case m s of Done x t \<Rightarrow> Q x t | Fail e t \<Rightarrow> R e t | Panic \<Rightarrow> b)"

lemma wpb_wp: "wp m Q R s \<Longrightarrow> wpb b m Q R s"
  by (auto simp: wpb_def wp_def split: outcome.splits)

lemma wpb_False: "wpb False m Q R s = wp m Q R s"
  by (simp add: wpb_def wp_def)

lemma wpb_mono:
  assumes "wpb b m Q R s" and "\<And>x t. Q x t \<Longrightarrow> Q' x t" and "\<And>e t. R e t \<Longrightarrow> R' e t"
  shows "wpb b m Q' R' s"
  using assms by (auto simp: wpb_def split: outcome.splits)

named_theorems wpbs \<open>evaluation of wpb on the combinators\<close>

lemma wpb_kret [wpbs]: "wpb b (kret x) Q R s = Q x s" by (simp add: wpb_def kret_def)
lemma wpb_kfail [wpbs]: "wpb b (kfail e) Q R s = R e s" by (simp add: wpb_def kfail_def)
lemma wpb_kbind [wpbs]: "wpb b (kbind m k) Q R s = wpb b m (\<lambda>x. wpb b (k x) Q R) R s"
  by (simp add: wpb_def kbind_def split: outcome.splits)
lemma wpb_kassert [wpbs]: "P \<Longrightarrow> wpb b (kassert P) Q R s = Q () s" by (simp add: wpb_def kassert_def)
lemma wpb_kget [wpbs]: "wpb b (kget f) Q R s = Q (f s) s" by (simp add: wpb_def kget_def)
lemma wpb_kmodify [wpbs]: "wpb b (kmodify f) Q R s = Q () (f s)" by (simp add: wpb_def kmodify_def)
lemma wpb_kattempt [wpbs]: "wpb b (kattempt m) Q R s = wpb b m (\<lambda>x. Q (Inr x)) (\<lambda>e. Q (Inl e)) s"
  by (simp add: wpb_def kattempt_def split: outcome.splits)
lemma wpb_kresult [wpbs]: "wpb b (kresult r) Q R s = (case r of Inl e \<Rightarrow> R e s | Inr x \<Rightarrow> Q x s)"
  by (simp add: kresult_def wpbs split: sum.splits)
lemma wpb_kzoom: "wpb b (kzoom gt pt m) Q R s = wpb b m (\<lambda>x t. Q x (pt t s)) (\<lambda>e t. R e (pt t s)) (gt s)"
  by (simp add: wpb_def kzoom_def split: outcome.splits)
lemma wpb_on_low [wpbs]: "wpb b (on_low m) Q R s = wpb b m (\<lambda>x f. Q x (s\<lparr>v_fs := f\<rparr>)) (\<lambda>e f. R e (s\<lparr>v_fs := f\<rparr>)) (v_fs s)"
  by (simp add: on_low_def wpb_kzoom)

lemma wpb_kfor:
  assumes "I s" and "\<And>i t. i \<in> set is \<Longrightarrow> I t \<Longrightarrow> wpb b (f i) (\<lambda>_. I) R t"
  shows "wpb b (kfor is f) (\<lambda>_. I) R s"
  using assms
proof (induction "is" arbitrary: s)
  case (Cons i "is")
  have "wpb b (f i) (\<lambda>_. I) R s" using Cons.prems by simp
  then show ?case unfolding kfor.simps wpb_kbind by (rule wpb_mono) (use Cons in auto)
qed (simp add: wpbs)

section \<open>The state between two operations\<close>

text \<open>The devices in the table; those with a place \<open>i\<close> are found by \<open>get_dev i\<close>.\<close>

definition devs :: "('f, 'v) vfs \<Rightarrow> 'v knowndev list" where
  "devs s = array_list (knowndevs s)"

text \<open>Only the state of the file systems differs.\<close>

definition low_step :: "('f, 'v) vfs \<Rightarrow> ('f, 'v) vfs \<Rightarrow> bool" where
  "low_step s t \<longleftrightarrow> knowndevs t = knowndevs s \<and> bootfs_vnode t = bootfs_vnode s \<and> t_cwd t = t_cwd s \<and> v_mem t = v_mem s"

lemma low_step_refl [simp]: "low_step s s" by (simp add: low_step_def)
lemma low_step_fs [simp]: "low_step s (s\<lparr>v_fs := f\<rparr>)" by (simp add: low_step_def)
lemma low_step_trans: "low_step s t \<Longrightarrow> low_step t u \<Longrightarrow> low_step s u" by (simp add: low_step_def)

lemma get_dev_wpb: "array_wf (knowndevs s) \<Longrightarrow> i < length (devs s) \<Longrightarrow> wpb b (get_dev i) Q R s = Q (devs s ! i) s"
proof -
  assume a: "array_wf (knowndevs s)" "i < length (devs s)"
  then have "array_getguy (int i) (knowndevs s) = Done (Some (devs s ! i)) (knowndevs s)"
    using ptab.get_law [OF a(1), of "int i"] ptab.count_law [OF a(1)] by (simp add: devs_def)
  then show ?thesis by (simp add: get_dev_def wpb_kbind on_devs_def wpb_kzoom) (simp add: wpb_def kret_def)
qed

lemma num_devs_wpb: "array_wf (knowndevs s) \<Longrightarrow> wpb b num_devs Q R s = Q (length (devs s)) s"
  using ptab.count_law [of "knowndevs s"] by (simp add: num_devs_def wpbs devs_def)

lemma set_kd_fs_wpb:
  assumes a: "array_wf (knowndevs s)" "i < length (devs s)"
    and Q: "\<And>r. array_wf r \<Longrightarrow> array_list r = (devs s)[i := (devs s ! i)\<lparr>kd_fs := fs\<rparr>] \<Longrightarrow> Q () (s\<lparr>knowndevs := r\<rparr>)"
  shows "wpb b (set_kd_fs i fs) Q R s"
proof -
  have i: "int i < a_num (knowndevs s)" using a array_length [OF a(1)] by (simp add: devs_def)
  show ?thesis
    unfolding set_kd_fs_def wpb_kbind get_dev_wpb [OF a] on_devs_def wpb_kzoom
    by (rule wpb_wp, rule wp_mono [OF array_setguy_wp [OF a(1) _ i]]) (use Q in \<open>simp_all add: devs_def\<close>)
qed

text \<open>
  \<open>vst\<close>: the state of the layer and of the file systems below it, with \<open>r v\<close> references to each vnode
  \<open>v\<close> and \<open>c v\<close> opens of it. \<open>D\<close> are the vnodes of devices; a reference to each of those is never
  released. A file system has the number of its device. \<open>ok\<close> is the condition the file systems keep.
\<close>

definition mounted :: "('f, 'v) vfs \<Rightarrow> nat set" where
  "mounted s = {fs. \<exists>kd \<in> set (devs s). kd_fs kd = Some fs}"

definition counts_ok :: "('f, 'v) fs_ops \<Rightarrow> 'v set \<Rightarrow> ('v \<Rightarrow> int) \<Rightarrow> ('v \<Rightarrow> int) \<Rightarrow> bool" where
  "counts_ok ops D r c \<longleftrightarrow> (\<forall>v. 0 \<le> c v \<and> c v \<le> r v) \<and> (\<forall>v \<in> D. c v < r v) \<and> (\<forall>v. vn_fs ops v = None \<longrightarrow> 0 < r v \<longrightarrow> v \<in> D)"

definition held :: "('f, 'v) fs_ops \<Rightarrow> ('v \<Rightarrow> int) \<Rightarrow> ('f, 'v) vfs \<Rightarrow> bool" where
  "held ops r s \<longleftrightarrow> (\<forall>v. bootfs_vnode s = Some v \<or> t_cwd s = Some v \<longrightarrow> 0 < r v \<and> vn_fs ops v \<noteq> None)"

definition table_ok :: "'v set \<Rightarrow> ('f, 'v) vfs \<Rightarrow> bool" where
  "table_ok D s \<longleftrightarrow> array_wf (knowndevs s) \<and> distinct (map kd_device (devs s))
     \<and> (\<forall>kd \<in> set (devs s). kd_vnode kd \<in> D \<and> kd_device kd \<noteq> None
          \<and> (\<forall>fs. kd_fs kd = Some fs \<longrightarrow> kd_device kd = Some fs \<and> kd_rawname kd \<noteq> None))"

definition vst :: "('f, 'v) fs_ops \<Rightarrow> (bool \<Rightarrow> 'f \<Rightarrow> nat set \<Rightarrow> ('v \<Rightarrow> int) \<Rightarrow> ('v \<Rightarrow> int) \<Rightarrow> bool) \<Rightarrow> bool
    \<Rightarrow> 'v set \<Rightarrow> ('v \<Rightarrow> int) \<Rightarrow> ('v \<Rightarrow> int) \<Rightarrow> ('f, 'v) vfs \<Rightarrow> bool" where
  "vst ops ok b D r c s \<longleftrightarrow> table_ok D s \<and> ok b (v_fs s) (mounted s) r c \<and> counts_ok ops D r c \<and> held ops r s"

lemma low_step_same:
  assumes "low_step s t"
  shows "table_ok D t = table_ok D s" "held ops r t = held ops r s" "devs t = devs s" "mounted t = mounted s"
  using assms by (simp_all add: low_step_def table_ok_def held_def devs_def mounted_def)

text \<open>One more of a kind.\<close>

definition up :: "('v \<Rightarrow> int) \<Rightarrow> 'v \<Rightarrow> 'v \<Rightarrow> int" where
  "up r v = r(v := r v + 1)"

lemma up_same [simp]: "up r v v = r v + 1" by (simp add: up_def)
lemma up_other: "u \<noteq> v \<Longrightarrow> up r v u = r u" by (simp add: up_def)
lemma up_ge: "r u \<le> up r v u" by (simp add: up_def)
lemma up_pos: "0 < r u \<Longrightarrow> 0 < up r v u" by (rule less_le_trans [OF _ up_ge])
lemma up_comm: "up (up r v) w = up (up r w) v" by (simp add: up_def fun_eq_iff)

lemma counts_up:
  assumes a: "counts_ok ops D r c" and v: "vn_fs ops v = None \<longrightarrow> 0 < r v"
  shows "counts_ok ops D (up r v) c"
proof -
  have le: "r u \<le> up r v u" for u by (rule up_ge)
  have new: "u \<in> D" if "vn_fs ops u = None" "0 < up r v u" for u
    using that v a by (cases "u = v") (auto simp: counts_ok_def up_other)
  show ?thesis using a new le unfolding counts_ok_def by (meson order_trans less_le_trans)
qed

lemma held_up: "held ops r s \<Longrightarrow> held ops (up r v) s"
  by (auto simp: held_def up_pos)

text \<open>A run that hands back a vnode with a reference counted to it, or fails without one.\<close>

definition gives :: "('f, 'v) fs_ops \<Rightarrow> (bool \<Rightarrow> 'f \<Rightarrow> nat set \<Rightarrow> ('v \<Rightarrow> int) \<Rightarrow> ('v \<Rightarrow> int) \<Rightarrow> bool) \<Rightarrow> bool
    \<Rightarrow> 'v set \<Rightarrow> ('v \<Rightarrow> int) \<Rightarrow> ('v \<Rightarrow> int) \<Rightarrow> ('a \<Rightarrow> 'v) \<Rightarrow> ('a \<Rightarrow> bool) \<Rightarrow> (('f, 'v) vfs, 'a) op \<Rightarrow> ('f, 'v) vfs \<Rightarrow> bool" where
  "gives ops ok b D r c vn P m s \<longleftrightarrow> wpb b m
     (\<lambda>x t. low_step s t \<and> vst ops ok b D ((up r (vn x))) c t \<and> (vn_fs ops (vn x) = None \<longrightarrow> 0 < r (vn x)) \<and> P x)
     (\<lambda>e t. low_step s t \<and> vst ops ok b D r c t) s"

lemma vst_low:
  "table_ok D s \<Longrightarrow> ok b g (mounted s) r c \<Longrightarrow> counts_ok ops D r c \<Longrightarrow> held ops r s \<Longrightarrow> vst ops ok b D r c (s\<lparr>v_fs := g\<rparr>)"
  by (simp add: vst_def low_step_same [OF low_step_fs])

lemma vstD:
  assumes "vst ops ok b D r c s"
  shows "table_ok D s" "ok b (v_fs s) (mounted s) r c" "counts_ok ops D r c" "held ops r s" "array_wf (knowndevs s)"
  using assms by (simp_all add: vst_def table_ok_def)

lemma locate_sep_from: "fst (locate_sep cs i) = -1 \<or> i \<le> fst (locate_sep cs i)" "snd (locate_sep cs i) = -1 \<or> i \<le> snd (locate_sep cs i)"
  by (induction cs arbitrary: i) (force+)

lemma locate_sep_0:
  assumes "snd (locate_sep path 0) = 0 \<or> fst (locate_sep path 0) = 0"
  shows "path ! 0 = COLON \<or> path ! 0 = SLASH"
proof (cases path)
  case (Cons c cs)
  then show ?thesis using assms locate_sep_from [of cs 1] by (auto split: if_splits)
qed (use assms in simp)

section \<open>The contract of the file systems\<close>

locale file_layer =
  fixes ops :: "('f, 'v) fs_ops"
    and ok :: "bool \<Rightarrow> 'f \<Rightarrow> nat set \<Rightarrow> ('v \<Rightarrow> int) \<Rightarrow> ('v \<Rightarrow> int) \<Rightarrow> bool"
    and isdir :: "'v \<Rightarrow> bool"
  assumes incref_law: "ok b f M r c \<Longrightarrow> 0 < r v \<Longrightarrow>
      wpb b (vop_incref ops v) (\<lambda>_ g. ok b g M (up r v) c) (\<lambda>_ _. False) f"
    and decref_law: "ok b f M (up r v) c \<Longrightarrow> 0 \<le> r v \<Longrightarrow> (r v = 0 \<longrightarrow> c v = 0 \<and> vn_fs ops v \<noteq> None) \<Longrightarrow>
      wpb b (vop_decref ops v) (\<lambda>_ g. ok b g M r c) (\<lambda>_ _. False) f"
    and incopen_law: "ok b f M r c \<Longrightarrow> 0 < r v \<Longrightarrow>
      wpb b (vop_incopen ops v) (\<lambda>_ g. ok b g M r (up c v)) (\<lambda>_ _. False) f"
    and decopen_law: "ok b f M r (up c v) \<Longrightarrow> 0 < r v \<Longrightarrow> 0 \<le> c v \<Longrightarrow>
      wpb b (vop_decopen ops v) (\<lambda>_ g. ok b g M r c) (\<lambda>_ _. False) f"
    and open_law: "ok b f M r c \<Longrightarrow> 0 < r v \<Longrightarrow>
      wpb b (vop_open ops v flags) (\<lambda>_ g. ok b g M r c) (\<lambda>_ g. ok b g M r c) f"
    and truncate_law: "ok b f M r c \<Longrightarrow> 0 < r v \<Longrightarrow>
      wpb b (vop_truncate ops v 0) (\<lambda>_ g. ok b g M r c) (\<lambda>_ g. ok b g M r c) f"
    and gettype_law: "ok b f M r c \<Longrightarrow> 0 < r v \<Longrightarrow>
      wpb b (vop_gettype ops v) (\<lambda>t g. ok b g M r c \<and> (t = S_IFDIR \<longrightarrow> vn_fs ops v \<noteq> None)) (\<lambda>_ g. ok b g M r c) f"
    and lookup_law: "ok b f M r c \<Longrightarrow> 0 < r v \<Longrightarrow>
      wpb b (vop_lookup ops v path) (\<lambda>w g. ok b g M (up r w) c \<and> (vn_fs ops w = None \<longrightarrow> 0 < r w))
        (\<lambda>_ g. ok b g M r c) f"
    and lookparent_law: "ok b f M r c \<Longrightarrow> 0 < r v \<Longrightarrow> 0 \<notin> set path \<Longrightarrow>
      wpb b (vop_lookparent ops v path len)
        (\<lambda>w g. ok b g M ((up r (fst w))) c \<and> (vn_fs ops (fst w) = None \<longrightarrow> 0 < r (fst w))
          \<and> 0 \<notin> set (snd w) \<and> isdir (fst w))
        (\<lambda>_ g. ok b g M r c) f"
    and creat_law: "ok b f M r c \<Longrightarrow> 0 < r v \<Longrightarrow> 0 \<notin> set name \<Longrightarrow>
      wpb b (vop_creat ops v name excl) (\<lambda>w g. ok b g M (up r w) c \<and> (vn_fs ops w = None \<longrightarrow> 0 < r w))
        (\<lambda>_ g. ok b g M r c) f"
    and remove_law: "ok b f M r c \<Longrightarrow> 0 < r v \<Longrightarrow> 0 \<notin> set name \<Longrightarrow>
      wpb b (vop_remove ops v name) (\<lambda>_ g. ok b g M r c) (\<lambda>_ g. ok b g M r c) f"
    and mkdir_law: "ok b f M r c \<Longrightarrow> 0 < r v \<Longrightarrow> 0 \<notin> set name \<Longrightarrow>
      wpb b (vop_mkdir ops v name) (\<lambda>_ g. ok b g M r c) (\<lambda>_ g. ok b g M r c) f"
    and rmdir_law: "ok b f M r c \<Longrightarrow> 0 < r v \<Longrightarrow> 0 \<notin> set name \<Longrightarrow>
      wpb b (vop_rmdir ops v name) (\<lambda>_ g. ok b g M r c) (\<lambda>_ g. ok b g M r c) f"
    and symlink_law: "ok b f M r c \<Longrightarrow> 0 < r v \<Longrightarrow> 0 \<notin> set name \<Longrightarrow>
      wpb b (vop_symlink ops v name contents) (\<lambda>_ g. ok b g M r c) (\<lambda>_ g. ok b g M r c) f"
    and rename_law: "ok b f M r c \<Longrightarrow> 0 < r v \<Longrightarrow> 0 < r w \<Longrightarrow> vn_fs ops v \<noteq> None \<Longrightarrow> vn_fs ops v = vn_fs ops w \<Longrightarrow>
      isdir v \<Longrightarrow> isdir w \<Longrightarrow> 0 \<notin> set n2 \<Longrightarrow> wpb b (vop_rename ops v n1 w n2) (\<lambda>_ g. ok b g M r c) (\<lambda>_ g. ok b g M r c) f"
    and getvolname_law: "ok b f M r c \<Longrightarrow> fs \<in> M \<Longrightarrow>
      wpb b (fsop_getvolname ops fs) (\<lambda>_ g. g = f) (\<lambda>_ _. False) f"
    and getroot_law: "ok b f M r c \<Longrightarrow> fs \<in> M \<Longrightarrow>
      wpb b (fsop_getroot ops fs) (\<lambda>w g. ok b g M (up r w) c \<and> vn_fs ops w = Some fs) (\<lambda>_ _. False) f"
    and fs_mounted: "ok b f M r c \<Longrightarrow> 0 < r v \<Longrightarrow> vn_fs ops v = Some fs \<Longrightarrow> fs \<in> M"
begin

lemma kept:
  assumes s: "vst ops ok b D r c s"
    and m: "wpb b m (\<lambda>x g. ok b g (mounted s) r c \<and> P x) (\<lambda>_ g. ok b g (mounted s) r c) (v_fs s)"
  shows "wpb b (on_low m) (\<lambda>x t. low_step s t \<and> vst ops ok b D r c t \<and> P x) (\<lambda>_ t. low_step s t \<and> vst ops ok b D r c t) s"
  unfolding wpb_on_low by (rule wpb_mono [OF m]) (simp_all add: vst_low [OF vstD(1) [OF s] _ vstD(3,4) [OF s]])

lemma given:
  assumes s: "vst ops ok b D r c s"
    and m: "wpb b m (\<lambda>x g. ok b g (mounted s) ((up r (vn x))) c \<and> (vn_fs ops (vn x) = None \<longrightarrow> 0 < r (vn x)) \<and> P x)
      (\<lambda>_ g. ok b g (mounted s) r c) (v_fs s)"
  shows "gives ops ok b D r c vn P (on_low m) s"
  unfolding gives_def wpb_on_low
  by (rule wpb_mono [OF m])
    (simp_all add: vst_low [OF vstD(1) [OF s]] vstD(3,4) [OF s] counts_up [OF vstD(3) [OF s]] held_up [OF vstD(4) [OF s]])

lemma incref_st:
  assumes s: "vst ops ok b D r c s" and v: "0 < r v"
  shows "gives ops ok b D r c (\<lambda>_. v) (\<lambda>_. True) (on_low (vop_incref ops v)) s"
  by (rule given [OF s], rule wpb_mono [OF incref_law [OF vstD(2) [OF s] v]]) (simp_all add: v)

lemma decref_st:
  assumes s: "vst ops ok b D (up r v) c s" and r: "counts_ok ops D r c" "held ops r s"
    and v: "vn_fs ops v = None \<longrightarrow> 0 < r v"
  shows "wpb b (on_low (vop_decref ops v)) (\<lambda>_ t. low_step s t \<and> vst ops ok b D r c t) (\<lambda>_ _. False) s"
  unfolding wpb_on_low
proof (rule wpb_mono [OF decref_law [OF vstD(2) [OF s]]])
  have c: "0 \<le> c v" "c v \<le> r v" using r(1) by (simp_all add: counts_ok_def)
  then show "0 \<le> r v" "r v = 0 \<longrightarrow> c v = 0 \<and> vn_fs ops v \<noteq> None" using v by auto
qed (use vst_low [OF vstD(1) [OF s] _ r] in simp_all)

text \<open>
  An operation on the vnode \<open>v\<close> that was handed out, after which \<open>v\<close> is let go: first one that hands
  out another vnode, then one that changes no counts.
\<close>

lemma drop_giving:
  assumes r: "vst ops ok b D r c s" and st: "low_step s t" and v: "vn_fs ops v = None \<longrightarrow> 0 < r v"
    and m: "gives ops ok b D (up r v) c vn P m t"
  shows "wpb b (kbind (kattempt m) (\<lambda>result. kbind (on_low (vop_decref ops v)) (\<lambda>_. kresult result)))
    (\<lambda>x u. low_step s u \<and> vst ops ok b D ((up r (vn x))) c u \<and> (vn_fs ops (vn x) = None \<longrightarrow> 0 < r (vn x)) \<and> P x)
    (\<lambda>e u. low_step s u \<and> vst ops ok b D r c u) t"
    (is "wpb b _ ?Q ?R t")
  unfolding wpb_kbind wpb_kattempt
proof (rule wpb_mono [OF m [unfolded gives_def]], elim conjE)
  fix x u
  let ?w = "vn x"
  assume u: "low_step t u" "vst ops ok b D (up (up r v) ?w) c u"
    "vn_fs ops ?w = None \<longrightarrow> 0 < up r v ?w" "P x"
  have w: "vn_fs ops ?w = None \<longrightarrow> 0 < r ?w" using u(3) v by (cases "?w = v") (auto simp: up_other)
  have su: "low_step s u" by (rule low_step_trans [OF st u(1)])
  show "wpb b (on_low (vop_decref ops v)) (\<lambda>_. wpb b (kresult (Inr x)) ?Q ?R) ?R u"
    unfolding wpb_kresult sum.case
  proof (rule wpb_mono [OF decref_st [OF u(2) [unfolded up_comm [of r v]]]])
    show "counts_ok ops D (up r ?w) c" by (rule counts_up [OF vstD(3) [OF r] w])
    show "held ops (up r ?w) u" unfolding low_step_same(2) [OF su] by (rule held_up [OF vstD(4) [OF r]])
    show "vn_fs ops v = None \<longrightarrow> 0 < (up r ?w) v" using v by (auto intro: up_pos)
    show "?Q x f" if "low_step u f \<and> vst ops ok b D (up r ?w) c f" for f
      using that w u(4) low_step_trans [OF su] by blast
  qed simp
next
  fix e u
  assume u: "low_step t u \<and> vst ops ok b D (up r v) c u"
  then have su: "low_step s u" using low_step_trans [OF st] by blast
  show "wpb b (on_low (vop_decref ops v)) (\<lambda>_. wpb b (kresult (Inl e)) ?Q ?R) ?R u"
    unfolding wpb_kresult sum.case
    by (rule wpb_mono [OF decref_st [of b D r v c u]])
      (use u v su low_step_same(2) [OF su] low_step_trans vstD(3,4) [OF r] in blast)+
qed

lemma drop_keeping:
  assumes r: "vst ops ok b D r c s" and st: "low_step s t" and v: "vn_fs ops v = None \<longrightarrow> 0 < r v"
    and m: "wpb b m (\<lambda>x u. low_step t u \<and> vst ops ok b D (up r v) c u \<and> P x)
      (\<lambda>e u. low_step t u \<and> vst ops ok b D (up r v) c u) t"
  shows "wpb b (kbind (kattempt m) (\<lambda>result. kbind (on_low (vop_decref ops v)) (\<lambda>_. kresult result)))
    (\<lambda>x u. low_step s u \<and> vst ops ok b D r c u \<and> P x) (\<lambda>e u. low_step s u \<and> vst ops ok b D r c u) t"
    (is "wpb b _ ?Q ?R t")
  unfolding wpb_kbind wpb_kattempt
proof (rule wpb_mono [OF m])
  have d: "wpb b (on_low (vop_decref ops v)) (\<lambda>_ f. low_step s f \<and> vst ops ok b D r c f) (\<lambda>_ _. False) u"
    if "low_step t u" "vst ops ok b D (up r v) c u" for u
  proof -
    have su: "low_step s u" by (rule low_step_trans [OF st that(1)])
    show ?thesis
      by (rule wpb_mono [OF decref_st [OF that(2) vstD(3) [OF r] _ v]])
        (use su low_step_same(2) [OF su] low_step_trans vstD(4) [OF r] in blast)+
  qed
  show "wpb b (on_low (vop_decref ops v)) (\<lambda>_. wpb b (kresult (Inr x)) ?Q ?R) ?R u"
    if "low_step t u \<and> vst ops ok b D (up r v) c u \<and> P x" for x u
    unfolding wpb_kresult sum.case by (rule wpb_mono [OF d]) (use that in simp_all)
  show "wpb b (on_low (vop_decref ops v)) (\<lambda>_. wpb b (kresult (Inl e)) ?Q ?R) ?R u"
    if "low_step t u \<and> vst ops ok b D (up r v) c u" for e u
    unfolding wpb_kresult sum.case by (rule wpb_mono [OF d]) (use that in simp_all)
qed

lemma getcurdir_st:
  assumes s: "vst ops ok b D r c s"
  shows "gives ops ok b D r c (\<lambda>v. v) (\<lambda>v. t_cwd s = Some v) (vfs_getcurdir ops) s"
proof (cases "t_cwd s")
  case None
  then show ?thesis using s by (simp add: gives_def vfs_getcurdir_def wpbs)
next
  case (Some v)
  then have "0 < r v" using vstD(4) [OF s] by (simp add: held_def)
  from incref_st [OF s this] show ?thesis
    unfolding gives_def vfs_getcurdir_def wpb_kbind wpb_kget Some option.case by (rule wpb_mono) (simp_all add: wpbs Some)
qed

lemma getroot_fs:
  assumes s: "vst ops ok b D r c s" and fs: "fs \<in> mounted s"
  shows "wpb b (on_low (fsop_getroot ops fs))
    (\<lambda>v t. low_step s t \<and> vst ops ok b D (up r v) c t \<and> vn_fs ops v = Some fs) (\<lambda>_ _. False) s"
  unfolding wpb_on_low by (rule wpb_mono [OF getroot_law [OF vstD(2) [OF s] fs]])
    (simp_all add: vst_low [OF vstD(1) [OF s]] counts_up [OF vstD(3) [OF s]] held_up [OF vstD(4) [OF s]])

lemma getroot_fs_gives:
  assumes "vst ops ok b D r c s" and "fs \<in> mounted s"
  shows "gives ops ok b D r c (\<lambda>v. v) (\<lambda>_. True) (on_low (fsop_getroot ops fs)) s"
  unfolding gives_def by (rule wpb_mono [OF getroot_fs [OF assms]]) simp_all

lemma gives_bind:
  assumes "gives ops ok b D r c vn P m s" and "\<And>x t. low_step s t \<Longrightarrow> vst ops ok b D ((up r (vn x))) c t \<Longrightarrow>
      (vn_fs ops (vn x) = None \<longrightarrow> 0 < r (vn x)) \<Longrightarrow> P x \<Longrightarrow> wpb b (k x) Q R t"
    and "\<And>e t. low_step s t \<Longrightarrow> vst ops ok b D r c t \<Longrightarrow> R e t"
  shows "wpb b (kbind m k) Q R s"
  unfolding wpb_kbind
proof (rule wpb_mono [OF assms(1) [unfolded gives_def]])
  show "wpb b (k x) Q R t" if "low_step s t \<and> vst ops ok b D ((up r (vn x))) c t
      \<and> (vn_fs ops (vn x) = None \<longrightarrow> 0 < r (vn x)) \<and> P x" for x t
    by (rule assms(2)) (use that in auto)
  show "R e t" if "low_step s t \<and> vst ops ok b D r c t" for e t
    by (rule assms(3)) (use that in auto)
qed

lemma gives_weaken: "gives ops ok b D r c vn P m s \<Longrightarrow> (\<And>x. P x \<Longrightarrow> P' x) \<Longrightarrow> gives ops ok b D r c vn P' m s"
  unfolding gives_def by (erule wpb_mono) auto

text \<open>Finding a device or a file system by name.\<close>

lemma getroot_dev_st:
  assumes s: "vst ops ok b D r c s" and kd: "kd \<in> set (devs s)"
  shows "wpb b (getroot_dev ops name kd)
    (\<lambda>x t. low_step s t \<and> (case x of None \<Rightarrow> vst ops ok b D r c t
        | Some v \<Rightarrow> vst ops ok b D (up r v) c t \<and> (vn_fs ops v = None \<longrightarrow> 0 < r v)))
    (\<lambda>e t. low_step s t \<and> vst ops ok b D r c t) s"
    (is "wpb b _ ?Q ?R s")
proof -
  have d: "kd_vnode kd \<in> D" "kd_device kd \<noteq> None" using vstD(1) [OF s] kd by (simp_all add: table_ok_def)
  then have "0 \<le> c (kd_vnode kd) \<and> c (kd_vnode kd) < r (kd_vnode kd)" using vstD(3) [OF s] by (auto simp: counts_ok_def)
  then have rv: "0 < r (kd_vnode kd)" by linarith
  have hit: "wpb b (kbind (on_low (vop_incref ops (kd_vnode kd))) (\<lambda>_. kret (Some (kd_vnode kd)))) ?Q ?R s"
    by (rule gives_bind [OF incref_st [OF s rv]]) (simp_all add: wpbs)
  let ?rest = "if kd_name kd = name then
           kbind (kassert (kd_fs kd = None)) (\<lambda>_.
           kbind (kassert (kd_rawname kd = None)) (\<lambda>_.
           kbind (kassert (kd_device kd \<noteq> None)) (\<lambda>_.
           kbind (on_low (vop_incref ops (kd_vnode kd))) (\<lambda>_. kret (Some (kd_vnode kd))))))
         else if kd_rawname kd = Some name then
           kbind (kassert (kd_device kd \<noteq> None)) (\<lambda>_.
           kbind (on_low (vop_incref ops (kd_vnode kd))) (\<lambda>_. kret (Some (kd_vnode kd))))
         else kret None"
  have rest: "wpb b ?rest ?Q ?R s" if "kd_name kd = name \<longrightarrow> kd_fs kd = None \<and> kd_rawname kd = None"
    using that hit d(2) s
    by (auto simp: wpb_kbind [of b "kassert _"] wpb_kassert wpb_kret)
  show ?thesis
  proof (cases "kd_fs kd")
    case None
    then show ?thesis unfolding getroot_dev_def Let_def None option.case using rest [unfolded None] s by (auto simp: wpb_kfail)
  next
    case (Some fs)
    then have fs: "fs \<in> mounted s" using kd by (auto simp: mounted_def)
    have root: "wpb b (kbind (on_low (fsop_getroot ops fs)) (\<lambda>vn. kret (Some vn))) ?Q ?R s"
      by (rule gives_bind [OF getroot_fs_gives [OF s fs]]) (simp_all add: wpbs)
    show ?thesis unfolding getroot_dev_def Let_def Some option.case wpb_kbind [of b "on_low (fsop_getvolname ops fs)"] wpb_on_low
    proof (rule wpb_mono [OF getvolname_law [OF vstD(2) [OF s] fs]])
      fix x g
      assume "g = v_fs s"
      then have e: "s\<lparr>v_fs := g\<rparr> = s" by simp
      show "wpb b (if kd_name kd = name \<or> x = Some name
         then kbind (on_low (fsop_getroot ops fs)) (\<lambda>vn. kret (Some vn))
         else if kd_name kd = name then
           kbind (kassert (Some fs = None)) (\<lambda>_.
           kbind (kassert (kd_rawname kd = None)) (\<lambda>_.
           kbind (kassert (kd_device kd \<noteq> None)) (\<lambda>_.
           kbind (on_low (vop_incref ops (kd_vnode kd))) (\<lambda>_. kret (Some (kd_vnode kd))))))
         else if kd_rawname kd = Some name then
           kbind (kassert (kd_device kd \<noteq> None)) (\<lambda>_.
           kbind (on_low (vop_incref ops (kd_vnode kd))) (\<lambda>_. kret (Some (kd_vnode kd))))
         else kret None) ?Q ?R (s\<lparr>v_fs := g\<rparr>)"
        unfolding e using root rest by (cases "kd_name kd = name") auto
    qed simp
  qed
qed

lemma getroot_loop_st:
  assumes "vst ops ok b D r c s" and "\<forall>i \<in> set is. i < length (devs s)"
  shows "gives ops ok b D r c (\<lambda>v. v) (\<lambda>_. True) (getroot_loop ops name is) s"
  using assms
proof (induction "is" arbitrary: s rule: list.induct)
  case Nil
  then show ?case by (simp add: gives_def wpbs)
next
  case (Cons i "is")
  have i: "i < length (devs s)" using Cons.prems(2) by simp
  show ?case
    unfolding gives_def getroot_loop.simps wpb_kbind get_dev_wpb [OF vstD(5) [OF Cons.prems(1)] i]
  proof (rule wpb_mono [OF getroot_dev_st [OF Cons.prems(1) nth_mem [OF i]]])
    fix x t
    assume x: "low_step s t \<and> (case x of None \<Rightarrow> vst ops ok b D r c t
        | Some v \<Rightarrow> vst ops ok b D (up r v) c t \<and> (vn_fs ops v = None \<longrightarrow> 0 < r v))"
    show "wpb b (case x of None \<Rightarrow> getroot_loop ops name is | Some vn \<Rightarrow> kret vn)
       (\<lambda>x t. low_step s t \<and> vst ops ok b D (up r x) c t \<and> (vn_fs ops x = None \<longrightarrow> 0 < r x) \<and> True)
       (\<lambda>e t. low_step s t \<and> vst ops ok b D r c t) t"
    proof (cases x)
      case None
      then have t: "low_step s t" "vst ops ok b D r c t" using x by simp_all
      have "\<forall>i \<in> set is. i < length (devs t)" using Cons.prems(2) low_step_same(3) [OF t(1)] by simp
      from Cons.IH [OF t(2) this] show ?thesis
        unfolding None option.case gives_def by (rule wpb_mono) (use low_step_trans [OF t(1)] in blast)+
    next
      case (Some v)
      then show ?thesis using x by (simp add: wpbs)
    qed
  qed simp
qed

lemma getroot_st:
  assumes s: "vst ops ok b D r c s"
  shows "gives ops ok b D r c (\<lambda>v. v) (\<lambda>_. True) (vfs_getroot ops name) s"
  unfolding gives_def vfs_getroot_def wpb_kbind num_devs_wpb [OF vstD(5) [OF s]]
  by (rule getroot_loop_st [OF s, unfolded gives_def]) simp

section \<open>Paths\<close>

text \<open>The root of the file system of the current directory.\<close>

lemma current_root_st:
  assumes s: "vst ops ok b D r c s"
  shows "gives ops ok b D r c (\<lambda>v. v) (\<lambda>_. True) (kbind (vfs_getcurdir ops) (\<lambda>vn.
      case vn_fs ops vn of None \<Rightarrow> kpanic
      | Some fs \<Rightarrow> kbind (on_low (fsop_getroot ops fs)) (\<lambda>startvn. kbind (on_low (vop_decref ops vn)) (\<lambda>_. kret startvn)))) s"
  unfolding gives_def
proof (rule gives_bind [OF getcurdir_st [OF s]])
  fix v t
  assume t: "low_step s t" "vst ops ok b D (up r v) c t" "vn_fs ops v = None \<longrightarrow> 0 < r v" "t_cwd s = Some v"
  have h: "0 < r v" "vn_fs ops v \<noteq> None" using vstD(4) [OF s] t(4) by (simp_all add: held_def)
  then obtain fs where fs: "vn_fs ops v = Some fs" by blast
  have m: "fs \<in> mounted t" by (rule fs_mounted [OF vstD(2) [OF t(2)] _ fs]) (use h in simp)
  show "wpb b (case vn_fs ops v of None \<Rightarrow> kpanic
      | Some fs \<Rightarrow> kbind (on_low (fsop_getroot ops fs)) (\<lambda>startvn. kbind (on_low (vop_decref ops v)) (\<lambda>_. kret startvn)))
      (\<lambda>x t. low_step s t \<and> vst ops ok b D (up r x) c t \<and> (vn_fs ops x = None \<longrightarrow> 0 < r x) \<and> True)
      (\<lambda>e t. low_step s t \<and> vst ops ok b D r c t) t"
    unfolding fs option.case wpb_kbind wpb_kret
  proof (rule wpb_mono [OF getroot_fs [OF t(2) m]], elim conjE)
    fix w u
    assume u: "low_step t u" "vst ops ok b D (up (up r v) w) c u" "vn_fs ops w = Some fs"
    have su: "low_step s u" by (rule low_step_trans [OF t(1) u(1)])
    show "wpb b (on_low (vop_decref ops v)) (\<lambda>_ t. low_step s t \<and> vst ops ok b D (up r w) c t
        \<and> (vn_fs ops w = None \<longrightarrow> 0 < r w) \<and> True) (\<lambda>e t. low_step s t \<and> vst ops ok b D r c t) u"
    proof (rule wpb_mono [OF decref_st [OF u(2) [unfolded up_comm [of r v]]]])
      show "counts_ok ops D (up r w) c" by (rule counts_up [OF vstD(3) [OF s]]) (simp add: u(3))
      show "held ops (up r w) u" unfolding low_step_same(2) [OF su] by (rule held_up [OF vstD(4) [OF s]])
      show "vn_fs ops v = None \<longrightarrow> 0 < (up r w) v" using h by (auto intro: up_pos)
      show "low_step s f \<and> vst ops ok b D (up r w) c f \<and> (vn_fs ops w = None \<longrightarrow> 0 < r w) \<and> True"
        if "low_step u f \<and> vst ops ok b D (up r w) c f" for f
        using that u(3) low_step_trans [OF su] by simp
    qed simp
  qed simp
qed simp

lemma bootfs_st:
  assumes s: "vst ops ok b D r c s"
  shows "gives ops ok b D r c (\<lambda>v. v) (\<lambda>_. True) (kbind (kget bootfs_vnode) (\<lambda>b.
      case b of None \<Rightarrow> kfail ENOENT | Some v \<Rightarrow> kbind (on_low (vop_incref ops v)) (\<lambda>_. kret v))) s"
proof (cases "bootfs_vnode s")
  case None
  then show ?thesis using s by (simp add: gives_def wpbs)
next
  case (Some v)
  then have "0 < r v" using vstD(4) [OF s] by (simp add: held_def)
  from incref_st [OF s this] show ?thesis
    unfolding gives_def wpb_kbind wpb_kget Some option.case by (rule wpb_mono) (simp_all add: wpbs)
qed

lemma gives_map:
  assumes "gives ops ok b D r c (\<lambda>v. v) (\<lambda>_. True) m s" and "\<And>v. vn (f v) = v" and "\<And>v. P (f v)"
  shows "gives ops ok b D r c vn P (kbind m (\<lambda>v. kret (f v))) s"
  unfolding gives_def by (rule gives_bind [OF assms(1)]) (simp_all add: wpbs assms(2,3))

lemma getdevice_st:
  assumes s: "vst ops ok b D r c s" and path: "0 \<notin> set path"
  shows "gives ops ok b D r c fst (\<lambda>x. 0 \<notin> set (snd x)) (getdevice ops path) s"
proof -
  let ?slash = "fst (locate_sep path 0)" and ?colon = "snd (locate_sep path 0)"
  have sub: "0 \<notin> set (dropWhile P (drop n path))" for P n
    using path set_dropWhileD [of 0 P "drop n path"] in_set_dropD [of 0 n path] by blast
  consider "?colon < 0 \<and> ?slash \<noteq> 0" | "\<not> (?colon < 0 \<and> ?slash \<noteq> 0)" "?colon > 0"
    | "\<not> (?colon < 0 \<and> ?slash \<noteq> 0)" "\<not> ?colon > 0" "?colon = 0 \<or> ?slash = 0" by linarith
  then show ?thesis
  proof cases
    case 1
    then show ?thesis unfolding getdevice_def Let_def
      using gives_map [OF gives_weaken [OF getcurdir_st [OF s]], of fst "\<lambda>vn. (vn, path)"] path by simp
  next
    case 2
    show ?thesis unfolding getdevice_def Let_def if_not_P [OF 2(1)] if_P [OF 2(2)]
      by (rule gives_map [OF getroot_st [OF s]]) (simp_all add: sub)
  next
    case 3
    have g: "gives ops ok b D r c (\<lambda>v. v) (\<lambda>_. True) (if path ! 0 = SLASH then
                 kbind (kget bootfs_vnode) (\<lambda>b.
                 case b of
                   None \<Rightarrow> kfail ENOENT
                 | Some v \<Rightarrow> kbind (on_low (vop_incref ops v)) (\<lambda>_. kret v))
               else
                 kbind (kassert (path ! 0 = COLON)) (\<lambda>_.
                 kbind (vfs_getcurdir ops) (\<lambda>vn.
                 case vn_fs ops vn of
                   None \<Rightarrow> kpanic
                 | Some fs \<Rightarrow>
                     kbind (on_low (fsop_getroot ops fs)) (\<lambda>startvn.
                     kbind (on_low (vop_decref ops vn)) (\<lambda>_. kret startvn))))) s"
    proof (cases "path ! 0 = SLASH")
      case True
      then show ?thesis using bootfs_st [OF s] by simp
    next
      case False
      then have "path ! 0 = COLON" using locate_sep_0 [of path] 3(3) by blast
      then show ?thesis using False current_root_st [OF s]
        unfolding gives_def if_not_P [OF False] wpb_kbind [of b "kassert _"] by (simp add: wpb_kassert)
    qed
    have "gives ops ok b D r c fst (\<lambda>x. 0 \<notin> set (snd x)) (kbind (kassert (?colon = 0 \<or> ?slash = 0)) (\<lambda>_.
        kbind (if path ! 0 = SLASH then
                 kbind (kget bootfs_vnode) (\<lambda>b.
                 case b of
                   None \<Rightarrow> kfail ENOENT
                 | Some v \<Rightarrow> kbind (on_low (vop_incref ops v)) (\<lambda>_. kret v))
               else
                 kbind (kassert (path ! 0 = COLON)) (\<lambda>_.
                 kbind (vfs_getcurdir ops) (\<lambda>vn.
                 case vn_fs ops vn of
                   None \<Rightarrow> kpanic
                 | Some fs \<Rightarrow>
                     kbind (on_low (fsop_getroot ops fs)) (\<lambda>startvn.
                     kbind (on_low (vop_decref ops vn)) (\<lambda>_. kret startvn))))) (\<lambda>startvn.
        kret (startvn, dropWhile (\<lambda>c. c = SLASH) (drop 1 path))))) s"
      unfolding gives_def wpb_kbind [of b "kassert _"] wpb_kassert [OF 3(3)]
      by (rule gives_map [OF g, unfolded gives_def]) (simp_all add: sub)
    then show ?thesis unfolding getdevice_def Let_def if_not_P [OF 3(1)] if_not_P [OF 3(2)] .
  qed
qed

text \<open>The operations on a vnode that is held.\<close>

lemma lookup_gives:
  assumes s: "vst ops ok b D r c s" and v: "0 < r v"
  shows "gives ops ok b D r c (\<lambda>v. v) (\<lambda>_. True) (on_low (vop_lookup ops v path)) s"
  by (rule given [OF s], rule wpb_mono [OF lookup_law [OF vstD(2) [OF s] v]]) simp_all

lemma lookparent_gives:
  assumes s: "vst ops ok b D r c s" and v: "0 < r v" and n: "0 \<notin> set path"
  shows "gives ops ok b D r c (fst) (\<lambda>x. 0 \<notin> set (snd x) \<and> isdir (fst x)) (on_low (vop_lookparent ops v path len)) s"
  by (rule given [OF s], rule wpb_mono [OF lookparent_law [OF vstD(2) [OF s] v n]]) simp_all

lemma creat_gives:
  assumes s: "vst ops ok b D r c s" and v: "0 < r v" and n: "0 \<notin> set name"
  shows "gives ops ok b D r c (\<lambda>v. v) (\<lambda>_. True) (on_low (vop_creat ops v name excl)) s"
  by (rule given [OF s], rule wpb_mono [OF creat_law [OF vstD(2) [OF s] v n]]) simp_all

lemma temp_pos: "vst ops ok b D r c s \<Longrightarrow> 0 < up r v v"
proof -
  assume "vst ops ok b D r c s"
  then have "0 \<le> c v \<and> c v \<le> r v" using vstD(3) [of ops ok b D r c s] by (simp add: counts_ok_def)
  then show ?thesis by simp
qed

lemma lookup_st:
  assumes s: "vst ops ok b D r c s" and path: "0 \<notin> set path"
  shows "gives ops ok b D r c (\<lambda>v. v) (\<lambda>_. True) (vfs_lookup ops path) s"
  unfolding gives_def vfs_lookup_def Let_def
proof (rule gives_bind [OF getdevice_st [OF s path]])
  fix x :: "'v \<times> byte list" and t
  assume t: "low_step s t" "vst ops ok b D (up r (fst x)) c t" "vn_fs ops (fst x) = None \<longrightarrow> 0 < r (fst x)"
  show "wpb b (if length (snd x) = 0 then kret (fst x) else kbind (kattempt (on_low (vop_lookup ops (fst x) (snd x))))
      (\<lambda>result. kbind (on_low (vop_decref ops (fst x))) (\<lambda>_. kresult result)))
     (\<lambda>x t. low_step s t \<and> vst ops ok b D (up r x) c t \<and> (vn_fs ops x = None \<longrightarrow> 0 < r x) \<and> True)
     (\<lambda>e t. low_step s t \<and> vst ops ok b D r c t) t"
    using drop_giving [OF s t(1,3) lookup_gives [OF t(2) temp_pos [OF s]]] t by (simp add: wpb_kret)
qed simp

lemma lookparent_st:
  assumes s: "vst ops ok b D r c s" and path: "0 \<notin> set path"
  shows "gives ops ok b D r c fst (\<lambda>x. 0 \<notin> set (snd x) \<and> isdir (fst x)) (vfs_lookparent ops path len) s"
  unfolding gives_def vfs_lookparent_def Let_def
proof (rule gives_bind [OF getdevice_st [OF s path]])
  fix x :: "'v \<times> byte list" and t
  assume t: "low_step s t" "vst ops ok b D (up r (fst x)) c t" "vn_fs ops (fst x) = None \<longrightarrow> 0 < r (fst x)"
    "0 \<notin> set (snd x)"
  have m: "gives ops ok b D (up r (fst x)) c fst (\<lambda>x. 0 \<notin> set (snd x) \<and> isdir (fst x)) (if length (snd x) = 0 then kfail EINVAL
       else on_low (vop_lookparent ops (fst x) (snd x) len)) t"
  proof (cases "length (snd x) = 0")
    case True
    then show ?thesis using t(2) by (simp add: gives_def wpb_kfail)
  next
    case False
    show ?thesis unfolding if_not_P [OF False] by (rule lookparent_gives [OF t(2) temp_pos [OF s] t(4)])
  qed
  show "wpb b (kbind (kattempt (if length (snd x) = 0 then kfail EINVAL else on_low (vop_lookparent ops (fst x) (snd x) len)))
      (\<lambda>result. kbind (on_low (vop_decref ops (fst x))) (\<lambda>_. kresult result)))
     (\<lambda>x t. low_step s t \<and> vst ops ok b D (up r (fst x)) c t \<and> (vn_fs ops (fst x) = None \<longrightarrow> 0 < r (fst x))
        \<and> 0 \<notin> set (snd x) \<and> isdir (fst x))
     (\<lambda>e t. low_step s t \<and> vst ops ok b D r c t) t"
    by (rule drop_giving [OF s t(1,3) m])
qed simp

section \<open>Calls\<close>

lemma on_parent_st:
  assumes s: "vst ops ok b D r c s" and path: "0 \<notin> set path"
    and law: "\<And>f M r v name. ok b f M r c \<Longrightarrow> 0 < r v \<Longrightarrow> 0 \<notin> set name \<Longrightarrow>
      wpb b (F v name) (\<lambda>_ g. ok b g M r c) (\<lambda>_ g. ok b g M r c) f"
  shows "wpb b (on_parent ops path F) (\<lambda>_ t. low_step s t \<and> vst ops ok b D r c t) (\<lambda>_ t. low_step s t \<and> vst ops ok b D r c t) s"
  unfolding on_parent_def Let_def
proof (rule gives_bind [OF lookparent_st [OF s path]])
  fix x :: "'v \<times> byte list" and t
  assume t: "low_step s t" "vst ops ok b D (up r (fst x)) c t" "vn_fs ops (fst x) = None \<longrightarrow> 0 < r (fst x)"
    and n: "0 \<notin> set (snd x) \<and> isdir (fst x)"
  note t = t conjunct1 [OF n]
  have m: "wpb b (on_low (F (fst x) (snd x))) (\<lambda>y u. low_step t u \<and> vst ops ok b D (up r (fst x)) c u \<and> True)
     (\<lambda>_ u. low_step t u \<and> vst ops ok b D (up r (fst x)) c u) t"
    by (rule kept [OF t(2)], rule wpb_mono [OF law [OF vstD(2) [OF t(2)] temp_pos [OF s] t(4)]]) simp_all
  from drop_keeping [OF s t(1,3) m]
  show "wpb b (kbind (kattempt (on_low (F (fst x) (snd x)))) (\<lambda>result. kbind (on_low (vop_decref ops (fst x))) (\<lambda>_. kresult result)))
     (\<lambda>_ t. low_step s t \<and> vst ops ok b D r c t) (\<lambda>_ t. low_step s t \<and> vst ops ok b D r c t) t" by simp
qed simp

lemma open_vnode_st:
  assumes s: "vst ops ok b D r c s" and path: "0 \<notin> set path"
  shows "gives ops ok b D r c (\<lambda>v. v) (\<lambda>_. True) (open_vnode ops path flags) s"
proof (cases "flags AND O_CREAT \<noteq> 0")
  case False
  then show ?thesis using lookup_st [OF assms] by (simp add: open_vnode_def)
next
  case True
  show ?thesis unfolding gives_def open_vnode_def if_P [OF True] Let_def
  proof (rule gives_bind [OF lookparent_st [OF s path]])
    fix x :: "'v \<times> byte list" and t
    assume t: "low_step s t" "vst ops ok b D (up r (fst x)) c t" "vn_fs ops (fst x) = None \<longrightarrow> 0 < r (fst x)"
      and n: "0 \<notin> set (snd x) \<and> isdir (fst x)"
    note t = t conjunct1 [OF n]
    show "wpb b (kbind (kattempt (on_low (vop_creat ops (fst x) (snd x) (flags AND O_EXCL \<noteq> 0))))
        (\<lambda>result. kbind (on_low (vop_decref ops (fst x))) (\<lambda>_. kresult result)))
       (\<lambda>x t. low_step s t \<and> vst ops ok b D (up r x) c t \<and> (vn_fs ops x = None \<longrightarrow> 0 < r x) \<and> True)
       (\<lambda>e t. low_step s t \<and> vst ops ok b D r c t) t"
      by (rule drop_giving [OF s t(1,3) creat_gives [OF t(2) temp_pos [OF s] t(4)]])
  qed simp
qed


text \<open>Opening counts one reference to and one open of the vnode handed back; a failure counts nothing.\<close>

lemma incopen_st:
  assumes s: "vst ops ok b D r c s" and v: "0 < r v" and c: "counts_ok ops D r (up c v)"
  shows "wpb b (on_low (vop_incopen ops v)) (\<lambda>_ t. low_step s t \<and> vst ops ok b D r (up c v) t) (\<lambda>_ _. False) s"
  unfolding wpb_on_low
  by (rule wpb_mono [OF incopen_law [OF vstD(2) [OF s] v]])
    (simp_all add: vst_low [OF vstD(1) [OF s] _ c vstD(4) [OF s]])

text \<open>\<open>vfs_close\<close>, and the end of a failing \<open>vfs_open\<close>.\<close>

lemma close_st:
  assumes s: "vst ops ok b D (up r v) (up c v) s" and r: "counts_ok ops D r c" "held ops r s"
    and v: "vn_fs ops v = None \<longrightarrow> 0 < r v"
  shows "wpb b (vfs_close ops v) (\<lambda>_ t. low_step s t \<and> vst ops ok b D r c t) (\<lambda>_ _. False) s"
  unfolding vfs_close_def wpb_kbind wpb_on_low [of b "vop_decopen ops v"]
proof (rule wpb_mono [OF decopen_law [OF vstD(2) [OF s]]])
  have c: "0 \<le> c v" "c v \<le> r v" using r(1) by (simp_all add: counts_ok_def)
  then show "0 < up r v v" "0 \<le> c v" by simp_all
  fix x g
  assume "ok b g (mounted s) (up r v) c"
  then have g: "vst ops ok b D (up r v) c (s\<lparr>v_fs := g\<rparr>)"
    by (rule vst_low [OF vstD(1) [OF s] _ counts_up [OF r(1) v] vstD(4) [OF s]])
  have sg: "low_step s (s\<lparr>v_fs := g\<rparr>)" by simp
  show "wpb b (on_low (vop_decref ops v)) (\<lambda>_ t. low_step s t \<and> vst ops ok b D r c t) (\<lambda>_ _. False) (s\<lparr>v_fs := g\<rparr>)"
    by (rule wpb_mono [OF decref_st [OF g r(1) _ v]])
      (use sg low_step_same(2) [OF sg] low_step_trans r(2) in blast)+
qed simp

lemma drop_fail:
  assumes s: "vst ops ok b D r c s" and st: "low_step s t" and v: "vn_fs ops v = None \<longrightarrow> 0 < r v"
    and t: "vst ops ok b D (up r v) c t"
  shows "wpb b (kbind (on_low (vop_decref ops v)) (\<lambda>_. kfail e)) Q (\<lambda>_ u. low_step s u \<and> vst ops ok b D r c u) t"
  unfolding wpb_kbind wpb_kfail
  by (rule wpb_mono [OF decref_st [OF t vstD(3) [OF s] _ v]])
    (use st low_step_same(2) [OF st] low_step_trans vstD(4) [OF s] in blast)+

lemma counts_open:
  assumes c: "counts_ok ops D r c" and v: "vn_fs ops v = None \<longrightarrow> 0 < r v"
  shows "counts_ok ops D (up r v) (up c v)"
proof -
  have "0 \<le> up c v u \<and> up c v u \<le> up r v u \<and> (u \<in> D \<longrightarrow> up c v u < up r v u)" for u
  proof -
    have "0 \<le> c u" "c u \<le> r u" "u \<in> D \<longrightarrow> c u < r u" using c by (simp_all add: counts_ok_def)
    then show ?thesis by (cases "u = v"; cases "u \<in> D") (simp_all add: up_def)
  qed
  then show ?thesis using counts_up [OF c v] unfolding counts_ok_def by blast
qed

lemma open_end_st:
  assumes s: "vst ops ok b D r c s" and st: "low_step s t" and v: "vn_fs ops v = None \<longrightarrow> 0 < r v"
    and t: "vst ops ok b D (up r v) (up c v) t"
  shows "wpb b (if tr then
        kbind (kattempt (if \<not> canwrite then kfail EINVAL else on_low (vop_truncate ops v 0))) (\<lambda>result.
        case result of
          Inl e \<Rightarrow> kbind (on_low (vop_decopen ops v)) (\<lambda>_. kbind (on_low (vop_decref ops v)) (\<lambda>_. kfail e))
        | Inr _ \<Rightarrow> kret v) else kret v)
    (\<lambda>v t. low_step s t \<and> vst ops ok b D (up r v) (up c v) t \<and> (vn_fs ops v = None \<longrightarrow> 0 < r v))
    (\<lambda>_ t. low_step s t \<and> vst ops ok b D r c t) t" (is "wpb b _ ?Q ?R t")
proof -
  have undo: "wpb b (kbind (on_low (vop_decopen ops v)) (\<lambda>_. kbind (on_low (vop_decref ops v)) (\<lambda>_. kfail e))) ?Q ?R u"
    if u: "low_step s u" "vst ops ok b D (up r v) (up c v) u" for u e
  proof -
    have "wpb b (vfs_close ops v) (\<lambda>_ w. low_step s w \<and> vst ops ok b D r c w) (\<lambda>_ _. False) u"
      by (rule wpb_mono [OF close_st [OF u(2) vstD(3) [OF s] _ v]])
        (use u(1) low_step_same(2) [OF u(1)] low_step_trans vstD(4) [OF s] in blast)+
    then have "wpb b (kbind (vfs_close ops v) (\<lambda>_. kfail e)) ?Q ?R u"
      unfolding wpb_kbind [of b "vfs_close ops v"] wpb_kfail by (rule wpb_mono) simp_all
    then show ?thesis unfolding vfs_close_def wpb_kbind .
  qed
  have tr: "wpb b (on_low (vop_truncate ops v 0)) (\<lambda>x u. low_step t u \<and> vst ops ok b D (up r v) (up c v) u \<and> True)
      (\<lambda>e u. low_step t u \<and> vst ops ok b D (up r v) (up c v) u) t"
    by (rule kept [OF t], rule wpb_mono [OF truncate_law [OF vstD(2) [OF t] temp_pos [OF s]]]) simp_all
  have done': "?Q v u" if "low_step t u" "vst ops ok b D (up r v) (up c v) u" for u
    using that v low_step_trans [OF st] by blast
  show ?thesis
  proof (cases "tr \<and> canwrite")
    case True
    then have e: "tr" "\<not> \<not> canwrite" by simp_all
    show ?thesis unfolding if_P [OF e(1)] if_not_P [OF e(2)] wpb_kbind [of b "kattempt _"] wpb_kattempt
      by (rule wpb_mono [OF tr]) (use done' undo v low_step_trans [OF st] in \<open>simp_all add: wpb_kret\<close>)
  next
    case False
    then show ?thesis using undo [OF st t] done' [OF low_step_refl t] by (auto simp: wpb_kret wpb_kfail wpb_kattempt wpb_kbind [of b "kattempt _"])
  qed
qed

lemma open_st:
  assumes s: "vst ops ok b D r c s" and path: "0 \<notin> set path"
  shows "wpb b (vfs_open ops path flags)
    (\<lambda>v t. low_step s t \<and> vst ops ok b D (up r v) (up c v) t \<and> (vn_fs ops v = None \<longrightarrow> 0 < r v))
    (\<lambda>_ t. low_step s t \<and> vst ops ok b D r c t) s"
    (is "wpb b _ ?Q ?R s")
proof (cases "flags AND O_ACCMODE \<noteq> O_RDONLY \<and> flags AND O_ACCMODE \<noteq> O_WRONLY \<and> flags AND O_ACCMODE \<noteq> O_RDWR")
  case True
  then show ?thesis using s by (simp add: vfs_open_def Let_def wpb_kfail)
next
  case False
  show ?thesis unfolding vfs_open_def Let_def if_not_P [OF False]
  proof (rule gives_bind [OF open_vnode_st [OF s path]])
    fix v t
    assume t: "low_step s t" "vst ops ok b D (up r v) c t" "vn_fs ops v = None \<longrightarrow> 0 < r v"
    note v = temp_pos [OF s, of v]
    show "wpb b (kbind (kattempt (on_low (vop_open ops v flags))) (\<lambda>result.
        case result of
          Inl e \<Rightarrow> kbind (on_low (vop_decref ops v)) (\<lambda>_. kfail e)
        | Inr _ \<Rightarrow>
            kbind (on_low (vop_incopen ops v)) (\<lambda>_.
            if flags AND O_TRUNC \<noteq> 0 then
              kbind (kattempt (if \<not> flags AND O_ACCMODE \<noteq> O_RDONLY then kfail EINVAL else on_low (vop_truncate ops v 0))) (\<lambda>result.
              case result of
                Inl e \<Rightarrow>
                  kbind (on_low (vop_decopen ops v)) (\<lambda>_.
                  kbind (on_low (vop_decref ops v)) (\<lambda>_. kfail e))
              | Inr _ \<Rightarrow> kret v)
            else kret v))) ?Q ?R t"
      unfolding wpb_kbind [of b "kattempt (on_low (vop_open ops v flags))"] wpb_kattempt [of b "on_low (vop_open ops v flags)"]
    proof (rule wpb_mono [OF kept [OF t(2), where P = "\<lambda>_. True"]])
      show "wpb b (vop_open ops v flags) (\<lambda>x g. ok b g (mounted t) (up r v) c \<and> True) (\<lambda>_ g. ok b g (mounted t) (up r v) c) (v_fs t)"
        using open_law [OF vstD(2) [OF t(2)] v] by simp
    next
      fix e u
      assume u: "low_step t u \<and> vst ops ok b D (up r v) c u"
      show "wpb b (case Inl e of Inl e \<Rightarrow> kbind (on_low (vop_decref ops v)) (\<lambda>_. kfail e)
        | Inr _ \<Rightarrow> kbind (on_low (vop_incopen ops v)) (\<lambda>_. if flags AND O_TRUNC \<noteq> 0 then
              kbind (kattempt (if \<not> flags AND O_ACCMODE \<noteq> O_RDONLY then kfail EINVAL else on_low (vop_truncate ops v 0))) (\<lambda>result.
              case result of Inl e \<Rightarrow> kbind (on_low (vop_decopen ops v)) (\<lambda>_. kbind (on_low (vop_decref ops v)) (\<lambda>_. kfail e))
              | Inr _ \<Rightarrow> kret v) else kret v)) ?Q ?R u"
        unfolding sum.case by (rule drop_fail [OF s _ t(3)]) (use u low_step_trans [OF t(1)] in blast)+
    next
      fix x u
      assume u: "low_step t u \<and> vst ops ok b D (up r v) c u \<and> True"
      show "wpb b (case Inr x of Inl e \<Rightarrow> kbind (on_low (vop_decref ops v)) (\<lambda>_. kfail e)
        | Inr _ \<Rightarrow> kbind (on_low (vop_incopen ops v)) (\<lambda>_. if flags AND O_TRUNC \<noteq> 0 then
              kbind (kattempt (if \<not> flags AND O_ACCMODE \<noteq> O_RDONLY then kfail EINVAL else on_low (vop_truncate ops v 0))) (\<lambda>result.
              case result of Inl e \<Rightarrow> kbind (on_low (vop_decopen ops v)) (\<lambda>_. kbind (on_low (vop_decref ops v)) (\<lambda>_. kfail e))
              | Inr _ \<Rightarrow> kret v) else kret v)) ?Q ?R u"
        unfolding sum.case wpb_kbind [of b "on_low (vop_incopen ops v)"]
      proof (rule wpb_mono [OF incopen_st [OF _ v counts_open [OF vstD(3) [OF s] t(3)]]])
        show "vst ops ok b D (up r v) c u" using u by simp
        fix w
        assume w: "low_step u w \<and> vst ops ok b D (up r v) (up c v) w"
        then have sw: "low_step s w" using u low_step_trans t(1) by blast
        show "wpb b (if flags AND O_TRUNC \<noteq> 0 then
              kbind (kattempt (if \<not> flags AND O_ACCMODE \<noteq> O_RDONLY then kfail EINVAL else on_low (vop_truncate ops v 0))) (\<lambda>result.
              case result of Inl e \<Rightarrow> kbind (on_low (vop_decopen ops v)) (\<lambda>_. kbind (on_low (vop_decref ops v)) (\<lambda>_. kfail e))
              | Inr _ \<Rightarrow> kret v) else kret v) ?Q ?R w"
          by (rule open_end_st [OF s sw t(3)]) (use w in simp)
      qed simp
    qed
  qed simp
qed

end

end
