(* ===== verification/VfsCalls.thy ===== *)
theory VfsCalls
  imports VfsRefs
begin

text \<open>
  Whole calls of the VFS layer: a process opens and closes files, changes its directory, removes and
  renames. The references to every vnode are at all times those of the open files, of the current
  directory, of the boot file system and of the table of devices.
\<close>

section \<open>Who holds references\<close>

text \<open>\<open>y v\<close> references are held by the callers of the layer.\<close>

definition refs :: "'v set \<Rightarrow> ('f, 'v) vfs \<Rightarrow> ('v \<Rightarrow> int) \<Rightarrow> 'v \<Rightarrow> int" where
  "refs D s y v = y v + of_bool (t_cwd s = Some v) + of_bool (bootfs_vnode s = Some v) + of_bool (v \<in> D)"

definition acct :: "('f, 'v) fs_ops \<Rightarrow> (bool \<Rightarrow> 'f \<Rightarrow> nat set \<Rightarrow> ('v \<Rightarrow> int) \<Rightarrow> ('v \<Rightarrow> int) \<Rightarrow> bool) \<Rightarrow> bool
    \<Rightarrow> 'v set \<Rightarrow> ('v \<Rightarrow> int) \<Rightarrow> ('v \<Rightarrow> int) \<Rightarrow> ('f, 'v) vfs \<Rightarrow> bool" where
  "acct ops ok b D y c s \<longleftrightarrow> (\<forall>v. 0 \<le> c v \<and> c v \<le> y v) \<and> vst ops ok b D (refs D s y) c s"

lemma up_le: "x \<le> y u \<Longrightarrow> x \<le> up y v u"
  by (rule order_trans [OF _ up_ge])

lemma refs_up: "refs D s (up y v) = up (refs D s y) v"
  by (simp add: fun_eq_iff refs_def up_def)

lemma refs_low: "low_step s t \<Longrightarrow> refs D t y = refs D s y"
  by (simp add: fun_eq_iff refs_def low_step_def)

lemma refs_pos: "0 \<le> y v \<Longrightarrow> t_cwd s = Some v \<or> bootfs_vnode s = Some v \<or> v \<in> D \<Longrightarrow> 0 < refs D s y v"
  by (auto simp: refs_def)

lemma acctD:
  assumes "acct ops ok b D y c s"
  shows "vst ops ok b D (refs D s y) c s" "0 \<le> c v" "c v \<le> y v" "0 \<le> y v"
  using assms by (auto simp: acct_def intro: order_trans)

text \<open>Giving a reference up: what is left is still enough.\<close>

lemma acct_less:
  assumes s: "acct ops ok b D (up y v) c s" and y: "\<And>u. 0 \<le> c' u \<and> c' u \<le> y u"
  shows "counts_ok ops D (refs D s y) c'" "held ops (refs D s y) s" "vn_fs ops v = None \<longrightarrow> 0 < refs D s y v"
proof -
  note vs = acctD(1) [OF s, unfolded refs_up]
  have le: "y u \<le> refs D s y u" "u \<in> D \<longrightarrow> y u < refs D s y u" "refs D s y u \<le> up (refs D s y) v u" for u
    by (simp_all add: refs_def up_def)
  have y0: "\<And>u. 0 \<le> y u" using y order_trans by blast
  have pos: "0 < refs D s y u" if "t_cwd s = Some u \<or> bootfs_vnode s = Some u \<or> u \<in> D" for u
    by (rule refs_pos [OF y0 that])
  have dev: "u \<in> D" if "vn_fs ops u = None" "0 < up (refs D s y) v u" for u
    using vstD(3) [OF vs] that by (auto simp: counts_ok_def)
  show "counts_ok ops D (refs D s y) c'" unfolding counts_ok_def
    using y le dev by (meson order_trans le_less_trans less_le_trans)
  show "held ops (refs D s y) s" using vstD(4) [OF vs] pos by (auto simp: held_def)
  have "0 < up (refs D s y) v v" using y0 [of v] le(1) [of v] by simp
  then show "vn_fs ops v = None \<longrightarrow> 0 < refs D s y v" using dev [of v] pos by blast
qed

text \<open>The calls of processes, with the list of the files that are open.\<close>

datatype vcall = Open "byte list" nat | Close nat | Remove "byte list" | Rename "byte list" "byte list"
  | Mkdir "byte list" | Rmdir "byte list" | Symlink "byte list" "byte list" | Chdir "byte list" | ClearCurdir
  | SetBootfs "byte list" | ClearBootfs

primrec paths_of :: "vcall \<Rightarrow> byte list list" where
  "paths_of (Open p fl) = [p]"
| "paths_of (Close i) = []"
| "paths_of (Remove p) = [p]"
| "paths_of (Rename p q) = [p, q]"
| "paths_of (Mkdir p) = [p]"
| "paths_of (Rmdir p) = [p]"
| "paths_of (Symlink t p) = [p]"
| "paths_of (Chdir p) = [p]"
| "paths_of ClearCurdir = []"
| "paths_of (SetBootfs p) = [p]"
| "paths_of ClearBootfs = []"

text \<open>A path is a string of C: it has no byte 0.\<close>

definition c_paths :: "vcall \<Rightarrow> bool" where
  "c_paths call = (\<forall>p \<in> set (paths_of call). 0 \<notin> set p)"

primrec do_call :: "('f, 'v) fs_ops \<Rightarrow> 'v list \<Rightarrow> vcall \<Rightarrow> (('f, 'v) vfs, 'v list) op" where
  "do_call ops fds (Open p fl) =
     kbind (kattempt (vfs_open ops p fl)) (\<lambda>r. kret (case r of Inl e \<Rightarrow> fds | Inr v \<Rightarrow> fds @ [v]))"
| "do_call ops fds (Close i) =
     (if i < length fds then kbind (vfs_close ops (fds ! i)) (\<lambda>_. kret (take i fds @ drop (i + 1) fds)) else kret fds)"
| "do_call ops fds (Remove p) = kbind (kattempt (vfs_remove ops p)) (\<lambda>_. kret fds)"
| "do_call ops fds (Rename p q) = kbind (kattempt (vfs_rename ops p q)) (\<lambda>_. kret fds)"
| "do_call ops fds (Mkdir p) = kbind (kattempt (vfs_mkdir ops p)) (\<lambda>_. kret fds)"
| "do_call ops fds (Rmdir p) = kbind (kattempt (vfs_rmdir ops p)) (\<lambda>_. kret fds)"
| "do_call ops fds (Symlink t p) = kbind (kattempt (vfs_symlink ops t p)) (\<lambda>_. kret fds)"
| "do_call ops fds (Chdir p) = kbind (kattempt (vfs_chdir ops p)) (\<lambda>_. kret fds)"
| "do_call ops fds ClearCurdir = kbind (vfs_clearcurdir ops) (\<lambda>_. kret fds)"
| "do_call ops fds (SetBootfs p) = kbind (kattempt (vfs_setbootfs ops p)) (\<lambda>_. kret fds)"
| "do_call ops fds ClearBootfs = kbind (vfs_clearbootfs ops) (\<lambda>_. kret fds)"

primrec do_calls :: "('f, 'v) fs_ops \<Rightarrow> 'v list \<Rightarrow> vcall list \<Rightarrow> (('f, 'v) vfs, 'v list) op" where
  "do_calls ops fds [] = kret fds"
| "do_calls ops fds (call # calls) = kbind (do_call ops fds call) (\<lambda>fds'. do_calls ops fds' calls)"

definition times_open :: "'v list \<Rightarrow> 'v \<Rightarrow> int" where
  "times_open fds v = int (count_list fds v)"

lemma times_open_append: "times_open (fds @ [v]) = up (times_open fds) v"
  by (simp add: fun_eq_iff times_open_def up_def)

lemma times_open_remove:
  assumes "i < length fds"
  shows "times_open fds = up (times_open (take i fds @ drop (i + 1) fds)) (fds ! i)"
proof -
  have "times_open (xs @ x # ys) = up (times_open (xs @ ys)) x" for xs ys and x :: 'a
    by (auto simp: fun_eq_iff times_open_def up_def)
  from this [of "take i fds" "fds ! i" "drop (Suc i) fds"] show ?thesis
    unfolding id_take_nth_drop [OF assms, symmetric] by simp
qed

context file_layer
begin

text \<open>Runs that hand out a vnode, and runs that keep all counts.\<close>

lemma acct_step:
  assumes "low_step s t" and "vst ops ok b D (refs D s y) c t" and "\<And>u. 0 \<le> c u \<and> c u \<le> y u"
  shows "low_step s t \<and> acct ops ok b D y c t"
  using assms unfolding acct_def refs_low [OF assms(1)] by blast

lemma gives_acct:
  assumes a: "acct ops ok b D y c s" and g: "gives ops ok b D (refs D s y) c vn P m s"
  shows "wpb b m (\<lambda>x t. low_step s t \<and> acct ops ok b D (up y (vn x)) c t \<and> P x) (\<lambda>_ t. low_step s t \<and> acct ops ok b D y c t) s"
proof (rule wpb_mono [OF g [unfolded gives_def]])
  fix x t
  assume t: "low_step s t \<and> vst ops ok b D (up (refs D s y) (vn x)) c t \<and> (vn_fs ops (vn x) = None \<longrightarrow> 0 < refs D s y (vn x)) \<and> P x"
  have "c u \<le> up y (vn x) u" "0 \<le> c u" for u using acctD(2,3) [OF a, of u] up_ge [of y u "vn x"] by simp_all
  then show "low_step s t \<and> acct ops ok b D (up y (vn x)) c t \<and> P x"
    using t by (simp add: acct_def refs_up refs_low [of s t])
next
  fix e t
  assume "low_step s t \<and> vst ops ok b D (refs D s y) c t"
  then show "low_step s t \<and> acct ops ok b D y c t" using acctD(2,3) [OF a] acct_step by blast
qed

lemma kept_acct:
  assumes a: "acct ops ok b D y c s"
    and m: "wpb b m (\<lambda>_ t. low_step s t \<and> vst ops ok b D (refs D s y) c t) (\<lambda>_ t. low_step s t \<and> vst ops ok b D (refs D s y) c t) s"
  shows "wpb b m (\<lambda>_ t. low_step s t \<and> acct ops ok b D y c t) (\<lambda>_ t. low_step s t \<and> acct ops ok b D y c t) s"
  by (rule wpb_mono [OF m]) (use acctD(2,3) [OF a] acct_step in blast)+

lemma decref_acct:
  assumes a: "acct ops ok b D (up y v) c s" and y: "\<And>u. 0 \<le> c u \<and> c u \<le> y u"
  shows "wpb b (on_low (vop_decref ops v)) (\<lambda>_ t. low_step s t \<and> acct ops ok b D y c t) (\<lambda>_ _. False) s"
  by (rule wpb_mono [OF decref_st [OF acctD(1) [OF a, unfolded refs_up] acct_less [OF a y]]])
    (use y acct_step in blast)+

lemma incref_acct:
  assumes a: "acct ops ok b D y c s" and v: "0 < refs D s y v"
  shows "wpb b (on_low (vop_incref ops v)) (\<lambda>_ t. low_step s t \<and> acct ops ok b D (up y v) c t) (\<lambda>_ t. low_step s t \<and> acct ops ok b D y c t) s"
  using gives_acct [OF a incref_st [OF acctD(1) [OF a] v]] by simp

lemma drop_old_acct:
  assumes a: "acct ops ok b D (case old of None \<Rightarrow> y | Some v \<Rightarrow> up y v) c s" and y: "\<And>u. 0 \<le> c u \<and> c u \<le> y u"
  shows "wpb b (drop_old ops old) (\<lambda>_ t. low_step s t \<and> acct ops ok b D y c t) (\<lambda>_ _. False) s"
proof (cases old)
  case None
  then show ?thesis using a by (simp add: drop_old_def wpb_kret)
next
  case (Some v)
  then show ?thesis using decref_acct [OF _ y] a by (simp add: drop_old_def)
qed

text \<open>The current directory and the boot file system: a reference passes from the caller into the variable.\<close>

lemma acct_move:
  assumes a: "acct ops ok b D y c s" and r: "refs D t y' = refs D s y" and y: "\<And>u. 0 \<le> c u \<and> c u \<le> y' u"
    and same: "knowndevs t = knowndevs s" "v_fs t = v_fs s"
    and h: "\<And>u. t_cwd t = Some u \<or> bootfs_vnode t = Some u \<Longrightarrow> vn_fs ops u \<noteq> None"
  shows "acct ops ok b D y' c t"
proof -
  have d: "devs t = devs s" "mounted t = mounted s" "table_ok D t = table_ok D s"
    using same(1) by (simp_all add: devs_def mounted_def table_ok_def)
  have y0: "\<And>u. 0 \<le> y' u" using y order_trans by blast
  have "held ops (refs D t y') t" unfolding held_def
  proof (intro allI impI conjI)
    fix u
    assume u: "bootfs_vnode t = Some u \<or> t_cwd t = Some u"
    show "0 < refs D t y' u" using refs_pos [of y' u t D] y0 u by blast
    show "vn_fs ops u \<noteq> None" by (rule h) (use u in blast)
  qed
  then show ?thesis using acctD(1) [OF a] y unfolding acct_def vst_def r d same(2) by blast
qed

lemma held_fs: "acct ops ok b D y c s \<Longrightarrow> t_cwd s = Some u \<or> bootfs_vnode s = Some u \<Longrightarrow> vn_fs ops u \<noteq> None"
  using vstD(4) [OF acctD(1) [of ops ok b D y c s]] by (auto simp: held_def)

lemma setcurdir_acct:
  assumes a: "acct ops ok b D y c s" and v: "0 < refs D s y v"
  shows "wpb b (vfs_setcurdir ops v)
    (\<lambda>_ t. acct ops ok b D y c t \<and> bootfs_vnode t = bootfs_vnode s \<and> t_cwd t = Some v)
    (\<lambda>_ t. low_step s t \<and> acct ops ok b D y c t) s" (is "wpb b _ ?Q ?R s")
  unfolding vfs_setcurdir_def wpb_kbind [of b "on_low (vop_gettype ops v)"]
proof (rule wpb_mono [OF kept [OF acctD(1) [OF a] gettype_law [OF vstD(2) [OF acctD(1) [OF a]] v]]])
  note yc = acctD(2,3) [OF a]
  fix vtype t
  assume t: "low_step s t \<and> vst ops ok b D (refs D s y) c t \<and> (vtype = S_IFDIR \<longrightarrow> vn_fs ops v \<noteq> None)"
  then have at: "acct ops ok b D y c t" and st: "low_step s t" using acct_step yc by blast+
  show "wpb b (if vtype \<noteq> S_IFDIR then kfail ENOTDIR
     else kbind (on_low (vop_incref ops v)) (\<lambda>_. kbind (kget t_cwd) (\<lambda>old.
       kbind (kmodify (\<lambda>s. s\<lparr>t_cwd := Some v\<rparr>)) (\<lambda>_. drop_old ops old)))) ?Q ?R t"
  proof (cases "vtype = S_IFDIR")
    case False
    then show ?thesis using at st by (simp add: wpb_kfail)
  next
    case True
    then have fs: "vn_fs ops v \<noteq> None" using t by simp
    have e: "\<not> vtype \<noteq> S_IFDIR" using True by simp
    have vt: "0 < refs D t y v" using v refs_low [OF st] by simp
    show ?thesis unfolding if_not_P [OF e] wpb_kbind wpb_kget wpb_kmodify
    proof (rule wpb_mono [OF incref_acct [OF at vt]])
      fix x :: unit and u
      assume u: "low_step t u \<and> acct ops ok b D (up y v) c u"
      let ?u = "u\<lparr>t_cwd := Some v\<rparr>" and ?y = "case t_cwd u of None \<Rightarrow> y | Some w \<Rightarrow> up y w"
      have "acct ops ok b D ?y c ?u"
      proof (rule acct_move)
        show "acct ops ok b D (up y v) c u" using u by simp
        show "refs D ?u ?y = refs D u (up y v)"
          by (auto simp: fun_eq_iff refs_def up_def split: option.split)
        show "0 \<le> c w \<and> c w \<le> ?y w" for w
          using yc by (cases "t_cwd u") (simp_all add: up_le)
        show "vn_fs ops w \<noteq> None" if "t_cwd ?u = Some w \<or> bootfs_vnode ?u = Some w" for w
          using that fs held_fs u by auto
      qed simp_all
      from drop_old_acct [OF this] show "wpb b (drop_old ops (t_cwd u)) ?Q ?R ?u"
        by (rule wpb_mono) (use yc u st in \<open>simp_all add: low_step_def\<close>)
    qed (use st low_step_trans in blast)
  qed
qed (use acct_step acctD(2,3) [OF a] in blast)

lemma lookup_acct:
  assumes a: "acct ops ok b D y c s" and path: "0 \<notin> set path"
  shows "wpb b (vfs_lookup ops path) (\<lambda>v t. low_step s t \<and> acct ops ok b D (up y v) c t) (\<lambda>_ t. low_step s t \<and> acct ops ok b D y c t) s"
  using gives_acct [OF a lookup_st [OF acctD(1) [OF a] path]] by simp

lemma chdir_acct:
  assumes a: "acct ops ok b D y c s" and path: "0 \<notin> set path"
  shows "wpb b (vfs_chdir ops path)
    (\<lambda>_ t. acct ops ok b D y c t \<and> bootfs_vnode t = bootfs_vnode s \<and> t_cwd t \<noteq> None)
    (\<lambda>_ t. acct ops ok b D y c t) s" (is "wpb b _ ?Q ?R s")
  unfolding vfs_chdir_def wpb_kbind [of b "vfs_lookup ops path"]
proof (rule wpb_mono [OF lookup_acct [OF a path]])
  note yc = acctD(2,3,4) [OF a]
  fix v t
  assume t: "low_step s t \<and> acct ops ok b D (up y v) c t"
  have pos: "0 < refs D t (up y v) v"
    using yc(3) [of v] by (simp add: refs_def)
  have dec: "wpb b (kbind (on_low (vop_decref ops v)) (\<lambda>_. kresult x)) ?Q ?R u"
    if "acct ops ok b D (up y v) c u" "case x of Inl _ \<Rightarrow> True | Inr _ \<Rightarrow> bootfs_vnode u = bootfs_vnode s \<and> t_cwd u = Some v" for x u
    unfolding wpb_kbind
    by (rule wpb_mono [OF decref_acct [OF that(1)]])
      (use that(2) yc in \<open>simp_all add: wpb_kresult low_step_def split: sum.splits\<close>)
  show "wpb b (kbind (kattempt (vfs_setcurdir ops v)) (\<lambda>result. kbind (on_low (vop_decref ops v)) (\<lambda>_. kresult result))) ?Q ?R t"
    unfolding wpb_kbind [of b "kattempt _"] wpb_kattempt
  proof (rule wpb_mono [OF setcurdir_acct [OF conjunct2 [OF t] pos]])
    show "wpb b (kbind (on_low (vop_decref ops v)) (\<lambda>_. kresult (Inr x))) ?Q ?R u"
      if "acct ops ok b D (up y v) c u \<and> bootfs_vnode u = bootfs_vnode t \<and> t_cwd u = Some v" for x u
      by (rule dec) (use that t in \<open>simp_all add: low_step_def\<close>)
    show "wpb b (kbind (on_low (vop_decref ops v)) (\<lambda>_. kresult (Inl e))) ?Q ?R u"
      if "low_step t u \<and> acct ops ok b D (up y v) c u" for e u
      by (rule dec) (use that in simp_all)
  qed
qed simp

lemma clearcurdir_acct:
  assumes a: "acct ops ok b D y c s"
  shows "wpb b (vfs_clearcurdir ops) (\<lambda>_ t. acct ops ok b D y c t \<and> t_cwd t = None) (\<lambda>_ _. False) s"
  unfolding vfs_clearcurdir_def wpb_kbind wpb_kget wpb_kmodify
proof (rule wpb_mono [OF drop_old_acct])
  note yc = acctD(2,3) [OF a]
  let ?t = "s\<lparr>t_cwd := None\<rparr>" and ?y = "case t_cwd s of None \<Rightarrow> y | Some w \<Rightarrow> up y w"
  show "acct ops ok b D ?y c ?t"
  proof (rule acct_move [OF a])
    show "refs D ?t ?y = refs D s y" by (auto simp: fun_eq_iff refs_def up_def split: option.split)
    show "0 \<le> c w \<and> c w \<le> ?y w" for w
      using yc by (cases "t_cwd s") (simp_all add: up_le)
    show "vn_fs ops w \<noteq> None" if "t_cwd ?t = Some w \<or> bootfs_vnode ?t = Some w" for w
      using that held_fs [OF a] by auto
  qed simp_all
  show "0 \<le> c u \<and> c u \<le> y u" for u using yc by simp
qed (simp_all add: low_step_def)

lemma change_bootfs_acct:
  assumes a: "acct ops ok b D (case new of None \<Rightarrow> y | Some v \<Rightarrow> up y v) c s" and yc: "\<And>u. 0 \<le> c u \<and> c u \<le> y u"
    and fs: "\<And>v. new = Some v \<Longrightarrow> vn_fs ops v \<noteq> None"
  shows "wpb b (change_bootfs ops new) (\<lambda>_ t. acct ops ok b D y c t) (\<lambda>_ _. False) s"
  unfolding change_bootfs_def wpb_kbind wpb_kget wpb_kmodify
proof (rule wpb_mono [OF drop_old_acct [OF _ yc]])
  let ?t = "s\<lparr>bootfs_vnode := new\<rparr>" and ?y = "case bootfs_vnode s of None \<Rightarrow> y | Some w \<Rightarrow> up y w"
  show "acct ops ok b D ?y c ?t"
  proof (rule acct_move [OF a])
    show "refs D ?t ?y = refs D s (case new of None \<Rightarrow> y | Some v \<Rightarrow> up y v)"
      by (auto simp: fun_eq_iff refs_def up_def split: option.split)
    show "0 \<le> c w \<and> c w \<le> ?y w" for w
      using yc by (cases "bootfs_vnode s") (simp_all add: up_le)
    show "vn_fs ops w \<noteq> None" if "t_cwd ?t = Some w \<or> bootfs_vnode ?t = Some w" for w
      using that held_fs [OF a] fs by auto
  qed simp_all
qed simp_all

lemma setbootfs_acct:
  assumes a: "acct ops ok b D y c s" and path: "0 \<notin> set name"
  shows "wpb b (vfs_setbootfs ops name) (\<lambda>_ t. acct ops ok b D y c t) (\<lambda>_ t. acct ops ok b D y c t) s" (is "wpb b _ ?Q ?R s")
proof -
  note yc = acctD(2,3) [OF a]
  let ?tmp = "take (NAME_MAX - 1) name"
  have body: "wpb b (kbind (vfs_chdir ops p) (\<lambda>_. kbind (vfs_getcurdir ops) (\<lambda>newguy. change_bootfs ops (Some newguy)))) ?Q ?R s"
    if p: "0 \<notin> set p" for p
    unfolding wpb_kbind
  proof (rule wpb_mono [OF chdir_acct [OF a p]])
    fix x :: unit and t
    assume t: "acct ops ok b D y c t \<and> bootfs_vnode t = bootfs_vnode s \<and> t_cwd t \<noteq> None"
    then have at: "acct ops ok b D y c t" by simp
    show "wpb b (vfs_getcurdir ops) (\<lambda>x. wpb b (change_bootfs ops (Some x)) ?Q ?R) ?R t"
    proof (rule wpb_mono [OF gives_acct [OF at getcurdir_st [OF acctD(1) [OF at]]]])
      fix v u
      assume u: "low_step t u \<and> acct ops ok b D (up y v) c u \<and> t_cwd t = Some v"
      show "wpb b (change_bootfs ops (Some v)) ?Q ?R u"
        by (rule wpb_mono [OF change_bootfs_acct]) (use u yc held_fs [OF at] in simp_all)
    qed simp
  qed simp
  have tmp: "0 \<notin> set ?tmp" using path in_set_takeD by fast
  show ?thesis
  proof (cases "strchr ?tmp COLON")
    case None
    have "0 \<notin> set (?tmp @ [COLON])" using tmp by (simp add: COLON_def)
    then show ?thesis unfolding vfs_setbootfs_def Let_def None option.case
      using body by (simp add: wpb_kbind [of b "kret _"] wpb_kret)
  next
    case (Some q)
    then show ?thesis unfolding vfs_setbootfs_def Let_def Some option.case
      using body [OF tmp] a by (simp add: wpb_kbind [of b "if _ then _ else _"] wpb_kret wpb_kfail)
  qed
qed

section \<open>Files\<close>

lemma open_acct:
  assumes a: "acct ops ok b D y c s" and path: "0 \<notin> set path"
  shows "wpb b (vfs_open ops path flags) (\<lambda>v t. acct ops ok b D (up y v) (up c v) t) (\<lambda>_ t. acct ops ok b D y c t) s"
proof (rule wpb_mono [OF open_st [OF acctD(1) [OF a] path]])
  note yc = acctD(2,3) [OF a]
  fix v t
  assume t: "low_step s t \<and> vst ops ok b D (up (refs D s y) v) (up c v) t \<and> (vn_fs ops v = None \<longrightarrow> 0 < refs D s y v)"
  have "0 \<le> up c v u \<and> up c v u \<le> up y v u" for u using yc [of u] up_le [of 0 c u v] by (cases "u = v") (simp_all add: up_other)
  then show "acct ops ok b D (up y v) (up c v) t" using acct_step [where y = "up y v" and c = "up c v"] t refs_up by metis
next
  fix e t
  assume "low_step s t \<and> vst ops ok b D (refs D s y) c t"
  then show "acct ops ok b D y c t" using acct_step acctD(2,3) [OF a] by blast
qed

lemma close_acct:
  assumes a: "acct ops ok b D (up y v) (up c v) s" and yc: "\<And>u. 0 \<le> c u \<and> c u \<le> y u"
  shows "wpb b (vfs_close ops v) (\<lambda>_ t. acct ops ok b D y c t) (\<lambda>_ _. False) s"
  by (rule wpb_mono [OF close_st [OF acctD(1) [OF a, unfolded refs_up] acct_less [OF a yc]]])
    (use yc acct_step in blast)+

lemma on_parent_acct:
  assumes a: "acct ops ok b D y c s" and path: "0 \<notin> set path"
    and law: "\<And>f M r v name. ok b f M r c \<Longrightarrow> 0 < r v \<Longrightarrow> 0 \<notin> set name \<Longrightarrow>
      wpb b (F v name) (\<lambda>_ g. ok b g M r c) (\<lambda>_ g. ok b g M r c) f"
  shows "wpb b (on_parent ops path F) (\<lambda>_ t. acct ops ok b D y c t) (\<lambda>_ t. acct ops ok b D y c t) s"
  by (rule wpb_mono [OF kept_acct [OF a on_parent_st [OF acctD(1) [OF a] path law]]]) simp_all

lemma same_fs_acct:
  assumes a: "acct ops ok b D (up (up y v) w) c s" and yc: "\<And>u. 0 \<le> c u \<and> c u \<le> y u"
    and law: "\<And>f M r. ok b f M r c \<Longrightarrow> 0 < r v \<Longrightarrow> 0 < r w \<Longrightarrow> vn_fs ops v \<noteq> None \<Longrightarrow> vn_fs ops v = vn_fs ops w \<Longrightarrow>
      wpb b F (\<lambda>_ g. ok b g M r c) (\<lambda>_ g. ok b g M r c) f"
  shows "wpb b (same_fs_op ops v w F) (\<lambda>_ t. acct ops ok b D y c t) (\<lambda>_ t. acct ops ok b D y c t) s" (is "wpb b _ ?Q ?R s")
proof -
  let ?y = "up (up y v) w"
  have y1: "0 \<le> c u \<and> c u \<le> up y v u" for u using yc [of u] up_le [of "c u" y u v] by simp
  have rel: "wpb b (kbind (on_low (vop_decref ops w)) (\<lambda>_. kbind (on_low (vop_decref ops v)) (\<lambda>_. kresult x))) ?Q ?R t"
    if t: "acct ops ok b D ?y c t" for x t
    unfolding wpb_kbind
  proof (rule wpb_mono [OF decref_acct [OF t y1]])
    fix z :: unit and u
    assume u: "low_step t u \<and> acct ops ok b D (up y v) c u"
    show "wpb b (on_low (vop_decref ops v)) (\<lambda>_. wpb b (kresult x) ?Q ?R) ?R u"
      by (rule wpb_mono [OF decref_acct [OF conjunct2 [OF u] yc]]) (simp_all add: wpb_kresult split: sum.split)
  qed simp
  have pos: "0 < refs D s ?y v" "0 < refs D s ?y w"
    using order_trans [OF conjunct1 [OF yc] conjunct2 [OF yc], of v] order_trans [OF conjunct1 [OF yc] conjunct2 [OF yc], of w]
    by (auto simp: refs_def up_def)
  have op: "wpb b (if vn_fs ops v = None \<or> vn_fs ops w = None \<or> vn_fs ops v \<noteq> vn_fs ops w then kfail EXDEV else on_low F)
    (\<lambda>_ t. low_step s t \<and> acct ops ok b D ?y c t) (\<lambda>_ t. low_step s t \<and> acct ops ok b D ?y c t) s"
  proof (cases "vn_fs ops v = None \<or> vn_fs ops w = None \<or> vn_fs ops v \<noteq> vn_fs ops w")
    case True
    then show ?thesis using a by (auto simp: wpb_kfail)
  next
    case False
    have k: "wpb b F (\<lambda>_ g. ok b g (mounted s) (refs D s ?y) c) (\<lambda>_ g. ok b g (mounted s) (refs D s ?y) c) (v_fs s)"
      by (rule law [OF vstD(2) [OF acctD(1) [OF a]] pos]) (use False in auto)
    have "wpb b (on_low F) (\<lambda>_ t. low_step s t \<and> vst ops ok b D (refs D s ?y) c t)
      (\<lambda>_ t. low_step s t \<and> vst ops ok b D (refs D s ?y) c t) s"
      using kept [OF acctD(1) [OF a], of F "\<lambda>_. True"] k by simp
    from kept_acct [OF a this] show ?thesis unfolding if_not_P [OF False] .
  qed
  show ?thesis unfolding same_fs_op_def wpb_kbind [of b "kattempt _"] wpb_kattempt
    by (rule wpb_mono [OF op]) (use rel in blast)+
qed

lemma lookparent_acct:
  assumes a: "acct ops ok b D y c s" and path: "0 \<notin> set path"
  shows "wpb b (vfs_lookparent ops path len) (\<lambda>x t. acct ops ok b D (up y (fst x)) c t \<and> 0 \<notin> set (snd x) \<and> isdir (fst x)) (\<lambda>_ t. acct ops ok b D y c t) s"
  by (rule wpb_mono [OF gives_acct [OF a lookparent_st [OF acctD(1) [OF a] path]]]) simp_all

lemma rename_acct:
  assumes a: "acct ops ok b D y c s" and path: "0 \<notin> set p" "0 \<notin> set q"
  shows "wpb b (vfs_rename ops p q) (\<lambda>_ t. acct ops ok b D y c t) (\<lambda>_ t. acct ops ok b D y c t) s" (is "wpb b _ ?Q ?R s")
  unfolding vfs_rename_def Let_def wpb_kbind [of b "vfs_lookparent ops p _"]
proof (rule wpb_mono [OF lookparent_acct [OF a path(1)]])
  have yc: "0 \<le> c u \<and> c u \<le> y u" for u using acctD(2,3) [OF a] by simp
  fix o1 :: "'v \<times> byte list" and t
  assume t: "acct ops ok b D (up y (fst o1)) c t \<and> 0 \<notin> set (snd o1) \<and> isdir (fst o1)"
  show "wpb b (kbind (kattempt (vfs_lookparent ops q (NAME_MAX + 1))) (\<lambda>r. case r of
       Inl e \<Rightarrow> kbind (on_low (vop_decref ops (fst o1))) (\<lambda>_. kfail e)
     | Inr n1 \<Rightarrow> same_fs_op ops (fst o1) (fst n1) (vop_rename ops (fst o1) (snd o1) (fst n1) (snd n1)))) ?Q ?R t"
    unfolding wpb_kbind [of b "kattempt _"] wpb_kattempt
  proof (rule wpb_mono [OF lookparent_acct [OF conjunct1 [OF t] path(2)]])
    fix n1 :: "'v \<times> byte list" and u
    assume u: "acct ops ok b D (up (up y (fst o1)) (fst n1)) c u \<and> 0 \<notin> set (snd n1) \<and> isdir (fst n1)"
    show "wpb b (case Inr n1 of Inl e \<Rightarrow> kbind (on_low (vop_decref ops (fst o1))) (\<lambda>_. kfail e)
       | Inr n1 \<Rightarrow> same_fs_op ops (fst o1) (fst n1) (vop_rename ops (fst o1) (snd o1) (fst n1) (snd n1))) ?Q ?R u"
      unfolding sum.case
      by (rule same_fs_acct [OF conjunct1 [OF u] yc rename_law]) (use t u in auto)
  next
    fix e u
    assume u: "acct ops ok b D (up y (fst o1)) c u"
    show "wpb b (case Inl e of Inl e \<Rightarrow> kbind (on_low (vop_decref ops (fst o1))) (\<lambda>_. kfail e)
       | Inr n1 \<Rightarrow> same_fs_op ops (fst o1) (fst n1) (vop_rename ops (fst o1) (snd o1) (fst n1) (snd n1))) ?Q ?R u"
      unfolding sum.case wpb_kbind wpb_kfail
      by (rule wpb_mono [OF decref_acct [OF u yc]]) simp_all
  qed
qed simp

section \<open>Any sequence of calls\<close>

lemma attempt_acct:
  assumes "wpb b m (\<lambda>_ t. acct ops ok b D y c t) (\<lambda>_ t. acct ops ok b D y c t) s"
    and "y = times_open fds" "c = times_open fds"
  shows "wpb b (kbind (kattempt m) (\<lambda>_. kret fds)) (\<lambda>fds t. acct ops ok b D (times_open fds) (times_open fds) t) (\<lambda>_ _. False) s"
  unfolding wpb_kbind wpb_kattempt wpb_kret by (rule wpb_mono [OF assms(1)]) (simp_all add: assms(2,3))

lemma call_acct:
  assumes a: "acct ops ok b D (times_open fds) (times_open fds) s" and p: "c_paths call"
  shows "wpb b (do_call ops fds call) (\<lambda>fds t. acct ops ok b D (times_open fds) (times_open fds) t) (\<lambda>_ _. False) s"
    (is "wpb b _ ?Q _ s")
proof -
  note att = attempt_acct [OF _ refl refl] and pp = p [unfolded c_paths_def]
  have n: "0 \<le> times_open fds u \<and> times_open fds u \<le> times_open fds u" for fds and u :: 'v by (simp add: times_open_def)
  show ?thesis
  proof (cases call)
    case (Open q fl)
    have "wpb b (vfs_open ops q fl) (\<lambda>v t. ?Q (fds @ [v]) t) (\<lambda>_ t. ?Q fds t) s"
      unfolding times_open_append by (rule open_acct [OF a]) (use pp Open in simp)
    then show ?thesis unfolding Open do_call.simps wpb_kbind wpb_kattempt wpb_kret sum.case .
  next
    case (Close i)
    show ?thesis
    proof (cases "i < length fds")
      case True
      show ?thesis unfolding Close do_call.simps if_P [OF True] wpb_kbind wpb_kret
        by (rule close_acct [OF a [unfolded times_open_remove [OF True]] n])
    qed (use a in \<open>simp add: Close wpb_kret\<close>)
  next
    case (Rename q q')
    then show ?thesis using att [OF rename_acct [OF a]] pp by simp
  next
    case (Remove q)
    then show ?thesis using att [OF on_parent_acct [OF a _ remove_law]] pp by (simp add: vfs_remove_def)
  next
    case (Mkdir q)
    then show ?thesis using att [OF on_parent_acct [OF a _ mkdir_law]] pp by (simp add: vfs_mkdir_def)
  next
    case (Rmdir q)
    then show ?thesis using att [OF on_parent_acct [OF a _ rmdir_law]] pp by (simp add: vfs_rmdir_def)
  next
    case (Symlink x q)
    then show ?thesis using att [OF on_parent_acct [OF a _ symlink_law]] pp by (simp add: vfs_symlink_def)
  next
    case (Chdir q)
    have "wpb b (vfs_chdir ops q) (\<lambda>_ t. ?Q fds t) (\<lambda>_ t. ?Q fds t) s"
      by (rule wpb_mono [OF chdir_acct [OF a]]) (use pp Chdir in simp_all)
    then show ?thesis using att by (simp add: Chdir)
  next
    case ClearCurdir
    show ?thesis unfolding ClearCurdir do_call.simps wpb_kbind wpb_kret
      by (rule wpb_mono [OF clearcurdir_acct [OF a]]) simp_all
  next
    case (SetBootfs q)
    then show ?thesis using att [OF setbootfs_acct [OF a]] pp by simp
  next
    case ClearBootfs
    show ?thesis unfolding ClearBootfs do_call.simps vfs_clearbootfs_def wpb_kbind wpb_kret
      by (rule wpb_mono [OF change_bootfs_acct [OF _ n]]) (use a in simp_all)
  qed
qed

lemma calls_acct:
  assumes "acct ops ok b D (times_open fds) (times_open fds) s" and "\<forall>call \<in> set calls. c_paths call"
  shows "wpb b (do_calls ops fds calls) (\<lambda>fds t. acct ops ok b D (times_open fds) (times_open fds) t) (\<lambda>_ _. False) s"
  using assms
proof (induction calls arbitrary: fds s)
  case (Cons call calls)
  have p: "c_paths call" "\<forall>call \<in> set calls. c_paths call" using Cons.prems(2) by simp_all
  show ?case unfolding do_calls.simps wpb_kbind
    by (rule wpb_mono [OF call_acct [OF Cons.prems(1) p(1)]]) (use Cons.IH p(2) in simp_all)
qed (simp add: wpb_kret)

end

end
