(* ===== verification/VfsVolume.thy ===== *)
theory VfsVolume
  imports SfsMem VfsRefs
begin

text \<open>
  A mounted sfs volume as the VFS layer sees it: consistent, with \<open>r p\<close> references to and \<open>c p\<close> opens
  of the vnode at \<open>p\<close>. Each operation is shown to change the counts as its contract says.
\<close>

section \<open>Counts\<close>

text \<open>A vnode is its address and whether it has the table of directories, which never changes.\<close>

type_synonym vkey = "nat \<times> bool"

definition vn_counts :: "(vkey \<Rightarrow> int) \<Rightarrow> (vkey \<Rightarrow> int) \<Rightarrow> nat \<Rightarrow> sfs_vnode option \<Rightarrow> bool" where
  "vn_counts r c p h \<longleftrightarrow> (\<forall>k. case h of
       Some v \<Rightarrow> if k = (sv_ino v = 1) then r (p, k) = vn_refcount v \<and> c (p, k) = vn_opencount v
         else r (p, k) = 0 \<and> c (p, k) = 0
     | None \<Rightarrow> r (p, k) = 0 \<and> c (p, k) = 0)"

definition counted :: "(vkey \<Rightarrow> int) \<Rightarrow> (vkey \<Rightarrow> int) \<Rightarrow> sfs_fs \<Rightarrow> bool" where
  "counted r c s \<longleftrightarrow> (\<forall>p. vn_counts r c p (sv_heap s p))"

definition sound :: "sfs_fs \<Rightarrow> bool" where
  "sound s \<longleftrightarrow> (\<exists>L N es. vol_ok L N es s)"

definition volume :: "bool \<Rightarrow> (vkey \<Rightarrow> int) \<Rightarrow> (vkey \<Rightarrow> int) \<Rightarrow> sfs_fs \<Rightarrow> bool" where
  "volume b r c s \<longleftrightarrow> sound s \<and> counted r c s \<and> (b \<or> False \<notin> set (kmem s))"

lemma soundI: "vol_ok L N es s \<Longrightarrow> sound s" by (auto simp: sound_def)

lemma vn_counts_some: "vn_counts r c p (Some v) \<longleftrightarrow> r (p, sv_ino v = 1) = vn_refcount v \<and> c (p, sv_ino v = 1) = vn_opencount v
    \<and> r (p, sv_ino v \<noteq> 1) = 0 \<and> c (p, sv_ino v \<noteq> 1) = 0"
  unfolding vn_counts_def option.case all_bool_eq by (cases "sv_ino v = 1") auto

lemma vn_counts_none: "vn_counts r c p None \<longleftrightarrow> (\<forall>k. r (p, k) = 0 \<and> c (p, k) = 0)"
  by (simp add: vn_counts_def)

text \<open>The state after an operation is judged by the heap alone.\<close>

lemma counted_heap:
  assumes c: "counted r c s" and h: "sv_heap t = (sv_heap s)(p := w)" and w: "vn_counts r' c' p w"
    and o: "\<And>q k. q \<noteq> p \<Longrightarrow> r' (q, k) = r (q, k) \<and> c' (q, k) = c (q, k)"
  shows "counted r' c' t"
  unfolding counted_def h
proof
  fix q
  show "vn_counts r' c' q (((sv_heap s)(p := w)) q)"
  proof (cases "q = p")
    case False
    have "vn_counts r c q (sv_heap s q)" using c by (simp add: counted_def)
    then show ?thesis using False o [OF False] by (cases "sv_heap s q") (simp_all add: vn_counts_some vn_counts_none)
  next
    case True
    show ?thesis unfolding True using w by simp
  qed
qed

definition same_vnode :: "sfs_vnode \<Rightarrow> sfs_vnode \<Rightarrow> bool" where
  "same_vnode v w \<longleftrightarrow> vn_refcount w = vn_refcount v \<and> vn_opencount w = vn_opencount v \<and> sv_ino w = sv_ino v"

lemma vn_counts_same: "same_vnode v w \<Longrightarrow> vn_counts r c p (Some w) = vn_counts r c p (Some v)"
  by (simp add: same_vnode_def vn_counts_some)

lemma counted_same:
  assumes c: "counted r c s" and d: "dom (sv_heap t) = dom (sv_heap s)"
    and h: "\<And>q w. sv_heap s q = Some w \<Longrightarrow> \<exists>w'. sv_heap t q = Some w' \<and> same_vnode w w'"
  shows "counted r c t"
  unfolding counted_def
proof
  fix q
  have s: "vn_counts r c q (sv_heap s q)" using c by (simp add: counted_def)
  show "vn_counts r c q (sv_heap t q)"
  proof (cases "sv_heap s q")
    case None
    then have "sv_heap t q = None" using d by (metis domIff)
    then show ?thesis using s None by simp
  next
    case (Some w)
    then obtain w' where "sv_heap t q = Some w'" "same_vnode w w'" using h by blast
    then show ?thesis using s Some vn_counts_same by simp
  qed
qed

lemma volumeD:
  assumes "volume b r c s"
  obtains L N es where "vol_ok L N es s" "counted r c s"
  using assms by (auto simp: volume_def sound_def)

lemma volume_wpb:
  assumes v: "volume b r c s" and m: "wp m Q R s" and k: "kmono id m"
    and "\<And>x t. Q x t \<Longrightarrow> sound t \<and> counted (r' x) (c' x) t \<and> P x"
    and "\<And>e t. R e t \<Longrightarrow> sound t \<and> counted r c t"
  shows "wpb b m (\<lambda>x t. volume b (r' x) (c' x) t \<and> P x) (\<lambda>_ t. volume b r c t) s"
proof -
  have k: "case m s of Done x t \<Rightarrow> kmem_step s t | Fail e t \<Rightarrow> kmem_step s t | Panic \<Rightarrow> True"
    using k [unfolded kmono_def, THEN spec, of s] by (simp cong: outcome.case_cong)
  show ?thesis
  proof (cases "m s")
    case (Done x t)
    then show ?thesis using k m assms(4) [of x t] v
      by (auto simp: wpb_def wp_def volume_def kmem_step_def)
  next
    case (Fail e t)
    then show ?thesis using k m assms(5) [of e t] v
      by (auto simp: wpb_def wp_def volume_def kmem_step_def)
  next
    case Panic
    then show ?thesis using m by (simp add: wp_def)
  qed
qed

lemma volume_wpb0:
  assumes v: "volume b r c s" and m: "wp m Q (\<lambda>_ _. False) s" and k: "kmono id m"
    and q: "\<And>x t. Q x t \<Longrightarrow> sound t \<and> counted (r' x) (c' x) t \<and> P x"
  shows "wpb b m (\<lambda>x t. volume b (r' x) (c' x) t \<and> P x) (\<lambda>_ _. False) s"
proof -
  have "wpb b m (\<lambda>x t. volume b (r' x) (c' x) t \<and> P x) (\<lambda>_ t. volume b r c t) s"
    by (rule volume_wpb [OF v m k q]) simp_all
  then show ?thesis using m by (auto simp: wpb_def wp_def split: outcome.splits)
qed

text \<open>A vnode that is referenced is loaded; that of the root is the only one of a directory.\<close>

lemma ref_loaded:
  assumes "counted r c s" and "0 < r (p, k)"
  obtains v where "sv_heap s p = Some v" "k = (sv_ino v = 1)" "r (p, k) = vn_refcount v" "c (p, k) = vn_opencount v"
    "\<And>k'. k' \<noteq> k \<Longrightarrow> r (p, k') = 0 \<and> c (p, k') = 0"
proof -
  have s: "vn_counts r c p (sv_heap s p)" using assms(1) by (simp add: counted_def)
  then obtain v where v: "sv_heap s p = Some v" using assms(2) by (cases "sv_heap s p") (auto simp: vn_counts_none)
  then have k: "k = (sv_ino v = 1)" using s assms(2) by (cases k; cases "sv_ino v = 1") (auto simp: vn_counts_some)
  show ?thesis by (rule that [OF v k]) (use s v k in \<open>auto simp: vn_counts_def split: if_splits\<close>)
qed

lemma vn_counts_up: "vn_counts r c p (Some v) \<Longrightarrow> k = (sv_ino v = 1) \<Longrightarrow> vn_counts (up r (p, k)) c p (Some (v\<lparr>vn_refcount := vn_refcount v + 1\<rparr>))"
  by (cases "sv_ino v = 1") (simp_all add: vn_counts_some up_def)

lemma vnode_kind:
  assumes ok: "vol_ok L N es s" and v: "sv_heap s p = Some v"
  shows "sv_ino v \<noteq> 1 \<longleftrightarrow> vn_ops v = Some sfs_fileops" "sv_ino v = 1 \<longleftrightarrow> vn_ops v = Some sfs_dirops"
    "sv_ino v = 1 \<Longrightarrow> sfi_type (sv_i v) = SFS_TYPE_DIR" "sv_ino v \<noteq> 1 \<Longrightarrow> sfi_type (sv_i v) = SFS_TYPE_FILE"
proof -
  have ops: "vn_ops v = sfs_ops_of (sfi_type (sv_i v))" using vtab_vnode [OF vol_wfD(2) [OF vol_okD(1) [OF ok]] v] by simp
  have f: "sfi_type (sv_i v) = SFS_TYPE_FILE" if "sv_ino v \<noteq> 1" using vnode_file [OF ok v that] by simp
  have d: "sfi_type (sv_i v) = SFS_TYPE_DIR" if "sv_ino v = 1"
    using root_pre(5) [OF ok, of p v] v that by (simp add: root_vnode_def dir_ok_def)
  show "sv_ino v \<noteq> 1 \<longleftrightarrow> vn_ops v = Some sfs_fileops" "sv_ino v = 1 \<longleftrightarrow> vn_ops v = Some sfs_dirops"
    using f d ops file_ops by (cases "sv_ino v = 1"; auto simp: sfs_ops_of_def SFS_TYPE_DIR_def SFS_TYPE_FILE_def)+
  show "sv_ino v = 1 \<Longrightarrow> sfi_type (sv_i v) = SFS_TYPE_DIR" "sv_ino v \<noteq> 1 \<Longrightarrow> sfi_type (sv_i v) = SFS_TYPE_FILE"
    using f d by blast+
qed

lemma vop_kind:
  assumes ok: "vol_ok L N es s" and v: "sv_heap s p = Some v" and k: "k = (sv_ino v = 1)"
  shows "wp (vop p False m n) Q R s = (if k then wp n Q R s else wp m Q R s)"
proof -
  have rc: "0 < vn_refcount v" "0 \<le> vn_opencount v" using vtab_vnode [OF vol_wfD(2) [OF vol_okD(1) [OF ok]] v] by simp_all
  show ?thesis
  proof (cases k)
    case True
    then show ?thesis using vop_dir [OF v _ rc] vnode_kind(2) [OF ok v] k by simp
  next
    case False
    then have "vn_ops v = Some sfs_fileops" using vnode_kind(1) [OF ok v] k by blast
    then show ?thesis using vop_file [OF v _ rc] False by simp
  qed
qed

section \<open>The common vnode routines\<close>

lemma sound_count:
  assumes ok: "vol_ok L N es s" and v: "sv_heap s p = Some v" and w: "w = v\<lparr>vn_refcount := r, vn_opencount := c\<rparr>"
    and r: "0 < r" "0 \<le> c"
  shows "sound (s\<lparr>sv_heap := (sv_heap s)(p \<mapsto> w)\<rparr>)" (is "sound ?t")
proof (rule soundI)
  have "mem_step s ?t" using mem_step_refl [OF vol_wfD(1) [OF vol_okD(1) [OF ok]]] by simp
  then show "vol_ok L N es ?t"
    by (rule vol_ok_mem [OF ok _ vol_count [OF vol_okD(1) [OF ok] v _ r]]) (simp only: w)
qed

lemma incref_volume:
  assumes a: "volume b r c s" and p: "0 < r (p, k)"
  shows "wpb b (vnode_incref p) (\<lambda>_ t. volume b (up r (p, k)) c t) (\<lambda>_ _. False) s"
proof (rule volumeD [OF a])
  fix L N es
  assume ok: "vol_ok L N es s" and n: "counted r c s"
  obtain v where v: "sv_heap s p = Some v" "k = (sv_ino v = 1)" "r (p, k) = vn_refcount v" "c (p, k) = vn_opencount v"
    by (rule ref_loaded [OF n p])
  have vc: "vn_counts r c p (Some v)" using n [unfolded counted_def, THEN spec, of p] v(1) by simp
  have o: "0 \<le> vn_opencount v" using vtab_vnode [OF vol_wfD(2) [OF vol_okD(1) [OF ok]] v(1)] by simp
  let ?v = "v\<lparr>vn_refcount := vn_refcount v + 1\<rparr>"
  have e: "?v = v\<lparr>vn_refcount := vn_refcount v + 1, vn_opencount := vn_opencount v\<rparr>" by (rule sfs_vnode.equality) simp_all
  let ?t = "s\<lparr>sv_heap := (sv_heap s)(p \<mapsto> ?v)\<rparr>"
  have "sound ?t" by (rule sound_count [OF ok v(1) e]) (use p v o in simp_all)
  moreover have "counted (up r (p, k)) c ?t"
    by (rule counted_heap [OF n _ vn_counts_up [OF vc v(2)]]) (simp_all add: up_other)
  ultimately have "volume b (up r (p, k)) c ?t" using a by (simp add: volume_def)
  then show ?thesis by (simp add: vnode_incref_def wpb_wp wp_sv_upd [OF v(1)])
qed

lemma incopen_volume:
  assumes a: "volume b r c s" and p: "0 < r (p, k)"
  shows "wpb b (vnode_incopen p) (\<lambda>_ t. volume b r (up c (p, k)) t) (\<lambda>_ _. False) s"
proof (rule volumeD [OF a])
  fix L N es
  assume ok: "vol_ok L N es s" and n: "counted r c s"
  obtain v where v: "sv_heap s p = Some v" "k = (sv_ino v = 1)" "r (p, k) = vn_refcount v" "c (p, k) = vn_opencount v"
    by (rule ref_loaded [OF n p])
  have vc: "vn_counts r c p (Some v)" using n [unfolded counted_def, THEN spec, of p] v(1) by simp
  have o: "0 \<le> vn_opencount v" using vtab_vnode [OF vol_wfD(2) [OF vol_okD(1) [OF ok]] v(1)] by simp
  let ?v = "v\<lparr>vn_opencount := vn_opencount v + 1\<rparr>"
  have e: "?v = v\<lparr>vn_refcount := vn_refcount v, vn_opencount := vn_opencount v + 1\<rparr>" by (rule sfs_vnode.equality) simp_all
  let ?t = "s\<lparr>sv_heap := (sv_heap s)(p \<mapsto> ?v)\<rparr>"
  have "sound ?t" by (rule sound_count [OF ok v(1) e]) (use p v o in simp_all)
  moreover have "counted r (up c (p, k)) ?t"
    by (rule counted_heap [OF n, of _ p "Some ?v"])
      (use vc v(2) in \<open>cases "sv_ino v = 1"; simp add: up_def vn_counts_some\<close>)+
  ultimately have "volume b r (up c (p, k)) ?t" using a by (simp add: volume_def)
  then show ?thesis by (simp add: vnode_incopen_def wpb_wp wp_sv_upd [OF v(1)])
qed

lemma decref_volume:
  assumes a: "volume b (up r (p, k)) c s" and p: "0 \<le> r (p, k)" "r (p, k) = 0 \<longrightarrow> c (p, k) = 0"
  shows "wpb b (vnode_decref p) (\<lambda>_ t. volume b r c t) (\<lambda>_ _. False) s"
proof (rule volumeD [OF a])
  fix L N es
  assume ok: "vol_ok L N es s" and n: "counted (up r (p, k)) c s"
  have "0 < up r (p, k) (p, k)" using p by simp
  then obtain v where v: "sv_heap s p = Some v" "k = (sv_ino v = 1)" "up r (p, k) (p, k) = vn_refcount v" "c (p, k) = vn_opencount v"
    by (rule ref_loaded [OF n])
  have vc: "vn_counts (up r (p, k)) c p (Some v)" using n [unfolded counted_def, THEN spec, of p] v(1) by simp
  have rc: "vn_refcount v = r (p, k) + 1" using v(3) by simp
  have oc: "vn_refcount v = 1 \<longrightarrow> vn_opencount v = 0" using rc v(4) p(2) by simp
  have cnt: "counted r c t"
    if "sv_heap t = (sv_heap s)(p := if vn_refcount v = 1 then None else Some (v\<lparr>vn_refcount := vn_refcount v - 1\<rparr>))" for t
  proof (rule counted_heap [OF n that])
    show "vn_counts r c p (if vn_refcount v = 1 then None else Some (v\<lparr>vn_refcount := vn_refcount v - 1\<rparr>))"
      using vc rc v(2) p(2) by (cases "sv_ino v = 1"; cases "r (p, k) = 0") (auto simp: vn_counts_some vn_counts_none all_bool_eq up_def)
  qed (simp add: up_other)
  have "wp (vnode_decref p) (\<lambda>_ t. sound t \<and> counted r c t) (\<lambda>_ _. False) s"
  proof (cases "sv_ino v = 1")
    case False
    show ?thesis by (rule wp_mono [OF vol_decref_wp [OF ok v(1) False oc]]) (use cnt in \<open>auto simp: Let_def intro: soundI\<close>)
  next
    case True
    then have d: "root_vnode p v s" using v(1) by (simp add: root_vnode_def)
    note rt = root_pre(3,4) [OF ok d]
    show ?thesis
    proof (rule wp_mono [OF vnode_decref_wp [OF vol_okD(1) [OF ok] v(1) oc]])
      show "sfi_linkcount (sv_i v) = 0 \<longrightarrow> sfi_type (sv_i v) = SFS_TYPE_FILE" using rt by simp
      fix x :: unit and t
      assume "released L N p v s t"
      then have t: "vol_wf L N t" "keeps N s t"
        "sv_heap t = (sv_heap s)(p := if vn_refcount v = 1 then None else Some (v\<lparr>vn_refcount := vn_refcount v - 1\<rparr>))"
        using rt by (simp_all add: released_def gone_def Let_def)
      show "sound t \<and> counted r c t"
        using soundI [OF vol_ok_keeps [OF ok t(1,2) refl refl vol_okD(2) [OF ok]]] cnt [OF t(3)] by simp
    qed simp
  qed
  from volume_wpb0 [OF a this kmono_vnode(2), of "\<lambda>_. r" "\<lambda>_. c" "\<lambda>_. True"]
  show ?thesis by simp
qed

lemma decopen_volume:
  assumes a: "volume b r (up c (p, k)) s" and p: "0 < r (p, k)" "0 \<le> c (p, k)"
  shows "wpb b (vnode_decopen p) (\<lambda>_ t. volume b r c t) (\<lambda>_ _. False) s"
proof (rule volumeD [OF a])
  fix L N es
  assume ok: "vol_ok L N es s" and n: "counted r (up c (p, k)) s"
  obtain v where v: "sv_heap s p = Some v" "k = (sv_ino v = 1)" "r (p, k) = vn_refcount v" "up c (p, k) (p, k) = vn_opencount v"
    by (rule ref_loaded [OF n p(1)])
  have vc: "vn_counts r (up c (p, k)) p (Some v)" using n [unfolded counted_def, THEN spec, of p] v(1) by simp
  have oc: "vn_opencount v = c (p, k) + 1" using v(4) by simp
  let ?v = "v\<lparr>vn_opencount := c (p, k)\<rparr>"
  have e: "?v = v\<lparr>vn_refcount := vn_refcount v, vn_opencount := c (p, k)\<rparr>" by (rule sfs_vnode.equality) simp_all
  let ?t = "s\<lparr>sv_heap := (sv_heap s)(p \<mapsto> ?v)\<rparr>"
  have st: "sound ?t" by (rule sound_count [OF ok v(1) e]) (use p v in simp_all)
  have vc': "vn_counts r c p (Some ?v)"
    using vc v(2) by (cases "sv_ino v = 1") (auto simp: vn_counts_some up_def)
  have ct: "counted r c ?t"
    by (rule counted_heap [OF n _ vc']) (simp_all add: up_other)
  have sync: "wp (kattempt (VOP_CLOSE p)) (\<lambda>_ u. sound u \<and> counted r c u) (\<lambda>_ _. False) ?t"
  proof -
    obtain L N es where ok': "vol_ok L N es ?t" using st by (auto simp: sound_def)
    have hp: "sv_heap ?t p = Some ?v" by simp
    note wf = vol_okD(1) [OF ok']
    show ?thesis
      unfolding VOP_CLOSE_def sfs_close_def VOP_FSYNC_def sfs_fsync_def wp_kattempt vop_any [OF wf hp]
    proof (rule wp_mono [OF sfs_sync_inode_wp [OF wf hp]], elim conjE)
      fix x :: unit and u
      assume u: "vol_wf L N u" "keeps N ?t u" "sv_heap u = (sv_heap ?t)(p \<mapsto> ?v\<lparr>sv_dirty := False\<rparr>)"
      have "counted r c u"
        by (rule counted_heap [OF ct u(3)]) (use vc' in \<open>simp_all add: vn_counts_some\<close>)
      then show "sound u \<and> counted r c u" using soundI [OF vol_ok_keeps [OF ok' u(1,2) refl refl vol_okD(2) [OF ok']]] by simp
    qed simp
  qed
  have "wp (vnode_decopen p) (\<lambda>_ t. sound t \<and> counted r c t) (\<lambda>_ _. False) s"
    unfolding vnode_decopen_def wp_kbind wp_sv_get [OF v(1)] wp_kassert wp_sv_upd [OF v(1)]
    using sync st ct oc p(2) by (auto simp: wp_kret wp_kbind)
  from volume_wpb0 [OF a this kmono_vnode(4), of "\<lambda>_. r" "\<lambda>_. c" "\<lambda>_. True"]
  show ?thesis by simp
qed

section \<open>The operations through the tables\<close>

text \<open>The vnode an operation hands back, with the table found in it.\<close>

definition tagged :: "(sfs_fs, nat) op \<Rightarrow> (sfs_fs, vkey) op" where
  "tagged m = kbind m (\<lambda>p. kbind (sv_get p) (\<lambda>v. kret (p, vn_ops v = Some sfs_dirops)))"

lemma kmono_tagged [kmonos]: "kmono id m \<Longrightarrow> kmono id (tagged m)"
  unfolding tagged_def by (intro kmonos)

lemma counted_got:
  assumes n: "counted r c s" and g: "vnode_got N a s p t"
  shows "counted (up r (p, a = 1)) c t" "\<exists>v. sv_heap t p = Some v \<and> sv_ino v = a"
proof -
  obtain v where v: "sv_heap t = (sv_heap s)(p \<mapsto> v)" "sv_ino v = a"
    "case sv_heap s p of Some u \<Rightarrow> v = u\<lparr>vn_refcount := vn_refcount u + 1\<rparr>
     | None \<Rightarrow> vn_refcount v = 1 \<and> vn_opencount v = 0 \<and> \<not> sv_dirty v \<and> (\<forall>q w. sv_heap s q = Some w \<longrightarrow> sv_ino w \<noteq> a)"
    using g unfolding vnode_got_def by blast
  show "\<exists>v. sv_heap t p = Some v \<and> sv_ino v = a" using v by simp
  have np: "vn_counts r c p (sv_heap s p)" using n by (simp add: counted_def)
  have "vn_counts (up r (p, a = 1)) c p (Some v)"
  proof (cases "sv_heap s p")
    case None
    then show ?thesis using np v by (auto simp: vn_counts_none vn_counts_some up_def)
  next
    case (Some u)
    then have "v = u\<lparr>vn_refcount := vn_refcount u + 1\<rparr>" "a = sv_ino u" using v by auto
    then show ?thesis using vn_counts_up [of r c p u "sv_ino u = 1"] np Some by simp
  qed
  then show "counted (up r (p, a = 1)) c t" by (rule counted_heap [OF n v(1)]) (simp add: up_other)
qed

lemma wp_tag:
  assumes ok: "vol_ok L N es t" and v: "sv_heap t p = Some v"
  shows "wp (kbind (sv_get p) (\<lambda>v. kret (p, vn_ops v = Some sfs_dirops))) Q R t = Q (p, sv_ino v = 1) t"
  using vnode_kind(2) [OF ok v] by (simp add: wp_kbind wp_sv_get [OF v] wp_kret)

lemma wp_tag_got:
  assumes ok: "vol_ok L N es t" and n: "counted r c s" and g: "vnode_got N a s p t"
  shows "wp (kbind (sv_get p) (\<lambda>v. kret (p, vn_ops v = Some sfs_dirops))) (\<lambda>w t. sound t \<and> counted (up r w) c t) R t"
  using counted_got [OF n g] soundI [OF ok] wp_tag [OF ok] by auto

lemma root_of:
  assumes "sv_heap s p = Some v" and "k = (sv_ino v = 1)" and "k"
  shows "root_vnode p v s"
  using assms by (simp add: root_vnode_def)

lemma lookup_volume:
  assumes a: "volume b r c s" and p: "0 < r (p, k)"
  shows "wpb b (tagged (VOP_LOOKUP p name)) (\<lambda>w t. volume b (up r w) c t) (\<lambda>_ t. volume b r c t) s"
proof (rule volumeD [OF a])
  fix L N es
  assume ok: "vol_ok L N es s" and n: "counted r c s"
  obtain v where v: "sv_heap s p = Some v" "k = (sv_ino v = 1)" by (rule ref_loaded [OF n p])
  let ?Q = "\<lambda>w t. sound t \<and> counted (up r w) c t" and ?R = "\<lambda>_ t. sound t \<and> counted r c t"
  have "wp (tagged (VOP_LOOKUP p name)) ?Q ?R s"
    unfolding tagged_def VOP_LOOKUP_def wp_kbind [of "vop _ _ _ _"] vop_kind [OF ok v]
  proof (cases k)
    case False
    then show "if k then wp (sfs_lookup p name) (\<lambda>x. wp (kbind (sv_get x) (\<lambda>v. kret (x, vn_ops v = Some sfs_dirops))) ?Q ?R) ?R s
      else wp sfs_notdir (\<lambda>x. wp (kbind (sv_get x) (\<lambda>v. kret (x, vn_ops v = Some sfs_dirops))) ?Q ?R) ?R s"
      using n soundI [OF ok] by (simp add: sfs_notdir_def wp_kfail)
  next
    case True
    have ty: "\<not> sfi_type (sv_i v) \<noteq> SFS_TYPE_DIR" using vnode_kind(3) [OF ok v(1)] v(2) True by simp
    show "if k then wp (sfs_lookup p name) (\<lambda>x. wp (kbind (sv_get x) (\<lambda>v. kret (x, vn_ops v = Some sfs_dirops))) ?Q ?R) ?R s
      else wp sfs_notdir (\<lambda>x. wp (kbind (sv_get x) (\<lambda>v. kret (x, vn_ops v = Some sfs_dirops))) ?Q ?R) ?R s"
      unfolding if_P [OF True] sfs_lookup_def wp_kbind [of "sv_get p"] wp_sv_get [OF v(1)] if_not_P [OF ty]
        wp_kbind [of "sfs_lookonce _ _"] wp_kret
    proof (rule wp_mono [OF sfs_lookonce_wp [OF ok root_of [OF v True]]], elim conjE)
      fix x t
      assume t: "vol_ok L N es t" "vnode_got N (sfd_ino (es ! snd x)) s (fst x) t"
      show "wp (kbind (sv_get (fst x)) (\<lambda>v. kret (fst x, vn_ops v = Some sfs_dirops))) ?Q ?R t"
        by (rule wp_tag_got [OF t(1) n t(2)])
    next
      fix e t
      assume t: "vol_ok L N es t \<and> mem_step s t \<and> sv_heap t = sv_heap s
        \<and> (e = ENOENT \<and> dir_map es name = None \<or> e = ENOMEM \<and> dir_map es name \<noteq> None)"
      then show "?R e t" using n soundI by (auto simp: counted_def)
    qed
  qed
  from volume_wpb [OF a this, of "up r" "\<lambda>_. c" "\<lambda>_. True"]
  show ?thesis by (simp add: VOP_LOOKUP_def sfs_notdir_def kmonos)
qed

lemma lookparent_volume:
  assumes a: "volume b r c s" and p: "0 < r (p, k)"
  shows "wpb b (VOP_LOOKPARENT p name len) (\<lambda>w t. volume b (up r (p, k)) c t \<and> w = (p, name) \<and> k) (\<lambda>_ t. volume b r c t) s"
proof (rule volumeD [OF a])
  fix L N es
  assume ok: "vol_ok L N es s" and n: "counted r c s"
  obtain v where v: "sv_heap s p = Some v" "k = (sv_ino v = 1)" by (rule ref_loaded [OF n p])
  have inc: "wpb b (vnode_incref p) (\<lambda>_ t. volume b (up r (p, k)) c t) (\<lambda>_ _. False) s" by (rule incref_volume [OF a p])
  have "wp (vnode_incref p) (\<lambda>_ t. volume b (up r (p, k)) c t) (\<lambda>_ _. False) s"
    using inc by (simp add: wpb_def wp_def vnode_incref_def sv_upd_def v(1))
  then have lp: "wp (sfs_lookparent p name len) (\<lambda>w t. volume b (up r (p, k)) c t \<and> w = (p, name)) (\<lambda>_ t. volume b r c t) s"
    using a unfolding sfs_lookparent_def wp_kbind wp_sv_get [OF v(1)] by (auto simp: wp_kfail wp_kbind wp_kret elim: wp_mono)
  have "wp (VOP_LOOKPARENT p name len) (\<lambda>w t. volume b (up r (p, k)) c t \<and> w = (p, name) \<and> k) (\<lambda>_ t. volume b r c t) s"
    unfolding VOP_LOOKPARENT_def vop_kind [OF ok v]
  proof (cases k)
    case False
    then show "if k then wp (sfs_lookparent p name len) (\<lambda>w t. volume b (up r (p, k)) c t \<and> w = (p, name) \<and> k) (\<lambda>_ t. volume b r c t) s
      else wp sfs_notdir (\<lambda>w t. volume b (up r (p, k)) c t \<and> w = (p, name) \<and> k) (\<lambda>_ t. volume b r c t) s"
      using a by (simp add: sfs_notdir_def wp_kfail)
  qed (use lp in simp)
  then show ?thesis by (rule wpb_wp)
qed

text \<open>The root directory was changed, nothing else in memory.\<close>

lemma counted_upd:
  assumes n: "counted r c s" and v: "sv_heap s p = Some v" and h: "sv_heap t = (sv_heap s)(p \<mapsto> w)" and w: "same_vnode v w"
  shows "counted r c t"
proof (rule counted_heap [OF n h])
  have "vn_counts r c p (sv_heap s p)" using n by (simp add: counted_def)
  then show "vn_counts r c p (Some w)" using vn_counts_same [OF w] v by simp
qed simp

lemma same_vnodeI: "vnode_same v w \<Longrightarrow> same_vnode v w"
  by (simp add: vnode_same_def same_vnode_def)

text \<open>A call on the vnode \<open>p\<close>: a directory is the root, and a file is no directory.\<close>

lemma call_volume:
  assumes a: "volume b r c s" and p: "0 < r (p, k)" and mono: "kmono id (vop p False m n)"
    and fil: "\<And>L N es v. vol_ok L N es s \<Longrightarrow> counted r c s \<Longrightarrow> \<not> k \<Longrightarrow> sv_heap s p = Some v \<Longrightarrow>
        wp m (\<lambda>x t. sound t \<and> counted (r' x) c t \<and> P x) (\<lambda>_ t. sound t \<and> counted r c t) s"
    and dir: "\<And>L N es v. vol_ok L N es s \<Longrightarrow> counted r c s \<Longrightarrow> k \<Longrightarrow> root_vnode p v s \<Longrightarrow>
        wp n (\<lambda>x t. sound t \<and> counted (r' x) c t \<and> P x) (\<lambda>_ t. sound t \<and> counted r c t) s"
  shows "wpb b (vop p False m n) (\<lambda>x t. volume b (r' x) c t \<and> P x) (\<lambda>_ t. volume b r c t) s"
proof (rule volumeD [OF a])
  fix L N es
  assume ok: "vol_ok L N es s" and n: "counted r c s"
  obtain v where v: "sv_heap s p = Some v" "k = (sv_ino v = 1)" by (rule ref_loaded [OF n p])
  have "wp (vop p False m n) (\<lambda>x t. sound t \<and> counted (r' x) c t \<and> P x) (\<lambda>_ t. sound t \<and> counted r c t) s"
    unfolding vop_kind [OF ok v] using fil [OF ok n _ v(1)] dir [OF ok n _ root_of [OF v]] by (cases k) simp_all
  from volume_wpb [OF a this mono, of r' "\<lambda>_. c" P] show ?thesis by simp
qed

lemma notdir_volume: "vol_ok L N es s \<Longrightarrow> counted r c s \<Longrightarrow> wp sfs_notdir Q (\<lambda>_ t. sound t \<and> counted r c t) s"
  by (simp add: sfs_notdir_def wp_kfail soundI)

lemma remove_volume:
  assumes a: "volume b r c s" and p: "0 < r (p, k)"
  shows "wpb b (VOP_REMOVE p name) (\<lambda>_ t. volume b r c t) (\<lambda>_ t. volume b r c t) s"
proof -
  have dir: "wp (sfs_remove p name) (\<lambda>x t. sound t \<and> counted r c t \<and> True) (\<lambda>_ t. sound t \<and> counted r c t) s"
    if ok: "vol_ok L N es s" and n: "counted r c s" and v: "root_vnode p v s" for L N es v
  proof (rule wp_mono [OF sfs_remove_wp [OF ok v]])
    fix x t
    assume "removed L N es p v name s t"
    then have "sound t \<and> (\<exists>d n' dv'. vnode_same v dv' \<and> dom (sv_heap t) = dom (sv_heap s) \<and> (\<forall>q w. sv_heap s q = Some w \<longrightarrow> sv_heap t q =
          (if q = p then Some dv' else if sv_ino w = d then Some (with_links n' w) else Some w)))"
      unfolding removed_def by (elim exE conjE) (intro conjI exI, erule soundI, assumption+)
    then obtain d n' dv' where t: "sound t" "vnode_same v dv'" "dom (sv_heap t) = dom (sv_heap s)"
      "\<forall>q w. sv_heap s q = Some w \<longrightarrow> sv_heap t q =
          (if q = p then Some dv' else if sv_ino w = d then Some (with_links n' w) else Some w)"
      by blast
    have "counted r c t"
      by (rule counted_same [OF n t(3)]) (use t(2,4) v in \<open>auto simp: root_vnode_def vnode_same_def same_vnode_def\<close>)
    then show "sound t \<and> counted r c t \<and> True" using t(1) by simp
  next
    fix e t
    assume "(\<exists>dv'. root_step L N p v dv' es s t \<and> vol_ok L (N(1 \<mapsto> sv_i dv')) es t)
       \<and> (e = ENOENT \<and> dir_map es name = None \<or> (e = ENOMEM \<or> e = ENOSPC) \<and> dir_map es name \<noteq> None)"
    then obtain dv' M where t: "root_step L N p v dv' es s t" "vol_ok L M es t" by blast
    have "counted r c t"
      by (rule counted_upd [OF n]) (use t(1) v in \<open>auto simp: root_step_def root_vnode_def intro: same_vnodeI\<close>)
    then show "sound t \<and> counted r c t" using soundI [OF t(2)] by simp
  qed
  have "wpb b (VOP_REMOVE p name) (\<lambda>x t. volume b r c t \<and> True) (\<lambda>_ t. volume b r c t) s"
    unfolding VOP_REMOVE_def
    by (rule call_volume [where r' = "\<lambda>_. r", OF a p]) (use notdir_volume dir in \<open>auto simp: kmonos sfs_notdir_def\<close>)
  then show ?thesis by simp
qed

lemma rename_volume:
  assumes a: "volume b r c s" and p: "0 < r (p, True)" "0 < r (q, True)" and name: "0 \<notin> set n2"
  shows "wpb b (VOP_RENAME p n1 q n2) (\<lambda>_ t. volume b r c t) (\<lambda>_ t. volume b r c t) s"
proof -
  have dir: "wp (sfs_rename p n1 q n2) (\<lambda>x t. sound t \<and> counted r c t \<and> True) (\<lambda>_ t. sound t \<and> counted r c t) s"
    if ok: "vol_ok L N es s" and n: "counted r c s" and v: "root_vnode p v s" for L N es v
  proof -
    obtain w where w: "sv_heap s q = Some w" "sv_ino w = 1" by (rule ref_loaded [OF n p(2)]) auto
    have e: "q = p" using vtab_inj [OF vol_wfD(2) [OF vol_okD(1) [OF ok]] w(1)] v w(2) by (auto simp: root_vnode_def)
    have cnt: "counted r c t" if m: "vnodes_moved p dv' d F s t" "vnode_same v dv'" "\<And>w. same_vnode w (F w)" for dv' d F t
    proof (rule counted_same [OF n])
      show "dom (sv_heap t) = dom (sv_heap s)" using m(1) by (simp add: vnodes_moved_def)
      show "\<exists>w'. sv_heap t u = Some w' \<and> same_vnode x w'" if "sv_heap s u = Some x" for u x
        using m that v by (auto simp: vnodes_moved_def root_vnode_def same_vnode_def vnode_same_def)
    qed
    show ?thesis unfolding e
    proof (rule wp_mono [OF sfs_rename_wp [OF ok v name]])
      fix x t
      assume "renamed L N es p v n1 n2 s t"
      then obtain dv' M es' d where t: "vol_ok L M es' t" "vnodes_moved p dv' d dirtied s t" "vnode_same v dv'"
        unfolding renamed_def by blast
      have "counted r c t" by (rule cnt [OF t(2,3)]) (simp add: same_vnode_def dirtied_def)
      then show "sound t \<and> counted r c t \<and> True" using soundI [OF t(1)] by simp
    next
      fix er t
      assume "rename_error L N es p v n1 n2 er s t"
      then obtain dv' M where t: "vol_ok L M es t" "vnodes_moved p dv' 1 id s t" "vnode_same v dv'"
        unfolding rename_error_def by blast
      have "counted r c t" by (rule cnt [OF t(2,3)]) (simp add: same_vnode_def)
      then show "sound t \<and> counted r c t" using soundI [OF t(1)] by simp
    qed
  qed
  have "wpb b (VOP_RENAME p n1 q n2) (\<lambda>x t. volume b r c t \<and> True) (\<lambda>_ t. volume b r c t) s"
    unfolding VOP_RENAME_def
    by (rule call_volume [where r' = "\<lambda>_. r", OF a p(1)]) (use notdir_volume dir in \<open>auto simp: kmonos sfs_notdir_def\<close>)
  then show ?thesis by simp
qed

lemma truncate_volume:
  assumes a: "volume b r c s" and p: "0 < r (p, k)"
  shows "wpb b (VOP_TRUNCATE p 0) (\<lambda>_ t. volume b r c t) (\<lambda>_ t. volume b r c t) s"
proof -
  have fil: "wp (sfs_truncate p 0) (\<lambda>x t. sound t \<and> counted r c t \<and> True) (\<lambda>_ t. sound t \<and> counted r c t) s"
    if ok: "vol_ok L N es s" and n: "counted r c s" and v: "sv_heap s p = Some v" and ino: "sv_ino v \<noteq> 1" for L N es v
  proof -
    note wf = vol_okD(1) [OF ok]
    note N = vol_wfD(7) [OF wf v]
    show ?thesis
    proof (rule wp_mono [OF sfs_truncate_wp [OF vol_wfD(1) [OF wf] v vol_wfD(3) [OF wf N]]])
      fix x t
      assume "\<exists>v'. file_shrink p v v' s t \<and> sfi_size (sv_i v') = nat 0
       \<and> fmap (sv_i v') (disk t) = (\<lambda>fb. if trunc_keeps ((nat 0 + 511) div 512) fb then fmap (sv_i v) (disk s) fb else 0)
       \<and> ((nat 0 + 511) div 512 < 15 \<longrightarrow> sfi_indirect (sv_i v') = 0)"
      then obtain w where st: "file_shrink p v w s t" by blast
      note vs = file_shrinkD(5) [OF st]
      have M: "vol_wf L (N(sv_ino v \<mapsto> sv_i w)) t" by (rule vol_file_shrink [OF wf st])
      have kp: "keeps (N(sv_ino v := None)) s t" by (rule keeps_shrink [OF wf st]) (simp split: if_splits)
      have good: "dir_good (N(sv_ino v \<mapsto> sv_i w)) es"
        using vol_okD(2) [OF ok] vnode_file [OF ok v ino] vs by (auto simp: dir_good_def vnode_same_def)
      have h: "sv_heap t = (sv_heap s)(p \<mapsto> w)" using st by (simp add: file_shrink_def)
      have "vol_ok L (N(sv_ino v \<mapsto> sv_i w)) es t"
        by (rule vol_ok_keeps [OF ok M kp _ _ good]) (use ino in simp_all)
      moreover have "counted r c t"
        by (rule counted_upd [OF n v h same_vnodeI [OF vs]])
      ultimately show "sound t \<and> counted r c t \<and> True" using soundI by blast
    qed simp_all
  qed
  have ino: "sv_ino v \<noteq> 1" if "counted r c s" "\<not> k" "sv_heap s p = Some v" for v
    using ref_loaded [OF that(1) p] that(2,3) by (metis option.inject)
  have "wpb b (VOP_TRUNCATE p 0) (\<lambda>x t. volume b r c t \<and> True) (\<lambda>_ t. volume b r c t) s"
    unfolding VOP_TRUNCATE_def
    by (rule call_volume [where r' = "\<lambda>_. r", OF a p]) (use fil ino in \<open>auto simp: kmonos wp_kfail soundI\<close>)
  then show ?thesis by simp
qed

lemma creat_volume:
  assumes a: "volume b r c s" and p: "0 < r (p, k)" and name: "0 \<notin> set name"
  shows "wpb b (tagged (VOP_CREAT p name excl)) (\<lambda>w t. volume b (up r w) c t) (\<lambda>_ t. volume b r c t) s"
proof (rule volumeD [OF a])
  fix L N es
  assume ok: "vol_ok L N es s" and n: "counted r c s"
  obtain v where v: "sv_heap s p = Some v" "k = (sv_ino v = 1)" by (rule ref_loaded [OF n p])
  let ?tag = "\<lambda>x. kbind (sv_get x) (\<lambda>v. kret (x, vn_ops v = Some sfs_dirops))"
  let ?Q = "\<lambda>w t. sound t \<and> counted (up r w) c t" and ?R = "\<lambda>_ t. sound t \<and> counted r c t"
  have dir: "wp (sfs_creat p name excl) (\<lambda>x. wp (?tag x) ?Q ?R) ?R s" if d: "root_vnode p v s"
  proof (rule wp_mono [OF sfs_creat_wp [OF ok d name]])
    fix x t
    assume t: "\<not> excl \<and> opened L N es name x s t \<or> created L N es p v name x s t"
    show "wp (?tag x) ?Q ?R t"
    proof (cases "opened L N es name x s t")
      case True
      then obtain d where "vol_ok L N es t" "vnode_got N d s x t" by (auto simp: opened_def)
      then show ?thesis using wp_tag_got [OF _ n] by blast
    next
      case False
      then have "created L N es p v name x s t" using t by blast
      then obtain bl dv' es' M where c: "vol_ok L M es' t" "bl \<notin> used s" "vnode_same v dv'" "sv_heap s x = None"
        "sv_heap t = (sv_heap s)(p \<mapsto> dv', x \<mapsto> with_links 1 (new_vnode sfs_fileops fresh_file bl True))"
        unfolding created_def by blast
      let ?w = "with_links 1 (new_vnode sfs_fileops fresh_file bl True)"
      have one: "bl \<noteq> 1" using c(2) vol_wfD(6) [OF vol_okD(1) [OF ok] root_pre(3) [OF ok d]] by auto
      let ?m = "s\<lparr>sv_heap := (sv_heap s)(p \<mapsto> dv')\<rparr>"
      have m: "counted r c ?m" by (rule counted_upd [OF n v(1) _ same_vnodeI [OF c(3)]]) simp
      have "sv_heap ?m x = None" using c(4) v(1) by auto
      then have z: "vn_counts r c x None" using m [unfolded counted_def, THEN spec, of x] by simp
      have "vn_counts (up r (x, False)) c x (Some ?w)"
        using z one by (simp add: vn_counts_none vn_counts_some up_def new_vnode_def with_links_def)
      then have "counted (up r (x, False)) c t"
        by (rule counted_heap [OF m, rotated]) (simp_all add: c(5) up_other)
      moreover have "wp (?tag x) ?Q ?R t = ?Q (x, sv_ino ?w = 1) t" by (rule wp_tag [OF c(1)]) (simp add: c(5))
      moreover have "sv_ino ?w = bl" by (simp add: new_vnode_def with_links_def)
      ultimately show ?thesis using one soundI [OF c(1)] by simp
    qed
  next
    fix e t
    assume "create_error L N es p v name excl e s t"
    then obtain L' M dv' where t: "vol_ok L' M es t" "vnode_same v dv'" "sv_heap t = (sv_heap s)(p \<mapsto> dv')"
      unfolding create_error_def by blast
    show "?R e t" using soundI [OF t(1)] counted_upd [OF n v(1) t(3) same_vnodeI [OF t(2)]] by simp
  qed
  have "wp (tagged (VOP_CREAT p name excl)) ?Q ?R s"
    unfolding tagged_def VOP_CREAT_def wp_kbind [of "vop _ _ _ _"] vop_kind [OF ok v]
    using dir [OF root_of [OF v]] n soundI [OF ok] by (simp add: sfs_notdir_def wp_kfail)
  from volume_wpb [OF a this, of "up r" "\<lambda>_. c" "\<lambda>_. True"]
  show ?thesis by (simp add: VOP_CREAT_def sfs_notdir_def kmonos)
qed

text \<open>Operations that change nothing.\<close>

lemma const_volume:
  assumes a: "volume b r c s" and p: "0 < r (p, k)"
    and "\<And>Q R. (\<And>x. Q x s) \<Longrightarrow> (\<And>e. R e s) \<Longrightarrow> wp m Q R s" "\<And>Q R. (\<And>x. Q x s) \<Longrightarrow> (\<And>e. R e s) \<Longrightarrow> wp n Q R s"
  shows "wpb b (vop p False m n) (\<lambda>_ t. volume b r c t) (\<lambda>_ t. volume b r c t) s"
proof (rule volumeD [OF a], rule wpb_wp)
  fix L N es
  assume ok: "vol_ok L N es s" and n: "counted r c s"
  obtain v where v: "sv_heap s p = Some v" "k = (sv_ino v = 1)" by (rule ref_loaded [OF n p])
  show "wp (vop p False m n) (\<lambda>_ t. volume b r c t) (\<lambda>_ t. volume b r c t) s"
    unfolding vop_kind [OF ok v] using assms(3,4) a by simp
qed

lemma quick_ops:
  assumes a: "volume b r c s" and p: "0 < r (p, k)"
  shows "wpb b (VOP_OPEN p flags) (\<lambda>_ t. volume b r c t) (\<lambda>_ t. volume b r c t) s"
    "wpb b (VOP_MKDIR p) (\<lambda>_ t. volume b r c t) (\<lambda>_ t. volume b r c t) s"
    "wpb b (VOP_RMDIR p) (\<lambda>_ t. volume b r c t) (\<lambda>_ t. volume b r c t) s"
    "wpb b (VOP_SYMLINK p) (\<lambda>_ t. volume b r c t) (\<lambda>_ t. volume b r c t) s"
  unfolding VOP_OPEN_def VOP_MKDIR_def VOP_RMDIR_def VOP_SYMLINK_def
  by (rule const_volume [OF a p]; simp add: sfs_notdir_def sfs_unimp_def sfs_open_def sfs_opendir_def wp_kfail wp_kret)+

lemma gettype_volume:
  assumes a: "volume b r c s" and p: "0 < r (p, k)"
  shows "wpb b (VOP_GETTYPE p) (\<lambda>_ t. volume b r c t) (\<lambda>_ t. volume b r c t) s"
proof (rule volumeD [OF a], rule wpb_wp)
  fix L N es
  assume ok: "vol_ok L N es s" and n: "counted r c s"
  obtain v where v: "sv_heap s p = Some v" "k = (sv_ino v = 1)" by (rule ref_loaded [OF n p])
  have "sfi_type (sv_i v) = SFS_TYPE_FILE \<or> sfi_type (sv_i v) = SFS_TYPE_DIR" using vnode_kind(3,4) [OF ok v(1)] by blast
  then have "wp (sfs_gettype p) (\<lambda>_ t. volume b r c t) (\<lambda>_ t. volume b r c t) s"
    unfolding sfs_gettype_def wp_kbind wp_sv_get [OF v(1)] using a by (auto simp: wp_kret)
  then show "wp (VOP_GETTYPE p) (\<lambda>_ t. volume b r c t) (\<lambda>_ t. volume b r c t) s"
    unfolding VOP_GETTYPE_def vop_kind [OF ok v] by simp
qed

text \<open>The root can always be had unless memory runs out; then \<open>sfs_getroot\<close> panics.\<close>

lemma getroot_volume:
  assumes a: "volume b r c s"
  shows "wpb b (tagged sfs_getroot) (\<lambda>w t. volume b (up r w) c t \<and> snd w) (\<lambda>_ _. False) s"
proof (rule volumeD [OF a])
  fix L N es
  assume ok: "vol_ok L N es s" and n: "counted r c s"
  obtain i where i: "N 1 = Some i" using ok unfolding vol_ok_def by blast
  let ?tag = "\<lambda>x. kbind (sv_get x) (\<lambda>v. kret (x, vn_ops v = Some sfs_dirops))"
  let ?Q = "\<lambda>w t. sound t \<and> counted (up r w) c t \<and> snd w"
  have load: "wpb b (sfs_loadvnode SFS_ROOT_LOCATION SFS_TYPE_INVAL) (\<lambda>x. wpb b (?tag x) ?Q (\<lambda>_ _. False)) (\<lambda>_ _. b) s"
    unfolding SFS_ROOT_LOCATION_def
  proof (rule wpb_mono [OF wpb_wp [OF sfs_loadvnode_wp [OF vol_okD(1) [OF ok] i]]])
    fix x t
    assume t: "vol_wf L N t \<and> vnode_got N 1 s x t"
    then have m: "mem_step s t" by (simp add: vnode_got_def)
    have ok': "vol_ok L N es t" by (rule vol_ok_mem [OF ok m]) (use t in simp)
    obtain v where v: "sv_heap t x = Some v" "sv_ino v = 1" using counted_got(2) [OF n] t by blast
    have "counted (up r (x, True)) c t" using counted_got(1) [OF n] t by fastforce
    then have "wp (?tag x) ?Q (\<lambda>_ _. False) t" unfolding wp_tag [OF ok' v(1)] using v(2) soundI [OF ok'] by simp
    then show "wpb b (?tag x) ?Q (\<lambda>_ _. False) t" by (rule wpb_wp)
  next
    fix e t
    assume "vol_wf L N t \<and> load_fail s e t \<and> (\<forall>q w. sv_heap s q = Some w \<longrightarrow> sv_ino w \<noteq> 1)"
    then show b using a by (simp add: load_fail_def volume_def)
  qed
  have pan: "wpb b' kpanic Q R t = b'" for b' Q R and t :: sfs_fs by (simp add: wpb_def kpanic_def)
  have g: "wpb b (tagged sfs_getroot) ?Q (\<lambda>_ _. False) s"
    unfolding tagged_def sfs_getroot_def wpb_kbind [of b "kbind _ _"] wpb_kbind [of b "kattempt _"] wpb_kattempt
    using load by (rule wpb_mono) (simp_all add: pan wpb_kret)
  have k: "case tagged sfs_getroot s of Done x t \<Rightarrow> kmem_step s t | Fail e t \<Rightarrow> kmem_step s t | Panic \<Rightarrow> True"
    using kmono_tagged [OF kmono_vnode(5), unfolded kmono_def, THEN spec, of s] by (simp cong: outcome.case_cong)
  show ?thesis using g k a by (auto simp: wpb_def volume_def kmem_step_def split: outcome.splits)
qed

end
