(* ===== verification/Device.thy ===== *)
theory Device
  imports Vfs
begin

unbundle bit_operations_syntax

text \<open>
  Vnodes of devices: kern/fs/vfs/device.c, and the null device of devnull.c. A driver is its
  \<open>struct device\<close>; the functions of drivers are those of the record, without a state of their own, so
  that \<open>d_io\<close> covers drivers like the null device. The common vnode routines of vnode.c appear once
  more, on the vnodes of devices.
\<close>

section \<open>Devices and their vnodes\<close>

record device =
  d_open :: "nat \<Rightarrow> errno option"          \<comment> \<open>\<open>None\<close> is the result 0\<close>
  d_close :: "errno option"
  d_io :: "(uio, unit) op"
  d_ioctl :: "int \<Rightarrow> nat \<Rightarrow> errno option"
  d_blocks :: nat
  d_blocksize :: nat

record dev_vnode =
  dv_device :: "nat option"                 \<comment> \<open>\<open>vn_data\<close>\<close>
  dv_refcount :: int
  dv_opencount :: int

text \<open>\<open>dv_mem\<close> are the outcomes of the allocations to come.\<close>

record dev_fs =
  devices :: "nat \<Rightarrow> device option"
  dev_vnodes :: "nat \<Rightarrow> dev_vnode option"
  dev_next :: nat
  dv_mem :: "bool list"

definition dv_get :: "nat \<Rightarrow> (dev_fs, dev_vnode) op" where
  "dv_get p = (\<lambda>s. case dev_vnodes s p of None \<Rightarrow> Panic | Some v \<Rightarrow> Done v s)"

definition dv_upd :: "nat \<Rightarrow> (dev_vnode \<Rightarrow> dev_vnode) \<Rightarrow> (dev_fs, unit) op" where
  "dv_upd p f = (\<lambda>s. case dev_vnodes s p of None \<Rightarrow> Panic
      | Some v \<Rightarrow> Done () (s\<lparr>dev_vnodes := (dev_vnodes s)(p \<mapsto> f v)\<rparr>))"

definition dev_at :: "dev_fs \<Rightarrow> dev_vnode \<Rightarrow> device option" where
  "dev_at s v = (case dv_device v of None \<Rightarrow> None | Some d \<Rightarrow> devices s d)"

lemma dev_at_simps [simp]:
  "dev_at (t\<lparr>dev_vnodes := x\<rparr>) v = dev_at t v"
  "dev_at t (v\<lparr>dv_refcount := r\<rparr>) = dev_at t v" "dev_at t (v\<lparr>dv_opencount := c\<rparr>) = dev_at t v"
  by (cases "dv_device v", simp_all add: dev_at_def)+

definition dv_device_of :: "nat \<Rightarrow> (dev_fs, device) op" where
  "dv_device_of p =
     kbind (dv_get p) (\<lambda>v.
     kbind (kget (\<lambda>s. dev_at s v)) (\<lambda>d. case d of None \<Rightarrow> kpanic | Some d \<Rightarrow> kret d))"

text \<open>\<open>VOP_X\<close> of a device: the check of the vnode, then the entry of the table.\<close>

definition dv_check :: "nat \<Rightarrow> bool \<Rightarrow> (dev_fs, unit) op" where
  "dv_check p reclaim =
     kbind (dv_get p) (\<lambda>v.
     if dv_refcount v < 0 then kpanic
     else if dv_refcount v = 0 \<and> \<not> reclaim then kpanic
     else if dv_opencount v < 0 then kpanic
     else kret ())"

definition dv_vop :: "nat \<Rightarrow> (dev_fs, 'a) op \<Rightarrow> (dev_fs, 'a) op" where
  "dv_vop p m = kbind (dv_check p False) (\<lambda>_. m)"

definition of_result :: "errno option \<Rightarrow> ('s, unit) op" where
  "of_result r = (case r of None \<Rightarrow> kret () | Some e \<Rightarrow> kfail e)"

section \<open>The operations (device.c)\<close>

definition S_IFCHR :: nat where "S_IFCHR = 16384"
definition S_IFBLK :: nat where "S_IFBLK = 20480"

definition dev_open :: "nat \<Rightarrow> nat \<Rightarrow> (dev_fs, unit) op" where
  "dev_open v flags =
     kbind (dv_device_of v) (\<lambda>d.
     if flags AND (O_CREAT OR O_TRUNC OR O_EXCL OR O_APPEND) \<noteq> 0 then kfail EINVAL
     else of_result (d_open d flags))"

definition dev_close :: "nat \<Rightarrow> (dev_fs, unit) op" where
  "dev_close v = kbind (dv_device_of v) (\<lambda>d. of_result (d_close d))"

definition dev_reclaim :: "nat \<Rightarrow> (dev_fs, unit) op" where
  "dev_reclaim v = kret ()"

definition on_devfs :: "(dev_fs, 'a) op \<Rightarrow> (dev_fs \<times> uio, 'a) op" where
  "on_devfs m = kzoom fst (\<lambda>t s. (t, snd s)) m"

definition dev_read :: "nat \<Rightarrow> (dev_fs \<times> uio, unit) op" where
  "dev_read v =
     kbind (on_devfs (dv_device_of v)) (\<lambda>d.
     kbind (kget snd) (\<lambda>u.
     kbind (kassert (uio_dir u = UIO_READ)) (\<lambda>_.
     kzoom snd (\<lambda>u s. (fst s, u)) (d_io d))))"

definition dev_write :: "nat \<Rightarrow> (dev_fs \<times> uio, unit) op" where
  "dev_write v =
     kbind (on_devfs (dv_device_of v)) (\<lambda>d.
     kbind (kget snd) (\<lambda>u.
     kbind (kassert (uio_dir u = UIO_WRITE)) (\<lambda>_.
     kzoom snd (\<lambda>u s. (fst s, u)) (d_io d))))"

definition null_io :: "nat \<Rightarrow> (dev_fs, unit) op" where
  "null_io v = kfail EINVAL"

definition dev_ioctl :: "nat \<Rightarrow> int \<Rightarrow> nat \<Rightarrow> (dev_fs, unit) op" where
  "dev_ioctl v code data = kbind (dv_device_of v) (\<lambda>d. of_result (d_ioctl d code data))"

definition dev_gettype :: "nat \<Rightarrow> (dev_fs, nat) op" where
  "dev_gettype v = kbind (dv_device_of v) (\<lambda>d. if d_blocks d > 0 then kret S_IFBLK else kret S_IFCHR)"

definition dev_stat :: "nat \<Rightarrow> (dev_fs, stat) op" where
  "dev_stat v =
     kbind (dv_device_of v) (\<lambda>d.
     kbind (dv_vop v (dev_gettype v)) (\<lambda>t.
     kret \<lparr>st_mode = t, st_nlink = 1,
       st_size = (if d_blocks d > 0 then off32 (int (u32 (d_blocks d * d_blocksize d))) else 0),
       st_blocks = d_blocks d\<rparr>))"

text \<open>
  \<open>dev_tryseek\<close>: the position is signed and the sizes are not, so \<open>%\<close> and \<open>/\<close> are those of unsigned
  numbers. A division by zero traps.
\<close>

definition dev_tryseek :: "nat \<Rightarrow> int \<Rightarrow> (dev_fs, unit) op" where
  "dev_tryseek v pos =
     kbind (dv_device_of v) (\<lambda>d.
     if d_blocks d > 0 then
       if d_blocksize d = 0 then kpanic
       else if to_u32 pos mod d_blocksize d \<noteq> 0 then kfail EINVAL
       else if pos < 0 then kfail EINVAL
       else if to_u32 pos div d_blocksize d \<ge> d_blocks d then kfail EINVAL
       else kret ()
     else kfail ESPIPE)"

definition null_fsync :: "nat \<Rightarrow> (dev_fs, unit) op" where
  "null_fsync v = kret ()"

definition dev_mmap :: "nat \<Rightarrow> (dev_fs, unit) op" where
  "dev_mmap v = kfail EUNIMP"

definition dev_truncate :: "nat \<Rightarrow> int \<Rightarrow> (dev_fs, unit) op" where
  "dev_truncate v len =
     kbind (dv_device_of v) (\<lambda>d.
     if d_blocks d > 0 \<and> off32 (int (u32 (d_blocks d * d_blocksize d))) = len then kret () else kfail EINVAL)"

definition dev_namefile :: "nat \<Rightarrow> (dev_fs \<times> uio, unit) op" where
  "dev_namefile v = kret ()"

definition null_creat :: "nat \<Rightarrow> byte list \<Rightarrow> bool \<Rightarrow> (dev_fs, nat) op" where
  "null_creat v name excl = kfail ENOTDIR"

definition null_symlink :: "nat \<Rightarrow> byte list \<Rightarrow> byte list \<Rightarrow> (dev_fs, unit) op" where
  "null_symlink v contents name = kfail ENOTDIR"

definition null_nameop :: "nat \<Rightarrow> byte list \<Rightarrow> (dev_fs, unit) op" where
  "null_nameop v name = kfail ENOTDIR"

definition null_link :: "nat \<Rightarrow> byte list \<Rightarrow> (dev_fs, unit) op" where
  "null_link v name = kfail ENOTDIR"

definition null_rename :: "nat \<Rightarrow> byte list \<Rightarrow> byte list \<Rightarrow> (dev_fs, unit) op" where
  "null_rename v n1 n2 = kfail ENOTDIR"

definition dv_incref :: "nat \<Rightarrow> (dev_fs, unit) op" where
  "dv_incref v = dv_upd v (\<lambda>v. v\<lparr>dv_refcount := dv_refcount v + 1\<rparr>)"

definition dev_lookup :: "nat \<Rightarrow> byte list \<Rightarrow> (dev_fs, nat) op" where
  "dev_lookup dir pathname =
     (if length pathname > 0 then kfail ENOENT else kbind (dv_incref dir) (\<lambda>_. kret dir))"

definition dev_lookparent :: "nat \<Rightarrow> byte list \<Rightarrow> nat \<Rightarrow> (dev_fs, nat \<times> byte list) op" where
  "dev_lookparent dir pathname buflen = kfail ENOTDIR"

definition dv_kmalloc :: "(dev_fs, bool) op" where
  "dv_kmalloc = (\<lambda>s. case dv_mem s of [] \<Rightarrow> Done True s | b # bs \<Rightarrow> Done b (s\<lparr>dv_mem := bs\<rparr>))"

text \<open>
  The value of \<open>dev_create\<close> is the address of the new vnode, \<open>ENOMEM\<close> stands for \<open>NULL\<close>; \<open>VOP_INIT\<close>
  allocates the lock and its failure is fatal.
\<close>

definition dev_create :: "nat option \<Rightarrow> (dev_fs, nat) op" where
  "dev_create dev =
     kbind dv_kmalloc (\<lambda>ok.
     if \<not> ok then kfail ENOMEM
     else
       kbind (kget dev_next) (\<lambda>p.
       kbind (kmodify (\<lambda>s. s\<lparr>dev_next := p + 1,
         dev_vnodes := (dev_vnodes s)(p \<mapsto> \<lparr>dv_device = dev, dv_refcount = 1, dv_opencount = 0\<rparr>)\<rparr>)) (\<lambda>_.
       kbind dv_kmalloc (\<lambda>ok. if \<not> ok then kpanic else kret p))))"

section \<open>The common vnode routines on these vnodes (vnode.c)\<close>

definition dv_decref :: "nat \<Rightarrow> (dev_fs, unit) op" where
  "dv_decref vn =
     kbind (dv_get vn) (\<lambda>v.
     kbind (kassert (dv_refcount v > 0)) (\<lambda>_.
     if dv_refcount v > 1 then dv_upd vn (\<lambda>v. v\<lparr>dv_refcount := dv_refcount v - 1\<rparr>)
     else kbind (kattempt (kbind (dv_check vn True) (\<lambda>_. dev_reclaim vn))) (\<lambda>_. kret ())))"

definition dv_incopen :: "nat \<Rightarrow> (dev_fs, unit) op" where
  "dv_incopen vn = dv_upd vn (\<lambda>v. v\<lparr>dv_opencount := dv_opencount v + 1\<rparr>)"

definition dv_decopen :: "nat \<Rightarrow> (dev_fs, unit) op" where
  "dv_decopen vn =
     kbind (dv_get vn) (\<lambda>v.
     kbind (kassert (dv_opencount v > 0)) (\<lambda>_.
     kbind (dv_upd vn (\<lambda>v. v\<lparr>dv_opencount := dv_opencount v - 1\<rparr>)) (\<lambda>_.
     if dv_opencount v - 1 > 0 then kret ()
     else kbind (kattempt (dv_vop vn (dev_close vn))) (\<lambda>_. kret ()))))"

section \<open>The null device (devnull.c)\<close>

definition nullio :: "(uio, unit) op" where
  "nullio = kbind (kget uio_dir) (\<lambda>d. kwhen (d = UIO_WRITE) (kmodify (\<lambda>u. u\<lparr>uio_resid := 0\<rparr>)))"

definition nulldev :: device where
  "nulldev = \<lparr>d_open = (\<lambda>openflags. None), d_close = None, d_io = nullio,
     d_ioctl = (\<lambda>code data. Some EINVAL), d_blocks = 0, d_blocksize = 1\<rparr>"

section \<open>Positions\<close>

lemma wp_dv_get: "dev_vnodes s p = Some v \<Longrightarrow> wp (dv_get p) Q R s = Q v s"
  by (simp add: wp_def dv_get_def)

lemma wp_dv_upd: "dev_vnodes s p = Some v \<Longrightarrow> wp (dv_upd p f) Q R s = Q () (s\<lparr>dev_vnodes := (dev_vnodes s)(p \<mapsto> f v)\<rparr>)"
  by (simp add: wp_def dv_upd_def)

lemma wp_dv_device_of:
  "dev_vnodes s p = Some v \<Longrightarrow> dev_at s v = Some d \<Longrightarrow> wp (dv_device_of p) Q R s = Q d s"
  by (simp add: dv_device_of_def wp_kbind wp_dv_get wp_kget wp_kret)

text \<open>A block device accepts exactly the starts of its blocks; other devices accept no position.\<close>

lemma dev_tryseek_wp:
  assumes v: "dev_vnodes s p = Some v" "dev_at s v = Some d" and bs: "0 < d_blocksize d"
    and pos: "- (2 ^ 31) \<le> pos" "pos < 2 ^ 31"
  shows "wp (dev_tryseek p pos)
    (\<lambda>_ t. t = s \<and> 0 < d_blocks d \<and> (\<exists>k < d_blocks d. pos = int (k * d_blocksize d)))
    (\<lambda>e t. t = s \<and> (if d_blocks d = 0 then e = ESPIPE else e = EINVAL \<and> (\<forall>k < d_blocks d. pos \<noteq> int (k * d_blocksize d)))) s"
proof -
  let ?b = "d_blocksize d"
  have hit: "\<exists>k < d_blocks d. pos = int (k * ?b)" if "to_u32 pos mod ?b = 0" "0 \<le> pos" "to_u32 pos div ?b < d_blocks d"
  proof (intro exI conjI)
    have "to_u32 pos = nat pos" using that(2) pos by (simp add: to_u32_def)
    moreover have "to_u32 pos = to_u32 pos div ?b * ?b" using that(1) by auto
    ultimately show "pos = int (to_u32 pos div ?b * ?b)" using that(2) by simp
    show "to_u32 pos div ?b < d_blocks d" by (rule that(3))
  qed
  have miss: "to_u32 pos mod ?b = 0 \<and> 0 \<le> pos \<and> to_u32 pos div ?b < d_blocks d" if k: "k < d_blocks d" "pos = int (k * ?b)" for k
  proof -
    have "0 \<le> pos" using k(2) by simp
    then have "to_u32 pos = nat pos" using pos by (simp add: to_u32_def)
    then have "to_u32 pos = k * ?b" unfolding k(2) nat_int .
    then show ?thesis using k bs \<open>0 \<le> pos\<close> by simp
  qed
  have "wp (if d_blocks d > 0 then
       if ?b = 0 then kpanic
       else if to_u32 pos mod ?b \<noteq> 0 then kfail EINVAL
       else if pos < 0 then kfail EINVAL
       else if to_u32 pos div ?b \<ge> d_blocks d then kfail EINVAL
       else kret ()
     else kfail ESPIPE)
    (\<lambda>_ t. t = s \<and> 0 < d_blocks d \<and> (\<exists>k < d_blocks d. pos = int (k * ?b)))
    (\<lambda>e t. t = s \<and> (if d_blocks d = 0 then e = ESPIPE else e = EINVAL \<and> (\<forall>k < d_blocks d. pos \<noteq> int (k * ?b)))) s"
  proof (cases "to_u32 pos mod ?b = 0 \<and> 0 \<le> pos \<and> to_u32 pos div ?b < d_blocks d")
    case True
    then show ?thesis using hit bs by (simp add: wp_kret)
  next
    case False
    then have no: "\<forall>k < d_blocks d. pos \<noteq> int (k * ?b)" using miss by blast
    have R: "d_blocks d > 0 \<Longrightarrow> s = s \<and> (if d_blocks d = 0 then EINVAL = ESPIPE else EINVAL = EINVAL \<and> (\<forall>k < d_blocks d. pos \<noteq> int (k * ?b)))"
      using no by simp
    show ?thesis using False R bs by (auto simp: wp_kfail simp del: of_nat_mult)
  qed
  then show ?thesis unfolding dev_tryseek_def wp_kbind wp_dv_device_of [OF v] .
qed

end
