(* ===== verification/VfsKernel.thy ===== *)
theory VfsKernel
  imports VfsCalls VfsVolume Device
begin

text \<open>
  The function tables of the kernel: mounted sfs volumes and devices under the VFS layer. A volume has
  the number of the device it is mounted on; a vnode of sfs is its volume, its address and whether its
  table is that of directories. \<open>kf_disks\<close> are the disks that are not mounted.
\<close>

section \<open>The state and the tables\<close>

datatype kvnode = KVn nat nat bool | KDev nat

record kfs =
  kf_vols :: "nat \<Rightarrow> sfs_fs option"
  kf_disks :: "nat \<Rightarrow> lhd option"
  kf_devs :: dev_fs

definition on_vol :: "nat \<Rightarrow> (sfs_fs, 'a) op \<Rightarrow> (kfs, 'a) op" where
  "on_vol d m = (\<lambda>f. case kf_vols f d of None \<Rightarrow> Panic
     | Some s \<Rightarrow> (case m s of Done x t \<Rightarrow> Done x (f\<lparr>kf_vols := (kf_vols f)(d \<mapsto> t)\<rparr>)
         | Fail e t \<Rightarrow> Fail e (f\<lparr>kf_vols := (kf_vols f)(d \<mapsto> t)\<rparr>) | Panic \<Rightarrow> Panic))"

definition on_kdev :: "(dev_fs, 'a) op \<Rightarrow> (kfs, 'a) op" where
  "on_kdev m = kzoom kf_devs (\<lambda>t f. f\<lparr>kf_devs := t\<rparr>) m"

definition vol_vnode :: "nat \<Rightarrow> (sfs_fs, nat) op \<Rightarrow> (kfs, kvnode) op" where
  "vol_vnode d m = kbind (on_vol d (tagged m)) (\<lambda>w. kret (KVn d (fst w) (snd w)))"

definition either :: "kvnode \<Rightarrow> (nat \<Rightarrow> (sfs_fs, 'a) op) \<Rightarrow> (nat \<Rightarrow> (dev_fs, 'a) op) \<Rightarrow> (kfs, 'a) op" where
  "either v m n = (case v of KVn d p k \<Rightarrow> on_vol d (m p) | KDev p \<Rightarrow> on_kdev (n p))"

text \<open>An operation on two vnodes of which the layer has checked that they are of one file system.\<close>

definition on_two :: "kvnode \<Rightarrow> kvnode \<Rightarrow> (nat \<Rightarrow> nat \<Rightarrow> (sfs_fs, unit) op) \<Rightarrow> (nat \<Rightarrow> (dev_fs, unit) op) \<Rightarrow> (kfs, unit) op" where
  "on_two v w m n = (case v of
       KVn d p k \<Rightarrow> (case w of KVn d' q k' \<Rightarrow> if d = d' then on_vol d (m p q) else kpanic | KDev q \<Rightarrow> kpanic)
     | KDev p \<Rightarrow> on_kdev (n p))"

definition kern_ops :: "(kfs, kvnode) fs_ops" where
  "kern_ops = \<lparr>
     vop_incref = (\<lambda>v. either v vnode_incref dv_incref),
     vop_decref = (\<lambda>v. either v vnode_decref dv_decref),
     vop_incopen = (\<lambda>v. either v vnode_incopen dv_incopen),
     vop_decopen = (\<lambda>v. either v vnode_decopen dv_decopen),
     vop_open = (\<lambda>v flags. either v (\<lambda>p. VOP_OPEN p flags) (\<lambda>p. dv_vop p (dev_open p flags))),
     vop_readlink = (\<lambda>v. kzoom fst (\<lambda>f s. (f, snd s)) (either v VOP_READLINK (\<lambda>p. dv_vop p (null_io p)))),
     vop_gettype = (\<lambda>v. either v VOP_GETTYPE (\<lambda>p. dv_vop p (dev_gettype p))),
     vop_truncate = (\<lambda>v len. either v (\<lambda>p. VOP_TRUNCATE p len) (\<lambda>p. dv_vop p (dev_truncate p len))),
     vop_namefile = (\<lambda>v. kzoom fst (\<lambda>f s. (f, snd s)) (either v VOP_NAMEFILE (\<lambda>p. dv_vop p (kret ())))),
     vop_creat = (\<lambda>v name excl. case v of KVn d p k \<Rightarrow> vol_vnode d (VOP_CREAT p name excl)
       | KDev p \<Rightarrow> kbind (on_kdev (dv_vop p (null_creat p name excl))) (\<lambda>q. kret (KDev q))),
     vop_symlink = (\<lambda>v name contents. either v VOP_SYMLINK (\<lambda>p. dv_vop p (null_symlink p name contents))),
     vop_mkdir = (\<lambda>v name. either v VOP_MKDIR (\<lambda>p. dv_vop p (null_nameop p name))),
     vop_link = (\<lambda>v name w. on_two v w (\<lambda>p q. VOP_LINK p name q) (\<lambda>p. dv_vop p (null_link p name))),
     vop_remove = (\<lambda>v name. either v (\<lambda>p. VOP_REMOVE p name) (\<lambda>p. dv_vop p (null_nameop p name))),
     vop_rmdir = (\<lambda>v name. either v VOP_RMDIR (\<lambda>p. dv_vop p (null_nameop p name))),
     vop_rename = (\<lambda>v n1 w n2. on_two v w (\<lambda>p q. VOP_RENAME p n1 q n2) (\<lambda>p. dv_vop p (null_rename p n1 n2))),
     vop_lookup = (\<lambda>v path. case v of KVn d p k \<Rightarrow> vol_vnode d (VOP_LOOKUP p path)
       | KDev p \<Rightarrow> kbind (on_kdev (dv_vop p (dev_lookup p path))) (\<lambda>q. kret (KDev q))),
     vop_lookparent = (\<lambda>v path len. case v of
         KVn d p k \<Rightarrow> kbind (on_vol d (VOP_LOOKPARENT p path len)) (\<lambda>w. kret (KVn d (fst w) True, snd w))
       | KDev p \<Rightarrow> kbind (on_kdev (dv_vop p (dev_lookparent p path len))) (\<lambda>w. kret (KDev (fst w), snd w))),
     vn_fs = (\<lambda>v. case v of KVn d p k \<Rightarrow> Some d | KDev p \<Rightarrow> None),
     fsop_sync = (\<lambda>d. on_vol d sfs_sync),
     fsop_getvolname = (\<lambda>d. kbind (on_vol d sfs_getvolname) (\<lambda>n. kret (Some (cstr n)))),
     fsop_getroot = (\<lambda>d. vol_vnode d sfs_getroot),
     fsop_unmount = (\<lambda>d. kbind (on_vol d sfs_unmount) (\<lambda>_.
       kmodify (\<lambda>f. f\<lparr>kf_disks := (kf_disks f)(d := map_option sfs_device (kf_vols f d)), kf_vols := (kf_vols f)(d := None)\<rparr>))),
     dev_create_vnode = (\<lambda>dev. kbind (on_kdev (dev_create dev)) (\<lambda>p. kret (KDev p))),
     kfree_dev_vnode = (\<lambda>v. case v of KVn d p k \<Rightarrow> kpanic
       | KDev p \<Rightarrow> on_kdev (kmodify (\<lambda>s. s\<lparr>dev_vnodes := (dev_vnodes s)(p := None)\<rparr>)))\<rparr>"

text \<open>
  \<open>sfs_domount\<close> on the disk of device \<open>d\<close>, whose sectors are all a volume can use: other devices are
  refused for their block size. The flags and the list are the outcomes of the allocations.
\<close>

definition kern_domount :: "bool \<Rightarrow> bool \<Rightarrow> bool \<Rightarrow> bool \<Rightarrow> bool list \<Rightarrow> nat \<Rightarrow> (kfs, nat) op" where
  "kern_domount ok1 ok2 ok3 ok4 km d =
     (\<lambda>f. case kf_disks f d of None \<Rightarrow> Fail ENXIO f
        | Some l \<Rightarrow>
            (case sfs_domount SFS_BLOCKSIZE ok1 ok2 ok3 ok4 km l of
               Done s l' \<Rightarrow> Done d (f\<lparr>kf_disks := (kf_disks f)(d := None), kf_vols := (kf_vols f)(d \<mapsto> s)\<rparr>)
             | Fail e l' \<Rightarrow> Fail e (f\<lparr>kf_disks := (kf_disks f)(d \<mapsto> l')\<rparr>)
             | Panic \<Rightarrow> Panic))"

definition sfs_mount :: "bool \<Rightarrow> bool \<Rightarrow> bool \<Rightarrow> bool \<Rightarrow> bool list \<Rightarrow> byte list \<Rightarrow> ((kfs, kvnode) vfs, unit) op" where
  "sfs_mount ok1 ok2 ok3 ok4 km device = vfs_mount device (kern_domount ok1 ok2 ok3 ok4 km)"

text \<open>The beginning of the layer: \<open>vfs_bootstrap\<close>, with the null device under the number \<open>dev\<close>.\<close>

definition devnull_create :: "nat \<Rightarrow> ((kfs, kvnode) vfs, unit) op" where
  "devnull_create dev =
     kbind vfs_kmalloc (\<lambda>ok.
     if \<not> ok then kpanic
     else
       kbind (on_low (on_kdev (kmodify (\<lambda>s. s\<lparr>devices := (devices s)(dev \<mapsto> nulldev)\<rparr>)))) (\<lambda>_.
       kbind (kattempt (vfs_adddev kern_ops [110, 117, 108, 108] dev False)) (\<lambda>result.
       case result of Inl e \<Rightarrow> kpanic | Inr _ \<Rightarrow> kret ())))"

definition vfs_initbootfs :: "((kfs, kvnode) vfs, unit) op" where
  "vfs_initbootfs = kbind vfs_kmalloc (\<lambda>ok. if \<not> ok then kpanic else kret ())"

definition vfs_bootstrap :: "nat \<Rightarrow> ((kfs, kvnode) vfs, unit) op" where
  "vfs_bootstrap dev =
     kbind vfs_kmalloc (\<lambda>ok.
     case array_create ok of
       None \<Rightarrow> kpanic
     | Some a \<Rightarrow>
         kbind (kmodify (\<lambda>s. s\<lparr>knowndevs := a\<rparr>)) (\<lambda>_.
         kbind vfs_kmalloc (\<lambda>ok.
         if \<not> ok then kpanic
         else kbind vfs_initbootfs (\<lambda>_. devnull_create dev))))"

section \<open>The contract\<close>

definition of_vol :: "(kvnode \<Rightarrow> int) \<Rightarrow> nat \<Rightarrow> vkey \<Rightarrow> int" where
  "of_vol r d w = r (KVn d (fst w) (snd w))"

definition devs_counted :: "(kvnode \<Rightarrow> int) \<Rightarrow> (kvnode \<Rightarrow> int) \<Rightarrow> dev_fs \<Rightarrow> bool" where
  "devs_counted r c t \<longleftrightarrow> (\<forall>p. case dev_vnodes t p of None \<Rightarrow> r (KDev p) = 0 \<and> c (KDev p) = 0
     | Some v \<Rightarrow> r (KDev p) = dv_refcount v \<and> c (KDev p) = dv_opencount v \<and> 0 < dv_refcount v \<and> 0 \<le> dv_opencount v
         \<and> dev_at t v \<noteq> None)"

definition kern_ok :: "bool \<Rightarrow> kfs \<Rightarrow> nat set \<Rightarrow> (kvnode \<Rightarrow> int) \<Rightarrow> (kvnode \<Rightarrow> int) \<Rightarrow> bool" where
  "kern_ok b f M r c \<longleftrightarrow> M = dom (kf_vols f)
     \<and> (\<forall>d. case kf_vols f d of Some s \<Rightarrow> volume b (of_vol r d) (of_vol c d) s
          | None \<Rightarrow> \<forall>w. of_vol r d w = 0 \<and> of_vol c d w = 0)
     \<and> devs_counted r c (kf_devs f)"

fun kern_dir :: "kvnode \<Rightarrow> bool" where
  "kern_dir (KVn d p k) = k"
| "kern_dir (KDev p) = False"

section \<open>Volumes\<close>

lemma of_vol_up [simp]: "of_vol (up r (KVn d p k)) d = up (of_vol r d) (p, k)"
  by (auto simp: fun_eq_iff of_vol_def up_def)

lemma of_vol_at: "of_vol r d (p, k) = r (KVn d p k)"
  by (simp add: of_vol_def)

text \<open>Counts that differ only for the vnodes of volume \<open>d\<close>, or for those of devices.\<close>

definition on_vol_only :: "nat \<Rightarrow> (kvnode \<Rightarrow> int) \<Rightarrow> (kvnode \<Rightarrow> int) \<Rightarrow> bool" where
  "on_vol_only d r r' \<longleftrightarrow> (\<forall>e p k. e \<noteq> d \<longrightarrow> r' (KVn e p k) = r (KVn e p k)) \<and> (\<forall>p. r' (KDev p) = r (KDev p))"

lemma on_vol_only [simp]: "on_vol_only d r r" "on_vol_only d r (up r (KVn d p k))" "on_vol_only d (up r (KVn d p k)) r"
  by (auto simp: on_vol_only_def up_def)

lemma devs_counted_cong:
  "(\<And>p. r' (KDev p) = r (KDev p)) \<Longrightarrow> (\<And>p. c' (KDev p) = c (KDev p)) \<Longrightarrow> devs_counted r' c' t = devs_counted r c t"
  unfolding devs_counted_def by (simp cong: option.case_cong)

lemma kern_okD:
  assumes "kern_ok b f M r c"
  shows "M = dom (kf_vols f)" "kf_vols f d = Some s \<Longrightarrow> volume b (of_vol r d) (of_vol c d) s"
    "kf_vols f d = None \<Longrightarrow> r (KVn d p k) = 0 \<and> c (KVn d p k) = 0" "devs_counted r c (kf_devs f)"
proof -
  note k = assms [unfolded kern_ok_def]
  show "M = dom (kf_vols f)" "devs_counted r c (kf_devs f)" using k by simp_all
  have d: "case kf_vols f d of Some s \<Rightarrow> volume b (of_vol r d) (of_vol c d) s
      | None \<Rightarrow> \<forall>w. of_vol r d w = 0 \<and> of_vol c d w = 0" using k by blast
  show "kf_vols f d = Some s \<Longrightarrow> volume b (of_vol r d) (of_vol c d) s" using d by simp
  show "kf_vols f d = None \<Longrightarrow> r (KVn d p k) = 0 \<and> c (KVn d p k) = 0" using d by (simp add: of_vol_def)
qed

lemma kern_ok_vol:
  assumes f: "kern_ok b f M r c" and d: "kf_vols f d = Some s" and t: "volume b (of_vol r' d) (of_vol c' d) t"
    and o: "on_vol_only d r r'" "on_vol_only d c c'"
  shows "kern_ok b (f\<lparr>kf_vols := (kf_vols f)(d \<mapsto> t)\<rparr>) M r' c'"
  unfolding kern_ok_def
proof (intro conjI allI)
  note k = kern_okD [OF f]
  show "M = dom (kf_vols (f\<lparr>kf_vols := (kf_vols f)(d \<mapsto> t)\<rparr>))" using k(1) d by auto
  show "devs_counted r' c' (kf_devs (f\<lparr>kf_vols := (kf_vols f)(d \<mapsto> t)\<rparr>))"
    using k(4) o devs_counted_cong [of r' r c' c] by (simp add: on_vol_only_def)
  fix e
  show "case kf_vols (f\<lparr>kf_vols := (kf_vols f)(d \<mapsto> t)\<rparr>) e of Some s \<Rightarrow> volume b (of_vol r' e) (of_vol c' e) s
      | None \<Rightarrow> \<forall>w. of_vol r' e w = 0 \<and> of_vol c' e w = 0"
  proof (cases "e = d")
    case False
    then have "of_vol r' e = of_vol r e" "of_vol c' e = of_vol c e"
      using o by (auto simp: of_vol_def on_vol_only_def fun_eq_iff)
    then show ?thesis using k(2,3) [of e] False by (auto simp: of_vol_def split: option.split)
  qed (use t in simp)
qed

lemma on_vol_wpb:
  assumes f: "kern_ok b f M r c" and d: "kf_vols f d = Some s"
    and m: "wpb b m (\<lambda>x t. volume b (of_vol (r' x) d) (of_vol (c' x) d) t \<and> P x) (\<lambda>_ t. volume b (of_vol r d) (of_vol c d) t \<and> E) s"
    and o: "\<And>x. on_vol_only d r (r' x)" "\<And>x. on_vol_only d c (c' x)"
  shows "wpb b (on_vol d m) (\<lambda>x g. kern_ok b g M (r' x) (c' x) \<and> P x) (\<lambda>_ g. kern_ok b g M r c \<and> E) f"
proof (cases "m s")
  case (Done x t)
  then have t: "volume b (of_vol (r' x) d) (of_vol (c' x) d) t" "P x" using m by (simp_all add: wpb_def)
  show ?thesis using kern_ok_vol [OF f d t(1) o] t(2) by (simp add: wpb_def on_vol_def d Done)
next
  case (Fail e t)
  then have t: "volume b (of_vol r d) (of_vol c d) t" "E" using m by (simp_all add: wpb_def)
  show ?thesis using kern_ok_vol [OF f d t(1)] t(2) by (simp add: wpb_def on_vol_def d Fail)
next
  case Panic
  then show ?thesis using m by (simp add: wpb_def on_vol_def d)
qed

lemma ref_volume:
  assumes f: "kern_ok b f M r c" and r: "0 < r (KVn d p k)"
  obtains s where "kf_vols f d = Some s" "volume b (of_vol r d) (of_vol c d) s" "0 < of_vol r d (p, k)" "d \<in> M"
proof -
  have "kf_vols f d \<noteq> None" using kern_okD(3) [OF f, of d p k] r by auto
  then obtain s where s: "kf_vols f d = Some s" by blast
  show ?thesis by (rule that [OF s kern_okD(2) [OF f s]]) (use r s kern_okD(1) [OF f] in \<open>auto simp: of_vol_at\<close>)
qed

text \<open>An operation that keeps the counts, and one that hands out a vnode.\<close>

lemma vol_keeps:
  assumes f: "kern_ok b f M r c" and r: "0 < r (KVn d p k)"
    and m: "\<And>s. volume b (of_vol r d) (of_vol c d) s \<Longrightarrow> 0 < of_vol r d (p, k) \<Longrightarrow>
      wpb b m (\<lambda>_ t. volume b (of_vol r d) (of_vol c d) t) (\<lambda>_ t. volume b (of_vol r d) (of_vol c d) t) s"
  shows "wpb b (on_vol d m) (\<lambda>_ g. kern_ok b g M r c) (\<lambda>_ g. kern_ok b g M r c) f"
proof (rule ref_volume [OF f r])
  fix s
  assume s: "kf_vols f d = Some s" "volume b (of_vol r d) (of_vol c d) s" "0 < of_vol r d (p, k)"
  show ?thesis
    using on_vol_wpb [OF f s(1), of m "\<lambda>_. r" "\<lambda>_. c" "\<lambda>_. True" True] m [OF s(2,3)] by simp
qed

lemma vol_gives:
  assumes f: "kern_ok b f M r c" and d: "kf_vols f d = Some s"
    and m: "wpb b (tagged m) (\<lambda>w t. volume b (up (of_vol r d) w) (of_vol c d) t \<and> P (snd w)) (\<lambda>_ t. volume b (of_vol r d) (of_vol c d) t \<and> E) s"
  shows "wpb b (vol_vnode d m) (\<lambda>v g. kern_ok b g M (up r v) c \<and> (\<exists>p k. v = KVn d p k \<and> P k)) (\<lambda>_ g. kern_ok b g M r c \<and> E) f"
proof -
  have u: "of_vol (up r (KVn d (fst w) (snd w))) d = up (of_vol r d) w" for w by simp
  have "wpb b (on_vol d (tagged m)) (\<lambda>w g. kern_ok b g M (up r (KVn d (fst w) (snd w))) c \<and> P (snd w)) (\<lambda>_ g. kern_ok b g M r c \<and> E) f"
    by (rule on_vol_wpb [where c' = "\<lambda>_. c", OF f d]) (use m in \<open>simp_all only: u on_vol_only\<close>)
  then show ?thesis unfolding vol_vnode_def wpb_kbind wpb_kret by (rule wpb_mono) auto
qed

section \<open>Devices\<close>

lemma kern_ok_dev:
  assumes f: "kern_ok b f M r c" and t: "devs_counted r' c' t"
    and o: "\<And>d p k. r' (KVn d p k) = r (KVn d p k) \<and> c' (KVn d p k) = c (KVn d p k)"
  shows "kern_ok b (f\<lparr>kf_devs := t\<rparr>) M r' c'"
proof -
  have e: "of_vol r' = of_vol r" "of_vol c' = of_vol c" using o by (simp_all add: of_vol_def fun_eq_iff)
  show ?thesis using f t unfolding kern_ok_def e by simp
qed

lemma on_kdev_wpb:
  assumes f: "kern_ok b f M r c"
    and m: "wp m (\<lambda>x t. devs_counted (r' x) (c' x) t \<and> P x) (\<lambda>_ t. devs_counted r c t \<and> E) (kf_devs f)"
    and o: "\<And>x d p k. r' x (KVn d p k) = r (KVn d p k) \<and> c' x (KVn d p k) = c (KVn d p k)"
  shows "wpb b (on_kdev m) (\<lambda>x g. kern_ok b g M (r' x) (c' x) \<and> P x) (\<lambda>_ g. kern_ok b g M r c \<and> E) f"
  unfolding on_kdev_def wpb_kzoom
  by (rule wpb_mono [OF wpb_wp [OF m]]) (use kern_ok_dev [OF f] o in auto)

lemma dv_loaded:
  assumes "devs_counted r c t" and "0 < r (KDev p)"
  obtains v d where "dev_vnodes t p = Some v" "r (KDev p) = dv_refcount v" "c (KDev p) = dv_opencount v" "0 < dv_refcount v"
    "0 \<le> dv_opencount v" "dev_at t v = Some d"
proof -
  have c: "case dev_vnodes t p of None \<Rightarrow> r (KDev p) = 0 \<and> c (KDev p) = 0
     | Some v \<Rightarrow> r (KDev p) = dv_refcount v \<and> c (KDev p) = dv_opencount v \<and> 0 < dv_refcount v \<and> 0 \<le> dv_opencount v
         \<and> dev_at t v \<noteq> None" using assms(1) by (simp add: devs_counted_def)
  then obtain v where "dev_vnodes t p = Some v" using assms(2) by (cases "dev_vnodes t p") auto
  with c that show ?thesis by auto
qed

lemma devs_upd:
  assumes t: "devs_counted r c t" and v: "dev_vnodes t p = Some v"
    and w: "r' (KDev p) = dv_refcount w" "c' (KDev p) = dv_opencount w" "0 < dv_refcount w" "0 \<le> dv_opencount w" "dv_device w = dv_device v"
    and o: "\<And>q. q \<noteq> p \<Longrightarrow> r' (KDev q) = r (KDev q) \<and> c' (KDev q) = c (KDev q)"
  shows "devs_counted r' c' (t\<lparr>dev_vnodes := (dev_vnodes t)(p \<mapsto> w)\<rparr>)"
  unfolding devs_counted_def
proof
  note a = t [unfolded devs_counted_def]
  fix q
  show "case dev_vnodes (t\<lparr>dev_vnodes := (dev_vnodes t)(p \<mapsto> w)\<rparr>) q of None \<Rightarrow> r' (KDev q) = 0 \<and> c' (KDev q) = 0
     | Some v \<Rightarrow> r' (KDev q) = dv_refcount v \<and> c' (KDev q) = dv_opencount v \<and> 0 < dv_refcount v \<and> 0 \<le> dv_opencount v
         \<and> dev_at (t\<lparr>dev_vnodes := (dev_vnodes t)(p \<mapsto> w)\<rparr>) v \<noteq> None"
  proof (cases "q = p")
    case True
    have "dev_at t w = dev_at t v" by (simp add: dev_at_def w(5))
    then show ?thesis using True a [THEN spec, of p] v w(1-4) by simp
  next
    case False
    then show ?thesis using a [THEN spec, of q] o [OF False] by (auto split: option.split)
  qed
qed

lemma wp_dv_vop:
  assumes "dev_vnodes t p = Some v" "0 < dv_refcount v" "0 \<le> dv_opencount v"
  shows "wp (dv_vop p m) Q R t = wp m Q R t"
  using assms by (simp add: dv_vop_def dv_check_def wp_kbind wp_dv_get wp_kret)

lemma wp_of_result: "wp (of_result r) Q R s = (case r of None \<Rightarrow> Q () s | Some e \<Rightarrow> R e s)"
  by (simp add: of_result_def wp_kret wp_kfail split: option.split)

text \<open>The operations of a device that leave its vnode as it is.\<close>

lemma dev_keeps:
  assumes f: "kern_ok b f M r c" and r: "0 < r (KDev p)"
    and m: "\<And>v d Q R. dev_vnodes (kf_devs f) p = Some v \<Longrightarrow> dev_at (kf_devs f) v = Some d \<Longrightarrow>
      (\<And>x. P x \<Longrightarrow> Q x (kf_devs f)) \<Longrightarrow> (\<And>e. R e (kf_devs f)) \<Longrightarrow> wp m Q R (kf_devs f)"
  shows "wpb b (on_kdev (dv_vop p m)) (\<lambda>x g. kern_ok b g M r c \<and> P x) (\<lambda>_ g. kern_ok b g M r c) f"
proof (rule dv_loaded [OF kern_okD(4) [OF f] r])
  fix v d
  assume v: "dev_vnodes (kf_devs f) p = Some v" "r (KDev p) = dv_refcount v" "c (KDev p) = dv_opencount v" "0 < dv_refcount v"
    "0 \<le> dv_opencount v" "dev_at (kf_devs f) v = Some d"
  have "wp (dv_vop p m) (\<lambda>x t. devs_counted r c t \<and> P x) (\<lambda>_ t. devs_counted r c t \<and> True) (kf_devs f)"
    unfolding wp_dv_vop [OF v(1,4,5)] by (rule m [OF v(1,6)]) (use kern_okD(4) [OF f] in simp_all)
  from on_kdev_wpb [OF f this] show ?thesis by simp
qed

section \<open>The laws\<close>

lemma vn_fs_kern [simp]: "vn_fs kern_ops (KVn d p k) = Some d" "vn_fs kern_ops (KDev p) = None"
  by (simp_all add: kern_ops_def)

lemma kern_incref:
  assumes f: "kern_ok b f M r c" and v: "0 < r v"
  shows "wpb b (vop_incref kern_ops v) (\<lambda>_ g. kern_ok b g M (up r v) c) (\<lambda>_ _. False) f"
proof (cases v)
  case (KVn d p k)
  obtain s where s: "kf_vols f d = Some s" "volume b (of_vol r d) (of_vol c d) s" "0 < of_vol r d (p, k)"
    by (rule ref_volume [OF f v [unfolded KVn]])
  have "wpb b (on_vol d (vnode_incref p)) (\<lambda>x g. kern_ok b g M (up r v) c \<and> True) (\<lambda>_ g. kern_ok b g M r c \<and> False) f"
    by (rule on_vol_wpb [where r' = "\<lambda>_. up r v" and c' = "\<lambda>_. c", OF f s(1)])
      (use incref_volume [OF s(2,3)] in \<open>simp_all add: KVn\<close>)
  then show ?thesis by (simp add: kern_ops_def either_def KVn)
next
  case (KDev p)
  show ?thesis
  proof (rule dv_loaded [OF kern_okD(4) [OF f] v [unfolded KDev]])
    fix w d
    assume w: "dev_vnodes (kf_devs f) p = Some w" "r (KDev p) = dv_refcount w" "c (KDev p) = dv_opencount w" "0 < dv_refcount w" "0 \<le> dv_opencount w"
    have "wp (dv_incref p) (\<lambda>_ t. devs_counted (up r v) c t \<and> True) (\<lambda>_ t. devs_counted r c t \<and> False) (kf_devs f)"
      unfolding dv_incref_def wp_dv_upd [OF w(1)]
      by (intro conjI devs_upd [OF kern_okD(4) [OF f] w(1)]) (use w in \<open>simp_all add: KDev up_other\<close>)
    from on_kdev_wpb [OF f this] show ?thesis by (simp add: kern_ops_def either_def KDev up_other)
  qed
qed

lemma kern_decref:
  assumes f: "kern_ok b f M (up r v) c" and v: "0 \<le> r v" "r v = 0 \<longrightarrow> c v = 0 \<and> vn_fs kern_ops v \<noteq> None"
  shows "wpb b (vop_decref kern_ops v) (\<lambda>_ g. kern_ok b g M r c) (\<lambda>_ _. False) f"
proof (cases v)
  case (KVn d p k)
  have pos: "0 < up r v (KVn d p k)" using v KVn by simp
  obtain s where s: "kf_vols f d = Some s" "volume b (of_vol (up r v) d) (of_vol c d) s"
    by (rule ref_volume [OF f pos])
  have "wpb b (on_vol d (vnode_decref p)) (\<lambda>x g. kern_ok b g M r c \<and> True) (\<lambda>_ g. kern_ok b g M (up r v) c \<and> False) f"
    by (rule on_vol_wpb [where r' = "\<lambda>_. r" and c' = "\<lambda>_. c", OF f s(1)])
      (use decref_volume [of b "of_vol r d" p k "of_vol c d" s] s(2) v in \<open>simp_all add: KVn of_vol_at\<close>)
  then show ?thesis by (simp add: kern_ops_def either_def KVn)
next
  case (KDev p)
  have pos: "0 < up r v (KDev p)" using v KDev by simp
  show ?thesis
  proof (rule dv_loaded [OF kern_okD(4) [OF f] pos])
    fix w d
    assume w: "dev_vnodes (kf_devs f) p = Some w" "up r v (KDev p) = dv_refcount w" "c (KDev p) = dv_opencount w" "0 < dv_refcount w" "0 \<le> dv_opencount w"
    have rc: "dv_refcount w = r (KDev p) + 1" "0 < r (KDev p)" using w(2) v KDev by (auto simp: less_le)
    have "wp (dv_decref p) (\<lambda>_ t. devs_counted r c t \<and> True) (\<lambda>_ t. devs_counted (up r v) c t \<and> False) (kf_devs f)"
      unfolding dv_decref_def wp_kbind wp_dv_get [OF w(1)] wp_kassert
      using rc by (auto simp: wp_dv_upd [OF w(1)] KDev up_other w(3,5) intro!: devs_upd [OF kern_okD(4) [OF f] w(1)])
    from on_kdev_wpb [OF f this] show ?thesis by (simp add: kern_ops_def either_def KDev up_other)
  qed
qed

lemma kern_incopen:
  assumes f: "kern_ok b f M r c" and v: "0 < r v"
  shows "wpb b (vop_incopen kern_ops v) (\<lambda>_ g. kern_ok b g M r (up c v)) (\<lambda>_ _. False) f"
proof (cases v)
  case (KVn d p k)
  obtain s where s: "kf_vols f d = Some s" "volume b (of_vol r d) (of_vol c d) s" "0 < of_vol r d (p, k)"
    by (rule ref_volume [OF f v [unfolded KVn]])
  have "wpb b (on_vol d (vnode_incopen p)) (\<lambda>x g. kern_ok b g M r (up c v) \<and> True) (\<lambda>_ g. kern_ok b g M r c \<and> False) f"
    by (rule on_vol_wpb [where r' = "\<lambda>_. r" and c' = "\<lambda>_. up c v", OF f s(1)])
      (use incopen_volume [OF s(2,3)] in \<open>simp_all add: KVn\<close>)
  then show ?thesis by (simp add: kern_ops_def either_def KVn)
next
  case (KDev p)
  show ?thesis
  proof (rule dv_loaded [OF kern_okD(4) [OF f] v [unfolded KDev]])
    fix w d
    assume w: "dev_vnodes (kf_devs f) p = Some w" "r (KDev p) = dv_refcount w" "c (KDev p) = dv_opencount w" "0 < dv_refcount w" "0 \<le> dv_opencount w"
    have "wp (dv_incopen p) (\<lambda>_ t. devs_counted r (up c v) t \<and> True) (\<lambda>_ t. devs_counted r c t \<and> False) (kf_devs f)"
      unfolding dv_incopen_def wp_dv_upd [OF w(1)]
      by (intro conjI devs_upd [OF kern_okD(4) [OF f] w(1)]) (use w in \<open>simp_all add: KDev up_other\<close>)
    from on_kdev_wpb [OF f this] show ?thesis by (simp add: kern_ops_def either_def KDev up_other)
  qed
qed

lemma kern_decopen:
  assumes f: "kern_ok b f M r (up c v)" and v: "0 < r v" "0 \<le> c v"
  shows "wpb b (vop_decopen kern_ops v) (\<lambda>_ g. kern_ok b g M r c) (\<lambda>_ _. False) f"
proof (cases v)
  case (KVn d p k)
  obtain s where s: "kf_vols f d = Some s" "volume b (of_vol r d) (of_vol (up c v) d) s" "0 < of_vol r d (p, k)"
    by (rule ref_volume [OF f v(1) [unfolded KVn]])
  have "wpb b (on_vol d (vnode_decopen p)) (\<lambda>x g. kern_ok b g M r c \<and> True) (\<lambda>_ g. kern_ok b g M r (up c v) \<and> False) f"
    by (rule on_vol_wpb [where r' = "\<lambda>_. r" and c' = "\<lambda>_. c", OF f s(1)])
      (use decopen_volume [of b "of_vol r d" "of_vol c d" p k s] s(2,3) v in \<open>simp_all add: KVn of_vol_at\<close>)
  then show ?thesis by (simp add: kern_ops_def either_def KVn)
next
  case (KDev p)
  show ?thesis
  proof (rule dv_loaded [OF kern_okD(4) [OF f] v(1) [unfolded KDev]])
    fix w d
    assume w: "dev_vnodes (kf_devs f) p = Some w" "r (KDev p) = dv_refcount w" "up c v (KDev p) = dv_opencount w" "0 < dv_refcount w"
      "0 \<le> dv_opencount w" "dev_at (kf_devs f) w = Some d"
    have oc: "dv_opencount w = c (KDev p) + 1" using w(3) KDev by simp
    let ?w = "w\<lparr>dv_opencount := dv_opencount w - 1\<rparr>"
    let ?t = "(kf_devs f)\<lparr>dev_vnodes := (dev_vnodes (kf_devs f))(p \<mapsto> ?w)\<rparr>"
    have t: "devs_counted r c ?t"
      by (rule devs_upd [OF kern_okD(4) [OF f] w(1)]) (use w v(2) oc in \<open>simp_all add: KDev up_other\<close>)
    have "wp (kattempt (dv_vop p (dev_close p))) (\<lambda>_ t. devs_counted r c t) (\<lambda>_ _. False) ?t"
    proof -
      have h: "dev_vnodes ?t p = Some ?w" "0 < dv_refcount ?w" "0 \<le> dv_opencount ?w" "dev_at ?t ?w = Some d"
        using w v(2) oc by (simp_all add: KDev)
      show ?thesis unfolding wp_kattempt wp_dv_vop [OF h(1-3)] dev_close_def wp_kbind wp_dv_device_of [OF h(1,4)] wp_of_result
        using t by (simp split: option.split)
    qed
    then have "wp (dv_decopen p) (\<lambda>_ t. devs_counted r c t \<and> True) (\<lambda>_ t. devs_counted r (up c v) t \<and> False) (kf_devs f)"
      unfolding dv_decopen_def wp_kbind wp_dv_get [OF w(1)] wp_kassert wp_dv_upd [OF w(1)]
      using t oc v(2) by (auto simp: wp_kret wp_kbind KDev)
    from on_kdev_wpb [OF f this] show ?thesis by (simp add: kern_ops_def either_def KDev up_other)
  qed
qed

text \<open>Operations that keep the counts of all vnodes.\<close>

lemma either_keeps:
  assumes f: "kern_ok b f M r c" and v: "0 < r v"
    and m: "\<And>d p k s. v = KVn d p k \<Longrightarrow> volume b (of_vol r d) (of_vol c d) s \<Longrightarrow> 0 < of_vol r d (p, k) \<Longrightarrow>
      wpb b (m p) (\<lambda>_ t. volume b (of_vol r d) (of_vol c d) t) (\<lambda>_ t. volume b (of_vol r d) (of_vol c d) t) s"
    and n: "\<And>p w d Q R. v = KDev p \<Longrightarrow> dev_vnodes (kf_devs f) p = Some w \<Longrightarrow> dev_at (kf_devs f) w = Some d \<Longrightarrow>
      (\<And>x. P x \<Longrightarrow> Q x (kf_devs f)) \<Longrightarrow> (\<And>e. R e (kf_devs f)) \<Longrightarrow> wp (n p) Q R (kf_devs f)"
  shows "wpb b (either v m (\<lambda>p. dv_vop p (n p))) (\<lambda>x g. kern_ok b g M r c \<and> (vn_fs kern_ops v = None \<longrightarrow> P x)) (\<lambda>_ g. kern_ok b g M r c) f"
proof (cases v)
  case (KVn d p k)
  show ?thesis unfolding KVn either_def kvnode.case
    using vol_keeps [OF f v [unfolded KVn] m [OF KVn]] by simp
next
  case (KDev p)
  have "wpb b (on_kdev (dv_vop p (n p))) (\<lambda>x g. kern_ok b g M r c \<and> P x) (\<lambda>_ g. kern_ok b g M r c) f"
    by (rule dev_keeps [OF f v [unfolded KDev]]) (rule n [OF KDev])
  then show ?thesis unfolding KDev either_def kvnode.case by simp
qed

lemma kern_keeps:
  assumes f: "kern_ok b f M r c" and v: "0 < r v"
  shows "wpb b (vop_open kern_ops v flags) (\<lambda>_ g. kern_ok b g M r c) (\<lambda>_ g. kern_ok b g M r c) f"
    "wpb b (vop_truncate kern_ops v 0) (\<lambda>_ g. kern_ok b g M r c) (\<lambda>_ g. kern_ok b g M r c) f"
    "wpb b (vop_remove kern_ops v name) (\<lambda>_ g. kern_ok b g M r c) (\<lambda>_ g. kern_ok b g M r c) f"
    "wpb b (vop_mkdir kern_ops v name) (\<lambda>_ g. kern_ok b g M r c) (\<lambda>_ g. kern_ok b g M r c) f"
    "wpb b (vop_rmdir kern_ops v name) (\<lambda>_ g. kern_ok b g M r c) (\<lambda>_ g. kern_ok b g M r c) f"
    "wpb b (vop_symlink kern_ops v name contents) (\<lambda>_ g. kern_ok b g M r c) (\<lambda>_ g. kern_ok b g M r c) f"
proof -
  note e = either_keeps [OF f v, where P = "\<lambda>_. True"]
  show "wpb b (vop_open kern_ops v flags) (\<lambda>_ g. kern_ok b g M r c) (\<lambda>_ g. kern_ok b g M r c) f"
    using e [of "\<lambda>p. VOP_OPEN p flags" "\<lambda>p. dev_open p flags"]
    by (simp add: kern_ops_def quick_ops dev_open_def wp_kbind wp_dv_device_of wp_kfail wp_of_result split: option.split)
  show "wpb b (vop_truncate kern_ops v 0) (\<lambda>_ g. kern_ok b g M r c) (\<lambda>_ g. kern_ok b g M r c) f"
    using e [of "\<lambda>p. VOP_TRUNCATE p 0" "\<lambda>p. dev_truncate p 0"]
    by (simp add: kern_ops_def truncate_volume dev_truncate_def wp_kbind wp_dv_device_of wp_kfail wp_kret)
  show "wpb b (vop_remove kern_ops v name) (\<lambda>_ g. kern_ok b g M r c) (\<lambda>_ g. kern_ok b g M r c) f"
    using e [of "\<lambda>p. VOP_REMOVE p name" "\<lambda>p. null_nameop p name"] by (simp add: kern_ops_def remove_volume null_nameop_def wp_kfail)
  show "wpb b (vop_mkdir kern_ops v name) (\<lambda>_ g. kern_ok b g M r c) (\<lambda>_ g. kern_ok b g M r c) f"
    using e [of VOP_MKDIR "\<lambda>p. null_nameop p name"] by (simp add: kern_ops_def quick_ops null_nameop_def wp_kfail)
  show "wpb b (vop_rmdir kern_ops v name) (\<lambda>_ g. kern_ok b g M r c) (\<lambda>_ g. kern_ok b g M r c) f"
    using e [of VOP_RMDIR "\<lambda>p. null_nameop p name"] by (simp add: kern_ops_def quick_ops null_nameop_def wp_kfail)
  show "wpb b (vop_symlink kern_ops v name contents) (\<lambda>_ g. kern_ok b g M r c) (\<lambda>_ g. kern_ok b g M r c) f"
    using e [of VOP_SYMLINK "\<lambda>p. null_symlink p name contents"] by (simp add: kern_ops_def quick_ops null_symlink_def wp_kfail)
qed

lemma kern_gettype:
  assumes f: "kern_ok b f M r c" and v: "0 < r v"
  shows "wpb b (vop_gettype kern_ops v) (\<lambda>t g. kern_ok b g M r c \<and> (t = S_IFDIR \<longrightarrow> vn_fs kern_ops v \<noteq> None)) (\<lambda>_ g. kern_ok b g M r c) f"
proof -
  have "wpb b (either v VOP_GETTYPE (\<lambda>p. dv_vop p (dev_gettype p)))
    (\<lambda>t g. kern_ok b g M r c \<and> (vn_fs kern_ops v = None \<longrightarrow> t \<noteq> S_IFDIR)) (\<lambda>_ g. kern_ok b g M r c) f"
    by (rule either_keeps [OF f v])
      (simp_all add: gettype_volume dev_gettype_def wp_kbind wp_dv_device_of wp_kret S_IFBLK_def S_IFCHR_def S_IFDIR_def)
  moreover have "vop_gettype kern_ops v = either v VOP_GETTYPE (\<lambda>p. dv_vop p (dev_gettype p))" by (simp add: kern_ops_def)
  ultimately show ?thesis by (simp add: wpb_def split: outcome.splits) blast
qed

text \<open>Operations that hand out a vnode.\<close>

lemma kern_lookup:
  assumes f: "kern_ok b f M r c" and v: "0 < r v"
  shows "wpb b (vop_lookup kern_ops v path) (\<lambda>w g. kern_ok b g M (up r w) c \<and> (vn_fs kern_ops w = None \<longrightarrow> 0 < r w))
    (\<lambda>_ g. kern_ok b g M r c) f"
proof (cases v)
  case (KVn d p k)
  obtain s where s: "kf_vols f d = Some s" "volume b (of_vol r d) (of_vol c d) s" "0 < of_vol r d (p, k)"
    by (rule ref_volume [OF f v [unfolded KVn]])
  have "wpb b (vol_vnode d (VOP_LOOKUP p path)) (\<lambda>v g. kern_ok b g M (up r v) c \<and> (\<exists>p k. v = KVn d p k \<and> True)) (\<lambda>_ g. kern_ok b g M r c \<and> True) f"
    by (rule vol_gives [OF f s(1)]) (use lookup_volume [OF s(2,3)] in simp)
  then have "wpb b (vol_vnode d (VOP_LOOKUP p path)) (\<lambda>w g. kern_ok b g M (up r w) c \<and> (vn_fs kern_ops w = None \<longrightarrow> 0 < r w)) (\<lambda>_ g. kern_ok b g M r c) f"
    by (rule wpb_mono) auto
  then show ?thesis by (simp add: kern_ops_def KVn)
next
  case (KDev p)
  show ?thesis
  proof (rule dv_loaded [OF kern_okD(4) [OF f] v [unfolded KDev]])
    fix w d
    assume w: "dev_vnodes (kf_devs f) p = Some w" "r (KDev p) = dv_refcount w" "c (KDev p) = dv_opencount w" "0 < dv_refcount w" "0 \<le> dv_opencount w"
    have "wp (dv_vop p (dev_lookup p path)) (\<lambda>q t. devs_counted (up r v) c t \<and> q = p) (\<lambda>_ t. devs_counted r c t \<and> True) (kf_devs f)"
      unfolding wp_dv_vop [OF w(1,4,5)] dev_lookup_def dv_incref_def
      using w kern_okD(4) [OF f]
      by (auto simp: wp_kfail wp_kbind wp_kret wp_dv_upd KDev up_other intro!: devs_upd [OF kern_okD(4) [OF f] w(1)])
    from on_kdev_wpb [OF f this]
    have "wpb b (on_kdev (dv_vop p (dev_lookup p path))) (\<lambda>q g. kern_ok b g M (up r v) c \<and> q = p) (\<lambda>_ g. kern_ok b g M r c) f"
      by (simp add: KDev up_other)
    then have "wpb b (kbind (on_kdev (dv_vop p (dev_lookup p path))) (\<lambda>q. kret (KDev q)))
      (\<lambda>w g. kern_ok b g M (up r w) c \<and> (vn_fs kern_ops w = None \<longrightarrow> 0 < r w)) (\<lambda>_ g. kern_ok b g M r c) f"
      unfolding wpb_kbind wpb_kret by (rule wpb_mono) (use v KDev in auto)
    then show ?thesis by (simp add: kern_ops_def KDev)
  qed
qed

lemma kern_creat:
  assumes f: "kern_ok b f M r c" and v: "0 < r v" and name: "0 \<notin> set name"
  shows "wpb b (vop_creat kern_ops v name excl) (\<lambda>w g. kern_ok b g M (up r w) c \<and> (vn_fs kern_ops w = None \<longrightarrow> 0 < r w))
    (\<lambda>_ g. kern_ok b g M r c) f"
proof (cases v)
  case (KVn d p k)
  obtain s where s: "kf_vols f d = Some s" "volume b (of_vol r d) (of_vol c d) s" "0 < of_vol r d (p, k)"
    by (rule ref_volume [OF f v [unfolded KVn]])
  have "wpb b (vol_vnode d (VOP_CREAT p name excl)) (\<lambda>v g. kern_ok b g M (up r v) c \<and> (\<exists>p k. v = KVn d p k \<and> True)) (\<lambda>_ g. kern_ok b g M r c \<and> True) f"
    by (rule vol_gives [OF f s(1)]) (use creat_volume [OF s(2,3) name] in simp)
  then have "wpb b (vol_vnode d (VOP_CREAT p name excl)) (\<lambda>w g. kern_ok b g M (up r w) c \<and> (vn_fs kern_ops w = None \<longrightarrow> 0 < r w)) (\<lambda>_ g. kern_ok b g M r c) f"
    by (rule wpb_mono) auto
  then show ?thesis by (simp add: kern_ops_def KVn)
next
  case (KDev p)
  have "wpb b (on_kdev (dv_vop p (null_creat p name excl))) (\<lambda>x g. kern_ok b g M r c \<and> False) (\<lambda>_ g. kern_ok b g M r c) f"
    by (rule dev_keeps [OF f v [unfolded KDev]]) (simp add: null_creat_def wp_kfail)
  then show ?thesis unfolding KDev by (simp add: kern_ops_def wpb_kbind) (erule wpb_mono; simp)
qed

lemma kern_lookparent:
  assumes f: "kern_ok b f M r c" and v: "0 < r v" and path: "0 \<notin> set path"
  shows "wpb b (vop_lookparent kern_ops v path len)
    (\<lambda>w g. kern_ok b g M (up r (fst w)) c \<and> (vn_fs kern_ops (fst w) = None \<longrightarrow> 0 < r (fst w)) \<and> 0 \<notin> set (snd w) \<and> kern_dir (fst w))
    (\<lambda>_ g. kern_ok b g M r c) f"
proof (cases v)
  case (KVn d p k)
  obtain s where s: "kf_vols f d = Some s" "volume b (of_vol r d) (of_vol c d) s" "0 < of_vol r d (p, k)"
    by (rule ref_volume [OF f v [unfolded KVn]])
  have "wpb b (on_vol d (VOP_LOOKPARENT p path len)) (\<lambda>w g. kern_ok b g M (up r v) c \<and> (w = (p, path) \<and> k)) (\<lambda>_ g. kern_ok b g M r c \<and> True) f"
    by (rule on_vol_wpb [where r' = "\<lambda>_. up r v" and c' = "\<lambda>_. c", OF f s(1)])
      (use lookparent_volume [OF s(2,3)] in \<open>simp_all add: KVn\<close>)
  then have "wpb b (kbind (on_vol d (VOP_LOOKPARENT p path len)) (\<lambda>w. kret (KVn d (fst w) True, snd w)))
    (\<lambda>w g. kern_ok b g M (up r (fst w)) c \<and> (vn_fs kern_ops (fst w) = None \<longrightarrow> 0 < r (fst w)) \<and> 0 \<notin> set (snd w) \<and> kern_dir (fst w))
    (\<lambda>_ g. kern_ok b g M r c) f"
    unfolding wpb_kbind wpb_kret by (rule wpb_mono) (use path KVn in auto)
  then show ?thesis by (simp add: kern_ops_def KVn)
next
  case (KDev p)
  have "wpb b (on_kdev (dv_vop p (dev_lookparent p path len))) (\<lambda>x g. kern_ok b g M r c \<and> False) (\<lambda>_ g. kern_ok b g M r c) f"
    by (rule dev_keeps [OF f v [unfolded KDev]]) (simp add: dev_lookparent_def wp_kfail)
  then show ?thesis unfolding KDev by (simp add: kern_ops_def wpb_kbind) (erule wpb_mono; simp)
qed

lemma kern_rename:
  assumes f: "kern_ok b f M r c" and v: "0 < r v" "0 < r w" and fs: "vn_fs kern_ops v \<noteq> None" "vn_fs kern_ops v = vn_fs kern_ops w"
    and d: "kern_dir v" "kern_dir w" and name: "0 \<notin> set n2"
  shows "wpb b (vop_rename kern_ops v n1 w n2) (\<lambda>_ g. kern_ok b g M r c) (\<lambda>_ g. kern_ok b g M r c) f"
proof -
  obtain d p where p: "v = KVn d p True" using fs(1) d(1) by (cases v) auto
  obtain q where q: "w = KVn d q True" using fs(2) d(2) p by (cases w) auto
  have "0 < of_vol r d (q, True)" using v(2) q by (simp add: of_vol_at)
  then have "wpb b (on_vol d (VOP_RENAME p n1 q n2)) (\<lambda>_ g. kern_ok b g M r c) (\<lambda>_ g. kern_ok b g M r c) f"
    by (intro vol_keeps [OF f v(1) [unfolded p]] rename_volume [OF _ _ _ name])
  then show ?thesis by (simp add: kern_ops_def on_two_def p q)
qed

lemma kern_getvolname:
  assumes f: "kern_ok b f M r c" and d: "d \<in> M"
  shows "wpb b (fsop_getvolname kern_ops d) (\<lambda>_ g. g = f) (\<lambda>_ _. False) f"
proof -
  obtain s where s: "kf_vols f d = Some s" using kern_okD(1) [OF f] d by blast
  then have "f\<lparr>kf_vols := (kf_vols f)(d \<mapsto> s)\<rparr> = f" by (simp add: fun_upd_idem)
  then show ?thesis by (simp add: kern_ops_def wpb_def kbind_def on_vol_def s sfs_getvolname_def kget_def kret_def)
qed

lemma kern_getroot:
  assumes f: "kern_ok b f M r c" and d: "d \<in> M"
  shows "wpb b (fsop_getroot kern_ops d) (\<lambda>w g. kern_ok b g M (up r w) c \<and> vn_fs kern_ops w = Some d) (\<lambda>_ _. False) f"
proof -
  obtain s where s: "kf_vols f d = Some s" using kern_okD(1) [OF f] d by blast
  have "wpb b (vol_vnode d sfs_getroot) (\<lambda>v g. kern_ok b g M (up r v) c \<and> (\<exists>p k. v = KVn d p k \<and> k)) (\<lambda>_ g. kern_ok b g M r c \<and> False) f"
    by (rule vol_gives [where P = "\<lambda>k. k", OF f s]) (use getroot_volume [OF kern_okD(2) [OF f s]] in simp)
  then have "wpb b (vol_vnode d sfs_getroot) (\<lambda>w g. kern_ok b g M (up r w) c \<and> vn_fs kern_ops w = Some d) (\<lambda>_ _. False) f"
    by (rule wpb_mono) auto
  then show ?thesis by (simp add: kern_ops_def)
qed

lemma kern_mounted:
  assumes f: "kern_ok b f M r c" and v: "0 < r v" "vn_fs kern_ops v = Some d"
  shows "d \<in> M"
proof (cases v)
  case (KVn e p k)
  show ?thesis by (rule ref_volume [OF f v(1) [unfolded KVn]]) (use v(2) KVn in simp)
qed (use v(2) in simp)

interpretation kern: file_layer kern_ops kern_ok kern_dir
  by unfold_locales
    (rule kern_incref kern_decref kern_incopen kern_decopen kern_keeps kern_gettype kern_lookup kern_lookparent kern_creat
       kern_rename kern_getvolname kern_getroot kern_mounted; assumption)+

section \<open>The whole layer\<close>

text \<open>
  \<open>vfs_ok b D s fds\<close>: the volumes are consistent, and the references to each vnode are one for each time
  it is open in \<open>fds\<close>, one if it is the current directory, one if it is the root of the boot file system,
  and one if it is the vnode of a device (\<open>D\<close>). Without \<open>b\<close>, no allocation to come fails on a volume.
\<close>

definition vfs_ok :: "bool \<Rightarrow> kvnode set \<Rightarrow> (kfs, kvnode) vfs \<Rightarrow> kvnode list \<Rightarrow> bool" where
  "vfs_ok b D s fds \<longleftrightarrow> acct kern_ops kern_ok b D (times_open fds) (times_open fds) s"

definition all_unloaded :: "(kfs, kvnode) vfs \<Rightarrow> bool" where
  "all_unloaded s \<longleftrightarrow> (\<forall>d vol. kf_vols (v_fs s) d = Some vol \<longrightarrow> sv_heap vol = (\<lambda>_. None) \<and> array_getnum (sfs_vnodes vol) = 0)"

lemma refs_loaded:
  assumes s: "vfs_ok b D s fds" and d: "kf_vols (v_fs s) d = Some vol" and v: "sv_heap vol p = Some v"
  shows "vn_refcount v = refs D s (times_open fds) (KVn d p (sv_ino v = 1))" "vn_opencount v = times_open fds (KVn d p (sv_ino v = 1))"
    "0 < vn_refcount v"
proof -
  note vs = acctD(1) [OF s [unfolded vfs_ok_def]]
  have vol: "volume b (of_vol (refs D s (times_open fds)) d) (of_vol (times_open fds) d) vol"
    by (rule kern_okD(2) [OF vstD(2) [OF vs] d])
  then have ct: "counted (of_vol (refs D s (times_open fds)) d) (of_vol (times_open fds) d) vol" by (simp add: volume_def)
  show "vn_refcount v = refs D s (times_open fds) (KVn d p (sv_ino v = 1))" "vn_opencount v = times_open fds (KVn d p (sv_ino v = 1))"
    using ct [unfolded counted_def, THEN spec, of p] unfolding v vn_counts_some of_vol_at by simp_all
  obtain L N es where ok: "vol_ok L N es vol" using vol by (auto simp: volume_def sound_def)
  show "0 < vn_refcount v" using vtab_vnode [OF vol_wfD(2) [OF vol_okD(1) [OF ok]] v] by simp
qed

lemma unloaded:
  assumes s: "vfs_ok b D s []" and dev: "\<forall>v \<in> D. vn_fs kern_ops v = None" and none: "t_cwd s = None" "bootfs_vnode s = None"
  shows "all_unloaded s"
  unfolding all_unloaded_def
proof (intro allI impI conjI)
  fix d vol
  assume d: "kf_vols (v_fs s) d = Some vol"
  have "sv_heap vol p = None" for p
  proof (rule ccontr)
    assume "sv_heap vol p \<noteq> None"
    then obtain v where v: "sv_heap vol p = Some v" by blast
    have "KVn d p (sv_ino v = 1) \<notin> D" using dev by auto
    then have "refs D s (times_open []) (KVn d p (sv_ino v = 1)) = 0" using none by (simp add: refs_def times_open_def)
    then show False using refs_loaded(1,3) [OF s d v] by simp
  qed
  then show h: "sv_heap vol = (\<lambda>_. None)" by blast
  obtain L N es where ok: "vol_ok L N es vol"
    using kern_okD(2) [OF vstD(2) [OF acctD(1) [OF s [unfolded vfs_ok_def]]] d] by (auto simp: volume_def sound_def)
  have vt: "array_wf (sfs_vnodes vol)" "set (array_list (sfs_vnodes vol)) = dom (sv_heap vol)"
    using vol_wfD(2) [OF vol_okD(1) [OF ok]] by (simp_all add: vtab_wf_def)
  then have "array_list (sfs_vnodes vol) = []" using h by simp
  then show "array_getnum (sfs_vnodes vol) = 0" using array_length [OF vt(1)] by (simp add: array_getnum_def)
qed

lemma calls_wpb:
  assumes s: "vfs_ok b D s fds" and dev: "\<forall>v \<in> D. vn_fs kern_ops v = None" and p: "\<forall>call \<in> set calls. c_paths call"
  shows "wpb b (do_calls kern_ops fds calls)
    (\<lambda>fds' t. vfs_ok b D t fds' \<and> (fds' = [] \<longrightarrow> t_cwd t = None \<longrightarrow> bootfs_vnode t = None \<longrightarrow> all_unloaded t)) (\<lambda>_ _. False) s"
  by (rule wpb_mono [OF kern.calls_acct [OF s [unfolded vfs_ok_def] p]])
    (use unloaded [OF _ dev] in \<open>auto simp: vfs_ok_def\<close>)

section \<open>Bootstrap\<close>

lemma wp_vfs_kmalloc: "v_mem s = [] \<Longrightarrow> wp vfs_kmalloc Q R s = Q True s"
  by (simp add: wp_def vfs_kmalloc_def)

lemma wp_dv_kmalloc: "dv_mem s = [] \<Longrightarrow> wp dv_kmalloc Q R s = Q True s"
  by (simp add: wp_def dv_kmalloc_def)

lemma wp_on_low: "wp (on_low m) Q R s = wp m (\<lambda>x f. Q x (s\<lparr>v_fs := f\<rparr>)) (\<lambda>e f. R e (s\<lparr>v_fs := f\<rparr>)) (v_fs s)"
  by (simp add: on_low_def wp_kzoom)

lemma wp_on_kdev: "wp (on_kdev m) Q R f = wp m (\<lambda>x t. Q x (f\<lparr>kf_devs := t\<rparr>)) (\<lambda>e t. R e (f\<lparr>kf_devs := t\<rparr>)) (kf_devs f)"
  by (simp add: on_kdev_def wp_kzoom)

lemma adddev_empty_wp:
  assumes s: "v_mem s = []" "dv_mem (kf_devs (v_fs s)) = []" "array_wf (knowndevs s)" "array_list (knowndevs s) = []"
    and p: "p = dev_next (kf_devs (v_fs s))"
  shows "wp (vfs_adddev kern_ops name dev False)
    (\<lambda>_ t. array_wf (knowndevs t)
       \<and> devs t = [\<lparr>kd_name = name, kd_rawname = None, kd_device = Some dev, kd_vnode = KDev p, kd_fs = None\<rparr>]
       \<and> bootfs_vnode t = bootfs_vnode s \<and> t_cwd t = t_cwd s
       \<and> v_fs t = (v_fs s)\<lparr>kf_devs := (kf_devs (v_fs s))\<lparr>dev_next := p + 1,
           dev_vnodes := (dev_vnodes (kf_devs (v_fs s)))(p \<mapsto> \<lparr>dv_device = Some dev, dv_refcount = 1, dv_opencount = 0\<rparr>)\<rparr>\<rparr>) (\<lambda>_ _. False) s"
proof -
  have num: "num_devs t = (\<lambda>u. Done 0 u) t" if "array_list (knowndevs t) = []" "array_wf (knowndevs t)" for t :: "(kfs, kvnode) vfs"
    using that array_length [OF that(2)] by (simp add: num_devs_def kget_def array_getnum_def)
  have cv: "dev_create_vnode kern_ops d = kbind (on_kdev (dev_create d)) (\<lambda>p. kret (KDev p))" for d
    by (simp add: kern_ops_def)
  have bad: "wp (badnames kern_ops n1 n2 n3) Q R t = Q False t"
    if "array_list (knowndevs t) = []" "array_wf (knowndevs t)" for n1 n2 n3 Q R t
    using num [OF that] by (simp add: badnames_def wp_def kbind_def kret_def)
  have add: "wp (on_devs (array_add True kd)) Q R t"
    if "array_wf (knowndevs t)" "\<And>a. array_wf a \<Longrightarrow> array_list a = array_list (knowndevs t) @ [kd] \<Longrightarrow> Q () (t\<lparr>knowndevs := a\<rparr>)"
    for kd Q R and t :: "(kfs, kvnode) vfs"
    unfolding on_devs_def wp_kzoom by (rule wp_mono [OF array_add_wp [OF that(1)]]) (use that(2) in simp_all)
  show ?thesis
    unfolding vfs_adddev_def vfs_doadd_def
    by (simp add: cv dev_create_def wp_kbind wp_vfs_kmalloc wp_dv_kmalloc wp_on_low wp_on_kdev wp_kattempt wp_kret wp_kget
        wp_kmodify bad s p)
      (rule add, simp_all add: s devs_def p)
qed

text \<open>
  After \<open>vfs_bootstrap\<close> with memory available the table holds the null device and the invariant holds.
\<close>

lemma bootstrap_wp:
  assumes s: "v_mem s = []" "bootfs_vnode s = None" "t_cwd s = None"
    and f: "kf_vols (v_fs s) = Map.empty" "dev_vnodes (kf_devs (v_fs s)) = Map.empty" "dv_mem (kf_devs (v_fs s)) = []"
    and p: "p = dev_next (kf_devs (v_fs s))"
  shows "wp (vfs_bootstrap dev)
    (\<lambda>_ t. vfs_ok False {KDev p} t []
       \<and> devs t = [\<lparr>kd_name = [110, 117, 108, 108], kd_rawname = None, kd_device = Some dev, kd_vnode = KDev p, kd_fs = None\<rparr>])
    (\<lambda>_ _. False) s"
proof -
  let ?a = "\<lparr>a_num = 0, a_max = 0, a_v = None\<rparr> :: kvnode knowndev karray"
  let ?g = "(v_fs s)\<lparr>kf_devs := (kf_devs (v_fs s))\<lparr>devices := (devices (kf_devs (v_fs s)))(dev \<mapsto> nulldev)\<rparr>\<rparr>"
  let ?s = "s\<lparr>knowndevs := ?a, v_fs := ?g\<rparr>"
  have cr: "array_create True = Some ?a" by (simp add: array_create_def)
  have a: "array_wf ?a" "array_list ?a = []" using array_create_list [OF cr] by simp_all
  have "wp (vfs_adddev kern_ops [110, 117, 108, 108] dev False) (\<lambda>x t. vfs_ok False {KDev p} t []
       \<and> devs t = [\<lparr>kd_name = [110, 117, 108, 108], kd_rawname = None, kd_device = Some dev, kd_vnode = KDev p, kd_fs = None\<rparr>])
    (\<lambda>_ _. False) ?s"
  proof (rule wp_mono [OF adddev_empty_wp])
    show "v_mem ?s = []" "dv_mem (kf_devs (v_fs ?s)) = []" "array_wf (knowndevs ?s)" "array_list (knowndevs ?s) = []"
      "p = dev_next (kf_devs (v_fs ?s))" using s f a p by simp_all
    fix x :: unit and t
    let ?kd = "\<lparr>kd_name = [110, 117, 108, 108], kd_rawname = None, kd_device = Some dev, kd_vnode = KDev p, kd_fs = None\<rparr>"
    assume t: "array_wf (knowndevs t) \<and> devs t = [?kd] \<and> bootfs_vnode t = bootfs_vnode ?s \<and> t_cwd t = t_cwd ?s
       \<and> v_fs t = (v_fs ?s)\<lparr>kf_devs := (kf_devs (v_fs ?s))\<lparr>dev_next := p + 1,
           dev_vnodes := (dev_vnodes (kf_devs (v_fs ?s)))(p \<mapsto> \<lparr>dv_device = Some dev, dv_refcount = 1, dv_opencount = 0\<rparr>)\<rparr>\<rparr>"
    have r: "refs {KDev p} t (times_open []) = (\<lambda>v. if v = KDev p then 1 else 0)"
      using t s by (simp add: fun_eq_iff refs_def times_open_def)
    have z: "times_open [] = (\<lambda>v :: kvnode. 0)" by (simp add: fun_eq_iff times_open_def)
    have m: "mounted t = {}" using t by (simp add: mounted_def)
    have "kern_ok False (v_fs t) {} (\<lambda>v. if v = KDev p then 1 else 0) (\<lambda>v. 0)"
      using t f by (simp add: kern_ok_def of_vol_def devs_counted_def dev_at_def)
    moreover have "table_ok {KDev p} t" using t by (simp add: table_ok_def)
    moreover have "held kern_ops (\<lambda>v. if v = KDev p then 1 else 0) t" using t s by (simp add: held_def)
    moreover have "counts_ok kern_ops {KDev p} (\<lambda>v. if v = KDev p then 1 else 0) (\<lambda>v. 0)" by (auto simp: counts_ok_def split: if_splits)
    ultimately have "vfs_ok False {KDev p} t []"
      using r [unfolded z] unfolding vfs_ok_def acct_def vst_def m z by simp
    then show "vfs_ok False {KDev p} t [] \<and> devs t = [?kd]" using t by simp
  qed simp
  moreover have "wp kpanic Q R = (\<lambda>_. False)" for Q :: "unit \<Rightarrow> (kfs, kvnode) vfs \<Rightarrow> bool" and R
    by (simp add: fun_eq_iff wp_def kpanic_def)
  ultimately show ?thesis
    unfolding vfs_bootstrap_def vfs_initbootfs_def devnull_create_def
    by (simp add: wp_kbind wp_vfs_kmalloc wp_kmodify wp_kret wp_kattempt wp_on_low wp_on_kdev cr s)
qed

section \<open>Names in the table of devices\<close>

definition volume_name :: "kfs \<Rightarrow> nat \<Rightarrow> byte list" where
  "volume_name f d = (case kf_vols f d of None \<Rightarrow> [] | Some vol \<Rightarrow> cstr (sp_volname (sfs_super vol)))"

definition entry_names :: "kfs \<Rightarrow> kvnode knowndev \<Rightarrow> byte list list" where
  "entry_names f kd = (case kd_fs kd of None \<Rightarrow> [] | Some d \<Rightarrow> [volume_name f d])
     @ (case kd_rawname kd of None \<Rightarrow> [] | Some n \<Rightarrow> [n]) @ [kd_name kd]"

definition table_names :: "(kfs, kvnode) vfs \<Rightarrow> byte list list" where
  "table_names s = concat (map (entry_names (v_fs s)) (devs s))"

text \<open>Every file system of the table is mounted.\<close>

definition table_mounted :: "(kfs, kvnode) vfs \<Rightarrow> bool" where
  "table_mounted s \<longleftrightarrow> array_wf (knowndevs s) \<and> mounted s \<subseteq> dom (kf_vols (v_fs s))"

lemma on_vol_getvolname:
  assumes "kf_vols (v_fs s) d = Some vol"
  shows "wpb b (on_low (fsop_getvolname kern_ops d)) Q R s = Q (Some (volume_name (v_fs s) d)) s"
proof -
  let ?f = "v_fs s"
  have "?f\<lparr>kf_vols := (kf_vols ?f)(d \<mapsto> vol)\<rparr> = ?f" using assms by (simp add: fun_upd_idem)
  then have o: "on_vol d sfs_getvolname ?f = Done (sp_volname (sfs_super vol)) ?f"
    by (simp add: on_vol_def assms sfs_getvolname_def kget_def)
  have g: "fsop_getvolname kern_ops d = kbind (on_vol d sfs_getvolname) (\<lambda>n. kret (Some (cstr n)))" by (simp add: kern_ops_def)
  show ?thesis unfolding wpb_on_low unfolding g wpb_def by (simp add: kbind_def o kret_def volume_name_def assms)
qed

lemma samestring3_iff: "samestring3 (Some x) a b c \<longleftrightarrow> Some x \<in> {a, b, c}" "\<not> samestring3 None a b c"
  by (auto simp: samestring3_def samestring_def)

lemma badnames_loop_wpb:
  assumes t: "table_mounted s" and i: "\<forall>i \<in> set is. i < length (devs s)"
  shows "wpb b (badnames_loop kern_ops n1 n2 n3 is) Q R s
    = Q (\<exists>i \<in> set is. \<exists>x \<in> set (entry_names (v_fs s) (devs s ! i)). Some x \<in> {n1, n2, n3}) s"
  using i
proof (induction "is")
  case (Cons i "is")
  have a: "array_wf (knowndevs s)" and l: "i < length (devs s)" using t Cons.prems by (simp_all add: table_mounted_def)
  let ?kd = "devs s ! i" and ?vol = "\<lambda>kd. case kd_fs kd of None \<Rightarrow> False | Some d \<Rightarrow> Some (volume_name (v_fs s) d) \<in> {n1, n2, n3}"
  have vol: "wpb b (case kd_fs ?kd of None \<Rightarrow> kret False
      | Some fs \<Rightarrow> kbind (on_low (fsop_getvolname kern_ops fs)) (\<lambda>volname. kret (samestring3 volname n1 n2 n3))) Q' R s = Q' (?vol ?kd) s" for Q'
  proof (cases "kd_fs ?kd")
    case (Some d)
    then have "d \<in> mounted s" using nth_mem [OF l] by (auto simp: mounted_def)
    then obtain vol where "kf_vols (v_fs s) d = Some vol" using t by (auto simp: table_mounted_def)
    then show ?thesis unfolding Some option.case wpb_kbind by (subst on_vol_getvolname) (simp_all only: wpb_kret samestring3_iff)
  qed (simp add: wpb_kret)
  have raw: "samestring3 (kd_rawname ?kd) n1 n2 n3 = (case kd_rawname ?kd of None \<Rightarrow> False | Some x \<Rightarrow> Some x \<in> {n1, n2, n3})"
    by (cases "kd_rawname ?kd") (simp_all add: samestring3_iff)
  have here: "(\<exists>x \<in> set (entry_names (v_fs s) ?kd). Some x \<in> {n1, n2, n3})
      = (?vol ?kd \<or> samestring3 (kd_rawname ?kd) n1 n2 n3 \<or> samestring3 (Some (kd_name ?kd)) n1 n2 n3)"
    unfolding raw samestring3_iff entry_names_def by (auto split: option.splits)
  have IH: "wpb b (badnames_loop kern_ops n1 n2 n3 is) Q R s
    = Q (\<exists>i \<in> set is. \<exists>x \<in> set (entry_names (v_fs s) (devs s ! i)). Some x \<in> {n1, n2, n3}) s"
    by (rule Cons.IH) (use Cons.prems in simp)
  show ?case
    unfolding badnames_loop.simps wpb_kbind get_dev_wpb [OF a l] vol list.set bex_simps here
    using IH by (simp add: wpb_kret)
qed (simp add: wpb_kret)

lemma ex_nth: "(\<exists>i \<in> set [0..<length xs]. P (xs ! i)) = (\<exists>x \<in> set xs. P x)"
  by (auto simp: set_conv_nth)

lemma badnames_wpb:
  assumes t: "table_mounted s"
  shows "wpb b (badnames kern_ops n1 n2 n3) Q R s = Q (\<exists>x \<in> set (table_names s). Some x \<in> {n1, n2, n3}) s"
proof -
  have a: "array_wf (knowndevs s)" using t by (simp add: table_mounted_def)
  have "(\<exists>i \<in> set [0..<length (devs s)]. \<exists>x \<in> set (entry_names (v_fs s) (devs s ! i)). Some x \<in> {n1, n2, n3})
      = (\<exists>kd \<in> set (devs s). \<exists>x \<in> set (entry_names (v_fs s) kd). Some x \<in> {n1, n2, n3})"
    by (rule ex_nth)
  also have "... = (\<exists>x \<in> set (table_names s). Some x \<in> {n1, n2, n3})" by (auto simp: table_names_def)
  finally show ?thesis unfolding badnames_def wpb_kbind num_devs_wpb [OF a] by (subst badnames_loop_wpb [OF t]) simp_all
qed

lemma entry_names_cong:
  assumes "kf_vols f = kf_vols g"
  shows "entry_names f = entry_names g"
proof
  fix kd
  have "volume_name f d = volume_name g d" for d unfolding volume_name_def assms ..
  then show "entry_names f kd = entry_names g kd" unfolding entry_names_def by (cases "kd_fs kd") simp_all
qed

text \<open>\<open>table_same s t\<close>: neither the table nor a volume has changed, and allocations were only used up.\<close>

definition table_same :: "(kfs, kvnode) vfs \<Rightarrow> (kfs, kvnode) vfs \<Rightarrow> bool" where
  "table_same s t \<longleftrightarrow> knowndevs t = knowndevs s \<and> kf_vols (v_fs t) = kf_vols (v_fs s) \<and> set (v_mem t) \<subseteq> set (v_mem s)"

lemma table_sameD:
  assumes "table_same s t"
  shows "devs t = devs s" "table_names t = table_names s" "table_mounted t = table_mounted s" "knowndevs t = knowndevs s"
proof -
  show d: "devs t = devs s" "knowndevs t = knowndevs s" using assms by (simp_all add: table_same_def devs_def)
  have "entry_names (v_fs t) = entry_names (v_fs s)" by (rule entry_names_cong) (use assms in \<open>simp add: table_same_def\<close>)
  then show "table_names t = table_names s" by (simp add: table_names_def d)
  show "table_mounted t = table_mounted s" using assms by (simp add: table_mounted_def mounted_def d table_same_def)
qed

lemma vfs_kmalloc_wpb:
  assumes s: "table_same s t" and Q: "\<And>ok u. table_same s u \<Longrightarrow> v_fs u = v_fs t \<Longrightarrow> ok \<or> False \<in> set (v_mem s) \<Longrightarrow> Q ok u"
  shows "wpb b vfs_kmalloc Q R t"
proof (cases "v_mem t")
  case Nil
  then show ?thesis using Q [OF s, of True] by (simp add: wpb_def vfs_kmalloc_def)
next
  case (Cons x xs)
  have "table_same s (t\<lparr>v_mem := xs\<rparr>)" using s Cons by (auto simp: table_same_def)
  moreover have "x \<or> False \<in> set (v_mem s)" using s Cons by (cases x) (auto simp: table_same_def)
  ultimately show ?thesis using Q [of "t\<lparr>v_mem := xs\<rparr>" x] by (simp add: wpb_def vfs_kmalloc_def Cons)
qed

lemma dev_create_wpb:
  assumes s: "table_same s t" and b: "False \<in> set (dv_mem (kf_devs (v_fs t))) \<Longrightarrow> b"
  shows "wpb b (on_low (dev_create_vnode kern_ops (Some dev))) (\<lambda>v u. table_same s u \<and> (\<exists>p. v = KDev p)) (\<lambda>_ u. table_same s u \<and> b) t"
proof -
  have c: "dev_create_vnode kern_ops (Some dev) = kbind (on_kdev (dev_create (Some dev))) (\<lambda>p. kret (KDev p))" by (simp add: kern_ops_def)
  show ?thesis
    using s b unfolding wpb_on_low unfolding c wpb_def
    by (cases "dv_mem (kf_devs (v_fs t))"; cases "tl (dv_mem (kf_devs (v_fs t)))")
      (auto simp: kbind_def on_kdev_def kzoom_def dev_create_def dv_kmalloc_def kget_def kmodify_def kret_def kfail_def kpanic_def
        table_same_def split: if_splits)
qed

definition name_taken :: "(kfs, kvnode) vfs \<Rightarrow> byte list \<Rightarrow> bool \<Rightarrow> bool" where
  "name_taken s name mountable \<longleftrightarrow> name \<in> set (table_names s) \<or> mountable \<and> mkrawname name \<in> set (table_names s)"

lemma adddev_wpb:
  assumes t: "table_mounted s" and d: "distinct (table_names s)" and b: "b = (False \<in> set (dv_mem (kf_devs (v_fs s))))"
  shows "wpb b (vfs_adddev kern_ops name dev mountable)
    (\<lambda>_ u. \<not> name_taken s name mountable \<and> table_mounted u \<and> distinct (table_names u)
       \<and> (\<exists>p. devs u = devs s @ [\<lparr>kd_name = name, kd_rawname = (if mountable then Some (mkrawname name) else None),
            kd_device = Some dev, kd_vnode = KDev p, kd_fs = None\<rparr>]))
    (\<lambda>e u. devs u = devs s \<and> table_names u = table_names s
       \<and> (e = EEXIST \<and> name_taken s name mountable \<or> e = ENOMEM \<and> (b \<or> False \<in> set (v_mem s)))) s"
    (is "wpb b _ ?Q ?R s")
proof -
  let ?raw = "if mountable then Some (mkrawname name) else None"
  have same: "table_same s s" by (simp add: table_same_def)
  have nomem: "?R ENOMEM u" if "table_same s u" "b \<or> False \<in> set (v_mem s)" for u
    using table_sameD [OF that(1)] that(2) by simp
  have taken: "(\<exists>x \<in> set (table_names s). Some x \<in> {Some name, ?raw, None}) = name_taken s name mountable"
    by (auto simp: name_taken_def)
  have add: "wpb b (on_devs (array_add ok kd)) ?Q ?R u"
    if u: "table_same s u" "\<not> name_taken s name mountable" "ok \<or> False \<in> set (v_mem s)"
      and kd: "kd = \<lparr>kd_name = name, kd_rawname = ?raw, kd_device = Some dev, kd_vnode = KDev p, kd_fs = None\<rparr>" for ok kd p u
    unfolding on_devs_def wpb_kzoom
  proof (rule wpb_wp, rule wp_mono)
    have "array_wf (knowndevs u)" using t table_sameD(4) [OF u(1)] by (simp add: table_mounted_def)
    then show "wp (array_add ok kd) (\<lambda>_ a'. array_wf a' \<and> array_list a' = array_list (knowndevs u) @ [kd] \<and> a_num a' = a_num (knowndevs u) + 1)
        (\<lambda>e a'. \<not> ok \<and> e = ENOMEM \<and> a' = knowndevs u \<and> a_num (knowndevs u) = a_max (knowndevs u)) (knowndevs u)"
      by (rule array_add_wp)
    fix x :: unit and a'
    assume a: "array_wf a' \<and> array_list a' = array_list (knowndevs u) @ [kd] \<and> a_num a' = a_num (knowndevs u) + 1"
    let ?u = "u\<lparr>knowndevs := a'\<rparr>"
    have dv: "devs ?u = devs s @ [kd]" using a table_sameD(4) [OF u(1)] by (simp add: devs_def)
    have "entry_names (v_fs ?u) = entry_names (v_fs s)"
      by (rule entry_names_cong) (use u(1) in \<open>simp add: table_same_def\<close>)
    then have tn: "table_names ?u = table_names s @ entry_names (v_fs s) kd" by (simp add: table_names_def dv)
    have en: "entry_names (v_fs s) kd = (case ?raw of None \<Rightarrow> [] | Some n \<Rightarrow> [n]) @ [name]" by (simp add: entry_names_def kd)
    have "distinct (table_names ?u)"
      unfolding tn en using d u(2) by (auto simp: name_taken_def mkrawname_def)
    moreover have "table_mounted ?u"
      using t u(1) a unfolding table_mounted_def mounted_def dv by (auto simp: kd table_same_def)
    ultimately show "?Q x ?u" using u(2) dv kd by auto
  next
    fix e a'
    assume "\<not> ok \<and> e = ENOMEM \<and> a' = knowndevs u \<and> a_num (knowndevs u) = a_max (knowndevs u)"
    then show "?R e (u\<lparr>knowndevs := a'\<rparr>)" using nomem [of u] u by simp
  qed
  have rest: "wpb b (case (Inr (KDev p) :: errno + kvnode) of Inl e \<Rightarrow> kfail ENOMEM
         | Inr vnode \<Rightarrow>
             kbind vfs_kmalloc (\<lambda>ok3.
             if \<not> ok3 then kbind (on_low (kfree_dev_vnode kern_ops vnode)) (\<lambda>_. kfail ENOMEM)
             else
               let kd = \<lparr>kd_name = name, kd_rawname = ?raw, kd_device = Some dev, kd_vnode = vnode, kd_fs = None\<rparr> in
               kbind (case None of None \<Rightarrow> kret None | Some f \<Rightarrow> on_low (fsop_getvolname kern_ops f)) (\<lambda>volname.
               kbind (badnames kern_ops (Some name) ?raw volname) (\<lambda>bad.
               if \<not> bad then kbind vfs_kmalloc (\<lambda>ok4. on_devs (array_add ok4 kd))
               else kfail EEXIST)))) ?Q ?R u" if u: "table_same s u" for p u
    unfolding sum.case option.case Let_def wpb_kbind [of b vfs_kmalloc]
  proof (rule vfs_kmalloc_wpb [OF u])
    fix ok3 w
    assume w: "table_same s w" "ok3 \<or> False \<in> set (v_mem s)"
    have free: "wpb b (kbind (on_low (kfree_dev_vnode kern_ops (KDev p))) (\<lambda>_. kfail ENOMEM)) ?Q ?R w" if "\<not> ok3"
      using nomem [of "w\<lparr>v_fs := (v_fs w)\<lparr>kf_devs := (kf_devs (v_fs w))\<lparr>dev_vnodes := (dev_vnodes (kf_devs (v_fs w)))(p := None)\<rparr>\<rparr>\<rparr>"] w that
      by (simp add: kern_ops_def wpb_kbind wpb_on_low on_kdev_def wpb_kzoom wpb_kmodify wpb_kfail table_same_def)
    have tw: "table_mounted w" using t table_sameD(3) [OF w(1)] by simp
    have go: "wpb b (if \<not> name_taken s name mountable then kbind vfs_kmalloc (\<lambda>ok4. on_devs (array_add ok4
        \<lparr>kd_name = name, kd_rawname = ?raw, kd_device = Some dev, kd_vnode = KDev p, kd_fs = None\<rparr>)) else kfail EEXIST) ?Q ?R w"
    proof (cases "name_taken s name mountable")
      case True
      then show ?thesis using table_sameD [OF w(1)] by (simp add: wpb_kfail)
    next
      case False
      show ?thesis unfolding if_P [OF False] wpb_kbind
        by (rule vfs_kmalloc_wpb [OF w(1)], rule add [OF _ False _ refl])
    qed
    show "wpb b (if \<not> ok3 then kbind (on_low (kfree_dev_vnode kern_ops (KDev p))) (\<lambda>_. kfail ENOMEM)
       else kbind (kret None) (\<lambda>volname. kbind (badnames kern_ops (Some name) ?raw volname) (\<lambda>bad.
         if \<not> bad then kbind vfs_kmalloc (\<lambda>ok4. on_devs (array_add ok4
           \<lparr>kd_name = name, kd_rawname = ?raw, kd_device = Some dev, kd_vnode = KDev p, kd_fs = None\<rparr>))
         else kfail EEXIST))) ?Q ?R w"
    proof (cases ok3)
      case False
      then show ?thesis using free by simp
    next
      case True
      then have nt: "\<not> \<not> ok3" by simp
      show ?thesis unfolding if_not_P [OF nt] wpb_kbind [of b "kret None"] wpb_kret wpb_kbind [of b "badnames _ _ _ _"]
          badnames_wpb [OF tw] table_sameD(2) [OF w(1)] taken by (rule go)
    qed
  qed
  show ?thesis
    unfolding vfs_adddev_def vfs_doadd_def Let_def wpb_kbind [of b vfs_kmalloc]
  proof (rule vfs_kmalloc_wpb [OF same])
    fix ok1 u
    assume u: "table_same s u" "v_fs u = v_fs s" "ok1 \<or> False \<in> set (v_mem s)"
    have raw: "wpb b (if mountable then vfs_kmalloc else kret True) Q' ?R u"
      if "\<And>ok2 w. table_same s w \<Longrightarrow> v_fs w = v_fs s \<Longrightarrow> ok2 \<or> False \<in> set (v_mem s) \<Longrightarrow> Q' ok2 w" for Q'
      using that [OF u(1,2), of True] vfs_kmalloc_wpb [OF u(1), of Q'] that u(2) by (cases mountable) (simp_all add: wpb_kret)
    show "wpb b (if \<not> ok1 then kfail ENOMEM else
      kbind (if mountable then vfs_kmalloc else kret True) (\<lambda>ok2.
       if \<not> ok2 then kfail ENOMEM
       else kbind (kattempt (on_low (dev_create_vnode kern_ops (Some dev)))) (\<lambda>r.
         case r of
           Inl e \<Rightarrow> kfail ENOMEM
         | Inr vnode \<Rightarrow>
             kbind vfs_kmalloc (\<lambda>ok3.
             if \<not> ok3 then kbind (on_low (kfree_dev_vnode kern_ops vnode)) (\<lambda>_. kfail ENOMEM)
             else
               kbind (case None of None \<Rightarrow> kret None | Some f \<Rightarrow> on_low (fsop_getvolname kern_ops f)) (\<lambda>volname.
               kbind (badnames kern_ops (Some name) ?raw volname) (\<lambda>bad.
               if \<not> bad then kbind vfs_kmalloc (\<lambda>ok4. on_devs (array_add ok4
                 \<lparr>kd_name = name, kd_rawname = ?raw, kd_device = Some dev, kd_vnode = vnode, kd_fs = None\<rparr>))
               else kfail EEXIST)))))) ?Q ?R u"
    proof (cases ok1)
      case False
      then show ?thesis using nomem [OF u(1)] u(3) by (simp add: wpb_kfail)
    next
      case True
      then have nt: "\<not> \<not> ok1" by simp
      show ?thesis unfolding if_not_P [OF nt]
      proof (subst wpb_kbind, rule raw, goal_cases)
        case (1 ok2 w)
        show ?case
        proof (cases ok2)
          case False
          then show ?thesis using nomem [OF 1(1)] 1(3) by (simp add: wpb_kfail)
        next
          case True
          then have nt: "\<not> \<not> ok2" by simp
          show ?thesis unfolding if_not_P [OF nt]
          proof (subst wpb_kbind, subst wpb_kattempt, rule wpb_mono [OF dev_create_wpb [OF 1(1), of b]], goal_cases)
            case 1
            then show ?case using b \<open>v_fs w = v_fs s\<close> by simp
          next
            case (2 v t)
            then obtain p where "v = KDev p" by blast
            moreover have "table_same s t" using 2 by blast
            ultimately show ?case using rest [of t p] unfolding Let_def by (simp only:)
          next
            case (3 e t)
            then show ?case using nomem [of t] by (simp add: wpb_kfail)
          qed
        qed
      qed
    qed
  qed
qed

section \<open>A kernel with one volume\<close>

text \<open>
  The eight-block volume of \<open>SfsName\<close> is mounted on device 0; its root is the current directory and its
  file is open once.
\<close>

definition one_vol :: sfs_fs where
  "one_vol = vol_fs\<lparr>sv_heap := (sv_heap vol_fs)(8192 \<mapsto> vol_file_vnode\<lparr>vn_refcount := 1, vn_opencount := 1\<rparr>)\<rparr>"

definition one_kd :: "kvnode knowndev" where
  "one_kd = \<lparr>kd_name = [108, 104, 100], kd_rawname = Some [108, 104, 100, 114, 97, 119], kd_device = Some 0,
     kd_vnode = KDev 0, kd_fs = Some 0\<rparr>"

definition one_kern :: "(kfs, kvnode) vfs" where
  "one_kern = \<lparr>knowndevs = \<lparr>a_num = 1, a_max = 1, a_v = Some [Some one_kd]\<rparr>, bootfs_vnode = None,
     t_cwd = Some (KVn 0 4096 True), v_mem = [],
     v_fs = \<lparr>kf_vols = [0 \<mapsto> one_vol], kf_disks = (\<lambda>_. None),
       kf_devs = \<lparr>devices = [0 \<mapsto> nulldev], dev_vnodes = [0 \<mapsto> \<lparr>dv_device = Some 0, dv_refcount = 1, dv_opencount = 0\<rparr>],
         dev_next = 1, dv_mem = []\<rparr>\<rparr>\<rparr>"

lemma one_kern_ok: "vfs_ok False {KDev 0} one_kern [KVn 0 8192 False]"
proof -
  let ?f = "KVn 0 8192 False" and ?d = "KVn 0 4096 True"
  let ?r = "\<lambda>v. if v = ?f \<or> v = ?d \<or> v = KDev 0 then 1 else 0 :: int" and ?c = "\<lambda>v. if v = ?f then 1 else 0 :: int"
  have arr: "array_wf (knowndevs one_kern)" "devs one_kern = [one_kd]"
    by (simp_all add: one_kern_def array_wf_def array_list_def a_cells_def devs_def)
  have h: "sv_heap vol_fs 8192 = Some vol_file_vnode" by (simp add: vol_fs_def)
  have so: "sound one_vol" unfolding one_vol_def by (rule sound_count [OF vol_fs_ok(1) h refl]) simp_all
  have hp: "sv_heap one_vol = [4096 \<mapsto> vol_root_vnode, 8192 \<mapsto> vol_file_vnode\<lparr>vn_refcount := 1, vn_opencount := 1\<rparr>]"
    by (simp add: one_vol_def vol_fs_def)
  have "counted (of_vol ?r 0) (of_vol ?c 0) one_vol"
    unfolding counted_def hp
    by (auto simp: vn_counts_def of_vol_def vol_root_vnode_def vol_file_vnode_def new_vnode_def)
  then have vol: "volume False (of_vol ?r 0) (of_vol ?c 0) one_vol"
    using so vol_fs_simps(4) by (simp add: volume_def one_vol_def)
  have r: "refs {KDev 0} one_kern (times_open [?f]) = ?r" "times_open [?f] = ?c"
    by (auto simp: fun_eq_iff refs_def times_open_def one_kern_def)
  have m: "mounted one_kern = {0}" unfolding mounted_def arr(2) by (simp add: one_kd_def)
  have k: "kern_ok False (v_fs one_kern) {0} ?r ?c"
    unfolding kern_ok_def
  proof (intro conjI allI)
    show "{0} = dom (kf_vols (v_fs one_kern))" by (simp add: one_kern_def)
    show "devs_counted ?r ?c (kf_devs (v_fs one_kern))" by (simp add: devs_counted_def dev_at_def one_kern_def)
    show "case kf_vols (v_fs one_kern) d of Some s \<Rightarrow> volume False (of_vol ?r d) (of_vol ?c d) s
        | None \<Rightarrow> \<forall>w. of_vol ?r d w = 0 \<and> of_vol ?c d w = 0" for d
      using vol by (cases "d = 0") (simp_all add: one_kern_def of_vol_def)
  qed
  have t: "table_ok {KDev 0} one_kern" using arr by (simp add: table_ok_def one_kd_def)
  have c: "counts_ok kern_ops {KDev 0} ?r ?c" by (auto simp: counts_ok_def split: if_splits)
  have hd: "held kern_ops ?r one_kern" by (simp add: held_def one_kern_def)
  show ?thesis unfolding vfs_ok_def acct_def vst_def r(2) m using t k c hd r(1) [unfolded r(2)] by simp
qed

text \<open>
  \<open>vfs_setbootfs\<close> refuses every name with a colon in it, also one that ends with its only colon: the
  test compares the length of the rest of the name from the colon on, which is never 0.
\<close>

lemma setbootfs_colon:
  assumes "COLON \<in> set (take (NAME_MAX - 1) fsname)"
  shows "vfs_setbootfs ops fsname s = Fail EINVAL s"
proof -
  have "dropWhile (\<lambda>b. b \<noteq> COLON) (take (NAME_MAX - 1) fsname) \<noteq> []" using assms by (auto simp: dropWhile_eq_Nil_conv)
  then show ?thesis using assms by (simp add: vfs_setbootfs_def strchr_def kbind_def kfail_def)
qed

section \<open>Properties\<close>

text \<open>
  Property C2: whatever sequence of opens, closes, removals, renames, directory changes and the like
  processes make, on the kernel's function tables (sfs volumes and devices), every vnode's reference
  count is at every moment the number of its holders (open files, current directory, boot file system,
  device table), its open count the number of its opens, and every volume stays consistent; every error
  path gives back exactly what it took. When all files are closed and the directories cleared, no vnode
  is left in memory, so that no unmount is refused. The kernel panics only if memory runs out.
\<close>

theorem vfs_calls_keep_counts:
  assumes "vfs_ok b D s fds" and "\<forall>v \<in> D. vn_fs kern_ops v = None" and "\<forall>call \<in> set calls. c_paths call"
  shows "case do_calls kern_ops fds calls s of
      Done fds' t \<Rightarrow> vfs_ok b D t fds' \<and> (fds' = [] \<longrightarrow> t_cwd t = None \<longrightarrow> bootfs_vnode t = None \<longrightarrow> all_unloaded t)
    | Fail e t \<Rightarrow> False | Panic \<Rightarrow> b"
  using calls_wpb [OF assms] by (simp add: wpb_def)

text \<open>Creating a file, renaming it, closing it and the other one, and leaving the directory.\<close>

theorem vfs_calls_keep_counts_witness:
  "case do_calls kern_ops [KVn 0 8192 False] [Open [97] 6, Rename [97] [98], Close 1, Close 0, ClearCurdir] one_kern of
      Done fds' t \<Rightarrow> vfs_ok False {KDev 0} t fds'
    | Fail e t \<Rightarrow> False | Panic \<Rightarrow> False"
proof -
  have "\<forall>call \<in> set [Open [97] 6, Rename [97] [98], Close 1, Close 0, ClearCurdir]. c_paths call" by (simp add: c_paths_def)
  from vfs_calls_keep_counts [OF one_kern_ok _ this] show ?thesis by (auto split: outcome.splits)
qed

text \<open>
  Property C31: after \<open>vfs_bootstrap\<close> on a kernel with memory, whose tables are empty, the table of devices
  holds exactly the null device, whose vnode has the table's reference, and all counts are right.
\<close>

theorem vfs_bootstrap_starts:
  assumes "v_mem s = []" and "bootfs_vnode s = None" and "t_cwd s = None"
    and "kf_vols (v_fs s) = Map.empty" and "dev_vnodes (kf_devs (v_fs s)) = Map.empty" and "dv_mem (kf_devs (v_fs s)) = []"
    and "p = dev_next (kf_devs (v_fs s))"
  shows "wp (vfs_bootstrap dev)
    (\<lambda>_ t. vfs_ok False {KDev p} t []
       \<and> devs t = [\<lparr>kd_name = [110, 117, 108, 108], kd_rawname = None, kd_device = Some dev, kd_vnode = KDev p, kd_fs = None\<rparr>])
    (\<lambda>_ _. False) s"
  by (rule bootstrap_wp [OF assms])

theorem vfs_bootstrap_starts_witness:
  "wp (vfs_bootstrap 3) (\<lambda>_ t. vfs_ok False {KDev 7} t []
       \<and> devs t = [\<lparr>kd_name = [110, 117, 108, 108], kd_rawname = None, kd_device = Some 3, kd_vnode = KDev 7, kd_fs = None\<rparr>])
    (\<lambda>_ _. False)
    \<lparr>knowndevs = \<lparr>a_num = 0, a_max = 0, a_v = None\<rparr>, bootfs_vnode = None, t_cwd = None, v_mem = [],
     v_fs = \<lparr>kf_vols = (\<lambda>_. None), kf_disks = (\<lambda>_. None),
       kf_devs = \<lparr>devices = (\<lambda>_. None), dev_vnodes = (\<lambda>_. None), dev_next = 7, dv_mem = []\<rparr>\<rparr>\<rparr>"
  by (rule vfs_bootstrap_starts) simp_all

text \<open>
  Property C23: \<open>vfs_adddev\<close> keeps the names in the table of devices unique. A device is added under a name
  only if neither this name nor, for a mountable device, its raw name is a name, a raw name or the name
  of a mounted volume of the table; the entry then has the device and a new vnode, and all names are
  again distinct. It fails with \<open>EEXIST\<close> exactly because a name is taken, otherwise only for want of memory,
  and leaves the table as it was.
\<close>

theorem vfs_adddev_unique:
  assumes "table_mounted s" and "distinct (table_names s)" and "b = (False \<in> set (dv_mem (kf_devs (v_fs s))))"
  shows "case vfs_adddev kern_ops name dev mountable s of
      Done _ u \<Rightarrow> \<not> name_taken s name mountable \<and> table_mounted u \<and> distinct (table_names u)
        \<and> (\<exists>p. devs u = devs s @ [\<lparr>kd_name = name, kd_rawname = (if mountable then Some (mkrawname name) else None),
             kd_device = Some dev, kd_vnode = KDev p, kd_fs = None\<rparr>])
    | Fail e u \<Rightarrow> devs u = devs s \<and> table_names u = table_names s
        \<and> (e = EEXIST \<and> name_taken s name mountable \<or> e = ENOMEM \<and> (b \<or> False \<in> set (v_mem s)))
    | Panic \<Rightarrow> b"
  using adddev_wpb [OF assms, unfolded wpb_def] .

lemma one_kern_names:
  "table_mounted one_kern" "table_names one_kern = [[], [108, 104, 100, 114, 97, 119], [108, 104, 100]]"
proof -
  have a: "array_wf (knowndevs one_kern)" "devs one_kern = [one_kd]"
    by (simp_all add: one_kern_def array_wf_def array_list_def a_cells_def devs_def)
  show "table_mounted one_kern"
    unfolding table_mounted_def mounted_def a(2) using a(1) by (simp add: one_kd_def one_kern_def)
  show "table_names one_kern = [[], [108, 104, 100, 114, 97, 119], [108, 104, 100]]"
    unfolding table_names_def a(2)
    by (simp add: entry_names_def one_kd_def volume_name_def one_kern_def one_vol_def vol_fs_def
        small_fs_def cstr_def takeWhile_eq_Nil_iff)
qed

text \<open>A second disk is added as ``lhe''; adding another ``lhd'' fails.\<close>

theorem vfs_adddev_unique_witness:
  "(case vfs_adddev kern_ops [108, 104, 101] 5 True one_kern of
      Done _ u \<Rightarrow> distinct (table_names u) \<and> length (devs u) = length (devs one_kern) + 1
    | Fail e u \<Rightarrow> False | Panic \<Rightarrow> False)
   \<and> (case vfs_adddev kern_ops [108, 104, 100] 5 True one_kern of
      Done _ u \<Rightarrow> False | Fail e u \<Rightarrow> e = EEXIST \<and> devs u = devs one_kern | Panic \<Rightarrow> False)"
proof -
  have d: "distinct (table_names one_kern)" by (simp add: one_kern_names)
  have b: "False = (False \<in> set (dv_mem (kf_devs (v_fs one_kern))))" "v_mem one_kern = []" by (simp_all add: one_kern_def)
  have t: "\<not> name_taken one_kern [108, 104, 101] True" "name_taken one_kern [108, 104, 100] True"
    by (simp_all add: name_taken_def one_kern_names mkrawname_def)
  from vfs_adddev_unique [OF one_kern_names(1) d b(1), where name = "[108, 104, 101]" and dev = 5 and mountable = True]
    vfs_adddev_unique [OF one_kern_names(1) d b(1), where name = "[108, 104, 100]" and dev = 5 and mountable = True]
  show ?thesis using t b(2) by (auto split: outcome.splits)
qed

end
