(* ===== verification/PageRep.thy ===== *)
theory PageRep
  imports Main
begin

text \<open>
  The page replacement simulator, src/CSE4300/Shahariar-project/page_replacement.c: FIFO, random,
  LRU and MIN replacement on a string of page references, and the printed traces.

  The simulation and the trace of an algorithm are two copies of the same code in the program, and two
  step functions here. A step returns whether the reference was a hit (the trace: the letter it prints)
  and the new tables, or \<open>None\<close> where the C program divides by zero or leaves an array, which happens only for zero frames.
  The frame array is a list of its length; \<open>-1\<close> marks an empty frame. Memory allocation of the
  simulator is a flag.
\<close>

section \<open>Frames\<close>

definition init_frames :: "nat \<Rightarrow> int list" where
  "init_frames frames = replicate frames (- 1)"

text \<open>\<open>find_page\<close>; \<open>None\<close> is the result \<open>-1\<close>.\<close>

primrec find_page_from :: "nat \<Rightarrow> int list \<Rightarrow> int \<Rightarrow> nat option" where
  "find_page_from i [] page = None"
| "find_page_from i (f # fs) page = (if f = page then Some i else find_page_from (i + 1) fs page)"

definition find_page :: "int list \<Rightarrow> int \<Rightarrow> nat option" where
  "find_page frame page = find_page_from 0 frame page"

text \<open>The loop that looks for an empty frame.\<close>

definition free_index :: "int list \<Rightarrow> nat option" where
  "free_index frame = find_page frame (- 1)"

section \<open>One reference\<close>

record fifo =
  ff_frame :: "int list"
  ff_next :: nat

definition fifo_step :: "int \<Rightarrow> fifo \<Rightarrow> (bool \<times> fifo) option" where
  "fifo_step page st =
     (case find_page (ff_frame st) page of
        Some pos \<Rightarrow> Some (True, st)
      | None \<Rightarrow>
          if ff_next st \<ge> length (ff_frame st) then None
          else Some (False, \<lparr>ff_frame = (ff_frame st)[ff_next st := page],
                            ff_next = (ff_next st + 1) mod length (ff_frame st)\<rparr>))"

text \<open>The random policy takes the values of \<open>rand()\<close> from a stream.\<close>

record rnd =
  rn_frame :: "int list"
  rn_calls :: nat

definition random_step :: "(nat \<Rightarrow> nat) \<Rightarrow> int \<Rightarrow> rnd \<Rightarrow> (bool \<times> rnd) option" where
  "random_step rand page st =
     (case find_page (rn_frame st) page of
        Some pos \<Rightarrow> Some (True, st)
      | None \<Rightarrow>
          (case free_index (rn_frame st) of
             Some i \<Rightarrow> Some (False, st\<lparr>rn_frame := (rn_frame st)[i := page]\<rparr>)
           | None \<Rightarrow>
               if rn_frame st = [] then None
               else Some (False, \<lparr>rn_frame = (rn_frame st)[rand (rn_calls st) mod length (rn_frame st) := page],
                                 rn_calls = rn_calls st + 1\<rparr>)))"

record lru =
  lr_frame :: "int list"
  last_used :: "int list"

text \<open>The loop over the frames from index \<open>i\<close> on that finds the smallest \<open>last_used\<close>.\<close>

primrec lru_scan :: "nat \<Rightarrow> int list \<Rightarrow> nat \<Rightarrow> int \<Rightarrow> nat" where
  "lru_scan i [] lru_index lru_time = lru_index"
| "lru_scan i (x # xs) lru_index lru_time =
     (if x < lru_time then lru_scan (i + 1) xs i x else lru_scan (i + 1) xs lru_index lru_time)"

definition lru_step :: "int \<Rightarrow> int \<Rightarrow> lru \<Rightarrow> (bool \<times> lru) option" where
  "lru_step t page st =
     (case find_page (lr_frame st) page of
        Some pos \<Rightarrow> Some (True, st\<lparr>last_used := (last_used st)[pos := t]\<rparr>)
      | None \<Rightarrow>
          (case free_index (lr_frame st) of
             Some i \<Rightarrow> Some (False, \<lparr>lr_frame = (lr_frame st)[i := page], last_used = (last_used st)[i := t]\<rparr>)
           | None \<Rightarrow>
               (case last_used st of
                  [] \<Rightarrow> None
                | x # xs \<Rightarrow>
                    let i = lru_scan 1 xs 0 x in
                    Some (False, \<lparr>lr_frame = (lr_frame st)[i := page], last_used = (last_used st)[i := t]\<rparr>))))"

text \<open>
  The next reference of a page among the references that follow, as its distance (the code keeps
  the index, which is larger by the current time for all pages alike); \<open>None\<close> is \<open>next_use = -1\<close>.
\<close>

definition next_use :: "int list \<Rightarrow> int \<Rightarrow> nat option" where
  "next_use rest page = find_page rest page"

text \<open>
  The loop that chooses the frame to evict, from index \<open>i\<close> on; \<open>farthest = None\<close> and
  \<open>evict = None\<close> are the values \<open>-1\<close>. It stops at the first page that is not used again.
\<close>

primrec min_scan :: "int list \<Rightarrow> nat \<Rightarrow> int list \<Rightarrow> nat option \<Rightarrow> nat option \<Rightarrow> nat option" where
  "min_scan rest i [] evict farthest = evict"
| "min_scan rest i (f # fs) evict farthest =
     (case next_use rest f of
        None \<Rightarrow> Some i
      | Some u \<Rightarrow>
          if farthest = None \<or> u > the farthest then min_scan rest (i + 1) fs (Some i) (Some u)
          else min_scan rest (i + 1) fs evict farthest)"

definition min_step :: "int list \<Rightarrow> int \<Rightarrow> int list \<Rightarrow> (bool \<times> int list) option" where
  "min_step rest page frame =
     (case find_page frame page of
        Some pos \<Rightarrow> Some (True, frame)
      | None \<Rightarrow>
          (case free_index frame of
             Some i \<Rightarrow> Some (False, frame[i := page])
           | None \<Rightarrow>
               let evict = (case min_scan rest 0 frame None None of None \<Rightarrow> 0 | Some i \<Rightarrow> i) in
               if evict \<ge> length frame then None else Some (False, frame[evict := page])))"

section \<open>The simulations\<close>

record SimResult =
  faults :: nat
  hits :: nat

definition no_result :: SimResult where
  "no_result = \<lparr>faults = 0, hits = 0\<rparr>"

definition count :: "bool \<Rightarrow> SimResult \<Rightarrow> SimResult" where
  "count hit res = (if hit then res\<lparr>hits := hits res + 1\<rparr> else res\<lparr>faults := faults res + 1\<rparr>)"

text \<open>
  The main loop, for a step that is given the time, the references still to come and the page.
\<close>

primrec sim_loop :: "(int \<Rightarrow> int list \<Rightarrow> int \<Rightarrow> 's \<Rightarrow> (bool \<times> 's) option) \<Rightarrow> int \<Rightarrow> int list \<Rightarrow> 's \<Rightarrow> SimResult
    \<Rightarrow> (SimResult \<times> 's) option" where
  "sim_loop step t [] st res = Some (res, st)"
| "sim_loop step t (page # rest) st res =
     (case step t rest page st of
        None \<Rightarrow> None
      | Some (hit, st') \<Rightarrow> sim_loop step (t + 1) rest st' (count hit res))"

definition simulate :: "(int \<Rightarrow> int list \<Rightarrow> int \<Rightarrow> 's \<Rightarrow> (bool \<times> 's) option) \<Rightarrow> 's \<Rightarrow> bool \<Rightarrow> int list \<Rightarrow> SimResult option" where
  "simulate step st ok refs = (if \<not> ok then Some no_result else map_option fst (sim_loop step 0 refs st no_result))"

definition fifo_init :: "nat \<Rightarrow> fifo" where
  "fifo_init frames = \<lparr>ff_frame = init_frames frames, ff_next = 0\<rparr>"

definition rnd_init :: "nat \<Rightarrow> nat \<Rightarrow> rnd" where
  "rnd_init calls frames = \<lparr>rn_frame = init_frames frames, rn_calls = calls\<rparr>"

definition lru_init :: "nat \<Rightarrow> lru" where
  "lru_init frames = \<lparr>lr_frame = init_frames frames, last_used = replicate frames (- 1)\<rparr>"

definition simulate_fifo :: "bool \<Rightarrow> int list \<Rightarrow> nat \<Rightarrow> SimResult option" where
  "simulate_fifo ok refs frames = simulate (\<lambda>t rest. fifo_step) (fifo_init frames) ok refs"

definition simulate_random :: "bool \<Rightarrow> (nat \<Rightarrow> nat) \<Rightarrow> int list \<Rightarrow> nat \<Rightarrow> SimResult option" where
  "simulate_random ok rand refs frames = simulate (\<lambda>t rest. random_step rand) (rnd_init 0 frames) ok refs"

definition simulate_lru :: "bool \<Rightarrow> int list \<Rightarrow> nat \<Rightarrow> SimResult option" where
  "simulate_lru ok refs frames = simulate (\<lambda>t rest. lru_step t) (lru_init frames) ok refs"

definition simulate_min :: "bool \<Rightarrow> int list \<Rightarrow> nat \<Rightarrow> SimResult option" where
  "simulate_min ok refs frames = simulate (\<lambda>t rest. min_step rest) (init_frames frames) ok refs"

section \<open>The traces\<close>

text \<open>Decimal numbers, right-aligned in a field, as \<open>printf\<close> prints \<open>%d\<close> and \<open>%wd\<close>.\<close>

fun dec_nat :: "nat \<Rightarrow> string" where
  "dec_nat n = (if n < 10 then [char_of (48 + n)] else dec_nat (n div 10) @ [char_of (48 + n mod 10)])"

declare dec_nat.simps [simp del]

definition dec :: "int \<Rightarrow> string" where
  "dec x = (if x < 0 then CHR ''-'' # dec_nat (nat (- x)) else dec_nat (nat x))"

definition pad :: "nat \<Rightarrow> string \<Rightarrow> string" where
  "pad w s = replicate (w - length s) (CHR '' '') @ s"

definition newline :: string where
  "newline = [char_of (10 :: nat)]"

definition trace_header :: "nat \<Rightarrow> string" where
  "trace_header frames =
     ''Time | Ref |'' @ concat (map (\<lambda>i. '' F'' @ dec (int i) @ '' '') [0..<frames]) @ ''| H/F'' @ newline
     @ ''-----+-----+'' @ concat (map (\<lambda>i. ''----'') [0..<frames]) @ ''+----'' @ newline"

definition trace_cell :: "int \<Rightarrow> string" where
  "trace_cell f = (if f = - 1 then ''  - '' else pad 3 (dec f) @ '' '')"

definition trace_line :: "int \<Rightarrow> int \<Rightarrow> int list \<Rightarrow> char \<Rightarrow> string" where
  "trace_line t page frame status =
     pad 4 (dec t) @ '' | '' @ pad 3 (dec page) @ '' |'' @ concat (map trace_cell frame)
     @ ''| '' @ [status] @ newline"

text \<open>The second copies of the code for one reference: the letter to print and the new tables.\<close>

definition fifo_trace_step :: "int \<Rightarrow> fifo \<Rightarrow> (char \<times> fifo) option" where
  "fifo_trace_step page st =
     (case find_page (ff_frame st) page of
        Some pos \<Rightarrow> Some (CHR ''H'', st)
      | None \<Rightarrow>
          if ff_next st \<ge> length (ff_frame st) then None
          else Some (CHR ''F'', st\<lparr>ff_frame := (ff_frame st)[ff_next st := page],
                                  ff_next := (ff_next st + 1) mod length (ff_frame st)\<rparr>))"

definition random_trace_step :: "(nat \<Rightarrow> nat) \<Rightarrow> int \<Rightarrow> rnd \<Rightarrow> (char \<times> rnd) option" where
  "random_trace_step rand page st =
     (case find_page (rn_frame st) page of
        Some pos \<Rightarrow> Some (CHR ''H'', st)
      | None \<Rightarrow>
          (case free_index (rn_frame st) of
             Some i \<Rightarrow> Some (CHR ''F'', st\<lparr>rn_frame := (rn_frame st)[i := page]\<rparr>)
           | None \<Rightarrow>
               if rn_frame st = [] then None
               else let evict_index = rand (rn_calls st) mod length (rn_frame st) in
                 Some (CHR ''F'', st\<lparr>rn_frame := (rn_frame st)[evict_index := page], rn_calls := rn_calls st + 1\<rparr>)))"

text \<open>The loop of \<open>lru_trace\<close> over the frames from 1 on.\<close>

definition lru_trace_scan :: "int list \<Rightarrow> nat list \<Rightarrow> nat \<times> int \<Rightarrow> nat \<times> int" where
  "lru_trace_scan used = fold (\<lambda>i (lru_index, lru_time).
     if used ! i < lru_time then (i, used ! i) else (lru_index, lru_time))"

definition lru_trace_step :: "int \<Rightarrow> int \<Rightarrow> lru \<Rightarrow> (char \<times> lru) option" where
  "lru_trace_step t page st =
     (case find_page (lr_frame st) page of
        Some pos \<Rightarrow> Some (CHR ''H'', st\<lparr>last_used := (last_used st)[pos := t]\<rparr>)
      | None \<Rightarrow>
          (case free_index (lr_frame st) of
             Some i \<Rightarrow> Some (CHR ''F'', st\<lparr>lr_frame := (lr_frame st)[i := page], last_used := (last_used st)[i := t]\<rparr>)
           | None \<Rightarrow>
               if last_used st = [] then None
               else let i = fst (lru_trace_scan (last_used st) [1..<length (last_used st)] (0, last_used st ! 0)) in
                 Some (CHR ''F'', st\<lparr>lr_frame := (lr_frame st)[i := page], last_used := (last_used st)[i := t]\<rparr>)))"

text \<open>
  The loops of \<open>min_trace\<close>, with the indices and the values \<open>-1\<close> of the code: \<open>j\<close> is the index of the
  reference looked at, \<open>i\<close> that of the frame.
\<close>

primrec min_trace_next :: "int \<Rightarrow> int list \<Rightarrow> int \<Rightarrow> int" where
  "min_trace_next j [] page_in_frame = - 1"
| "min_trace_next j (r # rest) page_in_frame = (if r = page_in_frame then j else min_trace_next (j + 1) rest page_in_frame)"

primrec min_trace_scan :: "int \<Rightarrow> int list \<Rightarrow> int \<Rightarrow> int list \<Rightarrow> int \<Rightarrow> int \<Rightarrow> int" where
  "min_trace_scan t rest i [] evict_index farthest = evict_index"
| "min_trace_scan t rest i (page_in_frame # fs) evict_index farthest =
     (let next_use = min_trace_next (t + 1) rest page_in_frame in
      if next_use = - 1 then i
      else if next_use > farthest then min_trace_scan t rest (i + 1) fs i next_use
      else min_trace_scan t rest (i + 1) fs evict_index farthest)"

definition min_trace_step :: "int \<Rightarrow> int list \<Rightarrow> int \<Rightarrow> int list \<Rightarrow> (char \<times> int list) option" where
  "min_trace_step t rest page frame =
     (case find_page frame page of
        Some pos \<Rightarrow> Some (CHR ''H'', frame)
      | None \<Rightarrow>
          (case free_index frame of
             Some i \<Rightarrow> Some (CHR ''F'', frame[i := page])
           | None \<Rightarrow>
               let evict_index = min_trace_scan t rest 0 frame (- 1) (- 1);
                   evict_index = (if evict_index < 0 then 0 else evict_index) in
               if evict_index \<ge> int (length frame) then None
               else Some (CHR ''F'', frame[nat evict_index := page])))"

primrec trace_loop :: "(int \<Rightarrow> int list \<Rightarrow> int \<Rightarrow> 's \<Rightarrow> (char \<times> 's) option) \<Rightarrow> ('s \<Rightarrow> int list) \<Rightarrow> int \<Rightarrow> int list \<Rightarrow> 's
    \<Rightarrow> string option" where
  "trace_loop step frame t [] st = Some []"
| "trace_loop step frame t (page # rest) st =
     (case step t rest page st of
        None \<Rightarrow> None
      | Some (status, st') \<Rightarrow>
          map_option ((@) (trace_line t page (frame st') status)) (trace_loop step frame (t + 1) rest st'))"

definition trace :: "(int \<Rightarrow> int list \<Rightarrow> int \<Rightarrow> 's \<Rightarrow> (char \<times> 's) option) \<Rightarrow> ('s \<Rightarrow> int list) \<Rightarrow> 's \<Rightarrow> bool \<Rightarrow> int list
    \<Rightarrow> nat \<Rightarrow> string option" where
  "trace step frame st ok refs frames =
     (if \<not> ok then Some [] else map_option ((@) (trace_header frames)) (trace_loop step frame 0 refs st))"

definition fifo_trace :: "bool \<Rightarrow> int list \<Rightarrow> nat \<Rightarrow> string option" where
  "fifo_trace ok refs frames = trace (\<lambda>t rest. fifo_trace_step) ff_frame (fifo_init frames) ok refs frames"

text \<open>\<open>calls\<close> is the number of calls of \<open>rand\<close> that were made before.\<close>

definition random_trace :: "bool \<Rightarrow> (nat \<Rightarrow> nat) \<Rightarrow> nat \<Rightarrow> int list \<Rightarrow> nat \<Rightarrow> string option" where
  "random_trace ok rand calls refs frames =
     trace (\<lambda>t rest. random_trace_step rand) rn_frame (rnd_init calls frames) ok refs frames"

definition lru_trace :: "bool \<Rightarrow> int list \<Rightarrow> nat \<Rightarrow> string option" where
  "lru_trace ok refs frames = trace (\<lambda>t rest. lru_trace_step t) lr_frame (lru_init frames) ok refs frames"

definition min_trace :: "bool \<Rightarrow> int list \<Rightarrow> nat \<Rightarrow> string option" where
  "min_trace ok refs frames = trace min_trace_step id (init_frames frames) ok refs frames"

section \<open>Facts about the tables\<close>

lemma find_page_from_eq: "find_page_from i fs p = map_option ((+) i) (find_page fs p)"
proof -
  have "find_page_from (i + k) fs p = map_option ((+) i) (find_page_from k fs p)" for k
  proof (induction fs arbitrary: k)
    case (Cons f fs)
    show ?case using Cons.IH [of "k + 1"] by simp
  qed simp
  from this [of 0] show ?thesis by (simp add: find_page_def)
qed

lemma find_page_simps [simp]:
  "find_page [] p = None"
  "find_page (f # fs) p = (if f = p then Some 0 else map_option Suc (find_page fs p))"
proof -
  have "(+) (Suc 0) = Suc" by auto
  then show "find_page (f # fs) p = (if f = p then Some 0 else map_option Suc (find_page fs p))"
    using find_page_from_eq [of "Suc 0" fs p] by (simp add: find_page_def)
qed (simp add: find_page_def)

lemma find_page_None: "find_page fs p = None \<longleftrightarrow> p \<notin> set fs"
  by (induction fs) auto

lemma find_page_Some: "find_page fs p = Some k \<Longrightarrow> k < length fs \<and> fs ! k = p"
  by (induction fs arbitrary: k) (auto split: if_splits)

text \<open>The pages in memory; a frame array holds no page twice.\<close>

definition resident :: "int list \<Rightarrow> int set" where
  "resident f = set f - {- 1}"

definition frames_wf :: "int list \<Rightarrow> bool" where
  "frames_wf f \<longleftrightarrow> f \<noteq> [] \<and> (\<forall>i < length f. \<forall>j < length f. f ! i = f ! j \<longrightarrow> f ! i \<noteq> - 1 \<longrightarrow> i = j)"

lemma resident_init [simp]: "resident (init_frames n) = {}"
  by (auto simp: resident_def init_frames_def)

lemma frames_wf_init: "0 < n \<Longrightarrow> frames_wf (init_frames n)"
  by (simp add: frames_wf_def init_frames_def)

lemma resident_card: "finite (resident f)" "card (resident f) \<le> length f"
proof -
  show "finite (resident f)" by (simp add: resident_def)
  have "card (resident f) \<le> card (set f)" by (rule card_mono) (auto simp: resident_def)
  then show "card (resident f) \<le> length f" using card_length [of f] by linarith
qed

lemma frames_full:
  assumes "frames_wf f" and "- 1 \<notin> set f"
  shows "distinct f" "card (resident f) = length f" "resident f = set f"
proof -
  show d: "distinct f"
    using assms unfolding frames_wf_def distinct_conv_nth by (metis nth_mem)
  show r: "resident f = set f" using assms(2) by (auto simp: resident_def)
  show "card (resident f) = length f" using d by (simp add: r distinct_card)
qed

text \<open>Storing a page that is not in memory.\<close>

lemma store_page:
  assumes wf: "frames_wf f" and p: "p \<notin> set f" "p \<noteq> - 1" and i: "i < length f"
  shows "frames_wf (f[i := p])" "resident (f[i := p]) = insert p (resident f - {f ! i})"
proof -
  show "frames_wf (f[i := p])"
    using wf p i unfolding frames_wf_def by (simp add: nth_list_update) (metis nth_mem)
  show "resident (f[i := p]) = insert p (resident f - {f ! i})"
  proof (rule set_eqI)
    fix x
    have "x \<in> set (f[i := p]) \<longleftrightarrow> x = p \<or> (\<exists>j < length f. j \<noteq> i \<and> f ! j = x)"
      using i by (auto simp: in_set_conv_nth nth_list_update split: if_splits)
    moreover have "(\<exists>j < length f. j \<noteq> i \<and> f ! j = x) \<longleftrightarrow> x \<in> set f \<and> x \<noteq> f ! i" if "x \<noteq> - 1"
      using wf i that unfolding frames_wf_def in_set_conv_nth by metis
    ultimately show "x \<in> resident (f[i := p]) \<longleftrightarrow> x \<in> insert p (resident f - {f ! i})"
      using p(2) by (auto simp: resident_def)
  qed
qed

section \<open>Paging with foresight\<close>

text \<open>
  \<open>paging k refs C n\<close>: starting with the pages \<open>C\<close> in memory, the references can be served with
  \<open>n\<close> faults by some policy that has \<open>k\<close> frames and loads a page only when it is referenced,
  whatever the policy knows of the future.
\<close>

inductive paging :: "nat \<Rightarrow> 'a list \<Rightarrow> 'a set \<Rightarrow> nat \<Rightarrow> bool" for k where
  paging_end: "paging k [] C 0"
| paging_hit: "r \<in> C \<Longrightarrow> paging k rs C n \<Longrightarrow> paging k (r # rs) C n"
| paging_fault: "r \<notin> C \<Longrightarrow> D \<subseteq> insert r C \<Longrightarrow> r \<in> D \<Longrightarrow> card D \<le> k \<Longrightarrow> paging k rs D n
    \<Longrightarrow> paging k (r # rs) C (Suc n)"

inductive_simps paging_Cons: "paging k (r # rs) C n"
inductive_simps paging_Nil: "paging k [] C n"

text \<open>Starting from other contents costs at most the pages that are missing.\<close>

lemma paging_from:
  assumes "paging k rs B n" and "finite A" "card A \<le> k" and "finite B" "card B \<le> k"
  shows "\<exists>m. paging k rs A m \<and> m \<le> n + card (B - A)"
  using assms
proof (induction arbitrary: A rule: paging.induct)
  case (paging_end C)
  show ?case using paging.paging_end by fastforce
next
  case (paging_hit r C rs n)
  show ?case
  proof (cases "r \<in> A")
    case True
    then show ?thesis using paging_hit.IH [OF paging_hit.prems] paging.paging_hit by metis
  next
    case False
    have fin: "finite (C - A)" using paging_hit.prems by simp
    obtain A' where A': "A' \<subseteq> insert r A" "r \<in> A'" "card A' \<le> k" "C - A' \<subseteq> (C - A) - {r}"
    proof (cases "card A < k")
      case True
      then have "card (insert r A) \<le> k" using paging_hit.prems False by simp
      then show ?thesis using that [of "insert r A"] by blast
    next
      case full: False
      have "A - C \<noteq> {}"
      proof
        assume "A - C = {}"
        then have "insert r A \<subseteq> C" using paging_hit.hyps by blast
        then have "card (insert r A) \<le> card C" using paging_hit.prems by (intro card_mono)
        then show False using full False paging_hit.prems by simp
      qed
      then obtain z where z: "z \<in> A" "z \<notin> C" by blast
      then have "0 < card A" using paging_hit.prems(1) card_gt_0_iff by blast
      then have "card (insert r (A - {z})) \<le> k" using z False paging_hit.prems full by simp
      moreover have "C - insert r (A - {z}) \<subseteq> (C - A) - {r}" using z by blast
      ultimately show ?thesis using that [of "insert r (A - {z})"] by blast
    qed
    have "finite A'" using A'(1) paging_hit.prems(1) finite_subset by blast
    then obtain m where m: "paging k rs A' m" "m \<le> n + card (C - A')"
      using paging_hit.IH A'(3) paging_hit.prems by blast
    have "card (C - A') \<le> card ((C - A) - {r})" using A'(4) fin by (intro card_mono) auto
    also have "\<dots> < card (C - A)" using paging_hit.hyps False fin by (intro card_Diff1_less) auto
    finally have "Suc m \<le> n + card (C - A)" using m(2) by linarith
    then show ?thesis using paging.paging_fault [OF False A'(1,2,3) m(1)] by blast
  qed
next
  case (paging_fault r C D rs n)
  have fin: "finite D" using paging_fault.hyps paging_fault.prems finite_subset by blast
  show ?case
  proof (cases "r \<in> A")
    case True
    then have sub: "D - A \<subseteq> C - A" using paging_fault.hyps by blast
    obtain m where m: "paging k rs A m" "m \<le> n + card (D - A)"
      using paging_fault.IH paging_fault.prems fin paging_fault.hyps by blast
    have "card (D - A) \<le> card (C - A)" using sub paging_fault.prems by (intro card_mono) auto
    then show ?thesis using paging.paging_hit [OF True m(1)] m(2) by (intro exI [of _ m]) simp
  next
    case False
    obtain A' where A': "A' \<subseteq> insert r A" "r \<in> A'" "card A' \<le> k" "D - A' \<subseteq> C - A"
    proof (cases "card A < k")
      case True
      then have "card (insert r A) \<le> k" using paging_fault.prems False by simp
      then show ?thesis using that [of "insert r A"] paging_fault.hyps by blast
    next
      case full: False
      have "A - D \<noteq> {}"
      proof
        assume "A - D = {}"
        then have "insert r A \<subseteq> D" using paging_fault.hyps by blast
        then have "card (insert r A) \<le> card D" using fin by (intro card_mono)
        then show False using full False paging_fault.prems paging_fault.hyps by simp
      qed
      then obtain z where z: "z \<in> A" "z \<notin> D" by blast
      then have "0 < card A" using paging_fault.prems(1) card_gt_0_iff by blast
      then have "card (insert r (A - {z})) \<le> k" using z False paging_fault.prems full by simp
      moreover have "D - insert r (A - {z}) \<subseteq> C - A" using z paging_fault.hyps by blast
      ultimately show ?thesis using that [of "insert r (A - {z})"] by blast
    qed
    have "finite A'" using A'(1) paging_fault.prems(1) finite_subset by blast
    then obtain m where m: "paging k rs A' m" "m \<le> n + card (D - A')"
      using paging_fault.IH A'(3) fin paging_fault.hyps by blast
    have "card (D - A') \<le> card (C - A)" using A'(4) paging_fault.prems by (intro card_mono) auto
    then show ?thesis using paging.paging_fault [OF False A'(1,2,3) m(1)] m(2)
      by (intro exI [of _ "Suc m"]) simp
  qed
qed

text \<open>\<open>y\<close> is referenced no later than \<open>x\<close>.\<close>

primrec sooner :: "'a \<Rightarrow> 'a \<Rightarrow> 'a list \<Rightarrow> bool" where
  "sooner y x [] \<longleftrightarrow> True"
| "sooner y x (r # rs) \<longleftrightarrow> r = y \<or> r \<noteq> x \<and> sooner y x rs"

text \<open>Keeping the page that is needed first is at least as good.\<close>

lemma paging_exchange:
  assumes "paging k rs (insert x C) n" and "sooner y x rs" and "x \<notin> C" "y \<notin> C" "x \<noteq> y"
    and "finite C" "card C < k"
  shows "\<exists>m \<le> n. paging k rs (insert y C) m"
  using assms
proof (induction rs arbitrary: C n)
  case Nil
  then show ?case by (simp add: paging_Nil)
next
  case (Cons r rs)
  have card: "card (insert y C) \<le> k" "card (insert x C) \<le> k" using Cons.prems by simp_all
  have fy: "finite (insert y C)" using Cons.prems(6) by simp
  from Cons.prems(1) consider "r \<in> insert x C" "paging k rs (insert x C) n"
    | D n' where "n = Suc n'" "r \<notin> insert x C" "D \<subseteq> insert r (insert x C)" "r \<in> D" "card D \<le> k" "paging k rs D n'"
    unfolding paging_Cons by blast
  then show ?case
  proof cases
    case 1
    then have r: "r \<in> C" "r \<noteq> x" "r \<noteq> y" using Cons.prems by auto
    then have soon: "sooner y x rs" using Cons.prems(2) by simp
    obtain m where m: "m \<le> n" "paging k rs (insert y C) m"
      using Cons.IH [OF 1(2) soon Cons.prems(3-7)] by blast
    have "paging k (r # rs) (insert y C) m" using r(1) m(2) by (intro paging.paging_hit) simp_all
    then show ?thesis using m(1) by blast
  next
    case 2
    have fin: "finite D" using 2(3) Cons.prems(6) finite_subset [of D "insert r (insert x C)"] by simp
    show ?thesis
    proof (cases "r = y")
      case True
      obtain m where m: "paging k rs (insert y C) m" "m \<le> n' + card (D - insert y C)"
        using paging_from [OF 2(6) fy card(1) fin 2(5)] by metis
      have "D - insert y C \<subseteq> {x}" using 2(3) True by blast
      then have "card (D - insert y C) \<le> 1" using card_mono [of "{x}"] by fastforce
      then have "m \<le> n" using m(2) 2(1) by simp
      moreover have "paging k (r # rs) (insert y C) m" using True m(1) by (intro paging.paging_hit) simp_all
      ultimately show ?thesis by blast
    next
      case False
      then have r: "r \<noteq> x" "r \<notin> C" "r \<notin> insert y C" and soon: "sooner y x rs"
        using Cons.prems(2) 2(2) by simp_all
      show ?thesis
      proof (cases "x \<in> D")
        case xD: False
        then have "D \<subseteq> insert r (insert y C)" using 2(3) by blast
        then show ?thesis using paging.paging_fault [OF r(3) _ 2(4,5,6)] 2(1) by blast
      next
        case xD: True
        define E where "E = D - {x}"
        have E: "x \<notin> E" "y \<notin> E" "finite E" "card E < k"
          using 2(3,5) fin False Cons.prems(4,5) card_Diff1_less [OF fin xD] by (auto simp: E_def)
        have "insert x E = D" using xD by (auto simp: E_def)
        then have pe: "paging k rs (insert x E) n'" using 2(6) by simp
        obtain m where m: "m \<le> n'" "paging k rs (insert y E) m"
          using Cons.IH [OF pe soon E(1,2) Cons.prems(5) E(3,4)] by blast
        have "insert y E \<subseteq> insert r (insert y C)" "r \<in> insert y E" using 2(3,4) r by (auto simp: E_def)
        moreover have "card (insert y E) \<le> k" using E by simp
        ultimately have "paging k (r # rs) (insert y C) (Suc m)"
          by (intro paging.paging_fault [OF r(3) _ _ _ m(2)])
        moreover have "Suc m \<le> n" using m(1) 2(1) by simp
        ultimately show ?thesis by blast
      qed
    qed
  qed
qed

section \<open>Policies\<close>

text \<open>
  What a replacement policy promises: a reference succeeds and is a hit exactly when the page is in
  memory; a hit loads and evicts nothing; a fault loads the page and nothing else.
\<close>

locale paging_policy =
  fixes step :: "int \<Rightarrow> int list \<Rightarrow> int \<Rightarrow> 's \<Rightarrow> (bool \<times> 's) option"
    and frames :: "'s \<Rightarrow> int list"
    and inv :: "'s \<Rightarrow> bool"
  assumes step_law: "inv st \<Longrightarrow> page \<noteq> - 1 \<Longrightarrow> \<exists>hit st'. step t rest page st = Some (hit, st') \<and> inv st'
      \<and> length (frames st') = length (frames st) \<and> hit = (page \<in> resident (frames st))
      \<and> (if hit then resident (frames st') = resident (frames st)
         else page \<in> resident (frames st') \<and> resident (frames st') \<subseteq> insert page (resident (frames st)))"
begin

text \<open>The simulation counts the references, and its faults are those of a possible paging.\<close>

lemma sim_loop_pages:
  assumes "inv st" and "- 1 \<notin> set refs"
  shows "\<exists>n st'. sim_loop step t refs st res = Some (\<lparr>faults = faults res + n, hits = hits res + (length refs - n)\<rparr>, st')
    \<and> n \<le> length refs \<and> inv st' \<and> length (frames st') = length (frames st)
    \<and> paging (length (frames st)) refs (resident (frames st)) n"
  using assms
proof (induction refs arbitrary: t st res)
  case Nil
  then show ?case by (cases res) (auto intro: paging.paging_end)
next
  case (Cons page rest)
  obtain hit st1 where 1: "step t rest page st = Some (hit, st1)" "inv st1"
    "length (frames st1) = length (frames st)" "hit = (page \<in> resident (frames st))"
    "if hit then resident (frames st1) = resident (frames st)
     else page \<in> resident (frames st1) \<and> resident (frames st1) \<subseteq> insert page (resident (frames st))"
    using step_law [of st page t rest] Cons.prems by auto
  obtain n st' where 2: "sim_loop step (t + 1) rest st1 (count hit res)
      = Some (\<lparr>faults = faults (count hit res) + n, hits = hits (count hit res) + (length rest - n)\<rparr>, st')"
    "n \<le> length rest" "inv st'" "length (frames st') = length (frames st1)"
    "paging (length (frames st1)) rest (resident (frames st1)) n"
    using Cons.IH [OF 1(2), of "t + 1" "count hit res"] Cons.prems by auto
  show ?case
  proof (cases hit)
    case True
    then have "paging (length (frames st)) (page # rest) (resident (frames st)) n"
      using 1 2(5) by (auto intro: paging.paging_hit)
    then show ?thesis using 1 2 True by (auto simp: count_def Suc_diff_le)
  next
    case False
    have "paging (length (frames st)) (page # rest) (resident (frames st)) (Suc n)"
      by (rule paging.paging_fault [of _ _ "resident (frames st1)"])
        (use 1 2(5) False resident_card [of "frames st1"] in auto)
    then show ?thesis using 1 2 False by (auto simp: count_def)
  qed
qed

lemma simulate_pages:
  assumes "inv st" and "- 1 \<notin> set refs"
  shows "\<exists>n. simulate step st True refs = Some \<lparr>faults = n, hits = length refs - n\<rparr> \<and> n \<le> length refs
    \<and> paging (length (frames st)) refs (resident (frames st)) n"
  using sim_loop_pages [OF assms, of 0 no_result] by (auto simp: simulate_def no_result_def)

end


text \<open>The four policies of the simulator.\<close>

lemma free_index_Some: "free_index f = Some i \<Longrightarrow> i < length f \<and> f ! i = - 1"
  by (simp add: free_index_def find_page_Some)

lemma free_index_None: "free_index f = None \<longleftrightarrow> - 1 \<notin> set f"
  by (simp add: free_index_def find_page_None)

lemma resident_page: "page \<noteq> - 1 \<Longrightarrow> page \<in> resident f \<longleftrightarrow> find_page f page \<noteq> None"
  by (simp add: resident_def find_page_None)

lemma lru_scan_bound: "lru_index < i \<Longrightarrow> lru_scan i xs lru_index lru_time < i + length xs"
proof (induction xs arbitrary: i lru_index lru_time)
  case (Cons x xs)
  show ?case using Cons.IH [of i "i + 1" x] Cons.IH [of lru_index "i + 1" lru_time] Cons.prems by simp
qed simp

text \<open>A fault stores the page in some frame.\<close>

lemma store_law:
  assumes "frames_wf f" and "find_page f page = None" and "page \<noteq> - 1" and "i < length f"
  shows "frames_wf (f[i := page])" "page \<in> resident (f[i := page])"
    "resident (f[i := page]) \<subseteq> insert page (resident f)"
  using store_page [of f page i] assms by (auto simp: find_page_None)

definition fifo_inv :: "fifo \<Rightarrow> bool" where
  "fifo_inv st \<longleftrightarrow> frames_wf (ff_frame st) \<and> ff_next st < length (ff_frame st)"

definition lru_inv :: "lru \<Rightarrow> bool" where
  "lru_inv st \<longleftrightarrow> frames_wf (lr_frame st) \<and> length (last_used st) = length (lr_frame st)"

interpretation fifo: paging_policy "\<lambda>t rest. fifo_step" ff_frame fifo_inv
proof
  fix st page
  assume st: "fifo_inv st" "page \<noteq> - (1::int)"
  show "\<exists>hit st'. fifo_step page st = Some (hit, st') \<and> fifo_inv st'
      \<and> length (ff_frame st') = length (ff_frame st) \<and> hit = (page \<in> resident (ff_frame st))
      \<and> (if hit then resident (ff_frame st') = resident (ff_frame st)
         else page \<in> resident (ff_frame st') \<and> resident (ff_frame st') \<subseteq> insert page (resident (ff_frame st)))"
  proof (cases "find_page (ff_frame st) page")
    case None
    then show ?thesis using st store_law [of "ff_frame st" page "ff_next st"]
      by (auto simp: fifo_step_def fifo_inv_def resident_page frames_wf_def intro!: exI [of _ False])
  next
    case (Some pos)
    then show ?thesis using st by (auto simp: fifo_step_def resident_page)
  qed
qed

interpretation rand: paging_policy "\<lambda>t rest. random_step rnd" rn_frame "\<lambda>st. frames_wf (rn_frame st)" for rnd
proof
  fix st :: rnd and page
  assume st: "frames_wf (rn_frame st)" "page \<noteq> - (1::int)"
  have ne: "rn_frame st \<noteq> []" using st by (simp add: frames_wf_def)
  then have lt: "rnd (rn_calls st) mod length (rn_frame st) < length (rn_frame st)" by simp
  show "\<exists>hit st'. random_step rnd page st = Some (hit, st') \<and> frames_wf (rn_frame st')
      \<and> length (rn_frame st') = length (rn_frame st) \<and> hit = (page \<in> resident (rn_frame st))
      \<and> (if hit then resident (rn_frame st') = resident (rn_frame st)
         else page \<in> resident (rn_frame st') \<and> resident (rn_frame st') \<subseteq> insert page (resident (rn_frame st)))"
  proof (cases "find_page (rn_frame st) page")
    case None
    then show ?thesis
      using st ne store_law [OF st(1) None st(2) lt] store_law [OF st(1) None st(2)] free_index_Some [of "rn_frame st"]
      by (cases "free_index (rn_frame st)") (auto simp: random_step_def resident_page)
  next
    case (Some pos)
    then show ?thesis using st by (auto simp: random_step_def resident_page)
  qed
qed

interpretation lru: paging_policy "\<lambda>t rest. lru_step t" lr_frame lru_inv
proof
  fix st page t
  assume st: "lru_inv st" "page \<noteq> - (1::int)"
  then have wf: "frames_wf (lr_frame st)" and len: "length (last_used st) = length (lr_frame st)"
    by (simp_all add: lru_inv_def)
  obtain x xs where xs: "last_used st = x # xs"
    using wf len by (cases "last_used st") (auto simp: frames_wf_def)
  have lt: "lru_scan 1 xs 0 x < length (lr_frame st)"
    using lru_scan_bound [of 0 1 xs x] len xs by simp
  show "\<exists>hit st'. lru_step t page st = Some (hit, st') \<and> lru_inv st'
      \<and> length (lr_frame st') = length (lr_frame st) \<and> hit = (page \<in> resident (lr_frame st))
      \<and> (if hit then resident (lr_frame st') = resident (lr_frame st)
         else page \<in> resident (lr_frame st') \<and> resident (lr_frame st') \<subseteq> insert page (resident (lr_frame st)))"
  proof (cases "find_page (lr_frame st) page")
    case None
    obtain i where i: "i < length (lr_frame st)" "lru_step t page st = Some (False,
        \<lparr>lr_frame = (lr_frame st)[i := page], last_used = (last_used st)[i := t]\<rparr>)"
      using None lt xs free_index_Some [of "lr_frame st"]
      by (cases "free_index (lr_frame st)") (auto simp: lru_step_def Let_def)
    have "page \<notin> resident (lr_frame st)" using None st(2) by (simp add: resident_page)
    then show ?thesis using store_law [OF wf None st(2) i(1)] len unfolding i(2) lru_inv_def
      by (intro exI [of _ False] exI [of _ "\<lparr>lr_frame = (lr_frame st)[i := page],
          last_used = (last_used st)[i := t]\<rparr>"]) simp
  next
    case (Some pos)
    then have "lru_step t page st = Some (True, st\<lparr>last_used := (last_used st)[pos := t]\<rparr>)"
      by (simp add: lru_step_def)
    moreover have "page \<in> resident (lr_frame st)" using Some st(2) by (simp add: resident_page)
    ultimately show ?thesis using wf len unfolding lru_inv_def
      by (intro exI [of _ True] exI [of _ "st\<lparr>last_used := (last_used st)[pos := t]\<rparr>"]) simp
  qed
qed

text \<open>The frame that MIN evicts holds a page that is needed no sooner than any other.\<close>

lemma sooner_find:
  "(case find_page rest z of None \<Rightarrow> True
    | Some a \<Rightarrow> (case find_page rest w of None \<Rightarrow> False | Some b \<Rightarrow> b \<le> a)) \<Longrightarrow> sooner w z rest"
proof (induction rest)
  case (Cons r rest)
  then show ?case by (cases "r = w"; cases "r = z") (auto split: option.splits)
qed simp

lemma min_scan_sooner:
  assumes "min_scan rest i fs evict farthest = Some j" and "(evict = None) = (farthest = None)"
    and "\<And>e. evict = Some e \<Longrightarrow> e < i \<and> e < length all \<and> find_page rest (all ! e) = farthest"
    and "\<And>k. k < i \<Longrightarrow> \<exists>u. find_page rest (all ! k) = Some u \<and> (\<exists>v. farthest = Some v \<and> u \<le> v)"
    and "drop i all = fs"
  shows "j < length all \<and> (\<forall>k < length all. sooner (all ! k) (all ! j) rest)"
  using assms
proof (induction fs arbitrary: i evict farthest)
  case Nil
  then have e: "evict = Some j" by simp
  then have j: "j < length all" "find_page rest (all ! j) = farthest" using Nil.prems(3) by auto
  have "sooner (all ! k) (all ! j) rest" if "k < length all" for k
  proof (rule sooner_find)
    have "k < i" using that Nil.prems(5) by simp
    then show "case find_page rest (all ! j) of None \<Rightarrow> True
      | Some a \<Rightarrow> (case find_page rest (all ! k) of None \<Rightarrow> False | Some b \<Rightarrow> b \<le> a)"
      using Nil.prems(4) [of k] j(2) by auto
  qed
  then show ?case using j(1) by blast
next
  case (Cons f fs)
  have i: "i < length all" "all ! i = f" "drop (i + 1) all = fs"
  proof -
    show "i < length all" using Cons.prems(5) by (metis drop_eq_Nil list.distinct(1) not_less)
    then have "drop i all = all ! i # drop (Suc i) all" by (simp add: Cons_nth_drop_Suc)
    then show "all ! i = f" "drop (i + 1) all = fs" using Cons.prems(5) by simp_all
  qed
  show ?case
  proof (cases "find_page rest f")
    case None
    then have "j = i" using Cons.prems(1) by (simp add: next_use_def)
    moreover have "sooner (all ! k) (all ! i) rest" for k
      by (rule sooner_find) (simp add: i None)
    ultimately show ?thesis using i(1) by blast
  next
    case (Some u)
    have le: "k < i + 1 \<Longrightarrow> k = i \<or> k < i" for k by linarith
    show ?thesis
    proof (cases "farthest = None \<or> u > the farthest")
      case True
      show ?thesis
      proof (rule Cons.IH [where i = "i + 1" and evict = "Some i" and farthest = "Some u"])
        show "\<exists>u'. find_page rest (all ! k) = Some u' \<and> (\<exists>v. Some u = Some v \<and> u' \<le> v)" if "k < i + 1" for k
          using le [OF that] Cons.prems(4) [of k] True Some i(2) by fastforce
      qed (use Cons.prems(1) Some True i in \<open>auto simp: next_use_def\<close>)
    next
      case False
      show ?thesis
      proof (rule Cons.IH [where i = "i + 1" and evict = evict and farthest = farthest])
        show "\<exists>u'. find_page rest (all ! k) = Some u' \<and> (\<exists>v. farthest = Some v \<and> u' \<le> v)" if "k < i + 1" for k
          using le [OF that] Cons.prems(4) [of k] False Some i(2) by fastforce
        show "e < i + 1 \<and> e < length all \<and> find_page rest (all ! e) = farthest" if "evict = Some e" for e
          using Cons.prems(3) [OF that] by simp
      qed (use Cons.prems Some False i in \<open>auto simp: next_use_def\<close>)
    qed
  qed
qed

lemma min_scan_Some: "fs \<noteq> [] \<or> evict \<noteq> None \<Longrightarrow> (evict = None) = (farthest = None) \<Longrightarrow>
    min_scan rest i fs evict farthest \<noteq> None"
proof (induction fs arbitrary: i evict farthest)
  case (Cons f fs)
  show ?case
  proof (cases "next_use rest f")
    case (Some u)
    have "min_scan rest (i + 1) fs (Some i) (Some u) \<noteq> None" by (rule Cons.IH) simp_all
    moreover have "min_scan rest (i + 1) fs evict farthest \<noteq> None" if "farthest \<noteq> None"
      by (rule Cons.IH) (use Cons.prems that in auto)
    ultimately show ?thesis using Some by simp
  qed simp
qed simp

lemma min_evict:
  assumes "f \<noteq> []"
  obtains j where "min_scan rest 0 f None None = Some j" "j < length f"
    "\<forall>k < length f. sooner (f ! k) (f ! j) rest"
proof -
  obtain j where j: "min_scan rest 0 f None None = Some j"
    using min_scan_Some [of f None None rest 0] assms by blast
  have "j < length f \<and> (\<forall>k < length f. sooner (f ! k) (f ! j) rest)"
    by (rule min_scan_sooner [OF j]) simp_all
  then show ?thesis using that j by blast
qed

interpretation belady: paging_policy "\<lambda>t rest. min_step rest" id frames_wf
proof
  fix f page rest
  assume f: "frames_wf f" "page \<noteq> - (1::int)"
  obtain j where j: "min_scan rest 0 f None None = Some j" "j < length f"
    using min_evict [of f rest] f unfolding frames_wf_def by metis
  show "\<exists>hit st'. min_step rest page f = Some (hit, st') \<and> frames_wf st'
      \<and> length (id st') = length (id f) \<and> hit = (page \<in> resident (id f))
      \<and> (if hit then resident (id st') = resident (id f)
         else page \<in> resident (id st') \<and> resident (id st') \<subseteq> insert page (resident (id f)))"
  proof (cases "find_page f page")
    case None
    then show ?thesis
      using f j store_law [OF f(1) None f(2)] free_index_Some [of f]
      by (cases "free_index f") (auto simp: min_step_def resident_page)
  next
    case (Some pos)
    then show ?thesis using f by (auto simp: min_step_def resident_page)
  qed
qed


section \<open>MIN is optimal\<close>

text \<open>One step of MIN on a full frame array.\<close>

lemma min_step_cases:
  assumes wf: "frames_wf f" and p: "page \<noteq> - 1"
  obtains "page \<in> resident f" "min_step rest page f = Some (True, f)"
  | i where "page \<notin> resident f" "- 1 \<in> set f" "min_step rest page f = Some (False, f[i := page])" "frames_wf (f[i := page])"
      "length (f[i := page]) = length f" "resident (f[i := page]) = insert page (resident f)"
  | i where "page \<notin> resident f" "- 1 \<notin> set f" "min_step rest page f = Some (False, f[i := page])" "frames_wf (f[i := page])"
      "length (f[i := page]) = length f" "resident (f[i := page]) = insert page (resident f - {f ! i})"
      "f ! i \<in> resident f" "\<forall>w \<in> resident f. sooner w (f ! i) rest"
proof (cases "find_page f page")
  case (Some pos)
  then show ?thesis using that(1) p by (simp add: resident_page min_step_def)
next
  case None
  then have new: "page \<notin> set f" "page \<notin> resident f" using p by (simp_all add: find_page_None resident_page)
  show ?thesis
  proof (cases "free_index f")
    case (Some i)
    then have i: "i < length f" "f ! i = - 1" using free_index_Some by auto
    then have "- 1 \<in> set f" by (metis nth_mem)
    moreover have "resident (f[i := page]) = insert page (resident f)"
      using store_page(2) [OF wf new(1) p i(1)] i(2) by (auto simp: resident_def)
    ultimately show ?thesis using that(2) [of i] new(2) None Some store_page(1) [OF wf new(1) p i(1)]
      by (simp add: min_step_def)
  next
    case full: None
    then have full': "- 1 \<notin> set f" by (simp add: free_index_None)
    obtain j where j: "min_scan rest 0 f None None = Some j" "j < length f"
      "\<forall>k < length f. sooner (f ! k) (f ! j) rest"
      using min_evict [of f rest] wf unfolding frames_wf_def by metis
    have "f ! j \<in> resident f" using frames_full(3) [OF wf full'] j(2) by simp
    moreover have "\<forall>w \<in> resident f. sooner w (f ! j) rest"
      using frames_full(3) [OF wf full'] j(3) by (metis in_set_conv_nth)
    ultimately show ?thesis
      using that(3) [of j] new(2) full' None full j store_page [OF wf new(1) p j(2)]
      by (simp add: min_step_def)
  qed
qed

lemma min_step_best:
  assumes wf: "frames_wf f" and p: "page \<noteq> - 1" and pg: "paging (length f) (page # rest) (resident f) n"
  shows "\<exists>hit f' n'. min_step rest page f = Some (hit, f') \<and> frames_wf f' \<and> length f' = length f
    \<and> paging (length f) rest (resident f') n' \<and> (if hit then 0 else 1) + n' \<le> n"
proof (rule min_step_cases [OF wf p, of rest])
  assume "page \<in> resident f" "min_step rest page f = Some (True, f)"
  then show ?thesis using pg wf unfolding paging_Cons by auto
next
  fix i
  assume i: "page \<notin> resident f" "min_step rest page f = Some (False, f[i := page])" "frames_wf (f[i := page])"
    "length (f[i := page]) = length f" "resident (f[i := page]) = insert page (resident f)"
  from pg i(1) obtain D m where D: "n = Suc m" "D \<subseteq> insert page (resident f)" "card D \<le> length f"
    "paging (length f) rest D m" unfolding paging_Cons by blast
  have fin: "finite D" using D(2) resident_card(1) [of f] finite_subset by blast
  have "card (resident (f[i := page])) \<le> length f" using resident_card(2) [of "f[i := page]"] by simp
  then obtain m' where "paging (length f) rest (resident (f[i := page])) m'"
    "m' \<le> m + card (D - resident (f[i := page]))"
    using paging_from [OF D(4) resident_card(1) _ fin D(3)] by metis
  moreover have "D - resident (f[i := page]) = {}" using D(2) i(5) by blast
  ultimately have "paging (length f) rest (resident (f[i := page])) m'" "m' \<le> m" by simp_all
  then show ?thesis using i D(1) by (intro exI [of _ False] exI [of _ "f[i := page]"] exI [of _ m']) simp
next
  fix i
  assume i: "page \<notin> resident f" "- 1 \<notin> set f" "min_step rest page f = Some (False, f[i := page])"
    "frames_wf (f[i := page])" "length (f[i := page]) = length f"
    "resident (f[i := page]) = insert page (resident f - {f ! i})"
    "f ! i \<in> resident f" "\<forall>w \<in> resident f. sooner w (f ! i) rest"
  from pg i(1) obtain D m where D: "n = Suc m" "D \<subseteq> insert page (resident f)" "page \<in> D"
    "card D \<le> length f" "paging (length f) rest D m" unfolding paging_Cons by blast
  note fr = resident_card(1) [of f] frames_full(2) [OF wf i(2)]
  have fin: "finite D" using D(2) fr(1) finite_subset by blast
  have "\<not> insert page (resident f) \<subseteq> D"
    using card_mono [OF fin, of "insert page (resident f)"] D(4) fr i(1) by auto
  then obtain w where w: "w \<in> resident f" "w \<notin> D" using D(3) by blast
  define E where "E = insert page (resident f) - {w, f ! i}"
  have A: "insert page (resident f - {w}) = (if w = f ! i then E else insert (f ! i) E)"
    and B: "resident (f[i := page]) = (if w = f ! i then E else insert w E)"
    using w(1) i(1,6,7) by (auto simp: E_def)
  have cA: "card (insert page (resident f - {w})) \<le> length f"
  proof -
    have "card (resident f - {w}) < length f" using card_Diff1_less [OF fr(1) w(1)] fr(2) by simp
    moreover have "finite (resident f - {w})" "page \<notin> resident f - {w}" using fr(1) i(1) by simp_all
    ultimately show ?thesis by simp
  qed
  have fA: "finite (insert page (resident f - {w}))" using fr(1) by simp
  obtain m' where m': "paging (length f) rest (insert page (resident f - {w})) m'"
    "m' \<le> m + card (D - insert page (resident f - {w}))"
    using paging_from [OF D(5) fA cA fin D(4)] by metis
  have "D - insert page (resident f - {w}) = {}" using D(2) w(2) by blast
  then have le: "m' \<le> m" using m'(2) by (metis add.right_neutral card.empty)
  have "\<exists>m'' \<le> m'. paging (length f) rest (resident (f[i := page])) m''"
  proof (cases "w = f ! i")
    case True
    then show ?thesis using m'(1) A B by auto
  next
    case False
    have E: "f ! i \<notin> E" "w \<notin> E" "finite E" using fr(1) by (auto simp: E_def)
    have "card (insert (f ! i) E) \<le> length f" using cA A False by simp
    then have "card E < length f" using E by simp
    moreover have "paging (length f) rest (insert (f ! i) E) m'" using m'(1) A False by simp
    moreover have "sooner w (f ! i) rest" using i(8) w(1) by blast
    ultimately show ?thesis
      using paging_exchange [of "length f" rest "f ! i" E m' w] B False E by simp
  qed
  then obtain m'' where "m'' \<le> m'" "paging (length f) rest (resident (f[i := page])) m''" by blast
  then show ?thesis using i(3-5) D(1) le
    by (intro exI [of _ False] exI [of _ "f[i := page]"] exI [of _ m'']) simp
qed

lemma min_loop_best:
  assumes "frames_wf f" and "- 1 \<notin> set refs" and "paging (length f) refs (resident f) n"
    and "sim_loop (\<lambda>t rest. min_step rest) t refs f res = Some (r, f')"
  shows "faults r \<le> faults res + n"
  using assms
proof (induction refs arbitrary: t f res n)
  case (Cons page rest)
  obtain hit f1 n1 where 1: "min_step rest page f = Some (hit, f1)" "frames_wf f1" "length f1 = length f"
    "paging (length f) rest (resident f1) n1" "(if hit then 0 else 1) + n1 \<le> n"
    using min_step_best [OF Cons.prems(1) _ Cons.prems(3)] Cons.prems(2) by auto
  have "faults r \<le> faults (count hit res) + n1"
    using Cons.IH [of f1 n1 "t + 1" "count hit res"] 1 Cons.prems(2,4) by simp
  then show ?case using 1(5) by (auto simp: count_def split: if_splits)
qed simp

section \<open>LRU evicts the page that was used least recently\<close>

text \<open>\<open>last_used\<close> holds the time of the last reference of the page in each frame.\<close>

definition lru_history :: "int list \<Rightarrow> lru \<Rightarrow> bool" where
  "lru_history xs st \<longleftrightarrow> lru_inv st \<and> (\<forall>i < length (lr_frame st). lr_frame st ! i \<noteq> - 1 \<longrightarrow>
     (\<exists>a. find_page (rev xs) (lr_frame st ! i) = Some a \<and> last_used st ! i = int (length xs) - 1 - int a))"

lemma lru_scan_min:
  assumes "lru_index < i" "drop i lu = xs" "lu ! lru_index = lru_time" "i \<le> length lu"
    and "\<forall>k < i. lru_time \<le> lu ! k"
  shows "\<forall>k < length lu. lu ! lru_scan i xs lru_index lru_time \<le> lu ! k"
  using assms
proof (induction xs arbitrary: i lru_index lru_time)
  case Nil
  then show ?case by simp
next
  case (Cons x xs)
  have i: "i < length lu" using Cons.prems(2) by (metis drop_eq_Nil list.distinct(1) not_less)
  then have "drop i lu = lu ! i # drop (Suc i) lu" by (simp add: Cons_nth_drop_Suc)
  then have x: "lu ! i = x" "drop (i + 1) lu = xs" using Cons.prems(2) by simp_all
  have le: "\<forall>k < i + 1. b \<le> lu ! k" if "\<forall>k < i. b \<le> lu ! k" "b \<le> x" for b
    using that x(1) less_Suc_eq by auto
  show ?case
  proof (cases "x < lru_time")
    case True
    then have "\<forall>k < i + 1. x \<le> lu ! k" using le [of x] Cons.prems(5) by force
    then show ?thesis using True Cons.IH [of i "i + 1" x] x i by simp
  next
    case False
    then show ?thesis using Cons.IH [of lru_index "i + 1" lru_time] Cons.prems x i le [of lru_time] by simp
  qed
qed

lemma lru_history_store:
  assumes h: "lru_history xs st" and i: "i < length (lr_frame st)" and inv: "lru_inv st'"
    and st': "lr_frame st' = (lr_frame st)[i := page]" "last_used st' = (last_used st)[i := int (length xs)]"
    and new: "page \<notin> set (lr_frame st) \<or> lr_frame st ! i = page"
  shows "lru_history (xs @ [page]) st'"
  unfolding lru_history_def
proof (intro conjI inv allI impI)
  fix k
  assume k: "k < length (lr_frame st')" "lr_frame st' ! k \<noteq> - 1"
  have len: "length (last_used st) = length (lr_frame st)" using h by (simp add: lru_history_def lru_inv_def)
  show "\<exists>a. find_page (rev (xs @ [page])) (lr_frame st' ! k) = Some a
      \<and> last_used st' ! k = int (length (xs @ [page])) - 1 - int a"
  proof (cases "k = i")
    case True
    then show ?thesis using i len by (simp add: st')
  next
    case False
    then have f: "lr_frame st' ! k = lr_frame st ! k" "k < length (lr_frame st)" using k by (simp_all add: st')
    have "lr_frame st ! k \<noteq> page"
    proof
      assume e: "lr_frame st ! k = page"
      then have "lr_frame st ! i = page" using new f(2) by (metis nth_mem)
      moreover have "frames_wf (lr_frame st)" using h by (simp add: lru_history_def lru_inv_def)
      ultimately show False using e k(2) f i False unfolding frames_wf_def by metis
    qed
    moreover obtain a where "find_page (rev xs) (lr_frame st ! k) = Some a"
      "last_used st ! k = int (length xs) - 1 - int a"
      using h f k(2) by (auto simp: lru_history_def)
    ultimately show ?thesis using f False by (simp add: st')
  qed
qed

lemma lru_step_history:
  assumes h: "lru_history xs st" and p: "page \<noteq> - 1"
    and step: "lru_step (int (length xs)) page st = Some (hit, st')"
  shows "lru_history (xs @ [page]) st'"
proof -
  have inv: "lru_inv st" using h by (simp add: lru_history_def)
  have inv': "lru_inv st'" using lru.step_law [OF inv p, of "int (length xs)"] step by auto
  show ?thesis
  proof (cases "find_page (lr_frame st) page")
    case (Some pos)
    then have pos: "pos < length (lr_frame st)" "lr_frame st ! pos = page" using find_page_Some by auto
    then have "lr_frame st = (lr_frame st)[pos := page]" by (metis list_update_id)
    then show ?thesis using lru_history_store [OF h pos(1) inv', of page] step Some pos(2)
      by (auto simp: lru_step_def)
  next
    case None
    then have new: "page \<notin> set (lr_frame st)" by (simp add: find_page_None)
    obtain x xs' where xs': "last_used st = x # xs'"
      using inv by (cases "last_used st") (auto simp: lru_inv_def frames_wf_def)
    have "lru_scan 1 xs' 0 x < length (lr_frame st)"
      using lru_scan_bound [of 0 1 xs' x] inv xs' by (simp add: lru_inv_def)
    then obtain i where "i < length (lr_frame st)" "st' = \<lparr>lr_frame = (lr_frame st)[i := page],
        last_used = (last_used st)[i := int (length xs)]\<rparr>"
      using step None xs' free_index_Some [of "lr_frame st"]
      by (cases "free_index (lr_frame st)") (auto simp: lru_step_def Let_def)
    then show ?thesis using lru_history_store [OF h _ inv', of i page] new by simp
  qed
qed

lemma lru_loop_history:
  assumes "lru_history xs st" and "- 1 \<notin> set refs"
    and "sim_loop (\<lambda>t rest. lru_step t) (int (length xs)) refs st res = Some (r, st')"
  shows "lru_history (xs @ refs) st'"
  using assms
proof (induction refs arbitrary: xs st res)
  case (Cons page rest)
  obtain hit st1 where 1: "lru_step (int (length xs)) page st = Some (hit, st1)"
    using Cons.prems(3) by (auto split: option.splits)
  have "lru_history (xs @ [page]) st1" by (rule lru_step_history [OF Cons.prems(1) _ 1]) (use Cons.prems(2) in auto)
  then show ?case using Cons.IH [of "xs @ [page]" st1 "count hit res"] Cons.prems(2,3) 1
    by (simp add: add.commute)
qed simp

lemma lru_history_init: "0 < n \<Longrightarrow> lru_history [] (lru_init n)"
  by (simp add: lru_history_def lru_inv_def lru_init_def frames_wf_init) (simp add: init_frames_def)

lemma lru_victim:
  assumes h: "lru_history xs st" and full: "- 1 \<notin> set (lr_frame st)" and p: "page \<notin> set (lr_frame st)" "page \<noteq> - 1"
  shows "\<exists>i. lru_step t page st = Some (False, \<lparr>lr_frame = (lr_frame st)[i := page], last_used = (last_used st)[i := t]\<rparr>)
    \<and> i < length (lr_frame st) \<and> (\<forall>w \<in> set (lr_frame st). sooner w (lr_frame st ! i) (rev xs))"
proof -
  have wf: "frames_wf (lr_frame st)" "length (last_used st) = length (lr_frame st)"
    using h by (simp_all add: lru_history_def lru_inv_def)
  obtain x lu where lu: "last_used st = x # lu"
    using wf by (cases "last_used st") (auto simp: frames_wf_def)
  let ?i = "lru_scan 1 lu 0 x"
  have i: "?i < length (lr_frame st)" using lru_scan_bound [of 0 1 lu x] wf lu by simp
  have mn: "\<forall>k < length (last_used st). last_used st ! ?i \<le> last_used st ! k"
    by (rule lru_scan_min [of 0 1 _ lu x]) (simp_all add: lu)
  have "sooner w (lr_frame st ! ?i) (rev xs)" if w: "w \<in> set (lr_frame st)" for w
  proof -
    obtain k where k: "k < length (lr_frame st)" "lr_frame st ! k = w" using w by (auto simp: in_set_conv_nth)
    have ne: "lr_frame st ! j \<noteq> - 1" if j: "j < length (lr_frame st)" for j
      using full nth_mem [OF j] by force
    note last = h [unfolded lru_history_def, THEN conjunct2, rule_format]
    obtain a where a: "find_page (rev xs) (lr_frame st ! ?i) = Some a" "last_used st ! ?i = int (length xs) - 1 - int a"
      using last [OF i ne [OF i]] by blast
    obtain b where b: "find_page (rev xs) w = Some b" "last_used st ! k = int (length xs) - 1 - int b"
      using last [OF k(1) ne [OF k(1)]] k(2) by blast
    have "last_used st ! ?i \<le> last_used st ! k" using mn k(1) wf(2) by simp
    then have "b \<le> a" using a(2) b(2) by simp
    then show ?thesis using a(1) b(1) by (intro sooner_find) simp
  qed
  moreover have "lru_step t page st = Some (False, \<lparr>lr_frame = (lr_frame st)[?i := page], last_used = (last_used st)[?i := t]\<rparr>)"
  proof -
    have "find_page (lr_frame st) page = None" "free_index (lr_frame st) = None"
      using p full by (simp_all add: find_page_None free_index_None)
    then show ?thesis using lu by (simp add: lru_step_def Let_def)
  qed
  ultimately show ?thesis using i by (intro exI [of _ ?i] conjI ballI)
qed

section \<open>The traces\<close>

text \<open>The letters of a trace are counted: one per reference.\<close>

lemma dec_nat_digits: "c \<in> set (dec_nat n) \<Longrightarrow> c \<notin> {CHR ''H'', CHR ''F''}"
proof (induction n rule: dec_nat.induct)
  case (1 n)
  have dig: "char_of (48 + d) \<notin> {CHR ''H'', CHR ''F''}" if "d < 10" for d :: nat
  proof -
    have "of_char (char_of (48 + d) :: char) = 48 + d" using that by simp
    then show ?thesis using that by (auto simp del: of_char_of)
  qed
  show ?case
  proof (cases "n < 10")
    case True
    then show ?thesis using 1(2) dig [of n] by (subst (asm) dec_nat.simps) simp
  next
    case False
    have "c \<in> set (dec_nat (n div 10)) \<or> c = char_of (48 + n mod 10)"
      using 1(2) False by (subst (asm) dec_nat.simps) auto
    then show ?thesis using 1(1) [OF False] dig [of "n mod 10"] by auto
  qed
qed

lemma count_letters:
  assumes "l \<in> {CHR ''H'', CHR ''F''}"
  shows "count_list (dec x) l = 0" "count_list (pad w (dec x)) l = 0" "count_list (trace_cell x) l = 0"
proof -
  have n: "count_list (dec_nat n) l = 0" for n
    using dec_nat_digits [of l n] assms by (auto intro: count_notin)
  show d: "count_list (dec x) l = 0" for x using n assms by (auto simp: dec_def)
  have r: "count_list (replicate n (CHR '' '')) l = 0" for n using assms by (induction n) auto
  show p: "count_list (pad w (dec x)) l = 0" for w x using d r by (simp add: pad_def)
  show "count_list (trace_cell x) l = 0" using p assms by (auto simp: trace_cell_def)
qed

lemma count_concat_cells: "l \<in> {CHR ''H'', CHR ''F''} \<Longrightarrow> count_list (concat (map trace_cell f)) l = 0"
  by (induction f) (simp_all add: count_letters)

lemma newline_letters: "l \<in> {CHR ''H'', CHR ''F''} \<Longrightarrow> count_list newline l = 0"
proof -
  have "char_of (10 :: nat) \<notin> {CHR ''H'', CHR ''F''}"
  proof -
    have "of_char (char_of (10 :: nat) :: char) = (10 :: nat)" by simp
    then show ?thesis by (auto simp del: of_char_of)
  qed
  then show "l \<in> {CHR ''H'', CHR ''F''} \<Longrightarrow> count_list newline l = 0" by (auto simp: newline_def)
qed

lemma count_trace_line:
  "count_list (trace_line t page f c) (CHR ''H'') = (if c = CHR ''H'' then 1 else 0)"
  "count_list (trace_line t page f c) (CHR ''F'') = (if c = CHR ''F'' then 1 else 0)"
  by (simp_all add: trace_line_def count_letters count_concat_cells newline_letters)

text \<open>
  The trace \<open>tstep\<close> does what the simulation \<open>step\<close> does, on tables related by \<open>R\<close>: it prints \<open>H\<close> for a hit
  and \<open>F\<close> for a fault.
\<close>

definition same_step :: "(int \<Rightarrow> int list \<Rightarrow> int \<Rightarrow> 's \<Rightarrow> (bool \<times> 's) option) \<Rightarrow> (int \<Rightarrow> int list \<Rightarrow> int \<Rightarrow> 's \<Rightarrow> (char \<times> 's) option)
    \<Rightarrow> ('s \<Rightarrow> 's \<Rightarrow> bool) \<Rightarrow> bool" where
  "same_step step tstep R \<longleftrightarrow> (\<forall>t rest page st u hit st'. 0 \<le> t \<longrightarrow> R st u \<longrightarrow> step t rest page st = Some (hit, st') \<longrightarrow>
     (\<exists>u'. tstep t rest page u = Some (if hit then CHR ''H'' else CHR ''F'', u') \<and> R st' u'))"

lemma fifo_same: "same_step (\<lambda>t rest. fifo_step) (\<lambda>t rest. fifo_trace_step) (=)"
  by (auto simp: same_step_def fifo_step_def fifo_trace_step_def split: option.splits if_splits)

lemma random_same:
  "same_step (\<lambda>t rest. random_step (\<lambda>i. rand (k + i))) (\<lambda>t rest. random_trace_step rand)
     (\<lambda>st u. u = st\<lparr>rn_calls := k + rn_calls st\<rparr>)"
  by (auto simp: same_step_def random_step_def random_trace_step_def split: option.splits if_splits)

lemma lru_scan_same:
  assumes "\<forall>j < length xs. used ! (k + j) = xs ! j"
  shows "lru_scan k xs ix tm = fst (lru_trace_scan used [k..<k + length xs] (ix, tm))"
  using assms
proof (induction xs arbitrary: k ix tm)
  case (Cons x xs)
  have "used ! k = x" "\<forall>j < length xs. used ! (k + 1 + j) = xs ! j" using Cons.prems by auto
  moreover have "[k..<k + length (x # xs)] = k # [k + 1..<k + 1 + length xs]" by (simp add: upt_rec [of k] del: upt_Suc)
  ultimately show ?case using Cons.IH [of "k + 1"] by (simp add: lru_trace_scan_def del: upt_Suc)
qed (simp add: lru_trace_scan_def)

lemma lru_same: "same_step (\<lambda>t rest. lru_step t) (\<lambda>t rest. lru_trace_step t) (=)"
proof -
  have "lru_scan 1 xs 0 x = fst (lru_trace_scan (x # xs) [1..<length (x # xs)] (0, x))" for x xs
    using lru_scan_same [of xs "x # xs" 1 0 x] by simp
  then show ?thesis
    by (auto simp: same_step_def lru_step_def lru_trace_step_def Let_def split: option.splits list.splits if_splits)
qed

lemma min_next_same:
  "min_trace_next j rest p = (case next_use rest p of None \<Rightarrow> - 1 | Some d \<Rightarrow> j + int d)"
  by (induction rest arbitrary: j) (auto simp: next_use_def split: option.splits)

lemma min_scan_same:
  assumes t: "0 \<le> t"
  shows "min_trace_scan t rest (int i) fs (case ev of None \<Rightarrow> - 1 | Some k \<Rightarrow> int k)
      (case far of None \<Rightarrow> - 1 | Some u \<Rightarrow> t + 1 + int u)
    = (case min_scan rest i fs ev far of None \<Rightarrow> - 1 | Some k \<Rightarrow> int k)"
proof (induction fs arbitrary: i ev far)
  case (Cons f fs)
  note far = Cons.IH [of "i + 1" "Some i"] and keep = Cons.IH [of "i + 1" ev far]
  show ?case
  proof (cases "next_use rest f")
    case (Some u)
    then show ?thesis using t far [of "Some u"] keep
      by (cases far) (auto simp: min_next_same Let_def add.commute split: option.splits)
  qed (simp add: min_next_same)
qed simp

lemma min_same: "same_step (\<lambda>t rest. min_step rest) min_trace_step (=)"
  unfolding same_step_def
proof (intro allI impI)
  fix t :: int and rest page st u hit st'
  assume h: "0 \<le> t" "st = u" "min_step rest page st = Some (hit, st')"
  have "min_trace_scan t rest 0 st (- 1) (- 1) = (case min_scan rest 0 st None None of None \<Rightarrow> - 1 | Some k \<Rightarrow> int k)"
    using min_scan_same [OF h(1), of rest 0 st None None] by simp
  then show "\<exists>u'. min_trace_step t rest page u = Some (if hit then CHR ''H'' else CHR ''F'', u') \<and> st' = u'"
    using h by (auto simp: min_step_def min_trace_step_def Let_def split: option.splits if_splits)
qed

lemma trace_loop_counts:
  assumes "same_step step tstep R" and "sim_loop step t refs st res = Some (r, st')" and "R st u" and "0 \<le> t"
  shows "\<exists>out. trace_loop tstep frame t refs u = Some out
    \<and> hits r = hits res + count_list out (CHR ''H'') \<and> faults r = faults res + count_list out (CHR ''F'')"
  using assms(2-)
proof (induction refs arbitrary: t st u res)
  case (Cons page rest)
  obtain hit st1 where 1: "step t rest page st = Some (hit, st1)"
    "sim_loop step (t + 1) rest st1 (count hit res) = Some (r, st')"
    using Cons.prems by (auto split: option.splits)
  obtain u1 where 2: "tstep t rest page u = Some (if hit then CHR ''H'' else CHR ''F'', u1)" "R st1 u1"
    using assms(1) 1(1) Cons.prems unfolding same_step_def by blast
  show ?case using Cons.IH [OF 1(2) 2(2)] 2(1) Cons.prems(3) by (auto simp: count_trace_line count_def)
qed simp

lemma trace_header_counts:
  "count_list (trace_header n) (CHR ''H'') = 1" "count_list (trace_header n) (CHR ''F'') = n + 1"
proof -
  have "count_list (concat (map (\<lambda>i. '' F'' @ dec (int i) @ '' '') is)) (CHR ''H'') = 0"
    "count_list (concat (map (\<lambda>i. '' F'' @ dec (int i) @ '' '') is)) (CHR ''F'') = length is"
    "count_list (concat (map (\<lambda>i. ''----'') is)) (CHR ''H'') = 0"
    "count_list (concat (map (\<lambda>i. ''----'') is)) (CHR ''F'') = 0" for "is"
    by (induction "is") (simp_all add: count_letters)
  then show "count_list (trace_header n) (CHR ''H'') = 1" "count_list (trace_header n) (CHR ''F'') = n + 1"
    by (simp_all add: trace_header_def newline_letters)
qed

lemma trace_counts:
  assumes "same_step step tstep R" and "simulate step st True refs = Some r" and "R st u"
  shows "\<exists>out. trace tstep frame u True refs n = Some out
    \<and> count_list out (CHR ''H'') = hits r + 1 \<and> count_list out (CHR ''F'') = faults r + n + 1"
proof -
  obtain st' where "sim_loop step 0 refs st no_result = Some (r, st')"
    using assms by (auto simp: simulate_def)
  from trace_loop_counts [OF assms(1) this assms(3), of frame] show ?thesis
    by (auto simp: trace_def trace_header_counts no_result_def)
qed

section \<open>Properties\<close>

lemma inits:
  assumes "0 < n"
  shows "fifo_inv (fifo_init n)" "lru_inv (lru_init n)" "frames_wf (rn_frame (rnd_init c n))"
    "ff_frame (fifo_init n) = init_frames n" "lr_frame (lru_init n) = init_frames n"
    "rn_frame (rnd_init c n) = init_frames n" "length (init_frames n) = n"
  using frames_wf_init [OF assms] assms
  by (simp_all add: fifo_inv_def fifo_init_def lru_inv_def lru_init_def rnd_init_def init_frames_def)

lemma policies:
  assumes "0 < n" and "- 1 \<notin> set refs"
  shows "\<exists>k. simulate_fifo True refs n = Some \<lparr>faults = k, hits = length refs - k\<rparr> \<and> k \<le> length refs \<and> paging n refs {} k"
    "\<exists>k. simulate_lru True refs n = Some \<lparr>faults = k, hits = length refs - k\<rparr> \<and> k \<le> length refs \<and> paging n refs {} k"
    "\<exists>k. simulate_random True rand refs n = Some \<lparr>faults = k, hits = length refs - k\<rparr> \<and> k \<le> length refs \<and> paging n refs {} k"
    "\<exists>k. simulate_min True refs n = Some \<lparr>faults = k, hits = length refs - k\<rparr> \<and> k \<le> length refs \<and> paging n refs {} k"
  using fifo.simulate_pages [OF inits(1) [OF assms(1)] assms(2)] lru.simulate_pages [OF inits(2) [OF assms(1)] assms(2)]
    rand.simulate_pages [OF inits(3) [OF assms(1)] assms(2)] belady.simulate_pages [OF frames_wf_init [OF assms(1)] assms(2)]
    inits(4-7) [OF assms(1)]
  by (simp_all add: simulate_fifo_def simulate_lru_def simulate_random_def simulate_min_def)

text \<open>
  Property C11: MIN is optimal. On at least one frame the simulation of MIN ends and counts each
  reference once, and no policy that loads pages on demand into that many frames, whatever it knows
  of the future, serves the references with fewer faults; in particular none of the simulator's
  other policies does.
\<close>

theorem min_is_optimal:
  assumes "0 < frames" and "- 1 \<notin> set refs"
  shows "\<exists>k. simulate_min True refs frames = Some \<lparr>faults = k, hits = length refs - k\<rparr> \<and> k \<le> length refs
    \<and> (\<forall>n. paging frames refs {} n \<longrightarrow> k \<le> n)
    \<and> (\<exists>r. simulate_fifo True refs frames = Some r \<and> k \<le> faults r)
    \<and> (\<exists>r. simulate_lru True refs frames = Some r \<and> k \<le> faults r)
    \<and> (\<exists>r. simulate_random True rand refs frames = Some r \<and> k \<le> faults r)"
proof -
  obtain k where k: "simulate_min True refs frames = Some \<lparr>faults = k, hits = length refs - k\<rparr>" "k \<le> length refs"
    using policies(4) [OF assms] by blast
  then obtain f' where f': "sim_loop (\<lambda>t rest. min_step rest) 0 refs (init_frames frames) no_result
      = Some (\<lparr>faults = k, hits = length refs - k\<rparr>, f')"
    by (auto simp: simulate_min_def simulate_def)
  have best: "k \<le> n" if "paging frames refs {} n" for n
    using min_loop_best [OF frames_wf_init [OF assms(1)] assms(2) _ f', of n] that
    by (simp add: no_result_def inits(7) [OF assms(1)])
  obtain a b c where "simulate_fifo True refs frames = Some \<lparr>faults = a, hits = length refs - a\<rparr>" "paging frames refs {} a"
    "simulate_lru True refs frames = Some \<lparr>faults = b, hits = length refs - b\<rparr>" "paging frames refs {} b"
    "simulate_random True rand refs frames = Some \<lparr>faults = c, hits = length refs - c\<rparr>" "paging frames refs {} c"
    using policies(1,2) [OF assms] policies(3) [OF assms, of rand] by blast
  then show ?thesis using k best by (intro exI [of _ k] conjI) auto
qed

theorem min_is_optimal_witness:
  "\<exists>k. simulate_min True [1, 2, 3, 4, 1, 2, 5, 1, 2, 3, 4, 5] 3
      = Some \<lparr>faults = k, hits = length [1, 2, 3, 4, 1, 2, 5, 1, 2, 3, 4, 5::int] - k\<rparr>
    \<and> k \<le> length [1, 2, 3, 4, 1, 2, 5, 1, 2, 3, 4, 5::int]
    \<and> (\<forall>n. paging 3 [1, 2, 3, 4, 1, 2, 5, 1, 2, 3, 4, 5::int] {} n \<longrightarrow> k \<le> n)
    \<and> (\<exists>r. simulate_fifo True [1, 2, 3, 4, 1, 2, 5, 1, 2, 3, 4, 5] 3 = Some r \<and> k \<le> faults r)
    \<and> (\<exists>r. simulate_lru True [1, 2, 3, 4, 1, 2, 5, 1, 2, 3, 4, 5] 3 = Some r \<and> k \<le> faults r)
    \<and> (\<exists>r. simulate_random True id [1, 2, 3, 4, 1, 2, 5, 1, 2, 3, 4, 5] 3 = Some r \<and> k \<le> faults r)"
  by (rule min_is_optimal) simp_all

text \<open>
  Property C28: LRU evicts the page whose last reference is the oldest. After any references the
  simulation of LRU reaches a state in which, if a new page is referenced and every frame is taken,
  the page it replaces was referenced no later than every other page in memory (\<open>sooner\<close> on the
  references in reverse).
\<close>

theorem lru_evicts_oldest:
  assumes "0 < frames" and "- 1 \<notin> set refs" and "page \<noteq> - 1"
  shows "\<exists>r st. sim_loop (\<lambda>t rest. lru_step t) 0 refs (lru_init frames) no_result = Some (r, st)
    \<and> (- 1 \<notin> set (lr_frame st) \<longrightarrow> page \<notin> set (lr_frame st) \<longrightarrow>
        (\<exists>i. lru_step t page st = Some (False, \<lparr>lr_frame = (lr_frame st)[i := page], last_used = (last_used st)[i := t]\<rparr>)
          \<and> i < length (lr_frame st) \<and> (\<forall>w \<in> set (lr_frame st). sooner w (lr_frame st ! i) (rev refs))))"
proof -
  obtain r st where 1: "sim_loop (\<lambda>t rest. lru_step t) 0 refs (lru_init frames) no_result = Some (r, st)"
    using lru.sim_loop_pages [OF inits(2) [OF assms(1)] assms(2), of 0 no_result] by auto
  have "lru_history refs st"
    using lru_loop_history [OF lru_history_init [OF assms(1)] assms(2), of no_result r st] 1 by simp
  then show ?thesis using lru_victim assms(3) 1 by blast
qed

theorem lru_evicts_oldest_witness:
  "\<exists>r st. sim_loop (\<lambda>t rest. lru_step t) 0 [1, 2, 1] (lru_init 2) no_result = Some (r, st)
    \<and> (- 1 \<notin> set (lr_frame st) \<longrightarrow> 3 \<notin> set (lr_frame st) \<longrightarrow>
        (\<exists>i. lru_step 3 3 st = Some (False, \<lparr>lr_frame = (lr_frame st)[i := 3], last_used = (last_used st)[i := 3]\<rparr>)
          \<and> i < length (lr_frame st) \<and> (\<forall>w \<in> set (lr_frame st). sooner w (lr_frame st ! i) (rev [1, 2, 1]))))"
  by (rule lru_evicts_oldest) simp_all

text \<open>A simulation result and a printed trace that agree.\<close>

definition agree :: "SimResult option \<Rightarrow> string option \<Rightarrow> int list \<Rightarrow> nat \<Rightarrow> bool" where
  "agree res trc refs n \<longleftrightarrow> (\<exists>r out. res = Some r \<and> trc = Some out \<and> hits r + faults r = length refs
     \<and> count_list out (CHR ''H'') = hits r + 1 \<and> count_list out (CHR ''F'') = faults r + n + 1)"

lemma agree_intro:
  assumes "same_step step tstep R" and "R st u"
    and "\<exists>k. simulate step st True refs = Some \<lparr>faults = k, hits = length refs - k\<rparr> \<and> k \<le> length refs \<and> X k"
  shows "agree (simulate step st True refs) (trace tstep frame u True refs frames) refs frames"
proof -
  obtain k where k: "simulate step st True refs = Some \<lparr>faults = k, hits = length refs - k\<rparr>" "k \<le> length refs"
    using assms(3) by blast
  from trace_counts [OF assms(1) k(1) assms(2), where frame = frame and n = frames] show ?thesis unfolding agree_def k(1) using k(2) by auto
qed

text \<open>
  Property C35: the printed traces agree with the counts of the simulations. On the same references
  every trace ends, its rows show as many \<open>H\<close> and \<open>F\<close> as the simulation counts hits and faults
  (the header shows one \<open>H\<close>, and one \<open>F\<close> and one more per frame), and hits and faults add up to the
  number of references. For the random policy this holds of a simulation that draws the random numbers
  the trace draws, from the call number \<open>calls\<close> on; the main program lets them draw different ones.
\<close>

theorem traces_agree:
  assumes "0 < frames" and "- 1 \<notin> set refs"
  shows "agree (simulate_fifo True refs frames) (fifo_trace True refs frames) refs frames
    \<and> agree (simulate_lru True refs frames) (lru_trace True refs frames) refs frames
    \<and> agree (simulate_min True refs frames) (min_trace True refs frames) refs frames
    \<and> agree (simulate_random True (\<lambda>i. rand (calls + i)) refs frames) (random_trace True rand calls refs frames) refs frames"
  unfolding simulate_fifo_def simulate_lru_def simulate_min_def simulate_random_def
      fifo_trace_def lru_trace_def min_trace_def random_trace_def
  using policies(1,2,4) [OF assms] policies(3) [OF assms, of "\<lambda>i. rand (calls + i)"]
  unfolding simulate_fifo_def simulate_lru_def simulate_min_def simulate_random_def
  by (intro conjI agree_intro [OF fifo_same] agree_intro [OF lru_same] agree_intro [OF min_same] agree_intro [OF random_same])
    (simp_all add: rnd_init_def)

theorem traces_agree_witness:
  "agree (simulate_fifo True [1, 2, 3, 1] 2) (fifo_trace True [1, 2, 3, 1] 2) [1, 2, 3, 1] 2
    \<and> agree (simulate_lru True [1, 2, 3, 1] 2) (lru_trace True [1, 2, 3, 1] 2) [1, 2, 3, 1] 2
    \<and> agree (simulate_min True [1, 2, 3, 1] 2) (min_trace True [1, 2, 3, 1] 2) [1, 2, 3, 1] 2
    \<and> agree (simulate_random True (\<lambda>i. 5 + i) [1, 2, 3, 1] 2) (random_trace True (\<lambda>i. i) 5 [1, 2, 3, 1] 2) [1, 2, 3, 1] 2"
  by (rule traces_agree) simp_all

end
