(* ===== verification/Vm.thy ===== *)
theory Vm
  imports KPrelude
begin

text \<open>
  Physical memory (kern/arch/mips/mips/ram.c), the interrupt level (spl.c) and the page allocator of the
  virtual memory system (kern/arch/mips/mips/vm.c). Memory is a function from kernel addresses to 32-bit
  words; the allocator's table lives in it. The state record is extended by the components built on top.
\<close>

section \<open>State\<close>

definition PAGE_SIZE :: nat where "PAGE_SIZE = 4096"
definition MIPS_KSEG0 :: nat where "MIPS_KSEG0 = 0x80000000"
definition SPL_HIGH :: int where "SPL_HIGH = 15"

record vm =
  curspl :: int
  firstfree :: nat      \<comment> \<open>first free virtual address, set by start.S\<close>
  firstpaddr :: nat
  lastpaddr :: nat
  ipt :: nat            \<comment> \<open>address of the table\<close>
  system_pages :: int
  avail_pages :: int
  bootstrapped :: bool
  vm_lo :: nat
  kword :: "nat \<Rightarrow> nat"  \<comment> \<open>the word at a kernel address\<close>

definition PADDR_TO_KVADDR :: "nat \<Rightarrow> nat" where
  "PADDR_TO_KVADDR paddr = u32 (paddr + MIPS_KSEG0)"

definition KVADDR_TO_PADDR :: "nat \<Rightarrow> nat" where
  "KVADDR_TO_PADDR vaddr = sub32 vaddr MIPS_KSEG0"

definition ROUND_DOWN :: "nat \<Rightarrow> nat" where "ROUND_DOWN a = a div PAGE_SIZE * PAGE_SIZE"
definition ROUND_UP :: "nat \<Rightarrow> nat" where "ROUND_UP a = ROUND_DOWN (u32 (a + PAGE_SIZE - 1))"
definition N_PAGES :: "nat \<Rightarrow> nat" where "N_PAGES bytes = ROUND_UP bytes div PAGE_SIZE"
definition PAGE_IDX :: "nat \<Rightarrow> nat" where "PAGE_IDX addr = ROUND_DOWN addr div PAGE_SIZE"

section \<open>The interrupt level\<close>

definition splx :: "int \<Rightarrow> ('a vm_scheme, int) op" where
  "splx newspl = kbind (kget curspl) (\<lambda>oldspl. kbind (kmodify (\<lambda>s. s\<lparr>curspl := newspl\<rparr>)) (\<lambda>_. kret oldspl))"

definition splhigh :: "('a vm_scheme, int) op" where
  "splhigh = splx SPL_HIGH"

section \<open>RAM\<close>

text \<open>The size of the memory is read from the bus controller (\<open>mips_ramsize\<close>).\<close>

definition ram_bootstrap :: "nat \<Rightarrow> ('a vm_scheme, unit) op" where
  "ram_bootstrap ramsize = kmodify (\<lambda>s. s\<lparr>lastpaddr := min ramsize (508 * 1024 * 1024),
     firstpaddr := sub32 (firstfree s) MIPS_KSEG0\<rparr>)"

definition ram_stealmem :: "nat \<Rightarrow> ('a vm_scheme, nat) op" where
  "ram_stealmem npages =
     kbind (kget (\<lambda>s. (firstpaddr s, lastpaddr s))) (\<lambda>(f, l).
     let size = u32 (npages * PAGE_SIZE) in
     if u32 (f + size) > l then kret 0
     else kbind (kmodify (\<lambda>s. s\<lparr>firstpaddr := u32 (f + size)\<rparr>)) (\<lambda>_. kret f))"

definition ram_getsize :: "('a vm_scheme, nat \<times> nat) op" where
  "ram_getsize =
     kbind (kget (\<lambda>s. (firstpaddr s, lastpaddr s))) (\<lambda>r.
     kbind (kmodify (\<lambda>s. s\<lparr>firstpaddr := 0, lastpaddr := 0\<rparr>)) (\<lambda>_. kret r))"

section \<open>The page allocator\<close>

text \<open>\<open>ipt[i].alloc_len\<close>, a signed word.\<close>

definition ipt_addr :: "'a vm_scheme \<Rightarrow> int \<Rightarrow> nat" where
  "ipt_addr s i = to_u32 (int (ipt s) + 4 * i)"

definition ipt_len :: "'a vm_scheme \<Rightarrow> int \<Rightarrow> int" where
  "ipt_len s i = off32 (int (kword s (ipt_addr s i)))"

definition set_word :: "nat \<Rightarrow> nat \<Rightarrow> ('a vm_scheme, unit) op" where
  "set_word a w = kmodify (\<lambda>s. s\<lparr>kword := (kword s)(a := w)\<rparr>)"

definition ipt_set :: "int \<Rightarrow> int \<Rightarrow> ('a vm_scheme, unit) op" where
  "ipt_set i n = kbind (kget (\<lambda>s. ipt_addr s i)) (\<lambda>a. set_word a (to_u32 n))"

text \<open>The loop of \<open>alloc_ppages\<close>; its value is the final \<open>i\<close>.\<close>

function alloc_scan :: "'a vm_scheme \<Rightarrow> int \<Rightarrow> int \<Rightarrow> int \<Rightarrow> int" where
  "alloc_scan s npages i len =
     (if len < npages \<and> i < system_pages s then
        if ipt_len s i > 0 then alloc_scan s npages (i + ipt_len s i) 0
        else alloc_scan s npages (i + 1) (len + 1)
      else i)"
  by pat_completeness auto
termination
  by (relation "measure (\<lambda>(s, npages, i, len). nat (system_pages s - i))") auto

declare alloc_scan.simps [simp del]

definition alloc_ppages :: "int \<Rightarrow> ('a vm_scheme, nat) op" where
  "alloc_ppages npages =
     kbind (kget curspl) (\<lambda>spl.
     kbind (kassert (spl > 0)) (\<lambda>_.
     kbind (kget (\<lambda>s. alloc_scan s npages 0 0)) (\<lambda>i.
     kbind (kget system_pages) (\<lambda>sp.
     kbind (if i = sp then kret 0
            else kbind (ipt_set (i - npages) npages) (\<lambda>_.
                 kget (\<lambda>s. to_u32 ((i - npages) * int PAGE_SIZE + int (vm_lo s))))) (\<lambda>ret.
     kbind (kmodify (\<lambda>s. s\<lparr>avail_pages := avail_pages s - npages\<rparr>)) (\<lambda>_.
     kret ret))))))"

definition alloc_kpages :: "int \<Rightarrow> ('a vm_scheme, nat) op" where
  "alloc_kpages npages =
     kbind splhigh (\<lambda>spl.
     kbind (kget bootstrapped) (\<lambda>up.
     kbind (if up then alloc_ppages npages else ram_stealmem (to_u32 npages)) (\<lambda>ret.
     kbind (splx spl) (\<lambda>_.
     kret (PADDR_TO_KVADDR ret)))))"

definition free_ppages :: "nat \<Rightarrow> ('a vm_scheme, unit) op" where
  "free_ppages addr =
     kbind (kget (\<lambda>s. int (PAGE_IDX (sub32 addr (vm_lo s))))) (\<lambda>page.
     kbind (kmodify (\<lambda>s. s\<lparr>avail_pages := avail_pages s + ipt_len s page\<rparr>)) (\<lambda>_.
     ipt_set page 0))"

definition free_kpages :: "nat \<Rightarrow> ('a vm_scheme, unit) op" where
  "free_kpages addr = free_ppages (KVADDR_TO_PADDR addr)"

definition vm_bootstrap :: "('a vm_scheme, unit) op" where
  "vm_bootstrap =
     kbind splhigh (\<lambda>spl.
     kbind ram_getsize (\<lambda>(lo, hi).
     kbind (kmodify (\<lambda>s. s\<lparr>vm_lo := lo, system_pages := int (N_PAGES (sub32 hi lo)),
        avail_pages := int (N_PAGES (sub32 hi lo)), ipt := PADDR_TO_KVADDR lo\<rparr>)) (\<lambda>_.
     kbind (kfor [0..<N_PAGES (sub32 hi lo)] (\<lambda>i. ipt_set (int i) 0)) (\<lambda>_.
     kbind (kmodify (\<lambda>s. s\<lparr>bootstrapped := True\<rparr>)) (\<lambda>_.
     kbind (alloc_kpages (int (N_PAGES (u32 (N_PAGES (sub32 hi lo) * 4))))) (\<lambda>_.
     kbind (splx spl) (\<lambda>_. kret ())))))))"

section \<open>The table as a list of regions\<close>

definition ipt_list :: "'a vm_scheme \<Rightarrow> int list" where
  "ipt_list s = map (\<lambda>i. ipt_len s (int i)) [0..<nat (system_pages s)]"

text \<open>Every allocated region ends inside the table and no other starts in it.\<close>

definition ipt_ok :: "int list \<Rightarrow> bool" where
  "ipt_ok xs \<longleftrightarrow> (\<forall>i < length xs. 0 \<le> xs ! i \<and> (0 < xs ! i \<longrightarrow> i + nat (xs ! i) \<le> length xs
     \<and> (\<forall>j. i < j \<longrightarrow> j < i + nat (xs ! i) \<longrightarrow> xs ! j = 0)))"

text \<open>What the table means: the start of each allocated region, with its length, and the pages in them.\<close>

definition regions :: "int list \<Rightarrow> nat \<rightharpoonup> nat" where
  "regions xs i = (if i < length xs \<and> 0 < xs ! i then Some (nat (xs ! i)) else None)"

definition pages_of :: "(nat \<rightharpoonup> nat) \<Rightarrow> nat set" where
  "pages_of R = {p. \<exists>i n. R i = Some n \<and> i \<le> p \<and> p < i + n}"

definition free_run :: "int list \<Rightarrow> nat \<Rightarrow> nat \<Rightarrow> bool" where
  "free_run xs n j \<longleftrightarrow> j + n \<le> length xs \<and> {j..<j + n} \<inter> pages_of (regions xs) = {}"

lemma length_ipt_list [simp]: "length (ipt_list s) = nat (system_pages s)"
  by (simp add: ipt_list_def)

lemma nth_ipt_list: "i < nat (system_pages s) \<Longrightarrow> ipt_list s ! i = ipt_len s (int i)"
  by (simp add: ipt_list_def)

lemma ipt_okD:
  assumes "ipt_ok xs" and "i < length xs"
  shows "0 \<le> xs ! i" "0 < xs ! i \<Longrightarrow> i + nat (xs ! i) \<le> length xs"
    "0 < xs ! i \<Longrightarrow> i < j \<Longrightarrow> j < i + nat (xs ! i) \<Longrightarrow> xs ! j = 0"
  using assms unfolding ipt_ok_def by simp_all

text \<open>First fit: the scan stops behind the first run of free pages, or at the end of the table.\<close>

lemma alloc_scan_first:
  assumes ok: "ipt_ok (ipt_list s)" and sp: "0 \<le> system_pages s" and N: "0 < N"
    and i: "i \<le> nat (system_pages s)" "len \<le> N" "len \<le> i" "free_run (ipt_list s) len (i - len)"
    and bd: "\<And>r k. regions (ipt_list s) r = Some k \<Longrightarrow> r < i \<Longrightarrow> r + k \<le> i"
    and none: "\<And>j. free_run (ipt_list s) N j \<Longrightarrow> i - len \<le> j"
  shows "\<exists>q. alloc_scan s (int N) (int i) (int len) = int q \<and> q \<le> nat (system_pages s)
    \<and> (if \<exists>j. free_run (ipt_list s) N j
        then N \<le> q \<and> free_run (ipt_list s) N (q - N) \<and> (\<forall>j. free_run (ipt_list s) N j \<longrightarrow> q - N \<le> j)
        else q = nat (system_pages s))"
  using i bd none
proof (induction "nat (system_pages s) - i" arbitrary: i len rule: less_induct)
  case less
  let ?xs = "ipt_list s" and ?n = "nat (system_pages s)"
  note bd = less.prems(5) and none = less.prems(6)
  show ?case
  proof (cases "len < N \<and> i < ?n")
    case True
    then have tr: "len < N" "i < ?n" by simp_all
    from True have lt: "int len < int N \<and> int i < system_pages s" by auto
    have xi: "ipt_len s (int i) = ?xs ! i" using True by (simp add: nth_ipt_list)
    have il: "i < length ?xs" using True by simp
    show ?thesis
    proof (cases "0 < ?xs ! i")
      case pos: True
      define k where "k = nat (?xs ! i)"
      have k: "?xs ! i = int k" "0 < k" using pos by (simp_all add: k_def)
      have ri: "regions ?xs i = Some k" using pos il by (simp add: regions_def k_def)
      have ik: "i + k \<le> ?n" using ipt_okD(2) [OF ok il pos] by (simp add: k_def)
      have step: "alloc_scan s (int N) (int i) (int len) = alloc_scan s (int N) (int (i + k)) (int 0)"
        by (subst alloc_scan.simps) (use lt k in \<open>simp add: xi\<close>)
      show ?thesis unfolding step
      proof (rule less.hyps)
        show "?n - (i + k) < ?n - i" using k(2) tr by linarith
        show "free_run ?xs 0 (i + k - 0)" using ik by (simp add: free_run_def)
        fix r m
        assume r: "regions ?xs r = Some m" "r < i + k"
        show "r + m \<le> i + k"
        proof (cases "r < i")
          case True
          then show ?thesis using bd [OF r(1)] by simp
        next
          case False
          then show ?thesis using r ri ipt_okD(3) [OF ok il pos, of r] by (cases "r = i") (auto simp: regions_def k_def split: if_splits)
        qed
      next
        fix j
        assume j: "free_run ?xs N j"
        have "i - len \<le> j" by (rule none [OF j])
        then have "i < j + N" using tr less.prems(3) by linarith
        moreover have "p \<in> pages_of (regions ?xs)" if "i \<le> p" "p < i + k" for p
          using ri that unfolding pages_of_def by blast
        ultimately have "\<not> j < i + k" using j N k(2) unfolding free_run_def
          by (metis atLeastLessThan_iff disjoint_iff le_add1 less_add_same_cancel1 linorder_not_le nat_less_le)
        then show "i + k - 0 \<le> j" by simp
      qed (use ik in simp_all)
    next
      case False
      have ni: "i \<notin> pages_of (regions ?xs)"
      proof
        assume "i \<in> pages_of (regions ?xs)"
        then obtain r m where r: "regions ?xs r = Some m" "r \<le> i" "i < r + m" unfolding pages_of_def by blast
        then have "r \<noteq> i" using False by (auto simp: regions_def split: if_splits)
        then show False using bd [OF r(1)] r by simp
      qed
      have step: "alloc_scan s (int N) (int i) (int len) = alloc_scan s (int N) (int (i + 1)) (int (len + 1))"
        by (subst alloc_scan.simps) (use lt False in \<open>simp add: xi add.commute\<close>)
      show ?thesis unfolding step
      proof (rule less.hyps)
        have "{i - len..<i - len + (len + 1)} = insert i {i - len..<i - len + len}" using less.prems(3) by auto
        then show "free_run ?xs (len + 1) (i + 1 - (len + 1))"
          using less.prems(3,4) ni il unfolding free_run_def by simp
        fix r m
        assume r: "regions ?xs r = Some m" "r < i + 1"
        then have "r \<noteq> i" using False by (auto simp: regions_def split: if_splits)
        then show "r + m \<le> i + 1" using bd [OF r(1)] r(2) by simp
      qed (use tr less.prems(3) none in auto)
    qed
  next
    case False
    then have nl: "\<not> (int len < int N \<and> int i < system_pages s)" using sp by auto
    have e: "alloc_scan s (int N) (int i) (int len) = int i" by (subst alloc_scan.simps) (simp only: nl if_False)
    show ?thesis
    proof (cases "len = N")
      case True
      then show ?thesis using e less.prems by (intro exI [of _ i]) auto
    next
      case neq: False
      then have i: "i = ?n" "len < N" using False less.prems(1,2) by auto
      have "\<not> free_run ?xs N j" for j using none [of j] i less.prems(3) unfolding free_run_def by auto
      then show ?thesis using e i by auto
    qed
  qed
qed

lemma regions_None: "ipt_ok xs \<Longrightarrow> i < length xs \<Longrightarrow> regions xs i = None \<longleftrightarrow> xs ! i = 0"
  using ipt_okD(1) [of xs i] by (auto simp: regions_def)

lemma regions_page: "regions xs i = Some k \<Longrightarrow> i \<le> p \<Longrightarrow> p < i + k \<Longrightarrow> p \<in> pages_of (regions xs)"
  unfolding pages_of_def by blast

lemma free_zero:
  assumes ok: "ipt_ok xs" and fr: "free_run xs N j" and p: "j \<le> p" "p < j + N"
  shows "p < length xs" "xs ! p = 0" "regions xs p = None"
proof -
  show l: "p < length xs" using fr p unfolding free_run_def by simp
  have "p \<notin> pages_of (regions xs)" using fr p unfolding free_run_def by (metis atLeastLessThan_iff disjoint_iff)
  moreover have "p < p + nat (xs ! p)" if "0 < xs ! p" using that by simp
  ultimately have "\<not> 0 < xs ! p" using regions_page [of xs p "nat (xs ! p)" p] l by (auto simp: regions_def)
  then show z: "xs ! p = 0" using ipt_okD(1) [OF ok l] by simp
  show "regions xs p = None" using z by (simp add: regions_def)
qed

lemma ipt_put:
  assumes ok: "ipt_ok xs" and fr: "free_run xs N j" and N: "0 < N"
  shows "ipt_ok (xs[j := int N])" "regions (xs[j := int N]) = (regions xs)(j \<mapsto> N)"
proof -
  have jl: "j < length xs" "j + N \<le> length xs" using fr N by (simp_all add: free_run_def)
  show "regions (xs[j := int N]) = (regions xs)(j \<mapsto> N)"
    using jl N by (auto simp: regions_def fun_eq_iff nth_list_update)
  show "ipt_ok (xs[j := int N])"
    unfolding ipt_ok_def
  proof (intro allI impI)
    fix i
    assume i: "i < length (xs[j := int N])"
    show "0 \<le> xs[j := int N] ! i \<and> (0 < xs[j := int N] ! i \<longrightarrow> i + nat (xs[j := int N] ! i) \<le> length (xs[j := int N])
      \<and> (\<forall>q. i < q \<longrightarrow> q < i + nat (xs[j := int N] ! i) \<longrightarrow> xs[j := int N] ! q = 0))"
    proof (cases "i = j")
      case True
      then show ?thesis using jl free_zero(2) [OF ok fr] by simp
    next
      case False
      have il: "i < length xs" using i by simp
      have "j \<notin> pages_of (regions xs)" using fr N unfolding free_run_def by (simp add: disjoint_iff)
      then have nj: "\<not> (i \<le> j \<and> j < i + nat (xs ! i))" if "0 < xs ! i"
        using that il regions_page [of xs i "nat (xs ! i)" j] by (auto simp: regions_def)
      have eq: "xs[j := int N] ! i = xs ! i" using False by simp
      show ?thesis
        unfolding eq length_list_update
      proof (intro conjI impI allI)
        show "0 \<le> xs ! i" by (rule ipt_okD(1) [OF ok il])
        assume pos: "0 < xs ! i"
        show "i + nat (xs ! i) \<le> length xs" by (rule ipt_okD(2) [OF ok il pos])
        fix q
        assume q: "i < q" "q < i + nat (xs ! i)"
        then have "q \<noteq> j" using nj [OF pos] by auto
        then show "xs[j := int N] ! q = 0" using ipt_okD(3) [OF ok il pos q] by simp
      qed
    qed
  qed
qed

lemma ipt_drop:
  assumes ok: "ipt_ok xs"
  shows "ipt_ok (xs[j := 0])" "regions (xs[j := 0]) = (regions xs)(j := None)"
proof -
  show "regions (xs[j := 0]) = (regions xs)(j := None)"
    by (auto simp: regions_def fun_eq_iff nth_list_update)
  show "ipt_ok (xs[j := 0])"
    unfolding ipt_ok_def
  proof (intro allI impI)
    fix i
    assume "i < length (xs[j := 0])"
    then have il: "i < length xs" by simp
    show "0 \<le> xs[j := 0] ! i \<and> (0 < xs[j := 0] ! i \<longrightarrow> i + nat (xs[j := 0] ! i) \<le> length (xs[j := 0])
      \<and> (\<forall>q. i < q \<longrightarrow> q < i + nat (xs[j := 0] ! i) \<longrightarrow> xs[j := 0] ! q = 0))"
    proof (cases "i = j")
      case True
      then show ?thesis using il by simp
    next
      case False
      then have eq: "xs[j := 0] ! i = xs ! i" by simp
      have z: "xs[j := 0] ! q = 0" if "0 < xs ! i" "i < q" "q < i + nat (xs ! i)" for q
        using ipt_okD(2,3) [OF ok il that(1)] that by (cases "q = j") simp_all
      show ?thesis unfolding eq length_list_update using ipt_okD(1,2) [OF ok il] z by blast
    qed
  qed
qed

text \<open>Distinct regions do not overlap.\<close>

lemma regions_disjoint:
  assumes ok: "ipt_ok xs" and i: "regions xs i = Some k" and j: "regions xs j = Some m" and p: "i \<le> p" "p < i + k" "j \<le> p" "p < j + m"
  shows "i = j"
proof (rule ccontr)
  assume "i \<noteq> j"
  then consider "i < j" | "j < i" by linarith
  then show False
  proof cases
    case 1
    then have "xs ! j = 0" using ipt_okD(3) [OF ok, of i j] i p by (simp add: regions_def split: if_splits)
    then show False using j by (simp add: regions_def)
  next
    case 2
    then have "xs ! i = 0" using ipt_okD(3) [OF ok, of j i] j p by (simp add: regions_def split: if_splits)
    then show False using i by (simp add: regions_def)
  qed
qed

lemma pages_of_put: "R j = None \<Longrightarrow> pages_of (R(j \<mapsto> N)) = pages_of R \<union> {j..<j + N}"
  unfolding pages_of_def by (auto split: if_splits)

lemma pages_of_drop:
  assumes ok: "ipt_ok xs" and j: "regions xs j = Some m"
  shows "pages_of ((regions xs)(j := None)) = pages_of (regions xs) - {j..<j + m}"
proof (intro equalityI subsetI)
  fix p
  assume "p \<in> pages_of ((regions xs)(j := None))"
  then obtain i k where i: "regions xs i = Some k" "i \<noteq> j" "i \<le> p" "p < i + k"
    unfolding pages_of_def by (auto split: if_splits)
  then show "p \<in> pages_of (regions xs) - {j..<j + m}"
    using regions_page regions_disjoint [OF ok i(1) j i(3,4)] by auto
next
  fix p
  assume p: "p \<in> pages_of (regions xs) - {j..<j + m}"
  then obtain i k where i: "regions xs i = Some k" "i \<le> p" "p < i + k" unfolding pages_of_def by blast
  then have "i \<noteq> j" using p j by auto
  then show "p \<in> pages_of ((regions xs)(j := None))" using i unfolding pages_of_def by auto
qed

section \<open>The state of a running allocator\<close>

definition vm_table :: "'a vm_scheme \<Rightarrow> bool" where
  "vm_table s \<longleftrightarrow> bootstrapped s \<and> 0 < system_pages s \<and> 0 < vm_lo s \<and> vm_lo s mod 4096 = 0
     \<and> vm_lo s + 4096 * nat (system_pages s) \<le> 532676608
     \<and> ipt s = vm_lo s + MIPS_KSEG0 \<and> ipt_ok (ipt_list s)"

text \<open>The first region holds the table itself.\<close>

definition vm_wf :: "'a vm_scheme \<Rightarrow> bool" where
  "vm_wf s \<longleftrightarrow> vm_table s
     \<and> (\<exists>k. regions (ipt_list s) 0 = Some k \<and> 4 * nat (system_pages s) \<le> 4096 * k)"

definition vm_regions :: "'a vm_scheme \<Rightarrow> nat \<rightharpoonup> nat" where
  "vm_regions s = regions (ipt_list s)"

text \<open>The kernel address of page \<open>p\<close>, and the words of a run of pages.\<close>

definition page_va :: "'a vm_scheme \<Rightarrow> nat \<Rightarrow> nat" where
  "page_va s p = MIPS_KSEG0 + vm_lo s + 4096 * p"

lemma vm_tableD:
  assumes "vm_table s"
  shows "bootstrapped s" "0 < system_pages s" "0 < vm_lo s" "vm_lo s mod 4096 = 0"
    "vm_lo s + 4096 * nat (system_pages s) \<le> 532676608" "ipt s = vm_lo s + MIPS_KSEG0" "ipt_ok (ipt_list s)"
  using assms by (simp_all add: vm_table_def)

lemma vm_wf_table: "vm_wf s \<Longrightarrow> vm_table s"
  by (simp add: vm_wf_def)

lemmas vm_wfD = vm_tableD [OF vm_wf_table]

lemma ipt_addr_eq: "vm_table s \<Longrightarrow> i < nat (system_pages s) \<Longrightarrow> ipt_addr s (int i) = ipt s + 4 * i"
  using vm_tableD(5,6) [of s] by (simp add: ipt_addr_def MIPS_KSEG0_def nat_add_distrib)

lemma ipt_list_frame:
  assumes "system_pages t = system_pages s" and "ipt t = ipt s"
    and "\<And>i. i < nat (system_pages s) \<Longrightarrow> kword t (ipt_addr s (int i)) = kword s (ipt_addr s (int i))"
  shows "ipt_list t = ipt_list s"
  using assms by (auto simp: ipt_list_def ipt_len_def ipt_addr_def)

lemma ipt_list_set:
  assumes wf: "vm_table s" and j: "j < nat (system_pages s)" and n: "0 \<le> n" "n < 2147483648"
    and t: "system_pages t = system_pages s" "ipt t = ipt s" "kword t = (kword s)(ipt_addr s (int j) := to_u32 n)"
  shows "ipt_list t = (ipt_list s)[j := n]"
proof (rule nth_equalityI)
  show "length (ipt_list t) = length ((ipt_list s)[j := n])" by (simp add: t)
  fix i
  assume "i < length (ipt_list t)"
  then have i: "i < nat (system_pages s)" by (simp add: t)
  have a: "ipt_addr t (int i) = ipt_addr s (int i)" by (simp add: ipt_addr_def t)
  have "ipt_addr s (int i) = ipt_addr s (int j) \<longleftrightarrow> i = j" using ipt_addr_eq [OF wf] i j by simp
  then show "ipt_list t ! i = (ipt_list s)[j := n] ! i"
    using i j n a by (simp add: nth_ipt_list t nth_list_update ipt_len_def) (simp add: off32_id)
qed

lemma wp_splx [wps]: "wp (splx n) Q R = (\<lambda>s. Q (curspl s) (s\<lparr>curspl := n\<rparr>))"
  by (simp add: splx_def wps)

lemma wp_splhigh [wps]: "wp splhigh Q R = (\<lambda>s. Q (curspl s) (s\<lparr>curspl := SPL_HIGH\<rparr>))"
  by (simp add: splhigh_def wps)

lemma wp_ipt_set [wps]: "wp (ipt_set i n) Q R = (\<lambda>s. Q () (s\<lparr>kword := (kword s)(ipt_addr s i := to_u32 n)\<rparr>))"
  by (simp add: ipt_set_def set_word_def wps)

lemma ipt_addr_simps [simp]: "ipt_addr (s\<lparr>curspl := x\<rparr>) = ipt_addr s" "ipt_addr (s\<lparr>avail_pages := y\<rparr>) = ipt_addr s"
  "ipt_addr (s\<lparr>kword := w\<rparr>) = ipt_addr s"
  by (simp_all add: ipt_addr_def fun_eq_iff)

lemma ipt_list_simps [simp]: "ipt_list (s\<lparr>curspl := x\<rparr>) = ipt_list s" "ipt_list (s\<lparr>avail_pages := y\<rparr>) = ipt_list s"
  by (simp_all add: ipt_list_def ipt_len_def)

lemma vm_wf_simps [simp]: "vm_wf (s\<lparr>curspl := x\<rparr>) = vm_wf s" "vm_wf (s\<lparr>avail_pages := y\<rparr>) = vm_wf s"
  by (simp_all add: vm_wf_def vm_table_def)

lemma vm_table_simps [simp]: "vm_table (s\<lparr>curspl := x\<rparr>) = vm_table s" "vm_table (s\<lparr>avail_pages := y\<rparr>) = vm_table s"
  by (simp_all add: vm_table_def)

text \<open>What an allocation of \<open>N\<close> pages does: the first fitting run, unless it is the last of memory.\<close>

definition alloc_at :: "nat \<Rightarrow> 'a vm_scheme \<Rightarrow> nat \<Rightarrow> 'a vm_scheme \<Rightarrow> bool" where
  "alloc_at N s j t \<longleftrightarrow> free_run (ipt_list s) N j \<and> (\<forall>i. free_run (ipt_list s) N i \<longrightarrow> j \<le> i) \<and> j + N < nat (system_pages s)
     \<and> t = s\<lparr>kword := (kword s)(ipt_addr s (int j) := N), avail_pages := avail_pages s - int N\<rparr>"

definition alloc_none :: "nat \<Rightarrow> 'a vm_scheme \<Rightarrow> 'a vm_scheme \<Rightarrow> bool" where
  "alloc_none N s t \<longleftrightarrow> (\<forall>j. free_run (ipt_list s) N j \<longrightarrow> nat (system_pages s) \<le> j + N)
     \<and> t = s\<lparr>avail_pages := avail_pages s - int N\<rparr>"

lemma alloc_ppages_wp:
  assumes wf: "vm_table s" and N: "0 < N" "N < 2147483648" and spl: "0 < curspl s"
  shows "wp (alloc_ppages (int N))
    (\<lambda>r t. (\<exists>j. r = vm_lo s + 4096 * j \<and> alloc_at N s j t) \<or> r = 0 \<and> alloc_none N s t) (\<lambda>_ _. False) s"
proof -
  let ?xs = "ipt_list s" and ?n = "nat (system_pages s)"
  note w = vm_tableD [OF wf]
  have sp: "0 \<le> system_pages s" using w(2) by simp
  have "\<exists>q. alloc_scan s (int N) (int 0) (int 0) = int q \<and> q \<le> ?n
    \<and> (if \<exists>j. free_run ?xs N j then N \<le> q \<and> free_run ?xs N (q - N) \<and> (\<forall>j. free_run ?xs N j \<longrightarrow> q - N \<le> j) else q = ?n)"
    by (rule alloc_scan_first [OF w(7) sp N(1)]) (simp_all add: free_run_def)
  then obtain q where q: "alloc_scan s (int N) 0 0 = int q" "q \<le> ?n"
    "if \<exists>j. free_run ?xs N j then N \<le> q \<and> free_run ?xs N (q - N) \<and> (\<forall>j. free_run ?xs N j \<longrightarrow> q - N \<le> j) else q = ?n"
    by auto
  have qs: "int q = system_pages s \<longleftrightarrow> q = ?n" using sp by auto
  show ?thesis
  proof (cases "q = ?n")
    case True
    have "?n \<le> j + N" if "free_run ?xs N j" for j
    proof -
      have "q - N \<le> j" using q(3) that by (auto split: if_splits)
      then show ?thesis using True by simp
    qed
    then show ?thesis using True q(1) spl sp by (simp add: alloc_ppages_def wps alloc_none_def)
  next
    case False
    then have ex: "\<exists>j. free_run ?xs N j" using q(3) by (auto split: if_splits)
    then have f: "N \<le> q" "free_run ?xs N (q - N)" "\<forall>j. free_run ?xs N j \<longrightarrow> q - N \<le> j" using q(3) by simp_all
    have lt: "q - N + N < ?n" using False q(2) f(1) by simp
    have nq: "int q \<noteq> system_pages s" using qs False by blast
    have qi: "int q - int N = int (q - N)" using f(1) by simp
    have r: "to_u32 (int (q - N) * int PAGE_SIZE + int (vm_lo s)) = vm_lo s + 4096 * (q - N)"
      using w(5) lt by (simp add: PAGE_SIZE_def nat_add_distrib nat_mult_distrib)
    have Nw: "to_u32 (int N) = N" using N by simp
    have "alloc_at N s (q - N) (s\<lparr>kword := (kword s)(ipt_addr s (int (q - N)) := N), avail_pages := avail_pages s - int N\<rparr>)"
      using f(2,3) lt by (simp add: alloc_at_def)
    then show ?thesis using spl nq q(1) by (simp add: alloc_ppages_def wps qi r Nw del: of_nat_diff)
  qed
qed

lemma alloc_kpages_wp:
  assumes wf: "vm_table s" and N: "0 < N" "N < 2147483648"
  shows "wp (alloc_kpages (int N))
    (\<lambda>r t. (\<exists>j. r = page_va s j \<and> alloc_at N s j t) \<or> r = MIPS_KSEG0 \<and> alloc_none N s t) (\<lambda>_ _. False) s"
proof -
  let ?s = "s\<lparr>curspl := SPL_HIGH\<rparr>"
  note w = vm_tableD [OF wf]
  have wf': "vm_table ?s" and spl: "0 < curspl ?s" using wf by (simp_all add: SPL_HIGH_def)
  have res: "(\<exists>j. PADDR_TO_KVADDR r = page_va s j \<and> alloc_at N s j (t\<lparr>curspl := curspl s\<rparr>))
      \<or> PADDR_TO_KVADDR r = MIPS_KSEG0 \<and> alloc_none N s (t\<lparr>curspl := curspl s\<rparr>)"
    if "(\<exists>j. r = vm_lo s + 4096 * j \<and> alloc_at N ?s j t) \<or> r = 0 \<and> alloc_none N ?s t" for r t
    using that
  proof (elim disjE exE conjE)
    fix j
    assume j: "r = vm_lo s + 4096 * j" "alloc_at N ?s j t"
    then have "PADDR_TO_KVADDR r = page_va s j"
      using w(5) by (simp add: PADDR_TO_KVADDR_def page_va_def alloc_at_def MIPS_KSEG0_def)
    moreover have "alloc_at N s j (t\<lparr>curspl := curspl s\<rparr>)" using j(2) by (simp add: alloc_at_def)
    ultimately show ?thesis by blast
  next
    assume "r = 0" "alloc_none N ?s t"
    then show ?thesis by (simp add: alloc_none_def PADDR_TO_KVADDR_def MIPS_KSEG0_def)
  qed
  have "wp (alloc_ppages (int N))
    (\<lambda>r t. (\<exists>j. PADDR_TO_KVADDR r = page_va s j \<and> alloc_at N s j (t\<lparr>curspl := curspl s\<rparr>))
      \<or> PADDR_TO_KVADDR r = MIPS_KSEG0 \<and> alloc_none N s (t\<lparr>curspl := curspl s\<rparr>)) (\<lambda>_ _. False) ?s"
    by (rule wp_mono [OF alloc_ppages_wp [OF wf' N spl]]) (use res in simp_all)
  then show ?thesis using w(1) by (simp add: alloc_kpages_def wps)
qed

text \<open>The allocator after an allocation.\<close>

lemma alloc_at_table:
  assumes wf: "vm_table s" and N: "0 < N" "N < 2147483648" and a: "alloc_at N s j t"
  shows "vm_table t" "vm_regions t = (vm_regions s)(j \<mapsto> N)" "vm_regions s j = None"
    "{j..<j + N} \<inter> pages_of (vm_regions s) = {}" "j + N < nat (system_pages s)"
    "vm_lo t = vm_lo s" "system_pages t = system_pages s"
proof -
  have fr: "free_run (ipt_list s) N j" and lt: "j + N < nat (system_pages s)"
    and t: "t = s\<lparr>kword := (kword s)(ipt_addr s (int j) := N), avail_pages := avail_pages s - int N\<rparr>"
    using a by (simp_all add: alloc_at_def)
  note w = vm_tableD [OF wf] and put = ipt_put [OF vm_tableD(7) [OF wf] fr N(1)]
  have jl: "j < nat (system_pages s)" using lt by simp
  have l: "ipt_list t = (ipt_list s)[j := int N]"
    by (rule ipt_list_set [OF wf jl]) (use N in \<open>simp_all add: t\<close>)
  show "vm_regions t = (vm_regions s)(j \<mapsto> N)" using put(2) by (simp add: vm_regions_def l)
  show "vm_regions s j = None" using free_zero(3) [OF w(7) fr, of j] N by (simp add: vm_regions_def)
  show "{j..<j + N} \<inter> pages_of (vm_regions s) = {}" using fr by (simp add: free_run_def vm_regions_def)
  show "j + N < nat (system_pages s)" by (rule lt)
  show "vm_lo t = vm_lo s" "system_pages t = system_pages s" by (simp_all add: t)
  show "vm_table t" using wf put(1) l unfolding vm_table_def by (simp add: t)
qed

lemma alloc_at_wf:
  assumes wf: "vm_wf s" and N: "0 < N" "N < 2147483648" and a: "alloc_at N s j t"
  shows "vm_wf t" "0 < j"
proof -
  note t = alloc_at_table [OF vm_wf_table [OF wf] N a]
  obtain k where k: "regions (ipt_list s) 0 = Some k" "4 * nat (system_pages s) \<le> 4096 * k"
    using wf unfolding vm_wf_def by blast
  show j0: "0 < j" using t(3) k(1) by (cases j) (simp_all add: vm_regions_def)
  have "regions (ipt_list t) 0 = Some k" using t(2) j0 k(1) by (simp add: vm_regions_def)
  then show "vm_wf t" using t(1,7) k(2) unfolding vm_wf_def by simp
qed

lemma alloc_none_wf:
  assumes "vm_wf s" and "alloc_none N s t"
  shows "vm_wf t" "vm_regions t = vm_regions s" "vm_lo t = vm_lo s" "system_pages t = system_pages s" "kword t = kword s"
  using assms by (simp_all add: alloc_none_def vm_regions_def)

lemma vm_regions_bound:
  assumes "vm_wf s" and "vm_regions s p = Some N"
  shows "p + N \<le> nat (system_pages s)" "0 < N" "p < nat (system_pages s)" "N < 2147483648"
    "ipt_len s (int p) = int N"
proof -
  have p: "p < nat (system_pages s)" "0 < ipt_list s ! p" "N = nat (ipt_list s ! p)"
    using assms(2) by (simp_all add: vm_regions_def regions_def split: if_splits)
  show "p < nat (system_pages s)" "0 < N" using p by simp_all
  show b: "p + N \<le> nat (system_pages s)" using ipt_okD(2) [OF vm_wfD(7) [OF assms(1)], of p] p by simp
  show "N < 2147483648" using b vm_wfD(5) [OF assms(1)] by simp
  show "ipt_len s (int p) = int N" using p nth_ipt_list [of p s] by simp
qed

lemma PAGE_IDX_page: "sub32 (vm_lo s + 4096 * p) (vm_lo s) = 4096 * p \<Longrightarrow> PAGE_IDX (sub32 (vm_lo s + 4096 * p) (vm_lo s)) = p"
  by (simp add: PAGE_IDX_def ROUND_DOWN_def PAGE_SIZE_def)

text \<open>Freeing the region that starts at page \<open>p\<close>.\<close>

lemma free_ppages_wp:
  assumes wf: "vm_wf s" and r: "vm_regions s p = Some N" and a: "a = vm_lo s + 4096 * p"
    and q: "Q () (s\<lparr>avail_pages := avail_pages s + int N, kword := (kword s)(ipt_addr s (int p) := 0)\<rparr>)"
  shows "wp (free_ppages a) Q R s"
proof -
  note b = vm_regions_bound [OF wf r] and w = vm_wfD [OF wf]
  have "sub32 (vm_lo s + 4096 * p) (vm_lo s) = vm_lo s + 4096 * p - vm_lo s"
    by (rule sub32_id) (use b(3) w(5) in simp_all)
  then have "PAGE_IDX (sub32 a (vm_lo s)) = p" unfolding a by (intro PAGE_IDX_page) simp
  then show ?thesis using q b(5) by (simp add: free_ppages_def wps to_u32_def)
qed

lemma KVADDR_page:
  assumes wf: "vm_wf s" and p: "p < nat (system_pages s)"
  shows "KVADDR_TO_PADDR (page_va s p) = vm_lo s + 4096 * p"
proof -
  have "sub32 (page_va s p) MIPS_KSEG0 = page_va s p - MIPS_KSEG0"
    by (rule sub32_id) (use p vm_wfD(5) [OF wf] in \<open>simp_all add: page_va_def MIPS_KSEG0_def\<close>)
  then show ?thesis by (simp add: KVADDR_TO_PADDR_def page_va_def)
qed

text \<open>The state after the region at \<open>p\<close> is given back.\<close>

definition free_at :: "nat \<Rightarrow> 'a vm_scheme \<Rightarrow> nat \<Rightarrow> 'a vm_scheme" where
  "free_at N s p = s\<lparr>avail_pages := avail_pages s + int N, kword := (kword s)(ipt_addr s (int p) := 0)\<rparr>"

lemma free_kpages_wp:
  assumes wf: "vm_wf s" and r: "vm_regions s p = Some N" and q: "Q () (free_at N s p)"
  shows "wp (free_kpages (page_va s p)) Q R s"
  unfolding free_kpages_def
  by (rule free_ppages_wp [OF wf r KVADDR_page [OF wf vm_regions_bound(3) [OF wf r]]])
    (use q in \<open>simp add: free_at_def\<close>)

lemma free_at_wf:
  assumes wf: "vm_wf s" and r: "vm_regions s p = Some N" and p: "p \<noteq> 0"
  shows "vm_wf (free_at N s p)" "vm_regions (free_at N s p) = (vm_regions s)(p := None)"
    "vm_lo (free_at N s p) = vm_lo s" "system_pages (free_at N s p) = system_pages s"
proof -
  note b = vm_regions_bound [OF wf r]
  have l: "ipt_list (free_at N s p) = (ipt_list s)[p := 0]"
    by (rule ipt_list_set [OF vm_wf_table [OF wf] b(3)]) (simp_all add: free_at_def to_u32_def)
  note d = ipt_drop [OF vm_wfD(7) [OF wf], of p]
  show rr: "vm_regions (free_at N s p) = (vm_regions s)(p := None)" using d(2) by (simp add: vm_regions_def l)
  show "vm_lo (free_at N s p) = vm_lo s" "system_pages (free_at N s p) = system_pages s" by (simp_all add: free_at_def)
  obtain k where k: "regions (ipt_list s) 0 = Some k" "4 * nat (system_pages s) \<le> 4096 * k"
    using wf unfolding vm_wf_def by blast
  have "regions (ipt_list (free_at N s p)) 0 = Some k" using rr p k(1) by (simp add: vm_regions_def)
  then show "vm_wf (free_at N s p)" using wf k(2) d(1) l unfolding vm_wf_def vm_table_def by (simp add: free_at_def)
qed

section \<open>Writing to allocated memory\<close>

text \<open>The words of the pages of a region other than the table's own do not meet the table.\<close>

lemma ipt_addr_low:
  assumes wf: "vm_wf s" and i: "i < nat (system_pages s)" and r: "vm_regions s p = Some N" "p \<noteq> 0"
  shows "ipt_addr s (int i) < page_va s p"
proof -
  obtain k where k: "regions (ipt_list s) 0 = Some k" "4 * nat (system_pages s) \<le> 4096 * k"
    using wf unfolding vm_wf_def by blast
  have "\<not> p < k" using regions_disjoint [OF vm_wfD(7) [OF wf] k(1), of p N p] r vm_regions_bound(2) [OF wf r(1)]
    by (auto simp: vm_regions_def)
  moreover have "4 * i < 4096 * k" using i k(2) by simp
  ultimately show ?thesis unfolding ipt_addr_eq [OF vm_wf_table [OF wf] i] page_va_def vm_wfD(6) [OF wf] by simp
qed

definition words_of :: "'a vm_scheme \<Rightarrow> nat \<Rightarrow> nat \<Rightarrow> nat set" where
  "words_of s p N = {page_va s p..<page_va s p + 4096 * N}"

text \<open>A step that only writes in the pages \<open>A\<close> and leaves the allocator alone.\<close>

lemma vm_frame:
  assumes wf: "vm_wf s" and t: "bootstrapped t = bootstrapped s" "system_pages t = system_pages s" "vm_lo t = vm_lo s" "ipt t = ipt s"
    and same: "\<And>i. i < nat (system_pages s) \<Longrightarrow> kword t (ipt_addr s (int i)) = kword s (ipt_addr s (int i))"
  shows "vm_wf t" "vm_regions t = vm_regions s"
proof -
  have l: "ipt_list t = ipt_list s" by (rule ipt_list_frame [OF t(2,4) same])
  show "vm_wf t" using wf unfolding vm_wf_def vm_table_def l t .
  show "vm_regions t = vm_regions s" by (simp add: vm_regions_def l)
qed

section \<open>Bootstrap\<close>

lemma ipt_clear_wp:
  assumes "\<And>i. i \<in> set is \<Longrightarrow> int (ipt s) + 4 * int i < 4294967296"
  shows "wp (kfor is (\<lambda>i. ipt_set (int i) 0)) (\<lambda>_ t. t = s\<lparr>kword := \<lambda>a. if a \<in> (\<lambda>i. ipt s + 4 * i) ` set is then 0 else kword s a\<rparr>) R s"
  using assms
proof (induction "is" arbitrary: s)
  case Nil
  then show ?case by (simp add: wps)
next
  case (Cons i "is")
  have a: "ipt_addr s (int i) = ipt s + 4 * i" using Cons.prems [of i] by (simp add: ipt_addr_def nat_add_distrib)
  let ?s = "s\<lparr>kword := (kword s)(ipt s + 4 * i := 0)\<rparr>"
  have z: "to_u32 0 = 0" by (simp add: to_u32_def)
  have "wp (kfor is (\<lambda>i. ipt_set (int i) 0))
    (\<lambda>_ t. t = ?s\<lparr>kword := \<lambda>a. if a \<in> (\<lambda>i. ipt ?s + 4 * i) ` set is then 0 else kword ?s a\<rparr>) R ?s"
    by (rule Cons.IH) (use Cons.prems in simp)
  then show ?case unfolding wp_kfor_Cons wp_ipt_set a z
    by (rule wp_mono) (auto simp: fun_eq_iff)
qed

lemma N_PAGES_eq: "bytes \<le> 4294963200 \<Longrightarrow> N_PAGES bytes = (bytes + 4095) div 4096"
  by (simp add: N_PAGES_def ROUND_UP_def ROUND_DOWN_def PAGE_SIZE_def)

text \<open>
  Started on page-aligned memory of more pages than its table needs, the allocator comes up with one
  region, the table's, and everything else free.
\<close>

lemma vm_bootstrap_wp:
  assumes lo: "0 < firstpaddr s" "firstpaddr s mod 4096 = 0" and hi: "lastpaddr s = firstpaddr s + 4096 * n" "lastpaddr s \<le> 532676608"
    and n: "(4 * n + 4095) div 4096 < n"
  shows "wp vm_bootstrap (\<lambda>_ t. vm_wf t \<and> vm_regions t = [0 \<mapsto> (4 * n + 4095) div 4096] \<and> vm_lo t = firstpaddr s
      \<and> system_pages t = int n \<and> avail_pages t = int n - int ((4 * n + 4095) div 4096) \<and> curspl t = curspl s)
    (\<lambda>_ _. False) s"
proof -
  let ?k = "(4 * n + 4095) div 4096" and ?lo = "firstpaddr s"
  have nb: "4096 * n \<le> 532676608" using hi by simp
  have sub: "sub32 (lastpaddr s) ?lo = 4096 * n" using sub32_id [of ?lo "lastpaddr s"] hi by simp
  have np: "N_PAGES (4096 * n) = n" using N_PAGES_eq [of "4096 * n"] nb by simp
  have nk: "N_PAGES (u32 (n * 4)) = ?k" using N_PAGES_eq [of "n * 4"] nb by (simp add: mult.commute)
  have k0: "0 < ?k" "4 * n \<le> 4096 * ?k" "?k < 2147483648" using n nb by auto
  let ?u = "s\<lparr>curspl := SPL_HIGH, firstpaddr := 0, lastpaddr := 0, vm_lo := ?lo, system_pages := int n, avail_pages := int n,
     ipt := PADDR_TO_KVADDR ?lo\<rparr>"
  have ipt: "PADDR_TO_KVADDR ?lo = ?lo + MIPS_KSEG0" using hi by (simp add: PADDR_TO_KVADDR_def MIPS_KSEG0_def)
  have adr: "int (ipt ?u) + 4 * int i < 4294967296" if "i \<in> set [0..<n]" for i
    using that hi by (simp add: ipt MIPS_KSEG0_def)
  have body: "wp (alloc_kpages (int ?k)) (\<lambda>_ t. vm_wf t \<and> vm_regions t = [0 \<mapsto> ?k] \<and> vm_lo t = ?lo
      \<and> system_pages t = int n \<and> avail_pages t = int n - int ?k) (\<lambda>_ _. False) t"
    if t: "t = ?u\<lparr>kword := w, bootstrapped := True\<rparr>" and w: "\<And>i. i < n \<Longrightarrow> w (ipt ?u + 4 * i) = 0" for t w
  proof -
    have xs: "ipt_list t = replicate n 0"
    proof (rule nth_equalityI)
      show "length (ipt_list t) = length (replicate n (0 :: int))" by (simp add: t)
      fix i
      assume "i < length (ipt_list t)"
      then have i: "i < n" by (simp add: t)
      have "ipt_addr t (int i) = ipt ?u + 4 * i" using adr [of i] i by (simp add: t ipt_addr_def nat_add_distrib)
      then show "ipt_list t ! i = replicate n 0 ! i" using i w [OF i] by (simp add: nth_ipt_list t ipt_len_def off32_id)
    qed
    have rg: "regions (replicate n (0 :: int)) = Map.empty" by (auto simp: regions_def fun_eq_iff)
    have tab: "vm_table t" unfolding vm_table_def xs using n lo hi ipt by (simp add: t ipt_ok_def)
    have fr: "free_run (ipt_list t) ?k 0" using n by (simp add: xs free_run_def rg pages_of_def)
    show ?thesis
    proof (rule wp_mono [OF alloc_kpages_wp [OF tab k0(1,3)]], elim disjE exE conjE)
      fix r t' j
      assume j: "alloc_at ?k t j t'"
      then have "j = 0" using fr unfolding alloc_at_def by blast
      note a = alloc_at_table [OF tab k0(1,3) j [unfolded this]]
      have R: "vm_regions t' = [0 \<mapsto> ?k]" unfolding a(2) by (simp add: vm_regions_def xs rg)
      then have "vm_wf t'" unfolding vm_wf_def using a(1,7) k0(2) by (simp add: vm_regions_def t)
      then show "vm_wf t' \<and> vm_regions t' = [0 \<mapsto> ?k] \<and> vm_lo t' = ?lo
        \<and> system_pages t' = int n \<and> avail_pages t' = int n - int ?k"
        using R a(6,7) j by (simp add: alloc_at_def t)
    next
      fix r t'
      assume "alloc_none ?k t t'"
      then have "n \<le> 0 + ?k" using fr by (auto simp: alloc_none_def t)
      then show "vm_wf t' \<and> vm_regions t' = [0 \<mapsto> ?k] \<and> vm_lo t' = ?lo
        \<and> system_pages t' = int n \<and> avail_pages t' = int n - int ?k" using n by simp
    qed
  qed
  have R: "vm_regions (t\<lparr>curspl := x\<rparr>) = vm_regions t" for t :: "'a vm_scheme" and x by (simp add: vm_regions_def)
  have up: "wp (alloc_kpages (int ?k)) (\<lambda>_ t. vm_wf t \<and> vm_regions t = [0 \<mapsto> ?k] \<and> vm_lo t = ?lo
      \<and> system_pages t = int n \<and> avail_pages t = int n - int ?k) (\<lambda>_ _. False) (t\<lparr>bootstrapped := True\<rparr>)"
    if "t = ?u\<lparr>kword := \<lambda>a. if a \<in> (\<lambda>i. ipt ?u + 4 * i) ` set [0..<n] then 0 else kword ?u a\<rparr>" for t
    by (rule body [OF _, of _ "\<lambda>a. if a \<in> (\<lambda>i. ipt ?u + 4 * i) ` set [0..<n] then 0 else kword ?u a"])
      (use that in auto)
  have "wp (kfor [0..<n] (\<lambda>i. ipt_set (int i) 0))
    (\<lambda>_ t. wp (alloc_kpages (int ?k)) (\<lambda>_ t. vm_wf t \<and> vm_regions t = [0 \<mapsto> ?k] \<and> vm_lo t = ?lo
      \<and> system_pages t = int n \<and> avail_pages t = int n - int ?k) (\<lambda>_ _. False) (t\<lparr>bootstrapped := True\<rparr>)) (\<lambda>_ _. False) ?u"
    by (rule wp_mono [OF ipt_clear_wp [OF adr, where R = "\<lambda>_ _. False"] up]) simp_all
  then show ?thesis
    unfolding vm_bootstrap_def ram_getsize_def by (simp add: wps sub np nk R)
qed

end
