(* ===== verification/KHeap.thy ===== *)
theory KHeap
  imports Vm
begin

text \<open>
  The kernel heap (kern/lib/kheap.c): \<open>kmalloc\<close> and \<open>kfree\<close> over the page allocator of \<open>Vm\<close>. Blocks of
  up to half a page are carved out of whole pages; the free blocks of a page form a list through their
  first words. The static table of page references is a list, a pointer into it an index.
\<close>

unbundle bit_operations_syntax

section \<open>Data\<close>

definition sizes :: "nat list" where
  "sizes = [16, 32, 64, 128, 256, 512, 1024, 2048]"

definition NSIZES :: nat where "NSIZES = 8"
definition LARGEST_SUBPAGE_SIZE :: nat where "LARGEST_SUBPAGE_SIZE = 2048"
definition INVALID_OFFSET :: nat where "INVALID_OFFSET = 0xffff"
definition NPAGEREFS :: nat where "NPAGEREFS = 256"
definition INUSE_WORDS :: nat where "INUSE_WORDS = 8"

record pageref =
  next_samesize :: "nat option"
  next_all :: "nat option"
  pageaddr_and_blocktype :: nat
  freelist_offset :: nat
  nfree :: nat

record kheap = vm +
  pagerefs :: "pageref list"
  pagerefs_inuse :: "32 word list"
  sizebases :: "nat option list"
  allbase :: "nat option"

definition PR_PAGEADDR :: "pageref \<Rightarrow> nat" where
  "PR_PAGEADDR pr = pageaddr_and_blocktype pr div 4096 * 4096"

definition PR_BLOCKTYPE :: "pageref \<Rightarrow> nat" where
  "PR_BLOCKTYPE pr = pageaddr_and_blocktype pr mod 4096"

definition MKPAB :: "nat \<Rightarrow> nat \<Rightarrow> nat" where
  "MKPAB pa blk = pa div 4096 * 4096 + blk mod 4096"

lemma PR_simps [simp]:
  "PR_PAGEADDR (r\<lparr>nfree := n\<rparr>) = PR_PAGEADDR r" "PR_PAGEADDR (r\<lparr>freelist_offset := n\<rparr>) = PR_PAGEADDR r"
  "PR_PAGEADDR (r\<lparr>next_samesize := x\<rparr>) = PR_PAGEADDR r" "PR_PAGEADDR (r\<lparr>next_all := x\<rparr>) = PR_PAGEADDR r"
  "PR_BLOCKTYPE (r\<lparr>nfree := n\<rparr>) = PR_BLOCKTYPE r" "PR_BLOCKTYPE (r\<lparr>freelist_offset := n\<rparr>) = PR_BLOCKTYPE r"
  "PR_BLOCKTYPE (r\<lparr>next_samesize := x\<rparr>) = PR_BLOCKTYPE r" "PR_BLOCKTYPE (r\<lparr>next_all := x\<rparr>) = PR_BLOCKTYPE r"
  by (simp_all add: PR_PAGEADDR_def PR_BLOCKTYPE_def)

definition pr_get :: "nat \<Rightarrow> ('a kheap_scheme, pageref) op" where
  "pr_get p = kget (\<lambda>s. pagerefs s ! p)"

definition pr_upd :: "nat \<Rightarrow> (pageref \<Rightarrow> pageref) \<Rightarrow> ('a kheap_scheme, unit) op" where
  "pr_upd p f = kmodify (\<lambda>s. s\<lparr>pagerefs := (pagerefs s)[p := f (pagerefs s ! p)]\<rparr>)"

section \<open>Page references\<close>

text \<open>The loop over \<open>k\<close> and \<open>j\<close>: the first clear bit of a word.\<close>

fun clear_bit_of :: "32 word \<Rightarrow> nat list \<Rightarrow> nat option" where
  "clear_bit_of w [] = None"
| "clear_bit_of w (j # js) = (if w AND push_bit j 1 = 0 then Some j else clear_bit_of w js)"

fun allocpageref_loop :: "nat list \<Rightarrow> ('a kheap_scheme, nat option) op" where
  "allocpageref_loop [] = kret None"
| "allocpageref_loop (i # is) =
     kbind (kget (\<lambda>s. pagerefs_inuse s ! i)) (\<lambda>w.
     if w = 0xffffffff then allocpageref_loop is
     else case clear_bit_of w [0..<32] of
       None \<Rightarrow> kpanic
     | Some j \<Rightarrow>
         kbind (kmodify (\<lambda>s. s\<lparr>pagerefs_inuse := (pagerefs_inuse s)[i := w OR push_bit j 1]\<rparr>)) (\<lambda>_.
         kret (Some (i * 32 + j))))"

definition allocpageref :: "('a kheap_scheme, nat option) op" where
  "allocpageref = allocpageref_loop [0..<INUSE_WORDS]"

definition freepageref :: "nat \<Rightarrow> ('a kheap_scheme, unit) op" where
  "freepageref p =
     kbind (kassert (p < NPAGEREFS)) (\<lambda>_.
     kbind (kget (\<lambda>s. pagerefs_inuse s ! (p div 32))) (\<lambda>w.
     kbind (kassert (w AND push_bit (p mod 32) 1 \<noteq> 0)) (\<lambda>_.
     kmodify (\<lambda>s. s\<lparr>pagerefs_inuse := (pagerefs_inuse s)[p div 32 := w AND NOT (push_bit (p mod 32) 1)]\<rparr>))))"

section \<open>Lists of pages\<close>

text \<open>
  The two loops of \<open>remove_lists\<close>. \<open>guy\<close> points to the base or to the link of the page before; the
  fuel bounds a walk through a table of \<open>NPAGEREFS\<close> entries.
\<close>

definition set_same :: "nat \<Rightarrow> nat option \<Rightarrow> nat option \<Rightarrow> ('a kheap_scheme, unit) op" where
  "set_same b guy x = (case guy of
     None \<Rightarrow> kmodify (\<lambda>s. s\<lparr>sizebases := (sizebases s)[b := x]\<rparr>)
   | Some g \<Rightarrow> pr_upd g (\<lambda>r. r\<lparr>next_samesize := x\<rparr>))"

fun remove_same :: "nat \<Rightarrow> nat \<Rightarrow> nat \<Rightarrow> nat option \<Rightarrow> nat option \<Rightarrow> ('a kheap_scheme, unit) op" where
  "remove_same n b pr guy None = kret ()"
| "remove_same 0 b pr guy (Some c) = kpanic"
| "remove_same (Suc n) b pr guy (Some c) =
     kbind (pr_get c) (\<lambda>r.
     if c = pr then set_same b guy (next_samesize r)
     else remove_same n b pr (Some c) (next_samesize r))"

definition set_all :: "nat option \<Rightarrow> nat option \<Rightarrow> ('a kheap_scheme, unit) op" where
  "set_all guy x = (case guy of
     None \<Rightarrow> kmodify (\<lambda>s. s\<lparr>allbase := x\<rparr>)
   | Some g \<Rightarrow> pr_upd g (\<lambda>r. r\<lparr>next_all := x\<rparr>))"

fun remove_all_list :: "nat \<Rightarrow> nat \<Rightarrow> nat option \<Rightarrow> nat option \<Rightarrow> ('a kheap_scheme, unit) op" where
  "remove_all_list n pr guy None = kret ()"
| "remove_all_list 0 pr guy (Some c) = kpanic"
| "remove_all_list (Suc n) pr guy (Some c) =
     kbind (pr_get c) (\<lambda>r.
     if c = pr then set_all guy (next_all r)
     else remove_all_list n pr (Some c) (next_all r))"

definition remove_lists :: "nat \<Rightarrow> nat \<Rightarrow> ('a kheap_scheme, unit) op" where
  "remove_lists pr blktype =
     kbind (kassert (blktype < NSIZES)) (\<lambda>_.
     kbind (kget (\<lambda>s. sizebases s ! blktype)) (\<lambda>c.
     kbind (remove_same NPAGEREFS blktype pr None c) (\<lambda>_.
     kbind (kget allbase) (\<lambda>c.
     remove_all_list NPAGEREFS pr None c))))"

section \<open>Allocation\<close>

fun blocktype_from :: "nat list \<Rightarrow> nat \<Rightarrow> ('a kheap_scheme, nat) op" where
  "blocktype_from [] sz = kpanic"
| "blocktype_from (i # is) sz = (if sz \<le> sizes ! i then kret i else blocktype_from is sz)"

definition blocktype :: "nat \<Rightarrow> ('a kheap_scheme, nat) op" where
  "blocktype sz = blocktype_from [0..<NSIZES] sz"

fun find_free_page :: "nat \<Rightarrow> nat \<Rightarrow> nat option \<Rightarrow> ('a kheap_scheme, nat option) op" where
  "find_free_page n blk None = kret None"
| "find_free_page 0 blk (Some p) = kpanic"
| "find_free_page (Suc n) blk (Some p) =
     kbind (pr_get p) (\<lambda>pr.
     kbind (kassert (PR_BLOCKTYPE pr = blk)) (\<lambda>_.
     if nfree pr > 0 then kret (Some p) else find_free_page n blk (next_samesize pr)))"

text \<open>The code at the label \<open>doalloc\<close>: take the first free block.\<close>

definition doalloc :: "nat \<Rightarrow> ('a kheap_scheme, nat) op" where
  "doalloc p =
     kbind (pr_get p) (\<lambda>pr.
     kbind (kassert (freelist_offset pr < PAGE_SIZE)) (\<lambda>_.
     let prpage = PR_PAGEADDR pr; retptr = u32 (prpage + freelist_offset pr) in
     kbind (kget (\<lambda>s. kword s retptr)) (\<lambda>fl.
     kbind (pr_upd p (\<lambda>r. r\<lparr>nfree := (nfree r + 65535) mod 65536\<rparr>)) (\<lambda>_.
     kbind (pr_get p) (\<lambda>pr.
     kbind (if fl \<noteq> 0 then
              kbind (kassert (nfree pr > 0)) (\<lambda>_.
              kbind (kassert (sub32 fl prpage < PAGE_SIZE)) (\<lambda>_.
              pr_upd p (\<lambda>r. r\<lparr>freelist_offset := sub32 fl prpage mod 65536\<rparr>)))
            else
              kbind (kassert (nfree pr = 0)) (\<lambda>_.
              pr_upd p (\<lambda>r. r\<lparr>freelist_offset := INVALID_OFFSET\<rparr>))) (\<lambda>_.
     kret retptr))))))"

text \<open>Threading the free list through a fresh page.\<close>

definition thread_page :: "nat \<Rightarrow> nat \<Rightarrow> nat \<Rightarrow> ('a kheap_scheme, unit) op" where
  "thread_page prpage sz n =
     kbind (set_word prpage 0) (\<lambda>_.
     kfor [1..<n] (\<lambda>i.
       kbind (set_word (u32 (prpage + i * sz)) (u32 (prpage + (i - 1) * sz))) (\<lambda>_.
       kassert (u32 (prpage + i * sz) \<noteq> u32 (prpage + (i - 1) * sz)))))"

text \<open>Setting up the page \<open>prpage\<close> for \<open>pr\<close> and entering it in the lists.\<close>

definition enter_page :: "nat \<Rightarrow> nat \<Rightarrow> nat \<Rightarrow> ('a kheap_scheme, unit) op" where
  "enter_page pr blktype prpage =
     (let n = PAGE_SIZE div sizes ! blktype in
      kbind (pr_upd pr (\<lambda>r. r\<lparr>pageaddr_and_blocktype := MKPAB prpage blktype, nfree := n\<rparr>)) (\<lambda>_.
      kbind (thread_page prpage (sizes ! blktype) n) (\<lambda>_.
      kbind (pr_upd pr (\<lambda>r. r\<lparr>freelist_offset := (n - 1) * sizes ! blktype\<rparr>)) (\<lambda>_.
      kbind (kget (\<lambda>s. sizebases s ! blktype)) (\<lambda>b.
      kbind (pr_upd pr (\<lambda>r. r\<lparr>next_samesize := b\<rparr>)) (\<lambda>_.
      kbind (kmodify (\<lambda>s. s\<lparr>sizebases := (sizebases s)[blktype := Some pr]\<rparr>)) (\<lambda>_.
      kbind (kget allbase) (\<lambda>a.
      kbind (pr_upd pr (\<lambda>r. r\<lparr>next_all := a\<rparr>)) (\<lambda>_.
      kmodify (\<lambda>s. s\<lparr>allbase := Some pr\<rparr>))))))))))"

definition new_page :: "nat \<Rightarrow> ('a kheap_scheme, nat) op" where
  "new_page blktype =
     kbind allocpageref (\<lambda>r.
     case r of
       None \<Rightarrow> kret 0
     | Some pr \<Rightarrow>
         kbind (alloc_kpages 1) (\<lambda>prpage.
         if prpage = 0 then kbind (freepageref pr) (\<lambda>_. kret 0)
         else kbind (enter_page pr blktype prpage) (\<lambda>_. doalloc pr)))"

definition subpage_kmalloc :: "nat \<Rightarrow> ('a kheap_scheme, nat) op" where
  "subpage_kmalloc sz =
     kbind (blocktype sz) (\<lambda>blktype.
     kbind splhigh (\<lambda>spl.
     kbind (kget (\<lambda>s. sizebases s ! blktype)) (\<lambda>b.
     kbind (find_free_page NPAGEREFS blktype b) (\<lambda>r.
     kbind (case r of Some pr \<Rightarrow> doalloc pr | None \<Rightarrow> new_page blktype) (\<lambda>retptr.
     kbind (splx spl) (\<lambda>_. kret retptr))))))"

section \<open>Freeing\<close>

definition fill_deadbeef :: "nat \<Rightarrow> nat \<Rightarrow> ('a kheap_scheme, unit) op" where
  "fill_deadbeef ptr len = kfor [0..<len div 4] (\<lambda>i. set_word (u32 (ptr + 4 * i)) 0xdeadbeef)"

fun find_owner :: "nat \<Rightarrow> nat \<Rightarrow> nat option \<Rightarrow> ('a kheap_scheme, nat option) op" where
  "find_owner n ptraddr None = kret None"
| "find_owner 0 ptraddr (Some p) = kpanic"
| "find_owner (Suc n) ptraddr (Some p) =
     kbind (pr_get p) (\<lambda>pr.
     kbind (kassert (PR_BLOCKTYPE pr < NSIZES)) (\<lambda>_.
     if PR_PAGEADDR pr \<le> ptraddr \<and> ptraddr < u32 (PR_PAGEADDR pr + PAGE_SIZE) then kret (Some p)
     else find_owner n ptraddr (next_all pr)))"

text \<open>Freeing the block at \<open>ptraddr\<close> of the page of \<open>p\<close>: the part of \<open>subpage_kfree\<close> after the search.\<close>

definition free_in_page :: "nat \<Rightarrow> nat \<Rightarrow> ('a kheap_scheme, unit) op" where
  "free_in_page p ptraddr =
     kbind (pr_get p) (\<lambda>pr.
     let prpage = PR_PAGEADDR pr; blktype = PR_BLOCKTYPE pr; offset = sub32 ptraddr prpage in
     if offset \<ge> PAGE_SIZE \<or> offset mod sizes ! blktype \<noteq> 0 then kpanic
     else
       kbind (fill_deadbeef ptraddr (sizes ! blktype)) (\<lambda>_.
       kbind (set_word (u32 (prpage + offset))
               (if freelist_offset pr = INVALID_OFFSET then 0 else u32 (prpage + freelist_offset pr))) (\<lambda>_.
       kbind (pr_upd p (\<lambda>r. r\<lparr>freelist_offset := offset mod 65536, nfree := (nfree r + 1) mod 65536\<rparr>)) (\<lambda>_.
       kbind (pr_get p) (\<lambda>pr.
       kbind (kassert (nfree pr \<le> PAGE_SIZE div sizes ! blktype)) (\<lambda>_.
       if nfree pr = PAGE_SIZE div sizes ! blktype then
         kbind (remove_lists p blktype) (\<lambda>_.
         kbind (free_kpages prpage) (\<lambda>_.
         freepageref p))
       else kret ()))))))"

text \<open>The value is whether the address belonged to a subpage page (the code returns 0 or -1).\<close>

definition subpage_kfree :: "nat \<Rightarrow> ('a kheap_scheme, bool) op" where
  "subpage_kfree ptraddr =
     kbind splhigh (\<lambda>spl.
     kbind (kget allbase) (\<lambda>b.
     kbind (find_owner NPAGEREFS ptraddr b) (\<lambda>r.
     case r of
       None \<Rightarrow> kbind (splx spl) (\<lambda>_. kret False)
     | Some p \<Rightarrow> kbind (free_in_page p ptraddr) (\<lambda>_. kbind (splx spl) (\<lambda>_. kret True)))))"

definition kmalloc :: "nat \<Rightarrow> ('a kheap_scheme, nat) op" where
  "kmalloc sz =
     (if sz \<ge> LARGEST_SUBPAGE_SIZE then alloc_kpages (off32 (int (u32 (sz + PAGE_SIZE - 1) div PAGE_SIZE)))
      else subpage_kmalloc sz)"

definition kfree :: "nat \<Rightarrow> ('a kheap_scheme, unit) op" where
  "kfree ptr =
     (if ptr = 0 then kret ()
      else kbind (subpage_kfree ptr) (\<lambda>sub.
           kwhen (\<not> sub) (kbind (kassert (ptr mod PAGE_SIZE = 0)) (\<lambda>_. free_kpages ptr))))"

section \<open>What the heap means\<close>

text \<open>\<open>chain nx p xs\<close>: following \<open>nx\<close> from \<open>p\<close> visits \<open>xs\<close> and ends.\<close>

fun chain :: "('b \<Rightarrow> 'b option) \<Rightarrow> 'b option \<Rightarrow> 'b list \<Rightarrow> bool" where
  "chain nx p [] \<longleftrightarrow> p = None"
| "chain nx p (a # as) \<longleftrightarrow> p = Some a \<and> chain nx (nx a) as"

lemma chain_cong: "(\<And>a. a \<in> set as \<Longrightarrow> nx' a = nx a) \<Longrightarrow> chain nx' p as = chain nx p as"
  by (induction "as" arbitrary: p) auto

lemma chain_None [simp]: "chain nx None as \<longleftrightarrow> as = []"
  by (cases "as") auto

lemma chain_Some: "chain nx (Some a) as \<longleftrightarrow> (\<exists>bs. as = a # bs \<and> chain nx (nx a) bs)"
  by (cases "as") auto

text \<open>The free blocks of a page, linked through their first words.\<close>

definition wnext :: "(nat \<Rightarrow> nat) \<Rightarrow> nat \<Rightarrow> nat option" where
  "wnext w a = (if w a = 0 then None else Some (w a))"

abbreviation pr_page :: "'a kheap_scheme \<Rightarrow> nat \<Rightarrow> nat" where
  "pr_page s p \<equiv> PR_PAGEADDR (pagerefs s ! p)"

abbreviation pr_type :: "'a kheap_scheme \<Rightarrow> nat \<Rightarrow> nat" where
  "pr_type s p \<equiv> PR_BLOCKTYPE (pagerefs s ! p)"

abbreviation pr_size :: "'a kheap_scheme \<Rightarrow> nat \<Rightarrow> nat" where
  "pr_size s p \<equiv> sizes ! pr_type s p"

text \<open>The addresses of the blocks of a page.\<close>

definition slots :: "nat \<Rightarrow> nat \<Rightarrow> nat set" where
  "slots pa sz = {pa + k * sz |k. k < 4096 div sz}"

definition page_ok :: "'a kheap_scheme \<Rightarrow> nat \<Rightarrow> nat list \<Rightarrow> bool" where
  "page_ok s p fl \<longleftrightarrow> pr_type s p < 8
     \<and> (\<exists>q. q \<noteq> 0 \<and> vm_regions s q = Some 1 \<and> pr_page s p = page_va s q)
     \<and> chain (wnext (kword s)) (if freelist_offset (pagerefs s ! p) = INVALID_OFFSET then None
          else Some (pr_page s p + freelist_offset (pagerefs s ! p))) fl
     \<and> distinct fl \<and> set fl \<subseteq> slots (pr_page s p) (pr_size s p)
     \<and> nfree (pagerefs s ! p) = length fl"

definition in_use :: "'a kheap_scheme \<Rightarrow> nat set" where
  "in_use s = {p. p < 256 \<and> bit (pagerefs_inuse s ! (p div 32)) (p mod 32)}"

text \<open>
  \<open>heap_rep s al F\<close>: the pages of the subpage allocator are those of the references \<open>al\<close>, linked in this
  order, and \<open>F\<close> gives the free blocks of each.
\<close>

definition heap_rep :: "'a kheap_scheme \<Rightarrow> nat list \<Rightarrow> (nat \<Rightarrow> nat list) \<Rightarrow> bool" where
  "heap_rep s al F \<longleftrightarrow> vm_wf s \<and> length (pagerefs s) = 256 \<and> length (pagerefs_inuse s) = 8 \<and> length (sizebases s) = 8
     \<and> chain (\<lambda>p. next_all (pagerefs s ! p)) (allbase s) al \<and> distinct al \<and> set al = in_use s
     \<and> (\<forall>b < 8. chain (\<lambda>p. next_samesize (pagerefs s ! p)) (sizebases s ! b) (filter (\<lambda>p. pr_type s p = b) al))
     \<and> (\<forall>p \<in> set al. page_ok s p (F p))
     \<and> inj_on (pr_page s) (set al)"

text \<open>The allocated blocks: address and size.\<close>

definition small_blocks :: "'a kheap_scheme \<Rightarrow> nat list \<Rightarrow> (nat \<Rightarrow> nat list) \<Rightarrow> (nat \<times> nat) set" where
  "small_blocks s al F = {(a, pr_size s p) |a p. p \<in> set al \<and> a \<in> slots (pr_page s p) (pr_size s p) \<and> a \<notin> set (F p)}"

definition large_blocks :: "'a kheap_scheme \<Rightarrow> nat list \<Rightarrow> (nat \<times> nat) set" where
  "large_blocks s al = {(page_va s q, 4096 * N) |q N. vm_regions s q = Some N \<and> q \<noteq> 0 \<and> page_va s q \<notin> pr_page s ` set al}"

definition live_blocks :: "'a kheap_scheme \<Rightarrow> nat list \<Rightarrow> (nat \<Rightarrow> nat list) \<Rightarrow> (nat \<times> nat) set" where
  "live_blocks s al F = small_blocks s al F \<union> large_blocks s al"

lemma sizes_cases: "b < 8 \<Longrightarrow> sizes ! b \<in> {16, 32, 64, 128, 256, 512, 1024, 2048}"
proof -
  have "list_all (\<lambda>b. sizes ! b \<in> {16, 32, 64, 128, 256, 512, 1024, 2048}) [0..<8]" by code_simp
  then show "b < 8 \<Longrightarrow> ?thesis" by (simp add: list_all_iff)
qed

lemma sizes_arith:
  assumes "b < 8"
  shows "16 \<le> sizes ! b" "sizes ! b \<le> 2048" "4096 div sizes ! b * sizes ! b = 4096" "2 \<le> 4096 div sizes ! b"
    "4096 div sizes ! b \<le> 256"
  using sizes_cases [OF assms] by auto

lemma slots_range:
  assumes "b < 8" and "a \<in> slots pa (sizes ! b)"
  shows "pa \<le> a" "a + sizes ! b \<le> pa + 4096"
proof -
  obtain k where k: "a = pa + k * sizes ! b" "k < 4096 div sizes ! b" using assms(2) by (auto simp: slots_def)
  then have "(k + 1) * sizes ! b \<le> 4096 div sizes ! b * sizes ! b" by (intro mult_le_mono1) simp
  then show "pa \<le> a" "a + sizes ! b \<le> pa + 4096" using k(1) sizes_arith(3) [OF assms(1)] by simp_all
qed

lemma slots_apart:
  assumes "b < 8" and "a \<in> slots pa (sizes ! b)" and "a' \<in> slots pa (sizes ! b)" and "a \<noteq> a'"
  shows "{a..<a + sizes ! b} \<inter> {a'..<a' + sizes ! b} = {}"
proof -
  obtain k j where k: "a = pa + k * sizes ! b" "a' = pa + j * sizes ! b" using assms(2,3) by (auto simp: slots_def)
  then consider "k + 1 \<le> j" | "j + 1 \<le> k" using assms(4) by (metis Suc_eq_plus1 less_eq_Suc_le linorder_neqE_nat)
  then show ?thesis
  proof cases
    case 1
    then have "(k + 1) * sizes ! b \<le> j * sizes ! b" by (rule mult_le_mono1)
    then show ?thesis by (auto simp: k)
  next
    case 2
    then have "(j + 1) * sizes ! b \<le> k * sizes ! b" by (rule mult_le_mono1)
    then show ?thesis by (auto simp: k)
  qed
qed

lemma card_slots: "b < 8 \<Longrightarrow> card (slots pa (sizes ! b)) = 4096 div sizes ! b" "finite (slots pa (sizes ! b))"
proof -
  have s: "slots pa (sizes ! b) = (\<lambda>k. pa + k * sizes ! b) ` {..<4096 div sizes ! b}" by (auto simp: slots_def)
  show "finite (slots pa (sizes ! b))" by (simp add: s)
  assume "b < 8"
  then have "inj_on (\<lambda>k. pa + k * sizes ! b) {..<4096 div sizes ! b}" using sizes_arith(1) by (fastforce simp: inj_on_def)
  then show "card (slots pa (sizes ! b)) = 4096 div sizes ! b" by (simp add: s card_image)
qed

section \<open>The search loops\<close>

lemma wp_pr_get [wps]: "wp (pr_get p) Q R = (\<lambda>s. Q (pagerefs s ! p) s)"
  by (simp add: pr_get_def wps)

lemma wp_pr_upd [wps]: "wp (pr_upd p f) Q R = (\<lambda>s. Q () (s\<lparr>pagerefs := (pagerefs s)[p := f (pagerefs s ! p)]\<rparr>))"
  by (simp add: pr_upd_def wps)

lemma wp_set_word [wps]: "wp (set_word a w) Q R = (\<lambda>s. Q () (s\<lparr>kword := (kword s)(a := w)\<rparr>))"
  by (simp add: set_word_def wps)

lemma find_free_page_wp:
  assumes "chain (\<lambda>p. next_samesize (pagerefs s ! p)) c xs" and "length xs \<le> n" and "\<forall>p \<in> set xs. pr_type s p = b"
  shows "wp (find_free_page n b c) (\<lambda>r t. t = s \<and> (case r of None \<Rightarrow> \<forall>p \<in> set xs. nfree (pagerefs s ! p) = 0
     | Some p \<Rightarrow> p \<in> set xs \<and> 0 < nfree (pagerefs s ! p))) R s"
  using assms
proof (induction xs arbitrary: n c)
  case Nil
  then show ?case by (simp add: wps)
next
  case (Cons p xs)
  obtain m where n: "n = Suc m" using Cons.prems(2) by (cases n) auto
  have c: "c = Some p" "chain (\<lambda>p. next_samesize (pagerefs s ! p)) (next_samesize (pagerefs s ! p)) xs"
    using Cons.prems(1) by simp_all
  show ?case
  proof (cases "0 < nfree (pagerefs s ! p)")
    case True
    then show ?thesis using Cons.prems(3) by (simp add: n c(1) wps)
  next
    case False
    have "wp (find_free_page m b (next_samesize (pagerefs s ! p))) (\<lambda>r t. t = s \<and> (case r of None \<Rightarrow> \<forall>p \<in> set xs. nfree (pagerefs s ! p) = 0
     | Some p \<Rightarrow> p \<in> set xs \<and> 0 < nfree (pagerefs s ! p))) R s"
      by (rule Cons.IH [OF c(2)]) (use Cons.prems n in simp_all)
    then have "wp (find_free_page m b (next_samesize (pagerefs s ! p))) (\<lambda>r t. t = s \<and> (case r of None \<Rightarrow> \<forall>p \<in> set (p # xs). nfree (pagerefs s ! p) = 0
     | Some q \<Rightarrow> q \<in> set (p # xs) \<and> 0 < nfree (pagerefs s ! q))) R s"
      by (rule wp_mono) (use False in \<open>auto split: option.splits\<close>)
    then show ?thesis using Cons.prems(3) False by (simp add: n c(1) wps)
  qed
qed

lemma find_owner_wp:
  assumes "chain (\<lambda>p. next_all (pagerefs s ! p)) c xs" and "length xs \<le> n" and "\<forall>p \<in> set xs. pr_type s p < 8"
  shows "wp (find_owner n a c) (\<lambda>r t. t = s \<and> (case r of None \<Rightarrow> \<forall>p \<in> set xs. \<not> (pr_page s p \<le> a \<and> a < u32 (pr_page s p + PAGE_SIZE))
     | Some p \<Rightarrow> p \<in> set xs \<and> pr_page s p \<le> a \<and> a < u32 (pr_page s p + PAGE_SIZE))) R s"
  using assms
proof (induction xs arbitrary: n c)
  case Nil
  then show ?case by (simp add: wps)
next
  case (Cons p xs)
  obtain m where n: "n = Suc m" using Cons.prems(2) by (cases n) auto
  have c: "c = Some p" "chain (\<lambda>p. next_all (pagerefs s ! p)) (next_all (pagerefs s ! p)) xs"
    using Cons.prems(1) by simp_all
  show ?case
  proof (cases "pr_page s p \<le> a \<and> a < u32 (pr_page s p + PAGE_SIZE)")
    case True
    then show ?thesis using Cons.prems(3) by (simp add: n c(1) wps NSIZES_def)
  next
    case False
    have "wp (find_owner m a (next_all (pagerefs s ! p))) (\<lambda>r t. t = s \<and> (case r of None \<Rightarrow> \<forall>p \<in> set xs. \<not> (pr_page s p \<le> a \<and> a < u32 (pr_page s p + PAGE_SIZE))
     | Some p \<Rightarrow> p \<in> set xs \<and> pr_page s p \<le> a \<and> a < u32 (pr_page s p + PAGE_SIZE))) R s"
      by (rule Cons.IH [OF c(2)]) (use Cons.prems n in simp_all)
    then have "wp (find_owner m a (next_all (pagerefs s ! p))) (\<lambda>r t. t = s \<and> (case r of None \<Rightarrow> \<forall>p \<in> set (p # xs). \<not> (pr_page s p \<le> a \<and> a < u32 (pr_page s p + PAGE_SIZE))
     | Some q \<Rightarrow> q \<in> set (p # xs) \<and> pr_page s q \<le> a \<and> a < u32 (pr_page s q + PAGE_SIZE))) R s"
      by (rule wp_mono) (use False in \<open>auto split: option.splits\<close>)
    then show ?thesis using Cons.prems(3) False by (simp add: n c(1) wps NSIZES_def)
  qed
qed

text \<open>The first size that fits.\<close>

lemma blocktype_wp:
  assumes "sz \<le> 2048"
  shows "wp (blocktype sz) (\<lambda>b t. t = s \<and> b < 8 \<and> sz \<le> sizes ! b \<and> (\<forall>c < b. sizes ! c < sz)) R s"
proof -
  have "wp (blocktype_from [k..<8] sz) (\<lambda>b t. t = s \<and> b < 8 \<and> sz \<le> sizes ! b \<and> (\<forall>c < b. sizes ! c < sz)) R s"
    if "k \<le> 7" "\<forall>c < k. sizes ! c < sz" for k
    using that
  proof (induction "7 - k" arbitrary: k)
    case 0
    then have "k = 7" by simp
    moreover have "sizes ! 7 = 2048" by (simp add: sizes_def)
    ultimately show ?case using assms 0 by (simp add: upt_rec wps)
  next
    case (Suc m)
    then have k: "[k..<8] = k # [Suc k..<8]" by (simp add: upt_rec)
    show ?case
    proof (cases "sz \<le> sizes ! k")
      case True
      then show ?thesis using Suc.prems by (simp add: k wps)
    next
      case False
      have "wp (blocktype_from [Suc k..<8] sz) (\<lambda>b t. t = s \<and> b < 8 \<and> sz \<le> sizes ! b \<and> (\<forall>c < b. sizes ! c < sz)) R s"
        by (rule Suc.hyps(1)) (use Suc False in \<open>auto simp: less_Suc_eq\<close>)
      then show ?thesis using False by (simp add: k)
    qed
  qed
  from this [of 0] show ?thesis by (simp add: blocktype_def NSIZES_def)
qed

section \<open>The pages of the heap\<close>

lemma page_va_bounds:
  assumes "vm_wf s" and "vm_regions s q = Some N"
  shows "MIPS_KSEG0 < page_va s q" "page_va s q + 4096 * N \<le> MIPS_KSEG0 + 532676608" "page_va s q mod 4096 = 0"
proof -
  have "q + N \<le> nat (system_pages s)" by (rule vm_regions_bound(1) [OF assms])
  moreover have "vm_lo s + 4096 * nat (system_pages s) \<le> 532676608" "vm_lo s mod 4096 = 0" "0 < vm_lo s"
    using vm_wfD [OF assms(1)] by simp_all
  moreover have "x mod 4096 = 0 \<Longrightarrow> (2147483648 + x + 4096 * q) mod 4096 = 0" for x
  proof -
    have "2147483648 + x + 4096 * q = x + 4096 * (524288 + q)" by simp
    then show "x mod 4096 = 0 \<Longrightarrow> ?thesis" by (simp only: mod_mult_self2)
  qed
  ultimately show "MIPS_KSEG0 < page_va s q" "page_va s q + 4096 * N \<le> MIPS_KSEG0 + 532676608" "page_va s q mod 4096 = 0"
    by (simp_all add: page_va_def MIPS_KSEG0_def del: mod_mult_self4)
qed

lemma page_va_inj: "page_va s p = page_va s q \<longleftrightarrow> p = q"
  by (simp add: page_va_def)

lemma region_words_apart:
  assumes wf: "vm_wf s" and p: "vm_regions s p = Some N" and q: "vm_regions s q = Some M" and ne: "p \<noteq> q"
  shows "{page_va s p..<page_va s p + 4096 * N} \<inter> {page_va s q..<page_va s q + 4096 * M} = {}"
proof -
  have "p + N \<le> q \<or> q + M \<le> p"
  proof (rule ccontr)
    assume n: "\<not> ?thesis"
    then have "p = q" using regions_disjoint [OF vm_wfD(7) [OF wf], of p N q M "max p q"] p q
        vm_regions_bound(2) [OF wf p] vm_regions_bound(2) [OF wf q] by (auto simp: vm_regions_def)
    then show False using ne by simp
  qed
  then show ?thesis by (auto simp: page_va_def)
qed

lemma heap_repD:
  assumes "heap_rep s al F"
  shows "vm_wf s" "length (pagerefs s) = 256" "chain (\<lambda>p. next_all (pagerefs s ! p)) (allbase s) al" "distinct al"
    "set al = in_use s" "p \<in> set al \<Longrightarrow> page_ok s p (F p)" "p \<in> set al \<Longrightarrow> p < 256"
    "b < 8 \<Longrightarrow> chain (\<lambda>p. next_samesize (pagerefs s ! p)) (sizebases s ! b) (filter (\<lambda>p. pr_type s p = b) al)"
    "inj_on (pr_page s) (set al)" "length (sizebases s) = 8" "length (pagerefs_inuse s) = 8"
  using assms by (auto simp: heap_rep_def in_use_def)

lemma heap_pages:
  assumes rep: "heap_rep s al F" and p: "p \<in> set al"
  shows "pr_type s p < 8" "MIPS_KSEG0 < pr_page s p" "pr_page s p + 4096 \<le> MIPS_KSEG0 + 532676608"
    "set (F p) \<subseteq> slots (pr_page s p) (pr_size s p)" "distinct (F p)" "nfree (pagerefs s ! p) = length (F p)"
    "\<exists>q. q \<noteq> 0 \<and> vm_regions s q = Some 1 \<and> pr_page s p = page_va s q"
proof -
  note ok = heap_repD(6) [OF rep p, unfolded page_ok_def]
  show "pr_type s p < 8" "set (F p) \<subseteq> slots (pr_page s p) (pr_size s p)" "distinct (F p)"
    "nfree (pagerefs s ! p) = length (F p)" using ok by simp_all
  show e: "\<exists>q. q \<noteq> 0 \<and> vm_regions s q = Some 1 \<and> pr_page s p = page_va s q" using ok by blast
  then obtain q where q: "vm_regions s q = Some 1" "pr_page s p = page_va s q" by blast
  then show "MIPS_KSEG0 < pr_page s p" "pr_page s p + 4096 \<le> MIPS_KSEG0 + 532676608"
    using page_va_bounds [OF heap_repD(1) [OF rep] q(1)] by simp_all
qed

lemma heap_pages_apart:
  assumes rep: "heap_rep s al F" and p: "p \<in> set al" "q \<in> set al" "p \<noteq> q"
  shows "{pr_page s p..<pr_page s p + 4096} \<inter> {pr_page s q..<pr_page s q + 4096} = {}"
proof -
  obtain i where i: "vm_regions s i = Some 1" "pr_page s p = page_va s i" using heap_pages(7) [OF rep p(1)] by blast
  obtain j where j: "vm_regions s j = Some 1" "pr_page s q = page_va s j" using heap_pages(7) [OF rep p(2)] by blast
  have "pr_page s p \<noteq> pr_page s q" using heap_repD(9) [OF rep] p by (auto simp: inj_on_def)
  then have "i \<noteq> j" using i j by auto
  then show ?thesis using region_words_apart [OF heap_repD(1) [OF rep] i(1) j(1)] i(2) j(2) by simp
qed

lemma slots_in_page: "b < 8 \<Longrightarrow> a \<in> slots pa (sizes ! b) \<Longrightarrow> a \<in> {pa..<pa + 4096}"
  using slots_range [of b a pa] sizes_arith(1) [of b] by simp

text \<open>A change of the free list of one page, with writes inside that page only.\<close>

lemma rep_page_upd:
  assumes rep: "heap_rep s al F" and p: "p \<in> set al"
    and t: "vm_wf t" "vm_regions t = vm_regions s" "vm_lo t = vm_lo s" "pagerefs_inuse t = pagerefs_inuse s"
      "sizebases t = sizebases s" "allbase t = allbase s"
    and r: "pagerefs t = (pagerefs s)[p := r]" "next_samesize r = next_samesize (pagerefs s ! p)"
      "next_all r = next_all (pagerefs s ! p)" "pageaddr_and_blocktype r = pageaddr_and_blocktype (pagerefs s ! p)"
    and ok: "page_ok t p fl"
    and w: "\<And>a. a \<notin> {pr_page s p..<pr_page s p + 4096} \<Longrightarrow> kword t a = kword s a"
  shows "heap_rep t al (F(p := fl))"
proof -
  note d = heap_repD [OF rep]
  have pl: "p < length (pagerefs s)" using d(2,7) p by simp
  have same: "next_samesize (pagerefs t ! q) = next_samesize (pagerefs s ! q)"
    "next_all (pagerefs t ! q) = next_all (pagerefs s ! q)" "pr_page t q = pr_page s q" "pr_type t q = pr_type s q" for q
    using r pl by (cases "q = p"; simp add: PR_PAGEADDR_def PR_BLOCKTYPE_def)+
  have pg: "page_va t q = page_va s q" for q by (simp add: page_va_def t(3))
  have "page_ok t q ((F(p := fl)) q)" if q: "q \<in> set al" for q
  proof (cases "q = p")
    case True
    then show ?thesis using ok by simp
  next
    case False
    have e: "pagerefs t ! q = pagerefs s ! q" using False r(1) by simp
    have "kword t a = kword s a" if "a \<in> set (F q)" for a
    proof (rule w)
      have "a \<in> {pr_page s q..<pr_page s q + 4096}"
        using slots_in_page heap_pages(1,4) [OF rep q] that by blast
      then show "a \<notin> {pr_page s p..<pr_page s p + 4096}" using heap_pages_apart [OF rep q p False] by blast
    qed
    then have "chain (wnext (kword t)) c (F q) = chain (wnext (kword s)) c (F q)" for c
      by (intro chain_cong) (simp add: wnext_def)
    then show ?thesis using d(6) [OF q] False unfolding page_ok_def e t(2) pg by simp
  qed
  moreover have "in_use t = in_use s" by (simp add: in_use_def t(4))
  moreover have "inj_on (pr_page t) (set al)" using d(9) unfolding inj_on_def same .
  ultimately show ?thesis
    unfolding heap_rep_def same t(5,6) using t(1,4) d r(1) by simp
qed

text \<open>What the change does to the allocated blocks.\<close>

lemma live_page_upd:
  assumes "vm_regions t = vm_regions s" "vm_lo t = vm_lo s"
    and "\<And>q. pr_page t q = pr_page s q" "\<And>q. pr_type t q = pr_type s q"
    and p: "p \<in> set al" and a: "a \<in> slots (pr_page s p) (pr_size s p)"
    and fl: "set (F p) = insert a (set fl)" "a \<notin> set fl"
  shows "live_blocks t al (F(p := fl)) = insert (a, pr_size s p) (live_blocks s al F)"
proof -
  have pg: "page_va t q = page_va s q" for q using assms(2) by (simp add: page_va_def)
  have l: "large_blocks t al = large_blocks s al" unfolding large_blocks_def assms(1,3) pg ..
  have "small_blocks t al (F(p := fl)) = insert (a, pr_size s p) (small_blocks s al F)"
  proof (intro equalityI subsetI)
    fix x
    assume "x \<in> small_blocks t al (F(p := fl))"
    then obtain c q where x: "x = (c, pr_size s q)" "q \<in> set al" "c \<in> slots (pr_page s q) (pr_size s q)" "c \<notin> set ((F(p := fl)) q)"
      unfolding small_blocks_def assms(3,4) by blast
    then show "x \<in> insert (a, pr_size s p) (small_blocks s al F)"
      using fl by (cases "q = p"; cases "c = a") (auto simp: small_blocks_def)
  next
    fix x
    assume "x \<in> insert (a, pr_size s p) (small_blocks s al F)"
    then consider "x = (a, pr_size s p)" | c q where "x = (c, pr_size s q)" "q \<in> set al" "c \<in> slots (pr_page s q) (pr_size s q)" "c \<notin> set (F q)"
      unfolding small_blocks_def by blast
    then show "x \<in> small_blocks t al (F(p := fl))"
    proof cases
      case 1
      then show ?thesis using p a fl(2) unfolding small_blocks_def assms(3,4) by (intro CollectI exI [of _ a] exI [of _ p]) simp
    next
      case 2
      then show ?thesis using fl unfolding small_blocks_def assms(3,4)
        by (intro CollectI exI [of _ c] exI [of _ q]) auto
    qed
  qed
  then show ?thesis by (simp add: live_blocks_def l)
qed

section \<open>Taking a free block\<close>

lemma doalloc_wp:
  assumes rep: "heap_rep s al F" and p: "p \<in> set al" and F: "F p = a # fl"
  shows "wp (doalloc p) (\<lambda>r t. r = a \<and> heap_rep t al (F(p := fl))
      \<and> live_blocks t al (F(p := fl)) = insert (a, pr_size s p) (live_blocks s al F)
      \<and> kword t = kword s \<and> vm_regions t = vm_regions s \<and> vm_lo t = vm_lo s \<and> curspl t = curspl s
      \<and> pr_page t p = pr_page s p \<and> pr_type t p = pr_type s p)
    (\<lambda>_ _. False) s"
proof -
  note d = heap_repD [OF rep] and hp = heap_pages [OF rep p]
  let ?pr = "pagerefs s ! p" and ?pa = "pr_page s p"
  note ok = d(6) [OF p, unfolded page_ok_def F]
  have off: "freelist_offset ?pr \<noteq> INVALID_OFFSET" "a = ?pa + freelist_offset ?pr"
    "chain (wnext (kword s)) (wnext (kword s) a) fl"
    using ok by (auto split: if_splits)
  have as: "a \<in> slots ?pa (pr_size s p)" "set fl \<subseteq> slots ?pa (pr_size s p)" "a \<notin> set fl" "distinct fl"
    using hp(4,5) F by auto
  have rng: "x \<in> {?pa..<?pa + 4096}" if "x \<in> slots ?pa (pr_size s p)" for x
    using slots_in_page [OF hp(1) that] .
  have o: "freelist_offset ?pr < PAGE_SIZE" using rng [OF as(1)] off(2) by (simp add: PAGE_SIZE_def)
  have ret: "u32 (?pa + freelist_offset ?pr) = a" using off(2) rng [OF as(1)] hp(3) by (simp add: MIPS_KSEG0_def)
  have sub: "sub32 x ?pa = x - ?pa" "x - ?pa < 4096" if "x \<in> slots ?pa (pr_size s p)" for x
  proof -
    have x: "?pa \<le> x" "x < ?pa + 4096" using rng [OF that] by simp_all
    then show "sub32 x ?pa = x - ?pa" using hp(3) by (intro sub32_id) (simp_all add: MIPS_KSEG0_def)
    show "x - ?pa < 4096" using x by arith
  qed
  have nf: "nfree ?pr = Suc (length fl)" using hp(6) F by simp
  have "card (set (a # fl)) \<le> card (slots ?pa (pr_size s p))"
    by (rule card_mono [OF card_slots(2)]) (use as in simp)
  then have len: "length fl < 256" using as(3,4) card_slots(1) [OF hp(1)] sizes_arith(5) [OF hp(1)]
    by (simp add: distinct_card)
  define w where "w = kword s a"
  have w: "fl = [] \<longleftrightarrow> w = 0" "w \<noteq> 0 \<longrightarrow> fl \<noteq> [] \<and> hd fl = w"
    using off(3) by (cases fl; auto simp: wnext_def w_def split: if_splits)+
  define r where "r = ?pr\<lparr>nfree := length fl, freelist_offset := if w = 0 then INVALID_OFFSET else w - ?pa\<rparr>"
  let ?t = "s\<lparr>pagerefs := (pagerefs s)[p := r]\<rparr>"
  have pl: "p < length (pagerefs s)" using d(2) d(7) [OF p] by simp
  have wm: "w \<in> slots ?pa (pr_size s p)" if "w \<noteq> 0" using w(2) that as(2) by (metis hd_in_set subsetD)
  have pg: "pr_page ?t q = pr_page s q" "pr_type ?t q = pr_type s q" for q
    using pl by (cases "q = p"; simp add: r_def PR_PAGEADDR_def PR_BLOCKTYPE_def)+
  have st: "vm_wf ?t" "vm_regions ?t = vm_regions s" by (rule vm_frame [OF d(1)]; simp)+
  have pva: "page_va ?t = page_va s" by (simp add: page_va_def fun_eq_iff)
  have o': "freelist_offset r = INVALID_OFFSET \<longleftrightarrow> w = 0" using sub(2) [OF wm] by (auto simp: r_def INVALID_OFFSET_def)
  have ch: "chain (wnext (kword s)) (if freelist_offset r = INVALID_OFFSET then None else Some (?pa + freelist_offset r)) fl"
  proof (cases "w = 0")
    case True
    then show ?thesis using w(1) o' by simp
  next
    case False
    have "?pa + freelist_offset r = w" using False rng [OF wm [OF False]] by (simp add: r_def)
    then show ?thesis using False off(3) o' by (simp add: wnext_def w_def [symmetric])
  qed
  have rp: "pagerefs ?t ! p = r" "nfree r = length fl" "kword ?t = kword s"
    "PR_PAGEADDR r = ?pa" "PR_BLOCKTYPE r = pr_type s p"
    using pl by (simp_all add: r_def PR_PAGEADDR_def PR_BLOCKTYPE_def)
  have "page_ok ?t p fl"
    unfolding page_ok_def pva st(2) rp using hp(1,7) as(2,4) ch by blast
  then have "heap_rep ?t al (F(p := fl))"
    by (intro rep_page_upd [OF rep p st, where r = r]) (simp_all, simp_all add: r_def)
  moreover have "live_blocks ?t al (F(p := fl)) = insert (a, pr_size s p) (live_blocks s al F)"
    by (rule live_page_upd [OF st(2) _ pg p as(1)]) (use F as(3) in simp_all)
  ultimately have Q: "a = a \<and> heap_rep ?t al (F(p := fl)) \<and> live_blocks ?t al (F(p := fl)) = insert (a, pr_size s p) (live_blocks s al F)
      \<and> kword ?t = kword s \<and> vm_regions ?t = vm_regions s \<and> vm_lo ?t = vm_lo s \<and> curspl ?t = curspl s
      \<and> pr_page ?t p = pr_page s p \<and> pr_type ?t p = pr_type s p"
    using st pg by simp
  have n1: "(nfree ?pr + 65535) mod 65536 = length fl" using nf len by simp
  show ?thesis
  proof (cases "w = 0")
    case True
    then have t: "s\<lparr>pagerefs := (pagerefs s)[p := ?pr\<lparr>nfree := 0, freelist_offset := INVALID_OFFSET\<rparr>]\<rparr> = ?t"
      using w(1) by (simp add: r_def)
    show ?thesis using Q True w(1) o pl
      by (simp add: doalloc_def wps Let_def ret w_def [symmetric] n1 t)
  next
    case False
    have sm: "sub32 w ?pa = w - ?pa" "w - ?pa < 4096" using sub [OF wm [OF False]] by simp_all
    then have t: "s\<lparr>pagerefs := (pagerefs s)[p := ?pr\<lparr>nfree := length fl, freelist_offset := w - ?pa\<rparr>]\<rparr> = ?t"
      using False by (simp add: r_def)
    have lf: "0 < length fl" using False w(2) by simp
    show ?thesis using Q False lf o pl sm(2)
      by (simp add: doalloc_def wps Let_def ret w_def [symmetric] n1 t sm(1) PAGE_SIZE_def)
  qed
qed

section \<open>The table of page references\<close>

lemma and_push_bit: "w AND push_bit j 1 = 0 \<longleftrightarrow> \<not> bit w j" for w :: "32 word"
  by (simp add: push_bit_eq_mult and_exp_eq_0_iff_not_bit)

lemma clear_bit_of:
  "case clear_bit_of w js of None \<Rightarrow> \<forall>j \<in> set js. bit w j | Some j \<Rightarrow> j \<in> set js \<and> \<not> bit w j"
  by (induction js) (auto simp: and_exp_eq_0_iff_not_bit split: option.splits)

lemma full_word: "w = 0xffffffff \<longleftrightarrow> (\<forall>j < 32. bit w j)" for w :: "32 word"
proof -
  have m: "(0xffffffff :: 32 word) = - 1" by simp
  show ?thesis unfolding m by (auto intro: bit_word_eqI)
qed

lemma Collect_insert: "c < n \<Longrightarrow> (\<And>p. p < n \<Longrightarrow> A p \<longleftrightarrow> B p \<or> p = c) \<Longrightarrow> {p. p < n \<and> A p} = insert c {p. p < n \<and> B p}" for n :: nat
  by auto

lemma in_use_set:
  assumes "length (pagerefs_inuse s) = 8" and "i < 8" and "j < 32"
  shows "in_use (s\<lparr>pagerefs_inuse := (pagerefs_inuse s)[i := pagerefs_inuse s ! i OR push_bit j 1]\<rparr>) = insert (i * 32 + j) (in_use s)"
    "in_use (s\<lparr>pagerefs_inuse := (pagerefs_inuse s)[i := pagerefs_inuse s ! i AND NOT (push_bit j 1)]\<rparr>) = in_use s - {i * 32 + j}"
proof -
  have b: "bit (push_bit j (1 :: 32 word)) k \<longleftrightarrow> k = j" if "k < 32" for k
    using that assms(3) by (auto simp: push_bit_eq_mult bit_exp_iff)
  have p: "p = i * 32 + j \<longleftrightarrow> p div 32 = i \<and> p mod 32 = j" for p using assms(3) by auto
  have "bit ((pagerefs_inuse s)[i := pagerefs_inuse s ! i OR push_bit j 1] ! (p div 32)) (p mod 32)
      \<longleftrightarrow> bit (pagerefs_inuse s ! (p div 32)) (p mod 32) \<or> p = i * 32 + j" if "p < 256" for p
    using assms that b [of "p mod 32"] unfolding p by (auto simp: nth_list_update bit_or_iff)
  then show "in_use (s\<lparr>pagerefs_inuse := (pagerefs_inuse s)[i := pagerefs_inuse s ! i OR push_bit j 1]\<rparr>) = insert (i * 32 + j) (in_use s)"
    using assms(2,3) unfolding in_use_def by (simp del: push_bit_of_1) (rule Collect_insert, simp_all)
  have "bit ((pagerefs_inuse s)[i := pagerefs_inuse s ! i AND NOT (push_bit j 1)] ! (p div 32)) (p mod 32)
      \<longleftrightarrow> bit (pagerefs_inuse s ! (p div 32)) (p mod 32) \<and> p \<noteq> i * 32 + j" if "p < 256" for p
    using assms that b [of "p mod 32"] unfolding p by (auto simp: nth_list_update bit_and_iff bit_not_iff)
  then show "in_use (s\<lparr>pagerefs_inuse := (pagerefs_inuse s)[i := pagerefs_inuse s ! i AND NOT (push_bit j 1)]\<rparr>) = in_use s - {i * 32 + j}"
    by (auto simp: in_use_def)
qed

definition ref_taken :: "'a kheap_scheme \<Rightarrow> nat \<Rightarrow> 'a kheap_scheme \<Rightarrow> bool" where
  "ref_taken s p t \<longleftrightarrow> p < 256 \<and> p \<notin> in_use s \<and> in_use t = insert p (in_use s)
     \<and> (\<exists>ws. length ws = 8 \<and> t = s\<lparr>pagerefs_inuse := ws\<rparr>)"

lemma allocpageref_wp:
  assumes len: "length (pagerefs_inuse s) = 8"
  shows "wp allocpageref (\<lambda>r t. case r of None \<Rightarrow> t = s \<and> in_use s = {..<256} | Some p \<Rightarrow> ref_taken s p t) R s"
    (is "wp _ ?Q R s")
proof -
  have "wp (allocpageref_loop [i..<8]) ?Q R s" if "i \<le> 8" "\<forall>k < i. \<forall>j < 32. bit (pagerefs_inuse s ! k) j" for i
    using that
  proof (induction "8 - i" arbitrary: i)
    case 0
    have "p \<in> in_use s" if "p < 256" for p
    proof -
      have "p div 32 < i" "p mod 32 < 32" using 0 that by auto
      then show ?thesis using 0(3) that by (simp add: in_use_def)
    qed
    then have "in_use s = {..<256}" by (auto simp: in_use_def)
    then show ?case using 0 by (simp add: wps)
  next
    case (Suc m)
    let ?w = "pagerefs_inuse s ! i"
    have i: "i < 8" "[i..<8] = i # [Suc i..<8]" using Suc.hyps(2) by (simp_all add: upt_conv_Cons)
    show ?case
    proof (cases "?w = 0xffffffff")
      case True
      have "wp (allocpageref_loop [Suc i..<8]) ?Q R s"
        by (rule Suc.hyps(1)) (use Suc True full_word in \<open>auto simp: less_Suc_eq\<close>)
      then show ?thesis using True by (simp add: i(2) wps)
    next
      case False
      obtain j where j: "clear_bit_of ?w [0..<32] = Some j" "j < 32" "\<not> bit ?w j"
        using clear_bit_of [of "[0..<32]" ?w] False full_word [of ?w] by (auto split: option.splits)
      have "i * 32 + j \<notin> in_use s" using j(2,3) by (simp add: in_use_def)
      then have "ref_taken s (i * 32 + j) (s\<lparr>pagerefs_inuse := (pagerefs_inuse s)[i := ?w OR push_bit j 1]\<rparr>)"
        unfolding ref_taken_def using in_use_set(1) [OF len i(1) j(2)] i(1) j(2) len
        by (intro conjI exI [of _ "(pagerefs_inuse s)[i := ?w OR push_bit j 1]"]) simp_all
      then show ?thesis using False j(1) by (simp add: i(2) wps)
    qed
  qed
  from this [of 0] show ?thesis by (simp add: allocpageref_def INUSE_WORDS_def)
qed

lemma freepageref_wp:
  assumes len: "length (pagerefs_inuse s) = 8" and p: "p \<in> in_use s"
    and q: "\<And>t. t = s\<lparr>pagerefs_inuse := pagerefs_inuse t\<rparr> \<Longrightarrow> length (pagerefs_inuse t) = 8 \<Longrightarrow> in_use t = in_use s - {p} \<Longrightarrow> Q () t"
  shows "wp (freepageref p) Q R s"
proof -
  have b: "p < 256" "bit (pagerefs_inuse s ! (p div 32)) (p mod 32)" using p by (simp_all add: in_use_def)
  have d: "p div 32 < 8" "p mod 32 < 32" "p div 32 * 32 + p mod 32 = p" using b(1) by auto
  show ?thesis using b and_push_bit q in_use_set(2) [OF len d(1,2)] len unfolding d(3)
    by (simp add: freepageref_def wps NPAGEREFS_def)
qed

section \<open>A fresh page\<close>

definition threaded :: "nat \<Rightarrow> nat \<Rightarrow> nat \<Rightarrow> (nat \<Rightarrow> nat) \<Rightarrow> (nat \<Rightarrow> nat) \<Rightarrow> bool" where
  "threaded pa sz n w w' \<longleftrightarrow> (\<forall>a. a \<notin> {pa..<pa + 4096} \<longrightarrow> w' a = w a) \<and> w' pa = 0
     \<and> (\<forall>k. 0 < k \<longrightarrow> k < n \<longrightarrow> w' (pa + k * sz) = pa + (k - 1) * sz)"

lemma thread_page_wp:
  assumes pa: "pa + 4096 < 4294967296" and sz: "0 < sz" "n * sz \<le> 4096" "1 \<le> n"
  shows "wp (thread_page pa sz n) (\<lambda>_ t. \<exists>w. t = s\<lparr>kword := w\<rparr> \<and> threaded pa sz n (kword s) w) R s"
proof -
  let ?body = "\<lambda>i. kbind (set_word (u32 (pa + i * sz)) (u32 (pa + (i - 1) * sz)))
     (\<lambda>_. kassert (u32 (pa + i * sz) \<noteq> u32 (pa + (i - 1) * sz)))"
  let ?s = "s\<lparr>kword := (kword s)(pa := 0)\<rparr>"
  have "wp (kfor [1..<m] ?body) (\<lambda>_ t. \<exists>w. t = s\<lparr>kword := w\<rparr> \<and> threaded pa sz m (kword s) w) R ?s"
    if "1 \<le> m" "m \<le> n" for m
    using that
  proof (induction m)
    case (Suc m)
    show ?case
    proof (cases "m = 0")
      case True
      then show ?thesis by (simp add: wps threaded_def) (rule exI [of _ "(kword s)(pa := 0)"], simp add: fun_upd_def)
    next
      case False
      have u: "[1..<Suc m] = [1..<m] @ [m]" using False by simp
      have "(m + 1) * sz \<le> n * sz" using Suc.prems(2) by (intro mult_le_mono1) simp
      then have mb: "m * sz < 4096" using sz(1,2) by simp
      have lt: "(m - 1) * sz < m * sz" using False sz(1) by simp
      have a: "u32 (pa + m * sz) = pa + m * sz" "u32 (pa + (m - 1) * sz) = pa + (m - 1) * sz"
        using pa mb less_trans [OF lt mb] by (intro u32_id; linarith)+
      show ?thesis unfolding u wp_kfor_append
      proof (rule wp_mono [OF Suc.IH])
        fix x :: unit and t
        assume "\<exists>w. t = s\<lparr>kword := w\<rparr> \<and> threaded pa sz m (kword s) w"
        then obtain w where t: "t = s\<lparr>kword := w\<rparr>" "threaded pa sz m (kword s) w" by blast
        have "threaded pa sz (Suc m) (kword s) (w(pa + m * sz := pa + (m - 1) * sz))"
          using t(2) mb False sz(1) unfolding threaded_def by (auto simp: less_Suc_eq)
        then show "wp (kfor [m] ?body) (\<lambda>_ t. \<exists>w. t = s\<lparr>kword := w\<rparr> \<and> threaded pa sz (Suc m) (kword s) w) R t"
          using lt by (auto simp: wps t(1) a simp del: One_nat_def)
      qed (use False Suc.prems in simp_all)
    qed
  qed simp
  from this [OF sz(3) order_refl] show ?thesis by (simp add: thread_page_def wps)
qed

lemma threaded_chain:
  assumes th: "threaded pa sz n w w'" and pa: "0 < pa" and m: "m < n"
  shows "chain (wnext w') (Some (pa + m * sz)) (rev (map (\<lambda>k. pa + k * sz) [0..<Suc m]))"
  using m
proof (induction m)
  case 0
  then show ?case using th by (simp add: threaded_def wnext_def)
next
  case (Suc m)
  have "w' (pa + Suc m * sz) = pa + m * sz" using th Suc.prems unfolding threaded_def by (metis Suc_eq_plus1 add_diff_cancel_right' zero_less_Suc)
  then have "wnext w' (pa + Suc m * sz) = Some (pa + m * sz)" using pa by (simp add: wnext_def)
  then show ?case using Suc.IH Suc.prems by simp
qed

lemma set_block_list: "set (rev (map (\<lambda>k. pa + k * sz) [0..<4096 div sz])) = slots pa sz"
  by (auto simp: slots_def)

lemma distinct_block_list: "0 < sz \<Longrightarrow> distinct (rev (map (\<lambda>k. pa + k * sz) [0..<n]))" for sz :: nat
  by (simp add: distinct_map inj_on_def)

lemma MKPAB_simps:
  assumes "pa mod 4096 = 0" and "b < 8" and "pageaddr_and_blocktype r = MKPAB pa b"
  shows "PR_PAGEADDR r = pa" "PR_BLOCKTYPE r = b"
proof -
  obtain c where c: "pa = c * 4096" using assms(1) by (metis mod_0_imp_dvd dvd_div_mult_self)
  have "(c * 4096 + b) div 4096 = c" "(c * 4096 + b) mod 4096 = b" using assms(2) by simp_all
  then show "PR_PAGEADDR r = pa" "PR_BLOCKTYPE r = b"
    using assms(2,3) by (simp_all add: c MKPAB_def PR_PAGEADDR_def PR_BLOCKTYPE_def)
qed

text \<open>A page whose blocks are all free is entered at the head of the lists.\<close>

lemma rep_add:
  assumes rep: "heap_rep s al F" and p: "p < 256" "p \<notin> in_use s" and b: "b < 8"
    and t: "vm_wf t" "vm_lo t = vm_lo s" "vm_regions t = (vm_regions s)(q \<mapsto> 1)" "vm_regions s q = None" "q \<noteq> 0"
      "length (pagerefs_inuse t) = 8" "in_use t = insert p (in_use s)"
      "sizebases t = (sizebases s)[b := Some p]" "allbase t = Some p"
    and r: "pagerefs t = (pagerefs s)[p := r]" "next_samesize r = sizebases s ! b" "next_all r = allbase s"
      "pageaddr_and_blocktype r = MKPAB (page_va s q) b" "nfree r = length fl"
    and fl: "chain (wnext (kword t)) (if freelist_offset r = INVALID_OFFSET then None
          else Some (page_va s q + freelist_offset r)) fl" "distinct fl" "set fl = slots (page_va s q) (sizes ! b)"
    and w: "\<And>a. \<exists>i N. i \<noteq> 0 \<and> vm_regions s i = Some N \<and> a \<in> {page_va s i..<page_va s i + 4096 * N} \<Longrightarrow> kword t a = kword s a"
  shows "heap_rep t (p # al) (F(p := fl))" "live_blocks t (p # al) (F(p := fl)) = live_blocks s al F"
    "pr_page t p = page_va s q" "pr_type t p = b"
proof -
  note d = heap_repD [OF rep]
  have pal: "p \<notin> set al" using p(2) d(5) by simp
  have pl: "p < length (pagerefs s)" using p(1) d(2) by simp
  have q1: "vm_regions t q = Some 1" using t(3) by simp
  have pg: "page_va t i = page_va s i" for i by (simp add: page_va_def t(2))
  have qm: "page_va s q mod 4096 = 0" using page_va_bounds(3) [OF t(1) q1] by (simp add: pg)
  have tp: "pagerefs t ! p = r" using r(1) pl by simp
  have to: "pagerefs t ! i = pagerefs s ! i" if "i \<in> set al" for i using r(1) that pal by (cases "i = p") simp_all
  show pp: "pr_page t p = page_va s q" "pr_type t p = b" using MKPAB_simps [OF qm b r(4)] by (simp_all add: tp)
  have op: "page_ok t i (F i)" if i: "i \<in> set al" for i
  proof -
    obtain j where j: "j \<noteq> 0" "vm_regions s j = Some 1" "pr_page s i = page_va s j" using heap_pages(7) [OF rep i] by blast
    have jq: "j \<noteq> q" using j(2) t(4) by auto
    have "kword t a = kword s a" if "a \<in> set (F i)" for a
    proof (rule w, intro exI conjI)
      show "j \<noteq> 0" "vm_regions s j = Some 1" by (rule j)+
      show "a \<in> {page_va s j..<page_va s j + 4096 * 1}"
        using slots_in_page [OF heap_pages(1) [OF rep i], of a "pr_page s i"] heap_pages(4) [OF rep i] that j(3) by auto
    qed
    then have "chain (wnext (kword t)) c (F i) = chain (wnext (kword s)) c (F i)" for c
      by (intro chain_cong) (simp add: wnext_def)
    moreover have "vm_regions t j = Some 1" using j(2) jq by (simp add: t(3))
    ultimately show ?thesis using d(6) [OF i] j(1,3) unfolding page_ok_def to [OF i] pg by auto
  qed
  have np: "page_va s q \<notin> pr_page s ` set al"
  proof
    assume "page_va s q \<in> pr_page s ` set al"
    then obtain i where i: "i \<in> set al" "pr_page s i = page_va s q" by auto
    obtain j where "vm_regions s j = Some 1" "pr_page s i = page_va s j" using heap_pages(7) [OF rep i(1)] by blast
    then show False using i(2) t(4) by (simp add: page_va_inj)
  qed
  have img: "pr_page t ` set al = pr_page s ` set al" using to by (auto simp: image_def)
  have "page_ok t p fl" unfolding page_ok_def pp tp using b q1 t(5) fl r(5) by (auto simp: pg MKPAB_simps [OF qm b r(4)])
  moreover have "chain (\<lambda>p. next_all (pagerefs t ! p)) (next_all r) al"
    using d(3) chain_cong [of al "\<lambda>p. next_all (pagerefs t ! p)" "\<lambda>p. next_all (pagerefs s ! p)"] to by (simp add: r(3))
  moreover have "chain (\<lambda>p. next_samesize (pagerefs t ! p)) (sizebases t ! c) (filter (\<lambda>p. pr_type t p = c) (p # al))"
    if c: "c < 8" for c
  proof -
    have fe: "filter (\<lambda>p. pr_type t p = c) al = filter (\<lambda>p. pr_type s p = c) al" by (rule filter_cong) (use to in simp_all)
    have "chain (\<lambda>p. next_samesize (pagerefs t ! p)) (sizebases s ! c) (filter (\<lambda>p. pr_type s p = c) al)"
      using d(8) [OF c] chain_cong [of "filter (\<lambda>p. pr_type s p = c) al" "\<lambda>p. next_samesize (pagerefs t ! p)" "\<lambda>p. next_samesize (pagerefs s ! p)"] to
      by simp
    then show ?thesis using pp(2) fe d(10) b c by (cases "c = b") (simp_all add: t(8) tp r(2))
  qed
  moreover have "inj_on (pr_page t) (set (p # al))"
  proof -
    have "inj_on (pr_page t) (set al)" using d(9) inj_on_cong [of "set al" "pr_page t" "pr_page s"] to by simp
    moreover have "pr_page t p \<notin> pr_page t ` (set al - {p})" using np unfolding pp(1) img [symmetric] by blast
    ultimately show ?thesis unfolding list.set inj_on_insert by blast
  qed
  moreover have "\<forall>i \<in> set (p # al). page_ok t i ((F(p := fl)) i)" using calculation(1) op pal by auto
  moreover have "length (pagerefs t) = 256" "length (sizebases t) = 8" "set (p # al) = in_use t" "distinct (p # al)"
    using d(2,4,5,10) t(7,8) r(1) pal by simp_all
  moreover have "chain (\<lambda>p. next_all (pagerefs t ! p)) (allbase t) (p # al)" using calculation(2) by (simp add: t(9) tp)
  ultimately show "heap_rep t (p # al) (F(p := fl))"
    unfolding heap_rep_def using t(1,6) by blast
  have "small_blocks t (p # al) (F(p := fl)) = small_blocks s al F"
  proof (intro equalityI subsetI)
    fix x
    assume "x \<in> small_blocks t (p # al) (F(p := fl))"
    then obtain a i where x: "x = (a, pr_size t i)" "i \<in> set (p # al)" "a \<in> slots (pr_page t i) (pr_size t i)" "a \<notin> set ((F(p := fl)) i)"
      unfolding small_blocks_def by blast
    then have "i \<noteq> p" using pp fl(3) by auto
    then show "x \<in> small_blocks s al F" using x to by (auto simp: small_blocks_def)
  next
    fix x
    assume "x \<in> small_blocks s al F"
    then obtain a i where x: "x = (a, pr_size s i)" "i \<in> set al" "a \<in> slots (pr_page s i) (pr_size s i)" "a \<notin> set (F i)"
      unfolding small_blocks_def by blast
    then show "x \<in> small_blocks t (p # al) (F(p := fl))" unfolding small_blocks_def
      using to pal by (intro CollectI exI [of _ a] exI [of _ i]) auto
  qed
  moreover have "large_blocks t (p # al) = large_blocks s al"
  proof -
    have im: "pr_page t ` set (p # al) = insert (page_va s q) (pr_page s ` set al)" using img pp(1) by simp
    have "vm_regions t i = Some N \<and> i \<noteq> 0 \<and> page_va t i \<notin> pr_page t ` set (p # al)
        \<longleftrightarrow> vm_regions s i = Some N \<and> i \<noteq> 0 \<and> page_va s i \<notin> pr_page s ` set al" for i N
      unfolding im pg using t(3,4) by (cases "i = q") (simp_all add: page_va_inj)
    then show ?thesis unfolding large_blocks_def pg by simp
  qed
  ultimately show "live_blocks t (p # al) (F(p := fl)) = live_blocks s al F" by (simp add: live_blocks_def)
qed

text \<open>The words of an allocated block lie in a region that is not the table's.\<close>

definition heap_words :: "'a kheap_scheme \<Rightarrow> nat set" where
  "heap_words s = {a. \<exists>i N. i \<noteq> 0 \<and> vm_regions s i = Some N \<and> a \<in> {page_va s i..<page_va s i + 4096 * N}}"

lemma live_words:
  assumes rep: "heap_rep s al F" and l: "(a, m) \<in> live_blocks s al F"
  shows "{a..<a + m} \<subseteq> heap_words s"
proof -
  from l consider p where "m = pr_size s p" "p \<in> set al" "a \<in> slots (pr_page s p) (pr_size s p)"
    | q N where "a = page_va s q" "m = 4096 * N" "vm_regions s q = Some N" "q \<noteq> 0"
    unfolding live_blocks_def small_blocks_def large_blocks_def by blast
  then show ?thesis
  proof cases
    case 1
    obtain q where q: "q \<noteq> 0" "vm_regions s q = Some 1" "pr_page s p = page_va s q" using heap_pages(7) [OF rep 1(2)] by blast
    have "page_va s q \<le> a" "a + m \<le> page_va s q + 4096 * 1"
      using slots_range [OF heap_pages(1) [OF rep 1(2)] 1(3)] q(3) 1(1) by simp_all
    then have "{a..<a + m} \<subseteq> {page_va s q..<page_va s q + 4096 * 1}" by auto
    then show ?thesis unfolding heap_words_def using q(1,2) by blast
  next
    case 2
    then show ?thesis unfolding heap_words_def by blast
  qed
qed

lemma alloc_at_words:
  assumes wf: "vm_wf s" and N: "0 < N" "N < 2147483648" and a: "alloc_at N s j t"
  shows "\<And>x. x \<in> heap_words s \<Longrightarrow> kword t x = kword s x"
    "\<And>x. x \<in> heap_words s \<Longrightarrow> x \<notin> {page_va s j..<page_va s j + 4096 * N}"
proof -
  note t = alloc_at_table [OF vm_wf_table [OF wf] N a] and w = alloc_at_wf [OF wf N a]
  have kw: "kword t = (kword s)(ipt_addr s (int j) := N)" using a by (simp add: alloc_at_def)
  fix x
  assume "x \<in> heap_words s"
  then obtain i M where i: "i \<noteq> 0" "vm_regions s i = Some M" "x \<in> {page_va s i..<page_va s i + 4096 * M}"
    unfolding heap_words_def by blast
  have "ipt_addr s (int j) < page_va s i" by (rule ipt_addr_low [OF wf _ i(2,1)]) (use t(5) in simp)
  then show "kword t x = kword s x" using i(3) by (simp add: kw)
  have ij: "i \<noteq> j" using i(2) t(3) by auto
  have r: "vm_regions t i = Some M" "vm_regions t j = Some N" using i(2) ij t(2) by simp_all
  show "x \<notin> {page_va s j..<page_va s j + 4096 * N}"
    using region_words_apart [OF w(1) r ij] i(3) by (auto simp: page_va_def t(6))
qed

text \<open>There is a run of \<open>N\<close> free pages that does not end memory.\<close>

definition room :: "nat \<Rightarrow> 'a vm_scheme \<Rightarrow> bool" where
  "room N s \<longleftrightarrow> (\<exists>j. free_run (ipt_list s) N j \<and> j + N < nat (system_pages s))"

lemma room_alloc:
  assumes wf: "vm_wf s" and N: "0 < N" "N < 2147483648" and rm: "room N s"
  shows "wp (alloc_kpages (int N)) (\<lambda>r t. \<exists>j. r = page_va s j \<and> alloc_at N s j t) (\<lambda>_ _. False) s"
  by (rule wp_mono [OF alloc_kpages_wp [OF vm_wf_table [OF wf] N]])
    (use rm in \<open>auto simp: alloc_none_def room_def\<close>)

text \<open>The effect of a step on the heap: the blocks that were allocated keep their contents.\<close>

definition keeps_blocks :: "(nat \<times> nat) set \<Rightarrow> 'a kheap_scheme \<Rightarrow> 'a kheap_scheme \<Rightarrow> bool" where
  "keeps_blocks B s t \<longleftrightarrow> (\<forall>(a, m) \<in> B. \<forall>x \<in> {a..<a + m}. kword t x = kword s x)"

lemma keeps_blocksI:
  assumes rep: "heap_rep s al F" and w: "\<And>x. x \<in> heap_words s \<Longrightarrow> kword t x = kword s x"
  shows "keeps_blocks (live_blocks s al F) s t"
proof -
  have "kword t x = kword s x" if "(a, m) \<in> live_blocks s al F" "x \<in> {a..<a + m}" for a m x
    using w live_words [OF rep that(1)] that(2) by blast
  then show ?thesis unfolding keeps_blocks_def by blast
qed

lemma enter_page_wp:
  assumes rep: "heap_rep s al F" and b: "b < 8" and p: "p < 256" "p \<notin> in_use s"
    and t: "vm_wf t" "vm_lo t = vm_lo s" "vm_regions t = (vm_regions s)(q \<mapsto> 1)" "vm_regions s q = None" "q \<noteq> 0"
      "length (pagerefs_inuse t) = 8" "in_use t = insert p (in_use s)"
      "sizebases t = sizebases s" "allbase t = allbase s" "pagerefs t = pagerefs s" "curspl t = curspl s"
    and w: "\<And>a. a \<in> heap_words s \<Longrightarrow> kword t a = kword s a" "\<And>a. a \<in> heap_words s \<Longrightarrow> a \<notin> {page_va s q..<page_va s q + 4096}"
  shows "wp (enter_page p b (page_va s q))
    (\<lambda>_ u. \<exists>fl. heap_rep u (p # al) (F(p := fl)) \<and> live_blocks u (p # al) (F(p := fl)) = live_blocks s al F
      \<and> pr_type u p = b \<and> set fl = slots (page_va s q) (sizes ! b) \<and> curspl u = curspl s
      \<and> (\<forall>a \<in> heap_words s. kword u a = kword s a)) R t"
proof -
  note d = heap_repD [OF rep] and sz = sizes_arith [OF b]
  let ?sz = "sizes ! b" and ?n = "4096 div sizes ! b" and ?pa = "page_va s q"
  have pva: "page_va t = page_va s" by (simp add: page_va_def fun_eq_iff t(2))
  have q1: "vm_regions t q = Some 1" by (simp add: t(3))
  have bd: "MIPS_KSEG0 < ?pa" "?pa + 4096 \<le> MIPS_KSEG0 + 532676608"
    using page_va_bounds [OF t(1) q1] by (simp_all add: pva)
  then have pa: "0 < ?pa" "?pa + 4096 < 4294967296" by (simp_all add: MIPS_KSEG0_def)
  have n: "0 < ?sz" "?n * ?sz \<le> 4096" "1 \<le> ?n" "?n - 1 < ?n" "Suc (?n - 1) = ?n" using sz by simp_all
  have pl: "p < length (pagerefs s)" using p(1) d(2) by simp
  let ?r = "(pagerefs s ! p)\<lparr>pageaddr_and_blocktype := MKPAB ?pa b, nfree := ?n, freelist_offset := (?n - 1) * ?sz,
      next_samesize := sizebases s ! b, next_all := allbase s\<rparr>"
  let ?fl = "rev (map (\<lambda>k. ?pa + k * ?sz) [0..<?n])"
  let ?t3 = "t\<lparr>pagerefs := (pagerefs s)[p := (pagerefs s ! p)\<lparr>pageaddr_and_blocktype := MKPAB ?pa b, nfree := ?n\<rparr>]\<rparr>"
  have mv: "(?n - 1) * ?sz < 4096"
  proof -
    have "(?n - 1) * ?sz + ?sz = ?n * ?sz" using n(5) by (metis add.commute mult_Suc)
    then show ?thesis using sz by simp
  qed
  have fin: "\<exists>fl. heap_rep u (p # al) (F(p := fl)) \<and> live_blocks u (p # al) (F(p := fl)) = live_blocks s al F
      \<and> pr_type u p = b \<and> set fl = slots ?pa ?sz \<and> curspl u = curspl s \<and> (\<forall>a \<in> heap_words s. kword u a = kword s a)"
    if u: "u = t\<lparr>kword := w', sizebases := (sizebases s)[b := Some p], pagerefs := (pagerefs s)[p := ?r], allbase := Some p\<rparr>"
      and th: "threaded ?pa ?sz ?n (kword t) w'" for u w'
  proof -
    have out: "w' a = kword t a" if "a \<notin> {?pa..<?pa + 4096}" for a using th that unfolding threaded_def by blast
    have kw: "kword u a = kword s a" if "a \<in> heap_words s" for a using w [OF that] out by (simp add: u)
    have same: "kword u (ipt_addr t (int i)) = kword t (ipt_addr t (int i))" if "i < nat (system_pages t)" for i
    proof -
      have "ipt_addr t (int i) < ?pa" using ipt_addr_low [OF t(1) that q1 t(5)] by (simp add: pva)
      then show ?thesis using out by (simp add: u)
    qed
    have fr: "vm_wf u" "vm_regions u = vm_regions t"
      by (rule vm_frame [OF t(1) _ _ _ _ same]; simp add: u)+
    have ch: "chain (wnext (kword u)) (if freelist_offset ?r = INVALID_OFFSET then None else Some (?pa + freelist_offset ?r)) ?fl"
      using threaded_chain [OF th pa(1) n(4)] mv unfolding n(5) by (simp add: INVALID_OFFSET_def u)
    have iu: "in_use u = insert p (in_use s)" using t(7) by (simp add: in_use_def u)
    note ra = rep_add [OF rep p b fr(1), where q = q and fl = ?fl and r = ?r]
    have lr: "vm_regions u = (vm_regions s)(q \<mapsto> 1)" using fr(2) t(3) by simp
    have lo: "vm_lo u = vm_lo s" "length (pagerefs_inuse u) = 8"
      "sizebases u = (sizebases s)[b := Some p]" "allbase u = Some p" "pagerefs u = (pagerefs s)[p := ?r]"
      "curspl u = curspl s"
      using t by (simp_all add: u)
    have fl: "distinct ?fl" "set ?fl = slots ?pa ?sz" "nfree ?r = length ?fl"
    proof -
      show "distinct ?fl" by (rule distinct_block_list [OF n(1)])
      show "set ?fl = slots ?pa ?sz" by (rule set_block_list)
      show "nfree ?r = length ?fl" by simp
    qed
    have hw: "kword u a = kword s a" if "\<exists>i N. i \<noteq> 0 \<and> vm_regions s i = Some N \<and> a \<in> {page_va s i..<page_va s i + 4096 * N}" for a
      by (rule kw) (use that in \<open>simp add: heap_words_def\<close>)
    have "heap_rep u (p # al) (F(p := ?fl))" "live_blocks u (p # al) (F(p := ?fl)) = live_blocks s al F" "pr_type u p = b"
      by (rule ra; (rule lo lr t iu fl ch hw | simp)+)+
    then show ?thesis using fl(2) lo(6) kw by blast
  qed
  have th: "wp (thread_page ?pa ?sz ?n) (\<lambda>_ t. \<exists>w. t = ?t3\<lparr>kword := w\<rparr> \<and> threaded ?pa ?sz ?n (kword ?t3) w) R ?t3"
    by (rule thread_page_wp [OF pa(2) n(1-3)])
  show ?thesis
    unfolding enter_page_def Let_def PAGE_SIZE_def wp_kbind [of "pr_upd p (\<lambda>r. r\<lparr>pageaddr_and_blocktype := _, nfree := _\<rparr>)"] wp_pr_upd
            wp_kbind [of "thread_page _ _ _"] t(10)
    by (rule wp_mono [OF th]) (use fin in \<open>auto simp: wps t(8,9) pl\<close>)
qed

lemma new_page_wp:
  assumes rep: "heap_rep s al F" and b: "b < 8" and rm: "room 1 s \<or> length al = 256"
  shows "wp (new_page b)
    (\<lambda>r t. r = 0 \<and> t = s \<and> length al = 256
      \<or> (\<exists>p F'. heap_rep t (p # al) F' \<and> live_blocks t (p # al) F' = insert (r, sizes ! b) (live_blocks s al F)
           \<and> r \<notin> heap_words s \<and> r \<noteq> 0
           \<and> keeps_blocks (live_blocks s al F) s t \<and> curspl t = curspl s))
    (\<lambda>_ _. False) s"
    (is "wp _ ?Q ?R s")
proof -
  note d = heap_repD [OF rep] and sz = sizes_arith [OF b]
  show ?thesis unfolding new_page_def wp_kbind
  proof (rule wp_mono [OF allocpageref_wp [OF d(11)]])
    fix x t1
    assume x: "case x of None \<Rightarrow> t1 = s \<and> in_use s = {..<256} | Some p \<Rightarrow> ref_taken s p t1"
    show "wp (case x of None \<Rightarrow> kret 0
     | Some pr \<Rightarrow>
         kbind (alloc_kpages 1) (\<lambda>prpage.
         if prpage = 0 then kbind (freepageref pr) (\<lambda>_. kret 0)
         else kbind (enter_page pr b prpage) (\<lambda>_. doalloc pr))) ?Q ?R t1"
    proof (cases x)
      case None
      then have "set al = {..<256}" using x d(5) by simp
      then have "length al = 256" using distinct_card [OF d(4)] by simp
      then show ?thesis using None x by (simp add: wps)
    next
      case (Some p)
      then have rt: "ref_taken s p t1" using x by simp
      then obtain ws where t1: "t1 = s\<lparr>pagerefs_inuse := ws\<rparr>" "length ws = 8" "p < 256" "p \<notin> in_use s" "in_use t1 = insert p (in_use s)"
        unfolding ref_taken_def by blast
      have f1: "vm_wf t1" "vm_regions t1 = vm_regions s" by (rule vm_frame [OF d(1)]; simp add: t1(1))+
      have "ipt_list t1 = ipt_list s" by (rule ipt_list_frame) (simp_all add: t1(1))
      moreover have "length al \<noteq> 256"
      proof
        assume l: "length al = 256"
        have "set al \<subseteq> {..<256}" using d(7) by auto
        moreover have "card (set al) = 256" using distinct_card [OF d(4)] l by simp
        ultimately have "set al = {..<256}" by (intro card_subset_eq) simp_all
        then show False using t1(3,4) d(5) by auto
      qed
      ultimately have rm1: "room 1 t1" using rm by (simp add: room_def t1(1))
      have pva1: "page_va t1 = page_va s" by (simp add: page_va_def fun_eq_iff t1(1))
      have hw1: "heap_words t1 = heap_words s" by (simp add: heap_words_def f1 pva1)
      have one: "wp (alloc_kpages 1) (\<lambda>r t. \<exists>j. r = page_va t1 j \<and> alloc_at 1 t1 j t) (\<lambda>_ _. False) t1"
        using room_alloc [OF f1(1) _ _ rm1] by simp
      show ?thesis unfolding Some option.case wp_kbind [of "alloc_kpages _"]
      proof (rule wp_mono [OF one], elim exE conjE)
        fix pa t2 j
        assume pa: "pa = page_va t1 j" and a: "alloc_at 1 t1 j t2"
        have N: "0 < (1 :: nat)" "(1 :: nat) < 2147483648" by simp_all
        note al2 = alloc_at_table [OF vm_wf_table [OF f1(1)] N a] and w2 = alloc_at_wf [OF f1(1) N a]
          and aw = alloc_at_words [OF f1(1) N a, unfolded hw1 pva1]
        have t2: "t2 = t1\<lparr>kword := kword t2, avail_pages := avail_pages t2\<rparr>" using a by (simp add: alloc_at_def)
        have sel: "pagerefs t2 = pagerefs s" "sizebases t2 = sizebases s" "allbase t2 = allbase s" "pagerefs_inuse t2 = ws"
          "curspl t2 = curspl s" "vm_lo t2 = vm_lo s"
          by (subst t2, simp add: t1(1))+
        have reg2: "vm_regions t2 = (vm_regions s)(j \<mapsto> 1)" "vm_regions s j = None" "j \<noteq> 0"
          using al2(2,3) w2(2) f1(2) by simp_all
        have iu: "in_use t2 = insert p (in_use s)" using t1(1,5) sel(4) by (simp add: in_use_def)
        have kw: "kword t2 a = kword s a" if "a \<in> heap_words s" for a using aw(1) [OF that] by (simp add: t1(1))
        have pa0: "pa \<noteq> 0" by (simp add: pa page_va_def MIPS_KSEG0_def)
        have ln: "length (pagerefs_inuse t2) = 8" using sel(4) t1(2) by simp
        have "wp (kbind (enter_page p b pa) (\<lambda>_. doalloc p)) ?Q ?R t2"
          unfolding wp_kbind pa pva1
        proof (rule wp_mono [OF enter_page_wp [OF rep b t1(3,4) w2(1) sel(6) reg2 ln iu sel(2,3,1,5) kw]])
          fix x :: unit and u :: "'a kheap_scheme"
          assume "\<exists>fl. heap_rep u (p # al) (F(p := fl)) \<and> live_blocks u (p # al) (F(p := fl)) = live_blocks s al F
            \<and> pr_type u p = b \<and> set fl = slots (page_va s j) (sizes ! b) \<and> curspl u = curspl s
            \<and> (\<forall>a \<in> heap_words s. kword u a = kword s a)"
          then obtain fl where u: "heap_rep u (p # al) (F(p := fl))" "live_blocks u (p # al) (F(p := fl)) = live_blocks s al F"
            "pr_type u p = b" "set fl = slots (page_va s j) (sizes ! b)" "curspl u = curspl s" "\<forall>a \<in> heap_words s. kword u a = kword s a"
            by blast
          have "card (set fl) = 4096 div sizes ! b" using card_slots(1) [OF b] u(4) by simp
          then obtain c fl' where fl: "fl = c # fl'" using sz(4) by (cases fl) auto
          have cs: "c \<in> {page_va s j..<page_va s j + 4096 * 1}" using slots_in_page [OF b, of c "page_va s j"] u(4) fl by auto
          then have c: "c \<notin> heap_words s" "c \<noteq> 0" using aw(2) [of c] by (auto simp: page_va_def MIPS_KSEG0_def)
          have Fp: "(F(p := fl)) p = c # fl'" using fl by simp
          have pin: "p \<in> set (p # al)" by simp
          show "wp (doalloc p) ?Q ?R u"
          proof (rule wp_mono [OF doalloc_wp [OF u(1) pin Fp]], elim conjE)
            fix r and v :: "'a kheap_scheme"
            assume v: "r = c" "heap_rep v (p # al) ((F(p := fl))(p := fl'))"
              "live_blocks v (p # al) ((F(p := fl))(p := fl')) = insert (c, pr_size u p) (live_blocks u (p # al) (F(p := fl)))"
              "kword v = kword u" "curspl v = curspl u"
            have "keeps_blocks (live_blocks s al F) s v" by (rule keeps_blocksI [OF rep]) (use u(6) v(4) in simp)
            then show "?Q r v" using v u(2,3,5) c by (intro disjI2 exI [of _ p] exI [of _ "(F(p := fl))(p := fl')"]) simp
          qed simp_all
        next
          fix a
          assume "a \<in> heap_words s"
          then show "a \<notin> {page_va s j..<page_va s j + 4096}" using aw(2) [of a] by simp
        qed simp
        then show "wp (if pa = 0 then kbind (freepageref p) (\<lambda>_. kret 0) else kbind (enter_page p b pa) (\<lambda>_. doalloc p)) ?Q ?R t2"
          using pa0 by simp
      qed simp
    qed
  qed simp
qed

section \<open>Allocated blocks do not overlap\<close>

lemma live_region:
  assumes rep: "heap_rep s al F" and l: "(a, m) \<in> live_blocks s al F"
  obtains i N where "i \<noteq> 0" "vm_regions s i = Some N" "{a..<a + m} \<subseteq> {page_va s i..<page_va s i + 4096 * N}"
    "(\<exists>p \<in> set al. page_va s i = pr_page s p \<and> m = pr_size s p \<and> a \<in> slots (pr_page s p) (pr_size s p) \<and> a \<notin> set (F p))
      \<or> page_va s i \<notin> pr_page s ` set al \<and> a = page_va s i \<and> m = 4096 * N"
proof -
  from l consider p where "m = pr_size s p" "p \<in> set al" "a \<in> slots (pr_page s p) (pr_size s p)" "a \<notin> set (F p)"
    | q N where "a = page_va s q" "m = 4096 * N" "vm_regions s q = Some N" "q \<noteq> 0" "page_va s q \<notin> pr_page s ` set al"
    unfolding live_blocks_def small_blocks_def large_blocks_def by blast
  then show thesis
  proof cases
    case 1
    obtain q where q: "q \<noteq> 0" "vm_regions s q = Some 1" "pr_page s p = page_va s q" using heap_pages(7) [OF rep 1(2)] by blast
    have "page_va s q \<le> a" "a + m \<le> page_va s q + 4096 * 1"
      using slots_range [OF heap_pages(1) [OF rep 1(2)] 1(3)] q(3) 1(1) by simp_all
    then have "{a..<a + m} \<subseteq> {page_va s q..<page_va s q + 4096 * 1}" by auto
    then show ?thesis by (rule that [OF q(1,2)]) (use 1 q(3) in auto)
  next
    case 2
    then show ?thesis by (intro that [OF 2(4,3)]) simp_all
  qed
qed

lemma live_disjoint:
  assumes rep: "heap_rep s al F" and l: "(a, m) \<in> live_blocks s al F" "(a', m') \<in> live_blocks s al F" and ne: "(a, m) \<noteq> (a', m')"
  shows "{a..<a + m} \<inter> {a'..<a' + m'} = {}"
proof -
  obtain i N where i: "vm_regions s i = Some N" "{a..<a + m} \<subseteq> {page_va s i..<page_va s i + 4096 * N}"
    "(\<exists>p \<in> set al. page_va s i = pr_page s p \<and> m = pr_size s p \<and> a \<in> slots (pr_page s p) (pr_size s p) \<and> a \<notin> set (F p))
      \<or> page_va s i \<notin> pr_page s ` set al \<and> a = page_va s i \<and> m = 4096 * N"
    by (rule live_region [OF rep l(1)])
  obtain j M where j: "vm_regions s j = Some M" "{a'..<a' + m'} \<subseteq> {page_va s j..<page_va s j + 4096 * M}"
    "(\<exists>p \<in> set al. page_va s j = pr_page s p \<and> m' = pr_size s p \<and> a' \<in> slots (pr_page s p) (pr_size s p) \<and> a' \<notin> set (F p))
      \<or> page_va s j \<notin> pr_page s ` set al \<and> a' = page_va s j \<and> m' = 4096 * M"
    by (rule live_region [OF rep l(2)])
  show ?thesis
  proof (cases "i = j")
    case False
    then show ?thesis using region_words_apart [OF heap_repD(1) [OF rep] i(1) j(1)] i(2) j(2) by blast
  next
    case True
    then have NM: "N = M" using i(1) j(1) by simp
    show ?thesis
    proof (cases "page_va s i \<in> pr_page s ` set al")
      case in1: True
      obtain p where p: "p \<in> set al" "page_va s i = pr_page s p" "m = pr_size s p" "a \<in> slots (pr_page s p) (pr_size s p)"
        using i(3) in1 by blast
      obtain q where q: "q \<in> set al" "page_va s i = pr_page s q" "m' = pr_size s q" "a' \<in> slots (pr_page s q) (pr_size s q)"
        using j(3) in1 True by blast
      have "p = q" using heap_repD(9) [OF rep] p(1,2) q(1,2) by (auto simp: inj_on_def)
      then show ?thesis using slots_apart [OF heap_pages(1) [OF rep p(1)] p(4), of a'] p(3) q(3,4) ne by auto
    next
      case False
      then show ?thesis using i(3) j(3) True NM ne by auto
    qed
  qed
qed

lemma free_not_live:
  assumes rep: "heap_rep s al F" and p: "p \<in> set al" and a: "a \<in> set (F p)"
  shows "(a, m) \<notin> live_blocks s al F"
proof
  assume l: "(a, m) \<in> live_blocks s al F"
  have ap: "a \<in> slots (pr_page s p) (pr_size s p)" using heap_pages(4) [OF rep p] a by blast
  have pa: "a \<in> {pr_page s p..<pr_page s p + 4096}" by (rule slots_in_page [OF heap_pages(1) [OF rep p] ap])
  obtain k where k: "vm_regions s k = Some 1" "pr_page s p = page_va s k" using heap_pages(7) [OF rep p] by blast
  obtain i N where i: "vm_regions s i = Some N" "{a..<a + m} \<subseteq> {page_va s i..<page_va s i + 4096 * N}"
    "(\<exists>p \<in> set al. page_va s i = pr_page s p \<and> m = pr_size s p \<and> a \<in> slots (pr_page s p) (pr_size s p) \<and> a \<notin> set (F p))
      \<or> page_va s i \<notin> pr_page s ` set al \<and> a = page_va s i \<and> m = 4096 * N"
    by (rule live_region [OF rep l])
  have N: "0 < N" by (rule vm_regions_bound(2) [OF heap_repD(1) [OF rep] i(1)])
  have "0 < m" using i(3) N heap_pages(1) [OF rep] sizes_arith(1) by fastforce
  then have "a \<in> {page_va s i..<page_va s i + 4096 * N}" using i(2) by auto
  moreover have "a \<in> {page_va s k..<page_va s k + 4096 * 1}" using pa k(2) by simp
  ultimately have "i = k" using region_words_apart [OF heap_repD(1) [OF rep] i(1) k(1)] by blast
  then have e: "page_va s i = pr_page s p" using k(2) by simp
  then have "page_va s i \<in> pr_page s ` set al" using p by simp
  then obtain q where q: "q \<in> set al" "pr_page s p = pr_page s q" "a \<notin> set (F q)" using i(3) unfolding e by blast
  then have "p = q" using heap_repD(9) [OF rep] p by (auto simp: inj_on_def)
  then show False using q(3) a by simp
qed

section \<open>kmalloc\<close>

lemma heap_spl [simp]:
  "heap_rep (s\<lparr>curspl := x\<rparr>) = heap_rep s" "live_blocks (s\<lparr>curspl := x\<rparr>) = live_blocks s"
  "room N (s\<lparr>curspl := x\<rparr>) = room N s" "heap_words (s\<lparr>curspl := x\<rparr>) = heap_words s"
  "keeps_blocks B (s\<lparr>curspl := x\<rparr>) t = keeps_blocks B s t" "keeps_blocks B s (t\<lparr>curspl := x\<rparr>) = keeps_blocks B s t"
proof -
  have r: "vm_regions (s\<lparr>curspl := x\<rparr>) = vm_regions s" by (simp add: vm_regions_def)
  have p: "page_va (s\<lparr>curspl := x\<rparr>) = page_va s" by (simp add: page_va_def fun_eq_iff)
  show "heap_words (s\<lparr>curspl := x\<rparr>) = heap_words s" by (simp add: heap_words_def r p)
  show "room N (s\<lparr>curspl := x\<rparr>) = room N s" by (simp add: room_def)
  show "keeps_blocks B (s\<lparr>curspl := x\<rparr>) t = keeps_blocks B s t" "keeps_blocks B s (t\<lparr>curspl := x\<rparr>) = keeps_blocks B s t"
    by (simp_all add: keeps_blocks_def)
  show "heap_rep (s\<lparr>curspl := x\<rparr>) = heap_rep s" by (simp add: fun_eq_iff heap_rep_def page_ok_def in_use_def r p)
  show "live_blocks (s\<lparr>curspl := x\<rparr>) = live_blocks s"
    by (simp add: fun_eq_iff live_blocks_def small_blocks_def large_blocks_def r p)
qed

text \<open>A successful allocation of \<open>n\<close> bytes at \<open>r\<close>.\<close>

definition block_new :: "'a kheap_scheme \<Rightarrow> nat list \<Rightarrow> (nat \<Rightarrow> nat list) \<Rightarrow> nat \<Rightarrow> nat \<Rightarrow> 'a kheap_scheme \<Rightarrow> bool" where
  "block_new s al F r n t \<longleftrightarrow> (\<exists>al' F'. heap_rep t al' F' \<and> live_blocks t al' F' = insert (r, n) (live_blocks s al F))
     \<and> (r, n) \<notin> live_blocks s al F \<and> r \<noteq> 0 \<and> keeps_blocks (live_blocks s al F) s t \<and> curspl t = curspl s"

text \<open>
  A request below half a page can be answered: a page is free, or the size class has a free block, or all
  page references are taken and the answer is NULL.
\<close>

definition best_size :: "nat \<Rightarrow> nat \<Rightarrow> bool" where
  "best_size sz n \<longleftrightarrow> n \<in> set sizes \<and> sz \<le> n \<and> (\<forall>m \<in> set sizes. sz \<le> m \<longrightarrow> n \<le> m)"

definition small_ready :: "nat \<Rightarrow> 'a kheap_scheme \<Rightarrow> bool" where
  "small_ready sz s \<longleftrightarrow> room 1 s \<or> card (in_use s) = 256
     \<or> (\<exists>p \<in> in_use s. best_size sz (pr_size s p) \<and> 0 < nfree (pagerefs s ! p))"

lemma subpage_kmalloc_wp:
  assumes rep: "heap_rep s al F" and sz: "sz \<le> 2048" and ready: "small_ready sz s"
  shows "wp (subpage_kmalloc sz)
    (\<lambda>r t. (\<exists>n. sz \<le> n \<and> n \<in> set sizes \<and> (\<forall>m \<in> set sizes. sz \<le> m \<longrightarrow> n \<le> m) \<and> block_new s al F r n t)
      \<or> r = 0 \<and> t = s \<and> length al = 256) (\<lambda>_ _. False) s"
    (is "wp _ ?Q ?R s")
  unfolding subpage_kmalloc_def wp_kbind
proof (rule wp_mono [OF blocktype_wp [OF sz]], elim conjE)
  fix b and t :: "'a kheap_scheme"
  assume b: "t = s" "b < 8" "sz \<le> sizes ! b" "\<forall>c < b. sizes ! c < sz"
  let ?s = "s\<lparr>curspl := SPL_HIGH\<rparr>"
  have rep': "heap_rep ?s al F" using rep by simp
  note d = heap_repD [OF rep']
  have n: "sizes ! b \<in> set sizes" by (rule nth_mem) (use b(2) in \<open>simp add: sizes_def\<close>)
  have least: "\<forall>m \<in> set sizes. sz \<le> m \<longrightarrow> sizes ! b \<le> m"
  proof (intro ballI impI)
    fix m
    assume m: "m \<in> set sizes" "sz \<le> m"
    moreover have "length sizes = 8" by (simp add: sizes_def)
    ultimately obtain c where c: "c < 8" "m = sizes ! c" by (auto simp: in_set_conv_nth)
    then have bc: "b \<le> c" using b(4) m(2) by (meson linorder_not_le)
    have srt: "sorted sizes" by (simp add: sizes_def)
    show "sizes ! b \<le> m" unfolding c(2) by (rule sorted_nth_mono [OF srt bc]) (use c(1) in \<open>simp add: sizes_def\<close>)
  qed
  have best: "pr_type s p = b" if "p \<in> set al" "best_size sz (pr_size s p)" for p
  proof -
    have t: "pr_type s p < 8" by (rule heap_pages(1) [OF rep that(1)])
    have le: "sz \<le> pr_size s p" "pr_size s p \<le> sizes ! b"
      using that(2) b(3) n unfolding best_size_def by auto
    have "\<not> pr_type s p < b" using b(4) le(1) by (meson not_less)
    moreover have "sizes ! b < pr_size s p" if "b < pr_type s p"
      by (rule sorted_wrt_nth_less [of "(<)"]) (use that t in \<open>simp_all add: sizes_def\<close>)
    ultimately show ?thesis using le(2) by force
  qed
  have card: "length al = card (in_use s)" using distinct_card [OF d(4)] heap_repD(5) [OF rep] by simp
  have out: "?Q r (t\<lparr>curspl := curspl s\<rparr>)"
    if "r = 0 \<and> t = ?s \<and> length al = 256 \<or> block_new ?s al F r (sizes ! b) t" for r and t :: "'a kheap_scheme"
    using that
  proof (elim disjE conjE)
    assume "block_new ?s al F r (sizes ! b) t"
    then have "block_new s al F r (sizes ! b) (t\<lparr>curspl := curspl s\<rparr>)" by (simp add: block_new_def)
    then show ?thesis using b(3) n least by blast
  qed simp
  let ?P = "filter (\<lambda>p. pr_type ?s p = b) al"
  have len: "length ?P \<le> NPAGEREFS"
  proof -
    have "card (set al) \<le> card {..<256 :: nat}" by (rule card_mono) (use heap_repD(7) [OF rep'] in auto)
    then have "length al \<le> 256" using distinct_card [OF d(4)] by simp
    then show ?thesis unfolding NPAGEREFS_def by (rule order_trans [OF length_filter_le])
  qed
  have "wp (find_free_page NPAGEREFS b (sizebases ?s ! b))
    (\<lambda>r. wp (case r of Some pr \<Rightarrow> doalloc pr | None \<Rightarrow> new_page b) (\<lambda>x t. ?Q x (t\<lparr>curspl := curspl s\<rparr>)) (\<lambda>_ _. False)) (\<lambda>_ _. False) ?s"
  proof (rule wp_mono [OF find_free_page_wp [OF d(8) [OF b(2)] len]])
    fix r and t :: "'a kheap_scheme"
    assume r: "t = ?s \<and> (case r of None \<Rightarrow> \<forall>p \<in> set ?P. nfree (pagerefs ?s ! p) = 0
     | Some p \<Rightarrow> p \<in> set ?P \<and> 0 < nfree (pagerefs ?s ! p))"
    show "wp (case r of Some pr \<Rightarrow> doalloc pr | None \<Rightarrow> new_page b) (\<lambda>x t. ?Q x (t\<lparr>curspl := curspl s\<rparr>)) (\<lambda>_ _. False) t"
    proof (cases r)
      case None
      have "\<not> 0 < nfree (pagerefs s ! p)" if "p \<in> in_use s" "best_size sz (pr_size s p)" for p
        using r None best [OF _ that(2)] that(1) heap_repD(5) [OF rep] by auto
      then have rm': "room 1 ?s \<or> length al = 256" using ready card unfolding small_ready_def by auto
      have "wp (new_page b) (\<lambda>x t. ?Q x (t\<lparr>curspl := curspl s\<rparr>)) (\<lambda>_ _. False) ?s"
      proof (rule wp_mono [OF new_page_wp [OF rep' b(2) rm'] out])
        fix x and t :: "'a kheap_scheme"
        assume x: "x = 0 \<and> t = ?s \<and> length al = 256
          \<or> (\<exists>p F'. heap_rep t (p # al) F' \<and> live_blocks t (p # al) F' = insert (x, sizes ! b) (live_blocks ?s al F)
           \<and> x \<notin> heap_words ?s \<and> x \<noteq> 0 \<and> keeps_blocks (live_blocks ?s al F) ?s t \<and> curspl t = curspl ?s)"
        then show "x = 0 \<and> t = ?s \<and> length al = 256 \<or> block_new ?s al F x (sizes ! b) t"
        proof (elim disjE exE conjE)
          fix p F'
          assume y: "heap_rep t (p # al) F'" "live_blocks t (p # al) F' = insert (x, sizes ! b) (live_blocks ?s al F)"
            "x \<notin> heap_words ?s" "x \<noteq> 0" "keeps_blocks (live_blocks ?s al F) ?s t" "curspl t = curspl ?s"
          have "x \<in> {x..<x + sizes ! b}" using sizes_arith(1) [OF b(2)] by simp
          then have "(x, sizes ! b) \<notin> live_blocks ?s al F" using live_words [OF rep', of x "sizes ! b"] y(3) by blast
          then show ?thesis unfolding block_new_def using y by blast
        qed simp
      qed
      then show ?thesis using None r by simp
    next
      case (Some p)
      then have p: "p \<in> set al" "pr_type ?s p = b" "0 < nfree (pagerefs ?s ! p)" using r by simp_all
      then obtain a fl where F: "F p = a # fl" using heap_pages(6) [OF rep' p(1)] by (cases "F p") auto
      have na: "(a, sizes ! b) \<notin> live_blocks ?s al F" by (rule free_not_live [OF rep' p(1)]) (simp add: F)
      have a0: "a \<noteq> 0" using heap_pages(2,4) [OF rep' p(1)] slots_range(1) [OF heap_pages(1) [OF rep' p(1)], of a "pr_page ?s p"] F
        by (auto simp: MIPS_KSEG0_def)
      have "wp (doalloc p) (\<lambda>x t. ?Q x (t\<lparr>curspl := curspl s\<rparr>)) (\<lambda>_ _. False) ?s"
      proof (rule wp_mono [OF doalloc_wp [OF rep' p(1) F] out], elim conjE)
        fix x and t :: "'a kheap_scheme"
        assume y: "x = a" "heap_rep t al (F(p := fl))" "live_blocks t al (F(p := fl)) = insert (a, pr_size ?s p) (live_blocks ?s al F)"
          "kword t = kword ?s" "curspl t = curspl ?s"
        have "keeps_blocks (live_blocks ?s al F) ?s t" unfolding keeps_blocks_def y(4) by auto
        then have "block_new ?s al F x (sizes ! b) t" unfolding block_new_def using y p(2) na a0 by blast
        then show "x = 0 \<and> t = ?s \<and> length al = 256 \<or> block_new ?s al F x (sizes ! b) t" ..
      qed simp
      then show ?thesis using Some r by simp
    qed
  qed simp_all
  then show "wp splhigh (\<lambda>spl. wp (kget (\<lambda>s. sizebases s ! b)) (\<lambda>ba. wp (find_free_page NPAGEREFS b ba)
     (\<lambda>r. wp (case r of Some pr \<Rightarrow> doalloc pr | None \<Rightarrow> new_page b) (\<lambda>retptr. wp (splx spl) (\<lambda>_. wp (kret retptr) ?Q ?R) ?R) ?R) ?R) ?R) ?R t"
    by (simp add: wps b(1))
qed simp

section \<open>Unlinking a page\<close>

lemma chain_split: "chain nx c (ys @ p # zs) \<Longrightarrow> chain nx (nx p) zs"
  by (induction ys arbitrary: c) auto

lemma chain_last: "chain nx c (ys @ zs) \<Longrightarrow> ys \<noteq> [] \<Longrightarrow> chain nx (nx (last ys)) zs"
  by (induction ys arbitrary: c) auto

lemma chain_unlink:
  assumes "chain nx c (ys @ p # zs)" and "distinct (ys @ p # zs)" and "ys \<noteq> []"
  shows "chain (nx(last ys := nx p)) c (ys @ zs)"
  using assms
proof (induction ys arbitrary: c)
  case (Cons y ys)
  show ?case
  proof (cases "ys = []")
    case True
    have "chain (nx(y := nx p)) (nx p) zs = chain nx (nx p) zs" by (rule chain_cong) (use Cons.prems(2) in auto)
    then show ?thesis using Cons.prems(1) True by (simp add: fun_upd_def)
  next
    case False
    then have "y \<noteq> last ys" using Cons.prems(2) by auto
    moreover have "chain (nx(last ys := nx p)) (nx y) (ys @ zs)"
      by (rule Cons.IH) (use Cons.prems False in simp_all)
    moreover have "last (y # ys) = last ys" using False by simp
    moreover have "c = Some y" using Cons.prems(1) by simp
    ultimately show ?thesis unfolding append_Cons chain.simps by (simp only: fun_upd_other refl simp_thms)
  qed
qed simp

lemma remove_same_wp:
  assumes "chain (\<lambda>q. next_samesize (pagerefs s ! q)) c (ys @ p # zs)" and "p \<notin> set ys" and "length ys < n"
  shows "wp (remove_same n b p guy c) Q R s
    = wp (set_same b (if ys = [] then guy else Some (last ys)) (next_samesize (pagerefs s ! p))) Q R s"
  using assms
proof (induction ys arbitrary: n guy c)
  case Nil
  then obtain m where "n = Suc m" by (cases n) auto
  then show ?case using Nil by (simp add: wps)
next
  case (Cons y ys)
  then obtain m where n: "n = Suc m" by (cases n) auto
  have c: "c = Some y" "chain (\<lambda>q. next_samesize (pagerefs s ! q)) (next_samesize (pagerefs s ! y)) (ys @ p # zs)"
    using Cons.prems(1) by simp_all
  show ?case using Cons.IH [OF c(2), of m "Some y"] Cons.prems(2,3) by (simp add: n c(1) wps)
qed

lemma remove_all_wp:
  assumes "chain (\<lambda>q. next_all (pagerefs s ! q)) c (ys @ p # zs)" and "p \<notin> set ys" and "length ys < n"
  shows "wp (remove_all_list n p guy c) Q R s
    = wp (set_all (if ys = [] then guy else Some (last ys)) (next_all (pagerefs s ! p))) Q R s"
  using assms
proof (induction ys arbitrary: n guy c)
  case Nil
  then obtain m where "n = Suc m" by (cases n) auto
  then show ?case using Nil by (simp add: wps)
next
  case (Cons y ys)
  then obtain m where n: "n = Suc m" by (cases n) auto
  have c: "c = Some y" "chain (\<lambda>q. next_all (pagerefs s ! q)) (next_all (pagerefs s ! y)) (ys @ p # zs)"
    using Cons.prems(1) by simp_all
  show ?case using Cons.IH [OF c(2), of m "Some y"] Cons.prems(2,3) by (simp add: n c(1) wps)
qed

text \<open>The references differ at most in their links.\<close>

definition links_only :: "'a kheap_scheme \<Rightarrow> 'a kheap_scheme \<Rightarrow> bool" where
  "links_only s t \<longleftrightarrow> (\<exists>prs sb ab. t = s\<lparr>pagerefs := prs, sizebases := sb, allbase := ab\<rparr> \<and> length prs = length (pagerefs s)
     \<and> length sb = length (sizebases s)
     \<and> (\<forall>q. pageaddr_and_blocktype (prs ! q) = pageaddr_and_blocktype (pagerefs s ! q)
          \<and> freelist_offset (prs ! q) = freelist_offset (pagerefs s ! q) \<and> nfree (prs ! q) = nfree (pagerefs s ! q)))"

lemma nth_upd: "g < length xs \<Longrightarrow> xs[g := v] ! q = (if q = g then v else xs ! q)"
  by (cases "q = g") simp_all

lemma set_same_links:
  assumes pl: "\<And>g. guy = Some g \<Longrightarrow> g < length (pagerefs s)"
    and q: "\<And>t. links_only s t \<Longrightarrow> allbase t = allbase s \<Longrightarrow> (\<forall>q. next_all (pagerefs t ! q) = next_all (pagerefs s ! q)) \<Longrightarrow>
      sizebases t = (if guy = None then (sizebases s)[b := x] else sizebases s) \<Longrightarrow>
      (\<forall>q. next_samesize (pagerefs t ! q) = (if guy = Some q then x else next_samesize (pagerefs s ! q))) \<Longrightarrow> Q () t"
  shows "wp (set_same b guy x) Q R s"
proof (cases guy)
  case None
  have "s\<lparr>sizebases := (sizebases s)[b := x]\<rparr> = s\<lparr>pagerefs := pagerefs s, sizebases := (sizebases s)[b := x], allbase := allbase s\<rparr>" by simp
  then have "links_only s (s\<lparr>sizebases := (sizebases s)[b := x]\<rparr>)" unfolding links_only_def
    by (intro exI [of _ "pagerefs s"] exI [of _ "(sizebases s)[b := x]"] exI [of _ "allbase s"]) simp
  then show ?thesis unfolding set_same_def None option.case wp_kmodify by (rule q) (simp_all add: None)
next
  case (Some g)
  let ?p = "(pagerefs s)[g := (pagerefs s ! g)\<lparr>next_samesize := x\<rparr>]"
  have gl: "g < length (pagerefs s)" by (rule pl [OF Some])
  have "links_only s (s\<lparr>pagerefs := ?p\<rparr>)" unfolding links_only_def
    by (intro exI [of _ ?p] exI [of _ "sizebases s"] exI [of _ "allbase s"]) (simp add: nth_upd gl)
  then show ?thesis unfolding set_same_def Some option.case wp_pr_upd
    by (rule q) (use gl in \<open>simp_all add: Some nth_upd\<close>)
qed

lemma set_all_links:
  assumes pl: "\<And>g. guy = Some g \<Longrightarrow> g < length (pagerefs s)"
    and q: "\<And>t. links_only s t \<Longrightarrow> sizebases t = sizebases s \<Longrightarrow> (\<forall>q. next_samesize (pagerefs t ! q) = next_samesize (pagerefs s ! q)) \<Longrightarrow>
      allbase t = (if guy = None then x else allbase s) \<Longrightarrow>
      (\<forall>q. next_all (pagerefs t ! q) = (if guy = Some q then x else next_all (pagerefs s ! q))) \<Longrightarrow> Q () t"
  shows "wp (set_all guy x) Q R s"
proof (cases guy)
  case None
  have "links_only s (s\<lparr>allbase := x\<rparr>)" unfolding links_only_def
    by (intro exI [of _ "pagerefs s"] exI [of _ "sizebases s"] exI [of _ x]) simp
  then show ?thesis unfolding set_all_def None option.case wp_kmodify by (rule q) (simp_all add: None)
next
  case (Some g)
  let ?p = "(pagerefs s)[g := (pagerefs s ! g)\<lparr>next_all := x\<rparr>]"
  have gl: "g < length (pagerefs s)" by (rule pl [OF Some])
  have "links_only s (s\<lparr>pagerefs := ?p\<rparr>)" unfolding links_only_def
    by (intro exI [of _ ?p] exI [of _ "sizebases s"] exI [of _ "allbase s"]) (simp add: nth_upd gl)
  then show ?thesis unfolding set_all_def Some option.case wp_pr_upd
    by (rule q) (use gl in \<open>simp_all add: Some nth_upd\<close>)
qed

lemma chain_removed:
  assumes ch: "chain nx c xs" and ds: "distinct xs" and xs: "xs = ys @ p # zs"
    and nx: "\<And>q. nx' q = (if ys \<noteq> [] \<and> q = last ys then nx p else nx q)" and c': "c' = (if ys = [] then nx p else c)"
  shows "chain nx' c' (filter (\<lambda>q. q \<noteq> p) xs)"
proof -
  have "filter (\<lambda>q. q \<noteq> p) ys = ys" "filter (\<lambda>q. q \<noteq> p) zs = zs" using ds unfolding xs by (auto intro!: filter_True)
  then have f: "filter (\<lambda>q. q \<noteq> p) xs = ys @ zs" by (simp add: xs)
  show ?thesis
  proof (cases "ys = []")
    case True
    then have "chain nx (nx p) zs" using ch unfolding xs by simp
    then show ?thesis using True f c' nx chain_cong [of zs nx' nx] by simp
  next
    case False
    have "nx' = nx(last ys := nx p)" using nx False by (auto simp: fun_eq_iff)
    then show ?thesis using chain_unlink [of nx c ys p zs] ch ds False f c' unfolding xs by simp
  qed
qed

text \<open>The lists without the page \<open>p\<close>.\<close>

lemma remove_lists_wp:
  assumes len: "length (pagerefs s) = 256" "length (sizebases s) = 8" and b: "b < 8" "pr_type s p = b"
    and al: "chain (\<lambda>q. next_all (pagerefs s ! q)) (allbase s) al" "distinct al" "set al \<subseteq> {..<256}" "p \<in> set al"
    and same: "\<And>c. c < 8 \<Longrightarrow> chain (\<lambda>q. next_samesize (pagerefs s ! q)) (sizebases s ! c) (filter (\<lambda>q. pr_type s q = c) al)"
    and q: "\<And>t. links_only s t \<Longrightarrow> chain (\<lambda>q. next_all (pagerefs t ! q)) (allbase t) (filter (\<lambda>q. q \<noteq> p) al) \<Longrightarrow>
      (\<forall>c < 8. chain (\<lambda>q. next_samesize (pagerefs t ! q)) (sizebases t ! c) (filter (\<lambda>q. pr_type s q = c) (filter (\<lambda>q. q \<noteq> p) al))) \<Longrightarrow> Q () t"
  shows "wp (remove_lists p b) Q R s"
proof -
  let ?xs = "filter (\<lambda>q. pr_type s q = b) al"
  have px: "p \<in> set ?xs" using al(4) b(2) by simp
  obtain ys zs where xs: "?xs = ys @ p # zs" "p \<notin> set ys" using split_list_first [OF px] by blast
  obtain ys' zs' where al': "al = ys' @ p # zs'" "p \<notin> set ys'" using split_list_first [OF al(4)] by blast
  have dx: "distinct ?xs" using al(2) by simp
  have l256: "length al \<le> 256"
    using card_mono [OF finite_lessThan al(3)] distinct_card [OF al(2)] by simp
  have ln: "length ys < NPAGEREFS" "length ys' < NPAGEREFS"
  proof -
    have "length ?xs \<le> 256" using length_filter_le [of "\<lambda>q. pr_type s q = b" al] l256 by (rule order_trans)
    then show "length ys < NPAGEREFS" unfolding xs(1) by (simp add: NPAGEREFS_def)
    show "length ys' < NPAGEREFS" using l256 unfolding al'(1) by (simp add: NPAGEREFS_def)
  qed
  let ?g = "if ys = [] then None else Some (last ys)" and ?g' = "if ys' = [] then None else Some (last ys')"
  have gl: "g < length (pagerefs s)" if "?g = Some g" for g
  proof -
    have "g \<in> set ys" using that by (auto split: if_splits)
    then have "g \<in> set ?xs" unfolding xs(1) by simp
    then show ?thesis using al(3) len by auto
  qed
  have gl': "g < 256" if "?g' = Some g" for g
  proof -
    have "g \<in> set ys'" using that by (auto split: if_splits)
    then show ?thesis using al(3) unfolding al'(1) by auto
  qed
  have ff: "filter (\<lambda>q. pr_type s q = c) (filter (\<lambda>q. q \<noteq> p) al) = filter (\<lambda>q. q \<noteq> p) (filter (\<lambda>q. pr_type s q = c) al)" for c
    by (simp add: conj_commute)
  have step: "wp (remove_all_list NPAGEREFS p None (allbase t)) Q R t"
    if t: "links_only s t" "allbase t = allbase s" "\<forall>q. next_all (pagerefs t ! q) = next_all (pagerefs s ! q)"
      "sizebases t = (if ?g = None then (sizebases s)[b := next_samesize (pagerefs s ! p)] else sizebases s)"
      "\<forall>q. next_samesize (pagerefs t ! q) = (if ?g = Some q then next_samesize (pagerefs s ! p) else next_samesize (pagerefs s ! q))" for t
  proof -
    have cha: "chain (\<lambda>q. next_all (pagerefs t ! q)) (allbase t) (ys' @ p # zs')" using al(1) t(2,3) unfolding al'(1) by simp
    have pl: "length (pagerefs t) = 256" using t(1) len(1) unfolding links_only_def by auto
    have cs: "chain (\<lambda>q. next_samesize (pagerefs t ! q)) (sizebases t ! c) (filter (\<lambda>q. q \<noteq> p) (filter (\<lambda>q. pr_type s q = c) al))"
      if c: "c < 8" for c
    proof (cases "c = b")
      case True
      have c0: "ys = [] \<Longrightarrow> sizebases s ! b = Some p" using same [OF b(1)] unfolding xs(1) by simp
      show ?thesis unfolding True
        by (rule chain_removed [OF same [OF b(1)] dx xs(1)]) (use t(4,5) len(2) b(1) in \<open>auto split: if_splits\<close>)
    next
      case False
      have np: "filter (\<lambda>q. q \<noteq> p) (filter (\<lambda>q. pr_type s q = c) al) = filter (\<lambda>q. pr_type s q = c) al"
        by (rule filter_True) (use b(2) False in auto)
      have "sizebases t ! c = sizebases s ! c" using t(4) False by simp
      moreover have "next_samesize (pagerefs t ! q) = next_samesize (pagerefs s ! q)" if "q \<in> set (filter (\<lambda>q. pr_type s q = c) al)" for q
      proof -
        have "?g \<noteq> Some q"
        proof
          assume "?g = Some q"
          then have "q \<in> set ys" by (auto split: if_splits)
          then have "q \<in> set ?xs" unfolding xs(1) by simp
          then show False using that False by simp
        qed
        then show ?thesis using t(5) by simp
      qed
      ultimately show ?thesis unfolding np using same [OF c] chain_cong [of "filter (\<lambda>q. pr_type s q = c) al" "\<lambda>q. next_samesize (pagerefs t ! q)" "\<lambda>q. next_samesize (pagerefs s ! q)"]
        by simp
    qed
    show ?thesis unfolding remove_all_wp [OF cha al'(2) ln(2)]
    proof (rule set_all_links)
      fix u
      assume u: "links_only t u" "sizebases u = sizebases t" "\<forall>q. next_samesize (pagerefs u ! q) = next_samesize (pagerefs t ! q)"
        "allbase u = (if ?g' = None then next_all (pagerefs t ! p) else allbase t)"
        "\<forall>q. next_all (pagerefs u ! q) = (if ?g' = Some q then next_all (pagerefs t ! p) else next_all (pagerefs t ! q))"
      have "links_only s u" using t(1) u(1) unfolding links_only_def by fastforce
      moreover have "chain (\<lambda>q. next_all (pagerefs u ! q)) (allbase u) (filter (\<lambda>q. q \<noteq> p) al)"
        by (rule chain_removed [OF al(1,2) al'(1)]) (use t(2,3) u(4,5) in auto)
      moreover have "\<forall>c < 8. chain (\<lambda>q. next_samesize (pagerefs u ! q)) (sizebases u ! c) (filter (\<lambda>q. pr_type s q = c) (filter (\<lambda>q. q \<noteq> p) al))"
        unfolding ff using cs u(2,3) by simp
      ultimately show "Q () u" by (rule q)
    qed (use gl' pl in auto)
  qed
  have ch: "chain (\<lambda>q. next_samesize (pagerefs s ! q)) (sizebases s ! b) (ys @ p # zs)" using same [OF b(1)] unfolding xs(1) .
  have "wp (remove_same NPAGEREFS b p None (sizebases s ! b)) (\<lambda>_ t. wp (remove_all_list NPAGEREFS p None (allbase t)) Q R t) R s"
    unfolding remove_same_wp [OF ch xs(2) ln(1)] by (rule set_same_links [OF gl step])
  then show ?thesis using b(1) by (simp add: remove_lists_def wps NSIZES_def)
qed

end
