(* ===== verification/KFree.thy ===== *)
theory KFree
  imports KHeap
begin

text \<open>
  Correctness of \<open>kfree\<close> (kern/lib/kheap.c) and of large allocations: a freed block is given back and
  nothing else, and a page whose last block is freed goes back to the page allocator.
\<close>

section \<open>Pushing a block on the free list of its page\<close>

lemma fill_deadbeef_wp:
  assumes b: "ptr + len < 4294967296"
  shows "wp (fill_deadbeef ptr len) (\<lambda>_ t. \<exists>w. t = s\<lparr>kword := w\<rparr> \<and> (\<forall>a. a \<notin> {ptr..<ptr + len} \<longrightarrow> w a = kword s a)) R s"
proof -
  have "wp (kfor [0..<n] (\<lambda>i. set_word (u32 (ptr + 4 * i)) 0xdeadbeef))
    (\<lambda>_ t. \<exists>w. t = s\<lparr>kword := w\<rparr> \<and> (\<forall>a. a \<notin> {ptr..<ptr + len} \<longrightarrow> w a = kword s a)) R s" if "n \<le> len div 4" for n
    using that
  proof (induction n)
    case 0
    then show ?case by (simp add: wps) (rule exI [of _ "kword s"], simp)
  next
    case (Suc n)
    have a: "u32 (ptr + 4 * n) = ptr + 4 * n" "ptr + 4 * n \<in> {ptr..<ptr + len}" using b Suc.prems by simp_all
    have u: "[0..<Suc n] = [0..<n] @ [n]" by simp
    show ?case unfolding u wp_kfor_append
    proof (rule wp_mono [OF Suc.IH])
      fix x :: unit and t
      assume "\<exists>w. t = s\<lparr>kword := w\<rparr> \<and> (\<forall>a. a \<notin> {ptr..<ptr + len} \<longrightarrow> w a = kword s a)"
      then obtain w where w: "t = s\<lparr>kword := w\<rparr>" "\<forall>a. a \<notin> {ptr..<ptr + len} \<longrightarrow> w a = kword s a" by blast
      have "\<forall>a. a \<notin> {ptr..<ptr + len} \<longrightarrow> (w(ptr + 4 * n := 0xdeadbeef)) a = kword s a" using w(2) a(2) by auto
      then show "wp (kfor [n] (\<lambda>i. set_word (u32 (ptr + 4 * i)) 0xdeadbeef))
        (\<lambda>_ t. \<exists>w. t = s\<lparr>kword := w\<rparr> \<and> (\<forall>a. a \<notin> {ptr..<ptr + len} \<longrightarrow> w a = kword s a)) R t"
        by (simp add: wps w(1) a(1)) (intro exI [of _ "w(ptr + 4 * n := 0xdeadbeef)"], simp)
    qed (use Suc.prems in simp_all)
  qed
  then show ?thesis by (simp add: fill_deadbeef_def)
qed

text \<open>The free list after the push.\<close>

lemma page_ok_push:
  assumes rep: "heap_rep s al F" and p: "p \<in> set al" and r: "r \<in> slots (pr_page s p) (pr_size s p)" "r \<notin> set (F p)"
    and w: "\<And>a. a \<notin> {r..<r + pr_size s p} \<Longrightarrow> w a = kword s a"
      "w r = (if freelist_offset (pagerefs s ! p) = INVALID_OFFSET then 0 else pr_page s p + freelist_offset (pagerefs s ! p))"
    and t: "kword t = w" "vm_regions t = vm_regions s" "vm_lo t = vm_lo s"
      "pagerefs t ! p = (pagerefs s ! p)\<lparr>freelist_offset := r - pr_page s p, nfree := Suc (length (F p))\<rparr>"
  shows "page_ok t p (r # F p)"
proof -
  note hp = heap_pages [OF rep p] and ok = heap_repD(6) [OF rep p, unfolded page_ok_def]
  have pg: "page_va t i = page_va s i" for i by (simp add: page_va_def t(3))
  have off: "pr_page s p \<le> r" "r - pr_page s p < 4096" using slots_in_page [OF hp(1) r(1)] by auto
  have "w a = kword s a" if "a \<in> set (F p)" for a
  proof (rule w(1))
    have m: "a \<in> slots (pr_page s p) (pr_size s p)" "a \<noteq> r" using that hp(4) r(2) by auto
    have "0 < pr_size s p" using sizes_arith(1) [OF hp(1)] by simp
    then show "a \<notin> {r..<r + pr_size s p}" using slots_apart [OF hp(1) m(1) r(1) m(2)] by auto
  qed
  then have "chain (wnext w) c (F p) = chain (wnext (kword s)) c (F p)" for c
    by (intro chain_cong) (simp add: wnext_def)
  moreover have "wnext w r = (if freelist_offset (pagerefs s ! p) = INVALID_OFFSET then None
      else Some (pr_page s p + freelist_offset (pagerefs s ! p)))"
    using w(2) hp(2) by (simp add: wnext_def)
  ultimately have "chain (wnext w) (Some r) (r # F p)" using ok by simp
  then show ?thesis using ok hp off r unfolding page_ok_def t pg by (simp add: INVALID_OFFSET_def)
qed

text \<open>The block leaves the allocated blocks, and the others keep their contents.\<close>

definition block_gone :: "'a kheap_scheme \<Rightarrow> nat list \<Rightarrow> (nat \<Rightarrow> nat list) \<Rightarrow> nat \<Rightarrow> nat \<Rightarrow> 'a kheap_scheme \<Rightarrow> bool" where
  "block_gone s al F r n t \<longleftrightarrow> (\<exists>al' F'. heap_rep t al' F' \<and> live_blocks t al' F' = live_blocks s al F - {(r, n)})
     \<and> keeps_blocks (live_blocks s al F - {(r, n)}) s t \<and> curspl t = curspl s"

lemma push_live:
  assumes rep: "heap_rep s al F" and p: "p \<in> set al" and r: "r \<in> slots (pr_page s p) (pr_size s p)" "r \<notin> set (F p)"
    and t: "heap_rep t al (F(p := r # F p))" "vm_regions t = vm_regions s" "vm_lo t = vm_lo s"
      "\<And>q. pr_page t q = pr_page s q" "\<And>q. pr_type t q = pr_type s q"
  shows "live_blocks t al (F(p := r # F p)) = live_blocks s al F - {(r, pr_size s p)}" "(r, pr_size s p) \<in> live_blocks s al F"
proof -
  have "live_blocks s al ((F(p := r # F p))(p := F p)) = insert (r, pr_size t p) (live_blocks t al (F(p := r # F p)))"
    by (rule live_page_upd) (use p r t in simp_all)
  then have e: "live_blocks s al F = insert (r, pr_size s p) (live_blocks t al (F(p := r # F p)))" using t(5) by simp
  have "(r, pr_size s p) \<notin> live_blocks t al (F(p := r # F p))" by (rule free_not_live [OF t(1) p]) simp
  then show "live_blocks t al (F(p := r # F p)) = live_blocks s al F - {(r, pr_size s p)}" "(r, pr_size s p) \<in> live_blocks s al F"
    using e by simp_all
qed

lemma keeps_but:
  assumes rep: "heap_rep s al F" and l: "(r, n) \<in> live_blocks s al F"
    and w: "\<And>a. a \<notin> {r..<r + n} \<Longrightarrow> kword t a = kword s a"
  shows "keeps_blocks (live_blocks s al F - {(r, n)}) s t"
proof -
  have "kword t x = kword s x" if "(a, m) \<in> live_blocks s al F - {(r, n)}" "x \<in> {a..<a + m}" for a m x
    using live_disjoint [OF rep _ l, of a m] that by (intro w) auto
  then show ?thesis unfolding keeps_blocks_def by blast
qed

section \<open>Giving a page back\<close>

text \<open>A page all of whose blocks are free leaves the lists, the table of references and the page table.\<close>

lemma rep_remove:
  assumes rep: "heap_rep s al F" and p: "p \<in> set al" and fl: "set (F p) = slots (pr_page s p) (pr_size s p)"
    and q: "q \<noteq> 0" "vm_regions s q = Some 1" "pr_page s p = page_va s q"
    and t: "vm_wf t" "vm_lo t = vm_lo s" "vm_regions t = (vm_regions s)(q := None)"
      "length (pagerefs t) = 256" "length (pagerefs_inuse t) = 8" "length (sizebases t) = 8" "in_use t = in_use s - {p}"
      "chain (\<lambda>i. next_all (pagerefs t ! i)) (allbase t) (filter (\<lambda>i. i \<noteq> p) al)"
      "\<forall>c < 8. chain (\<lambda>i. next_samesize (pagerefs t ! i)) (sizebases t ! c) (filter (\<lambda>i. pr_type s i = c) (filter (\<lambda>i. i \<noteq> p) al))"
    and r: "\<forall>i. pageaddr_and_blocktype (pagerefs t ! i) = pageaddr_and_blocktype (pagerefs s ! i)
      \<and> freelist_offset (pagerefs t ! i) = freelist_offset (pagerefs s ! i) \<and> nfree (pagerefs t ! i) = nfree (pagerefs s ! i)"
    and w: "\<And>a. a \<in> heap_words s \<Longrightarrow> kword t a = kword s a"
  shows "heap_rep t (filter (\<lambda>i. i \<noteq> p) al) F" "live_blocks t (filter (\<lambda>i. i \<noteq> p) al) F = live_blocks s al F"
proof -
  note d = heap_repD [OF rep]
  let ?al = "filter (\<lambda>i. i \<noteq> p) al"
  have st: "set ?al = set al - {p}" by auto
  have pg: "page_va t i = page_va s i" for i by (simp add: page_va_def t(2))
  have same: "pr_page t i = pr_page s i" "pr_type t i = pr_type s i" "nfree (pagerefs t ! i) = nfree (pagerefs s ! i)"
    "freelist_offset (pagerefs t ! i) = freelist_offset (pagerefs s ! i)" for i
    using r by (simp_all add: PR_PAGEADDR_def PR_BLOCKTYPE_def)
  have ok: "page_ok t i (F i)" if i: "i \<in> set ?al" for i
  proof -
    have ia: "i \<in> set al" "i \<noteq> p" using i by auto
    obtain j where j: "j \<noteq> 0" "vm_regions s j = Some 1" "pr_page s i = page_va s j" using heap_pages(7) [OF rep ia(1)] by blast
    have jq: "j \<noteq> q" using inj_onD [OF d(9) _ ia(1) p] ia(2) j(3) q(3) by metis
    have "kword t a = kword s a" if "a \<in> set (F i)" for a
    proof (rule w)
      have "a \<in> {page_va s j..<page_va s j + 4096 * 1}"
        using slots_in_page [OF heap_pages(1) [OF rep ia(1)], of a "pr_page s i"] heap_pages(4) [OF rep ia(1)] that j(3) by auto
      then show "a \<in> heap_words s" using j(1,2) unfolding heap_words_def by blast
    qed
    then have "chain (wnext (kword t)) c (F i) = chain (wnext (kword s)) c (F i)" for c
      by (intro chain_cong) (simp add: wnext_def)
    moreover have "vm_regions t j = Some 1" using j(2) jq by (simp add: t(3))
    ultimately show ?thesis using d(6) [OF ia(1)] j(1,3) unfolding page_ok_def same pg by auto
  qed
  have "distinct ?al" "set ?al = in_use t" using d(4,5) t(7) st by simp_all
  moreover have "inj_on (pr_page t) (set ?al)" using inj_on_subset [OF d(9)] st unfolding inj_on_def same by blast
  ultimately show "heap_rep t ?al F"
    unfolding heap_rep_def same using t(1,4-6,8,9) ok by blast
  have e: "a \<in> slots (pr_page s p) (pr_size s p) \<Longrightarrow> a \<in> set (F p)" for a by (simp add: fl)
  have "small_blocks t ?al F = small_blocks s al F"
    unfolding small_blocks_def same st using e by blast
  moreover have "large_blocks t ?al = large_blocks s al"
  proof -
    have "vm_regions t i = Some N \<and> i \<noteq> 0 \<and> page_va s i \<notin> pr_page s ` (set al - {p})
        \<longleftrightarrow> vm_regions s i = Some N \<and> i \<noteq> 0 \<and> page_va s i \<notin> pr_page s ` set al" for i N
    proof (cases "i = q")
      case True
      then have "page_va s i \<in> pr_page s ` set al" using p q(3) [symmetric] by simp
      then show ?thesis using True t(3) by simp
    next
      case False
      then have "page_va s i \<noteq> pr_page s p" using q(3) by (simp add: page_va_inj)
      then show ?thesis using False t(3) by auto
    qed
    then show ?thesis unfolding large_blocks_def pg same st by simp
  qed
  ultimately show "live_blocks t ?al F = live_blocks s al F" by (simp add: live_blocks_def)
qed

lemma release_wp:
  assumes rep: "heap_rep s al F" and p: "p \<in> set al" and fl: "set (F p) = slots (pr_page s p) (pr_size s p)"
  shows "wp (kbind (remove_lists p (pr_type s p)) (\<lambda>_. kbind (free_kpages (pr_page s p)) (\<lambda>_. freepageref p)))
    (\<lambda>_ t. heap_rep t (filter (\<lambda>i. i \<noteq> p) al) F \<and> live_blocks t (filter (\<lambda>i. i \<noteq> p) al) F = live_blocks s al F
      \<and> (\<forall>a \<in> heap_words s. kword t a = kword s a) \<and> curspl t = curspl s) R s"
proof -
  note d = heap_repD [OF rep] and hp = heap_pages [OF rep p]
  obtain q where q: "q \<noteq> 0" "vm_regions s q = Some 1" "pr_page s p = page_va s q" using hp(7) by blast
  have al: "set al \<subseteq> {..<256}" using d(7) by auto
  show ?thesis unfolding wp_kbind
  proof (rule remove_lists_wp [OF d(2,10) hp(1) refl d(3,4) al p d(8)])
    fix t
    assume lk: "links_only s t"
      and ca: "chain (\<lambda>i. next_all (pagerefs t ! i)) (allbase t) (filter (\<lambda>i. i \<noteq> p) al)"
      and cs: "\<forall>c < 8. chain (\<lambda>i. next_samesize (pagerefs t ! i)) (sizebases t ! c) (filter (\<lambda>i. pr_type s i = c) (filter (\<lambda>i. i \<noteq> p) al))"
    obtain prs sb ab where t: "t = s\<lparr>pagerefs := prs, sizebases := sb, allbase := ab\<rparr>" "length prs = length (pagerefs s)"
      "length sb = length (sizebases s)"
      "\<forall>i. pageaddr_and_blocktype (prs ! i) = pageaddr_and_blocktype (pagerefs s ! i)
          \<and> freelist_offset (prs ! i) = freelist_offset (pagerefs s ! i) \<and> nfree (prs ! i) = nfree (pagerefs s ! i)"
      using lk unfolding links_only_def by blast
    have f: "vm_wf t" "vm_regions t = vm_regions s" by (rule vm_frame [OF d(1)]; simp add: t(1))+
    have rq: "vm_regions t q = Some 1" by (simp add: f q)
    have pg: "page_va t q = pr_page s p" using q(3) by (simp add: page_va_def t(1))
    note fw = free_at_wf [OF f(1) rq q(1)]
    have low: "ipt_addr t (int q) < page_va s i" if "vm_regions s i = Some N" "i \<noteq> 0" for i N
      using ipt_addr_low [OF f(1) vm_regions_bound(3) [OF f(1) rq], of i N] that f(2) by (simp add: page_va_def t(1))
    have "wp (free_kpages (page_va t q)) (\<lambda>_. wp (freepageref p)
      (\<lambda>_ t. heap_rep t (filter (\<lambda>i. i \<noteq> p) al) F \<and> live_blocks t (filter (\<lambda>i. i \<noteq> p) al) F = live_blocks s al F
      \<and> (\<forall>a \<in> heap_words s. kword t a = kword s a) \<and> curspl t = curspl s) R) R t"
    proof (rule free_kpages_wp [OF f(1) rq], rule freepageref_wp)
      let ?u = "free_at 1 t q"
      have iu: "in_use ?u = in_use s" "length (pagerefs_inuse ?u) = 8" by (simp_all add: in_use_def free_at_def t(1) d(11))
      then show "length (pagerefs_inuse ?u) = 8" "p \<in> in_use ?u" using d(5) p by simp_all
      fix v
      assume v: "v = ?u\<lparr>pagerefs_inuse := pagerefs_inuse v\<rparr>" "length (pagerefs_inuse v) = 8" "in_use v = in_use ?u - {p}"
      have sel: "kword v = kword ?u" "vm_lo v = vm_lo s" "pagerefs v = prs" "sizebases v = sb" "allbase v = ab" "curspl v = curspl s"
        by (subst v(1), simp add: free_at_def t(1))+
      have g: "vm_wf v" "vm_regions v = vm_regions ?u" by (rule vm_frame [OF fw(1)]; subst v(1), simp)+
      have w: "kword v a = kword s a" if "a \<in> heap_words s" for a
      proof -
        obtain i N where i: "i \<noteq> 0" "vm_regions s i = Some N" "a \<in> {page_va s i..<page_va s i + 4096 * N}"
          using \<open>a \<in> heap_words s\<close> unfolding heap_words_def by blast
        then have "a \<noteq> ipt_addr t (int q)" using low [OF i(2,1)] by auto
        then show ?thesis by (simp add: sel(1) free_at_def) (simp add: t(1))
      qed
      have v2: "vm_regions v = (vm_regions s)(q := None)" "length (pagerefs v) = 256" "length (sizebases v) = 8" "in_use v = in_use s - {p}"
        using g(2) fw(2) f(2) v(3) iu sel t(2,3) d(2,10) by simp_all
      have ch: "chain (\<lambda>i. next_all (pagerefs v ! i)) (allbase v) (filter (\<lambda>i. i \<noteq> p) al)"
        "\<forall>c < 8. chain (\<lambda>i. next_samesize (pagerefs v ! i)) (sizebases v ! c) (filter (\<lambda>i. pr_type s i = c) (filter (\<lambda>i. i \<noteq> p) al))"
        using ca cs unfolding sel t(1) by simp_all
      have r: "\<forall>i. pageaddr_and_blocktype (pagerefs v ! i) = pageaddr_and_blocktype (pagerefs s ! i)
        \<and> freelist_offset (pagerefs v ! i) = freelist_offset (pagerefs s ! i) \<and> nfree (pagerefs v ! i) = nfree (pagerefs s ! i)"
        using t(4) unfolding sel .
      note rr = rep_remove [OF rep p fl q g(1) sel(2) v2(1,2) v(2) v2(3,4) ch r w]
      show "heap_rep v (filter (\<lambda>i. i \<noteq> p) al) F \<and> live_blocks v (filter (\<lambda>i. i \<noteq> p) al) F = live_blocks s al F
        \<and> (\<forall>a \<in> heap_words s. kword v a = kword s a) \<and> curspl v = curspl s"
        using rr w sel(6) by blast
    qed
    then show "wp (free_kpages (pr_page s p)) (\<lambda>_. wp (freepageref p)
      (\<lambda>_ t. heap_rep t (filter (\<lambda>i. i \<noteq> p) al) F \<and> live_blocks t (filter (\<lambda>i. i \<noteq> p) al) F = live_blocks s al F
      \<and> (\<forall>a \<in> heap_words s. kword t a = kword s a) \<and> curspl t = curspl s) R) R t"
      unfolding pg .
  qed
qed

section \<open>The owner of a block\<close>

lemma page_top: "heap_rep s al F \<Longrightarrow> p \<in> set al \<Longrightarrow> u32 (pr_page s p + PAGE_SIZE) = pr_page s p + 4096"
  using heap_pages(3) [of s al F p] by (simp add: MIPS_KSEG0_def PAGE_SIZE_def)

lemma live_pos:
  assumes rep: "heap_rep s al F" and l: "(r, n) \<in> live_blocks s al F"
  shows "0 < n"
  using l heap_pages(1) [OF rep] sizes_arith(1) vm_regions_bound(2) [OF heap_repD(1) [OF rep]]
  unfolding live_blocks_def small_blocks_def large_blocks_def by fastforce

lemma owner_small:
  assumes rep: "heap_rep s al F" and l: "(r, n) \<in> live_blocks s al F" and p: "p \<in> set al"
    and r: "r \<in> {pr_page s p..<pr_page s p + 4096}"
  shows "r \<in> slots (pr_page s p) (pr_size s p)" "n = pr_size s p" "r \<notin> set (F p)"
proof -
  obtain k where k: "vm_regions s k = Some 1" "pr_page s p = page_va s k" using heap_pages(7) [OF rep p] by blast
  obtain i N where i: "vm_regions s i = Some N" "{r..<r + n} \<subseteq> {page_va s i..<page_va s i + 4096 * N}"
    "(\<exists>p \<in> set al. page_va s i = pr_page s p \<and> n = pr_size s p \<and> r \<in> slots (pr_page s p) (pr_size s p) \<and> r \<notin> set (F p))
      \<or> page_va s i \<notin> pr_page s ` set al \<and> r = page_va s i \<and> n = 4096 * N"
    by (rule live_region [OF rep l])
  have "r \<in> {page_va s i..<page_va s i + 4096 * N}" using i(2) live_pos [OF rep l] by auto
  moreover have "r \<in> {page_va s k..<page_va s k + 4096 * 1}" using r k(2) by simp
  ultimately have "i = k" using region_words_apart [OF heap_repD(1) [OF rep] i(1) k(1)] by blast
  then have e: "page_va s i = pr_page s p" using k(2) by simp
  then have "page_va s i \<in> pr_page s ` set al" using p by simp
  then obtain q where q: "q \<in> set al" "pr_page s p = pr_page s q" "n = pr_size s q" "r \<in> slots (pr_page s q) (pr_size s q)" "r \<notin> set (F q)"
    using i(3) unfolding e by blast
  then have "p = q" using inj_onD [OF heap_repD(9) [OF rep] q(2) p q(1)] by simp
  then show "r \<in> slots (pr_page s p) (pr_size s p)" "n = pr_size s p" "r \<notin> set (F p)" using q by simp_all
qed

lemma no_owner_large:
  assumes rep: "heap_rep s al F" and l: "(r, n) \<in> live_blocks s al F"
    and no: "\<forall>p \<in> set al. r \<notin> {pr_page s p..<pr_page s p + 4096}"
  shows "(r, n) \<in> large_blocks s al"
proof -
  have "(r, n) \<notin> small_blocks s al F"
  proof
    assume "(r, n) \<in> small_blocks s al F"
    then obtain p where "p \<in> set al" "r \<in> slots (pr_page s p) (pr_size s p)" unfolding small_blocks_def by blast
    then show False using no slots_in_page [OF heap_pages(1) [OF rep]] by blast
  qed
  then show ?thesis using l by (simp add: live_blocks_def)
qed

section \<open>kfree\<close>

lemma free_in_page_wp:
  assumes rep: "heap_rep s al F" and l: "(r, n) \<in> live_blocks s al F" and p: "p \<in> set al"
    and rp: "r \<in> {pr_page s p..<pr_page s p + 4096}"
  shows "wp (free_in_page p r) (\<lambda>_ t. block_gone s al F r n t) (\<lambda>_ _. False) s"
proof -
  note d = heap_repD [OF rep] and hp = heap_pages [OF rep p] and o = owner_small [OF rep l p rp]
  let ?pr = "pagerefs s ! p" and ?pa = "pr_page s p" and ?b = "pr_type s p" and ?o = "r - pr_page s p"
  note sz = sizes_arith [OF hp(1)]
  have pl: "p < length (pagerefs s)" using d(2) d(7) [OF p] by simp
  obtain k where k: "r = ?pa + k * sizes ! ?b" "k < 4096 div sizes ! ?b" using o(1) unfolding slots_def by blast
  have rb: "r < ?pa + 4096" "?pa \<le> r" using rp by simp_all
  have off: "sub32 r ?pa = ?o" "?o < 4096" "?o mod sizes ! ?b = 0" "u32 (?pa + ?o) = r" "?o mod 65536 = ?o"
  proof -
    show "sub32 r ?pa = ?o" using rb hp(3) by (intro sub32_id) (simp_all add: MIPS_KSEG0_def)
    show lt: "?o < 4096" using rb by arith
    show "?o mod sizes ! ?b = 0" by (simp add: k(1))
    have "?pa + ?o = r" using rb by simp
    then show "u32 (?pa + ?o) = r" using rb hp(3) by (simp add: MIPS_KSEG0_def)
    show "?o mod 65536 = ?o" using lt by simp
  qed
  have fo: "u32 (?pa + freelist_offset ?pr) = ?pa + freelist_offset ?pr" if "freelist_offset ?pr \<noteq> INVALID_OFFSET"
  proof -
    have c: "chain (wnext (kword s)) (Some (?pa + freelist_offset ?pr)) (F p)"
      using d(6) [OF p] that unfolding page_ok_def by simp
    then obtain fl where "F p = (?pa + freelist_offset ?pr) # fl" by (cases "F p") auto
    then have "?pa + freelist_offset ?pr \<in> slots ?pa (sizes ! ?b)" using hp(4) by simp
    then have "?pa + freelist_offset ?pr < ?pa + 4096" using slots_in_page [OF hp(1)] by fastforce
    then show ?thesis using hp(3) by (simp add: MIPS_KSEG0_def)
  qed
  have sub: "insert r (set (F p)) \<subseteq> slots ?pa (sizes ! ?b)" using o(1) hp(4) by simp
  have cd: "card (insert r (set (F p))) = Suc (length (F p))" using o(3) distinct_card [OF hp(5)] by simp
  have ln: "Suc (length (F p)) \<le> 4096 div sizes ! ?b" using card_mono [OF card_slots(2) sub] cd card_slots(1) [OF hp(1)] by simp
  have nf: "(nfree ?pr + 1) mod 65536 = Suc (length (F p))" using hp(6) ln sz(5) by simp
  have dv: "PAGE_SIZE \<le> ?o \<or> ?o mod sizes ! ?b \<noteq> 0 \<longleftrightarrow> False" using off(2,3) by (simp add: PAGE_SIZE_def)
  define v where "v = (if freelist_offset ?pr = INVALID_OFFSET then 0 else ?pa + freelist_offset ?pr)"
  have vv: "(if freelist_offset ?pr = INVALID_OFFSET then 0 else u32 (?pa + freelist_offset ?pr)) = v"
    using fo by (simp add: v_def)
  define r' where "r' = ?pr\<lparr>freelist_offset := ?o, nfree := Suc (length (F p))\<rparr>"
  let ?F = "F(p := r # F p)"
  have main: "heap_rep t al ?F" "live_blocks t al ?F = live_blocks s al F - {(r, n)}"
    "keeps_blocks (live_blocks s al F - {(r, n)}) s t" "pr_page t p = ?pa" "pr_type t p = ?b"
    if t: "t = s\<lparr>kword := w(r := v), pagerefs := (pagerefs s)[p := r']\<rparr>" and w: "\<forall>a. a \<notin> {r..<r + sizes ! ?b} \<longrightarrow> w a = kword s a" for t w
  proof -
    have z: "0 < sizes ! ?b" using sz(1) by simp
    have wr: "(w(r := v)) a = kword s a" if "a \<notin> {r..<r + sizes ! ?b}" for a using w that z by auto
    have rr: "{r..<r + sizes ! ?b} \<subseteq> {?pa..<?pa + 4096}" using slots_range [OF hp(1) o(1)] by auto
    have same: "kword t (ipt_addr s (int i)) = kword s (ipt_addr s (int i))" if "i < nat (system_pages s)" for i
    proof -
      obtain q where q: "q \<noteq> 0" "vm_regions s q = Some 1" "?pa = page_va s q" using hp(7) by blast
      have "ipt_addr s (int i) < ?pa" using ipt_addr_low [OF d(1) that q(2,1)] q(3) by simp
      then have "ipt_addr s (int i) \<notin> {r..<r + sizes ! ?b}" using rb(2) by simp
      then show ?thesis using wr by (simp add: t)
    qed
    have f: "vm_wf t" "vm_regions t = vm_regions s" by (rule vm_frame [OF d(1) _ _ _ _ same]; simp add: t)+
    have e: "r' = ?pr\<lparr>freelist_offset := r - ?pa, nfree := Suc (length (F p))\<rparr>" by (simp add: r'_def)
    have ok: "page_ok t p (r # F p)"
      by (rule page_ok_push [OF rep p o(1,3), where w = "w(r := v)"]) (use wr f pl in \<open>simp_all add: t v_def e\<close>)
    show hr: "heap_rep t al ?F"
    proof (rule rep_page_upd [OF rep p f, where r = r'])
      show "page_ok t p (r # F p)" by (rule ok)
      show "kword t a = kword s a" if "a \<notin> {?pa..<?pa + 4096}" for a
      proof -
        have "a \<notin> {r..<r + sizes ! ?b}" using that rr by blast
        then show ?thesis using wr by (simp add: t)
      qed
    qed (simp_all add: t r'_def)
    have pg: "pr_page t q = pr_page s q" "pr_type t q = pr_type s q" for q
      using pl by (cases "q = p"; simp add: t r'_def PR_PAGEADDR_def PR_BLOCKTYPE_def)+
    then show "pr_page t p = ?pa" "pr_type t p = ?b" by simp_all
    have lo: "vm_lo t = vm_lo s" by (simp add: t)
    show "live_blocks t al ?F = live_blocks s al F - {(r, n)}"
      unfolding o(2) by (rule push_live(1) [OF rep p o(1,3) hr f(2) lo pg])
    show "keeps_blocks (live_blocks s al F - {(r, n)}) s t"
      by (rule keeps_but [OF rep l]) (use wr o(2) in \<open>simp add: t\<close>)
  qed
  have tail: "wp (if Suc (length (F p)) = PAGE_SIZE div sizes ! ?b
      then kbind (remove_lists p ?b) (\<lambda>_. kbind (free_kpages ?pa) (\<lambda>_. freepageref p)) else kret ())
      (\<lambda>_ t. block_gone s al F r n t) (\<lambda>_ _. False) t"
    if t: "t = s\<lparr>kword := w(r := v), pagerefs := (pagerefs s)[p := r']\<rparr>" and w: "\<forall>a. a \<notin> {r..<r + sizes ! ?b} \<longrightarrow> w a = kword s a" for t w
  proof (cases "Suc (length (F p)) = PAGE_SIZE div sizes ! ?b")
    case False
    have "curspl t = curspl s" by (simp add: t)
    then show ?thesis using False main [OF t w] by (auto simp: wps block_gone_def)
  next
    case True
    note m = main [OF t w]
    have "insert r (set (F p)) = slots ?pa (sizes ! ?b)"
      by (rule card_subset_eq [OF card_slots(2) sub]) (use cd True card_slots(1) [OF hp(1)] in \<open>simp add: PAGE_SIZE_def\<close>)
    then have full: "set (?F p) = slots (pr_page t p) (pr_size t p)" unfolding m by simp
    have "wp (kbind (remove_lists p (pr_type t p)) (\<lambda>_. kbind (free_kpages (pr_page t p)) (\<lambda>_. freepageref p)))
      (\<lambda>_ u. block_gone s al F r n u) (\<lambda>_ _. False) t"
    proof (rule wp_mono [OF release_wp [OF m(1) p full]], elim conjE)
      fix x :: unit and u :: "'a kheap_scheme"
      assume u: "heap_rep u (filter (\<lambda>i. i \<noteq> p) al) ?F" "live_blocks u (filter (\<lambda>i. i \<noteq> p) al) ?F = live_blocks t al ?F"
        "\<forall>a \<in> heap_words t. kword u a = kword t a" "curspl u = curspl t"
      have kw: "kword u a = kword t a" if "(c, m) \<in> live_blocks t al ?F" "a \<in> {c..<c + m}" for a c m
        using u(3) live_words [OF m(1) that(1)] that(2) by blast
      have "keeps_blocks (live_blocks s al F - {(r, n)}) s u"
        using m(3) kw unfolding m(2) keeps_blocks_def by fastforce
      then show "block_gone s al F r n u" unfolding block_gone_def using u m(2) by (auto simp: t)
    qed simp
    then show ?thesis using True unfolding m by simp
  qed
  have fit: "r + sizes ! ?b < 4294967296" using slots_range(2) [OF hp(1) o(1)] hp(3) by (simp add: MIPS_KSEG0_def)
  show ?thesis
    unfolding free_in_page_def wp_pr_get wp_kbind [of "pr_get p"] Let_def off(1,4,5) dv if_False vv wp_kbind
  proof (rule wp_mono [OF fill_deadbeef_wp [OF fit]], goal_cases)
    case (1 x t)
    then obtain w where t: "t = s\<lparr>kword := w\<rparr>" and w: "\<forall>a. a \<notin> {r..<r + sizes ! ?b} \<longrightarrow> w a = kword s a" by blast
    have "Suc (length (F p)) \<le> PAGE_SIZE div sizes ! ?b" using ln by (simp add: PAGE_SIZE_def)
    moreover have "Suc (nfree (pagerefs s ! p)) mod 65536 = Suc (length (F p))" using nf by simp
    ultimately show ?case using tail [OF refl w] pl unfolding t r'_def by (simp add: wps)
  qed simp
qed

lemma subpage_kfree_wp:
  assumes rep: "heap_rep s al F" and l: "(r, n) \<in> live_blocks s al F"
  shows "wp (subpage_kfree r) (\<lambda>sub t. sub \<and> block_gone s al F r n t \<or> \<not> sub \<and> t = s \<and> (r, n) \<in> large_blocks s al) (\<lambda>_ _. False) s"
    (is "wp _ ?Q ?R s")
proof -
  let ?s = "s\<lparr>curspl := SPL_HIGH\<rparr>"
  have rep': "heap_rep ?s al F" and l': "(r, n) \<in> live_blocks ?s al F" using rep l by simp_all
  note d = heap_repD [OF rep']
  have ty: "\<forall>p \<in> set al. pr_type ?s p < 8" using heap_pages(1) [OF rep'] by blast
  have len: "length al \<le> NPAGEREFS"
  proof -
    have "card (set al) \<le> card {..<256 :: nat}" by (rule card_mono) (use d(7) in auto)
    then show ?thesis using distinct_card [OF d(4)] by (simp add: NPAGEREFS_def)
  qed
  have "wp (find_owner NPAGEREFS r (allbase ?s)) (\<lambda>x. wp (case x of
       None \<Rightarrow> kbind (splx (curspl s)) (\<lambda>_. kret False)
     | Some p \<Rightarrow> kbind (free_in_page p r) (\<lambda>_. kbind (splx (curspl s)) (\<lambda>_. kret True))) ?Q ?R) ?R ?s"
  proof (rule wp_mono [OF find_owner_wp [OF d(3) len ty]], goal_cases)
    case (1 x t)
    then have t: "t = ?s" by simp
    show ?case
    proof (cases x)
      case None
      have "\<forall>p \<in> set al. r \<notin> {pr_page ?s p..<pr_page ?s p + 4096}" using 1 None page_top [OF rep'] by auto
      then have "(r, n) \<in> large_blocks ?s al" by (rule no_owner_large [OF rep' l'])
      moreover have "large_blocks ?s al = large_blocks s al" by (simp add: large_blocks_def page_va_def vm_regions_def)
      ultimately show ?thesis by (simp add: None t wps)
    next
      case (Some p)
      then have p: "p \<in> set al" "r \<in> {pr_page ?s p..<pr_page ?s p + 4096}" using 1 page_top [OF rep'] by auto
      have "wp (free_in_page p r) (\<lambda>_ t. ?Q True (t\<lparr>curspl := curspl s\<rparr>)) ?R ?s"
        by (rule wp_mono [OF free_in_page_wp [OF rep' l' p]]) (simp_all add: block_gone_def)
      then show ?thesis unfolding Some option.case t by (simp add: wps)
    qed
  qed simp_all
  then show ?thesis by (simp add: subpage_kfree_def wps)
qed

section \<open>Large blocks\<close>

lemma heap_wordsE:
  assumes "x \<in> heap_words s"
  obtains i N where "i \<noteq> 0" "vm_regions s i = Some N" "x \<in> {page_va s i..<page_va s i + 4096 * N}"
  using assms unfolding heap_words_def by blast

text \<open>A change of the regions that leaves the pages of the lists alone.\<close>

lemma rep_regions:
  assumes rep: "heap_rep s al F"
    and t: "vm_wf t" "vm_lo t = vm_lo s" "pagerefs t = pagerefs s" "pagerefs_inuse t = pagerefs_inuse s"
      "sizebases t = sizebases s" "allbase t = allbase s"
    and reg: "\<And>i. page_va s i \<in> pr_page s ` set al \<Longrightarrow> vm_regions t i = vm_regions s i"
    and w: "\<And>p a. p \<in> set al \<Longrightarrow> a \<in> {pr_page s p..<pr_page s p + 4096} \<Longrightarrow> kword t a = kword s a"
  shows "heap_rep t al F" "small_blocks t al F = small_blocks s al F"
proof -
  note d = heap_repD [OF rep]
  have pg: "page_va t i = page_va s i" for i by (simp add: page_va_def t(2))
  have ok: "page_ok t p (F p)" if p: "p \<in> set al" for p
  proof -
    obtain j where j: "j \<noteq> 0" "vm_regions s j = Some 1" "pr_page s p = page_va s j" using heap_pages(7) [OF rep p] by blast
    have "page_va s j \<in> pr_page s ` set al" using p j(3) [symmetric] by simp
    then have rj: "vm_regions t j = Some 1" using reg j(2) by simp
    have "kword t a = kword s a" if "a \<in> set (F p)" for a
      using slots_in_page [OF heap_pages(1) [OF rep p], of a "pr_page s p"] heap_pages(4) [OF rep p] that by (intro w [OF p]) blast
    then have "chain (wnext (kword t)) c (F p) = chain (wnext (kword s)) c (F p)" for c
      by (intro chain_cong) (simp add: wnext_def)
    then show ?thesis using d(6) [OF p] j(1,3) rj unfolding page_ok_def t(3) pg by auto
  qed
  have iu: "in_use t = in_use s" by (simp add: in_use_def t(4))
  show "heap_rep t al F" unfolding heap_rep_def t iu using d ok t(1) by simp
  show "small_blocks t al F = small_blocks s al F" by (simp add: small_blocks_def t(3))
qed

lemma large_fresh:
  assumes rep: "heap_rep s al F" and N: "0 < N" "N < 2147483648" and a: "alloc_at N s j t"
  shows "block_new s al F (page_va s j) (4096 * N) t"
proof -
  note d = heap_repD [OF rep] and at = alloc_at_table [OF vm_wf_table [OF heap_repD(1) [OF rep]] N a]
    and w = alloc_at_wf [OF heap_repD(1) [OF rep] N a] and aw = alloc_at_words [OF heap_repD(1) [OF rep] N a]
  have t: "t = s\<lparr>kword := (kword s)(ipt_addr s (int j) := N), avail_pages := avail_pages s - int N\<rparr>" using a by (simp add: alloc_at_def)
  have sel: "vm_lo t = vm_lo s" "pagerefs t = pagerefs s" "pagerefs_inuse t = pagerefs_inuse s" "sizebases t = sizebases s"
    "allbase t = allbase s" "curspl t = curspl s" by (simp_all add: t)
  have pg: "page_va t i = page_va s i" for i by (simp add: page_va_def t)
  have nj: "page_va s j \<notin> pr_page s ` set al"
  proof
    assume "page_va s j \<in> pr_page s ` set al"
    then obtain p where p: "p \<in> set al" "pr_page s p = page_va s j" by auto
    obtain k where "vm_regions s k = Some 1" "pr_page s p = page_va s k" using heap_pages(7) [OF rep p(1)] by blast
    then show False using p(2) at(3) by (simp add: page_va_inj)
  qed
  have reg: "vm_regions t i = vm_regions s i" if "page_va s i \<in> pr_page s ` set al" for i
    using that nj at(2) by (cases "i = j") simp_all
  have wd: "kword t x = kword s x" if p: "p \<in> set al" and x: "x \<in> {pr_page s p..<pr_page s p + 4096}" for p x
  proof (rule aw(1))
    obtain k where k: "k \<noteq> 0" "vm_regions s k = Some 1" "pr_page s p = page_va s k" using heap_pages(7) [OF rep p] by blast
    then have "x \<in> {page_va s k..<page_va s k + 4096 * 1}" using x by simp
    then show "x \<in> heap_words s" unfolding heap_words_def using k(1,2) by blast
  qed
  have rr: "heap_rep t al F" "small_blocks t al F = small_blocks s al F"
    by (rule rep_regions [OF rep w(1) sel(1-5)]; (erule reg | erule (1) wd))+
  have lg: "large_blocks t al = insert (page_va s j, 4096 * N) (large_blocks s al)"
  proof (intro equalityI subsetI)
    fix x
    assume "x \<in> large_blocks t al"
    then obtain q M where q: "x = (page_va s q, 4096 * M)" "vm_regions t q = Some M" "q \<noteq> 0" "page_va s q \<notin> pr_page s ` set al"
      unfolding large_blocks_def pg sel by blast
    then show "x \<in> insert (page_va s j, 4096 * N) (large_blocks s al)"
      using at(2) by (cases "q = j") (auto simp: large_blocks_def)
  next
    fix x
    assume "x \<in> insert (page_va s j, 4096 * N) (large_blocks s al)"
    then consider "x = (page_va s j, 4096 * N)"
      | q M where "x = (page_va s q, 4096 * M)" "vm_regions s q = Some M" "q \<noteq> 0" "page_va s q \<notin> pr_page s ` set al"
      unfolding large_blocks_def by blast
    then show "x \<in> large_blocks t al"
    proof cases
      case 1
      then show ?thesis using at(2) w(2) nj unfolding large_blocks_def pg sel by auto
    next
      case 2
      then have "q \<noteq> j" using at(3) by auto
      then show ?thesis using 2 at(2) unfolding large_blocks_def pg sel by auto
    qed
  qed
  have nw: "page_va s j \<notin> heap_words s" using aw(2) [of "page_va s j"] N(1) by auto
  then have new: "(page_va s j, 4096 * N) \<notin> live_blocks s al F"
  proof -
    have "page_va s j \<in> {page_va s j..<page_va s j + 4096 * N}" using N(1) by simp
    then show ?thesis using live_words [OF rep, of "page_va s j" "4096 * N"] nw by blast
  qed
  have "live_blocks t al F = insert (page_va s j, 4096 * N) (live_blocks s al F)" by (simp add: live_blocks_def rr(2) lg)
  moreover have "keeps_blocks (live_blocks s al F) s t" by (rule keeps_blocksI [OF rep aw(1)])
  moreover have "page_va s j \<noteq> 0" by (simp add: page_va_def MIPS_KSEG0_def)
  ultimately show ?thesis unfolding block_new_def using rr(1) new sel(6) by blast
qed

lemma large_free:
  assumes rep: "heap_rep s al F" and l: "(r, n) \<in> large_blocks s al"
  shows "wp (free_kpages r) (\<lambda>_ t. block_gone s al F r n t) R s" "r mod PAGE_SIZE = 0"
proof -
  note d = heap_repD [OF rep]
  obtain q N where q: "r = page_va s q" "n = 4096 * N" "vm_regions s q = Some N" "q \<noteq> 0" "page_va s q \<notin> pr_page s ` set al"
    using l unfolding large_blocks_def by blast
  note fw = free_at_wf [OF d(1) q(3,4)] and b = vm_regions_bound [OF d(1) q(3)]
  let ?t = "free_at N s q"
  have sel: "pagerefs ?t = pagerefs s" "pagerefs_inuse ?t = pagerefs_inuse s" "sizebases ?t = sizebases s"
    "allbase ?t = allbase s" "curspl ?t = curspl s" "kword ?t = (kword s)(ipt_addr s (int q) := 0)" by (simp_all add: free_at_def)
  have pg: "page_va ?t i = page_va s i" for i by (simp add: page_va_def fw(3))
  have reg: "vm_regions ?t i = vm_regions s i" if "page_va s i \<in> pr_page s ` set al" for i
  proof -
    have "i \<noteq> q" using that q(5) by blast
    then show ?thesis by (simp add: fw(2))
  qed
  have hw: "kword ?t x = kword s x" if hx: "x \<in> heap_words s" for x
  proof -
    obtain i M where i: "i \<noteq> 0" "vm_regions s i = Some M" "x \<in> {page_va s i..<page_va s i + 4096 * M}"
      by (rule heap_wordsE [OF hx])
    have "ipt_addr s (int q) < page_va s i" by (rule ipt_addr_low [OF d(1) b(3) i(2,1)])
    then show ?thesis using i(3) by (simp add: sel)
  qed
  have wd: "kword ?t x = kword s x" if p: "p \<in> set al" and x: "x \<in> {pr_page s p..<pr_page s p + 4096}" for p x
  proof (rule hw)
    obtain k where k: "k \<noteq> 0" "vm_regions s k = Some 1" "pr_page s p = page_va s k" using heap_pages(7) [OF rep p] by blast
    then have "x \<in> {page_va s k..<page_va s k + 4096 * 1}" using x by simp
    then show "x \<in> heap_words s" unfolding heap_words_def using k(1,2) by blast
  qed
  have rr: "heap_rep ?t al F" "small_blocks ?t al F = small_blocks s al F"
    by (rule rep_regions [OF rep fw(1,3) sel(1-4)]; (erule reg | erule (1) wd))+
  have lg: "large_blocks ?t al = large_blocks s al - {(r, n)}"
  proof (intro equalityI subsetI)
    fix x
    assume "x \<in> large_blocks ?t al"
    then obtain i M where i: "x = (page_va s i, 4096 * M)" "vm_regions ?t i = Some M" "i \<noteq> 0" "page_va s i \<notin> pr_page s ` set al"
      unfolding large_blocks_def pg sel by blast
    then have "i \<noteq> q" using fw(2) by auto
    then show "x \<in> large_blocks s al - {(r, n)}" using i fw(2) q(1) by (auto simp: large_blocks_def page_va_inj)
  next
    fix x
    assume "x \<in> large_blocks s al - {(r, n)}"
    then obtain i M where i: "x = (page_va s i, 4096 * M)" "vm_regions s i = Some M" "i \<noteq> 0" "page_va s i \<notin> pr_page s ` set al" "x \<noteq> (r, n)"
      unfolding large_blocks_def by blast
    then have "i \<noteq> q" using q(1-3) by auto
    then show "x \<in> large_blocks ?t al" using i fw(2) unfolding large_blocks_def pg sel by auto
  qed
  have ns: "(r, n) \<notin> small_blocks s al F"
  proof
    assume "(r, n) \<in> small_blocks s al F"
    then obtain p where p: "p \<in> set al" "n = pr_size s p" unfolding small_blocks_def by blast
    then show False using sizes_arith(2) [OF heap_pages(1) [OF rep p(1)]] q(2) b(2) by simp
  qed
  have lv: "live_blocks ?t al F = live_blocks s al F - {(r, n)}" using ns by (auto simp: live_blocks_def rr(2) lg)
  have "keeps_blocks (live_blocks s al F) s ?t" by (rule keeps_blocksI [OF rep hw])
  then have "keeps_blocks (live_blocks s al F - {(r, n)}) s ?t" unfolding keeps_blocks_def by blast
  then have "block_gone s al F r n ?t" unfolding block_gone_def using rr(1) lv sel(5) by blast
  then show "wp (free_kpages r) (\<lambda>_ t. block_gone s al F r n t) R s" unfolding q(1) by (rule free_kpages_wp [OF d(1) q(3)])
  show "r mod PAGE_SIZE = 0" using page_va_bounds(3) [OF d(1) q(3)] by (simp add: q(1) PAGE_SIZE_def)
qed

section \<open>kmalloc and kfree\<close>

lemma kfree_wp:
  assumes rep: "heap_rep s al F" and l: "(r, n) \<in> live_blocks s al F"
  shows "wp (kfree r) (\<lambda>_ t. block_gone s al F r n t) (\<lambda>_ _. False) s"
proof -
  have r0: "r \<noteq> 0"
  proof
    assume "r = 0"
    then have "0 \<in> {r..<r + n}" using live_pos [OF rep l] by simp
    then obtain i N where "(0 :: nat) \<in> {page_va s i..<page_va s i + 4096 * N}" using live_words [OF rep l] unfolding heap_words_def by blast
    then show False by (simp add: page_va_def MIPS_KSEG0_def)
  qed
  have "wp (subpage_kfree r) (\<lambda>sub. wp (kwhen (\<not> sub) (kbind (kassert (r mod PAGE_SIZE = 0)) (\<lambda>_. free_kpages r)))
    (\<lambda>_ t. block_gone s al F r n t) (\<lambda>_ _. False)) (\<lambda>_ _. False) s"
  proof (rule wp_mono [OF subpage_kfree_wp [OF rep l]], goal_cases)
    case (1 sub t)
    then show ?case
    proof (elim disjE conjE)
      assume "\<not> sub" "t = s" "(r, n) \<in> large_blocks s al"
      then show ?thesis using large_free [OF rep] by (simp add: wps)
    qed (simp add: wps)
  qed simp
  then show ?thesis using r0 by (simp add: kfree_def wps)
qed

lemma kmalloc_wp:
  assumes rep: "heap_rep s al F" and sz: "sz + 4095 < 4294967296" and rm: "room ((sz + 4095) div 4096) s" "room 1 s"
    and refs: "length al < 256"
  shows "wp (kmalloc sz) (\<lambda>r t. \<exists>n \<ge> sz. block_new s al F r n t) (\<lambda>_ _. False) s"
proof (cases "LARGEST_SUBPAGE_SIZE \<le> sz")
  case True
  let ?N = "(sz + 4095) div 4096"
  have N: "0 < ?N" "?N < 2147483648" "sz \<le> 4096 * ?N" using True sz by (simp_all add: LARGEST_SUBPAGE_SIZE_def)
  have e: "off32 (int (u32 (sz + PAGE_SIZE - 1) div PAGE_SIZE)) = int ?N"
  proof -
    have "u32 (sz + PAGE_SIZE - 1) div PAGE_SIZE = ?N" using sz by (simp add: PAGE_SIZE_def)
    then show ?thesis using N(2) by (simp add: off32_id)
  qed
  have "wp (alloc_kpages (int ?N)) (\<lambda>r t. \<exists>n \<ge> sz. block_new s al F r n t) (\<lambda>_ _. False) s"
    by (rule wp_mono [OF room_alloc [OF heap_repD(1) [OF rep] N(1,2) rm(1)]]) (use large_fresh [OF rep N(1,2)] N(3) in blast)+
  then show ?thesis using True unfolding kmalloc_def e by simp
next
  case False
  then have "sz \<le> 2048" by (simp add: LARGEST_SUBPAGE_SIZE_def)
  then have "wp (subpage_kmalloc sz) (\<lambda>r t. \<exists>n \<ge> sz. block_new s al F r n t) (\<lambda>_ _. False) s"
    by (rule wp_mono [OF subpage_kmalloc_wp [OF rep]]) (use refs rm(2) in \<open>auto simp: small_ready_def\<close>)
  then show ?thesis using False by (simp add: kmalloc_def)
qed

section \<open>The contract of the heap\<close>

text \<open>
  What the rest of the kernel relies on: \<open>rep s B\<close> says that \<open>B\<close> are the allocated blocks, \<open>ready sz s\<close>
  that a request of \<open>sz\<close> bytes can be met.
\<close>

locale heap_contract =
  fixes malloc :: "nat \<Rightarrow> ('s, nat) op" and free :: "nat \<Rightarrow> ('s, unit) op"
    and rep :: "'s \<Rightarrow> (nat \<times> nat) set \<Rightarrow> bool" and ready :: "nat \<Rightarrow> 's \<Rightarrow> bool" and word_at :: "'s \<Rightarrow> nat \<Rightarrow> nat"
  assumes malloc_new: "rep s B \<Longrightarrow> ready sz s \<Longrightarrow>
      wp (malloc sz) (\<lambda>r t. \<exists>n \<ge> sz. r \<noteq> 0 \<and> (r, n) \<notin> B \<and> rep t (insert (r, n) B)
        \<and> (\<forall>(a, m) \<in> B. \<forall>x \<in> {a..<a + m}. word_at t x = word_at s x)) (\<lambda>_ _. False) s"
    and free_old: "rep s B \<Longrightarrow> (r, n) \<in> B \<Longrightarrow>
      wp (free r) (\<lambda>_ t. rep t (B - {(r, n)})
        \<and> (\<forall>(a, m) \<in> B - {(r, n)}. \<forall>x \<in> {a..<a + m}. word_at t x = word_at s x)) (\<lambda>_ _. False) s"
    and apart: "rep s B \<Longrightarrow> (a, m) \<in> B \<Longrightarrow> (a', m') \<in> B \<Longrightarrow> (a, m) \<noteq> (a', m') \<Longrightarrow> {a..<a + m} \<inter> {a'..<a' + m'} = {}"
begin

lemma malloc_disjoint:
  assumes rep: "rep s B" and ready: "ready sz s"
  shows "wp (malloc sz) (\<lambda>r t. \<exists>n \<ge> sz. r \<noteq> 0 \<and> rep t (insert (r, n) B)
      \<and> (\<forall>(a, m) \<in> B. {r..<r + n} \<inter> {a..<a + m} = {} \<and> (\<forall>x \<in> {a..<a + m}. word_at t x = word_at s x))) (\<lambda>_ _. False) s"
proof (rule wp_mono [OF malloc_new [OF assms]], elim exE conjE)
  fix r t n
  assume n: "sz \<le> n" "r \<noteq> 0" "(r, n) \<notin> B" "rep t (insert (r, n) B)"
    and k: "\<forall>(a, m) \<in> B. \<forall>x \<in> {a..<a + m}. word_at t x = word_at s x"
  have "{r..<r + n} \<inter> {a..<a + m} = {}" if "(a, m) \<in> B" for a m
    using apart [OF n(4), of r n a m] that n(3) by blast
  then have "\<forall>(a, m) \<in> B. {r..<r + n} \<inter> {a..<a + m} = {} \<and> (\<forall>x \<in> {a..<a + m}. word_at t x = word_at s x)"
    using k by blast
  then show "\<exists>n \<ge> sz. r \<noteq> 0 \<and> rep t (insert (r, n) B)
      \<and> (\<forall>(a, m) \<in> B. {r..<r + n} \<inter> {a..<a + m} = {} \<and> (\<forall>x \<in> {a..<a + m}. word_at t x = word_at s x))"
    using n by blast
qed simp

text \<open>A block that is allocated, used and freed leaves no trace; its user may write into it.\<close>

lemma malloc_free:
  assumes rep: "rep s B" and ready: "ready sz s"
    and user: "\<And>r n t. sz \<le> n \<Longrightarrow> (r, n) \<notin> B \<Longrightarrow> rep t (insert (r, n) B) \<Longrightarrow>
      wp (use r) (\<lambda>_ u. rep u (insert (r, n) B) \<and> (\<forall>(a, m) \<in> B. \<forall>x \<in> {a..<a + m}. word_at u x = word_at t x)) (\<lambda>_ _. False) t"
  shows "wp (kbind (malloc sz) (\<lambda>r. kbind (use r) (\<lambda>_. free r)))
    (\<lambda>_ t. rep t B \<and> (\<forall>(a, m) \<in> B. \<forall>x \<in> {a..<a + m}. word_at t x = word_at s x)) (\<lambda>_ _. False) s"
  unfolding wp_kbind
proof (rule wp_mono [OF malloc_new [OF rep ready]], elim exE conjE)
  fix r t n
  assume n: "sz \<le> n" "(r, n) \<notin> B" "rep t (insert (r, n) B)"
    and k: "\<forall>(a, m) \<in> B. \<forall>x \<in> {a..<a + m}. word_at t x = word_at s x"
  have B: "insert (r, n) B - {(r, n)} = B" using n(2) by blast
  show "wp (use r) (\<lambda>_. wp (free r) (\<lambda>_ t. rep t B \<and> (\<forall>(a, m) \<in> B. \<forall>x \<in> {a..<a + m}. word_at t x = word_at s x)) (\<lambda>_ _. False))
    (\<lambda>_ _. False) t"
  proof (rule wp_mono [OF user [OF n]], elim conjE)
    fix x :: 'b and u
    assume u: "rep u (insert (r, n) B)" "\<forall>(a, m) \<in> B. \<forall>x \<in> {a..<a + m}. word_at u x = word_at t x"
    show "wp (free r) (\<lambda>_ t. rep t B \<and> (\<forall>(a, m) \<in> B. \<forall>x \<in> {a..<a + m}. word_at t x = word_at s x)) (\<lambda>_ _. False) u"
      by (rule wp_mono [OF free_old [OF u(1) insertI1, unfolded B]]) (use u(2) k in fastforce)+
  qed simp
qed simp

end

definition heap_blocks :: "'a kheap_scheme \<Rightarrow> (nat \<times> nat) set \<Rightarrow> bool" where
  "heap_blocks s B \<longleftrightarrow> (\<exists>al F. heap_rep s al F \<and> B = live_blocks s al F)"

definition heap_ready :: "nat \<Rightarrow> 'a kheap_scheme \<Rightarrow> bool" where
  "heap_ready sz s \<longleftrightarrow> sz + 4095 < 4294967296 \<and> room ((sz + 4095) div 4096) s \<and> room 1 s \<and> card (in_use s) < 256"

lemma heap_readyD:
  assumes "heap_ready sz s" and "heap_rep s al F"
  shows "sz + 4095 < 4294967296" "room ((sz + 4095) div 4096) s" "room 1 s" "length al < 256"
  using assms distinct_card [OF heap_repD(4) [OF assms(2)]] heap_repD(5) [OF assms(2)] by (simp_all add: heap_ready_def)

lemma block_newD:
  assumes "block_new s al F r n t"
  shows "r \<noteq> 0 \<and> (r, n) \<notin> live_blocks s al F \<and> heap_blocks t (insert (r, n) (live_blocks s al F))
    \<and> (\<forall>(a, m) \<in> live_blocks s al F. \<forall>x \<in> {a..<a + m}. kword t x = kword s x)"
proof -
  obtain al' F' where "heap_rep t al' F'" "live_blocks t al' F' = insert (r, n) (live_blocks s al F)"
    using assms unfolding block_new_def by blast
  then have "heap_blocks t (insert (r, n) (live_blocks s al F))" unfolding heap_blocks_def by metis
  then show ?thesis using assms unfolding block_new_def keeps_blocks_def by blast
qed

lemma block_goneD:
  assumes "block_gone s al F r n t"
  shows "heap_blocks t (live_blocks s al F - {(r, n)})
    \<and> (\<forall>(a, m) \<in> live_blocks s al F - {(r, n)}. \<forall>x \<in> {a..<a + m}. kword t x = kword s x)"
proof -
  obtain al' F' where "heap_rep t al' F'" "live_blocks t al' F' = live_blocks s al F - {(r, n)}"
    using assms unfolding block_gone_def by blast
  then have "heap_blocks t (live_blocks s al F - {(r, n)})" unfolding heap_blocks_def by metis
  then show ?thesis using assms unfolding block_gone_def keeps_blocks_def by blast
qed

interpretation kh: heap_contract kmalloc kfree heap_blocks heap_ready kword
proof
  fix s :: "'a kheap_scheme" and B sz
  assume B: "heap_blocks s B" and ready: "heap_ready sz s"
  obtain al F where rep: "heap_rep s al F" "B = live_blocks s al F" using B unfolding heap_blocks_def by blast
  show "wp (kmalloc sz) (\<lambda>r t. \<exists>n \<ge> sz. r \<noteq> 0 \<and> (r, n) \<notin> B \<and> heap_blocks t (insert (r, n) B)
        \<and> (\<forall>(a, m) \<in> B. \<forall>x \<in> {a..<a + m}. kword t x = kword s x)) (\<lambda>_ _. False) s"
    unfolding rep(2) by (rule wp_mono [OF kmalloc_wp [OF rep(1) heap_readyD [OF ready rep(1)]]]) (use block_newD in blast)+
next
  fix s :: "'a kheap_scheme" and B r n
  assume B: "heap_blocks s B" and l: "(r, n) \<in> B"
  obtain al F where rep: "heap_rep s al F" "B = live_blocks s al F" using B unfolding heap_blocks_def by blast
  show "wp (kfree r) (\<lambda>_ t. heap_blocks t (B - {(r, n)})
        \<and> (\<forall>(a, m) \<in> B - {(r, n)}. \<forall>x \<in> {a..<a + m}. kword t x = kword s x)) (\<lambda>_ _. False) s"
    unfolding rep(2) by (rule wp_mono [OF kfree_wp [OF rep(1) l [unfolded rep(2)]]]) (use block_goneD in blast)+
next
  fix s :: "'a kheap_scheme" and B a m a' m'
  assume "heap_blocks s B" "(a, m) \<in> B" "(a', m') \<in> B" "(a, m) \<noteq> (a', m')"
  then show "{a..<a + m} \<inter> {a'..<a' + m'} = {}" unfolding heap_blocks_def using live_disjoint by blast
qed

section \<open>Using a block\<close>

text \<open>A client that writes inside an allocated block does not disturb the heap.\<close>

lemma heap_write:
  assumes rep: "heap_rep s al F" and l: "(r, n) \<in> live_blocks s al F" and w: "\<And>x. x \<notin> {r..<r + n} \<Longrightarrow> w x = kword s x"
  shows "heap_rep (s\<lparr>kword := w\<rparr>) al F" "live_blocks (s\<lparr>kword := w\<rparr>) al F = live_blocks s al F"
proof -
  let ?t = "s\<lparr>kword := w\<rparr>"
  note d = heap_repD [OF rep]
  obtain i N where i: "i \<noteq> 0" "vm_regions s i = Some N" "{r..<r + n} \<subseteq> {page_va s i..<page_va s i + 4096 * N}"
    by (rule live_region [OF rep l])
  have tab: "kword ?t (ipt_addr s (int k)) = kword s (ipt_addr s (int k))" if "k < nat (system_pages s)" for k
  proof -
    have "ipt_addr s (int k) < page_va s i" by (rule ipt_addr_low [OF d(1) that i(2,1)])
    then have "ipt_addr s (int k) \<notin> {r..<r + n}" using i(3) by fastforce
    then show ?thesis using w by simp
  qed
  have f: "vm_wf ?t" "vm_regions ?t = vm_regions s" by (rule vm_frame [OF d(1) _ _ _ _ tab]; simp)+
  have pg: "page_va ?t k = page_va s k" for k by (simp add: page_va_def)
  have fr: "w a = kword s a" if p: "p \<in> set al" and a: "a \<in> set (F p)" for p a
  proof (rule w, rule notI)
    assume x: "a \<in> {r..<r + n}"
    have sl: "a \<in> slots (pr_page s p) (pr_size s p)" using heap_pages(4) [OF rep p] a by blast
    have pa: "a \<in> {pr_page s p..<pr_page s p + 4096}" by (rule slots_in_page [OF heap_pages(1) [OF rep p] sl])
    obtain k where k: "k \<noteq> 0" "vm_regions s k = Some 1" "pr_page s p = page_va s k" using heap_pages(7) [OF rep p] by blast
    have "a \<in> {page_va s k..<page_va s k + 4096 * 1}" using pa k(3) by simp
    moreover have "a \<in> {page_va s i..<page_va s i + 4096 * N}" using x i(3) by blast
    ultimately have e: "i = k" using region_words_apart [OF d(1) i(2) k(2)] by blast
    have rp: "r \<in> {pr_page s p..<pr_page s p + 4096}"
    proof -
      have "r \<in> {r..<r + n}" using live_pos [OF rep l] by simp
      then have "r \<in> {page_va s i..<page_va s i + 4096 * N}" using i(3) by blast
      moreover have "N = 1" using i(2) k(2) e by simp
      ultimately show ?thesis using e k(3) by simp
    qed
    note o = owner_small [OF rep l p rp]
    have "a \<noteq> r" using o(3) a by blast
    then have "{a..<a + pr_size s p} \<inter> {r..<r + n} = {}" unfolding o(2) by (rule slots_apart [OF heap_pages(1) [OF rep p] sl o(1)])
    moreover have "a \<in> {a..<a + pr_size s p}" using sizes_arith(1) [OF heap_pages(1) [OF rep p]] by simp
    ultimately show False using x by blast
  qed
  have "page_ok ?t p (F p)" if p: "p \<in> set al" for p
  proof -
    have "chain (wnext w) c (F p) = chain (wnext (kword s)) c (F p)" for c
      by (rule chain_cong) (simp add: wnext_def fr [OF p])
    then show ?thesis using d(6) [OF p] unfolding page_ok_def f(2) pg by auto
  qed
  moreover have "in_use ?t = in_use s" by (simp add: in_use_def)
  ultimately show "heap_rep ?t al F" unfolding heap_rep_def using d f(1) by simp
  show "live_blocks ?t al F = live_blocks s al F"
    unfolding live_blocks_def small_blocks_def large_blocks_def f(2) pg by simp
qed

lemma blocks_write:
  assumes "heap_blocks s B" and "(r, n) \<in> B" and "\<And>x. x \<notin> {r..<r + n} \<Longrightarrow> w x = kword s x"
  shows "heap_blocks (s\<lparr>kword := w\<rparr>) B"
proof -
  obtain al F where "heap_rep s al F" "B = live_blocks s al F" using assms(1) unfolding heap_blocks_def by blast
  then show ?thesis using heap_write [of s al F r n w] assms(2,3) unfolding heap_blocks_def by metis
qed

text \<open>The block of a small request is of the least size class and aligned to its size.\<close>

lemma live_small_aligned:
  assumes rep: "heap_rep s al F" and l: "(r, n) \<in> live_blocks s al F" and n: "n \<le> 2048"
  shows "r mod n = 0"
proof -
  have "(r, n) \<notin> large_blocks s al"
  proof
    assume "(r, n) \<in> large_blocks s al"
    then obtain q N where "n = 4096 * N" "vm_regions s q = Some N" unfolding large_blocks_def by blast
    then show False using n vm_regions_bound(2) [OF heap_repD(1) [OF rep]] by fastforce
  qed
  then obtain p where p: "p \<in> set al" "n = pr_size s p" "r \<in> slots (pr_page s p) (pr_size s p)"
    using l unfolding live_blocks_def small_blocks_def by blast
  obtain q where q: "vm_regions s q = Some 1" "pr_page s p = page_va s q" using heap_pages(7) [OF rep p(1)] by blast
  obtain c where c: "pr_page s p = 4096 * c" using page_va_bounds(3) [OF heap_repD(1) [OF rep] q(1)] q(2) by fastforce
  obtain k where k: "r = pr_page s p + k * n" using p(2,3) unfolding slots_def by blast
  have e: "4096 = 4096 div n * n" using sizes_arith(3) [OF heap_pages(1) [OF rep p(1)]] p(2) by simp
  have "r = (c * (4096 div n) + k) * n"
  proof -
    have "r = c * (4096 div n * n) + k * n" using k c e [symmetric] by simp
    then show ?thesis by (simp add: distrib_right mult.assoc)
  qed
  then show ?thesis by simp
qed

section \<open>The properties of the heap\<close>

text \<open>A small machine after boot: sixteen pages, the first holds the page table, the heap is empty.\<close>

definition heap0 :: kheap where
  "heap0 = \<lparr>curspl = 0, firstfree = 0, firstpaddr = 0, lastpaddr = 0, ipt = 2147549184, system_pages = 16,
     avail_pages = 15, bootstrapped = True, vm_lo = 65536, kword = (\<lambda>a. if a = 2147549184 then 1 else 0),
     pagerefs = replicate 256 \<lparr>next_samesize = None, next_all = None, pageaddr_and_blocktype = 0, freelist_offset = 0, nfree = 0\<rparr>,
     pagerefs_inuse = replicate 8 0, sizebases = replicate 8 None, allbase = None\<rparr>"

lemma heap0_simps [simp]:
  "bootstrapped heap0" "system_pages heap0 = 16" "ipt heap0 = 2147549184" "vm_lo heap0 = 65536" "allbase heap0 = None"
  "pagerefs_inuse heap0 = replicate 8 0" "sizebases heap0 = replicate 8 None" "length (pagerefs heap0) = 256"
  "kword heap0 = (\<lambda>a. if a = 2147549184 then 1 else 0)"
  by (simp_all add: heap0_def)

lemma heap0_table: "ipt_list heap0 = 1 # replicate 15 0"
proof (rule nth_equalityI)
  fix i
  assume "i < length (ipt_list heap0)"
  then have i: "i < 16" by simp
  have "ipt_addr heap0 (int i) = 2147549184 + 4 * i" using i by (simp add: ipt_addr_def nat_add_distrib)
  then show "ipt_list heap0 ! i = (1 # replicate 15 0) ! i" using i
    by (simp add: nth_ipt_list ipt_len_def nth_Cons' off32_id)
qed simp

lemma heap0_regions: "vm_regions heap0 = [0 \<mapsto> 1]"
  by (auto simp: vm_regions_def heap0_table regions_def fun_eq_iff nth_Cons')

text \<open>A heap without pages.\<close>

lemma heap_rep_empty:
  assumes "vm_wf s" and "length (pagerefs s) = 256" and "pagerefs_inuse s = replicate 8 0"
    and "sizebases s = replicate 8 None" and "allbase s = None"
  shows "heap_rep s [] F" "in_use s = {}"
proof -
  show "in_use s = {}"
  proof -
    have "\<not> bit (pagerefs_inuse s ! (p div 32)) (p mod 32)" if "p < 256" for p using that assms(3) by simp
    then show ?thesis by (auto simp: in_use_def)
  qed
  then show "heap_rep s [] F" using assms by (simp add: heap_rep_def)
qed

lemma live_blocks_empty: "vm_regions s = [0 \<mapsto> k] \<Longrightarrow> live_blocks s [] F = {}"
  by (auto simp: live_blocks_def small_blocks_def large_blocks_def split: if_splits)

lemma heap0_blocks: "heap_blocks heap0 {}"
proof -
  have "ipt_ok (ipt_list heap0)" unfolding heap0_table by (auto simp: ipt_ok_def nth_Cons')
  then have "vm_wf heap0" by (simp add: vm_wf_def vm_table_def MIPS_KSEG0_def heap0_table regions_def)
  then show ?thesis using heap_rep_empty(1) [of heap0 "\<lambda>_. []"] live_blocks_empty [OF heap0_regions] unfolding heap_blocks_def
    by (intro exI [of _ "[]"] exI [of _ "\<lambda>_. []"]) simp
qed

lemma heap0_ready: "heap_ready 100 heap0"
proof -
  have "pages_of (vm_regions heap0) = {0}" by (auto simp: pages_of_def heap0_regions split: if_splits)
  then have "room 1 heap0" unfolding room_def free_run_def vm_regions_def by (intro exI [of _ 1]) simp
  moreover have "in_use heap0 = {}" using heap0_blocks by (auto simp: in_use_def)
  ultimately show ?thesis by (simp add: heap_ready_def)
qed

lemma heap0_wf: "vm_wf heap0"
  using heap0_blocks by (auto simp: heap_blocks_def heap_rep_def)

text \<open>
  the page allocator is first fit: it takes the lowest run of free pages that is long enough
  and does not end at the last page, adds it to the regions, and restores the interrupt level; when there
  is none the regions stay as they are.
\<close>

theorem alloc_kpages_first_fit:
  assumes "vm_wf s" and "0 < N" and "N < 2147483648"
  shows "wp (alloc_kpages (int N)) (\<lambda>r t. curspl t = curspl s \<and> vm_wf t \<and>
      (if room N s then \<exists>j. r = page_va s j \<and> free_run (ipt_list s) N j \<and> (\<forall>i < j. \<not> free_run (ipt_list s) N i)
           \<and> vm_regions t = (vm_regions s)(j \<mapsto> N)
       else r = MIPS_KSEG0 \<and> vm_regions t = vm_regions s)) (\<lambda>_ _. False) s"
proof (rule wp_mono [OF alloc_kpages_wp [OF vm_wf_table [OF assms(1)] assms(2,3)]], elim disjE exE conjE)
  fix r t j
  assume r: "r = page_va s j" and a: "alloc_at N s j t"
  note t = alloc_at_table [OF vm_wf_table [OF assms(1)] assms(2,3) a] and w = alloc_at_wf [OF assms(1-3) a]
  have "room N s" "free_run (ipt_list s) N j" "\<forall>i < j. \<not> free_run (ipt_list s) N i" "curspl t = curspl s"
    using a unfolding alloc_at_def room_def by auto
  then show "curspl t = curspl s \<and> vm_wf t \<and>
      (if room N s then \<exists>j. r = page_va s j \<and> free_run (ipt_list s) N j \<and> (\<forall>i < j. \<not> free_run (ipt_list s) N i)
           \<and> vm_regions t = (vm_regions s)(j \<mapsto> N)
       else r = MIPS_KSEG0 \<and> vm_regions t = vm_regions s)" using r w(1) t(2) by auto
next
  fix r t
  assume "r = MIPS_KSEG0" and a: "alloc_none N s t"
  moreover have "\<not> room N s" "curspl t = curspl s" using a by (auto simp: alloc_none_def room_def)
  ultimately show "curspl t = curspl s \<and> vm_wf t \<and>
      (if room N s then \<exists>j. r = page_va s j \<and> free_run (ipt_list s) N j \<and> (\<forall>i < j. \<not> free_run (ipt_list s) N i)
           \<and> vm_regions t = (vm_regions s)(j \<mapsto> N)
       else r = MIPS_KSEG0 \<and> vm_regions t = vm_regions s)" using alloc_none_wf [OF assms(1) a] by simp
qed simp

theorem alloc_kpages_first_fit_witness:
  "wp (alloc_kpages (int 2)) (\<lambda>r t. curspl t = curspl heap0 \<and> vm_wf t \<and>
      (if room 2 heap0 then \<exists>j. r = page_va heap0 j \<and> free_run (ipt_list heap0) 2 j \<and> (\<forall>i < j. \<not> free_run (ipt_list heap0) 2 i)
           \<and> vm_regions t = (vm_regions heap0)(j \<mapsto> 2)
       else r = MIPS_KSEG0 \<and> vm_regions t = vm_regions heap0)) (\<lambda>_ _. False) heap0"
  by (rule alloc_kpages_first_fit [OF heap0_wf]) simp_all

text \<open>
  Property C10: when a request can be met, \<open>kmalloc\<close> returns a block of at least the size asked for that
  meets no allocated block; the allocated blocks are the old ones and this one, and the old ones keep
  their contents.
\<close>

theorem kmalloc_fresh:
  assumes "heap_blocks s B" and "heap_ready sz s"
  shows "wp (kmalloc sz) (\<lambda>r t. \<exists>n \<ge> sz. r \<noteq> 0 \<and> heap_blocks t (insert (r, n) B)
      \<and> (\<forall>(a, m) \<in> B. {r..<r + n} \<inter> {a..<a + m} = {} \<and> (\<forall>x \<in> {a..<a + m}. kword t x = kword s x))) (\<lambda>_ _. False) s"
  by (rule kh.malloc_disjoint [OF assms])

theorem kmalloc_fresh_witness:
  "wp (kmalloc 100) (\<lambda>r t. \<exists>n \<ge> 100. r \<noteq> 0 \<and> heap_blocks t {(r, n)}
      \<and> (\<forall>(a, m) \<in> {}. {r..<r + n} \<inter> {a..<a + m} = {} \<and> (\<forall>x \<in> {a..<a + m}. kword t x = kword heap0 x)))
    (\<lambda>_ _. False) heap0"
  by (rule kmalloc_fresh [OF heap0_blocks heap0_ready])

text \<open>
  Property C13: \<open>kfree\<close> of an allocated block gives back exactly this block; every other block stays
  allocated and keeps its contents.
\<close>

theorem kfree_exact:
  assumes "heap_blocks s B" and "(r, n) \<in> B"
  shows "wp (kfree r) (\<lambda>_ t. heap_blocks t (B - {(r, n)})
      \<and> (\<forall>(a, m) \<in> B - {(r, n)}. \<forall>x \<in> {a..<a + m}. kword t x = kword s x)) (\<lambda>_ _. False) s"
  by (rule kh.free_old [OF assms])

text \<open>The small machine with two pages allocated.\<close>

definition heap1 :: kheap where
  "heap1 = heap0\<lparr>kword := (kword heap0)(2147549188 := 2)\<rparr>"

lemma heap1_simps [simp]:
  "bootstrapped heap1" "system_pages heap1 = 16" "ipt heap1 = 2147549184" "vm_lo heap1 = 65536" "allbase heap1 = None"
  "pagerefs_inuse heap1 = replicate 8 0" "sizebases heap1 = replicate 8 None" "length (pagerefs heap1) = 256"
  "kword heap1 = (kword heap0)(2147549188 := 2)"
  by (simp_all add: heap1_def)

lemma heap1_blocks: "heap_blocks heap1 {(2147553280, 8192)}"
proof -
  have "ipt_list heap1 = (ipt_list heap0)[1 := 2]"
    by (rule ipt_list_set) (use heap0_blocks in \<open>auto simp: heap_blocks_def heap_rep_def vm_wf_def ipt_addr_def to_u32_def\<close>)
  then have t: "ipt_list heap1 = 1 # 2 # replicate 14 0" by (simp add: heap0_table numeral_eq_Suc)
  have r: "vm_regions heap1 = [0 \<mapsto> 1, 1 \<mapsto> 2]"
    by (auto simp: vm_regions_def t regions_def fun_eq_iff nth_Cons' split: if_splits)
  have "ipt_ok (ipt_list heap1)" unfolding t by (auto simp: ipt_ok_def nth_Cons')
  then have "vm_wf heap1" by (simp add: vm_wf_def vm_table_def MIPS_KSEG0_def t regions_def)
  then have rep: "heap_rep heap1 [] (\<lambda>_. [])" by (rule heap_rep_empty(1)) simp_all
  have "page_va heap1 1 = 2147553280" by (simp add: page_va_def MIPS_KSEG0_def)
  then have "live_blocks heap1 [] (\<lambda>_. []) = {(2147553280, 8192)}"
    by (auto simp: live_blocks_def small_blocks_def large_blocks_def r split: if_splits)
  then show ?thesis using rep unfolding heap_blocks_def by (intro exI [of _ "[]"] exI [of _ "\<lambda>_. []"]) simp
qed

theorem kfree_exact_witness:
  "wp (kfree 2147553280) (\<lambda>_ t. heap_blocks t ({(2147553280, 8192)} - {(2147553280, 8192)})
      \<and> (\<forall>(a, m) \<in> {(2147553280, 8192)} - {(2147553280, 8192)}. \<forall>x \<in> {a..<a + m}. kword t x = kword heap1 x)) (\<lambda>_ _. False) heap1"
  by (rule kfree_exact [OF heap1_blocks]) simp

text \<open>
  Property C20: a block that is allocated, written by its user within the size asked for, and freed leaves
  the heap as it was: the same blocks are allocated, with the same contents.
\<close>

theorem kmalloc_kfree_roundtrip:
  assumes "heap_blocks s B" and "heap_ready sz s"
    and "\<And>r t. wp (use r) (\<lambda>_ u. \<exists>w. u = t\<lparr>kword := w\<rparr> \<and> (\<forall>x. x \<notin> {r..<r + sz} \<longrightarrow> w x = kword t x)) (\<lambda>_ _. False) t"
  shows "wp (kbind (kmalloc sz) (\<lambda>r. kbind (use r) (\<lambda>_. kfree r)))
    (\<lambda>_ t. heap_blocks t B \<and> (\<forall>(a, m) \<in> B. \<forall>x \<in> {a..<a + m}. kword t x = kword s x)) (\<lambda>_ _. False) s"
proof (rule kh.malloc_free [OF assms(1,2)])
  fix r n and t :: "'a kheap_scheme"
  assume n: "sz \<le> n" "(r, n) \<notin> B" and b: "heap_blocks t (insert (r, n) B)"
  show "wp (use r) (\<lambda>_ u. heap_blocks u (insert (r, n) B) \<and> (\<forall>(a, m) \<in> B. \<forall>x \<in> {a..<a + m}. kword u x = kword t x)) (\<lambda>_ _. False) t"
  proof (rule wp_mono [OF assms(3)], elim exE conjE)
    fix y :: 'b and u w
    assume u: "u = t\<lparr>kword := w\<rparr>" and w: "\<forall>x. x \<notin> {r..<r + sz} \<longrightarrow> w x = kword t x"
    have out: "w x = kword t x" if "x \<notin> {r..<r + n}" for x using w that n(1) by auto
    have "kword u x = kword t x" if a: "(a, m) \<in> B" "x \<in> {a..<a + m}" for a m x
    proof -
      have "{a..<a + m} \<inter> {r..<r + n} = {}" by (rule kh.apart [OF b]) (use a(1) n(2) in auto)
      then have "x \<notin> {r..<r + n}" using a(2) by blast
      then show ?thesis using out by (simp add: u)
    qed
    moreover have "heap_blocks u (insert (r, n) B)" unfolding u by (rule blocks_write [OF b insertI1 out])
    ultimately show "heap_blocks u (insert (r, n) B) \<and> (\<forall>(a, m) \<in> B. \<forall>x \<in> {a..<a + m}. kword u x = kword t x)" by blast
  qed simp
qed

theorem kmalloc_kfree_roundtrip_witness:
  "wp (kbind (kmalloc 100) (\<lambda>r. kbind (set_word r 7) (\<lambda>_. kfree r)))
    (\<lambda>_ t. heap_blocks t {} \<and> (\<forall>(a, m) \<in> {}. \<forall>x \<in> {a..<a + m}. kword t x = kword heap0 x)) (\<lambda>_ _. False) heap0"
proof (rule kmalloc_kfree_roundtrip [OF heap0_blocks heap0_ready])
  fix r and t :: kheap
  show "wp (set_word r 7) (\<lambda>_ u. \<exists>w. u = t\<lparr>kword := w\<rparr> \<and> (\<forall>x. x \<notin> {r..<r + 100} \<longrightarrow> w x = kword t x)) (\<lambda>_ _. False) t"
    by (simp add: wps) (intro exI [of _ "(kword t)(r := 7)"], simp)
qed

text \<open>
  Property C26: a request of less than half a page is met with a block of the least size class that fits,
  aligned to its size; the answer is NULL only when all 256 page references are taken. The hypothesis
  \<open>small_ready\<close> is that a page of memory is free, or a block of this class is, or all references are
  taken. In the remaining case, when a new page is needed and memory is full, the code does not answer NULL
  although kheap.c means to: \<open>alloc_kpages\<close> returns the kernel address of physical page 0 (as the next
  property shows), and \<open>kmalloc\<close> cuts blocks from the page of the exception handlers.
\<close>

theorem kmalloc_size_class:
  assumes "heap_blocks s B" and "sz < LARGEST_SUBPAGE_SIZE" and "small_ready sz s"
  shows "wp (kmalloc sz) (\<lambda>r t. if r = 0 then t = s \<and> card (in_use s) = 256
      else \<exists>n. best_size sz n \<and> r mod n = 0 \<and> heap_blocks t (insert (r, n) B))
    (\<lambda>_ _. False) s"
proof -
  obtain al F where rep: "heap_rep s al F" "B = live_blocks s al F" using assms(1) unfolding heap_blocks_def by blast
  have c: "length al = card (in_use s)" using distinct_card [OF heap_repD(4) [OF rep(1)]] heap_repD(5) [OF rep(1)] by simp
  have le: "n \<le> 2048" if "n \<in> set sizes" for n using that by (auto simp: sizes_def)
  have "sz \<le> 2048" "\<not> LARGEST_SUBPAGE_SIZE \<le> sz" using assms(2) by (simp_all add: LARGEST_SUBPAGE_SIZE_def)
  then show ?thesis unfolding kmalloc_def if_False rep(2)
  proof (simp only: if_False, intro wp_mono [OF subpage_kmalloc_wp [OF rep(1) _ assms(3)]], goal_cases)
    case (2 r t)
    then consider n where "sz \<le> n" "n \<in> set sizes" "\<forall>m \<in> set sizes. sz \<le> m \<longrightarrow> n \<le> m" "block_new s al F r n t" | "r = 0" "t = s" "length al = 256"
      by blast
    then show ?case
    proof cases
      case 1
      obtain al' F' where n: "heap_rep t al' F'" "live_blocks t al' F' = insert (r, n) (live_blocks s al F)"
        using 1(4) unfolding block_new_def by blast
      have "r mod n = 0" by (rule live_small_aligned [OF n(1) _ le [OF 1(2)]]) (simp add: n(2))
      then show ?thesis using 1(1-3) block_newD [OF 1(4)] unfolding best_size_def by auto
    qed (simp add: c)
  qed simp_all
qed

theorem kmalloc_size_class_witness:
  "wp (kmalloc 100) (\<lambda>r t. if r = 0 then t = heap0 \<and> card (in_use heap0) = 256
      else \<exists>n. best_size 100 n \<and> r mod n = 0 \<and> heap_blocks t {(r, n)})
    (\<lambda>_ _. False) heap0"
  by (rule kmalloc_size_class [OF heap0_blocks]) (use heap0_ready in \<open>simp_all add: heap_ready_def small_ready_def LARGEST_SUBPAGE_SIZE_def\<close>)

text \<open>
  Property C27: when the pages of a large request are not free, or only free at the very end of memory,
  \<open>kmalloc\<close> does not return NULL but the kernel address of physical page 0, where the exception handlers
  lie; nothing is allocated, and the count of available pages drops all the same.
\<close>

theorem kmalloc_nomem_not_null:
  assumes "vm_wf s" and "LARGEST_SUBPAGE_SIZE \<le> sz" and "sz + 4095 < 4294967296" and "\<not> room ((sz + 4095) div 4096) s"
  shows "wp (kmalloc sz) (\<lambda>r t. r = MIPS_KSEG0 \<and> r \<noteq> 0 \<and> t = s\<lparr>avail_pages := avail_pages s - int ((sz + 4095) div 4096)\<rparr>)
    (\<lambda>_ _. False) s"
proof -
  let ?N = "(sz + 4095) div 4096"
  have N: "0 < ?N" "?N < 2147483648" using assms(2,3) by (simp_all add: LARGEST_SUBPAGE_SIZE_def)
  have e: "off32 (int (u32 (sz + PAGE_SIZE - 1) div PAGE_SIZE)) = int ?N"
  proof -
    have "u32 (sz + PAGE_SIZE - 1) div PAGE_SIZE = ?N" using assms(3) by (simp add: PAGE_SIZE_def)
    then show ?thesis using N(2) by (simp add: off32_id)
  qed
  have "wp (alloc_kpages (int ?N)) (\<lambda>r t. r = MIPS_KSEG0 \<and> r \<noteq> 0 \<and> t = s\<lparr>avail_pages := avail_pages s - int ?N\<rparr>) (\<lambda>_ _. False) s"
    by (rule wp_mono [OF alloc_kpages_wp [OF vm_wf_table [OF assms(1)] N]])
      (use assms(4) in \<open>auto simp: alloc_none_def alloc_at_def room_def MIPS_KSEG0_def\<close>)
  then show ?thesis using assms(2) unfolding kmalloc_def e by simp
qed

theorem kmalloc_nomem_not_null_witness:
  "wp (kmalloc 61440) (\<lambda>r t. r = MIPS_KSEG0 \<and> r \<noteq> 0 \<and> t = heap0\<lparr>avail_pages := avail_pages heap0 - int ((61440 + 4095) div 4096)\<rparr>)
    (\<lambda>_ _. False) heap0"
proof (rule kmalloc_nomem_not_null)
  show "vm_wf heap0" by (rule heap0_wf)
  have "0 \<in> pages_of (vm_regions heap0)" by (auto simp: pages_of_def heap0_regions)
  moreover have "(0 :: nat) \<in> {0..<0 + 15}" by simp
  ultimately have "{0..<0 + 15} \<inter> pages_of (regions (ipt_list heap0)) \<noteq> {}" unfolding vm_regions_def by blast
  then show "\<not> room ((61440 + 4095) div 4096) heap0" by (auto simp: room_def free_run_def)
qed (simp_all add: LARGEST_SUBPAGE_SIZE_def)

section \<open>Boot\<close>

text \<open>The steps of the page allocator leave the rest of the kernel's state alone.\<close>

definition keeps_rest :: "('a vm_scheme, 'b) op \<Rightarrow> bool" where
  "keeps_rest m \<longleftrightarrow> (\<forall>s x t. m s = Done x t \<longrightarrow> vm.more t = vm.more s)"

lemma keeps_rest_intros [intro!]:
  "keeps_rest (kret x)" "keeps_rest (kget f)" "keeps_rest (kassert b)" "keeps_rest kpanic"
  "(\<And>s. vm.more (g s) = vm.more s) \<Longrightarrow> keeps_rest (kmodify g)"
  "keeps_rest m \<Longrightarrow> (\<And>x. keeps_rest (k x)) \<Longrightarrow> keeps_rest (kbind m k)"
  by (auto simp: keeps_rest_def kret_def kget_def kassert_def kpanic_def kmodify_def kbind_def split: outcome.splits if_splits)

lemma keeps_rest_kfor: "(\<And>i. keeps_rest (f i)) \<Longrightarrow> keeps_rest (kfor is f)"
  by (induction "is") auto

lemma vm_bootstrap_keeps_rest: "keeps_rest vm_bootstrap"
proof -
  have spl: "keeps_rest (splx x)" for x by (auto simp: splx_def)
  have ipt: "keeps_rest (ipt_set i n)" for i n by (auto simp: ipt_set_def set_word_def)
  have steal: "keeps_rest (ram_stealmem n)" for n by (auto simp: ram_stealmem_def Let_def)
  have pages: "keeps_rest (alloc_ppages n)" for n by (auto simp: alloc_ppages_def Let_def intro!: ipt)
  have "keeps_rest (alloc_kpages n)" for n by (auto simp: alloc_kpages_def splhigh_def intro!: spl steal pages)
  then show ?thesis
    by (auto simp: vm_bootstrap_def splhigh_def ram_getsize_def intro!: spl keeps_rest_kfor ipt)
qed

lemma boot_wp:
  assumes "0 < firstpaddr s" "firstpaddr s mod 4096 = 0" and "lastpaddr s = firstpaddr s + 4096 * n" "lastpaddr s \<le> 532676608"
    and "(4 * n + 4095) div 4096 < n"
    and heap: "length (pagerefs s) = 256" "pagerefs_inuse s = replicate 8 0" "sizebases s = replicate 8 None" "allbase s = None"
  shows "wp vm_bootstrap (\<lambda>_ t. heap_blocks t {} \<and> curspl t = curspl s
      \<and> (\<forall>N j. 0 < N \<longrightarrow> (4 * n + 4095) div 4096 \<le> j \<longrightarrow> j + N \<le> n \<longrightarrow> free_run (ipt_list t) N j)) (\<lambda>_ _. False) s"
proof -
  let ?k = "(4 * n + 4095) div 4096"
  note w = vm_bootstrap_wp [OF assms(1-5)]
  have "wp vm_bootstrap (\<lambda>_ t. vm.more t = vm.more s) (\<lambda>_ _. False) s"
    using vm_bootstrap_keeps_rest w unfolding keeps_rest_def wp_def by (auto split: outcome.splits)
  from wp_conj [OF w this] show ?thesis
  proof (rule wp_mono, elim conjE)
    fix x and t :: "'a kheap_scheme"
    assume t: "vm_wf t" "vm_regions t = [0 \<mapsto> ?k]" "curspl t = curspl s" "vm.more t = vm.more s" "system_pages t = int n"
    have f: "pagerefs t = pagerefs s" "pagerefs_inuse t = pagerefs_inuse s" "sizebases t = sizebases s" "allbase t = allbase s"
      using t(4) by (cases s; cases t; simp)+
    have "heap_rep t [] (\<lambda>_. [])" by (rule heap_rep_empty(1)) (use heap f t(1) in simp_all)
    then have "heap_blocks t {}" using live_blocks_empty [OF t(2), of "\<lambda>_. []"] unfolding heap_blocks_def by metis
    moreover have "free_run (ipt_list t) N j" if "?k \<le> j" "j + N \<le> n" for N j
      using that t(2,5) by (auto simp: free_run_def pages_of_def vm_regions_def split: if_splits)
    ultimately show "heap_blocks t {} \<and> curspl t = curspl s
      \<and> (\<forall>N j. 0 < N \<longrightarrow> ?k \<le> j \<longrightarrow> j + N \<le> n \<longrightarrow> free_run (ipt_list t) N j)" using t(3) by blast
  qed simp
qed

text \<open>
  \<open>vm_bootstrap\<close> on the zeroed variables of the kernel brings up the page allocator with
  its table in the first pages, every other page free, and an empty heap.
\<close>

theorem vm_bootstrap_empty_heap:
  assumes "0 < firstpaddr s" "firstpaddr s mod 4096 = 0" and "lastpaddr s = firstpaddr s + 4096 * n" "lastpaddr s \<le> 532676608"
    and "(4 * n + 4095) div 4096 < n"
    and "length (pagerefs s) = 256" "pagerefs_inuse s = replicate 8 0" "sizebases s = replicate 8 None" "allbase s = None"
  shows "wp vm_bootstrap (\<lambda>_ t. heap_blocks t {} \<and> curspl t = curspl s
      \<and> (\<forall>N j. 0 < N \<longrightarrow> (4 * n + 4095) div 4096 \<le> j \<longrightarrow> j + N \<le> n \<longrightarrow> free_run (ipt_list t) N j)) (\<lambda>_ _. False) s"
  by (rule boot_wp [OF assms])

theorem vm_bootstrap_empty_heap_witness:
  "wp vm_bootstrap (\<lambda>_ t. heap_blocks t {} \<and> curspl t = curspl (heap0\<lparr>firstpaddr := 65536, lastpaddr := 131072\<rparr>)
      \<and> (\<forall>N j. 0 < N \<longrightarrow> (4 * 16 + 4095) div 4096 \<le> j \<longrightarrow> j + N \<le> 16 \<longrightarrow> free_run (ipt_list t) N j)) (\<lambda>_ _. False)
    (heap0\<lparr>firstpaddr := 65536, lastpaddr := 131072\<rparr>)"
  by (rule vm_bootstrap_empty_heap) simp_all

end
