(* ===== verification/VmSpace.thy ===== *)
theory VmSpace
  imports KFree
begin

text \<open>
  Address spaces (kern/vm/addrspace.c), their page tables, the fault handler and the TLB
  (kern/arch/mips/mips/vm.c). The two-level tables and \<open>struct addrspace\<close> are words of the modelled
  memory; the processor's TLB and the current thread's address space extend the state.
\<close>

unbundle bit_operations_syntax

section \<open>Page tables\<close>

definition PT_FANOUT :: nat where "PT_FANOUT = 1024"

text \<open>A byte store, on a big-endian machine.\<close>

definition set_byte :: "nat \<Rightarrow> nat \<Rightarrow> ('a vm_scheme, unit) op" where
  "set_byte a b = (let c = a div 4 * 4; k = 256 ^ (3 - a mod 4) in
     kbind (kget (\<lambda>s. u32 (kword s c))) (\<lambda>w.
     set_word c (w - w div k mod 256 * k + b * k)))"

definition pt_node_create :: "('a vm_scheme, nat) op" where
  "pt_node_create =
     kbind (alloc_kpages (int (N_PAGES (4 * PT_FANOUT)))) (\<lambda>node.
     if node = 0 then kret 0
     else kbind (kfor [0..<PT_FANOUT] (\<lambda>i. set_word (u32 (node + 4 * i)) 0)) (\<lambda>_.
          kret node))"

definition pt_create :: "('a vm_scheme, nat) op" where
  "pt_create =
     kbind (alloc_kpages (int (N_PAGES (4 * PT_FANOUT)))) (\<lambda>pt.
     if pt = 0 then kret 0
     else kbind (kfor [0..<PT_FANOUT] (\<lambda>i. set_word (u32 (pt + 4 * i)) 0)) (\<lambda>_.
          kret pt))"

definition get_word :: "nat \<Rightarrow> ('a vm_scheme, nat) op" where
  "get_word a = kget (\<lambda>s. kword s a)"

definition pt_node_destroy :: "nat \<Rightarrow> ('a vm_scheme, unit) op" where
  "pt_node_destroy node =
     kbind (kfor [0..<PT_FANOUT] (\<lambda>i.
       kbind (get_word (u32 (node + 4 * i))) (\<lambda>p.
       kwhen (p \<noteq> 0) (free_ppages p)))) (\<lambda>_.
     free_kpages node)"

definition pt_destroy :: "nat \<Rightarrow> ('a vm_scheme, unit) op" where
  "pt_destroy pt =
     kbind (kfor [0..<PT_FANOUT] (\<lambda>i.
       kbind (get_word (u32 (pt + 4 * i))) (\<lambda>n.
       kwhen (n \<noteq> 0) (pt_node_destroy n)))) (\<lambda>_.
     free_kpages pt)"

definition pt_mid :: "nat \<Rightarrow> nat" where "pt_mid va = va div 4096 mod 1024"
definition pt_hi :: "nat \<Rightarrow> nat" where "pt_hi va = va div 4194304 mod 1024"

text \<open>The node for the high part of the address; 0 when there is no memory for it.\<close>

definition walk_node :: "nat \<Rightarrow> nat \<Rightarrow> ('a vm_scheme, nat) op" where
  "walk_node pt hi =
     kbind (get_word (u32 (pt + 4 * hi))) (\<lambda>c.
     if c = 0 then
       kbind pt_node_create (\<lambda>node.
       if node = 0 then kret 0
       else kbind (set_word (u32 (pt + 4 * hi)) node) (\<lambda>_. kret node))
     else kret c)"

definition zero_page :: "nat \<Rightarrow> ('a vm_scheme, unit) op" where
  "zero_page pa = kfor [0..<PAGE_SIZE] (\<lambda>i. set_byte (PADDR_TO_KVADDR (u32 (pa + i))) 0)"

text \<open>The page for the middle part of the address; 0 when there is no memory for it.\<close>

definition walk_leaf :: "nat \<Rightarrow> nat \<Rightarrow> ('a vm_scheme, nat) op" where
  "walk_leaf node mid =
     kbind (get_word (u32 (node + 4 * mid))) (\<lambda>p.
     if p = 0 then
       kbind (alloc_ppages 1) (\<lambda>new_page.
       if new_page = 0 then kret 0
       else
         kbind (zero_page new_page) (\<lambda>_.
         kbind (set_word (u32 (node + 4 * mid)) new_page) (\<lambda>_.
         get_word (u32 (node + 4 * mid)))))
     else kret p)"

definition walk_pt :: "nat \<Rightarrow> nat \<Rightarrow> ('a vm_scheme, nat) op" where
  "walk_pt pt va =
     kbind (walk_node pt (pt_hi va)) (\<lambda>node.
     if node = 0 then kret 0 else walk_leaf node (pt_mid va))"

section \<open>Address spaces\<close>

text \<open>The fields of \<open>struct addrspace\<close>, by their offset.\<close>

definition as_vbase1 :: nat where "as_vbase1 = 0"
definition as_npages1 :: nat where "as_npages1 = 4"
definition as_vbase2 :: nat where "as_vbase2 = 8"
definition as_npages2 :: nat where "as_npages2 = 12"
definition as_npages_s :: nat where "as_npages_s = 16"
definition as_pt :: nat where "as_pt = 20"
definition sizeof_addrspace :: nat where "sizeof_addrspace = 24"
definition STACKPAGES :: nat where "STACKPAGES = 12"
definition USERSTACK :: nat where "USERSTACK = 0x80000000"

definition get_field :: "nat \<Rightarrow> nat \<Rightarrow> ('a vm_scheme, nat) op" where
  "get_field as f = get_word (u32 (as + f))"

definition set_field :: "nat \<Rightarrow> nat \<Rightarrow> nat \<Rightarrow> ('a vm_scheme, unit) op" where
  "set_field as f x = set_word (u32 (as + f)) x"

definition as_create :: "('a kheap_scheme, nat) op" where
  "as_create =
     kbind (kmalloc sizeof_addrspace) (\<lambda>as.
     if as = 0 then kret 0
     else
       kbind (set_field as as_vbase1 0) (\<lambda>_.
       kbind (set_field as as_npages1 0) (\<lambda>_.
       kbind (set_field as as_vbase2 0) (\<lambda>_.
       kbind (set_field as as_npages2 0) (\<lambda>_.
       kbind (set_field as as_npages_s 0) (\<lambda>_.
       kbind pt_create (\<lambda>pt.
       if pt = 0 then kbind (kfree as) (\<lambda>_. kret 0)
       else kbind (set_field as as_pt pt) (\<lambda>_. kret as))))))))"

definition as_destroy :: "nat \<Rightarrow> ('a kheap_scheme, unit) op" where
  "as_destroy as =
     kbind (get_field as as_pt) (\<lambda>pt.
     kbind (pt_destroy pt) (\<lambda>_.
     kfree as))"

definition as_define_region :: "nat \<Rightarrow> nat \<Rightarrow> nat \<Rightarrow> ('a vm_scheme, unit) op" where
  "as_define_region as vaddr sz =
     (let sz = u32 (sz + vaddr mod PAGE_SIZE);
          vaddr = vaddr div PAGE_SIZE * PAGE_SIZE;
          sz = u32 (sz + PAGE_SIZE - 1) div PAGE_SIZE * PAGE_SIZE;
          npages = sz div PAGE_SIZE in
      kbind (get_field as as_npages1) (\<lambda>n1.
      if n1 = 0 then
        kbind (set_field as as_vbase1 vaddr) (\<lambda>_. set_field as as_npages1 npages)
      else
        kbind (get_field as as_npages2) (\<lambda>n2.
        if n2 = 0 then
          kbind (set_field as as_vbase2 vaddr) (\<lambda>_. set_field as as_npages2 npages)
        else kfail EUNIMP)))"

definition as_check_access :: "nat \<Rightarrow> nat \<Rightarrow> ('a vm_scheme, unit) op" where
  "as_check_access as access =
     kbind (get_field as as_vbase1) (\<lambda>vbase1.
     kbind (get_field as as_npages1) (\<lambda>n1.
     kbind (get_field as as_vbase2) (\<lambda>vbase2.
     kbind (get_field as as_npages2) (\<lambda>n2.
     kbind (get_field as as_npages_s) (\<lambda>ns.
     let vtop1 = u32 (vbase1 + n1 * PAGE_SIZE); vtop2 = u32 (vbase2 + n2 * PAGE_SIZE);
         stackbase = sub32 USERSTACK (u32 (ns * PAGE_SIZE)); stacktop = USERSTACK in
     if vbase1 \<le> access \<and> access < vtop1 then kret ()
     else if vbase2 \<le> access \<and> access < vtop2 then kret ()
     else if stackbase \<le> access \<and> access < stacktop then kret ()
     else kfail EFAULT)))))"

definition as_prepare_load :: "nat \<Rightarrow> ('a vm_scheme, unit) op" where "as_prepare_load as = kret ()"
definition as_complete_load :: "nat \<Rightarrow> ('a vm_scheme, unit) op" where "as_complete_load as = kret ()"

text \<open>The value is the initial stack pointer.\<close>

definition as_define_stack :: "nat \<Rightarrow> ('a vm_scheme, nat) op" where
  "as_define_stack as = kbind (set_field as as_npages_s STACKPAGES) (\<lambda>_. kret USERSTACK)"

text \<open>\<open>as_copy\<close> stores the new space through \<open>ret\<close> before it fails; \<open>ret\<close> is an address.\<close>

definition as_copy :: "nat \<Rightarrow> nat \<Rightarrow> ('a kheap_scheme, unit) op" where
  "as_copy old ret =
     kbind as_create (\<lambda>newas.
     if newas = 0 then kfail ENOMEM
     else kbind (set_word ret newas) (\<lambda>_. kfail EUNIMP))"

section \<open>The TLB and the fault handler\<close>

definition TLBLO_DIRTY :: nat where "TLBLO_DIRTY = 0x400"
definition TLBLO_VALID :: nat where "TLBLO_VALID = 0x200"
definition NUM_TLB :: nat where "NUM_TLB = 64"
definition TLBHI_INVALID :: "nat \<Rightarrow> nat" where "TLBHI_INVALID entryno = u32 ((0x80000 + entryno) * 4096)"
definition TLBLO_INVALID :: nat where "TLBLO_INVALID = 0"

text \<open>
  The entries (high and low word), the slots the processor picks for random writes, in the order it
  picks them, and \<open>curthread->t_vmspace\<close>.
\<close>

record mmu = kheap +
  tlb :: "(nat \<times> nat) list"
  tlb_pick :: "nat \<Rightarrow> nat"
  tlb_picked :: nat
  t_vmspace :: nat

definition TLB_Write :: "nat \<Rightarrow> nat \<Rightarrow> nat \<Rightarrow> ('a mmu_scheme, unit) op" where
  "TLB_Write ehi elo i = kmodify (\<lambda>s. s\<lparr>tlb := (tlb s)[i := (ehi, elo)]\<rparr>)"

definition TLB_Random :: "nat \<Rightarrow> nat \<Rightarrow> ('a mmu_scheme, unit) op" where
  "TLB_Random ehi elo =
     kbind (kget (\<lambda>s. tlb_pick s (tlb_picked s) mod NUM_TLB)) (\<lambda>i.
     kbind (kmodify (\<lambda>s. s\<lparr>tlb_picked := tlb_picked s + 1\<rparr>)) (\<lambda>_.
     TLB_Write ehi elo i))"

definition flush_tlb :: "('a mmu_scheme, unit) op" where
  "flush_tlb =
     kbind splhigh (\<lambda>spl.
     kbind (kfor [0..<NUM_TLB] (\<lambda>i. TLB_Write (TLBHI_INVALID i) TLBLO_INVALID i)) (\<lambda>_.
     kbind (splx spl) (\<lambda>_. kret ())))"

definition as_activate :: "nat \<Rightarrow> ('a mmu_scheme, unit) op" where
  "as_activate as = flush_tlb"

definition VM_FAULT_READ :: int where "VM_FAULT_READ = 0"
definition VM_FAULT_WRITE :: int where "VM_FAULT_WRITE = 1"
definition VM_FAULT_READONLY :: int where "VM_FAULT_READONLY = 2"

definition vm_fault :: "int \<Rightarrow> nat \<Rightarrow> ('a mmu_scheme, unit) op" where
  "vm_fault faulttype faultaddress =
     kbind splhigh (\<lambda>spl.
     let va = ROUND_DOWN faultaddress in
     if faulttype = VM_FAULT_READONLY then kpanic
     else if faulttype \<noteq> VM_FAULT_READ \<and> faulttype \<noteq> VM_FAULT_WRITE then
       kbind (splx spl) (\<lambda>_. kfail EINVAL)
     else
       kbind (kget t_vmspace) (\<lambda>as.
       if as = 0 then kbind (splx spl) (\<lambda>_. kfail EFAULT)
       else
         kbind (kattempt (as_check_access as va)) (\<lambda>r.
         case r of
           Inl _ \<Rightarrow> kbind (splx spl) (\<lambda>_. kfail EFAULT)
         | Inr _ \<Rightarrow>
             kbind (get_field as as_pt) (\<lambda>pt.
             kbind (walk_pt pt va) (\<lambda>paddr.
             if paddr = 0 then kbind (splx spl) (\<lambda>_. kfail ENOMEM)
             else
               kbind (TLB_Random va (paddr OR TLBLO_DIRTY OR TLBLO_VALID)) (\<lambda>_.
               kbind (splx spl) (\<lambda>_. kret ())))))))"

section \<open>Pages as blocks of the heap\<close>

text \<open>To the heap a page allocated by itself is a large block.\<close>

lemma page_block:
  assumes "heap_blocks s B" and "(a, 4096) \<in> B"
  obtains q where "q \<noteq> 0" "vm_regions s q = Some 1" "a = page_va s q"
    "MIPS_KSEG0 < a" "a + 4096 \<le> MIPS_KSEG0 + 532676608" "a mod 4096 = 0"
proof -
  obtain al F where rep: "heap_rep s al F" "B = live_blocks s al F" using assms(1) unfolding heap_blocks_def by blast
  have "(a, 4096) \<notin> small_blocks s al F"
  proof
    assume "(a, 4096) \<in> small_blocks s al F"
    then obtain p where "p \<in> set al" "pr_size s p = 4096" unfolding small_blocks_def by fastforce
    then show False using sizes_arith(2) [OF heap_pages(1) [OF rep(1)]] by fastforce
  qed
  then obtain q N where q: "a = page_va s q" "4096 = 4096 * N" "vm_regions s q = Some N" "q \<noteq> 0"
    using assms(2) rep(2) unfolding live_blocks_def large_blocks_def by auto
  have wf: "vm_wf s" by (rule heap_repD(1) [OF rep(1)])
  have q1: "vm_regions s q = Some 1" using q(2,3) by simp
  show ?thesis using that [OF q(4) q1 q(1)] page_va_bounds [OF wf q1] q(1) by simp
qed

lemma blocks_wf: "heap_blocks s B \<Longrightarrow> vm_wf s"
  unfolding heap_blocks_def using heap_repD(1) by blast

text \<open>Blocks that keep their contents.\<close>

definition same_in :: "(nat \<times> nat) set \<Rightarrow> 'a vm_scheme \<Rightarrow> 'a vm_scheme \<Rightarrow> bool" where
  "same_in B s t \<longleftrightarrow> (\<forall>(a, m) \<in> B. \<forall>x \<in> {a..<a + m}. kword t x = kword s x)"

lemma same_in_refl [simp]: "same_in B s s"
  by (simp add: same_in_def)

lemma same_in_trans: "same_in B s t \<Longrightarrow> same_in B t u \<Longrightarrow> same_in B s u"
  by (fastforce simp: same_in_def)

lemma same_in_mono: "same_in B s t \<Longrightarrow> A \<subseteq> B \<Longrightarrow> same_in A s t"
  by (auto simp: same_in_def)

lemma same_inD: "same_in B s t \<Longrightarrow> (a, m) \<in> B \<Longrightarrow> x \<in> {a..<a + m} \<Longrightarrow> kword t x = kword s x"
  by (auto simp: same_in_def)

definition page_got :: "'a kheap_scheme \<Rightarrow> (nat \<times> nat) set \<Rightarrow> nat \<Rightarrow> 'a kheap_scheme \<Rightarrow> bool" where
  "page_got s B a t \<longleftrightarrow> room 1 s \<and> (a, 4096) \<notin> B \<and> heap_blocks t (insert (a, 4096) B) \<and> same_in B s t \<and> curspl t = curspl s"

definition page_none :: "'a kheap_scheme \<Rightarrow> (nat \<times> nat) set \<Rightarrow> 'a kheap_scheme \<Rightarrow> bool" where
  "page_none s B t \<longleftrightarrow> \<not> room 1 s \<and> heap_blocks t B \<and> t = s\<lparr>avail_pages := avail_pages s - 1\<rparr>"

lemma alloc_page_got:
  assumes B: "heap_blocks s B" and a: "alloc_at 1 s j t"
  shows "page_got s B (page_va s j) t"
proof -
  obtain al F where rep: "heap_rep s al F" "B = live_blocks s al F" using B unfolding heap_blocks_def by blast
  have n: "block_new s al F (page_va s j) 4096 t" using large_fresh [OF rep(1) _ _ a] by simp
  have "room 1 s" using a unfolding alloc_at_def room_def by blast
  then show ?thesis using block_newD [OF n] n rep(2) unfolding page_got_def same_in_def block_new_def by blast
qed

lemma alloc_page_none:
  assumes B: "heap_blocks s B" and a: "alloc_none 1 s t"
  shows "page_none s B t"
proof -
  obtain al F where rep: "heap_rep s al F" "B = live_blocks s al F" using B unfolding heap_blocks_def by blast
  have t: "t = s\<lparr>avail_pages := avail_pages s - 1\<rparr>" "\<not> room 1 s" using a unfolding alloc_none_def room_def by auto
  have r: "vm_regions t = vm_regions s" by (simp add: t vm_regions_def)
  have pg: "page_va t = page_va s" by (simp add: t page_va_def fun_eq_iff)
  have "heap_rep t al F" by (rule rep_regions(1) [OF rep(1)]) (use heap_repD(1) [OF rep(1)] r in \<open>simp_all add: t(1)\<close>)
  moreover have "live_blocks t al F = B" unfolding rep(2) live_blocks_def small_blocks_def large_blocks_def r pg by (simp add: t)
  ultimately show ?thesis using t unfolding page_none_def heap_blocks_def by blast
qed

lemma kpage_alloc_wp:
  assumes B: "heap_blocks s B"
  shows "wp (alloc_kpages (int (N_PAGES (4 * PT_FANOUT)))) (\<lambda>r t. page_got s B r t \<or> r = MIPS_KSEG0 \<and> page_none s B t) (\<lambda>_ _. False) s"
proof -
  have n: "N_PAGES (4 * PT_FANOUT) = 1" by (simp add: N_PAGES_eq PT_FANOUT_def)
  have "wp (alloc_kpages (int 1)) (\<lambda>r t. page_got s B r t \<or> r = MIPS_KSEG0 \<and> page_none s B t) (\<lambda>_ _. False) s"
    by (rule wp_mono [OF alloc_kpages_wp [OF vm_wf_table [OF blocks_wf [OF B]]]])
      (use alloc_page_got [OF B] alloc_page_none [OF B] in auto)
  then show ?thesis by (simp only: n)
qed

lemma ppage_alloc_wp:
  assumes B: "heap_blocks s B" and spl: "0 < curspl s"
  shows "wp (alloc_ppages 1) (\<lambda>r t. r \<noteq> 0 \<and> page_got s B (r + MIPS_KSEG0) t \<or> r = 0 \<and> page_none s B t) (\<lambda>_ _. False) s"
proof -
  have wf: "vm_wf s" by (rule blocks_wf [OF B])
  have one: "(1 :: nat) < 2147483648" by simp
  have "wp (alloc_ppages (int 1)) (\<lambda>r t. r \<noteq> 0 \<and> page_got s B (r + MIPS_KSEG0) t \<or> r = 0 \<and> page_none s B t) (\<lambda>_ _. False) s"
  proof (rule wp_mono [OF alloc_ppages_wp [OF vm_wf_table [OF wf] _ one spl]], simp, elim disjE exE conjE)
    fix r t j
    assume r: "r = vm_lo s + 4096 * j" and a: "alloc_at 1 s j t"
    have "r + MIPS_KSEG0 = page_va s j" by (simp add: r page_va_def)
    moreover have "r \<noteq> 0" using vm_wfD(3) [OF wf] by (simp add: r)
    ultimately show "r \<noteq> 0 \<and> page_got s B (r + MIPS_KSEG0) t \<or> r = 0 \<and> page_none s B t"
      using alloc_page_got [OF B a] by simp
  qed (use alloc_page_none [OF B] in auto)
  then show ?thesis by simp
qed

lemma kpage_free_wp:
  assumes B: "heap_blocks s B" and a: "(a, 4096) \<in> B"
  shows "wp (free_kpages a) (\<lambda>_ t. heap_blocks t (B - {(a, 4096)}) \<and> same_in (B - {(a, 4096)}) s t \<and> curspl t = curspl s) (\<lambda>_ _. False) s"
proof -
  obtain al F where rep: "heap_rep s al F" "B = live_blocks s al F" using B unfolding heap_blocks_def by blast
  have l: "(a, 4096) \<in> large_blocks s al"
  proof (rule no_owner_large [OF rep(1) a [unfolded rep(2)]], rule ballI, rule notI)
    fix p
    assume p: "p \<in> set al" "a \<in> {pr_page s p..<pr_page s p + 4096}"
    show False using owner_small(2) [OF rep(1) a [unfolded rep(2)] p] sizes_arith(2) [OF heap_pages(1) [OF rep(1) p(1)]] by simp
  qed
  have g: "block_gone s al F a 4096 t \<Longrightarrow> heap_blocks t (B - {(a, 4096)}) \<and> same_in (B - {(a, 4096)}) s t \<and> curspl t = curspl s" for t
    using block_goneD [of s al F a 4096 t] unfolding rep(2) same_in_def block_gone_def by blast
  show ?thesis
    by (rule wp_mono [OF large_free(1) [OF rep(1) l, where R = "\<lambda>_ _. False"] g]) simp_all
qed

lemma ppage_free_wp:
  assumes B: "heap_blocks s B" and a: "(a, 4096) \<in> B"
  shows "wp (free_ppages (a - MIPS_KSEG0)) (\<lambda>_ t. heap_blocks t (B - {(a, 4096)}) \<and> same_in (B - {(a, 4096)}) s t \<and> curspl t = curspl s) (\<lambda>_ _. False) s"
proof -
  obtain q where "MIPS_KSEG0 < a" "a + 4096 \<le> MIPS_KSEG0 + 532676608" by (rule page_block [OF B a])
  then have "KVADDR_TO_PADDR a = a - MIPS_KSEG0" by (simp add: KVADDR_TO_PADDR_def MIPS_KSEG0_def sub32_id)
  then show ?thesis using kpage_free_wp [OF B a] by (simp add: free_kpages_def)
qed

section \<open>Filling pages\<close>

text \<open>A change of memory inside \<open>{a..<a + m}\<close> only.\<close>

definition writes_in :: "nat \<Rightarrow> nat \<Rightarrow> 'a vm_scheme \<Rightarrow> 'a vm_scheme \<Rightarrow> bool" where
  "writes_in a m s t \<longleftrightarrow> (\<exists>w. t = s\<lparr>kword := w\<rparr> \<and> (\<forall>x. x \<notin> {a..<a + m} \<longrightarrow> w x = kword s x))"

lemma writes_in_upd: "x \<in> {a..<a + m} \<Longrightarrow> writes_in a m s (s\<lparr>kword := (kword s)(x := v)\<rparr>)"
  unfolding writes_in_def by (intro exI [of _ "(kword s)(x := v)"]) auto

lemma writes_in_step:
  assumes "writes_in a m s t" and "x \<in> {a..<a + m}"
  shows "writes_in a m s (t\<lparr>kword := (kword t)(x := v)\<rparr>)"
proof -
  obtain w where "t = s\<lparr>kword := w\<rparr>" "\<forall>x. x \<notin> {a..<a + m} \<longrightarrow> w x = kword s x" using assms(1) unfolding writes_in_def by blast
  then show ?thesis unfolding writes_in_def using assms(2) by (intro exI [of _ "w(x := v)"]) auto
qed

lemma writes_inD: "writes_in a m s t \<Longrightarrow> x \<notin> {a..<a + m} \<Longrightarrow> kword t x = kword s x"
  by (auto simp: writes_in_def)

lemma writes_in_refl [simp]: "writes_in a m s s"
  unfolding writes_in_def by (intro exI [of _ "kword s"]) simp

lemma writes_in_curspl: "writes_in a m s t \<Longrightarrow> curspl t = curspl s"
  by (auto simp: writes_in_def)

lemma wp_get_word [wps]: "wp (get_word a) Q R = (\<lambda>s. Q (kword s a) s)"
  by (simp add: get_word_def wps)

lemma wp_put_get: "wp (set_word a v) (\<lambda>_. wp (get_word a) Q R) R' = (\<lambda>s. Q v (s\<lparr>kword := (kword s)(a := v)\<rparr>))"
  by (simp add: wps)

lemma clear_words_wp:
  assumes a: "a + 4 * n \<le> 4294967296"
  shows "wp (kfor [0..<n] (\<lambda>i. set_word (u32 (a + 4 * i)) 0)) (\<lambda>_ t. writes_in a (4 * n) s t \<and> (\<forall>i < n. kword t (a + 4 * i) = 0)) R s"
  using a
proof (induction n)
  case (Suc n)
  have u: "[0..<Suc n] = [0..<n] @ [n]" by simp
  have e: "u32 (a + 4 * n) = a + 4 * n" using Suc.prems by simp
  show ?case unfolding u wp_kfor_append
  proof (rule wp_mono [OF Suc.IH])
    fix x :: unit and t
    assume t: "writes_in a (4 * n) s t \<and> (\<forall>i < n. kword t (a + 4 * i) = 0)"
    have "writes_in a (4 * Suc n) s t" using t unfolding writes_in_def by auto
    then have "writes_in a (4 * Suc n) s (t\<lparr>kword := (kword t)(a + 4 * n := 0)\<rparr>)" by (rule writes_in_step) simp
    then show "wp (kfor [n] (\<lambda>i. set_word (u32 (a + 4 * i)) 0))
      (\<lambda>_ t. writes_in a (4 * Suc n) s t \<and> (\<forall>i < Suc n. kword t (a + 4 * i) = 0)) R t"
      using t by (simp add: wps e less_Suc_eq)
  qed (use Suc.prems in simp_all)
qed (simp add: wps)

lemma kfor_cong: "(\<And>i. i \<in> set is \<Longrightarrow> f i = g i) \<Longrightarrow> kfor is f = kfor is g"
  by (induction "is") auto

text \<open>Clearing a word byte by byte, from the high end.\<close>

lemma clear_byte: "u < 256 * k \<Longrightarrow> u - u div k mod 256 * k + 0 * k = u mod k" for u k :: nat
proof -
  assume "u < 256 * k"
  then have "u div k < 256" by (simp add: less_mult_imp_div_less mult.commute)
  then show ?thesis by (simp add: minus_div_mult_eq_mod)
qed

lemma zero_bytes_wp:
  assumes va: "va mod 4 = 0" and n: "n \<le> 4096"
  shows "wp (kfor [0..<n] (\<lambda>i. set_byte (va + i) 0))
    (\<lambda>_ t. writes_in va 4096 s t \<and> (\<forall>k < 1024. kword t (va + 4 * k) =
        (if 4 * k < n then u32 (kword s (va + 4 * k)) mod 256 ^ (4 - min 4 (n - 4 * k)) else kword s (va + 4 * k)))) R s"
  using n
proof (induction n)
  case (Suc n)
  obtain c where c: "va = 4 * c" using va by (metis mod_0_imp_dvd dvdE)
  let ?k = "n div 4" and ?r = "n mod 4"
  have kr: "?k < 1024" "n = 4 * ?k + ?r" "?r < 4" using Suc.prems by auto
  have w: "(va + n) div 4 * 4 = va + 4 * ?k" "(va + n) mod 4 = ?r"
  proof -
    have "va + n = 4 * (c + ?k) + ?r" using c kr(2) by simp
    then have "(va + n) div 4 = c + ?k" "(va + n) mod 4 = ?r" using kr(3) by simp_all
    then show "(va + n) div 4 * 4 = va + 4 * ?k" "(va + n) mod 4 = ?r" using c by simp_all
  qed
  have u: "[0..<Suc n] = [0..<n] @ [n]" by simp
  show ?case unfolding u wp_kfor_append
  proof (rule wp_mono [OF Suc.IH])
    fix x :: unit and t
    let ?o = "u32 (kword s (va + 4 * ?k))"
    assume t: "writes_in va 4096 s t \<and> (\<forall>k < 1024. kword t (va + 4 * k) =
        (if 4 * k < n then u32 (kword s (va + 4 * k)) mod 256 ^ (4 - min 4 (n - 4 * k)) else kword s (va + 4 * k)))"
    have old: "u32 (kword t (va + 4 * ?k)) = ?o mod 256 ^ (4 - ?r)"
    proof (cases "?r = 0")
      case True
      then have "\<not> 4 * ?k < n" using kr(2) by linarith
      then have "kword t (va + 4 * ?k) = kword s (va + 4 * ?k)" using t kr(1) by simp
      then show ?thesis using True by (simp add: u32_def)
    next
      case False
      have "4 * ?k < n" "min 4 (n - 4 * ?k) = ?r" using False kr(2,3) by linarith+
      then have "kword t (va + 4 * ?k) = ?o mod 256 ^ (4 - ?r)" using t kr(1) by simp
      moreover have "?o mod 256 ^ (4 - ?r) < 4294967296" by (rule le_less_trans [OF mod_less_eq_dividend]) (simp add: u32_def)
      ultimately show ?thesis by (simp only: u32_id)
    qed
    have p: "(256 :: nat) ^ (4 - ?r) = 256 * 256 ^ (3 - ?r)" using kr(3) by (simp add: Suc_diff_le flip: power_Suc)
    have new: "u32 (kword t (va + 4 * ?k)) - u32 (kword t (va + 4 * ?k)) div 256 ^ (3 - ?r) mod 256 * 256 ^ (3 - ?r) + 0 * 256 ^ (3 - ?r)
        = ?o mod 256 ^ (3 - ?r)"
    proof -
      have lt: "u32 (kword t (va + 4 * ?k)) < 256 * 256 ^ (3 - ?r)" unfolding old p by simp
      have "u32 (kword t (va + 4 * ?k)) mod 256 ^ (3 - ?r) = ?o mod 256 ^ (3 - ?r)" unfolding old p by (rule mod_mod_cancel) simp
      with clear_byte [OF lt] show ?thesis by (rule trans)
    qed
    let ?t = "t\<lparr>kword := (kword t)(va + 4 * ?k := ?o mod 256 ^ (3 - ?r))\<rparr>"
    have "writes_in va 4096 s ?t" by (rule writes_in_step) (use t kr(1) in auto)
    moreover have "kword ?t (va + 4 * k) = (if 4 * k < Suc n then u32 (kword s (va + 4 * k)) mod 256 ^ (4 - min 4 (Suc n - 4 * k)) else kword s (va + 4 * k))"
      if k: "k < 1024" for k
    proof (cases "k = ?k")
      case True
      have "4 * k < Suc n" "4 - min 4 (Suc n - 4 * k) = 3 - ?r" using True kr(2,3) by linarith+
      then show ?thesis using True by simp
    next
      case False
      consider "k < ?k" | "?k < k" using False by linarith
      then have "(4 * k < Suc n \<longleftrightarrow> 4 * k < n) \<and> (4 * k < n \<longrightarrow> 4 + 4 * k \<le> n)"
      proof cases
        case 1
        then have "4 * k + 4 \<le> 4 * ?k" by simp
        then show ?thesis using kr(2) by linarith
      next
        case 2
        then have "4 * ?k + 4 \<le> 4 * k" by simp
        then show ?thesis using kr(2,3) by linarith
      qed
      then have "4 * k < Suc n \<longleftrightarrow> 4 * k < n" "4 * k < n \<longrightarrow> min 4 (Suc n - 4 * k) = min 4 (n - 4 * k)" by auto
      then show ?thesis using False t k by simp
    qed
    ultimately show "wp (kfor [n] (\<lambda>i. set_byte (va + i) 0))
      (\<lambda>_ t. writes_in va 4096 s t \<and> (\<forall>k < 1024. kword t (va + 4 * k) =
        (if 4 * k < Suc n then u32 (kword s (va + 4 * k)) mod 256 ^ (4 - min 4 (Suc n - 4 * k)) else kword s (va + 4 * k)))) R t"
      unfolding kfor.simps set_byte_def w Let_def wp_kbind wp_kget wp_set_word new wp_kret by blast
  qed (use Suc.prems in simp_all)
qed (simp add: wps)

lemma zero_page_wp:
  fixes s :: "'a vm_scheme"
  assumes a: "MIPS_KSEG0 < a" "a + 4096 \<le> MIPS_KSEG0 + 532676608" "a mod 4096 = 0"
  shows "wp (zero_page (a - MIPS_KSEG0)) (\<lambda>_ t. writes_in a 4096 s t \<and> (\<forall>k < 1024. kword t (a + 4 * k) = 0)) R s"
proof -
  have e: "PADDR_TO_KVADDR (u32 (a - MIPS_KSEG0 + i)) = a + i" if "i < 4096" for i
    using that a by (simp add: PADDR_TO_KVADDR_def MIPS_KSEG0_def)
  have "a mod 4 = 0"
  proof -
    obtain c where "a = 4096 * c" using a(3) by (metis mod_0_imp_dvd dvdE)
    then have "a = 4 * (1024 * c)" by simp
    then show ?thesis by (metis mod_mult_self1_is_0)
  qed
  note z = zero_bytes_wp [OF this order_refl, of s R]
  have "(kfor [0..<4096] (\<lambda>i. set_byte (PADDR_TO_KVADDR (u32 (a - MIPS_KSEG0 + i))) 0) :: ('a vm_scheme, unit) op)
      = kfor [0..<4096] (\<lambda>i. set_byte (a + i) 0)"
    by (rule kfor_cong) (simp add: e)
  moreover have "4 - min 4 (4096 - 4 * k) = 0" if "k < 1024" for k :: nat using that by simp
  ultimately have "wp (kfor [0..<4096] (\<lambda>i. set_byte (PADDR_TO_KVADDR (u32 (a - MIPS_KSEG0 + i))) 0))
    (\<lambda>_ t. writes_in a 4096 s t \<and> (\<forall>k < 1024. kword t (a + 4 * k) = 0)) R s"
    by (simp only:) (rule wp_mono [OF z], simp_all)
  then show ?thesis unfolding zero_page_def PAGE_SIZE_def .
qed

section \<open>What a page table means\<close>

text \<open>
  \<open>H\<close> gives the node for each high part, \<open>P\<close> the page for each high and middle part, both as kernel
  addresses; the table owns the pages they lie in.
\<close>

type_synonym pt_nodes = "nat \<Rightarrow> nat option"
type_synonym pt_pages = "nat \<Rightarrow> nat \<Rightarrow> nat option"

definition pt_mem :: "'a vm_scheme \<Rightarrow> nat \<Rightarrow> pt_nodes \<Rightarrow> pt_pages \<Rightarrow> bool" where
  "pt_mem s pt H P \<longleftrightarrow>
     (\<forall>i < 1024. kword s (pt + 4 * i) = (case H i of None \<Rightarrow> 0 | Some n \<Rightarrow> n))
     \<and> (\<forall>i n. H i = Some n \<longrightarrow> i < 1024 \<and> (\<forall>j < 1024. kword s (n + 4 * j) = (case P i j of None \<Rightarrow> 0 | Some a \<Rightarrow> a - MIPS_KSEG0)))
     \<and> (\<forall>i j a. P i j = Some a \<longrightarrow> j < 1024 \<and> i \<in> dom H)"

definition pt_tables :: "nat \<Rightarrow> pt_nodes \<Rightarrow> nat set" where
  "pt_tables pt H = insert pt (ran H)"

definition pt_user :: "pt_pages \<Rightarrow> nat set" where
  "pt_user P = {a. \<exists>i j. P i j = Some a}"

definition pt_blocks :: "nat \<Rightarrow> pt_nodes \<Rightarrow> pt_pages \<Rightarrow> (nat \<times> nat) set" where
  "pt_blocks pt H P = (\<lambda>a. (a, 4096)) ` (pt_tables pt H \<union> pt_user P)"

definition pt_distinct :: "nat \<Rightarrow> pt_nodes \<Rightarrow> pt_pages \<Rightarrow> bool" where
  "pt_distinct pt H P \<longleftrightarrow> pt \<notin> ran H \<and> pt_tables pt H \<inter> pt_user P = {}
     \<and> (\<forall>i i' n. H i = Some n \<longrightarrow> H i' = Some n \<longrightarrow> i = i')
     \<and> (\<forall>i j i' j' a. P i j = Some a \<longrightarrow> P i' j' = Some a \<longrightarrow> i = i' \<and> j = j')"

definition pt_own :: "'a kheap_scheme \<Rightarrow> (nat \<times> nat) set \<Rightarrow> nat \<Rightarrow> pt_nodes \<Rightarrow> pt_pages \<Rightarrow> bool" where
  "pt_own s B pt H P \<longleftrightarrow> heap_blocks s B \<and> pt_mem s pt H P \<and> pt_blocks pt H P \<subseteq> B \<and> pt_distinct pt H P"

lemma pt_ownD:
  assumes "pt_own s B pt H P"
  shows "heap_blocks s B" "pt_mem s pt H P" "(pt, 4096) \<in> B" "H i = Some n \<Longrightarrow> (n, 4096) \<in> B" "P i j = Some a \<Longrightarrow> (a, 4096) \<in> B"
    "pt_distinct pt H P" "H i = Some n \<Longrightarrow> i < 1024" "P i j = Some a \<Longrightarrow> j < 1024 \<and> (\<exists>n. H i = Some n)"
proof -
  note o = assms [unfolded pt_own_def]
  show "heap_blocks s B" "pt_mem s pt H P" "pt_distinct pt H P" using o by simp_all
  have sub: "(b, 4096) \<in> B" if "b \<in> pt_tables pt H \<union> pt_user P" for b using o that unfolding pt_blocks_def by blast
  show "(pt, 4096) \<in> B" by (rule sub) (simp add: pt_tables_def)
  show "(n, 4096) \<in> B" if "H i = Some n" by (rule sub) (use that in \<open>auto simp: pt_tables_def ran_def\<close>)
  show "(a, 4096) \<in> B" if "P i j = Some a" by (rule sub) (use that in \<open>auto simp: pt_user_def\<close>)
  show "i < 1024" if "H i = Some n" using o that unfolding pt_mem_def by blast
  show "j < 1024 \<and> (\<exists>n. H i = Some n)" if "P i j = Some a" using o that unfolding pt_mem_def by blast
qed

lemma pt_memD:
  assumes "pt_mem s pt H P"
  shows "i < 1024 \<Longrightarrow> kword s (pt + 4 * i) = (case H i of None \<Rightarrow> 0 | Some n \<Rightarrow> n)"
    "H i = Some n \<Longrightarrow> j < 1024 \<Longrightarrow> kword s (n + 4 * j) = (case P i j of None \<Rightarrow> 0 | Some a \<Rightarrow> a - MIPS_KSEG0)"
    "H i = None \<Longrightarrow> P i j = None"
  using assms by (auto simp: pt_mem_def) (metis domIff not_Some_eq)

lemma pt_mem_cong:
  assumes m: "pt_mem s pt H P" and w: "\<And>a x. a \<in> pt_tables pt H \<Longrightarrow> x \<in> {a..<a + 4096} \<Longrightarrow> kword t x = kword s x"
  shows "pt_mem t pt H P"
proof -
  have "kword t (pt + 4 * i) = kword s (pt + 4 * i)" if "i < 1024" for i
    by (rule w [of pt]) (use that in \<open>simp_all add: pt_tables_def\<close>)
  moreover have "kword t (n + 4 * j) = kword s (n + 4 * j)" if "H i = Some n" "j < 1024" for i n j
    by (rule w [of n]) (use that in \<open>auto simp: pt_tables_def ran_def\<close>)
  ultimately show ?thesis using m unfolding pt_mem_def by simp
qed

lemma pt_own_same:
  assumes own: "pt_own s B pt H P" and B: "heap_blocks t B'" "pt_blocks pt H P \<subseteq> B'" and w: "same_in (pt_blocks pt H P) s t"
  shows "pt_own t B' pt H P"
proof -
  have "pt_mem t pt H P"
  proof (rule pt_mem_cong [OF pt_ownD(2) [OF own]])
    fix a x
    assume "a \<in> pt_tables pt H" "x \<in> {a..<a + 4096}"
    then show "kword t x = kword s x" by (intro same_inD [OF w, of a 4096]) (auto simp: pt_blocks_def)
  qed
  then show ?thesis using own B unfolding pt_own_def by simp
qed

text \<open>Pages of the table are blocks of the heap, and do not meet.\<close>

lemma frames_apart:
  assumes "heap_blocks s B" and "(a, 4096) \<in> B" and "(b, 4096) \<in> B" and "a \<noteq> b" and "x \<in> {a..<a + 4096}"
  shows "x \<notin> {b..<b + 4096}"
proof -
  have "{a..<a + 4096} \<inter> {b..<b + 4096} = {}" by (rule kh.apart [OF assms(1-3)]) (use assms(4) in simp)
  then show ?thesis using assms(5) by blast
qed

lemma pt_add_node:
  assumes own: "pt_own s B pt H P" and i: "i < 1024" "H i = None" and n: "(n, 4096) \<in> B" "n \<notin> pt_tables pt H \<union> pt_user P"
    and z: "\<And>j. j < 1024 \<Longrightarrow> kword s (n + 4 * j) = 0"
  shows "pt_own (s\<lparr>kword := (kword s)(pt + 4 * i := n)\<rparr>) B pt (H(i \<mapsto> n)) P" (is "pt_own ?t _ _ ?H _")
proof -
  note d = pt_ownD [OF own]
  have hb: "heap_blocks ?t B" by (rule blocks_write [OF d(1,3)]) (use i(1) in auto)
  have ne: "H k = Some m \<Longrightarrow> m \<noteq> pt" for k m using d(6) by (auto simp: pt_distinct_def ran_def)
  have out: "kword ?t x = kword s x" if "(a, 4096) \<in> B" "a \<noteq> pt" "x \<in> {a..<a + 4096}" for a x
  proof -
    have "x \<notin> {pt..<pt + 4096}" by (rule frames_apart [OF d(1) that(1) d(3) that(2,3)])
    then show ?thesis using i(1) by auto
  qed
  have node: "kword ?t (m + 4 * j) = kword s (m + 4 * j)" if "(m, 4096) \<in> B" "m \<noteq> pt" "j < 1024" for m j
    by (rule out [OF that(1,2)]) (use that(3) in simp)
  have "pt_mem ?t pt ?H P" unfolding pt_mem_def
  proof (intro conjI allI impI)
    show "kword ?t (pt + 4 * k) = (case ?H k of None \<Rightarrow> 0 | Some n \<Rightarrow> n)" if "k < 1024" for k
      using pt_memD(1) [OF d(2) that] by simp
  next
    fix k m
    assume k: "?H k = Some m"
    show "k < 1024" using k i(1) d(7) by (cases "k = i") auto
    fix j :: nat
    assume j: "j < 1024"
    show "kword ?t (m + 4 * j) = (case P k j of None \<Rightarrow> 0 | Some a \<Rightarrow> a - MIPS_KSEG0)"
    proof (cases "k = i")
      case True
      then have "m = n" "P k j = None" using k pt_memD(3) [OF d(2) i(2)] by simp_all
      moreover have "n \<noteq> pt" using n(2) by (auto simp: pt_tables_def)
      ultimately show ?thesis using node [OF n(1) _ j] z [OF j] by simp
    next
      case False
      then have m: "H k = Some m" using k by simp
      show ?thesis using node [OF d(4) [OF m] ne [OF m] j] pt_memD(2) [OF d(2) m j] by simp
    qed
  next
    fix k j a
    assume "P k j = Some a"
    then show "j < 1024" "k \<in> dom ?H" using d(8) by auto
  qed
  moreover have "pt_blocks pt ?H P \<subseteq> B" using own n(1) i(2) unfolding pt_own_def pt_blocks_def pt_tables_def by auto
  moreover have "pt_distinct pt ?H P"
  proof -
    have r: "ran ?H = insert n (ran H)" using i(2) by simp
    have "H k = Some n \<Longrightarrow> False" for k using n(2) by (auto simp: pt_tables_def ran_def)
    then show ?thesis using d(6) n(2) unfolding pt_distinct_def pt_tables_def r by auto
  qed
  ultimately show ?thesis using hb unfolding pt_own_def by blast
qed

lemma pt_user_page: "P i j = None \<Longrightarrow> pt_user (P(i := (P i)(j \<mapsto> a))) = insert a (pt_user P)"
proof (intro equalityI subsetI)
  fix b
  assume "b \<in> pt_user (P(i := (P i)(j \<mapsto> a)))"
  then show "b \<in> insert a (pt_user P)" by (auto simp: pt_user_def split: if_splits)
next
  fix b
  assume n: "P i j = None" and "b \<in> insert a (pt_user P)"
  then consider "b = a" | k l where "P k l = Some b" by (auto simp: pt_user_def)
  then show "b \<in> pt_user (P(i := (P i)(j \<mapsto> a)))"
  proof cases
    case 1
    then show ?thesis unfolding pt_user_def by (intro CollectI exI [of _ i] exI [of _ j]) simp
  next
    case 2
    then show ?thesis using n unfolding pt_user_def by (intro CollectI exI [of _ k] exI [of _ l]) auto
  qed
qed

lemma pt_add_page:
  assumes own: "pt_own s B pt H P" and i: "H i = Some n" and j: "j < 1024" "P i j = None"
    and a: "(a, 4096) \<in> B" "a \<notin> pt_tables pt H \<union> pt_user P"
  shows "pt_own (s\<lparr>kword := (kword s)(n + 4 * j := a - MIPS_KSEG0)\<rparr>) B pt H (P(i := (P i)(j \<mapsto> a)))" (is "pt_own ?t _ _ _ ?P")
proof -
  note d = pt_ownD [OF own]
  have nb: "(n, 4096) \<in> B" by (rule d(4) [OF i])
  have hb: "heap_blocks ?t B" by (rule blocks_write [OF d(1) nb]) (use j(1) in auto)
  have out: "kword ?t x = kword s x" if "(b, 4096) \<in> B" "b \<noteq> n" "x \<in> {b..<b + 4096}" for b x
  proof -
    have "x \<notin> {n..<n + 4096}" by (rule frames_apart [OF d(1) that(1) nb that(2,3)])
    then show ?thesis using j(1) by auto
  qed
  have pn: "pt \<noteq> n" using d(6) i by (auto simp: pt_distinct_def ran_def)
  have inj: "H k = Some n \<Longrightarrow> k = i" for k using d(6) i unfolding pt_distinct_def by blast
  have "pt_mem ?t pt H ?P" unfolding pt_mem_def
  proof (intro conjI allI impI)
    show "kword ?t (pt + 4 * k) = (case H k of None \<Rightarrow> 0 | Some n \<Rightarrow> n)" if "k < 1024" for k
      using pt_memD(1) [OF d(2) that] out [OF d(3) pn, of "pt + 4 * k"] that by simp
  next
    fix k m
    assume k: "H k = Some m"
    show "k < 1024" by (rule d(7) [OF k])
    fix l :: nat
    assume l: "l < 1024"
    show "kword ?t (m + 4 * l) = (case ?P k l of None \<Rightarrow> 0 | Some a \<Rightarrow> a - MIPS_KSEG0)"
    proof (cases "k = i")
      case True
      then show ?thesis using k i pt_memD(2) [OF d(2) k l] by simp
    next
      case False
      then have "m \<noteq> n" using inj k by auto
      then show ?thesis using False out [OF d(4) [OF k], of "m + 4 * l"] pt_memD(2) [OF d(2) k l] l by simp
    qed
  next
    fix k l b
    assume "?P k l = Some b"
    then show "l < 1024" "k \<in> dom H" using d(8) j(1) i by (auto split: if_splits)
  qed
  moreover have "pt_user ?P = insert a (pt_user P)" by (rule pt_user_page [of P i j]) (rule j(2))
  then have "pt_blocks pt H ?P \<subseteq> B" "pt_tables pt H \<inter> pt_user ?P = {}"
    using own a unfolding pt_own_def pt_blocks_def pt_distinct_def by auto
  moreover have "k = k' \<and> l = l'" if "?P k l = Some b" "?P k' l' = Some b" for k l k' l' b
  proof -
    have na: "P k l \<noteq> Some a" for k l using a(2) by (auto simp: pt_user_def)
    have "P k l = Some b \<Longrightarrow> P k' l' = Some b \<Longrightarrow> k = k' \<and> l = l'" for k l k' l' b using d(6) unfolding pt_distinct_def by blast
    then show ?thesis using that na by (auto split: if_splits)
  qed
  ultimately show ?thesis using hb d(6) unfolding pt_own_def pt_distinct_def by blast
qed

section \<open>Walking the table\<close>

lemma writes_in_block:
  assumes B: "heap_blocks s B" and a: "(a, m) \<in> B" and w: "writes_in a m s t"
  shows "heap_blocks t B" "same_in (B - {(a, m)}) s t" "curspl t = curspl s"
proof -
  obtain v where v: "t = s\<lparr>kword := v\<rparr>" "\<forall>x. x \<notin> {a..<a + m} \<longrightarrow> v x = kword s x" using w unfolding writes_in_def by (elim exE conjE) (rule that)
  show "heap_blocks t B" unfolding v(1) by (rule blocks_write [OF B a]) (use v(2) in simp)
  have "kword t x = kword s x" if "(b, k) \<in> B - {(a, m)}" "x \<in> {b..<b + k}" for b k x
  proof -
    have "{b..<b + k} \<inter> {a..<a + m} = {}" by (rule kh.apart [OF B _ a]) (use that(1) in auto)
    then show ?thesis using that(2) v by auto
  qed
  then show "same_in (B - {(a, m)}) s t" unfolding same_in_def by blast
  show "curspl t = curspl s" by (simp add: v(1))
qed

lemma page_bound:
  assumes "heap_blocks s B" and "(a, 4096) \<in> B"
  shows "a \<noteq> 0" "MIPS_KSEG0 < a" "a + 4096 \<le> MIPS_KSEG0 + 532676608" "a mod 4096 = 0" "x < 4096 \<Longrightarrow> u32 (a + x) = a + x"
proof -
  show b: "MIPS_KSEG0 < a" "a + 4096 \<le> MIPS_KSEG0 + 532676608" "a mod 4096 = 0" by (rule page_block [OF assms]; assumption)+
  show "a \<noteq> 0" using b(1) by (simp add: MIPS_KSEG0_def)
  show "x < 4096 \<Longrightarrow> u32 (a + x) = a + x" using b(2) by (simp add: MIPS_KSEG0_def)
qed

text \<open>A fresh page of zero words: what \<open>pt_create\<close> and \<open>pt_node_create\<close> return.\<close>

definition zero_block :: "'a kheap_scheme \<Rightarrow> (nat \<times> nat) set \<Rightarrow> nat \<Rightarrow> 'a kheap_scheme \<Rightarrow> bool" where
  "zero_block s B a t \<longleftrightarrow> (a, 4096) \<notin> B \<and> heap_blocks t (insert (a, 4096) B) \<and> same_in B s t \<and> curspl t = curspl s
     \<and> (\<forall>j < 1024. kword t (a + 4 * j) = 0)"

lemma zero_blockI:
  assumes got: "page_got s B a t" and w: "writes_in a 4096 t u" and z: "\<forall>j < 1024. kword u (a + 4 * j) = 0"
  shows "zero_block s B a u"
proof -
  have t: "(a, 4096) \<notin> B" "heap_blocks t (insert (a, 4096) B)" "same_in B s t" "curspl t = curspl s"
    using got by (simp_all add: page_got_def)
  note u = writes_in_block [OF t(2) insertI1 w]
  have "same_in B t u" by (rule same_in_mono [OF u(2)]) (use t(1) in auto)
  then have "same_in B s u" by (rule same_in_trans [OF t(3)])
  then show ?thesis unfolding zero_block_def using t u z by simp
qed

lemma pt_node_create_wp:
  assumes B: "heap_blocks s B" and rm: "room 1 s"
  shows "wp pt_node_create (\<lambda>r t. r \<noteq> 0 \<and> zero_block s B r t) (\<lambda>_ _. False) s"
  unfolding pt_node_create_def wp_kbind
proof (rule wp_mono [OF kpage_alloc_wp [OF B]])
  fix r t
  assume "page_got s B r t \<or> r = MIPS_KSEG0 \<and> page_none s B t"
  then have got: "page_got s B r t" using rm by (simp add: page_none_def)
  then have hb: "heap_blocks t (insert (r, 4096) B)" by (simp add: page_got_def)
  note b = page_bound [OF hb insertI1]
  have f: "r + 4 * PT_FANOUT \<le> 4294967296" using b(3) by (simp add: PT_FANOUT_def MIPS_KSEG0_def)
  have "wp (kfor [0..<PT_FANOUT] (\<lambda>i. set_word (u32 (r + 4 * i)) 0)) (\<lambda>_ u. zero_block s B r u) (\<lambda>_ _. False) t"
    by (rule wp_mono [OF clear_words_wp [OF f]]) (use zero_blockI [OF got] in \<open>simp_all add: PT_FANOUT_def\<close>)
  then show "wp (if r = 0 then kret 0 else kbind (kfor [0..<PT_FANOUT] (\<lambda>i. set_word (u32 (r + 4 * i)) 0)) (\<lambda>_. kret r))
    (\<lambda>r t. r \<noteq> 0 \<and> zero_block s B r t) (\<lambda>_ _. False) t" using b(1) by (simp add: wps)
qed simp

text \<open>
  Without a free page \<open>pt_node_create\<close> does not notice: it gets the address of physical page 0, clears the
  exception handlers that lie there, and returns this page as the new node.
\<close>

lemma pt_node_create_nomem:
  assumes wf: "vm_wf s" and rm: "\<not> room 1 s"
  shows "wp pt_node_create (\<lambda>r t. r = MIPS_KSEG0 \<and> (\<forall>k < 1024. kword t (MIPS_KSEG0 + 4 * k) = 0)) (\<lambda>_ _. False) s"
proof -
  have n: "int (N_PAGES (4 * PT_FANOUT)) = int 1" by (simp add: N_PAGES_def ROUND_UP_def ROUND_DOWN_def PT_FANOUT_def PAGE_SIZE_def)
  have a: "wp (alloc_kpages (int 1)) (\<lambda>r t. r = MIPS_KSEG0) (\<lambda>_ _. False) s"
    by (rule wp_mono [OF alloc_kpages_wp [OF vm_wf_table [OF wf]]]) (use rm in \<open>auto simp: alloc_at_def room_def\<close>)
  have f: "MIPS_KSEG0 + 4 * PT_FANOUT \<le> 4294967296" by (simp add: MIPS_KSEG0_def PT_FANOUT_def)
  have "wp (kfor [0..<PT_FANOUT] (\<lambda>i. set_word (u32 (MIPS_KSEG0 + 4 * i)) 0))
      (\<lambda>_ t. \<forall>k < 1024. kword t (MIPS_KSEG0 + 4 * k) = 0) (\<lambda>_ _. False) t" for t :: "'a vm_scheme"
    by (rule wp_mono [OF clear_words_wp [OF f]]) (simp_all add: PT_FANOUT_def)
  then have "wp (if r = 0 then kret 0 else kbind (kfor [0..<PT_FANOUT] (\<lambda>i. set_word (u32 (r + 4 * i)) 0)) (\<lambda>_. kret r))
      (\<lambda>r t. r = MIPS_KSEG0 \<and> (\<forall>k < 1024. kword t (MIPS_KSEG0 + 4 * k) = 0)) (\<lambda>_ _. False) t"
    if "r = MIPS_KSEG0" for r and t :: "'a vm_scheme"
    using that by (simp add: wps MIPS_KSEG0_def)
  then show ?thesis unfolding pt_node_create_def wp_kbind n by (intro wp_mono [OF a]) auto
qed

lemma pt_create_wp: "heap_blocks s B \<Longrightarrow> room 1 s \<Longrightarrow> wp pt_create (\<lambda>r t. r \<noteq> 0 \<and> zero_block s B r t) (\<lambda>_ _. False) s"
  using pt_node_create_wp [of s B] by (simp add: pt_create_def pt_node_create_def)

lemma pt_fresh: "zero_block s B a t \<Longrightarrow> pt_own t (insert (a, 4096) B) a Map.empty (\<lambda>_. Map.empty)"
  by (simp add: pt_own_def pt_mem_def pt_blocks_def pt_tables_def pt_user_def pt_distinct_def zero_block_def)

text \<open>Looking up the node of a high part, which is created when there is none.\<close>

lemma walk_node_wp:
  assumes own: "pt_own s B pt H P" and i: "i < 1024" and rm: "H i = None \<longrightarrow> room 1 s"
  shows "wp (walk_node pt i) (\<lambda>r t. r \<noteq> 0 \<and> curspl t = curspl s \<and> (case H i of Some n \<Rightarrow> r = n \<and> t = s
      | None \<Rightarrow> (r, 4096) \<notin> B \<and> pt_own t (insert (r, 4096) B) pt (H(i \<mapsto> r)) P \<and> same_in (B - {(pt, 4096)}) s t)) (\<lambda>_ _. False) s"
    (is "wp _ ?Q ?R s")
proof -
  note d = pt_ownD [OF own] and b = page_bound [OF pt_ownD(1,3) [OF own]]
  have ad: "u32 (pt + 4 * i) = pt + 4 * i" by (rule b(5)) (use i in simp)
  have w: "kword s (pt + 4 * i) = (case H i of None \<Rightarrow> 0 | Some n \<Rightarrow> n)" by (rule pt_memD(1) [OF d(2) i])
  show ?thesis
  proof (cases "H i")
    case (Some n)
    then have "n \<noteq> 0" using page_bound(1) [OF d(1) d(4) [OF Some]] by simp
    then show ?thesis using Some w by (simp add: walk_node_def wps ad)
  next
    case None
    have "wp pt_node_create (\<lambda>r t. ?Q r (t\<lparr>kword := (kword t)(pt + 4 * i := r)\<rparr>) \<and> r \<noteq> 0) ?R s"
    proof (rule wp_mono [OF pt_node_create_wp [OF d(1) rm [rule_format, OF None]]], elim conjE)
      fix r t
      assume r: "r \<noteq> 0" and zb: "zero_block s B r t"
      have t: "(r, 4096) \<notin> B" "heap_blocks t (insert (r, 4096) B)" "same_in B s t" "curspl t = curspl s"
        "\<And>j. j < 1024 \<Longrightarrow> kword t (r + 4 * j) = 0" using zb by (simp_all add: zero_block_def)
      have sub: "pt_blocks pt H P \<subseteq> B" using own by (simp add: pt_own_def)
      have own': "pt_own t (insert (r, 4096) B) pt H P"
        by (rule pt_own_same [OF own t(2)]) (use sub same_in_mono [OF t(3) sub] in auto)
      have nf: "r \<notin> pt_tables pt H \<union> pt_user P" using sub t(1) by (auto simp: pt_blocks_def)
      let ?u = "t\<lparr>kword := (kword t)(pt + 4 * i := r)\<rparr>"
      have pu: "pt_own ?u (insert (r, 4096) B) pt (H(i \<mapsto> r)) P" by (rule pt_add_node [OF own' i None insertI1 nf t(5)])
      have "writes_in pt 4096 t ?u" by (rule writes_in_upd) (use i in simp)
      then have "same_in (insert (r, 4096) B - {(pt, 4096)}) t ?u" by (rule writes_in_block(2) [OF t(2) insertI2 [OF d(3)]])
      then have "same_in (B - {(pt, 4096)}) t ?u" by (rule same_in_mono) auto
      moreover have "same_in (B - {(pt, 4096)}) s t" by (rule same_in_mono [OF t(3)]) auto
      ultimately have "same_in (B - {(pt, 4096)}) s ?u" by (rule same_in_trans [rotated])
      then show "?Q r ?u \<and> r \<noteq> 0" using r pu t(1,4) None by simp
    qed simp
    then have "wp pt_node_create (\<lambda>r t. wp (if r = 0 then kret 0 else kbind (set_word (pt + 4 * i) r) (\<lambda>_. kret r)) ?Q ?R t) ?R s"
      by (rule wp_mono) (simp_all add: wps)
    then show ?thesis unfolding walk_node_def wp_kbind [of "get_word _"] wp_get_word ad using None w by (simp add: wp_kbind)
  qed
qed

text \<open>Looking up the page of a middle part.\<close>

lemma walk_leaf_wp:
  fixes s :: "'a kheap_scheme"
  assumes own: "pt_own s B pt H P" and i: "H i = Some n" and j: "j < 1024" and spl: "0 < curspl s"
  shows "wp (walk_leaf n j) (\<lambda>r t. curspl t = curspl s \<and> (case P i j of Some a \<Rightarrow> r = a - MIPS_KSEG0 \<and> r \<noteq> 0 \<and> t = s
      | None \<Rightarrow> r = 0 \<and> \<not> room 1 s \<and> pt_own t B pt H P \<and> same_in B s t
          \<or> (\<exists>a. r = a - MIPS_KSEG0 \<and> r \<noteq> 0 \<and> (a, 4096) \<notin> B \<and> pt_own t (insert (a, 4096) B) pt H (P(i := (P i)(j \<mapsto> a)))
               \<and> same_in (B - {(n, 4096)}) s t \<and> (\<forall>k < 1024. kword t (a + 4 * k) = 0)))) (\<lambda>_ _. False) s"
    (is "wp _ ?Q ?R s")
proof -
  note d = pt_ownD [OF own] and nb = pt_ownD(4) [OF own i]
  note b = page_bound [OF d(1) nb]
  have ad: "u32 (n + 4 * j) = n + 4 * j" by (rule b(5)) (use j in simp)
  have w: "kword s (n + 4 * j) = (case P i j of None \<Rightarrow> 0 | Some a \<Rightarrow> a - MIPS_KSEG0)" by (rule pt_memD(2) [OF d(2) i j])
  show ?thesis
  proof (cases "P i j")
    case (Some a)
    then have "a - MIPS_KSEG0 \<noteq> 0" using page_bound(2) [OF d(1) d(5) [OF Some]] by simp
    then show ?thesis using Some w by (simp add: walk_leaf_def wps ad)
  next
    case None
    let ?tail = "\<lambda>p :: nat. if p = 0 then kret 0 else kbind (zero_page p) (\<lambda>_. kbind (set_word (n + 4 * j) p) (\<lambda>_. get_word (n + 4 * j)))"
    have "wp (alloc_ppages 1) (\<lambda>p. wp (?tail p) ?Q ?R) ?R s"
    proof (rule wp_mono [OF ppage_alloc_wp [OF d(1) spl]], elim disjE conjE)
      fix p :: nat and t :: "'a kheap_scheme"
      assume p: "p = 0" and pn: "page_none s B t"
      have t: "\<not> room 1 s" "heap_blocks t B" "t = s\<lparr>avail_pages := avail_pages s - 1\<rparr>" using pn unfolding page_none_def by blast+
      have "same_in X s t" for X by (simp add: same_in_def t(3))
      moreover have "pt_own t B pt H P" by (rule pt_own_same [OF own t(2)]) (use own calculation in \<open>simp_all add: pt_own_def\<close>)
      moreover have "curspl t = curspl s" by (simp add: t(3))
      ultimately show "wp (?tail p) ?Q ?R t" using p t(1) None by (simp add: wps)
    next
      fix p :: nat and t :: "'a kheap_scheme"
      assume p: "p \<noteq> 0" and got: "page_got s B (p + MIPS_KSEG0) t"
      let ?a = "p + MIPS_KSEG0"
      have hb: "heap_blocks t (insert (?a, 4096) B)" using got by (simp add: page_got_def)
      note ab = page_bound [OF hb insertI1]
      have "wp (zero_page (?a - MIPS_KSEG0)) (\<lambda>_ u. ?Q p (u\<lparr>kword := (kword u)(n + 4 * j := p)\<rparr>)) ?R t"
      proof (rule wp_mono [OF zero_page_wp [OF ab(2-4)]], elim conjE)
        fix x :: unit and u
        assume wi: "writes_in ?a 4096 t u" and zz: "\<forall>k < 1024. kword u (?a + 4 * k) = 0"
        have zb: "zero_block s B ?a u" by (rule zero_blockI [OF got wi zz])
        then have u: "(?a, 4096) \<notin> B" "heap_blocks u (insert (?a, 4096) B)" "same_in B s u" "curspl u = curspl s"
          by (simp_all add: zero_block_def)
        have sub: "pt_blocks pt H P \<subseteq> B" using own by (simp add: pt_own_def)
        have own': "pt_own u (insert (?a, 4096) B) pt H P"
          by (rule pt_own_same [OF own u(2)]) (use sub same_in_mono [OF u(3) sub] in auto)
        have nf: "?a \<notin> pt_tables pt H \<union> pt_user P" using sub u(1) by (auto simp: pt_blocks_def)
        let ?v = "u\<lparr>kword := (kword u)(n + 4 * j := ?a - MIPS_KSEG0)\<rparr>"
        have pv: "pt_own ?v (insert (?a, 4096) B) pt H (P(i := (P i)(j \<mapsto> ?a)))"
          by (rule pt_add_page [OF own' i j None insertI1 nf])
        have "writes_in n 4096 u ?v" by (rule writes_in_upd) (use j in simp)
        then have sv: "same_in (insert (?a, 4096) B - {(n, 4096)}) u ?v" by (rule writes_in_block(2) [OF u(2) insertI2 [OF nb]])
        have na: "?a \<noteq> n" using u(1) nb by auto
        have "same_in (B - {(n, 4096)}) u ?v" by (rule same_in_mono [OF sv]) auto
        moreover have "same_in (B - {(n, 4096)}) s u" by (rule same_in_mono [OF u(3)]) auto
        ultimately have ss: "same_in (B - {(n, 4096)}) s ?v" by (rule same_in_trans [rotated])
        have "kword ?v (?a + 4 * k) = 0" if "k < 1024" for k
        proof -
          have "kword ?v (?a + 4 * k) = kword u (?a + 4 * k)" by (rule same_inD [OF sv, of ?a 4096]) (use na that in auto)
          then show ?thesis using zz that by simp
        qed
        then show "?Q p (u\<lparr>kword := (kword u)(n + 4 * j := p)\<rparr>)"
          using pv ss u(1,4) p None by (simp split del: if_split, intro exI [of _ ?a]) (simp split del: if_split)
      qed simp
      then show "wp (?tail p) ?Q ?R t" using p by (simp add: wp_kbind wp_put_get)
    qed simp
    then show ?thesis unfolding walk_leaf_def wp_kbind [of "get_word _"] wp_get_word ad using None w by (simp add: wp_kbind)
  qed
qed

text \<open>
  The whole walk. Only the tables change, besides the page that is handed out, and only pages of the table
  are allocated.
\<close>

definition pt_grown :: "(nat \<times> nat) set \<Rightarrow> nat \<Rightarrow> pt_nodes \<Rightarrow> 'a kheap_scheme \<Rightarrow> 'a kheap_scheme \<Rightarrow> pt_nodes \<Rightarrow> pt_pages \<Rightarrow> bool" where
  "pt_grown B pt H s t H' P' \<longleftrightarrow> pt_own t (B \<union> pt_blocks pt H' P') pt H' P'
     \<and> same_in (B - (\<lambda>a. (a, 4096)) ` pt_tables pt H) s t \<and> curspl t = curspl s
     \<and> (\<forall>n \<in> ran H'. n \<notin> ran H \<longrightarrow> (n, 4096) \<notin> B)"

lemma pt_grown_refl: "pt_own s B pt H P \<Longrightarrow> pt_grown B pt H s s H P"
  by (auto simp: pt_grown_def pt_own_def Un_absorb2)

lemma pt_blocks_node: "H i = None \<Longrightarrow> pt_blocks pt (H(i \<mapsto> n)) P = insert (n, 4096) (pt_blocks pt H P)"
  by (auto simp: pt_blocks_def pt_tables_def)

lemma pt_blocks_page: "P i j = None \<Longrightarrow> pt_blocks pt H (P(i := (P i)(j \<mapsto> a))) = insert (a, 4096) (pt_blocks pt H P)"
  by (simp add: pt_blocks_def pt_user_page)

lemma walk_pt_wp:
  fixes s :: "'a kheap_scheme"
  assumes own: "pt_own s B pt H P" and rm: "H (pt_hi va) = None \<longrightarrow> room 1 s" and spl: "0 < curspl s"
  shows "wp (walk_pt pt va) (\<lambda>r t. case P (pt_hi va) (pt_mid va) of
        Some a \<Rightarrow> r = a - MIPS_KSEG0 \<and> r \<noteq> 0 \<and> t = s
      | None \<Rightarrow> r = 0 \<and> (\<exists>H'. pt_grown B pt H s t H' P)
          \<or> (\<exists>a H'. r = a - MIPS_KSEG0 \<and> r \<noteq> 0 \<and> (a, 4096) \<notin> B \<and> (\<forall>k < 1024. kword t (a + 4 * k) = 0)
                \<and> pt_grown B pt H s t H' (P(pt_hi va := (P (pt_hi va))(pt_mid va \<mapsto> a))))) (\<lambda>_ _. False) s"
    (is "wp _ ?Q ?R s")
proof -
  let ?i = "pt_hi va" and ?j = "pt_mid va"
  have ij: "?i < 1024" "?j < 1024" by (simp_all add: pt_hi_def pt_mid_def)
  note d = pt_ownD [OF own]
  have sub: "pt_blocks pt H P \<subseteq> B" using own by (simp add: pt_own_def)
  show ?thesis unfolding walk_pt_def wp_kbind
  proof (rule wp_mono [OF walk_node_wp [OF own ij(1) rm]], elim conjE)
    fix n and t :: "'a kheap_scheme"
    assume n: "n \<noteq> 0" "curspl t = curspl s" and cs: "case H ?i of Some m \<Rightarrow> n = m \<and> t = s
      | None \<Rightarrow> (n, 4096) \<notin> B \<and> pt_own t (insert (n, 4096) B) pt (H(?i \<mapsto> n)) P \<and> same_in (B - {(pt, 4096)}) s t"
    have "wp (walk_leaf n ?j) ?Q ?R t"
    proof (cases "H ?i")
      case (Some m)
      then have m: "H ?i = Some n" "t = s" using cs by simp_all
      have tb: "n \<in> pt_tables pt H" using m(1) by (auto simp: pt_tables_def ran_def)
      show ?thesis unfolding m(2)
      proof (rule wp_mono [OF walk_leaf_wp [OF own m(1) ij(2) spl]], goal_cases)
        case (1 r u)
        show ?case
        proof (cases "P ?i ?j")
          case None
          with 1 consider "r = 0" "pt_own u B pt H P" "same_in B s u"
            | a where "r = a - MIPS_KSEG0" "r \<noteq> 0" "(a, 4096) \<notin> B" "pt_own u (insert (a, 4096) B) pt H (P(?i := (P ?i)(?j \<mapsto> a)))"
              "same_in (B - {(n, 4096)}) s u" "\<forall>k < 1024. kword u (a + 4 * k) = 0" by auto
          then show ?thesis
          proof cases
            case 1
            have "pt_grown B pt H s u H P" unfolding pt_grown_def
              using 1 same_in_mono [OF 1(3)] \<open>curspl u = curspl s \<and> _\<close> sub by (simp add: Un_absorb2)
            then show ?thesis using 1(1) None by auto
          next
            case (2 a)
            have B: "B \<union> pt_blocks pt H (P(?i := (P ?i)(?j \<mapsto> a))) = insert (a, 4096) B" using sub by (auto simp: pt_blocks_page [of P ?i ?j, OF None])
            have "same_in (B - (\<lambda>a. (a, 4096)) ` pt_tables pt H) s u" by (rule same_in_mono [OF 2(5)]) (use tb in auto)
            then have "pt_grown B pt H s u H (P(?i := (P ?i)(?j \<mapsto> a)))" unfolding pt_grown_def B
              using 2(4) \<open>curspl u = curspl s \<and> _\<close> by simp
            then show ?thesis unfolding None option.case using 2(1-3,6) by blast
          qed
        qed (use 1 in auto)
      qed
    next
      case None
      let ?H = "H(?i \<mapsto> n)" and ?B = "insert (n, 4096) B"
      have t: "(n, 4096) \<notin> B" "pt_own t ?B pt ?H P" "same_in (B - {(pt, 4096)}) s t" using cs None by simp_all
      have Pn: "P ?i ?j = None" by (rule pt_memD(3) [OF d(2) None])
      have spl': "0 < curspl t" using spl n(2) by simp
      have mono: "same_in (B - (\<lambda>a. (a, 4096)) ` pt_tables pt H) s t" by (rule same_in_mono [OF t(3)]) (auto simp: pt_tables_def)
      have Hn: "?H ?i = Some n" by simp
      show ?thesis
      proof (rule wp_mono [OF walk_leaf_wp [OF t(2) Hn ij(2) spl']], goal_cases)
        case (1 r u)
        with Pn consider "r = 0" "pt_own u ?B pt ?H P" "same_in ?B t u"
            | a where "r = a - MIPS_KSEG0" "r \<noteq> 0" "(a, 4096) \<notin> ?B" "pt_own u (insert (a, 4096) ?B) pt ?H (P(?i := (P ?i)(?j \<mapsto> a)))"
              "same_in (?B - {(n, 4096)}) t u" "\<forall>k < 1024. kword u (a + 4 * k) = 0" by auto
        then show ?case
        proof cases
          case 1
          have B: "B \<union> pt_blocks pt ?H P = ?B" using sub by (auto simp: pt_blocks_node [of H ?i, OF None])
          have "same_in (B - (\<lambda>a. (a, 4096)) ` pt_tables pt H) t u" by (rule same_in_mono [OF 1(3)]) auto
          then have "same_in (B - (\<lambda>a. (a, 4096)) ` pt_tables pt H) s u" by (rule same_in_trans [OF mono])
          then have "pt_grown B pt H s u ?H P" unfolding pt_grown_def B
            using 1(2) n(2) t(1) None \<open>curspl u = curspl t \<and> _\<close> by simp
          then show ?thesis unfolding Pn option.case using 1(1) by blast
        next
          case (2 a)
          have B: "B \<union> pt_blocks pt ?H (P(?i := (P ?i)(?j \<mapsto> a))) = insert (a, 4096) ?B"
            using sub by (auto simp: pt_blocks_page [of P ?i ?j, OF Pn] pt_blocks_node [of H ?i, OF None])
          have "same_in (B - (\<lambda>a. (a, 4096)) ` pt_tables pt H) t u" by (rule same_in_mono [OF 2(5)]) (use t(1) in auto)
          then have "same_in (B - (\<lambda>a. (a, 4096)) ` pt_tables pt H) s u" by (rule same_in_trans [OF mono])
          then have "pt_grown B pt H s u ?H (P(?i := (P ?i)(?j \<mapsto> a)))" unfolding pt_grown_def B
            using 2(4) n(2) t(1) None \<open>curspl u = curspl t \<and> _\<close> by simp
          moreover have "(a, 4096) \<notin> B" using 2(3) by simp
          ultimately show ?thesis unfolding Pn option.case using 2(1,2,6) by blast
        qed
      qed
    qed
    then show "wp (if n = 0 then kret 0 else walk_leaf n ?j) ?Q ?R t" using n(1) by simp
  qed simp
qed

end
