(* ===== verification/VmFault.thy ===== *)
theory VmFault
  imports VmSpace
begin

text \<open>
  What address spaces promise: destroying one gives back every page it has (kern/vm/addrspace.c,
  \<open>pt_destroy\<close> of kern/arch/mips/mips/vm.c), and a page fault is answered by the demand-zero page of the
  address, or refused outside the regions.
\<close>

section \<open>Destroying a page table\<close>

text \<open>Freeing the pages of a node, entry by entry.\<close>

definition node_blocks :: "(nat \<Rightarrow> nat option) \<Rightarrow> nat \<Rightarrow> (nat \<times> nat) set" where
  "node_blocks p k = {(a, 4096) |a. \<exists>j < k. p j = Some a}"

definition node_ok :: "(nat \<times> nat) set \<Rightarrow> (nat \<Rightarrow> nat option) \<Rightarrow> nat \<Rightarrow> bool" where
  "node_ok B p n \<longleftrightarrow> (n, 4096) \<in> B \<and> (\<forall>j a. p j = Some a \<longrightarrow> j < 1024 \<and> (a, 4096) \<in> B \<and> a \<noteq> n)
     \<and> (\<forall>j j' a. p j = Some a \<longrightarrow> p j' = Some a \<longrightarrow> j = j')"

text \<open>Blocks are given up, those that remain keep their contents.\<close>

definition gave_up :: "(nat \<times> nat) set \<Rightarrow> (nat \<times> nat) set \<Rightarrow> 'a kheap_scheme \<Rightarrow> 'a kheap_scheme \<Rightarrow> bool" where
  "gave_up B G s t \<longleftrightarrow> heap_blocks t (B - G) \<and> same_in (B - G) s t \<and> curspl t = curspl s"

lemma gave_upD: "gave_up B G s t \<Longrightarrow> heap_blocks t (B - G)" "gave_up B G s t \<Longrightarrow> same_in (B - G) s t" "gave_up B G s t \<Longrightarrow> curspl t = curspl s"
  by (simp_all add: gave_up_def)

lemma gave_up_step:
  assumes "gave_up B G s t" and "gave_up (B - G) K t u"
  shows "gave_up B (G \<union> K) s u"
proof -
  have d: "B - G - K = B - (G \<union> K)" by blast
  have "same_in (B - (G \<union> K)) s t" by (rule same_in_mono [OF gave_upD(2) [OF assms(1)]]) blast
  then have "same_in (B - (G \<union> K)) s u" by (rule same_in_trans) (rule gave_upD(2) [OF assms(2), unfolded d])
  then show ?thesis using assms unfolding gave_up_def d by simp
qed

lemma gave_up_refl: "heap_blocks s B \<Longrightarrow> gave_up B {} s s"
  by (simp add: gave_up_def)

lemma free_entries_wp:
  assumes B: "heap_blocks s B" and ok: "node_ok B p n" and k: "k \<le> 1024"
    and w: "\<And>j. j < 1024 \<Longrightarrow> kword s (n + 4 * j) = (case p j of None \<Rightarrow> 0 | Some a \<Rightarrow> a - MIPS_KSEG0)"
  shows "wp (kfor [0..<k] (\<lambda>i. kbind (get_word (u32 (n + 4 * i))) (\<lambda>q. kwhen (q \<noteq> 0) (free_ppages q))))
    (\<lambda>_ t. gave_up B (node_blocks p k) s t) (\<lambda>_ _. False) s"
  using k
proof (induction k)
  case 0
  have "node_blocks p 0 = {}" by (simp add: node_blocks_def)
  then show ?case by (simp add: wps gave_up_refl [OF B])
next
  case (Suc k)
  have u: "[0..<Suc k] = [0..<k] @ [k]" by simp
  have nB: "(n, 4096) \<in> B" using ok by (simp add: node_ok_def)
  have ad: "u32 (n + 4 * k) = n + 4 * k" by (rule page_bound(5) [OF B nB]) (use Suc.prems in simp)
  show ?case unfolding u wp_kfor_append
  proof (rule wp_mono [OF Suc.IH])
    fix x :: unit and t
    assume t: "gave_up B (node_blocks p k) s t"
    have nn: "(n, 4096) \<in> B - node_blocks p k" using ok by (auto simp: node_ok_def node_blocks_def)
    have "kword t (n + 4 * k) = kword s (n + 4 * k)" by (rule same_inD [OF gave_upD(2) [OF t] nn]) (use Suc.prems in simp)
    then have wk: "kword t (n + 4 * k) = (case p k of None \<Rightarrow> 0 | Some a \<Rightarrow> a - MIPS_KSEG0)" using w [of k] Suc.prems by simp
    show "wp (kfor [k] (\<lambda>i. kbind (get_word (u32 (n + 4 * i))) (\<lambda>q. kwhen (q \<noteq> 0) (free_ppages q))))
      (\<lambda>_ t. gave_up B (node_blocks p (Suc k)) s t) (\<lambda>_ _. False) t"
    proof (cases "p k")
      case None
      then have "node_blocks p (Suc k) = node_blocks p k" by (auto simp: node_blocks_def less_Suc_eq)
      then show ?thesis using t wk None by (simp add: wps ad)
    next
      case (Some a)
      have "p j \<noteq> Some a" if "j < k" for j using ok Some that less_irrefl [of k] unfolding node_ok_def by metis
      then have aB: "(a, 4096) \<in> B - node_blocks p k" using ok Some by (auto simp: node_ok_def node_blocks_def)
      have a0: "a - MIPS_KSEG0 \<noteq> 0" using page_bound(2) [OF gave_upD(1) [OF t] aB] by simp
      have e: "node_blocks p (Suc k) = node_blocks p k \<union> {(a, 4096)}" using Some by (auto simp: node_blocks_def less_Suc_eq)
      have "wp (free_ppages (a - MIPS_KSEG0)) (\<lambda>_ v. gave_up B (node_blocks p (Suc k)) s v) (\<lambda>_ _. False) t"
      proof (rule wp_mono [OF ppage_free_wp [OF gave_upD(1) [OF t] aB]])
        fix x :: unit and v
        assume "heap_blocks v (B - node_blocks p k - {(a, 4096)}) \<and> same_in (B - node_blocks p k - {(a, 4096)}) t v \<and> curspl v = curspl t"
        then have "gave_up (B - node_blocks p k) {(a, 4096)} t v" by (simp add: gave_up_def)
        then show "gave_up B (node_blocks p (Suc k)) s v" unfolding e by (rule gave_up_step [OF t])
      qed simp
      then show ?thesis using wk Some a0 by (simp add: wps ad)
    qed
  qed (use Suc.prems in simp_all)
qed

lemma pt_node_destroy_wp:
  assumes B: "heap_blocks s B" and ok: "node_ok B p n"
    and w: "\<And>j. j < 1024 \<Longrightarrow> kword s (n + 4 * j) = (case p j of None \<Rightarrow> 0 | Some a \<Rightarrow> a - MIPS_KSEG0)"
  shows "wp (pt_node_destroy n) (\<lambda>_ t. gave_up B (insert (n, 4096) ((\<lambda>a. (a, 4096)) ` ran p)) s t) (\<lambda>_ _. False) s"
  unfolding pt_node_destroy_def PT_FANOUT_def wp_kbind [of "kfor _ _"]
proof (rule wp_mono [OF free_entries_wp [OF B ok order_refl w]])
  fix x :: unit and t
  assume t: "gave_up B (node_blocks p 1024) s t"
  have e: "node_blocks p 1024 = (\<lambda>a. (a, 4096)) ` ran p" using ok by (auto simp: node_blocks_def node_ok_def ran_def)
  have nn: "(n, 4096) \<in> B - node_blocks p 1024" using ok by (auto simp: node_ok_def node_blocks_def)
  show "wp (free_kpages n) (\<lambda>_ t. gave_up B (insert (n, 4096) ((\<lambda>a. (a, 4096)) ` ran p)) s t) (\<lambda>_ _. False) t"
  proof (rule wp_mono [OF kpage_free_wp [OF gave_upD(1) [OF t] nn]])
    fix x :: unit and v
    assume "heap_blocks v (B - node_blocks p 1024 - {(n, 4096)}) \<and> same_in (B - node_blocks p 1024 - {(n, 4096)}) t v \<and> curspl v = curspl t"
    then have "gave_up (B - node_blocks p 1024) {(n, 4096)} t v" by (simp add: gave_up_def)
    from gave_up_step [OF t this] show "gave_up B (insert (n, 4096) ((\<lambda>a. (a, 4096)) ` ran p)) s v" unfolding e by simp
  qed simp
qed simp_all

text \<open>The nodes below \<open>k\<close>, with their pages.\<close>

definition low_blocks :: "pt_nodes \<Rightarrow> pt_pages \<Rightarrow> nat \<Rightarrow> (nat \<times> nat) set" where
  "low_blocks H P k = {(a, 4096) |a. \<exists>i < k. H i = Some a \<or> (\<exists>j. P i j = Some a)}"

lemma free_nodes_wp:
  assumes own: "pt_own s B pt H P" and k: "k \<le> 1024"
  shows "wp (kfor [0..<k] (\<lambda>i. kbind (get_word (u32 (pt + 4 * i))) (\<lambda>n. kwhen (n \<noteq> 0) (pt_node_destroy n))))
    (\<lambda>_ t. gave_up B (low_blocks H P k) s t) (\<lambda>_ _. False) s"
  using k
proof (induction k)
  case 0
  have "low_blocks H P 0 = {}" by (simp add: low_blocks_def)
  then show ?case by (simp add: wps gave_up_refl [OF pt_ownD(1) [OF own]])
next
  case (Suc k)
  note d = pt_ownD [OF own]
  have dn: "\<And>i i' n. H i = Some n \<Longrightarrow> H i' = Some n \<Longrightarrow> i = i'" "\<And>i j i' j' a. P i j = Some a \<Longrightarrow> P i' j' = Some a \<Longrightarrow> i = i' \<and> j = j'"
    "\<And>i j a i'. P i j = Some a \<Longrightarrow> H i' \<noteq> Some a" "\<And>i j a. P i j = Some a \<Longrightarrow> a \<noteq> pt" "\<And>i n. H i = Some n \<Longrightarrow> n \<noteq> pt"
    using d(6) unfolding pt_distinct_def pt_tables_def pt_user_def ran_def by blast+
  have u: "[0..<Suc k] = [0..<k] @ [k]" by simp
  have ad: "u32 (pt + 4 * k) = pt + 4 * k" by (rule page_bound(5) [OF d(1,3)]) (use Suc.prems in simp)
  show ?case unfolding u wp_kfor_append
  proof (rule wp_mono [OF Suc.IH])
    fix x :: unit and t
    assume t: "gave_up B (low_blocks H P k) s t"
    let ?B = "B - low_blocks H P k"
    have pp: "(pt, 4096) \<in> ?B" using d(3) dn(4,5) unfolding low_blocks_def by blast
    have "kword t (pt + 4 * k) = kword s (pt + 4 * k)" by (rule same_inD [OF gave_upD(2) [OF t] pp]) (use Suc.prems in simp)
    then have wk: "kword t (pt + 4 * k) = (case H k of None \<Rightarrow> 0 | Some n \<Rightarrow> n)" using pt_memD(1) [OF d(2), of k] Suc.prems by simp
    show "wp (kfor [k] (\<lambda>i. kbind (get_word (u32 (pt + 4 * i))) (\<lambda>n. kwhen (n \<noteq> 0) (pt_node_destroy n))))
      (\<lambda>_ t. gave_up B (low_blocks H P (Suc k)) s t) (\<lambda>_ _. False) t"
    proof (cases "H k")
      case None
      then have "\<And>j. P k j = None" using pt_memD(3) [OF d(2)] by blast
      then have "low_blocks H P (Suc k) = low_blocks H P k" using None by (auto simp: low_blocks_def less_Suc_eq)
      then show ?thesis using t wk None by (simp add: wps ad)
    next
      case (Some n)
      have nB: "(n, 4096) \<in> ?B" using d(4) [OF Some] dn(1,3) Some by (fastforce simp: low_blocks_def)
      have pB: "(a, 4096) \<in> ?B" if "P k j = Some a" for j a
        using d(5) [OF that] dn(2,3) that by (fastforce simp: low_blocks_def)
      have ok: "node_ok ?B (P k) n" unfolding node_ok_def using nB pB dn(2,3) d(8) Some by blast
      have w: "kword t (n + 4 * j) = (case P k j of None \<Rightarrow> 0 | Some a \<Rightarrow> a - MIPS_KSEG0)" if "j < 1024" for j
      proof -
        have "kword t (n + 4 * j) = kword s (n + 4 * j)" by (rule same_inD [OF gave_upD(2) [OF t] nB]) (use that in simp)
        then show ?thesis using pt_memD(2) [OF d(2) Some that] by simp
      qed
      have e: "low_blocks H P (Suc k) = low_blocks H P k \<union> insert (n, 4096) ((\<lambda>a. (a, 4096)) ` ran (P k))"
        using Some by (auto simp: low_blocks_def less_Suc_eq ran_def)
      have "wp (pt_node_destroy n) (\<lambda>_ v. gave_up B (low_blocks H P (Suc k)) s v) (\<lambda>_ _. False) t"
        unfolding e by (rule wp_mono [OF pt_node_destroy_wp [OF gave_upD(1) [OF t] ok w] gave_up_step [OF t]])
      moreover have "n \<noteq> 0" by (rule page_bound(1) [OF d(1) d(4) [OF Some]])
      ultimately show ?thesis using wk Some by (simp add: wps ad)
    qed
  qed (use Suc.prems in simp_all)
qed

lemma pt_destroy_wp:
  assumes own: "pt_own s B pt H P"
  shows "wp (pt_destroy pt) (\<lambda>_ t. gave_up B (pt_blocks pt H P) s t) (\<lambda>_ _. False) s"
  unfolding pt_destroy_def PT_FANOUT_def wp_kbind [of "kfor _ _"]
proof (rule wp_mono [OF free_nodes_wp [OF own order_refl]])
  fix x :: unit and t
  assume t: "gave_up B (low_blocks H P 1024) s t"
  note d = pt_ownD [OF own]
  have "\<exists>i < 1024. H i = Some a" if "a \<in> ran H" for a using that d(7) by (auto simp: ran_def)
  moreover have "\<exists>i < 1024. \<exists>j. P i j = Some a" if "a \<in> pt_user P" for a
    using that d(7,8) unfolding pt_user_def by blast
  ultimately have "ran H \<union> pt_user P = {a. \<exists>i < 1024. H i = Some a \<or> (\<exists>j. P i j = Some a)}"
    by (intro equalityI subsetI) (blast, auto simp: pt_user_def intro: ranI)
  moreover have "pt_blocks pt H P = insert (pt, 4096) ((\<lambda>a. (a, 4096)) ` (ran H \<union> pt_user P))"
    by (simp add: pt_blocks_def pt_tables_def)
  ultimately have e: "pt_blocks pt H P = insert (pt, 4096) (low_blocks H P 1024)"
    unfolding low_blocks_def by (simp only: image_Collect)
  have pp: "(pt, 4096) \<in> B - low_blocks H P 1024" using d(3,6) by (auto simp: low_blocks_def pt_distinct_def pt_tables_def pt_user_def ran_def)
  show "wp (free_kpages pt) (\<lambda>_ t. gave_up B (pt_blocks pt H P) s t) (\<lambda>_ _. False) t"
  proof (rule wp_mono [OF kpage_free_wp [OF gave_upD(1) [OF t] pp]])
    fix x :: unit and v
    assume "heap_blocks v (B - low_blocks H P 1024 - {(pt, 4096)}) \<and> same_in (B - low_blocks H P 1024 - {(pt, 4096)}) t v \<and> curspl v = curspl t"
    then have "gave_up (B - low_blocks H P 1024) {(pt, 4096)} t v" by (simp add: gave_up_def)
    from gave_up_step [OF t this] show "gave_up B (pt_blocks pt H P) s v" unfolding e by simp
  qed simp
qed simp_all

section \<open>Address spaces\<close>

text \<open>The six fields of an address space, and the addresses it allows.\<close>

record aspace =
  a_vbase1 :: nat
  a_npages1 :: nat
  a_vbase2 :: nat
  a_npages2 :: nat
  a_npages_s :: nat
  a_pt :: nat

definition as_fields :: "'a vm_scheme \<Rightarrow> nat \<Rightarrow> aspace" where
  "as_fields s as = \<lparr>a_vbase1 = kword s (as + 0), a_npages1 = kword s (as + 4), a_vbase2 = kword s (as + 8),
     a_npages2 = kword s (as + 12), a_npages_s = kword s (as + 16), a_pt = kword s (as + 20)\<rparr>"

text \<open>The regions lie in user space.\<close>

definition as_wf :: "aspace \<Rightarrow> bool" where
  "as_wf A \<longleftrightarrow> a_vbase1 A + a_npages1 A * 4096 \<le> USERSTACK \<and> a_vbase2 A + a_npages2 A * 4096 \<le> USERSTACK
     \<and> a_npages_s A * 4096 \<le> USERSTACK"

definition as_allows :: "aspace \<Rightarrow> nat set" where
  "as_allows A = {a_vbase1 A..<a_vbase1 A + a_npages1 A * 4096} \<union> {a_vbase2 A..<a_vbase2 A + a_npages2 A * 4096}
     \<union> {USERSTACK - a_npages_s A * 4096..<USERSTACK}"

lemmas as_offsets = as_vbase1_def as_npages1_def as_vbase2_def as_npages2_def as_npages_s_def as_pt_def

text \<open>The address space occupies a block of the heap, apart from its page table.\<close>

definition as_at :: "'a kheap_scheme \<Rightarrow> (nat \<times> nat) set \<Rightarrow> nat \<Rightarrow> nat \<Rightarrow> pt_nodes \<Rightarrow> pt_pages \<Rightarrow> bool" where
  "as_at s B as m H P \<longleftrightarrow> pt_own s B (a_pt (as_fields s as)) H P \<and> (as, m) \<in> B - pt_blocks (a_pt (as_fields s as)) H P
     \<and> sizeof_addrspace \<le> m"

lemma block_bound:
  assumes "heap_blocks s B" and "(a, m) \<in> B"
  shows "MIPS_KSEG0 < a" "a + m \<le> MIPS_KSEG0 + 532676608" "x < m \<Longrightarrow> u32 (a + x) = a + x" "0 < m"
proof -
  obtain al F where rep: "heap_rep s al F" "B = live_blocks s al F" using assms(1) unfolding heap_blocks_def by blast
  have l: "(a, m) \<in> live_blocks s al F" using assms(2) rep(2) by simp
  show m: "0 < m" by (rule live_pos [OF rep(1) l])
  obtain i N where i: "vm_regions s i = Some N" "{a..<a + m} \<subseteq> {page_va s i..<page_va s i + 4096 * N}"
    by (rule live_region [OF rep(1) l])
  note b = page_va_bounds [OF heap_repD(1) [OF rep(1)] i(1)]
  have "a \<in> {a..<a + m}" "a + m - 1 \<in> {a..<a + m}" using m by simp_all
  then have "a \<in> {page_va s i..<page_va s i + 4096 * N}" "a + m - 1 \<in> {page_va s i..<page_va s i + 4096 * N}" using i(2) by blast+
  then have p: "page_va s i \<le> a" "a + m - 1 < page_va s i + 4096 * N" by simp_all
  show "MIPS_KSEG0 < a" using p(1) b(1) by linarith
  show c: "a + m \<le> MIPS_KSEG0 + 532676608" using p(2) b(2) m by arith
  show "x < m \<Longrightarrow> u32 (a + x) = a + x" using c by (simp add: MIPS_KSEG0_def)
qed

lemma wp_get_field: "u32 (as + f) = as + f \<Longrightarrow> wp (get_field as f) Q R s = Q (kword s (as + f)) s"
  by (simp add: get_field_def wps)

lemma as_check_access_wp:
  assumes ad: "\<And>x. x < 24 \<Longrightarrow> u32 (as + x) = as + x" and wf: "as_wf (as_fields s as)"
  shows "wp (as_check_access as a) Q R s = (if a \<in> as_allows (as_fields s as) then Q () s else R EFAULT s)"
proof -
  let ?A = "as_fields s as"
  have u: "u32 (a_vbase1 ?A + a_npages1 ?A * 4096) = a_vbase1 ?A + a_npages1 ?A * 4096"
    "u32 (a_vbase2 ?A + a_npages2 ?A * 4096) = a_vbase2 ?A + a_npages2 ?A * 4096"
    "sub32 USERSTACK (u32 (a_npages_s ?A * 4096)) = USERSTACK - a_npages_s ?A * 4096"
    using wf by (simp_all add: as_wf_def USERSTACK_def sub32_id)
  have "u32 (as + 0) = as + 0" "u32 (as + 4) = as + 4" "u32 (as + 8) = as + 8" "u32 (as + 12) = as + 12" "u32 (as + 16) = as + 16"
    by (rule ad; simp)+
  then show ?thesis using u unfolding as_check_access_def as_offsets
    by (auto simp: wps wp_get_field get_field_def Let_def as_fields_def as_allows_def PAGE_SIZE_def)
qed

section \<open>Creating and destroying an address space\<close>

lemma as_destroy_wp:
  fixes s :: "'a kheap_scheme"
  assumes at: "as_at s B as m H P"
  shows "wp (as_destroy as) (\<lambda>_ t. heap_blocks t (B - pt_blocks (a_pt (as_fields s as)) H P - {(as, m)})
      \<and> same_in (B - pt_blocks (a_pt (as_fields s as)) H P - {(as, m)}) s t) (\<lambda>_ _. False) s"
proof -
  let ?pt = "a_pt (as_fields s as)"
  have own: "pt_own s B ?pt H P" and am: "(as, m) \<in> B - pt_blocks ?pt H P" "sizeof_addrspace \<le> m" using at by (simp_all add: as_at_def)
  have ad: "u32 (as + 20) = as + 20" by (rule block_bound(3) [OF pt_ownD(1) [OF own]]) (use am in \<open>auto simp: sizeof_addrspace_def\<close>)
  have pt: "kword s (as + 20) = ?pt" by (simp add: as_fields_def)
  have "wp (pt_destroy ?pt) (\<lambda>_. wp (kfree as) (\<lambda>_ t. heap_blocks t (B - pt_blocks ?pt H P - {(as, m)})
      \<and> same_in (B - pt_blocks ?pt H P - {(as, m)}) s t) (\<lambda>_ _. False)) (\<lambda>_ _. False) s"
  proof (rule wp_mono [OF pt_destroy_wp [OF own]])
    fix x :: unit and t :: "'a kheap_scheme"
    assume t: "gave_up B (pt_blocks ?pt H P) s t"
    show "wp (kfree as) (\<lambda>_ t. heap_blocks t (B - pt_blocks ?pt H P - {(as, m)})
      \<and> same_in (B - pt_blocks ?pt H P - {(as, m)}) s t) (\<lambda>_ _. False) t"
    proof (rule wp_mono [OF kh.free_old [OF gave_upD(1) [OF t] am(1)]], elim conjE)
      fix x :: unit and u :: "'a kheap_scheme"
      assume u: "heap_blocks u (B - pt_blocks ?pt H P - {(as, m)})"
        "\<forall>(a, k) \<in> B - pt_blocks ?pt H P - {(as, m)}. \<forall>x \<in> {a..<a + k}. kword u x = kword t x"
      have "same_in (B - pt_blocks ?pt H P - {(as, m)}) s t" by (rule same_in_mono [OF gave_upD(2) [OF t]]) blast
      then have "same_in (B - pt_blocks ?pt H P - {(as, m)}) s u" by (rule same_in_trans) (use u(2) in \<open>simp add: same_in_def\<close>)
      then show "heap_blocks u (B - pt_blocks ?pt H P - {(as, m)}) \<and> same_in (B - pt_blocks ?pt H P - {(as, m)}) s u" using u(1) by blast
    qed simp
  qed simp
  then show ?thesis unfolding as_destroy_def wp_kbind as_offsets by (simp add: wp_get_field ad pt)
qed

section \<open>Page faults\<close>

text \<open>The heap does not see the interrupt level and the TLB.\<close>

lemma blocks_spl [simp]: "heap_blocks (s\<lparr>curspl := x\<rparr>) = heap_blocks s"
  by (simp add: heap_blocks_def fun_eq_iff)

lemma mem_spl [simp]:
  "pt_own (s\<lparr>curspl := x\<rparr>) = pt_own s" "same_in B (s\<lparr>curspl := x\<rparr>) t = same_in B s t" "same_in B s (t\<lparr>curspl := x\<rparr>) = same_in B s t"
  "as_fields (s\<lparr>curspl := x\<rparr>) = as_fields s" "as_at (s\<lparr>curspl := x\<rparr>) = as_at s"
  by (simp_all add: pt_own_def pt_mem_def same_in_def as_fields_def as_at_def fun_eq_iff)

lemma heap_tlb [simp]: "heap_blocks (s\<lparr>tlb := x\<rparr>) = heap_blocks s" "heap_blocks (s\<lparr>tlb_picked := y\<rparr>) = heap_blocks s"
proof -
  have r: "vm_regions (s\<lparr>tlb := x\<rparr>) = vm_regions s" "vm_regions (s\<lparr>tlb_picked := y\<rparr>) = vm_regions s"
    by (simp_all add: vm_regions_def ipt_list_def ipt_len_def ipt_addr_def)
  have w: "vm_wf (s\<lparr>tlb := x\<rparr>) = vm_wf s" "vm_wf (s\<lparr>tlb_picked := y\<rparr>) = vm_wf s"
    by (simp_all add: vm_wf_def vm_table_def ipt_list_def ipt_len_def ipt_addr_def)
  have p: "page_va (s\<lparr>tlb := x\<rparr>) = page_va s" "page_va (s\<lparr>tlb_picked := y\<rparr>) = page_va s" by (simp_all add: page_va_def fun_eq_iff)
  show "heap_blocks (s\<lparr>tlb := x\<rparr>) = heap_blocks s" "heap_blocks (s\<lparr>tlb_picked := y\<rparr>) = heap_blocks s"
    by (simp_all add: fun_eq_iff heap_blocks_def heap_rep_def page_ok_def in_use_def live_blocks_def small_blocks_def large_blocks_def r w p)
qed

lemma mem_tlb [simp]:
  "pt_own (s\<lparr>tlb := x\<rparr>) = pt_own s" "same_in B s (t\<lparr>tlb := x\<rparr>) = same_in B s t"
  "as_fields (s\<lparr>tlb := x\<rparr>) = as_fields s" "as_at (s\<lparr>tlb := x\<rparr>) = as_at s"
  "pt_own (s\<lparr>tlb_picked := y\<rparr>) = pt_own s" "same_in B s (t\<lparr>tlb_picked := y\<rparr>) = same_in B s t"
  "as_fields (s\<lparr>tlb_picked := y\<rparr>) = as_fields s" "as_at (s\<lparr>tlb_picked := y\<rparr>) = as_at s"
  by (simp_all add: pt_own_def pt_mem_def same_in_def as_fields_def as_at_def fun_eq_iff)

text \<open>The walk leaves the rest of the state alone.\<close>

lemma alloc_ppages_rest: "keeps_rest (alloc_ppages n)"
  by (auto simp: alloc_ppages_def Let_def ipt_set_def set_word_def)

lemma alloc_kpages_rest: "keeps_rest (alloc_kpages n)"
  by (auto simp: alloc_kpages_def splhigh_def splx_def ram_stealmem_def Let_def intro!: alloc_ppages_rest)

lemma walk_pt_rest: "keeps_rest (walk_pt pt va)"
proof -
  have w: "keeps_rest (set_word a x)" "keeps_rest (get_word a)" for a x by (auto simp: set_word_def get_word_def)
  have b: "keeps_rest (set_byte a x)" for a x by (auto simp: set_byte_def Let_def intro!: w)
  have "keeps_rest pt_node_create" by (auto simp: pt_node_create_def intro!: alloc_kpages_rest keeps_rest_kfor w)
  then have "keeps_rest (walk_node pt i)" for i by (auto simp: walk_node_def intro!: w)
  moreover have "keeps_rest (walk_leaf n j)" for n j
    by (auto simp: walk_leaf_def zero_page_def intro!: w alloc_ppages_rest keeps_rest_kfor b)
  ultimately show ?thesis by (auto simp: walk_pt_def)
qed

lemma keeps_rest_wp:
  assumes "keeps_rest m" and "wp m Q (\<lambda>_ _. False) s"
  shows "wp m (\<lambda>x t. Q x t \<and> vm.more t = vm.more s) (\<lambda>_ _. False) s"
  using assms unfolding keeps_rest_def wp_def by (auto split: outcome.splits)

lemma more_mmu:
  assumes "vm.more t = vm.more s"
  shows "tlb t = tlb s" "tlb_pick t = tlb_pick s" "tlb_picked t = tlb_picked s" "t_vmspace t = t_vmspace s"
  using assms by (cases s; cases t; simp)+

lemma pt_round: "pt_hi (ROUND_DOWN va) = pt_hi va" "pt_mid (ROUND_DOWN va) = pt_mid va"
proof -
  have "va div 4096 * 4096 div 4194304 = va div 4096 * 4096 div 4096 div 1024" by (simp add: div_mult2_eq [symmetric])
  also have "\<dots> = va div 4194304" by (simp add: div_mult2_eq [symmetric])
  finally show "pt_hi (ROUND_DOWN va) = pt_hi va" by (simp add: pt_hi_def ROUND_DOWN_def PAGE_SIZE_def)
  show "pt_mid (ROUND_DOWN va) = pt_mid va" by (simp add: pt_mid_def ROUND_DOWN_def PAGE_SIZE_def)
qed

text \<open>The slot of the next random write, and the low word of an entry.\<close>

definition tlb_slot :: "'a mmu_scheme \<Rightarrow> nat" where
  "tlb_slot s = tlb_pick s (tlb_picked s) mod NUM_TLB"

definition tlb_lo :: "nat \<Rightarrow> nat" where
  "tlb_lo a = (a - MIPS_KSEG0) OR TLBLO_DIRTY OR TLBLO_VALID"

text \<open>A fault that is answered: the page \<open>a\<close> is the old one, or a fresh page of zeros.\<close>

definition fault_served :: "(nat \<times> nat) set \<Rightarrow> nat \<Rightarrow> nat \<Rightarrow> pt_nodes \<Rightarrow> pt_pages \<Rightarrow> nat \<Rightarrow> 'a mmu_scheme \<Rightarrow> 'a mmu_scheme \<Rightarrow> bool" where
  "fault_served B as m H P va s t \<longleftrightarrow> (\<exists>a H' P'. P' (pt_hi va) (pt_mid va) = Some a
     \<and> as_at t (B \<union> pt_blocks (a_pt (as_fields s as)) H' P') as m H' P' \<and> as_fields t as = as_fields s as
     \<and> same_in (B - (\<lambda>a. (a, 4096)) ` pt_tables (a_pt (as_fields s as)) H) s t
     \<and> tlb t = (tlb s)[tlb_slot s := (ROUND_DOWN va, tlb_lo a)] \<and> curspl t = curspl s
     \<and> (case P (pt_hi va) (pt_mid va) of Some b \<Rightarrow> a = b \<and> P' = P \<and> kword t = kword s
        | None \<Rightarrow> P' = P(pt_hi va := (P (pt_hi va))(pt_mid va \<mapsto> a)) \<and> (a, 4096) \<notin> B \<and> (\<forall>k < 1024. kword t (a + 4 * k) = 0)))"

lemma grown_as:
  assumes at: "as_at s B as m H P" and g: "pt_grown B (a_pt (as_fields s as)) H s t H' P'"
    and new: "\<And>a. a \<in> pt_user P' \<Longrightarrow> a \<notin> pt_user P \<Longrightarrow> (a, 4096) \<notin> B"
  shows "as_fields t as = as_fields s as" "as_at t (B \<union> pt_blocks (a_pt (as_fields s as)) H' P') as m H' P'"
proof -
  let ?pt = "a_pt (as_fields s as)"
  have own: "pt_own s B ?pt H P" and am: "(as, m) \<in> B - pt_blocks ?pt H P" "24 \<le> m"
    using at by (simp_all add: as_at_def sizeof_addrspace_def)
  have g': "pt_own t (B \<union> pt_blocks ?pt H' P') ?pt H' P'" "same_in (B - (\<lambda>a. (a, 4096)) ` pt_tables ?pt H) s t" using g by (simp_all add: pt_grown_def)
  have nt: "(as, m) \<in> B - (\<lambda>a. (a, 4096)) ` pt_tables ?pt H" using am(1) by (auto simp: pt_blocks_def)
  have "kword t (as + x) = kword s (as + x)" if "x < 24" for x
    by (rule same_inD [OF g'(2) nt]) (use that am(2) in simp)
  from this [of 0] this [of 4] this [of 8] this [of 12] this [of 16] this [of 20]
  show f: "as_fields t as = as_fields s as" by (simp add: as_fields_def)
  have "(as, m) \<notin> pt_blocks ?pt H' P'"
  proof
    assume "(as, m) \<in> pt_blocks ?pt H' P'"
    then have "m = 4096" "as \<in> insert ?pt (ran H') \<union> pt_user P'" by (auto simp: pt_blocks_def pt_tables_def)
    moreover have "n \<in> ran H' \<Longrightarrow> n \<notin> ran H \<Longrightarrow> (n, 4096) \<notin> B" for n using g unfolding pt_grown_def by blast
    ultimately show False using am(1) new by (auto simp: pt_blocks_def pt_tables_def)
  qed
  then show "as_at t (B \<union> pt_blocks ?pt H' P') as m H' P'" using g'(1) am unfolding as_at_def f sizeof_addrspace_def by simp
qed

lemma vm_fault_wp:
  fixes s :: "'a mmu_scheme"
  assumes at: "as_at s B as m H P" and wf: "as_wf (as_fields s as)" and cur: "t_vmspace s = as"
    and ft: "ft = VM_FAULT_READ \<or> ft = VM_FAULT_WRITE" and rm: "ROUND_DOWN va \<in> as_allows (as_fields s as) \<Longrightarrow> H (pt_hi va) = None \<Longrightarrow> room 1 s"
  shows "wp (vm_fault ft va)
    (\<lambda>_ t. ROUND_DOWN va \<in> as_allows (as_fields s as) \<and> fault_served B as m H P va s t)
    (\<lambda>e t. e = EFAULT \<and> ROUND_DOWN va \<notin> as_allows (as_fields s as) \<and> t = s
       \<or> e = ENOMEM \<and> ROUND_DOWN va \<in> as_allows (as_fields s as) \<and> P (pt_hi va) (pt_mid va) = None
          \<and> (\<exists>H'. as_at t (B \<union> pt_blocks (a_pt (as_fields s as)) H' P) as m H' P)) s"
    (is "wp _ ?Q ?R s")
proof -
  let ?A = "as_fields s as" and ?v = "ROUND_DOWN va" and ?s = "s\<lparr>curspl := SPL_HIGH\<rparr>"
  have own: "pt_own s B (a_pt ?A) H P" and am: "(as, m) \<in> B" "24 \<le> m" using at by (simp_all add: as_at_def sizeof_addrspace_def)
  have hb: "heap_blocks s B" by (rule pt_ownD(1) [OF own])
  have a0: "as \<noteq> 0" using block_bound(1) [OF hb am(1)] by simp
  have ad: "u32 (as + x) = as + x" if "x < 24" for x by (rule block_bound(3) [OF hb am(1)]) (use that am(2) in simp)
  have own': "pt_own ?s B (a_pt ?A) H P" using own by simp
  have rm': "H (pt_hi ?v) = None \<longrightarrow> room 1 ?s" if "?v \<in> as_allows ?A" using rm that by (simp add: pt_round)
  have spl: "0 < curspl ?s" by (simp add: SPL_HIGH_def)
  have walk: "wp (walk_pt (a_pt ?A) ?v) (\<lambda>r. wp (if r = 0 then kbind (splx (curspl s)) (\<lambda>_. kfail ENOMEM)
       else kbind (TLB_Random ?v (r OR TLBLO_DIRTY OR TLBLO_VALID)) (\<lambda>_. kbind (splx (curspl s)) (\<lambda>_. kret ()))) ?Q ?R) ?R ?s"
    if v: "?v \<in> as_allows ?A"
  proof (rule wp_mono [OF keeps_rest_wp [OF walk_pt_rest walk_pt_wp [OF own' rm' [OF v] spl]], unfolded pt_round], goal_cases)
    case (1 r t)
    then have rest: "vm.more t = vm.more ?s" by simp
    note mm = more_mmu [OF rest]
    show ?case
    proof (cases "P (pt_hi va) (pt_mid va)")
      case (Some b)
      then have r: "r = b - MIPS_KSEG0" "r \<noteq> 0" "t = ?s" using 1 by auto
      have g: "pt_grown B (a_pt ?A) H s s H P" by (rule pt_grown_refl [OF own])
      have "fault_served B as m H P va s (t\<lparr>tlb_picked := tlb_picked t + 1, tlb := (tlb t)[tlb_slot s := (?v, tlb_lo b)], curspl := curspl s\<rparr>)"
        unfolding fault_served_def using Some grown_as [OF at g] r(3)
        by (intro exI [of _ b] exI [of _ H] exI [of _ P]) simp
      then show ?thesis using r v by (simp add: wps TLB_Random_def TLB_Write_def tlb_slot_def tlb_lo_def)
    next
      case None
      with 1 consider H' where "r = 0" "pt_grown B (a_pt ?A) H ?s t H' P"
        | a H' where "r = a - MIPS_KSEG0" "r \<noteq> 0" "(a, 4096) \<notin> B" "\<forall>k < 1024. kword t (a + 4 * k) = 0"
          "pt_grown B (a_pt ?A) H ?s t H' (P(pt_hi va := (P (pt_hi va))(pt_mid va \<mapsto> a)))" by auto
      then show ?thesis
      proof cases
        case (1 H')
        have g: "pt_grown B (a_pt ?A) H s (t\<lparr>curspl := curspl s\<rparr>) H' P" using 1(2) by (simp add: pt_grown_def)
        show ?thesis using grown_as(2) [OF at g] 1(1) v None by (auto simp: wps)
      next
        case (2 a H')
        let ?P = "P(pt_hi va := (P (pt_hi va))(pt_mid va \<mapsto> a))"
        have g: "pt_grown B (a_pt ?A) H s (t\<lparr>curspl := curspl s\<rparr>) H' ?P" using 2(5) by (simp add: pt_grown_def)
        have nu: "(b, 4096) \<notin> B" if "b \<in> pt_user ?P" "b \<notin> pt_user P" for b
          using that 2(3) pt_user_page [of P "pt_hi va" "pt_mid va" a, OF None] by auto
        have ga: "as_fields t as = ?A" "as_at t (B \<union> pt_blocks (a_pt ?A) H' ?P) as m H' ?P" using grown_as [OF at g nu] by simp_all
        have sm: "same_in (B - (\<lambda>a. (a, 4096)) ` pt_tables (a_pt ?A) H) s t" using 2(5) by (simp add: pt_grown_def)
        have "fault_served B as m H P va s (t\<lparr>tlb_picked := tlb_picked t + 1, tlb := (tlb t)[tlb_slot s := (?v, tlb_lo a)], curspl := curspl s\<rparr>)"
          unfolding fault_served_def using None ga sm mm 2(3,4)
          by (intro exI [of _ a] exI [of _ H'] exI [of _ ?P]) simp
        then show ?thesis using 2(1,2) v mm by (simp add: wps TLB_Random_def TLB_Write_def tlb_slot_def tlb_lo_def)
      qed
    qed
  qed simp
  have ck: "wp (as_check_access as ?v) Q' R' ?s = (if ?v \<in> as_allows ?A then Q' () ?s else R' EFAULT ?s)" for Q' R'
    using as_check_access_wp [of as ?s ?v Q' R', OF ad] wf by simp
  have ft': "ft \<noteq> VM_FAULT_READONLY" "\<not> (ft \<noteq> VM_FAULT_READ \<and> ft \<noteq> VM_FAULT_WRITE)"
    using ft by (auto simp: VM_FAULT_READ_def VM_FAULT_WRITE_def VM_FAULT_READONLY_def)
  have pt: "kword s (as + 20) = a_pt ?A" by (simp add: as_fields_def)
  show ?thesis
  proof (cases "?v \<in> as_allows ?A")
    case True
    then show ?thesis using walk [OF True] a0 ft' ad [of 20] pt
      by (simp add: vm_fault_def wp_kbind wp_splhigh wp_kget wp_kattempt Let_def cur ck wp_get_field as_pt_def) blast
  next
    case False
    then show ?thesis using a0 ft'
      by (simp add: vm_fault_def wps Let_def cur ck)
  qed
qed

section \<open>The properties of address spaces\<close>

text \<open>A small machine with one address space: a page of program text and a stack, nothing mapped yet.\<close>

definition mmu0 :: mmu where
  "mmu0 = \<lparr>curspl = 0, firstfree = 0, firstpaddr = 0, lastpaddr = 0, ipt = 2147549184, system_pages = 16,
     avail_pages = 13, bootstrapped = True, vm_lo = 65536,
     kword = (\<lambda>a. if a < 2147549196 then 1 else if a < 2147553280 then 0 else if a = 2147553280 then 4194304 else if a = 2147553284 then 1
        else if a = 2147553296 then 12 else if a = 2147553300 then 2147557376 else 0),
     pagerefs = replicate 256 \<lparr>next_samesize = None, next_all = None, pageaddr_and_blocktype = 0, freelist_offset = 0, nfree = 0\<rparr>,
     pagerefs_inuse = replicate 8 0, sizebases = replicate 8 None, allbase = None,
     tlb = replicate 64 (0, 0), tlb_pick = (\<lambda>n. n), tlb_picked = 8, t_vmspace = 2147553280\<rparr>"

lemma mmu0_simps [simp]:
  "bootstrapped mmu0" "system_pages mmu0 = 16" "ipt mmu0 = 2147549184" "vm_lo mmu0 = 65536" "allbase mmu0 = None"
  "pagerefs_inuse mmu0 = replicate 8 0" "sizebases mmu0 = replicate 8 None" "length (pagerefs mmu0) = 256" "t_vmspace mmu0 = 2147553280"
  "kword mmu0 = (\<lambda>a. if a < 2147549196 then 1 else if a < 2147553280 then 0 else if a = 2147553280 then 4194304 else if a = 2147553284 then 1
        else if a = 2147553296 then 12 else if a = 2147553300 then 2147557376 else 0)"
  by (simp_all add: mmu0_def)

lemma mmu0_table: "ipt_list mmu0 = 1 # 1 # 1 # replicate 13 0"
proof (rule nth_equalityI)
  fix i
  assume "i < length (ipt_list mmu0)"
  then have i: "i < 16" by simp
  have a: "ipt_addr mmu0 (int i) = 2147549184 + 4 * i" using i by (simp add: ipt_addr_def nat_add_distrib)
  have k: "kword mmu0 (2147549184 + 4 * i) = (if i < 3 then 1 else 0)" using i by simp
  have "ipt_list mmu0 ! i = off32 (int (if i < 3 then 1 else 0))" using i unfolding k [symmetric] a [symmetric]
    by (simp only: nth_ipt_list ipt_len_def mmu0_simps nat_numeral)
  then have "ipt_list mmu0 ! i = (if i < 3 then 1 else 0)" by (simp add: off32_def)
  moreover have "(1 # 1 # 1 # replicate 13 (0 :: int)) ! i = (if i < 3 then 1 else 0)" using i by (simp add: nth_Cons')
  ultimately show "ipt_list mmu0 ! i = (1 # 1 # 1 # replicate 13 0) ! i" by simp
qed simp

lemma mmu0_regions: "vm_regions mmu0 = [0 \<mapsto> 1, 1 \<mapsto> 1, 2 \<mapsto> 1]"
proof
  fix i :: nat
  consider "i = 0" | "i = 1" | "i = 2" | "3 \<le> i" by linarith
  then show "vm_regions mmu0 i = [0 \<mapsto> 1, 1 \<mapsto> 1, 2 \<mapsto> 1] i"
    by cases (simp_all add: vm_regions_def mmu0_table regions_def nth_Cons')
qed

abbreviation mmu0_blocks :: "(nat \<times> nat) set" where
  "mmu0_blocks \<equiv> {(2147553280, 4096), (2147557376, 4096)}"

lemma mmu0_region: "vm_regions mmu0 i = Some N \<longleftrightarrow> i < 3 \<and> N = 1"
proof -
  consider "i = 0" | "i = 1" | "i = 2" | "3 \<le> i" by linarith
  then show ?thesis by cases (auto simp: mmu0_regions)
qed

lemma mmu0_heap: "heap_blocks mmu0 mmu0_blocks"
proof -
  have z: "(1 # 1 # 1 # replicate 13 (0 :: int)) ! i = (if i < 3 then 1 else 0)" if "i < 16" for i
    using that by (simp add: nth_Cons')
  have "ipt_ok (ipt_list mmu0)" unfolding mmu0_table ipt_ok_def
  proof (intro allI impI)
    fix i :: nat
    assume "i < length (1 # 1 # 1 # replicate 13 (0 :: int))"
    then have i: "i < 16" by simp
    show "0 \<le> (1 # 1 # 1 # replicate 13 (0 :: int)) ! i \<and> (0 < (1 # 1 # 1 # replicate 13 (0 :: int)) ! i \<longrightarrow>
      i + nat ((1 # 1 # 1 # replicate 13 (0 :: int)) ! i) \<le> length (1 # 1 # 1 # replicate 13 (0 :: int))
      \<and> (\<forall>j. i < j \<longrightarrow> j < i + nat ((1 # 1 # 1 # replicate 13 (0 :: int)) ! i) \<longrightarrow> (1 # 1 # 1 # replicate 13 (0 :: int)) ! j = 0))"
      unfolding z [OF i] by auto
  qed
  then have "vm_wf mmu0" by (simp add: vm_wf_def vm_table_def MIPS_KSEG0_def mmu0_table regions_def)
  then have rep: "heap_rep mmu0 [] (\<lambda>_. [])" by (rule heap_rep_empty(1)) simp_all
  have "page_va mmu0 1 = 2147553280" "page_va mmu0 2 = 2147557376" by (simp_all add: page_va_def MIPS_KSEG0_def)
  moreover have k: "vm_regions mmu0 q = Some N \<and> q \<noteq> 0 \<longleftrightarrow> (q = 1 \<or> q = 2) \<and> N = 1" for q N unfolding mmu0_region by auto
  have "large_blocks mmu0 [] = {(page_va mmu0 1, 4096), (page_va mmu0 2, 4096)}"
  proof (intro equalityI subsetI)
    fix x :: "nat \<times> nat"
    assume "x \<in> large_blocks mmu0 []"
    then obtain q N where q: "x = (page_va mmu0 q, 4096 * N)" "vm_regions mmu0 q = Some N \<and> q \<noteq> 0" unfolding large_blocks_def by blast
    then show "x \<in> {(page_va mmu0 1, 4096), (page_va mmu0 2, 4096)}" unfolding k by (elim conjE disjE) simp_all
  next
    fix x :: "nat \<times> nat"
    assume "x \<in> {(page_va mmu0 1, 4096), (page_va mmu0 2, 4096)}"
    then obtain q where "x = (page_va mmu0 q, 4096 * 1)" "q = 1 \<or> q = 2" by auto
    moreover from this have "vm_regions mmu0 q = Some 1" "q \<noteq> 0" using k [of q 1] by auto
    ultimately show "x \<in> large_blocks mmu0 []" unfolding large_blocks_def by (intro CollectI exI conjI) (assumption | simp)+
  qed
  ultimately have "live_blocks mmu0 [] (\<lambda>_. []) = mmu0_blocks" by (simp add: live_blocks_def small_blocks_def)
  then show ?thesis using rep unfolding heap_blocks_def by (intro exI [of _ "[]"] exI [of _ "\<lambda>_. []"]) simp
qed

lemma mmu0_as: "as_at mmu0 mmu0_blocks 2147553280 4096 Map.empty (\<lambda>_. Map.empty)"
  "a_pt (as_fields mmu0 2147553280) = 2147557376"
  "as_fields mmu0 2147553280 = \<lparr>a_vbase1 = 4194304, a_npages1 = 1, a_vbase2 = 0, a_npages2 = 0, a_npages_s = 12, a_pt = 2147557376\<rparr>"
proof -
  show f: "as_fields mmu0 2147553280 = \<lparr>a_vbase1 = 4194304, a_npages1 = 1, a_vbase2 = 0, a_npages2 = 0, a_npages_s = 12, a_pt = 2147557376\<rparr>"
    by (simp add: as_fields_def)
  then show p: "a_pt (as_fields mmu0 2147553280) = 2147557376" by simp
  have "pt_own mmu0 mmu0_blocks 2147557376 Map.empty (\<lambda>_. Map.empty)"
    using mmu0_heap by (simp add: pt_own_def pt_mem_def pt_blocks_def pt_tables_def pt_user_def pt_distinct_def)
  then show "as_at mmu0 mmu0_blocks 2147553280 4096 Map.empty (\<lambda>_. Map.empty)"
    unfolding as_at_def p by (simp add: pt_blocks_def pt_tables_def pt_user_def sizeof_addrspace_def)
qed

lemma mmu0_room: "room 1 mmu0"
proof -
  have "3 \<notin> pages_of (vm_regions mmu0)" by (auto simp: pages_of_def mmu0_region)
  moreover have e: "{3..<3 + 1 :: nat} = {3}" by auto
  ultimately have "{3..<3 + 1} \<inter> pages_of (regions (ipt_list mmu0)) = {}" unfolding e vm_regions_def by simp
  then show ?thesis unfolding room_def free_run_def by (intro exI [of _ 3]) simp
qed

text \<open>
  Property C7: a read or write fault inside the regions of the current address space is answered with the
  page of the address, which is the page it had, or else a fresh page of zeros that was not in use; no other
  block changes except the tables, the processor gets an entry for this page, and the interrupt level is
  restored. Outside the regions the fault fails with EFAULT and changes nothing; it fails with ENOMEM only
  when the address had no page. The hypotheses are that the current address space is well formed in the
  heap, its regions and its stack lie within the user space below \<open>USERSTACK\<close> (\<open>as_wf\<close>), and that a page is free for the
  second-level node when the address lies in a region and has none yet. Without such a page the code goes
  wrong: \<open>alloc_kpages\<close> answers with the address of physical page 0, and \<open>pt_node_create\<close> clears the exception
  handlers there and installs their page as the node (lemma \<open>pt_node_create_nomem\<close> of \<open>VmSpace\<close>).
\<close>

theorem vm_fault_demand_zero:
  assumes "as_at s B as m H P" and "as_wf (as_fields s as)" and "t_vmspace s = as"
    and "ft = VM_FAULT_READ \<or> ft = VM_FAULT_WRITE" and "ROUND_DOWN va \<in> as_allows (as_fields s as) \<Longrightarrow> H (pt_hi va) = None \<Longrightarrow> room 1 s"
  shows "wp (vm_fault ft va)
    (\<lambda>_ t. ROUND_DOWN va \<in> as_allows (as_fields s as) \<and> fault_served B as m H P va s t)
    (\<lambda>e t. e = EFAULT \<and> ROUND_DOWN va \<notin> as_allows (as_fields s as) \<and> t = s
       \<or> e = ENOMEM \<and> ROUND_DOWN va \<in> as_allows (as_fields s as) \<and> P (pt_hi va) (pt_mid va) = None
          \<and> (\<exists>H'. as_at t (B \<union> pt_blocks (a_pt (as_fields s as)) H' P) as m H' P)) s"
  by (rule vm_fault_wp [OF assms])

theorem vm_fault_demand_zero_witness:
  "wp (vm_fault VM_FAULT_READ 4194500)
    (\<lambda>_ t. ROUND_DOWN 4194500 \<in> as_allows (as_fields mmu0 2147553280)
       \<and> fault_served mmu0_blocks 2147553280 4096 Map.empty (\<lambda>_. Map.empty) 4194500 mmu0 t)
    (\<lambda>e t. e = EFAULT \<and> ROUND_DOWN 4194500 \<notin> as_allows (as_fields mmu0 2147553280) \<and> t = mmu0
       \<or> e = ENOMEM \<and> ROUND_DOWN 4194500 \<in> as_allows (as_fields mmu0 2147553280) \<and> (\<lambda>_. Map.empty :: pt_nodes) (pt_hi 4194500) (pt_mid 4194500) = None
          \<and> (\<exists>H'. as_at t (mmu0_blocks \<union> pt_blocks (a_pt (as_fields mmu0 2147553280)) H' (\<lambda>_. Map.empty)) 2147553280 4096 H' (\<lambda>_. Map.empty))) mmu0"
  by (rule vm_fault_demand_zero [OF mmu0_as(1)]) (use mmu0_room in \<open>simp_all add: mmu0_as(3) as_wf_def USERSTACK_def\<close>)

text \<open>
  Property C16: \<open>as_destroy\<close> frees the address space, its page table, every node and every user page, and
  nothing else; all other blocks of the heap keep their contents.
\<close>

theorem as_destroy_frees:
  assumes "as_at s B as m H P"
  shows "wp (as_destroy as) (\<lambda>_ t. heap_blocks t (B - pt_blocks (a_pt (as_fields s as)) H P - {(as, m)})
      \<and> same_in (B - pt_blocks (a_pt (as_fields s as)) H P - {(as, m)}) s t) (\<lambda>_ _. False) s"
  by (rule as_destroy_wp [OF assms])

theorem as_destroy_frees_witness:
  "wp (as_destroy 2147553280)
    (\<lambda>_ t. heap_blocks t (mmu0_blocks - pt_blocks (a_pt (as_fields mmu0 2147553280)) Map.empty (\<lambda>_. Map.empty) - {(2147553280, 4096)})
      \<and> same_in (mmu0_blocks - pt_blocks (a_pt (as_fields mmu0 2147553280)) Map.empty (\<lambda>_. Map.empty) - {(2147553280, 4096)}) mmu0 t)
    (\<lambda>_ _. False) mmu0"
  by (rule as_destroy_frees [OF mmu0_as(1)])

end
