(* ===== verification/Threads.thy ===== *)
theory Threads
  imports Vm KArray KQueue
begin

text \<open>
  The thread system: kern/thread/thread.c, scheduler.c, synch.c (semaphores) and hardclock.c, with the
  context switch of pcb.c and the interrupt entry of trap.c and interrupt.c.

  A kernel stack is a list of frames, one for every call that is still to be finished: the code after
  the call of \<open>scheduler\<close> in \<open>mi_switch\<close>, the \<open>splx\<close> at the end of \<open>thread_yield\<close>, the loop of \<open>P\<close>,
  the end of the interrupt handler, and so on. An operation runs up to the point where it gives up the
  processor and leaves the rest on the stack of the processor; \<open>run_frame\<close> executes the top frame. So
  \<open>md_switch\<close> only changes the stack in use (\<open>onstack\<close>), and every step between two frames is a piece
  of code that the source runs with interrupts off.

  Threads and semaphores are objects at addresses; the result of \<open>kmalloc\<close> is an argument of the
  operations that call it. Calls of other components (\<open>as_destroy\<close>, \<open>VOP_DECREF\<close>, \<open>kfree\<close>, ...) are
  recorded in \<open>calls\<close>.
\<close>

section \<open>State\<close>

record pcb =
  pcb_kstack :: nat
  pcb_ininterrupt :: int
  pcb_badfaultfunc :: nat

record thread =
  t_pcb :: pcb
  t_name :: string
  t_sleepaddr :: nat
  t_stack :: nat
  t_magic :: "byte list"      \<comment> \<open>the four bytes at \<open>t_stack\<close>\<close>
  t_vmspace :: nat
  t_cwd :: nat

record semaphore =
  sem_name :: string
  sem_count :: int

datatype threadstate = S_RUN | S_READY | S_SLEEP | S_ZOMB

datatype (discs_sels) frame =
    Body                      \<comment> \<open>inside the function the thread was started with\<close>
  | ThreadStart nat nat nat   \<comment> \<open>\<open>mi_threadstart(data1, data2, func)\<close>, not entered yet\<close>
  | InScheduler nat           \<comment> \<open>\<open>mi_switch\<close> from the call of \<open>scheduler\<close> on, with its local \<open>cur\<close>\<close>
  | SwitchTail                \<comment> \<open>\<open>mi_switch\<close> after \<open>md_switch\<close>\<close>
  | Splx int                  \<comment> \<open>\<open>splx(spl)\<close>\<close>
  | ClearSleep                \<comment> \<open>\<open>thread_sleep\<close> after \<open>mi_switch\<close>\<close>
  | PLoop nat int             \<comment> \<open>the loop of \<open>P\<close> and what follows it\<close>
  | ClockLoop int int         \<comment> \<open>\<open>num_secs--\<close>, the loop of \<open>clocksleep\<close> and what follows it\<close>
  | IrqDone int int nat       \<comment> \<open>the end of \<open>mips_interrupt\<close> and of \<open>mips_trap\<close>, with its argument \<open>tf\<close>\<close>
  | Dead                      \<comment> \<open>\<open>thread_exit\<close> after \<open>mi_switch\<close>\<close>

datatype tcall =
    KfreeThread nat | KfreeName nat | KfreeStack nat
  | VopIncref nat | VopDecref nat | AsDestroy nat | AsActivate nat
  | Dropping string

record tsys = vm +
  in_interrupt :: int
  curkstack :: nat
  curthread :: "nat option"           \<comment> \<open>\<open>None\<close> while the scheduler runs\<close>
  sleepers :: "nat karray option"     \<comment> \<open>\<open>None\<close> is the null pointer\<close>
  zombies :: "nat karray option"
  runqueue :: "nat kqueue option"
  numthreads :: int
  thr :: "nat \<rightharpoonup> thread"
  sems :: "nat \<rightharpoonup> semaphore"
  lbolt :: nat                        \<comment> \<open>the address of the variable\<close>
  lbolt_counter :: int
  bootstack :: nat                    \<comment> \<open>the end of the boot thread's stack, where \<open>start.S\<close> put it\<close>
  onstack :: nat                      \<comment> \<open>the thread whose kernel stack the processor is on\<close>
  kstack :: "nat \<Rightarrow> frame list"
  calls :: "tcall list"

definition STACK_SIZE :: nat where "STACK_SIZE = 4096"
definition HZ :: int where "HZ = 100"
definition stack_magic :: "byte list" where "stack_magic = [0xae, 0x11, 0xda, 0x33]"

text \<open>\<open>kderef\<close> runs an operation on the object behind a pointer; a pointer to nothing is a panic.\<close>

definition kderef :: "('s \<Rightarrow> 't option) \<Rightarrow> ('t \<Rightarrow> 's \<Rightarrow> 's) \<Rightarrow> ('t, 'a) op \<Rightarrow> ('s, 'a) op" where
  "kderef gt pt m = (\<lambda>s. case gt s of None \<Rightarrow> Panic | Some t \<Rightarrow> kzoom (\<lambda>_. t) pt m s)"

lemma wp_kderef:
  "wp (kderef gt pt m) Q R s = (case gt s of None \<Rightarrow> False
     | Some t \<Rightarrow> wp m (\<lambda>x t'. Q x (pt t' s)) (\<lambda>e t'. R e (pt t' s)) t)"
  by (simp add: wp_def kderef_def kzoom_def split: option.splits outcome.splits)

definition on_sleepers :: "(nat karray, 'a) op \<Rightarrow> ('b tsys_scheme, 'a) op" where
  "on_sleepers = kderef sleepers (\<lambda>a s. s\<lparr>sleepers := Some a\<rparr>)"

definition on_zombies :: "(nat karray, 'a) op \<Rightarrow> ('b tsys_scheme, 'a) op" where
  "on_zombies = kderef zombies (\<lambda>a s. s\<lparr>zombies := Some a\<rparr>)"

definition on_runqueue :: "(nat kqueue, 'a) op \<Rightarrow> ('b tsys_scheme, 'a) op" where
  "on_runqueue = kderef runqueue (\<lambda>q s. s\<lparr>runqueue := Some q\<rparr>)"

definition on_thread :: "nat \<Rightarrow> (thread, 'a) op \<Rightarrow> ('b tsys_scheme, 'a) op" where
  "on_thread t = kderef (\<lambda>s. thr s t) (\<lambda>x s. s\<lparr>thr := (thr s)(t \<mapsto> x)\<rparr>)"

definition on_sem :: "nat \<Rightarrow> (semaphore, 'a) op \<Rightarrow> ('b tsys_scheme, 'a) op" where
  "on_sem p = kderef (\<lambda>s. sems s p) (\<lambda>x s. s\<lparr>sems := (sems s)(p \<mapsto> x)\<rparr>)"

definition the_cur :: "('b tsys_scheme, nat) op" where
  "the_cur = kbind (kget curthread) (\<lambda>c. case c of None \<Rightarrow> kpanic | Some t \<Rightarrow> kret t)"

definition call_out :: "tcall \<Rightarrow> ('b tsys_scheme, unit) op" where
  "call_out c = kmodify (\<lambda>s. s\<lparr>calls := calls s @ [c]\<rparr>)"

definition push_frame :: "frame \<Rightarrow> ('b tsys_scheme, unit) op" where
  "push_frame f = kmodify (\<lambda>s. s\<lparr>kstack := (kstack s)(onstack s := f # kstack s (onstack s))\<rparr>)"

definition must :: "('s, 'a) op \<Rightarrow> ('s, unit) op" where
  "must m = kbind (kattempt m) (\<lambda>result. kassert (case result of Inl e \<Rightarrow> False | Inr _ \<Rightarrow> True))"

lemma wp_must: "wp (must m) Q R = wp m (\<lambda>_. Q ()) (\<lambda>_ _. False)"
  by (simp add: must_def wps)

section \<open>The scheduler\<close>

definition scheduler_bootstrap :: "bool \<Rightarrow> bool \<Rightarrow> ('b tsys_scheme, unit) op" where
  "scheduler_bootstrap ok1 ok2 =
     kbind (kmodify (\<lambda>s. s\<lparr>runqueue := q_create ok1 ok2 32\<rparr>)) (\<lambda>_.
     kbind (kget runqueue) (\<lambda>q. kassert (q \<noteq> None)))"

definition scheduler_preallocate :: "bool \<Rightarrow> int \<Rightarrow> ('b tsys_scheme, unit) op" where
  "scheduler_preallocate ok nthreads =
     kbind (kget curspl) (\<lambda>spl.
     kbind (kassert (spl > 0)) (\<lambda>_.
     on_runqueue (q_preallocate ok (nat nthreads))))"

text \<open>The loop of \<open>scheduler_killall\<close>; the size of the queue bounds the number of its elements.\<close>

primrec drop_ready :: "nat \<Rightarrow> ('b tsys_scheme, unit) op" where
  "drop_ready 0 = kbind (on_runqueue (kget q_empty)) kassert"
| "drop_ready (Suc n) =
     kbind (on_runqueue (kget q_empty)) (\<lambda>e.
     if e then kret ()
     else kbind (on_runqueue q_remhead) (\<lambda>r.
          case r of None \<Rightarrow> kpanic | Some t \<Rightarrow>
          kbind (on_thread t (kget t_name)) (\<lambda>name.
          kbind (call_out (Dropping name)) (\<lambda>_. drop_ready n))))"

definition scheduler_killall :: "('b tsys_scheme, unit) op" where
  "scheduler_killall =
     kbind (kget curspl) (\<lambda>spl.
     kbind (kassert (spl > 0)) (\<lambda>_.
     kbind (on_runqueue (kget q_size)) (\<lambda>n. drop_ready n)))"

definition scheduler_shutdown :: "('b tsys_scheme, unit) op" where
  "scheduler_shutdown =
     kbind scheduler_killall (\<lambda>_.
     kbind (kget curspl) (\<lambda>spl.
     kbind (kassert (spl > 0)) (\<lambda>_.
     kbind (on_runqueue q_destroy) (\<lambda>_.
     kmodify (\<lambda>s. s\<lparr>runqueue := None\<rparr>)))))"

text \<open>One test of the loop of \<open>scheduler\<close>: \<open>None\<close> when it goes on to \<open>cpu_idle\<close>.\<close>

definition scheduler :: "('b tsys_scheme, nat option) op" where
  "scheduler =
     kbind (kget curspl) (\<lambda>spl.
     kbind (kassert (spl > 0)) (\<lambda>_.
     kbind (on_runqueue (kget q_empty)) (\<lambda>e.
     if e then kret None
     else kbind (on_runqueue q_remhead) (\<lambda>r.
          case r of None \<Rightarrow> kpanic | Some t \<Rightarrow> kret (Some t)))))"

definition make_runnable :: "bool \<Rightarrow> nat \<Rightarrow> ('b tsys_scheme, unit) op" where
  "make_runnable ok t =
     kbind (kget curspl) (\<lambda>spl.
     kbind (kassert (spl > 0)) (\<lambda>_.
     on_runqueue (q_addtail ok t)))"

section \<open>Creating and destroying threads\<close>

text \<open>\<open>p\<close> is the result of \<open>kmalloc\<close> (0 is \<open>NULL\<close>), \<open>okn\<close> whether \<open>kstrdup\<close> succeeds.\<close>

definition thread_create :: "nat \<Rightarrow> bool \<Rightarrow> string \<Rightarrow> ('b tsys_scheme, nat) op" where
  "thread_create p okn name =
     (if p = 0 then kret 0
      else if \<not> okn then kbind (call_out (KfreeThread p)) (\<lambda>_. kret 0)
      else kbind (kmodify (\<lambda>s. s\<lparr>thr := (thr s)(p \<mapsto>
             \<lparr>t_pcb = \<lparr>pcb_kstack = 0, pcb_ininterrupt = 0, pcb_badfaultfunc = 0\<rparr>, t_name = name,
              t_sleepaddr = 0, t_stack = 0, t_magic = [], t_vmspace = 0, t_cwd = 0\<rparr>)\<rparr>)) (\<lambda>_. kret p))"

definition thread_destroy :: "nat \<Rightarrow> ('b tsys_scheme, unit) op" where
  "thread_destroy t =
     kbind (kget curthread) (\<lambda>c.
     kbind (kassert (c \<noteq> Some t)) (\<lambda>_.
     kbind (on_thread t (kget id)) (\<lambda>x.
     kbind (kassert (t_vmspace x = 0)) (\<lambda>_.
     kbind (kassert (t_cwd x = 0)) (\<lambda>_.
     kbind (kwhen (t_stack x \<noteq> 0) (call_out (KfreeStack (t_stack x)))) (\<lambda>_.
     kbind (call_out (KfreeName t)) (\<lambda>_.
     kbind (call_out (KfreeThread t)) (\<lambda>_.
     kmodify (\<lambda>s. s\<lparr>thr := (thr s)(t := None)\<rparr>)))))))))"

definition exorcise :: "('b tsys_scheme, unit) op" where
  "exorcise =
     kbind (kget curspl) (\<lambda>spl.
     kbind (kassert (spl > 0)) (\<lambda>_.
     kbind (on_zombies (kget array_getnum)) (\<lambda>n.
     kbind (kfor [0..<nat n] (\<lambda>i.
        kbind (on_zombies (array_getguy (int i))) (\<lambda>r.
        case r of None \<Rightarrow> kpanic | Some z \<Rightarrow>
        kbind (kget curthread) (\<lambda>c.
        kbind (kassert (c \<noteq> Some z)) (\<lambda>_.
        thread_destroy z))))) (\<lambda>_.
     must (on_zombies (array_setsize False 0))))))"

definition thread_killall :: "('b tsys_scheme, unit) op" where
  "thread_killall =
     kbind (kget curspl) (\<lambda>spl.
     kbind (kassert (spl > 0)) (\<lambda>_.
     kbind (on_sleepers (kget array_getnum)) (\<lambda>n.
     kbind (kfor [0..<nat n] (\<lambda>i.
        kbind (on_sleepers (array_getguy (int i))) (\<lambda>r.
        case r of None \<Rightarrow> kpanic | Some t \<Rightarrow>
        kbind (on_thread t (kget t_name)) (\<lambda>name. call_out (Dropping name))))) (\<lambda>_.
     must (on_sleepers (array_setsize False 0))))))"

definition thread_panic :: "('b tsys_scheme, unit) op" where
  "thread_panic =
     kbind (kget curspl) (\<lambda>spl.
     kbind (kassert (spl > 0)) (\<lambda>_.
     kbind thread_killall (\<lambda>_. scheduler_killall)))"

definition one_thread_only :: "('b tsys_scheme, bool) op" where
  "one_thread_only =
     kbind splhigh (\<lambda>s.
     kbind (kget numthreads) (\<lambda>n.
     kbind (splx s) (\<lambda>_.
     kret (n = 1))))"

definition md_initpcb0 :: "nat \<Rightarrow> ('b tsys_scheme, unit) op" where
  "md_initpcb0 t =
     kbind (kget curkstack) (\<lambda>k.
     on_thread t (kmodify (\<lambda>x. x\<lparr>t_pcb := \<lparr>pcb_kstack = k, pcb_ininterrupt = 0,
                                            pcb_badfaultfunc = 0\<rparr>\<rparr>)))"

text \<open>The switchframe makes the first switch to the thread enter \<open>mi_threadstart\<close>.\<close>

definition md_initpcb :: "nat \<Rightarrow> nat \<Rightarrow> nat \<Rightarrow> nat \<Rightarrow> nat \<Rightarrow> ('b tsys_scheme, unit) op" where
  "md_initpcb t stack data1 data2 func =
     kbind (on_thread t (kmodify (\<lambda>x. x\<lparr>t_pcb := \<lparr>pcb_kstack = u32 (stack + STACK_SIZE),
        pcb_ininterrupt = 0, pcb_badfaultfunc = 0\<rparr>\<rparr>))) (\<lambda>_.
     kmodify (\<lambda>s. s\<lparr>kstack := (kstack s)(t := [ThreadStart data1 data2 func])\<rparr>))"

definition thread_bootstrap :: "bool \<Rightarrow> bool \<Rightarrow> nat \<Rightarrow> bool \<Rightarrow> ('b tsys_scheme, nat) op" where
  "thread_bootstrap oks okz p okn =
     kbind (kmodify (\<lambda>s. s\<lparr>sleepers := array_create oks\<rparr>)) (\<lambda>_.
     kbind (kget sleepers) (\<lambda>a.
     kbind (kassert (a \<noteq> None)) (\<lambda>_.
     kbind (kmodify (\<lambda>s. s\<lparr>zombies := array_create okz\<rparr>)) (\<lambda>_.
     kbind (kget zombies) (\<lambda>z.
     kbind (kassert (z \<noteq> None)) (\<lambda>_.
     kbind (thread_create p okn ''<boot/menu>'') (\<lambda>me.
     kbind (kassert (me \<noteq> 0)) (\<lambda>_.
     kbind (md_initpcb0 me) (\<lambda>_.
     kbind (kmodify (\<lambda>s. s\<lparr>curthread := Some me, onstack := me, kstack := (kstack s)(me := [Body])\<rparr>)) (\<lambda>_.
     kbind (kmodify (\<lambda>s. s\<lparr>numthreads := 1\<rparr>)) (\<lambda>_.
     kret me)))))))))))"

definition thread_shutdown :: "('b tsys_scheme, unit) op" where
  "thread_shutdown = kmodify (\<lambda>s. s\<lparr>sleepers := None, zombies := None\<rparr>)"

text \<open>The results of the calls of \<open>kmalloc\<close> and \<open>kstrdup\<close> in \<open>thread_fork\<close>, in their order.\<close>

record fork_mem =
  fm_thread :: nat
  fm_name :: bool
  fm_stack :: nat
  fm_sleepers :: bool
  fm_zombies :: bool
  fm_queue :: bool
  fm_run :: bool

definition fork_fail :: "nat \<Rightarrow> nat \<Rightarrow> ('b tsys_scheme, unit) op" where
  "fork_fail newguy stack =
     kbind (on_thread newguy (kget t_cwd)) (\<lambda>cwd.
     kbind (kwhen (cwd \<noteq> 0) (call_out (VopDecref cwd))) (\<lambda>_.
     kbind (call_out (KfreeStack stack)) (\<lambda>_.
     kbind (call_out (KfreeName newguy)) (\<lambda>_.
     kbind (call_out (KfreeThread newguy)) (\<lambda>_.
     kmodify (\<lambda>s. s\<lparr>thr := (thr s)(newguy := None)\<rparr>))))))"

definition fork_enter :: "fork_mem \<Rightarrow> nat \<Rightarrow> ('b tsys_scheme, unit) op" where
  "fork_enter fm newguy =
     kbind (kget numthreads) (\<lambda>n.
     kbind (on_sleepers (array_preallocate (fm_sleepers fm) (n + 1))) (\<lambda>_.
     kbind (on_zombies (array_preallocate (fm_zombies fm) (n + 1))) (\<lambda>_.
     kbind (scheduler_preallocate (fm_queue fm) (n + 1)) (\<lambda>_.
     make_runnable (fm_run fm) newguy))))"

text \<open>\<open>fork_finish\<close>: \<open>thread_fork\<close> from the preallocations to its two exits.\<close>

definition fork_finish :: "fork_mem \<Rightarrow> nat \<Rightarrow> int \<Rightarrow> ('b tsys_scheme, nat) op" where
  "fork_finish fm newguy s =
     kbind (kattempt (fork_enter fm newguy)) (\<lambda>result.
     case result of
       Inr _ \<Rightarrow>
         kbind (kmodify (\<lambda>s. s\<lparr>numthreads := numthreads s + 1\<rparr>)) (\<lambda>_.
         kbind (splx s) (\<lambda>_. kret newguy))
     | Inl e \<Rightarrow>
         kbind (splx s) (\<lambda>_.
         kbind (fork_fail newguy (fm_stack fm)) (\<lambda>_. kfail e)))"

definition thread_fork :: "fork_mem \<Rightarrow> string \<Rightarrow> nat \<Rightarrow> nat \<Rightarrow> nat \<Rightarrow> ('b tsys_scheme, nat) op" where
  "thread_fork fm name data1 data2 func =
     kbind (thread_create (fm_thread fm) (fm_name fm) name) (\<lambda>newguy.
     if newguy = 0 then kfail ENOMEM
     else if fm_stack fm = 0 then
       kbind (call_out (KfreeName newguy)) (\<lambda>_.
       kbind (call_out (KfreeThread newguy)) (\<lambda>_.
       kbind (kmodify (\<lambda>s. s\<lparr>thr := (thr s)(newguy := None)\<rparr>)) (\<lambda>_. kfail ENOMEM)))
     else
       kbind (on_thread newguy (kmodify (\<lambda>x. x\<lparr>t_stack := fm_stack fm, t_magic := stack_magic\<rparr>))) (\<lambda>_.
       kbind the_cur (\<lambda>cur.
       kbind (on_thread cur (kget t_cwd)) (\<lambda>cwd.
       kbind (kwhen (cwd \<noteq> 0) (kbind (call_out (VopIncref cwd)) (\<lambda>_.
                on_thread newguy (kmodify (\<lambda>x. x\<lparr>t_cwd := cwd\<rparr>))))) (\<lambda>_.
       kbind (md_initpcb newguy (fm_stack fm) data1 data2 func) (\<lambda>_.
       kbind splhigh (\<lambda>s. fork_finish fm newguy s)))))))"

section \<open>The context switch\<close>

definition check_magic :: "nat \<Rightarrow> ('b tsys_scheme, unit) op" where
  "check_magic t =
     kbind (on_thread t (kget id)) (\<lambda>x.
     kwhen (t_stack x \<noteq> 0) (kassert (t_magic x = stack_magic)))"

text \<open>
  \<open>mi_switch\<close> up to the call of \<open>scheduler\<close>. When \<open>curthread\<close> is \<open>NULL\<close> (a timer interrupt in the idle
  loop) it returns at once; otherwise the rest of it stays on the stack.
\<close>

definition mi_switch :: "bool \<Rightarrow> threadstate \<Rightarrow> ('b tsys_scheme, unit) op" where
  "mi_switch ok nextstate =
     kbind (kget curspl) (\<lambda>spl.
     kbind (kassert (spl > 0)) (\<lambda>_.
     kbind (kget curthread) (\<lambda>c.
     case c of
       None \<Rightarrow> kret ()
     | Some cur \<Rightarrow>
         kbind (check_magic cur) (\<lambda>_.
         kbind (kmodify (\<lambda>s. s\<lparr>curthread := None\<rparr>)) (\<lambda>_.
         kbind (must (case nextstate of
                        S_READY \<Rightarrow> make_runnable ok cur
                      | S_SLEEP \<Rightarrow> on_sleepers (array_add ok cur)
                      | S_ZOMB \<Rightarrow> on_zombies (array_add ok cur)
                      | S_RUN \<Rightarrow> kpanic)) (\<lambda>_.
         kbind (push_frame SwitchTail) (\<lambda>_.
         push_frame (InScheduler cur))))))))"

definition md_switch :: "nat \<Rightarrow> nat \<Rightarrow> ('b tsys_scheme, unit) op" where
  "md_switch old nu =
     (if old = nu then kret ()
      else
        kbind (kget (\<lambda>s. (curkstack s, in_interrupt s))) (\<lambda>(k, i).
        kbind (on_thread old (kmodify (\<lambda>x. x\<lparr>t_pcb := (t_pcb x)\<lparr>pcb_kstack := k, pcb_ininterrupt := i\<rparr>\<rparr>))) (\<lambda>_.
        kbind (on_thread nu (kget t_pcb)) (\<lambda>pcb.
        kmodify (\<lambda>s. s\<lparr>curkstack := pcb_kstack pcb, in_interrupt := pcb_ininterrupt pcb, onstack := nu\<rparr>)))))"

text \<open>\<open>pop_frame\<close>: the call at the top of the stack in use is over.\<close>

definition pop_frame :: "('b tsys_scheme, unit) op" where
  "pop_frame = kmodify (\<lambda>s. s\<lparr>kstack := (kstack s)(onstack s := tl (kstack s (onstack s)))\<rparr>)"

definition mi_switch_dispatch :: "nat \<Rightarrow> ('b tsys_scheme, unit) op" where
  "mi_switch_dispatch cur =
     kbind scheduler (\<lambda>r.
     case r of
       None \<Rightarrow> kret ()
     | Some nxt \<Rightarrow>
         kbind (kmodify (\<lambda>s. s\<lparr>curthread := Some nxt\<rparr>)) (\<lambda>_.
         kbind pop_frame (\<lambda>_.
         md_switch cur nxt)))"

definition activate_cur :: "('b tsys_scheme, unit) op" where
  "activate_cur =
     kbind the_cur (\<lambda>t.
     kbind (on_thread t (kget t_vmspace)) (\<lambda>as.
     kwhen (as \<noteq> 0) (call_out (AsActivate as))))"

definition mi_switch_tail :: "('b tsys_scheme, unit) op" where
  "mi_switch_tail = kbind exorcise (\<lambda>_. activate_cur)"

text \<open>\<open>exit_cleanup\<close>: what \<open>thread_exit\<close> gives back itself; \<open>exit_leave\<close>: the rest of it.\<close>

definition exit_cleanup :: "nat \<Rightarrow> ('b tsys_scheme, unit) op" where
  "exit_cleanup t =
     kbind (on_thread t (kget t_vmspace)) (\<lambda>as.
     kbind (kwhen (as \<noteq> 0)
              (kbind (on_thread t (kmodify (\<lambda>x. x\<lparr>t_vmspace := 0\<rparr>))) (\<lambda>_. call_out (AsDestroy as)))) (\<lambda>_.
     kbind (on_thread t (kget t_cwd)) (\<lambda>cwd.
     kwhen (cwd \<noteq> 0)
              (kbind (call_out (VopDecref cwd)) (\<lambda>_. on_thread t (kmodify (\<lambda>x. x\<lparr>t_cwd := 0\<rparr>)))))))"

definition exit_leave :: "bool \<Rightarrow> ('b tsys_scheme, unit) op" where
  "exit_leave ok =
     kbind (kget numthreads) (\<lambda>n.
     kbind (kassert (n > 0)) (\<lambda>_.
     kbind (kmodify (\<lambda>s. s\<lparr>numthreads := numthreads s - 1\<rparr>)) (\<lambda>_.
     kbind (push_frame Dead) (\<lambda>_.
     mi_switch ok S_ZOMB))))"

definition thread_exit :: "bool \<Rightarrow> ('b tsys_scheme, unit) op" where
  "thread_exit ok =
     kbind the_cur (\<lambda>t.
     kbind (check_magic t) (\<lambda>_.
     kbind splhigh (\<lambda>_.
     kbind (exit_cleanup t) (\<lambda>_.
     exit_leave ok))))"

definition thread_yield :: "bool \<Rightarrow> ('b tsys_scheme, unit) op" where
  "thread_yield ok =
     kbind splhigh (\<lambda>spl.
     kbind (kget sleepers) (\<lambda>a.
     kbind (kassert (a \<noteq> None)) (\<lambda>_.
     kbind (push_frame (Splx spl)) (\<lambda>_.
     mi_switch ok S_READY))))"

definition thread_sleep :: "bool \<Rightarrow> nat \<Rightarrow> ('b tsys_scheme, unit) op" where
  "thread_sleep ok addr =
     kbind (kget in_interrupt) (\<lambda>i.
     kbind (kassert (i = 0)) (\<lambda>_.
     kbind the_cur (\<lambda>t.
     kbind (on_thread t (kmodify (\<lambda>x. x\<lparr>t_sleepaddr := addr\<rparr>))) (\<lambda>_.
     kbind (push_frame ClearSleep) (\<lambda>_.
     mi_switch ok S_SLEEP)))))"

text \<open>
  The loop of \<open>thread_wakeup\<close>: every turn either removes an element or moves the index, so the
  initial number of sleepers bounds the turns.
\<close>

primrec wakeup_loop :: "nat \<Rightarrow> bool \<Rightarrow> nat \<Rightarrow> int \<Rightarrow> ('b tsys_scheme, unit) op" where
  "wakeup_loop 0 ok addr i =
     kbind (on_sleepers (kget array_getnum)) (\<lambda>num. kassert (\<not> i < num))"
| "wakeup_loop (Suc n) ok addr i =
     kbind (on_sleepers (kget array_getnum)) (\<lambda>num.
     if \<not> i < num then kret ()
     else
       kbind (on_sleepers (array_getguy i)) (\<lambda>r.
       case r of None \<Rightarrow> kpanic | Some t \<Rightarrow>
       kbind (on_thread t (kget t_sleepaddr)) (\<lambda>a.
       if a = addr then
         kbind (on_sleepers (array_remove i)) (\<lambda>_.
         kbind (must (make_runnable ok t)) (\<lambda>_.
         wakeup_loop n ok addr i))
       else wakeup_loop n ok addr (i + 1))))"

definition thread_wakeup :: "bool \<Rightarrow> nat \<Rightarrow> ('b tsys_scheme, unit) op" where
  "thread_wakeup ok addr =
     kbind (kget curspl) (\<lambda>spl.
     kbind (kassert (spl > 0)) (\<lambda>_.
     kbind (on_sleepers (kget array_getnum)) (\<lambda>n.
     wakeup_loop (nat n) ok addr 0)))"

primrec hassleepers_loop :: "nat \<Rightarrow> nat \<Rightarrow> int \<Rightarrow> ('b tsys_scheme, bool) op" where
  "hassleepers_loop 0 addr i = kret False"
| "hassleepers_loop (Suc n) addr i =
     kbind (on_sleepers (array_getguy i)) (\<lambda>r.
     case r of None \<Rightarrow> kpanic | Some t \<Rightarrow>
     kbind (on_thread t (kget t_sleepaddr)) (\<lambda>a.
     if a = addr then kret True else hassleepers_loop n addr (i + 1)))"

definition thread_hassleepers :: "nat \<Rightarrow> ('b tsys_scheme, bool) op" where
  "thread_hassleepers addr =
     kbind (kget curspl) (\<lambda>spl.
     kbind (kassert (spl > 0)) (\<lambda>_.
     kbind (on_sleepers (kget array_getnum)) (\<lambda>n.
     hassleepers_loop (nat n) addr 0)))"

text \<open>A new thread comes through here; its function is \<open>Body\<close>, and \<open>thread_exit\<close> follows it.\<close>

definition mi_threadstart :: "('b tsys_scheme, unit) op" where
  "mi_threadstart =
     kbind activate_cur (\<lambda>_.
     kbind (splx 0) (\<lambda>_.
     push_frame Body))"

section \<open>Semaphores\<close>

definition sem_create :: "nat \<Rightarrow> bool \<Rightarrow> string \<Rightarrow> int \<Rightarrow> ('b tsys_scheme, nat) op" where
  "sem_create p okn namearg initial_count =
     kbind (kassert (initial_count \<ge> 0)) (\<lambda>_.
     if p = 0 then kret 0
     else if \<not> okn then kret 0
     else kbind (kmodify (\<lambda>s. s\<lparr>sems := (sems s)(p \<mapsto> \<lparr>sem_name = namearg,
                                              sem_count = initial_count\<rparr>)\<rparr>)) (\<lambda>_. kret p))"

definition sem_destroy :: "nat \<Rightarrow> ('b tsys_scheme, unit) op" where
  "sem_destroy sem =
     kbind (kassert (sem \<noteq> 0)) (\<lambda>_.
     kbind splhigh (\<lambda>spl.
     kbind (thread_hassleepers sem) (\<lambda>h.
     kbind (kassert (\<not> h)) (\<lambda>_.
     kbind (splx spl) (\<lambda>_.
     kbind (on_sem sem (kget id)) (\<lambda>_.
     kmodify (\<lambda>s. s\<lparr>sems := (sems s)(sem := None)\<rparr>)))))))"

text \<open>One turn of the loop of \<open>P\<close>, or what follows it.\<close>

definition P_loop :: "bool \<Rightarrow> nat \<Rightarrow> int \<Rightarrow> ('b tsys_scheme, unit) op" where
  "P_loop ok sem spl =
     kbind (on_sem sem (kget sem_count)) (\<lambda>c.
     if c = 0 then
       kbind (push_frame (PLoop sem spl)) (\<lambda>_.
       thread_sleep ok sem)
     else
       kbind (kassert (c > 0)) (\<lambda>_.
       kbind (on_sem sem (kmodify (\<lambda>x. x\<lparr>sem_count := sem_count x - 1\<rparr>))) (\<lambda>_.
       kbind (splx spl) (\<lambda>_. kret ()))))"

definition P :: "bool \<Rightarrow> nat \<Rightarrow> ('b tsys_scheme, unit) op" where
  "P ok sem =
     kbind (kassert (sem \<noteq> 0)) (\<lambda>_.
     kbind (kget in_interrupt) (\<lambda>i.
     kbind (kassert (i = 0)) (\<lambda>_.
     kbind splhigh (\<lambda>spl.
     P_loop ok sem spl))))"

definition V :: "bool \<Rightarrow> nat \<Rightarrow> ('b tsys_scheme, unit) op" where
  "V ok sem =
     kbind (kassert (sem \<noteq> 0)) (\<lambda>_.
     kbind splhigh (\<lambda>spl.
     kbind (on_sem sem (kmodify (\<lambda>x. x\<lparr>sem_count := off32 (sem_count x + 1)\<rparr>))) (\<lambda>_.
     kbind (on_sem sem (kget sem_count)) (\<lambda>c.
     kbind (kassert (c > 0)) (\<lambda>_.
     kbind (thread_wakeup ok sem) (\<lambda>_.
     kbind (splx spl) (\<lambda>_. kret ())))))))"

section \<open>The clock and interrupts\<close>

definition hardclock :: "bool \<Rightarrow> ('b tsys_scheme, unit) op" where
  "hardclock ok =
     kbind (kmodify (\<lambda>s. s\<lparr>lbolt_counter := lbolt_counter s + 1\<rparr>)) (\<lambda>_.
     kbind (kget lbolt_counter) (\<lambda>c.
     kbind (kwhen (c \<ge> HZ)
              (kbind (kmodify (\<lambda>s. s\<lparr>lbolt_counter := 0\<rparr>)) (\<lambda>_.
               kbind (kget lbolt) (\<lambda>a. thread_wakeup ok a)))) (\<lambda>_.
     thread_yield ok)))"

definition clocksleep_loop :: "bool \<Rightarrow> int \<Rightarrow> int \<Rightarrow> ('b tsys_scheme, unit) op" where
  "clocksleep_loop ok num_secs s =
     (if num_secs > 0 then
        kbind (push_frame (ClockLoop num_secs s)) (\<lambda>_.
        kbind (kget lbolt) (\<lambda>a. thread_sleep ok a))
      else kbind (splx s) (\<lambda>_. kret ()))"

definition clocksleep :: "bool \<Rightarrow> int \<Rightarrow> ('b tsys_scheme, unit) op" where
  "clocksleep ok num_secs = kbind splhigh (\<lambda>s. clocksleep_loop ok num_secs s)"

text \<open>
  The device handlers either are the timer's or signal a semaphore, as \<open>lhd_irq\<close> does when a transfer
  is complete.
\<close>

datatype irq = Clock | Device nat

text \<open>\<open>SAME_STACK\<close> compares the addresses with the low 12 bits masked off.\<close>

definition SAME_STACK :: "nat \<Rightarrow> nat \<Rightarrow> bool" where
  "SAME_STACK p1 p2 \<longleftrightarrow> p1 - p1 mod STACK_SIZE = p2 - p2 mod STACK_SIZE"

text \<open>
  \<open>mips_trap\<close> of an interrupt. \<open>tf\<close> is the address of the trap frame, which \<open>stack_check\<close> compares with
  the stack of the current thread; \<open>mips_interrupt\<close> calls the handler, which may switch to another
  thread, and the rest of both functions is the frame \<open>IrqDone\<close>.
\<close>

definition stack_check :: "nat \<Rightarrow> ('b tsys_scheme, unit) op" where
  "stack_check tf =
     kbind (kget curthread) (\<lambda>c.
     case c of
       None \<Rightarrow> kret ()
     | Some t \<Rightarrow>
         kbind (on_thread t (kget t_stack)) (\<lambda>k.
         kwhen (k \<noteq> 0) (kbind (kassert (tf > k)) (\<lambda>_. kassert (tf < u32 (k + STACK_SIZE))))))"

definition mips_interrupt :: "bool \<Rightarrow> irq \<Rightarrow> int \<Rightarrow> nat \<Rightarrow> ('b tsys_scheme, unit) op" where
  "mips_interrupt ok h savespl tf =
     kbind (kget in_interrupt) (\<lambda>old_in.
     kbind (kmodify (\<lambda>s. s\<lparr>in_interrupt := 1\<rparr>)) (\<lambda>_.
     kbind (kget curspl) (\<lambda>spl.
     kbind (kassert (spl > 0)) (\<lambda>_.
     kbind (push_frame (IrqDone old_in savespl tf)) (\<lambda>_.
     case h of Clock \<Rightarrow> hardclock ok | Device sem \<Rightarrow> V ok sem)))))"

definition mips_trap_irq :: "bool \<Rightarrow> irq \<Rightarrow> nat \<Rightarrow> ('b tsys_scheme, unit) op" where
  "mips_trap_irq ok h tf =
     kbind (kget curspl) (\<lambda>savespl.
     kbind (kmodify (\<lambda>s. s\<lparr>curspl := SPL_HIGH\<rparr>)) (\<lambda>_.
     kbind (stack_check tf) (\<lambda>_.
     mips_interrupt ok h savespl tf)))"

definition irq_done :: "int \<Rightarrow> int \<Rightarrow> nat \<Rightarrow> ('b tsys_scheme, unit) op" where
  "irq_done old_in savespl tf =
     kbind (kmodify (\<lambda>s. s\<lparr>in_interrupt := old_in\<rparr>)) (\<lambda>_.
     kbind splhigh (\<lambda>_.
     kbind (kmodify (\<lambda>s. s\<lparr>curspl := savespl\<rparr>)) (\<lambda>_.
     kbind (kget curkstack) (\<lambda>k.
     kassert (SAME_STACK (sub32 k 1) tf)))))"

section \<open>The machine\<close>

text \<open>Executing the frame at the top of the stack; \<open>InScheduler\<close> stays there until a thread is ready.\<close>

definition run_frame :: "bool \<Rightarrow> ('b tsys_scheme, unit) op" where
  "run_frame ok =
     kbind (kget (\<lambda>s. kstack s (onstack s))) (\<lambda>ks.
     case ks of
       [] \<Rightarrow> kpanic
     | f # _ \<Rightarrow>
        (case f of
           Body \<Rightarrow> kret ()
         | InScheduler cur \<Rightarrow> mi_switch_dispatch cur
         | ThreadStart data1 data2 func \<Rightarrow> kbind pop_frame (\<lambda>_. mi_threadstart)
         | SwitchTail \<Rightarrow> kbind pop_frame (\<lambda>_. mi_switch_tail)
         | Splx spl \<Rightarrow> kbind pop_frame (\<lambda>_. kbind (splx spl) (\<lambda>_. kret ()))
         | ClearSleep \<Rightarrow> kbind pop_frame (\<lambda>_. kbind the_cur (\<lambda>t.
               on_thread t (kmodify (\<lambda>x. x\<lparr>t_sleepaddr := 0\<rparr>))))
         | PLoop sem spl \<Rightarrow> kbind pop_frame (\<lambda>_. P_loop ok sem spl)
         | ClockLoop n spl \<Rightarrow> kbind pop_frame (\<lambda>_. clocksleep_loop ok (n - 1) spl)
         | IrqDone old_in savespl tf \<Rightarrow> kbind pop_frame (\<lambda>_. irq_done old_in savespl tf)
         | Dead \<Rightarrow> kpanic))"

text \<open>What a thread may call from its own code.\<close>

datatype kcall =
    Spl int
  | Yield
  | Exit
  | CallP nat
  | CallV nat
  | ClockSleep int
  | Fork fork_mem string nat nat nat
  | SemCreate nat bool string int
  | SemDestroy nat

definition run_call :: "bool \<Rightarrow> kcall \<Rightarrow> ('b tsys_scheme, unit) op" where
  "run_call ok c =
     (case c of
        Spl n \<Rightarrow> kbind (splx n) (\<lambda>_. kret ())
      | Yield \<Rightarrow> thread_yield ok
      | Exit \<Rightarrow> thread_exit ok
      | CallP sem \<Rightarrow> P ok sem
      | CallV sem \<Rightarrow> V ok sem
      | ClockSleep n \<Rightarrow> clocksleep ok n
      | Fork fm name d1 d2 func \<Rightarrow> kbind (kattempt (thread_fork fm name d1 d2 func)) (\<lambda>_. kret ())
      | SemCreate p okn name n \<Rightarrow> kbind (sem_create p okn name n) (\<lambda>_. kret ())
      | SemDestroy sem \<Rightarrow> sem_destroy sem)"

definition in_body :: "'b tsys_scheme \<Rightarrow> bool" where
  "in_body s \<longleftrightarrow> (case kstack s (onstack s) of Body # _ \<Rightarrow> True | _ \<Rightarrow> False)"

text \<open>Interrupts are taken at level 0 and by \<open>cpu_idle\<close>.\<close>

definition idling :: "'b tsys_scheme \<Rightarrow> bool" where
  "idling s \<longleftrightarrow> (case kstack s (onstack s) of InScheduler _ # _ \<Rightarrow> True | _ \<Rightarrow> False)
     \<and> (case runqueue s of None \<Rightarrow> False | Some q \<Rightarrow> q_empty q)"

definition irq_enabled :: "'b tsys_scheme \<Rightarrow> bool" where
  "irq_enabled s \<longleftrightarrow> curspl s = 0 \<or> idling s"

end
