(* ===== verification/ThreadStack.thy ===== *)
theory ThreadStack
  imports Threads
begin

text \<open>
  Which memory the kernel stacks are in, and that the processor knows it: \<open>curkstack\<close>, where the kernel
  is entered from user mode, is the end of the stack in use, the pcb of every other thread holds the end
  of its own stack, and a trap frame lies on the stack of the thread whose interrupt it belongs to. The
  assertions of \<open>mips_trap\<close> check exactly this.

  A stack may not overflow: where a trap frame lies within its stack depends on the depth of the calls of
  the compiled code and is an assumption (\<open>tf_legal\<close>), not a result.
\<close>

section \<open>Where the stacks are\<close>

definition stack_end :: "'b tsys_scheme \<Rightarrow> thread \<Rightarrow> nat" where
  "stack_end s x = (if t_stack x = 0 then bootstack s else t_stack x + STACK_SIZE)"

definition tf_on :: "nat \<Rightarrow> nat \<Rightarrow> bool" where
  "tf_on e tf \<longleftrightarrow> e - STACK_SIZE < tf \<and> tf < e"

definition boot_page :: "nat \<Rightarrow> bool" where
  "boot_page e \<longleftrightarrow> e mod STACK_SIZE = 0 \<and> STACK_SIZE \<le> e \<and> e < 4294967296"

definition irqs_on :: "nat \<Rightarrow> frame list \<Rightarrow> bool" where
  "irqs_on e ks \<longleftrightarrow> (\<forall>old spl tf. IrqDone old spl tf \<in> set ks \<longrightarrow> tf_on e tf)"

text \<open>A thread with the stack \<open>a\<close> (0 for the boot thread), its stack pointer on kernel entry \<open>k\<close> and frames \<open>ks\<close>.\<close>

definition stk_at :: "nat \<Rightarrow> nat \<Rightarrow> nat \<Rightarrow> frame list \<Rightarrow> bool" where
  "stk_at b a k ks \<longleftrightarrow> a mod STACK_SIZE = 0 \<and> a + STACK_SIZE < 4294967296
     \<and> k = (if a = 0 then b else a + STACK_SIZE) \<and> irqs_on k ks"

definition stk_ok :: "'b tsys_scheme \<Rightarrow> nat \<Rightarrow> thread \<Rightarrow> bool" where
  "stk_ok s t x \<longleftrightarrow>
     (t = onstack s \<longrightarrow> stk_at (bootstack s) (t_stack x) (curkstack s) (kstack s t))
   \<and> (t \<noteq> onstack s \<longrightarrow> stk_at (bootstack s) (t_stack x) (pcb_kstack (t_pcb x)) (kstack s t))"

definition kstk :: "'b tsys_scheme \<Rightarrow> bool" where
  "kstk s \<longleftrightarrow> boot_page (bootstack s) \<and> (\<forall>t x. thr s t = Some x \<longrightarrow> stk_ok s t x)"

definition kat :: "nat \<Rightarrow> 'b tsys_scheme \<Rightarrow> bool" where
  "kat c s \<longleftrightarrow> kstk s \<and> onstack s = c"

text \<open>
  Where the trap frame of an interrupt is: on the stack in use, or, when the interrupt comes from user
  mode, 148 bytes below \<open>curkstack\<close>, where \<open>exception.S\<close> puts it.
\<close>

definition tf_legal :: "nat \<Rightarrow> 'b tsys_scheme \<Rightarrow> bool" where
  "tf_legal tf s \<longleftrightarrow> (\<exists>x. thr s (onstack s) = Some x \<and> tf_on (stack_end s x) tf)
     \<or> in_body s \<and> tf = sub32 (curkstack s) 148"

lemma stack_end_cong: "bootstack s' = bootstack s \<Longrightarrow> stack_end s' x = stack_end s x"
  by (simp add: stack_end_def)

lemma kstk_stk: "kstk s \<Longrightarrow> thr s t = Some x \<Longrightarrow> stk_ok s t x"
  by (simp add: kstk_def)

lemma kstk_end:
  assumes "kstk s" and "thr s t = Some x"
  shows "boot_page (stack_end s x)" and "irqs_on (stack_end s x) (kstack s t)"
    and "t = onstack s \<Longrightarrow> curkstack s = stack_end s x"
  using kstk_stk [OF assms] assms(1)
  by (auto simp: kstk_def stk_ok_def stk_at_def stack_end_def boot_page_def STACK_SIZE_def mod_simps split: if_splits)

lemma tf_legal_on:
  assumes k: "kstk s" and x: "thr s (onstack s) = Some x" and tf: "tf_legal tf s"
  shows "tf_on (stack_end s x) tf"
proof -
  have "curkstack s = stack_end s x" "boot_page (stack_end s x)" using kstk_end [OF k x] by simp_all
  then have "tf_on (stack_end s x) (sub32 (curkstack s) 148)"
    by (auto simp: tf_on_def boot_page_def STACK_SIZE_def sub32_id intro: diff_less_mono2)
  then show ?thesis using tf x by (auto simp: tf_legal_def)
qed

text \<open>What the two assertions of \<open>mips_trap\<close> test.\<close>

lemma same_stack:
  assumes "boot_page e" and "tf_on e tf"
  shows "SAME_STACK (sub32 e 1) tf"
proof -
  obtain k where k: "e = 4096 * k" using assms(1) by (auto simp: boot_page_def STACK_SIZE_def)
  then obtain j where j: "k = Suc j" using assms(1) by (cases k) (auto simp: boot_page_def STACK_SIZE_def)
  have "tf div 4096 = j"
  proof (rule div_nat_eqI)
    show "4096 * j \<le> tf" "tf < 4096 * Suc j"
      using assms(2) k j by (auto simp: tf_on_def STACK_SIZE_def algebra_simps)
  qed
  then have "tf - tf mod 4096 = 4096 * j" by (metis minus_mod_eq_mult_div)
  moreover have "sub32 e 1 = 4096 * j + 4095"
    using assms(1) k j by (simp add: sub32_id boot_page_def STACK_SIZE_def)
  ultimately show ?thesis by (simp add: SAME_STACK_def STACK_SIZE_def)
qed

lemma irqs_on_simps [simp]:
  "irqs_on e []"
  "irqs_on e (f # ks) \<longleftrightarrow> (case f of IrqDone old spl tf \<Rightarrow> tf_on e tf | _ \<Rightarrow> True) \<and> irqs_on e ks"
  by (auto simp: irqs_on_def split: frame.splits)

lemma irqs_on_tl: "irqs_on e ks \<Longrightarrow> irqs_on e (tl ks)"
  by (cases ks) auto

section \<open>Operations that keep it\<close>

text \<open>
  \<open>keeps c m\<close>: run on the stack of thread \<open>c\<close>, the operation stays there and keeps the invariant;
  \<open>goes c m\<close>: it keeps the invariant and may end on another stack.
\<close>

definition keeps :: "nat \<Rightarrow> ('b tsys_scheme, 'a) op \<Rightarrow> bool" where
  "keeps c m \<longleftrightarrow> (\<forall>s. kat c s \<longrightarrow> (case m s of Done x s' \<Rightarrow> kat c s' | Fail e s' \<Rightarrow> kat c s' | Panic \<Rightarrow> True))"

definition goes :: "nat \<Rightarrow> ('b tsys_scheme, 'a) op \<Rightarrow> bool" where
  "goes c m \<longleftrightarrow> (\<forall>s. kat c s \<longrightarrow> (case m s of Done x s' \<Rightarrow> kstk s' | Fail e s' \<Rightarrow> kstk s' | Panic \<Rightarrow> True))"

named_theorems keep \<open>operations that keep the stacks\<close>

lemma kat_kstk: "kat c s \<Longrightarrow> kstk s"
  by (simp add: kat_def)

lemma keepsI: "(\<And>s. kat c s \<Longrightarrow> (case m s of Done x s' \<Rightarrow> kat c s' | Fail e s' \<Rightarrow> kat c s' | Panic \<Rightarrow> True)) \<Longrightarrow> keeps c m"
  by (simp add: keeps_def)

lemma goesI: "(\<And>s. kat c s \<Longrightarrow> (case m s of Done x s' \<Rightarrow> kstk s' | Fail e s' \<Rightarrow> kstk s' | Panic \<Rightarrow> True)) \<Longrightarrow> goes c m"
  by (simp add: goes_def)

lemma keepsD: "keeps c m \<Longrightarrow> kat c s \<Longrightarrow> (case m s of Done x s' \<Rightarrow> kat c s' | Fail e s' \<Rightarrow> kat c s' | Panic \<Rightarrow> True)"
  by (simp add: keeps_def)

lemma goesD: "goes c m \<Longrightarrow> kat c s \<Longrightarrow> (case m s of Done x s' \<Rightarrow> kstk s' | Fail e s' \<Rightarrow> kstk s' | Panic \<Rightarrow> True)"
  by (simp add: goes_def)

lemma keeps_goes:
  fixes m :: "('b tsys_scheme, 'a) op"
  assumes m: "keeps c m"
  shows "goes c m"
proof (rule goesI)
  fix s :: "'b tsys_scheme" assume s: "kat c s"
  show "case m s of Done x s' \<Rightarrow> kstk s' | Fail e s' \<Rightarrow> kstk s' | Panic \<Rightarrow> True"
    using keepsD [OF m s] by (cases "m s") (simp_all add: kat_kstk)
qed

lemma goes_kbind:
  fixes m :: "('b tsys_scheme, 'a) op"
  assumes m: "keeps c m" and k: "\<And>x. goes c (k x)"
  shows "goes c (kbind m k)"
proof (rule goesI)
  fix s :: "'b tsys_scheme" assume s: "kat c s"
  show "case kbind m k s of Done x s' \<Rightarrow> kstk s' | Fail e s' \<Rightarrow> kstk s' | Panic \<Rightarrow> True"
    using keepsD [OF m s] goesD [OF k] by (cases "m s") (simp_all add: kbind_def kat_kstk)
qed

lemma keeps_kbind [keep]:
  fixes m :: "('b tsys_scheme, 'a) op"
  assumes m: "keeps c m" and k: "\<And>x. keeps c (k x)"
  shows "keeps c (kbind m k)"
proof (rule keepsI)
  fix s :: "'b tsys_scheme" assume s: "kat c s"
  show "case kbind m k s of Done x s' \<Rightarrow> kat c s' | Fail e s' \<Rightarrow> kat c s' | Panic \<Rightarrow> True"
    using keepsD [OF m s] keepsD [OF k] by (cases "m s") (simp_all add: kbind_def)
qed

lemma keeps_simple [keep]:
  "keeps c (kret x)" "keeps c (kfail e)" "keeps c kpanic" "keeps c (kget f)" "keeps c (kassert b)"
  by (simp_all add: keeps_def kret_def kfail_def kpanic_def kget_def kassert_def)

lemma keeps_kwhen [keep]: "(b \<Longrightarrow> keeps c m) \<Longrightarrow> keeps c (kwhen b m)"
  by (cases b) (simp_all add: kwhen_def keep)

lemma keeps_if [keep]: "(b \<Longrightarrow> keeps c m) \<Longrightarrow> (\<not> b \<Longrightarrow> keeps c m') \<Longrightarrow> keeps c (if b then m else m')"
  by simp

lemma keeps_option [keep]:
  "(x = None \<Longrightarrow> keeps c m) \<Longrightarrow> (\<And>y. x = Some y \<Longrightarrow> keeps c (f y))
    \<Longrightarrow> keeps c (case x of None \<Rightarrow> m | Some y \<Rightarrow> f y)"
  by (cases x) simp_all

lemma keeps_sum [keep]:
  "(\<And>e. keeps c (f e)) \<Longrightarrow> (\<And>y. keeps c (g y)) \<Longrightarrow> keeps c (case x of Inl e \<Rightarrow> f e | Inr y \<Rightarrow> g y)"
  by (cases x) simp_all

lemma keeps_kattempt [keep]:
  fixes m :: "('b tsys_scheme, 'a) op"
  assumes m: "keeps c m"
  shows "keeps c (kattempt m)"
proof (rule keepsI)
  fix s :: "'b tsys_scheme" assume s: "kat c s"
  show "case kattempt m s of Done x s' \<Rightarrow> kat c s' | Fail e s' \<Rightarrow> kat c s' | Panic \<Rightarrow> True"
    using keepsD [OF m s] by (cases "m s") (simp_all add: kattempt_def)
qed

lemma keeps_kfor [keep]: "(\<And>i. keeps c (f i)) \<Longrightarrow> keeps c (kfor is f)"
  by (induction "is") (auto intro: keep)

lemma keeps_must [keep]: "keeps c m \<Longrightarrow> keeps c (must m)"
  unfolding must_def by (intro keep)

text \<open>A change of anything but the stacks, the threads and the registers.\<close>

lemma kat_same:
  assumes "kat c s" and "bootstack s' = bootstack s" "thr s' = thr s" "onstack s' = onstack s"
    "curkstack s' = curkstack s" "kstack s' = kstack s"
  shows "kat c s'"
  using assms(1) unfolding kat_def kstk_def stk_ok_def assms(2-) .

lemma keeps_kmodify: "(\<And>s. kat c s \<Longrightarrow> kat c (f s)) \<Longrightarrow> keeps c (kmodify f)"
  by (simp add: keeps_def kmodify_def)

lemma keeps_set [keep]:
  "keeps c (kmodify (\<lambda>s. s\<lparr>curspl := n\<rparr>))" "keeps c (kmodify (\<lambda>s. s\<lparr>in_interrupt := i\<rparr>))"
  "keeps c (kmodify (\<lambda>s. s\<lparr>curthread := ct\<rparr>))" "keeps c (kmodify (\<lambda>s. s\<lparr>numthreads := nt s\<rparr>))"
  "keeps c (kmodify (\<lambda>s. s\<lparr>lbolt_counter := lc s\<rparr>))" "keeps c (kmodify (\<lambda>s. s\<lparr>sems := sm s\<rparr>))"
  by (rule keeps_kmodify, erule kat_same; simp)+

lemma keeps_curspl [keep]: "keeps c (splx n)" "keeps c splhigh"
  unfolding splhigh_def splx_def by (intro keep)+

lemma keeps_call_out [keep]: "keeps c (call_out x)"
  unfolding call_out_def by (rule keeps_kmodify, erule kat_same) simp_all

lemma keeps_the_cur [keep]: "keeps c the_cur"
  unfolding the_cur_def by (intro keep)

lemma keeps_kderef:
  assumes "\<And>s t. kat c s \<Longrightarrow> kat c (pt t s)"
  shows "keeps c (kderef gt pt m)"
  using assms by (auto simp: keeps_def kderef_def kzoom_def split: option.splits outcome.splits)

lemma keeps_parts [keep]: "keeps c (on_runqueue m)" "keeps c (on_sleepers m')" "keeps c (on_zombies m')"
    "keeps c (on_sem p m'')"
  unfolding on_runqueue_def on_sleepers_def on_zombies_def on_sem_def
  by (rule keeps_kderef, erule kat_same; simp)+

definition same_place :: "(thread, 'a) op \<Rightarrow> bool" where
  "same_place m \<longleftrightarrow> (\<forall>x. case m x of Panic \<Rightarrow> True
     | Done y x' \<Rightarrow> t_stack x' = t_stack x \<and> t_pcb x' = t_pcb x
     | Fail e x' \<Rightarrow> t_stack x' = t_stack x \<and> t_pcb x' = t_pcb x)"

lemma kat_thr:
  assumes "kat c s" and "thr s t = Some x" and "t_stack x' = t_stack x" "t_pcb x' = t_pcb x"
  shows "kat c (s\<lparr>thr := (thr s)(t \<mapsto> x')\<rparr>)"
  using assms unfolding kat_def kstk_def stk_ok_def by (auto split: if_splits)

lemma keeps_on_thread:
  assumes m: "same_place m"
  shows "keeps c (on_thread t m :: ('b tsys_scheme, 'a) op)"
proof (rule keepsI)
  fix s :: "'b tsys_scheme" assume s: "kat c s"
  show "case on_thread t m s of Done x s' \<Rightarrow> kat c s' | Fail e s' \<Rightarrow> kat c s' | Panic \<Rightarrow> True"
  proof (cases "thr s t")
    case (Some x)
    then show ?thesis using m [unfolded same_place_def, rule_format, of x] kat_thr [OF s Some]
      by (cases "m x") (simp_all add: on_thread_def kderef_def kzoom_def)
  qed (simp add: on_thread_def kderef_def)
qed

lemma keeps_thread_get [keep]: "keeps c (on_thread t (kget f))"
  by (rule keeps_on_thread) (simp add: same_place_def kget_def)

lemma keeps_thread_set [keep]:
  "keeps c (on_thread t (kmodify (\<lambda>x. x\<lparr>t_sleepaddr := a\<rparr>)))" "keeps c (on_thread t (kmodify (\<lambda>x. x\<lparr>t_vmspace := a\<rparr>)))"
  "keeps c (on_thread t (kmodify (\<lambda>x. x\<lparr>t_cwd := a\<rparr>)))"
  by (rule keeps_on_thread; simp add: same_place_def kmodify_def)+

lemma keeps_forget [keep]: "keeps c (kmodify (\<lambda>s. s\<lparr>thr := (thr s)(t := None)\<rparr>))"
  by (rule keeps_kmodify) (auto simp: kat_def kstk_def stk_ok_def split: if_splits)

lemma kat_frames:
  assumes k: "kat c s" and ks: "\<And>e. irqs_on e (kstack s c) \<Longrightarrow> irqs_on e ks"
  shows "kat c (s\<lparr>kstack := (kstack s)(onstack s := ks)\<rparr>)"
proof -
  have "stk_at b a e ks" if "stk_at b a e (kstack s c)" for b a e
    using that ks by (auto simp: stk_at_def)
  then show ?thesis using k by (auto simp: kat_def kstk_def stk_ok_def)
qed

lemma keeps_push [keep]: "\<not> is_IrqDone f \<Longrightarrow> keeps c (push_frame f)"
  unfolding push_frame_def
  by (rule keeps_kmodify, rule kat_frames) (cases f; simp add: kat_def)+

lemma keeps_pop [keep]: "keeps c pop_frame"
  unfolding pop_frame_def
  by (rule keeps_kmodify, rule kat_frames) (simp_all add: kat_def irqs_on_tl)

section \<open>The operations of the thread system\<close>

lemma keeps_scheduler [keep]:
  "keeps c scheduler" "keeps c (make_runnable ok t)" "keeps c (scheduler_preallocate ok n)"
  unfolding scheduler_def make_runnable_def scheduler_preallocate_def by (intro keep)+

lemma keeps_thread_destroy [keep]: "keeps c (thread_destroy t)"
  unfolding thread_destroy_def by (intro keep)

lemma keeps_exorcise [keep]: "keeps c exorcise" "keeps c activate_cur" "keeps c mi_switch_tail"
proof -
  show "keeps c exorcise" unfolding exorcise_def by (intro keep)
  moreover show "keeps c activate_cur" unfolding activate_cur_def by (intro keep)
  ultimately show "keeps c mi_switch_tail" unfolding mi_switch_tail_def by (intro keep)
qed

lemma keeps_check_magic [keep]: "keeps c (check_magic t)"
  unfolding check_magic_def by (intro keep)

lemma keeps_mi_switch [keep]: "keeps c (mi_switch ok st)"
proof -
  have "keeps c (case st of S_READY \<Rightarrow> make_runnable ok t | S_SLEEP \<Rightarrow> on_sleepers (array_add ok t)
      | S_ZOMB \<Rightarrow> on_zombies (array_add ok t) | S_RUN \<Rightarrow> kpanic)" for t
    by (cases st) (auto intro: keep)
  then show ?thesis unfolding mi_switch_def by (intro keep) simp_all
qed

lemma keeps_thread_calls [keep]:
  "keeps c (thread_yield ok)" "keeps c (thread_sleep ok a)" "keeps c (exit_cleanup t)" "keeps c (exit_leave ok)"
  unfolding thread_yield_def thread_sleep_def exit_cleanup_def exit_leave_def
  by (intro keep; simp)+

lemma keeps_thread_exit [keep]: "keeps c (thread_exit ok)"
  unfolding thread_exit_def by (intro keep)

lemma keeps_wakeup_loop [keep]: "keeps c (wakeup_loop n ok a i)"
proof (induction n arbitrary: i)
  case (Suc n)
  show ?case unfolding wakeup_loop.simps by (intro keep Suc.IH)
qed (simp, intro keep)

lemma keeps_hassleepers_loop [keep]: "keeps c (hassleepers_loop n a i)"
proof (induction n arbitrary: i)
  case (Suc n)
  show ?case unfolding hassleepers_loop.simps by (intro keep Suc.IH)
qed (simp, intro keep)

lemma keeps_wakeup [keep]: "keeps c (thread_wakeup ok a)" "keeps c (thread_hassleepers a)"
  unfolding thread_wakeup_def thread_hassleepers_def by (intro keep)+

lemma keeps_sems [keep]:
  "keeps c (sem_create p okn name n)" "keeps c (sem_destroy p)" "keeps c (P_loop ok p spl)" "keeps c (V ok p)"
  unfolding sem_create_def sem_destroy_def P_loop_def V_def by (intro keep; simp)+
lemma keeps_clock [keep]:
  "keeps c (hardclock ok)" "keeps c (clocksleep_loop ok n spl)" "keeps c (irq_done old spl tf)"
  "keeps c (fork_finish fm t spl)" "keeps c mi_threadstart"
  unfolding hardclock_def clocksleep_loop_def irq_done_def fork_finish_def fork_enter_def fork_fail_def
    mi_threadstart_def
  by (intro keep; simp)+

lemma keeps_calls [keep]: "keeps c (P ok p)" "keeps c (clocksleep ok n)"
  unfolding P_def clocksleep_def by (intro keep)+

text \<open>The switch of the stack: \<open>curkstack\<close> goes to the pcb of the one thread and comes from the other's.\<close>

lemma goes_md_switch: "goes c (md_switch c nu)"
proof (rule goesI)
  fix s :: "'b tsys_scheme" assume k: "kat c s"
  show "case md_switch c nu s of Done x s' \<Rightarrow> kstk s' | Fail e s' \<Rightarrow> kstk s' | Panic \<Rightarrow> True"
  proof (cases "thr s c")
    case None
    then show ?thesis using k
      by (simp add: md_switch_def kret_def kbind_def kget_def on_thread_def kderef_def kat_kstk)
  next
    case (Some x)
    then show ?thesis using k
      by (cases "thr s nu") (auto simp: md_switch_def kret_def kbind_def kget_def kmodify_def on_thread_def
        kderef_def kzoom_def kat_def kstk_def stk_ok_def)
  qed
qed

lemma goes_dispatch: "goes c (mi_switch_dispatch c)"
  unfolding mi_switch_dispatch_def
proof (rule goes_kbind [OF keeps_scheduler(1)])
  fix r :: "nat option"
  show "goes c (case r of None \<Rightarrow> kret () | Some nxt \<Rightarrow>
     kbind (kmodify (\<lambda>s. s\<lparr>curthread := Some nxt\<rparr>)) (\<lambda>_. kbind pop_frame (\<lambda>_. md_switch c nxt)))"
    by (cases r) (auto intro!: goes_kbind goes_md_switch keep keeps_goes [OF keeps_simple(1)])
qed

lemma run_frame_kstk:
  fixes s :: "'b tsys_scheme"
  assumes k: "kstk s" and c: "\<And>c r. kstack s (onstack s) = InScheduler c # r \<Longrightarrow> c = onstack s"
    and r: "run_frame ok s = Done y s'"
  shows "kstk s'"
proof -
  have ks: "kat (onstack s) s" using k by (simp add: kat_def)
  have g: "kstk t" if "goes (onstack s) m" "m s = Done x t" for m :: "('b tsys_scheme, unit) op" and x t
    using goesD [OF that(1) ks] that(2) by simp
  show ?thesis
  proof (cases "kstack s (onstack s)")
    case Nil
    then show ?thesis using r by (simp add: run_frame_def kbind_def kget_def kpanic_def)
  next
    case (Cons f fs)
    have "goes (onstack s) (case f of
           Body \<Rightarrow> kret ()
         | InScheduler cur \<Rightarrow> mi_switch_dispatch cur
         | ThreadStart data1 data2 func \<Rightarrow> kbind pop_frame (\<lambda>_. mi_threadstart)
         | SwitchTail \<Rightarrow> kbind pop_frame (\<lambda>_. mi_switch_tail)
         | Splx spl \<Rightarrow> kbind pop_frame (\<lambda>_. kbind (splx spl) (\<lambda>_. kret ()))
         | ClearSleep \<Rightarrow> kbind pop_frame (\<lambda>_. kbind the_cur (\<lambda>t.
               on_thread t (kmodify (\<lambda>x. x\<lparr>t_sleepaddr := 0\<rparr>))))
         | PLoop sem spl \<Rightarrow> kbind pop_frame (\<lambda>_. P_loop ok sem spl)
         | ClockLoop n spl \<Rightarrow> kbind pop_frame (\<lambda>_. clocksleep_loop ok (n - 1) spl)
         | IrqDone old_in savespl tf \<Rightarrow> kbind pop_frame (\<lambda>_. irq_done old_in savespl tf)
         | Dead \<Rightarrow> kpanic)"
      using c Cons by (cases f) (auto intro!: keep intro: keeps_goes goes_dispatch)
    from g [OF this] show ?thesis using r Cons by (simp add: run_frame_def kbind_def kget_def)
  qed
qed

section \<open>Traps\<close>

lemma stack_check_Done:
  assumes k: "kstk s" and tf: "tf_legal tf s" and t: "\<And>t. curthread s = Some t \<Longrightarrow> t = onstack s \<and> t \<in> dom (thr s)"
  shows "stack_check tf s = Done () s"
proof (cases "curthread s")
  case None
  then show ?thesis by (simp add: stack_check_def kbind_def kget_def kret_def)
next
  case (Some c)
  obtain x where x: "thr s (onstack s) = Some x" "c = onstack s" using t [OF Some] by auto
  have on: "tf_on (stack_end s x) tf" by (rule tf_legal_on [OF k x(1) tf])
  have room: "t_stack x + STACK_SIZE < 4294967296"
    using kstk_stk [OF k x(1)] by (simp add: stk_ok_def stk_at_def)
  have b: "t_stack x < tf" "tf < u32 (t_stack x + STACK_SIZE)" if "t_stack x \<noteq> 0"
    using on that unfolding tf_on_def stack_end_def u32_id [OF room] by simp_all
  have "on_thread c (kget t_stack) s = Done (t_stack x) s"
    using x by (simp add: on_thread_def kderef_def kzoom_def kget_def map_upd_triv)
  moreover have "kwhen (t_stack x \<noteq> 0) (kbind (kassert (tf > t_stack x))
      (\<lambda>_. kassert (tf < u32 (t_stack x + STACK_SIZE)))) s = Done () s"
    using b by (cases "t_stack x = 0") (simp_all add: kwhen_def kret_def kbind_def kassert_def)
  moreover have "stack_check tf s = kbind (on_thread c (kget t_stack)) (\<lambda>k. kwhen (k \<noteq> 0)
      (kbind (kassert (tf > k)) (\<lambda>_. kassert (tf < u32 (k + STACK_SIZE))))) s"
    using Some by (simp add: stack_check_def kbind_def kget_def)
  ultimately show ?thesis by (simp add: kbind_def [of "on_thread c (kget t_stack)"])
qed

text \<open>The frame of an interrupt is on the stack in use.\<close>

lemma kat_irq:
  assumes k: "kat c s" and x: "thr s c = Some x" and on: "tf_on (stack_end s x) tf"
  shows "kat c (s\<lparr>kstack := (kstack s)(onstack s := IrqDone old spl tf # kstack s (onstack s))\<rparr>)"
proof -
  have "stk_at (bootstack s) (t_stack x) (curkstack s) (IrqDone old spl tf # kstack s c)"
    using kstk_stk [OF kat_kstk [OF k] x] k on
    by (auto simp: kat_def stk_ok_def stk_at_def stack_end_def)
  then show ?thesis using k x by (auto simp: kat_def kstk_def stk_ok_def)
qed

lemma mips_trap_irq_kstk:
  fixes s :: "'b tsys_scheme"
  assumes k: "kstk s" and x: "thr s (onstack s) = Some x" and tf: "tf_legal tf s"
    and t: "\<And>t. curthread s = Some t \<Longrightarrow> t = onstack s" and r: "mips_trap_irq ok h tf s = Done y s'"
  shows "kstk s'"
proof -
  let ?h = "case h of Clock \<Rightarrow> hardclock ok | Device sem \<Rightarrow> V ok sem"
  let ?c = "s\<lparr>curspl := SPL_HIGH\<rparr>" and ?s = "s\<lparr>curspl := SPL_HIGH, in_interrupt := 1,
     kstack := (kstack s)(onstack s := IrqDone (in_interrupt s) (curspl s) tf # kstack s (onstack s))\<rparr>"
  have k0: "kat (onstack s) s" using k by (simp add: kat_def)
  have "kat (onstack s) (s\<lparr>curspl := SPL_HIGH, in_interrupt := 1\<rparr>)" by (rule kat_same [OF k0]) simp_all
  from kat_irq [OF this, where x = x and tf = tf and old = "in_interrupt s" and spl = "curspl s"]
  have k1: "kat (onstack s) ?s" using x tf_legal_on [OF k x tf] stack_end_cong [of "s\<lparr>curspl := SPL_HIGH, in_interrupt := 1\<rparr>" s x] by simp
  have "kat (onstack s) ?c" by (rule kat_same [OF k0]) simp_all
  then have "stack_check tf ?c = Done () ?c"
    by (intro stack_check_Done)
      (use tf x t in \<open>auto simp: kat_def tf_legal_def in_body_def stack_end_cong [of ?c s]\<close>)
  then have "?h ?s = Done y s'" using r
    by (simp add: mips_trap_irq_def mips_interrupt_def kbind_def kget_def kmodify_def kassert_def push_frame_def
      SPL_HIGH_def)
  moreover have "keeps (onstack s) ?h" by (cases h) (auto intro: keep)
  ultimately show ?thesis using keepsD [OF _ k1] by (fastforce simp: kat_def)
qed

section \<open>Calls\<close>

text \<open>
  The memory of a new thread: \<open>kmalloc\<close> returns addresses that are not in use, and whole pages for a
  stack of a page.
\<close>

definition fork_mem_ok :: "fork_mem \<Rightarrow> 'b tsys_scheme \<Rightarrow> bool" where
  "fork_mem_ok fm s \<longleftrightarrow> fm_thread fm \<notin> dom (thr s) \<and> fm_stack fm mod STACK_SIZE = 0
     \<and> fm_stack fm + STACK_SIZE < 4294967296"

text \<open>The state in which \<open>thread_fork\<close> comes to its preallocations.\<close>

definition forked :: "fork_mem \<Rightarrow> string \<Rightarrow> nat \<Rightarrow> nat \<Rightarrow> nat \<Rightarrow> nat \<Rightarrow> 'b tsys_scheme \<Rightarrow> 'b tsys_scheme" where
  "forked fm name d1 d2 func cwd s = s\<lparr>calls := calls s @ (if cwd \<noteq> 0 then [VopIncref cwd] else []),
     thr := (thr s)(fm_thread fm \<mapsto>
       \<lparr>t_pcb = \<lparr>pcb_kstack = u32 (fm_stack fm + STACK_SIZE), pcb_ininterrupt = 0, pcb_badfaultfunc = 0\<rparr>,
        t_name = name, t_sleepaddr = 0, t_stack = fm_stack fm, t_magic = stack_magic, t_vmspace = 0, t_cwd = cwd\<rparr>),
     kstack := (kstack s)(fm_thread fm := [ThreadStart d1 d2 func]), curspl := SPL_HIGH\<rparr>"

lemma thread_fork_forked:
  assumes c: "curthread s = Some t" and x: "thr s t = Some x" and f: "fork_mem_ok fm s"
    and m: "fm_thread fm \<noteq> 0" "fm_name fm" "fm_stack fm \<noteq> 0"
  shows "thread_fork fm name d1 d2 func s
    = fork_finish fm (fm_thread fm) (curspl s) (forked fm name d1 d2 func (t_cwd x) s)"
proof -
  have "t \<noteq> fm_thread fm" using x f by (auto simp: fork_mem_ok_def)
  then show ?thesis using c x m
    by (simp add: thread_fork_def thread_create_def md_initpcb_def the_cur_def on_thread_def kderef_def kzoom_def
      kbind_def kget_def kmodify_def kret_def kwhen_def call_out_def splhigh_def splx_def forked_def map_upd_triv
      fun_upd_twist)
qed

lemma kat_forked:
  assumes k: "kat c s" and c: "c \<in> dom (thr s)" and f: "fork_mem_ok fm s" and m: "fm_stack fm \<noteq> 0"
  shows "kat c (forked fm name d1 d2 func cwd s)"
proof -
  have n: "fm_thread fm \<noteq> c" using c f by (auto simp: fork_mem_ok_def)
  have "stk_at (bootstack s) (fm_stack fm) (u32 (fm_stack fm + STACK_SIZE)) [ThreadStart d1 d2 func]"
    using f m by (simp add: stk_at_def fork_mem_ok_def)
  then show ?thesis using k n by (auto simp: kat_def kstk_def stk_ok_def forked_def)
qed

lemma thread_fork_kstk:
  fixes s :: "'b tsys_scheme"
  assumes k: "kstk s" and c: "curthread s = Some t" and x: "thr s t = Some x" and o: "onstack s = t"
    and f: "fork_mem_ok fm s"
  shows "case thread_fork fm name d1 d2 func s of Done y s' \<Rightarrow> kstk s' | Fail e s' \<Rightarrow> kstk s' | Panic \<Rightarrow> True"
proof (cases "fm_thread fm \<noteq> 0 \<and> fm_name fm \<and> fm_stack fm \<noteq> 0")
  case True
  have "kat t (forked fm name d1 d2 func (t_cwd x) s)"
    by (rule kat_forked) (use k x o f True in \<open>auto simp: kat_def\<close>)
  from goesD [OF keeps_goes [OF keeps_clock(4)] this] show ?thesis
    using thread_fork_forked [OF c x f] True by simp
next
  case False
  have "fm_thread fm \<notin> dom (thr s)" using f by (simp add: fork_mem_ok_def)
  then have e: "(thr s)(fm_thread fm := None) = thr s" by auto
  have "kat t (s\<lparr>calls := cs\<rparr>)" for cs by (rule kat_same [of t s]) (use k o in \<open>simp_all add: kat_def\<close>)
  then have "kstk (s\<lparr>calls := cs\<rparr>)" for cs by (rule kat_kstk)
  then show ?thesis using False k e
    by (cases "fm_thread fm = 0"; cases "fm_name fm") (simp_all add: thread_fork_def thread_create_def kbind_def
      kret_def kfail_def kmodify_def call_out_def)
qed

lemma run_call_kstk:
  fixes s :: "'b tsys_scheme"
  assumes k: "kstk s" and c: "curthread s = Some t" and x: "thr s t = Some x" and o: "onstack s = t"
    and f: "\<And>fm name d1 d2 func. call = Fork fm name d1 d2 func \<Longrightarrow> fork_mem_ok fm s"
    and r: "run_call ok call s = Done y s'"
  shows "kstk s'"
proof (cases "\<exists>fm name d1 d2 func. call = Fork fm name d1 d2 func")
  case True
  then obtain fm name d1 d2 func where call: "call = Fork fm name d1 d2 func" by blast
  show ?thesis using thread_fork_kstk [OF k c x o f [OF call], of name d1 d2 func] r
    by (cases "thread_fork fm name d1 d2 func s")
      (simp_all add: call run_call_def kbind_def kattempt_def kret_def)
next
  case False
  then have "keeps (onstack s) (run_call ok call)"
    by (cases call) (auto simp: run_call_def intro!: keep)
  from keepsD [OF this, of s] show ?thesis using k r by (simp add: kat_def)
qed

end
