(* ===== verification/ThreadInv.thy ===== *)
theory ThreadInv
  imports ThreadStack
begin

text \<open>
  The invariant of the thread system and what each operation does to it.
\<close>

section \<open>Well-formed kernel stacks\<close>

text \<open>\<open>hi ks\<close>: the top frame is code that runs with interrupts off.\<close>

definition hi :: "frame list \<Rightarrow> bool" where
  "hi ks \<longleftrightarrow> (case ks of [] \<Rightarrow> False | f # _ \<Rightarrow>
     is_InScheduler f \<or> f = SwitchTail \<or> f = ClearSleep \<or> is_PLoop f \<or> is_ClockLoop f)"

definition idle :: "frame list \<Rightarrow> bool" where
  "idle ks \<longleftrightarrow> list_ex is_InScheduler ks"

text \<open>The value \<open>in_interrupt\<close> must have on a stack.\<close>

definition irq_flag :: "frame list \<Rightarrow> int" where
  "irq_flag ks = (if list_ex is_IrqDone ks then 1 else 0)"

fun stack_ok :: "nat \<Rightarrow> frame list \<Rightarrow> bool" where
  "stack_ok t [] \<longleftrightarrow> False"
| "stack_ok t (Body # r) \<longleftrightarrow> r = []"
| "stack_ok t (ThreadStart a b c # r) \<longleftrightarrow> r = []"
| "stack_ok t (InScheduler c # r) \<longleftrightarrow> c = t \<and> (\<exists>r'. r = SwitchTail # r') \<and> stack_ok t r"
| "stack_ok t (SwitchTail # r) \<longleftrightarrow> stack_ok t r \<and> \<not> idle r"
| "stack_ok t (Splx spl # r) \<longleftrightarrow> stack_ok t r \<and> (hi r \<longrightarrow> spl > 0)"
| "stack_ok t (ClearSleep # r) \<longleftrightarrow> stack_ok t r \<and> \<not> idle r \<and> irq_flag r = 0"
| "stack_ok t (PLoop sem spl # r) \<longleftrightarrow> stack_ok t r \<and> \<not> idle r \<and> irq_flag r = 0 \<and> (hi r \<longrightarrow> spl > 0)"
| "stack_ok t (ClockLoop n spl # r) \<longleftrightarrow> stack_ok t r \<and> \<not> idle r \<and> irq_flag r = 0 \<and> (hi r \<longrightarrow> spl > 0)"
| "stack_ok t (IrqDone old spl tf # r) \<longleftrightarrow> stack_ok t r \<and> (hi r \<longrightarrow> spl > 0) \<and> old = irq_flag r"
| "stack_ok t (Dead # r) \<longleftrightarrow> \<not> idle r"

definition parked :: "frame list \<Rightarrow> bool" where
  "parked ks \<longleftrightarrow> (case ks of [] \<Rightarrow> False | f # _ \<Rightarrow> f = SwitchTail \<or> is_ThreadStart f)"

lemma hi_simps [simp]: "\<not> hi []" "hi (f # r) \<longleftrightarrow>
     is_InScheduler f \<or> f = SwitchTail \<or> f = ClearSleep \<or> is_PLoop f \<or> is_ClockLoop f"
  by (simp_all add: hi_def)

lemma idle_simps [simp]: "\<not> idle []" "idle (f # r) \<longleftrightarrow> is_InScheduler f \<or> idle r"
  by (simp_all add: idle_def)

lemma irq_flag_simps [simp]: "irq_flag [] = 0" "irq_flag (f # r) = (if is_IrqDone f then 1 else irq_flag r)"
  by (simp_all add: irq_flag_def)

lemma parked_simps [simp]: "\<not> parked []" "parked (f # r) \<longleftrightarrow> f = SwitchTail \<or> is_ThreadStart f"
  by (simp_all add: parked_def)

lemma parked_not_idle: "stack_ok t ks \<Longrightarrow> parked ks \<Longrightarrow> \<not> idle ks"
  by (cases "(t, ks)" rule: stack_ok.cases) auto

text \<open>The frames that lie on top of a stopped thread's own ones while the processor idles on its stack.\<close>

definition idle_frame :: "frame \<Rightarrow> bool" where
  "idle_frame f \<longleftrightarrow> is_Splx f \<or> is_IrqDone f \<or> is_InScheduler f"

definition under :: "frame list \<Rightarrow> frame list" where
  "under ks = dropWhile idle_frame ks"

lemma under_simps [simp]:
  "under [] = []"
  "under (Splx n # r) = under r" "under (IrqDone i n tf # r) = under r" "under (InScheduler t # r) = under r"
  "under (SwitchTail # r) = SwitchTail # r"
  by (simp_all add: under_def idle_frame_def)

section \<open>The invariant\<close>

definition lists_ok :: "'b tsys_scheme \<Rightarrow> nat list \<Rightarrow> nat list \<Rightarrow> nat list \<Rightarrow> bool" where
  "lists_ok s rd sl zb \<longleftrightarrow>
     (\<exists>q. runqueue s = Some q \<and> q_wf q \<and> q_list q = rd)
   \<and> (\<exists>a. sleepers s = Some a \<and> array_wf a \<and> array_list a = sl)
   \<and> (\<exists>z. zombies s = Some z \<and> array_wf z \<and> array_list z = zb)"

definition cur_list :: "'b tsys_scheme \<Rightarrow> nat list" where
  "cur_list s = (case curthread s of None \<Rightarrow> [] | Some t \<Rightarrow> [t])"

text \<open>Every thread is in exactly one place, and \<open>numthreads\<close> counts those that are not dead.\<close>

definition placed :: "'b tsys_scheme \<Rightarrow> nat list \<Rightarrow> nat list \<Rightarrow> nat list \<Rightarrow> bool" where
  "placed s rd sl zb \<longleftrightarrow>
     distinct (cur_list s @ rd @ sl @ zb)
   \<and> set (cur_list s @ rd @ sl @ zb) = dom (thr s)
   \<and> numthreads s = int (length (cur_list s @ rd @ sl))
   \<and> length (cur_list s @ rd @ sl) \<le> 1048576
   \<and> onstack s \<in> dom (thr s)
   \<and> (\<forall>t. curthread s = Some t \<longrightarrow> onstack s = t)"

definition threads_ok :: "'b tsys_scheme \<Rightarrow> nat list \<Rightarrow> bool" where
  "threads_ok s zb \<longleftrightarrow> (\<forall>t x. thr s t = Some x \<longrightarrow>
     (t_stack x \<noteq> 0 \<longrightarrow> t_magic x = stack_magic)
   \<and> (t \<in> set zb \<longrightarrow> t_vmspace x = 0 \<and> t_cwd x = 0))"

definition stacks_ok :: "'b tsys_scheme \<Rightarrow> nat list \<Rightarrow> bool" where
  "stacks_ok s zb \<longleftrightarrow>
     (\<forall>t x. thr s t = Some x \<longrightarrow> t \<notin> set zb \<longrightarrow>
        stack_ok t (kstack s t) \<and> Dead \<notin> set (kstack s t)
      \<and> (t \<noteq> onstack s \<longrightarrow> parked (kstack s t) \<and> pcb_ininterrupt (t_pcb x) = irq_flag (kstack s t)))
   \<and> stack_ok (onstack s) (kstack s (onstack s))
   \<and> (idle (kstack s (onstack s)) \<longleftrightarrow> curthread s = None)
   \<and> (hi (kstack s (onstack s)) \<longrightarrow> curspl s > 0)
   \<and> in_interrupt s = irq_flag (kstack s (onstack s))"

text \<open>A sleeping thread waits at its sleep address: in \<open>P\<close>, for a semaphore whose count is 0, or for the clock.\<close>

definition waits_for :: "(nat \<rightharpoonup> semaphore) \<Rightarrow> nat \<Rightarrow> frame \<Rightarrow> nat \<Rightarrow> bool" where
  "waits_for sm clk w a \<longleftrightarrow> (case w of
      PLoop sem spl \<Rightarrow> a = sem \<and> (\<exists>m. sm sem = Some m \<and> sem_count m = 0)
    | ClockLoop n spl \<Rightarrow> a = clk
    | _ \<Rightarrow> False)"

definition asleep_ok :: "'b tsys_scheme \<Rightarrow> nat list \<Rightarrow> bool" where
  "asleep_ok s sl \<longleftrightarrow> (\<forall>t \<in> set sl. \<exists>w r. under (kstack s t) = SwitchTail # ClearSleep # w # r
     \<and> (\<forall>x. thr s t = Some x \<longrightarrow> waits_for (sems s) (lbolt s) w (t_sleepaddr x)))"

definition sems_ok :: "'b tsys_scheme \<Rightarrow> nat list \<Rightarrow> bool" where
  "sems_ok s zb \<longleftrightarrow>
     (\<forall>p m. sems s p = Some m \<longrightarrow> 0 \<le> sem_count m \<and> p \<noteq> 0 \<and> p \<noteq> lbolt s)
   \<and> (\<forall>t x sem spl. thr s t = Some x \<longrightarrow> t \<notin> set zb \<longrightarrow> PLoop sem spl \<in> set (kstack s t) \<longrightarrow>
        sem \<in> dom (sems s))"

definition kin :: "'b tsys_scheme \<Rightarrow> nat list \<Rightarrow> nat list \<Rightarrow> nat list \<Rightarrow> bool" where
  "kin s rd sl zb \<longleftrightarrow> lists_ok s rd sl zb \<and> placed s rd sl zb \<and> threads_ok s zb \<and> stacks_ok s zb
     \<and> asleep_ok s sl \<and> sems_ok s zb"

definition kinv :: "'b tsys_scheme \<Rightarrow> bool" where
  "kinv s \<longleftrightarrow> (\<exists>rd sl zb. kin s rd sl zb)"

lemmas kin_defs = kin_def lists_ok_def placed_def threads_ok_def stacks_ok_def asleep_ok_def sems_ok_def
  cur_list_def

section \<open>The primitive steps\<close>

lemma on_runqueue_wp: "wp (on_runqueue m) Q R = (\<lambda>s. (case runqueue s of None \<Rightarrow> False
    | Some q \<Rightarrow> wp m (\<lambda>x q'. Q x (s\<lparr>runqueue := Some q'\<rparr>)) (\<lambda>e q'. R e (s\<lparr>runqueue := Some q'\<rparr>)) q))"
  by (simp add: fun_eq_iff on_runqueue_def wp_kderef)

lemma on_sleepers_wp: "wp (on_sleepers m) Q R = (\<lambda>s. (case sleepers s of None \<Rightarrow> False
    | Some q \<Rightarrow> wp m (\<lambda>x q'. Q x (s\<lparr>sleepers := Some q'\<rparr>)) (\<lambda>e q'. R e (s\<lparr>sleepers := Some q'\<rparr>)) q))"
  by (simp add: fun_eq_iff on_sleepers_def wp_kderef)

lemma on_zombies_wp: "wp (on_zombies m) Q R = (\<lambda>s. (case zombies s of None \<Rightarrow> False
    | Some q \<Rightarrow> wp m (\<lambda>x q'. Q x (s\<lparr>zombies := Some q'\<rparr>)) (\<lambda>e q'. R e (s\<lparr>zombies := Some q'\<rparr>)) q))"
  by (simp add: fun_eq_iff on_zombies_def wp_kderef)

lemma on_thread_wp: "wp (on_thread t m) Q R = (\<lambda>s. (case thr s t of None \<Rightarrow> False
    | Some q \<Rightarrow> wp m (\<lambda>x q'. Q x (s\<lparr>thr := (thr s)(t \<mapsto> q')\<rparr>)) (\<lambda>e q'. R e (s\<lparr>thr := (thr s)(t \<mapsto> q')\<rparr>)) q))"
  by (simp add: fun_eq_iff on_thread_def wp_kderef)

lemma on_sem_wp: "wp (on_sem t m) Q R = (\<lambda>s. (case sems s t of None \<Rightarrow> False
    | Some q \<Rightarrow> wp m (\<lambda>x q'. Q x (s\<lparr>sems := (sems s)(t \<mapsto> q')\<rparr>)) (\<lambda>e q'. R e (s\<lparr>sems := (sems s)(t \<mapsto> q')\<rparr>)) q))"
  by (simp add: fun_eq_iff on_sem_def wp_kderef)

lemma the_cur_wp: "wp the_cur Q R = (\<lambda>s. (case curthread s of None \<Rightarrow> False | Some t \<Rightarrow> Q t s))"
  by (simp add: fun_eq_iff the_cur_def wps split: option.splits)

lemma call_out_wp: "wp (call_out c) Q R = (\<lambda>s. Q () (s\<lparr>calls := calls s @ [c]\<rparr>))"
  by (simp add: fun_eq_iff call_out_def wps)

lemma push_frame_wp: "wp (push_frame f) Q R = (\<lambda>s. Q () (s\<lparr>kstack := (kstack s)(onstack s := f # kstack s (onstack s))\<rparr>))"
  by (simp add: fun_eq_iff push_frame_def wps)

lemma pop_frame_wp: "wp pop_frame Q R = (\<lambda>s. Q () (s\<lparr>kstack := (kstack s)(onstack s := tl (kstack s (onstack s)))\<rparr>))"
  by (simp add: fun_eq_iff pop_frame_def wps)

lemma splx_wp': "wp (splx n) Q R = (\<lambda>s. Q (curspl s) (s\<lparr>curspl := n\<rparr>))"
  by (simp add: fun_eq_iff splx_def wps)

lemma splhigh_wp': "wp splhigh Q R = (\<lambda>s. Q (curspl s) (s\<lparr>curspl := SPL_HIGH\<rparr>))"
  by (simp add: fun_eq_iff splhigh_def splx_wp')

lemmas twps = wps on_runqueue_wp on_sleepers_wp on_zombies_wp on_thread_wp on_sem_wp the_cur_wp call_out_wp
  push_frame_wp pop_frame_wp splx_wp' splhigh_wp' wp_must

lemma kin_curspl:
  "kin s rd sl zb \<Longrightarrow> (hi (kstack s (onstack s)) \<longrightarrow> n > 0) \<Longrightarrow> kin (s\<lparr>curspl := n\<rparr>) rd sl zb"
  by (simp add: kin_defs)

lemma kin_calls: "kin (s\<lparr>calls := c\<rparr>) rd sl zb = kin s rd sl zb"
  by (simp add: kin_defs)

lemma kin_lbolt_counter: "kin (s\<lparr>lbolt_counter := c\<rparr>) rd sl zb = kin s rd sl zb"
  by (simp add: kin_defs)

text \<open>
  A change of the stack in use, of the interrupt level and of \<open>in_interrupt\<close> only.
\<close>

lemma kin_cpu:
  assumes k: "kin s rd sl zb"
    and same: "runqueue s' = runqueue s" "sleepers s' = sleepers s" "zombies s' = zombies s"
      "curthread s' = curthread s" "numthreads s' = numthreads s" "thr s' = thr s" "sems s' = sems s"
      "lbolt s' = lbolt s" "onstack s' = onstack s"
    and ks: "kstack s' = (kstack s)(onstack s := ks)"
    and ok: "stack_ok (onstack s) ks" "Dead \<in> set ks \<Longrightarrow> Dead \<in> set (kstack s (onstack s))"
      "idle ks \<longleftrightarrow> curthread s = None" "hi ks \<Longrightarrow> curspl s' > 0" "in_interrupt s' = irq_flag ks"
    and sem: "\<And>sem spl. PLoop sem spl \<in> set ks \<Longrightarrow> PLoop sem spl \<in> set (kstack s (onstack s)) \<or> sem \<in> dom (sems s)"
    and sleep: "curthread s = None \<Longrightarrow> under ks = under (kstack s (onstack s))"
  shows "kin s' rd sl zb"
proof -
  note d = k [unfolded kin_def]
  have 1: "lists_ok s' rd sl zb" "placed s' rd sl zb" "threads_ok s' zb"
    using d same by (simp_all add: lists_ok_def placed_def threads_ok_def cur_list_def)
  have 2: "stacks_ok s' zb"
    using d ok unfolding stacks_ok_def same ks by auto
  have "onstack s \<notin> set sl" if "curthread s \<noteq> None"
    using d that by (auto simp: placed_def cur_list_def)
  then have 3: "asleep_ok s' sl"
    using d sleep unfolding asleep_ok_def same ks by (cases "curthread s = None") auto
  have 4: "sems_ok s' zb"
  proof -
    have so: "sem \<in> dom (sems s)" if "thr s t = Some x" "t \<notin> set zb" "PLoop sem spl \<in> set (kstack s t)"
      for t x sem spl
      using d that unfolding sems_ok_def by blast
    have "sem \<in> dom (sems s)" if h: "thr s t = Some x" "t \<notin> set zb" "PLoop sem spl \<in> set (((kstack s)(onstack s := ks)) t)"
      for t x sem spl
      using so [of t x sem spl] h sem [of sem spl] by (cases "t = onstack s") auto
    then show ?thesis using d unfolding sems_ok_def same ks by blast
  qed
  show ?thesis using 1 2 3 4 by (simp add: kin_def)
qed

lemma make_runnable_wp:
  assumes "lists_ok s rd sl zb" and "curspl s > 0" and "length rd < 536870911"
  shows "wp (make_runnable True t) (\<lambda>_ s'. \<exists>q. s' = s\<lparr>runqueue := Some q\<rparr> \<and> q_wf q \<and> q_list q = rd @ [t])
    (\<lambda>_ _. False) s"
proof -
  obtain q where q: "runqueue s = Some q" "q_wf q" "q_list q = rd" using assms(1) by (auto simp: lists_ok_def)
  have "wp (q_addtail True t) (\<lambda>_ q'. q_wf q' \<and> q_list q' = rd @ [t]) (\<lambda>_ _. False) q"
    using kq.add_law [OF q(2), of True t] q(3) assms(3) by (auto elim: wp_mono)
  then show ?thesis using q(1) assms(2)
    by (simp add: make_runnable_def twps) (erule wp_mono; auto)
qed

text \<open>Putting the current thread on one of the lists; the processor stays on its stack.\<close>

lemma kin_switch:
  assumes k: "kin s rd sl zb" and t: "curthread s = Some t" and spl: "curspl s > 0"
    and l: "lists_ok s' rd' sl' zb'" and rd: "rd' = rd @ a" and sl: "sl' = sl @ b"
    and ab: "a @ b = [t]" "zb' = zb"
    and same: "curthread s' = None" "numthreads s' = numthreads s" "thr s' = thr s" "sems s' = sems s"
      "lbolt s' = lbolt s" "onstack s' = onstack s" "curspl s' = curspl s" "in_interrupt s' = in_interrupt s"
    and ks: "kstack s' = (kstack s)(onstack s := InScheduler t # SwitchTail # kstack s (onstack s))"
    and sleep: "b = [t] \<Longrightarrow> \<exists>w r x. kstack s t = ClearSleep # w # r \<and> thr s t = Some x
       \<and> waits_for (sems s) (lbolt s) w (t_sleepaddr x)"
  shows "kin s' rd' sl' zb'"
proof -
  note d = k [unfolded kin_def]
  have ot: "onstack s = t" using d t by (simp add: placed_def)
  have dis: "distinct (t # rd @ sl @ zb)" "set (t # rd @ sl @ zb) = dom (thr s)"
    "numthreads s = int (Suc (length rd + length sl))" "length rd + length sl < 1048576"
    using d t by (simp_all add: placed_def cur_list_def)
  have e: "cur_list s' = []" by (simp add: cur_list_def same)
  have "a = [t] \<and> b = [] \<or> a = [] \<and> b = [t]" using ab(1) by (cases a) auto
  then have 1: "placed s' rd' sl' zb'"
  proof
    assume "a = [t] \<and> b = []"
    then show ?thesis using dis d ot unfolding placed_def e rd sl ab same by auto
  next
    assume "a = [] \<and> b = [t]"
    then show ?thesis using dis d ot unfolding placed_def e rd sl ab same by auto
  qed
  have 2: "threads_ok s' zb'" using d by (simp add: threads_ok_def same ab)
  have ni: "\<not> idle (kstack s t)" using d t ot by (simp add: stacks_ok_def)
  have 3: "stacks_ok s' zb'"
    using d spl ni ot unfolding stacks_ok_def same ks ab by auto
  have 4: "asleep_ok s' sl'"
  proof -
    have "\<exists>w r. under (kstack s' u) = SwitchTail # ClearSleep # w # r
        \<and> (\<forall>x. thr s' u = Some x \<longrightarrow> waits_for (sems s') (lbolt s') w (t_sleepaddr x))" if u: "u \<in> set sl'" for u
    proof (cases "u = t")
      case True
      then have "b = [t]" using u dis ab(1) sl by (cases a) auto
      then show ?thesis using sleep True by (auto simp: ks ot same)
    next
      case False
      then have "u \<in> set sl" using u ab(1) sl by (cases a) auto
      then show ?thesis using d False by (auto simp: asleep_ok_def ks ot same)
    qed
    then show ?thesis by (simp add: asleep_ok_def)
  qed
  have 5: "sems_ok s' zb'" using d unfolding sems_ok_def same ks ab by auto
  show ?thesis using l 1 2 3 4 5 by (simp add: kin_def)
qed

lemma check_magic_wp:
  assumes "threads_ok s zb" and "t \<in> dom (thr s)"
  shows "wp (check_magic t) Q R s = Q () s"
proof -
  obtain x where x: "thr s t = Some x" using assms(2) by auto
  then have "t_stack x \<noteq> 0 \<longrightarrow> t_magic x = stack_magic" using assms(1) by (simp add: threads_ok_def)
  then show ?thesis using x by (simp add: check_magic_def twps map_upd_triv)
qed

lemma kin_cur:
  assumes "kin s rd sl zb" and "curthread s = Some t"
  shows "onstack s = t" and "t \<in> dom (thr s)" and "t \<notin> set zb" and "t \<notin> set sl"
    and "length rd < 536870911"
  using assms by (auto simp: kin_def placed_def cur_list_def)

lemma mi_switch_ready_wp:
  assumes k: "kin s rd sl zb" and spl: "curspl s > 0"
  shows "wp (mi_switch True S_READY)
    (\<lambda>_ s'. kin s' (rd @ cur_list s) sl zb \<and> curthread s' = None) (\<lambda>_ _. False) s"
proof (cases "curthread s")
  case None
  then show ?thesis using k spl by (simp add: mi_switch_def twps cur_list_def)
next
  case (Some t)
  note c = kin_cur [OF k Some]
  have l: "lists_ok (s\<lparr>curthread := None\<rparr>) rd sl zb" using k by (simp add: kin_def lists_ok_def)
  have th: "threads_ok s zb" using k by (simp add: kin_def)
  have "wp (make_runnable True t) (\<lambda>_ s'. kin (s'\<lparr>kstack := (kstack s')(onstack s' := InScheduler t # SwitchTail # kstack s' (onstack s'))\<rparr>)
      (rd @ [t]) sl zb \<and> curthread s' = None) (\<lambda>_ _. False) (s\<lparr>curthread := None\<rparr>)"
  proof (rule wp_mono [OF make_runnable_wp [OF l]])
    fix u s'
    assume "\<exists>q. s' = s\<lparr>curthread := None\<rparr>\<lparr>runqueue := Some q\<rparr> \<and> q_wf q \<and> q_list q = rd @ [t]"
    then obtain q where q: "s' = s\<lparr>curthread := None\<rparr>\<lparr>runqueue := Some q\<rparr>" "q_wf q" "q_list q = rd @ [t]" by blast
    show "kin (s'\<lparr>kstack := (kstack s')(onstack s' := InScheduler t # SwitchTail # kstack s' (onstack s'))\<rparr>)
      (rd @ [t]) sl zb \<and> curthread s' = None"
    proof
      show "kin (s'\<lparr>kstack := (kstack s')(onstack s' := InScheduler t # SwitchTail # kstack s' (onstack s'))\<rparr>)
        (rd @ [t]) sl zb"
        by (rule kin_switch [OF k Some spl, where a = "[t]" and b = "[]"])
          (use q l in \<open>simp_all add: lists_ok_def\<close>)
    qed (simp add: q)
  qed (use spl c in simp_all)
  then show ?thesis using Some spl th c(2)
    by (simp add: mi_switch_def twps check_magic_wp cur_list_def)
qed

lemma upd_triv [simp]:
  "sleepers s = Some a \<Longrightarrow> s\<lparr>sleepers := Some a\<rparr> = s"
  "zombies s = Some a \<Longrightarrow> s\<lparr>zombies := Some a\<rparr> = s"
  "runqueue s = Some q \<Longrightarrow> s\<lparr>runqueue := Some q\<rparr> = s"
  "thr s t = Some x \<Longrightarrow> s\<lparr>thr := (thr s)(t \<mapsto> x)\<rparr> = s"
  "sems s p = Some m \<Longrightarrow> s\<lparr>sems := (sems s)(p \<mapsto> m)\<rparr> = s"
  by (simp_all add: map_upd_triv)

lemma mi_switch_sleep_wp:
  assumes k: "kin s rd sl zb" and spl: "curspl s > 0" and t: "curthread s = Some t"
    and w: "kstack s t = ClearSleep # w # r" "thr s t = Some x"
      "waits_for (sems s) (lbolt s) w (t_sleepaddr x)"
  shows "wp (mi_switch True S_SLEEP)
    (\<lambda>_ s'. kin s' rd (sl @ [t]) zb \<and> curthread s' = None) (\<lambda>_ _. False) s"
proof -
  note c = kin_cur [OF k t]
  obtain a where a: "sleepers s = Some a" "array_wf a" "array_list a = sl"
    using k by (auto simp: kin_def lists_ok_def)
  have th: "threads_ok s zb" using k by (simp add: kin_def)
  have "wp (array_add True t) (\<lambda>_ a'. kin (s\<lparr>curthread := None, sleepers := Some a',
      kstack := (kstack s)(onstack s := InScheduler t # SwitchTail # kstack s (onstack s))\<rparr>) rd (sl @ [t]) zb)
      (\<lambda>_ _. False) a"
  proof (rule wp_mono [OF array_add_wp [OF a(2)]])
    fix u a'
    assume a': "array_wf a' \<and> array_list a' = array_list a @ [t] \<and> a_num a' = a_num a + 1"
    show "kin (s\<lparr>curthread := None, sleepers := Some a',
      kstack := (kstack s)(onstack s := InScheduler t # SwitchTail # kstack s (onstack s))\<rparr>) rd (sl @ [t]) zb"
      by (rule kin_switch [OF k t spl, where a = "[]" and b = "[t]"])
        (use a a' k w in \<open>simp_all add: lists_ok_def kin_def\<close>)
  qed simp
  then show ?thesis using t spl th c(1,2) a(1)
    by (simp add: mi_switch_def twps check_magic_wp)
qed

text \<open>Changing the current thread's own structure.\<close>

lemma kin_thr:
  assumes k: "kin s rd sl zb" and t: "curthread s = Some t"
    and x: "t_stack x \<noteq> 0 \<Longrightarrow> t_magic x = stack_magic"
    and same: "thr s' = (thr s)(t \<mapsto> x)" "runqueue s' = runqueue s" "sleepers s' = sleepers s"
      "zombies s' = zombies s" "curthread s' = curthread s" "numthreads s' = numthreads s" "sems s' = sems s"
      "lbolt s' = lbolt s" "onstack s' = onstack s" "kstack s' = kstack s" "curspl s' = curspl s"
      "in_interrupt s' = in_interrupt s"
  shows "kin s' rd sl zb"
proof -
  note c = kin_cur [OF k t] and d = k [unfolded kin_def]
  have "dom (thr s') = dom (thr s)" using c(2) by (auto simp: same)
  then have 1: "lists_ok s' rd sl zb" "placed s' rd sl zb"
    using d same by (simp_all add: lists_ok_def placed_def cur_list_def)
  have 2: "threads_ok s' zb" using d x c(3) unfolding threads_ok_def same by auto
  have 3: "stacks_ok s' zb" using d c unfolding stacks_ok_def same by auto
  have 4: "asleep_ok s' sl" using d c(4) unfolding asleep_ok_def same by auto
  have 5: "sems_ok s' zb"
  proof -
    have so: "sem \<in> dom (sems s)" if "u \<in> dom (thr s)" "u \<notin> set zb" "PLoop sem spl \<in> set (kstack s u)"
      for u sem spl using d that unfolding sems_ok_def by blast
    have "u \<in> dom (thr s)" if "((thr s)(t \<mapsto> x)) u = Some y" for u y
      using that c(2) by (auto split: if_splits)
    then show ?thesis using d so unfolding sems_ok_def same by blast
  qed
  show ?thesis using 1 2 3 4 5 by (simp add: kin_def)
qed

lemma thread_sleep_wp:
  assumes k: "kin s rd sl zb" and spl: "curspl s > 0" and t: "curthread s = Some t"
    and w: "kstack s t = w # r" "waits_for (sems s) (lbolt s) w addr" and i: "in_interrupt s = 0"
  shows "wp (thread_sleep True addr) (\<lambda>_ s'. kin s' rd (sl @ [t]) zb \<and> curthread s' = None) (\<lambda>_ _. False) s"
proof -
  note c = kin_cur [OF k t]
  obtain x where x: "thr s t = Some x" using c(2) by auto
  let ?x = "x\<lparr>t_sleepaddr := addr\<rparr>"
  have st: "stack_ok t (kstack s t)" "Dead \<notin> set (kstack s t)" "\<not> idle (kstack s t)" "irq_flag (kstack s t) = 0"
    using k x c t i by (auto simp: kin_def stacks_ok_def)
  have "kin (s\<lparr>thr := (thr s)(t \<mapsto> ?x)\<rparr>) rd sl zb"
    by (rule kin_thr [OF k t]) (use k x in \<open>simp_all add: kin_def threads_ok_def\<close>)
  then have k': "kin (s\<lparr>thr := (thr s)(t \<mapsto> ?x), kstack := (kstack s)(t := ClearSleep # kstack s t)\<rparr>) rd sl zb"
    by (rule kin_cpu [where ks = "ClearSleep # kstack s t"]) (use st c t spl i in auto)
  then have "wp (mi_switch True S_SLEEP) (\<lambda>_ s'. kin s' rd (sl @ [t]) zb \<and> curthread s' = None) (\<lambda>_ _. False)
     (s\<lparr>thr := (thr s)(t \<mapsto> ?x), kstack := (kstack s)(t := ClearSleep # kstack s t)\<rparr>)"
    by (rule mi_switch_sleep_wp [where w = w and r = r and x = ?x]) (use spl t w in simp_all)
  then show ?thesis using i t x c(1) by (simp add: thread_sleep_def twps)
qed

text \<open>\<open>kgrow rd\<close>: the invariant holds, and the ready threads \<open>rd\<close> are still the first ones.\<close>

definition kgrow :: "nat list \<Rightarrow> 'b tsys_scheme \<Rightarrow> bool" where
  "kgrow rd s \<longleftrightarrow> (\<exists>rd' sl zb. kin s (rd @ rd') sl zb)"

lemma kgrowI: "kin s (rd @ rd') sl zb \<Longrightarrow> kgrow rd s"
  by (auto simp: kgrow_def)

lemma kgrow0: "kin s rd sl zb \<Longrightarrow> kgrow rd s"
  by (rule kgrowI [where rd' = "[]"]) simp

lemma kgrow_append: "kgrow (rd @ rd') s \<Longrightarrow> kgrow rd s"
  by (auto simp: kgrow_def)

lemma kin_sem:
  assumes k: "kin s rd sl zb" and m: "sems s p = Some m" and c: "0 \<le> sem_count m'"
    and free: "\<And>t x. t \<in> set sl \<Longrightarrow> thr s t = Some x \<Longrightarrow> t_sleepaddr x \<noteq> p \<or> sem_count m \<noteq> 0"
  shows "kin (s\<lparr>sems := (sems s)(p \<mapsto> m')\<rparr>) rd sl zb"
proof -
  note d = k [unfolded kin_def]
  have w: "waits_for ((sems s)(p \<mapsto> m')) (lbolt s) w a"
    if "waits_for (sems s) (lbolt s) w a" "a \<noteq> p \<or> sem_count m \<noteq> 0" for w a
    using that m by (auto simp: waits_for_def split: frame.splits)
  have 1: "asleep_ok (s\<lparr>sems := (sems s)(p \<mapsto> m')\<rparr>) sl"
    unfolding asleep_ok_def
  proof
    fix t
    assume t: "t \<in> set sl"
    then obtain w r where "under (kstack s t) = SwitchTail # ClearSleep # w # r"
      "\<forall>x. thr s t = Some x \<longrightarrow> waits_for (sems s) (lbolt s) w (t_sleepaddr x)"
      using d unfolding asleep_ok_def by blast
    then show "\<exists>w r. under (kstack (s\<lparr>sems := (sems s)(p \<mapsto> m')\<rparr>) t) = SwitchTail # ClearSleep # w # r
      \<and> (\<forall>x. thr (s\<lparr>sems := (sems s)(p \<mapsto> m')\<rparr>) t = Some x \<longrightarrow>
           waits_for (sems (s\<lparr>sems := (sems s)(p \<mapsto> m')\<rparr>)) (lbolt (s\<lparr>sems := (sems s)(p \<mapsto> m')\<rparr>)) w (t_sleepaddr x))"
      using w free [OF t] by (intro exI [of _ w] exI [of _ r]) simp
  qed
  have "p \<noteq> 0 \<and> p \<noteq> lbolt s" using d m by (auto simp: sems_ok_def)
  then have 2: "sems_ok (s\<lparr>sems := (sems s)(p \<mapsto> m')\<rparr>) zb"
    using d c by (auto simp: sems_ok_def)
  show ?thesis using d 1 2 by (simp add: kin_def lists_ok_def placed_def threads_ok_def stacks_ok_def cur_list_def)
qed

text \<open>
  The end of a blocking call: the thread \<open>t\<close> either went to sleep or is past it, and nobody else
  became ready.
\<close>

definition blocked_or_done :: "nat list \<Rightarrow> 'b tsys_scheme \<Rightarrow> 'b tsys_scheme \<Rightarrow> bool" where
  "blocked_or_done rd s s' \<longleftrightarrow> (\<exists>sl zb. kin s' rd sl zb) \<and>
     (curthread s' = None \<or> curthread s' = curthread s \<and> kstack s' = kstack s \<and> onstack s' = onstack s)"

lemma blocked_or_done_kgrow: "blocked_or_done rd s s' \<Longrightarrow> kgrow rd s'"
  by (auto simp: blocked_or_done_def intro: kgrow0)

lemma P_loop_wp:
  assumes k: "kin s rd sl zb" and spl: "curspl s > 0" and t: "curthread s = Some t"
    and i: "in_interrupt s = 0" and sem: "sem \<in> dom (sems s)" and n: "hi (kstack s t) \<longrightarrow> n > 0"
  shows "wp (P_loop True sem n) (\<lambda>_. blocked_or_done rd s) (\<lambda>_ _. False) s"
proof -
  note c = kin_cur [OF k t]
  obtain m where m: "sems s sem = Some m" "0 \<le> sem_count m"
    using sem k by (auto simp: kin_def sems_ok_def)
  have st: "stack_ok t (kstack s t)" "Dead \<notin> set (kstack s t)" "\<not> idle (kstack s t)" "irq_flag (kstack s t) = 0"
    using k c t i by (auto simp: kin_def stacks_ok_def)
  show ?thesis
  proof (cases "sem_count m = 0")
    case True
    let ?s = "s\<lparr>kstack := (kstack s)(t := PLoop sem n # kstack s t)\<rparr>"
    have "kin ?s rd sl zb"
      by (rule kin_cpu [OF k, where ks = "PLoop sem n # kstack s t"]) (use st c t spl i n m in auto)
    then have "wp (thread_sleep True sem) (\<lambda>_ s'. kin s' rd (sl @ [t]) zb \<and> curthread s' = None) (\<lambda>_ _. False) ?s"
      by (rule thread_sleep_wp) (use spl t m True i in \<open>auto simp: waits_for_def\<close>)
    then show ?thesis using m True c(1)
      by (simp add: P_loop_def twps) (erule wp_mono; auto simp: blocked_or_done_def)
  next
    case False
    have "kin (s\<lparr>sems := (sems s)(sem \<mapsto> m\<lparr>sem_count := sem_count m - 1\<rparr>)\<rparr>) rd sl zb"
      by (rule kin_sem [OF k m(1)]) (use m False in simp_all)
    then have "kin (s\<lparr>sems := (sems s)(sem \<mapsto> m\<lparr>sem_count := sem_count m - 1\<rparr>), curspl := n\<rparr>) rd sl zb"
      using kin_curspl [of "s\<lparr>sems := (sems s)(sem \<mapsto> m\<lparr>sem_count := sem_count m - 1\<rparr>)\<rparr>" rd sl zb n] n c(1) by simp
    then show ?thesis using m False
      by (auto simp: P_loop_def twps blocked_or_done_def)
  qed
qed

section \<open>Waking up\<close>

text \<open>The address a thread sleeps at.\<close>

definition sleeps_at :: "'b tsys_scheme \<Rightarrow> nat \<Rightarrow> nat \<Rightarrow> bool" where
  "sleeps_at s addr t \<longleftrightarrow> (\<exists>x. thr s t = Some x \<and> t_sleepaddr x = addr)"

text \<open>
  The loop has kept the elements before the index; it takes the matching ones out of the rest and
  appends them to the run queue in their order.
\<close>

lemma wakeup_loop_wp:
  assumes "lists_ok s rd (ys @ sl) zb" and "curspl s > 0" and "length rd + length sl \<le> 536870911"
    and "set sl \<subseteq> dom (thr s)" and "i = int (length ys)" and "n = length sl"
  shows "wp (wakeup_loop n True addr i)
    (\<lambda>_ s'. \<exists>q a. s' = s\<lparr>runqueue := Some q, sleepers := Some a\<rparr> \<and> q_wf q \<and> array_wf a
       \<and> q_list q = rd @ filter (sleeps_at s addr) sl
       \<and> array_list a = ys @ filter (\<lambda>t. \<not> sleeps_at s addr t) sl) (\<lambda>_ _. False) s"
  using assms
proof (induction n arbitrary: s rd ys sl i)
  case 0
  obtain q a where q: "runqueue s = Some q" "q_wf q" "q_list q = rd"
    and a: "sleepers s = Some a" "array_wf a" "array_list a = ys"
    using 0 by (auto simp: lists_ok_def)
  have e: "s\<lparr>runqueue := Some q, sleepers := Some a\<rparr> = s" using q a by simp
  have "\<not> i < array_getnum a" using array_length [OF a(2)] a(3) 0 by (simp add: array_getnum_def)
  then have run: "wp (wakeup_loop 0 True addr i) Q R s" if "Q () s" for Q and R :: "errno \<Rightarrow> 'a tsys_scheme \<Rightarrow> bool"
    using a that by (simp add: twps)
  have "sl = []" using 0 by simp
  then show ?case unfolding \<open>0 = length sl\<close> [symmetric]
    using q a by (intro run exI [of _ q] exI [of _ a] conjI) (simp_all only: e filter.simps append_Nil2)
next
  case (Suc n)
  obtain t sl' where sl: "sl = t # sl'" using Suc.prems by (cases sl) auto
  obtain q a where q: "runqueue s = Some q" "q_wf q" "q_list q = rd"
    and a: "sleepers s = Some a" "array_wf a" "array_list a = ys @ t # sl'"
    using Suc.prems sl by (auto simp: lists_ok_def)
  obtain x where x: "thr s t = Some x" using Suc.prems sl by auto
  have num: "a_num a = int (length ys + Suc (length sl'))" using array_length [OF a(2)] a(3) by simp
  have g: "array_getguy i a = Done (Some t) a"
    using array_getguy_eq [OF a(2), of i] num Suc.prems a(3) by (simp add: nth_append)
  then have gw: "wp (array_getguy (int (length ys))) Q R a = Q (Some t) a" for Q R
    using Suc.prems by (simp add: wp_def)
  show ?case
  proof (cases "t_sleepaddr x = addr")
    case False
    have ns: "\<not> sleeps_at s addr t" using x False by (simp add: sleeps_at_def)
    have "wp (wakeup_loop n True addr (i + 1))
      (\<lambda>_ s'. \<exists>q a. s' = s\<lparr>runqueue := Some q, sleepers := Some a\<rparr> \<and> q_wf q \<and> array_wf a
         \<and> q_list q = rd @ filter (sleeps_at s addr) sl'
         \<and> array_list a = (ys @ [t]) @ filter (\<lambda>t. \<not> sleeps_at s addr t) sl') (\<lambda>_ _. False) s"
      by (rule Suc.IH) (use Suc.prems sl in auto)
    then show ?thesis using a x False num Suc.prems sl ns
      by (simp add: twps array_getnum_def gw)
  next
    case True
    have ns: "sleeps_at s addr t" using x True by (simp add: sleeps_at_def)
    have "wp (array_remove i) (\<lambda>_ a'. wp (make_runnable True t) (\<lambda>_. wp (wakeup_loop n True addr i)
      (\<lambda>_ s'. \<exists>q a. s' = s\<lparr>runqueue := Some q, sleepers := Some a\<rparr> \<and> q_wf q \<and> array_wf a
       \<and> q_list q = rd @ filter (sleeps_at s addr) sl
       \<and> array_list a = ys @ filter (\<lambda>t. \<not> sleeps_at s addr t) sl) (\<lambda>_ _. False)) (\<lambda>_ _. False)
       (s\<lparr>sleepers := Some a'\<rparr>)) (\<lambda>_ _. False) a"
    proof (rule wp_mono [OF array_remove_wp [OF a(2)]])
      fix u a'
      assume "array_wf a' \<and> a_num a' = a_num a - 1
        \<and> array_list a' = take (nat i) (array_list a) @ drop (nat i + 1) (array_list a)"
      then have a': "array_wf a'" "array_list a' = ys @ sl'" using a(3) Suc.prems by simp_all
      have l: "lists_ok (s\<lparr>sleepers := Some a'\<rparr>) rd (ys @ sl') zb"
        using Suc.prems(1) a' by (simp add: lists_ok_def)
      show "wp (make_runnable True t) (\<lambda>_. wp (wakeup_loop n True addr i)
        (\<lambda>_ s'. \<exists>q a. s' = s\<lparr>runqueue := Some q, sleepers := Some a\<rparr> \<and> q_wf q \<and> array_wf a
         \<and> q_list q = rd @ filter (sleeps_at s addr) sl
         \<and> array_list a = ys @ filter (\<lambda>t. \<not> sleeps_at s addr t) sl) (\<lambda>_ _. False)) (\<lambda>_ _. False)
         (s\<lparr>sleepers := Some a'\<rparr>)"
      proof (rule wp_mono [OF make_runnable_wp [OF l]])
        fix v s1
        assume "\<exists>q. s1 = s\<lparr>sleepers := Some a'\<rparr>\<lparr>runqueue := Some q\<rparr> \<and> q_wf q \<and> q_list q = rd @ [t]"
        then obtain q1 where q1: "s1 = s\<lparr>sleepers := Some a', runqueue := Some q1\<rparr>" "q_wf q1"
          "q_list q1 = rd @ [t]" by auto
        have f: "sleeps_at s1 addr = sleeps_at s addr" by (simp add: fun_eq_iff sleeps_at_def q1)
        have "wp (wakeup_loop n True addr i)
          (\<lambda>_ s'. \<exists>q a. s' = s1\<lparr>runqueue := Some q, sleepers := Some a\<rparr> \<and> q_wf q \<and> array_wf a
           \<and> q_list q = (rd @ [t]) @ filter (sleeps_at s1 addr) sl'
           \<and> array_list a = ys @ filter (\<lambda>t. \<not> sleeps_at s1 addr t) sl') (\<lambda>_ _. False) s1"
          by (rule Suc.IH) (use Suc.prems l q1 sl in \<open>auto simp: lists_ok_def\<close>)
        then show "wp (wakeup_loop n True addr i)
          (\<lambda>_ s'. \<exists>q a. s' = s\<lparr>runqueue := Some q, sleepers := Some a\<rparr> \<and> q_wf q \<and> array_wf a
           \<and> q_list q = rd @ filter (sleeps_at s addr) sl
           \<and> array_list a = ys @ filter (\<lambda>t. \<not> sleeps_at s addr t) sl) (\<lambda>_ _. False) s1"
        proof (rule wp_mono)
          fix w s2
          assume "\<exists>q a. s2 = s1\<lparr>runqueue := Some q, sleepers := Some a\<rparr> \<and> q_wf q \<and> array_wf a
           \<and> q_list q = (rd @ [t]) @ filter (sleeps_at s1 addr) sl'
           \<and> array_list a = ys @ filter (\<lambda>t. \<not> sleeps_at s1 addr t) sl'"
          then obtain q a where "s2 = s1\<lparr>runqueue := Some q, sleepers := Some a\<rparr>" "q_wf q" "array_wf a"
            "q_list q = rd @ t # filter (sleeps_at s addr) sl'"
            "array_list a = ys @ filter (\<lambda>t. \<not> sleeps_at s addr t) sl'" unfolding f by auto
          then show "\<exists>q a. s2 = s\<lparr>runqueue := Some q, sleepers := Some a\<rparr> \<and> q_wf q \<and> array_wf a
           \<and> q_list q = rd @ filter (sleeps_at s addr) sl
           \<and> array_list a = ys @ filter (\<lambda>t. \<not> sleeps_at s addr t) sl"
            using sl ns by (intro exI [of _ q] exI [of _ a]) (simp add: q1(1))
        qed
      qed (use Suc.prems sl in auto)
    qed (use num Suc.prems sl in auto)
    then show ?thesis using a x True num Suc.prems sl
      by (simp add: twps array_getnum_def gw)
  qed
qed

lemma thread_wakeup_lists_wp:
  assumes l: "lists_ok s rd sl zb" and spl: "curspl s > 0" and len: "length rd + length sl \<le> 536870911"
    and th: "set sl \<subseteq> dom (thr s)"
  shows "wp (thread_wakeup True addr)
    (\<lambda>_ s'. \<exists>q a. s' = s\<lparr>runqueue := Some q, sleepers := Some a\<rparr> \<and> q_wf q \<and> array_wf a
       \<and> q_list q = rd @ filter (sleeps_at s addr) sl
       \<and> array_list a = filter (\<lambda>t. \<not> sleeps_at s addr t) sl) (\<lambda>_ _. False) s"
proof -
  obtain a where a: "sleepers s = Some a" "array_wf a" "array_list a = sl"
    using l by (auto simp: lists_ok_def)
  have "wp (wakeup_loop (length sl) True addr 0)
    (\<lambda>_ s'. \<exists>q a. s' = s\<lparr>runqueue := Some q, sleepers := Some a\<rparr> \<and> q_wf q \<and> array_wf a
       \<and> q_list q = rd @ filter (sleeps_at s addr) sl
       \<and> array_list a = [] @ filter (\<lambda>t. \<not> sleeps_at s addr t) sl) (\<lambda>_ _. False) s"
    by (rule wakeup_loop_wp) (use l spl len th in auto)
  moreover have "a_num a = int (length sl)" using array_length [OF a(2)] a(3) by simp
  ultimately show ?thesis using spl a(1) by (simp add: thread_wakeup_def twps array_getnum_def)
qed

lemma kin_woken:
  assumes k: "kin s rd sl zb" and q: "q_wf q" "q_list q = rd @ filter f sl"
    and a: "array_wf a" "array_list a = filter (\<lambda>t. \<not> f t) sl"
  shows "kin (s\<lparr>runqueue := Some q, sleepers := Some a\<rparr>) (rd @ filter f sl) (filter (\<lambda>t. \<not> f t) sl) zb"
proof -
  note d = k [unfolded kin_def]
  let ?s = "s\<lparr>runqueue := Some q, sleepers := Some a\<rparr>"
  let ?F = "filter f sl" and ?G = "filter (\<lambda>t. \<not> f t) sl"
  have part: "set ?F \<union> set ?G = set sl" "length ?F + length ?G = length sl"
    using sum_length_filter_compl [of f sl] by auto
  have "distinct (cur_list s @ rd @ sl @ zb)" "set (cur_list s @ rd @ sl @ zb) = dom (thr s)"
    using d by (simp_all add: placed_def)
  then have 0: "distinct (cur_list s @ (rd @ ?F) @ ?G @ zb)"
    "set (cur_list s @ (rd @ ?F) @ ?G @ zb) = dom (thr s)"
    using part by auto
  have e: "cur_list ?s = cur_list s" by (simp add: cur_list_def)
  have "length (cur_list s @ (rd @ ?F) @ ?G) = length (cur_list s @ rd @ sl)" using part by simp
  then have 1: "placed ?s (rd @ ?F) ?G zb"
    using d 0 unfolding placed_def e by simp
  have 2: "asleep_ok ?s ?G" using d by (auto simp: asleep_ok_def)
  show ?thesis
    using d 1 2 q a unfolding kin_def by (simp add: lists_ok_def threads_ok_def stacks_ok_def sems_ok_def)
qed

lemma kin_len:
  assumes "kin s rd sl zb"
  shows "lists_ok s rd sl zb" and "length rd + length sl \<le> 536870911" and "set sl \<subseteq> dom (thr s)"
    and "threads_ok s zb"
  using assms by (auto simp: kin_def placed_def)

lemma thread_wakeup_wp:
  assumes k: "kin s rd sl zb" and spl: "curspl s > 0"
  shows "wp (thread_wakeup True addr)
    (\<lambda>_ s'. kin s' (rd @ filter (sleeps_at s addr) sl) (filter (\<lambda>t. \<not> sleeps_at s addr t) sl) zb
       \<and> (\<exists>q a. s' = s\<lparr>runqueue := Some q, sleepers := Some a\<rparr>)) (\<lambda>_ _. False) s"
  by (rule wp_mono [OF thread_wakeup_lists_wp [OF kin_len(1) [OF k] spl]])
    (use kin_len [OF k] kin_woken [OF k] in auto)

lemma V_wp:
  assumes k: "kin s rd sl zb" and m: "sems s sem = Some m" "sem_count m < 2147483647"
  shows "wp (V True sem)
    (\<lambda>_ s'. kin s' (rd @ filter (sleeps_at s sem) sl) (filter (\<lambda>t. \<not> sleeps_at s sem t) sl) zb
       \<and> (\<exists>q a. s' = s\<lparr>sems := (sems s)(sem \<mapsto> m\<lparr>sem_count := sem_count m + 1\<rparr>),
                       runqueue := Some q, sleepers := Some a\<rparr>)) (\<lambda>_ _. False) s"
proof -
  have c: "0 \<le> sem_count m" "sem \<noteq> 0" using k m(1) by (auto simp: kin_def sems_ok_def)
  let ?m = "m\<lparr>sem_count := sem_count m + 1\<rparr>"
  let ?s = "s\<lparr>curspl := SPL_HIGH, sems := (sems s)(sem \<mapsto> ?m)\<rparr>"
  let ?F = "filter (sleeps_at s sem) sl" and ?G = "filter (\<lambda>t. \<not> sleeps_at s sem t) sl"
  have f: "sleeps_at ?s sem = sleeps_at s sem" by (simp add: fun_eq_iff sleeps_at_def)
  have h: "hi (kstack s (onstack s)) \<longrightarrow> curspl s > 0" using k by (simp add: kin_def stacks_ok_def)
  have "wp (thread_wakeup True sem)
    (\<lambda>_ s'. kin (s'\<lparr>curspl := curspl s\<rparr>) (rd @ ?F) ?G zb
       \<and> (\<exists>q a. s'\<lparr>curspl := curspl s\<rparr> = s\<lparr>sems := (sems s)(sem \<mapsto> ?m), runqueue := Some q, sleepers := Some a\<rparr>))
    (\<lambda>_ _. False) ?s"
  proof (rule wp_mono [OF thread_wakeup_lists_wp [where rd = rd and sl = sl and zb = zb]])
    fix u s'
    assume "\<exists>q a. s' = ?s\<lparr>runqueue := Some q, sleepers := Some a\<rparr> \<and> q_wf q \<and> array_wf a
       \<and> q_list q = rd @ filter (sleeps_at ?s sem) sl
       \<and> array_list a = filter (\<lambda>t. \<not> sleeps_at ?s sem t) sl"
    then obtain q a where s': "s' = ?s\<lparr>runqueue := Some q, sleepers := Some a\<rparr>" "q_wf q" "array_wf a"
       "q_list q = rd @ ?F" "array_list a = ?G" unfolding f by blast
    let ?t = "s\<lparr>runqueue := Some q, sleepers := Some a\<rparr>"
    have kt: "kin ?t (rd @ ?F) ?G zb" by (rule kin_woken [OF k s'(2,4,3,5)])
    let ?t' = "s\<lparr>sems := (sems s)(sem \<mapsto> ?m), runqueue := Some q, sleepers := Some a\<rparr>"
    have e: "?t\<lparr>sems := (sems ?t)(sem \<mapsto> ?m)\<rparr> = ?t'" by (rule tsys.equality) simp_all
    have e': "s'\<lparr>curspl := curspl s\<rparr> = ?t'" unfolding s'(1) by (rule tsys.equality) simp_all
    have "kin (?t\<lparr>sems := (sems ?t)(sem \<mapsto> ?m)\<rparr>) (rd @ ?F) ?G zb"
      by (rule kin_sem [OF kt]) (use m c in \<open>auto simp: sleeps_at_def\<close>)
    then have "kin ?t' (rd @ ?F) ?G zb" unfolding e .
    then show "kin (s'\<lparr>curspl := curspl s\<rparr>) (rd @ ?F) ?G zb
       \<and> (\<exists>q a. s'\<lparr>curspl := curspl s\<rparr> = s\<lparr>sems := (sems s)(sem \<mapsto> ?m), runqueue := Some q, sleepers := Some a\<rparr>)"
      unfolding e' by (intro conjI exI [of _ q] exI [of _ a] refl)
  qed (use kin_len [OF k] in \<open>auto simp: lists_ok_def SPL_HIGH_def\<close>)
  moreover have "off32 (sem_count m + 1) = sem_count m + 1" using c m by (intro off32_id) auto
  ultimately show ?thesis using m c
    by (simp add: V_def twps)
qed

section \<open>Disposing of the dead\<close>

lemma thread_destroy_wp:
  assumes "curthread s \<noteq> Some t" and "thr s t = Some x" and "t_vmspace x = 0" and "t_cwd x = 0"
  shows "wp (thread_destroy t)
    (\<lambda>_ s'. s' = s\<lparr>thr := (thr s)(t := None), calls := calls s
       @ (if t_stack x \<noteq> 0 then [KfreeStack (t_stack x)] else []) @ [KfreeName t, KfreeThread t]\<rparr>)
    (\<lambda>_ _. False) s"
  using assms by (simp add: thread_destroy_def twps)

definition buried :: "(nat \<rightharpoonup> thread) \<Rightarrow> nat list \<Rightarrow> (nat \<rightharpoonup> thread)" where
  "buried th zs = (\<lambda>t. if t \<in> set zs then None else th t)"

lemma exorcise_loop_wp:
  assumes "zombies s = Some z" and "array_wf z" and "array_list z = pre @ zs" and "distinct zs"
    and "\<And>t. t \<in> set zs \<Longrightarrow> curthread s \<noteq> Some t \<and> (\<exists>x. thr s t = Some x \<and> t_vmspace x = 0 \<and> t_cwd x = 0)"
  shows "wp (kfor [length pre..<length pre + length zs] (\<lambda>i.
        kbind (on_zombies (array_getguy (int i))) (\<lambda>r.
        case r of None \<Rightarrow> kpanic | Some z \<Rightarrow>
        kbind (kget curthread) (\<lambda>c.
        kbind (kassert (c \<noteq> Some z)) (\<lambda>_.
        thread_destroy z)))))
     (\<lambda>_ s'. \<exists>c. s' = s\<lparr>thr := buried (thr s) zs, calls := c\<rparr>) (\<lambda>_ _. False) s"
  using assms
proof (induction zs arbitrary: pre s)
  case Nil
  have "s = s\<lparr>thr := buried (thr s) [], calls := calls s\<rparr>" by (simp add: buried_def)
  moreover have "[length pre..<length pre + length ([] :: nat list)] = []" by simp
  ultimately show ?case unfolding wps by (simp only: wps) (rule exI)
next
  case (Cons t zs)
  obtain x where x: "thr s t = Some x" "t_vmspace x = 0" "t_cwd x = 0" and c: "curthread s \<noteq> Some t"
    using Cons.prems(5) [of t] by auto
  have num: "a_num z = int (length pre + Suc (length zs))"
    using array_length [OF Cons.prems(2)] Cons.prems(3) by simp
  have g: "wp (array_getguy (int (length pre))) Q R z = Q (Some t) z" for Q R
    using array_getguy_eq [OF Cons.prems(2), of "int (length pre)"] num Cons.prems(3)
    by (simp add: nth_append wp_def)
  have u: "[length pre..<length pre + length (t # zs)] = length pre # [length (pre @ [t])..<length (pre @ [t]) + length zs]"
    by (simp add: upt_rec)
  have "wp (thread_destroy t) (\<lambda>_. wp (kfor [length (pre @ [t])..<length (pre @ [t]) + length zs] (\<lambda>i.
        kbind (on_zombies (array_getguy (int i))) (\<lambda>r.
        case r of None \<Rightarrow> kpanic | Some z \<Rightarrow>
        kbind (kget curthread) (\<lambda>c.
        kbind (kassert (c \<noteq> Some z)) (\<lambda>_.
        thread_destroy z)))))
     (\<lambda>_ s'. \<exists>c. s' = s\<lparr>thr := buried (thr s) (t # zs), calls := c\<rparr>) (\<lambda>_ _. False)) (\<lambda>_ _. False) s"
  proof (rule wp_mono [OF thread_destroy_wp [OF c x]])
    fix u s1
    let ?c = "calls s @ (if t_stack x \<noteq> 0 then [KfreeStack (t_stack x)] else []) @ [KfreeName t, KfreeThread t]"
    assume s1: "s1 = s\<lparr>thr := (thr s)(t := None), calls := ?c\<rparr>"
    show "wp (kfor [length (pre @ [t])..<length (pre @ [t]) + length zs] (\<lambda>i.
        kbind (on_zombies (array_getguy (int i))) (\<lambda>r.
        case r of None \<Rightarrow> kpanic | Some z \<Rightarrow>
        kbind (kget curthread) (\<lambda>c.
        kbind (kassert (c \<noteq> Some z)) (\<lambda>_.
        thread_destroy z)))))
     (\<lambda>_ s'. \<exists>c. s' = s\<lparr>thr := buried (thr s) (t # zs), calls := c\<rparr>) (\<lambda>_ _. False) s1"
    proof (rule wp_mono [OF Cons.IH])
      fix w s2
      assume "\<exists>c. s2 = s1\<lparr>thr := buried (thr s1) zs, calls := c\<rparr>"
      then obtain cc where cc: "s2 = s1\<lparr>thr := buried (thr s1) zs, calls := cc\<rparr>" by blast
      have "buried ((thr s)(t := None)) zs = buried (thr s) (t # zs)" by (auto simp: buried_def fun_eq_iff)
      then have "s2 = s\<lparr>thr := buried (thr s) (t # zs), calls := cc\<rparr>" unfolding cc s1 by simp
      then show "\<exists>c. s2 = s\<lparr>thr := buried (thr s) (t # zs), calls := c\<rparr>" by (rule exI)
    qed (use Cons.prems s1 in auto)
  qed simp
  then show ?case unfolding u using Cons.prems(1) c by (simp add: twps g)
qed

lemma exorcise_wp:
  assumes k: "kin s rd sl zb" and t: "curthread s = Some t" and spl: "curspl s > 0"
  shows "wp exorcise (\<lambda>_ s'. kin s' rd sl [] \<and> (\<exists>z c. s' = s\<lparr>zombies := Some z, thr := buried (thr s) zb, calls := c\<rparr>))
    (\<lambda>_ _. False) s"
proof -
  note d = k [unfolded kin_def] and c = kin_cur [OF k t]
  obtain z where z: "zombies s = Some z" "array_wf z" "array_list z = zb"
    using d by (auto simp: lists_ok_def)
  have dis: "distinct (t # rd @ sl @ zb)" "set (t # rd @ sl @ zb) = dom (thr s)"
    using d t by (simp_all add: placed_def cur_list_def)
  have dead: "curthread s \<noteq> Some u \<and> (\<exists>x. thr s u = Some x \<and> t_vmspace x = 0 \<and> t_cwd x = 0)" if u: "u \<in> set zb" for u
  proof -
    have "u \<in> dom (thr s)" using u dis by auto
    then obtain x where "thr s u = Some x" by auto
    then show ?thesis using d t u dis by (auto simp: threads_ok_def)
  qed
  have num: "a_num z = int (length zb)" using array_length [OF z(2)] z(3) by simp
  have post: "wp (must (on_zombies (array_setsize False 0)))
      (\<lambda>_ s'. kin s' rd sl [] \<and> (\<exists>z c. s' = s\<lparr>zombies := Some z, thr := buried (thr s) zb, calls := c\<rparr>))
      (\<lambda>_ _. False) (s\<lparr>thr := buried (thr s) zb, calls := cc\<rparr>)" for cc
  proof -
    have "kin (s\<lparr>thr := buried (thr s) zb, calls := cc, zombies := Some z'\<rparr>) rd sl []"
      if z': "array_wf z'" "array_list z' = []" for z'
    proof -
      let ?s = "s\<lparr>thr := buried (thr s) zb, calls := cc, zombies := Some z'\<rparr>"
      have e: "cur_list ?s = cur_list s" "cur_list s = [t]" by (simp_all add: cur_list_def t)
      have "dom (thr ?s) = dom (thr s) - set zb" by (auto simp: buried_def split: if_splits)
      then have "set (t # rd @ sl) = dom (thr ?s)" using dis by auto
      then have 1: "placed ?s rd sl []" using d dis c unfolding placed_def e by (auto simp: buried_def)
      have b: "buried (thr s) zb u = Some x \<longleftrightarrow> u \<notin> set zb \<and> thr s u = Some x" for u x
        by (simp add: buried_def)
      have dd: "threads_ok s zb" "stacks_ok s zb" "asleep_ok s sl" "sems_ok s zb" using d by simp_all
      have 2: "threads_ok ?s []" using dd(1) by (auto simp: threads_ok_def b)
      have 4: "stacks_ok ?s []" using dd(2) by (simp add: stacks_ok_def b)
      have 5: "asleep_ok ?s sl" using dd(3) by (simp add: asleep_ok_def b) blast
      have 6: "sems_ok ?s []" using dd(4) by (simp add: sems_ok_def b) blast
      have 3: "lists_ok ?s rd sl []" using d z' by (simp add: lists_ok_def)
      show ?thesis using 1 2 3 4 5 6 by (simp add: kin_def)
    qed
    note kk = this
    have e: "s\<lparr>thr := buried (thr s) zb, calls := cc, zombies := Some z'\<rparr>
       = s\<lparr>zombies := Some z', thr := buried (thr s) zb, calls := cc\<rparr>" for z'
      by (rule tsys.equality) simp_all
    have "wp (array_setsize False 0) (\<lambda>_ z'. kin (s\<lparr>thr := buried (thr s) zb, calls := cc, zombies := Some z'\<rparr>) rd sl []
        \<and> (\<exists>za c. s\<lparr>thr := buried (thr s) zb, calls := cc, zombies := Some z'\<rparr>
             = s\<lparr>zombies := Some za, thr := buried (thr s) zb, calls := c\<rparr>)) (\<lambda>_ _. False) z"
    proof (rule wp_mono [OF array_setsize_0_wp [OF z(2)]])
      fix u and z' :: "nat karray"
      assume h: "array_wf z' \<and> array_list z' = [] \<and> a_num z' = 0"
      show "kin (s\<lparr>thr := buried (thr s) zb, calls := cc, zombies := Some z'\<rparr>) rd sl []
        \<and> (\<exists>za c. s\<lparr>thr := buried (thr s) zb, calls := cc, zombies := Some z'\<rparr>
             = s\<lparr>zombies := Some za, thr := buried (thr s) zb, calls := c\<rparr>)"
        using kk [of z'] h by (intro conjI exI [of _ z'] exI [of _ cc] e) auto
    qed
    then show ?thesis using z(1) by (simp add: twps)
  qed
  have "wp (kfor [0..<length zb] (\<lambda>i.
        kbind (on_zombies (array_getguy (int i))) (\<lambda>r.
        case r of None \<Rightarrow> kpanic | Some z \<Rightarrow>
        kbind (kget curthread) (\<lambda>c.
        kbind (kassert (c \<noteq> Some z)) (\<lambda>_.
        thread_destroy z)))))
     (\<lambda>_ s'. \<exists>c. s' = s\<lparr>thr := buried (thr s) zb, calls := c\<rparr>) (\<lambda>_ _. False) s"
    using exorcise_loop_wp [OF z(1,2), of "[]" zb] z(3) dis dead by simp
  then have "wp (kfor [0..<length zb] (\<lambda>i.
        kbind (on_zombies (array_getguy (int i))) (\<lambda>r.
        case r of None \<Rightarrow> kpanic | Some z \<Rightarrow>
        kbind (kget curthread) (\<lambda>c.
        kbind (kassert (c \<noteq> Some z)) (\<lambda>_.
        thread_destroy z)))))
     (\<lambda>_. wp (must (on_zombies (array_setsize False 0)))
      (\<lambda>_ s'. kin s' rd sl [] \<and> (\<exists>z c. s' = s\<lparr>zombies := Some z, thr := buried (thr s) zb, calls := c\<rparr>))
      (\<lambda>_ _. False)) (\<lambda>_ _. False) s"
    by (rule wp_mono) (use post in auto)
  then show ?thesis using z(1) spl num
    unfolding exorcise_def by (simp only: wps) (simp add: on_zombies_wp wps array_getnum_def)
qed

section \<open>The frames\<close>

text \<open>The head of the run queue becomes the current thread.\<close>

lemma kin_dispatch:
  assumes k: "kin s (t # rd) sl zb" and idle: "curthread s = None" and on: "onstack s = cur"
    and ks: "kstack s cur = InScheduler cur # SwitchTail # r"
    and l: "lists_ok s' rd sl zb"
    and same: "curthread s' = Some t" "numthreads s' = numthreads s" "sems s' = sems s" "lbolt s' = lbolt s"
      "onstack s' = t" "curspl s' = curspl s" "kstack s' = (kstack s)(cur := SwitchTail # r)"
    and th: "cur = t \<Longrightarrow> thr s' = thr s \<and> in_interrupt s' = in_interrupt s"
      "cur \<noteq> t \<Longrightarrow> \<exists>x y pcb. thr s cur = Some x \<and> thr s t = Some y
         \<and> thr s' = (thr s)(cur \<mapsto> x\<lparr>t_pcb := pcb\<rparr>) \<and> pcb_ininterrupt pcb = in_interrupt s
         \<and> in_interrupt s' = pcb_ininterrupt (t_pcb y)"
  shows "kin s' rd sl zb"
proof -
  note d = k [unfolded kin_def]
  have st: "stack_ok cur (SwitchTail # r)"
    using d ks on by (auto simp: stacks_ok_def)
  have dis: "distinct (t # rd @ sl @ zb)" "set (t # rd @ sl @ zb) = dom (thr s)"
    using d idle by (simp_all add: placed_def cur_list_def)
  have d2: "cur \<in> dom (thr s)" using d on by (simp add: placed_def)
  have "dom (thr s') = dom (thr s)" using th d2 by (cases "cur = t") (auto split: if_splits)
  then have 1: "placed s' rd sl zb"
    using d dis idle unfolding placed_def by (auto simp: cur_list_def same)
  have ex: "\<exists>x. thr s u = Some x \<and> t_stack y = t_stack x \<and> t_magic y = t_magic x \<and> t_vmspace y = t_vmspace x
     \<and> t_cwd y = t_cwd x \<and> t_sleepaddr y = t_sleepaddr x \<and> (u \<noteq> cur \<longrightarrow> y = x)
     \<and> (u = cur \<longrightarrow> cur \<noteq> t \<longrightarrow> pcb_ininterrupt (t_pcb y) = in_interrupt s)"
    if "thr s' u = Some y" for u y
    using th that by (cases "cur = t") (auto split: if_splits)
  have 2: "threads_ok s' zb"
    unfolding threads_ok_def
  proof (intro allI impI)
    fix u y
    assume "thr s' u = Some y"
    from ex [OF this] obtain x where "thr s u = Some x" "t_stack y = t_stack x" "t_magic y = t_magic x"
      "t_vmspace y = t_vmspace x" "t_cwd y = t_cwd x" by blast
    then show "(t_stack y \<noteq> 0 \<longrightarrow> t_magic y = stack_magic) \<and> (u \<in> set zb \<longrightarrow> t_vmspace y = 0 \<and> t_cwd y = 0)"
      using d by (simp add: threads_ok_def)
  qed
  have "t \<in> dom (thr s)" using dis(2) by auto
  then obtain y where y: "thr s t = Some y" by blast
  have so: "stack_ok u (kstack s u)" "Dead \<notin> set (kstack s u)"
      "u \<noteq> cur \<Longrightarrow> parked (kstack s u) \<and> pcb_ininterrupt (t_pcb x) = irq_flag (kstack s u)"
    if "thr s u = Some x" "u \<notin> set zb" for u x
    using d that on by (auto simp: stacks_ok_def)
  have ir: "in_interrupt s = irq_flag r" "curspl s > 0" using d on ks by (auto simp: stacks_ok_def)
  have tz: "t \<notin> set zb" using dis by simp
  have 3: "stacks_ok s' zb"
    unfolding stacks_ok_def
  proof (intro conjI allI impI)
    fix u x
    assume h: "thr s' u = Some x" "u \<notin> set zb"
    then obtain x0 where x0: "thr s u = Some x0" "u \<noteq> cur \<longrightarrow> x = x0"
      "u = cur \<longrightarrow> cur \<noteq> t \<longrightarrow> pcb_ininterrupt (t_pcb x) = in_interrupt s" using ex by blast
    note u = so [OF x0(1) h(2)]
    show "stack_ok u (kstack s' u)" using u(1) st(1) by (simp add: same)
    show "Dead \<notin> set (kstack s' u)" using u(2) ks by (auto simp: same)
    assume "u \<noteq> onstack s'"
    then have ut: "u \<noteq> t" by (simp add: same)
    show "parked (kstack s' u)" using u(3) by (simp add: same)
    show "pcb_ininterrupt (t_pcb x) = irq_flag (kstack s' u)"
      using u(3) x0 ut ir by (cases "u = cur") (auto simp: same)
  next
    have tc: "kstack s' t = (if t = cur then SwitchTail # r else kstack s t)" by (simp add: same)
    show s: "stack_ok (onstack s') (kstack s' (onstack s'))"
      using st(1) so(1) [OF y tz] by (auto simp: same)
    have "\<not> idle (kstack s' t)"
    proof (cases "t = cur")
      case True
      then show ?thesis using st(1) by (simp add: same)
    next
      case False
      then show ?thesis using so(1,3) [OF y tz] parked_not_idle by (simp add: same)
    qed
    then show "idle (kstack s' (onstack s')) = (curthread s' = None)" by (simp add: same)
    show "0 < curspl s'" using ir by (simp add: same)
    show "in_interrupt s' = irq_flag (kstack s' (onstack s'))"
      using th ir y so(3) [OF y tz] by (cases "cur = t") (auto simp: same)
  qed
  have 4: "asleep_ok s' sl"
    unfolding asleep_ok_def
  proof
    fix u
    assume "u \<in> set sl"
    then obtain w r' where w: "under (kstack s u) = SwitchTail # ClearSleep # w # r'"
      "\<forall>x. thr s u = Some x \<longrightarrow> waits_for (sems s) (lbolt s) w (t_sleepaddr x)"
      using d unfolding asleep_ok_def by blast
    have "under (kstack s' u) = under (kstack s u)" using ks by (simp add: same)
    moreover have "waits_for (sems s) (lbolt s) w (t_sleepaddr y)" if "thr s' u = Some y" for y
      using ex [OF that] w(2) by auto
    ultimately show "\<exists>w r. under (kstack s' u) = SwitchTail # ClearSleep # w # r
        \<and> (\<forall>x. thr s' u = Some x \<longrightarrow> waits_for (sems s') (lbolt s') w (t_sleepaddr x))"
      using w(1) by (intro exI [of _ w] exI [of _ r']) (simp add: same)
  qed
  have sl: "sem \<in> dom (sems s)" if "thr s u = Some x" "u \<notin> set zb" "PLoop sem spl \<in> set (kstack s u)"
    for u x sem spl using d that unfolding sems_ok_def by blast
  have 5: "sems_ok s' zb"
    unfolding sems_ok_def
  proof (intro conjI allI impI)
    fix p m
    assume "sems s' p = Some m"
    then show "0 \<le> sem_count m" "p \<noteq> 0" "p \<noteq> lbolt s'" using d by (auto simp: sems_ok_def same)
  next
    fix u x sem spl
    assume h: "thr s' u = Some x" "u \<notin> set zb" "PLoop sem spl \<in> set (kstack s' u)"
    obtain x0 where "thr s u = Some x0" using ex [OF h(1)] by blast
    moreover have "PLoop sem spl \<in> set (kstack s u)" using h(3) ks by (auto simp: same split: if_splits)
    ultimately show "sem \<in> dom (sems s')" using sl [OF _ h(2)] by (simp add: same)
  qed
  show ?thesis using l 1 2 3 4 5 by (simp add: kin_def)
qed

lemma scheduler_wp:
  assumes l: "lists_ok s rd sl zb" and spl: "curspl s > 0"
  shows "wp scheduler (\<lambda>r s'. (rd = [] \<and> r = None \<and> s' = s)
      \<or> (\<exists>q. rd \<noteq> [] \<and> r = Some (hd rd) \<and> s' = s\<lparr>runqueue := Some q\<rparr> \<and> q_wf q \<and> q_list q = tl rd))
    (\<lambda>_ _. False) s"
proof -
  obtain q where q: "runqueue s = Some q" "q_wf q" "q_list q = rd" using l by (auto simp: lists_ok_def)
  show ?thesis
  proof (cases "rd = []")
    case True
    then show ?thesis using q spl q_wf_empty [OF q(2)] by (simp add: scheduler_def twps)
  next
    case False
    have "wp q_remhead (\<lambda>r q'. q_wf q' \<and> r = Some (hd (q_list q)) \<and> q_list q' = tl (q_list q)
       \<and> q_size q' = q_size q) (\<lambda>_ _. False) q"
      by (rule kq.rem_law) (use q False in auto)
    then have "wp q_remhead (\<lambda>r q'. \<exists>t. r = Some t \<and> t = hd rd \<and> q_wf q' \<and> q_list q' = tl rd) (\<lambda>_ _. False) q"
      by (rule wp_mono) (use q in auto)
    then show ?thesis using q spl q_wf_empty [OF q(2)] False
      by (simp add: scheduler_def twps) (erule wp_mono; auto simp: wps)
  qed
qed

lemma mi_switch_dispatch_wp:
  assumes k: "kin s rd sl zb" and idle: "curthread s = None"
    and ks: "kstack s (onstack s) = InScheduler cur # r"
  shows "wp (mi_switch_dispatch cur)
    (\<lambda>_ s'. (rd = [] \<and> s' = s) \<or> (\<exists>t rd'. rd = t # rd' \<and> kin s' rd' sl zb \<and> curthread s' = Some t))
    (\<lambda>_ _. False) s"
proof -
  note d = k [unfolded kin_def]
  have st: "stack_ok (onstack s) (InScheduler cur # r)" "curspl s > 0" using d ks by (auto simp: stacks_ok_def)
  then obtain r' where r': "r = SwitchTail # r'" and on: "onstack s = cur" by auto
  have l: "lists_ok s rd sl zb" using d by simp
  show ?thesis unfolding mi_switch_dispatch_def wp_kbind
  proof (rule wp_mono [OF scheduler_wp [OF l st(2)]])
    fix res s1
    assume "(rd = [] \<and> res = None \<and> s1 = s)
      \<or> (\<exists>q. rd \<noteq> [] \<and> res = Some (hd rd) \<and> s1 = s\<lparr>runqueue := Some q\<rparr> \<and> q_wf q \<and> q_list q = tl rd)"
    then show "wp (case res of None \<Rightarrow> kret () | Some nxt \<Rightarrow>
         kbind (kmodify (\<lambda>s. s\<lparr>curthread := Some nxt\<rparr>)) (\<lambda>_. kbind pop_frame (\<lambda>_. md_switch cur nxt)))
      (\<lambda>_ s'. (rd = [] \<and> s' = s) \<or> (\<exists>t rd'. rd = t # rd' \<and> kin s' rd' sl zb \<and> curthread s' = Some t))
      (\<lambda>_ _. False) s1"
    proof (elim disjE exE conjE)
      fix q
      assume h: "rd \<noteq> []" "res = Some (hd rd)" "s1 = s\<lparr>runqueue := Some q\<rparr>" "q_wf q" "q_list q = tl rd"
      obtain t rd' where rd: "rd = t # rd'" using h(1) by (cases rd) auto
      have dis: "set (t # rd' @ sl @ zb) = dom (thr s)" "cur \<in> dom (thr s)"
        using d idle on rd by (simp_all add: placed_def cur_list_def)
      then have "t \<in> dom (thr s)" by auto
      then obtain x y where x: "thr s cur = Some x" and y: "thr s t = Some y" using dis(2) by blast
      have ll: "lists_ok s' rd' sl zb" if "runqueue s' = Some q" "sleepers s' = sleepers s" "zombies s' = zombies s"
        for s' :: "'a tsys_scheme"
        using l h rd that by (simp add: lists_ok_def)
      show ?thesis
      proof (cases "cur = t")
        case True
        let ?s = "s\<lparr>runqueue := Some q, curthread := Some t, kstack := (kstack s)(cur := SwitchTail # r')\<rparr>"
        have "kin ?s rd' sl zb"
          by (rule kin_dispatch [OF k [unfolded rd] idle on ks [unfolded on r'] ll]) (use True on in simp_all)
        then show ?thesis using h rd True on ks r' by (simp add: twps md_switch_def)
      next
        case False
        let ?x = "x\<lparr>t_pcb := (t_pcb x)\<lparr>pcb_kstack := curkstack s, pcb_ininterrupt := in_interrupt s\<rparr>\<rparr>"
        let ?s = "s\<lparr>runqueue := Some q, curthread := Some t, kstack := (kstack s)(cur := SwitchTail # r'),
          thr := (thr s)(cur \<mapsto> ?x), curkstack := pcb_kstack (t_pcb y), in_interrupt := pcb_ininterrupt (t_pcb y),
          onstack := t\<rparr>"
        have "kin ?s rd' sl zb"
        proof (rule kin_dispatch [OF k [unfolded rd] idle on ks [unfolded on r'] ll])
          assume "cur \<noteq> t"
          show "\<exists>x y pcb. thr s cur = Some x \<and> thr s t = Some y \<and> thr ?s = (thr s)(cur \<mapsto> x\<lparr>t_pcb := pcb\<rparr>)
            \<and> pcb_ininterrupt pcb = in_interrupt s \<and> in_interrupt ?s = pcb_ininterrupt (t_pcb y)"
            using x y by (intro exI [of _ x] exI [of _ y]
              exI [of _ "(t_pcb x)\<lparr>pcb_kstack := curkstack s, pcb_ininterrupt := in_interrupt s\<rparr>"]) simp
        qed (use False on in simp_all)
        then show ?thesis using h rd False on ks r' x y by (simp add: twps md_switch_def map_upd_triv)
      qed
    qed (simp add: wps)
  qed simp
qed

lemma kin_top:
  assumes "kin s rd sl zb" and "kstack s (onstack s) = f # r"
  shows "stack_ok (onstack s) (f # r)" and "idle (f # r) \<longleftrightarrow> curthread s = None"
    and "hi (f # r) \<Longrightarrow> curspl s > 0" and "in_interrupt s = irq_flag (f # r)"
  using assms by (auto simp: kin_def stacks_ok_def)

lemma kin_top_cur:
  assumes "kin s rd sl zb" and "curthread s = Some t"
  shows "stack_ok t (kstack s t)" and "\<not> idle (kstack s t)" and "hi (kstack s t) \<Longrightarrow> curspl s > 0"
    and "in_interrupt s = irq_flag (kstack s t)" and "Dead \<notin> set (kstack s t)"
  using assms kin_cur [OF assms] by (auto simp: kin_def stacks_ok_def)

text \<open>Taking the top frame off, when it is not the scheduler's.\<close>

lemma kin_pop:
  assumes k: "kin s rd sl zb" and ks: "kstack s (onstack s) = f # r"
    and ok: "stack_ok (onstack s) r" "idle r \<longleftrightarrow> curthread s = None" "hi r \<Longrightarrow> curspl s' > 0"
      "in_interrupt s' = irq_flag r" and u: "curthread s = None \<Longrightarrow> under r = under (f # r)"
    and same: "runqueue s' = runqueue s" "sleepers s' = sleepers s" "zombies s' = zombies s"
      "curthread s' = curthread s" "numthreads s' = numthreads s" "thr s' = thr s" "sems s' = sems s"
      "lbolt s' = lbolt s" "onstack s' = onstack s" "kstack s' = (kstack s)(onstack s := r)"
  shows "kin s' rd sl zb"
  by (rule kin_cpu [OF k same(1-9), where ks = r]) (use ks ok u same(10) in auto)

lemma thread_yield_wp:
  assumes k: "kin s rd sl zb"
  shows "wp (thread_yield True) (\<lambda>_ s'. kin s' (rd @ cur_list s) sl zb \<and> curthread s' = None) (\<lambda>_ _. False) s"
proof -
  let ?ks = "Splx (curspl s) # kstack s (onstack s)"
  let ?s = "s\<lparr>curspl := SPL_HIGH, kstack := (kstack s)(onstack s := ?ks)\<rparr>"
  have st: "stack_ok (onstack s) (kstack s (onstack s))" "idle (kstack s (onstack s)) \<longleftrightarrow> curthread s = None"
    "hi (kstack s (onstack s)) \<longrightarrow> curspl s > 0" "in_interrupt s = irq_flag (kstack s (onstack s))"
    using k by (auto simp: kin_def stacks_ok_def)
  have "kin ?s rd sl zb" by (rule kin_cpu [OF k, where ks = ?ks]) (use st in auto)
  then have "wp (mi_switch True S_READY) (\<lambda>_ s'. kin s' (rd @ cur_list ?s) sl zb \<and> curthread s' = None)
    (\<lambda>_ _. False) ?s"
    by (rule mi_switch_ready_wp) (simp add: SPL_HIGH_def)
  moreover have "cur_list ?s = cur_list s" by (simp add: cur_list_def)
  moreover have "sleepers s \<noteq> None" using k by (auto simp: kin_def lists_ok_def)
  ultimately show ?thesis by (simp add: thread_yield_def twps)
qed

lemma clocksleep_loop_wp:
  assumes k: "kin s rd sl zb" and spl: "curspl s > 0" and t: "curthread s = Some t"
    and i: "in_interrupt s = 0" and n: "hi (kstack s t) \<longrightarrow> spl > 0"
  shows "wp (clocksleep_loop True num spl) (\<lambda>_. blocked_or_done rd s) (\<lambda>_ _. False) s"
proof (cases "num > 0")
  case True
  note c = kin_cur [OF k t] and st = kin_top_cur [OF k t]
  let ?ks = "ClockLoop num spl # kstack s t"
  let ?s = "s\<lparr>kstack := (kstack s)(t := ?ks)\<rparr>"
  have "kin ?s rd sl zb" by (rule kin_cpu [OF k, where ks = ?ks]) (use st c t spl i n in auto)
  then have "wp (thread_sleep True (lbolt s)) (\<lambda>_ s'. kin s' rd (sl @ [t]) zb \<and> curthread s' = None) (\<lambda>_ _. False) ?s"
    by (rule thread_sleep_wp) (use spl t i in \<open>auto simp: waits_for_def\<close>)
  then show ?thesis using True c(1)
    by (simp add: clocksleep_loop_def twps) (erule wp_mono; auto simp: blocked_or_done_def)
next
  case False
  then show ?thesis using kin_curspl [OF k, of spl] n kin_cur [OF k t]
    by (auto simp: clocksleep_loop_def twps blocked_or_done_def)
qed

lemma activate_cur_wp:
  assumes k: "kin s rd sl zb" and t: "curthread s = Some t"
  shows "wp activate_cur (\<lambda>_ s'. \<exists>c. s' = s\<lparr>calls := c\<rparr>) (\<lambda>_ _. False) s"
proof -
  obtain x where "thr s t = Some x" using kin_cur(2) [OF k t] by auto
  moreover have "s = s\<lparr>calls := calls s\<rparr>" by simp
  then have "\<exists>c. s = s\<lparr>calls := c\<rparr>" by (rule exI)
  ultimately show ?thesis using t by (auto simp: activate_cur_def twps)
qed

lemma mi_switch_tail_wp:
  assumes k: "kin s rd sl zb" and t: "curthread s = Some t" and spl: "curspl s > 0"
  shows "wp mi_switch_tail (\<lambda>_ s'. kin s' rd sl [] \<and> curthread s' = Some t \<and> onstack s' = onstack s
     \<and> kstack s' = kstack s) (\<lambda>_ _. False) s"
  unfolding mi_switch_tail_def wp_kbind
proof (rule wp_mono [OF exorcise_wp [OF k t spl]])
  fix u s1
  assume h: "kin s1 rd sl [] \<and> (\<exists>z c. s1 = s\<lparr>zombies := Some z, thr := buried (thr s) zb, calls := c\<rparr>)"
  then have "curthread s1 = Some t" using t by auto
  then show "wp activate_cur (\<lambda>_ s'. kin s' rd sl [] \<and> curthread s' = Some t \<and> onstack s' = onstack s
     \<and> kstack s' = kstack s) (\<lambda>_ _. False) s1"
    by (intro wp_mono [OF activate_cur_wp]) (use h in \<open>auto simp: kin_calls\<close>)
qed simp

text \<open>How much a stack has still to do.\<close>

definition stack_work :: "frame list \<Rightarrow> nat" where
  "stack_work ks = length ks + length (filter is_ThreadStart ks)"

lemma stack_work_simps [simp]:
  "stack_work [] = 0" "stack_work (f # r) = (if is_ThreadStart f then 2 else 1) + stack_work r"
  by (simp_all add: stack_work_def)

text \<open>
  The run of a frame: nobody becomes ready. Either the same thread goes on with less to do, or it
  goes to sleep, or the head of the run queue is dispatched; or nothing is left to do.
\<close>

definition frame_ran :: "nat list \<Rightarrow> 'b tsys_scheme \<Rightarrow> 'b tsys_scheme \<Rightarrow> bool" where
  "frame_ran rd s s' \<longleftrightarrow>
     (s' = s \<and> (in_body s \<or> rd = [] \<and> curthread s = None \<and> (\<exists>c r. kstack s (onstack s) = InScheduler c # r)))
   \<or> ((\<exists>sl zb. kin s' rd sl zb) \<and>
        (curthread s' = curthread s \<and> stack_work (kstack s' (onstack s')) < stack_work (kstack s (onstack s))
         \<or> curthread s \<noteq> None \<and> curthread s' = None))
   \<or> (\<exists>t rd' sl zb. rd = t # rd' \<and> curthread s = None \<and> curthread s' = Some t \<and> kin s' rd' sl zb)"

lemma run_frame_wp:
  assumes k: "kin s rd sl zb" and kst: "kstk s"
  shows "wp (run_frame True) (\<lambda>_ s'. frame_ran rd s s') (\<lambda>_ _. False) s"
proof -
  obtain f r where ks: "kstack s (onstack s) = f # r"
    using k by (cases "kstack s (onstack s)") (auto simp: kin_def stacks_ok_def)
  note top = kin_top [OF k ks]
  have dead: "f \<noteq> Dead"
  proof
    assume f: "f = Dead"
    obtain x where x: "thr s (onstack s) = Some x" using k by (auto simp: kin_def placed_def)
    have "Dead \<notin> set (kstack s (onstack s))" if "onstack s \<notin> set zb"
      using k x that unfolding kin_def stacks_ok_def by blast
    then have "onstack s \<in> set zb" using ks f by auto
    moreover have "curthread s \<noteq> None" using top f by auto
    ultimately show False using k kin_cur [OF k] by auto
  qed
  have cur: "\<exists>t. curthread s = Some t \<and> onstack s = t" if "\<not> idle (f # r)"
    using top(2) that kin_cur(1) [OF k] by auto
  have less: "frame_ran rd s s'" if "kin s' rd sl' zb'" "curthread s' = curthread s"
    "stack_work (kstack s' (onstack s')) < stack_work (f # r)" for s' sl' zb'
    using that ks by (auto simp: frame_ran_def)
  have block: "frame_ran rd s s'" if "blocked_or_done rd s1 s'" "curthread s1 = curthread s" "curthread s \<noteq> None"
    "stack_work (kstack s1 (onstack s1)) < stack_work (f # r)" for s1 s'
    using that ks by (auto simp: frame_ran_def blocked_or_done_def)
  have pop: "kin (s\<lparr>kstack := (kstack s)(t := r)\<rparr>) rd sl zb"
    if "onstack s = t" "stack_ok t r" "idle r \<longleftrightarrow> idle (f # r)" "hi r \<Longrightarrow> curspl s > 0" "irq_flag r = irq_flag (f # r)"
      "curthread s \<noteq> None" for t
    by (rule kin_pop [OF k ks]) (use that top in auto)
  show ?thesis
  proof (cases f)
    case Body
    then show ?thesis using ks by (simp add: run_frame_def twps frame_ran_def in_body_def)
  next
    case (ThreadStart a b c)
    then have r: "r = []" using top by simp
    obtain t where t: "curthread s = Some t" "onstack s = t" using cur ThreadStart r by auto
    obtain x where x: "thr s t = Some x" using kin_cur(2) [OF k t(1)] by auto
    have kk: "frame_ran rd s s'"
      if "runqueue s' = runqueue s" "sleepers s' = sleepers s" "zombies s' = zombies s"
        "curthread s' = curthread s" "numthreads s' = numthreads s" "thr s' = thr s" "sems s' = sems s"
        "lbolt s' = lbolt s" "onstack s' = onstack s" "kstack s' = (kstack s)(t := [Body])"
        "in_interrupt s' = in_interrupt s" for s'
    proof (rule less)
      show "kin s' rd sl zb"
        by (rule kin_cpu [OF k that(1-9), where ks = "[Body]"]) (use that t top ThreadStart r in auto)
    qed (use that t ThreadStart r in auto)
    show ?thesis using ThreadStart ks t r x
      by (auto simp: run_frame_def mi_threadstart_def activate_cur_def twps intro!: kk)
  next
    case (InScheduler cur)
    then have "curthread s = None" using top by simp
    then have "wp (mi_switch_dispatch cur) (\<lambda>_ s'. frame_ran rd s s') (\<lambda>_ _. False) s"
      by (intro wp_mono [OF mi_switch_dispatch_wp [OF k _ ks [unfolded InScheduler]]])
        (use InScheduler ks in \<open>auto simp: frame_ran_def\<close>)
    then show ?thesis using InScheduler ks by (simp add: run_frame_def twps)
  next
    case SwitchTail
    obtain t where t: "curthread s = Some t" "onstack s = t" using cur SwitchTail top by auto
    have 1: "kin (s\<lparr>kstack := (kstack s)(t := r)\<rparr>) rd sl zb"
      by (rule pop) (use SwitchTail top t in auto)
    have "wp mi_switch_tail (\<lambda>_ s'. frame_ran rd s s') (\<lambda>_ _. False) (s\<lparr>kstack := (kstack s)(t := r)\<rparr>)"
      by (rule wp_mono [OF mi_switch_tail_wp [OF 1]]) (use t top SwitchTail in \<open>auto intro: less\<close>)
    then show ?thesis using SwitchTail ks t by (simp add: run_frame_def twps)
  next
    case (Splx n)
    have "kin (s\<lparr>kstack := (kstack s)(onstack s := r), curspl := n\<rparr>) rd sl zb"
      by (rule kin_pop [OF k ks]) (use Splx top in auto)
    then show ?thesis using Splx ks by (auto simp: run_frame_def twps intro: less)
  next
    case ClearSleep
    obtain t where t: "curthread s = Some t" "onstack s = t" using cur ClearSleep top by auto
    obtain x where x: "thr s t = Some x" using kin_cur(2) [OF k t(1)] by auto
    have 1: "kin (s\<lparr>kstack := (kstack s)(t := r)\<rparr>) rd sl zb"
      by (rule pop) (use ClearSleep top t in auto)
    have "kin (s\<lparr>kstack := (kstack s)(t := r), thr := (thr s)(t \<mapsto> x\<lparr>t_sleepaddr := 0\<rparr>)\<rparr>) rd sl zb"
      by (rule kin_thr [OF 1, where x = "x\<lparr>t_sleepaddr := 0\<rparr>"])
        (use t x k in \<open>auto simp: kin_def threads_ok_def\<close>)
    then show ?thesis using ClearSleep ks t x by (auto simp: run_frame_def twps intro: less)
  next
    case (PLoop sem n)
    obtain t where t: "curthread s = Some t" "onstack s = t" using cur PLoop top by auto
    have 1: "kin (s\<lparr>kstack := (kstack s)(t := r)\<rparr>) rd sl zb"
      by (rule pop) (use PLoop top t in auto)
    have sem: "sem \<in> dom (sems s)"
      using k kin_cur [OF k t(1)] ks PLoop t unfolding kin_def sems_ok_def by (metis domD list.set_intros(1))
    have "wp (P_loop True sem n) (\<lambda>_. frame_ran rd s) (\<lambda>_ _. False) (s\<lparr>kstack := (kstack s)(t := r)\<rparr>)"
      by (intro wp_mono [OF P_loop_wp [OF 1, where t = t]]) (use t top PLoop sem in \<open>auto elim: block\<close>)
    then show ?thesis using PLoop ks t by (simp add: run_frame_def twps)
  next
    case (ClockLoop n spl)
    obtain t where t: "curthread s = Some t" "onstack s = t" using cur ClockLoop top by auto
    have 1: "kin (s\<lparr>kstack := (kstack s)(t := r)\<rparr>) rd sl zb"
      by (rule pop) (use ClockLoop top t in auto)
    have "wp (clocksleep_loop True (n - 1) spl) (\<lambda>_. frame_ran rd s) (\<lambda>_ _. False) (s\<lparr>kstack := (kstack s)(t := r)\<rparr>)"
      by (intro wp_mono [OF clocksleep_loop_wp [OF 1, where t = t]]) (use t top ClockLoop in \<open>auto elim: block\<close>)
    then show ?thesis using ClockLoop ks t by (simp add: run_frame_def twps)
  next
    case (IrqDone old n tf)
    obtain x where x: "thr s (onstack s) = Some x" using k by (auto simp: kin_def placed_def)
    have "tf_on (stack_end s x) tf" using kstk_end(2) [OF kst x] ks IrqDone by simp
    then have ss: "SAME_STACK (sub32 (curkstack s) 1) tf"
      using same_stack kstk_end [OF kst x] by metis
    have "kin (s\<lparr>kstack := (kstack s)(onstack s := r), in_interrupt := old, curspl := n\<rparr>) rd sl zb"
      by (rule kin_pop [OF k ks]) (use IrqDone top in auto)
    moreover have "s\<lparr>kstack := (kstack s)(onstack s := r), in_interrupt := old, curspl := SPL_HIGH, curspl := n\<rparr>
      = s\<lparr>kstack := (kstack s)(onstack s := r), in_interrupt := old, curspl := n\<rparr>" by simp
    ultimately show ?thesis using IrqDone ks ss
      by (auto simp: run_frame_def irq_done_def twps intro: less)
  qed (use dead in simp)
qed

text \<open>
  What a step does to the run queue: the first thread leaves it and becomes the current one, or it
  only grows at its end.
\<close>

definition kstep_ok :: "nat list \<Rightarrow> 'b tsys_scheme \<Rightarrow> 'b tsys_scheme \<Rightarrow> bool" where
  "kstep_ok rd s s' \<longleftrightarrow> kgrow rd s' \<and> \<not> (curthread s = None \<and> curthread s' \<noteq> None)
     \<or> (\<exists>t rd' sl zb. rd = t # rd' \<and> curthread s = None \<and> curthread s' = Some t \<and> kin s' rd' sl zb)"

lemma frame_ran_kstep:
  assumes "kin s rd sl zb" and "frame_ran rd s s'"
  shows "kstep_ok rd s s'"
  using assms kgrow0 [of s rd sl zb] kgrow0 [of s' rd] unfolding frame_ran_def kstep_ok_def by (cases "curthread s") auto

end
