(* ===== verification/ThreadCalls.thy ===== *)
theory ThreadCalls
  imports ThreadInv
begin

text \<open>
  What the calls of a thread and the interrupts do to the invariant of the thread system.
\<close>

section \<open>Leaving\<close>

lemma kin_exit:
  assumes k: "kin s rd sl zb" and t: "curthread s = Some t" and x: "thr s t = Some x"
    and l: "lists_ok s' rd sl (zb @ [t])"
    and same: "curthread s' = None" "numthreads s' = numthreads s - 1" "sems s' = sems s" "lbolt s' = lbolt s"
      "onstack s' = onstack s" "curspl s' = SPL_HIGH" "in_interrupt s' = in_interrupt s"
      "kstack s' = (kstack s)(t := InScheduler t # SwitchTail # Dead # kstack s t)"
      "thr s' = (thr s)(t \<mapsto> y)"
    and y: "t_vmspace y = 0" "t_cwd y = 0" "t_stack y = t_stack x" "t_magic y = t_magic x"
  shows "kin s' rd sl (zb @ [t])"
proof -
  note d = k [unfolded kin_def] and c = kin_cur [OF k t] and st = kin_top_cur [OF k t]
  have dis: "distinct (t # rd @ sl @ zb)" "set (t # rd @ sl @ zb) = dom (thr s)"
    "numthreads s = int (Suc (length rd + length sl))"
    using d t by (simp_all add: placed_def cur_list_def)
  have dom: "dom (thr s') = dom (thr s)" using c(2) by (auto simp: same)
  have e: "cur_list s' = []" by (simp add: cur_list_def same)
  have 1: "placed s' rd sl (zb @ [t])"
    using dis d c unfolding placed_def e dom by (auto simp: same)
  have 2: "threads_ok s' (zb @ [t])"
    using d x y by (auto simp: threads_ok_def same)
  have 3: "stacks_ok s' (zb @ [t])"
    using d st c unfolding stacks_ok_def same by (auto simp: SPL_HIGH_def)
  have 4: "asleep_ok s' sl" using d c(4) unfolding asleep_ok_def same by auto
  have so: "sem \<in> dom (sems s)" if "u \<in> dom (thr s)" "u \<notin> set zb" "PLoop sem spl \<in> set (kstack s u)"
    for u sem spl using d that unfolding sems_ok_def by blast
  have 5: "sems_ok s' (zb @ [t])"
    using d so unfolding sems_ok_def same by auto
  show ?thesis using l 1 2 3 4 5 by (simp add: kin_def)
qed

lemma exit_leave_wp:
  assumes k: "kin s rd sl zb" and t: "curthread s = Some t" and x: "thr s t = Some x"
    and y: "t_vmspace x = 0" "t_cwd x = 0" and spl: "curspl s = SPL_HIGH"
  shows "wp (exit_leave True) (\<lambda>_ s'. kin s' rd sl (zb @ [t])) (\<lambda>_ _. False) s"
proof -
  note c = kin_cur [OF k t] and len = kin_len [OF k]
  obtain z where z: "zombies s = Some z" "array_wf z" "array_list z = zb"
    using k by (auto simp: kin_def lists_ok_def)
  have n: "numthreads s > 0" using k t by (simp add: kin_def placed_def cur_list_def)
  have m: "t_stack x \<noteq> 0 \<longrightarrow> t_magic x = stack_magic" using len(4) x by (simp add: threads_ok_def)
  have "wp (array_add True t) (\<lambda>_ z'. kin (s\<lparr>numthreads := numthreads s - 1, curthread := None, zombies := Some z',
      kstack := (kstack s)(t := InScheduler t # SwitchTail # Dead # kstack s t)\<rparr>) rd sl (zb @ [t])) (\<lambda>_ _. False) z"
  proof (rule wp_mono [OF array_add_wp [OF z(2)]])
    fix u and z' :: "nat karray"
    assume z': "array_wf z' \<and> array_list z' = array_list z @ [t] \<and> a_num z' = a_num z + 1"
    show "kin (s\<lparr>numthreads := numthreads s - 1, curthread := None, zombies := Some z',
      kstack := (kstack s)(t := InScheduler t # SwitchTail # Dead # kstack s t)\<rparr>) rd sl (zb @ [t])"
      by (rule kin_exit [OF k t x, where y = x])
        (use z' z len y spl x in \<open>auto simp: lists_ok_def map_upd_triv\<close>)
  qed simp
  moreover have e: "s\<lparr>numthreads := n, kstack := f, curthread := c, zombies := z, kstack := g\<rparr>
    = s\<lparr>numthreads := n, curthread := c, zombies := z, kstack := g\<rparr>" for n f c z g
    by (rule tsys.equality) simp_all
  ultimately show ?thesis using t x z(1) n m c(1) spl
    by (simp add: exit_leave_def mi_switch_def check_magic_def twps map_upd_triv SPL_HIGH_def)
qed

lemma exit_cleanup_wp:
  assumes k: "kin s rd sl zb" and t: "curthread s = Some t"
  shows "wp (exit_cleanup t) (\<lambda>_ s'. kin s' rd sl zb \<and> curthread s' = Some t \<and> curspl s' = curspl s
     \<and> (\<exists>y. thr s' t = Some y \<and> t_vmspace y = 0 \<and> t_cwd y = 0)) (\<lambda>_ _. False) s"
proof -
  obtain x where x: "thr s t = Some x" using kin_cur(2) [OF k t] by auto
  have m: "t_stack x \<noteq> 0 \<longrightarrow> t_magic x = stack_magic" using kin_len(4) [OF k] x by (simp add: threads_ok_def)
  have kk: "kin s' rd sl zb" if "s' = s\<lparr>thr := (thr s)(t \<mapsto> y), calls := cc\<rparr>" "t_stack y = t_stack x"
    "t_magic y = t_magic x" for s' y cc
    by (rule kin_thr [OF k t, where x = y]) (use that m in simp_all)
  have e: "s\<lparr>calls := cc, thr := th\<rparr> = s\<lparr>thr := th, calls := cc\<rparr>"
    "s\<lparr>thr := th', calls := cc, thr := th\<rparr> = s\<lparr>thr := th, calls := cc\<rparr>" for cc th th'
    by (rule tsys.equality; simp)+
  show ?thesis
    using x t k by (simp add: exit_cleanup_def twps kk [OF e(1)] kk [OF refl] map_upd_triv)
qed

lemma thread_exit_wp:
  assumes k: "kin s rd sl zb" and t: "curthread s = Some t"
  shows "wp (thread_exit True) (\<lambda>_ s'. kin s' rd sl (zb @ [t])) (\<lambda>_ _. False) s"
proof -
  have h: "kin (s\<lparr>curspl := SPL_HIGH\<rparr>) rd sl zb" by (rule kin_curspl [OF k]) (simp add: SPL_HIGH_def)
  have "wp (exit_cleanup t) (\<lambda>_. wp (exit_leave True) (\<lambda>_ s'. kin s' rd sl (zb @ [t])) (\<lambda>_ _. False))
    (\<lambda>_ _. False) (s\<lparr>curspl := SPL_HIGH\<rparr>)"
    by (rule wp_mono [OF exit_cleanup_wp [OF h]]) (use t in \<open>auto intro: exit_leave_wp\<close>)
  then show ?thesis using t kin_len(4) [OF k] kin_cur(2) [OF k t]
    by (simp add: thread_exit_def twps check_magic_wp)
qed

section \<open>Forking\<close>

lemma fork_enter_wp:
  assumes l: "lists_ok s rd sl zb" and spl: "curspl s > 0" and n: "0 \<le> numthreads s" "numthreads s \<le> 1048576"
    and rd: "length rd \<le> 1048576"
  shows "wp (fork_enter fm p)
    (\<lambda>_ s'. \<exists>q a z. s' = s\<lparr>sleepers := Some a, zombies := Some z, runqueue := Some q\<rparr> \<and> lists_ok s' (rd @ [p]) sl zb
        \<and> numthreads s + 1 \<le> int (q_size q) \<and> numthreads s + 1 \<le> a_max a \<and> numthreads s + 1 \<le> a_max z)
    (\<lambda>e s'. e = ENOMEM \<and> (\<exists>q a z. s' = s\<lparr>sleepers := Some a, zombies := Some z, runqueue := Some q\<rparr>
        \<and> lists_ok s' rd sl zb)) s"
proof -
  obtain q a z where q: "runqueue s = Some q" "q_wf q" "q_list q = rd"
    and a: "sleepers s = Some a" "array_wf a" "array_list a = sl"
    and z: "zombies s = Some z" "array_wf z" "array_list z = zb"
    using l by (auto simp: lists_ok_def)
  let ?n = "numthreads s + 1"
  let ?F = "\<lambda>e s'. e = ENOMEM \<and> (\<exists>q a z. s' = s\<lparr>sleepers := Some a, zombies := Some z, runqueue := Some q\<rparr>
        \<and> lists_ok s' rd sl zb)"
  let ?D = "\<lambda>_ s'. \<exists>q a z. s' = s\<lparr>sleepers := Some a, zombies := Some z, runqueue := Some q\<rparr> \<and> lists_ok s' (rd @ [p]) sl zb
        \<and> ?n \<le> int (q_size q) \<and> ?n \<le> a_max a \<and> ?n \<le> a_max z"
  have e: "s\<lparr>sleepers := Some a', zombies := Some z', runqueue := Some q\<rparr> = s\<lparr>sleepers := Some a', zombies := Some z'\<rparr>"
    "s\<lparr>sleepers := Some a', zombies := Some z, runqueue := Some q\<rparr> = s\<lparr>sleepers := Some a'\<rparr>"
    "s\<lparr>sleepers := Some a, zombies := Some z, runqueue := Some q\<rparr> = s" for a' z'
    using q(1) a(1) z(1) by simp_all
  have fail: "?F ENOMEM (s\<lparr>sleepers := Some a', zombies := Some z', runqueue := Some q'\<rparr>)"
    if "array_wf a'" "array_list a' = sl" "array_wf z'" "array_list z' = zb" "q_wf q'" "q_list q' = rd" for a' z' q'
    using that by (intro conjI refl exI [of _ q'] exI [of _ a'] exI [of _ z']) (simp add: lists_ok_def)
  have fin: "wp (make_runnable (fm_run fm) p) ?D ?F (s\<lparr>sleepers := Some a', zombies := Some z', runqueue := Some q'\<rparr>)"
    if a': "array_wf a'" "array_list a' = sl" "?n \<le> a_max a'" and z': "array_wf z'" "array_list z' = zb" "?n \<le> a_max z'"
      and q': "q_wf q'" "q_list q' = rd" "?n \<le> int (q_size q')" for a' z' q'
  proof -
    have "wp (q_addtail (fm_run fm) p) (\<lambda>u q''. ?D u (s\<lparr>sleepers := Some a', zombies := Some z', runqueue := Some q''\<rparr>))
      (\<lambda>e q''. ?F e (s\<lparr>sleepers := Some a', zombies := Some z', runqueue := Some q''\<rparr>)) q'"
    proof (rule wp_mono [OF kq.add_law [OF q'(1)]])
      fix u q''
      assume "q_wf q'' \<and> q_list q'' = q_list q' @ [p] \<and> q_size q' \<le> q_size q''"
      then show "?D u (s\<lparr>sleepers := Some a', zombies := Some z', runqueue := Some q''\<rparr>)"
        using a' z' q' by (intro exI [of _ q''] exI [of _ a'] exI [of _ z'] conjI refl) (simp_all add: lists_ok_def)
    next
      fix e q''
      assume "\<not> fm_run fm \<and> e = ENOMEM \<and> q'' = q' \<and> q_size q' = Suc (length (q_list q'))"
      then show "?F e (s\<lparr>sleepers := Some a', zombies := Some z', runqueue := Some q''\<rparr>)"
        using fail [OF a'(1,2) z'(1,2) q'(1,2)] by (simp only:)
    qed (use rd q' in simp)
    then show ?thesis using spl by (simp add: make_runnable_def twps)
  qed
  have sched: "wp (scheduler_preallocate (fm_queue fm) ?n) (\<lambda>_. wp (make_runnable (fm_run fm) p) ?D ?F) ?F
      (s\<lparr>sleepers := Some a', zombies := Some z'\<rparr>)"
    if a': "array_wf a'" "array_list a' = sl" "?n \<le> a_max a'" and z': "array_wf z'" "array_list z' = zb" "?n \<le> a_max z'"
    for a' z'
  proof -
    have "wp (q_preallocate (fm_queue fm) (nat ?n))
      (\<lambda>_ q'. wp (make_runnable (fm_run fm) p) ?D ?F (s\<lparr>sleepers := Some a', zombies := Some z', runqueue := Some q'\<rparr>))
      (\<lambda>e q'. ?F e (s\<lparr>sleepers := Some a', zombies := Some z', runqueue := Some q'\<rparr>)) q"
    proof (rule wp_mono [OF kq.prealloc_law [OF q(2)]])
      fix u q'
      assume "q_wf q' \<and> q_list q' = q_list q \<and> nat ?n \<le> q_size q' \<and> q_size q \<le> q_size q'"
      then show "wp (make_runnable (fm_run fm) p) ?D ?F (s\<lparr>sleepers := Some a', zombies := Some z', runqueue := Some q'\<rparr>)"
        using q by (intro fin a' z') auto
    next
      fix e q'
      assume "\<not> fm_queue fm \<and> e = ENOMEM \<and> q' = q \<and> q_size q < nat ?n"
      then show "?F e (s\<lparr>sleepers := Some a', zombies := Some z', runqueue := Some q'\<rparr>)"
        using fail [OF a'(1,2) z'(1,2) q(2,3)] by (simp only:)
    qed (use n in auto)
    then show ?thesis using q(1) spl by (simp add: scheduler_preallocate_def twps)
  qed
  have zom: "wp (on_zombies (array_preallocate (fm_zombies fm) ?n))
      (\<lambda>_. wp (scheduler_preallocate (fm_queue fm) ?n) (\<lambda>_. wp (make_runnable (fm_run fm) p) ?D ?F) ?F) ?F
      (s\<lparr>sleepers := Some a'\<rparr>)"
    if a': "array_wf a'" "array_list a' = sl" "?n \<le> a_max a'" for a'
  proof -
    have "wp (array_preallocate (fm_zombies fm) ?n)
      (\<lambda>_ z'. wp (scheduler_preallocate (fm_queue fm) ?n) (\<lambda>_. wp (make_runnable (fm_run fm) p) ?D ?F) ?F
         (s\<lparr>sleepers := Some a', zombies := Some z'\<rparr>))
      (\<lambda>e z'. ?F e (s\<lparr>sleepers := Some a', zombies := Some z'\<rparr>)) z"
    proof (rule wp_mono [OF array_preallocate_wp [OF z(2)]])
      fix e z'
      assume "\<not> fm_zombies fm \<and> e = ENOMEM \<and> z' = z"
      then show "?F e (s\<lparr>sleepers := Some a', zombies := Some z'\<rparr>)"
        using fail [OF a'(1,2) z(2,3) q(2,3)] unfolding e(1) by (simp only:)
    qed (use sched a' z in auto)
    then show ?thesis using z(1) by (simp add: twps)
  qed
  have "wp (on_sleepers (array_preallocate (fm_sleepers fm) ?n))
      (\<lambda>_. wp (on_zombies (array_preallocate (fm_zombies fm) ?n))
        (\<lambda>_. wp (scheduler_preallocate (fm_queue fm) ?n) (\<lambda>_. wp (make_runnable (fm_run fm) p) ?D ?F) ?F) ?F) ?F s"
  proof -
    have "wp (array_preallocate (fm_sleepers fm) ?n)
      (\<lambda>_ a'. wp (on_zombies (array_preallocate (fm_zombies fm) ?n))
        (\<lambda>_. wp (scheduler_preallocate (fm_queue fm) ?n) (\<lambda>_. wp (make_runnable (fm_run fm) p) ?D ?F) ?F) ?F
         (s\<lparr>sleepers := Some a'\<rparr>))
      (\<lambda>e a'. ?F e (s\<lparr>sleepers := Some a'\<rparr>)) a"
    proof (rule wp_mono [OF array_preallocate_wp [OF a(2)]])
      fix e a'
      assume "\<not> fm_sleepers fm \<and> e = ENOMEM \<and> a' = a"
      then show "?F e (s\<lparr>sleepers := Some a'\<rparr>)"
        using fail [OF a(2,3) z(2,3) q(2,3)] unfolding e(2) by (simp only:)
    qed (use zom a in auto)
    then show ?thesis using a(1) by (simp only: on_sleepers_wp) simp
  qed
  then show ?thesis unfolding fork_enter_def wp_kbind wp_kget by simp
qed

text \<open>A new thread at the end of the run queue.\<close>

lemma kin_fork:
  assumes k: "kin s rd sl zb" and p: "p \<notin> dom (thr s)" and few: "numthreads s < 1048576"
    and l: "lists_ok s' (rd @ [p]) sl zb"
    and same: "curthread s' = curthread s" "numthreads s' = numthreads s + 1" "sems s' = sems s" "lbolt s' = lbolt s"
      "onstack s' = onstack s" "curspl s' = curspl s" "in_interrupt s' = in_interrupt s"
      "kstack s' = (kstack s)(p := [ThreadStart a b c])" "thr s' = (thr s)(p \<mapsto> x)"
    and x: "t_magic x = stack_magic" "pcb_ininterrupt (t_pcb x) = 0"
  shows "kin s' (rd @ [p]) sl zb"
proof -
  note d = k [unfolded kin_def]
  have e: "cur_list s' = cur_list s" by (simp add: cur_list_def same)
  have pl: "distinct (cur_list s @ rd @ sl @ zb)" "set (cur_list s @ rd @ sl @ zb) = dom (thr s)"
    "numthreads s = int (length (cur_list s @ rd @ sl))" "onstack s \<in> dom (thr s)"
    using d by (simp_all add: placed_def)
  have np: "p \<notin> set (cur_list s @ rd @ sl @ zb)" "p \<noteq> onstack s" using p pl by auto
  have 1: "placed s' (rd @ [p]) sl zb"
    using pl np few d unfolding placed_def e by (auto simp: same)
  have 2: "threads_ok s' zb" using d x np by (auto simp: threads_ok_def same)
  have 3: "stacks_ok s' zb" using d x np unfolding stacks_ok_def same by auto
  have 4: "asleep_ok s' sl" using d np unfolding asleep_ok_def same by auto
  have so: "sem \<in> dom (sems s)" if "u \<in> dom (thr s)" "u \<notin> set zb" "PLoop sem spl \<in> set (kstack s u)"
    for u sem spl using d that unfolding sems_ok_def by blast
  have 5: "sems_ok s' zb"
    unfolding sems_ok_def
  proof (intro conjI allI impI)
    fix q m
    assume "sems s' q = Some m"
    then show "0 \<le> sem_count m" "q \<noteq> 0" "q \<noteq> lbolt s'" using d by (auto simp: sems_ok_def same)
  next
    fix u y sem spl
    assume "thr s' u = Some y" "u \<notin> set zb" "PLoop sem spl \<in> set (kstack s' u)"
    then show "sem \<in> dom (sems s')" using so [of u sem spl] by (cases "u = p") (auto simp: same)
  qed
  show ?thesis using l 1 2 3 4 5 by (simp add: kin_def)
qed

text \<open>A failed \<open>thread_fork\<close> changes at most the capacities and the unused stack of the new thread.\<close>

lemma kin_unforked:
  assumes k: "kin s rd sl zb" and p: "p \<notin> dom (thr s)" and l: "lists_ok s' rd sl zb"
    and same: "curthread s' = curthread s" "numthreads s' = numthreads s" "sems s' = sems s" "lbolt s' = lbolt s"
      "onstack s' = onstack s" "curspl s' = curspl s" "in_interrupt s' = in_interrupt s"
      "kstack s' = (kstack s)(p := ks)" "thr s' = thr s"
  shows "kin s' rd sl zb"
proof -
  note d = k [unfolded kin_def]
  have e: "cur_list s' = cur_list s" by (simp add: cur_list_def same)
  have np: "p \<noteq> onstack s" "p \<notin> set sl" using d p by (auto simp: placed_def)
  have st: "kstack s' u = kstack s u" if "thr s u = Some x" for u x using that p by (auto simp: same)
  have so: "sem \<in> dom (sems s)" if "u \<in> dom (thr s)" "u \<notin> set zb" "PLoop sem spl \<in> set (kstack s u)"
    for u sem spl using d that unfolding sems_ok_def by blast
  have 1: "placed s' rd sl zb" using d unfolding placed_def e by (auto simp: same)
  have 2: "threads_ok s' zb" using d by (simp add: threads_ok_def same)
  have 3: "stacks_ok s' zb" using d np p unfolding stacks_ok_def same by auto
  have 4: "asleep_ok s' sl" using d np unfolding asleep_ok_def same by auto
  have 5: "sems_ok s' zb"
    unfolding sems_ok_def
  proof (intro conjI allI impI)
    fix q m
    assume "sems s' q = Some m"
    then show "0 \<le> sem_count m" "q \<noteq> 0" "q \<noteq> lbolt s'" using d by (auto simp: sems_ok_def same)
  next
    fix u y sem spl
    assume h: "thr s' u = Some y" "u \<notin> set zb" "PLoop sem spl \<in> set (kstack s' u)"
    then have "thr s u = Some y" by (simp add: same)
    then show "sem \<in> dom (sems s')" using so [of u sem spl] h st by (auto simp: same)
  qed
  show ?thesis using l 1 2 3 4 5 by (simp add: kin_def)
qed

definition fork_done :: "nat \<Rightarrow> nat \<Rightarrow> nat list \<Rightarrow> nat list \<Rightarrow> nat list \<Rightarrow> nat \<Rightarrow> 'b tsys_scheme \<Rightarrow> bool" where
  "fork_done p t rd sl zb r s' \<longleftrightarrow> r = p \<and> kin s' (rd @ [p]) sl zb \<and> curthread s' = Some t
     \<and> (\<exists>q a z. runqueue s' = Some q \<and> sleepers s' = Some a \<and> zombies s' = Some z
          \<and> numthreads s' \<le> int (q_size q) \<and> numthreads s' \<le> a_max a \<and> numthreads s' \<le> a_max z)"

definition fork_failed :: "nat \<Rightarrow> nat list \<Rightarrow> nat list \<Rightarrow> nat list \<Rightarrow> 'b tsys_scheme \<Rightarrow> errno \<Rightarrow> 'b tsys_scheme \<Rightarrow> bool" where
  "fork_failed t rd sl zb s e s' \<longleftrightarrow> e = ENOMEM \<and> kin s' rd sl zb \<and> curthread s' = Some t
     \<and> numthreads s' = numthreads s \<and> thr s' = thr s"

lemma fork_finish_wp:
  fixes s :: "'b tsys_scheme"
  assumes k: "kin s rd sl zb" and t: "curthread s = Some t" and p: "p \<notin> dom (thr s)"
    and few: "numthreads s < 1048576"
    and s1: "s1 = s\<lparr>thr := (thr s)(p \<mapsto> y), calls := cc, kstack := (kstack s)(p := [ThreadStart d1 d2 func]),
        curspl := SPL_HIGH\<rparr>"
    and y: "t_magic y = stack_magic" "pcb_ininterrupt (t_pcb y) = 0"
  shows "wp (fork_finish fm p (curspl s)) (fork_done p t rd sl zb) (fork_failed t rd sl zb s) s1"
proof -
  note len = kin_len [OF k]
  have nn: "0 \<le> numthreads s" "length rd \<le> 1048576" using k by (simp_all add: kin_def placed_def)
  have clr: "(thr s)(p := None) = thr s" using p by (auto simp: fun_eq_iff dom_def)
  have l1: "lists_ok s1 rd sl zb" using len(1) by (simp add: s1 lists_ok_def)
  have "wp (fork_enter fm p)
    (\<lambda>_ s2. fork_done p t rd sl zb p (s2\<lparr>numthreads := numthreads s2 + 1, curspl := curspl s\<rparr>))
    (\<lambda>e s2. wp (kbind (splx (curspl s)) (\<lambda>_. kbind (fork_fail p (fm_stack fm)) (\<lambda>_. kfail e)))
       (fork_done p t rd sl zb) (fork_failed t rd sl zb s) s2) s1"
  proof (rule wp_mono [OF fork_enter_wp [OF l1]])
    fix u s2
    assume "\<exists>q a z. s2 = s1\<lparr>sleepers := Some a, zombies := Some z, runqueue := Some q\<rparr>
       \<and> lists_ok s2 (rd @ [p]) sl zb \<and> numthreads s1 + 1 \<le> int (q_size q) \<and> numthreads s1 + 1 \<le> a_max a
       \<and> numthreads s1 + 1 \<le> a_max z"
    then obtain q a z where h: "s2 = s1\<lparr>sleepers := Some a, zombies := Some z, runqueue := Some q\<rparr>"
      "lists_ok s2 (rd @ [p]) sl zb" "numthreads s1 + 1 \<le> int (q_size q)" "numthreads s1 + 1 \<le> a_max a"
      "numthreads s1 + 1 \<le> a_max z" by blast
    have "kin (s2\<lparr>numthreads := numthreads s2 + 1, curspl := curspl s\<rparr>) (rd @ [p]) sl zb"
      by (rule kin_fork [OF k p few, where x = y]) (use h y in \<open>simp_all add: s1 lists_ok_def\<close>)
    then show "fork_done p t rd sl zb p (s2\<lparr>numthreads := numthreads s2 + 1, curspl := curspl s\<rparr>)"
      using h t by (auto simp: s1 fork_done_def)
  next
    fix e s2
    assume "e = ENOMEM \<and> (\<exists>q a z. s2 = s1\<lparr>sleepers := Some a, zombies := Some z, runqueue := Some q\<rparr>
       \<and> lists_ok s2 rd sl zb)"
    then obtain q a z where h: "e = ENOMEM" "s2 = s1\<lparr>sleepers := Some a, zombies := Some z, runqueue := Some q\<rparr>"
      "lists_ok s2 rd sl zb" by blast
    have fin: "fork_failed t rd sl zb s ENOMEM s3" if "lists_ok s3 rd sl zb" "curthread s3 = curthread s"
      "numthreads s3 = numthreads s" "sems s3 = sems s" "lbolt s3 = lbolt s" "onstack s3 = onstack s"
      "curspl s3 = curspl s" "in_interrupt s3 = in_interrupt s"
      "kstack s3 = (kstack s)(p := [ThreadStart d1 d2 func])" "thr s3 = thr s" for s3
      using kin_unforked [OF k p that] that t by (simp add: fork_failed_def)
    have l: "lists_ok s3 rd sl zb" if "runqueue s3 = runqueue s2" "sleepers s3 = sleepers s2" "zombies s3 = zombies s2"
      for s3 :: "'b tsys_scheme" using h(3) that by (simp add: lists_ok_def)
    show "wp (kbind (splx (curspl s)) (\<lambda>_. kbind (fork_fail p (fm_stack fm)) (\<lambda>_. kfail e)))
       (fork_done p t rd sl zb) (fork_failed t rd sl zb s) s2"
      using h(1) by (auto simp: fork_fail_def twps h(2) s1 clr intro!: fin l)
  qed (use nn few in \<open>auto simp: s1 SPL_HIGH_def\<close>)
  then show ?thesis by (simp add: fork_finish_def twps)
qed

lemma thread_fork_wp:
  assumes k: "kin s rd sl zb" and t: "curthread s = Some t" and p: "fm_thread fm \<notin> dom (thr s)"
    and few: "numthreads s < 1048576"
  shows "wp (thread_fork fm name d1 d2 func)
    (fork_done (fm_thread fm) t rd sl zb) (fork_failed t rd sl zb s) s"
proof -
  note c = kin_cur [OF k t]
  let ?p = "fm_thread fm"
  obtain x where x: "thr s t = Some x" using c(2) by auto
  have pt: "?p \<noteq> t" using p c by auto
  have clr: "(thr s)(?p := None) = thr s" using p by (auto simp: fun_eq_iff dom_def)
  have fl: "fork_failed t rd sl zb s ENOMEM (s\<lparr>calls := cc\<rparr>)" for cc
    using k t by (simp add: fork_failed_def kin_calls)
  have fl0: "fork_failed t rd sl zb s ENOMEM s" using k t by (simp add: fork_failed_def)
  have fl1: "fork_failed t rd sl zb s ENOMEM (s\<lparr>thr := th, calls := cc, thr := thr s\<rparr>)" for th cc
  proof -
    have "s\<lparr>thr := th, calls := cc, thr := thr s\<rparr> = s\<lparr>calls := cc\<rparr>" by (rule tsys.equality) simp_all
    then show ?thesis using fl by simp
  qed
  show ?thesis
  proof (cases "?p = 0 \<or> \<not> fm_name fm \<or> fm_stack fm = 0")
    case True
    then show ?thesis using fl fl0 fl1
      by (auto simp: thread_fork_def thread_create_def twps clr)
  next
    case False
    let ?y = "\<lparr>t_pcb = \<lparr>pcb_kstack = u32 (fm_stack fm + STACK_SIZE), pcb_ininterrupt = 0, pcb_badfaultfunc = 0\<rparr>,
      t_name = name, t_sleepaddr = 0, t_stack = fm_stack fm, t_magic = stack_magic, t_vmspace = 0, t_cwd = t_cwd x\<rparr>"
    let ?s = "\<lambda>cc. s\<lparr>thr := (thr s)(?p \<mapsto> ?y), calls := cc, kstack := (kstack s)(?p := [ThreadStart d1 d2 func]),
        curspl := SPL_HIGH\<rparr>"
    have fin: "wp (fork_finish fm ?p (curspl s)) (fork_done ?p t rd sl zb) (fork_failed t rd sl zb s) (?s cc)" for cc
      by (rule fork_finish_wp [OF k t p few refl]) simp_all
    have e: "s\<lparr>calls := cc, thr := th', kstack := ks, curspl := n\<rparr>
      = s\<lparr>thr := th', calls := cc, kstack := ks, curspl := n\<rparr>" for th' cc ks n
      by (rule tsys.equality) simp_all
    show ?thesis
    proof (cases "t_cwd x = 0")
      case True
      then show ?thesis using False x t pt fin [of "calls s"]
        by (simp add: thread_fork_def thread_create_def md_initpcb_def twps map_upd_triv)
    next
      case False
      then show ?thesis using \<open>\<not> (?p = 0 \<or> \<not> fm_name fm \<or> fm_stack fm = 0)\<close> x t pt fin
        by (simp add: thread_fork_def thread_create_def md_initpcb_def twps map_upd_triv e)
    qed
  qed
qed

section \<open>Semaphores come and go\<close>

lemma kin_sem_new:
  assumes k: "kin s rd sl zb" and p: "p \<notin> dom (sems s)" "p \<noteq> 0" "p \<noteq> lbolt s" and c: "0 \<le> sem_count m"
  shows "kin (s\<lparr>sems := (sems s)(p \<mapsto> m)\<rparr>) rd sl zb"
proof -
  note d = k [unfolded kin_def]
  have w: "waits_for ((sems s)(p \<mapsto> m)) (lbolt s) w a" if "waits_for (sems s) (lbolt s) w a" for w a
    using that p(1) by (auto simp: waits_for_def split: frame.splits)
  have 1: "asleep_ok (s\<lparr>sems := (sems s)(p \<mapsto> m)\<rparr>) sl"
    using d w by (simp add: asleep_ok_def) blast
  have so: "sem \<in> dom (sems s)" if "u \<in> dom (thr s)" "u \<notin> set zb" "PLoop sem spl \<in> set (kstack s u)"
    for u sem spl using d that unfolding sems_ok_def by blast
  have 2: "sems_ok (s\<lparr>sems := (sems s)(p \<mapsto> m)\<rparr>) zb"
    unfolding sems_ok_def
  proof (intro conjI allI impI)
    fix q n
    assume "sems (s\<lparr>sems := (sems s)(p \<mapsto> m)\<rparr>) q = Some n"
    then show "0 \<le> sem_count n" "q \<noteq> 0" "q \<noteq> lbolt (s\<lparr>sems := (sems s)(p \<mapsto> m)\<rparr>)"
      using d p c by (auto simp: sems_ok_def split: if_splits)
  next
    fix t x sem spl
    assume "thr (s\<lparr>sems := (sems s)(p \<mapsto> m)\<rparr>) t = Some x" "t \<notin> set zb"
      "PLoop sem spl \<in> set (kstack (s\<lparr>sems := (sems s)(p \<mapsto> m)\<rparr>) t)"
    then have "sem \<in> dom (sems s)" using so [of t sem spl] by auto
    then show "sem \<in> dom (sems (s\<lparr>sems := (sems s)(p \<mapsto> m)\<rparr>))" by auto
  qed
  show ?thesis using d 1 2
    by (simp add: kin_def lists_ok_def placed_def threads_ok_def stacks_ok_def cur_list_def)
qed

text \<open>No thread sleeps on the semaphore or is in the middle of a \<open>P\<close> on it.\<close>

definition unused_sem :: "'b tsys_scheme \<Rightarrow> nat \<Rightarrow> bool" where
  "unused_sem s sem \<longleftrightarrow> (\<forall>t \<in> dom (thr s). \<forall>spl. PLoop sem spl \<notin> set (kstack s t))"

lemma asleep_frames:
  assumes k: "kin s rd sl zb" and t: "t \<in> set sl" and x: "thr s t = Some x" and a: "t_sleepaddr x \<noteq> lbolt s"
  shows "\<exists>spl. PLoop (t_sleepaddr x) spl \<in> set (kstack s t)"
proof -
  obtain w r where w: "under (kstack s t) = SwitchTail # ClearSleep # w # r"
    "waits_for (sems s) (lbolt s) w (t_sleepaddr x)"
    using k t x unfolding kin_def asleep_ok_def by blast
  have "w \<in> set (under (kstack s t))" using w(1) by simp
  then have "w \<in> set (kstack s t)" unfolding under_def by (rule set_dropWhileD)
  moreover obtain spl where "w = PLoop (t_sleepaddr x) spl"
    using w(2) a by (cases w) (auto simp: waits_for_def)
  ultimately show ?thesis by blast
qed

lemma hassleepers_loop_wp:
  assumes "sleepers s = Some a" and "array_wf a" and "array_list a = ys @ sl" and "set sl \<subseteq> dom (thr s)"
    and "\<And>t. t \<in> set sl \<Longrightarrow> \<not> sleeps_at s addr t" and "n = length sl" and "i = int (length ys)"
  shows "wp (hassleepers_loop n addr i) (\<lambda>r s'. \<not> r \<and> s' = s) (\<lambda>_ _. False) s"
  using assms
proof (induction n arbitrary: ys sl i)
  case 0
  then show ?case by (simp add: wps)
next
  case (Suc n)
  obtain t sl' where sl: "sl = t # sl'" using Suc.prems by (cases sl) auto
  have "t \<in> dom (thr s)" using Suc.prems(4) sl by simp
  then obtain x where x: "thr s t = Some x" by auto
  have na: "t_sleepaddr x \<noteq> addr" using Suc.prems(5) [of t] x sl by (auto simp: sleeps_at_def)
  have num: "a_num a = int (length ys + Suc (length sl'))"
    using array_length [OF Suc.prems(2)] Suc.prems(3) sl by simp
  have g: "wp (array_getguy (int (length ys))) Q R a = Q (Some t) a" for Q R
    using array_getguy_eq [OF Suc.prems(2), of "int (length ys)"] num Suc.prems(3) sl
    by (simp add: nth_append wp_def)
  have "wp (hassleepers_loop n addr (i + 1)) (\<lambda>r s'. \<not> r \<and> s' = s) (\<lambda>_ _. False) s"
    by (rule Suc.IH [of "ys @ [t]" sl']) (use Suc.prems sl in auto)
  then show ?case using Suc.prems(1,7) x na by (simp add: twps g)
qed

lemma sem_destroy_wp:
  assumes k: "kin s rd sl zb" and m: "sem \<in> dom (sems s)" and un: "unused_sem s sem"
  shows "wp (sem_destroy sem) (\<lambda>_ s'. kin s' rd sl zb) (\<lambda>_ _. False) s"
proof -
  note d = k [unfolded kin_def]
  obtain x where x: "sems s sem = Some x" using m by auto
  have s0: "sem \<noteq> 0" "sem \<noteq> lbolt s" using d x by (auto simp: sems_ok_def)
  obtain a where a: "sleepers s = Some a" "array_wf a" "array_list a = sl"
    using d by (auto simp: lists_ok_def)
  have free: "\<not> sleeps_at s sem t" if t: "t \<in> set sl" for t
  proof
    assume "sleeps_at s sem t"
    then obtain y where y: "thr s t = Some y" "t_sleepaddr y = sem" by (auto simp: sleeps_at_def)
    then have "\<exists>spl. PLoop sem spl \<in> set (kstack s t)" using asleep_frames [OF k t y(1)] s0 by auto
    then show False using un y by (auto simp: unused_sem_def)
  qed
  have "wp (hassleepers_loop (length sl) sem 0) (\<lambda>r s'. \<not> r \<and> s' = s\<lparr>curspl := SPL_HIGH\<rparr>) (\<lambda>_ _. False)
    (s\<lparr>curspl := SPL_HIGH\<rparr>)"
    by (rule hassleepers_loop_wp [where ys = "[]" and sl = sl and a = a])
      (use a free kin_len(3) [OF k] in \<open>auto simp: sleeps_at_def\<close>)
  moreover have "a_num a = int (length sl)" using array_length [OF a(2)] a(3) by simp
  ultimately have h: "wp (thread_hassleepers sem) (\<lambda>r s'. \<not> r \<and> s' = s\<lparr>curspl := SPL_HIGH\<rparr>) (\<lambda>_ _. False)
    (s\<lparr>curspl := SPL_HIGH\<rparr>)"
    using a(1) by (simp add: thread_hassleepers_def twps array_getnum_def SPL_HIGH_def)
  let ?s = "s\<lparr>sems := (sems s)(sem := None)\<rparr>"
  have 1: "asleep_ok ?s sl"
    unfolding asleep_ok_def
  proof
    fix t
    assume t: "t \<in> set sl"
    then obtain w r where w: "under (kstack s t) = SwitchTail # ClearSleep # w # r"
      "\<forall>x. thr s t = Some x \<longrightarrow> waits_for (sems s) (lbolt s) w (t_sleepaddr x)"
      using d unfolding asleep_ok_def by blast
    have "waits_for (sems ?s) (lbolt ?s) w (t_sleepaddr y)" if y: "thr s t = Some y" for y
      using w(2) y free [OF t] by (cases w) (auto simp: waits_for_def sleeps_at_def)
    then show "\<exists>w r. under (kstack ?s t) = SwitchTail # ClearSleep # w # r
      \<and> (\<forall>x. thr ?s t = Some x \<longrightarrow> waits_for (sems ?s) (lbolt ?s) w (t_sleepaddr x))"
      using w(1) by (intro exI [of _ w] exI [of _ r]) simp
  qed
  have so: "p \<in> dom (sems s)" if "u \<in> dom (thr s)" "u \<notin> set zb" "PLoop p spl \<in> set (kstack s u)"
    for u p spl using d that unfolding sems_ok_def by blast
  have 2: "sems_ok ?s zb"
    unfolding sems_ok_def
  proof (intro conjI allI impI)
    fix q n
    assume "sems ?s q = Some n"
    then show "0 \<le> sem_count n" "q \<noteq> 0" "q \<noteq> lbolt ?s"
      using d by (auto simp: sems_ok_def split: if_splits)
  next
    fix t y p spl
    assume h: "thr ?s t = Some y" "t \<notin> set zb" "PLoop p spl \<in> set (kstack ?s t)"
    then have "p \<in> dom (sems s)" using so [of t p spl] by auto
    moreover have "p \<noteq> sem" using h un by (auto simp: unused_sem_def)
    ultimately show "p \<in> dom (sems ?s)" by auto
  qed
  have "kin ?s rd sl zb" using d 1 2
    by (simp add: kin_def lists_ok_def placed_def threads_ok_def stacks_ok_def cur_list_def)
  moreover have "s\<lparr>curspl := SPL_HIGH, curspl := curspl s, sems := f\<rparr> = s\<lparr>sems := f\<rparr>" for f
    by (rule tsys.equality) simp_all
  ultimately have "wp (thread_hassleepers sem) (\<lambda>h. wp (kbind (kassert (\<not> h)) (\<lambda>_. kbind (splx (curspl s)) (\<lambda>_.
     kbind (on_sem sem (kget id)) (\<lambda>_. kmodify (\<lambda>s. s\<lparr>sems := (sems s)(sem := None)\<rparr>)))))
       (\<lambda>_ s'. kin s' rd sl zb) (\<lambda>_ _. False)) (\<lambda>_ _. False) (s\<lparr>curspl := SPL_HIGH\<rparr>)"
    by (intro wp_mono [OF h]) (use x in \<open>auto simp: twps map_upd_triv\<close>)
  then show ?thesis using s0 by (simp add: sem_destroy_def twps)
qed

section \<open>Interrupts\<close>

lemma hardclock_wp:
  assumes k: "kin s rd sl zb" and spl: "curspl s > 0"
  shows "wp (hardclock True) (\<lambda>_ s'. kgrow rd s' \<and> curthread s' = None) (\<lambda>_ _. False) s"
proof -
  have y: "wp (thread_yield True) (\<lambda>_ s'. kgrow rd s' \<and> curthread s' = None) (\<lambda>_ _. False) s1"
    if "kin s1 (rd @ a) sl' zb" for s1 :: "'a tsys_scheme" and a sl'
    by (rule wp_mono [OF thread_yield_wp [OF that]]) (auto simp: kgrow_def)
  have k1: "kin (s\<lparr>lbolt_counter := n\<rparr>) rd sl zb" for n using k by (simp add: kin_lbolt_counter)
  let ?s = "s\<lparr>lbolt_counter := 0\<rparr>"
  have "wp (thread_wakeup True (lbolt s)) (\<lambda>_. wp (thread_yield True)
      (\<lambda>_ s'. kgrow rd s' \<and> curthread s' = None) (\<lambda>_ _. False)) (\<lambda>_ _. False) ?s"
    by (rule wp_mono [OF thread_wakeup_wp [OF k1]]) (use spl y in auto)
  then show ?thesis using y [of _ "[]" sl] k1
    by (simp add: hardclock_def twps)
qed

definition sem_ready :: "'b tsys_scheme \<Rightarrow> nat \<Rightarrow> bool" where
  "sem_ready s sem \<longleftrightarrow> (case sems s sem of None \<Rightarrow> False | Some m \<Rightarrow> sem_count m < 2147483647)"

fun irq_legal :: "irq \<Rightarrow> 'b tsys_scheme \<Rightarrow> bool" where
  "irq_legal Clock s \<longleftrightarrow> True"
| "irq_legal (Device sem) s \<longleftrightarrow> sem_ready s sem"

lemma V_step_wp:
  assumes k: "kin s rd sl zb" and m: "sem_ready s sem"
  shows "wp (V True sem) (\<lambda>_ s'. kgrow rd s' \<and> curthread s' = curthread s) (\<lambda>_ _. False) s"
proof -
  obtain x where x: "sems s sem = Some x" "sem_count x < 2147483647"
    using m by (auto simp: sem_ready_def split: option.splits)
  show ?thesis by (rule wp_mono [OF V_wp [OF k x]]) (auto simp: kgrow_def)
qed

lemma mips_trap_irq_wp:
  assumes k: "kin s rd sl zb" and h: "irq_legal h s" and kst: "kstk s" and tf: "tf_legal tf s"
  shows "wp (mips_trap_irq True h tf) (\<lambda>_ s'. kstep_ok rd s s') (\<lambda>_ _. False) s"
proof -
  let ?ks = "IrqDone (in_interrupt s) (curspl s) tf # kstack s (onstack s)"
  let ?s = "s\<lparr>curspl := SPL_HIGH, in_interrupt := 1, kstack := (kstack s)(onstack s := ?ks)\<rparr>"
  have st: "stack_ok (onstack s) (kstack s (onstack s))" "idle (kstack s (onstack s)) \<longleftrightarrow> curthread s = None"
    "hi (kstack s (onstack s)) \<longrightarrow> curspl s > 0" "in_interrupt s = irq_flag (kstack s (onstack s))"
    using k by (auto simp: kin_def stacks_ok_def)
  have k1: "kin ?s rd sl zb" by (rule kin_cpu [OF k, where ks = ?ks]) (use st in auto)
  have "kat (onstack s) (s\<lparr>curspl := SPL_HIGH\<rparr>)"
    by (rule kat_same [of _ s]) (use kst in \<open>simp_all add: kat_def\<close>)
  then have chk: "stack_check tf (s\<lparr>curspl := SPL_HIGH\<rparr>) = Done () (s\<lparr>curspl := SPL_HIGH\<rparr>)"
  proof (intro stack_check_Done)
    show "tf_legal tf (s\<lparr>curspl := SPL_HIGH\<rparr>)"
      using tf by (simp add: tf_legal_def in_body_def stack_end_cong [of "s\<lparr>curspl := SPL_HIGH\<rparr>" s])
  qed (use kin_cur [OF k] in \<open>auto simp: kat_def\<close>)
  have wpc: "wp (stack_check tf) Q R (s\<lparr>curspl := SPL_HIGH\<rparr>) = Q () (s\<lparr>curspl := SPL_HIGH\<rparr>)" for Q R
    by (simp add: wp_def chk)
  show ?thesis
  proof (cases h)
    case Clock
    have "wp (hardclock True) (\<lambda>_ s'. kstep_ok rd s s') (\<lambda>_ _. False) ?s"
      by (rule wp_mono [OF hardclock_wp [OF k1]]) (auto simp: SPL_HIGH_def kstep_ok_def)
    then show ?thesis using Clock by (simp add: mips_trap_irq_def mips_interrupt_def twps wpc [unfolded SPL_HIGH_def] SPL_HIGH_def)
  next
    case (Device sem)
    have "wp (V True sem) (\<lambda>_ s'. kstep_ok rd s s') (\<lambda>_ _. False) ?s"
      by (rule wp_mono [OF V_step_wp [OF k1]]) (use h Device in \<open>auto simp: sem_ready_def kstep_ok_def\<close>)
    then show ?thesis using Device by (simp add: mips_trap_irq_def mips_interrupt_def twps wpc [unfolded SPL_HIGH_def] SPL_HIGH_def)
  qed
qed

section \<open>Calls\<close>

text \<open>
  What a caller owes: semaphores exist and do not overflow, \<open>kmalloc\<close> returns addresses that are not
  in use, a whole page for a stack (\<open>fork_mem_ok\<close>) and memory for at most \<open>2\<^sup>2\<^sup>0\<close> threads (a stack of
  4096 bytes each in 4 GB), and a semaphore is destroyed only when nobody waits for it.
\<close>

fun call_legal :: "kcall \<Rightarrow> 'b tsys_scheme \<Rightarrow> bool" where
  "call_legal (Spl n) s \<longleftrightarrow> True"
| "call_legal Yield s \<longleftrightarrow> True"
| "call_legal Exit s \<longleftrightarrow> True"
| "call_legal (CallP sem) s \<longleftrightarrow> sem \<in> dom (sems s)"
| "call_legal (CallV sem) s \<longleftrightarrow> sem_ready s sem"
| "call_legal (ClockSleep n) s \<longleftrightarrow> True"
| "call_legal (Fork fm name d1 d2 func) s \<longleftrightarrow> fork_mem_ok fm s \<and> numthreads s < 1048576"
| "call_legal (SemCreate p okn name n) s \<longleftrightarrow> 0 \<le> n \<and> p \<notin> dom (sems s) \<and> p \<noteq> lbolt s"
| "call_legal (SemDestroy sem) s \<longleftrightarrow> sem \<in> dom (sems s) \<and> unused_sem s sem"

lemma run_call_wp:
  assumes k: "kin s rd sl zb" and b: "in_body s" and c: "call_legal c s"
  shows "wp (run_call True c) (\<lambda>_ s'. kstep_ok rd s s') (\<lambda>_ _. False) s"
proof -
  obtain r where ks: "kstack s (onstack s) = Body # r"
    using b by (auto simp: in_body_def split: list.splits frame.splits)
  note top = kin_top [OF k ks]
  have r: "r = []" using top by simp
  then obtain t where t: "curthread s = Some t" using top by auto
  note cc = kin_cur [OF k t]
  have i: "in_interrupt s = 0" using top r by simp
  have grow: "wp m (\<lambda>_ s'. kstep_ok rd s s') R s1"
    if "wp m (\<lambda>_ s'. kgrow rd s') R s1" for m :: "('a tsys_scheme, unit) op" and R s1
    by (rule wp_mono [OF that]) (use t in \<open>auto simp: kstep_ok_def\<close>)
  have hik: "kin (s\<lparr>curspl := SPL_HIGH\<rparr>) rd sl zb" by (rule kin_curspl [OF k]) (simp add: SPL_HIGH_def)
  show ?thesis
  proof (cases c)
    case (Spl n)
    then show ?thesis using kin_curspl [OF k, of n] ks t
      by (simp add: run_call_def twps kstep_ok_def kgrow0)
  next
    case Yield
    have "wp (thread_yield True) (\<lambda>_. kgrow rd) (\<lambda>_ _. False) s"
      by (rule wp_mono [OF thread_yield_wp [OF k]]) (auto simp: kgrow_def)
    then show ?thesis using Yield grow by (simp add: run_call_def)
  next
    case Exit
    have "wp (thread_exit True) (\<lambda>_. kgrow rd) (\<lambda>_ _. False) s"
      by (rule wp_mono [OF thread_exit_wp [OF k t]]) (auto intro: kgrow0)
    then show ?thesis using Exit grow by (simp add: run_call_def)
  next
    case (CallP sem)
    then obtain m where m: "sems s sem = Some m" using c by auto
    have "wp (P_loop True sem (curspl s)) (\<lambda>_. kgrow rd) (\<lambda>_ _. False) (s\<lparr>curspl := SPL_HIGH\<rparr>)"
      by (rule wp_mono [OF P_loop_wp [OF hik, where t = t]])
        (use t i m ks cc in \<open>auto simp: SPL_HIGH_def intro: blocked_or_done_kgrow\<close>)
    moreover have "sem \<noteq> 0" using k m by (auto simp: kin_def sems_ok_def)
    ultimately have "wp (P True sem) (\<lambda>_. kgrow rd) (\<lambda>_ _. False) s" using i by (simp add: P_def twps)
    then show ?thesis using CallP grow by (simp add: run_call_def)
  next
    case (CallV sem)
    have "wp (V True sem) (\<lambda>_. kgrow rd) (\<lambda>_ _. False) s"
      by (rule wp_mono [OF V_step_wp [OF k]]) (use c CallV in auto)
    then show ?thesis using CallV grow by (simp add: run_call_def)
  next
    case (ClockSleep n)
    have "wp (clocksleep_loop True n (curspl s)) (\<lambda>_. kgrow rd) (\<lambda>_ _. False) (s\<lparr>curspl := SPL_HIGH\<rparr>)"
      by (rule wp_mono [OF clocksleep_loop_wp [OF hik, where t = t]])
        (use t i ks cc in \<open>auto simp: SPL_HIGH_def intro: blocked_or_done_kgrow\<close>)
    then have "wp (clocksleep True n) (\<lambda>_. kgrow rd) (\<lambda>_ _. False) s" by (simp add: clocksleep_def twps)
    then show ?thesis using ClockSleep grow by (simp add: run_call_def)
  next
    case (Fork fm name d1 d2 func)
    have "wp (kbind (kattempt (thread_fork fm name d1 d2 func)) (\<lambda>_. kret ())) (\<lambda>_. kgrow rd) (\<lambda>_ _. False) s"
      unfolding wp_kbind wp_kattempt wp_kret
      by (rule wp_mono [OF thread_fork_wp [OF k t]])
        (use c Fork in \<open>auto simp: fork_mem_ok_def fork_done_def fork_failed_def intro: kgrow0 kgrowI\<close>)
    then show ?thesis using Fork grow by (simp add: run_call_def)
  next
    case (SemCreate p okn name n)
    have "kin (s\<lparr>sems := (sems s)(p \<mapsto> \<lparr>sem_name = name, sem_count = n\<rparr>)\<rparr>) rd sl zb" if "p \<noteq> 0"
      by (rule kin_sem_new [OF k]) (use that c SemCreate in auto)
    then have "wp (kbind (sem_create p okn name n) (\<lambda>_. kret ())) (\<lambda>_. kgrow rd) (\<lambda>_ _. False) s"
      using c SemCreate k by (auto simp: sem_create_def twps intro: kgrow0)
    then show ?thesis using SemCreate grow by (simp add: run_call_def)
  next
    case (SemDestroy sem)
    have "wp (sem_destroy sem) (\<lambda>_. kgrow rd) (\<lambda>_ _. False) s"
      by (rule wp_mono [OF sem_destroy_wp [OF k]]) (use c SemDestroy in \<open>auto intro: kgrow0\<close>)
    then show ?thesis using SemDestroy grow by (simp add: run_call_def)
  qed
qed

end
