(* ===== verification/ThreadStep.thy ===== *)
theory ThreadStep
  imports ThreadCalls
begin

text \<open>
  The thread system as a state machine: the frames of the kernel stack in use, calls of the running
  thread and interrupts, in any order; what holds in every state the machine can reach after boot.
\<close>

section \<open>Steps\<close>

datatype tevent = FrameStep | CallStep kcall | IrqStep irq nat

text \<open>
  A step that grows a list has the memory for it (the argument \<open>True\<close>); without memory such a step is
  the panic of an assertion, which no step follows. An interrupt comes with the address of its trap
  frame, anywhere on the stack in use (\<open>tf_legal\<close>).
\<close>

fun exec_event :: "tevent \<Rightarrow> ('b tsys_scheme, unit) op" where
  "exec_event FrameStep = run_frame True"
| "exec_event (CallStep c) = run_call True c"
| "exec_event (IrqStep h tf) = mips_trap_irq True h tf"

fun enabled :: "tevent \<Rightarrow> 'b tsys_scheme \<Rightarrow> bool" where
  "enabled FrameStep s \<longleftrightarrow> True"
| "enabled (CallStep c) s \<longleftrightarrow> in_body s \<and> call_legal c s"
| "enabled (IrqStep h tf) s \<longleftrightarrow> irq_enabled s \<and> irq_legal h s \<and> tf_legal tf s"

inductive tstep :: "'b tsys_scheme \<Rightarrow> tevent \<Rightarrow> 'b tsys_scheme \<Rightarrow> bool" where
  frame: "run_frame True s = Done () s' \<Longrightarrow> tstep s FrameStep s'"
| call: "in_body s \<Longrightarrow> call_legal c s \<Longrightarrow> run_call True c s = Done () s' \<Longrightarrow> tstep s (CallStep c) s'"
| irq: "irq_enabled s \<Longrightarrow> irq_legal h s \<Longrightarrow> tf_legal tf s \<Longrightarrow> mips_trap_irq True h tf s = Done () s'
    \<Longrightarrow> tstep s (IrqStep h tf) s'"

inductive_simps tstep_simps: "tstep s FrameStep s'" "tstep s (CallStep c) s'" "tstep s (IrqStep h tf) s'"
inductive_cases tstep_cases: "tstep s e s'"

lemma tstep_iff: "tstep s e s' \<longleftrightarrow> enabled e s \<and> exec_event e s = Done () s'"
  by (cases e) (auto simp: tstep_simps)

text \<open>
  Power-on: no threads, no semaphores, interrupts off, not in a handler, and \<open>start.S\<close> has set
  \<open>curkstack\<close> to the end of the page it gives to the boot thread's stack.
\<close>

definition power_on :: "'b tsys_scheme \<Rightarrow> bool" where
  "power_on s \<longleftrightarrow> thr s = Map.empty \<and> sems s = Map.empty \<and> curspl s = SPL_HIGH \<and> in_interrupt s = 0
     \<and> boot_page (curkstack s) \<and> bootstack s = curkstack s"

definition kernel_boot :: "bool \<Rightarrow> bool \<Rightarrow> bool \<Rightarrow> bool \<Rightarrow> nat \<Rightarrow> bool \<Rightarrow> ('b tsys_scheme, nat) op" where
  "kernel_boot okq okd oks okz p okn =
     kbind (scheduler_bootstrap okq okd) (\<lambda>_. thread_bootstrap oks okz p okn)"

inductive reachable :: "'b tsys_scheme \<Rightarrow> bool" where
  boot: "power_on s0 \<Longrightarrow> kernel_boot okq okd oks okz p okn s0 = Done t s \<Longrightarrow> reachable s"
| step: "reachable s \<Longrightarrow> tstep s e s' \<Longrightarrow> reachable s'"

section \<open>The invariant\<close>

lemma boot_kin:
  assumes on: "power_on s0" and b: "kernel_boot okq okd oks okz p okn s0 = Done t s"
  shows "kin s [] [] []"
proof -
  have "wp (kernel_boot okq okd oks okz p okn) (\<lambda>_ s. kin s [] [] []) (\<lambda>_ _. False) s0
     \<or> kernel_boot okq okd oks okz p okn s0 = Panic"
  proof (cases "okq \<and> okd \<and> oks \<and> okz \<and> p \<noteq> 0 \<and> okn")
    case True
    obtain q :: "nat kqueue" where q: "q_create True True 32 = Some q" by (simp add: q_create_def)
    obtain a :: "nat karray" where a: "array_create True = Some a" by (simp add: array_create_def)
    have qa: "q_wf q \<and> q_list q = []" "array_wf a \<and> array_list a = []"
      using q_create_list [OF q] array_create_list [OF a] by simp_all
    show ?thesis
      using True on qa
      by (intro disjI1) (simp add: kernel_boot_def scheduler_bootstrap_def thread_bootstrap_def thread_create_def
        md_initpcb0_def twps q a power_on_def kin_defs SPL_HIGH_def)
  next
    case False
    have q: "q_create False okd 32 = (None :: nat kqueue option)" "q_create okq False 32 = (None :: nat kqueue option)" for okq okd
      by (simp_all add: q_create_def)
    have a: "array_create False = (None :: nat karray option)" by (simp add: array_create_def)
    show ?thesis using False
      by (intro disjI2) (cases okq; cases okd; cases oks; cases okz; cases okn; cases "p = 0"; simp add: q a
        kernel_boot_def scheduler_bootstrap_def thread_bootstrap_def thread_create_def kbind_def
        kget_def kmodify_def kassert_def kret_def call_out_def)
  qed
  then show ?thesis using b wp_DoneD by force
qed

lemma kstk_calls: "kstk s \<Longrightarrow> kstk (s\<lparr>calls := c\<rparr>)"
  by (simp add: kstk_def stk_ok_def)

lemma boot_kstk:
  assumes on: "power_on s0" and b: "kernel_boot okq okd oks okz p okn s0 = Done t s"
  shows "kstk s"
proof -
  have "okn \<and> p \<noteq> 0"
    using b by (cases okn; cases "p = 0"; cases "q_create okq okd 32 = (None :: nat kqueue option)";
      cases "array_create oks = (None :: nat karray option)"; cases "array_create okz = (None :: nat karray option)")
      (simp_all add: kernel_boot_def scheduler_bootstrap_def thread_bootstrap_def thread_create_def kbind_def
        kget_def kmodify_def kassert_def kret_def call_out_def)
  then show ?thesis
    using on b by (cases "q_create okq okd 32 = (None :: nat kqueue option)";
      cases "array_create oks = (None :: nat karray option)"; cases "array_create okz = (None :: nat karray option)")
      (auto simp: kernel_boot_def scheduler_bootstrap_def thread_bootstrap_def thread_create_def md_initpcb0_def
        on_thread_def kderef_def kzoom_def kbind_def kget_def kmodify_def kassert_def kret_def power_on_def
        kstk_def stk_ok_def stk_at_def boot_page_def STACK_SIZE_def)
qed

lemma tstep_kstep_ok:
  assumes k: "kin s rd sl zb" and kst: "kstk s" and st: "tstep s e s'"
  shows "kstep_ok rd s s'"
  using st
proof cases
  case frame
  then show ?thesis using run_frame_wp [OF k kst] frame_ran_kstep [OF k] by (auto dest: wp_DoneD)
next
  case (call c)
  then show ?thesis using run_call_wp [OF k] by (auto dest: wp_DoneD)
next
  case (irq h tf)
  then show ?thesis using mips_trap_irq_wp [OF k _ kst] by (auto dest: wp_DoneD)
qed

lemma tstep_kstk:
  assumes k: "kin s rd sl zb" and kst: "kstk s" and st: "tstep s e s'"
  shows "kstk s'"
proof -
  obtain x where x: "thr s (onstack s) = Some x" using k by (auto simp: kin_def placed_def)
  have st_ok: "stack_ok (onstack s) (kstack s (onstack s))" using k by (simp add: kin_def stacks_ok_def)
  show ?thesis
    using st
  proof cases
    case frame
    show ?thesis by (rule run_frame_kstk [OF kst _ frame(2)]) (use st_ok in auto)
  next
    case (call c)
    obtain r where ks: "kstack s (onstack s) = Body # r"
      using call(2) by (auto simp: in_body_def split: list.splits frame.splits)
    then obtain t where t: "curthread s = Some t" using kin_top [OF k ks] by auto
    show ?thesis
      by (rule run_call_kstk [OF kst t _ _ _ call(4)]) (use x call kin_cur [OF k t] in auto)
  next
    case (irq h tf)
    show ?thesis by (rule mips_trap_irq_kstk [OF kst x irq(4) _ irq(5)]) (use kin_cur [OF k] in auto)
  qed
qed

text \<open>The whole invariant.\<close>

definition kgood :: "'b tsys_scheme \<Rightarrow> bool" where
  "kgood s \<longleftrightarrow> kinv s \<and> kstk s"

lemma kstep_ok_kinv: "kstep_ok rd s s' \<Longrightarrow> kinv s'"
  unfolding kstep_ok_def kgrow_def kinv_def by blast

lemma tstep_kgood: "kgood s \<Longrightarrow> tstep s e s' \<Longrightarrow> kgood s'"
  using tstep_kstep_ok kstep_ok_kinv tstep_kstk unfolding kgood_def kinv_def by blast

lemma reachable_kgood: "reachable s \<Longrightarrow> kgood s"
proof (induction rule: reachable.induct)
  case boot
  then show ?case using boot_kin boot_kstk unfolding kgood_def kinv_def by blast
next
  case (step s e s')
  then show ?case using tstep_kgood by blast
qed

lemma reachable_kinv: "reachable s \<Longrightarrow> kinv s"
  using reachable_kgood [of s] by (simp add: kgood_def)

text \<open>The lists as functions of the state.\<close>

definition ready :: "'b tsys_scheme \<Rightarrow> nat list" where
  "ready s = (case runqueue s of None \<Rightarrow> [] | Some q \<Rightarrow> q_list q)"

definition asleep :: "'b tsys_scheme \<Rightarrow> nat list" where
  "asleep s = (case sleepers s of None \<Rightarrow> [] | Some a \<Rightarrow> array_list a)"

definition dead :: "'b tsys_scheme \<Rightarrow> nat list" where
  "dead s = (case zombies s of None \<Rightarrow> [] | Some a \<Rightarrow> array_list a)"

lemma kin_lists: "kin s rd sl zb \<Longrightarrow> ready s = rd \<and> asleep s = sl \<and> dead s = zb"
  by (auto simp: kin_def lists_ok_def ready_def asleep_def dead_def)

lemma kinv_kin: "kinv s \<Longrightarrow> kin s (ready s) (asleep s) (dead s)"
  unfolding kinv_def using kin_lists by metis

lemma kgood_kin: "kgood s \<Longrightarrow> kin s (ready s) (asleep s) (dead s)" "kgood s \<Longrightarrow> kstk s"
  by (simp_all add: kgood_def kinv_kin)

lemma reachable_kin: "reachable s \<Longrightarrow> kin s (ready s) (asleep s) (dead s)"
  by (rule kinv_kin [OF reachable_kinv])

section \<open>Round robin\<close>

text \<open>A run: the states it goes through, one after the other.\<close>

inductive run :: "'b tsys_scheme \<Rightarrow> 'b tsys_scheme list \<Rightarrow> bool" where
  stop: "run s []"
| go: "tstep s e s' \<Longrightarrow> run s' ss \<Longrightarrow> run s (s' # ss)"

inductive_cases run_ConsE: "run s (s' # ss)"

text \<open>How often a run dispatches a thread.\<close>

fun dispatches :: "'b tsys_scheme \<Rightarrow> 'b tsys_scheme list \<Rightarrow> nat" where
  "dispatches s [] = 0"
| "dispatches s (s' # ss) =
     (if curthread s = None \<and> curthread s' \<noteq> None then 1 else 0) + dispatches s' ss"

lemma ready_step:
  assumes k: "kgood s" and st: "tstep s e s'" and rd: "ready s = xs @ t # ys"
  shows "(curthread s = None \<and> curthread s' = Some t) \<or>
    (\<exists>xs' ys'. ready s' = xs' @ t # ys' \<and>
       length xs = length xs' + (if curthread s = None \<and> curthread s' \<noteq> None then 1 else 0))"
proof -
  have "kstep_ok (ready s) s s'" by (rule tstep_kstep_ok [OF kgood_kin [OF k] st])
  then show ?thesis
    unfolding kstep_ok_def
  proof (elim disjE conjE exE)
    assume "kgrow (ready s) s'" and n: "\<not> (curthread s = None \<and> curthread s' \<noteq> None)"
    then obtain zs where "ready s' = (xs @ t # ys) @ zs" using kin_lists rd unfolding kgrow_def by fastforce
    then show ?thesis using n by (intro disjI2 exI [of _ xs] exI [of _ "ys @ zs"]) auto
  next
    fix u rd' sl zb
    assume h: "ready s = u # rd'" "curthread s = None" "curthread s' = Some u" "kin s' rd' sl zb"
    show ?thesis
    proof (cases xs)
      case Nil
      then show ?thesis using h rd by simp
    next
      case (Cons x xs')
      then have "ready s' = xs' @ t # ys" using h rd kin_lists [OF h(4)] by simp
      then show ?thesis using Cons h by (intro disjI2 exI [of _ xs'] exI [of _ ys]) simp
    qed
  qed
qed

lemma ready_runs:
  assumes "run s ss" and "kgood s" and "ready s = xs @ t # ys" and "length xs < dispatches s ss"
  shows "\<exists>s' \<in> set ss. curthread s' = Some t"
  using assms
proof (induction ss arbitrary: s xs ys rule: list.induct)
  case Nil
  then show ?case by simp
next
  case (Cons s' ss)
  from Cons.prems(1) obtain e where st: "tstep s e s'" and rest: "run s' ss" by (rule run_ConsE)
  have k: "kgood s'" by (rule tstep_kgood [OF Cons.prems(2) st])
  from ready_step [OF Cons.prems(2) st Cons.prems(3)] show ?case
  proof (elim disjE exE conjE)
    fix xs' ys'
    assume h: "ready s' = xs' @ t # ys'"
      "length xs = length xs' + (if curthread s = None \<and> curthread s' \<noteq> None then 1 else 0)"
    then have "length xs' < dispatches s' ss" using Cons.prems(4) by (auto split: if_splits)
    then show ?thesis using Cons.IH [OF rest k h(1)] by auto
  qed simp
qed

section \<open>The frames come to an end\<close>

text \<open>
  Without further calls and interrupts the frames finish: in a thread's own code, or in the idle loop
  with no thread ready.
\<close>

definition frame_measure :: "'b tsys_scheme \<Rightarrow> nat \<times> nat \<times> nat" where
  "frame_measure s = (length (ready s) + length (cur_list s), (if curthread s = None then 1 else 0),
     stack_work (kstack s (onstack s)))"

lemma frame_decreases:
  assumes k: "kgood s" and st: "tstep s FrameStep s'" and b: "\<not> in_body s" and i: "\<not> idling s"
  shows "(frame_measure s', frame_measure s) \<in> less_than <*lex*> less_than <*lex*> less_than"
proof -
  note kk = kgood_kin(1) [OF k]
  have "frame_ran (ready s) s s'" using st run_frame_wp [OF kgood_kin [OF k]] by (auto simp: tstep_simps dest: wp_DoneD)
  then show ?thesis
    unfolding frame_ran_def
  proof (elim disjE conjE exE)
    fix c r
    assume h: "ready s = []" "kstack s (onstack s) = InScheduler c # r"
    obtain q where "runqueue s = Some q" "q_wf q" "q_list q = []"
      using kk h(1) by (auto simp: kin_def lists_ok_def)
    then have "idling s" using h(2) q_wf_empty by (auto simp: idling_def)
    then show ?thesis using i by simp
  next
    fix sl zb
    assume h: "kin s' (ready s) sl zb" "curthread s' = curthread s"
      "stack_work (kstack s' (onstack s')) < stack_work (kstack s (onstack s))"
    then show ?thesis using kin_lists [OF h(1)] by (simp add: frame_measure_def cur_list_def)
  next
    fix sl zb
    assume h: "kin s' (ready s) sl zb" "curthread s \<noteq> None" "curthread s' = None"
    then show ?thesis using kin_lists [OF h(1)] by (auto simp: frame_measure_def cur_list_def)
  next
    fix t rd' sl zb
    assume h: "ready s = t # rd'" "curthread s = None" "curthread s' = Some t" "kin s' rd' sl zb"
    then show ?thesis using kin_lists [OF h(4)] by (simp add: frame_measure_def cur_list_def)
  qed (use b in simp)
qed

inductive frames :: "'b tsys_scheme \<Rightarrow> 'b tsys_scheme \<Rightarrow> bool" where
  frames_refl: "frames s s"
| frames_step: "tstep s FrameStep s' \<Longrightarrow> frames s' s'' \<Longrightarrow> frames s s''"

lemma frames_finish_wf:
  assumes "kgood s"
  shows "\<exists>s'. frames s s' \<and> (in_body s' \<or> idling s')"
proof -
  have "wf (less_than <*lex*> less_than <*lex*> less_than)"
    by (intro wf_lex_prod wf_less_than)
  then show ?thesis using assms
  proof (induction "frame_measure s" arbitrary: s rule: wf_induct_rule)
    case (less s)
  show ?case
  proof (cases "in_body s \<or> idling s")
    case True
    then show ?thesis using frames_refl by blast
  next
    case False
    obtain s' where st: "tstep s FrameStep s'"
      using run_frame_wp [OF kgood_kin [OF less.prems]] by (auto simp: tstep_simps elim: wp_cases)
    have "kgood s'" by (rule tstep_kgood [OF less.prems st])
    then obtain s'' where "frames s' s''" "in_body s'' \<or> idling s''"
      using less.hyps [of s'] frame_decreases [OF less.prems st] False by blast
    then show ?thesis using st frames_step by blast
  qed
  qed
qed

section \<open>Example states\<close>

text \<open>The machine after boot, with the boot thread at address 8.\<close>

definition k_off :: tsys where
  "k_off = \<lparr>curspl = SPL_HIGH, firstfree = 0, firstpaddr = 0, lastpaddr = 0, ipt = 0, system_pages = 0,
     avail_pages = 0, bootstrapped = False, vm_lo = 0, kword = (\<lambda>_. 0), in_interrupt = 0, curkstack = 4096,
     curthread = None, sleepers = None, zombies = None, runqueue = None, numthreads = 0, thr = Map.empty,
     sems = Map.empty, lbolt = 4, lbolt_counter = 0, bootstack = 4096, onstack = 0, kstack = (\<lambda>_. []), calls = []\<rparr>"

definition boot_thread :: thread where
  "boot_thread = \<lparr>t_pcb = \<lparr>pcb_kstack = 4096, pcb_ininterrupt = 0, pcb_badfaultfunc = 0\<rparr>,
     t_name = ''<boot/menu>'', t_sleepaddr = 0, t_stack = 0, t_magic = [], t_vmspace = 0, t_cwd = 0\<rparr>"

definition k_boot :: tsys where
  "k_boot = k_off\<lparr>curthread := Some 8, sleepers := Some \<lparr>a_num = 0, a_max = 0, a_v = None\<rparr>,
     zombies := Some \<lparr>a_num = 0, a_max = 0, a_v = None\<rparr>,
     runqueue := Some \<lparr>q_size = 32, q_nextwrite = 0, q_nextread = 0, q_data = replicate 32 None\<rparr>,
     numthreads := 1, thr := [8 \<mapsto> boot_thread], onstack := 8, kstack := (\<lambda>_. [])(8 := [Body])\<rparr>"

text \<open>After \<open>sem_create\<close> with count 0 at address 24, and after the boot thread's \<open>P\<close> on it.\<close>

definition k_sem :: tsys where
  "k_sem = k_boot\<lparr>sems := [24 \<mapsto> \<lparr>sem_name = ''s'', sem_count = 0\<rparr>]\<rparr>"

definition k_wait :: tsys where
  "k_wait = k_sem\<lparr>curthread := None, sleepers := Some \<lparr>a_num = 1, a_max = 2, a_v = Some [Some 8, None]\<rparr>,
     thr := [8 \<mapsto> boot_thread\<lparr>t_sleepaddr := 24\<rparr>],
     kstack := (\<lambda>_. [])(8 := [InScheduler 8, SwitchTail, ClearSleep, PLoop 24 15, Body])\<rparr>"

text \<open>After a \<open>thread_yield\<close> of the boot thread, and after it was dispatched again.\<close>

definition k_yield :: tsys where
  "k_yield = k_boot\<lparr>curthread := None,
     runqueue := Some \<lparr>q_size = 32, q_nextwrite = 1, q_nextread = 0, q_data = Some 8 # replicate 31 None\<rparr>,
     kstack := (\<lambda>_. [])(8 := [InScheduler 8, SwitchTail, Splx 15, Body])\<rparr>"

definition k_again :: tsys where
  "k_again = k_boot\<lparr>curthread := Some 8,
     runqueue := Some \<lparr>q_size = 32, q_nextwrite = 1, q_nextread = 1, q_data = Some 8 # replicate 31 None\<rparr>,
     kstack := (\<lambda>_. [])(8 := [SwitchTail, Splx 15, Body])\<rparr>"

lemma wp_DoneI: "wp m (\<lambda>x t. x = y \<and> t = u) (\<lambda>_ _. False) s \<Longrightarrow> m s = Done y u"
  by (cases "m s") (auto simp: wp_def)

lemma k_boot_reachable: "reachable k_boot"
proof (rule reachable.boot)
  show "power_on k_off" by (simp add: power_on_def k_off_def boot_page_def STACK_SIZE_def)
  show "kernel_boot True True True True 8 True k_off = Done 8 k_boot"
    by (rule wp_DoneI) (simp add: kernel_boot_def scheduler_bootstrap_def thread_bootstrap_def thread_create_def
        md_initpcb0_def twps q_create_def array_create_def k_off_def k_boot_def boot_thread_def)
qed

lemma k_sem_reachable: "reachable k_sem"
proof (rule reachable.step [OF k_boot_reachable tstep.call])
  show "in_body k_boot" by (simp add: in_body_def k_boot_def k_off_def)
  show "call_legal (SemCreate 24 True ''s'' 0) k_boot" by (simp add: k_boot_def k_off_def)
  show "run_call True (SemCreate 24 True ''s'' 0) k_boot = Done () k_sem"
    by (rule wp_DoneI) (simp add: run_call_def sem_create_def twps k_sem_def k_boot_def k_off_def)
qed

lemma grow_max_1: "grow_max (Suc 0) 0 = 2"
  by (simp add: grow_max.simps [of "Suc 0" 0] grow_max.simps [of "Suc 0" 2])

lemma k_wait_reachable: "reachable k_wait"
proof (rule reachable.step [OF k_sem_reachable tstep.call])
  show "in_body k_sem" by (simp add: in_body_def k_sem_def k_boot_def k_off_def)
  show "call_legal (CallP 24) k_sem" by (simp add: k_sem_def)
  show "run_call True (CallP 24) k_sem = Done () k_wait"
    by (rule wp_DoneI) (simp add: run_call_def P_def P_loop_def thread_sleep_def mi_switch_def check_magic_def
        array_add_def array_setsize_def array_preallocate_def a_cells_def grow_max_1 Let_def twps SPL_HIGH_def
        k_wait_def k_sem_def k_boot_def k_off_def boot_thread_def numeral_2_eq_2)
qed

lemma yield_eqs:
  "q_addtail ok ptr = q_addtail_depth (Suc (Suc 0)) ok (Some ptr)"
  "replicate 32 x = x # replicate 31 x"
  by (simp_all add: q_addtail_def numeral_2_eq_2 numeral_eq_Suc)

lemma k_yield_reachable: "reachable k_yield"
proof (rule reachable.step [OF k_boot_reachable tstep.call])
  show "in_body k_boot" by (simp add: in_body_def k_boot_def k_off_def)
  show "call_legal Yield k_boot" by simp
  show "run_call True Yield k_boot = Done () k_yield"
    by (rule wp_DoneI) (simp add: run_call_def thread_yield_def mi_switch_def check_magic_def make_runnable_def
        yield_eqs twps SPL_HIGH_def k_yield_def k_boot_def k_off_def boot_thread_def)
qed

lemma k_yield_step: "tstep k_yield FrameStep k_again"
proof (rule tstep.frame)
  show "run_frame True k_yield = Done () k_again"
    by (rule wp_DoneI) (simp add: run_frame_def mi_switch_dispatch_def scheduler_def md_switch_def q_remhead_def
        q_empty_def twps SPL_HIGH_def Let_def k_yield_def k_again_def k_boot_def k_off_def)
qed

section \<open>Yielding without memory\<close>

lemma panic_iff: "m s = Panic \<longleftrightarrow> \<not> wp m (\<lambda>_ _. True) (\<lambda>_ _. True) s"
  by (cases "m s") (auto simp: wp_def)

text \<open>A full queue cannot grow without memory.\<close>

lemma q_addtail_full:
  assumes q: "q_wf q" and full: "q_size q = Suc (length (q_list q))" and few: "length (q_list q) < 536870911"
  shows "q_addtail False x q = Fail ENOMEM q"
proof -
  have r: "q_rep q (q_list q)" using q by (simp add: q_wf_def)
  then have m: "0 < q_size q" by (auto simp: q_rep_def)
  have f: "Suc (q_nextwrite q) mod q_size q = q_nextread q" using q_full_iff [OF r] full by simp
  have "q_grow_size (q_size q) (Suc (q_size q)) = Some (2 * q_size q)"
    using q_grow_size_spec [of "q_size q" "Suc (q_size q)"] full few by simp
  then show ?thesis using m f
    by (simp add: yield_eqs(1) kbind_def kget_def kassert_def kwhen_def q_grow_with_def Let_def kfail_def)
qed

lemma yield_no_memory:
  assumes k: "kin s rd sl zb" and t: "curthread s = Some t" and q: "runqueue s = Some q"
    and full: "q_size q = Suc (length rd)"
  shows "thread_yield False s = Panic"
proof -
  have ql: "q_wf q" "q_list q = rd" using k q by (auto simp: kin_def lists_ok_def)
  have "q_addtail False t q = Fail ENOMEM q"
    by (rule q_addtail_full) (use ql full kin_cur(5) [OF k t] in auto)
  then have "\<not> wp (q_addtail False t) Q (\<lambda>_ _. False) q" for Q by (simp add: wp_def)
  moreover have "sleepers s \<noteq> None" using k by (auto simp: kin_def lists_ok_def)
  moreover have "threads_ok (s\<lparr>curspl := SPL_HIGH, kstack := ks\<rparr>) zb" for ks
    using kin_len(4) [OF k] by (simp add: threads_ok_def)
  then have "wp (check_magic t) Q R (s\<lparr>curspl := SPL_HIGH, kstack := ks\<rparr>) = Q () (s\<lparr>curspl := SPL_HIGH, kstack := ks\<rparr>)"
    for Q R ks using kin_cur(2) [OF k t] by (intro check_magic_wp) simp_all
  ultimately show ?thesis using t q
    by (simp add: panic_iff thread_yield_def mi_switch_def make_runnable_def twps SPL_HIGH_def)
qed

section \<open>Properties\<close>

text \<open>
  Property C4: whatever the threads call and whenever interrupts arrive, every thread is in exactly one
  place (running, in the run queue, asleep or dead), the structures that exist are those of the
  threads in these places, and \<open>numthreads\<close> is the number of threads that have not exited.
\<close>

theorem every_thread_in_one_place:
  assumes "reachable s"
  shows "distinct (cur_list s @ ready s @ asleep s @ dead s)
    \<and> set (cur_list s @ ready s @ asleep s @ dead s) = dom (thr s)
    \<and> numthreads s = int (length (cur_list s @ ready s @ asleep s))"
  using reachable_kin [OF assms] by (simp add: kin_def placed_def)

theorem every_thread_in_one_place_witness:
  "distinct (cur_list k_wait @ ready k_wait @ asleep k_wait @ dead k_wait)
    \<and> set (cur_list k_wait @ ready k_wait @ asleep k_wait @ dead k_wait) = dom (thr k_wait)
    \<and> numthreads k_wait = int (length (cur_list k_wait @ ready k_wait @ asleep k_wait))"
  by (rule every_thread_in_one_place [OF k_wait_reachable])

text \<open>
  Property C5: no wakeup is lost. A thread that has gone to sleep in \<open>P\<close> sleeps at the address of its
  semaphore, and as long as it sleeps the count is 0: a \<open>V\<close> that makes the count positive has made
  every waiting thread runnable, also when it comes from an interrupt in the idle loop.
\<close>

theorem no_lost_wakeup:
  assumes "reachable s" and "t \<in> set (asleep s)"
    and "under (kstack s t) = SwitchTail # ClearSleep # PLoop sem spl # r"
  shows "\<exists>x m. thr s t = Some x \<and> t_sleepaddr x = sem \<and> sems s sem = Some m \<and> sem_count m = 0"
proof -
  note k = reachable_kin [OF assms(1)]
  have "t \<in> dom (thr s)" using kin_len(3) [OF k] assms(2) by auto
  then obtain x where x: "thr s t = Some x" by auto
  then have "waits_for (sems s) (lbolt s) (PLoop sem spl) (t_sleepaddr x)"
    using k assms(2,3) unfolding kin_def asleep_ok_def by fastforce
  then show ?thesis using x by (auto simp: waits_for_def)
qed

theorem no_lost_wakeup_witness:
  "\<exists>x m. thr k_wait 8 = Some x \<and> t_sleepaddr x = 24 \<and> sems k_wait 24 = Some m \<and> sem_count m = 0"
proof (rule no_lost_wakeup [OF k_wait_reachable])
  show "8 \<in> set (asleep k_wait)"
    by (simp add: asleep_def k_wait_def array_list_def a_cells_def)
  show "under (kstack k_wait 8) = SwitchTail # ClearSleep # PLoop 24 15 # [Body]"
    by (simp add: k_wait_def)
qed

text \<open>
  Property C8: as long as the lists of the thread system can grow, no assertion of the thread system,
  the scheduler, the semaphores, the clock or the interrupt path trips and no pointer to a freed thread
  is used: no frame, no legal call and no interrupt panics in any state the system can reach. In
  particular no zombie is resumed, no thread is destroyed while its stack is in use, and \<open>curkstack\<close>
  is the end of the stack the trap frame is on when the interrupt returns, after whatever switches
  between. That no stack overflows its page is assumed of the address of the trap frame.
\<close>

theorem kernel_never_panics:
  assumes "reachable s" and "enabled e s"
  shows "exec_event e s \<noteq> Panic"
proof -
  note k = kgood_kin [OF reachable_kgood [OF assms(1)]]
  show ?thesis
    using assms(2) run_frame_wp [OF k] run_call_wp [OF k(1)] mips_trap_irq_wp [OF k(1) _ k(2)]
    by (cases e) (auto dest!: wp_not_Panic)
qed

theorem kernel_never_panics_witness:
  "exec_event (IrqStep (Device 24) 3000) k_wait \<noteq> Panic"
proof (rule kernel_never_panics [OF k_wait_reachable])
  have "tf_legal 3000 k_wait"
    by (simp add: tf_legal_def tf_on_def stack_end_def STACK_SIZE_def k_wait_def k_sem_def k_boot_def k_off_def
      boot_thread_def)
  moreover have "idling k_wait" "sem_ready k_wait 24"
    by (simp_all add: idling_def q_empty_def sem_ready_def k_wait_def k_sem_def k_boot_def)
  ultimately show "enabled (IrqStep (Device 24) 3000) k_wait" by (simp add: irq_enabled_def)
qed

text \<open>
  Property C29: the kernel stack of every live thread is well formed: each frame has below it what its
  code needs (its own loop or caller, the level \<open>splx\<close> has to restore, the value of \<open>in_interrupt\<close>
  before the interrupt), a thread that is not running is parked in \<open>mi_switch\<close> or not started, with
  its \<open>in_interrupt\<close> saved in its pcb, and code that must have interrupts off has them off.
\<close>

theorem kernel_stacks_well_formed:
  assumes "reachable s" and "thr s t = Some x" and "t \<notin> set (dead s)"
  shows "stack_ok t (kstack s t)
    \<and> (t \<noteq> onstack s \<longrightarrow> parked (kstack s t) \<and> pcb_ininterrupt (t_pcb x) = irq_flag (kstack s t))
    \<and> (t = onstack s \<longrightarrow> (hi (kstack s t) \<longrightarrow> curspl s > 0) \<and> in_interrupt s = irq_flag (kstack s t))"
  using reachable_kin [OF assms(1)] assms(2,3) by (auto simp: kin_def stacks_ok_def)

theorem kernel_stacks_well_formed_witness:
  "stack_ok 8 (kstack k_wait 8) \<and> curspl k_wait > 0 \<and> in_interrupt k_wait = irq_flag (kstack k_wait 8)"
proof -
  have "thr k_wait 8 = Some (boot_thread\<lparr>t_sleepaddr := 24\<rparr>)" "8 \<notin> set (dead k_wait)"
    by (simp_all add: k_wait_def dead_def k_sem_def k_boot_def array_list_def)
  moreover have "8 = onstack k_wait" "hi (kstack k_wait 8)"
    by (simp_all add: k_wait_def k_sem_def k_boot_def)
  ultimately show ?thesis
    using kernel_stacks_well_formed [OF k_wait_reachable, of 8 "boot_thread\<lparr>t_sleepaddr := 24\<rparr>"] by blast
qed

text \<open>
  Property C30: every thread has a stack of its own in one page, and the processor knows which one to use.
  \<open>curkstack\<close>, the stack pointer of the next entry from user mode, is the end of the stack the processor is
  on; the pcb of every other thread (zombies included) holds the end of that thread's stack; and the
  trap frame of every interrupt that is still to return lies on the stack of the thread it belongs to.
\<close>

theorem kernel_entered_on_own_stack:
  assumes "reachable s" and "thr s t = Some x"
  shows "boot_page (stack_end s x)
    \<and> (if t = onstack s then curkstack s else pcb_kstack (t_pcb x)) = stack_end s x
    \<and> irqs_on (stack_end s x) (kstack s t)"
proof -
  have k: "kstk s" using reachable_kgood [OF assms(1)] by (simp add: kgood_def)
  have "(if t = onstack s then curkstack s else pcb_kstack (t_pcb x)) = stack_end s x"
    using kstk_stk [OF k assms(2)] unfolding stk_ok_def stk_at_def stack_end_def by (cases "t = onstack s") simp_all
  then show ?thesis using kstk_end(1,2) [OF k assms(2)] by blast
qed

theorem kernel_entered_on_own_stack_witness:
  "boot_page (stack_end k_wait (boot_thread\<lparr>t_sleepaddr := 24\<rparr>)) \<and> curkstack k_wait = 4096"
proof -
  have "thr k_wait 8 = Some (boot_thread\<lparr>t_sleepaddr := 24\<rparr>)" by (simp add: k_wait_def)
  from kernel_entered_on_own_stack [OF k_wait_reachable this] show ?thesis
    by (simp add: stack_end_def boot_thread_def k_wait_def k_sem_def k_boot_def k_off_def)
qed

text \<open>
  Property C18: round robin is fair. In every run from a reachable state, a thread with \<open>n\<close> threads
  before it in the run queue has run by the time the scheduler has dispatched \<open>n + 1\<close> threads,
  whatever else is made ready, put to sleep or killed in between.
\<close>

theorem ready_thread_gets_its_turn:
  assumes "reachable s" and "run s ss" and "ready s = xs @ t # ys" and "length xs < dispatches s ss"
  shows "\<exists>s' \<in> set ss. curthread s' = Some t"
  by (rule ready_runs [OF assms(2) reachable_kgood [OF assms(1)] assms(3,4)])

theorem ready_thread_gets_its_turn_witness:
  "\<exists>s' \<in> set [k_again]. curthread s' = Some 8"
proof (rule ready_thread_gets_its_turn [OF k_yield_reachable])
  show "run k_yield [k_again]" by (rule run.go [OF k_yield_step run.stop])
  show "ready k_yield = [] @ 8 # []" by (simp add: ready_def k_yield_def q_list_def q_len_def)
  show "length ([] :: nat list) < dispatches k_yield [k_again]" by (simp add: k_yield_def k_again_def)
qed

text \<open>
  Property C22: what a call leaves on the kernel stacks is finished in finitely many steps. From every
  reachable state, without further calls and interrupts, the frames run until a thread is back in
  its own code or every thread is asleep and the processor idles: the switches, the loops of \<open>P\<close> and
  \<open>clocksleep\<close> and the returns from interrupts do not chase each other forever.
\<close>

theorem frames_finish:
  assumes "reachable s"
  shows "\<exists>s'. frames s s' \<and> (in_body s' \<or> idling s')"
  by (rule frames_finish_wf [OF reachable_kgood [OF assms]])

theorem frames_finish_witness: "\<exists>s'. frames k_yield s' \<and> (in_body s' \<or> idling s')"
  by (rule frames_finish [OF k_yield_reachable])

text \<open>
  Property C37: the preallocation of \<open>thread_fork\<close> is one short. \<open>scheduler_preallocate(n)\<close> makes room
  for \<open>n\<close> threads in a buffer of which one cell always stays free; when the run queue has exactly
  the \<open>numthreads\<close> cells it asks for, nobody sleeps, and \<open>kmalloc\<close> fails, the next \<open>thread_yield\<close> panics on
  the assertion that the comment says can never fail.
\<close>

theorem yield_panics_without_memory:
  assumes "kinv s" and "curthread s = Some t" and "asleep s = []" and "runqueue s = Some q"
    and "int (q_size q) = numthreads s"
  shows "thread_yield False s = Panic"
proof -
  note k = kinv_kin [OF assms(1)]
  have "numthreads s = int (Suc (length (ready s)))"
    using k assms(2,3) by (simp add: kin_def placed_def cur_list_def)
  then show ?thesis by (intro yield_no_memory [OF k assms(2,4)]) (use assms(5) in simp)
qed

text \<open>The boot thread and 31 new threads, in the run queue \<open>scheduler_bootstrap\<close> created.\<close>

definition child :: "nat \<Rightarrow> thread" where
  "child t = boot_thread\<lparr>t_stack := 4096 * t, t_magic := stack_magic\<rparr>"

definition full_queue :: "nat kqueue" where
  "full_queue = \<lparr>q_size = 32, q_nextwrite = 31, q_nextread = 0, q_data = map Some [9..<40] @ [None]\<rparr>"

definition k_full :: tsys where
  "k_full = k_boot\<lparr>runqueue := Some full_queue, numthreads := 32,
     thr := (\<lambda>t. if t = 8 then Some boot_thread else if 9 \<le> t \<and> t < 40 then Some (child t) else None),
     kstack := (\<lambda>t. if t = 8 then [Body] else [ThreadStart 0 0 0])\<rparr>"

lemma full_queue_list: "q_wf full_queue \<and> q_list full_queue = [9..<40]"
proof (rule q_rep_wf)
  have "q_data full_queue ! k = Some ([9..<40] ! k)" if "k < 31" for k
    using that by (simp add: full_queue_def nth_append del: upt_rec_numeral upt_conv_Cons_Cons)
  then show "q_rep full_queue [9..<40]"
    by (simp add: q_rep_def full_queue_def del: upt_rec_numeral)
qed

lemma k_full_kinv: "kinv k_full"
proof -
  have a: "array_list \<lparr>a_num = 0, a_max = 0, a_v = None\<rparr> = ([] :: nat list)"
    "array_wf (\<lparr>a_num = 0, a_max = 0, a_v = None\<rparr> :: nat karray)"
    by (simp_all add: array_defs)
  have l: "lists_ok k_full [9..<40] [] []"
    using full_queue_list a by (simp add: lists_ok_def k_full_def k_boot_def del: upt_rec_numeral)
  have p: "placed k_full [9..<40] [] []"
    by (auto simp: placed_def cur_list_def k_full_def k_boot_def dom_def simp del: upt_rec_numeral split: if_splits)
  have t: "threads_ok k_full []"
    by (simp add: threads_ok_def k_full_def boot_thread_def child_def)
  have s: "stacks_ok k_full []" "asleep_ok k_full []" "sems_ok k_full []"
    by (auto simp: stacks_ok_def asleep_ok_def sems_ok_def k_full_def k_boot_def k_off_def SPL_HIGH_def
      boot_thread_def child_def split: if_splits)
  show ?thesis unfolding kinv_def kin_def using l p t s by blast
qed

theorem yield_panics_without_memory_witness: "thread_yield False k_full = Panic"
  by (rule yield_panics_without_memory [OF k_full_kinv, where t = 8 and q = full_queue])
    (simp_all add: k_full_def k_boot_def full_queue_def asleep_def array_list_def)

end
