(* ===== verification/SchedSim.thy ===== *)
theory SchedSim
  imports "HOL-Library.Multiset" "HOL-Library.Monad_Syntax"
begin

text \<open>
  The scheduling simulator of CSE4300/jesse-cindhy-ervin/ervin_schedulingmethodstester: first come first
  served, shortest job first, priorities and round robin over an array of processes.

  Times are unbounded integers: the code's \<open>int\<close>s would have to run for \<open>2\<^sup>3\<^sup>1\<close> time units to overflow.
  The arrays \<open>ct\<close>, \<open>tat\<close> and \<open>wt\<close> the routines fill are one list of triples, an entry being
  \<open>None\<close> until it is stored. The \<open>while\<close> loops are partial functions: a loop that does not end has the
  value \<open>None\<close>. The local arrays have 100 elements, so at most 100 processes make sense.
\<close>

section \<open>The routines\<close>

record process =
  pid :: int
  arrival :: int
  burst :: int
  prio :: int

type_synonym times = "(int \<times> int \<times> int) option"

definition times_of :: "process \<Rightarrow> int \<Rightarrow> times" where
  "times_of p ct = (let tat = ct - arrival p in Some (ct, tat, tat - burst p))"

primrec fcfs_from :: "int \<Rightarrow> process list \<Rightarrow> times list" where
  "fcfs_from current_time [] = []"
| "fcfs_from current_time (p # ps) =
     (let t = (if current_time < arrival p then arrival p else current_time) + burst p
      in times_of p t # fcfs_from t ps)"

definition fcfs :: "process list \<Rightarrow> times list" where
  "fcfs ps = fcfs_from 0 ps"

text \<open>
  The inner loop of \<open>sjf\<close> and \<open>priority_scheduling\<close>, which differ in the field they compare: the index
  of the process to run, with \<open>best\<close> the value to beat.
\<close>

primrec pick :: "(process \<Rightarrow> int) \<Rightarrow> int \<Rightarrow> (process \<times> bool) list \<Rightarrow> nat \<Rightarrow> int \<Rightarrow> nat option \<Rightarrow> nat option" where
  "pick key t [] i best idx = idx"
| "pick key t (pc # pcs) i best idx =
     (if \<not> snd pc \<and> arrival (fst pc) \<le> t \<and> key (fst pc) < best
      then pick key t pcs (i + 1) (key (fst pc)) (Some i)
      else pick key t pcs (i + 1) best idx)"

partial_function (option) sched_loop ::
  "(process \<Rightarrow> int) \<Rightarrow> process list \<Rightarrow> bool list \<Rightarrow> int \<Rightarrow> nat \<Rightarrow> times list \<Rightarrow> times list option" where
  "sched_loop key ps completed t completed_count out =
     (if completed_count < length ps then
        (case pick key t (zip ps completed) 0 99999 None of
           None \<Rightarrow> sched_loop key ps completed (t + 1) completed_count out
         | Some idx \<Rightarrow>
             sched_loop key ps (completed[idx := True]) (t + burst (ps ! idx)) (completed_count + 1)
               (out[idx := times_of (ps ! idx) (t + burst (ps ! idx))]))
      else Some out)"

definition sjf :: "process list \<Rightarrow> times list option" where
  "sjf ps = sched_loop burst ps (replicate (length ps) False) 0 0 (replicate (length ps) None)"

definition priority_scheduling :: "process list \<Rightarrow> times list option" where
  "priority_scheduling ps = sched_loop prio ps (replicate (length ps) False) 0 0 (replicate (length ps) None)"

definition QUANTUM :: int where "QUANTUM = 4"

text \<open>One \<open>for\<close> loop of \<open>rr\<close>; the result is the time, the remaining bursts, the times and \<open>done\<close>.\<close>

primrec rr_pass :: "process list \<Rightarrow> nat list \<Rightarrow> int \<Rightarrow> int list \<Rightarrow> times list \<Rightarrow> bool
    \<Rightarrow> int \<times> int list \<times> times list \<times> bool" where
  "rr_pass ps [] t rem out fin = (t, rem, out, fin)"
| "rr_pass ps (i # is) t rem out fin =
     (if rem ! i > 0 then
        if arrival (ps ! i) \<le> t then
          if rem ! i > QUANTUM then rr_pass ps is (t + QUANTUM) (rem[i := rem ! i - QUANTUM]) out False
          else rr_pass ps is (t + rem ! i) (rem[i := 0]) (out[i := times_of (ps ! i) (t + rem ! i)]) False
        else rr_pass ps is (t + 1) rem out False
      else rr_pass ps is t rem out fin)"

partial_function (option) rr_loop :: "process list \<Rightarrow> int \<Rightarrow> int list \<Rightarrow> times list \<Rightarrow> times list option" where
  "rr_loop ps t rem out =
     (case rr_pass ps [0..<length ps] t rem out True of
        (t', rem', out', fin) \<Rightarrow> if fin then Some out' else rr_loop ps t' rem' out')"

definition rr :: "process list \<Rightarrow> times list option" where
  "rr ps = rr_loop ps 0 (map burst ps) (replicate (length ps) None)"

section \<open>The choice of a process\<close>

text \<open>The processes \<open>pick\<close> considers.\<close>

definition eligible :: "int \<Rightarrow> process \<times> bool \<Rightarrow> bool" where
  "eligible t pc \<longleftrightarrow> \<not> snd pc \<and> arrival (fst pc) \<le> t"

lemma pick_spec:
  "(pick key t pcs i best idx = idx \<and> (\<forall>k < length pcs. eligible t (pcs ! k) \<longrightarrow> best \<le> key (fst (pcs ! k))))
   \<or> (\<exists>j < length pcs. pick key t pcs i best idx = Some (i + j) \<and> eligible t (pcs ! j) \<and> key (fst (pcs ! j)) < best
        \<and> (\<forall>k < length pcs. eligible t (pcs ! k) \<longrightarrow> key (fst (pcs ! j)) \<le> key (fst (pcs ! k))))"
proof (induction pcs arbitrary: i best idx)
  case Nil
  then show ?case by simp
next
  case (Cons pc pcs)
  let ?hit = "eligible t pc \<and> key (fst pc) < best"
  let ?b = "if ?hit then key (fst pc) else best" and ?x = "if ?hit then Some i else idx"
  have e: "pick key t (pc # pcs) i best idx = pick key t pcs (Suc i) ?b ?x"
    by (simp add: eligible_def)
  from Cons.IH [of "Suc i" ?b ?x] show ?case
  proof (elim disjE conjE exE)
    assume h: "pick key t pcs (Suc i) ?b ?x = ?x"
      "\<forall>k < length pcs. eligible t (pcs ! k) \<longrightarrow> ?b \<le> key (fst (pcs ! k))"
    show ?thesis
    proof (cases ?hit)
      case True
      have "\<forall>k < length (pc # pcs). eligible t ((pc # pcs) ! k) \<longrightarrow> key (fst pc) \<le> key (fst ((pc # pcs) ! k))"
        using h(2) True by (auto simp: nth_Cons split: nat.splits)
      then show ?thesis using h(1) True e by (intro disjI2 exI [of _ 0]) simp
    next
      case False
      have "\<forall>k < length (pc # pcs). eligible t ((pc # pcs) ! k) \<longrightarrow> best \<le> key (fst ((pc # pcs) ! k))"
        using h(2) False by (auto simp: nth_Cons split: nat.splits)
      then show ?thesis using h(1) False e by (intro disjI1) auto
    qed
  next
    fix j
    assume h: "j < length pcs" "pick key t pcs (Suc i) ?b ?x = Some (Suc i + j)" "eligible t (pcs ! j)"
      "key (fst (pcs ! j)) < ?b"
      "\<forall>k < length pcs. eligible t (pcs ! k) \<longrightarrow> key (fst (pcs ! j)) \<le> key (fst (pcs ! k))"
    have "key (fst (pcs ! j)) < best" using h(4) by (auto split: if_splits)
    moreover have "\<forall>k < length (pc # pcs). eligible t ((pc # pcs) ! k)
        \<longrightarrow> key (fst (pcs ! j)) \<le> key (fst ((pc # pcs) ! k))"
      using h(4,5) by (auto simp: nth_Cons split: nat.splits if_splits)
    ultimately show ?thesis using h(1-3) e by (intro disjI2 exI [of _ "Suc j"]) simp
  qed
qed

lemma pick_None:
  assumes "pick key t (zip ps completed) 0 99999 None = None" and "length completed = length ps"
    and "k < length ps" and "\<not> completed ! k"
  shows "t < arrival (ps ! k) \<or> 99999 \<le> key (ps ! k)"
  using pick_spec [of key t "zip ps completed" 0 99999 None] assms by (auto simp: eligible_def)

lemma pick_Some:
  assumes "pick key t (zip ps completed) 0 99999 None = Some j" and "length completed = length ps"
  shows "j < length ps \<and> \<not> completed ! j \<and> arrival (ps ! j) \<le> t \<and> key (ps ! j) < 99999
     \<and> (\<forall>k < length ps. \<not> completed ! k \<longrightarrow> arrival (ps ! k) \<le> t \<longrightarrow> key (ps ! j) \<le> key (ps ! k))"
  using pick_spec [of key t "zip ps completed" 0 99999 None] assms by (auto simp: eligible_def)

section \<open>When the loop ends\<close>

lemma count_list_update:
  assumes "j < length xs" and "\<not> xs ! j"
  shows "length (filter id (xs[j := True])) = Suc (length (filter id xs))"
  using assms by (induction xs arbitrary: j) (auto simp: nth_Cons split: nat.splits)

lemma some_incomplete:
  assumes "length (filter id xs) < length xs"
  shows "\<exists>k < length xs. \<not> xs ! k"
proof (rule ccontr)
  assume "\<not> (\<exists>k < length xs. \<not> xs ! k)"
  then have "\<forall>x \<in> set xs. id x" by (auto simp: in_set_conv_nth)
  then have "filter id xs = xs" by simp
  then show False using assms by simp
qed

text \<open>A run of the loop: the number of completed processes is \<open>completed_count\<close>.\<close>

lemma sched_loop_returns:
  assumes "\<forall>p \<in> set ps. key p < 99999" and "length completed = length ps"
    and "cnt = length (filter id completed)" and "\<forall>p \<in> set ps. arrival p \<le> m"
  shows "\<exists>out'. sched_loop key ps completed t cnt out = Some out'"
proof -
  have "wf (less_than <*lex*> less_than)" by (intro wf_lex_prod wf_less_than)
  then show ?thesis using assms(2,3)
  proof (induction "(length ps - cnt, nat (m - t))" arbitrary: completed t cnt out rule: wf_induct_rule)
    case less
    show ?case
    proof (cases "cnt < length ps")
      case False
      then show ?thesis by (simp add: sched_loop.simps)
    next
      case True
      show ?thesis
      proof (cases "pick key t (zip ps completed) 0 99999 None")
        case None
        obtain k where k: "k < length ps" "\<not> completed ! k"
          using some_incomplete [of completed] True less.prems by auto
        have "key (ps ! k) < 99999" using assms(1) k(1) by simp
        then have "t < arrival (ps ! k)" using pick_None [OF None less.prems(1) k] by simp
        moreover have "arrival (ps ! k) \<le> m" using assms(4) k(1) by simp
        ultimately have "((length ps - cnt, nat (m - (t + 1))), (length ps - cnt, nat (m - t)))
            \<in> less_than <*lex*> less_than" by simp
        then have "\<exists>out'. sched_loop key ps completed (t + 1) cnt out = Some out'"
          using less.prems by (rule less.hyps)
        then show ?thesis using None True by (simp add: sched_loop.simps [of key ps completed t])
      next
        case (Some j)
        note j = pick_Some [OF Some less.prems(1)]
        let ?c = "completed[j := True]" and ?t = "t + burst (ps ! j)"
        have c: "cnt + 1 = length (filter id ?c)" using count_list_update [of j completed] j less.prems by simp
        have "length ps - (cnt + 1) < length ps - cnt" using True by linarith
        then have "((length ps - (cnt + 1), nat (m - ?t)), (length ps - cnt, nat (m - t)))
            \<in> less_than <*lex*> less_than" by (simp only: in_lex_prod less_than_iff simp_thms)
        then have "\<exists>out'. sched_loop key ps ?c ?t (cnt + 1) (out[j := times_of (ps ! j) ?t]) = Some out'"
          by (rule less.hyps) (use less.prems c in simp_all)
        then show ?thesis using Some True by (simp add: sched_loop.simps [of key ps completed t])
      qed
    qed
  qed
qed

text \<open>A process with a key of 99999 or more is never picked, so the count never reaches the end.\<close>

definition stuck :: "(process \<Rightarrow> int) \<Rightarrow> process list \<Rightarrow> bool list \<Rightarrow> nat \<Rightarrow> bool" where
  "stuck key ps completed cnt \<longleftrightarrow> length completed = length ps \<and> cnt = length (filter id completed)
     \<and> (\<exists>k < length ps. \<not> completed ! k \<and> 99999 \<le> key (ps ! k))"

lemma stuck_less: "stuck key ps completed cnt \<Longrightarrow> cnt < length ps"
proof -
  assume s: "stuck key ps completed cnt"
  then obtain k where k: "k < length completed" "\<not> completed ! k" by (auto simp: stuck_def)
  then have "length (filter id completed) < length completed"
    by (intro length_filter_less [OF nth_mem [OF k(1)]]) simp
  then show ?thesis using s by (simp only: stuck_def)
qed

lemma stuck_pick:
  assumes s: "stuck key ps completed cnt" and j: "pick key t (zip ps completed) 0 99999 None = Some j"
  shows "stuck key ps (completed[j := True]) (cnt + 1)"
proof -
  have len: "length completed = length ps" "cnt = length (filter id completed)" using s by (auto simp: stuck_def)
  obtain k where k: "k < length ps" "\<not> completed ! k" "99999 \<le> key (ps ! k)" using s by (auto simp: stuck_def)
  note jj = pick_Some [OF j len(1)]
  have "\<not> completed[j := True] ! k" using jj k by (cases "j = k") auto
  moreover have "cnt + 1 = length (filter id (completed[j := True]))"
    using count_list_update [of j completed] jj len by simp
  ultimately show ?thesis using k len unfolding stuck_def by auto
qed

lemma sched_loop_not_stuck:
  "sched_loop key ps completed t cnt out = Some out' \<Longrightarrow> \<not> stuck key ps completed cnt"
proof (erule sched_loop.raw_induct [rotated, where P = "\<lambda>key ps completed t cnt out y. \<not> stuck key ps completed cnt"])
  fix loop key ps completed t cnt out y
  assume IH: "\<And>key ps completed t cnt out y. loop key ps completed t cnt out = Some y \<Longrightarrow> \<not> stuck key ps completed cnt"
    and run: "(if cnt < length ps then
        (case pick key t (zip ps completed) 0 99999 None of
           None \<Rightarrow> loop key ps completed (t + 1) cnt out
         | Some idx \<Rightarrow> loop key ps (completed[idx := True]) (t + burst (ps ! idx)) (cnt + 1)
               (out[idx := times_of (ps ! idx) (t + burst (ps ! idx))]))
      else Some out) = Some y"
  show "\<not> stuck key ps completed cnt"
  proof
    assume s: "stuck key ps completed cnt"
    show False
    proof (cases "pick key t (zip ps completed) 0 99999 None")
      case None
      then have "loop key ps completed (t + 1) cnt out = Some y" using run stuck_less [OF s] by simp
      then show False using IH s by blast
    next
      case (Some j)
      then have "loop key ps (completed[j := True]) (t + burst (ps ! j)) (cnt + 1)
          (out[j := times_of (ps ! j) (t + burst (ps ! j))]) = Some y" using run stuck_less [OF s] by simp
      then show False using IH stuck_pick [OF s Some] by blast
    qed
  qed
qed

section \<open>Shortest job first is optimal\<close>

text \<open>The sum of the completion times when jobs of the given lengths run one after the other from time \<open>t\<close>.\<close>

primrec finish_sum :: "int \<Rightarrow> int list \<Rightarrow> int" where
  "finish_sum t [] = 0"
| "finish_sum t (b # bs) = (t + b) + finish_sum (t + b) bs"

lemma finish_sum_front:
  "(\<forall>x \<in> set xs. m \<le> x) \<Longrightarrow> finish_sum t (m # xs @ ys) \<le> finish_sum t (xs @ m # ys)"
proof (induction xs arbitrary: t)
  case (Cons x xs)
  then have "finish_sum (t + x) (m # xs @ ys) \<le> finish_sum (t + x) (xs @ m # ys)" by simp
  moreover have "t + x + m = t + m + x" by simp
  ultimately show ?case using Cons.prems by (simp add: algebra_simps)
qed simp

lemma finish_sum_sorted:
  "sorted xs \<Longrightarrow> mset xs = mset ys \<Longrightarrow> finish_sum t xs \<le> finish_sum t ys"
proof (induction xs arbitrary: t ys)
  case Nil
  then show ?case by simp
next
  case (Cons m xs)
  have "m \<in> set ys" using mset_eq_setD [OF Cons.prems(2)] by auto
  then obtain as bs where ys: "ys = as @ m # bs" by (auto dest: split_list)
  have ms: "mset xs = mset (as @ bs)" using Cons.prems(2) ys by simp
  have "set as \<subseteq> set xs" using mset_eq_setD [OF ms] by auto
  then have "\<forall>x \<in> set as. m \<le> x" using Cons.prems(1) by auto
  then have "finish_sum t (m # as @ bs) \<le> finish_sum t ys" unfolding ys by (rule finish_sum_front)
  moreover have "finish_sum (t + m) xs \<le> finish_sum (t + m) (as @ bs)"
    using Cons.IH [OF _ ms] Cons.prems(1) by simp
  ultimately show ?case by simp
qed

definition total_tat :: "times list \<Rightarrow> int" where
  "total_tat out = sum_list (map (\<lambda>r. case r of None \<Rightarrow> 0 | Some (ct, tat, wt) \<Rightarrow> tat) out)"

lemma total_tat_update:
  "j < length out \<Longrightarrow> out ! j = None \<Longrightarrow> arrival p = 0 \<Longrightarrow>
    total_tat (out[j := times_of p ct]) = total_tat out + ct"
proof (induction out arbitrary: j)
  case (Cons r out)
  then show ?case
    by (cases j) (auto simp: total_tat_def times_of_def Let_def)
qed simp

definition left_over :: "process list \<Rightarrow> bool list \<Rightarrow> int list" where
  "left_over ps completed = map (burst \<circ> fst) (filter (\<lambda>pc. \<not> snd pc) (zip ps completed))"

lemma left_over_update:
  "length completed = length ps \<Longrightarrow> j < length ps \<Longrightarrow> \<not> completed ! j \<Longrightarrow>
    mset (left_over ps completed) = add_mset (burst (ps ! j)) (mset (left_over ps (completed[j := True])))"
proof (induction ps arbitrary: completed j)
  case (Cons p ps)
  obtain c cs where c: "completed = c # cs" using Cons.prems(1) by (cases completed) auto
  show ?case
  proof (cases j)
    case 0
    then show ?thesis using Cons.prems c by (simp add: left_over_def)
  next
    case (Suc i)
    then show ?thesis using Cons.IH [of cs i] Cons.prems c by (auto simp: left_over_def)
  qed
qed simp

lemma left_over_in:
  assumes "length completed = length ps" and "b \<in> set (left_over ps completed)"
  shows "\<exists>k < length ps. \<not> completed ! k \<and> b = burst (ps ! k)"
  using assms by (auto simp: left_over_def in_set_zip)

lemma left_over_none:
  assumes len: "length completed = length ps" and full: "\<not> length (filter id completed) < length ps"
  shows "left_over ps completed = []"
proof (rule ccontr)
  assume "left_over ps completed \<noteq> []"
  then obtain b where "b \<in> set (left_over ps completed)" by (cases "left_over ps completed") auto
  then obtain k where k: "k < length completed" "\<not> completed ! k" using left_over_in [OF len] len by auto
  have "length (filter id completed) < length completed"
    by (rule length_filter_less [OF nth_mem [OF k(1)]]) (simp add: k(2))
  then show False using full by (simp only: len)
qed

lemma sjf_sum:
  assumes "\<forall>p \<in> set ps. arrival p = 0 \<and> 0 \<le> burst p \<and> burst p < 99999"
  shows "length completed = length ps \<Longrightarrow> length out = length ps \<Longrightarrow> cnt = length (filter id completed)
    \<Longrightarrow> 0 \<le> t \<Longrightarrow> (\<forall>k < length ps. \<not> completed ! k \<longrightarrow> out ! k = None)
    \<Longrightarrow> sched_loop burst ps completed t cnt out = Some out'
    \<Longrightarrow> total_tat out' = total_tat out + finish_sum t (sort (left_over ps completed))"
proof (induction "length ps - cnt" arbitrary: completed t cnt out)
  case 0
  then have n: "\<not> cnt < length ps" by simp
  then have "\<not> length (filter id completed) < length ps" unfolding "0.prems"(3) .
  then have "left_over ps completed = []" by (rule left_over_none [OF "0.prems"(1)])
  then show ?case using "0.prems"(6) n by (simp add: sched_loop.simps)
next
  case (Suc n)
  have lt: "cnt < length ps" using Suc.hyps by simp
  show ?case
  proof (cases "pick burst t (zip ps completed) 0 99999 None")
    case None
    obtain k where k: "k < length ps" "\<not> completed ! k"
      using some_incomplete [of completed] lt Suc.prems by auto
    have "arrival (ps ! k) = 0" "burst (ps ! k) < 99999" using assms k by auto
    then show ?thesis using pick_None [OF None Suc.prems(1) k] Suc.prems(4) by simp
  next
    case (Some j)
    let ?b = "burst (ps ! j)" and ?c = "completed[j := True]"
    note j = pick_Some [OF Some Suc.prems(1)]
    have p: "arrival (ps ! j) = 0" "0 \<le> ?b" using assms j by auto
    have run: "sched_loop burst ps ?c (t + ?b) (cnt + 1) (out[j := times_of (ps ! j) (t + ?b)]) = Some out'"
      using Suc.prems(6) Some lt by (simp add: sched_loop.simps [of burst ps completed t])
    have "total_tat out' = total_tat (out[j := times_of (ps ! j) (t + ?b)])
        + finish_sum (t + ?b) (sort (left_over ps ?c))"
    proof (rule Suc.hyps(1) [OF _ _ _ _ _ _ run])
      show "n = length ps - (cnt + 1)" using Suc.hyps(2) by simp
      show "cnt + 1 = length (filter id ?c)" using count_list_update [of j completed] j Suc.prems by simp
      show "\<forall>k < length ps. \<not> ?c ! k \<longrightarrow> out[j := times_of (ps ! j) (t + ?b)] ! k = None"
      proof (intro allI impI)
        fix k
        assume "k < length ps" "\<not> ?c ! k"
        then show "out[j := times_of (ps ! j) (t + ?b)] ! k = None"
          using Suc.prems j by (cases "k = j") auto
      qed
    qed (use Suc.prems p in simp_all)
    also have "total_tat (out[j := times_of (ps ! j) (t + ?b)]) = total_tat out + (t + ?b)"
      using j Suc.prems p by (intro total_tat_update) auto
    finally have sum: "total_tat out' = total_tat out + (t + ?b) + finish_sum (t + ?b) (sort (left_over ps ?c))" .
    have "\<forall>b \<in> set (left_over ps ?c). ?b \<le> b"
    proof
      fix b
      assume "b \<in> set (left_over ps ?c)"
      then obtain k where k: "k < length ps" "\<not> ?c ! k" "b = burst (ps ! k)"
        using left_over_in [of ?c ps b] Suc.prems(1) by auto
      then have "\<not> completed ! k" using j Suc.prems(1) by (cases "k = j") auto
      moreover have "arrival (ps ! k) \<le> t" using assms k(1) Suc.prems(4) by auto
      ultimately show "?b \<le> b" using j k by auto
    qed
    then have "sort (left_over ps completed) = ?b # sort (left_over ps ?c)"
      using left_over_update [of completed ps j] j Suc.prems(1) by (intro properties_for_sort) simp_all
    then show ?thesis using sum by simp
  qed
qed

lemma fcfs_sum:
  "(\<forall>p \<in> set ps. arrival p = 0 \<and> 0 \<le> burst p) \<Longrightarrow> 0 \<le> t
    \<Longrightarrow> total_tat (fcfs_from t ps) = finish_sum t (map burst ps)"
  by (induction ps arbitrary: t) (auto simp: total_tat_def times_of_def Let_def)

lemma left_over_start: "left_over ps (replicate (length ps) False) = map burst ps"
  by (induction ps) (simp_all add: left_over_def)

lemma filter_id_replicate: "length (filter id (replicate n False)) = 0"
  by (induction n) simp_all

lemma sched_loop_starts:
  assumes "\<forall>p \<in> set ps. key p < 99999"
  shows "\<exists>out. sched_loop key ps (replicate (length ps) False) 0 0 (replicate (length ps) None) = Some out"
proof -
  have "\<exists>m. \<forall>p \<in> set ps. arrival p \<le> m"
    by (rule exI [of _ "Max (arrival ` set ps)"]) simp
  then obtain m where "\<forall>p \<in> set ps. arrival p \<le> m" by blast
  then show ?thesis using assms filter_id_replicate [of "length ps"] by (intro sched_loop_returns) simp_all
qed

section \<open>Round robin ends\<close>

text \<open>What is left to do: the remaining bursts, and the time until the last arrival.\<close>

definition rr_left :: "int \<Rightarrow> int \<Rightarrow> int list \<Rightarrow> nat" where
  "rr_left m t rem = sum_list (map nat rem) + nat (m - t)"

lemma sum_nat_update:
  "i < length rem \<Longrightarrow> r < rem ! i \<Longrightarrow> 0 < rem ! i \<Longrightarrow>
    sum_list (map nat (rem[i := r])) < sum_list (map nat rem)"
proof (induction rem arbitrary: i)
  case (Cons x rem)
  then show ?case by (cases i) auto
qed simp

lemma rr_pass_left:
  assumes "\<forall>i \<in> set is. i < length ps" and "\<forall>p \<in> set ps. arrival p \<le> m"
  shows "length rem = length ps \<Longrightarrow> rr_pass ps is t rem out fin = (t', rem', out', fin') \<Longrightarrow>
    length rem' = length ps \<and> rr_left m t' rem' \<le> rr_left m t rem
    \<and> (fin' \<or> \<not> fin \<or> rr_left m t' rem' < rr_left m t rem)"
  using assms(1)
proof (induction "is" arbitrary: t rem out fin)
  case Nil
  then show ?case by simp
next
  case (Cons i "is")
  have i: "i < length rem" using Cons.prems by simp
  show ?case
  proof (cases "rem ! i > 0")
    case False
    then show ?thesis using Cons by simp
  next
    case pos: True
    show ?thesis
    proof (cases "arrival (ps ! i) \<le> t")
      case True
      define t1 where "t1 = (if rem ! i > QUANTUM then t + QUANTUM else t + rem ! i)"
      define r1 where "r1 = (if rem ! i > QUANTUM then rem ! i - QUANTUM else 0)"
      define o1 where "o1 = (if rem ! i > QUANTUM then out else out[i := times_of (ps ! i) (t + rem ! i)])"
      have "rr_pass ps is t1 (rem[i := r1]) o1 False = (t', rem', out', fin')"
        using Cons.prems(2) pos True by (simp add: t1_def r1_def o1_def split: if_splits)
      then have "length rem' = length ps \<and> rr_left m t' rem' \<le> rr_left m t1 (rem[i := r1])"
        using Cons.IH [of "rem[i := r1]" t1 o1 False] Cons.prems by simp
      moreover have "sum_list (map nat (rem[i := r1])) < sum_list (map nat rem)"
        by (rule sum_nat_update [OF i]) (use pos in \<open>simp_all add: r1_def QUANTUM_def\<close>)
      moreover have "nat (m - t1) \<le> nat (m - t)"
        using pos unfolding t1_def QUANTUM_def by (intro nat_mono) simp
      ultimately have "length rem' = length ps" "rr_left m t' rem' < rr_left m t rem"
        unfolding rr_left_def by linarith+
      then show ?thesis by simp
    next
      case False
      have "rr_pass ps is (t + 1) rem out False = (t', rem', out', fin')"
        using Cons.prems(2) pos False by simp
      then have "length rem' = length ps \<and> rr_left m t' rem' \<le> rr_left m (t + 1) rem"
        using Cons.IH [of rem "t + 1" out False] Cons.prems by simp
      moreover have "arrival (ps ! i) \<le> m" using assms(2) i Cons.prems(1) by simp
      then have "nat (m - (t + 1)) < nat (m - t)" using False by simp
      then have "rr_left m (t + 1) rem < rr_left m t rem" unfolding rr_left_def by linarith
      ultimately show ?thesis by linarith
    qed
  qed
qed

lemma rr_loop_returns:
  assumes "\<forall>p \<in> set ps. arrival p \<le> m"
  shows "length rem = length ps \<Longrightarrow> \<exists>out'. rr_loop ps t rem out = Some out'"
proof (induction "rr_left m t rem" arbitrary: t rem out rule: less_induct)
  case less
  obtain t' rem' out' fin where p: "rr_pass ps [0..<length ps] t rem out True = (t', rem', out', fin)"
    by (cases "rr_pass ps [0..<length ps] t rem out True") auto
  have l: "length rem' = length ps \<and> (fin \<or> rr_left m t' rem' < rr_left m t rem)"
    using rr_pass_left [OF _ assms less.prems p] by simp
  show ?case
  proof (cases fin)
    case True
    then show ?thesis using p by (simp add: rr_loop.simps [of ps t])
  next
    case False
    then have "\<exists>o'. rr_loop ps t' rem' out' = Some o'" using less.hyps [of t' rem'] l by simp
    then show ?thesis using p False by (simp add: rr_loop.simps [of ps t])
  qed
qed

section \<open>Properties\<close>

text \<open>
  Property C33: the loop of \<open>sjf\<close> ends exactly when every burst is below 99999, the value its search for
  the minimum starts from, whatever the arrival times: it waits for the processes that have not
  arrived, but a process with a longer burst is never chosen and the loop runs forever.
\<close>

theorem sjf_returns_iff:
  "(\<exists>out. sjf ps = Some out) = (\<not> (\<exists>p \<in> set ps. 99999 \<le> burst p))"
proof
  assume "\<exists>out. sjf ps = Some out"
  then obtain out where "sjf ps = Some out" by blast
  then have ns: "\<not> stuck burst ps (replicate (length ps) False) 0"
    unfolding sjf_def by (rule sched_loop_not_stuck)
  show "\<not> (\<exists>p \<in> set ps. 99999 \<le> burst p)"
  proof
    assume "\<exists>p \<in> set ps. 99999 \<le> burst p"
    then obtain k where "k < length ps" "99999 \<le> burst (ps ! k)" by (auto simp: in_set_conv_nth)
    then have "stuck burst ps (replicate (length ps) False) 0"
      unfolding stuck_def filter_id_replicate by (intro conjI exI [of _ k]) simp_all
    then show False using ns by simp
  qed
next
  assume "\<not> (\<exists>p \<in> set ps. 99999 \<le> burst p)"
  then have "\<forall>p \<in> set ps. burst p < 99999" by force
  then show "\<exists>out. sjf ps = Some out" unfolding sjf_def by (rule sched_loop_starts)
qed

text \<open>
  Property C32: shortest job first is optimal. For processes that are all there at time 0, the sum of
  the turnaround times \<open>sjf\<close> computes (and so their average) is at most that of \<open>fcfs\<close> on the same
  processes in any order.
\<close>

theorem sjf_minimises_turnaround:
  assumes "\<forall>p \<in> set ps. arrival p = 0 \<and> 0 \<le> burst p \<and> burst p < 99999" and "mset qs = mset ps"
  shows "\<exists>out. sjf ps = Some out \<and> total_tat out \<le> total_tat (fcfs qs)"
proof -
  obtain out where out: "sjf ps = Some out"
    using sched_loop_starts [of ps burst] assms(1) unfolding sjf_def by blast
  have "total_tat out = total_tat (replicate (length ps) None) + finish_sum 0 (sort (map burst ps))"
    using sjf_sum [OF assms(1) _ _ _ _ _ out [unfolded sjf_def]] filter_id_replicate [of "length ps"]
    by (simp add: left_over_start)
  also have "total_tat (replicate (length ps) None) = 0" by (simp add: total_tat_def sum_list_replicate)
  finally have s: "total_tat out = finish_sum 0 (sort (map burst ps))" by simp
  have "set qs = set ps" using assms(2) by (rule mset_eq_setD)
  then have "total_tat (fcfs qs) = finish_sum 0 (map burst qs)"
    unfolding fcfs_def using assms(1) by (intro fcfs_sum) auto
  moreover have "mset (sort (map burst ps)) = mset (map burst qs)" using assms(2) by simp
  then have "finish_sum 0 (sort (map burst ps)) \<le> finish_sum 0 (map burst qs)"
    by (intro finish_sum_sorted) simp_all
  ultimately show ?thesis using out s by (intro exI [of _ out]) simp
qed

theorem sjf_minimises_turnaround_witness:
  "\<exists>out. sjf [\<lparr>pid = 1, arrival = 0, burst = 8, prio = 1\<rparr>, \<lparr>pid = 2, arrival = 0, burst = 3, prio = 2\<rparr>] = Some out
    \<and> total_tat out \<le> total_tat (fcfs [\<lparr>pid = 2, arrival = 0, burst = 3, prio = 2\<rparr>, \<lparr>pid = 1, arrival = 0, burst = 8, prio = 1\<rparr>])"
  by (rule sjf_minimises_turnaround) (simp_all add: add_mset_commute)

text \<open>
  the loop of \<open>rr\<close> ends for every list of processes, whatever their arrival times and
  bursts: every pass either finds nothing left, or uses up a part of a burst, or brings the time
  closer to the last arrival.
\<close>

theorem rr_returns: "\<exists>out. rr ps = Some out"
proof -
  have "\<forall>p \<in> set ps. arrival p \<le> Max (arrival ` set ps)" by simp
  then show ?thesis unfolding rr_def by (rule rr_loop_returns) simp
qed

end
