(* ===== verification/Spec2Isabelle.thy ===== *)
theory Spec2Isabelle
  imports KArray KBitmap KQueue UserCopy Uio Lhd SfsDisk SfsAlloc SfsFile SfsTrunc SfsDir SfsVnode SfsVol SfsName SfsRename SfsMount SfsMem Vfs VfsRefs VfsCalls VfsVolume Device VfsKernel PageRep Vm KHeap KFree VmSpace VmFault ThreadStack ThreadStep SchedSim
begin

text \<open>
  Verification of the operating system of the repository and of two of the simulators that come with it.

  \<^bold>\<open>The program.\<close> src/CSE5305/ryan-peter is an OS/161 kernel for the MIPS machine of the System/161
  simulator: kernel threads with a round-robin scheduler and semaphores, a virtual memory system with
  demand-zero pages (written by the students), a kernel heap, the simple file system sfs on the disk
  driver lhd, the VFS layer above it, and the library routines below them. src/CSE4300 holds student projects; the page
  replacement simulator (Shahariar-project) and the scheduling simulator
  (jesse-cindhy-ervin/ervin_schedulingmethodstester) are modelled too.

  \<^bold>\<open>How the parts interact.\<close> A disk block reaches sfs through \<open>sfs_rwblock\<close>, which retries the driver
  (\<open>Lhd\<close>); sfs keeps its free blocks in a bitmap (\<open>KBitmap\<close>) and its vnodes in a pointer array
  (\<open>KArray\<close>); file data moves through uio descriptors (\<open>Uio\<close>) and these through \<open>copyin\<close> and
  \<open>copyout\<close> (\<open>UserCopy\<close>). The VFS layer reaches sfs and devices through their tables of functions and
  counts the references to their vnodes. The heap takes its pages from the page allocator, whose table lives in the
  memory it manages, and the page tables of an address space live in the heap. The scheduler keeps
  the ready threads in a queue (\<open>KQueue\<close>) and the sleepers and zombies in pointer arrays; timer
  interrupts enter it through the trap handler.

  \<^bold>\<open>How code is modelled.\<close> A C routine is a function from a state to an \<open>outcome\<close> (\<open>KPrelude\<close>):
  \<open>Done\<close>, an error number with the state it leaves, or \<open>Panic\<close> for a failed assertion or a call of
  \<open>panic\<close>. Structs are records, pointers to heap objects are addresses in a map, tables are the
  modelled arrays. Numbers wrap where the code can wrap them (\<open>u32\<close>, \<open>off32\<close>, \<open>sub32\<close>, word types);
  the result of an allocation is either computed (heap and page allocator) or a list of outcomes, so
  that every failure is covered. \<open>wp m Q R s\<close> says that \<open>m\<close> does not panic from \<open>s\<close>, that \<open>Q\<close> holds when it
  succeeds and \<open>R\<close> when it fails.

  \<^bold>\<open>The theories\<close> (paths below src/CSE5305/ryan-peter/kern unless given in full).

  \<^item> \<open>KPrelude\<close>: error numbers (include/kern/errno.h), outcomes, \<open>wp\<close>, 32-bit arithmetic, lists.
  \<^item> \<open>KArray\<close> (lib/array.c), \<open>KBitmap\<close> (lib/bitmap.c), \<open>KQueue\<close> (lib/queue.c): each with its invariant,
    its refinement to a list or a set, and the interface (a locale, interpreted on the code) its clients
    use. A queue of \<open>n\<close> cells holds \<open>n - 1\<close> elements and at most 536870911 are reached in 32 bits.
  \<^item> \<open>UserCopy\<close> (lib/copyinout.c), \<open>Uio\<close> (userprog/uio.c): what is transferred, and every fault.
  \<^item> \<open>Lhd\<close> (dev/lamebus/lhd.c, fs/sfs/sfs_io.c): the driver, its interrupt handler and the retry loop;
    the disk is its sectors and the status values its coming interrupts will show.
  \<^item> \<open>SfsDisk\<close> (include/kern/sfs.h): the structs of the disk format, and the bytes of 512-byte blocks the
    compiler lays them out as.
  \<^item> \<open>SfsAlloc\<close>, \<open>SfsFile\<close>, \<open>SfsTrunc\<close>, \<open>SfsDir\<close>, \<open>SfsVnode\<close> (fs/sfs/sfs_vnode.c, fs/vfs/vnode.c): block
    allocation and mapping, reading and writing, truncation, directories, and all vnode operations.
    A file is refined to its contents, a function from positions to bytes with a size; a directory to a
    map from names to inode numbers.
  \<^item> \<open>SfsVol\<close>, \<open>SfsName\<close>: the invariant of a volume, disk and memory together (every block in use has
    exactly one owner or is one of the lost blocks; link counts are the numbers of names), and that loading, creating, linking,
    removing and releasing keep it.
    \<open>SfsRename\<close>: renaming keeps it too, and moves one name.
  \<^item> \<open>SfsMount\<close> (fs/sfs/sfs_fs.c): sync, mount, unmount.
  \<^item> \<open>Vfs\<close> (fs/vfs/vfslist.c, vfslookup.c, vfscwd.c, vfspath.c): the table of devices and mounts, path
    names, the current directory, and the calls on path names, over the table of functions \<open>fs_ops\<close> that
    file systems and devices fill. \<open>VfsRefs\<close>, \<open>VfsCalls\<close>: the contract of vnode.h on references as the
    locale \<open>file_layer\<close>, and what the layer does with references under it, for single calls and for
    sequences of calls. \<open>vfs_link\<close>, \<open>vfs_readlink\<close>, \<open>vfs_getcwd\<close>, mounting and unmounting are modelled but
    not part of these sequences.
  \<^item> \<open>SfsMem\<close>, \<open>VfsVolume\<close>: the vnode operations of sfs keep the contract on a consistent volume. \<open>Device\<close>
    (fs/vfs/device.c, devnull.c): devices as files. \<open>VfsKernel\<close>: the kernel's tables with mounted volumes
    and devices, on which \<open>file_layer\<close> is interpreted; the start of the layer; names in the device table.
  \<^item> \<open>Vm\<close> (arch/mips/mips/ram.c, spl.c, vm.c): stealing of pages at boot, interrupt levels, the page
    allocator. \<open>KHeap\<close>, \<open>KFree\<close> (lib/kheap.c): \<open>kmalloc\<close> and \<open>kfree\<close> over the page
    allocator, with the invariant of the size-class lists and the free lists inside the pages.
  \<^item> \<open>VmSpace\<close>, \<open>VmFault\<close> (vm/addrspace.c, arch/mips/mips/vm.c): address spaces, two-level page tables in
    the heap, the TLB and the fault handler.
  \<^item> \<open>Threads\<close>, \<open>ThreadStack\<close>, \<open>ThreadInv\<close>, \<open>ThreadCalls\<close>, \<open>ThreadStep\<close> (thread/thread.c, scheduler.c,
    synch.c, hardclock.c, arch/mips/mips/pcb.c, trap.c, interrupt.c): the code of a thread after it has given
    up the processor is a frame of its kernel stack; the machine is a step relation of calls, interrupts and
    frames, its invariant is proved for every reachable state. \<open>ThreadStack\<close> is the part of it that says
    which page each kernel stack is in and that \<open>curkstack\<close> and the pcbs follow the switches, which the
    assertions of \<open>mips_trap\<close> test. The address of a trap frame is an argument of the interrupt, anywhere in
    the page of the stack in use: the depth of compiled calls is not modelled, so that no stack overflows
    is assumed.
  \<^item> \<open>PageRep\<close> (src/CSE4300/Shahariar-project/page_replacement.c): FIFO, random, LRU and MIN, each in the
    two copies the code has, for counting and for the printed trace; the optimality of MIN and the
    agreement of the copies. \<open>SchedSim\<close>: FCFS, SJF, priority and round robin, with the optimality of SJF and
    when the loops end.

  \<^bold>\<open>Bounds and fuel.\<close> Loops are recursions over the list of indices still to visit, or over the data,
  so they end by construction. Fuel is used where C follows pointers: the lists of page references of
  the heap are walked with fuel \<open>NPAGEREFS\<close>, the size of their pool, which bounds a list without
  repetition; \<open>thread_wakeup\<close> has the number of sleepers as fuel, since each turn removes one or moves
  on; draining the run queue has the size of the queue. The scan of the page table and of free lists
  ends at their ends. The loops of the simulators are partial functions, with theorems that say when
  they return. The thread invariant needs fewer than \<open>2\<^sup>2\<^sup>0\<close> threads, which memory enforces long
  before (each has a stack of one page).

  \<^bold>\<open>What the properties show.\<close> Those of sfs assume a disk that reports no errors (\<open>fs_wf\<close>): reading and
  writing are those of a byte sequence, name operations those of a map, and no block gets two owners.
  Blocks are lost in two cases, which the properties state: creating a file without memory for its vnode
  leaves the block of the inode marked in use, and truncation into the range of the indirect block keeps
  the first block past the new end. Those of the VFS layer: whatever
  processes call, each vnode counts exactly its holders, and device names stay unique. Those of memory: an allocated
  block is fresh, freeing is exact, a fault shows a zeroed or the old page, destroying a space returns
  all of it; where a new page is needed they assume that one is free, since \<open>alloc_kpages\<close> does not report
  that memory is full. Those of threads: each thread is in one place, no wakeup is lost, nothing panics with memory
  available and legal calls, a ready thread gets its turn, stacks stay well formed. Several properties state what the
  code does wrong: a disk error in a write is reported as success, \<open>kmalloc\<close> of a large block out of
  memory returns the address of page 0, \<open>thread_yield\<close> can panic without memory, and others.

  \<^bold>\<open>Not modelled.\<close> The assembly files (the context switch is the exchange of the current stack);
  locks and condition variables, whose routines are empty in this kernel; device drivers other than
  the disk (their behaviour is that of the hardware); the trap handler beyond interrupts, and program
  loading, since the kernel has no system calls but reboot; printing, the menu and the tests; user
  programs and their C library; the other student projects (C++, Python, copies of Linux files, and
  simulators driven by random numbers, sleeping or real threads).
\<close>

end
